(* ===== verification/LK_Prelude.thy ===== *)
theory LK_Prelude
  imports Main "HOL-Library.Word" "HOL-Library.Monad_Syntax"
begin

text \<open>
  Shared vocabulary of the LK development: the machine types and status codes of
  \<^verbatim>\<open>include/err.h\<close> and \<^verbatim>\<open>include/sys/types.h\<close>, the panic monad (\<open>None\<close> is a failed
  \<open>DEBUG_ASSERT\<close>, a \<open>panic\<close> or a dereference of an invalid pointer), the power-of-two helpers
  of \<^verbatim>\<open>include/pow2.h\<close>, and generic facts on lists, options and words that the component
  theories use.
\<close>

unbundle bit_operations_syntax

section \<open>Types and status codes\<close>

type_synonym u8 = "8 word"
type_synonym u32 = "32 word"
type_synonym u64 = "64 word"

text \<open>\<open>status_t\<close> is an \<open>int\<close>; the codes used by the modelled code, by name.\<close>

abbreviation (input) NO_ERROR :: int where "NO_ERROR \<equiv> 0"
abbreviation (input) ERR_GENERIC :: int where "ERR_GENERIC \<equiv> - 1"
abbreviation (input) ERR_NOT_FOUND :: int where "ERR_NOT_FOUND \<equiv> - 2"
abbreviation (input) ERR_NOT_READY :: int where "ERR_NOT_READY \<equiv> - 3"
abbreviation (input) ERR_NO_MSG :: int where "ERR_NO_MSG \<equiv> - 4"
abbreviation (input) ERR_NO_MEMORY :: int where "ERR_NO_MEMORY \<equiv> - 5"
abbreviation (input) ERR_INVALID_ARGS :: int where "ERR_INVALID_ARGS \<equiv> - 8"
abbreviation (input) ERR_NOT_ENOUGH_BUFFER :: int where "ERR_NOT_ENOUGH_BUFFER \<equiv> - 9"
abbreviation (input) ERR_NOT_SUSPENDED :: int where "ERR_NOT_SUSPENDED \<equiv> - 10"
abbreviation (input) ERR_OBJECT_DESTROYED :: int where "ERR_OBJECT_DESTROYED \<equiv> - 11"
abbreviation (input) ERR_NOT_BLOCKED :: int where "ERR_NOT_BLOCKED \<equiv> - 12"
abbreviation (input) ERR_TIMED_OUT :: int where "ERR_TIMED_OUT \<equiv> - 13"
abbreviation (input) ERR_ALREADY_EXISTS :: int where "ERR_ALREADY_EXISTS \<equiv> - 14"
abbreviation (input) ERR_NOT_ALLOWED :: int where "ERR_NOT_ALLOWED \<equiv> - 17"
abbreviation (input) ERR_IO :: int where "ERR_IO \<equiv> - 20"
abbreviation (input) ERR_NOT_SUPPORTED :: int where "ERR_NOT_SUPPORTED \<equiv> - 24"
abbreviation (input) ERR_TOO_BIG :: int where "ERR_TOO_BIG \<equiv> - 25"
abbreviation (input) ERR_CANCELLED :: int where "ERR_CANCELLED \<equiv> - 26"
abbreviation (input) ERR_BUSY :: int where "ERR_BUSY \<equiv> - 33"
abbreviation (input) ERR_THREAD_DETACHED :: int where "ERR_THREAD_DETACHED \<equiv> - 34"
abbreviation (input) ERR_OUT_OF_RANGE :: int where "ERR_OUT_OF_RANGE \<equiv> - 37"
abbreviation (input) ERR_BAD_HANDLE :: int where "ERR_BAD_HANDLE \<equiv> - 42"
abbreviation (input) ERR_PARTIAL_WRITE :: int where "ERR_PARTIAL_WRITE \<equiv> - 44"

section \<open>Assertions\<close>

text \<open>
  \<open>DEBUG_ASSERT\<close> panics when its condition is false; a panicking computation has the value
  \<open>None\<close>, and \<open>Option.bind\<close> (the do-notation of \<open>Monad_Syntax\<close>) passes it on.
\<close>

definition DEBUG_ASSERT :: "bool \<Rightarrow> unit option" where
  "DEBUG_ASSERT b = (if b then Some () else None)"

lemma DEBUG_ASSERT_bind [simp]:
  "Option.bind (DEBUG_ASSERT b) f = (if b then f () else None)"
  by (simp add: DEBUG_ASSERT_def)

text \<open>
  \<open>wp m Q\<close> is total correctness of a computation that may panic: \<open>m\<close> does not panic and its
  result satisfies \<open>Q\<close>. The equations below turn it into a verification condition generator that
  runs by \<open>simp\<close>.
\<close>

definition wp :: "'a option \<Rightarrow> ('a \<Rightarrow> bool) \<Rightarrow> bool" where
  "wp m Q \<longleftrightarrow> (case m of None \<Rightarrow> False | Some x \<Rightarrow> Q x)"

lemma wp_simps [simp]:
  "wp (Some x) Q \<longleftrightarrow> Q x"
  "\<not> wp None Q"
  "wp (Option.bind m f) Q \<longleftrightarrow> wp m (\<lambda>x. wp (f x) Q)"
  by (auto simp: wp_def split: option.splits)

lemma wp_if: "wp (if b then m else m') Q \<longleftrightarrow> (if b then wp m Q else wp m' Q)"
  by simp

lemma wp_mono: "wp m P \<Longrightarrow> (\<And>x. P x \<Longrightarrow> Q x) \<Longrightarrow> wp m Q"
  by (auto simp: wp_def split: option.splits)

lemma wp_ex: "wp m Q \<longleftrightarrow> (\<exists>x. m = Some x \<and> Q x)"
  by (auto simp: wp_def split: option.splits)

lemma wp_ex2: "wp m (\<lambda>(x, y). Q x y) \<longleftrightarrow> (\<exists>x y. m = Some (x, y) \<and> Q x y)"
  by (auto simp: wp_ex)

lemma wp_ex3: "wp m (\<lambda>(x, y, z). Q x y z) \<longleftrightarrow> (\<exists>x y z. m = Some (x, y, z) \<and> Q x y z)"
  by (auto simp: wp_ex)

lemma wp_conj: "wp m P \<Longrightarrow> wp m Q \<Longrightarrow> wp m (\<lambda>x. P x \<and> Q x)"
  by (auto simp: wp_def split: option.splits)

section \<open>Generic facts\<close>

named_theorems lk_defs "definitions of the model that proofs unfold together"

lemma remove1_sublist [simp]: "x \<notin> set xs \<Longrightarrow> remove1 x (xs @ x # ys) = xs @ ys"
  by (induction xs) auto

lemma remove1_append_notin [simp]: "x \<notin> set xs \<Longrightarrow> remove1 x (xs @ ys) = xs @ remove1 x ys"
  by (induction xs) auto

lemma set_remove1_distinct: "distinct xs \<Longrightarrow> set (remove1 x xs) = set xs - {x}"
  by simp

lemma remove1_length_in: "x \<in> set xs \<Longrightarrow> Suc (length (remove1 x xs)) = length xs"
  by (induction xs) auto

section \<open>Regions of memory\<close>

text \<open>\<open>memcpy\<close> into a region of memory; a range outside it is undefined.\<close>

definition memcpy_at :: "nat \<Rightarrow> 'a list \<Rightarrow> 'a list \<Rightarrow> 'a list" where
  "memcpy_at i xs m = take i m @ xs @ drop (i + length xs) m"

definition store_at :: "nat \<Rightarrow> 'a list \<Rightarrow> 'a list \<Rightarrow> 'a list option" where
  "store_at i xs m = (if i + length xs \<le> length m then Some (memcpy_at i xs m) else None)"

definition load_at :: "nat \<Rightarrow> nat \<Rightarrow> 'a list \<Rightarrow> 'a list option" where
  "load_at i n m = (if i + n \<le> length m then Some (take n (drop i m)) else None)"

lemma memcpy_at_length [simp]: "i + length xs \<le> length m \<Longrightarrow> length (memcpy_at i xs m) = length m"
  by (simp add: memcpy_at_def)

lemma memcpy_at_Nil [simp]: "memcpy_at i [] m = m"
  by (simp add: memcpy_at_def)

lemma memcpy_at_Cons:
  assumes "i < length m"
  shows "memcpy_at i (x # xs) m = memcpy_at (Suc i) xs (m[i := x])"
proof -
  have "take (Suc i) (m[i := x]) = take i m @ [x]" using assms by (simp add: take_Suc_conv_app_nth)
  moreover have "drop (Suc i + length xs) (m[i := x]) = drop (i + length (x # xs)) m" by simp
  ultimately show ?thesis by (simp add: memcpy_at_def)
qed

lemma nth_memcpy_at:
  "i + length xs \<le> length m \<Longrightarrow> k < length m \<Longrightarrow>
   memcpy_at i xs m ! k = (if i \<le> k \<and> k < i + length xs then xs ! (k - i) else m ! k)"
  by (auto simp: memcpy_at_def nth_append min_def)

lemma memcpy_at_take: "i + length xs \<le> n \<Longrightarrow> n \<le> length m \<Longrightarrow> take n (memcpy_at i xs m) = memcpy_at i xs (take n m)"
  by (cases "n = i") (auto simp: memcpy_at_def min_def take_drop)

section \<open>Powers of two (include/pow2.h)\<close>

text \<open>
  \<open>__builtin_clz\<close> on a 32-bit operand: the number of leading zero bits. GCC leaves it
  undefined at 0; the model gives 32 there, and no caller relies on it.
\<close>

definition builtin_clz :: "u32 \<Rightarrow> nat" where
  "builtin_clz w = length (takeWhile (\<lambda>i. \<not> bit w i) (rev [0..<32]))"

definition ispow2 :: "u32 \<Rightarrow> bool" where
  "ispow2 val \<longleftrightarrow> ((val - 1) AND val) = 0"

definition log2_uint :: "u32 \<Rightarrow> nat" where
  "log2_uint val = (if val = 0 then 0 else 32 - 1 - builtin_clz val)"

definition valpow2 :: "nat \<Rightarrow> u32" where
  "valpow2 valp2 = push_bit valp2 1"

definition divpow2 :: "u32 \<Rightarrow> nat \<Rightarrow> u32" where
  "divpow2 val divp2 = drop_bit divp2 val"

definition modpow2 :: "u32 \<Rightarrow> nat \<Rightarrow> u32" where
  "modpow2 val modp2 = (val AND (push_bit modp2 1 - 1))"

lemma takeWhile_rev_upt_highest:
  "\<exists>i<n. P i \<Longrightarrow> n - 1 - length (takeWhile (\<lambda>i. \<not> P i) (rev [0..<n])) = k
   \<Longrightarrow> k < n \<and> P k \<and> (\<forall>j. k < j \<and> j < n \<longrightarrow> \<not> P j)"
proof (induction n arbitrary: k)
  case 0 then show ?case by simp
next
  case (Suc n)
  show ?case
  proof (cases "P n")
    case True
    then show ?thesis using Suc.prems(2) by (auto simp: less_Suc_eq)
  next
    case False
    then have ex: "\<exists>i<n. P i" using Suc.prems(1) less_Suc_eq by auto
    have "n - 1 - length (takeWhile (\<lambda>i. \<not> P i) (rev [0..<n])) = k"
      using False Suc.prems(2) by simp
    from Suc.IH[OF ex this] have "k < n" "P k" "\<forall>j. k < j \<and> j < n \<longrightarrow> \<not> P j" by blast+
    with False show ?thesis using less_Suc_eq by auto
  qed
qed

lemma bit_word32_lt: "bit (w::u32) i \<Longrightarrow> i < 32"
  using bit_imp_le_length[of w i] by simp

lemma word32_nonzero_bit: "(w::u32) \<noteq> 0 \<Longrightarrow> \<exists>i<32. bit w i"
  using bit_word32_lt by (metis bit_0_eq bit_word_eqI bot_apply bot_bool_def)

lemma log2_uint_top:
  assumes "w \<noteq> 0"
  shows "log2_uint w < 32 \<and> bit w (log2_uint w) \<and> (\<forall>j. log2_uint w < j \<longrightarrow> \<not> bit w j)"
proof -
  have "32 - 1 - length (takeWhile (\<lambda>i. \<not> bit w i) (rev [0..<32])) = log2_uint w"
    using assms by (simp add: log2_uint_def builtin_clz_def del: upt_rec_numeral)
  from takeWhile_rev_upt_highest[OF word32_nonzero_bit[OF assms] this]
  show ?thesis using bit_word32_lt by metis
qed

lemma modpow2_take_bit: "modpow2 v k = take_bit k v"
  by (simp add: modpow2_def take_bit_eq_mask mask_eq_exp_minus_1 push_bit_eq_mult)

lemma unat_modpow2: "unat (modpow2 v k) = unat v mod 2 ^ k"
  unfolding modpow2_take_bit by (simp add: unsigned_take_bit_eq flip: take_bit_eq_mod)

lemma bit_word_unat: "bit (w::u32) k \<longleftrightarrow> odd (unat w div 2 ^ k)"
proof -
  have "bit w k \<longleftrightarrow> bit (unat w) k"
    using bit_word32_lt[of w k] by (auto simp: bit_unsigned_iff)
  then show ?thesis by (simp add: bit_iff_odd)
qed

lemma log2_uint_bounds:
  assumes "w \<noteq> 0"
  shows "2 ^ log2_uint w \<le> unat w" "unat w < 2 ^ Suc (log2_uint w)"
proof -
  let ?k = "log2_uint w"
  note top = log2_uint_top[OF assms]
  from top have "odd (unat w div 2 ^ ?k)" by (simp add: bit_word_unat)
  then have "unat w div 2 ^ ?k \<noteq> 0" by (metis even_zero)
  then show "2 ^ ?k \<le> unat w" by (simp add: div_eq_0_iff not_less)
  have "bit w n \<Longrightarrow> n < Suc ?k" for n using top by (meson not_less_eq)
  then have "take_bit (Suc ?k) w = w"
    by (intro bit_word_eqI) (auto simp: bit_take_bit_iff)
  then have "unat w mod 2 ^ Suc ?k = unat w"
    by (metis unat_modpow2 modpow2_take_bit)
  then show "unat w < 2 ^ Suc ?k" by (metis mod_less_divisor zero_less_numeral zero_less_power)
qed

lemma bit_between: "2 ^ k \<le> unat (w::u32) \<Longrightarrow> unat w < 2 ^ Suc k \<Longrightarrow> bit w k"
proof -
  assume a: "2 ^ k \<le> unat w" "unat w < 2 ^ Suc k"
  then have "unat w div 2 ^ k = 1"
    by (metis One_nat_def Suc_1 div_nat_eqI mult.commute mult_1 mult_Suc_right power_Suc add.commute mult_2)
  then show ?thesis by (simp add: bit_word_unat)
qed

lemma ispow2_log2:
  assumes "ispow2 w" "w \<noteq> 0"
  shows "unat w = 2 ^ log2_uint w"
proof (rule ccontr)
  let ?k = "log2_uint w"
  note b = log2_uint_bounds[OF assms(2)]
  assume "unat w \<noteq> 2 ^ ?k"
  with b have gt: "2 ^ ?k < unat w" by simp
  have "unat (w - 1) = unat w - 1"
    using assms(2) by (simp add: unat_minus_one)
  with gt b have "bit (w - 1) ?k" by (intro bit_between) auto
  moreover have "bit w ?k" using log2_uint_top[OF assms(2)] by blast
  ultimately have "bit ((w - 1) AND w) ?k" by (simp add: bit_and_iff)
  with assms(1) show False by (simp add: ispow2_def)
qed

section \<open>32-bit words as numbers\<close>

lemma unat32_sub: "unat (x - y :: u32) = (if unat y \<le> unat x then unat x - unat y else unat x + 2 ^ 32 - unat y)"
  by (simp add: unat_sub_if')

lemma unat32_lt: "unat (x :: u32) < 2 ^ 32"
  using unsigned_less[of x] by simp

lemma unat_minus_1: "x \<noteq> 0 \<Longrightarrow> unat (x - 1 :: u32) = unat x - 1"
  by (simp add: unat_minus_one)

lemma of_nat_unat_id: "of_nat (unat x) = (x :: u32)"
  by simp

lemma sint_of_nat32: "n < 2 ^ 31 \<Longrightarrow> sint (of_nat n :: u32) = int n"
  by (simp add: sint_uint unsigned_of_nat take_bit_nat_eq_self signed_take_bit_int_eq_self)

lemma pow2_and: "al = 0 \<or> unat al = 2 ^ k \<Longrightarrow> (al :: u32) AND (al - 1) = 0"
proof (cases "al = 0")
  case False
  assume "al = 0 \<or> unat al = 2 ^ k"
  then have "unat al = 2 ^ k" using False by simp
  then have a: "al = 2 ^ k" using of_nat_unat_id[of al] by (metis of_nat_numeral of_nat_power)
  have "2 ^ k AND mask k = take_bit k (2 ^ k :: u32)" by (simp add: take_bit_eq_mask)
  moreover have "take_bit k (2 ^ k :: u32) = 0" by (rule bit_word_eqI) (auto simp: bit_simps)
  ultimately show ?thesis unfolding a by (simp add: mask_eq_exp_minus_1)
qed simp

lemma sint32_small: "unat (w :: u32) < 2 ^ 31 \<Longrightarrow> sint w = int (unat w)"
  using sint_of_nat32[of "unat w"] by simp

section \<open>Copying within lists\<close>

lemma memcpy_at_append:
  "i + length ys + length zs \<le> length m \<Longrightarrow> memcpy_at i (ys @ zs) m = memcpy_at (i + length ys) zs (memcpy_at i ys m)"
  by (rule nth_equalityI) (auto simp: nth_memcpy_at nth_append)

lemma memcpy_at_nested:
  assumes "k + length ys \<le> n" "i + n \<le> length m"
  shows "memcpy_at i (memcpy_at k ys (take n (drop i m))) m = memcpy_at (i + k) ys m"
proof (rule nth_equalityI)
  show "length (memcpy_at i (memcpy_at k ys (take n (drop i m))) m) = length (memcpy_at (i + k) ys m)" using assms by simp
  fix j assume "j < length (memcpy_at i (memcpy_at k ys (take n (drop i m))) m)"
  then have j: "j < length m" using assms by simp
  show "memcpy_at i (memcpy_at k ys (take n (drop i m))) m ! j = memcpy_at (i + k) ys m ! j"
    using assms j by (auto simp: nth_memcpy_at intro!: arg_cong[where f = "(!) ys"])
qed

lemma take_drop_add: "take (a + b) (drop i xs) = take a (drop i xs) @ take b (drop (i + a) xs)"
  by (simp add: take_add add.commute)

lemma drop_memcpy_at:
  assumes "k + i + length ys \<le> length m"
  shows "drop k (memcpy_at (i + k) ys m) = memcpy_at i ys (drop k m)"
proof (rule nth_equalityI)
  show "length (drop k (memcpy_at (i + k) ys m)) = length (memcpy_at i ys (drop k m))" using assms by (simp add: add.commute)
  fix j assume "j < length (drop k (memcpy_at (i + k) ys m))"
  then have "k + j < length m" using assms by (simp add: add.commute)
  then show "drop k (memcpy_at (i + k) ys m) ! j = memcpy_at i ys (drop k m) ! j"
    using assms by (auto simp: nth_memcpy_at intro!: arg_cong[where f = "(!) ys"])
qed

lemma load_at_ok: "i + n \<le> length m \<Longrightarrow> load_at i n m = Some (take n (drop i m))"
  by (simp add: load_at_def)

lemma store_at_ok: "i + length xs \<le> length m \<Longrightarrow> store_at i xs m = Some (memcpy_at i xs m)"
  by (simp add: store_at_def)

end
