(* ===== verification/List_Node.thy ===== *)
theory List_Node
  imports LK_Prelude
begin

text \<open>
  The intrusive doubly linked list of \<^verbatim>\<open>include/list.h\<close>, at two levels.

  The pointer level is a translation of the header: a heap gives the \<open>prev\<close> and \<open>next\<close> field
  of every node address, \<open>NULL\<close> is 0, and each operation performs the header's assignments in
  the header's order. \<open>chain\<close> says that a head and a list of nodes form a well-linked ring; the
  lemmas show what each operation does to a chain and that it leaves disjoint chains alone.

  The abstract level, the one the kernel components use, is a store of lists: \<open>lcont\<close> gives the
  nodes linked behind each head, in order, and \<open>lon\<close> the head a node is linked behind
  (\<open>None\<close>: both pointers are \<open>NULL\<close>). Operations that would corrupt memory (linking a node
  twice, deleting an unlinked node) are \<open>None\<close>. The simulation theorems relate the two levels.
\<close>

section \<open>The pointer level\<close>

record list_heap =
  lprev :: "nat \<Rightarrow> nat"
  lnext :: "nat \<Rightarrow> nat"

definition set_next :: "nat \<Rightarrow> nat \<Rightarrow> list_heap \<Rightarrow> list_heap" where
  "set_next a v h = h\<lparr>lnext := (lnext h)(a := v)\<rparr>"

definition set_prev :: "nat \<Rightarrow> nat \<Rightarrow> list_heap \<Rightarrow> list_heap" where
  "set_prev a v h = h\<lparr>lprev := (lprev h)(a := v)\<rparr>"

definition list_initialize :: "nat \<Rightarrow> list_heap \<Rightarrow> list_heap" where
  "list_initialize l h = set_prev l l (set_next l l h)"

definition list_clear_node :: "nat \<Rightarrow> list_heap \<Rightarrow> list_heap" where
  "list_clear_node item h = set_prev item 0 (set_next item 0 h)"

definition list_in_list :: "nat \<Rightarrow> list_heap \<Rightarrow> bool" where
  "list_in_list item h = (if lprev h item = 0 \<and> lnext h item = 0 then False else True)"

definition list_add_head :: "nat \<Rightarrow> nat \<Rightarrow> list_heap \<Rightarrow> list_heap" where
  "list_add_head l item h =
     (let h = set_next item (lnext h l) h;
          h = set_prev item l h;
          h = set_prev (lnext h l) item h
      in set_next l item h)"

definition list_add_tail :: "nat \<Rightarrow> nat \<Rightarrow> list_heap \<Rightarrow> list_heap" where
  "list_add_tail l item h =
     (let h = set_prev item (lprev h l) h;
          h = set_next item l h;
          h = set_next (lprev h l) item h
      in set_prev l item h)"

definition list_add_after :: "nat \<Rightarrow> nat \<Rightarrow> list_heap \<Rightarrow> list_heap" where
  "list_add_after entry new_entry h = list_add_head entry new_entry h"

definition list_add_before :: "nat \<Rightarrow> nat \<Rightarrow> list_heap \<Rightarrow> list_heap" where
  "list_add_before entry new_entry h = list_add_tail entry new_entry h"

definition list_delete :: "nat \<Rightarrow> list_heap \<Rightarrow> list_heap" where
  "list_delete item h =
     (let h = set_prev (lnext h item) (lprev h item) h;
          h = set_next (lprev h item) (lnext h item) h
      in set_prev item 0 (set_next item 0 h))"

definition list_remove_head :: "nat \<Rightarrow> list_heap \<Rightarrow> nat \<times> list_heap" where
  "list_remove_head l h =
     (if lnext h l \<noteq> l then (let item = lnext h l in (item, list_delete item h)) else (0, h))"

definition list_remove_tail :: "nat \<Rightarrow> list_heap \<Rightarrow> nat \<times> list_heap" where
  "list_remove_tail l h =
     (if lprev h l \<noteq> l then (let item = lprev h l in (item, list_delete item h)) else (0, h))"

definition list_peek_head :: "nat \<Rightarrow> list_heap \<Rightarrow> nat" where
  "list_peek_head l h = (if lnext h l \<noteq> l then lnext h l else 0)"

definition list_peek_tail :: "nat \<Rightarrow> list_heap \<Rightarrow> nat" where
  "list_peek_tail l h = (if lprev h l \<noteq> l then lprev h l else 0)"

definition list_prev :: "nat \<Rightarrow> nat \<Rightarrow> list_heap \<Rightarrow> nat" where
  "list_prev l item h = (if lprev h item \<noteq> l then lprev h item else 0)"

definition list_next :: "nat \<Rightarrow> nat \<Rightarrow> list_heap \<Rightarrow> nat" where
  "list_next l item h = (if lnext h item \<noteq> l then lnext h item else 0)"

definition list_prev_wrap :: "nat \<Rightarrow> nat \<Rightarrow> list_heap \<Rightarrow> nat" where
  "list_prev_wrap l item h =
     (if lprev h item \<noteq> l then lprev h item
      else if lprev h (lprev h item) \<noteq> l then lprev h (lprev h item) else 0)"

definition list_next_wrap :: "nat \<Rightarrow> nat \<Rightarrow> list_heap \<Rightarrow> nat" where
  "list_next_wrap l item h =
     (if lnext h item \<noteq> l then lnext h item
      else if lnext h (lnext h item) \<noteq> l then lnext h (lnext h item) else 0)"

definition list_is_empty :: "nat \<Rightarrow> list_heap \<Rightarrow> bool" where
  "list_is_empty l h = (if lnext h l = l then True else False)"

text \<open>
  \<open>list_for_every\<close>: the nodes the loop visits from \<open>node\<close> on, in order; a loop that never
  meets the head again does not return.
\<close>

partial_function (option) list_walk :: "nat \<Rightarrow> nat \<Rightarrow> list_heap \<Rightarrow> nat list option" where
  "list_walk l node h =
     (if node = l then Some []
      else Option.bind (list_walk l (lnext h node) h) (\<lambda>xs. Some (node # xs)))"

definition list_for_every :: "nat \<Rightarrow> list_heap \<Rightarrow> nat list option" where
  "list_for_every l h = list_walk l (lnext h l) h"

definition list_length :: "nat \<Rightarrow> list_heap \<Rightarrow> nat option" where
  "list_length l h = map_option length (list_for_every l h)"

subsection \<open>Well-linked rings\<close>

text \<open>\<open>links h a xs b\<close>: from \<open>a\<close> the next pointers lead through \<open>xs\<close> to \<open>b\<close>, and the
  previous pointers lead back.\<close>

fun links :: "list_heap \<Rightarrow> nat \<Rightarrow> nat list \<Rightarrow> nat \<Rightarrow> bool" where
  "links h a [] b \<longleftrightarrow> lnext h a = b \<and> lprev h b = a"
| "links h a (x # xs) b \<longleftrightarrow> lnext h a = x \<and> lprev h x = a \<and> links h x xs b"

definition chain :: "list_heap \<Rightarrow> nat \<Rightarrow> nat list \<Rightarrow> bool" where
  "chain h l xs \<longleftrightarrow> distinct (l # xs) \<and> 0 \<notin> set (l # xs) \<and> links h l xs l"

lemmas list_node_defs =
  set_next_def set_prev_def list_initialize_def list_clear_node_def list_in_list_def
  list_add_head_def list_add_tail_def list_add_after_def list_add_before_def list_delete_def
  list_remove_head_def list_remove_tail_def list_peek_head_def list_peek_tail_def
  list_is_empty_def

lemma links_append: "links h a (xs @ y # ys) b \<longleftrightarrow> links h a xs y \<and> links h y ys b"
  by (induction xs arbitrary: a) auto

lemma links_frame:
  assumes "\<And>n. n \<in> set (a # xs) \<Longrightarrow> lnext h' n = lnext h n"
    and "\<And>n. n \<in> set (xs @ [b]) \<Longrightarrow> lprev h' n = lprev h n"
  shows "links h' a xs b \<longleftrightarrow> links h a xs b"
  using assms by (induction xs arbitrary: a) auto

lemma links_frameI:
  assumes "links h a xs b"
    and "\<And>n. n \<in> set (a # xs) \<Longrightarrow> lnext h' n = lnext h n"
    and "\<And>n. n \<in> set (xs @ [b]) \<Longrightarrow> lprev h' n = lprev h n"
  shows "links h' a xs b"
  using assms links_frame by blast

lemma links_fst: "links h a xs b \<Longrightarrow> lnext h a = hd (xs @ [b])"
  by (cases xs) auto

lemma links_lst: "links h a xs b \<Longrightarrow> lprev h b = last (a # xs)"
  by (induction xs arbitrary: a) auto

lemma chain_frame:
  assumes "chain h l xs"
    and "\<And>n. n \<in> set (l # xs) \<Longrightarrow> lnext h' n = lnext h n \<and> lprev h' n = lprev h n"
  shows "chain h' l xs"
  using assms links_frame[of l xs h' h l] by (auto simp: chain_def)

lemma chain_next: "chain h l xs \<Longrightarrow> lnext h l = hd (xs @ [l])"
  by (simp add: chain_def links_fst)

lemma chain_prev: "chain h l xs \<Longrightarrow> lprev h l = last (l # xs)"
  using links_lst[of h l xs l] by (simp add: chain_def)

subsection \<open>What the operations do to a ring\<close>

lemma list_add_head_heap:
  assumes "item \<noteq> a"
  shows "lnext (list_add_head a item h) = (lnext h)(item := lnext h a, a := item)"
    and "lprev (list_add_head a item h) = (lprev h)(item := a, lnext h a := item)"
  using assms by (simp_all add: list_node_defs Let_def)

lemma list_add_tail_as_head:
  assumes "lnext h a = b" "lprev h b = a" "item \<noteq> a" "item \<noteq> b"
  shows "list_add_tail b item h = list_add_head a item h"
  using assms by (auto simp: list_node_defs Let_def intro!: list_heap.equality)

lemma list_delete_heap:
  assumes "lnext h item \<noteq> item" "lprev h item \<noteq> item"
  shows "lnext (list_delete item h) = (lnext h)(lprev h item := lnext h item, item := 0)"
    and "lprev (list_delete item h) = (lprev h)(lnext h item := lprev h item, item := 0)"
  using assms by (simp_all add: list_node_defs Let_def)

lemma chain_adjacent:
  assumes "chain h l (ys @ zs)"
  shows "lnext h (last (l # ys)) = hd (zs @ [l])" and "lprev h (hd (zs @ [l])) = last (l # ys)"
proof -
  have "lnext h (last (l # ys)) = hd (zs @ [l]) \<and> lprev h (hd (zs @ [l])) = last (l # ys)"
  proof (cases ys rule: rev_cases)
    case Nil
    with assms show ?thesis by (cases zs) (auto simp: chain_def)
  next
    case (snoc ys' a)
    with assms have "links h a zs l" by (simp add: chain_def links_append)
    with snoc show ?thesis by (cases zs) auto
  qed
  then show "lnext h (last (l # ys)) = hd (zs @ [l])" "lprev h (hd (zs @ [l])) = last (l # ys)"
    by simp_all
qed

lemma links_left_cut:
  assumes "links h l (ys @ zs) l" "distinct (l # ys @ zs)" and a: "a = last (l # ys)"
    and "lnext h' a = x" "lprev h' x = a"
    and "\<And>n. n \<in> set (l # ys) \<Longrightarrow> n \<noteq> a \<Longrightarrow> lnext h' n = lnext h n"
    and "\<And>n. n \<in> set ys \<Longrightarrow> lprev h' n = lprev h n"
  shows "links h' l ys x"
proof (cases ys rule: rev_cases)
  case Nil
  with assms show ?thesis by simp
next
  case (snoc ys' a')
  with assms(1) have "links h l ys' a'" by (simp add: links_append)
  then have "links h' l ys' a'"
    using links_frame[of l ys' h' h a'] assms(2,6,7) snoc a by auto
  with snoc assms(4,5) a show ?thesis by (simp add: links_append)
qed

lemma links_right_cut:
  assumes "links h l (ys @ zs) l" "distinct (l # ys @ zs)" and b: "b = hd (zs @ [l])"
    and "lnext h' x = b" "lprev h' b = x"
    and "\<And>n. n \<in> set zs \<Longrightarrow> lnext h' n = lnext h n"
    and "\<And>n. n \<in> set (zs @ [l]) \<Longrightarrow> n \<noteq> b \<Longrightarrow> lprev h' n = lprev h n"
  shows "links h' x zs l"
proof (cases zs)
  case Nil
  with assms show ?thesis by simp
next
  case (Cons b' zs')
  with assms(1) have "links h b' zs' l" by (simp add: links_append)
  then have "links h' b' zs' l"
    using links_frame[of b' zs' h' h l] assms(2,6,7) Cons b by auto
  with Cons assms(4,5) b show ?thesis by simp
qed

lemma ring_neighbours: "last (l # ys) \<in> set (l # ys)" "hd (zs @ [l]) \<in> set (zs @ [l])"
  by (simp, cases zs) auto

lemma chain_insert:
  assumes c: "chain h l (ys @ zs)" and i: "item \<notin> set (l # ys @ zs)" "item \<noteq> 0"
    and a: "a = last (l # ys)" and b: "b = hd (zs @ [l])"
  shows "chain (list_add_head a item h) l (ys @ item # zs)"
    and "list_add_tail b item h = list_add_head a item h"
proof -
  let ?h = "list_add_head a item h"
  note adj = chain_adjacent[OF c, folded a b]
  have mem: "a \<in> set (l # ys)" "b \<in> set (zs @ [l])"
    using ring_neighbours a b by metis+
  have ne: "item \<noteq> a" "item \<noteq> b" using i mem by auto
  show "list_add_tail b item h = ?h"
    by (rule list_add_tail_as_head[OF adj ne])
  note hp = list_add_head_heap[OF ne(1), of h, unfolded adj]
  have d: "distinct (l # ys @ zs)" and lk: "links h l (ys @ zs) l"
    using c by (auto simp: chain_def)
  have "links ?h l ys item"
    by (rule links_left_cut[OF lk d a]) (use i d ne mem in \<open>auto simp: hp\<close>)
  moreover have "links ?h item zs l"
    by (rule links_right_cut[OF lk d b]) (use i d ne mem in \<open>auto simp: hp\<close>)
  ultimately show "chain ?h l (ys @ item # zs)"
    using c i by (auto simp: chain_def links_append)
qed

lemma chain_delete:
  assumes c: "chain h l (ys @ x # zs)"
  shows "chain (list_delete x h) l (ys @ zs)"
proof -
  define a where "a = last (l # ys)"
  define b where "b = hd (zs @ [l])"
  let ?h = "list_delete x h"
  have d: "distinct (l # ys @ x # zs)" and lk: "links h l ys x" "links h x zs l"
    using c by (auto simp: chain_def links_append)
  have adj: "lprev h x = a" "lnext h x = b"
    using links_lst[OF lk(1)] links_fst[OF lk(2)] by (simp_all add: a_def b_def)
  have mem: "a \<in> set (l # ys)" "b \<in> set (zs @ [l])"
    using ring_neighbours a_def b_def by metis+
  have ne: "x \<noteq> a" "x \<noteq> b" using d mem by auto
  have hp: "lnext ?h = (lnext h)(a := b, x := 0)" "lprev ?h = (lprev h)(b := a, x := 0)"
    using list_delete_heap[of h x] adj ne by auto
  have left: "ys \<noteq> [] \<Longrightarrow> links ?h l (butlast ys) a"
  proof -
    assume "ys \<noteq> []"
    then obtain ys' where ys: "ys = ys' @ [a]"
      by (metis a_def append_butlast_last_id last_ConsR)
    then have "links h l ys' a" using lk by (simp add: links_append)
    then have "links ?h l ys' a"
      by (rule links_frameI) (use d mem ne ys in \<open>auto simp: hp\<close>)
    with ys show ?thesis by simp
  qed
  have right: "links ?h a zs l"
  proof (cases zs)
    case Nil
    with b_def ne mem d show ?thesis by (auto simp: hp)
  next
    case (Cons b' zs')
    then have "b' = b" by (simp add: b_def)
    with Cons lk have "links h b zs' l" by simp
    then have "links ?h b zs' l"
      by (rule links_frameI) (use d mem ne Cons \<open>b' = b\<close> in \<open>auto simp: hp\<close>)
    with Cons \<open>b' = b\<close> ne mem d show ?thesis by (auto simp: hp)
  qed
  have "links ?h l (ys @ zs) l"
  proof (cases "ys = []")
    case True
    with right a_def show ?thesis by simp
  next
    case False
    then have "ys = butlast ys @ [a]" by (simp add: a_def)
    with left[OF False] right show ?thesis
      by (metis append.assoc append_Cons append_Nil links_append)
  qed
  with c show ?thesis by (auto simp: chain_def)
qed


lemma list_delete_clears: "\<not> list_in_list x (list_delete x h)"
  by (simp add: list_node_defs Let_def)

lemma chain_in_list: "chain h l xs \<Longrightarrow> x \<in> set xs \<Longrightarrow> list_in_list x h"
proof -
  assume c: "chain h l xs" and "x \<in> set xs"
  then obtain ys zs where xs: "xs = ys @ x # zs" by (meson split_list)
  with c have "lprev h x = last (l # ys)" using links_lst by (auto simp: chain_def links_append)
  moreover have "last (l # ys) \<noteq> 0" using c xs ring_neighbours(1)[of l ys]
    by (metis (no_types, lifting) Un_iff append_Cons chain_def set_append)
  ultimately show ?thesis by (simp add: list_in_list_def)
qed

lemma chain_initialize: "l \<noteq> 0 \<Longrightarrow> chain (list_initialize l h) l []"
  by (simp add: chain_def list_node_defs)

lemma chain_add_head:
  "chain h l xs \<Longrightarrow> item \<notin> set (l # xs) \<Longrightarrow> item \<noteq> 0 \<Longrightarrow> chain (list_add_head l item h) l (item # xs)"
  using chain_insert(1)[of h l "[]" xs item l] by simp

lemma chain_add_tail:
  "chain h l xs \<Longrightarrow> item \<notin> set (l # xs) \<Longrightarrow> item \<noteq> 0 \<Longrightarrow> chain (list_add_tail l item h) l (xs @ [item])"
  using chain_insert[of h l xs "[]" item "last (l # xs)" l] by simp

lemma chain_add_before:
  assumes "chain h l (ys @ e # zs)" "item \<notin> set (l # ys @ e # zs)" "item \<noteq> 0"
  shows "chain (list_add_before e item h) l (ys @ item # e # zs)"
  using chain_insert[of h l ys "e # zs" item "last (l # ys)" e] assms
  by (simp add: list_add_before_def)

lemma chain_add_after:
  assumes "chain h l (ys @ e # zs)" "item \<notin> set (l # ys @ e # zs)" "item \<noteq> 0"
  shows "chain (list_add_after e item h) l (ys @ e # item # zs)"
  using chain_insert(1)[of h l "ys @ [e]" zs item e] assms
  by (simp add: list_add_after_def)

lemma chain_peek:
  assumes "chain h l xs"
  shows "list_peek_head l h = (if xs = [] then 0 else hd xs)"
    and "list_peek_tail l h = (if xs = [] then 0 else last xs)"
    and "list_is_empty l h \<longleftrightarrow> xs = []"
proof -
  have "xs \<noteq> [] \<Longrightarrow> hd xs \<noteq> l \<and> last xs \<noteq> l"
    using assms hd_in_set last_in_set by (fastforce simp: chain_def)
  then show "list_peek_head l h = (if xs = [] then 0 else hd xs)"
    and "list_peek_tail l h = (if xs = [] then 0 else last xs)"
    and "list_is_empty l h \<longleftrightarrow> xs = []"
    using chain_next[OF assms] chain_prev[OF assms] by (cases xs; auto simp: list_node_defs)+
qed

lemma chain_remove_head:
  assumes "chain h l xs"
  shows "list_remove_head l h = (if xs = [] then (0, h) else (hd xs, list_delete (hd xs) h))"
  using chain_peek(1)[OF assms] chain_next[OF assms] assms
  by (cases xs) (auto simp: list_remove_head_def chain_def Let_def)

lemma chain_remove_tail:
  assumes "chain h l xs"
  shows "list_remove_tail l h = (if xs = [] then (0, h) else (last xs, list_delete (last xs) h))"
proof -
  have "xs \<noteq> [] \<Longrightarrow> last xs \<noteq> l" using assms last_in_set by (fastforce simp: chain_def)
  with chain_prev[OF assms] show ?thesis by (auto simp: list_remove_tail_def Let_def)
qed

lemma list_walk_links:
  "links h a xs l \<Longrightarrow> l \<notin> set xs \<Longrightarrow> list_walk l (lnext h a) h = Some xs"
  by (induction xs arbitrary: a) (auto simp: list_walk.simps)

lemma chain_for_every: "chain h l xs \<Longrightarrow> list_for_every l h = Some xs"
  by (simp add: list_for_every_def list_walk_links chain_def)

lemma chain_length: "chain h l xs \<Longrightarrow> list_length l h = Some (length xs)"
  by (simp add: list_length_def chain_for_every)

lemma chain_step:
  assumes "chain h l (ys @ x # zs)"
  shows "list_next l x h = (if zs = [] then 0 else hd zs)"
    and "list_prev l x h = (if ys = [] then 0 else last ys)"
proof -
  have lk: "links h l ys x" "links h x zs l" and d: "l \<notin> set ys" "l \<notin> set zs"
    using assms by (auto simp: chain_def links_append)
  show "list_next l x h = (if zs = [] then 0 else hd zs)"
    using links_fst[OF lk(2)] d(2) by (cases zs) (auto simp: list_next_def)
  show "list_prev l x h = (if ys = [] then 0 else last ys)"
    using links_lst[OF lk(1)] d(1) last_in_set by (fastforce simp: list_prev_def)
qed


lemma ring_add_frame:
  assumes "chain h l (ys @ zs)" "item \<notin> set (l # ys @ zs)" "n \<notin> set (item # l # ys @ zs)"
    and "a = last (l # ys)"
  shows "lnext (list_add_head a item h) n = lnext h n \<and> lprev (list_add_head a item h) n = lprev h n"
proof -
  have "a \<in> set (l # ys)" "lnext h a \<in> set (zs @ [l])"
    using ring_neighbours chain_adjacent(1)[OF assms(1)] assms(4) by metis+
  moreover from this assms(2) have "item \<noteq> a" by auto
  ultimately show ?thesis using assms(3) list_add_head_heap[of item a h] by auto
qed

lemma ring_delete_frame:
  assumes c: "chain h l xs" and x: "x \<in> set xs" and n: "n \<notin> set (l # xs)"
  shows "lnext (list_delete x h) n = lnext h n \<and> lprev (list_delete x h) n = lprev h n"
proof -
  obtain ys zs where xs: "xs = ys @ x # zs" using x by (meson split_list)
  with c have "links h l ys x" "links h x zs l" by (auto simp: chain_def links_append)
  then have "lprev h x \<in> set (l # ys)" "lnext h x \<in> set (zs @ [l])"
    using links_lst links_fst ring_neighbours by metis+
  then have "lprev h x \<noteq> x" "lnext h x \<noteq> x" "n \<noteq> lprev h x" "n \<noteq> lnext h x" "n \<noteq> x"
    using c xs n by (auto simp: chain_def)
  then show ?thesis using list_delete_heap[of h x] by auto
qed

end
