(* ===== verification/List_Store.thy ===== *)
theory List_Store
  imports List_Node
begin

text \<open>
  The contract of the intrusive lists, as a locale, and its two implementations.

  \<open>intrusive_lists\<close> states what a client may rely on: the content \<open>cont s h\<close> of each list, which
  nodes are \<open>linked\<close>, and what adding and deleting do to both. The kernel theories use the
  store \<open>lstore\<close> (interpretation \<open>ls\<close>); the pointer code of \<^verbatim>\<open>include/list.h\<close> over a heap of
  \<open>prev\<close>/\<open>next\<close> fields satisfies the same contract (interpretation \<open>pl\<close>). \<open>intrusive_sim\<close>
  shows that two implementations which agree on contents stay in agreement under every
  operation, and its interpretation relates store and pointers.
\<close>

section \<open>The contract\<close>

locale intrusive_lists =
  fixes ok :: "'s \<Rightarrow> bool"
    and head :: "'s \<Rightarrow> 'h \<Rightarrow> bool"
    and node :: "'s \<Rightarrow> 'n \<Rightarrow> bool"
    and cont :: "'s \<Rightarrow> 'h \<Rightarrow> 'n list"
    and linked :: "'s \<Rightarrow> 'n \<Rightarrow> bool"
    and add_head :: "'h \<Rightarrow> 'n \<Rightarrow> 's \<Rightarrow> 's option"
    and add_tail :: "'h \<Rightarrow> 'n \<Rightarrow> 's \<Rightarrow> 's option"
    and add_before :: "'n \<Rightarrow> 'n \<Rightarrow> 's \<Rightarrow> 's option"
    and del :: "'n \<Rightarrow> 's \<Rightarrow> 's option"
  assumes linked_iff: "ok s \<Longrightarrow> node s n \<Longrightarrow> linked s n \<longleftrightarrow> (\<exists>h. n \<in> set (cont s h))"
    and member_head: "ok s \<Longrightarrow> n \<in> set (cont s h) \<Longrightarrow> head s h \<and> node s n"
    and member_unique: "ok s \<Longrightarrow> n \<in> set (cont s h) \<Longrightarrow> n \<in> set (cont s h') \<Longrightarrow> h = h'"
    and cont_distinct: "ok s \<Longrightarrow> distinct (cont s h)"
    and add_head_law: "ok s \<Longrightarrow> head s h \<Longrightarrow> node s n \<Longrightarrow> \<not> linked s n \<Longrightarrow>
      \<exists>s'. add_head h n s = Some s' \<and> ok s' \<and> head s' = head s \<and> node s' = node s
         \<and> cont s' = (cont s)(h := n # cont s h)"
    and add_tail_law: "ok s \<Longrightarrow> head s h \<Longrightarrow> node s n \<Longrightarrow> \<not> linked s n \<Longrightarrow>
      \<exists>s'. add_tail h n s = Some s' \<and> ok s' \<and> head s' = head s \<and> node s' = node s
         \<and> cont s' = (cont s)(h := cont s h @ [n])"
    and add_before_law: "ok s \<Longrightarrow> cont s h = ys @ e # zs \<Longrightarrow> node s n \<Longrightarrow> \<not> linked s n \<Longrightarrow>
      \<exists>s'. add_before e n s = Some s' \<and> ok s' \<and> head s' = head s \<and> node s' = node s
         \<and> cont s' = (cont s)(h := ys @ n # e # zs)"
    and del_law: "ok s \<Longrightarrow> cont s h = ys @ n # zs \<Longrightarrow>
      \<exists>s'. del n s = Some s' \<and> ok s' \<and> head s' = head s \<and> node s' = node s
         \<and> cont s' = (cont s)(h := ys @ zs)"
begin

text \<open>Deleting a node that has just been added gives back the old contents.\<close>

lemma add_head_del:
  assumes "ok s" "head s h" "node s n" "\<not> linked s n"
  shows "\<exists>s1 s2. add_head h n s = Some s1 \<and> del n s1 = Some s2 \<and> ok s2 \<and> cont s2 = cont s"
proof -
  from add_head_law[OF assms] obtain s1 where
    s1: "add_head h n s = Some s1" "ok s1" "cont s1 = (cont s)(h := n # cont s h)" by blast
  then have "cont s1 h = [] @ n # cont s h" by simp
  from del_law[OF s1(2) this] s1 show ?thesis by auto
qed

text \<open>A list used as a queue: nodes appended one after the other come out in that order.\<close>

fun add_all :: "'h \<Rightarrow> 'n list \<Rightarrow> 's \<Rightarrow> 's option" where
  "add_all h [] s = Some s"
| "add_all h (n # ns) s = Option.bind (add_tail h n s) (add_all h ns)"

lemma add_all_appends:
  assumes "ok s" "head s h" "distinct ns" "\<And>n. n \<in> set ns \<Longrightarrow> node s n \<and> \<not> linked s n"
  shows "\<exists>s'. add_all h ns s = Some s' \<and> ok s' \<and> cont s' = (cont s)(h := cont s h @ ns)"
  using assms
proof (induction ns arbitrary: s)
  case Nil
  then show ?case by simp
next
  case (Cons n ns)
  obtain s1 where s1: "add_tail h n s = Some s1" "ok s1" "head s1 = head s" "node s1 = node s"
    "cont s1 = (cont s)(h := cont s h @ [n])"
    using add_tail_law[of s h n] Cons.prems by auto
  have "node s1 m \<and> \<not> linked s1 m" if m: "m \<in> set ns" for m
  proof -
    have "node s m" "\<not> linked s m" "m \<noteq> n" using Cons.prems m by auto
    then show ?thesis
      using linked_iff[OF \<open>ok s\<close>] linked_iff[OF \<open>ok s1\<close>] s1(4,5) by (auto split: if_splits)
  qed
  then have "\<exists>s'. add_all h ns s1 = Some s' \<and> ok s' \<and> cont s' = (cont s1)(h := cont s1 h @ ns)"
    using Cons.prems s1 by (intro Cons.IH) auto
  with s1 show ?case by auto
qed

end

section \<open>The store used by the kernel model\<close>

record ('h, 'n) lstore =
  lcont :: "'h \<Rightarrow> 'n list"
  lon :: "'n \<Rightarrow> 'h option"

definition ls_ok :: "('h, 'n) lstore \<Rightarrow> bool" where
  "ls_ok s \<longleftrightarrow> (\<forall>n h. n \<in> set (lcont s h) \<longleftrightarrow> lon s n = Some h) \<and> (\<forall>h. distinct (lcont s h))"

definition ls_empty :: "('h, 'n) lstore" where
  "ls_empty = \<lparr>lcont = (\<lambda>_. []), lon = (\<lambda>_. None)\<rparr>"

definition ls_in_list :: "'n \<Rightarrow> ('h, 'n) lstore \<Rightarrow> bool" where
  "ls_in_list n s \<longleftrightarrow> lon s n \<noteq> None"

definition ls_put :: "'h \<Rightarrow> 'n list \<Rightarrow> 'n \<Rightarrow> 'h option \<Rightarrow> ('h, 'n) lstore \<Rightarrow> ('h, 'n) lstore" where
  "ls_put h xs n on s = s\<lparr>lcont := (lcont s)(h := xs), lon := (lon s)(n := on)\<rparr>"

definition ls_add_head :: "'h \<Rightarrow> 'n \<Rightarrow> ('h, 'n) lstore \<Rightarrow> ('h, 'n) lstore option" where
  "ls_add_head h n s =
     (if ls_in_list n s then None else Some (ls_put h (n # lcont s h) n (Some h) s))"

definition ls_add_tail :: "'h \<Rightarrow> 'n \<Rightarrow> ('h, 'n) lstore \<Rightarrow> ('h, 'n) lstore option" where
  "ls_add_tail h n s =
     (if ls_in_list n s then None else Some (ls_put h (lcont s h @ [n]) n (Some h) s))"

fun insert_before :: "'n \<Rightarrow> 'n \<Rightarrow> 'n list \<Rightarrow> 'n list" where
  "insert_before e n [] = []"
| "insert_before e n (x # xs) = (if x = e then n # x # xs else x # insert_before e n xs)"

definition ls_add_before :: "'n \<Rightarrow> 'n \<Rightarrow> ('h, 'n) lstore \<Rightarrow> ('h, 'n) lstore option" where
  "ls_add_before e n s =
     (case lon s e of None \<Rightarrow> None
      | Some h \<Rightarrow> if ls_in_list n s then None
                  else Some (ls_put h (insert_before e n (lcont s h)) n (Some h) s))"

fun insert_after :: "'n \<Rightarrow> 'n \<Rightarrow> 'n list \<Rightarrow> 'n list" where
  "insert_after e n [] = []"
| "insert_after e n (x # xs) = (if x = e then x # n # xs else x # insert_after e n xs)"

definition ls_add_after :: "'n \<Rightarrow> 'n \<Rightarrow> ('h, 'n) lstore \<Rightarrow> ('h, 'n) lstore option" where
  "ls_add_after e n s =
     (case lon s e of None \<Rightarrow> None
      | Some h \<Rightarrow> if ls_in_list n s then None
                  else Some (ls_put h (insert_after e n (lcont s h)) n (Some h) s))"

definition ls_delete :: "'n \<Rightarrow> ('h, 'n) lstore \<Rightarrow> ('h, 'n) lstore option" where
  "ls_delete n s =
     (case lon s n of None \<Rightarrow> None
      | Some h \<Rightarrow> Some (ls_put h (remove1 n (lcont s h)) n None s))"

definition ls_peek_head :: "'h \<Rightarrow> ('h, 'n) lstore \<Rightarrow> 'n option" where
  "ls_peek_head h s = (case lcont s h of [] \<Rightarrow> None | n # _ \<Rightarrow> Some n)"

definition ls_remove_head :: "'h \<Rightarrow> ('h, 'n) lstore \<Rightarrow> ('n option \<times> ('h, 'n) lstore) option" where
  "ls_remove_head h s =
     (case ls_peek_head h s of None \<Rightarrow> Some (None, s)
      | Some n \<Rightarrow> Option.bind (ls_delete n s) (\<lambda>s'. Some (Some n, s')))"

definition ls_is_empty :: "'h \<Rightarrow> ('h, 'n) lstore \<Rightarrow> bool" where
  "ls_is_empty h s \<longleftrightarrow> lcont s h = []"

lemma insert_before_mid: "e \<notin> set ys \<Longrightarrow> insert_before e n (ys @ e # zs) = ys @ n # e # zs"
  by (induction ys) auto

lemma insert_after_mid: "e \<notin> set ys \<Longrightarrow> insert_after e n (ys @ e # zs) = ys @ e # n # zs"
  by (induction ys) auto

lemma ls_put_sel [simp]:
  "lcont (ls_put h xs n on s) = (lcont s)(h := xs)"
  "lon (ls_put h xs n on s) = (lon s)(n := on)"
  by (simp_all add: ls_put_def)

lemma ls_ok_mem: "ls_ok s \<Longrightarrow> n \<in> set (lcont s h) \<longleftrightarrow> lon s n = Some h"
  by (simp add: ls_ok_def)

lemma ls_ok_distinct: "ls_ok s \<Longrightarrow> distinct (lcont s h)"
  by (simp add: ls_ok_def)

lemma ls_ok_unlinked: "ls_ok s \<Longrightarrow> \<not> ls_in_list n s \<Longrightarrow> lon s n = None \<and> n \<notin> set (lcont s h)"
  by (simp add: ls_ok_mem ls_in_list_def)

lemma ls_ok_split:
  assumes "ls_ok s" "lcont s h = ys @ n # zs"
  shows "lon s n = Some h" "n \<notin> set ys" "n \<notin> set zs" "distinct (ys @ n # zs)"
  using ls_ok_distinct[OF assms(1), of h] ls_ok_mem[OF assms(1), of n h] assms(2) by simp_all

lemma ls_put_link_ok:
  assumes "ls_ok s" "lon s n = None" "set xs = insert n (set (lcont s h))" "distinct xs"
  shows "ls_ok (ls_put h xs n (Some h) s)"
  using assms unfolding ls_ok_def by auto

lemma ls_put_unlink_ok:
  assumes "ls_ok s" "lon s n = Some h" "set xs = set (lcont s h) - {n}" "distinct xs"
  shows "ls_ok (ls_put h xs n None s)"
  using assms unfolding ls_ok_def by auto

lemma ls_lon_after:
  assumes "ls_ok q" "ls_ok q'" "lcont q' = (lcont q)(h := xs)"
  shows "lon q' n = (if n \<in> set xs then Some h else if lon q n = Some h then None else lon q n)"
proof -
  have iff: "lon q' n = Some k \<longleftrightarrow> (if n \<in> set xs then k = h else lon q n = Some k \<and> k \<noteq> h)" for k
    using ls_ok_mem[OF assms(2), of n k] ls_ok_mem[OF assms(2), of n h] ls_ok_mem[OF assms(1), of n k] assms(3)
    by (auto split: if_splits)
  show ?thesis
  proof (cases "n \<in> set xs")
    case True
    with iff[of h] show ?thesis by simp
  next
    case False
    then have iff': "lon q' n = Some k \<longleftrightarrow> lon q n = Some k \<and> k \<noteq> h" for k using iff[of k] by simp
    have "lon q' n = (if lon q n = Some h then None else lon q n)"
    proof (cases "lon q' n")
      case None
      with iff'[of "the (lon q n)"] show ?thesis by (cases "lon q n") auto
    next
      case (Some k)
      with iff'[of k] show ?thesis by auto
    qed
    with False show ?thesis by simp
  qed
qed

interpretation ls: intrusive_lists ls_ok "\<lambda>_ _. True" "\<lambda>_ _. True" lcont
  "\<lambda>s n. ls_in_list n s" ls_add_head ls_add_tail ls_add_before ls_delete
proof (unfold_locales, goal_cases)
  case (1 s n) then show ?case by (auto simp: ls_ok_mem ls_in_list_def)
next
  case (2 s n h) then show ?case by simp
next
  case (3 s n h h') then show ?case by (simp add: ls_ok_mem)
next
  case (4 s h) then show ?case by (simp add: ls_ok_def)
next
  case (5 s h n)
  with ls_ok_unlinked[of s n h] ls_ok_distinct[of s h] show ?case
    by (auto simp: ls_add_head_def intro: ls_put_link_ok)
next
  case (6 s h n)
  with ls_ok_unlinked[of s n h] ls_ok_distinct[of s h] show ?case
    by (auto simp: ls_add_tail_def intro: ls_put_link_ok)
next
  case (7 s h ys e zs n)
  note e = ls_ok_split[OF 7(1,2)]
  have n: "lon s n = None" "n \<notin> set (ys @ e # zs)"
    using ls_ok_unlinked[OF 7(1,4), of h] 7(2) by auto
  have "ls_ok (ls_put h (ys @ n # e # zs) n (Some h) s)"
    by (rule ls_put_link_ok[OF 7(1) n(1)]) (use n e 7(2) in auto)
  with 7 e n show ?case by (auto simp: ls_add_before_def insert_before_mid)
next
  case (8 s h ys n zs)
  note e = ls_ok_split[OF 8]
  have "ls_ok (ls_put h (ys @ zs) n None s)"
    by (rule ls_put_unlink_ok[OF 8(1) e(1)]) (use e 8(2) in auto)
  with 8 e show ?case by (auto simp: ls_delete_def)
qed

section \<open>The pointer implementation\<close>

text \<open>A heap with the addresses of its list heads. The operations are those of \<open>List_Node\<close>.\<close>

record plists =
  heads :: "nat set"
  hp :: list_heap

definition pl_cont :: "plists \<Rightarrow> nat \<Rightarrow> nat list" where
  "pl_cont s l = (if l \<in> heads s then the (list_for_every l (hp s)) else [])"

definition pl_node :: "plists \<Rightarrow> nat \<Rightarrow> bool" where
  "pl_node s n \<longleftrightarrow> n \<noteq> 0 \<and> n \<notin> heads s"

definition pl_repr :: "(nat \<Rightarrow> nat list) \<Rightarrow> plists \<Rightarrow> bool" where
  "pl_repr L s \<longleftrightarrow>
     (\<forall>l. (if l \<in> heads s then chain (hp s) l (L l) else L l = [])) \<and>
     (\<forall>l n. n \<in> set (L l) \<longrightarrow> n \<notin> heads s) \<and>
     (\<forall>l l' n. n \<in> set (L l) \<longrightarrow> n \<in> set (L l') \<longrightarrow> l = l') \<and>
     (\<forall>n. n \<notin> heads s \<longrightarrow> (\<forall>l. n \<notin> set (L l)) \<longrightarrow> \<not> list_in_list n (hp s))"

definition pl_ok :: "plists \<Rightarrow> bool" where
  "pl_ok s \<longleftrightarrow> pl_repr (pl_cont s) s"

definition pl_add_head :: "nat \<Rightarrow> nat \<Rightarrow> plists \<Rightarrow> plists option" where
  "pl_add_head l n s = Some (s\<lparr>hp := list_add_head l n (hp s)\<rparr>)"

definition pl_add_tail :: "nat \<Rightarrow> nat \<Rightarrow> plists \<Rightarrow> plists option" where
  "pl_add_tail l n s = Some (s\<lparr>hp := list_add_tail l n (hp s)\<rparr>)"

definition pl_add_before :: "nat \<Rightarrow> nat \<Rightarrow> plists \<Rightarrow> plists option" where
  "pl_add_before e n s = Some (s\<lparr>hp := list_add_before e n (hp s)\<rparr>)"

definition pl_add_after :: "nat \<Rightarrow> nat \<Rightarrow> plists \<Rightarrow> plists option" where
  "pl_add_after e n s = Some (s\<lparr>hp := list_add_after e n (hp s)\<rparr>)"

definition pl_delete :: "nat \<Rightarrow> plists \<Rightarrow> plists option" where
  "pl_delete n s = Some (s\<lparr>hp := list_delete n (hp s)\<rparr>)"

lemma pl_repr_cont: "pl_repr L s \<Longrightarrow> pl_cont s = L"
proof (rule ext)
  fix l assume r: "pl_repr L s"
  show "pl_cont s l = L l"
  proof (cases "l \<in> heads s")
    case True
    with r have "chain (hp s) l (L l)" by (simp add: pl_repr_def)
    with True show ?thesis by (simp add: pl_cont_def chain_for_every)
  next
    case False
    with r show ?thesis by (simp add: pl_repr_def pl_cont_def)
  qed
qed

lemma pl_repr_ok: "pl_repr L s \<Longrightarrow> pl_ok s \<and> pl_cont s = L"
  by (simp add: pl_ok_def pl_repr_cont)

lemma pl_repr_chain: "pl_repr L s \<Longrightarrow> l \<in> heads s \<Longrightarrow> chain (hp s) l (L l)"
  by (auto simp: pl_repr_def split: if_splits)

lemma pl_repr_linked:
  assumes "pl_repr L s" "n \<notin> heads s"
  shows "list_in_list n (hp s) \<longleftrightarrow> (\<exists>l. n \<in> set (L l))"
proof
  assume "\<exists>l. n \<in> set (L l)"
  then obtain l where l: "n \<in> set (L l)" by blast
  then have "l \<in> heads s" using assms(1) by (auto simp: pl_repr_def split: if_splits)
  then show "list_in_list n (hp s)" using pl_repr_chain[OF assms(1)] l chain_in_list by blast
qed (use assms in \<open>auto simp: pl_repr_def\<close>)

text \<open>One step of the representation: the ring behind one head is replaced, only nodes of that
  ring (and the node that moves) are written.\<close>

lemma pl_repr_update:
  assumes r: "pl_repr L s" and l: "l \<in> heads s" and c: "chain h' l xs"
    and w: "\<And>n. n \<notin> insert l (insert x (set (L l))) \<Longrightarrow>
              lnext h' n = lnext (hp s) n \<and> lprev h' n = lprev (hp s) n"
    and x: "x \<notin> heads s" "\<And>l'. l' \<noteq> l \<Longrightarrow> x \<notin> set (L l')"
    and xs: "set xs \<subseteq> insert x (set (L l))" "set (L l) - {x} \<subseteq> set xs"
    and un: "x \<notin> set xs \<Longrightarrow> \<not> list_in_list x h'"
  shows "pl_repr (L(l := xs)) (s\<lparr>hp := h'\<rparr>)"
proof -
  have heads: "n \<notin> heads s" if "n \<in> set (L m)" for n m using r that by (simp add: pl_repr_def)
  have uniq: "m = m'" if "n \<in> set (L m)" "n \<in> set (L m')" for n m m'
    using r that by (simp add: pl_repr_def)
  have other: "chain h' m (L m)" if m: "m \<in> heads s" "m \<noteq> l" for m
  proof (rule chain_frame[OF pl_repr_chain[OF r m(1)]])
    fix n assume n: "n \<in> set (m # L m)"
    have "n \<notin> insert l (insert x (set (L l)))"
      using n m l x(1) x(2)[of m] heads[of n m] heads[of m l] uniq[of n m l] by auto
    then show "lnext h' n = lnext (hp s) n \<and> lprev h' n = lprev (hp s) n" by (rule w)
  qed
  have free: "\<not> list_in_list n h'" if n: "n \<notin> heads s" "\<And>m. n \<notin> set ((L(l := xs)) m)" for n
  proof (cases "n = x")
    case True
    with un n(2)[of l] show ?thesis by simp
  next
    case False
    have "n \<notin> set (L m)" for m
      using n(2)[of m] n(2)[of l] xs(2) False by (cases "m = l") auto
    moreover have "n \<noteq> l" using n l by blast
    ultimately show ?thesis
      using w[of n] r n(1) False by (simp add: pl_repr_def list_in_list_def)
  qed
  show ?thesis
    unfolding pl_repr_def
  proof (intro conjI allI impI)
    fix m show "if m \<in> heads (s\<lparr>hp := h'\<rparr>) then chain (hp (s\<lparr>hp := h'\<rparr>)) m ((L(l := xs)) m)
                else (L(l := xs)) m = []"
      using c other l r by (auto simp: pl_repr_def)
  next
    fix m n assume "n \<in> set ((L(l := xs)) m)"
    then show "n \<notin> heads (s\<lparr>hp := h'\<rparr>)" using heads x xs(1) by (auto split: if_splits)
  next
    fix m m' n assume "n \<in> set ((L(l := xs)) m)" "n \<in> set ((L(l := xs)) m')"
    moreover have "k = l" if "n \<in> set xs" "n \<in> set (L k)" for k n
      using that xs(1) x(2)[of k] uniq[of n k l] by blast
    ultimately show "m = m'" using uniq[of n m m'] by (auto split: if_splits)
  next
    fix n assume "n \<notin> heads (s\<lparr>hp := h'\<rparr>)" "\<forall>m. n \<notin> set ((L(l := xs)) m)"
    then show "\<not> list_in_list n (hp (s\<lparr>hp := h'\<rparr>))" using free by simp
  qed
qed


interpretation pl: intrusive_lists pl_ok "\<lambda>s l. l \<in> heads s" pl_node pl_cont
  "\<lambda>s n. list_in_list n (hp s)" pl_add_head pl_add_tail pl_add_before pl_delete
proof (unfold_locales, goal_cases)
  case (1 s n) then show ?case by (simp add: pl_ok_def pl_repr_linked pl_node_def)
next
  case (2 s n h)
  then have "h \<in> heads s" "n \<notin> heads s" by (auto simp: pl_ok_def pl_repr_def split: if_splits)
  with 2 pl_repr_chain[of "pl_cont s" s h] show ?case
    by (auto simp: pl_ok_def pl_node_def chain_def intro!: gr0I)
next
  case (3 s n h h') then show ?case by (simp add: pl_ok_def pl_repr_def)
next
  case (4 s h)
  then show ?case using pl_repr_chain[of "pl_cont s" s h]
    by (cases "h \<in> heads s") (auto simp: pl_ok_def chain_def pl_cont_def)
next
  case (5 s h n)
  have r: "pl_repr (pl_cont s) s" and n: "n \<noteq> 0" "n \<notin> heads s" "\<And>l. n \<notin> set (pl_cont s l)"
    using 5 pl_repr_linked[of "pl_cont s" s n] by (auto simp: pl_ok_def pl_node_def)
  note c = pl_repr_chain[OF r 5(2)]
  have ns: "n \<notin> set (h # pl_cont s h)" using n(2) n(3)[of h] 5(2) by auto
  have "pl_repr ((pl_cont s)(h := n # pl_cont s h)) (s\<lparr>hp := list_add_head h n (hp s)\<rparr>)"
  proof (rule pl_repr_update[OF r 5(2), where x = n])
    show "chain (list_add_head h n (hp s)) h (n # pl_cont s h)"
      by (rule chain_add_head[OF c ns n(1)])
    show "lnext (list_add_head h n (hp s)) m = lnext (hp s) m \<and>
          lprev (list_add_head h n (hp s)) m = lprev (hp s) m"
      if "m \<notin> insert h (insert n (set (pl_cont s h)))" for m
      using ring_add_frame[of "hp s" h "[]" "pl_cont s h" n m h] c ns that by simp
  qed (use n in auto)
  then show ?case using pl_repr_ok by (auto simp: pl_add_head_def pl_node_def)
next
  case (6 s h n)
  have r: "pl_repr (pl_cont s) s" and n: "n \<noteq> 0" "n \<notin> heads s" "\<And>l. n \<notin> set (pl_cont s l)"
    using 6 pl_repr_linked[of "pl_cont s" s n] by (auto simp: pl_ok_def pl_node_def)
  note c = pl_repr_chain[OF r 6(2)]
  have ns: "n \<notin> set (h # pl_cont s h)" using n(2) n(3)[of h] 6(2) by auto
  have eq: "list_add_tail h n (hp s) = list_add_head (last (h # pl_cont s h)) n (hp s)"
    using chain_insert(2)[of "hp s" h "pl_cont s h" "[]" n "last (h # pl_cont s h)" h] c n ns by simp
  have "pl_repr ((pl_cont s)(h := pl_cont s h @ [n])) (s\<lparr>hp := list_add_tail h n (hp s)\<rparr>)"
  proof (rule pl_repr_update[OF r 6(2), where x = n])
    show "chain (list_add_tail h n (hp s)) h (pl_cont s h @ [n])"
      by (rule chain_add_tail[OF c ns n(1)])
    show "lnext (list_add_tail h n (hp s)) m = lnext (hp s) m \<and>
          lprev (list_add_tail h n (hp s)) m = lprev (hp s) m"
      if "m \<notin> insert h (insert n (set (pl_cont s h)))" for m
      using ring_add_frame[of "hp s" h "pl_cont s h" "[]" n m "last (h # pl_cont s h)"] c ns that
      by (simp only: eq append_Nil2) simp
  qed (use n in auto)
  then show ?case using pl_repr_ok by (auto simp: pl_add_tail_def pl_node_def)
next
  case (7 s h ys e zs n)
  have r: "pl_repr (pl_cont s) s" and n: "n \<noteq> 0" "n \<notin> heads s" "\<And>l. n \<notin> set (pl_cont s l)"
    using 7 pl_repr_linked[of "pl_cont s" s n] by (auto simp: pl_ok_def pl_node_def)
  have h: "h \<in> heads s" using 7(2) by (auto simp: pl_cont_def split: if_splits)
  note c = pl_repr_chain[OF r h, unfolded 7(2)]
  have ns: "n \<notin> set (h # ys @ e # zs)" using n(2) n(3)[of h] h 7(2) by auto
  have eq: "list_add_before e n (hp s) = list_add_head (last (h # ys)) n (hp s)"
    using chain_insert(2)[of "hp s" h ys "e # zs" n "last (h # ys)" e] c n ns
    by (auto simp: list_add_before_def)
  have "pl_repr ((pl_cont s)(h := ys @ n # e # zs)) (s\<lparr>hp := list_add_before e n (hp s)\<rparr>)"
  proof (rule pl_repr_update[OF r h, where x = n])
    show "chain (list_add_before e n (hp s)) h (ys @ n # e # zs)"
      by (rule chain_add_before[OF c ns n(1)])
    show "lnext (list_add_before e n (hp s)) m = lnext (hp s) m \<and>
          lprev (list_add_before e n (hp s)) m = lprev (hp s) m"
      if "m \<notin> insert h (insert n (set (pl_cont s h)))" for m
      using ring_add_frame[OF c ns, of m "last (h # ys)"] that 7(2) by (simp add: eq)
  qed (use n 7(2) in auto)
  then show ?case using pl_repr_ok by (auto simp: pl_add_before_def pl_node_def)
next
  case (8 s h ys n zs)
  have r: "pl_repr (pl_cont s) s" using 8 by (simp add: pl_ok_def)
  have h: "h \<in> heads s" using 8(2) by (auto simp: pl_cont_def split: if_splits)
  note c = pl_repr_chain[OF r h, unfolded 8(2)]
  have n: "n \<in> set (pl_cont s h)" using 8(2) by simp
  have nh: "n \<notin> heads s" and nl: "\<And>l'. l' \<noteq> h \<Longrightarrow> n \<notin> set (pl_cont s l')"
    using r n unfolding pl_repr_def by blast+
  have "pl_repr ((pl_cont s)(h := ys @ zs)) (s\<lparr>hp := list_delete n (hp s)\<rparr>)"
  proof (rule pl_repr_update[OF r h, where x = n])
    show "chain (list_delete n (hp s)) h (ys @ zs)" by (rule chain_delete[OF c])
    show "lnext (list_delete n (hp s)) m = lnext (hp s) m \<and>
          lprev (list_delete n (hp s)) m = lprev (hp s) m"
      if "m \<notin> insert h (insert n (set (pl_cont s h)))" for m
      using ring_delete_frame[OF c, of n m] that 8(2) by simp
    show "\<not> list_in_list n (list_delete n (hp s))" by (rule list_delete_clears)
  qed (use nh nl 8(2) in auto)
  then show ?case using pl_repr_ok by (auto simp: pl_delete_def pl_node_def)
qed


section \<open>Insertion behind a node\<close>

text \<open>The address spaces insert behind a node; the contract with that operation, and both implementations of it.\<close>

locale intrusive_after = intrusive_lists +
  fixes add_after :: "'c \<Rightarrow> 'c \<Rightarrow> 'a \<Rightarrow> 'a option"
  assumes add_after_law: "ok s \<Longrightarrow> cont s h = ys @ e # zs \<Longrightarrow> node s n \<Longrightarrow> \<not> linked s n \<Longrightarrow>
      \<exists>s'. add_after e n s = Some s' \<and> ok s' \<and> head s' = head s \<and> node s' = node s
         \<and> cont s' = (cont s)(h := ys @ e # n # zs)"
begin

text \<open>Behind a node is in front of the node that follows.\<close>

lemma add_after_before:
  assumes "ok s" "cont s h = ys @ e # f # zs" "node s n" "\<not> linked s n"
  shows "\<exists>s1 s2. add_after e n s = Some s1 \<and> add_before f n s = Some s2 \<and> cont s1 = cont s2"
  using add_after_law[OF assms] add_before_law[of s h "ys @ [e]" f zs n] assms by auto

end

interpretation la: intrusive_after ls_ok "\<lambda>_ _. True" "\<lambda>_ _. True" lcont
  "\<lambda>s n. ls_in_list n s" ls_add_head ls_add_tail ls_add_before ls_delete ls_add_after
proof (unfold_locales, goal_cases)
  case (1 s h ys e zs n)
  note e = ls_ok_split[OF 1(1,2)]
  have n: "lon s n = None" "n \<notin> set (ys @ e # zs)"
    using ls_ok_unlinked[OF 1(1,4), of h] 1(2) by auto
  have "ls_ok (ls_put h (ys @ e # n # zs) n (Some h) s)"
    by (rule ls_put_link_ok[OF 1(1) n(1)]) (use n e 1(2) in auto)
  with 1 e n show ?case by (auto simp: ls_add_after_def insert_after_mid)
qed

interpretation pa: intrusive_after pl_ok "\<lambda>s l. l \<in> heads s" pl_node pl_cont
  "\<lambda>s n. list_in_list n (hp s)" pl_add_head pl_add_tail pl_add_before pl_delete pl_add_after
proof (unfold_locales, goal_cases)
  case (1 s h ys e zs n)
  have r: "pl_repr (pl_cont s) s" and n: "n \<noteq> 0" "n \<notin> heads s" "\<And>l. n \<notin> set (pl_cont s l)"
    using 1 pl_repr_linked[of "pl_cont s" s n] by (auto simp: pl_ok_def pl_node_def)
  have h: "h \<in> heads s" using 1(2) by (auto simp: pl_cont_def split: if_splits)
  note c = pl_repr_chain[OF r h, unfolded 1(2)]
  have ns: "n \<notin> set (h # ys @ e # zs)" using n(2) n(3)[of h] h 1(2) by auto
  have "pl_repr ((pl_cont s)(h := ys @ e # n # zs)) (s\<lparr>hp := list_add_after e n (hp s)\<rparr>)"
  proof (rule pl_repr_update[OF r h, where x = n])
    show "chain (list_add_after e n (hp s)) h (ys @ e # n # zs)" by (rule chain_add_after[OF c ns n(1)])
    show "lnext (list_add_after e n (hp s)) m = lnext (hp s) m \<and> lprev (list_add_after e n (hp s)) m = lprev (hp s) m"
      if "m \<notin> insert h (insert n (set (pl_cont s h)))" for m
      using ring_add_frame[of "hp s" h "ys @ [e]" zs n m e] c ns that 1(2) by (simp add: list_add_after_def)
  qed (use n 1(2) in auto)
  then show ?case using pl_repr_ok by (auto simp: pl_add_after_def pl_node_def)
qed

section \<open>Simulation\<close>

text \<open>Two implementations that hold the same lists still do after the same operation.\<close>

locale intrusive_sim =
  a: intrusive_lists oka heada nodea conta linkeda addha addta addba dela +
  c: intrusive_lists okc headc nodec contc linkedc addhc addtc addbc delc
  for oka :: "'s \<Rightarrow> bool" and heada :: "'s \<Rightarrow> 'h \<Rightarrow> bool" and nodea :: "'s \<Rightarrow> 'n \<Rightarrow> bool"
    and conta linkeda addha addta addba dela
    and okc :: "'t \<Rightarrow> bool" and headc :: "'t \<Rightarrow> 'h \<Rightarrow> bool" and nodec :: "'t \<Rightarrow> 'n \<Rightarrow> bool"
    and contc linkedc addhc addtc addbc delc
begin

definition related :: "'s \<Rightarrow> 't \<Rightarrow> bool" where
  "related s t \<longleftrightarrow> oka s \<and> okc t \<and> conta s = contc t"

lemma related_linked:
  "related s t \<Longrightarrow> nodea s n \<Longrightarrow> nodec t n \<Longrightarrow> linkeda s n \<longleftrightarrow> linkedc t n"
  using a.linked_iff c.linked_iff by (simp add: related_def)

lemma sim_add_head:
  assumes "related s t" "heada s h" "headc t h" "nodea s n" "nodec t n" "\<not> linkeda s n"
  shows "\<exists>s' t'. addha h n s = Some s' \<and> addhc h n t = Some t' \<and> related s' t'"
  using assms a.add_head_law[of s h n] c.add_head_law[of t h n] related_linked[of s t n]
  by (force simp: related_def)

lemma sim_add_tail:
  assumes "related s t" "heada s h" "headc t h" "nodea s n" "nodec t n" "\<not> linkeda s n"
  shows "\<exists>s' t'. addta h n s = Some s' \<and> addtc h n t = Some t' \<and> related s' t'"
  using assms a.add_tail_law[of s h n] c.add_tail_law[of t h n] related_linked[of s t n]
  by (force simp: related_def)

lemma sim_add_before:
  assumes "related s t" "e \<in> set (conta s h)" "nodea s n" "nodec t n" "\<not> linkeda s n"
  shows "\<exists>s' t'. addba e n s = Some s' \<and> addbc e n t = Some t' \<and> related s' t'"
proof -
  obtain ys zs where "conta s h = ys @ e # zs" using assms(2) by (meson split_list)
  with assms a.add_before_law[of s h ys e zs n] c.add_before_law[of t h ys e zs n]
    related_linked[of s t n] show ?thesis by (force simp: related_def)
qed

lemma sim_delete:
  assumes "related s t" "n \<in> set (conta s h)"
  shows "\<exists>s' t'. dela n s = Some s' \<and> delc n t = Some t' \<and> related s' t'"
proof -
  obtain ys zs where "conta s h = ys @ n # zs" using assms(2) by (meson split_list)
  with assms a.del_law[of s h ys n zs] c.del_law[of t h ys n zs]
  show ?thesis by (force simp: related_def)
qed

end

interpretation lp: intrusive_sim ls_ok "\<lambda>_ _. True" "\<lambda>_ _. True" lcont
  "\<lambda>s n. ls_in_list n s" ls_add_head ls_add_tail ls_add_before ls_delete
  pl_ok "\<lambda>s l. l \<in> heads s" pl_node pl_cont
  "\<lambda>s n. list_in_list n (hp s)" pl_add_head pl_add_tail pl_add_before pl_delete
  by unfold_locales

section \<open>Sequences of operations\<close>

datatype list_op = Add_head nat nat | Add_tail nat nat | Add_before nat nat | Delete nat

fun ls_op :: "list_op \<Rightarrow> (nat, nat) lstore \<Rightarrow> (nat, nat) lstore option" where
  "ls_op (Add_head l n) s = ls_add_head l n s"
| "ls_op (Add_tail l n) s = ls_add_tail l n s"
| "ls_op (Add_before e n) s = ls_add_before e n s"
| "ls_op (Delete n) s = ls_delete n s"

fun pl_op :: "list_op \<Rightarrow> plists \<Rightarrow> plists option" where
  "pl_op (Add_head l n) s = pl_add_head l n s"
| "pl_op (Add_tail l n) s = pl_add_tail l n s"
| "pl_op (Add_before e n) s = pl_add_before e n s"
| "pl_op (Delete n) s = pl_delete n s"

text \<open>What the callers have to see to: they add nodes that are on no list, to a list or before a node that is on
  one, and delete nodes that are on a list. \<open>H\<close> are the list heads.\<close>

fun op_ok :: "nat set \<Rightarrow> (nat, nat) lstore \<Rightarrow> list_op \<Rightarrow> bool" where
  "op_ok H s (Add_head l n) \<longleftrightarrow> l \<in> H \<and> n \<noteq> 0 \<and> n \<notin> H \<and> \<not> ls_in_list n s"
| "op_ok H s (Add_tail l n) \<longleftrightarrow> l \<in> H \<and> n \<noteq> 0 \<and> n \<notin> H \<and> \<not> ls_in_list n s"
| "op_ok H s (Add_before e n) \<longleftrightarrow> (\<exists>l\<in>H. e \<in> set (lcont s l)) \<and> n \<noteq> 0 \<and> n \<notin> H \<and> \<not> ls_in_list n s"
| "op_ok H s (Delete n) \<longleftrightarrow> (\<exists>l\<in>H. n \<in> set (lcont s l))"

fun ls_run :: "nat set \<Rightarrow> list_op list \<Rightarrow> (nat, nat) lstore \<Rightarrow> (nat, nat) lstore option" where
  "ls_run H [] s = Some s"
| "ls_run H (p # ps) s = (if op_ok H s p then Option.bind (ls_op p s) (ls_run H ps) else None)"

fun pl_run :: "list_op list \<Rightarrow> plists \<Rightarrow> plists option" where
  "pl_run [] s = Some s"
| "pl_run (p # ps) s = Option.bind (pl_op p s) (pl_run ps)"

lemma pl_op_heads: "pl_op p s = Some s' \<Longrightarrow> heads s' = heads s"
  by (cases p) (auto simp: pl_add_head_def pl_add_tail_def pl_add_before_def pl_delete_def)

lemma list_op_sim:
  assumes "lp.related s t" "op_ok (heads t) s p"
  shows "\<exists>s' t'. ls_op p s = Some s' \<and> pl_op p t = Some t' \<and> lp.related s' t'"
  using assms lp.sim_add_head[of s t] lp.sim_add_tail[of s t] lp.sim_add_before[of s t] lp.sim_delete[of s t]
  by (cases p) (auto simp: pl_node_def)

lemma list_run_sim:
  assumes "lp.related s t" "ls_run (heads t) ps s = Some s'"
  shows "\<exists>t'. pl_run ps t = Some t' \<and> heads t' = heads t \<and> lp.related s' t'"
  using assms
proof (induction ps arbitrary: s t)
  case (Cons p ps)
  then have "op_ok (heads t) s p" by (simp split: if_splits)
  with Cons.prems(1) obtain s1 t1 where 1: "ls_op p s = Some s1" "pl_op p t = Some t1" "lp.related s1 t1"
    using list_op_sim by blast
  then have "ls_run (heads t1) ps s1 = Some s'" using Cons.prems(2) pl_op_heads[OF 1(2)] by (simp split: if_splits)
  from Cons.IH[OF 1(3) this] show ?case using 1(2) pl_op_heads[OF 1(2)] by auto
qed simp

text \<open>C5: every sequence of insertions and deletions that is legal on the abstract lists runs on the \<open>next\<close> and
  \<open>prev\<close> pointers of \<open>list.h\<close> as well; walking the pointers afterwards gives exactly the abstract lists, and the rings are
  intact.\<close>

theorem list_pointers_refine_lists:
  assumes "ls_ok s" "pl_ok t" "\<And>l. pl_cont t l = lcont s l" "ls_run (heads t) ps s = Some s'"
  shows "\<exists>t'. pl_run ps t = Some t' \<and> pl_ok t' \<and> heads t' = heads t \<and>
    (\<forall>l\<in>heads t. list_for_every l (hp t') = Some (lcont s' l))"
proof -
  have "lcont s = pl_cont t" using assms(3) by (simp add: fun_eq_iff)
  then have "lp.related s t" using assms(1,2) by (simp add: lp.related_def)
  from list_run_sim[OF this assms(4)] obtain t' where t': "pl_run ps t = Some t'" "heads t' = heads t" "lp.related s' t'" by blast
  have ok: "pl_ok t'" "lcont s' = pl_cont t'" using t'(3) by (simp_all add: lp.related_def)
  have "list_for_every l (hp t') = Some (lcont s' l)" if "l \<in> heads t" for l
    using pl_repr_chain[of "pl_cont t'" t' l] ok that t'(2) chain_for_every by (auto simp: pl_ok_def)
  then show ?thesis using t' ok(1) by blast
qed


text \<open>Two empty lists at 10 and 20.\<close>

definition demo_lists :: plists where
  "demo_lists = \<lparr>heads = {10, 20}, hp = list_initialize 10 (list_initialize 20 \<lparr>lprev = (\<lambda>_. 0), lnext = (\<lambda>_. 0)\<rparr>)\<rparr>"

lemma demo_lists_repr: "pl_repr (\<lambda>_. []) demo_lists"
  by (auto simp: pl_repr_def demo_lists_def chain_def list_node_defs)

theorem list_pointers_refine_lists_witness:
  "\<exists>t'. pl_run [Add_tail 10 1, Add_head 10 2, Add_before 1 3, Delete 2, Add_tail 20 2] demo_lists = Some t' \<and>
    list_for_every 10 (hp t') = Some [3, 1] \<and> list_for_every 20 (hp t') = Some [2]"
proof -
  let ?ps = "[Add_tail 10 1, Add_head 10 2, Add_before 1 3, Delete 2, Add_tail 20 2]"
  have ok: "pl_ok demo_lists" "pl_cont demo_lists l = lcont ls_empty l" for l
    using pl_repr_ok[OF demo_lists_repr] by (simp_all add: ls_empty_def)
  have h: "heads demo_lists = {10, 20}" by (simp add: demo_lists_def)
  obtain s' where s': "ls_run {10, 20} ?ps ls_empty = Some s'" "lcont s' 10 = [3, 1]" "lcont s' 20 = [2]"
    by (force simp: ls_empty_def ls_add_head_def ls_add_tail_def ls_add_before_def ls_delete_def ls_in_list_def ls_put_def)
  have "ls_ok (ls_empty :: (nat, nat) lstore)" by (simp add: ls_ok_def ls_empty_def)
  from list_pointers_refine_lists[OF this ok s'(1)[folded h]] s' show ?thesis by (auto simp: h)
qed

end
