(* ===== verification/Timer.thy ===== *)
theory Timer
  imports List_Store
begin

text \<open>
  The kernel timer subsystem, \<^verbatim>\<open>kernel/timer.c\<close>: per-cpu queues of pending timers ordered by
  their due time, and the interrupt routine that fires them. Times are 32-bit milliseconds
  compared by signed difference (\<open>TIME_GT\<close> and \<open>TIME_LT\<close> of \<^verbatim>\<open>include/sys/types.h\<close>), so all
  ordering facts are relative to a base time and hold for times less than \<open>2 ^ 31\<close> ahead of it.

  The state is a record that the kernel state extends, so that a timer callback can act on the
  whole kernel: \<open>timer_tick\<close> takes the callback dispatcher as an argument. \<open>current_time()\<close> is the
  field \<open>cur_time\<close>; \<open>hw_timer cpu\<close> is what the last \<open>platform_set_oneshot_timer\<close> or
  \<open>platform_stop_timer\<close> on that cpu left programmed; \<open>has_dynamic_timer\<close> is the build option
  \<open>PLATFORM_HAS_DYNAMIC_TIMER\<close>. Trace output and statistics counters are not modelled.
\<close>

section \<open>Times\<close>

type_synonym lk_time = u32

abbreviation (input) INFINITE_TIME :: lk_time where "INFINITE_TIME \<equiv> 0xFFFFFFFF"

definition TIME_GT :: "lk_time \<Rightarrow> lk_time \<Rightarrow> bool" where
  "TIME_GT a b \<longleftrightarrow> 0 < sint (a - b)"

definition TIME_LT :: "lk_time \<Rightarrow> lk_time \<Rightarrow> bool" where
  "TIME_LT a b \<longleftrightarrow> sint (a - b) < 0"

text \<open>Distance ahead of a base time.\<close>

definition ahead :: "lk_time \<Rightarrow> lk_time \<Rightarrow> nat" where
  "ahead base t = unat (t - base)"

lemma sint_small: "unat (x::u32) < 2147483648 \<Longrightarrow> sint x = int (unat x)"
proof -
  assume a: "unat x < 2147483648"
  have u: "uint x = int (unat x)" by simp
  then have "uint x < 2147483648" using a by linarith
  moreover have "- 2147483648 \<le> uint x" using uint_ge_0[of x] by linarith
  ultimately have "signed_take_bit 31 (uint x) = uint x"
    by (intro signed_take_bit_int_eq_self) simp_all
  then show ?thesis by (simp add: sint_uint)
qed

lemma sint_diff_ahead:
  assumes "ahead base a < 2147483648" "ahead base b < 2147483648"
  shows "sint (a - b) = int (ahead base a) - int (ahead base b)"
proof -
  let ?x = "a - base" and ?y = "b - base"
  have s: "sint ?x = int (ahead base a)" "sint ?y = int (ahead base b)"
    using assms by (simp_all only: sint_small ahead_def)
  have "sint (?x - ?y) = signed_take_bit 31 (sint ?x - sint ?y)"
    by (simp only: sint_word_ariths) simp
  also have "\<dots> = sint ?x - sint ?y"
    by (rule signed_take_bit_int_eq_self) (use assms in \<open>simp_all add: s\<close>)
  finally show ?thesis by (simp add: s)
qed

lemma TIME_GT_ahead:
  "ahead base a < 2147483648 \<Longrightarrow> ahead base b < 2147483648 \<Longrightarrow> TIME_GT a b \<longleftrightarrow> ahead base b < ahead base a"
  by (simp add: TIME_GT_def sint_diff_ahead)

lemma TIME_LT_ahead:
  "ahead base a < 2147483648 \<Longrightarrow> ahead base b < 2147483648 \<Longrightarrow> TIME_LT a b \<longleftrightarrow> ahead base a < ahead base b"
  by (simp add: TIME_LT_def sint_diff_ahead)

section \<open>State and operations\<close>

abbreviation (input) TIMER_MAGIC :: int where "TIMER_MAGIC \<equiv> 0x74696D72"

datatype handler_return = INT_NO_RESCHEDULE | INT_RESCHEDULE

record 'cb timer =
  tm_magic :: int
  scheduled_time :: lk_time
  periodic_time :: lk_time
  callback :: "'cb option"
  tm_arg :: nat

datatype hw_timer_state = HW_STOPPED | HW_ONESHOT lk_time | HW_PERIODIC lk_time

text \<open>\<open>timers\<close> is the memory of all timer objects, \<open>tqueue\<close> the queues \<open>timers[cpu].timer_queue\<close>.\<close>

record ('tm, 'cb) timer_state =
  timers :: "'tm \<Rightarrow> 'cb timer"
  tqueue :: "(nat, 'tm) lstore"
  cur_time :: lk_time
  hw_timer :: "nat \<Rightarrow> hw_timer_state"
  has_dynamic_timer :: bool

definition TIMER_INITIAL_VALUE :: "'cb timer" where
  "TIMER_INITIAL_VALUE =
     \<lparr>tm_magic = TIMER_MAGIC, scheduled_time = 0, periodic_time = 0, callback = None, tm_arg = 0\<rparr>"

definition timer_initialize ::
  "'tm \<Rightarrow> ('tm, 'cb, 'z) timer_state_scheme \<Rightarrow> ('tm, 'cb, 'z) timer_state_scheme option" where
  "timer_initialize t s =
     (if ls_in_list t (tqueue s) then None
      else Some (s\<lparr>timers := (timers s)(t := TIMER_INITIAL_VALUE)\<rparr>))"

definition insert_timer_in_queue ::
  "nat \<Rightarrow> 'tm \<Rightarrow> ('tm, 'cb, 'z) timer_state_scheme \<Rightarrow> ('tm, 'cb, 'z) timer_state_scheme option" where
  "insert_timer_in_queue cpu t s =
     do { q \<leftarrow> (case List.find
                    (\<lambda>entry. TIME_GT (scheduled_time (timers s entry)) (scheduled_time (timers s t)))
                    (lcont (tqueue s) cpu) of
                Some entry \<Rightarrow> ls_add_before entry t (tqueue s)
              | None \<Rightarrow> ls_add_tail cpu t (tqueue s));
          Some (s\<lparr>tqueue := q\<rparr>) }"

definition platform_set_oneshot_timer ::
  "nat \<Rightarrow> lk_time \<Rightarrow> ('tm, 'cb, 'z) timer_state_scheme \<Rightarrow> ('tm, 'cb, 'z) timer_state_scheme" where
  "platform_set_oneshot_timer cpu delay s = s\<lparr>hw_timer := (hw_timer s)(cpu := HW_ONESHOT delay)\<rparr>"

definition platform_stop_timer ::
  "nat \<Rightarrow> ('tm, 'cb, 'z) timer_state_scheme \<Rightarrow> ('tm, 'cb, 'z) timer_state_scheme" where
  "platform_stop_timer cpu s = s\<lparr>hw_timer := (hw_timer s)(cpu := HW_STOPPED)\<rparr>"

definition timer_set ::
  "nat \<Rightarrow> 'tm \<Rightarrow> lk_time \<Rightarrow> lk_time \<Rightarrow> 'cb \<Rightarrow> nat \<Rightarrow>
   ('tm, 'cb, 'z) timer_state_scheme \<Rightarrow> ('tm, 'cb, 'z) timer_state_scheme option" where
  "timer_set cpu t delay period cb a s =
     do { DEBUG_ASSERT (tm_magic (timers s t) = TIMER_MAGIC);
          if ls_in_list t (tqueue s) then None
          else
            let s = s\<lparr>timers := (timers s)(t := (timers s t)\<lparr>scheduled_time := cur_time s + delay,
                       periodic_time := period, callback := Some cb, tm_arg := a\<rparr>)\<rparr>
            in do { s \<leftarrow> insert_timer_in_queue cpu t s;
                    Some (if has_dynamic_timer s \<and> ls_peek_head cpu (tqueue s) = Some t
                          then platform_set_oneshot_timer cpu delay s else s) } }"

definition timer_set_oneshot ::
  "nat \<Rightarrow> 'tm \<Rightarrow> lk_time \<Rightarrow> 'cb \<Rightarrow> nat \<Rightarrow>
   ('tm, 'cb, 'z) timer_state_scheme \<Rightarrow> ('tm, 'cb, 'z) timer_state_scheme option" where
  "timer_set_oneshot cpu t delay cb a s =
     (let delay = (if delay = 0 then 1 else delay) in timer_set cpu t delay 0 cb a s)"

definition timer_set_periodic ::
  "nat \<Rightarrow> 'tm \<Rightarrow> lk_time \<Rightarrow> 'cb \<Rightarrow> nat \<Rightarrow>
   ('tm, 'cb, 'z) timer_state_scheme \<Rightarrow> ('tm, 'cb, 'z) timer_state_scheme option" where
  "timer_set_periodic cpu t period cb a s =
     (let period = (if period = 0 then 1 else period) in timer_set cpu t period period cb a s)"

definition timer_cancel ::
  "nat \<Rightarrow> 'tm \<Rightarrow> ('tm, 'cb, 'z) timer_state_scheme \<Rightarrow> ('tm, 'cb, 'z) timer_state_scheme option" where
  "timer_cancel cpu t s =
     do { DEBUG_ASSERT (tm_magic (timers s t) = TIMER_MAGIC);
          let oldhead = ls_peek_head cpu (tqueue s) in
          do { q \<leftarrow> (if ls_in_list t (tqueue s) then ls_delete t (tqueue s) else Some (tqueue s));
               let s = s\<lparr>tqueue := q,
                         timers := (timers s)(t := (timers s t)\<lparr>periodic_time := 0,
                                     callback := None, tm_arg := 0\<rparr>)\<rparr>
               in Some (if has_dynamic_timer s then
                          (case ls_peek_head cpu (tqueue s) of
                             None \<Rightarrow> platform_stop_timer cpu s
                           | Some newhead \<Rightarrow>
                               if Some newhead \<noteq> oldhead then
                                 platform_set_oneshot_timer cpu
                                   (if TIME_LT (scheduled_time (timers s newhead)) (cur_time s) then 0
                                    else scheduled_time (timers s newhead) - cur_time s) s
                               else s)
                        else s) } }"

text \<open>
  One iteration of the loop of \<open>timer_tick\<close>: \<open>fire cb t now arg\<close> runs the callback. A \<open>NULL\<close>
  callback is a jump to address 0.
\<close>

definition timer_fire_one ::
  "('cb \<Rightarrow> 'tm \<Rightarrow> lk_time \<Rightarrow> nat \<Rightarrow> ('tm, 'cb, 'z) timer_state_scheme \<Rightarrow>
      (handler_return \<times> ('tm, 'cb, 'z) timer_state_scheme) option) \<Rightarrow>
   nat \<Rightarrow> lk_time \<Rightarrow> 'tm \<Rightarrow> ('tm, 'cb, 'z) timer_state_scheme \<Rightarrow>
      (handler_return \<times> ('tm, 'cb, 'z) timer_state_scheme) option" where
  "timer_fire_one fire cpu now t s =
     do { DEBUG_ASSERT (tm_magic (timers s t) = TIMER_MAGIC);
          q \<leftarrow> ls_delete t (tqueue s);
          let s = s\<lparr>tqueue := q\<rparr>; periodic = (0 < periodic_time (timers s t)) in
          do { cb \<leftarrow> callback (timers s t);
               (r, s) \<leftarrow> fire cb t now (tm_arg (timers s t)) s;
               if periodic \<and> \<not> ls_in_list t (tqueue s) \<and> 0 < periodic_time (timers s t)
               then do { s \<leftarrow> insert_timer_in_queue cpu t
                           (s\<lparr>timers := (timers s)(t := (timers s t)
                               \<lparr>scheduled_time := now + periodic_time (timers s t)\<rparr>)\<rparr>);
                         Some (r, s) }
               else Some (r, s) } }"

partial_function (option) timer_loop ::
  "('cb \<Rightarrow> 'tm \<Rightarrow> lk_time \<Rightarrow> nat \<Rightarrow> ('tm, 'cb, 'z) timer_state_scheme \<Rightarrow>
      (handler_return \<times> ('tm, 'cb, 'z) timer_state_scheme) option) \<Rightarrow>
   nat \<Rightarrow> lk_time \<Rightarrow> handler_return \<Rightarrow> ('tm, 'cb, 'z) timer_state_scheme \<Rightarrow>
      (handler_return \<times> ('tm, 'cb, 'z) timer_state_scheme) option" where
  "timer_loop fire cpu now ret s =
     (case ls_peek_head cpu (tqueue s) of
        None \<Rightarrow> Some (ret, s)
      | Some t \<Rightarrow>
          if TIME_LT now (scheduled_time (timers s t)) then Some (ret, s)
          else Option.bind (timer_fire_one fire cpu now t s)
                 (\<lambda>rs. timer_loop fire cpu now
                         (if fst rs = INT_RESCHEDULE then INT_RESCHEDULE else ret) (snd rs)))"

text \<open>
  \<open>timer_tick\<close>; \<open>tick\<close> is \<open>thread_timer_tick\<close>, which the interrupt routine itself calls when the
  platform has no dynamic timer.
\<close>

definition timer_tick ::
  "('cb \<Rightarrow> 'tm \<Rightarrow> lk_time \<Rightarrow> nat \<Rightarrow> ('tm, 'cb, 'z) timer_state_scheme \<Rightarrow>
      (handler_return \<times> ('tm, 'cb, 'z) timer_state_scheme) option) \<Rightarrow>
   (('tm, 'cb, 'z) timer_state_scheme \<Rightarrow> handler_return \<times> ('tm, 'cb, 'z) timer_state_scheme) \<Rightarrow>
   nat \<Rightarrow> lk_time \<Rightarrow> ('tm, 'cb, 'z) timer_state_scheme \<Rightarrow>
      (handler_return \<times> ('tm, 'cb, 'z) timer_state_scheme) option" where
  "timer_tick fire tick cpu now s =
     do { (ret, s) \<leftarrow> timer_loop fire cpu now INT_NO_RESCHEDULE s;
          if has_dynamic_timer s then
            (case ls_peek_head cpu (tqueue s) of
               None \<Rightarrow> Some (ret, s)
             | Some t \<Rightarrow>
                 do { DEBUG_ASSERT (TIME_GT (scheduled_time (timers s t)) now);
                      Some (ret, platform_set_oneshot_timer cpu (scheduled_time (timers s t) - now) s) })
          else
            (let (r, s) = tick s
             in Some (if r = INT_RESCHEDULE then INT_RESCHEDULE else ret, s)) }"

definition timer_init :: "('tm, 'cb, 'z) timer_state_scheme \<Rightarrow> ('tm, 'cb, 'z) timer_state_scheme" where
  "timer_init s =
     (let s = s\<lparr>tqueue := ls_empty\<rparr>
      in if has_dynamic_timer s then s else s\<lparr>hw_timer := (hw_timer s)(0 := HW_PERIODIC 10)\<rparr>)"

section \<open>The queue is kept in order of time\<close>

abbreviation due :: "('tm, 'cb, 'z) timer_state_scheme \<Rightarrow> lk_time \<Rightarrow> 'tm \<Rightarrow> nat" where
  "due s base t \<equiv> ahead base (scheduled_time (timers s t))"

definition tq_sorted :: "lk_time \<Rightarrow> nat \<Rightarrow> ('tm, 'cb, 'z) timer_state_scheme \<Rightarrow> bool" where
  "tq_sorted base cpu s \<longleftrightarrow>
     sorted (map (due s base) (lcont (tqueue s) cpu)) \<and>
     (\<forall>t \<in> set (lcont (tqueue s) cpu). due s base t < 2147483648)"

lemma find_takeWhile_Some:
  "List.find P xs = Some e \<Longrightarrow> \<exists>zs. xs = takeWhile (\<lambda>x. \<not> P x) xs @ e # zs
     \<and> dropWhile (\<lambda>x. \<not> P x) xs = e # zs"
  by (induction xs) (auto split: if_splits)

lemma find_takeWhile_None:
  "List.find P xs = None \<Longrightarrow> takeWhile (\<lambda>x. \<not> P x) xs = xs \<and> dropWhile (\<lambda>x. \<not> P x) xs = []"
  by (induction xs) (auto split: if_splits)

lemma insert_timer_cont:
  assumes "ls_ok (tqueue s)" "\<not> ls_in_list t (tqueue s)" and xs: "lcont (tqueue s) cpu = xs"
    and P: "P = (\<lambda>e. TIME_GT (scheduled_time (timers s e)) (scheduled_time (timers s t)))"
  shows "\<exists>q. insert_timer_in_queue cpu t s = Some (s\<lparr>tqueue := q\<rparr>) \<and> ls_ok q \<and>
     lcont q = (lcont (tqueue s))(cpu := takeWhile (\<lambda>e. \<not> P e) xs @ t # dropWhile (\<lambda>e. \<not> P e) xs)"
proof (cases "List.find P xs")
  case None
  obtain q where "ls_add_tail cpu t (tqueue s) = Some q" "ls_ok q"
    "lcont q = (lcont (tqueue s))(cpu := lcont (tqueue s) cpu @ [t])"
    using ls.add_tail_law[OF assms(1) _ _ assms(2), of cpu] by auto
  with None xs show ?thesis
    by (intro exI[of _ q])
      (simp add: insert_timer_in_queue_def P[symmetric] find_takeWhile_None[OF None])
next
  case (Some e)
  from find_takeWhile_Some[OF this] obtain zs where
    zs: "xs = takeWhile (\<lambda>x. \<not> P x) xs @ e # zs" "dropWhile (\<lambda>x. \<not> P x) xs = e # zs" by blast
  from zs(1) xs have "lcont (tqueue s) cpu = takeWhile (\<lambda>x. \<not> P x) xs @ e # zs" by simp
  from ls.add_before_law[OF assms(1) this _ assms(2)] obtain q where
    "ls_add_before e t (tqueue s) = Some q" "ls_ok q"
    "lcont q = (lcont (tqueue s))(cpu := takeWhile (\<lambda>x. \<not> P x) xs @ t # e # zs)" by auto
  with Some zs(2) xs show ?thesis
    by (intro exI[of _ q]) (simp add: insert_timer_in_queue_def P[symmetric])
qed

lemma sorted_takeWhile_insert:
  "sorted (map f xs) \<Longrightarrow> sorted (map f (takeWhile (\<lambda>e. f e \<le> f t) xs @ t # dropWhile (\<lambda>e. f e \<le> f t) xs))"
  for f :: "'a \<Rightarrow> nat"
proof (induction xs)
  case (Cons x xs)
  show ?case
  proof (cases "f x \<le> f t")
    case True
    have "sorted (map f (takeWhile (\<lambda>e. f e \<le> f t) xs @ t # dropWhile (\<lambda>e. f e \<le> f t) xs))"
      using Cons by simp
    moreover have "f x \<le> f y" if "y \<in> set (takeWhile (\<lambda>e. f e \<le> f t) xs @ t # dropWhile (\<lambda>e. f e \<le> f t) xs)" for y
    proof -
      from that have "y \<in> insert t (set xs)" by (auto dest: set_takeWhileD set_dropWhileD)
      with True Cons.prems show ?thesis by auto
    qed
    ultimately show ?thesis using True by auto
  next
    case False
    then have "\<forall>y \<in> set (x # xs). f t \<le> f y"
      using Cons.prems by (auto intro: order.trans[of "f t" "f x"])
    with False Cons.prems show ?thesis by simp
  qed
qed simp

lemma insert_timer_sorted:
  assumes "ls_ok (tqueue s)" "\<not> ls_in_list t (tqueue s)" "tq_sorted base cpu s"
    "due s base t < 2147483648"
  shows "\<exists>q. insert_timer_in_queue cpu t s = Some (s\<lparr>tqueue := q\<rparr>) \<and> ls_ok q \<and>
     lcont q = (lcont (tqueue s))(cpu :=
       takeWhile (\<lambda>e. due s base e \<le> due s base t) (lcont (tqueue s) cpu) @ t #
       dropWhile (\<lambda>e. due s base e \<le> due s base t) (lcont (tqueue s) cpu)) \<and>
     tq_sorted base cpu (s\<lparr>tqueue := q\<rparr>)"
proof -
  let ?xs = "lcont (tqueue s) cpu"
  let ?P = "\<lambda>e. \<not> TIME_GT (scheduled_time (timers s e)) (scheduled_time (timers s t))"
  let ?Q = "\<lambda>e. due s base e \<le> due s base t"
  from insert_timer_cont[OF assms(1,2) refl refl, of cpu] obtain q where
    q: "insert_timer_in_queue cpu t s = Some (s\<lparr>tqueue := q\<rparr>)" "ls_ok q"
      "lcont q = (lcont (tqueue s))(cpu := takeWhile ?P ?xs @ t # dropWhile ?P ?xs)"
    by auto
  have "x \<in> set ?xs \<Longrightarrow> ?P x = ?Q x" for x
    using assms(3,4) TIME_GT_ahead[of base] by (auto simp: tq_sorted_def not_less)
  then have eq: "takeWhile ?P ?xs = takeWhile ?Q ?xs" "dropWhile ?P ?xs = dropWhile ?Q ?xs"
    by (auto cong: takeWhile_cong dropWhile_cong)
  have "sorted (map (due s base) (takeWhile ?Q ?xs @ t # dropWhile ?Q ?xs))"
    by (rule sorted_takeWhile_insert) (use assms(3) in \<open>simp add: tq_sorted_def\<close>)
  then have "tq_sorted base cpu (s\<lparr>tqueue := q\<rparr>)"
    using q(3) eq assms(3,4) by (auto simp: tq_sorted_def dest: set_takeWhileD set_dropWhileD)
  with q eq show ?thesis by auto
qed


section \<open>The interrupt routine\<close>

text \<open>Reference definition: the callbacks of the timers \<open>ts\<close>, run one after the other at time \<open>now\<close>, with the
  result of the interrupt: reschedule if one of them asks for it.\<close>

fun fire_all ::
  "('cb \<Rightarrow> 'tm \<Rightarrow> lk_time \<Rightarrow> nat \<Rightarrow> ('tm, 'cb, 'z) timer_state_scheme \<Rightarrow>
      (handler_return \<times> ('tm, 'cb, 'z) timer_state_scheme) option) \<Rightarrow>
   lk_time \<Rightarrow> 'tm list \<Rightarrow> ('tm, 'cb, 'z) timer_state_scheme \<Rightarrow>
      (handler_return \<times> ('tm, 'cb, 'z) timer_state_scheme) option" where
  "fire_all fire now [] s = Some (INT_NO_RESCHEDULE, s)"
| "fire_all fire now (t # ts) s =
     do { cb \<leftarrow> callback (timers s t);
          (r, s) \<leftarrow> fire cb t now (tm_arg (timers s t)) s;
          (r', s) \<leftarrow> fire_all fire now ts s;
          Some (if r = INT_RESCHEDULE then INT_RESCHEDULE else r', s) }"

text \<open>A timer that has fired: a periodic one is armed for one period after the time of the interrupt.\<close>

definition rearm :: "lk_time \<Rightarrow> 'cb timer \<Rightarrow> 'cb timer" where
  "rearm now tm = (if 0 < periodic_time tm then tm\<lparr>scheduled_time := now + periodic_time tm\<rparr> else tm)"

text \<open>
  What \<open>timer_tick\<close> relies on its callbacks for: on a state satisfying their invariant, the
  callback of a timer that is \<open>ready\<close> returns, neither reads nor writes the timers and their queues and
  keeps the other timers (and a periodic one itself) ready. The kernel's callbacks are shown to
  satisfy this in the theory that defines them.
\<close>

locale timer_callbacks =
  fixes fire :: "'cb \<Rightarrow> 'tm \<Rightarrow> lk_time \<Rightarrow> nat \<Rightarrow> ('tm, 'cb, 'z) timer_state_scheme \<Rightarrow>
                  (handler_return \<times> ('tm, 'cb, 'z) timer_state_scheme) option"
    and cbinv :: "('tm, 'cb, 'z) timer_state_scheme \<Rightarrow> bool"
    and ready :: "'tm \<Rightarrow> ('tm, 'cb, 'z) timer_state_scheme \<Rightarrow> bool"
  assumes fire_returns: "cbinv s \<Longrightarrow> ready t s \<Longrightarrow> callback (timers s t) = Some cb \<Longrightarrow>
      \<exists>r s'. fire cb t now (tm_arg (timers s t)) s = Some (r, s') \<and> cbinv s' \<and>
        timers s' = timers s \<and> tqueue s' = tqueue s \<and> has_dynamic_timer s' = has_dynamic_timer s \<and>
        hw_timer s' = hw_timer s \<and>
        (\<forall>u. u \<noteq> t \<or> 0 < periodic_time (timers s t) \<longrightarrow> ready u s \<longrightarrow> ready u s')"
    and cbinv_queue: "cbinv (s\<lparr>tqueue := q\<rparr>) = cbinv s"
    and cbinv_sched: "cbinv (s\<lparr>timers := (timers s)(t := (timers s t)\<lparr>scheduled_time := w\<rparr>)\<rparr>) = cbinv s"
    and cbinv_hw: "cbinv (s\<lparr>hw_timer := hw\<rparr>) = cbinv s"
    and ready_queue: "ready t (s\<lparr>tqueue := q\<rparr>) = ready t s"
    and ready_sched: "ready u (s\<lparr>timers := (timers s)(t := (timers s t)\<lparr>scheduled_time := w\<rparr>)\<rparr>) = ready u s"
    and fire_indep: "fire cb t now a (s\<lparr>timers := tms, tqueue := q\<rparr>) =
      map_option (\<lambda>(r, s'). (r, s'\<lparr>timers := tms, tqueue := q\<rparr>)) (fire cb t now a s)"
begin

lemma fire_keeps:
  assumes "fire cb t now a s = Some (r, s')"
  shows "timers s' = timers s" "tqueue s' = tqueue s"
proof -
  have "s\<lparr>timers := timers s, tqueue := tqueue s\<rparr> = s" by simp
  with fire_indep[where s = s and tms = "timers s" and q = "tqueue s" and cb = cb and t = t and now = now and a = a] assms
  have e: "s' = s'\<lparr>timers := timers s, tqueue := tqueue s\<rparr>" by simp
  show "timers s' = timers s" "tqueue s' = tqueue s" by (subst e, simp)+
qed

lemma fire_all_indep:
  assumes "\<And>u. u \<in> set ts \<Longrightarrow> callback (tms u) = callback (timers s u) \<and> tm_arg (tms u) = tm_arg (timers s u)"
  shows "fire_all fire now ts (s\<lparr>timers := tms, tqueue := q\<rparr>) =
    map_option (\<lambda>(r, s'). (r, s'\<lparr>timers := tms, tqueue := q\<rparr>)) (fire_all fire now ts s)"
  using assms
proof (induction ts arbitrary: s)
  case (Cons t ts)
  show ?case
  proof (cases "callback (timers s t)")
    case (Some cb)
    show ?thesis
    proof (cases "fire cb t now (tm_arg (timers s t)) s")
      case None
      with Some Cons.prems show ?thesis by (simp add: fire_indep)
    next
      case (Some rs)
      obtain r s1 where rs: "rs = (r, s1)" by fastforce
      have "fire_all fire now ts (s1\<lparr>timers := tms, tqueue := q\<rparr>) =
        map_option (\<lambda>(r, s'). (r, s'\<lparr>timers := tms, tqueue := q\<rparr>)) (fire_all fire now ts s1)"
        by (rule Cons.IH) (use Cons.prems fire_keeps Some rs in auto)
      with Some rs \<open>callback (timers s t) = Some cb\<close> Cons.prems show ?thesis
        by (cases "fire_all fire now ts s1") (auto simp: fire_indep)
    qed
  qed (use Cons.prems in simp)
qed simp

text \<open>The queue of one cpu before and during a tick at time \<open>now\<close>.\<close>

definition tick_ok :: "lk_time \<Rightarrow> lk_time \<Rightarrow> nat \<Rightarrow> ('tm, 'cb, 'z) timer_state_scheme \<Rightarrow> bool" where
  "tick_ok base now cpu s \<longleftrightarrow>
     cbinv s \<and> ls_ok (tqueue s) \<and> tq_sorted base cpu s \<and> ahead base now < 2147483648 \<and>
     (\<forall>t \<in> set (lcont (tqueue s) cpu).
        tm_magic (timers s t) = TIMER_MAGIC \<and> callback (timers s t) \<noteq> None \<and> ready t s \<and>
        ahead base now + unat (periodic_time (timers s t)) < 2147483648)"

lemma ahead_add:
  assumes "ahead base now + unat p < 2147483648"
  shows "ahead base (now + p) = ahead base now + unat p"
proof -
  have eq: "now + p - base = (now - base) + p" by simp
  have "unat (now - base) + unat p < 2 ^ 32" using assms by (simp add: ahead_def)
  then have "unat ((now - base) + p) = unat (now - base) + unat p"
    using unat_add_lem[of "now - base" p] by simp
  then show ?thesis unfolding ahead_def eq .
qed

lemma fire_one_step:
  assumes ok: "tick_ok base now cpu s" and xs: "lcont (tqueue s) cpu = t # ys"
    and per: "periodic_time (timers s t) = p"
  defines "tms \<equiv> (if 0 < p then (timers s)(t := (timers s t)\<lparr>scheduled_time := now + p\<rparr>) else timers s)"
  shows "\<exists>r s'. timer_fire_one fire cpu now t s = Some (r, s') \<and> tick_ok base now cpu s' \<and>
     timers s' = tms \<and> has_dynamic_timer s' = has_dynamic_timer s \<and>
     set (lcont (tqueue s') cpu) = set ys \<union> (if 0 < p then {t} else {}) \<and>
     filter (\<lambda>u. u \<noteq> t) (lcont (tqueue s') cpu) = ys \<and>
     (\<exists>s2. fire (the (callback (timers s t))) t now (tm_arg (timers s t)) s = Some (r, s2) \<and>
        s' = s2\<lparr>timers := tms, tqueue := tqueue s'\<rparr>)"
proof -
  have t: "tm_magic (timers s t) = TIMER_MAGIC" "ready t s"
      "ahead base now + unat p < 2147483648"
    and inv: "cbinv s" "ls_ok (tqueue s)" and srt: "tq_sorted base cpu s"
    using ok xs per by (auto simp: tick_ok_def)
  obtain cb where cb: "callback (timers s t) = Some cb" using ok xs by (auto simp: tick_ok_def)
  have tys: "t \<notin> set ys" using ls_ok_distinct[OF inv(2), of cpu] xs by simp
  from ls.del_law[OF inv(2), of cpu "[]" t ys] xs obtain q where
    q: "ls_delete t (tqueue s) = Some q" "ls_ok q" "lcont q = (lcont (tqueue s))(cpu := ys)" by auto
  have unl: "\<not> ls_in_list t q"
    using q(1) by (auto simp: ls_delete_def ls_in_list_def split: option.splits)
  let ?s1 = "s\<lparr>tqueue := q\<rparr>"
  from fire_returns[of ?s1 t cb now] inv(1) t cb obtain r s2 where
    s2: "fire cb t now (tm_arg (timers s t)) ?s1 = Some (r, s2)" "cbinv s2" "timers s2 = timers s"
      "tqueue s2 = q" "has_dynamic_timer s2 = has_dynamic_timer s"
      "\<And>u. u \<noteq> t \<or> 0 < p \<Longrightarrow> ready u s \<Longrightarrow> ready u s2"
    by (auto simp: cbinv_queue ready_queue per)
  have "fire cb t now (tm_arg (timers s t)) (s\<lparr>timers := timers s, tqueue := q\<rparr>) = Some (r, s2)" using s2(1) by simp
  then obtain sF where sF: "fire cb t now (tm_arg (timers s t)) s = Some (r, sF)" "s2 = sF\<lparr>timers := timers s, tqueue := q\<rparr>"
    unfolding fire_indep by auto
  have rest: "u \<in> set ys \<Longrightarrow> tm_magic (timers s u) = TIMER_MAGIC \<and> callback (timers s u) \<noteq> None \<and>
      ready u s2 \<and> ahead base now + unat (periodic_time (timers s u)) < 2147483648" for u
    using ok xs s2(6)[of u] tys by (auto simp: tick_ok_def)
  have srt2: "tq_sorted base cpu s2" using srt xs q(3) s2 by (auto simp: tq_sorted_def)
  show ?thesis
  proof (cases "0 < p")
    case False
    have "tick_ok base now cpu s2"
      using ok s2 q srt2 rest by (auto simp: tick_ok_def)
    moreover have "filter (\<lambda>u. u \<noteq> t) ys = ys" using tys by (auto simp: filter_id_conv)
    moreover have "s2 = sF\<lparr>timers := tms, tqueue := tqueue s2\<rparr>" using sF(2) False by (simp add: tms_def)
    ultimately show ?thesis using False t(1) q(1) s2 cb per sF(1)
      by (intro exI[of _ r] exI[of _ s2]) (auto simp: timer_fire_one_def tms_def q(3))
  next
    case True
    let ?s3 = "s2\<lparr>timers := (timers s2)(t := (timers s2 t)\<lparr>scheduled_time := now + p\<rparr>)\<rparr>"
    have m: "map (due ?s3 base) ys = map (due s2 base) ys" using tys by (intro map_cong) auto
    have "sorted (map (due ?s3 base) ys)"
      unfolding m using srt2 q(3) s2(4) by (simp add: tq_sorted_def)
    then have "tq_sorted base cpu ?s3"
      using srt2 tys q(3) s2(4) by (auto simp: tq_sorted_def)
    moreover have "due ?s3 base t < 2147483648" using ahead_add t(3) by simp
    ultimately obtain q' where
      q': "insert_timer_in_queue cpu t ?s3 = Some (?s3\<lparr>tqueue := q'\<rparr>)" "ls_ok q'"
        "lcont q' = (lcont q)(cpu :=
            takeWhile (\<lambda>e. due ?s3 base e \<le> due ?s3 base t) ys @ t #
            dropWhile (\<lambda>e. due ?s3 base e \<le> due ?s3 base t) ys)"
        "tq_sorted base cpu (?s3\<lparr>tqueue := q'\<rparr>)"
      using insert_timer_sorted[of ?s3 t base cpu] q s2 unl by auto
    have set': "set (lcont q' cpu) = insert t (set ys)"
      using q'(3) by (metis (no_types, lifting) Un_insert_right fun_upd_same list.simps(15)
          set_append takeWhile_dropWhile_id)
    have "tick_ok base now cpu (?s3\<lparr>tqueue := q'\<rparr>)"
      unfolding tick_ok_def
    proof (intro conjI ballI)
      show "cbinv (?s3\<lparr>tqueue := q'\<rparr>)" using s2(2) by (simp only: cbinv_queue cbinv_sched)
      show "ahead base now < 2147483648" using t(3) by linarith
      fix u assume "u \<in> set (lcont (tqueue (?s3\<lparr>tqueue := q'\<rparr>)) cpu)"
      then have u: "u = t \<or> u \<in> set ys" using set' by simp
      show "ready u (?s3\<lparr>tqueue := q'\<rparr>)"
        using u rest s2(6)[of t] True t(2) by (auto simp only: ready_queue ready_sched)
      show "tm_magic (timers (?s3\<lparr>tqueue := q'\<rparr>) u) = TIMER_MAGIC"
        using u rest t(1) s2(3) by auto
      show "callback (timers (?s3\<lparr>tqueue := q'\<rparr>) u) \<noteq> None"
        using u rest cb s2(3) by auto
      show "ahead base now + unat (periodic_time (timers (?s3\<lparr>tqueue := q'\<rparr>) u)) < 2147483648"
        using u rest t(3) per s2(3) by auto
    qed (use q' in simp_all)
    moreover have "timer_fire_one fire cpu now t s = Some (r, ?s3\<lparr>tqueue := q'\<rparr>)"
      using True t(1) q(1) s2 cb per unl q'(1) by (simp add: timer_fire_one_def)
    moreover have "filter (\<lambda>u. u \<noteq> t) (lcont q' cpu) = filter (\<lambda>u. u \<noteq> t) ys"
      unfolding q'(3) by (simp add: filter_append[symmetric])
    then have "filter (\<lambda>u. u \<noteq> t) (lcont q' cpu) = ys" using tys by (auto simp: filter_id_conv)
    moreover have "?s3\<lparr>tqueue := q'\<rparr> = sF\<lparr>timers := tms, tqueue := tqueue (?s3\<lparr>tqueue := q'\<rparr>)\<rparr>"
      using sF(2) True s2(3) per by (simp add: tms_def)
    moreover have "has_dynamic_timer (?s3\<lparr>tqueue := q'\<rparr>) = has_dynamic_timer s"
      "timers (?s3\<lparr>tqueue := q'\<rparr>) = tms" "lcont (tqueue (?s3\<lparr>tqueue := q'\<rparr>)) cpu = lcont q' cpu"
      using s2(3,5) True per by (simp_all add: tms_def)
    moreover have "fire (the (callback (timers s t))) t now (tm_arg (timers s t)) s = Some (r, sF)" using cb sF(1) by simp
    ultimately show ?thesis using True set' by (intro exI[of _ r] exI[of _ "?s3\<lparr>tqueue := q'\<rparr>"] conjI exI[of _ sF]) simp_all
  qed
qed


text \<open>
  The loop fires every timer that is due, and only those: it returns, a due one-shot timer is no
  longer queued, a due periodic one is queued again one period after \<open>now\<close>, all others are as
  before, and whatever is left on the queue lies after \<open>now\<close>.
\<close>

definition expired :: "lk_time \<Rightarrow> lk_time \<Rightarrow> ('tm, 'cb, 'z) timer_state_scheme \<Rightarrow> 'tm \<Rightarrow> bool" where
  "expired base now s t \<longleftrightarrow> due s base t \<le> ahead base now"

lemma loop_fires_expired:
  assumes "tick_ok base now cpu s"
  shows "\<exists>ret' s'. timer_loop fire cpu now ret s = Some (ret', s') \<and> tick_ok base now cpu s' \<and>
    has_dynamic_timer s' = has_dynamic_timer s \<and>
    (\<forall>t \<in> set (lcont (tqueue s') cpu). TIME_GT (scheduled_time (timers s' t)) now) \<and>
    set (lcont (tqueue s') cpu) =
      {t \<in> set (lcont (tqueue s) cpu). \<not> expired base now s t \<or> 0 < periodic_time (timers s t)} \<and>
    timers s' = (\<lambda>t. if t \<in> set (lcont (tqueue s) cpu) \<and> expired base now s t
                     then rearm now (timers s t) else timers s t) \<and>
    (\<exists>r1 s1. fire_all fire now (filter (expired base now s) (lcont (tqueue s) cpu)) s = Some (r1, s1) \<and>
       ret' = (if r1 = INT_RESCHEDULE then INT_RESCHEDULE else ret) \<and>
       s' = s1\<lparr>timers := timers s', tqueue := tqueue s'\<rparr>)"
  using assms
proof (induction "length (filter (expired base now s) (lcont (tqueue s) cpu))" arbitrary: s ret
    rule: less_induct)
  case less
  note ok = less.prems
  have bnd: "t \<in> set (lcont (tqueue s) cpu) \<Longrightarrow> due s base t < 2147483648" for t
    using ok by (auto simp: tick_ok_def tq_sorted_def)
  have nb: "ahead base now < 2147483648" using ok by (simp add: tick_ok_def)
  show ?case
  proof (cases "lcont (tqueue s) cpu")
    case Nil
    with ok show ?thesis
      by (subst timer_loop.simps) (auto simp: ls_peek_head_def)
  next
    case (Cons t ys)
    have late: "u \<in> set ys \<Longrightarrow> due s base t \<le> due s base u" for u
      using ok Cons by (auto simp: tick_ok_def tq_sorted_def)
    show ?thesis
    proof (cases "expired base now s t")
      case False
      then have "TIME_LT now (scheduled_time (timers s t))"
        using TIME_LT_ahead[OF nb, of "scheduled_time (timers s t)"] bnd[of t] Cons
        by (simp add: expired_def)
      then have "timer_loop fire cpu now ret s = Some (ret, s)"
        using Cons by (subst timer_loop.simps) (simp add: ls_peek_head_def)
      moreover have none: "\<not> expired base now s u" if "u \<in> set (lcont (tqueue s) cpu)" for u
        using that late[of u] False Cons by (auto simp: expired_def)
      moreover have "TIME_GT (scheduled_time (timers s u)) now" if "u \<in> set (lcont (tqueue s) cpu)" for u
        using none[OF that] bnd[OF that] TIME_GT_ahead[OF _ nb] by (auto simp: expired_def)
      moreover have "filter (expired base now s) (lcont (tqueue s) cpu) = []" using none by (simp add: filter_empty_conv)
      ultimately show ?thesis using ok by (auto intro!: ext)
    next
      case True
      define p where "p = periodic_time (timers s t)"
      have nlt: "\<not> TIME_LT now (scheduled_time (timers s t))"
        using True TIME_LT_ahead[OF nb, of "scheduled_time (timers s t)"] bnd[of t] Cons
        by (simp add: expired_def)
      from fire_one_step[OF ok Cons p_def[symmetric]] obtain r s1 where
        s1: "timer_fire_one fire cpu now t s = Some (r, s1)" "tick_ok base now cpu s1"
          "timers s1 = (timers s)(t := rearm now (timers s t))"
          "has_dynamic_timer s1 = has_dynamic_timer s"
          "set (lcont (tqueue s1) cpu) = set ys \<union> (if 0 < p then {t} else {})"
          "filter (\<lambda>u. u \<noteq> t) (lcont (tqueue s1) cpu) = ys"
        and sF: "\<exists>sF. fire (the (callback (timers s t))) t now (tm_arg (timers s t)) s = Some (r, sF) \<and>
          s1 = sF\<lparr>timers := timers s1, tqueue := tqueue s1\<rparr>"
        by (auto simp: rearm_def p_def split: if_splits)
      have loop: "timer_loop fire cpu now ret s =
          timer_loop fire cpu now (if r = INT_RESCHEDULE then INT_RESCHEDULE else ret) s1"
        using Cons nlt s1(1) by (subst timer_loop.simps) (simp add: ls_peek_head_def)
      have d: "distinct (t # ys)" "distinct (lcont (tqueue s1) cpu)"
        using ok s1(2) Cons by (auto simp: tick_ok_def dest: ls_ok_distinct[of _ cpu])
      have pb: "ahead base now + unat p < 2147483648"
        using ok Cons by (auto simp: tick_ok_def p_def)
      have fresh: "0 < p \<Longrightarrow> \<not> expired base now s1 t"
        using ahead_add[OF pb] s1(3) by (simp add: expired_def rearm_def p_def word_neq_0_conv unat_gt_0)
      have same: "u \<noteq> t \<Longrightarrow> expired base now s1 u = expired base now s u" for u
        using s1(3) by (simp add: expired_def)
      have same_ys: "u \<in> set ys \<Longrightarrow> expired base now s1 u = expired base now s u" for u
        using same[of u] d(1) by auto
      have "set (filter (expired base now s1) (lcont (tqueue s1) cpu)) \<subseteq>
            set (filter (expired base now s) ys)"
        using s1(5) d(1) fresh by (auto simp: same_ys split: if_splits)
      then have "length (filter (expired base now s1) (lcont (tqueue s1) cpu)) \<le>
            length (filter (expired base now s) ys)"
        using d by (metis card_mono distinct_card distinct_filter finite_set distinct.simps(2))
      then have lt: "length (filter (expired base now s1) (lcont (tqueue s1) cpu)) <
            length (filter (expired base now s) (lcont (tqueue s) cpu))"
        using True Cons by simp
      obtain ret' s' where s': "timer_loop fire cpu now ret s = Some (ret', s')"
          "tick_ok base now cpu s'" "has_dynamic_timer s' = has_dynamic_timer s1"
          "\<forall>t \<in> set (lcont (tqueue s') cpu). TIME_GT (scheduled_time (timers s' t)) now"
          "set (lcont (tqueue s') cpu) = {t \<in> set (lcont (tqueue s1) cpu).
             \<not> expired base now s1 t \<or> 0 < periodic_time (timers s1 t)}"
          "timers s' = (\<lambda>t. if t \<in> set (lcont (tqueue s1) cpu) \<and> expired base now s1 t
                     then rearm now (timers s1 t) else timers s1 t)"
          "\<exists>r1 s2. fire_all fire now (filter (expired base now s1) (lcont (tqueue s1) cpu)) s1 = Some (r1, s2) \<and>
            ret' = (if r1 = INT_RESCHEDULE then INT_RESCHEDULE else if r = INT_RESCHEDULE then INT_RESCHEDULE else ret) \<and>
            s' = s2\<lparr>timers := timers s', tqueue := tqueue s'\<rparr>"
        using less.hyps[OF lt s1(2), of "if r = INT_RESCHEDULE then INT_RESCHEDULE else ret"]
        unfolding loop by blast
      have per1: "periodic_time (timers s1 u) = periodic_time (timers s u)" for u
        using s1(3) by (simp add: rearm_def)
      have "timers s' = (\<lambda>u. if u \<in> set (lcont (tqueue s) cpu) \<and> expired base now s u
                     then rearm now (timers s u) else timers s u)"
      proof (rule ext)
        fix u show "timers s' u = (if u \<in> set (lcont (tqueue s) cpu) \<and> expired base now s u
                     then rearm now (timers s u) else timers s u)"
          using s'(6) s1(3,5) Cons d(1) True fresh same[of u] by (cases "u = t") auto
      qed
      moreover have "set (lcont (tqueue s') cpu) = {t \<in> set (lcont (tqueue s) cpu).
             \<not> expired base now s t \<or> 0 < periodic_time (timers s t)}"
      proof (intro set_eqI)
        fix u show "u \<in> set (lcont (tqueue s') cpu) \<longleftrightarrow> u \<in> {t \<in> set (lcont (tqueue s) cpu).
             \<not> expired base now s t \<or> 0 < periodic_time (timers s t)}"
          using s'(5) s1(5) Cons d(1) True fresh same[of u] per1[of u] p_def by (cases "u = t") auto
      qed
      moreover have "\<exists>r1 s2. fire_all fire now (filter (expired base now s) (lcont (tqueue s) cpu)) s = Some (r1, s2) \<and>
            ret' = (if r1 = INT_RESCHEDULE then INT_RESCHEDULE else ret) \<and> s' = s2\<lparr>timers := timers s', tqueue := tqueue s'\<rparr>"
      proof -
        let ?due = "filter (expired base now s) ys"
        obtain cb where cb: "callback (timers s t) = Some cb" using ok Cons by (auto simp: tick_ok_def)
        obtain sF where sF': "fire cb t now (tm_arg (timers s t)) s = Some (r, sF)" "s1 = sF\<lparr>timers := timers s1, tqueue := tqueue s1\<rparr>"
          using sF cb by auto
        have "u \<noteq> t" if "u \<in> set (lcont (tqueue s1) cpu)" "expired base now s1 u" for u
          using that s1(5) d(1) fresh by (auto split: if_splits)
        then have "filter (expired base now s1) (lcont (tqueue s1) cpu) =
            filter (expired base now s1) (filter (\<lambda>u. u \<noteq> t) (lcont (tqueue s1) cpu))"
          unfolding filter_filter by (intro filter_cong) auto
        also have "\<dots> = filter (expired base now s1) ys" by (simp only: s1(6))
        also have "\<dots> = ?due" using same_ys by (intro filter_cong) auto
        finally have due1: "filter (expired base now s1) (lcont (tqueue s1) cpu) = ?due" .
        have "fire_all fire now ?due (sF\<lparr>timers := timers s1, tqueue := tqueue s1\<rparr>) =
          map_option (\<lambda>(r, s'). (r, s'\<lparr>timers := timers s1, tqueue := tqueue s1\<rparr>)) (fire_all fire now ?due sF)"
          by (rule fire_all_indep) (use s1(3) fire_keeps(1)[OF sF'(1)] d(1) in \<open>auto simp: rearm_def\<close>)
        then have "fire_all fire now ?due s1 =
          map_option (\<lambda>(r, s'). (r, s'\<lparr>timers := timers s1, tqueue := tqueue s1\<rparr>)) (fire_all fire now ?due sF)"
          using sF'(2) by simp
        with s'(7) due1 obtain r1 s2 where
          f: "fire_all fire now ?due sF = Some (r1, s2)"
            "ret' = (if r1 = INT_RESCHEDULE then INT_RESCHEDULE else if r = INT_RESCHEDULE then INT_RESCHEDULE else ret)"
            "s' = s2\<lparr>timers := timers s1, tqueue := tqueue s1\<rparr>\<lparr>timers := timers s', tqueue := tqueue s'\<rparr>" by auto
        have "fire_all fire now (filter (expired base now s) (lcont (tqueue s) cpu)) s =
            Some (if r = INT_RESCHEDULE then INT_RESCHEDULE else r1, s2)"
          using True Cons cb sF'(1) f(1) by simp
        moreover have "s' = s2\<lparr>timers := timers s', tqueue := tqueue s'\<rparr>" by (subst f(3)) simp
        ultimately show ?thesis using f(2) by auto
      qed
      ultimately show ?thesis using s' s1(4) by auto
    qed
  qed
qed

lemma tick_fires_expired:
  assumes ok: "tick_ok base now cpu s"
  defines "dl \<equiv> filter (expired base now s) (lcont (tqueue s) cpu)"
  shows "\<exists>ret s1 s2. fire_all fire now dl s = Some (ret, s1) \<and>
    s2 = s1\<lparr>timers := (\<lambda>t. if t \<in> set dl then rearm now (timers s t) else timers s t), tqueue := tqueue s2\<rparr> \<and>
    set (lcont (tqueue s2) cpu) =
      {t \<in> set (lcont (tqueue s) cpu). \<not> expired base now s t \<or> 0 < periodic_time (timers s t)} \<and>
    tq_sorted base cpu s2 \<and> cbinv s2 \<and>
    timer_tick fire tick cpu now s = Some
      (if has_dynamic_timer s
       then (ret, case lcont (tqueue s2) cpu of [] \<Rightarrow> s2
                  | t # _ \<Rightarrow> s2\<lparr>hw_timer := (hw_timer s2)(cpu := HW_ONESHOT (scheduled_time (timers s2 t) - now))\<rparr>)
       else let (r, s3) = tick s2 in (if r = INT_RESCHEDULE then INT_RESCHEDULE else ret, s3))"
proof -
  from loop_fires_expired[OF ok, of INT_NO_RESCHEDULE, folded dl_def] obtain ret s2 r1 s1 where
    s2: "timer_loop fire cpu now INT_NO_RESCHEDULE s = Some (ret, s2)" "tick_ok base now cpu s2"
      "has_dynamic_timer s2 = has_dynamic_timer s"
      "\<forall>t \<in> set (lcont (tqueue s2) cpu). TIME_GT (scheduled_time (timers s2 t)) now"
      "set (lcont (tqueue s2) cpu) =
      {t \<in> set (lcont (tqueue s) cpu). \<not> expired base now s t \<or> 0 < periodic_time (timers s t)}"
      "timers s2 = (\<lambda>t. if t \<in> set (lcont (tqueue s) cpu) \<and> expired base now s t then rearm now (timers s t) else timers s t)"
    and f: "fire_all fire now dl s = Some (r1, s1)" "ret = (if r1 = INT_RESCHEDULE then INT_RESCHEDULE else INT_NO_RESCHEDULE)"
      "s2 = s1\<lparr>timers := timers s2, tqueue := tqueue s2\<rparr>" by blast
  have tm: "timers s2 = (\<lambda>t. if t \<in> set dl then rearm now (timers s t) else timers s t)"
    using s2(6) by (simp add: dl_def)
  have ret: "ret = r1" using f(2) by (cases r1) simp_all
  have "timer_tick fire tick cpu now s = Some
      (if has_dynamic_timer s
       then (ret, case lcont (tqueue s2) cpu of [] \<Rightarrow> s2
                  | t # _ \<Rightarrow> s2\<lparr>hw_timer := (hw_timer s2)(cpu := HW_ONESHOT (scheduled_time (timers s2 t) - now))\<rparr>)
       else let (r, s3) = tick s2 in (if r = INT_RESCHEDULE then INT_RESCHEDULE else ret, s3))"
    using s2(1,3,4) by (cases "lcont (tqueue s2) cpu")
      (auto simp: timer_tick_def ls_peek_head_def platform_set_oneshot_timer_def split: prod.splits)
  moreover have "tq_sorted base cpu s2" "cbinv s2" using s2(2) by (simp_all add: tick_ok_def)
  moreover have "s2 = s1\<lparr>timers := (\<lambda>t. if t \<in> set dl then rearm now (timers s t) else timers s t), tqueue := tqueue s2\<rparr>"
    unfolding tm[symmetric] by (rule f(3))
  ultimately show ?thesis using f(1) s2(5) unfolding ret by blast
qed

end

section \<open>Arming and cancelling\<close>

lemma insert_timer_lon:
  assumes "ls_ok (tqueue s)" "\<not> ls_in_list t (tqueue s)"
  shows "wp (insert_timer_in_queue cpu t s) (\<lambda>s'. \<exists>q. s' = s\<lparr>tqueue := q\<rparr> \<and> ls_ok q \<and>
           lon q = (lon (tqueue s))(t := Some cpu))"
proof -
  let ?xs = "lcont (tqueue s) cpu"
  let ?P = "\<lambda>e. TIME_GT (scheduled_time (timers s e)) (scheduled_time (timers s t))"
  from insert_timer_cont[OF assms refl refl, of cpu] obtain q where
    q: "insert_timer_in_queue cpu t s = Some (s\<lparr>tqueue := q\<rparr>)" "ls_ok q"
      "lcont q = (lcont (tqueue s))(cpu := takeWhile (\<lambda>e. \<not> ?P e) ?xs @ t # dropWhile (\<lambda>e. \<not> ?P e) ?xs)"
    by blast
  have "set (takeWhile (\<lambda>e. \<not> ?P e) ?xs @ t # dropWhile (\<lambda>e. \<not> ?P e) ?xs) = insert t (set ?xs)"
    by (metis Un_insert_right list.simps(15) set_append takeWhile_dropWhile_id)
  then have "lon q = (lon (tqueue s))(t := Some cpu)"
    using ls_lon_after[OF assms(1) q(2,3)] ls_ok_mem[OF assms(1), of _ cpu] assms(2)
    by (auto simp: ls_in_list_def intro!: ext)
  with q(1,2) show ?thesis by (auto intro!: exI[of _ q])
qed

lemma timer_set_wp:
  assumes "ls_ok (tqueue s)" "\<not> ls_in_list t (tqueue s)" "tm_magic (timers s t) = TIMER_MAGIC"
  shows "wp (timer_set cpu t delay period cb a s) (\<lambda>s'. \<exists>q hw. ls_ok q \<and>
     lon q = (lon (tqueue s))(t := Some cpu) \<and>
     s' = s\<lparr>timers := (timers s)(t := (timers s t)\<lparr>scheduled_time := cur_time s + delay,
              periodic_time := period, callback := Some cb, tm_arg := a\<rparr>), tqueue := q, hw_timer := hw\<rparr>)"
proof -
  let ?s = "s\<lparr>timers := (timers s)(t := (timers s t)\<lparr>scheduled_time := cur_time s + delay,
              periodic_time := period, callback := Some cb, tm_arg := a\<rparr>)\<rparr>"
  from insert_timer_lon[of ?s t cpu] assms obtain q where
    q: "insert_timer_in_queue cpu t ?s = Some (?s\<lparr>tqueue := q\<rparr>)" "ls_ok q"
      "lon q = (lon (tqueue s))(t := Some cpu)" by (auto simp: wp_ex)
  then show ?thesis using assms
    by (auto simp: timer_set_def Let_def platform_set_oneshot_timer_def intro!: exI[of _ q]
        intro: exI[of _ "hw_timer s"])
qed

lemma timer_cancel_wp:
  assumes "ls_ok (tqueue s)" "tm_magic (timers s t) = TIMER_MAGIC"
  shows "wp (timer_cancel cpu t s) (\<lambda>s'. \<exists>q hw. ls_ok q \<and> lon q = (lon (tqueue s))(t := None) \<and>
     s' = s\<lparr>tqueue := q, timers := (timers s)(t := (timers s t)\<lparr>periodic_time := 0,
              callback := None, tm_arg := 0\<rparr>), hw_timer := hw\<rparr>)"
proof -
  obtain q where q: "(if ls_in_list t (tqueue s) then ls_delete t (tqueue s) else Some (tqueue s)) = Some q"
      "ls_ok q" "lon q = (lon (tqueue s))(t := None)"
  proof (cases "lon (tqueue s) t")
    case None
    then have "lon (tqueue s) = (lon (tqueue s))(t := None)" by (simp add: fun_upd_idem)
    with None assms(1) that[of "tqueue s"] show ?thesis by (simp add: ls_in_list_def)
  next
    case (Some h)
    then have "t \<in> set (lcont (tqueue s) h)" using ls_ok_mem[OF assms(1)] by blast
    then obtain ys zs where "lcont (tqueue s) h = ys @ t # zs" by (auto dest: split_list)
    from ls.del_law[OF assms(1) this] Some that show ?thesis
      by (auto simp: ls_in_list_def ls_delete_def)
  qed
  let ?s1 = "s\<lparr>tqueue := q, timers := (timers s)(t := (timers s t)\<lparr>periodic_time := 0,
               callback := None, tm_arg := 0\<rparr>)\<rparr>"
  have "\<exists>hw. timer_cancel cpu t s = Some (?s1\<lparr>hw_timer := hw\<rparr>)"
    using assms(2) q(1)
    by (auto simp: timer_cancel_def Let_def platform_set_oneshot_timer_def platform_stop_timer_def
        split: option.splits intro: exI[of _ "hw_timer s"])
  with q(2,3) show ?thesis by (auto simp: wp_ex intro!: exI[of _ q])
qed

end
