(* ===== verification/Sched.thy ===== *)
theory Sched
  imports Timer
begin

text \<open>
  The scheduler half of \<^verbatim>\<open>kernel/thread.c\<close> and the cpu masks of \<^verbatim>\<open>kernel/mp.c\<close>: the kernel
  state, the run queues with their bitmap, the choice of the next thread and the reschedule
  routine, built as for an SMP kernel (\<open>WITH_SMP\<close>).

  Every function of the source runs with \<open>thread_lock\<close> held and interrupts off, so it is one
  state transformer; its first argument is the cpu it runs on (\<open>arch_curr_cpu_num()\<close>). A
  function that may switch threads returns an \<open>outcome\<close>: \<open>Ret v\<close> when it comes back at once,
  \<open>Switched\<close> when another thread now runs on this cpu; what the old thread has still to do is
  kept as a list of frames in \<open>kstack\<close>. Failed assertions, panics and out-of-range indices are
  \<open>None\<close>. Address spaces, the architecture's context, statistics, event logs and debug LEDs are
  not modelled; neither is the stack canary check (the stack's contents are not part of the
  state).
\<close>

section \<open>State\<close>

type_synonym tid = nat

datatype thread_state =
  THREAD_SUSPENDED | THREAD_READY | THREAD_RUNNING | THREAD_BLOCKED | THREAD_SLEEPING | THREAD_DEATH

abbreviation (input) THREAD_MAGIC :: int where "THREAD_MAGIC \<equiv> 0x74687264"
abbreviation (input) WAIT_QUEUE_MAGIC :: int where "WAIT_QUEUE_MAGIC \<equiv> 0x77616974"

abbreviation (input) THREAD_FLAG_DETACHED :: u32 where "THREAD_FLAG_DETACHED \<equiv> 1"
abbreviation (input) THREAD_FLAG_FREE_STACK :: u32 where "THREAD_FLAG_FREE_STACK \<equiv> 2"
abbreviation (input) THREAD_FLAG_FREE_STRUCT :: u32 where "THREAD_FLAG_FREE_STRUCT \<equiv> 4"
abbreviation (input) THREAD_FLAG_REAL_TIME :: u32 where "THREAD_FLAG_REAL_TIME \<equiv> 8"
abbreviation (input) THREAD_FLAG_IDLE :: u32 where "THREAD_FLAG_IDLE \<equiv> 16"
abbreviation (input) THREAD_FLAG_DEBUG_STACK_BOUNDS_CHECK :: u32 where
  "THREAD_FLAG_DEBUG_STACK_BOUNDS_CHECK \<equiv> 32"

abbreviation (input) HIGHEST_PRIORITY :: int where "HIGHEST_PRIORITY \<equiv> 31"
abbreviation (input) DEFAULT_PRIORITY :: int where "DEFAULT_PRIORITY \<equiv> 16"
abbreviation (input) IDLE_PRIORITY :: int where "IDLE_PRIORITY \<equiv> 0"

text \<open>The wait queue embedded in each kind of object, by the object's address.\<close>

datatype wqref =
  WQ_retcode tid | WQ_mutex nat | WQ_sem nat | WQ_event nat | WQ_cond nat | WQ_rport nat | WQ_pgroup nat

text \<open>A thread's \<open>queue_node\<close> is linked behind a run queue or behind a wait queue.\<close>

datatype qhead = RunQ nat | WaitL wqref

text \<open>Timer objects: the \<open>timer_t\<close> on the stack of a thread that blocks or sleeps, and
  \<open>preempt_timer[cpu]\<close>.\<close>

datatype ktimer = TM_stack tid | TM_preempt nat

datatype kcallback = CB_thread_sleep_handler | CB_wait_queue_timeout_handler | CB_thread_timer_tick

record wait_queue =
  wq_magic :: int
  wq_count :: int

record thread =
  th_magic :: int
  priority :: int
  state :: thread_state
  remaining_quantum :: int
  flags :: u32
  curr_cpu :: int
  pinned_cpu :: int
  last_started_running_us :: u64
  runtime_us :: u64
  blocking_wait_queue :: "wqref option"
  wait_queue_block_ret :: int
  stack :: nat
  stack_size :: nat
  entry :: nat
  th_arg :: nat
  retcode :: int
  tls :: "nat list"
  th_name :: string

text \<open>
  What remains of the functions a switched-out thread was in: \<open>FR_block timeout\<close> is the end of
  \<open>wait_queue_block\<close>, \<open>FR_const v\<close> a caller that ignores the value and returns \<open>v\<close>, the others
  the code of their caller after the blocking call.
\<close>

datatype frame =
  FR_block lk_time
| FR_const int
| FR_wq_destroy wqref
| FR_mutex_acquire nat
| FR_sem_timedwait nat
| FR_cond_reacquire nat
| FR_thread_join tid "nat option"
| FR_port_read nat lk_time nat
| FR_port_group_read nat lk_time nat
| FR_port_close nat nat
| FR_port_close_group nat
| FR_cbuf_read nat nat u32
| FR_cbuf_read_char nat nat

datatype outcome = Ret int | Switched

record kstate = "(ktimer, kcallback) timer_state" +
  threads :: "tid \<Rightarrow> thread"
  queues :: "(qhead, tid) lstore"
  run_queue_bitmap :: u32
  thread_list :: "tid list"
  current :: "nat \<Rightarrow> tid"
  idle_threads :: "nat \<Rightarrow> tid"
  wqs :: "wqref \<Rightarrow> wait_queue"
  hires_time :: u64
  active_cpus :: u32
  idle_cpus :: u32
  realtime_cpus :: u32
  ipis :: u32
  kstack :: "tid \<Rightarrow> frame list"
  freed :: "nat list"
  int_mem :: "nat \<Rightarrow> int"

definition upd_thread :: "tid \<Rightarrow> (thread \<Rightarrow> thread) \<Rightarrow> 'z kstate_scheme \<Rightarrow> 'z kstate_scheme" where
  "upd_thread t f s = s\<lparr>threads := (threads s)(t := f (threads s t))\<rparr>"

definition set_state :: "tid \<Rightarrow> thread_state \<Rightarrow> 'z kstate_scheme \<Rightarrow> 'z kstate_scheme" where
  "set_state t st s = upd_thread t (\<lambda>th. th\<lparr>state := st\<rparr>) s"

definition thread_is_realtime :: "thread \<Rightarrow> bool" where
  "thread_is_realtime t \<longleftrightarrow> flags t AND THREAD_FLAG_REAL_TIME \<noteq> 0 \<and> DEFAULT_PRIORITY < priority t"

definition thread_is_idle :: "thread \<Rightarrow> bool" where
  "thread_is_idle t \<longleftrightarrow> flags t AND THREAD_FLAG_IDLE \<noteq> 0"

definition thread_is_real_time_or_idle :: "thread \<Rightarrow> bool" where
  "thread_is_real_time_or_idle t \<longleftrightarrow> flags t AND (THREAD_FLAG_REAL_TIME OR THREAD_FLAG_IDLE) \<noteq> 0"

section \<open>Cpu masks (kernel/mp.c)\<close>

definition cpu_bit :: "nat \<Rightarrow> u32" where
  "cpu_bit cpu = push_bit cpu 1"

definition mp_reschedule :: "nat \<Rightarrow> u32 \<Rightarrow> u32 \<Rightarrow> 'z kstate_scheme \<Rightarrow> 'z kstate_scheme" where
  "mp_reschedule local_cpu target fl s =
     (let target = target AND active_cpus s;
          target = (if fl AND 1 = 0 then target AND NOT (realtime_cpus s) else target);
          target = target AND NOT (cpu_bit local_cpu)
      in s\<lparr>ipis := ipis s OR target\<rparr>)"

definition mp_set_curr_cpu_active :: "nat \<Rightarrow> bool \<Rightarrow> 'z kstate_scheme \<Rightarrow> 'z kstate_scheme" where
  "mp_set_curr_cpu_active cpu active s = s\<lparr>active_cpus := active_cpus s OR cpu_bit cpu\<rparr>"

definition mp_mbx_reschedule_irq :: "nat \<Rightarrow> 'z kstate_scheme \<Rightarrow> handler_return" where
  "mp_mbx_reschedule_irq cpu s =
     (if active_cpus s AND cpu_bit cpu \<noteq> 0 then INT_RESCHEDULE else INT_NO_RESCHEDULE)"

definition mp_set_cpu_idle :: "nat \<Rightarrow> 'z kstate_scheme \<Rightarrow> 'z kstate_scheme" where
  "mp_set_cpu_idle cpu s = s\<lparr>idle_cpus := idle_cpus s OR cpu_bit cpu\<rparr>"

definition mp_set_cpu_busy :: "nat \<Rightarrow> 'z kstate_scheme \<Rightarrow> 'z kstate_scheme" where
  "mp_set_cpu_busy cpu s = s\<lparr>idle_cpus := idle_cpus s AND NOT (cpu_bit cpu)\<rparr>"

definition mp_set_cpu_realtime :: "nat \<Rightarrow> 'z kstate_scheme \<Rightarrow> 'z kstate_scheme" where
  "mp_set_cpu_realtime cpu s = s\<lparr>realtime_cpus := realtime_cpus s OR cpu_bit cpu\<rparr>"

definition mp_set_cpu_non_realtime :: "nat \<Rightarrow> 'z kstate_scheme \<Rightarrow> 'z kstate_scheme" where
  "mp_set_cpu_non_realtime cpu s = s\<lparr>realtime_cpus := realtime_cpus s AND NOT (cpu_bit cpu)\<rparr>"

section \<open>Run queues\<close>

text \<open>The assertions and the index \<open>run_queue[t->priority]\<close> shared by the two insertions.\<close>

definition run_queue_insert_ok :: "tid \<Rightarrow> 'z kstate_scheme \<Rightarrow> unit option" where
  "run_queue_insert_ok t s =
     do { DEBUG_ASSERT (th_magic (threads s t) = THREAD_MAGIC);
          DEBUG_ASSERT (state (threads s t) = THREAD_READY);
          DEBUG_ASSERT (\<not> ls_in_list t (queues s));
          if 0 \<le> priority (threads s t) \<and> priority (threads s t) < 32 then Some () else None }"

definition insert_in_run_queue_head :: "tid \<Rightarrow> 'z kstate_scheme \<Rightarrow> 'z kstate_scheme option" where
  "insert_in_run_queue_head t s =
     do { run_queue_insert_ok t s;
          let p = nat (priority (threads s t)) in
          do { q \<leftarrow> ls_add_head (RunQ p) t (queues s);
               Some (s\<lparr>queues := q, run_queue_bitmap := run_queue_bitmap s OR push_bit p 1\<rparr>) } }"

definition insert_in_run_queue_tail :: "tid \<Rightarrow> 'z kstate_scheme \<Rightarrow> 'z kstate_scheme option" where
  "insert_in_run_queue_tail t s =
     do { run_queue_insert_ok t s;
          let p = nat (priority (threads s t)) in
          do { q \<leftarrow> ls_add_tail (RunQ p) t (queues s);
               Some (s\<lparr>queues := q, run_queue_bitmap := run_queue_bitmap s OR push_bit p 1\<rparr>) } }"

text \<open>May thread \<open>t\<close> run on \<open>cpu\<close>?\<close>

definition may_run_on :: "nat \<Rightarrow> thread \<Rightarrow> bool" where
  "may_run_on cpu t \<longleftrightarrow> pinned_cpu t < 0 \<or> pinned_cpu t = int cpu"

lemma clear_top_bit_less:
  assumes "(bm::u32) \<noteq> 0"
  shows "unat (bm AND NOT (2 ^ (31 - builtin_clz bm))) < unat bm"
proof -
  let ?k = "31 - builtin_clz bm"
  have k: "log2_uint bm = ?k" using assms by (simp add: log2_uint_def)
  have top: "bit bm ?k" "?k < 32" using log2_uint_top[OF assms] k by auto
  have "bm AND NOT (2 ^ ?k) \<le> bm" by (simp add: word_and_le2 word_and_le1 and.commute)
  moreover have "\<not> bit (bm AND NOT (2 ^ ?k)) ?k"
    using top by (simp add: bit_and_iff bit_not_iff bit_exp_iff)
  then have "bm AND NOT (2 ^ ?k) \<noteq> bm" using top by metis
  ultimately have "bm AND NOT (2 ^ ?k) < bm" by simp
  then show ?thesis by (simp add: word_less_nat_alt)
qed

function get_top_loop :: "nat \<Rightarrow> u32 \<Rightarrow> 'z kstate_scheme \<Rightarrow> (tid \<times> 'z kstate_scheme) option" where
  "get_top_loop cpu local_bitmap s =
     (if local_bitmap = 0 then Some (idle_threads s cpu, s)
      else
        let next_queue = 32 - 1 - builtin_clz local_bitmap in
        (case List.find (\<lambda>t. may_run_on cpu (threads s t)) (lcont (queues s) (RunQ next_queue)) of
           Some newthread \<Rightarrow>
             do { q \<leftarrow> ls_delete newthread (queues s);
                  Some (newthread,
                    s\<lparr>queues := q,
                      run_queue_bitmap :=
                        (if ls_is_empty (RunQ next_queue) q
                         then run_queue_bitmap s AND NOT (push_bit next_queue 1)
                         else run_queue_bitmap s)\<rparr>) }
         | None \<Rightarrow> get_top_loop cpu (local_bitmap AND NOT (push_bit next_queue 1)) s))"
  by pat_completeness auto
termination
  by (relation "measure (\<lambda>(cpu, bm, s). unat bm)") (simp_all add: clear_top_bit_less push_bit_eq_mult)

declare get_top_loop.simps [simp del]

definition get_top_thread :: "nat \<Rightarrow> 'z kstate_scheme \<Rightarrow> (tid \<times> 'z kstate_scheme) option" where
  "get_top_thread cpu s = get_top_loop cpu (run_queue_bitmap s) s"

section \<open>Rescheduling\<close>

text \<open>The bookkeeping for the two threads and the cpu masks.\<close>

definition switch_accounting :: "nat \<Rightarrow> tid \<Rightarrow> tid \<Rightarrow> 'z kstate_scheme \<Rightarrow> 'z kstate_scheme" where
  "switch_accounting cpu oldthread newthread s =
     (let now = hires_time s;
          s = upd_thread oldthread (\<lambda>t. t\<lparr>runtime_us := runtime_us t + (now - last_started_running_us t)\<rparr>) s;
          s = upd_thread newthread (\<lambda>t. t\<lparr>last_started_running_us := now\<rparr>) s;
          s = (if remaining_quantum (threads s newthread) \<le> 0
               then upd_thread newthread (\<lambda>t. t\<lparr>remaining_quantum := 5\<rparr>) s else s);
          s = upd_thread oldthread (\<lambda>t. t\<lparr>curr_cpu := - 1\<rparr>) s;
          s = upd_thread newthread (\<lambda>t. t\<lparr>curr_cpu := int cpu\<rparr>) s;
          s = (if thread_is_idle (threads s newthread) then mp_set_cpu_idle cpu s else mp_set_cpu_busy cpu s)
      in if thread_is_realtime (threads s newthread) then mp_set_cpu_realtime cpu s
         else mp_set_cpu_non_realtime cpu s)"

text \<open>Starting and stopping the preemption timer of the cpu.\<close>

definition switch_preempt_timer :: "nat \<Rightarrow> tid \<Rightarrow> tid \<Rightarrow> 'z kstate_scheme \<Rightarrow> 'z kstate_scheme option" where
  "switch_preempt_timer cpu oldthread newthread s =
     (if has_dynamic_timer s then
        (if thread_is_real_time_or_idle (threads s newthread) then
           (if \<not> thread_is_real_time_or_idle (threads s oldthread)
            then timer_cancel cpu (TM_preempt cpu) s else Some s)
         else if thread_is_real_time_or_idle (threads s oldthread)
              then timer_set_periodic cpu (TM_preempt cpu) 10 CB_thread_timer_tick 0 s
              else Some s)
      else Some s)"

definition thread_resched :: "nat \<Rightarrow> 'z kstate_scheme \<Rightarrow> (outcome \<times> 'z kstate_scheme) option" where
  "thread_resched cpu s =
     do { DEBUG_ASSERT (state (threads s (current s cpu)) \<noteq> THREAD_RUNNING);
          (newthread, s) \<leftarrow> get_top_thread cpu s;
          let s = set_state newthread THREAD_RUNNING s; oldthread = current s cpu in
          if newthread = oldthread then Some (Ret NO_ERROR, s)
          else do { s \<leftarrow> switch_preempt_timer cpu oldthread newthread
                           (switch_accounting cpu oldthread newthread s);
                    Some (Switched, s\<lparr>current := (current s)(cpu := newthread)\<rparr>) } }"

text \<open>Remember what thread \<open>t\<close> has to do when the call it makes switches away.\<close>

definition with_frame ::
  "tid \<Rightarrow> frame \<Rightarrow> (int \<Rightarrow> 'z kstate_scheme \<Rightarrow> (outcome \<times> 'z kstate_scheme) option) \<Rightarrow>
   (outcome \<times> 'z kstate_scheme) \<Rightarrow> (outcome \<times> 'z kstate_scheme) option" where
  "with_frame t fr k os =
     (case os of
        (Ret v, s) \<Rightarrow> k v s
      | (Switched, s) \<Rightarrow> Some (Switched, s\<lparr>kstack := (kstack s)(t := kstack s t @ [fr])\<rparr>))"

definition thread_yield :: "nat \<Rightarrow> 'z kstate_scheme \<Rightarrow> (outcome \<times> 'z kstate_scheme) option" where
  "thread_yield cpu s =
     (let cur = current s cpu in
      do { DEBUG_ASSERT (th_magic (threads s cur) = THREAD_MAGIC);
           DEBUG_ASSERT (state (threads s cur) = THREAD_RUNNING);
           let s = upd_thread cur (\<lambda>t. t\<lparr>remaining_quantum := 0\<rparr>) (set_state cur THREAD_READY s) in
           do { s \<leftarrow> (if \<not> thread_is_idle (threads s cur) then insert_in_run_queue_tail cur s else Some s);
                thread_resched cpu s } })"

definition thread_preempt :: "nat \<Rightarrow> 'z kstate_scheme \<Rightarrow> (outcome \<times> 'z kstate_scheme) option" where
  "thread_preempt cpu s =
     (let cur = current s cpu in
      do { DEBUG_ASSERT (th_magic (threads s cur) = THREAD_MAGIC);
           DEBUG_ASSERT (state (threads s cur) = THREAD_RUNNING);
           let s = set_state cur THREAD_READY s in
           do { s \<leftarrow> (if \<not> thread_is_idle (threads s cur) then
                        (if 0 < remaining_quantum (threads s cur) then insert_in_run_queue_head cur s
                         else insert_in_run_queue_tail cur s)
                      else Some s);
                thread_resched cpu s } })"

definition thread_block :: "nat \<Rightarrow> 'z kstate_scheme \<Rightarrow> (outcome \<times> 'z kstate_scheme) option" where
  "thread_block cpu s =
     (let cur = current s cpu in
      do { DEBUG_ASSERT (th_magic (threads s cur) = THREAD_MAGIC);
           DEBUG_ASSERT (state (threads s cur) = THREAD_BLOCKED);
           DEBUG_ASSERT (\<not> thread_is_idle (threads s cur));
           thread_resched cpu s })"

definition thread_unblock :: "nat \<Rightarrow> tid \<Rightarrow> bool \<Rightarrow> 'z kstate_scheme \<Rightarrow> (outcome \<times> 'z kstate_scheme) option" where
  "thread_unblock cpu t resched s =
     do { DEBUG_ASSERT (th_magic (threads s t) = THREAD_MAGIC);
          DEBUG_ASSERT (state (threads s t) = THREAD_BLOCKED);
          DEBUG_ASSERT (\<not> thread_is_idle (threads s t));
          s \<leftarrow> insert_in_run_queue_head t (set_state t THREAD_READY s);
          let s = mp_reschedule cpu 0xFFFFFFFF 0 s in
          if resched then thread_resched cpu s else Some (Ret NO_ERROR, s) }"

definition thread_timer_tick :: "nat \<Rightarrow> 'z kstate_scheme \<Rightarrow> handler_return \<times> 'z kstate_scheme" where
  "thread_timer_tick cpu s =
     (let cur = current s cpu in
      if thread_is_real_time_or_idle (threads s cur) then (INT_NO_RESCHEDULE, s)
      else
        let s = upd_thread cur (\<lambda>t. t\<lparr>remaining_quantum := remaining_quantum t - 1\<rparr>) s in
        (if remaining_quantum (threads s cur) \<le> 0 then INT_RESCHEDULE else INT_NO_RESCHEDULE, s))"

definition thread_set_priority :: "nat \<Rightarrow> int \<Rightarrow> 'z kstate_scheme \<Rightarrow> (outcome \<times> 'z kstate_scheme) option" where
  "thread_set_priority cpu prio s =
     (let cur = current s cpu;
          prio = (if prio \<le> IDLE_PRIORITY then IDLE_PRIORITY + 1 else prio);
          prio = (if HIGHEST_PRIORITY < prio then HIGHEST_PRIORITY else prio);
          s = upd_thread cur (\<lambda>t. t\<lparr>priority := prio\<rparr>) s;
          s = set_state cur THREAD_READY s
      in do { s \<leftarrow> insert_in_run_queue_head cur s;
              thread_resched cpu s })"

definition thread_set_real_time ::
  "nat \<Rightarrow> tid option \<Rightarrow> 'z kstate_scheme \<Rightarrow> (outcome \<times> 'z kstate_scheme) option" where
  "thread_set_real_time cpu t s =
     (case t of None \<Rightarrow> Some (Ret ERR_INVALID_ARGS, s)
      | Some t \<Rightarrow>
          do { DEBUG_ASSERT (th_magic (threads s t) = THREAD_MAGIC);
               s \<leftarrow> (if has_dynamic_timer s \<and> t = current s cpu
                      then timer_cancel cpu (TM_preempt cpu) s else Some s);
               Some (Ret NO_ERROR, upd_thread t (\<lambda>th. th\<lparr>flags := flags th OR THREAD_FLAG_REAL_TIME\<rparr>) s) })"

end
