(* ===== verification/Sched_Inv.thy ===== *)
theory Sched_Inv
  imports Sched
begin

text \<open>
  Correctness of the scheduler: the invariant that ties threads, run queues, bitmap, wait queues
  and the running threads of the cpus together; that the bitmap search of \<open>get_top_thread\<close> is a
  scan of all run queues from the highest priority down; and that rescheduling never panics and
  keeps the invariant.
\<close>

section \<open>The choice of the next thread\<close>

text \<open>Reference definition: the first thread that may run on the cpu, queues taken from priority
  31 down to 0, each from its head.\<close>

definition top_choice :: "nat \<Rightarrow> 'z kstate_scheme \<Rightarrow> tid option" where
  "top_choice cpu s =
     List.find (\<lambda>t. may_run_on cpu (threads s t))
       (concat (map (\<lambda>p. lcont (queues s) (RunQ p)) (rev [0..<32])))"

definition bitmap_ok :: "'z kstate_scheme \<Rightarrow> bool" where
  "bitmap_ok s \<longleftrightarrow> (\<forall>p. bit (run_queue_bitmap s) p \<longleftrightarrow> lcont (queues s) (RunQ p) \<noteq> [])"

text \<open>Taking a thread off its run queue.\<close>

definition remove_ready :: "tid \<Rightarrow> 'z kstate_scheme \<Rightarrow> 'z kstate_scheme option" where
  "remove_ready t s =
     (case lon (queues s) t of
        Some (RunQ p) \<Rightarrow>
          do { q \<leftarrow> ls_delete t (queues s);
               Some (s\<lparr>queues := q,
                       run_queue_bitmap := (if ls_is_empty (RunQ p) q
                                            then run_queue_bitmap s AND NOT (push_bit p 1)
                                            else run_queue_bitmap s)\<rparr>) }
      | _ \<Rightarrow> None)"

lemma find_append: "List.find P (xs @ ys) = (case List.find P xs of None \<Rightarrow> List.find P ys | Some x \<Rightarrow> Some x)"
  by (induction xs) auto

lemma find_mem: "List.find P xs = Some x \<Longrightarrow> x \<in> set xs \<and> P x"
  by (induction xs) (auto split: if_splits)

lemma find_concat_top:
  assumes "k < n" "List.find P (f k) = Some x" "\<And>j. k < j \<Longrightarrow> j < n \<Longrightarrow> List.find P (f j) = None"
  shows "List.find P (concat (map f (rev [0..<n]))) = Some x"
  using assms
proof (induction n)
  case (Suc n)
  then show ?case by (cases "k = n") (auto simp: find_append)
qed simp

lemma find_concat_none:
  assumes "\<And>j. j < n \<Longrightarrow> List.find P (f j) = None"
  shows "List.find P (concat (map f (rev [0..<n]))) = None"
  using assms by (induction n) (auto simp: find_append)

lemma get_top_loop_choice:
  assumes "ls_ok (queues s)" "bitmap_ok s"
    and "\<And>p. \<not> bit bm p \<Longrightarrow> List.find (\<lambda>t. may_run_on cpu (threads s t)) (lcont (queues s) (RunQ p)) = None"
  shows "get_top_loop cpu bm s =
    (case top_choice cpu s of
       None \<Rightarrow> Some (idle_threads s cpu, s)
     | Some t \<Rightarrow> map_option (Pair t) (remove_ready t s))"
  using assms
proof (induction cpu bm s rule: get_top_loop.induct)
  case (1 cpu bm s)
  let ?find = "\<lambda>p. List.find (\<lambda>t. may_run_on cpu (threads s t)) (lcont (queues s) (RunQ p))"
  let ?k = "32 - 1 - builtin_clz bm"
  show ?case
  proof (cases "bm = 0")
    case True
    then have "top_choice cpu s = None" unfolding top_choice_def using 1(4) by (intro find_concat_none) simp
    with True show ?thesis by (simp add: get_top_loop.simps)
  next
    case False
    have "log2_uint bm = ?k" using False by (simp add: log2_uint_def)
    with log2_uint_top[OF False] have top: "?k < 32" "bit bm ?k" "\<And>j. ?k < j \<Longrightarrow> \<not> bit bm j" by auto
    show ?thesis
    proof (cases "?find ?k")
      case (Some t)
      have "lon (queues s) t = Some (RunQ ?k)"
        using find_mem[OF Some] ls_ok_mem[OF 1(2)] by blast
      moreover have "top_choice cpu s = Some t"
        unfolding top_choice_def using top Some 1(4) by (intro find_concat_top[where k = ?k]) auto
      ultimately show ?thesis
        using False Some by (simp add: get_top_loop.simps[of cpu bm] remove_ready_def Let_def ls_delete_def)
    next
      case None
      have nf: "?find p = None" if "\<not> bit (bm AND NOT (push_bit ?k 1)) p" for p
        using that None 1(4)[of p] by (cases "p = ?k") (auto simp: bit_simps dest: bit_word32_lt)
      note IH = 1(1)[OF False refl None 1(2,3)]
      have "get_top_loop cpu bm s = get_top_loop cpu (bm AND NOT (push_bit ?k 1)) s"
        by (subst get_top_loop.simps) (simp only: False if_False Let_def None option.case)
      with IH nf show ?thesis by simp
    qed
  qed
qed

lemma get_top_thread_choice:
  assumes "ls_ok (queues s)" "bitmap_ok s"
  shows "get_top_thread cpu s =
    (case top_choice cpu s of
       None \<Rightarrow> Some (idle_threads s cpu, s)
     | Some t \<Rightarrow> map_option (Pair t) (remove_ready t s))"
  unfolding get_top_thread_def
proof (rule get_top_loop_choice[OF assms])
  fix p assume "\<not> bit (run_queue_bitmap s) p"
  with assms(2) have "lcont (queues s) (RunQ p) = []" unfolding bitmap_ok_def by blast
  then show "List.find (\<lambda>t. may_run_on cpu (threads s t)) (lcont (queues s) (RunQ p)) = None" by simp
qed

section \<open>The invariant\<close>

text \<open>What being linked behind a head says about a thread.\<close>

definition queued_ok :: "thread \<Rightarrow> qhead \<Rightarrow> bool" where
  "queued_ok th h \<longleftrightarrow> th_magic th = THREAD_MAGIC \<and> \<not> thread_is_idle th \<and>
     (case h of
        RunQ p \<Rightarrow> state th = THREAD_READY \<and> priority th = int p
      | WaitL w \<Rightarrow> state th = THREAD_BLOCKED \<and> blocking_wait_queue th = Some w)"

definition queue_inv :: "'z kstate_scheme \<Rightarrow> bool" where
  "queue_inv s \<longleftrightarrow> ls_ok (queues s) \<and> bitmap_ok s \<and>
     (\<forall>t h. lon (queues s) t = Some h \<longrightarrow> queued_ok (threads s t) h) \<and>
     (\<forall>w. if wq_magic (wqs s w) = WAIT_QUEUE_MAGIC
          then wq_count (wqs s w) = int (length (lcont (queues s) (WaitL w)))
          else lcont (queues s) (WaitL w) = [])"

text \<open>No thread is lost: outside of the set \<open>L\<close> of threads being moved, a ready thread is on a run
  queue and a blocked one on a wait queue. Priorities index the run queues.\<close>

definition thread_inv :: "tid set \<Rightarrow> 'z kstate_scheme \<Rightarrow> bool" where
  "thread_inv L s \<longleftrightarrow>
     (\<forall>t. th_magic (threads s t) = THREAD_MAGIC \<longrightarrow>
        0 \<le> priority (threads s t) \<and> priority (threads s t) < 32 \<and>
        (t \<notin> L \<longrightarrow> \<not> thread_is_idle (threads s t) \<longrightarrow>
           state (threads s t) \<in> {THREAD_READY, THREAD_BLOCKED} \<longrightarrow> lon (queues s) t \<noteq> None))"

text \<open>The online cpus \<open>C\<close> and those among them, \<open>R\<close>, whose current thread is marked running: the
  running threads are exactly those, no thread is current on two cpus, and every cpu has an idle
  thread of its own.\<close>

definition cpu_inv :: "nat set \<Rightarrow> nat set \<Rightarrow> 'z kstate_scheme \<Rightarrow> bool" where
  "cpu_inv C R s \<longleftrightarrow> R \<subseteq> C \<and> inj_on (current s) C \<and> inj_on (idle_threads s) C \<and>
     (\<forall>t. state (threads s t) = THREAD_RUNNING \<longleftrightarrow> t \<in> current s ` R) \<and>
     (\<forall>c \<in> R. th_magic (threads s (current s c)) = THREAD_MAGIC) \<and>
     (\<forall>c \<in> C. thread_is_idle (threads s (idle_threads s c)) \<and>
              th_magic (threads s (idle_threads s c)) = THREAD_MAGIC \<and>
              (\<forall>c' \<in> C. current s c' = idle_threads s c \<longrightarrow> c' = c))"

definition sched_inv :: "nat set \<Rightarrow> nat set \<Rightarrow> tid set \<Rightarrow> 'z kstate_scheme \<Rightarrow> bool" where
  "sched_inv C R L s \<longleftrightarrow> queue_inv s \<and> thread_inv L s \<and> cpu_inv C R s"

text \<open>The preemption timer of a cpu is not pending while a real-time or idle thread is current.\<close>

definition preempt_inv :: "nat set \<Rightarrow> 'z kstate_scheme \<Rightarrow> bool" where
  "preempt_inv C s \<longleftrightarrow> ls_ok (tqueue s) \<and>
     (\<forall>c \<in> C. tm_magic (timers s (TM_preempt c)) = TIMER_MAGIC \<and>
        (has_dynamic_timer s \<longrightarrow> thread_is_real_time_or_idle (threads s (current s c)) \<longrightarrow>
           \<not> ls_in_list (TM_preempt c) (tqueue s)))"

lemma upd_thread_sel [simp]:
  "threads (upd_thread t f s) = (threads s)(t := f (threads s t))"
  "queues (upd_thread t f s) = queues s" "run_queue_bitmap (upd_thread t f s) = run_queue_bitmap s"
  "current (upd_thread t f s) = current s" "idle_threads (upd_thread t f s) = idle_threads s"
  "wqs (upd_thread t f s) = wqs s" "kstack (upd_thread t f s) = kstack s"
  "timers (upd_thread t f s) = timers s" "tqueue (upd_thread t f s) = tqueue s"
  "cur_time (upd_thread t f s) = cur_time s" "has_dynamic_timer (upd_thread t f s) = has_dynamic_timer s"
  "hw_timer (upd_thread t f s) = hw_timer s" "thread_list (upd_thread t f s) = thread_list s"
  "hires_time (upd_thread t f s) = hires_time s" "active_cpus (upd_thread t f s) = active_cpus s"
  "freed (upd_thread t f s) = freed s" "realtime_cpus (upd_thread t f s) = realtime_cpus s"
  "idle_cpus (upd_thread t f s) = idle_cpus s" "ipis (upd_thread t f s) = ipis s"
  by (simp_all add: upd_thread_def)

text \<open>Changing fields of a thread that no clause of the invariant reads.\<close>

definition same_sched :: "thread \<Rightarrow> thread \<Rightarrow> bool" where
  "same_sched a b \<longleftrightarrow> th_magic b = th_magic a \<and> priority b = priority a \<and> state b = state a \<and>
     thread_is_idle b = thread_is_idle a \<and> blocking_wait_queue b = blocking_wait_queue a"

lemma sched_inv_cong:
  assumes "sched_inv C R L s" "\<And>t. same_sched (threads s t) (threads s' t)"
    "queues s' = queues s" "run_queue_bitmap s' = run_queue_bitmap s" "current s' = current s"
    "idle_threads s' = idle_threads s" "wqs s' = wqs s"
  shows "sched_inv C R L s'"
proof -
  have q: "queued_ok (threads s' t) h = queued_ok (threads s t) h" for t h
    using assms(2)[of t] by (auto simp: queued_ok_def same_sched_def split: qhead.splits)
  note e = assms(2)[unfolded same_sched_def]
  have "queue_inv s'" using assms(1,3,4,7) by (simp add: sched_inv_def queue_inv_def bitmap_ok_def q)
  moreover have "thread_inv L s'" using assms(1,3) e by (simp add: sched_inv_def thread_inv_def)
  moreover have "cpu_inv C R s'" using assms(1,5,6) e by (simp add: sched_inv_def cpu_inv_def)
  ultimately show ?thesis by (simp add: sched_inv_def)
qed

text \<open>A thread that is on no queue leaves the running or any other state.\<close>

lemma set_state_inv:
  assumes inv: "sched_inv C R L s" and un: "lon (queues s) t = None" and st: "st \<noteq> THREAD_RUNNING"
  shows "sched_inv C {c \<in> R. current s c \<noteq> t} (insert t L) (set_state t st s)"
proof -
  have "queue_inv (set_state t st s)"
    using inv un by (auto simp: sched_inv_def queue_inv_def bitmap_ok_def set_state_def)
  moreover have "thread_inv (insert t L) (set_state t st s)"
    using inv by (auto simp: sched_inv_def thread_inv_def set_state_def thread_is_idle_def)
  moreover have "cpu_inv C {c \<in> R. current s c \<noteq> t} (set_state t st s)"
    using inv st by (auto simp: sched_inv_def cpu_inv_def set_state_def thread_is_idle_def)
  ultimately show ?thesis by (simp add: sched_inv_def)
qed

lemma bitmap_insert:
  assumes "bitmap_ok s" "p < 32" "lcont q = (lcont (queues s))(RunQ p := xs)" "xs \<noteq> []"
  shows "bitmap_ok (s\<lparr>queues := q, run_queue_bitmap := run_queue_bitmap s OR push_bit p 1\<rparr>)"
  using assms by (auto simp: bitmap_ok_def bit_simps)

lemma insert_ready_inv:
  assumes inv: "sched_inv C R L s" and t: "th_magic (threads s t) = THREAD_MAGIC"
      "state (threads s t) = THREAD_READY" "\<not> thread_is_idle (threads s t)" "lon (queues s) t = None"
    and p: "p = nat (priority (threads s t))"
    and q: "ls_ok q" "lcont q = (lcont (queues s))(RunQ p := xs)" "set xs = insert t (set (lcont (queues s) (RunQ p)))"
  shows "sched_inv C R (L - {t}) (s\<lparr>queues := q, run_queue_bitmap := run_queue_bitmap s OR push_bit p 1\<rparr>)"
proof -
  let ?s = "s\<lparr>queues := q, run_queue_bitmap := run_queue_bitmap s OR push_bit p 1\<rparr>"
  have pr: "0 \<le> priority (threads s t)" "priority (threads s t) < 32"
    using inv t(1) by (auto simp: sched_inv_def thread_inv_def)
  have ok: "ls_ok (queues s)" using inv by (simp add: sched_inv_def queue_inv_def)
  have "n \<in> set xs \<longleftrightarrow> n = t \<or> lon (queues s) n = Some (RunQ p)" for n
    using q(3) ls_ok_mem[OF ok] by auto
  then have lon: "lon q n = (if n = t then Some (RunQ p) else lon (queues s) n)" for n
    using ls_lon_after[OF ok q(1,2)] by auto
  have "bitmap_ok ?s"
    using inv p pr q(2,3) by (intro bitmap_insert) (auto simp: sched_inv_def queue_inv_def)
  then have "queue_inv ?s"
    using inv t q p pr lon by (auto simp: sched_inv_def queue_inv_def queued_ok_def)
  moreover have "thread_inv (L - {t}) ?s" using inv lon by (simp add: sched_inv_def thread_inv_def)
  moreover have "cpu_inv C R ?s" using inv by (simp add: sched_inv_def cpu_inv_def)
  ultimately show ?thesis by (simp add: sched_inv_def)
qed

text \<open>Both insertions succeed, keep the invariant and change nothing but the queue and its bit.\<close>

definition ready_at :: "tid \<Rightarrow> (tid list \<Rightarrow> tid list) \<Rightarrow> 'z kstate_scheme \<Rightarrow> 'z kstate_scheme \<Rightarrow> bool" where
  "ready_at t f s s' \<longleftrightarrow>
     (\<exists>q bm. s' = s\<lparr>queues := q, run_queue_bitmap := bm\<rparr> \<and>
        lcont q = (lcont (queues s))(RunQ (nat (priority (threads s t))) :=
                     f (lcont (queues s) (RunQ (nat (priority (threads s t)))))))"

lemma insert_in_run_queue_inv:
  assumes inv: "sched_inv C R L s" and t: "th_magic (threads s t) = THREAD_MAGIC"
      "state (threads s t) = THREAD_READY" "\<not> thread_is_idle (threads s t)" "lon (queues s) t = None"
  shows "wp (insert_in_run_queue_head t s) (\<lambda>s'. sched_inv C R (L - {t}) s' \<and> ready_at t (\<lambda>xs. t # xs) s s')"
    and "wp (insert_in_run_queue_tail t s) (\<lambda>s'. sched_inv C R (L - {t}) s' \<and> ready_at t (\<lambda>xs. xs @ [t]) s s')"
proof -
  let ?h = "RunQ (nat (priority (threads s t)))"
  have pr: "0 \<le> priority (threads s t)" "priority (threads s t) < 32"
    using inv t(1) by (auto simp: sched_inv_def thread_inv_def)
  have ok: "ls_ok (queues s)" using inv by (simp add: sched_inv_def queue_inv_def)
  have un: "\<not> ls_in_list t (queues s)" using t(4) by (simp add: ls_in_list_def)
  obtain q where q: "ls_add_head ?h t (queues s) = Some q" "ls_ok q"
      "lcont q = (lcont (queues s))(?h := t # lcont (queues s) ?h)"
    using ls.add_head_law[OF ok _ _ un, of ?h] by auto
  show "wp (insert_in_run_queue_head t s) (\<lambda>s'. sched_inv C R (L - {t}) s' \<and> ready_at t (\<lambda>xs. t # xs) s s')"
    using insert_ready_inv[OF inv t refl q(2,3)] t pr un q
    by (auto simp: insert_in_run_queue_head_def run_queue_insert_ok_def Let_def ready_at_def)
  obtain q where q: "ls_add_tail ?h t (queues s) = Some q" "ls_ok q"
      "lcont q = (lcont (queues s))(?h := lcont (queues s) ?h @ [t])"
    using ls.add_tail_law[OF ok _ _ un, of ?h] by auto
  show "wp (insert_in_run_queue_tail t s) (\<lambda>s'. sched_inv C R (L - {t}) s' \<and> ready_at t (\<lambda>xs. xs @ [t]) s s')"
    using insert_ready_inv[OF inv t refl q(2,3)] t pr un q
    by (auto simp: insert_in_run_queue_tail_def run_queue_insert_ok_def Let_def ready_at_def)
qed

text \<open>Taking the chosen thread off its queue.\<close>

lemma top_choice_Some:
  assumes "ls_ok (queues s)" "top_choice cpu s = Some t"
  shows "\<exists>p<32. lon (queues s) t = Some (RunQ p) \<and> may_run_on cpu (threads s t)"
proof -
  from find_mem[OF assms(2)[unfolded top_choice_def]] obtain p where
    "p < 32" "t \<in> set (lcont (queues s) (RunQ p))" "may_run_on cpu (threads s t)" by auto
  with ls_ok_mem[OF assms(1)] show ?thesis by blast
qed

lemma remove_ready_inv:
  assumes inv: "sched_inv C R L s" and t: "lon (queues s) t = Some (RunQ p)"
  shows "wp (remove_ready t s) (\<lambda>s'. sched_inv C R (insert t L) s' \<and> lon (queues s') t = None \<and>
     (\<exists>q bm. s' = s\<lparr>queues := q, run_queue_bitmap := bm\<rparr> \<and>
        lcont q = (lcont (queues s))(RunQ p := remove1 t (lcont (queues s) (RunQ p)))))"
proof -
  have ok: "ls_ok (queues s)" using inv by (simp add: sched_inv_def queue_inv_def)
  obtain ys zs where yz: "lcont (queues s) (RunQ p) = ys @ t # zs"
    using t ls_ok_mem[OF ok, of t "RunQ p"] by (auto dest: split_list)
  from ls.del_law[OF ok yz] obtain q where q: "ls_delete t (queues s) = Some q" "ls_ok q"
      "lcont q = (lcont (queues s))(RunQ p := ys @ zs)" by auto
  have n: "t \<notin> set ys" "t \<notin> set zs" using ls_ok_split[OF ok yz] by auto
  have mem: "lon (queues s) k = Some (RunQ p) \<longleftrightarrow> k \<in> set ys \<or> k = t \<or> k \<in> set zs" for k
    using ls_ok_mem[OF ok, of k "RunQ p"] yz by auto
  have lon: "lon q k = (if k = t then None else lon (queues s) k)" for k
    using ls_lon_after[OF ok q(2,3), of k] mem[of k] n by auto
  let ?bm = "if ls_is_empty (RunQ p) q then run_queue_bitmap s AND NOT (push_bit p 1) else run_queue_bitmap s"
  let ?s = "s\<lparr>queues := q, run_queue_bitmap := ?bm\<rparr>"
  have bm: "bitmap_ok s" using inv by (simp add: sched_inv_def queue_inv_def)
  have lt: "lcont (queues s) (RunQ k) \<noteq> [] \<Longrightarrow> k < 32" for k
    using bm bit_word32_lt[of "run_queue_bitmap s" k] by (simp add: bitmap_ok_def)
  have "bitmap_ok ?s"
    using bm yz q(3) lt lt[of p] by (auto simp add: bitmap_ok_def ls_is_empty_def bit_simps)
  then have "queue_inv ?s"
    using inv q lon by (auto simp: sched_inv_def queue_inv_def)
  moreover have "thread_inv (insert t L) ?s" using inv lon by (simp add: sched_inv_def thread_inv_def)
  moreover have "cpu_inv C R ?s" using inv by (simp add: sched_inv_def cpu_inv_def)
  ultimately have "sched_inv C R (insert t L) ?s" by (simp add: sched_inv_def)
  moreover have "remove1 t (lcont (queues s) (RunQ p)) = ys @ zs" using n yz by simp
  with q(3) have "\<exists>q' bm. ?s = s\<lparr>queues := q', run_queue_bitmap := bm\<rparr> \<and>
      lcont q' = (lcont (queues s))(RunQ p := remove1 t (lcont (queues s) (RunQ p)))"
    by (intro exI[of _ q] exI[of _ ?bm]) simp
  moreover have "remove_ready t s = Some ?s" using t q(1) by (simp add: remove_ready_def)
  ultimately show ?thesis using lon[of t] by (simp only: wp_simps) simp
qed

section \<open>Rescheduling\<close>

text \<open>The part of a thread that a context switch leaves alone.\<close>

definition thread_core :: "thread \<Rightarrow> thread" where
  "thread_core t = t\<lparr>state := THREAD_READY, remaining_quantum := 0, curr_cpu := 0,
                     last_started_running_us := 0, runtime_us := 0\<rparr>"

lemma thread_core_eqD:
  assumes "thread_core a = thread_core b"
  shows "th_magic a = th_magic b" "priority a = priority b" "flags a = flags b"
    "pinned_cpu a = pinned_cpu b" "blocking_wait_queue a = blocking_wait_queue b"
    "wait_queue_block_ret a = wait_queue_block_ret b" "retcode a = retcode b"
    "stack a = stack b" "thread_is_idle a = thread_is_idle b"
    "thread_is_real_time_or_idle a = thread_is_real_time_or_idle b"
  using arg_cong[OF assms, of th_magic] arg_cong[OF assms, of priority] arg_cong[OF assms, of flags]
    arg_cong[OF assms, of pinned_cpu] arg_cong[OF assms, of blocking_wait_queue]
    arg_cong[OF assms, of wait_queue_block_ret] arg_cong[OF assms, of retcode]
    arg_cong[OF assms, of stack]
  by (simp_all add: thread_core_def thread_is_idle_def thread_is_real_time_or_idle_def)

lemma thread_core_upd [simp]:
  "thread_core (t\<lparr>state := st\<rparr>) = thread_core t"
  "thread_core (t\<lparr>remaining_quantum := n\<rparr>) = thread_core t"
  "thread_core (t\<lparr>curr_cpu := n\<rparr>) = thread_core t"
  "thread_core (t\<lparr>last_started_running_us := u\<rparr>) = thread_core t"
  "thread_core (t\<lparr>runtime_us := u\<rparr>) = thread_core t"
  by (simp_all add: thread_core_def)

text \<open>What rescheduling leaves alone in the state: everything but the scheduler's own data and
  the preemption timers.\<close>

definition resched_frame :: "'z kstate_scheme \<Rightarrow> 'z kstate_scheme \<Rightarrow> bool" where
  "resched_frame s s' \<longleftrightarrow>
     kstate.more s' = kstate.more s \<and> wqs s' = wqs s \<and> kstack s' = kstack s \<and>
     idle_threads s' = idle_threads s \<and> thread_list s' = thread_list s \<and> freed s' = freed s \<and>
     cur_time s' = cur_time s \<and> hires_time s' = hires_time s \<and>
     has_dynamic_timer s' = has_dynamic_timer s \<and> active_cpus s' = active_cpus s \<and>
     (\<forall>w. lcont (queues s') (WaitL w) = lcont (queues s) (WaitL w)) \<and>
     (\<forall>t. thread_core (threads s' t) = thread_core (threads s t)) \<and>
     (\<forall>t. timers s' (TM_stack t) = timers s (TM_stack t) \<and>
          lon (tqueue s') (TM_stack t) = lon (tqueue s) (TM_stack t))"

lemma resched_frame_refl [simp]: "resched_frame s s"
  by (simp add: resched_frame_def)

lemma resched_frame_trans: "resched_frame a b \<Longrightarrow> resched_frame b c \<Longrightarrow> resched_frame a c"
  by (simp add: resched_frame_def)

lemma set_state_sel [simp]:
  "threads (set_state t st s) = (threads s)(t := (threads s t)\<lparr>state := st\<rparr>)"
  "queues (set_state t st s) = queues s" "run_queue_bitmap (set_state t st s) = run_queue_bitmap s"
  "current (set_state t st s) = current s" "idle_threads (set_state t st s) = idle_threads s"
  "wqs (set_state t st s) = wqs s" "timers (set_state t st s) = timers s"
  "tqueue (set_state t st s) = tqueue s" "has_dynamic_timer (set_state t st s) = has_dynamic_timer s"
  "kstack (set_state t st s) = kstack s" "cur_time (set_state t st s) = cur_time s"
  "thread_list (set_state t st s) = thread_list s" "freed (set_state t st s) = freed s"
  by (simp_all add: set_state_def)

lemma set_state_frame [simp]: "resched_frame s (set_state t st s)"
  by (simp add: resched_frame_def set_state_def upd_thread_def)

lemma queues_frame:
  "(\<And>w. lcont q (WaitL w) = lcont (queues s) (WaitL w)) \<Longrightarrow>
   resched_frame s (s\<lparr>queues := q, run_queue_bitmap := bm\<rparr>)"
  by (simp add: resched_frame_def)

definition acct_frame :: "'z kstate_scheme \<Rightarrow> 'z kstate_scheme \<Rightarrow> bool" where
  "acct_frame s s' \<longleftrightarrow> resched_frame s s' \<and> (\<forall>t. state (threads s' t) = state (threads s t)) \<and>
     queues s' = queues s \<and> run_queue_bitmap s' = run_queue_bitmap s \<and> current s' = current s \<and>
     tqueue s' = tqueue s \<and> timers s' = timers s"

lemma acct_frame_intros:
  "acct_frame s s"
  "acct_frame s a \<Longrightarrow> acct_frame s b \<Longrightarrow> acct_frame s (if P then a else b)"
  "acct_frame s a \<Longrightarrow> (\<And>th. thread_core (f th) = thread_core th \<and> state (f th) = state th) \<Longrightarrow>
   acct_frame s (upd_thread t f a)"
  "acct_frame s a \<Longrightarrow> acct_frame s (mp_set_cpu_idle c a)"
  "acct_frame s a \<Longrightarrow> acct_frame s (mp_set_cpu_busy c a)"
  "acct_frame s a \<Longrightarrow> acct_frame s (mp_set_cpu_realtime c a)"
  "acct_frame s a \<Longrightarrow> acct_frame s (mp_set_cpu_non_realtime c a)"
  by (simp_all add: acct_frame_def resched_frame_def upd_thread_def mp_set_cpu_idle_def
      mp_set_cpu_busy_def mp_set_cpu_realtime_def mp_set_cpu_non_realtime_def)

lemma switch_accounting_frame: "acct_frame s (switch_accounting c old new s)"
  unfolding switch_accounting_def Let_def by (intro acct_frame_intros) simp_all

lemma switch_preempt_wp:
  assumes ls: "ls_ok (tqueue s)" "tm_magic (timers s (TM_preempt c)) = TIMER_MAGIC"
    and un: "has_dynamic_timer s \<Longrightarrow> thread_is_real_time_or_idle (threads s old) \<Longrightarrow>
              \<not> ls_in_list (TM_preempt c) (tqueue s)"
  shows "wp (switch_preempt_timer c old new s) (\<lambda>s'. \<exists>q tm hw.
     s' = s\<lparr>tqueue := q, timers := (timers s)(TM_preempt c := tm), hw_timer := hw\<rparr> \<and> ls_ok q \<and>
     tm_magic tm = TIMER_MAGIC \<and> (\<forall>n. n \<noteq> TM_preempt c \<longrightarrow> lon q n = lon (tqueue s) n) \<and>
     (has_dynamic_timer s \<longrightarrow> thread_is_real_time_or_idle (threads s new) \<longrightarrow> lon q (TM_preempt c) = None))"
    (is "wp _ ?Q")
proof -
  have same: "wp (Some s) ?Q" if "has_dynamic_timer s \<Longrightarrow> thread_is_real_time_or_idle (threads s new) \<Longrightarrow>
      thread_is_real_time_or_idle (threads s old)"
    using ls that un
    by (simp only: wp_simps(1), intro exI[of _ "tqueue s"] exI[of _ "timers s (TM_preempt c)"]
         exI[of _ "hw_timer s"]) (auto simp: ls_in_list_def)
  have cancel: "wp (timer_cancel c (TM_preempt c) s) ?Q"
  proof (rule wp_mono[OF timer_cancel_wp[OF ls]], elim exE conjE)
    fix s' q hw
    assume "ls_ok q" "lon q = (lon (tqueue s))(TM_preempt c := None)"
      "s' = s\<lparr>tqueue := q, timers := (timers s)(TM_preempt c := (timers s (TM_preempt c))
              \<lparr>periodic_time := 0, callback := None, tm_arg := 0\<rparr>), hw_timer := hw\<rparr>"
    with ls show "?Q s'" by (intro exI[of _ q] exI conjI) (assumption | simp)+
  qed
  have start: "wp (timer_set c (TM_preempt c) 10 10 CB_thread_timer_tick 0 s) ?Q"
    if "\<not> thread_is_real_time_or_idle (threads s new)" "\<not> ls_in_list (TM_preempt c) (tqueue s)"
  proof (rule wp_mono[OF timer_set_wp[OF ls(1) that(2) ls(2)]], elim exE conjE)
    fix s' q hw
    assume "ls_ok q" "lon q = (lon (tqueue s))(TM_preempt c := Some c)"
      and s': "s' = s\<lparr>timers := (timers s)(TM_preempt c := (timers s (TM_preempt c))
              \<lparr>scheduled_time := cur_time s + 10, periodic_time := 10,
               callback := Some CB_thread_timer_tick, tm_arg := 0\<rparr>), tqueue := q, hw_timer := hw\<rparr>"
    with ls that show "?Q s'"
      unfolding s' by (intro exI[of _ q] exI[of _ "(timers s (TM_preempt c))
              \<lparr>scheduled_time := cur_time s + 10, periodic_time := 10,
               callback := Some CB_thread_timer_tick, tm_arg := 0\<rparr>"] exI[of _ hw]) simp
  qed
  obtain Q where Q: "Q = ?Q" by blast
  show ?thesis
    using same cancel start un unfolding Q[symmetric]
    by (auto simp: switch_preempt_timer_def timer_set_periodic_def Let_def)
qed

lemma switch_in_inv:
  assumes inv: "sched_inv C (C - {c}) L s" and c: "c \<in> C" and t: "lon (queues s) t = None"
      "th_magic (threads s t) = THREAD_MAGIC" "state (threads s t) \<noteq> THREAD_RUNNING"
    and idle: "\<And>c'. c' \<in> C \<Longrightarrow> idle_threads s c' = t \<Longrightarrow> c' = c"
  shows "sched_inv C C (L - {t}) ((set_state t THREAD_RUNNING s)\<lparr>current := (current s)(c := t)\<rparr>)"
    (is "sched_inv _ _ _ ?s")
proof -
  have cpu: "cpu_inv C (C - {c}) s" and q: "queue_inv s" and th: "thread_inv L s"
    using inv by (simp_all add: sched_inv_def)
  have nt: "t \<notin> current s ` (C - {c})" using cpu t(3) by (auto simp: cpu_inv_def)
  have "queue_inv ?s" using q t(1) by (auto simp: queue_inv_def bitmap_ok_def)
  moreover have "thread_inv (L - {t}) ?s"
    using th by (auto simp: thread_inv_def thread_is_idle_def)
  moreover have "cpu_inv C C ?s"
  proof -
    have run: "\<And>u. state (threads s u) = THREAD_RUNNING \<longleftrightarrow> u \<in> current s ` (C - {c})"
      and inj: "inj_on (current s) C" "inj_on (idle_threads s) C"
      and mg: "\<And>k. k \<in> C \<Longrightarrow> k \<noteq> c \<Longrightarrow> th_magic (threads s (current s k)) = THREAD_MAGIC"
      and idl: "\<And>k. k \<in> C \<Longrightarrow> thread_is_idle (threads s (idle_threads s k)) \<and>
          th_magic (threads s (idle_threads s k)) = THREAD_MAGIC"
        "\<And>k c'. k \<in> C \<Longrightarrow> c' \<in> C \<Longrightarrow> current s c' = idle_threads s k \<Longrightarrow> c' = k"
      using cpu by (auto simp: cpu_inv_def)
    have "inj_on ((current s)(c := t)) C"
      using inj(1) nt by (auto simp: inj_on_def)
    moreover have "state (threads ?s u) = THREAD_RUNNING \<longleftrightarrow> u \<in> ((current s)(c := t)) ` C" for u
      using run[of u] c nt by (cases "u = t") (auto simp: image_iff)
    moreover have "th_magic (threads ?s (((current s)(c := t)) k)) = THREAD_MAGIC" if "k \<in> C" for k
      using mg[OF that] t(2) by simp
    moreover have "thread_is_idle (threads ?s (idle_threads s k)) \<and>
        th_magic (threads ?s (idle_threads s k)) = THREAD_MAGIC" if "k \<in> C" for k
      using idl(1)[OF that] by (cases "idle_threads s k = t") (simp_all add: thread_is_idle_def)
    moreover have "c' = k" if "k \<in> C" "c' \<in> C" "((current s)(c := t)) c' = idle_threads s k" for k c'
      using that idl(2)[of k c'] idle[of k] by (auto split: if_splits)
    ultimately show ?thesis using inj(2) by (simp add: cpu_inv_def)
  qed
  ultimately show ?thesis by (simp add: sched_inv_def)
qed

text \<open>The thread that \<open>thread_resched\<close> picks.\<close>

definition next_thread :: "nat \<Rightarrow> 'z kstate_scheme \<Rightarrow> tid" where
  "next_thread c s = (case top_choice c s of None \<Rightarrow> idle_threads s c | Some t \<Rightarrow> t)"

lemma get_top_thread_inv:
  assumes inv: "sched_inv C (C - {c}) L s" and c: "c \<in> C"
  shows "wp (get_top_thread c s) (\<lambda>(t, s'). t = next_thread c s \<and> sched_inv C (C - {c}) (insert t L) s' \<and>
     lon (queues s') t = None \<and> th_magic (threads s t) = THREAD_MAGIC \<and>
     state (threads s t) \<noteq> THREAD_RUNNING \<and> (\<forall>c'\<in>C. idle_threads s c' = t \<longrightarrow> c' = c) \<and>
     s' = s\<lparr>queues := queues s', run_queue_bitmap := run_queue_bitmap s'\<rparr> \<and>
     (\<forall>w. lcont (queues s') (WaitL w) = lcont (queues s) (WaitL w)))"
proof -
  have q: "ls_ok (queues s)" "bitmap_ok s" and qo: "\<And>t h. lon (queues s) t = Some h \<Longrightarrow> queued_ok (threads s t) h"
    and cpu: "cpu_inv C (C - {c}) s"
    using inv by (auto simp: sched_inv_def queue_inv_def)
  note top = get_top_thread_choice[OF q, of c]
  have idle: "thread_is_idle (threads s (idle_threads s k))" if "k \<in> C" for k
    using cpu that by (simp add: cpu_inv_def)
  show ?thesis
  proof (cases "top_choice c s")
    case None
    let ?t = "idle_threads s c"
    have "lon (queues s) ?t = None" using qo[of ?t] idle[OF c] by (cases "lon (queues s) ?t") (auto simp: queued_ok_def)
    moreover have "\<forall>c'\<in>C. idle_threads s c' = ?t \<longrightarrow> c' = c"
      using cpu c by (auto simp: cpu_inv_def inj_on_def)
    moreover have "th_magic (threads s ?t) = THREAD_MAGIC" using cpu c by (auto simp: cpu_inv_def)
    moreover have "state (threads s ?t) \<noteq> THREAD_RUNNING"
      using cpu c by (auto simp: cpu_inv_def)
    moreover have "sched_inv C (C - {c}) (insert ?t L) s"
      using inv by (auto simp: sched_inv_def thread_inv_def)
    ultimately show ?thesis
      using None top by (auto simp: next_thread_def)
  next
    case (Some t)
    from top_choice_Some[OF q(1) Some] obtain p where p: "lon (queues s) t = Some (RunQ p)" by blast
    have t: "th_magic (threads s t) = THREAD_MAGIC" "state (threads s t) = THREAD_READY"
        "\<not> thread_is_idle (threads s t)"
      using qo[OF p] by (auto simp: queued_ok_def)
    then have "\<forall>c'\<in>C. idle_threads s c' = t \<longrightarrow> c' = c" using idle by auto
    with remove_ready_inv[OF inv p] t Some top show ?thesis
      by (auto simp: next_thread_def wp_ex)
  qed
qed

lemma sched_inv_frame_cong:
  assumes "sched_inv C R L s" "resched_frame s s'" "\<And>t. state (threads s' t) = state (threads s t)"
    "queues s' = queues s" "run_queue_bitmap s' = run_queue_bitmap s" "current s' = current s"
  shows "sched_inv C R L s'"
proof (rule sched_inv_cong[OF assms(1)])
  fix t show "same_sched (threads s t) (threads s' t)"
    using assms(2,3) thread_core_eqD[of "threads s' t" "threads s t"]
    by (simp add: same_sched_def resched_frame_def)
qed (use assms in \<open>simp_all add: resched_frame_def\<close>)

text \<open>
  Rescheduling does not panic, restores the invariant with a running thread on this cpu, runs
  the thread chosen by \<open>next_thread\<close>, and leaves the other cpus alone.
\<close>

definition resched_post ::
  "nat set \<Rightarrow> tid set \<Rightarrow> nat \<Rightarrow> 'z kstate_scheme \<Rightarrow> outcome \<times> 'z kstate_scheme \<Rightarrow> bool" where
  "resched_post C L c s = (\<lambda>(r, s').
     sched_inv C C L s' \<and> preempt_inv C s' \<and> resched_frame s s' \<and>
     current s' = (current s)(c := next_thread c s) \<and>
     r = (if next_thread c s = current s c then Ret NO_ERROR else Switched) \<and>
     (\<forall>t. state (threads s' t) =
            (if t = next_thread c s then THREAD_RUNNING else state (threads s t))))"

lemma thread_resched_wp:
  assumes inv: "sched_inv C (C - {c}) L s" and c: "c \<in> C" and pre: "preempt_inv C s"
    and new: "next_thread c s \<notin> L"
  shows "wp (thread_resched c s) (resched_post C L c s)"
proof -
  let ?t = "next_thread c s"
  have "current s c \<notin> current s ` (C - {c})"
    using inv c by (auto simp: sched_inv_def cpu_inv_def inj_on_def)
  then have old: "state (threads s (current s c)) \<noteq> THREAD_RUNNING"
    using inv by (simp add: sched_inv_def cpu_inv_def)
  from get_top_thread_inv[OF inv c] obtain s1 where
    s1: "get_top_thread c s = Some (?t, s1)" "sched_inv C (C - {c}) (insert ?t L) s1"
      "lon (queues s1) ?t = None" "th_magic (threads s ?t) = THREAD_MAGIC"
      "state (threads s ?t) \<noteq> THREAD_RUNNING" "\<forall>c'\<in>C. idle_threads s c' = ?t \<longrightarrow> c' = c"
      "s1 = s\<lparr>queues := queues s1, run_queue_bitmap := run_queue_bitmap s1\<rparr>"
      "\<forall>w. lcont (queues s1) (WaitL w) = lcont (queues s) (WaitL w)"
    by (auto simp: wp_ex)
  have same: "threads s1 = threads s" "current s1 = current s" "idle_threads s1 = idle_threads s"
      "tqueue s1 = tqueue s" "timers s1 = timers s" "has_dynamic_timer s1 = has_dynamic_timer s"
    by (subst s1(7), simp)+
  have fr1: "resched_frame s s1" by (subst s1(7), rule queues_frame) (use s1(8) in simp)
  let ?s2 = "set_state ?t THREAD_RUNNING s1"
  let ?s3 = "switch_accounting c (current s c) ?t ?s2"
  have L: "insert ?t L - {?t} = L" using new by auto
  have in2: "sched_inv C C L (?s2\<lparr>current := (current s)(c := ?t)\<rparr>)"
    using switch_in_inv[OF s1(2) c s1(3)] s1(4-6) by (simp add: same L)
  have fr2: "resched_frame s ?s2" using fr1 by (rule resched_frame_trans) simp
  show ?thesis
  proof (cases "?t = current s c")
    case True
    then have cur: "(current s)(c := ?t) = current s" by auto
    have "?s2\<lparr>current := current s\<rparr> = ?s2" by (simp add: same[symmetric] set_state_def upd_thread_def)
    then have "sched_inv C C L ?s2" using in2 by (simp add: cur)
    moreover have "preempt_inv C ?s2"
      using pre by (auto simp: preempt_inv_def same thread_is_real_time_or_idle_def)
    ultimately show ?thesis
      using True old s1(1) fr2 by (simp add: thread_resched_def Let_def resched_post_def same cur)
  next
    case False
    note acc = switch_accounting_frame[of ?s2 c "current s c" ?t, unfolded acct_frame_def]
    have fr3: "resched_frame s ?s3" by (rule resched_frame_trans[OF fr2 conjunct1[OF acc]])
    have rt: "thread_is_real_time_or_idle (threads ?s3 u) = thread_is_real_time_or_idle (threads s u)" for u
      using fr3 thread_core_eqD(10)[of "threads ?s3 u" "threads s u"] by (simp add: resched_frame_def)
    have dyn: "has_dynamic_timer ?s3 = has_dynamic_timer s" using fr3 by (simp add: resched_frame_def)
    from switch_preempt_wp[of ?s3 c "current s c" ?t] pre c obtain q tm hw where
      pt: "switch_preempt_timer c (current s c) ?t ?s3 =
            Some (?s3\<lparr>tqueue := q, timers := (timers s)(TM_preempt c := tm), hw_timer := hw\<rparr>)"
         "ls_ok q" "tm_magic tm = TIMER_MAGIC" "\<forall>n. n \<noteq> TM_preempt c \<longrightarrow> lon q n = lon (tqueue s) n"
         "has_dynamic_timer s \<Longrightarrow> thread_is_real_time_or_idle (threads s ?t) \<Longrightarrow> lon q (TM_preempt c) = None"
      by (auto simp: wp_ex preempt_inv_def acc same rt dyn)
    let ?s4 = "?s3\<lparr>tqueue := q, timers := (timers s)(TM_preempt c := tm), hw_timer := hw,
                   current := (current s)(c := ?t)\<rparr>"
    have fr4: "resched_frame s ?s4" using fr3 pt(4) by (simp add: resched_frame_def)
    have "sched_inv C C L ?s4"
      by (rule sched_inv_frame_cong[OF in2])
        (use fr4 fr2 acc in \<open>auto simp: resched_frame_def\<close>)
    moreover have "preempt_inv C ?s4"
      unfolding preempt_inv_def
    proof (intro conjI ballI impI)
      fix k assume k: "k \<in> C"
      show "tm_magic (timers ?s4 (TM_preempt k)) = TIMER_MAGIC" using pre pt(3) k by (simp add: preempt_inv_def)
      assume "has_dynamic_timer ?s4" "thread_is_real_time_or_idle (threads ?s4 (current ?s4 k))"
      then show "\<not> ls_in_list (TM_preempt k) (tqueue ?s4)"
        using pre pt(4,5) k by (auto simp: preempt_inv_def ls_in_list_def rt dyn split: if_splits)
    qed (use pt in simp)
    ultimately show ?thesis
      using False old s1(1) fr4 pt(1) acc by (auto simp: thread_resched_def Let_def resched_post_def same)
  qed
qed

section \<open>Yielding, preemption, unblocking\<close>

text \<open>The invariant of the kernel between operations.\<close>

definition kinv :: "nat set \<Rightarrow> 'z kstate_scheme \<Rightarrow> bool" where
  "kinv C s \<longleftrightarrow> sched_inv C C {} s \<and> preempt_inv C s"

lemma kinvD:
  assumes "kinv C s"
  shows "sched_inv C C {} s" "preempt_inv C s"
  using assms by (simp_all add: kinv_def)

lemma kinv_current:
  assumes "kinv C s" "c \<in> C"
  shows "th_magic (threads s (current s c)) = THREAD_MAGIC" "state (threads s (current s c)) = THREAD_RUNNING"
    "lon (queues s) (current s c) = None"
proof -
  have q: "\<And>t h. lon (queues s) t = Some h \<Longrightarrow> queued_ok (threads s t) h"
    using assms by (auto simp: kinv_def sched_inv_def queue_inv_def)
  show m: "th_magic (threads s (current s c)) = THREAD_MAGIC" "state (threads s (current s c)) = THREAD_RUNNING"
    using assms by (auto simp: kinv_def sched_inv_def cpu_inv_def)
  show "lon (queues s) (current s c) = None"
    using q[of "current s c"] m(2)
    by (cases "lon (queues s) (current s c)") (auto simp: queued_ok_def split: qhead.splits)
qed

lemma other_cpus:
  assumes "sched_inv C R L s" "c \<in> C"
  shows "{k \<in> R. current s k \<noteq> current s c} = R - {c}"
  using assms by (auto simp: sched_inv_def cpu_inv_def inj_on_def)

text \<open>Making an unqueued thread ready.\<close>

lemma make_ready_wp:
  assumes inv: "sched_inv C R L s" and t: "th_magic (threads s t) = THREAD_MAGIC"
      "\<not> thread_is_idle (threads s t)" "lon (queues s) t = None"
  defines "s1 \<equiv> set_state t THREAD_READY s"
  shows "wp (insert_in_run_queue_head t s1)
           (\<lambda>s'. sched_inv C {k \<in> R. current s k \<noteq> t} (L - {t}) s' \<and> ready_at t (\<lambda>xs. t # xs) s1 s')"
    and "wp (insert_in_run_queue_tail t s1)
           (\<lambda>s'. sched_inv C {k \<in> R. current s k \<noteq> t} (L - {t}) s' \<and> ready_at t (\<lambda>xs. xs @ [t]) s1 s')"
proof -
  have s1: "sched_inv C {k \<in> R. current s k \<noteq> t} (insert t L) s1"
    unfolding s1_def by (rule set_state_inv[OF inv t(3)]) simp
  have t': "th_magic (threads s1 t) = THREAD_MAGIC" "state (threads s1 t) = THREAD_READY"
      "\<not> thread_is_idle (threads s1 t)" "lon (queues s1) t = None"
    using t by (simp_all add: s1_def thread_is_idle_def)
  have L: "insert t L - {t} = L - {t}" by auto
  show "wp (insert_in_run_queue_head t s1)
           (\<lambda>s'. sched_inv C {k \<in> R. current s k \<noteq> t} (L - {t}) s' \<and> ready_at t (\<lambda>xs. t # xs) s1 s')"
    using insert_in_run_queue_inv(1)[OF s1 t'] by (simp add: L)
  show "wp (insert_in_run_queue_tail t s1)
           (\<lambda>s'. sched_inv C {k \<in> R. current s k \<noteq> t} (L - {t}) s' \<and> ready_at t (\<lambda>xs. xs @ [t]) s1 s')"
    using insert_in_run_queue_inv(2)[OF s1 t'] by (simp add: L)
qed

lemma ready_at_frame: "ready_at t f s s' \<Longrightarrow> resched_frame s s' \<and> current s' = current s \<and> threads s' = threads s"
  by (auto simp: ready_at_def intro!: queues_frame)

lemma preempt_inv_frame:
  assumes "preempt_inv C s" "tqueue s' = tqueue s" "timers s' = timers s" "current s' = current s"
    "resched_frame s s'"
  shows "preempt_inv C s'"
proof -
  have "thread_is_real_time_or_idle (threads s' t) = thread_is_real_time_or_idle (threads s t)" for t
    using assms(5) thread_core_eqD(10)[of "threads s' t" "threads s t"] by (simp add: resched_frame_def)
  moreover have "has_dynamic_timer s' = has_dynamic_timer s" using assms(5) by (simp add: resched_frame_def)
  ultimately show ?thesis using assms(1-4) by (simp add: preempt_inv_def)
qed

text \<open>The queues after a thread has been put on the run queue of its priority.\<close>

lemma ready_at_lcont:
  "ready_at t f s s' \<Longrightarrow> lcont (queues s') (RunQ p) =
     (if p = nat (priority (threads s t)) then f (lcont (queues s) (RunQ p)) else lcont (queues s) (RunQ p))"
  by (auto simp: ready_at_def)

lemma ready_at_sel:
  "ready_at t f s s' \<Longrightarrow> tqueue s' = tqueue s \<and> timers s' = timers s \<and> idle_threads s' = idle_threads s"
  by (auto simp: ready_at_def)

text \<open>Which thread \<open>next_thread\<close> is: at the highest priority with an eligible thread, the first
  eligible one of its queue.\<close>

lemma find_concat_dest:
  assumes "List.find P (concat (map f (rev [0..<n]))) = Some x"
  shows "\<exists>k<n. List.find P (f k) = Some x \<and> (\<forall>j. k < j \<longrightarrow> j < n \<longrightarrow> List.find P (f j) = None)"
  using assms
proof (induction n)
  case (Suc n)
  show ?case
  proof (cases "List.find P (f n)")
    case None
    with Suc show ?thesis using less_Suc_eq by (auto simp: find_append)
  next
    case (Some y)
    with Suc.prems show ?thesis by (intro exI[of _ n]) (auto simp: find_append)
  qed
qed simp

lemma top_choice_order:
  assumes "ls_ok (queues s)" "top_choice c s = Some t"
  shows "\<exists>p<32. List.find (\<lambda>u. may_run_on c (threads s u)) (lcont (queues s) (RunQ p)) = Some t \<and>
     (\<forall>p' u. p < p' \<longrightarrow> p' < 32 \<longrightarrow> u \<in> set (lcont (queues s) (RunQ p')) \<longrightarrow> \<not> may_run_on c (threads s u))"
  using find_concat_dest[OF assms(2)[unfolded top_choice_def]] by (metis find_None_iff)

lemma top_choice_None:
  assumes "top_choice c s = None" "p < 32" "u \<in> set (lcont (queues s) (RunQ p))"
  shows "\<not> may_run_on c (threads s u)"
  using assms unfolding top_choice_def find_None_iff by force

lemma run_queue_lt32: "bitmap_ok s \<Longrightarrow> u \<in> set (lcont (queues s) (RunQ p)) \<Longrightarrow> p < 32"
  unfolding bitmap_ok_def by (metis bit_word32_lt empty_iff list.set(1))

lemma next_thread_prio:
  assumes q: "queue_inv s" and u: "u \<in> set (lcont (queues s) (RunQ p))" "may_run_on c (threads s u)"
  shows "priority (threads s (next_thread c s)) \<ge> int p \<and> next_thread c s \<in> set (lcont (queues s) (RunQ (nat (priority (threads s (next_thread c s))))))"
proof -
  have ok: "ls_ok (queues s)" "\<And>t h. lon (queues s) t = Some h \<Longrightarrow> queued_ok (threads s t) h" and bm: "bitmap_ok s"
    using q by (auto simp: queue_inv_def)
  have "p < 32" by (rule run_queue_lt32[OF bm u(1)])
  then obtain t where t: "top_choice c s = Some t" using top_choice_None[of c s p u] u by blast
  from top_choice_order[OF ok(1) t] obtain k where
    k: "k < 32" "List.find (\<lambda>u. may_run_on c (threads s u)) (lcont (queues s) (RunQ k)) = Some t"
      "\<forall>p' u. k < p' \<longrightarrow> p' < 32 \<longrightarrow> u \<in> set (lcont (queues s) (RunQ p')) \<longrightarrow> \<not> may_run_on c (threads s u)"
    by blast
  from find_mem[OF k(2)] have m: "t \<in> set (lcont (queues s) (RunQ k))" by blast
  then have "priority (threads s t) = int k"
    using ok(2)[of t "RunQ k"] ok(1) by (simp add: ls_ok_mem queued_ok_def)
  moreover have "p \<le> k" using k(3) u \<open>p < 32\<close> by (meson not_le)
  ultimately show ?thesis using t m by (simp add: next_thread_def)
qed

text \<open>
  The current thread of a cpu is put back on its run queue (at the head or at the tail) before a
  reschedule; the idle thread is not queued.
\<close>

definition requeued :: "(tid \<Rightarrow> tid list \<Rightarrow> tid list) \<Rightarrow> tid \<Rightarrow> 'z kstate_scheme \<Rightarrow> 'z kstate_scheme \<Rightarrow> bool" where
  "requeued f t s s' \<longleftrightarrow>
     (if thread_is_idle (threads s t) then s' = set_state t THREAD_READY s
      else ready_at t (f t) (set_state t THREAD_READY s) s')"

lemma requeue_wp:
  assumes inv: "kinv C s" "c \<in> C" and m: "m = insert_in_run_queue_head \<and> f = (\<lambda>t xs. t # xs) \<or>
    m = insert_in_run_queue_tail \<and> f = (\<lambda>t xs. xs @ [t])"
  defines "cur \<equiv> current s c"
  shows "wp (if \<not> thread_is_idle (threads s cur) then m cur (set_state cur THREAD_READY s)
             else Some (set_state cur THREAD_READY s))
    (\<lambda>s'. sched_inv C (C - {c}) {} s' \<and> preempt_inv C s' \<and> requeued f cur s s' \<and> resched_frame s s' \<and>
       current s' = current s)"
proof -
  note cur = kinv_current[OF inv, folded cur_def]
  note si = kinvD[OF inv(1)]
  have oc: "{k \<in> C. current s k \<noteq> cur} = C - {c}"
    unfolding cur_def by (rule other_cpus[OF si(1) inv(2)])
  show ?thesis
  proof (cases "thread_is_idle (threads s cur)")
    case True
    have "sched_inv C (C - {c}) {cur} (set_state cur THREAD_READY s)"
      using set_state_inv[OF si(1) cur(3), of THREAD_READY] oc by simp
    then have "sched_inv C (C - {c}) {} (set_state cur THREAD_READY s)"
      using True by (auto simp: sched_inv_def thread_inv_def thread_is_idle_def)
    with True show ?thesis
      using preempt_inv_frame[OF si(2), of "set_state cur THREAD_READY s"] by (simp add: requeued_def)
  next
    case False
    note mr = make_ready_wp[OF si(1) cur(1) False cur(3), unfolded oc]
    have fin: "sched_inv C (C - {c}) {} s' \<and> preempt_inv C s' \<and> requeued f cur s s' \<and> resched_frame s s' \<and>
       current s' = current s"
      if s': "sched_inv C (C - {c}) ({} - {cur}) s'" "ready_at cur (f cur) (set_state cur THREAD_READY s) s'" for s'
    proof -
      have fr: "resched_frame s s'"
        using ready_at_frame[OF s'(2)] resched_frame_trans[OF set_state_frame] by blast
      have "preempt_inv C s'"
        by (rule preempt_inv_frame[OF si(2)]) (use ready_at_sel[OF s'(2)] ready_at_frame[OF s'(2)] fr in auto)
      with s' fr False ready_at_frame[OF s'(2)] show ?thesis by (simp add: requeued_def)
    qed
    show ?thesis using m
    proof (elim disjE conjE)
      assume "m = insert_in_run_queue_head" "f = (\<lambda>t xs. t # xs)"
      then show ?thesis using False wp_mono[OF mr(1)] fin by simp
    next
      assume "m = insert_in_run_queue_tail" "f = (\<lambda>t xs. xs @ [t])"
      then show ?thesis using False wp_mono[OF mr(2)] fin by simp
    qed
  qed
qed

lemma resched_post_kinv: "resched_post C {} c s (r, s') \<Longrightarrow> kinv C s'"
  by (simp add: resched_post_def kinv_def)

lemma acct_frame_kinv:
  assumes "acct_frame s s'"
  shows "sched_inv C R L s \<Longrightarrow> sched_inv C R L s'" and "preempt_inv C s \<Longrightarrow> preempt_inv C s'"
    and "kinv C s \<Longrightarrow> kinv C s'"
proof -
  show a: "sched_inv C R L s \<Longrightarrow> sched_inv C R L s'"
    by (rule sched_inv_frame_cong[of C R L s]) (use assms in \<open>auto simp: acct_frame_def\<close>)
  show b: "preempt_inv C s \<Longrightarrow> preempt_inv C s'"
    by (rule preempt_inv_frame[of C s]) (use assms in \<open>auto simp: acct_frame_def\<close>)
  show "kinv C s \<Longrightarrow> kinv C s'"
    unfolding kinv_def using sched_inv_frame_cong[of C C "{}" s s'] b assms by (auto simp: acct_frame_def)
qed

lemma acct_frame_mp_reschedule [simp]: "acct_frame s (mp_reschedule c target fl s)"
  by (simp add: acct_frame_def resched_frame_def mp_reschedule_def Let_def)

lemma acct_frame_quantum [simp]: "acct_frame s (upd_thread t (\<lambda>th. th\<lparr>remaining_quantum := f th\<rparr>) s)"
  by (intro acct_frame_intros) simp

text \<open>
  What a function that puts the current thread back and reschedules does: from the state \<open>s0\<close>
  (the caller's state with a field of the current thread changed) through the queueing to the
  reschedule.
\<close>

definition put_back_resched ::
  "(tid \<Rightarrow> tid list \<Rightarrow> tid list) \<Rightarrow> nat set \<Rightarrow> nat \<Rightarrow> 'z kstate_scheme \<Rightarrow> outcome \<times> 'z kstate_scheme \<Rightarrow> bool" where
  "put_back_resched f C c s0 rs \<longleftrightarrow>
     (\<exists>s1. requeued f (current s0 c) s0 s1 \<and> resched_frame s0 s1 \<and> current s1 = current s0 \<and>
           queue_inv s1 \<and> resched_post C {} c s1 rs)"

lemma put_back_resched_wp:
  assumes inv: "kinv C s0" "c \<in> C" and m: "m = insert_in_run_queue_head \<and> f = (\<lambda>t xs. t # xs) \<or>
    m = insert_in_run_queue_tail \<and> f = (\<lambda>t xs. xs @ [t])"
  defines "cur \<equiv> current s0 c"
  shows "wp (if \<not> thread_is_idle (threads s0 cur) then m cur (set_state cur THREAD_READY s0)
             else Some (set_state cur THREAD_READY s0))
           (\<lambda>s1. wp (thread_resched c s1) (put_back_resched f C c s0))"
proof (rule wp_mono[OF requeue_wp[OF inv m, folded cur_def]], elim conjE)
  fix s1 assume s1: "sched_inv C (C - {c}) {} s1" "preempt_inv C s1" "requeued f cur s0 s1"
    "resched_frame s0 s1" "current s1 = current s0"
  have "wp (thread_resched c s1) (resched_post C {} c s1)"
    by (rule thread_resched_wp[OF s1(1) inv(2) s1(2)]) simp
  then show "wp (thread_resched c s1) (put_back_resched f C c s0)"
    by (rule wp_mono) (use s1 in \<open>auto simp: put_back_resched_def cur_def sched_inv_def\<close>)
qed

lemma put_back_kinv: "put_back_resched f C c s0 (r, s') \<Longrightarrow> kinv C s' \<and> resched_frame s0 s'"
  by (auto simp: put_back_resched_def resched_post_def kinv_def intro: resched_frame_trans)

lemma set_state_upd_commute:
  "(\<And>th. (f th)\<lparr>state := st\<rparr> = f (th\<lparr>state := st\<rparr>)) \<Longrightarrow>
   upd_thread t f (set_state t st s) = set_state t st (upd_thread t f s)"
  by (simp add: set_state_def upd_thread_def)

lemma thread_yield_wp:
  assumes "kinv C s" "c \<in> C"
  shows "wp (thread_yield c s) (put_back_resched (\<lambda>t xs. xs @ [t]) C c
           (upd_thread (current s c) (\<lambda>th. th\<lparr>remaining_quantum := 0\<rparr>) s))"
proof -
  let ?s0 = "upd_thread (current s c) (\<lambda>th. th\<lparr>remaining_quantum := 0\<rparr>) s"
  have k: "kinv C ?s0" by (rule acct_frame_kinv(3)[OF _ assms(1)]) simp
  have e: "upd_thread (current s c) (\<lambda>th. th\<lparr>remaining_quantum := 0\<rparr>) (set_state (current s c) THREAD_READY s) =
      set_state (current s c) THREAD_READY ?s0" by (rule set_state_upd_commute) simp
  show ?thesis
    using put_back_resched_wp[OF k assms(2), of insert_in_run_queue_tail "\<lambda>t xs. xs @ [t]"] kinv_current[OF assms]
    by (simp add: thread_yield_def Let_def e thread_is_idle_def cong: if_cong)
qed

lemma thread_preempt_wp:
  assumes "kinv C s" "c \<in> C"
  shows "wp (thread_preempt c s) (put_back_resched
           (if 0 < remaining_quantum (threads s (current s c)) then (\<lambda>t xs. t # xs) else (\<lambda>t xs. xs @ [t])) C c s)"
  using put_back_resched_wp[OF assms, of insert_in_run_queue_tail "\<lambda>t xs. xs @ [t]"]
    put_back_resched_wp[OF assms, of insert_in_run_queue_head "\<lambda>t xs. t # xs"] kinv_current[OF assms]
  by (auto simp add: thread_preempt_def Let_def thread_is_idle_def split: if_splits)

lemma thread_set_priority_wp:
  assumes "kinv C s" "c \<in> C" "\<not> thread_is_idle (threads s (current s c))"
  shows "wp (thread_set_priority c prio s) (put_back_resched (\<lambda>t xs. t # xs) C c
           (upd_thread (current s c) (\<lambda>th. th\<lparr>priority := max 1 (min 31 prio)\<rparr>) s))"
proof -
  let ?s0 = "upd_thread (current s c) (\<lambda>th. th\<lparr>priority := max 1 (min 31 prio)\<rparr>) s"
  note cur = kinv_current[OF assms(1,2)]
  have p: "(if HIGHEST_PRIORITY < (if prio \<le> IDLE_PRIORITY then IDLE_PRIORITY + 1 else prio) then HIGHEST_PRIORITY
      else if prio \<le> IDLE_PRIORITY then IDLE_PRIORITY + 1 else prio) = max 1 (min 31 prio)" by auto
  have q: "queue_inv ?s0" using assms(1) cur(3)
    by (auto simp: kinv_def sched_inv_def queue_inv_def bitmap_ok_def)
  have t: "thread_inv {} ?s0" using assms(1)
    by (auto simp: kinv_def sched_inv_def thread_inv_def thread_is_idle_def)
  have u: "cpu_inv C C ?s0" using assms(1) by (auto simp: kinv_def sched_inv_def cpu_inv_def thread_is_idle_def)
  have r: "preempt_inv C ?s0"
    using assms(1) by (auto simp: kinv_def preempt_inv_def thread_is_real_time_or_idle_def)
  have k: "kinv C ?s0" using q t u r by (simp add: kinv_def sched_inv_def)
  show ?thesis
    using put_back_resched_wp[OF k assms(2), of insert_in_run_queue_head "\<lambda>t xs. t # xs"] assms(3)
    unfolding thread_set_priority_def Let_def p by (simp add: thread_is_idle_def)
qed

lemma thread_block_wp:
  assumes "sched_inv C (C - {c}) {} s" "c \<in> C" "preempt_inv C s" and cur: "th_magic (threads s (current s c)) = THREAD_MAGIC"
    "state (threads s (current s c)) = THREAD_BLOCKED" "\<not> thread_is_idle (threads s (current s c))"
  shows "wp (thread_block c s) (resched_post C {} c s)"
  using thread_resched_wp[OF assms(1-3)] cur by (simp add: thread_block_def Let_def)

lemma running_current:
  assumes "sched_inv C R L s" "k \<in> R"
  shows "state (threads s (current s k)) = THREAD_RUNNING"
  using assms by (simp add: sched_inv_def cpu_inv_def)

lemma thread_unblock_wp:
  assumes inv: "sched_inv C R {t} s" and t: "th_magic (threads s t) = THREAD_MAGIC"
      "state (threads s t) = THREAD_BLOCKED" "\<not> thread_is_idle (threads s t)" "lon (queues s) t = None"
  shows "wp (thread_unblock c t False s) (\<lambda>(r, s'). r = Ret NO_ERROR \<and> sched_inv C R {} s')"
proof -
  have "{k \<in> R. current s k \<noteq> t} = R"
    using running_current[OF inv] t(2) by auto
  then have "wp (insert_in_run_queue_head t (set_state t THREAD_READY s)) (\<lambda>s'. sched_inv C R {} s')"
    using make_ready_wp(1)[OF inv t(1,3,4)] by (auto simp: wp_ex)
  then show ?thesis
    using t by (auto simp: thread_unblock_def Let_def wp_ex intro: acct_frame_kinv(1)[OF acct_frame_mp_reschedule])
qed

lemma thread_timer_tick_inv:
  assumes "kinv C s"
  shows "kinv C (snd (thread_timer_tick c s))"
  using assms acct_frame_kinv(3)[OF acct_frame_quantum, of C s]
  by (simp add: thread_timer_tick_def Let_def)

section \<open>The run queues and the quanta across a context switch\<close>

lemma switch_accounting_quantum:
  "remaining_quantum (threads (switch_accounting c old new s) u) =
     (if u = new \<and> remaining_quantum (threads s u) \<le> 0 then 5 else remaining_quantum (threads s u))"
  by (auto simp: switch_accounting_def Let_def upd_thread_def mp_set_cpu_idle_def mp_set_cpu_busy_def
      mp_set_cpu_realtime_def mp_set_cpu_non_realtime_def)

lemma switch_preempt_timer_threads:
  "wp (switch_preempt_timer c old new s) (\<lambda>s'. threads s' = threads s \<and> queues s' = queues s)"
  if "ls_ok (tqueue s)" "tm_magic (timers s (TM_preempt c)) = TIMER_MAGIC"
     "has_dynamic_timer s \<Longrightarrow> thread_is_real_time_or_idle (threads s old) \<Longrightarrow> \<not> ls_in_list (TM_preempt c) (tqueue s)"
  by (rule wp_mono[OF switch_preempt_wp[OF that, where new = new]]) auto

lemma get_top_thread_queues:
  assumes inv: "sched_inv C R L s" "c \<in> C" and g: "get_top_thread c s = Some (t, s1)"
  shows "lcont (queues s1) (RunQ p) = remove1 (next_thread c s) (lcont (queues s) (RunQ p))" "threads s1 = threads s"
    "t = next_thread c s" "current s1 = current s" "tqueue s1 = tqueue s" "timers s1 = timers s"
    "has_dynamic_timer s1 = has_dynamic_timer s"
proof -
  have q: "ls_ok (queues s)" "bitmap_ok s" and qi: "queue_inv s" using inv by (auto simp: sched_inv_def queue_inv_def)
  have cpu: "cpu_inv C R s" using inv by (simp add: sched_inv_def)
  note g' = g[unfolded get_top_thread_choice[OF q]]
  have "lcont (queues s1) (RunQ p) = remove1 (next_thread c s) (lcont (queues s) (RunQ p)) \<and> threads s1 = threads s \<and>
    t = next_thread c s \<and> current s1 = current s \<and> tqueue s1 = tqueue s \<and> timers s1 = timers s \<and>
    has_dynamic_timer s1 = has_dynamic_timer s"
  proof (cases "top_choice c s")
    case None
    have "idle_threads s c \<notin> set (lcont (queues s) (RunQ p))"
      using qi cpu inv(2) ls_ok_mem[OF q(1), of "idle_threads s c" "RunQ p"] by (auto simp: queue_inv_def queued_ok_def cpu_inv_def)
    with g' None show ?thesis by (auto simp: next_thread_def remove1_idem)
  next
    case (Some u)
    from top_choice_Some[OF q(1) Some] obtain k where k: "lon (queues s) u = Some (RunQ k)" by blast
    from remove_ready_inv[OF inv(1) k] g' Some obtain q' bm where
      e: "t = u" "s1 = s\<lparr>queues := q', run_queue_bitmap := bm\<rparr>"
         "lcont q' = (lcont (queues s))(RunQ k := remove1 u (lcont (queues s) (RunQ k)))" by (auto simp: wp_ex)
    have "u \<notin> set (lcont (queues s) (RunQ p))" if "p \<noteq> k" using k that q(1) by (metis ls_ok_mem option.inject qhead.inject(1))
    then show ?thesis using e Some by (auto simp: next_thread_def remove1_idem)
  qed
  then show "lcont (queues s1) (RunQ p) = remove1 (next_thread c s) (lcont (queues s) (RunQ p))" "threads s1 = threads s"
    "t = next_thread c s" "current s1 = current s" "tqueue s1 = tqueue s" "timers s1 = timers s"
    "has_dynamic_timer s1 = has_dynamic_timer s" by simp_all
qed

lemma thread_resched_detail:
  assumes inv: "sched_inv C (C - {c}) L s" "c \<in> C" "preempt_inv C s" and r: "thread_resched c s = Some (r, s')"
  shows "lcont (queues s') (RunQ p) = remove1 (next_thread c s) (lcont (queues s) (RunQ p))"
    "remaining_quantum (threads s' u) \<le> max 5 (remaining_quantum (threads s u))"
proof -
  from r obtain t s1 where g: "get_top_thread c s = Some (t, s1)" by (auto simp: thread_resched_def bind_eq_Some_conv split: if_splits)
  note d = get_top_thread_queues[OF inv(1,2) g]
  let ?t = "next_thread c s" and ?s2 = "set_state (next_thread c s) THREAD_RUNNING s1"
  let ?s3 = "switch_accounting c (current s c) ?t ?s2"
  have "lcont (queues s') (RunQ p) = remove1 ?t (lcont (queues s) (RunQ p)) \<and>
    remaining_quantum (threads s' u) \<le> max 5 (remaining_quantum (threads s u))"
  proof (cases "?t = current s c")
    case True
    then show ?thesis using r g d by (auto simp: thread_resched_def Let_def set_state_def upd_thread_def split: if_splits)
  next
    case False
    note acc = switch_accounting_frame[of ?s2 c "current s c" ?t, unfolded acct_frame_def]
    have rt: "thread_is_real_time_or_idle (threads ?s3 u) = thread_is_real_time_or_idle (threads s u)" for u
      using acc thread_core_eqD(10)[of "threads ?s3 u" "threads ?s2 u"] d(2) by (simp add: resched_frame_def thread_is_real_time_or_idle_def)
    have "wp (switch_preempt_timer c (current s c) ?t ?s3) (\<lambda>s'. threads s' = threads ?s3 \<and> queues s' = queues ?s3)"
      by (rule switch_preempt_timer_threads) (use acc d inv(2,3) rt in \<open>auto simp: preempt_inv_def resched_frame_def\<close>)
    then obtain s4 where s4: "switch_preempt_timer c (current s c) ?t ?s3 = Some s4" "threads s4 = threads ?s3" "queues s4 = queues ?s3"
      by (auto simp: wp_ex)
    have "s' = s4\<lparr>current := (current s4)(c := ?t)\<rparr>"
      using r g d False s4(1) by (auto simp: thread_resched_def Let_def bind_eq_Some_conv split: if_splits)
    then show ?thesis using s4 acc d by (auto simp: switch_accounting_quantum set_state_def upd_thread_def)
  qed
  then show "lcont (queues s') (RunQ p) = remove1 ?t (lcont (queues s) (RunQ p))"
    "remaining_quantum (threads s' u) \<le> max 5 (remaining_quantum (threads s u))" by simp_all
qed

end
