(* ===== verification/Wait_Queue.thy ===== *)
theory Wait_Queue
  imports Sched_Inv
begin

text \<open>
  The wait queues of \<^verbatim>\<open>kernel/thread.c\<close>: blocking with a timeout, waking one or all waiters,
  destroying a queue, pulling a thread out of its queue, and the timer callback that does so when
  the timeout expires.
\<close>

section \<open>Operations\<close>

text \<open>\<open>wait_queue_init\<close> overwrites the list head; doing so while threads are linked behind it would
  leave their nodes dangling, which the model treats like a panic.\<close>

definition wait_queue_init :: "wqref \<Rightarrow> 'z kstate_scheme \<Rightarrow> 'z kstate_scheme option" where
  "wait_queue_init w s =
     (if ls_is_empty (WaitL w) (queues s)
      then Some (s\<lparr>wqs := (wqs s)(w := \<lparr>wq_magic = WAIT_QUEUE_MAGIC, wq_count = 0\<rparr>)\<rparr>) else None)"

definition wq_add_count :: "wqref \<Rightarrow> int \<Rightarrow> 'z kstate_scheme \<Rightarrow> 'z kstate_scheme" where
  "wq_add_count w d s = s\<lparr>wqs := (wqs s)(w := (wqs s w)\<lparr>wq_count := wq_count (wqs s w) + d\<rparr>)\<rparr>"

text \<open>The end of \<open>wait_queue_block\<close>, run when the thread has been switched back to.\<close>

definition wait_queue_block_end ::
  "nat \<Rightarrow> lk_time \<Rightarrow> 'z kstate_scheme \<Rightarrow> (outcome \<times> 'z kstate_scheme) option" where
  "wait_queue_block_end cpu timeout s =
     (let cur = current s cpu in
      do { s \<leftarrow> (if timeout \<noteq> INFINITE_TIME then timer_cancel cpu (TM_stack cur) s else Some s);
           Some (Ret (wait_queue_block_ret (threads s cur)), s) })"

definition wait_queue_block ::
  "nat \<Rightarrow> wqref \<Rightarrow> lk_time \<Rightarrow> 'z kstate_scheme \<Rightarrow> (outcome \<times> 'z kstate_scheme) option" where
  "wait_queue_block cpu w timeout s =
     (let cur = current s cpu in
      do { DEBUG_ASSERT (wq_magic (wqs s w) = WAIT_QUEUE_MAGIC);
           DEBUG_ASSERT (state (threads s cur) = THREAD_RUNNING);
           if timeout = 0 then Some (Ret ERR_TIMED_OUT, s)
           else do { q \<leftarrow> ls_add_tail (WaitL w) cur (queues s);
                     let s = wq_add_count w 1 (s\<lparr>queues := q\<rparr>);
                         s = set_state cur THREAD_BLOCKED s;
                         s = upd_thread cur (\<lambda>t. t\<lparr>blocking_wait_queue := Some w,
                                                   wait_queue_block_ret := NO_ERROR\<rparr>) s
                     in do { s \<leftarrow> (if timeout \<noteq> INFINITE_TIME
                                  then do { s \<leftarrow> timer_initialize (TM_stack cur) s;
                                            timer_set_oneshot cpu (TM_stack cur) timeout
                                              CB_wait_queue_timeout_handler cur s }
                                  else Some s);
                             os \<leftarrow> thread_resched cpu s;
                             with_frame cur (FR_block timeout)
                               (\<lambda>_. wait_queue_block_end cpu timeout) os } } })"

text \<open>The fields of a thread that is taken off a wait queue.\<close>

definition wake_fields :: "tid \<Rightarrow> int \<Rightarrow> 'z kstate_scheme \<Rightarrow> 'z kstate_scheme" where
  "wake_fields t err s =
     upd_thread t (\<lambda>th. th\<lparr>state := THREAD_READY, wait_queue_block_ret := err,
                            blocking_wait_queue := None\<rparr>) s"

definition wait_queue_wake_one ::
  "nat \<Rightarrow> wqref \<Rightarrow> bool \<Rightarrow> int \<Rightarrow> 'z kstate_scheme \<Rightarrow> (outcome \<times> 'z kstate_scheme) option" where
  "wait_queue_wake_one cpu w resched err s =
     (let cur = current s cpu in
      do { DEBUG_ASSERT (wq_magic (wqs s w) = WAIT_QUEUE_MAGIC);
           (r, q) \<leftarrow> ls_remove_head (WaitL w) (queues s);
           (case r of
              None \<Rightarrow> Some (Ret 0, s\<lparr>queues := q\<rparr>)
            | Some t \<Rightarrow>
                let s = wq_add_count w (- 1) (s\<lparr>queues := q\<rparr>) in
                do { DEBUG_ASSERT (state (threads s t) = THREAD_BLOCKED);
                     let s = wake_fields t err s in
                     do { s \<leftarrow> (if resched then insert_in_run_queue_head cur (set_state cur THREAD_READY s)
                                else Some s);
                          s \<leftarrow> insert_in_run_queue_head t s;
                          let s = mp_reschedule cpu 0xFFFFFFFF 0 s in
                          if resched
                          then do { os \<leftarrow> thread_resched cpu s;
                                    with_frame cur (FR_const 1) (\<lambda>_ s. Some (Ret 1, s)) os }
                          else Some (Ret 1, s) } }) })"

partial_function (option) wake_all_loop ::
  "wqref \<Rightarrow> int \<Rightarrow> int \<Rightarrow> 'z kstate_scheme \<Rightarrow> (int \<times> 'z kstate_scheme) option" where
  "wake_all_loop w err ret s =
     Option.bind (ls_remove_head (WaitL w) (queues s))
       (\<lambda>rq. case fst rq of
          None \<Rightarrow> Some (ret, s\<lparr>queues := snd rq\<rparr>)
        | Some t \<Rightarrow>
            let s = wq_add_count w (- 1) (s\<lparr>queues := snd rq\<rparr>) in
            Option.bind (DEBUG_ASSERT (state (threads s t) = THREAD_BLOCKED))
              (\<lambda>_. Option.bind (insert_in_run_queue_head t (wake_fields t err s))
                     (\<lambda>s. wake_all_loop w err (ret + 1) s)))"

definition wait_queue_wake_all ::
  "nat \<Rightarrow> wqref \<Rightarrow> bool \<Rightarrow> int \<Rightarrow> 'z kstate_scheme \<Rightarrow> (outcome \<times> 'z kstate_scheme) option" where
  "wait_queue_wake_all cpu w resched err s =
     (let cur = current s cpu in
      do { DEBUG_ASSERT (wq_magic (wqs s w) = WAIT_QUEUE_MAGIC);
           s \<leftarrow> (if resched \<and> 0 < wq_count (wqs s w)
                  then insert_in_run_queue_head cur (set_state cur THREAD_READY s) else Some s);
           (ret, s) \<leftarrow> wake_all_loop w err 0 s;
           DEBUG_ASSERT (wq_count (wqs s w) = 0);
           if 0 < ret
           then let s = mp_reschedule cpu 0xFFFFFFFF 0 s in
                if resched
                then do { os \<leftarrow> thread_resched cpu s;
                          with_frame cur (FR_const ret) (\<lambda>_ s. Some (Ret ret, s)) os }
                else Some (Ret ret, s)
           else Some (Ret ret, s) })"

definition wait_queue_clear_magic :: "wqref \<Rightarrow> 'z kstate_scheme \<Rightarrow> (outcome \<times> 'z kstate_scheme) option" where
  "wait_queue_clear_magic w s =
     Some (Ret NO_ERROR, s\<lparr>wqs := (wqs s)(w := (wqs s w)\<lparr>wq_magic := 0\<rparr>)\<rparr>)"

definition wait_queue_destroy ::
  "nat \<Rightarrow> wqref \<Rightarrow> bool \<Rightarrow> 'z kstate_scheme \<Rightarrow> (outcome \<times> 'z kstate_scheme) option" where
  "wait_queue_destroy cpu w resched s =
     do { DEBUG_ASSERT (wq_magic (wqs s w) = WAIT_QUEUE_MAGIC);
          os \<leftarrow> wait_queue_wake_all cpu w resched ERR_OBJECT_DESTROYED s;
          with_frame (current s cpu) (FR_wq_destroy w) (\<lambda>_. wait_queue_clear_magic w) os }"

definition thread_unblock_from_wait_queue ::
  "nat \<Rightarrow> tid \<Rightarrow> int \<Rightarrow> 'z kstate_scheme \<Rightarrow> (int \<times> 'z kstate_scheme) option" where
  "thread_unblock_from_wait_queue cpu t err s =
     do { DEBUG_ASSERT (th_magic (threads s t) = THREAD_MAGIC);
          if state (threads s t) \<noteq> THREAD_BLOCKED then Some (ERR_NOT_BLOCKED, s)
          else do { w \<leftarrow> blocking_wait_queue (threads s t);
                    DEBUG_ASSERT (wq_magic (wqs s w) = WAIT_QUEUE_MAGIC);
                    DEBUG_ASSERT (ls_in_list t (queues s));
                    q \<leftarrow> ls_delete t (queues s);
                    s \<leftarrow> insert_in_run_queue_head t
                           (wake_fields t err (wq_add_count w (- 1) (s\<lparr>queues := q\<rparr>)));
                    Some (NO_ERROR, mp_reschedule cpu 0xFFFFFFFF 0 s) } }"

definition wait_queue_timeout_handler ::
  "nat \<Rightarrow> tid \<Rightarrow> 'z kstate_scheme \<Rightarrow> (handler_return \<times> 'z kstate_scheme) option" where
  "wait_queue_timeout_handler cpu thread s =
     do { DEBUG_ASSERT (th_magic (threads s thread) = THREAD_MAGIC);
          (r, s) \<leftarrow> thread_unblock_from_wait_queue cpu thread ERR_TIMED_OUT s;
          Some (if NO_ERROR \<le> r then INT_RESCHEDULE else INT_NO_RESCHEDULE, s) }"

section \<open>Leaving a wait queue\<close>

lemma wq_add_count_sel [simp]:
  "threads (wq_add_count w d s) = threads s" "queues (wq_add_count w d s) = queues s"
  "run_queue_bitmap (wq_add_count w d s) = run_queue_bitmap s" "current (wq_add_count w d s) = current s"
  "idle_threads (wq_add_count w d s) = idle_threads s" "tqueue (wq_add_count w d s) = tqueue s"
  "timers (wq_add_count w d s) = timers s" "has_dynamic_timer (wq_add_count w d s) = has_dynamic_timer s"
  "kstack (wq_add_count w d s) = kstack s" "hw_timer (wq_add_count w d s) = hw_timer s" "cur_time (wq_add_count w d s) = cur_time s"
  "wqs (wq_add_count w d s) = (wqs s)(w := (wqs s w)\<lparr>wq_count := wq_count (wqs s w) + d\<rparr>)"
  by (simp_all add: wq_add_count_def)

lemma wake_fields_sel [simp]:
  "threads (wake_fields t e s) = (threads s)(t := (threads s t)\<lparr>state := THREAD_READY,
      wait_queue_block_ret := e, blocking_wait_queue := None\<rparr>)"
  "queues (wake_fields t e s) = queues s" "run_queue_bitmap (wake_fields t e s) = run_queue_bitmap s"
  "current (wake_fields t e s) = current s" "idle_threads (wake_fields t e s) = idle_threads s"
  "tqueue (wake_fields t e s) = tqueue s" "timers (wake_fields t e s) = timers s"
  "has_dynamic_timer (wake_fields t e s) = has_dynamic_timer s" "kstack (wake_fields t e s) = kstack s"
  "wqs (wake_fields t e s) = wqs s" "hw_timer (wake_fields t e s) = hw_timer s" "cur_time (wake_fields t e s) = cur_time s"
  by (simp_all add: wake_fields_def)

text \<open>Taking a waiter off its queue keeps the invariant, with the thread on its way to the run queue.\<close>

lemma unlink_waiter_inv:
  assumes inv: "sched_inv C R L s" and w: "lcont (queues s) (WaitL w) = ys @ t # zs"
    and q: "ls_delete t (queues s) = Some q"
  shows "sched_inv C R (insert t L) (wake_fields t err (wq_add_count w (- 1) (s\<lparr>queues := q\<rparr>)))" (is "sched_inv _ _ _ ?s")
    and "lon q t = None" "lcont q = (lcont (queues s))(WaitL w := ys @ zs)" "ls_ok q"
    and "th_magic (threads s t) = THREAD_MAGIC" "\<not> thread_is_idle (threads s t)"
      "state (threads s t) = THREAD_BLOCKED" "wq_magic (wqs s w) = WAIT_QUEUE_MAGIC"
proof -
  have ok: "ls_ok (queues s)" and qo: "\<And>t h. lon (queues s) t = Some h \<Longrightarrow> queued_ok (threads s t) h"
    and wq: "\<And>w. if wq_magic (wqs s w) = WAIT_QUEUE_MAGIC
          then wq_count (wqs s w) = int (length (lcont (queues s) (WaitL w)))
          else lcont (queues s) (WaitL w) = []"
    and bm: "bitmap_ok s"
    using inv by (auto simp: sched_inv_def queue_inv_def)
  note t = ls_ok_split[OF ok w]
  from ls.del_law[OF ok w] q show q': "lcont q = (lcont (queues s))(WaitL w := ys @ zs)" "ls_ok q" by auto
  show th: "th_magic (threads s t) = THREAD_MAGIC" "\<not> thread_is_idle (threads s t)"
      "state (threads s t) = THREAD_BLOCKED"
    using qo[OF t(1)] by (auto simp: queued_ok_def)
  show wm: "wq_magic (wqs s w) = WAIT_QUEUE_MAGIC" using wq[of w] w by (auto split: if_splits)
  have lon: "lon q k = (if k = t then None else lon (queues s) k)" for k
    using q t(1) by (auto simp: ls_delete_def)
  then show "lon q t = None" by simp
  have "queue_inv ?s"
    unfolding queue_inv_def
  proof (intro conjI allI impI)
    show "ls_ok (queues ?s)" using q' by simp
    show "bitmap_ok ?s" using bm q' by (simp add: bitmap_ok_def)
    fix u h assume "lon (queues ?s) u = Some h"
    then show "queued_ok (threads ?s u) h" using lon[of u] qo[of u h] by (auto split: if_splits)
  next
    fix v show "if wq_magic (wqs ?s v) = WAIT_QUEUE_MAGIC
          then wq_count (wqs ?s v) = int (length (lcont (queues ?s) (WaitL v)))
          else lcont (queues ?s) (WaitL v) = []"
      using wq[of v] wm w q'(1) by (cases "v = w") simp_all
  qed
  moreover have "thread_inv (insert t L) ?s"
    using inv lon by (auto simp: sched_inv_def thread_inv_def thread_is_idle_def)
  moreover have "t \<notin> current s ` R" using running_current[OF inv] th(3) by auto
  then have "cpu_inv C R ?s"
    using inv th by (auto simp: sched_inv_def cpu_inv_def thread_is_idle_def)
  ultimately show "sched_inv C R (insert t L) ?s" by (simp add: sched_inv_def)
qed

section \<open>Frames\<close>

text \<open>What no operation of this theory changes: objects outside of the kernel state proper, idle
  threads, thread list, clocks, the fixed fields of threads, and (but for the blocking thread) the
  stack timers.\<close>

definition thread_static :: "thread \<Rightarrow> thread" where
  "thread_static t = (thread_core t)\<lparr>blocking_wait_queue := None, wait_queue_block_ret := 0\<rparr>"

definition base_frame :: "tid set \<Rightarrow> tid set \<Rightarrow> 'z kstate_scheme \<Rightarrow> 'z kstate_scheme \<Rightarrow> bool" where
  "base_frame K T s s' \<longleftrightarrow>
     kstate.more s' = kstate.more s \<and> idle_threads s' = idle_threads s \<and>
     thread_list s' = thread_list s \<and> freed s' = freed s \<and> cur_time s' = cur_time s \<and>
     has_dynamic_timer s' = has_dynamic_timer s \<and>
     (\<forall>t. thread_static (threads s' t) = thread_static (threads s t)) \<and>
     (\<forall>t. t \<notin> K \<longrightarrow> kstack s' t = kstack s t) \<and>
     (\<forall>t. t \<notin> T \<longrightarrow> timers s' (TM_stack t) = timers s (TM_stack t) \<and>
          lon (tqueue s') (TM_stack t) = lon (tqueue s) (TM_stack t))"

lemma thread_static_core: "thread_core a = thread_core b \<Longrightarrow> thread_static a = thread_static b"
  by (simp add: thread_static_def)

lemma base_frame_refl [simp]: "base_frame K T s s"
  by (simp add: base_frame_def)

lemma base_frame_trans: "base_frame K T a b \<Longrightarrow> base_frame K T b c \<Longrightarrow> base_frame K T a c"
  by (simp add: base_frame_def)

lemma base_frame_mono: "base_frame K T a b \<Longrightarrow> K \<subseteq> K' \<Longrightarrow> T \<subseteq> T' \<Longrightarrow> base_frame K' T' a b"
  by (auto simp: base_frame_def)

lemma resched_base_frame: "resched_frame s s' \<Longrightarrow> base_frame K T s s'"
  by (auto simp: resched_frame_def base_frame_def intro: thread_static_core)

lemma ready_at_base_frame: "ready_at t f s s' \<Longrightarrow> base_frame K T s s'"
  using ready_at_frame resched_base_frame by blast

lemma wake_base_frame:
  "base_frame K T s (wake_fields t err (wq_add_count w d (s\<lparr>queues := q\<rparr>)))"
  by (simp add: base_frame_def wake_fields_def wq_add_count_def upd_thread_def thread_static_def thread_core_def)

lemma thread_static_eqD:
  assumes "thread_static a = thread_static b"
  shows "th_magic a = th_magic b" "priority a = priority b" "flags a = flags b" "pinned_cpu a = pinned_cpu b"
    "retcode a = retcode b" "thread_is_idle a = thread_is_idle b"
    "thread_is_real_time_or_idle a = thread_is_real_time_or_idle b"
  using arg_cong[OF assms, of th_magic] arg_cong[OF assms, of priority] arg_cong[OF assms, of flags]
    arg_cong[OF assms, of pinned_cpu] arg_cong[OF assms, of retcode]
  by (simp_all add: thread_static_def thread_core_def thread_is_idle_def thread_is_real_time_or_idle_def)

lemma preempt_inv_base:
  assumes "preempt_inv C s" "base_frame K T s s'" "tqueue s' = tqueue s" "timers s' = timers s" "current s' = current s"
  shows "preempt_inv C s'"
proof -
  have "thread_is_real_time_or_idle (threads s' t) = thread_is_real_time_or_idle (threads s t)" for t
    using assms(2) thread_static_eqD(7)[of "threads s' t" "threads s t"] by (simp add: base_frame_def)
  then show ?thesis using assms by (simp add: preempt_inv_def base_frame_def)
qed

section \<open>Waking\<close>

text \<open>The effect of moving one waiter \<open>t\<close> from the head of \<open>w\<close> to the head of its run queue.\<close>

definition woken :: "wqref \<Rightarrow> int \<Rightarrow> tid \<Rightarrow> 'z kstate_scheme \<Rightarrow> 'z kstate_scheme \<Rightarrow> bool" where
  "woken w err t s s' \<longleftrightarrow>
     base_frame {} {} s s' \<and> tqueue s' = tqueue s \<and> timers s' = timers s \<and> hw_timer s' = hw_timer s \<and>
     current s' = current s \<and>
     (\<forall>v. lcont (queues s') (WaitL v) =
            (if v = w then remove1 t (lcont (queues s) (WaitL w)) else lcont (queues s) (WaitL v))) \<and>
     (\<forall>p. lcont (queues s') (RunQ p) =
            (if p = nat (priority (threads s t)) then t # lcont (queues s) (RunQ p)
             else lcont (queues s) (RunQ p))) \<and>
     threads s' = (threads s)(t := (threads s t)\<lparr>state := THREAD_READY, wait_queue_block_ret := err,
                                                 blocking_wait_queue := None\<rparr>) \<and>
     wqs s' = (wqs s)(w := (wqs s w)\<lparr>wq_count := wq_count (wqs s w) - 1\<rparr>)"

lemma wake_waiter_wp:
  assumes inv: "sched_inv C R L s" and w: "lcont (queues s) (WaitL w) = ys @ t # zs"
    and q: "ls_delete t (queues s) = Some q" and L: "t \<notin> L"
  shows "wp (insert_in_run_queue_head t (wake_fields t err (wq_add_count w (- 1) (s\<lparr>queues := q\<rparr>))))
           (\<lambda>s'. sched_inv C R L s' \<and> woken w err t s s')"
proof -
  let ?s = "wake_fields t err (wq_add_count w (- 1) (s\<lparr>queues := q\<rparr>))"
  note u = unlink_waiter_inv[OF inv w q]
  have n: "t \<notin> set ys" using ls_ok_split[OF _ w] inv by (simp add: sched_inv_def queue_inv_def)
  have Lt: "insert t L - {t} = L" using L by auto
  have "wp (insert_in_run_queue_head t ?s) (\<lambda>s'. sched_inv C R L s' \<and> ready_at t (\<lambda>xs. t # xs) ?s s')"
    using insert_in_run_queue_inv(1)[OF u(1)[of err], of t] u(2,5,6) by (simp add: thread_is_idle_def Lt)
  then show ?thesis
  proof (rule wp_mono)
    fix s' assume s': "sched_inv C R L s' \<and> ready_at t (\<lambda>xs. t # xs) ?s s'"
    then have f: "base_frame {} {} s s'"
      using base_frame_trans[OF wake_base_frame ready_at_base_frame] by blast
    from s' have "woken w err t s s'"
      using f u(3) w n by (auto simp: woken_def ready_at_def)
    with s' show "sched_inv C R L s' \<and> woken w err t s s'" by blast
  qed
qed

lemma ls_remove_head_cases:
  assumes "ls_ok q"
  shows "lcont q h = [] \<Longrightarrow> ls_remove_head h q = Some (None, q)"
    and "lcont q h = t # ts \<Longrightarrow> \<exists>q'. ls_delete t q = Some q' \<and> ls_remove_head h q = Some (Some t, q')"
proof -
  show "lcont q h = [] \<Longrightarrow> ls_remove_head h q = Some (None, q)"
    by (simp add: ls_remove_head_def ls_peek_head_def)
  assume h: "lcont q h = t # ts"
  from ls.del_law[OF assms, of h "[]" t ts] h obtain q' where "ls_delete t q = Some q'" by auto
  with h show "\<exists>q'. ls_delete t q = Some q' \<and> ls_remove_head h q = Some (Some t, q')"
    by (simp add: ls_remove_head_def ls_peek_head_def)
qed

lemma wait_member:
  assumes "sched_inv C R L s" "t \<in> set (lcont (queues s) (WaitL w))"
  shows "th_magic (threads s t) = THREAD_MAGIC" "state (threads s t) = THREAD_BLOCKED"
    "\<not> thread_is_idle (threads s t)" "blocking_wait_queue (threads s t) = Some w"
    "wq_magic (wqs s w) = WAIT_QUEUE_MAGIC" "lon (queues s) t = Some (WaitL w)"
    "wq_count (wqs s w) = int (length (lcont (queues s) (WaitL w)))"
proof -
  have ok: "ls_ok (queues s)" and qo: "\<And>t h. lon (queues s) t = Some h \<Longrightarrow> queued_ok (threads s t) h"
    and wq: "if wq_magic (wqs s w) = WAIT_QUEUE_MAGIC
          then wq_count (wqs s w) = int (length (lcont (queues s) (WaitL w)))
          else lcont (queues s) (WaitL w) = []"
    using assms(1) by (auto simp: sched_inv_def queue_inv_def)
  show l: "lon (queues s) t = Some (WaitL w)" using assms(2) ls_ok_mem[OF ok] by blast
  show "th_magic (threads s t) = THREAD_MAGIC" "state (threads s t) = THREAD_BLOCKED"
    "\<not> thread_is_idle (threads s t)" "blocking_wait_queue (threads s t) = Some w"
    using qo[OF l] by (auto simp: queued_ok_def)
  show "wq_magic (wqs s w) = WAIT_QUEUE_MAGIC"
    "wq_count (wqs s w) = int (length (lcont (queues s) (WaitL w)))"
    using wq assms(2) by (auto split: if_splits)
qed

lemma woken_preempt: "woken w e t s s' \<Longrightarrow> preempt_inv C s \<Longrightarrow> preempt_inv C s'"
  using preempt_inv_base[of C s "{}" "{}" s'] by (simp add: woken_def)

text \<open>Waking one thread without rescheduling.\<close>

lemma wake_one_wp:
  assumes inv: "sched_inv C R L s" and m: "wq_magic (wqs s w) = WAIT_QUEUE_MAGIC"
    and L: "set (lcont (queues s) (WaitL w)) \<inter> L = {}"
  shows "wp (wait_queue_wake_one c w False err s) (\<lambda>(r, s').
     (case lcont (queues s) (WaitL w) of
        [] \<Rightarrow> r = Ret 0 \<and> s' = s
      | t # ts \<Rightarrow> r = Ret 1 \<and> sched_inv C R L s' \<and>
          (\<exists>s1. woken w err t s s1 \<and> s' = mp_reschedule c 0xFFFFFFFF 0 s1)))"
proof -
  have ok: "ls_ok (queues s)" using inv by (simp add: sched_inv_def queue_inv_def)
  show ?thesis
  proof (cases "lcont (queues s) (WaitL w)")
    case Nil
    with ls_remove_head_cases(1)[OF ok Nil] m show ?thesis by (simp add: wait_queue_wake_one_def Let_def)
  next
    case (Cons t ts)
    from ls_remove_head_cases(2)[OF ok Cons] obtain q where
      q: "ls_delete t (queues s) = Some q" "ls_remove_head (WaitL w) (queues s) = Some (Some t, q)" by blast
    have b: "state (threads s t) = THREAD_BLOCKED" using wait_member[OF inv, of t w] Cons by simp
    have "lcont (queues s) (WaitL w) = [] @ t # ts" "t \<notin> L" using Cons L by auto
    from wake_waiter_wp[OF inv this(1) q(1) this(2), of err] show ?thesis
      using m q(2) b Cons
      by (auto simp: wait_queue_wake_one_def Let_def wp_ex intro: acct_frame_kinv(1)[OF acct_frame_mp_reschedule])
  qed
qed

lemma unblock_from_wp:
  assumes inv: "sched_inv C R L s" and m: "th_magic (threads s t) = THREAD_MAGIC"
    and t: "t \<notin> L" "state (threads s t) = THREAD_BLOCKED" "\<not> thread_is_idle (threads s t)"
  shows "wp (thread_unblock_from_wait_queue c t err s) (\<lambda>(r, s'). r = NO_ERROR \<and> sched_inv C R L s' \<and>
     (\<exists>s1 w. blocking_wait_queue (threads s t) = Some w \<and> woken w err t s s1 \<and>
        s' = mp_reschedule c 0xFFFFFFFF 0 s1))"
proof -
  have ok: "ls_ok (queues s)" and qo: "\<And>t h. lon (queues s) t = Some h \<Longrightarrow> queued_ok (threads s t) h"
    using inv by (auto simp: sched_inv_def queue_inv_def)
  have "lon (queues s) t \<noteq> None" using inv m t by (auto simp: sched_inv_def thread_inv_def)
  then obtain h where h: "lon (queues s) t = Some h" by blast
  then obtain w where hw: "h = WaitL w" using qo[OF h] t(2) by (cases h) (auto simp: queued_ok_def)
  have mem: "t \<in> set (lcont (queues s) (WaitL w))" using h hw ls_ok_mem[OF ok] by blast
  then obtain ys zs where yz: "lcont (queues s) (WaitL w) = ys @ t # zs" by (auto dest: split_list)
  from ls.del_law[OF ok yz] obtain q where q: "ls_delete t (queues s) = Some q" by auto
  from wake_waiter_wp[OF inv yz q t(1), of err] wait_member[OF inv mem] show ?thesis
    using t m q
    by (auto simp: thread_unblock_from_wait_queue_def wp_ex ls_in_list_def
        intro: acct_frame_kinv(1)[OF acct_frame_mp_reschedule])
qed

text \<open>The common effect of all wake operations on the waiters \<open>ts\<close> they take off \<open>w\<close>.\<close>

definition wake_post ::
  "tid set \<Rightarrow> wqref \<Rightarrow> int \<Rightarrow> tid list \<Rightarrow> tid list \<Rightarrow> 'z kstate_scheme \<Rightarrow> 'z kstate_scheme \<Rightarrow> bool" where
  "wake_post K w err ts rest s s' \<longleftrightarrow> base_frame K {} s s' \<and>
     (\<forall>v. lcont (queues s') (WaitL v) = (if v = w then rest else lcont (queues s) (WaitL v))) \<and>
     (\<forall>u. blocking_wait_queue (threads s' u) =
            (if u \<in> set ts then None else blocking_wait_queue (threads s u))) \<and>
     (\<forall>u. wait_queue_block_ret (threads s' u) =
            (if u \<in> set ts then err else wait_queue_block_ret (threads s u))) \<and>
     wqs s' = (wqs s)(w := (wqs s w)\<lparr>wq_count := wq_count (wqs s w) - int (length ts)\<rparr>)"

lemma wake_post_refl: "rest = lcont (queues s) (WaitL w) \<Longrightarrow> wake_post K w err [] rest s s"
  by (simp add: wake_post_def)

lemma wake_post_resched:
  assumes "wake_post K w err ts rest s s1" "resched_frame s1 s2"
  shows "wake_post K w err ts rest s s2"
proof -
  note f = assms(2)[unfolded resched_frame_def]
  have "base_frame K {} s1 s2" by (rule resched_base_frame[OF assms(2)])
  then have "base_frame K {} s s2" using assms(1) base_frame_trans by (auto simp: wake_post_def)
  moreover have "blocking_wait_queue (threads s2 u) = blocking_wait_queue (threads s1 u) \<and>
      wait_queue_block_ret (threads s2 u) = wait_queue_block_ret (threads s1 u)" for u
    using f thread_core_eqD(5,6)[of "threads s2 u" "threads s1 u"] by simp
  ultimately show ?thesis using assms(1) f by (simp add: wake_post_def)
qed

lemma woken_wake_post:
  "woken w err t s s' \<Longrightarrow> rest = remove1 t (lcont (queues s) (WaitL w)) \<Longrightarrow> wake_post {} w err [t] rest s s'"
  by (auto simp: woken_def wake_post_def)

lemma wake_post_Cons:
  assumes "woken w err t s s1" "wake_post {} w err ts rest s1 s2"
  shows "wake_post {} w err (t # ts) rest s s2"
proof -
  have "base_frame {} {} s s2" using assms base_frame_trans by (auto simp: woken_def wake_post_def)
  then show ?thesis using assms by (auto simp: woken_def wake_post_def algebra_simps)
qed

lemma wake_post_kstack:
  "wake_post K w err ts rest s s' \<Longrightarrow> t \<in> K \<Longrightarrow> kstack s' = k \<Longrightarrow>
   wake_post K w err ts rest s (s'\<lparr>kstack := k(t := x)\<rparr>)"
  by (auto simp: wake_post_def base_frame_def)

lemma wake_post_mono: "wake_post K w err ts rest s s' \<Longrightarrow> K \<subseteq> K' \<Longrightarrow> wake_post K' w err ts rest s s'"
  using base_frame_mono[of K "{}" s s' K' "{}"] by (auto simp: wake_post_def)

lemma kinv_kstack [simp]: "kinv C (s\<lparr>kstack := k\<rparr>) = kinv C s"
  by (simp add: kinv_def sched_inv_def queue_inv_def bitmap_ok_def thread_inv_def cpu_inv_def preempt_inv_def)

lemma mp_reschedule_frame: "resched_frame s (mp_reschedule c target fl s)"
  using acct_frame_mp_reschedule by (auto simp: acct_frame_def)

lemma acct_frame_trans: "acct_frame a b \<Longrightarrow> acct_frame b c \<Longrightarrow> acct_frame a c"
  using resched_frame_trans by (auto simp: acct_frame_def)

text \<open>Rescheduling at the end of an operation of the current thread, with a frame \<open>FR_const v\<close> left
  behind.\<close>

lemma resched_const_wp:
  assumes s: "sched_inv C (C - {c}) {} s" "c \<in> C" "preempt_inv C s" and cur: "cur = current s c"
    and Q: "\<And>s2. resched_post C {} c s (if next_thread c s = cur then Ret NO_ERROR else Switched, s2) \<Longrightarrow>
      Q (if next_thread c s = cur then (Ret v, s2)
         else (Switched, s2\<lparr>kstack := (kstack s2)(cur := kstack s2 cur @ [FR_const v])\<rparr>))"
  shows "wp (Option.bind (thread_resched c s) (with_frame cur (FR_const v) (\<lambda>_ s. Some (Ret v, s)))) Q"
proof -
  have "wp (thread_resched c s) (resched_post C {} c s)"
    by (rule thread_resched_wp[OF s]) simp
  then show ?thesis unfolding wp_simps
  proof (rule wp_mono)
    fix rs assume rs: "resched_post C {} c s rs"
    then obtain s2 where s2: "rs = (if next_thread c s = cur then Ret NO_ERROR else Switched, s2)"
      using cur by (cases rs) (auto simp: resched_post_def)
    from Q[of s2] rs s2 show "wp (with_frame cur (FR_const v) (\<lambda>_ s. Some (Ret v, s)) rs) Q"
      by (auto simp: with_frame_def split: if_splits)
  qed
qed

text \<open>The current thread goes to the head of its run queue while a waiter is on its way.\<close>

lemma requeue_current_wp:
  assumes inv: "sched_inv C C L s" "c \<in> C" and cur: "cur = current s c" "\<not> thread_is_idle (threads s cur)"
  shows "wp (insert_in_run_queue_head cur (set_state cur THREAD_READY s))
     (\<lambda>s'. sched_inv C (C - {c}) (L - {cur}) s' \<and> ready_at cur (\<lambda>xs. cur # xs) (set_state cur THREAD_READY s) s')"
proof -
  have q: "\<And>t h. lon (queues s) t = Some h \<Longrightarrow> queued_ok (threads s t) h"
    using inv by (auto simp: sched_inv_def queue_inv_def)
  have m: "th_magic (threads s cur) = THREAD_MAGIC" "state (threads s cur) = THREAD_RUNNING"
    using inv cur(1) by (auto simp: sched_inv_def cpu_inv_def)
  have n: "lon (queues s) cur = None"
    using q[of cur] m(2) by (cases "lon (queues s) cur") (auto simp: queued_ok_def split: qhead.splits)
  have oc: "{k \<in> C. current s k \<noteq> cur} = C - {c}" unfolding cur(1) by (rule other_cpus[OF inv])
  show ?thesis using make_ready_wp(1)[OF inv(1) m(1) cur(2) n] unfolding oc .
qed

lemma ready_at_lon:
  assumes "ls_ok (queues s)" "ls_ok (queues s')" "ready_at t (\<lambda>xs. t # xs) s s'" "u \<noteq> t"
  shows "lon (queues s') u = lon (queues s) u"
proof -
  let ?h = "RunQ (nat (priority (threads s t)))"
  have "lcont (queues s') = (lcont (queues s))(?h := t # lcont (queues s) ?h)"
    using assms(3) by (auto simp: ready_at_def)
  from ls_lon_after[OF assms(1,2) this, of u] ls_ok_mem[OF assms(1), of u ?h] assms(4)
  show ?thesis by auto
qed

text \<open>The state of \<open>wait_queue_wake_one\<close> just before it reschedules.\<close>

definition pre_resched_ok ::
  "nat set \<Rightarrow> nat \<Rightarrow> wqref \<Rightarrow> int \<Rightarrow> tid list \<Rightarrow> tid list \<Rightarrow> 'z kstate_scheme \<Rightarrow> 'z kstate_scheme \<Rightarrow> bool" where
  "pre_resched_ok C c w err ts rest s s' \<longleftrightarrow> sched_inv C (C - {c}) {} s' \<and> preempt_inv C s' \<and>
     wake_post {} w err ts rest s s' \<and> current s' = current s"

lemma pre_resched_finish:
  assumes pre: "pre_resched_ok C c w err ts rest s s4" and c: "c \<in> C"
  shows "wp (Option.bind (thread_resched c s4)
              (with_frame (current s c) (FR_const v) (\<lambda>_ s. Some (Ret v, s))))
     (\<lambda>(r, s'). kinv C s' \<and> wake_post {current s c} w err ts rest s s' \<and>
        (if current s' c = current s c then r = Ret v \<and> kstack s' = kstack s
         else r = Switched \<and> kstack s' (current s c) = kstack s (current s c) @ [FR_const v]))"
    (is "wp _ ?Q")
proof (rule resched_const_wp)
  fix s5 assume p: "resched_post C {} c s4 (if next_thread c s4 = current s c then Ret NO_ERROR else Switched, s5)"
  then have fr: "resched_frame s4 s5" and c5: "current s5 c = next_thread c s4" by (auto simp: resched_post_def)
  have wk: "wake_post {} w err ts rest s s5"
    using wake_post_resched[OF _ fr] pre by (auto simp: pre_resched_ok_def)
  then have ks: "kstack s5 = kstack s" by (auto simp: wake_post_def base_frame_def)
  from wk have "wake_post {current s c} w err ts rest s s5" by (rule wake_post_mono) simp
  with resched_post_kinv[OF p] ks c5
  show "?Q (if next_thread c s4 = current s c then (Ret v, s5)
         else (Switched, s5\<lparr>kstack := (kstack s5)(current s c := kstack s5 (current s c) @ [FR_const v])\<rparr>))"
    by (auto intro: wake_post_kstack)
qed (use assms in \<open>auto simp: pre_resched_ok_def\<close>)

text \<open>The run queues when the woken thread \<open>t\<close> and, behind it, the current thread \<open>cur\<close> have been put to the head of
  theirs.\<close>

definition woken_runq :: "'z kstate_scheme \<Rightarrow> tid \<Rightarrow> tid \<Rightarrow> nat \<Rightarrow> tid list" where
  "woken_runq s cur t p = (if nat (priority (threads s t)) = p then [t] else []) @
     (if nat (priority (threads s cur)) = p then [cur] else []) @ lcont (queues s) (RunQ p)"

lemma wake_one_queue_wp:
  assumes inv: "kinv C s" "c \<in> C" and cur: "\<not> thread_is_idle (threads s (current s c))"
    and w: "lcont (queues s) (WaitL w) = t # ts" and q: "ls_delete t (queues s) = Some q"
    and s1_def: "s1 = wake_fields t err (wq_add_count w (- 1) (s\<lparr>queues := q\<rparr>))"
  shows "wp (insert_in_run_queue_head (current s c) (set_state (current s c) THREAD_READY s1))
           (\<lambda>s2. wp (insert_in_run_queue_head t s2)
              (\<lambda>s3. pre_resched_ok C c w err [t] ts s (mp_reschedule c 0xFFFFFFFF 0 s3) \<and>
                (\<forall>p. lcont (queues s3) (RunQ p) = woken_runq s (current s c) t p)))"
proof -
  let ?cur = "current s c"
  note si = kinvD[OF inv(1)]
  have c0: "lcont (queues s) (WaitL w) = [] @ t # ts" using w by simp
  note u = unlink_waiter_inv[OF si(1) c0 q]
  have tc: "t \<noteq> ?cur" using kinv_current[OF inv] u(7) by auto
  have wk: "wake_post {} w err [t] ts s s1"
    using wake_base_frame[of "{}" "{}" s t err w "- 1" q] u(3) by (auto simp: wake_post_def s1_def)
  have "wp (insert_in_run_queue_head ?cur (set_state ?cur THREAD_READY s1)) (\<lambda>s2.
      sched_inv C (C - {c}) {t} s2 \<and> ready_at ?cur (\<lambda>xs. ?cur # xs) (set_state ?cur THREAD_READY s1) s2)"
    using requeue_current_wp[OF u(1)[of err, folded s1_def] inv(2), of ?cur] cur tc
    by (simp add: s1_def thread_is_idle_def)
  then show ?thesis
  proof (rule wp_mono, elim conjE)
    fix s2 assume s2: "sched_inv C (C - {c}) {t} s2"
      "ready_at ?cur (\<lambda>xs. ?cur # xs) (set_state ?cur THREAD_READY s1) s2"
    have fr2: "resched_frame s1 s2"
      using ready_at_frame[OF s2(2)] resched_frame_trans[OF set_state_frame] by blast
    have th2: "threads s2 t = threads s1 t" using ready_at_frame[OF s2(2)] tc by simp
    have "lon (queues s2) t = None"
      using ready_at_lon[OF _ _ s2(2) tc] u(2,4) s2(1) by (simp add: s1_def sched_inv_def queue_inv_def)
    then have "wp (insert_in_run_queue_head t s2)
        (\<lambda>s3. sched_inv C (C - {c}) {} s3 \<and> ready_at t (\<lambda>xs. t # xs) s2 s3)"
      using insert_in_run_queue_inv(1)[OF s2(1), of t] th2 u(5,6) by (simp add: thread_is_idle_def s1_def)
    then show "wp (insert_in_run_queue_head t s2)
        (\<lambda>s3. pre_resched_ok C c w err [t] ts s (mp_reschedule c 0xFFFFFFFF 0 s3) \<and>
           (\<forall>p. lcont (queues s3) (RunQ p) = woken_runq s ?cur t p))"
    proof (rule wp_mono, elim conjE)
      fix s3 assume s3: "sched_inv C (C - {c}) {} s3" "ready_at t (\<lambda>xs. t # xs) s2 s3"
      let ?s4 = "mp_reschedule c 0xFFFFFFFF 0 s3"
      have "resched_frame s1 s3" using fr2 ready_at_frame[OF s3(2)] resched_frame_trans by blast
      then have "resched_frame s1 ?s4"
        by (rule resched_frame_trans[OF _ mp_reschedule_frame])
      then have wk4: "wake_post {} w err [t] ts s ?s4" by (rule wake_post_resched[OF wk])
      have cur4: "tqueue ?s4 = tqueue s" "timers ?s4 = timers s" "current ?s4 = current s"
        using ready_at_frame[OF s3(2)] ready_at_frame[OF s2(2)] ready_at_sel[OF s3(2)] ready_at_sel[OF s2(2)]
        by (auto simp: mp_reschedule_def Let_def s1_def)
      have "preempt_inv C ?s4"
        by (rule preempt_inv_base[OF si(2) conjunct1[OF wk4[unfolded wake_post_def]] cur4])
      with wk4 cur4 acct_frame_kinv(1)[OF acct_frame_mp_reschedule s3(1)]
      have "pre_resched_ok C c w err [t] ts s ?s4" by (simp add: pre_resched_ok_def)
      moreover have "lcont (queues s3) (RunQ p) = woken_runq s ?cur t p" for p
        using ready_at_lcont[OF s3(2), of p] ready_at_lcont[OF s2(2), of p] th2 u(3) tc
        by (auto simp: woken_runq_def s1_def)
      ultimately show "pre_resched_ok C c w err [t] ts s ?s4 \<and>
           (\<forall>p. lcont (queues s3) (RunQ p) = woken_runq s ?cur t p)" by simp
    qed
  qed
qed

lemma wake_one_resched_wp:
  assumes inv: "kinv C s" "c \<in> C" and cur: "\<not> thread_is_idle (threads s (current s c))"
    and m: "wq_magic (wqs s w) = WAIT_QUEUE_MAGIC"
  shows "wp (wait_queue_wake_one c w True err s) (\<lambda>(r, s').
     (case lcont (queues s) (WaitL w) of
        [] \<Rightarrow> r = Ret 0 \<and> s' = s
      | t # ts \<Rightarrow> kinv C s' \<and> wake_post {current s c} w err [t] ts s s' \<and>
          (if current s' c = current s c then r = Ret 1 \<and> kstack s' = kstack s
           else r = Switched \<and> kstack s' (current s c) = kstack s (current s c) @ [FR_const 1])))"
proof -
  have ok: "ls_ok (queues s)" using inv by (simp add: kinv_def sched_inv_def queue_inv_def)
  show ?thesis
  proof (cases "lcont (queues s) (WaitL w)")
    case Nil
    with ls_remove_head_cases(1)[OF ok Nil] m show ?thesis by (simp add: wait_queue_wake_one_def Let_def)
  next
    case (Cons t ts)
    from ls_remove_head_cases(2)[OF ok Cons] obtain q where
      q: "ls_delete t (queues s) = Some q" "ls_remove_head (WaitL w) (queues s) = Some (Some t, q)" by blast
    have b: "state (threads s t) = THREAD_BLOCKED" using wait_member[OF kinvD(1)[OF inv(1)], of t w] Cons by simp
    from wake_one_queue_wp[OF inv cur Cons q(1) refl, of err] obtain s2 s3 where
      s2: "insert_in_run_queue_head (current s c) (set_state (current s c) THREAD_READY
             (wake_fields t err (wq_add_count w (- 1) (s\<lparr>queues := q\<rparr>)))) = Some s2"
        "insert_in_run_queue_head t s2 = Some s3"
        "pre_resched_ok C c w err [t] ts s (mp_reschedule c 0xFFFFFFFF 0 s3)"
      by (auto simp: wp_ex)
    show ?thesis
      using m q(2) b Cons s2(1,2) pre_resched_finish[OF s2(3) inv(2), of 1]
      by (simp add: wait_queue_wake_one_def Let_def)
  qed
qed

text \<open>Which thread runs then, and the run queues it leaves.\<close>

definition woken_choice :: "nat \<Rightarrow> 'z kstate_scheme \<Rightarrow> tid \<Rightarrow> tid \<Rightarrow> tid" where
  "woken_choice c s cur t =
     (case List.find (\<lambda>u. may_run_on c (threads s u)) (concat (map (woken_runq s cur t) (rev [0..<32]))) of
        None \<Rightarrow> idle_threads s c | Some u \<Rightarrow> u)"

lemma wake_one_resched_queues:
  assumes inv: "kinv C s" "c \<in> C" and cur: "\<not> thread_is_idle (threads s (current s c))"
    and m: "wq_magic (wqs s w) = WAIT_QUEUE_MAGIC" and w: "lcont (queues s) (WaitL w) = t # ts"
    and r: "wait_queue_wake_one c w True err s = Some (r, s')"
  shows "current s' = (current s)(c := woken_choice c s (current s c) t)"
    "lcont (queues s') (RunQ p) = remove1 (woken_choice c s (current s c) t) (woken_runq s (current s c) t p)"
    "state (threads s' u) = (if u = woken_choice c s (current s c) t then THREAD_RUNNING
       else if u \<in> {t, current s c} then THREAD_READY else state (threads s u))"
proof -
  let ?cur = "current s c" and ?n = "woken_choice c s (current s c) t"
  have ok: "ls_ok (queues s)" using inv by (simp add: kinv_def sched_inv_def queue_inv_def)
  from ls_remove_head_cases(2)[OF ok w] obtain q where
    q: "ls_delete t (queues s) = Some q" "ls_remove_head (WaitL w) (queues s) = Some (Some t, q)" by blast
  have b: "state (threads s t) = THREAD_BLOCKED" using wait_member[OF kinvD(1)[OF inv(1)], of t w] w by simp
  let ?s1 = "wake_fields t err (wq_add_count w (- 1) (s\<lparr>queues := q\<rparr>))"
  from wake_one_queue_wp[OF inv cur w q(1) refl, of err] obtain s2 s3 where
    s2: "insert_in_run_queue_head ?cur (set_state ?cur THREAD_READY ?s1) = Some s2"
      "insert_in_run_queue_head t s2 = Some s3" and pre: "pre_resched_ok C c w err [t] ts s (mp_reschedule c 0xFFFFFFFF 0 s3)"
      and rq: "\<And>p. lcont (queues s3) (RunQ p) = woken_runq s ?cur t p"
    by (auto simp: wp_ex)
  define s4 where "s4 = mp_reschedule c 0xFFFFFFFF 0 s3"
  note p4 = pre[folded s4_def, unfolded pre_resched_ok_def]
  have q4: "queues s4 = queues s3" by (simp add: s4_def mp_reschedule_def Let_def)
  have th4: "threads s4 = threads (set_state ?cur THREAD_READY ?s1)"
    using s2 by (auto simp: s4_def mp_reschedule_def Let_def insert_in_run_queue_head_def bind_eq_Some_conv)
  have tc: "t \<noteq> ?cur" using kinv_current[OF inv] b by auto
  have "may_run_on c (threads s4 u) = may_run_on c (threads s u)" for u using tc by (simp add: th4 may_run_on_def)
  moreover have "idle_threads s4 = idle_threads s" using p4 by (simp add: wake_post_def base_frame_def)
  ultimately have n: "next_thread c s4 = ?n" by (simp add: next_thread_def woken_choice_def top_choice_def q4 rq split: option.splits)
  have "wp (thread_resched c s4) (resched_post C {} c s4)" by (rule thread_resched_wp) (use p4 inv(2) in auto)
  then obtain r5 s5 where s5: "thread_resched c s4 = Some (r5, s5)" "resched_post C {} c s4 (r5, s5)" by (auto simp: wp_ex)
  have "with_frame ?cur (FR_const 1) (\<lambda>_ s. Some (Ret 1, s)) (r5, s5) = Some (r, s')"
    using r m q(2) b s2 s5(1) by (simp add: wait_queue_wake_one_def Let_def s4_def)
  then have same: "current s' = current s5" "queues s' = queues s5" "threads s' = threads s5"
    by (auto simp: with_frame_def split: outcome.splits)
  show "current s' = (current s)(c := ?n)" using s5(2) p4 by (auto simp: same n resched_post_def)
  show "lcont (queues s') (RunQ p) = remove1 ?n (woken_runq s ?cur t p)"
    using thread_resched_detail(1)[OF _ inv(2) _ s5(1), of "{}"] p4 by (simp add: same n q4 rq)
  show "state (threads s' u) = (if u = ?n then THREAD_RUNNING else if u \<in> {t, ?cur} then THREAD_READY else state (threads s u))"
    using s5(2) by (auto simp: same n resched_post_def th4)
qed

section \<open>Waking all waiters\<close>

text \<open>The waiters are popped in order, each pushed in front of the run queue of its priority.\<close>

definition pushed_all :: "tid list \<Rightarrow> 'z kstate_scheme \<Rightarrow> 'z kstate_scheme \<Rightarrow> bool" where
  "pushed_all ts s s' \<longleftrightarrow>
     (\<forall>p. lcont (queues s') (RunQ p) =
        rev (filter (\<lambda>t. nat (priority (threads s t)) = p) ts) @ lcont (queues s) (RunQ p)) \<and>
     (\<forall>t. state (threads s' t) = (if t \<in> set ts then THREAD_READY else state (threads s t))) \<and>
     tqueue s' = tqueue s \<and> timers s' = timers s \<and> current s' = current s"

lemma wake_all_loop_wp:
  assumes "sched_inv C R L s" "lcont (queues s) (WaitL w) = ts" "set ts \<inter> L = {}"
  shows "wp (wake_all_loop w err ret s) (\<lambda>(r, s'). r = ret + int (length ts) \<and>
     sched_inv C R L s' \<and> wake_post {} w err ts [] s s' \<and> pushed_all ts s s')"
  using assms
proof (induction ts arbitrary: s ret)
  case Nil
  have "ls_ok (queues s)" using Nil(1) by (simp add: sched_inv_def queue_inv_def)
  from ls_remove_head_cases(1)[OF this Nil(2)] Nil show ?case
    by (subst wake_all_loop.simps) (simp add: wake_post_refl pushed_all_def)
next
  case (Cons t ts)
  have ok: "ls_ok (queues s)" using Cons.prems(1) by (simp add: sched_inv_def queue_inv_def)
  from ls_remove_head_cases(2)[OF ok Cons.prems(2)] obtain q where
    q: "ls_delete t (queues s) = Some q" "ls_remove_head (WaitL w) (queues s) = Some (Some t, q)" by blast
  have b: "state (threads s t) = THREAD_BLOCKED"
    using wait_member(2)[OF Cons.prems(1), of t w] Cons.prems(2) by simp
  have d: "distinct (t # ts)" using ls_ok_distinct[OF ok, of "WaitL w"] Cons.prems(2) by simp
  have c0: "lcont (queues s) (WaitL w) = [] @ t # ts" and tL: "t \<notin> L" using Cons.prems by auto
  from wake_waiter_wp[OF Cons.prems(1) c0 q(1) tL, of err] obtain s1 where
    s1: "insert_in_run_queue_head t (wake_fields t err (wq_add_count w (- 1) (s\<lparr>queues := q\<rparr>))) = Some s1"
      "sched_inv C R L s1" "woken w err t s s1" by (auto simp: wp_ex)
  have l1: "lcont (queues s1) (WaitL w) = ts" using s1(3) Cons.prems(2) by (simp add: woken_def)
  have "wp (wake_all_loop w err (ret + 1) s1) (\<lambda>(r, s'). r = ret + 1 + int (length ts) \<and>
     sched_inv C R L s' \<and> wake_post {} w err ts [] s1 s' \<and> pushed_all ts s1 s')"
    by (rule Cons.IH[OF s1(2) l1]) (use Cons.prems(3) in auto)
  then have *: "wp (wake_all_loop w err (ret + 1) s1) (\<lambda>(r, s'). r = ret + int (length (t # ts)) \<and>
     sched_inv C R L s' \<and> wake_post {} w err (t # ts) [] s s' \<and> pushed_all (t # ts) s s')"
  proof (rule wp_mono, clarify)
    fix s' assume s': "wake_post {} w err ts [] s1 s'" "pushed_all ts s1 s'" "sched_inv C R L s'"
    have pr: "priority (threads s1 u) = priority (threads s u)" for u using s1(3) by (simp add: woken_def)
    have "pushed_all (t # ts) s s'"
      using s'(2) s1(3) d by (auto simp: pushed_all_def woken_def pr)
    with wake_post_Cons[OF s1(3) s'(1)] s'(3)
    show "ret + 1 + int (length ts) = ret + int (length (t # ts)) \<and> sched_inv C R L s' \<and>
        wake_post {} w err (t # ts) [] s s' \<and> pushed_all (t # ts) s s'" by simp
  qed
  have "wake_all_loop w err ret s = wake_all_loop w err (ret + 1) s1"
    by (subst wake_all_loop.simps) (simp add: q(2) b s1(1) Let_def)
  with * show ?case by simp
qed

lemma wq_count_length:
  assumes "sched_inv C R L s" "wq_magic (wqs s w) = WAIT_QUEUE_MAGIC"
  shows "wq_count (wqs s w) = int (length (lcont (queues s) (WaitL w)))"
  using assms by (auto simp: sched_inv_def queue_inv_def)

lemma wake_all_wp:
  assumes inv: "sched_inv C R L s" and m: "wq_magic (wqs s w) = WAIT_QUEUE_MAGIC"
    and ts: "lcont (queues s) (WaitL w) = ts" "set ts \<inter> L = {}"
  shows "wp (wait_queue_wake_all c w False err s) (\<lambda>(r, s').
     r = Ret (int (length ts)) \<and> sched_inv C R L s' \<and> wake_post {} w err ts [] s s' \<and> pushed_all ts s s')"
proof -
  have n: "wq_count (wqs s w) = int (length ts)" using wq_count_length[OF inv m] ts by simp
  from wake_all_loop_wp[OF inv ts, of err 0] obtain s1 where
    s1: "wake_all_loop w err 0 s = Some (int (length ts), s1)" "sched_inv C R L s1"
      "wake_post {} w err ts [] s s1" "pushed_all ts s s1" by (auto simp: wp_ex)
  have z: "wq_count (wqs s1 w) = 0" using s1(3) n by (simp add: wake_post_def)
  let ?s2 = "mp_reschedule c 0xFFFFFFFF 0 s1"
  have "sched_inv C R L ?s2" by (rule acct_frame_kinv(1)[OF acct_frame_mp_reschedule s1(2)])
  moreover have "wake_post {} w err ts [] s ?s2" by (rule wake_post_resched[OF s1(3) mp_reschedule_frame])
  moreover have "pushed_all ts s ?s2" using s1(4) by (simp add: pushed_all_def mp_reschedule_def Let_def)
  ultimately show ?thesis
    using s1 z m by (auto simp add: wait_queue_wake_all_def Let_def)
qed

lemma wake_all_resched_wp:
  assumes inv: "kinv C s" "c \<in> C" and cur: "\<not> thread_is_idle (threads s (current s c))"
    and m: "wq_magic (wqs s w) = WAIT_QUEUE_MAGIC" and ts: "lcont (queues s) (WaitL w) = ts"
  shows "wp (wait_queue_wake_all c w True err s) (\<lambda>(r, s').
     if ts = [] then r = Ret 0 \<and> s' = s
     else kinv C s' \<and> wake_post {current s c} w err ts [] s s' \<and>
       (if current s' c = current s c then r = Ret (int (length ts)) \<and> kstack s' = kstack s
        else r = Switched \<and> kstack s' (current s c) = kstack s (current s c) @ [FR_const (int (length ts))]))"
proof (cases "ts = []")
  case True
  note si = kinvD[OF inv(1)]
  have "ls_ok (queues s)" using si by (simp add: sched_inv_def queue_inv_def)
  from ls_remove_head_cases(1)[OF this, of "WaitL w"] True ts
  have "wake_all_loop w err 0 s = Some (0, s)" by (subst wake_all_loop.simps) simp
  with True m wq_count_length[OF si(1) m] ts show ?thesis by (simp add: wait_queue_wake_all_def Let_def)
next
  case False
  let ?cur = "current s c"
  note si = kinvD[OF inv(1)]
  have n: "wq_count (wqs s w) = int (length ts)" using wq_count_length[OF si(1) m] ts by simp
  from requeue_current_wp[OF si(1) inv(2) refl cur] obtain s1 where
    s1: "insert_in_run_queue_head ?cur (set_state ?cur THREAD_READY s) = Some s1"
      "sched_inv C (C - {c}) {} s1" "ready_at ?cur (\<lambda>xs. ?cur # xs) (set_state ?cur THREAD_READY s) s1"
    by (auto simp: wp_ex)
  have fr: "resched_frame s s1"
    using ready_at_frame[OF s1(3)] resched_frame_trans[OF set_state_frame] by blast
  have wt: "lcont (queues s1) (WaitL w) = ts" using fr ts by (simp add: resched_frame_def)
  from wake_all_loop_wp[OF s1(2) wt, of err 0] obtain s2 where
    s2: "wake_all_loop w err 0 s1 = Some (int (length ts), s2)" "sched_inv C (C - {c}) {} s2"
      "wake_post {} w err ts [] s1 s2" "pushed_all ts s1 s2" by (auto simp: wp_ex)
  have w0: "wake_post {} w err [] ts s s1" by (rule wake_post_resched[OF wake_post_refl fr]) (simp add: ts)
  have "base_frame {} {} s s2" using w0 s2(3) base_frame_trans by (auto simp: wake_post_def)
  then have wk: "wake_post {} w err ts [] s s2" using w0 s2(3) by (simp add: wake_post_def)
  let ?s3 = "mp_reschedule c 0xFFFFFFFF 0 s2"
  have wk3: "wake_post {} w err ts [] s ?s3" by (rule wake_post_resched[OF wk mp_reschedule_frame])
  have cur3: "tqueue ?s3 = tqueue s" "timers ?s3 = timers s" "current ?s3 = current s"
    using s2(4) ready_at_frame[OF s1(3)] ready_at_sel[OF s1(3)]
    by (auto simp: mp_reschedule_def Let_def pushed_all_def)
  have "preempt_inv C ?s3"
    by (rule preempt_inv_base[OF si(2) conjunct1[OF wk3[unfolded wake_post_def]] cur3])
  with wk3 cur3 acct_frame_kinv(1)[OF acct_frame_mp_reschedule s2(2)]
  have pre: "pre_resched_ok C c w err ts [] s ?s3" by (simp add: pre_resched_ok_def)
  have z: "wq_count (wqs s2 w) = 0" using wk n by (simp add: wake_post_def)
  show ?thesis
    using m False n s1(1) s2(1) z pre_resched_finish[OF pre inv(2), of "int (length ts)"]
    by (simp add: wait_queue_wake_all_def Let_def)
qed

section \<open>Destroying\<close>

text \<open>Clearing the magic of an empty queue.\<close>

lemma clear_magic_inv:
  assumes "kinv C s" "lcont (queues s) (WaitL w) = []"
  shows "kinv C (s\<lparr>wqs := (wqs s)(w := (wqs s w)\<lparr>wq_magic := 0\<rparr>)\<rparr>)"
  using assms
  by (auto simp: kinv_def sched_inv_def queue_inv_def bitmap_ok_def thread_inv_def cpu_inv_def preempt_inv_def)

lemma wait_queue_init_inv:
  assumes "kinv C s" "lcont (queues s) (WaitL w) = []"
  shows "wp (wait_queue_init w s) (kinv C)"
  using assms
  by (auto simp: wait_queue_init_def ls_is_empty_def kinv_def sched_inv_def queue_inv_def bitmap_ok_def
      thread_inv_def cpu_inv_def preempt_inv_def)

lemma wait_queue_destroy_wp:
  assumes inv: "kinv C s" "c \<in> C" and cur: "\<not> thread_is_idle (threads s (current s c))"
    and m: "wq_magic (wqs s w) = WAIT_QUEUE_MAGIC" and ts: "lcont (queues s) (WaitL w) = ts"
  shows "wp (wait_queue_destroy c w True s) (\<lambda>(r, s'). kinv C s' \<and> lcont (queues s') (WaitL w) = [] \<and>
     (\<forall>t \<in> set ts. wait_queue_block_ret (threads s' t) = ERR_OBJECT_DESTROYED \<and>
                   blocking_wait_queue (threads s' t) = None) \<and>
     (if r = Switched then kstack s' (current s c) =
          kstack s (current s c) @ [FR_const (int (length ts)), FR_wq_destroy w] \<and>
          wq_magic (wqs s' w) = WAIT_QUEUE_MAGIC
      else r = Ret NO_ERROR \<and> wq_magic (wqs s' w) = 0))"
proof -
  from wake_all_resched_wp[OF inv cur m ts, of ERR_OBJECT_DESTROYED] obtain r s1 where
    s1: "wait_queue_wake_all c w True ERR_OBJECT_DESTROYED s = Some (r, s1)"
      "if ts = [] then r = Ret 0 \<and> s1 = s
       else kinv C s1 \<and> wake_post {current s c} w ERR_OBJECT_DESTROYED ts [] s s1 \<and>
         (if current s1 c = current s c then r = Ret (int (length ts)) \<and> kstack s1 = kstack s
          else r = Switched \<and> kstack s1 (current s c) = kstack s (current s c) @ [FR_const (int (length ts))])"
    by (auto simp: wp_ex)
  have k: "kinv C s1" "lcont (queues s1) (WaitL w) = []"
    "\<forall>t \<in> set ts. wait_queue_block_ret (threads s1 t) = ERR_OBJECT_DESTROYED \<and> blocking_wait_queue (threads s1 t) = None"
    "wq_magic (wqs s1 w) = WAIT_QUEUE_MAGIC"
    using s1(2) inv(1) ts m by (auto simp: wake_post_def split: if_splits)
  show ?thesis
  proof (cases r)
    case (Ret v)
    then show ?thesis
      using s1(1) m k clear_magic_inv[OF k(1,2)]
      by (simp add: wait_queue_destroy_def with_frame_def wait_queue_clear_magic_def)
  next
    case Switched
    then have "kstack s1 (current s c) = kstack s (current s c) @ [FR_const (int (length ts))]"
      using s1(2) by (auto split: if_splits)
    with Switched show ?thesis
      using s1(1) m k by (simp add: wait_queue_destroy_def with_frame_def)
  qed
qed

section \<open>Blocking\<close>

text \<open>The current thread linked behind the wait queue and marked blocked.\<close>

definition block_on :: "tid \<Rightarrow> wqref \<Rightarrow> (qhead, tid) lstore \<Rightarrow> 'z kstate_scheme \<Rightarrow> 'z kstate_scheme" where
  "block_on t w q s =
     upd_thread t (\<lambda>th. th\<lparr>blocking_wait_queue := Some w, wait_queue_block_ret := NO_ERROR\<rparr>)
       (set_state t THREAD_BLOCKED (wq_add_count w 1 (s\<lparr>queues := q\<rparr>)))"

lemma block_on_sel [simp]:
  "threads (block_on t w q s) = (threads s)(t := (threads s t)\<lparr>state := THREAD_BLOCKED,
     blocking_wait_queue := Some w, wait_queue_block_ret := NO_ERROR\<rparr>)"
  "queues (block_on t w q s) = q" "run_queue_bitmap (block_on t w q s) = run_queue_bitmap s"
  "current (block_on t w q s) = current s" "idle_threads (block_on t w q s) = idle_threads s"
  "tqueue (block_on t w q s) = tqueue s" "timers (block_on t w q s) = timers s"
  "has_dynamic_timer (block_on t w q s) = has_dynamic_timer s" "kstack (block_on t w q s) = kstack s"
  "cur_time (block_on t w q s) = cur_time s"
  "wqs (block_on t w q s) = (wqs s)(w := (wqs s w)\<lparr>wq_count := wq_count (wqs s w) + 1\<rparr>)"
  by (simp_all add: block_on_def)

lemma block_on_inv:
  assumes inv: "sched_inv C C {} s" "c \<in> C" and cur: "t = current s c" "\<not> thread_is_idle (threads s t)"
    and un: "lon (queues s) t = None" and m: "wq_magic (wqs s w) = WAIT_QUEUE_MAGIC"
    and q: "ls_ok q" "lcont q = (lcont (queues s))(WaitL w := lcont (queues s) (WaitL w) @ [t])"
  shows "sched_inv C (C - {c}) {} (block_on t w q s)" (is "sched_inv _ _ _ ?s")
proof -
  have ok: "ls_ok (queues s)" and qo: "\<And>t h. lon (queues s) t = Some h \<Longrightarrow> queued_ok (threads s t) h"
    and bm: "bitmap_ok s" and wq: "\<And>w. if wq_magic (wqs s w) = WAIT_QUEUE_MAGIC
          then wq_count (wqs s w) = int (length (lcont (queues s) (WaitL w)))
          else lcont (queues s) (WaitL w) = []"
    using inv by (auto simp: sched_inv_def queue_inv_def)
  have tm: "th_magic (threads s t) = THREAD_MAGIC"
    using inv cur by (auto simp: sched_inv_def cpu_inv_def)
  have lon: "lon q k = (if k = t then Some (WaitL w) else lon (queues s) k)" for k
    using ls_lon_after[OF ok q, of k] ls_ok_mem[OF ok, of k "WaitL w"] by auto
  have "queue_inv ?s"
    unfolding queue_inv_def
  proof (intro conjI allI impI)
    show "ls_ok (queues ?s)" using q by simp
    show "bitmap_ok ?s" using bm q by (simp add: bitmap_ok_def)
    fix u h assume "lon (queues ?s) u = Some h"
    then show "queued_ok (threads ?s u) h"
      using lon[of u] qo[of u h] tm cur(2) by (auto simp: queued_ok_def thread_is_idle_def split: if_splits)
  next
    fix v show "if wq_magic (wqs ?s v) = WAIT_QUEUE_MAGIC
          then wq_count (wqs ?s v) = int (length (lcont (queues ?s) (WaitL v)))
          else lcont (queues ?s) (WaitL v) = []"
      using wq[of v] m q(2) by (cases "v = w") simp_all
  qed
  moreover have "thread_inv {} ?s"
    using inv lon by (auto simp: sched_inv_def thread_inv_def thread_is_idle_def)
  moreover have "{k \<in> C. current s k \<noteq> t} = C - {c}" unfolding cur(1) by (rule other_cpus[OF inv])
  then have "cpu_inv C (C - {c}) ?s"
    using inv cur by (auto simp: sched_inv_def cpu_inv_def thread_is_idle_def)
  ultimately show ?thesis by (simp add: sched_inv_def)
qed

text \<open>Arming the stack timer of a thread touches nothing but that timer.\<close>

definition timer_armed :: "nat \<Rightarrow> tid \<Rightarrow> lk_time \<Rightarrow> kcallback \<Rightarrow> 'z kstate_scheme \<Rightarrow> 'z kstate_scheme \<Rightarrow> bool" where
  "timer_armed c t delay cb s s' \<longleftrightarrow>
     s' = s\<lparr>timers := timers s', tqueue := tqueue s', hw_timer := hw_timer s'\<rparr> \<and> ls_ok (tqueue s') \<and>
     timers s' = (timers s)(TM_stack t := \<lparr>tm_magic = TIMER_MAGIC, scheduled_time = cur_time s + delay,
                      periodic_time = 0, callback = Some cb, tm_arg = t\<rparr>) \<and>
     lon (tqueue s') = (lon (tqueue s))(TM_stack t := Some c)"

lemma arm_stack_timer_wp:
  assumes "ls_ok (tqueue s)" "lon (tqueue s) (TM_stack t) = None" "delay \<noteq> 0"
  shows "wp (Option.bind (timer_initialize (TM_stack t) s) (timer_set_oneshot c (TM_stack t) delay cb t))
    (timer_armed c t delay cb s)"
proof -
  let ?s = "s\<lparr>timers := (timers s)(TM_stack t := TIMER_INITIAL_VALUE)\<rparr>"
  have "wp (timer_set c (TM_stack t) delay 0 cb t ?s) (timer_armed c t delay cb s)"
    by (rule wp_mono[OF timer_set_wp])
      (use assms in \<open>auto simp: timer_armed_def ls_in_list_def TIMER_INITIAL_VALUE_def\<close>)
  then show ?thesis using assms by (simp add: timer_initialize_def timer_set_oneshot_def ls_in_list_def)
qed

lemma timer_armed_inv:
  assumes "timer_armed c t delay cb s s'"
  shows "sched_inv C R L s \<Longrightarrow> sched_inv C R L s'" "preempt_inv C s \<Longrightarrow> preempt_inv C s'"
    "base_frame {} {t} s s'" "threads s' = threads s" "queues s' = queues s" "current s' = current s"
    "wqs s' = wqs s" "idle_threads s' = idle_threads s" "kstack s' = kstack s"
proof -
  let ?s = "s\<lparr>timers := timers s', tqueue := tqueue s', hw_timer := hw_timer s'\<rparr>"
  have e: "s' = ?s" and f: "ls_ok (tqueue s')" "lon (tqueue s') = (lon (tqueue s))(TM_stack t := Some c)"
    "\<And>x. x \<noteq> TM_stack t \<Longrightarrow> timers s' x = timers s x"
    using assms by (auto simp: timer_armed_def)
  show sel: "threads s' = threads s" "queues s' = queues s" "current s' = current s"
    "wqs s' = wqs s" "idle_threads s' = idle_threads s" "kstack s' = kstack s"
    by (subst e, simp)+
  have sel2: "run_queue_bitmap s' = run_queue_bitmap s" "has_dynamic_timer s' = has_dynamic_timer s"
    "kstate.more s' = kstate.more s" "thread_list s' = thread_list s" "freed s' = freed s" "cur_time s' = cur_time s"
    by (subst e, simp)+
  show "sched_inv C R L s \<Longrightarrow> sched_inv C R L s'"
    by (rule sched_inv_cong[of C R L s]) (simp_all add: sel sel2 same_sched_def)
  show "preempt_inv C s \<Longrightarrow> preempt_inv C s'"
    using f by (auto simp: preempt_inv_def sel sel2 ls_in_list_def)
  show "base_frame {} {t} s s'" using f by (auto simp: base_frame_def sel sel2)
qed

lemma block_on_base: "base_frame {} {} s (block_on t w q s)"
  by (simp add: base_frame_def block_on_def wq_add_count_def upd_thread_def set_state_def thread_static_def thread_core_def)

lemma thread_resched_blocked:
  assumes "sched_inv C (C - {c}) {} s" "c \<in> C" and t: "state (threads s t) = THREAD_BLOCKED" "\<not> thread_is_idle (threads s t)"
  shows "next_thread c s \<noteq> t"
proof -
  have q: "ls_ok (queues s)" "\<And>t h. lon (queues s) t = Some h \<Longrightarrow> queued_ok (threads s t) h"
    and i: "thread_is_idle (threads s (idle_threads s c))"
    using assms(1,2) by (auto simp: sched_inv_def queue_inv_def cpu_inv_def)
  show ?thesis
  proof (cases "top_choice c s")
    case None
    with i t show ?thesis by (auto simp: next_thread_def)
  next
    case (Some u)
    with top_choice_Some[OF q(1) Some] q(2)[of u] t show ?thesis
      by (auto simp: next_thread_def queued_ok_def)
  qed
qed

text \<open>
  A thread that blocks is appended to the wait queue and switched away from; its timer is armed
  when the timeout is finite.
\<close>

definition blocked_post ::
  "nat set \<Rightarrow> nat \<Rightarrow> wqref \<Rightarrow> lk_time \<Rightarrow> 'z kstate_scheme \<Rightarrow> 'z kstate_scheme \<Rightarrow> bool" where
  "blocked_post C c w timeout s s' \<longleftrightarrow> kinv C s' \<and> base_frame {current s c} {current s c} s s' \<and>
     (let cur = current s c in
      (\<forall>v. lcont (queues s') (WaitL v) =
         (if v = w then lcont (queues s) (WaitL w) @ [cur] else lcont (queues s) (WaitL v))) \<and>
      (\<forall>u. u \<noteq> cur \<longrightarrow> wait_queue_block_ret (threads s' u) = wait_queue_block_ret (threads s u)) \<and>
      wait_queue_block_ret (threads s' cur) = NO_ERROR \<and>
      state (threads s' cur) = THREAD_BLOCKED \<and> current s' c \<noteq> cur \<and>
      (\<forall>k. k \<noteq> c \<longrightarrow> current s' k = current s k) \<and>
      kstack s' cur = kstack s cur @ [FR_block timeout] \<and>
      wqs s' = (wqs s)(w := (wqs s w)\<lparr>wq_count := wq_count (wqs s w) + 1\<rparr>) \<and>
      (if timeout = INFINITE_TIME then timers s' (TM_stack cur) = timers s (TM_stack cur) \<and>
         lon (tqueue s') (TM_stack cur) = lon (tqueue s) (TM_stack cur)
       else lon (tqueue s') (TM_stack cur) = Some c \<and>
         timers s' (TM_stack cur) = \<lparr>tm_magic = TIMER_MAGIC, scheduled_time = cur_time s + timeout,
            periodic_time = 0, callback = Some CB_wait_queue_timeout_handler, tm_arg = cur\<rparr>))"

lemma block_resched_wp:
  assumes inv: "kinv C s" "c \<in> C" and cur: "cur = current s c" "\<not> thread_is_idle (threads s cur)"
    and s2: "sched_inv C (C - {c}) {} s2" "preempt_inv C s2" "base_frame {} {cur} s s2"
      "threads s2 = threads (block_on cur w q s)" "current s2 = current s" "wqs s2 = wqs (block_on cur w q s)"
      "lcont (queues s2) = (lcont (queues s))(WaitL w := lcont (queues s) (WaitL w) @ [cur])"
    and tm: "(if timeout = INFINITE_TIME then timers s2 (TM_stack cur) = timers s (TM_stack cur) \<and>
         lon (tqueue s2) (TM_stack cur) = lon (tqueue s) (TM_stack cur)
       else lon (tqueue s2) (TM_stack cur) = Some c \<and>
         timers s2 (TM_stack cur) = \<lparr>tm_magic = TIMER_MAGIC, scheduled_time = cur_time s + timeout,
            periodic_time = 0, callback = Some CB_wait_queue_timeout_handler, tm_arg = cur\<rparr>)"
  shows "wp (Option.bind (thread_resched c s2) (with_frame cur (FR_block timeout) k))
           (\<lambda>(r, s'). r = Switched \<and> blocked_post C c w timeout s s')"
proof -
  have n: "next_thread c s2 \<noteq> cur"
    by (rule thread_resched_blocked[OF s2(1) inv(2)]) (use s2(4) cur in \<open>simp_all add: thread_is_idle_def\<close>)
  have "wp (thread_resched c s2) (resched_post C {} c s2)"
    by (rule thread_resched_wp[OF s2(1) inv(2) s2(2)]) simp
  then show ?thesis unfolding wp_simps
  proof (rule wp_mono)
    fix rs assume p: "resched_post C {} c s2 rs"
    then obtain s3 where s3: "rs = (Switched, s3)" using n s2(5) cur(1) by (cases rs) (auto simp: resched_post_def)
    with p have fr: "resched_frame s2 s3" and c3: "current s3 = (current s)(c := next_thread c s2)"
      and st: "\<And>t. state (threads s3 t) = (if t = next_thread c s2 then THREAD_RUNNING else state (threads s2 t))"
      and k3: "kinv C s3"
      using s2(5) by (auto simp: resched_post_def kinv_def)
    have ret: "wait_queue_block_ret (threads s3 u) = wait_queue_block_ret (threads s2 u)" for u
      using fr thread_core_eqD(6)[of "threads s3 u" "threads s2 u"] by (simp add: resched_frame_def)
    have b3: "base_frame {} {cur} s s3" by (rule base_frame_trans[OF s2(3) resched_base_frame[OF fr]])
    let ?s4 = "s3\<lparr>kstack := (kstack s3)(cur := kstack s3 cur @ [FR_block timeout])\<rparr>"
    have b4: "base_frame {cur} {cur} s ?s4" using b3 by (auto simp: base_frame_def)
    have ks: "kstack s3 cur = kstack s cur" using b3 by (simp add: base_frame_def)
    have "blocked_post C c w timeout s ?s4"
      using k3 b4 fr c3 st[of cur] n s2(4,6,7) ret tm ks
      unfolding blocked_post_def Let_def cur(1)[symmetric]
      by (auto simp: resched_frame_def)
    with s3 show "wp (with_frame cur (FR_block timeout) k rs) (\<lambda>(r, s'). r = Switched \<and> blocked_post C c w timeout s s')"
      by (simp add: with_frame_def)
  qed
qed

lemma wait_queue_block_wp:
  assumes inv: "kinv C s" "c \<in> C" and cur: "\<not> thread_is_idle (threads s (current s c))"
    and m: "wq_magic (wqs s w) = WAIT_QUEUE_MAGIC" and t: "timeout \<noteq> 0"
    and un: "timeout \<noteq> INFINITE_TIME \<Longrightarrow> lon (tqueue s) (TM_stack (current s c)) = None"
  shows "wp (wait_queue_block c w timeout s) (\<lambda>(r, s'). r = Switched \<and> blocked_post C c w timeout s s')"
proof -
  let ?cur = "current s c"
  note si = kinvD[OF inv(1)] and kc = kinv_current[OF inv]
  have ok: "ls_ok (queues s)" using si by (simp add: sched_inv_def queue_inv_def)
  have "\<not> ls_in_list ?cur (queues s)" using kc(3) by (simp add: ls_in_list_def)
  from ls.add_tail_law[OF ok _ _ this, of "WaitL w"] obtain q where
    q: "ls_add_tail (WaitL w) ?cur (queues s) = Some q" "ls_ok q"
      "lcont q = (lcont (queues s))(WaitL w := lcont (queues s) (WaitL w) @ [?cur])" by auto
  let ?s1 = "block_on ?cur w q s"
  have i1: "sched_inv C (C - {c}) {} ?s1"
    by (rule block_on_inv[OF si(1) inv(2) refl cur kc(3) m q(2,3)])
  have p1: "preempt_inv C ?s1"
    by (rule preempt_inv_base[OF si(2) block_on_base]) simp_all
  have eq: "upd_thread ?cur (\<lambda>t. t\<lparr>blocking_wait_queue := Some w, wait_queue_block_ret := NO_ERROR\<rparr>)
      (set_state ?cur THREAD_BLOCKED (wq_add_count w 1 (s\<lparr>queues := q\<rparr>))) = ?s1"
    by (simp add: block_on_def)
  show ?thesis
  proof (cases "timeout = INFINITE_TIME")
    case True
    have "base_frame {} {?cur} s ?s1" using block_on_base by (rule base_frame_mono) simp_all
    from block_resched_wp[OF inv refl cur i1 p1 this, of w q timeout] True q(3) show ?thesis
      using m kc(2) t q(1) by (simp add: wait_queue_block_def Let_def eq)
  next
    case False
    have "wp (Option.bind (timer_initialize (TM_stack ?cur) ?s1) (timer_set_oneshot c (TM_stack ?cur) timeout
          CB_wait_queue_timeout_handler ?cur)) (timer_armed c ?cur timeout CB_wait_queue_timeout_handler ?s1)"
      by (rule arm_stack_timer_wp) (use si(2) un t False in \<open>simp_all add: preempt_inv_def\<close>)
    then obtain s0 s2 where s2: "timer_initialize (TM_stack ?cur) ?s1 = Some s0"
        "timer_set_oneshot c (TM_stack ?cur) timeout CB_wait_queue_timeout_handler ?cur s0 = Some s2"
        "timer_armed c ?cur timeout CB_wait_queue_timeout_handler ?s1 s2"
      by (auto simp: wp_ex bind_eq_Some_conv)
    note ta = timer_armed_inv[OF s2(3)]
    have "base_frame {} {?cur} s s2"
      using base_frame_trans[OF base_frame_mono[OF block_on_base] ta(3)] by auto
    from block_resched_wp[OF inv refl cur ta(1)[OF i1] ta(2)[OF p1] this, of w q timeout] show ?thesis
      using m kc(2) t q(1,3) False ta(4-9) s2 by (simp add: wait_queue_block_def Let_def eq timer_armed_def)
  qed
qed

end
