(* ===== verification/Thread_Life.thy ===== *)
theory Thread_Life
  imports Wait_Queue
begin

text \<open>
  The life of a thread in \<^verbatim>\<open>kernel/thread.c\<close>: creation, resumption, sleeping, exit, join and
  detach, and the boot path that sets up the idle threads.

  What \<open>malloc\<close> returns is an argument (\<open>None\<close> is \<open>NULL\<close>); addresses handed to \<open>free\<close> or
  \<open>heap_delayed_free\<close> are appended to \<open>freed\<close>. The kernel is built without the stack bounds and
  high water checks. \<open>int_mem\<close> is the memory behind the \<open>int *retcode\<close> of \<open>thread_join\<close>.
\<close>

section \<open>Creation\<close>

abbreviation (input) MAX_TLS_ENTRY :: nat where "MAX_TLS_ENTRY \<equiv> 2"

text \<open>\<open>strlcpy\<close> into the 32 bytes of \<open>name\<close>: at most 31 characters.\<close>

definition set_name :: "string \<Rightarrow> thread \<Rightarrow> thread" where
  "set_name n t = t\<lparr>th_name := take 31 n\<rparr>"

definition zero_thread :: thread where
  "zero_thread =
     \<lparr>th_magic = 0, priority = 0, state = THREAD_SUSPENDED, remaining_quantum = 0, flags = 0,
      curr_cpu = 0, pinned_cpu = 0, last_started_running_us = 0, runtime_us = 0,
      blocking_wait_queue = None, wait_queue_block_ret = 0, stack = 0, stack_size = 0, entry = 0,
      th_arg = 0, retcode = 0, tls = replicate MAX_TLS_ENTRY 0, th_name = []\<rparr>"

text \<open>
  The \<open>memset\<close> of \<open>init_thread_struct\<close> also clears the list nodes and the wait queue of the
  structure; doing so to a thread that is linked somewhere or has joiners breaks those lists.
\<close>

definition init_thread_struct :: "tid \<Rightarrow> string \<Rightarrow> 'z kstate_scheme \<Rightarrow> 'z kstate_scheme option" where
  "init_thread_struct t name s =
     (if ls_in_list t (queues s) \<or> t \<in> set (thread_list s) \<or>
         \<not> ls_is_empty (WaitL (WQ_retcode t)) (queues s) then None
      else Some (s\<lparr>threads := (threads s)(t :=
                     set_name name (zero_thread\<lparr>th_magic := THREAD_MAGIC, pinned_cpu := - 1\<rparr>)),
                   kstack := (kstack s)(t := [])\<rparr>))"

definition thread_create_etc ::
  "nat \<Rightarrow> tid option \<Rightarrow> string \<Rightarrow> nat \<Rightarrow> nat \<Rightarrow> int \<Rightarrow> nat option \<Rightarrow> nat \<Rightarrow> tid option \<Rightarrow> nat option \<Rightarrow>
   'z kstate_scheme \<Rightarrow> (tid option \<times> 'z kstate_scheme) option" where
  "thread_create_etc cpu t0 name en arg prio stk ssz malloc_t malloc_stk s =
     (case (case t0 of Some t \<Rightarrow> Some (t, 0) | None \<Rightarrow> map_option (\<lambda>t. (t, THREAD_FLAG_FREE_STRUCT)) malloc_t) of
        None \<Rightarrow> Some (None, s)
      | Some (t, fl) \<Rightarrow>
          do { s \<leftarrow> init_thread_struct t name s;
               let s = upd_thread t (\<lambda>th. th\<lparr>entry := en, th_arg := arg, priority := prio,
                         state := THREAD_SUSPENDED, blocking_wait_queue := None,
                         wait_queue_block_ret := NO_ERROR, curr_cpu := - 1, retcode := 0\<rparr>) s
               in do { s \<leftarrow> wait_queue_init (WQ_retcode t) s;
                       (case (case stk of Some a \<Rightarrow> Some (a, fl)
                              | None \<Rightarrow> map_option (\<lambda>a. (a, fl OR THREAD_FLAG_FREE_STACK)) malloc_stk) of
                          None \<Rightarrow> Some (None, if fl AND THREAD_FLAG_FREE_STRUCT \<noteq> 0
                                              then s\<lparr>freed := freed s @ [t]\<rparr> else s)
                        | Some (a, fl) \<Rightarrow>
                            let s = upd_thread t (\<lambda>th. th\<lparr>stack := a, stack_size := ssz, flags := fl,
                                      tls := tls (threads s (current s cpu))\<rparr>) s
                            in Some (Some t, s\<lparr>thread_list := t # thread_list s\<rparr>)) } })"

definition thread_create ::
  "nat \<Rightarrow> string \<Rightarrow> nat \<Rightarrow> nat \<Rightarrow> int \<Rightarrow> nat \<Rightarrow> tid option \<Rightarrow> nat option \<Rightarrow>
   'z kstate_scheme \<Rightarrow> (tid option \<times> 'z kstate_scheme) option" where
  "thread_create cpu name en arg prio ssz = thread_create_etc cpu None name en arg prio None ssz"

section \<open>Resume, detach, join, exit\<close>

text \<open>The part of \<open>thread_resume\<close> under the lock; the flag says whether to yield afterwards.\<close>

definition thread_resume_locked ::
  "nat \<Rightarrow> tid \<Rightarrow> bool \<Rightarrow> 'z kstate_scheme \<Rightarrow> (bool \<times> 'z kstate_scheme) option" where
  "thread_resume_locked cpu t ints_disabled s =
     do { DEBUG_ASSERT (th_magic (threads s t) = THREAD_MAGIC);
          DEBUG_ASSERT (state (threads s t) \<noteq> THREAD_DEATH);
          (resched, s) \<leftarrow>
             (if state (threads s t) = THREAD_SUSPENDED
              then do { s \<leftarrow> insert_in_run_queue_head t (set_state t THREAD_READY s);
                        Some (\<not> ints_disabled, s) }
              else Some (False, s));
          Some (resched, mp_reschedule cpu 0xFFFFFFFF 0 s) }"

definition thread_resume ::
  "nat \<Rightarrow> tid \<Rightarrow> bool \<Rightarrow> 'z kstate_scheme \<Rightarrow> (outcome \<times> 'z kstate_scheme) option" where
  "thread_resume cpu t ints_disabled s =
     do { (resched, s) \<leftarrow> thread_resume_locked cpu t ints_disabled s;
          if resched
          then do { os \<leftarrow> thread_yield cpu s;
                    with_frame (current s cpu) (FR_const NO_ERROR) (\<lambda>_ s. Some (Ret NO_ERROR, s)) os }
          else Some (Ret NO_ERROR, s) }"

text \<open>The end of \<open>thread_join\<close>, once the thread is dead.\<close>

definition thread_join_end :: "tid \<Rightarrow> nat option \<Rightarrow> 'z kstate_scheme \<Rightarrow> (outcome \<times> 'z kstate_scheme) option" where
  "thread_join_end t retp s =
     do { DEBUG_ASSERT (th_magic (threads s t) = THREAD_MAGIC);
          DEBUG_ASSERT (state (threads s t) = THREAD_DEATH);
          DEBUG_ASSERT (blocking_wait_queue (threads s t) = None);
          DEBUG_ASSERT (\<not> ls_in_list t (queues s));
          let th = threads s t;
              s = (case retp of Some a \<Rightarrow> s\<lparr>int_mem := (int_mem s)(a := retcode th)\<rparr> | None \<Rightarrow> s)
          in if t \<notin> set (thread_list s) then None
             else
               let s = upd_thread t (\<lambda>th. th\<lparr>th_magic := 0\<rparr>) (s\<lparr>thread_list := remove1 t (thread_list s)\<rparr>);
                   s = (if flags th AND THREAD_FLAG_FREE_STACK \<noteq> 0 \<and> stack th \<noteq> 0
                        then s\<lparr>freed := freed s @ [stack th]\<rparr> else s);
                   s = (if flags th AND THREAD_FLAG_FREE_STRUCT \<noteq> 0 then s\<lparr>freed := freed s @ [t]\<rparr> else s)
               in Some (Ret NO_ERROR, s) }"

definition thread_join ::
  "nat \<Rightarrow> tid \<Rightarrow> nat option \<Rightarrow> lk_time \<Rightarrow> 'z kstate_scheme \<Rightarrow> (outcome \<times> 'z kstate_scheme) option" where
  "thread_join cpu t retp timeout s =
     do { DEBUG_ASSERT (th_magic (threads s t) = THREAD_MAGIC);
          if flags (threads s t) AND THREAD_FLAG_DETACHED \<noteq> 0 then Some (Ret ERR_THREAD_DETACHED, s)
          else if state (threads s t) \<noteq> THREAD_DEATH
          then do { os \<leftarrow> wait_queue_block cpu (WQ_retcode t) timeout s;
                    with_frame (current s cpu) (FR_thread_join t retp)
                      (\<lambda>err s. if err < 0 then Some (Ret err, s) else thread_join_end t retp s) os }
          else thread_join_end t retp s }"

definition thread_detach :: "nat \<Rightarrow> tid \<Rightarrow> 'z kstate_scheme \<Rightarrow> (outcome \<times> 'z kstate_scheme) option" where
  "thread_detach cpu t s =
     do { DEBUG_ASSERT (th_magic (threads s t) = THREAD_MAGIC);
          (_, s) \<leftarrow> wait_queue_wake_all cpu (WQ_retcode t) False ERR_THREAD_DETACHED s;
          if state (threads s t) = THREAD_DEATH
          then thread_join cpu t None 0
                 (upd_thread t (\<lambda>th. th\<lparr>flags := flags th AND NOT THREAD_FLAG_DETACHED\<rparr>) s)
          else Some (Ret NO_ERROR,
                 upd_thread t (\<lambda>th. th\<lparr>flags := flags th OR THREAD_FLAG_DETACHED\<rparr>) s) }"

definition thread_detach_and_resume ::
  "nat \<Rightarrow> tid \<Rightarrow> bool \<Rightarrow> 'z kstate_scheme \<Rightarrow> (outcome \<times> 'z kstate_scheme) option" where
  "thread_detach_and_resume cpu t ints_disabled s =
     do { (r, s) \<leftarrow> thread_detach cpu t s;
          (case r of
             Ret err \<Rightarrow> if err < 0 then Some (Ret err, s) else thread_resume cpu t ints_disabled s
           | Switched \<Rightarrow> None) }"

text \<open>The teardown of a detached thread; \<open>th\<close> is its structure on entry.\<close>

definition thread_exit_detached :: "tid \<Rightarrow> thread \<Rightarrow> 'z kstate_scheme \<Rightarrow> 'z kstate_scheme" where
  "thread_exit_detached cur th s =
     (let s = upd_thread cur (\<lambda>th. th\<lparr>th_magic := 0\<rparr>) (s\<lparr>thread_list := remove1 cur (thread_list s)\<rparr>);
          s = (if flags th AND THREAD_FLAG_FREE_STACK \<noteq> 0 \<and> stack th \<noteq> 0
               then upd_thread cur (\<lambda>th. th\<lparr>flags := flags th AND NOT THREAD_FLAG_DEBUG_STACK_BOUNDS_CHECK\<rparr>)
                      (s\<lparr>freed := freed s @ [stack th]\<rparr>)
               else s)
      in if flags th AND THREAD_FLAG_FREE_STRUCT \<noteq> 0 then s\<lparr>freed := freed s @ [cur]\<rparr> else s)"

definition thread_exit :: "nat \<Rightarrow> int \<Rightarrow> 'z kstate_scheme \<Rightarrow> (outcome \<times> 'z kstate_scheme) option" where
  "thread_exit cpu rc s =
     (let cur = current s cpu in
      do { DEBUG_ASSERT (th_magic (threads s cur) = THREAD_MAGIC);
           DEBUG_ASSERT (state (threads s cur) = THREAD_RUNNING);
           DEBUG_ASSERT (\<not> thread_is_idle (threads s cur));
           let s = upd_thread cur (\<lambda>th. th\<lparr>state := THREAD_DEATH, retcode := rc\<rparr>) s;
               th = threads s cur
           in do { s \<leftarrow>
                     (if flags th AND THREAD_FLAG_DETACHED \<noteq> 0
                      then if cur \<notin> set (thread_list s) then None else Some (thread_exit_detached cur th s)
                      else do { (_, s) \<leftarrow> wait_queue_wake_all cpu (WQ_retcode cur) False 0 s; Some s });
                   (r, s) \<leftarrow> thread_resched cpu s;
                   (case r of Switched \<Rightarrow> Some (Switched, s) | Ret _ \<Rightarrow> None) } })"

section \<open>Sleeping\<close>

definition thread_sleep :: "nat \<Rightarrow> lk_time \<Rightarrow> 'z kstate_scheme \<Rightarrow> (outcome \<times> 'z kstate_scheme) option" where
  "thread_sleep cpu delay s =
     (let cur = current s cpu in
      do { DEBUG_ASSERT (th_magic (threads s cur) = THREAD_MAGIC);
           DEBUG_ASSERT (state (threads s cur) = THREAD_RUNNING);
           DEBUG_ASSERT (\<not> thread_is_idle (threads s cur));
           s \<leftarrow> timer_initialize (TM_stack cur) s;
           s \<leftarrow> timer_set_oneshot cpu (TM_stack cur) delay CB_thread_sleep_handler cur s;
           os \<leftarrow> thread_resched cpu (set_state cur THREAD_SLEEPING s);
           with_frame cur (FR_const NO_ERROR) (\<lambda>_ s. Some (Ret NO_ERROR, s)) os })"

definition thread_sleep_handler :: "tid \<Rightarrow> 'z kstate_scheme \<Rightarrow> (handler_return \<times> 'z kstate_scheme) option" where
  "thread_sleep_handler t s =
     do { DEBUG_ASSERT (th_magic (threads s t) = THREAD_MAGIC);
          DEBUG_ASSERT (state (threads s t) = THREAD_SLEEPING);
          s \<leftarrow> insert_in_run_queue_head t (set_state t THREAD_READY s);
          Some (INT_RESCHEDULE, s) }"

section \<open>Boot\<close>

text \<open>\<open>list_initialize\<close> on every run queue.\<close>

definition clear_run_queues :: "(qhead, tid) lstore \<Rightarrow> (qhead, tid) lstore" where
  "clear_run_queues q =
     \<lparr>lcont = (\<lambda>h. case h of RunQ p \<Rightarrow> if p < 32 then [] else lcont q h | WaitL w \<Rightarrow> lcont q h),
      lon = (\<lambda>t. case lon q t of
                    Some (RunQ p) \<Rightarrow> if p < 32 then None else lon q t
                  | _ \<Rightarrow> lon q t)\<rparr>"

definition thread_init_early :: "'z kstate_scheme \<Rightarrow> 'z kstate_scheme option" where
  "thread_init_early s =
     (let s = s\<lparr>queues := clear_run_queues (queues s), thread_list := []\<rparr>;
          t = idle_threads s 0
      in do { s \<leftarrow> init_thread_struct t ''bootstrap'' s;
              let s = upd_thread t (\<lambda>th. th\<lparr>priority := HIGHEST_PRIORITY, state := THREAD_RUNNING,
                        flags := THREAD_FLAG_DETACHED, curr_cpu := 0, pinned_cpu := 0\<rparr>) s
              in do { s \<leftarrow> wait_queue_init (WQ_retcode t) s;
                      Some (s\<lparr>thread_list := t # thread_list s, current := (current s)(0 := t)\<rparr>) } })"

fun thread_init_timers :: "nat \<Rightarrow> 'z kstate_scheme \<Rightarrow> 'z kstate_scheme option" where
  "thread_init_timers 0 s = Some s"
| "thread_init_timers (Suc i) s = Option.bind (thread_init_timers i s) (timer_initialize (TM_preempt i))"

definition thread_init :: "nat \<Rightarrow> 'z kstate_scheme \<Rightarrow> 'z kstate_scheme option" where
  "thread_init SMP_MAX_CPUS s = (if has_dynamic_timer s then thread_init_timers SMP_MAX_CPUS s else Some s)"

definition thread_set_name :: "nat \<Rightarrow> string \<Rightarrow> 'z kstate_scheme \<Rightarrow> 'z kstate_scheme" where
  "thread_set_name cpu n s = upd_thread (current s cpu) (set_name n) s"

fun dec_string :: "nat \<Rightarrow> string" where
  "dec_string n = (if n < 10 then [char_of (48 + n)] else dec_string (n div 10) @ [char_of (48 + n mod 10)])"

text \<open>\<open>snprintf(name, 16, "idle %d", cpu)\<close>.\<close>

definition idle_name :: "nat \<Rightarrow> string" where
  "idle_name cpu = take 15 (''idle '' @ dec_string cpu)"

definition thread_become_idle :: "nat \<Rightarrow> 'z kstate_scheme \<Rightarrow> (outcome \<times> 'z kstate_scheme) option" where
  "thread_become_idle cpu s =
     (let s = thread_set_name cpu (idle_name cpu) s;
          s = upd_thread (current s cpu) (\<lambda>th. th\<lparr>priority := IDLE_PRIORITY,
                flags := flags th OR THREAD_FLAG_IDLE, pinned_cpu := int cpu\<rparr>) s
      in thread_yield cpu (mp_set_cpu_idle cpu (mp_set_curr_cpu_active cpu True s)))"

definition thread_secondary_cpu_init_early :: "nat \<Rightarrow> 'z kstate_scheme \<Rightarrow> 'z kstate_scheme option" where
  "thread_secondary_cpu_init_early cpu s =
     (let t = idle_threads s cpu in
      do { s \<leftarrow> init_thread_struct t (idle_name cpu) s;
           let s = upd_thread t (\<lambda>th. th\<lparr>priority := HIGHEST_PRIORITY, state := THREAD_RUNNING,
                     flags := THREAD_FLAG_DETACHED OR THREAD_FLAG_IDLE, curr_cpu := int cpu,
                     pinned_cpu := int cpu\<rparr>) s
           in do { s \<leftarrow> wait_queue_init (WQ_retcode t) s;
                   Some (s\<lparr>thread_list := t # thread_list s, current := (current s)(cpu := t)\<rparr>) } })"

definition thread_secondary_cpu_entry :: "nat \<Rightarrow> 'z kstate_scheme \<Rightarrow> (outcome \<times> 'z kstate_scheme) option" where
  "thread_secondary_cpu_entry cpu s =
     (let s = upd_thread (current s cpu) (\<lambda>th. th\<lparr>priority := IDLE_PRIORITY\<rparr>) s
      in thread_yield cpu (mp_set_cpu_idle cpu (mp_set_curr_cpu_active cpu True s)))"

fun thread_state_to_str :: "thread_state \<Rightarrow> string" where
  "thread_state_to_str THREAD_SUSPENDED = ''susp''"
| "thread_state_to_str THREAD_READY = ''rdy''"
| "thread_state_to_str THREAD_RUNNING = ''run''"
| "thread_state_to_str THREAD_BLOCKED = ''blok''"
| "thread_state_to_str THREAD_SLEEPING = ''slep''"
| "thread_state_to_str THREAD_DEATH = ''deth''"

section \<open>Exit\<close>

lemma acct_frame_other [simp]:
  "acct_frame s (s\<lparr>int_mem := i\<rparr>)"
  by (simp add: acct_frame_def resched_frame_def)

text \<open>The current thread enters the dead state.\<close>

lemma die_inv:
  assumes inv: "kinv C s" "c \<in> C" and cur: "cur = current s c" "\<not> thread_is_idle (threads s cur)"
    and f: "\<And>th. state (f th) = THREAD_DEATH \<and> priority (f th) = priority th \<and> flags (f th) AND (THREAD_FLAG_REAL_TIME OR THREAD_FLAG_IDLE) = flags th AND (THREAD_FLAG_REAL_TIME OR THREAD_FLAG_IDLE)"
    and s': "threads s' = (threads s)(cur := f (threads s cur))" "queues s' = queues s"
      "run_queue_bitmap s' = run_queue_bitmap s" "current s' = current s" "idle_threads s' = idle_threads s"
      "wqs s' = wqs s" "tqueue s' = tqueue s" "timers s' = timers s" "has_dynamic_timer s' = has_dynamic_timer s"
  shows "sched_inv C (C - {c}) {} s'" "preempt_inv C s'"
proof -
  have fi: "thread_is_idle (f th) = thread_is_idle th" "thread_is_real_time_or_idle (f th) = thread_is_real_time_or_idle th" for th
  proof -
    have e: "flags (f th) AND 24 = flags th AND 24" using f[of th] by simp
    have "flags x AND 16 = (flags x AND 24) AND 16" for x :: thread by (simp add: and.assoc)
    with e show "thread_is_idle (f th) = thread_is_idle th" unfolding thread_is_idle_def by simp
    from e show "thread_is_real_time_or_idle (f th) = thread_is_real_time_or_idle th"
      by (simp add: thread_is_real_time_or_idle_def)
  qed
  note k = kinvD[OF inv(1)] and kc = kinv_current[OF inv, folded cur(1)]
  have oc: "{k \<in> C. current s k \<noteq> cur} = C - {c}" unfolding cur(1) by (rule other_cpus[OF k(1) inv(2)])
  have "queue_inv s'"
    using k(1) kc(3) by (auto simp: sched_inv_def queue_inv_def bitmap_ok_def s')
  moreover have "thread_inv {} s'"
    using k(1) f kc(1) by (auto simp: sched_inv_def thread_inv_def s' fi)
  moreover have "cpu_inv C (C - {c}) s'"
    using k(1) f oc cur(2) by (auto simp: sched_inv_def cpu_inv_def s' fi)
  ultimately show "sched_inv C (C - {c}) {} s'" by (simp add: sched_inv_def)
  show "preempt_inv C s'" using k(2) by (auto simp: preempt_inv_def s' fi)
qed

lemma dead_not_next:
  assumes "sched_inv C (C - {c}) {} s" "c \<in> C" "state (threads s t) \<noteq> THREAD_READY" "\<not> thread_is_idle (threads s t)"
  shows "next_thread c s \<noteq> t"
proof -
  have q: "ls_ok (queues s)" "\<And>t h. lon (queues s) t = Some h \<Longrightarrow> queued_ok (threads s t) h"
    and i: "thread_is_idle (threads s (idle_threads s c))"
    using assms(1,2) by (auto simp: sched_inv_def queue_inv_def cpu_inv_def)
  show ?thesis
  proof (cases "top_choice c s")
    case None
    with i assms(4) show ?thesis by (auto simp: next_thread_def)
  next
    case (Some u)
    with top_choice_Some[OF q(1) Some] q(2)[of u] assms(3) show ?thesis
      by (auto simp: next_thread_def queued_ok_def)
  qed
qed

lemma exit_resched_wp:
  assumes s: "sched_inv C (C - {c}) {} s" "c \<in> C" "preempt_inv C s"
    and t: "state (threads s (current s c)) = THREAD_DEATH" "\<not> thread_is_idle (threads s (current s c))"
  shows "wp (thread_resched c s) (\<lambda>(r, s'). r = Switched \<and> kinv C s' \<and> resched_frame s s' \<and>
     current s' c \<noteq> current s c \<and> state (threads s' (current s c)) = THREAD_DEATH)"
proof -
  have n: "next_thread c s \<noteq> current s c" by (rule dead_not_next[OF s(1,2)]) (use t in simp_all)
  have "wp (thread_resched c s) (resched_post C {} c s)" by (rule thread_resched_wp[OF s]) simp
  then show ?thesis
    by (rule wp_mono) (use n t in \<open>auto simp: resched_post_def kinv_def\<close>)
qed

text \<open>What is left of a thread that has exited.\<close>

definition exited :: "tid \<Rightarrow> int \<Rightarrow> 'z kstate_scheme \<Rightarrow> 'z kstate_scheme \<Rightarrow> bool" where
  "exited t rc s s' \<longleftrightarrow> state (threads s' t) = THREAD_DEATH \<and> retcode (threads s' t) = rc \<and>
     (if flags (threads s t) AND THREAD_FLAG_DETACHED \<noteq> 0
      then th_magic (threads s' t) = 0 \<and> thread_list s' = remove1 t (thread_list s) \<and>
           freed s' = freed s @
             (if flags (threads s t) AND THREAD_FLAG_FREE_STACK \<noteq> 0 \<and> stack (threads s t) \<noteq> 0
              then [stack (threads s t)] else []) @
             (if flags (threads s t) AND THREAD_FLAG_FREE_STRUCT \<noteq> 0 then [t] else [])
      else th_magic (threads s' t) = THREAD_MAGIC \<and> thread_list s' = thread_list s \<and> freed s' = freed s \<and>
           lcont (queues s') (WaitL (WQ_retcode t)) = [] \<and>
           (\<forall>u \<in> set (lcont (queues s) (WaitL (WQ_retcode t))). wait_queue_block_ret (threads s' u) = NO_ERROR))"

lemma thread_exit_detached_wp:
  assumes inv: "kinv C s" "c \<in> C" and cur: "\<not> thread_is_idle (threads s (current s c))"
    and tl: "current s c \<in> set (thread_list s)"
    and True: "flags (threads s (current s c)) AND THREAD_FLAG_DETACHED \<noteq> 0"
  shows "wp (thread_exit c rc s) (\<lambda>(r, s'). r = Switched \<and> kinv C s' \<and> current s' c \<noteq> current s c \<and>
     exited (current s c) rc s s')"
proof -
  let ?cur = "current s c" and ?th = "threads s (current s c)"
  note kc = kinv_current[OF inv]
  let ?fs = "flags ?th AND THREAD_FLAG_FREE_STACK \<noteq> 0 \<and> stack ?th \<noteq> 0"
  let ?f = "\<lambda>th. th\<lparr>state := THREAD_DEATH, retcode := rc, th_magic := 0, flags := (if ?fs then flags th AND
           NOT THREAD_FLAG_DEBUG_STACK_BOUNDS_CHECK else flags th)\<rparr>"
  let ?fr = "(if ?fs then [stack ?th] else []) @ (if flags ?th AND THREAD_FLAG_FREE_STRUCT \<noteq> 0 then [?cur] else [])"
  let ?s1 = "upd_thread ?cur (\<lambda>th. th\<lparr>state := THREAD_DEATH, retcode := rc\<rparr>) s"
  define s2 where "s2 = thread_exit_detached ?cur (threads ?s1 ?cur) ?s1"
  have sel: "threads s2 = (threads s)(?cur := ?f ?th)" "queues s2 = queues s"
      "run_queue_bitmap s2 = run_queue_bitmap s" "current s2 = current s" "idle_threads s2 = idle_threads s"
      "wqs s2 = wqs s" "tqueue s2 = tqueue s" "timers s2 = timers s" "has_dynamic_timer s2 = has_dynamic_timer s"
      "thread_list s2 = remove1 ?cur (thread_list s)" "freed s2 = freed s @ ?fr"
    by (simp_all add: s2_def thread_exit_detached_def Let_def)
  have i: "sched_inv C (C - {c}) {} s2" "preempt_inv C s2"
    by (rule die_inv[OF inv refl cur, of ?f]; simp add: and.assoc sel)+
  have id: "\<not> thread_is_idle (threads s2 (current s2 c))"
    using cur by (simp add: thread_is_idle_def and.assoc sel)
  have eq: "thread_exit c rc s = Option.bind (thread_resched c s2)
      (\<lambda>(r, s). case r of Switched \<Rightarrow> Some (Switched, s) | Ret _ \<Rightarrow> None)"
    using True kc cur tl by (simp add: thread_exit_def Let_def s2_def)
  have "wp (thread_resched c s2) (\<lambda>(r, s'). r = Switched \<and> kinv C s' \<and> resched_frame s2 s' \<and>
      current s' c \<noteq> ?cur \<and> state (threads s' ?cur) = THREAD_DEATH)"
    using exit_resched_wp[OF i(1) inv(2) i(2)] id by (simp add: sel)
  then show ?thesis unfolding eq wp_simps
  proof (rule wp_mono, clarify)
    fix s' assume s': "kinv C s'" "resched_frame s2 s'" "current s' c \<noteq> ?cur" "state (threads s' ?cur) = THREAD_DEATH"
    have "th_magic (threads s' ?cur) = 0" "retcode (threads s' ?cur) = rc"
      using s'(2) thread_core_eqD(1,7)[of "threads s' ?cur" "threads s2 ?cur"] by (auto simp: resched_frame_def sel)
    with s' True have "exited ?cur rc s s'" by (auto simp: exited_def resched_frame_def sel)
    with s' show "wp (case Switched of Switched \<Rightarrow> Some (Switched, s') | Ret _ \<Rightarrow> None)
        (\<lambda>(r, s'). r = Switched \<and> kinv C s' \<and> current s' c \<noteq> ?cur \<and> exited ?cur rc s s')" by simp
  qed
qed

lemma thread_exit_joinable_wp:
  assumes inv: "kinv C s" "c \<in> C" and cur: "\<not> thread_is_idle (threads s (current s c))"
    and wq: "wq_magic (wqs s (WQ_retcode (current s c))) = WAIT_QUEUE_MAGIC"
    and False: "\<not> flags (threads s (current s c)) AND THREAD_FLAG_DETACHED \<noteq> 0"
  shows "wp (thread_exit c rc s) (\<lambda>(r, s'). r = Switched \<and> kinv C s' \<and> current s' c \<noteq> current s c \<and>
     exited (current s c) rc s s')"
proof -
  let ?cur = "current s c" and ?th = "threads s (current s c)"
  note kc = kinv_current[OF inv]
  let ?s1 = "upd_thread ?cur (\<lambda>th. th\<lparr>state := THREAD_DEATH, retcode := rc\<rparr>) s"
  let ?ts = "lcont (queues s) (WaitL (WQ_retcode ?cur))"
  have i: "sched_inv C (C - {c}) {} ?s1" "preempt_inv C ?s1"
    by (rule die_inv[OF inv refl cur, of "\<lambda>th. th\<lparr>state := THREAD_DEATH, retcode := rc\<rparr>"]; simp)+
  from wake_all_wp[OF i(1), of "WQ_retcode ?cur" ?ts c NO_ERROR] wq obtain s2 where
    s2: "wait_queue_wake_all c (WQ_retcode ?cur) False NO_ERROR ?s1 = Some (Ret (int (length ?ts)), s2)"
      "sched_inv C (C - {c}) {} s2" "wake_post {} (WQ_retcode ?cur) NO_ERROR ?ts [] ?s1 s2" "pushed_all ?ts ?s1 s2"
    by (auto simp: wp_ex)
  have sel: "tqueue s2 = tqueue ?s1" "timers s2 = timers ?s1" "current s2 = current ?s1"
    using s2(4) by (auto simp: pushed_all_def)
  have p2: "preempt_inv C s2" by (rule preempt_inv_base[OF i(2) conjunct1[OF s2(3)[unfolded wake_post_def]] sel])
  have "?cur \<notin> set ?ts" using wait_member(2)[OF kinvD(1)[OF inv(1)], of ?cur] kc(2) by auto
  then have d2: "state (threads s2 ?cur) = THREAD_DEATH" using s2(4) by (simp add: pushed_all_def)
  have st2: "thread_static (threads s2 u) = thread_static (threads ?s1 u)" for u
    using s2(3) by (simp add: wake_post_def base_frame_def)
  have id2: "\<not> thread_is_idle (threads s2 (current s2 c))"
    using thread_static_eqD(6)[OF st2[of ?cur]] cur sel(3) by (simp add: thread_is_idle_def)
  have "wp (thread_resched c s2) (\<lambda>(r, s'). r = Switched \<and> kinv C s' \<and> resched_frame s2 s' \<and>
      current s' c \<noteq> ?cur \<and> state (threads s' ?cur) = THREAD_DEATH)"
    using exit_resched_wp[OF s2(2) inv(2) p2] d2 id2 sel(3) by simp
  moreover have "thread_exit c rc s = Option.bind (thread_resched c s2)
      (\<lambda>(r, s). case r of Switched \<Rightarrow> Some (Switched, s) | Ret _ \<Rightarrow> None)"
    using False kc cur s2(1) by (simp add: thread_exit_def Let_def)
  ultimately show ?thesis
  proof (simp only: wp_simps, elim wp_mono, clarify)
    fix s' assume s': "kinv C s'" "resched_frame s2 s'" "current s' c \<noteq> ?cur" "state (threads s' ?cur) = THREAD_DEATH"
    note e = thread_core_eqD[of "threads s' u" "threads s2 u" for u]
    have "th_magic (threads s' ?cur) = THREAD_MAGIC" "retcode (threads s' ?cur) = rc"
      using s'(2) e(1,7)[of ?cur] thread_static_eqD(1,5)[OF st2[of ?cur]] kc(1) by (auto simp: resched_frame_def)
    moreover have "wait_queue_block_ret (threads s' u) = NO_ERROR" if "u \<in> set ?ts" for u
      using s'(2) e(6)[of u] s2(3) that by (auto simp: resched_frame_def wake_post_def)
    ultimately have "exited ?cur rc s s'"
      using s' False s2(3) by (auto simp: exited_def resched_frame_def wake_post_def base_frame_def)
    with s' show "wp (case Switched of Switched \<Rightarrow> Some (Switched, s') | Ret _ \<Rightarrow> None)
        (\<lambda>(r, s'). r = Switched \<and> kinv C s' \<and> current s' c \<noteq> ?cur \<and> exited ?cur rc s s')" by simp
  qed
qed

section \<open>Join\<close>

lemma dead_unqueued:
  assumes "sched_inv C R L s" "state (threads s t) \<noteq> THREAD_READY" "state (threads s t) \<noteq> THREAD_BLOCKED"
  shows "lon (queues s) t = None"
proof -
  have q: "\<And>h. lon (queues s) t = Some h \<Longrightarrow> queued_ok (threads s t) h"
    using assms(1) by (auto simp: sched_inv_def queue_inv_def)
  show ?thesis
    using q assms(2,3) by (cases "lon (queues s) t") (auto simp: queued_ok_def split: qhead.splits)
qed

text \<open>A thread that is not queued, running or idle may lose its magic.\<close>

lemma clear_thread_magic_inv:
  assumes inv: "kinv C s" and t: "state (threads s t) = THREAD_DEATH" "\<not> thread_is_idle (threads s t)"
  shows "kinv C (upd_thread t (\<lambda>th. th\<lparr>th_magic := 0\<rparr>) s)"
proof -
  note k = kinvD[OF inv]
  have un: "lon (queues s) t = None" by (rule dead_unqueued[OF k(1)]) (use t in simp_all)
  have nc: "current s c \<noteq> t" if "c \<in> C" for c
    using running_current[OF k(1) that] t(1) by auto
  have "queue_inv (upd_thread t (\<lambda>th. th\<lparr>th_magic := 0\<rparr>) s)"
    using k(1) un by (auto simp: sched_inv_def queue_inv_def bitmap_ok_def)
  moreover have "thread_inv {} (upd_thread t (\<lambda>th. th\<lparr>th_magic := 0\<rparr>) s)"
    using k(1) by (auto simp: sched_inv_def thread_inv_def thread_is_idle_def)
  moreover have "cpu_inv C C (upd_thread t (\<lambda>th. th\<lparr>th_magic := 0\<rparr>) s)"
    using k(1) nc t by (auto simp: sched_inv_def cpu_inv_def thread_is_idle_def)
  moreover have "preempt_inv C (upd_thread t (\<lambda>th. th\<lparr>th_magic := 0\<rparr>) s)"
    using k(2) by (auto simp: preempt_inv_def thread_is_real_time_or_idle_def)
  ultimately show ?thesis by (simp add: kinv_def sched_inv_def)
qed

lemma kinv_other [simp]:
  "kinv C (s\<lparr>freed := x\<rparr>) = kinv C s" "kinv C (s\<lparr>thread_list := l\<rparr>) = kinv C s"
  "kinv C (s\<lparr>int_mem := i\<rparr>) = kinv C s"
  by (simp_all add: kinv_def sched_inv_def queue_inv_def bitmap_ok_def thread_inv_def cpu_inv_def preempt_inv_def)

lemma thread_join_end_wp:
  assumes inv: "kinv C s" and t: "th_magic (threads s t) = THREAD_MAGIC" "state (threads s t) = THREAD_DEATH"
      "\<not> thread_is_idle (threads s t)" "blocking_wait_queue (threads s t) = None" "t \<in> set (thread_list s)"
  shows "wp (thread_join_end t retp s) (\<lambda>(r, s'). r = Ret NO_ERROR \<and> kinv C s' \<and> th_magic (threads s' t) = 0 \<and>
     thread_list s' = remove1 t (thread_list s) \<and>
     (\<forall>a. retp = Some a \<longrightarrow> int_mem s' a = retcode (threads s t)) \<and>
     freed s' = freed s @
       (if flags (threads s t) AND THREAD_FLAG_FREE_STACK \<noteq> 0 \<and> stack (threads s t) \<noteq> 0
        then [stack (threads s t)] else []) @
       (if flags (threads s t) AND THREAD_FLAG_FREE_STRUCT \<noteq> 0 then [t] else []))"
proof -
  have un: "\<not> ls_in_list t (queues s)"
    using dead_unqueued[OF kinvD(1)[OF inv], of t] t(2) by (simp add: ls_in_list_def)
  let ?s0 = "case retp of Some a \<Rightarrow> s\<lparr>int_mem := (int_mem s)(a := retcode (threads s t))\<rparr> | None \<Rightarrow> s"
  have k0: "kinv C ?s0" using inv by (cases retp) simp_all
  have sel: "threads ?s0 = threads s" "thread_list ?s0 = thread_list s" "freed ?s0 = freed s" "queues ?s0 = queues s"
    by (cases retp; simp)+
  have m: "\<forall>a. retp = Some a \<longrightarrow> int_mem ?s0 a = retcode (threads s t)" by (cases retp) simp_all
  have mu: "int_mem (upd_thread u f x) = int_mem x" for u f and x :: "'a kstate_scheme" by (simp add: upd_thread_def)
  have "kinv C (upd_thread t (\<lambda>th. th\<lparr>th_magic := 0\<rparr>) (?s0\<lparr>thread_list := remove1 t (thread_list s)\<rparr>))"
    by (rule clear_thread_magic_inv) (use k0 t(2,3) in \<open>simp_all add: sel\<close>)
  then show ?thesis
    using t un m by (simp add: thread_join_end_def Let_def sel mu)
qed

section \<open>Sleep\<close>

lemma arm_sleep_timer_wp:
  assumes "ls_ok (tqueue s)" "lon (tqueue s) (TM_stack t) = None"
  shows "wp (Option.bind (timer_initialize (TM_stack t) s) (timer_set_oneshot c (TM_stack t) delay cb t))
    (timer_armed c t (if delay = 0 then 1 else delay) cb s)"
  using arm_stack_timer_wp[OF assms, of "if delay = 0 then 1 else delay"]
  by (simp add: timer_set_oneshot_def)

lemma thread_sleep_wp:
  assumes inv: "kinv C s" "c \<in> C" and cur: "\<not> thread_is_idle (threads s (current s c))"
    and un: "lon (tqueue s) (TM_stack (current s c)) = None"
  shows "wp (thread_sleep c delay s) (\<lambda>(r, s'). r = Switched \<and> kinv C s' \<and> current s' c \<noteq> current s c \<and>
     state (threads s' (current s c)) = THREAD_SLEEPING \<and> lon (tqueue s') (TM_stack (current s c)) = Some c \<and>
     thread_core (threads s' (current s c)) = thread_core (threads s (current s c)) \<and>
     timers s' (TM_stack (current s c)) = \<lparr>tm_magic = TIMER_MAGIC,
        scheduled_time = cur_time s + (if delay = 0 then 1 else delay), periodic_time = 0,
        callback = Some CB_thread_sleep_handler, tm_arg = current s c\<rparr> \<and>
     base_frame {current s c} {current s c} s s' \<and> kstack s' (current s c) = kstack s (current s c) @ [FR_const NO_ERROR] \<and>
     (\<forall>w. lcont (queues s') (WaitL w) = lcont (queues s) (WaitL w)) \<and>
     (\<forall>t. thread_core (threads s' t) = thread_core (threads s t)))"
proof -
  let ?cur = "current s c"
  note k = kinvD[OF inv(1)] and kc = kinv_current[OF inv]
  have ok: "ls_ok (tqueue s)" using k(2) by (simp add: preempt_inv_def)
  from arm_sleep_timer_wp[OF ok un, of c delay CB_thread_sleep_handler] obtain s0 s1 where
    s1: "timer_initialize (TM_stack ?cur) s = Some s0"
      "timer_set_oneshot c (TM_stack ?cur) delay CB_thread_sleep_handler ?cur s0 = Some s1"
      "timer_armed c ?cur (if delay = 0 then 1 else delay) CB_thread_sleep_handler s s1"
    by (auto simp: wp_ex bind_eq_Some_conv)
  note ta = timer_armed_inv[OF s1(3)]
  let ?s2 = "set_state ?cur THREAD_SLEEPING s1"
  have i1: "sched_inv C C {} s1" by (rule ta(1)[OF k(1)])
  have oc: "{k \<in> C. current s1 k \<noteq> ?cur} = C - {c}" using other_cpus[OF k(1) inv(2)] by (simp add: ta(6))
  have "sched_inv C (C - {c}) (insert ?cur {}) ?s2"
    using set_state_inv[OF i1, of ?cur THREAD_SLEEPING] kc(3) oc by (simp add: ta(5))
  then have i2: "sched_inv C (C - {c}) {} ?s2" by (auto simp: sched_inv_def thread_inv_def)
  have p2: "preempt_inv C ?s2"
    by (rule preempt_inv_frame[OF ta(2)[OF k(2)]]) simp_all
  have n: "next_thread c ?s2 \<noteq> ?cur"
    by (rule dead_not_next[OF i2 inv(2)]) (use cur ta(4) in \<open>simp_all add: thread_is_idle_def\<close>)
  have "wp (thread_resched c ?s2) (resched_post C {} c ?s2)"
    by (rule thread_resched_wp[OF i2 inv(2) p2]) simp
  then obtain s3 where s3: "thread_resched c ?s2 = Some (Switched, s3)" "resched_post C {} c ?s2 (Switched, s3)"
    using n ta(6) by (auto simp: wp_ex resched_post_def)
  then have "kinv C s3" "current s3 c = next_thread c ?s2" "state (threads s3 ?cur) = THREAD_SLEEPING"
      "thread_core (threads s3 ?cur) = thread_core (threads s ?cur)"
      "timers s3 (TM_stack ?cur) = timers s1 (TM_stack ?cur)" "lon (tqueue s3) (TM_stack ?cur) = lon (tqueue s1) (TM_stack ?cur)"
    using n ta(4,6) by (auto simp: resched_post_def kinv_def resched_frame_def)
  moreover have "kstack s3 = kstack s" "\<And>w. lcont (queues s3) (WaitL w) = lcont (queues s) (WaitL w)"
      "\<And>t. thread_core (threads s3 t) = thread_core (threads s t)"
    using s3(2) ta(4,5,9) by (auto simp: resched_post_def resched_frame_def)
  moreover have "base_frame {?cur} {?cur} s (s3\<lparr>kstack := (kstack s3)(?cur := kstack s ?cur @ [FR_const NO_ERROR])\<rparr>)"
  proof -
    have "base_frame {?cur} {?cur} s s1" by (rule base_frame_mono[OF ta(3)]) simp_all
    moreover have "base_frame {?cur} {?cur} s1 ?s2" by (simp add: base_frame_def set_state_def upd_thread_def thread_static_def thread_core_def)
    moreover have "base_frame {?cur} {?cur} ?s2 s3" by (rule resched_base_frame) (use s3(2) in \<open>simp add: resched_post_def\<close>)
    ultimately have "base_frame {?cur} {?cur} s s3" by (blast intro: base_frame_trans)
    then show ?thesis by (simp add: base_frame_def)
  qed
  ultimately show ?thesis using n s1 s3(1) kc cur
    by (simp add: thread_sleep_def Let_def with_frame_def timer_armed_def)
qed

lemma thread_sleep_handler_wp:
  assumes inv: "kinv C s" and t: "th_magic (threads s t) = THREAD_MAGIC" "state (threads s t) = THREAD_SLEEPING"
    "\<not> thread_is_idle (threads s t)"
  shows "wp (thread_sleep_handler t s) (\<lambda>(r, s'). r = INT_RESCHEDULE \<and> kinv C s' \<and>
     ready_at t (\<lambda>xs. t # xs) (set_state t THREAD_READY s) s')"
proof -
  note k = kinvD[OF inv]
  have un: "lon (queues s) t = None" by (rule dead_unqueued[OF k(1)]) (use t in simp_all)
  have "{k \<in> C. current s k \<noteq> t} = C" using running_current[OF k(1)] t(2) by auto
  then have "wp (insert_in_run_queue_head t (set_state t THREAD_READY s))
      (\<lambda>s'. sched_inv C C {} s' \<and> ready_at t (\<lambda>xs. t # xs) (set_state t THREAD_READY s) s')"
    using make_ready_wp(1)[OF k(1) t(1,3) un] by (simp add: wp_ex)
  then have "wp (insert_in_run_queue_head t (set_state t THREAD_READY s))
      (\<lambda>s'. kinv C s' \<and> ready_at t (\<lambda>xs. t # xs) (set_state t THREAD_READY s) s')"
  proof (rule wp_mono, elim conjE)
    fix s' assume s': "sched_inv C C {} s'" "ready_at t (\<lambda>xs. t # xs) (set_state t THREAD_READY s) s'"
    have "resched_frame s s'" using ready_at_frame[OF s'(2)] resched_frame_trans[OF set_state_frame] by blast
    then have "preempt_inv C s'"
      using ready_at_frame[OF s'(2)] ready_at_sel[OF s'(2)] by (intro preempt_inv_frame[OF k(2)]) auto
    with s' show "kinv C s' \<and> ready_at t (\<lambda>xs. t # xs) (set_state t THREAD_READY s) s'" by (simp add: kinv_def)
  qed
  then show ?thesis using t by (simp add: thread_sleep_handler_def)
qed

section \<open>The kernel's timer callbacks\<close>

text \<open>The functions that the kernel passes to \<open>timer_set_oneshot\<close> and \<open>timer_set_periodic\<close>, called
  on cpu \<open>c\<close>.\<close>

fun kernel_fire ::
  "nat \<Rightarrow> kcallback \<Rightarrow> ktimer \<Rightarrow> lk_time \<Rightarrow> nat \<Rightarrow> 'z kstate_scheme \<Rightarrow> (handler_return \<times> 'z kstate_scheme) option" where
  "kernel_fire c CB_thread_sleep_handler tm now arg s = thread_sleep_handler arg s"
| "kernel_fire c CB_wait_queue_timeout_handler tm now arg s = wait_queue_timeout_handler c arg s"
| "kernel_fire c CB_thread_timer_tick tm now arg s = Some (thread_timer_tick c s)"

text \<open>A pending stack timer belongs to a live thread; a sleep timer to a sleeping one.\<close>

definition kernel_ready :: "ktimer \<Rightarrow> 'z kstate_scheme \<Rightarrow> bool" where
  "kernel_ready tm s \<longleftrightarrow>
     (case tm of
        TM_preempt k \<Rightarrow> callback (timers s tm) = Some CB_thread_timer_tick
      | TM_stack t \<Rightarrow>
          callback (timers s tm) \<in> {Some CB_thread_sleep_handler, Some CB_wait_queue_timeout_handler} \<and>
          periodic_time (timers s tm) = 0 \<and> tm_arg (timers s tm) = t \<and>
          th_magic (threads s t) = THREAD_MAGIC \<and> \<not> thread_is_idle (threads s t) \<and>
          (callback (timers s tm) = Some CB_thread_sleep_handler \<longrightarrow> state (threads s t) = THREAD_SLEEPING))"

lemma sched_inv_timer_fields [simp]:
  "sched_inv C R L (s\<lparr>tqueue := q\<rparr>) = sched_inv C R L s" "sched_inv C R L (s\<lparr>timers := tms\<rparr>) = sched_inv C R L s"
  "sched_inv C R L (s\<lparr>hw_timer := hw\<rparr>) = sched_inv C R L s"
  by (simp_all add: sched_inv_def queue_inv_def bitmap_ok_def thread_inv_def cpu_inv_def)

text \<open>The effect of a callback of thread \<open>t\<close> on the other threads.\<close>

definition fire_frame :: "tid option \<Rightarrow> 'z kstate_scheme \<Rightarrow> 'z kstate_scheme \<Rightarrow> bool" where
  "fire_frame t s s' \<longleftrightarrow> timers s' = timers s \<and> tqueue s' = tqueue s \<and>
     has_dynamic_timer s' = has_dynamic_timer s \<and> hw_timer s' = hw_timer s \<and>
     (\<forall>u. Some u \<noteq> t \<longrightarrow> state (threads s' u) = state (threads s u)) \<and>
     (\<forall>u. th_magic (threads s' u) = th_magic (threads s u) \<and> thread_is_idle (threads s' u) = thread_is_idle (threads s u))"

lemma fire_frame_ready:
  assumes "fire_frame t s s'" "kernel_ready u s" "\<And>x. t = Some x \<Longrightarrow> u \<noteq> TM_stack x"
  shows "kernel_ready u s'"
proof (cases u)
  case (TM_stack x)
  then have "Some x \<noteq> t" using assms(3) by auto
  with TM_stack assms(1,2) show ?thesis by (auto simp: kernel_ready_def fire_frame_def)
next
  case (TM_preempt k)
  with assms(1,2) show ?thesis by (simp add: kernel_ready_def fire_frame_def)
qed

lemma sleep_handler_fire:
  assumes inv: "sched_inv C C {} s" and t: "th_magic (threads s t) = THREAD_MAGIC" "state (threads s t) = THREAD_SLEEPING"
    "\<not> thread_is_idle (threads s t)"
  shows "wp (thread_sleep_handler t s) (\<lambda>(r, s'). sched_inv C C {} s' \<and> fire_frame (Some t) s s')"
proof -
  have un: "lon (queues s) t = None" by (rule dead_unqueued[OF inv]) (use t in simp_all)
  have "{k \<in> C. current s k \<noteq> t} = C" using running_current[OF inv] t(2) by auto
  then have "wp (insert_in_run_queue_head t (set_state t THREAD_READY s))
      (\<lambda>s'. sched_inv C C {} s' \<and> ready_at t (\<lambda>xs. t # xs) (set_state t THREAD_READY s) s')"
    using make_ready_wp(1)[OF inv t(1,3) un] by (simp add: wp_ex)
  then show ?thesis
    using t by (auto simp: thread_sleep_handler_def wp_ex fire_frame_def ready_at_def set_state_def
        upd_thread_def thread_is_idle_def)
qed

lemma timeout_handler_wp:
  assumes inv: "sched_inv C R L s" and t: "th_magic (threads s t) = THREAD_MAGIC" "\<not> thread_is_idle (threads s t)" "t \<notin> L"
  shows "wp (wait_queue_timeout_handler c t s) (\<lambda>(r, s'). sched_inv C R L s' \<and>
     (if state (threads s t) = THREAD_BLOCKED
      then r = INT_RESCHEDULE \<and> (\<exists>s1 w. blocking_wait_queue (threads s t) = Some w \<and>
             woken w ERR_TIMED_OUT t s s1 \<and> s' = mp_reschedule c 0xFFFFFFFF 0 s1)
      else r = INT_NO_RESCHEDULE \<and> s' = s))"
proof (cases "state (threads s t) = THREAD_BLOCKED")
  case True
  with unblock_from_wp[OF inv t(1,3) True t(2), of c ERR_TIMED_OUT] t(1) show ?thesis
    by (auto simp: wait_queue_timeout_handler_def wp_ex)
next
  case False
  with inv t(1) show ?thesis
    by (simp add: wait_queue_timeout_handler_def thread_unblock_from_wait_queue_def)
qed

lemma woken_fire_frame:
  assumes "woken w e t s s1"
  shows "fire_frame (Some t) s (mp_reschedule c m f s1)"
  using assms by (auto simp: woken_def base_frame_def fire_frame_def mp_reschedule_def Let_def thread_is_idle_def)

lemma timeout_handler_fire:
  assumes inv: "sched_inv C C {} s" and t: "th_magic (threads s t) = THREAD_MAGIC" "\<not> thread_is_idle (threads s t)"
  shows "wp (wait_queue_timeout_handler c t s) (\<lambda>(r, s'). sched_inv C C {} s' \<and> fire_frame (Some t) s s')"
proof -
  have "fire_frame (Some t) s s" by (simp add: fire_frame_def)
  then show ?thesis
    using timeout_handler_wp[OF inv t, of c] woken_fire_frame[of _ _ t s]
    by (auto simp: wp_ex split: if_splits)
qed

lemma tick_fire:
  assumes "sched_inv C C {} s"
  shows "sched_inv C C {} (snd (thread_timer_tick c s)) \<and> fire_frame None s (snd (thread_timer_tick c s))"
  using assms acct_frame_kinv(1)[OF acct_frame_quantum assms]
  by (simp add: thread_timer_tick_def Let_def fire_frame_def thread_is_idle_def)

text \<open>The callbacks neither read nor write the timers and their queues.\<close>

lemma timer_fields_commute:
  "set_state u st (s\<lparr>timers := tms, tqueue := q\<rparr>) = (set_state u st s)\<lparr>timers := tms, tqueue := q\<rparr>"
  "wake_fields u e (s\<lparr>timers := tms, tqueue := q\<rparr>) = (wake_fields u e s)\<lparr>timers := tms, tqueue := q\<rparr>"
  "wq_add_count w d (s\<lparr>timers := tms, tqueue := q\<rparr>) = (wq_add_count w d s)\<lparr>timers := tms, tqueue := q\<rparr>"
  "mp_reschedule c m fl (s\<lparr>timers := tms, tqueue := q\<rparr>) = (mp_reschedule c m fl s)\<lparr>timers := tms, tqueue := q\<rparr>"
  "insert_in_run_queue_head t (s\<lparr>timers := tms, tqueue := q\<rparr>) =
     map_option (\<lambda>s. s\<lparr>timers := tms, tqueue := q\<rparr>) (insert_in_run_queue_head t s)"
  by (simp_all add: set_state_def wake_fields_def wq_add_count_def upd_thread_def mp_reschedule_def Let_def)
    (cases "ls_add_head (RunQ (nat (priority (threads s t)))) t (queues s)";
      simp add: insert_in_run_queue_head_def run_queue_insert_ok_def Let_def)

lemma unblock_indep:
  "thread_unblock_from_wait_queue c t err (s\<lparr>timers := tms, tqueue := q\<rparr>) =
   map_option (\<lambda>(r, s'). (r, s'\<lparr>timers := tms, tqueue := q\<rparr>)) (thread_unblock_from_wait_queue c t err s)"
proof -
  have c: "s\<lparr>timers := tms, tqueue := q, queues := q'\<rparr> = s\<lparr>queues := q'\<rparr>\<lparr>timers := tms, tqueue := q\<rparr>" for q' by simp
  show ?thesis
    unfolding thread_unblock_from_wait_queue_def c timer_fields_commute
    by (cases "blocking_wait_queue (threads s t)"; cases "ls_delete t (queues s)")
      (auto simp: timer_fields_commute c map_option_case split: option.splits)
qed

lemma kernel_fire_indep:
  "kernel_fire c cb t now a (s\<lparr>timers := tms, tqueue := q\<rparr>) =
   map_option (\<lambda>(r, s'). (r, s'\<lparr>timers := tms, tqueue := q\<rparr>)) (kernel_fire c cb t now a s)"
proof (cases cb)
  case CB_thread_sleep_handler
  then show ?thesis
    by (cases "insert_in_run_queue_head a (set_state a THREAD_READY s)") (simp_all add: thread_sleep_handler_def timer_fields_commute)
next
  case CB_wait_queue_timeout_handler
  then show ?thesis
    by (cases "thread_unblock_from_wait_queue c a ERR_TIMED_OUT s") (auto simp: wait_queue_timeout_handler_def unblock_indep)
next
  case CB_thread_timer_tick
  then show ?thesis by (simp add: thread_timer_tick_def Let_def upd_thread_def)
qed

interpretation kt: timer_callbacks "kernel_fire c" "sched_inv C C {}" kernel_ready for c :: nat and C :: "nat set"
proof (unfold_locales, goal_cases)
  case (1 s t cb now)
  show ?case
  proof (cases t)
    case (TM_preempt k)
    with 1 have cb: "cb = CB_thread_timer_tick" by (simp add: kernel_ready_def)
    obtain r s' where r: "thread_timer_tick c s = (r, s')" by fastforce
    with tick_fire[OF 1(1), of c] have f: "sched_inv C C {} s'" "fire_frame None s s'" by auto
    have "kernel_ready u s \<longrightarrow> kernel_ready u s'" for u using fire_frame_ready[OF f(2)] by simp
    with r cb f show ?thesis by (auto simp: fire_frame_def)
  next
    case (TM_stack x)
    have rd: "th_magic (threads s x) = THREAD_MAGIC" "\<not> thread_is_idle (threads s x)" "tm_arg (timers s t) = x"
      "periodic_time (timers s t) = 0" "cb = CB_thread_sleep_handler \<Longrightarrow> state (threads s x) = THREAD_SLEEPING"
      "cb = CB_thread_sleep_handler \<or> cb = CB_wait_queue_timeout_handler"
      using 1(2,3) TM_stack by (auto simp: kernel_ready_def)
    have "wp (kernel_fire c cb t now x s) (\<lambda>(r, s'). sched_inv C C {} s' \<and> fire_frame (Some x) s s')"
      using rd(6) sleep_handler_fire[OF 1(1) rd(1) _ rd(2)] timeout_handler_fire[OF 1(1) rd(1,2), of c] rd(5) by auto
    then obtain r s' where f: "kernel_fire c cb t now x s = Some (r, s')" "sched_inv C C {} s'" "fire_frame (Some x) s s'"
      by (auto simp: wp_ex)
    have "kernel_ready u s \<longrightarrow> kernel_ready u s'" if "u \<noteq> t" for u
      using fire_frame_ready[OF f(3)] that TM_stack by auto
    with f rd(3,4) show ?thesis by (auto simp: fire_frame_def)
  qed
qed (simp_all add: kernel_ready_def kernel_fire_indep split: ktimer.splits)

end
