(* ===== verification/Sync.thy ===== *)
theory Sync
  imports Thread_Life
begin

text \<open>
  The blocking primitives built on wait queues: \<^verbatim>\<open>kernel/mutex.c\<close>, \<^verbatim>\<open>kernel/semaphore.c\<close>,
  \<^verbatim>\<open>kernel/event.c\<close> and \<^verbatim>\<open>kernel/cond.c\<close>, for a debug build (\<open>LK_DEBUGLEVEL > 0\<close>). Objects are
  named by address; the wait queue embedded in each is the \<open>wqref\<close> of that address. The code after
  a blocking call is a definition of its own, run at once or, as a frame of the thread's \<open>kstack\<close>,
  when the thread is switched back to (\<open>resume\<close> at the end of the theory).
\<close>

section \<open>State\<close>

abbreviation (input) MUTEX_MAGIC :: int where "MUTEX_MAGIC \<equiv> 0x6D757478"
abbreviation (input) SEMAPHORE_MAGIC :: int where "SEMAPHORE_MAGIC \<equiv> 0x73656D61"
abbreviation (input) EVENT_MAGIC :: int where "EVENT_MAGIC \<equiv> 0x65766E74"
abbreviation (input) COND_MAGIC :: int where "COND_MAGIC \<equiv> 0x636F6E64"
abbreviation (input) EVENT_FLAG_AUTOUNSIGNAL :: u32 where "EVENT_FLAG_AUTOUNSIGNAL \<equiv> 1"

record mutex =
  m_magic :: int
  m_holder :: "tid option"
  m_count :: int

record semaphore =
  sem_magic :: int
  sem_count :: int

record event =
  e_magic :: int
  e_signaled :: bool
  e_flags :: u32

record sync_state = kstate +
  mutexes :: "nat \<Rightarrow> mutex"
  sems :: "nat \<Rightarrow> semaphore"
  events :: "nat \<Rightarrow> event"
  cond_magic :: "nat \<Rightarrow> int"

definition upd_mutex :: "nat \<Rightarrow> (mutex \<Rightarrow> mutex) \<Rightarrow> 'z sync_state_scheme \<Rightarrow> 'z sync_state_scheme" where
  "upd_mutex m f s = s\<lparr>mutexes := (mutexes s)(m := f (mutexes s m))\<rparr>"

definition upd_sem :: "nat \<Rightarrow> (semaphore \<Rightarrow> semaphore) \<Rightarrow> 'z sync_state_scheme \<Rightarrow> 'z sync_state_scheme" where
  "upd_sem x f s = s\<lparr>sems := (sems s)(x := f (sems s x))\<rparr>"

definition upd_event :: "nat \<Rightarrow> (event \<Rightarrow> event) \<Rightarrow> 'z sync_state_scheme \<Rightarrow> 'z sync_state_scheme" where
  "upd_event e f s = s\<lparr>events := (events s)(e := f (events s e))\<rparr>"

section \<open>Mutexes\<close>

definition mutex_init :: "nat \<Rightarrow> 'z sync_state_scheme \<Rightarrow> 'z sync_state_scheme option" where
  "mutex_init m s =
     wait_queue_init (WQ_mutex m)
       (upd_mutex m (\<lambda>_. \<lparr>m_magic = MUTEX_MAGIC, m_holder = None, m_count = 0\<rparr>) s)"

definition mutex_destroy :: "nat \<Rightarrow> nat \<Rightarrow> 'z sync_state_scheme \<Rightarrow> (outcome \<times> 'z sync_state_scheme) option" where
  "mutex_destroy cpu m s =
     do { DEBUG_ASSERT (m_magic (mutexes s m) = MUTEX_MAGIC);
          if m_holder (mutexes s m) \<noteq> None \<and> m_holder (mutexes s m) \<noteq> Some (current s cpu) then None
          else wait_queue_destroy cpu (WQ_mutex m) True
                 (upd_mutex m (\<lambda>x. x\<lparr>m_magic := 0, m_count := 0\<rparr>) s) }"

text \<open>The rest of \<open>mutex_acquire_timeout_internal\<close> after \<open>wait_queue_block\<close> has returned \<open>ret\<close>.\<close>

definition mutex_acquire_woken ::
  "nat \<Rightarrow> nat \<Rightarrow> int \<Rightarrow> 'z sync_state_scheme \<Rightarrow> (outcome \<times> 'z sync_state_scheme) option" where
  "mutex_acquire_woken cpu m ret s =
     (if ret < NO_ERROR
      then Some (Ret ret, if ret = ERR_TIMED_OUT then upd_mutex m (\<lambda>x. x\<lparr>m_count := m_count x - 1\<rparr>) s else s)
      else Some (Ret NO_ERROR, upd_mutex m (\<lambda>x. x\<lparr>m_holder := Some (current s cpu)\<rparr>) s))"

definition mutex_acquire_timeout_internal ::
  "nat \<Rightarrow> nat \<Rightarrow> lk_time \<Rightarrow> 'z sync_state_scheme \<Rightarrow> (outcome \<times> 'z sync_state_scheme) option" where
  "mutex_acquire_timeout_internal cpu m timeout s =
     (let s = upd_mutex m (\<lambda>x. x\<lparr>m_count := m_count x + 1\<rparr>) s in
      if 1 < m_count (mutexes s m)
      then do { os \<leftarrow> wait_queue_block cpu (WQ_mutex m) timeout s;
                with_frame (current s cpu) (FR_mutex_acquire m) (mutex_acquire_woken cpu m) os }
      else Some (Ret NO_ERROR, upd_mutex m (\<lambda>x. x\<lparr>m_holder := Some (current s cpu)\<rparr>) s))"

definition mutex_acquire_timeout ::
  "nat \<Rightarrow> nat \<Rightarrow> lk_time \<Rightarrow> 'z sync_state_scheme \<Rightarrow> (outcome \<times> 'z sync_state_scheme) option" where
  "mutex_acquire_timeout cpu m timeout s =
     do { DEBUG_ASSERT (m_magic (mutexes s m) = MUTEX_MAGIC);
          if m_holder (mutexes s m) = Some (current s cpu) then None
          else mutex_acquire_timeout_internal cpu m timeout s }"

definition mutex_acquire :: "nat \<Rightarrow> nat \<Rightarrow> 'z sync_state_scheme \<Rightarrow> (outcome \<times> 'z sync_state_scheme) option" where
  "mutex_acquire cpu m = mutex_acquire_timeout cpu m INFINITE_TIME"

definition mutex_release_internal ::
  "nat \<Rightarrow> nat \<Rightarrow> bool \<Rightarrow> 'z sync_state_scheme \<Rightarrow> (outcome \<times> 'z sync_state_scheme) option" where
  "mutex_release_internal cpu m reschedule s =
     (let s = upd_mutex m (\<lambda>x. x\<lparr>m_holder := None, m_count := m_count x - 1\<rparr>) s in
      if 1 \<le> m_count (mutexes s m)
      then wait_queue_wake_one cpu (WQ_mutex m) reschedule NO_ERROR s
      else Some (Ret NO_ERROR, s))"

definition mutex_release :: "nat \<Rightarrow> nat \<Rightarrow> 'z sync_state_scheme \<Rightarrow> (outcome \<times> 'z sync_state_scheme) option" where
  "mutex_release cpu m s =
     do { DEBUG_ASSERT (m_magic (mutexes s m) = MUTEX_MAGIC);
          if m_holder (mutexes s m) \<noteq> Some (current s cpu) then None
          else do { os \<leftarrow> mutex_release_internal cpu m True s;
                    with_frame (current s cpu) (FR_const NO_ERROR) (\<lambda>_ s. Some (Ret NO_ERROR, s)) os } }"

definition is_mutex_held :: "nat \<Rightarrow> nat \<Rightarrow> 'z sync_state_scheme \<Rightarrow> bool" where
  "is_mutex_held cpu m s \<longleftrightarrow> m_holder (mutexes s m) = Some (current s cpu)"

section \<open>Semaphores\<close>

definition sem_init :: "nat \<Rightarrow> u32 \<Rightarrow> 'z sync_state_scheme \<Rightarrow> 'z sync_state_scheme option" where
  "sem_init x val s =
     wait_queue_init (WQ_sem x) (upd_sem x (\<lambda>_. \<lparr>sem_magic = SEMAPHORE_MAGIC, sem_count = sint val\<rparr>) s)"

definition sem_destroy :: "nat \<Rightarrow> nat \<Rightarrow> 'z sync_state_scheme \<Rightarrow> (outcome \<times> 'z sync_state_scheme) option" where
  "sem_destroy cpu x s = wait_queue_destroy cpu (WQ_sem x) True (upd_sem x (\<lambda>y. y\<lparr>sem_count := 0\<rparr>) s)"

definition sem_post ::
  "nat \<Rightarrow> nat \<Rightarrow> bool \<Rightarrow> 'z sync_state_scheme \<Rightarrow> (outcome \<times> 'z sync_state_scheme) option" where
  "sem_post cpu x resched s =
     (let s = upd_sem x (\<lambda>y. y\<lparr>sem_count := sem_count y + 1\<rparr>) s in
      if sem_count (sems s x) \<le> 0 then wait_queue_wake_one cpu (WQ_sem x) resched NO_ERROR s
      else Some (Ret 0, s))"

definition sem_wait :: "nat \<Rightarrow> nat \<Rightarrow> 'z sync_state_scheme \<Rightarrow> (outcome \<times> 'z sync_state_scheme) option" where
  "sem_wait cpu x s =
     (let s = upd_sem x (\<lambda>y. y\<lparr>sem_count := sem_count y - 1\<rparr>) s in
      if sem_count (sems s x) < 0 then wait_queue_block cpu (WQ_sem x) INFINITE_TIME s
      else Some (Ret NO_ERROR, s))"

definition sem_trywait :: "nat \<Rightarrow> 'z sync_state_scheme \<Rightarrow> outcome \<times> 'z sync_state_scheme" where
  "sem_trywait x s =
     (if sem_count (sems s x) \<le> 0 then (Ret ERR_NOT_READY, s)
      else (Ret NO_ERROR, upd_sem x (\<lambda>y. y\<lparr>sem_count := sem_count y - 1\<rparr>) s))"

definition sem_timedwait_woken ::
  "nat \<Rightarrow> int \<Rightarrow> 'z sync_state_scheme \<Rightarrow> (outcome \<times> 'z sync_state_scheme) option" where
  "sem_timedwait_woken x ret s =
     Some (Ret ret, if ret < NO_ERROR \<and> ret = ERR_TIMED_OUT
                    then upd_sem x (\<lambda>y. y\<lparr>sem_count := sem_count y + 1\<rparr>) s else s)"

definition sem_timedwait ::
  "nat \<Rightarrow> nat \<Rightarrow> lk_time \<Rightarrow> 'z sync_state_scheme \<Rightarrow> (outcome \<times> 'z sync_state_scheme) option" where
  "sem_timedwait cpu x timeout s =
     (let s = upd_sem x (\<lambda>y. y\<lparr>sem_count := sem_count y - 1\<rparr>) s in
      if sem_count (sems s x) < 0
      then do { os \<leftarrow> wait_queue_block cpu (WQ_sem x) timeout s;
                with_frame (current s cpu) (FR_sem_timedwait x) (sem_timedwait_woken x) os }
      else Some (Ret NO_ERROR, s))"

section \<open>Events\<close>

definition event_init :: "nat \<Rightarrow> bool \<Rightarrow> u32 \<Rightarrow> 'z sync_state_scheme \<Rightarrow> 'z sync_state_scheme option" where
  "event_init e initial fl s =
     wait_queue_init (WQ_event e)
       (upd_event e (\<lambda>_. \<lparr>e_magic = EVENT_MAGIC, e_signaled = initial, e_flags = fl\<rparr>) s)"

definition event_destroy :: "nat \<Rightarrow> nat \<Rightarrow> 'z sync_state_scheme \<Rightarrow> (outcome \<times> 'z sync_state_scheme) option" where
  "event_destroy cpu e s =
     do { DEBUG_ASSERT (e_magic (events s e) = EVENT_MAGIC);
          wait_queue_destroy cpu (WQ_event e) True
            (upd_event e (\<lambda>_. \<lparr>e_magic = 0, e_signaled = False, e_flags = 0\<rparr>) s) }"

definition event_wait_timeout ::
  "nat \<Rightarrow> nat \<Rightarrow> lk_time \<Rightarrow> 'z sync_state_scheme \<Rightarrow> (outcome \<times> 'z sync_state_scheme) option" where
  "event_wait_timeout cpu e timeout s =
     do { DEBUG_ASSERT (e_magic (events s e) = EVENT_MAGIC);
          if e_signaled (events s e)
          then Some (Ret NO_ERROR,
                 if e_flags (events s e) AND EVENT_FLAG_AUTOUNSIGNAL \<noteq> 0
                 then upd_event e (\<lambda>x. x\<lparr>e_signaled := False\<rparr>) s else s)
          else wait_queue_block cpu (WQ_event e) timeout s }"

text \<open>\<open>wait_queue_wake_one\<close> switches threads only after it has found one to wake, so nothing of
  \<open>event_signal\<close> is left to do for a thread that is switched away but to return.\<close>

definition event_signal ::
  "nat \<Rightarrow> nat \<Rightarrow> bool \<Rightarrow> 'z sync_state_scheme \<Rightarrow> (outcome \<times> 'z sync_state_scheme) option" where
  "event_signal cpu e reschedule s =
     do { DEBUG_ASSERT (e_magic (events s e) = EVENT_MAGIC);
          if \<not> e_signaled (events s e)
          then if e_flags (events s e) AND EVENT_FLAG_AUTOUNSIGNAL \<noteq> 0
               then do { os \<leftarrow> wait_queue_wake_one cpu (WQ_event e) reschedule NO_ERROR s;
                         with_frame (current s cpu) (FR_const NO_ERROR)
                           (\<lambda>n s. Some (Ret NO_ERROR,
                              if n \<le> 0 then upd_event e (\<lambda>x. x\<lparr>e_signaled := True\<rparr>) s else s)) os }
               else do { os \<leftarrow> wait_queue_wake_all cpu (WQ_event e) reschedule NO_ERROR
                                 (upd_event e (\<lambda>x. x\<lparr>e_signaled := True\<rparr>) s);
                         with_frame (current s cpu) (FR_const NO_ERROR) (\<lambda>_ s. Some (Ret NO_ERROR, s)) os }
          else Some (Ret NO_ERROR, s) }"

definition event_unsignal :: "nat \<Rightarrow> 'z sync_state_scheme \<Rightarrow> (outcome \<times> 'z sync_state_scheme) option" where
  "event_unsignal e s =
     do { DEBUG_ASSERT (e_magic (events s e) = EVENT_MAGIC);
          Some (Ret NO_ERROR, upd_event e (\<lambda>x. x\<lparr>e_signaled := False\<rparr>) s) }"

section \<open>Condition variables\<close>

definition cond_init :: "nat \<Rightarrow> 'z sync_state_scheme \<Rightarrow> 'z sync_state_scheme option" where
  "cond_init cv s = wait_queue_init (WQ_cond cv) (s\<lparr>cond_magic := (cond_magic s)(cv := COND_MAGIC)\<rparr>)"

definition cond_destroy :: "nat \<Rightarrow> nat \<Rightarrow> 'z sync_state_scheme \<Rightarrow> (outcome \<times> 'z sync_state_scheme) option" where
  "cond_destroy cpu cv s =
     do { DEBUG_ASSERT (cond_magic s cv = COND_MAGIC);
          wait_queue_destroy cpu (WQ_cond cv) True (s\<lparr>cond_magic := (cond_magic s)(cv := 0)\<rparr>) }"

definition cond_wait_woken ::
  "nat \<Rightarrow> nat \<Rightarrow> int \<Rightarrow> 'z sync_state_scheme \<Rightarrow> (outcome \<times> 'z sync_state_scheme) option" where
  "cond_wait_woken cpu m result s =
     do { os \<leftarrow> mutex_acquire_timeout_internal cpu m INFINITE_TIME s;
          with_frame (current s cpu) (FR_const result) (\<lambda>_ s. Some (Ret result, s)) os }"

definition cond_wait_timeout ::
  "nat \<Rightarrow> nat \<Rightarrow> nat \<Rightarrow> lk_time \<Rightarrow> 'z sync_state_scheme \<Rightarrow> (outcome \<times> 'z sync_state_scheme) option" where
  "cond_wait_timeout cpu cv m timeout s =
     do { DEBUG_ASSERT (cond_magic s cv = COND_MAGIC);
          DEBUG_ASSERT (m_magic (mutexes s m) = MUTEX_MAGIC);
          (_, s) \<leftarrow> mutex_release_internal cpu m False s;
          os \<leftarrow> wait_queue_block cpu (WQ_cond cv) timeout s;
          with_frame (current s cpu) (FR_cond_reacquire m) (cond_wait_woken cpu m) os }"

definition cond_signal :: "nat \<Rightarrow> nat \<Rightarrow> 'z sync_state_scheme \<Rightarrow> (outcome \<times> 'z sync_state_scheme) option" where
  "cond_signal cpu cv s =
     do { DEBUG_ASSERT (cond_magic s cv = COND_MAGIC);
          wait_queue_wake_one cpu (WQ_cond cv) True NO_ERROR s }"

definition cond_broadcast :: "nat \<Rightarrow> nat \<Rightarrow> 'z sync_state_scheme \<Rightarrow> (outcome \<times> 'z sync_state_scheme) option" where
  "cond_broadcast cpu cv s =
     do { DEBUG_ASSERT (cond_magic s cv = COND_MAGIC);
          wait_queue_wake_all cpu (WQ_cond cv) True NO_ERROR s }"

section \<open>Switching back to a thread\<close>

text \<open>One pending caller, given the value \<open>v\<close> that the function it called has returned. The callers in
  \<^verbatim>\<open>kernel/port.c\<close> and \<^verbatim>\<open>lib/cbuf/cbuf.c\<close> are run by \<open>port_run_frame\<close> and \<open>cbuf_run_frame\<close>, over the
  larger states of the theories \<open>Port\<close> and \<open>Cbuf\<close>.\<close>

fun run_frame ::
  "nat \<Rightarrow> frame \<Rightarrow> int \<Rightarrow> 'z sync_state_scheme \<Rightarrow> (outcome \<times> 'z sync_state_scheme) option" where
  "run_frame cpu (FR_block timeout) v s = wait_queue_block_end cpu timeout s"
| "run_frame cpu (FR_const r) v s = Some (Ret r, s)"
| "run_frame cpu (FR_wq_destroy w) v s = wait_queue_clear_magic w s"
| "run_frame cpu (FR_mutex_acquire m) v s = mutex_acquire_woken cpu m v s"
| "run_frame cpu (FR_sem_timedwait x) v s = sem_timedwait_woken x v s"
| "run_frame cpu (FR_cond_reacquire m) v s = cond_wait_woken cpu m v s"
| "run_frame cpu (FR_thread_join t retp) v s =
     (if v < 0 then Some (Ret v, s) else thread_join_end t retp s)"
| "run_frame cpu _ v s = None"

fun run_frames ::
  "nat \<Rightarrow> tid \<Rightarrow> frame list \<Rightarrow> int \<Rightarrow> 'z sync_state_scheme \<Rightarrow> (outcome \<times> 'z sync_state_scheme) option" where
  "run_frames cpu t [] v s = Some (Ret v, s)"
| "run_frames cpu t (f # fs) v s =
     do { (r, s) \<leftarrow> run_frame cpu f v s;
          (case r of
             Ret v \<Rightarrow> run_frames cpu t fs v s
           | Switched \<Rightarrow> Some (Switched, s\<lparr>kstack := (kstack s)(t := kstack s t @ fs)\<rparr>)) }"

text \<open>The current thread of the cpu goes on where it was switched out.\<close>

definition resume :: "nat \<Rightarrow> 'z sync_state_scheme \<Rightarrow> (outcome \<times> 'z sync_state_scheme) option" where
  "resume cpu s =
     (let cur = current s cpu in
      run_frames cpu cur (kstack s cur) NO_ERROR (s\<lparr>kstack := (kstack s)(cur := [])\<rparr>))"

end
