(* ===== verification/Demo.thy ===== *)
theory Demo
  imports Sync
begin

text \<open>
  A small concrete kernel state on which the witnesses of the kernel properties evaluate: one
  cpu; idle thread 0; thread 1 running; thread 2 ready at the same priority; thread 3 waiting for
  mutex 7, which thread 1 holds.
\<close>

definition demo_thread :: "int \<Rightarrow> thread_state \<Rightarrow> thread" where
  "demo_thread p st = zero_thread\<lparr>th_magic := THREAD_MAGIC, priority := p, state := st,
                                  pinned_cpu := - 1, remaining_quantum := 3, stack := 4096\<rparr>"

definition demo_threads :: "tid \<Rightarrow> thread" where
  "demo_threads = (\<lambda>_. zero_thread)
     (0 := (demo_thread 0 THREAD_READY)\<lparr>flags := THREAD_FLAG_IDLE, pinned_cpu := 0\<rparr>,
      1 := demo_thread 16 THREAD_RUNNING,
      2 := demo_thread 16 THREAD_READY,
      3 := (demo_thread 20 THREAD_BLOCKED)\<lparr>blocking_wait_queue := Some (WQ_mutex 7)\<rparr>)"

definition demo_queues :: "(qhead, tid) lstore" where
  "demo_queues = \<lparr>lcont = (\<lambda>_. [])(RunQ 16 := [2], WaitL (WQ_mutex 7) := [3]),
                  lon = [2 \<mapsto> RunQ 16, 3 \<mapsto> WaitL (WQ_mutex 7)]\<rparr>"

definition demo :: sync_state where
  "demo =
     \<lparr>timers = (\<lambda>_. TIMER_INITIAL_VALUE), tqueue = ls_empty, cur_time = 1000,
      hw_timer = (\<lambda>_. HW_STOPPED), has_dynamic_timer = True,
      threads = demo_threads, queues = demo_queues, run_queue_bitmap = 0x10000,
      thread_list = [3, 2, 1, 0], current = (\<lambda>_. 1), idle_threads = (\<lambda>c. c),
      wqs = (\<lambda>_. \<lparr>wq_magic = WAIT_QUEUE_MAGIC, wq_count = 0\<rparr>)
              (WQ_mutex 7 := \<lparr>wq_magic = WAIT_QUEUE_MAGIC, wq_count = 1\<rparr>),
      hires_time = 0, active_cpus = 1, idle_cpus = 0, realtime_cpus = 0, ipis = 0,
      kstack = (\<lambda>_. [])(3 := [FR_block INFINITE_TIME, FR_mutex_acquire 7]),
      freed = [], int_mem = (\<lambda>_. 0),
      mutexes = (\<lambda>_. \<lparr>m_magic = MUTEX_MAGIC, m_holder = None, m_count = 0\<rparr>)
                  (7 := \<lparr>m_magic = MUTEX_MAGIC, m_holder = Some 1, m_count = 2\<rparr>),
      sems = (\<lambda>_. \<lparr>sem_magic = SEMAPHORE_MAGIC, sem_count = 0\<rparr>),
      events = (\<lambda>_. \<lparr>e_magic = EVENT_MAGIC, e_signaled = False, e_flags = 0\<rparr>),
      cond_magic = (\<lambda>_. COND_MAGIC)\<rparr>"

lemmas demo_defs = demo_def demo_threads_def demo_thread_def demo_queues_def zero_thread_def

lemma demo_queue_ok: "ls_ok (queues demo)" "bitmap_ok demo"
proof -
  show "ls_ok (queues demo)" by (auto simp: demo_def demo_queues_def ls_ok_def)
  have "bit ((2 :: u32) ^ n) p \<longleftrightarrow> p = n" if "n < 32" for n p using that by (auto simp: bit_exp_iff)
  from this[of 16] have "bit (0x10000 :: u32) p \<longleftrightarrow> p = 16" for p by simp
  then show "bitmap_ok demo" by (simp add: demo_def demo_queues_def bitmap_ok_def)
qed

lemma demo_sched_inv: "sched_inv {0} {0} {} demo"
proof -
  have "queue_inv demo"
    using demo_queue_ok
    by (auto simp: queue_inv_def queued_ok_def demo_defs thread_is_idle_def split: if_splits)
  moreover have "thread_inv {} demo"
    by (auto simp: thread_inv_def demo_defs thread_is_idle_def)
  moreover have "cpu_inv {0} {0} demo"
    by (auto simp: cpu_inv_def demo_defs thread_is_idle_def split: if_splits)
  ultimately show ?thesis by (simp add: sched_inv_def)
qed

lemma demo_kinv: "kinv {0} demo"
proof -
  have "ls_ok (tqueue demo)" by (simp add: demo_def ls_ok_def ls_empty_def)
  then have "preempt_inv {0} demo"
    by (simp add: preempt_inv_def demo_def TIMER_INITIAL_VALUE_def ls_empty_def ls_in_list_def)
  with demo_sched_inv show ?thesis by (simp add: kinv_def)
qed

lemma demo_current: "current demo 0 = 1" "\<not> thread_is_idle (threads demo (current demo 0))"
  by (simp_all add: demo_defs thread_is_idle_def)

end
