(* ===== verification/Kernel_Props.thy ===== *)
theory Kernel_Props
  imports Demo
begin

text \<open>
  The properties of the scheduler, the wait queues and the thread life cycle, stated over the
  operations of \<open>Sched\<close>, \<open>Wait_Queue\<close> and \<open>Thread_Life\<close>, each with a witness on the state
  \<open>demo\<close>.
\<close>

lemma next_thread_eligible:
  assumes q: "queue_inv s" and u: "u \<in> set (lcont (queues s) (RunQ p))" "may_run_on c (threads s u)"
  shows "\<exists>k. p \<le> k \<and> List.find (\<lambda>t. may_run_on c (threads s t)) (lcont (queues s) (RunQ k)) = Some (next_thread c s) \<and>
     priority (threads s (next_thread c s)) = int k"
proof -
  have ok: "ls_ok (queues s)" "\<And>t h. lon (queues s) t = Some h \<Longrightarrow> queued_ok (threads s t) h" and bm: "bitmap_ok s"
    using q by (auto simp: queue_inv_def)
  have "p < 32" by (rule run_queue_lt32[OF bm u(1)])
  then obtain t where t: "top_choice c s = Some t" using top_choice_None[of c s p u] u by blast
  from top_choice_order[OF ok(1) t] obtain k where
    k: "k < 32" "List.find (\<lambda>u. may_run_on c (threads s u)) (lcont (queues s) (RunQ k)) = Some t"
      "\<forall>p' u. k < p' \<longrightarrow> p' < 32 \<longrightarrow> u \<in> set (lcont (queues s) (RunQ p')) \<longrightarrow> \<not> may_run_on c (threads s u)"
    by blast
  from find_mem[OF k(2)] have m: "t \<in> set (lcont (queues s) (RunQ k))" by blast
  then have "priority (threads s t) = int k"
    using ok(2)[of t "RunQ k"] ok(1) by (simp add: ls_ok_mem queued_ok_def)
  moreover have "p \<le> k" using k(3) u \<open>p < 32\<close> by (meson not_le)
  ultimately show ?thesis using t k(2) by (auto simp: next_thread_def)
qed

lemma next_thread_best:
  assumes q: "queue_inv s" and t: "lcont (queues s) (RunQ p) = ys @ t # zs" "may_run_on c (threads s t)"
    and none: "\<And>u. u \<in> set ys \<Longrightarrow> \<not> may_run_on c (threads s u)"
      "\<And>k u. p < k \<Longrightarrow> u \<in> set (lcont (queues s) (RunQ k)) \<Longrightarrow> \<not> may_run_on c (threads s u)"
  shows "next_thread c s = t"
proof -
  from next_thread_eligible[OF q, of t p c] t obtain k where
    k: "p \<le> k" "List.find (\<lambda>t. may_run_on c (threads s t)) (lcont (queues s) (RunQ k)) = Some (next_thread c s)"
    by auto
  have "k = p" using k none(2) find_mem[OF k(2)] by (metis le_neq_implies_less)
  moreover have "List.find (\<lambda>t. may_run_on c (threads s t)) ys = None" using none(1) by (simp add: find_None_iff)
  ultimately show ?thesis using k(2) t by (simp add: find_append)
qed

lemma requeued_queues:
  assumes "requeued f t s s1"
  shows "lcont (queues s1) (RunQ p) =
     (if \<not> thread_is_idle (threads s t) \<and> p = nat (priority (threads s t)) then f t (lcont (queues s) (RunQ p))
      else lcont (queues s) (RunQ p))"
    "may_run_on c (threads s1 u) = may_run_on c (threads s u)" "priority (threads s1 u) = priority (threads s u)"
  using assms ready_at_lcont[of t "f t" "set_state t THREAD_READY s" s1 p] ready_at_frame[of t "f t" "set_state t THREAD_READY s" s1]
  by (auto simp: requeued_def may_run_on_def split: if_splits)

text \<open>A thread at the end of its queue is not chosen while another of at least its priority is
  eligible.\<close>

lemma tail_not_next:
  assumes q: "queue_inv s" and u: "u \<in> set (lcont (queues s) (RunQ p))" "u \<noteq> cur" "may_run_on c (threads s u)"
      "priority (threads s cur) \<le> int p"
    and last: "\<And>k. cur \<in> set (lcont (queues s) (RunQ k)) \<Longrightarrow> \<exists>xs. lcont (queues s) (RunQ k) = xs @ [cur]"
  shows "next_thread c s \<noteq> cur \<and> int p \<le> priority (threads s (next_thread c s))"
proof -
  from next_thread_eligible[OF q u(1,3)] obtain k where
    k: "p \<le> k" "List.find (\<lambda>t. may_run_on c (threads s t)) (lcont (queues s) (RunQ k)) = Some (next_thread c s)"
      "priority (threads s (next_thread c s)) = int k" by blast
  have "next_thread c s \<noteq> cur"
  proof
    assume e: "next_thread c s = cur"
    then have kp: "k = p" using k(1,3) u(4) by simp
    have "cur \<in> set (lcont (queues s) (RunQ k))" using find_mem[OF k(2)] e by simp
    from last[OF this] obtain xs where xs: "lcont (queues s) (RunQ k) = xs @ [cur]" by blast
    moreover have "distinct (lcont (queues s) (RunQ k))" using q by (simp add: queue_inv_def ls_ok_distinct)
    ultimately have "cur \<notin> set xs" "u \<in> set xs" using u(1,2) kp by auto
    then have "List.find (\<lambda>t. may_run_on c (threads s t)) xs \<noteq> None" using u(3) by (auto simp: find_None_iff)
    then obtain v where v: "List.find (\<lambda>t. may_run_on c (threads s t)) xs = Some v" by blast
    with k(2) xs find_mem[OF v] e \<open>cur \<notin> set xs\<close> show False by (auto simp: find_append)
  qed
  then show ?thesis using k by simp
qed

text \<open>
  C2: Yielding is round robin by priority. In every state that satisfies the kernel invariant,
  \<open>thread_yield\<close> returns without a panic and keeps the invariant; if a thread of the same or a
  higher priority is ready and may run on this cpu, the yielding thread stops running and one of at
  least that priority runs; if there is none (and the yielding thread, not an idle thread, may run
  here), it simply goes on.
\<close>

theorem thread_yield_round_robin:
  assumes "kinv C s" "c \<in> C"
  shows "\<exists>r s'. thread_yield c s = Some (r, s') \<and> kinv C s' \<and>
     (\<forall>u p. u \<in> set (lcont (queues s) (RunQ p)) \<longrightarrow> may_run_on c (threads s u) \<longrightarrow>
        priority (threads s (current s c)) \<le> int p \<longrightarrow>
        r = Switched \<and> current s' c \<noteq> current s c \<and> int p \<le> priority (threads s (current s' c))) \<and>
     ((\<forall>u p. u \<in> set (lcont (queues s) (RunQ p)) \<longrightarrow> priority (threads s (current s c)) \<le> int p \<longrightarrow>
         \<not> may_run_on c (threads s u)) \<longrightarrow>
      may_run_on c (threads s (current s c)) \<longrightarrow> \<not> thread_is_idle (threads s (current s c)) \<longrightarrow>
        r = Ret NO_ERROR \<and> current s' = current s)"
proof -
  let ?cur = "current s c" and ?s0 = "upd_thread (current s c) (\<lambda>th. th\<lparr>remaining_quantum := 0\<rparr>) s"
  let ?p = "nat (priority (threads s ?cur))"
  from thread_yield_wp[OF assms] obtain r s' where
    y: "thread_yield c s = Some (r, s')" "put_back_resched (\<lambda>t xs. xs @ [t]) C c ?s0 (r, s')" by (auto simp: wp_ex)
  from y(2) obtain s1 where s1: "requeued (\<lambda>t xs. xs @ [t]) ?cur ?s0 s1" "queue_inv s1" "resched_post C {} c s1 (r, s')"
      "current s1 = current s"
    by (auto simp: put_back_resched_def)
  have q1: "lcont (queues s1) (RunQ p) = (if \<not> thread_is_idle (threads s ?cur) \<and> p = ?p
      then lcont (queues s) (RunQ p) @ [?cur] else lcont (queues s) (RunQ p))" for p
    using requeued_queues(1)[OF s1(1), of p] by (simp add: thread_is_idle_def)
  have m1: "may_run_on c (threads s1 u) = may_run_on c (threads s u)"
    "priority (threads s1 u) = priority (threads s u)" for u
    using requeued_queues(2,3)[OF s1(1), where u = u] by (auto simp: may_run_on_def)
  have post: "current s' = (current s)(c := next_thread c s1)" "r = (if next_thread c s1 = ?cur then Ret NO_ERROR else Switched)"
    using s1(3,4) by (auto simp: resched_post_def)
  have cur: "?cur \<notin> set (lcont (queues s) (RunQ p))" "0 \<le> priority (threads s ?cur)" for p
    using kinv_current[OF assms] ls_ok_mem[of "queues s" ?cur] assms
    by (auto simp: kinv_def sched_inv_def queue_inv_def thread_inv_def)
  have "r = Switched \<and> current s' c \<noteq> ?cur \<and> int p \<le> priority (threads s (current s' c))"
    if u: "u \<in> set (lcont (queues s) (RunQ p))" "may_run_on c (threads s u)" "priority (threads s ?cur) \<le> int p" for u p
  proof -
    have "next_thread c s1 \<noteq> ?cur \<and> int p \<le> priority (threads s1 (next_thread c s1))"
      by (rule tail_not_next[OF s1(2), of u]) (use u cur(1) in \<open>auto simp: q1 m1 split: if_splits\<close>)
    then show ?thesis using post by (simp add: m1)
  qed
  moreover have "r = Ret NO_ERROR \<and> current s' = current s"
    if n: "\<forall>u p. u \<in> set (lcont (queues s) (RunQ p)) \<longrightarrow> priority (threads s ?cur) \<le> int p \<longrightarrow> \<not> may_run_on c (threads s u)"
      and e: "may_run_on c (threads s ?cur)" "\<not> thread_is_idle (threads s ?cur)"
  proof -
    have "next_thread c s1 = ?cur"
      by (rule next_thread_best[OF s1(2), where p = ?p and ys = "lcont (queues s) (RunQ ?p)" and zs = "[]"])
        (use n e cur(2) in \<open>auto simp: q1 m1\<close>)
    then show ?thesis using post by auto
  qed
  ultimately show ?thesis using y put_back_kinv[OF y(2)] by blast
qed

theorem thread_yield_round_robin_witness:
  "\<exists>r s'. thread_yield 0 demo = Some (r, s') \<and> kinv {0} s' \<and> r = Switched \<and> current s' 0 \<noteq> 1"
proof -
  have "2 \<in> set (lcont (queues demo) (RunQ 16))" "may_run_on 0 (threads demo 2)"
    "priority (threads demo (current demo 0)) \<le> int 16"
    by (simp_all add: demo_defs may_run_on_def)
  with thread_yield_round_robin[OF demo_kinv, of 0] demo_current(1) show ?thesis
    by (metis singletonI)
qed

text \<open>
  C4: The bitmap search is a scan of all run queues. \<open>get_top_thread\<close> returns the first thread
  that may run on the cpu in the order of the queues from priority 31 down to 0, each from its
  head, takes it off its queue and clears the bit of a queue that became empty; it returns the
  idle thread of the cpu, with nothing changed, exactly when no ready thread may run there.
\<close>

theorem get_top_thread_scans_run_queues:
  assumes "ls_ok (queues s)" "bitmap_ok s"
  shows "get_top_thread cpu s =
    (case List.find (\<lambda>t. may_run_on cpu (threads s t))
            (concat (map (\<lambda>p. lcont (queues s) (RunQ p)) (rev [0..<32]))) of
       None \<Rightarrow> Some (idle_threads s cpu, s)
     | Some t \<Rightarrow> map_option (Pair t) (remove_ready t s))"
  using get_top_thread_choice[OF assms] by (simp add: top_choice_def)

theorem get_top_thread_scans_run_queues_witness:
  "get_top_thread 0 demo = map_option (Pair 2) (remove_ready 2 demo)"
proof -
  have "concat (map (\<lambda>p. lcont (queues demo) (RunQ p)) (rev [0..<32])) = [2]"
    unfolding demo_defs by code_simp
  then show ?thesis
    using get_top_thread_scans_run_queues[OF demo_queue_ok, of 0]
    by (simp add: demo_defs may_run_on_def)
qed

text \<open>
  C6: Rescheduling is total and keeps the scheduler invariant. When every online cpu but \<open>c\<close> runs
  the thread marked running, and the current thread of \<open>c\<close> has been put wherever it belongs,
  \<open>thread_resched\<close> on \<open>c\<close> does not panic (in particular it never re-arms a pending preemption
  timer); afterwards every cpu runs exactly its current thread, no ready or blocked thread is off
  its queue, and \<open>c\<close> runs the thread chosen by \<open>next_thread\<close>: the first eligible one of the run
  queues, or the idle thread.
\<close>

theorem thread_resched_restores_invariant:
  assumes "sched_inv C (C - {c}) {} s" "c \<in> C" "preempt_inv C s"
  shows "\<exists>r s'. thread_resched c s = Some (r, s') \<and> kinv C s' \<and>
     current s' = (current s)(c := next_thread c s) \<and>
     state (threads s' (next_thread c s)) = THREAD_RUNNING \<and>
     (r = Switched \<longleftrightarrow> next_thread c s \<noteq> current s c) \<and>
     (\<forall>w. lcont (queues s') (WaitL w) = lcont (queues s) (WaitL w))"
  using thread_resched_wp[OF assms] by (auto simp: wp_ex resched_post_def kinv_def resched_frame_def)

theorem thread_resched_restores_invariant_witness:
  "\<exists>r s'. thread_resched 0 (set_state 1 THREAD_SLEEPING demo) = Some (r, s') \<and> kinv {0} s'"
proof -
  let ?s = "set_state 1 THREAD_SLEEPING demo"
  have "sched_inv {0} {c \<in> {0}. current demo c \<noteq> 1} {1} ?s"
    using set_state_inv[OF demo_sched_inv, of 1 THREAD_SLEEPING] by (simp add: demo_defs)
  moreover have "{c \<in> {0}. current demo c \<noteq> 1} = {0} - {0::nat}" by (simp add: demo_defs)
  ultimately have "sched_inv {0} ({0} - {0}) {} ?s"
    by (auto simp: sched_inv_def thread_inv_def demo_defs)
  moreover have "preempt_inv {0} ?s"
    using demo_kinv by (simp add: kinv_def preempt_inv_def demo_defs thread_is_real_time_or_idle_def)
  ultimately show ?thesis using thread_resched_restores_invariant[of "{0}" 0 ?s] by auto
qed

text \<open>
  Preemption respects the time slice. \<open>thread_preempt\<close> does not panic and keeps the invariant;
  a thread with quantum left goes on running unless a thread of strictly higher priority is
  eligible, and a thread whose quantum is used up gives way to an eligible thread of the same
  priority.
\<close>

theorem thread_preempt_respects_quantum:
  assumes inv: "kinv C s" "c \<in> C" and cur: "\<not> thread_is_idle (threads s (current s c))" "may_run_on c (threads s (current s c))"
  shows "\<exists>r s'. thread_preempt c s = Some (r, s') \<and> kinv C s' \<and>
    (0 < remaining_quantum (threads s (current s c)) \<longrightarrow>
      (\<forall>u p. u \<in> set (lcont (queues s) (RunQ p)) \<longrightarrow> may_run_on c (threads s u) \<longrightarrow> int p \<le> priority (threads s (current s c))) \<longrightarrow>
        current s' = current s \<and> r = Ret NO_ERROR) \<and>
    (remaining_quantum (threads s (current s c)) \<le> 0 \<longrightarrow>
      (\<exists>u \<in> set (lcont (queues s) (RunQ (nat (priority (threads s (current s c)))))). may_run_on c (threads s u)) \<longrightarrow>
        current s' c \<noteq> current s c \<and> r = Switched)"
proof -
  let ?cur = "current s c"
  let ?p = "nat (priority (threads s ?cur))"
  let ?f = "if 0 < remaining_quantum (threads s ?cur) then (\<lambda>t xs. t # xs) else (\<lambda>t xs. xs @ [t])"
  from thread_preempt_wp[OF inv] obtain r s' where
    y: "thread_preempt c s = Some (r, s')" "put_back_resched ?f C c s (r, s')" by (auto simp: wp_ex)
  from y(2) obtain s1 where s1: "requeued ?f ?cur s s1" "queue_inv s1" "resched_post C {} c s1 (r, s')"
      "current s1 = current s"
    by (auto simp: put_back_resched_def)
  note q1 = requeued_queues(1)[OF s1(1)]
  have m1: "may_run_on c (threads s1 u) = may_run_on c (threads s u)"
    "priority (threads s1 u) = priority (threads s u)" for u
    using requeued_queues(2,3)[OF s1(1), where u = u] by auto
  have post: "current s' = (current s)(c := next_thread c s1)" "r = (if next_thread c s1 = ?cur then Ret NO_ERROR else Switched)"
    using s1(3,4) by (auto simp: resched_post_def)
  have c0: "?cur \<notin> set (lcont (queues s) (RunQ p))" "0 \<le> priority (threads s ?cur)" for p
    using kinv_current[OF inv] ls_ok_mem[of "queues s" ?cur] inv
    by (auto simp: kinv_def sched_inv_def queue_inv_def thread_inv_def)
  have "current s' = current s \<and> r = Ret NO_ERROR"
    if rq: "0 < remaining_quantum (threads s ?cur)"
      and n: "\<forall>u p. u \<in> set (lcont (queues s) (RunQ p)) \<longrightarrow> may_run_on c (threads s u) \<longrightarrow> int p \<le> priority (threads s ?cur)"
  proof -
    have n': "\<not> may_run_on c (threads s u)" if "?p < k" "u \<in> set (lcont (queues s) (RunQ k))" for k u
      using n that by (metis nat_less_iff not_le zero_le_imp_eq_int nat_int c0(2))
    have "next_thread c s1 = ?cur"
      by (rule next_thread_best[OF s1(2), where p = ?p and ys = "[]" and zs = "lcont (queues s) (RunQ ?p)"])
        (use rq n' cur in \<open>auto simp: q1 m1\<close>)
    then show ?thesis using post by auto
  qed
  moreover have "current s' c \<noteq> ?cur \<and> r = Switched"
    if rq: "remaining_quantum (threads s ?cur) \<le> 0"
      and u: "u \<in> set (lcont (queues s) (RunQ ?p))" "may_run_on c (threads s u)" for u
  proof -
    have "next_thread c s1 \<noteq> ?cur \<and> int ?p \<le> priority (threads s1 (next_thread c s1))"
      by (rule tail_not_next[OF s1(2), of u]) (use rq u c0 cur in \<open>auto simp: q1 m1 split: if_splits\<close>)
    then show ?thesis using post by simp
  qed
  ultimately show ?thesis using y put_back_kinv[OF y(2)] by blast
qed

theorem thread_preempt_respects_quantum_witness:
  "\<exists>r s'. thread_preempt 0 demo = Some (r, s') \<and> kinv {0} s' \<and> current s' = current demo \<and> r = Ret NO_ERROR"
proof -
  have "may_run_on 0 (threads demo (current demo 0))" "0 < remaining_quantum (threads demo (current demo 0))"
    "\<forall>u p. u \<in> set (lcont (queues demo) (RunQ p)) \<longrightarrow> may_run_on 0 (threads demo u) \<longrightarrow>
       int p \<le> priority (threads demo (current demo 0))"
    by (auto simp: demo_defs may_run_on_def)
  with thread_preempt_respects_quantum[OF demo_kinv _ demo_current(2)] show ?thesis by blast
qed

text \<open>
  C7: Blocking. \<open>wait_queue_block\<close> with a nonzero timeout, called by a thread that is not idle and
  has no timer pending, appends the thread to the queue and always switches to another thread;
  when the timeout is finite the thread's timer is armed for it, once, with \<open>wait_queue_timeout_handler\<close> on
  this thread as its callback. A zero timeout is \<open>ERR_TIMED_OUT\<close> at once.
\<close>

theorem wait_queue_block_blocks:
  assumes "kinv C s" "c \<in> C" "\<not> thread_is_idle (threads s (current s c))"
    "wq_magic (wqs s w) = WAIT_QUEUE_MAGIC" "lon (tqueue s) (TM_stack (current s c)) = None"
  shows "wait_queue_block c w 0 s = Some (Ret ERR_TIMED_OUT, s) \<and>
    (timeout \<noteq> 0 \<longrightarrow> (\<exists>s'. wait_queue_block c w timeout s = Some (Switched, s') \<and> kinv C s' \<and>
       lcont (queues s') (WaitL w) = lcont (queues s) (WaitL w) @ [current s c] \<and>
       state (threads s' (current s c)) = THREAD_BLOCKED \<and> current s' c \<noteq> current s c \<and>
       kstack s' (current s c) = kstack s (current s c) @ [FR_block timeout] \<and>
       (timeout \<noteq> INFINITE_TIME \<longrightarrow> lon (tqueue s') (TM_stack (current s c)) = Some c \<and>
          timers s' (TM_stack (current s c)) = \<lparr>tm_magic = TIMER_MAGIC, scheduled_time = cur_time s + timeout,
            periodic_time = 0, callback = Some CB_wait_queue_timeout_handler, tm_arg = current s c\<rparr>)))"
proof
  show "wait_queue_block c w 0 s = Some (Ret ERR_TIMED_OUT, s)"
    using assms(4) kinv_current[OF assms(1,2)] by (simp add: wait_queue_block_def)
  show "timeout \<noteq> 0 \<longrightarrow> (\<exists>s'. wait_queue_block c w timeout s = Some (Switched, s') \<and> kinv C s' \<and>
       lcont (queues s') (WaitL w) = lcont (queues s) (WaitL w) @ [current s c] \<and>
       state (threads s' (current s c)) = THREAD_BLOCKED \<and> current s' c \<noteq> current s c \<and>
       kstack s' (current s c) = kstack s (current s c) @ [FR_block timeout] \<and>
       (timeout \<noteq> INFINITE_TIME \<longrightarrow> lon (tqueue s') (TM_stack (current s c)) = Some c \<and>
          timers s' (TM_stack (current s c)) = \<lparr>tm_magic = TIMER_MAGIC, scheduled_time = cur_time s + timeout,
            periodic_time = 0, callback = Some CB_wait_queue_timeout_handler, tm_arg = current s c\<rparr>))"
    using wait_queue_block_wp[OF assms(1-4) _ assms(5), of timeout] by (auto simp: wp_ex blocked_post_def Let_def)
qed

theorem wait_queue_block_blocks_witness:
  "\<exists>s'. wait_queue_block 0 (WQ_sem 5) 20 demo = Some (Switched, s') \<and> kinv {0} s' \<and>
     lcont (queues s') (WaitL (WQ_sem 5)) = [1]"
proof -
  have "wq_magic (wqs demo (WQ_sem 5)) = WAIT_QUEUE_MAGIC" "lon (tqueue demo) (TM_stack (current demo 0)) = None"
    "lcont (queues demo) (WaitL (WQ_sem 5)) = []"
    by (simp_all add: demo_defs ls_empty_def)
  with wait_queue_block_blocks[OF demo_kinv _ demo_current(2), of "WQ_sem 5" 20] demo_current(1) show ?thesis by auto
qed



text \<open>
  \<open>wait_queue_wake_all\<close> empties the queue. Every waiter becomes ready with the given return
  value, in front of the threads already on its run queue (the last waiter first); the result is
  the number of threads woken.
\<close>

theorem wait_queue_wake_all_empties:
  assumes "kinv C s" "wq_magic (wqs s w) = WAIT_QUEUE_MAGIC"
  shows "\<exists>s'. wait_queue_wake_all c w False err s = Some (Ret (int (length (lcont (queues s) (WaitL w)))), s') \<and>
     kinv C s' \<and> lcont (queues s') (WaitL w) = [] \<and>
     (\<forall>t \<in> set (lcont (queues s) (WaitL w)).
        state (threads s' t) = THREAD_READY \<and> wait_queue_block_ret (threads s' t) = err) \<and>
     (\<forall>p. lcont (queues s') (RunQ p) =
        rev (filter (\<lambda>t. nat (priority (threads s t)) = p) (lcont (queues s) (WaitL w))) @ lcont (queues s) (RunQ p))"
proof -
  note k = kinvD[OF assms(1)]
  from wake_all_wp[OF k(1) assms(2) refl, of c err] obtain s' where
    s': "wait_queue_wake_all c w False err s = Some (Ret (int (length (lcont (queues s) (WaitL w)))), s')"
      "sched_inv C C {} s'" "wake_post {} w err (lcont (queues s) (WaitL w)) [] s s'"
      "pushed_all (lcont (queues s) (WaitL w)) s s'" by (auto simp: wp_ex)
  have "preempt_inv C s'"
    by (rule preempt_inv_base[OF k(2) conjunct1[OF s'(3)[unfolded wake_post_def]]])
      (use s'(4) in \<open>simp_all add: pushed_all_def\<close>)
  with s' show ?thesis by (simp add: kinv_def wake_post_def pushed_all_def)
qed

theorem wait_queue_wake_all_empties_witness:
  "\<exists>s'. wait_queue_wake_all 0 (WQ_mutex 7) False 0 demo = Some (Ret 1, s') \<and> kinv {0} s'"
proof -
  have "wq_magic (wqs demo (WQ_mutex 7)) = WAIT_QUEUE_MAGIC" "lcont (queues demo) (WaitL (WQ_mutex 7)) = [3]"
    by (simp_all add: demo_defs)
  with wait_queue_wake_all_empties[OF demo_kinv, of "WQ_mutex 7" 0 0] show ?thesis by auto
qed

text \<open>
  Timeouts. The timer callback of a blocked thread takes it out of the queue it waits on,
  wherever it stands there, and makes it ready with \<open>ERR_TIMED_OUT\<close>; for a thread that has been
  woken in the meantime it does nothing. It never panics on a live thread.
\<close>

theorem wait_queue_timeout_handler_unblocks:
  assumes "kinv C s" "th_magic (threads s t) = THREAD_MAGIC" "\<not> thread_is_idle (threads s t)"
  shows "\<exists>r s'. wait_queue_timeout_handler c t s = Some (r, s') \<and> kinv C s' \<and>
     (if state (threads s t) = THREAD_BLOCKED
      then r = INT_RESCHEDULE \<and> state (threads s' t) = THREAD_READY \<and>
           wait_queue_block_ret (threads s' t) = ERR_TIMED_OUT \<and>
           (\<exists>w. blocking_wait_queue (threads s t) = Some w \<and>
              lcont (queues s') (WaitL w) = remove1 t (lcont (queues s) (WaitL w)) \<and>
              wq_count (wqs s' w) = wq_count (wqs s w) - 1)
      else r = INT_NO_RESCHEDULE \<and> s' = s)"
proof -
  note k = kinvD[OF assms(1)]
  from timeout_handler_wp[OF k(1) assms(2,3), of c] obtain r s' where
    s': "wait_queue_timeout_handler c t s = Some (r, s')" "sched_inv C C {} s'"
     "if state (threads s t) = THREAD_BLOCKED
      then r = INT_RESCHEDULE \<and> (\<exists>s1 w. blocking_wait_queue (threads s t) = Some w \<and>
             woken w ERR_TIMED_OUT t s s1 \<and> s' = mp_reschedule c 0xFFFFFFFF 0 s1)
      else r = INT_NO_RESCHEDULE \<and> s' = s" by (auto simp: wp_ex)
  show ?thesis
  proof (cases "state (threads s t) = THREAD_BLOCKED")
    case False
    with s' assms(1) show ?thesis by simp
  next
    case True
    with s'(3) obtain s1 w where w: "r = INT_RESCHEDULE" "blocking_wait_queue (threads s t) = Some w"
      "woken w ERR_TIMED_OUT t s s1" "s' = mp_reschedule c 0xFFFFFFFF 0 s1" by auto
    have "preempt_inv C s'"
      using acct_frame_kinv(2)[OF acct_frame_mp_reschedule woken_preempt[OF w(3) k(2)]] w(4) by simp
    with True w s' show ?thesis
      by (simp add: kinv_def woken_def mp_reschedule_def Let_def)
  qed
qed

theorem wait_queue_timeout_handler_unblocks_witness:
  "\<exists>r s'. wait_queue_timeout_handler 0 3 demo = Some (r, s') \<and> kinv {0} s' \<and> r = INT_RESCHEDULE \<and>
     wait_queue_block_ret (threads s' 3) = ERR_TIMED_OUT"
proof -
  have "th_magic (threads demo 3) = THREAD_MAGIC" "\<not> thread_is_idle (threads demo 3)" "state (threads demo 3) = THREAD_BLOCKED"
    by (simp_all add: demo_defs thread_is_idle_def)
  with wait_queue_timeout_handler_unblocks[OF demo_kinv, of 3 0] show ?thesis by auto
qed

text \<open>
  C9: \<open>thread_exit\<close> never returns. The exiting thread is dead with its return code, another
  thread runs, and the invariant holds; a detached thread is taken off the thread list, loses its
  magic and its stack and structure are freed as its flags say, and for a joinable one every thread
  blocked in \<open>thread_join\<close> on it is woken with \<open>NO_ERROR\<close>.
\<close>

theorem thread_exit_reaps:
  assumes "kinv C s" "c \<in> C" "\<not> thread_is_idle (threads s (current s c))"
    "current s c \<in> set (thread_list s)" "wq_magic (wqs s (WQ_retcode (current s c))) = WAIT_QUEUE_MAGIC"
  shows "\<exists>s'. thread_exit c rc s = Some (Switched, s') \<and> kinv C s' \<and> current s' c \<noteq> current s c \<and>
     exited (current s c) rc s s'"
  using thread_exit_detached_wp[OF assms(1-4), of rc] thread_exit_joinable_wp[OF assms(1-3,5), of rc]
  by (cases "flags (threads s (current s c)) AND THREAD_FLAG_DETACHED \<noteq> 0") (auto simp: wp_ex)

theorem thread_exit_reaps_witness:
  "\<exists>s'. thread_exit 0 9 demo = Some (Switched, s') \<and> kinv {0} s' \<and> exited 1 9 demo s'"
proof -
  have "current demo 0 \<in> set (thread_list demo)" "wq_magic (wqs demo (WQ_retcode (current demo 0))) = WAIT_QUEUE_MAGIC"
    by (simp_all add: demo_defs)
  with thread_exit_reaps[OF demo_kinv _ demo_current(2), of 9] demo_current(1) show ?thesis by auto
qed

text \<open>
  Joining a dead thread that is not detached returns \<open>NO_ERROR\<close> at once: the return code is
  stored where the caller asked for it, the thread leaves the thread list, loses its magic, and its
  stack and structure are freed as its flags say. Joining a detached thread is an error that
  changes nothing.
\<close>

theorem thread_join_dead:
  assumes "kinv C s" "th_magic (threads s t) = THREAD_MAGIC" "state (threads s t) = THREAD_DEATH"
    "\<not> thread_is_idle (threads s t)" "blocking_wait_queue (threads s t) = None" "t \<in> set (thread_list s)"
  shows "(flags (threads s t) AND THREAD_FLAG_DETACHED \<noteq> 0 \<longrightarrow>
            thread_join c t retp timeout s = Some (Ret ERR_THREAD_DETACHED, s)) \<and>
     (flags (threads s t) AND THREAD_FLAG_DETACHED = 0 \<longrightarrow>
       (\<exists>s'. thread_join c t retp timeout s = Some (Ret NO_ERROR, s') \<and> kinv C s' \<and>
          th_magic (threads s' t) = 0 \<and> thread_list s' = remove1 t (thread_list s) \<and>
          (\<forall>a. retp = Some a \<longrightarrow> int_mem s' a = retcode (threads s t)) \<and>
          freed s' = freed s @
            (if flags (threads s t) AND THREAD_FLAG_FREE_STACK \<noteq> 0 \<and> stack (threads s t) \<noteq> 0
             then [stack (threads s t)] else []) @
            (if flags (threads s t) AND THREAD_FLAG_FREE_STRUCT \<noteq> 0 then [t] else [])))"
  using thread_join_end_wp[OF assms, of retp] assms(2,3) by (auto simp: thread_join_def wp_ex)

definition demo_dead :: sync_state where
  "demo_dead = upd_thread 3 (\<lambda>th. th\<lparr>state := THREAD_DEATH, flags := THREAD_FLAG_FREE_STACK,
       blocking_wait_queue := None, retcode := 42\<rparr>)
     (demo\<lparr>queues := \<lparr>lcont = (\<lambda>_. [])(RunQ 16 := [2]), lon = [2 \<mapsto> RunQ 16]\<rparr>,
           wqs := (\<lambda>_. \<lparr>wq_magic = WAIT_QUEUE_MAGIC, wq_count = 0\<rparr>)\<rparr>)"

lemma demo_dead_kinv: "kinv {0} demo_dead"
proof -
  have b: "bitmap_ok demo_dead" using demo_queue_ok(2) by (simp add: bitmap_ok_def demo_dead_def demo_defs)
  have o: "ls_ok (queues demo_dead)" by (auto simp: demo_dead_def ls_ok_def)
  have q: "queue_inv demo_dead"
    using b o by (auto simp: queue_inv_def queued_ok_def demo_dead_def demo_defs thread_is_idle_def split: if_splits)
  have t: "thread_inv {} demo_dead"
    by (auto simp: thread_inv_def demo_dead_def demo_defs thread_is_idle_def)
  have c: "cpu_inv {0} {0} demo_dead"
    by (auto simp: cpu_inv_def demo_dead_def demo_defs thread_is_idle_def split: if_splits)
  have p: "preempt_inv {0} demo_dead"
    using demo_kinv by (simp add: kinv_def preempt_inv_def demo_dead_def demo_defs thread_is_real_time_or_idle_def)
  from q t c p show ?thesis by (simp add: kinv_def sched_inv_def)
qed

theorem thread_join_dead_witness:
  "\<exists>s'. thread_join 0 3 (Some 100) 0 demo_dead = Some (Ret NO_ERROR, s') \<and> kinv {0} s' \<and>
     int_mem s' 100 = 42 \<and> freed s' = [4096]"
proof -
  have "th_magic (threads demo_dead 3) = THREAD_MAGIC" "state (threads demo_dead 3) = THREAD_DEATH"
    "\<not> thread_is_idle (threads demo_dead 3)" "blocking_wait_queue (threads demo_dead 3) = None"
    "3 \<in> set (thread_list demo_dead)" "flags (threads demo_dead 3) = 2" "retcode (threads demo_dead 3) = 42"
    "stack (threads demo_dead 3) = 4096" "freed demo_dead = []"
    by (simp_all add: demo_dead_def demo_defs thread_is_idle_def)
  with thread_join_dead[OF demo_dead_kinv, of 3 0 "Some 100" 0] show ?thesis by auto
qed

text \<open>
  C10: Sleeping. \<open>thread_sleep\<close> puts the current thread to sleep and switches to another thread. Its timer is then
  queued on this cpu as a one-shot timer for the delay (at least one tick) with \<open>thread_sleep_handler\<close> on this
  thread as callback, and is ready for \<open>timer_tick\<close> to fire. The callback that the timer carries makes the sleeping
  thread ready at the head of the run queue of its priority and asks for a reschedule. Neither panics.
\<close>

theorem thread_sleep_and_wake:
  assumes "kinv C s" "c \<in> C" "\<not> thread_is_idle (threads s (current s c))"
    "lon (tqueue s) (TM_stack (current s c)) = None"
  shows "\<exists>s' tm. thread_sleep c delay s = Some (Switched, s') \<and> kinv C s' \<and>
     state (threads s' (current s c)) = THREAD_SLEEPING \<and> current s' c \<noteq> current s c \<and>
     lon (tqueue s') (TM_stack (current s c)) = Some c \<and> timers s' (TM_stack (current s c)) = tm \<and>
     scheduled_time tm = cur_time s + (if delay = 0 then 1 else delay) \<and> periodic_time tm = 0 \<and>
     callback tm = Some CB_thread_sleep_handler \<and> tm_arg tm = current s c \<and> kernel_ready (TM_stack (current s c)) s' \<and>
     (\<exists>s2. kernel_fire c (the (callback tm)) (TM_stack (current s c)) now (tm_arg tm) s' = Some (INT_RESCHEDULE, s2) \<and> kinv C s2 \<and>
       state (threads s2 (current s c)) = THREAD_READY \<and>
       lcont (queues s2) (RunQ (nat (priority (threads s (current s c))))) =
         current s c # lcont (queues s') (RunQ (nat (priority (threads s (current s c))))))"
proof -
  let ?cur = "current s c"
  from thread_sleep_wp[OF assms, of delay] obtain s' where
    s': "thread_sleep c delay s = Some (Switched, s')" "kinv C s'" "state (threads s' ?cur) = THREAD_SLEEPING"
      "current s' c \<noteq> ?cur" "lon (tqueue s') (TM_stack ?cur) = Some c"
      "thread_core (threads s' ?cur) = thread_core (threads s ?cur)"
      "timers s' (TM_stack ?cur) = \<lparr>tm_magic = TIMER_MAGIC, scheduled_time = cur_time s + (if delay = 0 then 1 else delay),
        periodic_time = 0, callback = Some CB_thread_sleep_handler, tm_arg = ?cur\<rparr>"
    by (auto simp: wp_ex)
  note e = thread_core_eqD[OF s'(6)]
  have live: "th_magic (threads s' ?cur) = THREAD_MAGIC" "\<not> thread_is_idle (threads s' ?cur)"
    using e(1,9) assms(3) kinv_current(1)[OF assms(1,2)] by simp_all
  from thread_sleep_handler_wp[OF s'(2) live(1) s'(3) live(2)] obtain s2 where
    "thread_sleep_handler ?cur s' = Some (INT_RESCHEDULE, s2)" "kinv C s2"
    "ready_at ?cur (\<lambda>xs. ?cur # xs) (set_state ?cur THREAD_READY s') s2"
    by (auto simp: wp_ex)
  then have "kernel_fire c (the (callback (timers s' (TM_stack ?cur)))) (TM_stack ?cur) now (tm_arg (timers s' (TM_stack ?cur))) s' =
         Some (INT_RESCHEDULE, s2) \<and> kinv C s2 \<and> state (threads s2 ?cur) = THREAD_READY \<and>
       lcont (queues s2) (RunQ (nat (priority (threads s ?cur)))) =
         ?cur # lcont (queues s') (RunQ (nat (priority (threads s ?cur))))"
    using e(2) s'(7) by (auto simp: ready_at_def)
  moreover have "kernel_ready (TM_stack ?cur) s'" using live s'(3,7) by (simp add: kernel_ready_def)
  ultimately show ?thesis using s'(1-5,7) by (intro exI[of _ s'] exI[of _ "timers s' (TM_stack ?cur)"]) auto
qed

theorem thread_sleep_and_wake_witness:
  "\<exists>s' s2. thread_sleep 0 30 demo = Some (Switched, s') \<and> kinv {0} s' \<and>
     scheduled_time (timers s' (TM_stack 1)) = 1030 \<and>
     kernel_fire 0 (the (callback (timers s' (TM_stack 1)))) (TM_stack 1) 1030 (tm_arg (timers s' (TM_stack 1))) s' =
       Some (INT_RESCHEDULE, s2) \<and> state (threads s2 1) = THREAD_READY"
proof -
  have "lon (tqueue demo) (TM_stack (current demo 0)) = None" "cur_time demo = 1000"
    by (simp_all add: demo_def ls_empty_def)
  with thread_sleep_and_wake[OF demo_kinv _ demo_current(2), of 30 1030] demo_current(1) show ?thesis by auto
qed

text \<open>The timer queue of cpu \<open>c\<close> as an interrupt at time \<open>now\<close> finds it: ordered by due time, and
  every timer on it is an initialised one of the kernel.\<close>

definition kernel_tick_ok :: "nat set \<Rightarrow> lk_time \<Rightarrow> lk_time \<Rightarrow> nat \<Rightarrow> 'z kstate_scheme \<Rightarrow> bool" where
  "kernel_tick_ok C base now c s \<longleftrightarrow>
     sched_inv C C {} s \<and> ls_ok (tqueue s) \<and> tq_sorted base c s \<and> ahead base now < 2147483648 \<and>
     (\<forall>t \<in> set (lcont (tqueue s) c).
        tm_magic (timers s t) = TIMER_MAGIC \<and> callback (timers s t) \<noteq> None \<and> kernel_ready t s \<and>
        ahead base now + unat (periodic_time (timers s t)) < 2147483648)"

text \<open>The timers of cpu \<open>c\<close> that are due at time \<open>now\<close>, in the order of the queue.\<close>

definition due_timers :: "lk_time \<Rightarrow> lk_time \<Rightarrow> nat \<Rightarrow> 'z kstate_scheme \<Rightarrow> ktimer list" where
  "due_timers base now c s = filter (\<lambda>t. due s base t \<le> ahead base now) (lcont (tqueue s) c)"

text \<open>
  C11: The timer interrupt. With the kernel's own callbacks, \<open>timer_tick\<close> at time \<open>now\<close> terminates without a
  panic and keeps the scheduler invariant. It calls the callbacks of exactly the timers that are due, each once
  and in the order of the queue, which is the order of their due times: the state afterwards is that of running these
  callbacks one after the other (\<open>fire_all\<close>), but for the timers and their queues, and the interrupt asks for
  a reschedule when one of them does. Due periodic timers are armed for one period after \<open>now\<close> and
  are queued again, due one-shot timers leave the queue, all others are as before, and the queue stays ordered. Then the
  hardware timer is programmed for the new head of the queue, if there is one; on a platform without a
  dynamic timer \<open>thread_timer_tick\<close> runs instead. Times are taken relative to \<open>base\<close>, less than half of
  the 32-bit range apart, so wrap-around is covered.
\<close>

theorem timer_tick_fires_due_timers:
  assumes "kernel_tick_ok C base now c s"
  shows "\<exists>ret s1 s2. fire_all (kernel_fire c) now (due_timers base now c s) s = Some (ret, s1) \<and>
     s2 = s1\<lparr>timers := (\<lambda>t. if t \<in> set (due_timers base now c s) then rearm now (timers s t) else timers s t),
             tqueue := tqueue s2\<rparr> \<and>
     set (lcont (tqueue s2) c) =
       {t \<in> set (lcont (tqueue s) c). ahead base now < due s base t \<or> 0 < periodic_time (timers s t)} \<and>
     tq_sorted base c s2 \<and> sched_inv C C {} s2 \<and>
     timer_tick (kernel_fire c) (thread_timer_tick c) c now s = Some
       (if has_dynamic_timer s
        then (ret, case lcont (tqueue s2) c of [] \<Rightarrow> s2
                   | t # _ \<Rightarrow> s2\<lparr>hw_timer := (hw_timer s2)(c := HW_ONESHOT (scheduled_time (timers s2 t) - now))\<rparr>)
        else let (r, s3) = thread_timer_tick c s2 in (if r = INT_RESCHEDULE then INT_RESCHEDULE else ret, s3))"
proof -
  have ok: "kt.tick_ok C base now c s" using assms(1) by (simp add: kernel_tick_ok_def kt.tick_ok_def)
  have e: "kt.expired base now s = (\<lambda>t. due s base t \<le> ahead base now)" by (simp add: kt.expired_def fun_eq_iff)
  from kt.tick_fires_expired[OF ok, of c "thread_timer_tick c", unfolded e, folded due_timers_def] show ?thesis
    by (simp only: not_le)
qed

definition demo_timer :: sync_state where
  "demo_timer = demo
     \<lparr>timers := (timers demo)(TM_stack 3 := \<lparr>tm_magic = TIMER_MAGIC, scheduled_time = 1005,
                   periodic_time = 0, callback = Some CB_wait_queue_timeout_handler, tm_arg = 3\<rparr>),
      tqueue := \<lparr>lcont = (\<lambda>_. [])(0 := [TM_stack 3]), lon = [TM_stack 3 \<mapsto> 0]\<rparr>\<rparr>"

theorem timer_tick_fires_due_timers_witness:
  "\<exists>s'. timer_tick (kernel_fire 0) (thread_timer_tick 0) 0 1010 demo_timer = Some (INT_RESCHEDULE, s') \<and>
     sched_inv {0} {0} {} s' \<and> lcont (tqueue s') 0 = [] \<and>
     state (threads s' 3) = THREAD_READY \<and> wait_queue_block_ret (threads s' 3) = ERR_TIMED_OUT"
proof -
  have inv: "sched_inv {0} {0} {} demo_timer" using demo_sched_inv by (simp add: demo_timer_def)
  moreover have "ls_ok (tqueue demo_timer)" by (auto simp: demo_timer_def ls_ok_def)
  moreover have q: "lcont (tqueue demo_timer) 0 = [TM_stack 3]" "due demo_timer 1000 (TM_stack 3) = 5" "ahead 1000 1010 = 10"
      "periodic_time (timers demo_timer (TM_stack 3)) = 0" "callback (timers demo_timer (TM_stack 3)) = Some CB_wait_queue_timeout_handler"
      "tm_arg (timers demo_timer (TM_stack 3)) = 3"
    by (simp_all add: demo_timer_def ahead_def)
  moreover have th: "th_magic (threads demo_timer 3) = THREAD_MAGIC" "\<not> thread_is_idle (threads demo_timer 3)"
      "state (threads demo_timer 3) = THREAD_BLOCKED" "has_dynamic_timer demo_timer"
    by (simp_all add: demo_timer_def demo_defs thread_is_idle_def)
  moreover have "kernel_ready (TM_stack 3) demo_timer" "tm_magic (timers demo_timer (TM_stack 3)) = TIMER_MAGIC"
    by (simp_all add: demo_timer_def kernel_ready_def demo_defs thread_is_idle_def)
  ultimately have ok: "kernel_tick_ok {0} 1000 1010 0 demo_timer" by (simp add: kernel_tick_ok_def tq_sorted_def)
  from timeout_handler_wp[OF inv th(1,2), of 0] th(3) obtain s1 where
    s1: "wait_queue_timeout_handler 0 3 demo_timer = Some (INT_RESCHEDULE, s1)" "state (threads s1 3) = THREAD_READY"
      "wait_queue_block_ret (threads s1 3) = ERR_TIMED_OUT"
    by (auto simp: wp_ex woken_def mp_reschedule_def Let_def)
  have dl: "due_timers 1000 1010 0 demo_timer = [TM_stack 3]" by (simp add: due_timers_def q)
  have f: "fire_all (kernel_fire 0) 1010 (due_timers 1000 1010 0 demo_timer) demo_timer = Some (INT_RESCHEDULE, s1)"
    using s1(1) by (simp add: dl q)
  from timer_tick_fires_due_timers[OF ok, unfolded f if_P[OF th(4)]] show ?thesis
  proof (elim exE conjE)
    fix ret sa and s2 :: sync_state
    assume r: "Some (INT_RESCHEDULE, s1) = Some (ret, sa)" and
    s2: "s2 = sa\<lparr>timers := (\<lambda>t. if t \<in> set (due_timers 1000 1010 0 demo_timer) then rearm 1010 (timers demo_timer t) else timers demo_timer t),
             tqueue := tqueue s2\<rparr>"
      "set (lcont (tqueue s2) 0) = {t \<in> set (lcont (tqueue demo_timer) 0). ahead 1000 1010 < due demo_timer 1000 t \<or> 0 < periodic_time (timers demo_timer t)}"
      "sched_inv {0} {0} {} s2"
      "timer_tick (kernel_fire 0) (thread_timer_tick 0) 0 1010 demo_timer = Some (ret, case lcont (tqueue s2) 0 of [] \<Rightarrow> s2
                   | t # _ \<Rightarrow> s2\<lparr>hw_timer := (hw_timer s2)(0 := HW_ONESHOT (scheduled_time (timers s2 t) - 1010))\<rparr>)"
    have "x \<notin> set (lcont (tqueue s2) 0)" for x
      unfolding s2(2) q(1) using q(2-4) by (cases "x = TM_stack 3") simp_all
    then have e: "lcont (tqueue s2) 0 = []" by (metis ex_in_conv set_empty)
    have "threads s2 = threads sa" by (subst s2(1)) simp
    with e s2(3,4) s1(2,3) r show ?thesis by auto
  qed
qed

end
