(* ===== verification/Kernel_Live.thy ===== *)
theory Kernel_Live
  imports Kernel_Props
begin

text \<open>
  Bounded waiting: the threads of one priority share the cpu without cooperating. The timer interrupt charges the running
  thread (\<open>thread_timer_tick\<close>) and, when its quantum is used up, calls \<open>thread_preempt\<close> on the way out of
  the interrupt, as the exception code of the architectures does with \<open>INT_RESCHEDULE\<close>.
\<close>

definition tick_irq :: "nat \<Rightarrow> 'z kstate_scheme \<Rightarrow> 'z kstate_scheme option" where
  "tick_irq cpu s =
     (case thread_timer_tick cpu s of
        (INT_RESCHEDULE, s) \<Rightarrow> map_option snd (thread_preempt cpu s)
      | (INT_NO_RESCHEDULE, s) \<Rightarrow> Some s)"

fun ticks :: "nat \<Rightarrow> nat \<Rightarrow> 'z kstate_scheme \<Rightarrow> 'z kstate_scheme option" where
  "ticks cpu 0 s = Some s"
| "ticks cpu (Suc n) s = Option.bind (tick_irq cpu s) (ticks cpu n)"

section \<open>Preemption at the end of a quantum\<close>

text \<open>\<open>put_back_resched\<close> with the queues and the quanta of the state after it.\<close>

lemma thread_preempt_tail:
  fixes s :: "'z kstate_scheme"
  assumes inv: "kinv C s" "c \<in> C" and q: "remaining_quantum (threads s (current s c)) \<le> 0"
    and ni: "\<not> thread_is_idle (threads s (current s c))"
  shows "\<exists>r s'. thread_preempt c s = Some (r, s') \<and> kinv C s' \<and> resched_frame s s' \<and>
    (\<exists>s1 :: 'z kstate_scheme. queue_inv s1 \<and> current s' = (current s)(c := next_thread c s1) \<and>
       (\<forall>u. thread_core (threads s1 u) = thread_core (threads s u)) \<and>
       (\<forall>p. lcont (queues s1) (RunQ p) = (if p = nat (priority (threads s (current s c)))
          then lcont (queues s) (RunQ p) @ [current s c] else lcont (queues s) (RunQ p)) \<and>
          lcont (queues s') (RunQ p) = remove1 (next_thread c s1) (lcont (queues s1) (RunQ p)))) \<and>
    (\<forall>u. remaining_quantum (threads s' u) \<le> max 5 (remaining_quantum (threads s u)))"
proof -
  let ?cur = "current s c"
  have m: "insert_in_run_queue_tail = insert_in_run_queue_head \<and> (\<lambda>t xs. xs @ [t]) = (\<lambda>t xs. t # xs) \<or>
    (insert_in_run_queue_tail :: tid \<Rightarrow> 'z kstate_scheme \<Rightarrow> _) = insert_in_run_queue_tail \<and>
    (\<lambda>(t :: tid) xs. xs @ [t]) = (\<lambda>t xs. xs @ [t])" by simp
  from requeue_wp[OF inv m] ni obtain s1 where s1: "insert_in_run_queue_tail ?cur (set_state ?cur THREAD_READY s) = Some s1"
    "sched_inv C (C - {c}) {} s1" "preempt_inv C s1" "requeued (\<lambda>t xs. xs @ [t]) ?cur s s1" "resched_frame s s1" "current s1 = current s"
    by (auto simp: wp_ex)
  have "wp (thread_resched c s1) (resched_post C {} c s1)" by (rule thread_resched_wp[OF s1(2) inv(2) s1(3)]) simp
  then obtain r s' where r: "thread_resched c s1 = Some (r, s')" "resched_post C {} c s1 (r, s')" by (auto simp: wp_ex)
  have y: "thread_preempt c s = Some (r, s')"
    using kinv_current[OF inv] q ni s1(1) r(1) by (simp add: thread_preempt_def Let_def thread_is_idle_def)
  have th: "remaining_quantum (threads s1 u) = remaining_quantum (threads s u)" for u
    using s1(4) ni ready_at_frame[of ?cur _ "set_state ?cur THREAD_READY s" s1] by (auto simp: requeued_def set_state_def upd_thread_def)
  have "queue_inv s1" using s1(2) by (simp add: sched_inv_def)
  moreover have "lcont (queues s1) (RunQ p) = (if p = nat (priority (threads s ?cur))
          then lcont (queues s) (RunQ p) @ [?cur] else lcont (queues s) (RunQ p))" for p
    using requeued_queues(1)[OF s1(4)] ni by simp
  moreover have "resched_frame s s'" using s1(5) r(2) resched_frame_trans by (auto simp: resched_post_def)
  moreover have "current s' = (current s)(c := next_thread c s1)" using r(2) s1(6) by (auto simp: resched_post_def)
  moreover have "thread_core (threads s1 u) = thread_core (threads s u)" for u using s1(5) by (simp add: resched_frame_def)
  ultimately have ex: "\<exists>s1 :: 'z kstate_scheme. queue_inv s1 \<and> current s' = (current s)(c := next_thread c s1) \<and>
       (\<forall>u. thread_core (threads s1 u) = thread_core (threads s u)) \<and>
       (\<forall>p. lcont (queues s1) (RunQ p) = (if p = nat (priority (threads s ?cur))
          then lcont (queues s) (RunQ p) @ [?cur] else lcont (queues s) (RunQ p)) \<and>
          lcont (queues s') (RunQ p) = remove1 (next_thread c s1) (lcont (queues s1) (RunQ p)))" "resched_frame s s'"
    using thread_resched_detail(1)[OF s1(2) inv(2) s1(3) r(1)] by (auto intro!: exI[of _ s1])
  have "\<forall>u. remaining_quantum (threads s' u) \<le> max 5 (remaining_quantum (threads s u))"
    using thread_resched_detail(2)[OF s1(2) inv(2) s1(3) r(1)] by (simp add: th)
  with ex show ?thesis using y resched_post_kinv[OF r(2)] by blast
qed

section \<open>Waiting in a run queue\<close>

text \<open>Thread \<open>t\<close> has \<open>n\<close> threads before it in the queue of priority \<open>p\<close>, the highest with a thread for this cpu.\<close>

definition waiting :: "nat set \<Rightarrow> nat \<Rightarrow> nat \<Rightarrow> tid \<Rightarrow> nat \<Rightarrow> 'z kstate_scheme \<Rightarrow> bool" where
  "waiting C c p t n s \<longleftrightarrow> kinv C s \<and> c \<in> C \<and>
     (\<exists>xs ys. lcont (queues s) (RunQ p) = xs @ t # ys \<and> length xs = n \<and>
        (\<forall>u\<in>set xs. may_run_on c (threads s u) \<longrightarrow> \<not> thread_is_real_time_or_idle (threads s u))) \<and>
     may_run_on c (threads s t) \<and>
     (\<forall>k u. p < k \<longrightarrow> u \<in> set (lcont (queues s) (RunQ k)) \<longrightarrow> \<not> may_run_on c (threads s u)) \<and>
     \<not> thread_is_real_time_or_idle (threads s (current s c)) \<and> priority (threads s (current s c)) \<le> int p \<and>
     (\<forall>u. remaining_quantum (threads s u) \<le> 5)"

text \<open>The ticks that are left to the running thread and those before \<open>t\<close>.\<close>

definition ticks_left :: "nat \<Rightarrow> nat \<Rightarrow> 'z kstate_scheme \<Rightarrow> nat" where
  "ticks_left c n s = 5 * n + nat (max 1 (remaining_quantum (threads s (current s c))))"

lemma thread_core_may_run: "thread_core a = thread_core b \<Longrightarrow> may_run_on c a = may_run_on c b"
  by (drule thread_core_eqD(4)) (simp add: may_run_on_def)

lemma idle_or_real_time: "thread_is_idle th \<Longrightarrow> thread_is_real_time_or_idle th"
proof -
  have "flags th AND 24 = 0 \<Longrightarrow> (flags th AND 24) AND 16 = 0" by simp
  then have "flags th AND 24 = 0 \<Longrightarrow> flags th AND 16 = 0" unfolding and.assoc by simp
  then show "thread_is_idle th \<Longrightarrow> thread_is_real_time_or_idle th"
    by (auto simp: thread_is_idle_def thread_is_real_time_or_idle_def)
qed

lemma tick_within_quantum:
  assumes w: "waiting C c p t n s" and q: "1 < remaining_quantum (threads s (current s c))"
  shows "\<exists>s'. tick_irq c s = Some s' \<and> waiting C c p t n s' \<and> ticks_left c n s' < ticks_left c n s"
proof -
  let ?s' = "upd_thread (current s c) (\<lambda>th. th\<lparr>remaining_quantum := remaining_quantum th - 1\<rparr>) s"
  have k: "kinv C ?s'" by (rule acct_frame_kinv(3)[OF acct_frame_quantum]) (use w in \<open>simp add: waiting_def\<close>)
  have t: "tick_irq c s = Some ?s'"
    using w q by (simp add: waiting_def tick_irq_def thread_timer_tick_def Let_def)
  have "remaining_quantum (threads ?s' u) \<le> remaining_quantum (threads s u)" for u by simp
  moreover have "\<forall>u. remaining_quantum (threads s u) \<le> 5" using w by (simp add: waiting_def)
  ultimately have q5: "\<forall>u. remaining_quantum (threads ?s' u) \<le> 5" by (meson order_trans)
  have core: "thread_core (threads ?s' u) = thread_core (threads s u)" for u by simp
  note same = thread_core_may_run[OF core] thread_core_eqD(2,10)[OF core]
  have "waiting C c p t n ?s'"
    using w k q5 unfolding waiting_def same by simp
  with t q show ?thesis by (simp add: ticks_left_def)
qed

lemma tick_ends_quantum:
  fixes s :: "'z kstate_scheme"
  assumes w: "waiting C c p t n s" and q: "remaining_quantum (threads s (current s c)) \<le> 1"
  shows "\<exists>s'. tick_irq c s = Some s' \<and> kinv C s' \<and>
    (current s' c = t \<or> (\<exists>n'. waiting C c p t n' s' \<and> ticks_left c n' s' < ticks_left c n s))"
proof -
  let ?cur = "current s c"
  define s0 where "s0 = upd_thread ?cur (\<lambda>th. th\<lparr>remaining_quantum := remaining_quantum th - 1\<rparr>) s"
  have k0: "kinv C s0" unfolding s0_def by (rule acct_frame_kinv(3)[OF acct_frame_quantum]) (use w in \<open>simp add: waiting_def\<close>)
  have s0: "queues s0 = queues s" "current s0 = current s" "thread_core (threads s0 u) = thread_core (threads s u)"
      "remaining_quantum (threads s0 u) \<le> remaining_quantum (threads s u)" for u by (simp_all add: s0_def)
  note p0 = thread_core_eqD(2,9)[OF s0(3)]
  from w obtain xs ys where w': "c \<in> C" "lcont (queues s) (RunQ p) = xs @ t # ys" "length xs = n"
      "\<forall>u\<in>set xs. may_run_on c (threads s u) \<longrightarrow> \<not> thread_is_real_time_or_idle (threads s u)"
      "may_run_on c (threads s t)" "\<forall>k u. p < k \<longrightarrow> u \<in> set (lcont (queues s) (RunQ k)) \<longrightarrow> \<not> may_run_on c (threads s u)"
      "\<not> thread_is_real_time_or_idle (threads s ?cur)" "priority (threads s ?cur) \<le> int p"
      "\<forall>u. remaining_quantum (threads s u) \<le> 5"
    by (auto simp: waiting_def)
  have ni: "\<not> thread_is_idle (threads s ?cur)" using w'(7) idle_or_real_time by blast
  have q0: "remaining_quantum (threads s0 ?cur) \<le> 0" using q by (simp add: s0_def)
  from thread_preempt_tail[OF k0 w'(1), unfolded s0(1,2) p0, OF q0 ni] obtain r s' and s1 :: "'z kstate_scheme" where
    y: "thread_preempt c s0 = Some (r, s')" "kinv C s'" "resched_frame s0 s'" and
    s1: "queue_inv s1" "current s' = (current s)(c := next_thread c s1)" "\<forall>u. thread_core (threads s1 u) = thread_core (threads s0 u)"
      "\<And>k. lcont (queues s1) (RunQ k) = (if k = nat (priority (threads s ?cur)) then lcont (queues s) (RunQ k) @ [?cur] else lcont (queues s) (RunQ k))"
      "\<And>k. lcont (queues s') (RunQ k) = remove1 (next_thread c s1) (lcont (queues s1) (RunQ k))" and
    qs: "\<forall>u. remaining_quantum (threads s' u) \<le> max 5 (remaining_quantum (threads s0 u))"
    by blast
  have core: "thread_core (threads s1 u) = thread_core (threads s u)" "thread_core (threads s' u) = thread_core (threads s u)" for u
    using s1(3) y(3) s0(3) by (simp_all add: resched_frame_def)
  note same = thread_core_may_run[OF core(1)] thread_core_may_run[OF core(2)] thread_core_eqD(2,10)[OF core(2)]
  have tick: "tick_irq c s = Some s'"
    using w'(7) q y(1) by (simp add: tick_irq_def thread_timer_tick_def Let_def s0_def)
  have high: "u \<in> set (lcont (queues s1) (RunQ k)) \<Longrightarrow> \<not> may_run_on c (threads s1 u)" if "p < k" for k u
    using w'(6,8) that by (auto simp: s1(4) same split: if_splits)
  obtain zs where zs: "lcont (queues s1) (RunQ p) = xs @ t # zs" using w'(2) by (cases "p = nat (priority (threads s ?cur))") (auto simp: s1(4))
  consider "\<forall>u\<in>set xs. \<not> may_run_on c (threads s u)"
    | as e bs where "xs = as @ e # bs" "may_run_on c (threads s e)" "\<forall>u\<in>set as. \<not> may_run_on c (threads s u)"
    using split_list_first_prop[of xs "\<lambda>u. may_run_on c (threads s u)"] by blast
  then show ?thesis
  proof cases
    case 1
    have "next_thread c s1 = t"
      by (rule next_thread_best[OF s1(1) zs]) (use 1 w'(5) high in \<open>auto simp: same\<close>)
    then show ?thesis using tick y(2) s1(2) by simp
  next
    case (2 as e bs)
    have e: "next_thread c s1 = e"
      by (rule next_thread_best[OF s1(1), where ys = as and zs = "bs @ t # zs"]) (use 2 zs high in \<open>auto simp: same\<close>)
    have "e \<notin> set as" using 2 by auto
    then have q': "lcont (queues s') (RunQ p) = (as @ bs) @ t # zs" using s1(5)[of p] zs 2(1) e by (simp add: remove1_append)
    have ok: "ls_ok (queues s)" "\<And>t h. lon (queues s) t = Some h \<Longrightarrow> queued_ok (threads s t) h"
      using w by (auto simp: waiting_def kinv_def sched_inv_def queue_inv_def)
    then have pe: "priority (threads s e) = int p"
      using ok(2)[of e "RunQ p"] ls_ok_mem[OF ok(1), of e "RunQ p"] w'(2) 2(1) by (simp add: queued_ok_def)
    have q5: "remaining_quantum (threads s' u) \<le> 5" for u
      using qs[rule_format, of u] w'(9)[rule_format, of u] s0(4)[of u] by linarith
    have "\<forall>u\<in>set (as @ bs). may_run_on c (threads s u) \<longrightarrow> \<not> thread_is_real_time_or_idle (threads s u)"
      using w'(4) 2(1) by auto
    with q' have ex: "\<exists>xs ys. lcont (queues s') (RunQ p) = xs @ t # ys \<and> length xs = length (as @ bs) \<and>
        (\<forall>u\<in>set xs. may_run_on c (threads s u) \<longrightarrow> \<not> thread_is_real_time_or_idle (threads s u))" by blast
    have "waiting C c p t (length (as @ bs)) s'"
      unfolding waiting_def same
      by (intro conjI ex) (use y(2) w'(1,4,5) q5 2 high pe s1(2) e in
        \<open>auto simp: s1(5) same dest: subsetD[OF set_remove1_subset]\<close>)
    moreover have "ticks_left c (length (as @ bs)) s' < ticks_left c n s"
      using w'(3) 2(1) q5[of "current s' c"] by (simp add: ticks_left_def)
    ultimately show ?thesis using tick y(2) by blast
  qed
qed

lemma waiting_runs:
  assumes "waiting C c p t n s"
  shows "\<exists>k s'. k \<le> ticks_left c n s \<and> ticks c k s = Some s' \<and> kinv C s' \<and> current s' c = t"
  using assms
proof (induction "ticks_left c n s" arbitrary: n s rule: less_induct)
  case less
  let ?q = "remaining_quantum (threads s (current s c))"
  from tick_within_quantum[OF less.prems] tick_ends_quantum[OF less.prems] less.prems obtain s' where
    s': "tick_irq c s = Some s'" "kinv C s'"
      "current s' c = t \<or> (\<exists>n'. waiting C c p t n' s' \<and> ticks_left c n' s' < ticks_left c n s)"
    by (cases "1 < ?q") (fastforce simp: waiting_def)+
  show ?case using s'(3)
  proof (elim disjE exE conjE)
    assume "current s' c = t"
    moreover have "Suc 0 \<le> ticks_left c n s" by (simp add: ticks_left_def)
    ultimately show ?thesis using s'(1,2) by (intro exI[of _ "Suc 0"] exI[of _ s']) simp
  next
    fix n' assume n': "waiting C c p t n' s'" "ticks_left c n' s' < ticks_left c n s"
    from less.hyps[OF n'(2,1)] obtain k s'' where
      "k \<le> ticks_left c n' s'" "ticks c k s' = Some s''" "kinv C s''" "current s'' c = t" by blast
    then show ?thesis using s'(1) n'(2) by (intro exI[of _ "Suc k"] exI[of _ s'']) simp
  qed
qed

text \<open>
  C3: Bounded waiting without cooperation. A ready thread \<open>t\<close> at the highest priority that has a thread for the cpu
  runs after at most five timer interrupts for the running thread and for each thread before it in
  its run queue, as long as the interrupts are all that enters the kernel on this cpu. Nothing panics on the way. Quanta are
  at most five, as \<open>thread_resched\<close> sets them; real-time threads are not charged, so there must be none before \<open>t\<close>.
\<close>

theorem ready_thread_runs:
  assumes "kinv C s" "c \<in> C" and q: "lcont (queues s) (RunQ p) = xs @ t # ys" "may_run_on c (threads s t)"
    and top: "\<forall>k u. p < k \<longrightarrow> u \<in> set (lcont (queues s) (RunQ k)) \<longrightarrow> \<not> may_run_on c (threads s u)"
    and cur: "priority (threads s (current s c)) \<le> int p"
    and rt: "\<forall>u \<in> insert (current s c) (set xs). \<not> thread_is_real_time_or_idle (threads s u)"
    and five: "\<forall>u. remaining_quantum (threads s u) \<le> 5"
  shows "\<exists>n s'. n \<le> 5 * (length xs + 1) \<and> ticks c n s = Some s' \<and> kinv C s' \<and> current s' c = t"
proof -
  have "waiting C c p t (length xs) s" using assms by (auto simp: waiting_def)
  from waiting_runs[OF this] obtain k s' where
    k: "k \<le> ticks_left c (length xs) s" "ticks c k s = Some s'" "kinv C s'" "current s' c = t" by blast
  have "ticks_left c (length xs) s \<le> 5 * (length xs + 1)"
    using five[rule_format, of "current s c"] by (simp add: ticks_left_def)
  with k(1) have "k \<le> 5 * (length xs + 1)" by (rule order_trans)
  with k(2-4) show ?thesis by blast
qed

theorem ready_thread_runs_witness:
  "\<exists>n s'. n \<le> 5 \<and> ticks 0 n demo = Some s' \<and> kinv {0} s' \<and> current s' 0 = 2"
  using ready_thread_runs[OF demo_kinv, of 0 16 "[]" 2 "[]"]
  by (auto simp: demo_defs may_run_on_def thread_is_real_time_or_idle_def)

end
