(* ===== verification/Kernel_Steps.thy ===== *)
theory Kernel_Steps
  imports Demo
begin

text \<open>
  Interleavings of the blocking operations. \<open>kstep\<close> is a step relation on the kernel state: some
  cpu's current thread makes a call, or goes on with what it was switched out of, or a timeout or sleep timer
  fires. The calls are those of \<^verbatim>\<open>mutex.c\<close>, \<^verbatim>\<open>semaphore.c\<close>, \<^verbatim>\<open>event.c\<close> and \<^verbatim>\<open>cond.c\<close>, and yield, preempt and sleep; creating,
  joining and ending threads are not among them. The guards say what the callers owe: \<open>cond_wait_timeout\<close> is called by the holder of the mutex, a
  mutex is not initialised while a thread is still acquiring it, nor destroyed while a thread waits for a condition with it, and nobody waits on an object that is being
  destroyed. The mutex invariant \<open>mutex_ok\<close> counts the threads inside \<open>mutex_acquire_timeout\<close> and is
  kept by every step; mutual exclusion in every reachable state follows.
\<close>

section \<open>What the wait queue operations do when they return\<close>

text \<open>The assertions of the code make the preconditions of the total-correctness lemmas hold
  whenever an operation has a result.\<close>

lemma block_cases:
  assumes r: "wait_queue_block c w timeout s = Some (r, s')" and inv: "kinv C s" "c \<in> C"
    and cur: "\<not> thread_is_idle (threads s (current s c))"
  obtains "timeout = 0" "r = Ret ERR_TIMED_OUT" "s' = s" | "r = Switched" "blocked_post C c w timeout s s'"
proof -
  have m: "wq_magic (wqs s w) = WAIT_QUEUE_MAGIC"
    using r by (auto simp: wait_queue_block_def Let_def split: if_splits)
  show ?thesis
  proof (cases "timeout = 0")
    case True
    with r m kinv_current(2)[OF inv] that(1) show ?thesis by (simp add: wait_queue_block_def)
  next
    case False
    show ?thesis
    proof (cases "timeout = INFINITE_TIME \<or> lon (tqueue s) (TM_stack (current s c)) = None")
      case True
      have "wp (wait_queue_block c w timeout s) (\<lambda>(r, s'). r = Switched \<and> blocked_post C c w timeout s s')"
        using wait_queue_block_wp[OF inv cur m False] True by blast
      with r that(2) show ?thesis by simp
    next
      case armed: False
      with r m False kinv_current(2,3)[OF inv] show ?thesis
        by (auto simp: wait_queue_block_def Let_def timer_initialize_def ls_in_list_def block_on_def[symmetric]
            bind_eq_Some_conv ls_add_tail_def split: if_splits)
    qed
  qed
qed

text \<open>The result of the two wake operations, for both values of \<open>reschedule\<close>.\<close>

definition wake_result ::
  "nat set \<Rightarrow> nat \<Rightarrow> wqref \<Rightarrow> int \<Rightarrow> tid list \<Rightarrow> tid list \<Rightarrow> 'z kstate_scheme \<Rightarrow> outcome \<Rightarrow> 'z kstate_scheme \<Rightarrow> bool" where
  "wake_result C c w err ts rest s r s' \<longleftrightarrow>
     kinv C s' \<and> wake_post {current s c} w err ts rest s s' \<and>
     (r = Ret (int (length ts)) \<and> kstack s' (current s c) = kstack s (current s c) \<or>
      r = Switched \<and> kstack s' (current s c) = kstack s (current s c) @ [FR_const (int (length ts))])"

lemma wake_one_cases:
  assumes r: "wait_queue_wake_one c w b err s = Some (r, s')" and inv: "kinv C s" "c \<in> C"
    and cur: "\<not> thread_is_idle (threads s (current s c))"
  obtains "lcont (queues s) (WaitL w) = []" "r = Ret 0" "s' = s"
  | t ts where "lcont (queues s) (WaitL w) = t # ts" "wake_result C c w err [t] ts s r s'"
proof -
  have m: "wq_magic (wqs s w) = WAIT_QUEUE_MAGIC"
    using r by (auto simp: wait_queue_wake_one_def Let_def split: if_splits)
  show ?thesis
  proof (cases b)
    case True
    with wake_one_resched_wp[OF inv cur m, of err] r that show ?thesis
      by (cases "lcont (queues s) (WaitL w)") (auto simp: wake_result_def split: if_splits)
  next
    case False
    show ?thesis
    proof (cases "lcont (queues s) (WaitL w)")
      case Nil
      with wake_one_wp[OF kinvD(1)[OF inv(1)] m, of c err] False r that(1) show ?thesis by simp
    next
      case (Cons t ts)
      with wake_one_wp[OF kinvD(1)[OF inv(1)] m, of c err] False r obtain s1 where
        s1: "r = Ret 1" "sched_inv C C {} s'" "woken w err t s s1" "s' = mp_reschedule c 0xFFFFFFFF 0 s1" by auto
      have "preempt_inv C s'"
        using acct_frame_kinv(2)[OF acct_frame_mp_reschedule woken_preempt[OF s1(3) kinvD(2)[OF inv(1)]]] s1(4) by simp
      moreover have p: "wake_post {} w err [t] ts s s'"
        using wake_post_resched[OF woken_wake_post[OF s1(3)] mp_reschedule_frame, of ts c] s1(4) Cons by simp
      then have "wake_post {current s c} w err [t] ts s s'" "kstack s' = kstack s"
        using wake_post_mono[OF p] by (auto simp: wake_post_def base_frame_def)
      ultimately have "wake_result C c w err [t] ts s r s'" using s1 by (simp add: wake_result_def kinv_def)
      with Cons that(2) show ?thesis by blast
    qed
  qed
qed

lemma wake_all_cases:
  assumes r: "wait_queue_wake_all c w b err s = Some (r, s')" and inv: "kinv C s" "c \<in> C"
    and cur: "\<not> thread_is_idle (threads s (current s c))"
  shows "wake_result C c w err (lcont (queues s) (WaitL w)) [] s r s'"
proof -
  let ?ts = "lcont (queues s) (WaitL w)"
  have m: "wq_magic (wqs s w) = WAIT_QUEUE_MAGIC"
    using r by (auto simp: wait_queue_wake_all_def Let_def split: if_splits)
  show ?thesis
  proof (cases b)
    case True
    with wake_all_resched_wp[OF inv cur m refl, of err] r inv(1) show ?thesis
      by (auto simp: wake_result_def wake_post_refl split: if_splits)
  next
    case False
    with wake_all_wp[OF kinvD(1)[OF inv(1)] m refl, of c err] r have
      s': "r = Ret (int (length ?ts))" "sched_inv C C {} s'" "wake_post {} w err ?ts [] s s'" "pushed_all ?ts s s'" by auto
    have "preempt_inv C s'"
      by (rule preempt_inv_base[OF kinvD(2)[OF inv(1)] conjunct1[OF s'(3)[unfolded wake_post_def]]])
        (use s'(4) in \<open>simp_all add: pushed_all_def\<close>)
    with s' wake_post_mono[OF s'(3), of "{current s c}"] show ?thesis
      by (auto simp: wake_result_def kinv_def wake_post_def base_frame_def)
  qed
qed

lemma timeout_cases:
  assumes r: "wait_queue_timeout_handler c t s = Some (r, s')" and inv: "kinv C s"
  obtains "state (threads s t) \<noteq> THREAD_BLOCKED" "s' = s"
  | w where "blocking_wait_queue (threads s t) = Some w" "t \<in> set (lcont (queues s) (WaitL w))"
      "kinv C s'" "wake_post {} w ERR_TIMED_OUT [t] (remove1 t (lcont (queues s) (WaitL w))) s s'"
proof -
  note k = kinvD[OF inv]
  have m: "th_magic (threads s t) = THREAD_MAGIC"
    using r by (cases "th_magic (threads s t) = THREAD_MAGIC") (simp_all add: wait_queue_timeout_handler_def)
  show ?thesis
  proof (cases "state (threads s t) = THREAD_BLOCKED")
    case False
    then have "s' = s"
      using r m by (simp add: wait_queue_timeout_handler_def thread_unblock_from_wait_queue_def)
    with False show ?thesis by (rule that(1))
  next
    case True
    have "ls_in_list t (queues s)"
    proof (rule ccontr)
      assume "\<not> ls_in_list t (queues s)"
      with True m have "wait_queue_timeout_handler c t s = None"
        by (cases "blocking_wait_queue (threads s t)")
          (simp_all add: wait_queue_timeout_handler_def thread_unblock_from_wait_queue_def)
      with r show False by simp
    qed
    then obtain h where h: "lon (queues s) t = Some h" by (auto simp: ls_in_list_def)
    have qo: "queued_ok (threads s t) h" and ok: "ls_ok (queues s)" using k(1) h by (auto simp: sched_inv_def queue_inv_def)
    then have id: "\<not> thread_is_idle (threads s t)" by (simp add: queued_ok_def)
    have "\<exists>s1 w. blocking_wait_queue (threads s t) = Some w \<and> woken w ERR_TIMED_OUT t s s1 \<and>
        s' = mp_reschedule c 0xFFFFFFFF 0 s1 \<and> sched_inv C C {} s'"
      using timeout_handler_wp[OF k(1) m id, of c] unfolding r by (simp add: True)
    then obtain s1 w where
      w: "blocking_wait_queue (threads s t) = Some w" "woken w ERR_TIMED_OUT t s s1"
        "s' = mp_reschedule c 0xFFFFFFFF 0 s1" "sched_inv C C {} s'" by blast
    have "h = WaitL w" using qo True w(1) by (cases h) (auto simp: queued_ok_def)
    then have "t \<in> set (lcont (queues s) (WaitL w))" using h ls_ok_mem[OF ok] by blast
    moreover have "kinv C s'"
      using acct_frame_kinv(2)[OF acct_frame_mp_reschedule woken_preempt[OF w(2) k(2)]] w(3,4) by (simp add: kinv_def)
    moreover have "wake_post {} w ERR_TIMED_OUT [t] (remove1 t (lcont (queues s) (WaitL w))) s s'"
      using wake_post_resched[OF woken_wake_post[OF w(2) refl] mp_reschedule_frame] w(3) by simp
    ultimately show ?thesis by (rule that(2)[OF w(1)])
  qed
qed

section \<open>The mutex invariant\<close>

text \<open>The threads inside \<open>mutex_acquire_timeout\<close> of \<open>m\<close> that had to block: still waiting, woken by
  a release (the mutex is theirs once they run), or timed out (they still have to take back their
  count).\<close>

definition acquiring :: "nat \<Rightarrow> 'z kstate_scheme \<Rightarrow> tid set" where
  "acquiring m s = {t. FR_mutex_acquire m \<in> set (kstack s t)}"

definition mutex_waiters :: "nat \<Rightarrow> 'z kstate_scheme \<Rightarrow> tid list" where
  "mutex_waiters m s = lcont (queues s) (WaitL (WQ_mutex m))"

definition granted :: "nat \<Rightarrow> 'z kstate_scheme \<Rightarrow> tid set" where
  "granted m s = {t \<in> acquiring m s. t \<notin> set (mutex_waiters m s) \<and> wait_queue_block_ret (threads s t) = NO_ERROR}"

definition backing_out :: "nat \<Rightarrow> 'z kstate_scheme \<Rightarrow> tid set" where
  "backing_out m s = {t \<in> acquiring m s. t \<notin> set (mutex_waiters m s) \<and> wait_queue_block_ret (threads s t) = ERR_TIMED_OUT}"

definition owners :: "nat \<Rightarrow> 'z sync_state_scheme \<Rightarrow> nat" where
  "owners m s = (case m_holder (mutexes s m) of None \<Rightarrow> 0 | Some _ \<Rightarrow> 1) + card (granted m s)"

definition mutex_ok :: "nat \<Rightarrow> 'z sync_state_scheme \<Rightarrow> bool" where
  "mutex_ok m s \<longleftrightarrow> finite (acquiring m s) \<and> set (mutex_waiters m s) \<subseteq> acquiring m s \<and>
     (\<forall>t \<in> acquiring m s - set (mutex_waiters m s).
        wait_queue_block_ret (threads s t) \<in> {NO_ERROR, ERR_TIMED_OUT} \<and> (\<forall>w. t \<notin> set (lcont (queues s) (WaitL w)))) \<and>
     owners m s \<le> 1 \<and>
     m_count (mutexes s m) = int (owners m s + length (mutex_waiters m s) + card (backing_out m s))"

lemmas mutex_sets = acquiring_def mutex_waiters_def granted_def backing_out_def

text \<open>Steps that concern other objects.\<close>

lemma mutex_ok_cong:
  assumes ok: "mutex_ok m s" and a: "acquiring m s' = acquiring m s" and w: "mutex_waiters m s' = mutex_waiters m s"
    and t: "\<And>t. t \<in> acquiring m s \<Longrightarrow> t \<notin> set (mutex_waiters m s) \<Longrightarrow>
        wait_queue_block_ret (threads s' t) = wait_queue_block_ret (threads s t) \<and> (\<forall>w. t \<notin> set (lcont (queues s') (WaitL w)))"
    and m: "mutexes s' m = mutexes s m"
  shows "mutex_ok m s'"
proof -
  have g: "granted m s' = granted m s" using a w t by (auto simp: granted_def)
  have b: "backing_out m s' = backing_out m s" using a w t by (auto simp: backing_out_def)
  have o: "owners m s' = owners m s" using g m by (simp add: owners_def)
  show ?thesis using ok a w m g b o t by (auto simp: mutex_ok_def)
qed

lemma acquiring_kstack:
  assumes "\<And>t. t \<noteq> u \<Longrightarrow> kstack s' t = kstack s t"
    and "FR_mutex_acquire m \<in> set (kstack s' u) \<longleftrightarrow> FR_mutex_acquire m \<in> set (kstack s u)"
  shows "acquiring m s' = acquiring m s"
proof (rule set_eqI)
  fix t show "t \<in> acquiring m s' \<longleftrightarrow> t \<in> acquiring m s"
    using assms(1)[of t] assms(2) by (cases "t = u") (simp_all add: acquiring_def)
qed

lemma mutex_ok_wake_other:
  assumes ok: "mutex_ok m s" and w: "wake_post {cur} w err ts rest s s'" and ne: "w \<noteq> WQ_mutex m"
    and ts: "set ts \<subseteq> set (lcont (queues s) (WaitL w))" "set rest \<subseteq> set (lcont (queues s) (WaitL w))"
    and ks: "FR_mutex_acquire m \<in> set (kstack s' cur) \<longleftrightarrow> FR_mutex_acquire m \<in> set (kstack s cur)"
    and mx: "mutexes s' m = mutexes s m"
  shows "mutex_ok m s'"
proof (rule mutex_ok_cong[OF ok])
  show "acquiring m s' = acquiring m s"
    by (rule acquiring_kstack[of cur]) (use w ks in \<open>auto simp: wake_post_def base_frame_def\<close>)
  show "mutex_waiters m s' = mutex_waiters m s" using w ne by (auto simp: wake_post_def mutex_waiters_def)
  fix t assume t: "t \<in> acquiring m s" "t \<notin> set (mutex_waiters m s)"
  then have n: "t \<notin> set (lcont (queues s) (WaitL v))" for v using ok by (auto simp: mutex_ok_def)
  then have "t \<notin> set ts" using ts by auto
  moreover have "t \<notin> set (lcont (queues s') (WaitL v))" for v
    using n[of v] n[of w] w ts(2) by (auto simp: wake_post_def)
  ultimately show "wait_queue_block_ret (threads s' t) = wait_queue_block_ret (threads s t) \<and>
      (\<forall>w. t \<notin> set (lcont (queues s') (WaitL w)))"
    using w by (auto simp: wake_post_def)
qed (rule mx)

lemma mutex_ok_block_other:
  assumes ok: "mutex_ok m s" and b: "blocked_post C c w timeout s s'" and ne: "w \<noteq> WQ_mutex m"
    and idle: "kstack s (current s c) = []" and mx: "mutexes s' m = mutexes s m"
    and ks: "kstack s2 = (kstack s')(current s c := kstack s' (current s c) @ fs)" "FR_mutex_acquire m \<notin> set fs"
    and s2: "queues s2 = queues s'" "threads s2 = threads s'" "mutexes s2 = mutexes s'"
  shows "mutex_ok m s2"
proof (rule mutex_ok_cong[OF ok])
  show a: "acquiring m s2 = acquiring m s"
    by (rule acquiring_kstack[of "current s c"])
      (use b ks idle in \<open>auto simp: blocked_post_def base_frame_def Let_def\<close>)
  show "mutex_waiters m s2 = mutex_waiters m s" using b ne s2 by (auto simp: blocked_post_def mutex_waiters_def Let_def)
  fix t assume t: "t \<in> acquiring m s" "t \<notin> set (mutex_waiters m s)"
  then have "t \<noteq> current s c" using idle by (auto simp: acquiring_def)
  moreover have n: "t \<notin> set (lcont (queues s) (WaitL v))" for v using ok t by (auto simp: mutex_ok_def)
  ultimately show "wait_queue_block_ret (threads s2 t) = wait_queue_block_ret (threads s t) \<and>
      (\<forall>w. t \<notin> set (lcont (queues s2) (WaitL w)))"
    using b s2 by (auto simp: blocked_post_def Let_def)
qed (use mx s2 in simp)

text \<open>The current thread blocks on the mutex.\<close>

lemma mutex_ok_block_self:
  assumes ok: "mutex_ok m s" and b: "blocked_post C c (WQ_mutex m) timeout s1 s'"
    and s1: "s1 = upd_mutex m (\<lambda>x. x\<lparr>m_count := m_count x + 1\<rparr>) s" and idle: "kstack s (current s c) = []"
    and mx: "mutexes s' = mutexes s1"
    and un: "\<And>w. current s c \<notin> set (lcont (queues s) (WaitL w))"
    and ks: "kstack s2 = (kstack s')(current s c := kstack s' (current s c) @ [FR_mutex_acquire m])"
    and s2: "queues s2 = queues s'" "threads s2 = threads s'" "mutexes s2 = mutexes s'"
  shows "mutex_ok m s2"
proof -
  let ?cur = "current s c"
  have sel: "current s1 = current s" "queues s1 = queues s" "kstack s1 = kstack s" "threads s1 = threads s"
    by (simp_all add: s1 upd_mutex_def)
  have k2: "kstack s2 t = (if t = ?cur then [FR_block timeout, FR_mutex_acquire m] else kstack s t)" for t
    using b ks idle by (auto simp: blocked_post_def base_frame_def Let_def sel)
  have na: "?cur \<notin> acquiring m s" using idle by (simp add: acquiring_def)
  have a: "acquiring m s2 = insert ?cur (acquiring m s)" by (auto simp: acquiring_def k2)
  have w: "mutex_waiters m s2 = mutex_waiters m s @ [?cur]"
    using b s2 by (simp add: blocked_post_def mutex_waiters_def Let_def sel)
  have r: "wait_queue_block_ret (threads s2 t) = wait_queue_block_ret (threads s t)" if "t \<noteq> ?cur" for t
    using b s2 that by (simp add: blocked_post_def Let_def sel)
  have r': "wait_queue_block_ret (threads s2 t) = wait_queue_block_ret (threads s t)" if "t \<in> acquiring m s" for t
    using na r[of t] that by auto
  have g: "granted m s2 = granted m s" "backing_out m s2 = backing_out m s"
    using na r' by (auto simp: granted_def backing_out_def a w)
  have o: "owners m s2 = owners m s" using g(1) mx s2(3) by (simp add: owners_def s1 upd_mutex_def)
  have "m_count (mutexes s2 m) = m_count (mutexes s m) + 1" using mx s2(3) by (simp add: s1 upd_mutex_def)
  moreover have "wait_queue_block_ret (threads s2 t) \<in> {NO_ERROR, ERR_TIMED_OUT} \<and> (\<forall>v. t \<notin> set (lcont (queues s2) (WaitL v)))"
    if "t \<in> acquiring m s2" "t \<notin> set (mutex_waiters m s2)" for t
  proof -
    have t: "t \<noteq> ?cur" "t \<in> acquiring m s" "t \<notin> set (mutex_waiters m s)" using that a w by auto
    then show ?thesis using ok r[OF t(1)] b s2(1) by (auto simp: mutex_ok_def blocked_post_def Let_def sel)
  qed
  ultimately show ?thesis using ok a w g o by (auto simp: mutex_ok_def)
qed

text \<open>A waiter of the mutex is woken, by a release (\<open>NO_ERROR\<close>) or by its timeout.\<close>

lemma mutex_wake_sets:
  assumes ok: "mutex_ok m s" and w: "wake_post {cur} (WQ_mutex m) err [t] (remove1 t (mutex_waiters m s)) s s'"
    and t: "t \<in> set (mutex_waiters m s)" and d: "distinct (mutex_waiters m s)"
    and ks: "FR_mutex_acquire m \<in> set (kstack s' cur) \<longleftrightarrow> FR_mutex_acquire m \<in> set (kstack s cur)"
  shows "acquiring m s' = acquiring m s" "mutex_waiters m s' = remove1 t (mutex_waiters m s)"
    "granted m s' = (if err = NO_ERROR then insert t (granted m s) else granted m s)"
    "backing_out m s' = (if err = ERR_TIMED_OUT then insert t (backing_out m s) else backing_out m s)"
    "t \<notin> granted m s" "t \<notin> backing_out m s"
proof -
  show a: "acquiring m s' = acquiring m s"
    by (rule acquiring_kstack[of cur]) (use w ks in \<open>auto simp: wake_post_def base_frame_def\<close>)
  show ws: "mutex_waiters m s' = remove1 t (mutex_waiters m s)" using w by (simp add: wake_post_def mutex_waiters_def)
  have r: "wait_queue_block_ret (threads s' u) = (if u = t then err else wait_queue_block_ret (threads s u))" for u
    using w by (simp add: wake_post_def)
  have ta: "t \<in> acquiring m s" using ok t by (auto simp: mutex_ok_def)
  show "granted m s' = (if err = NO_ERROR then insert t (granted m s) else granted m s)"
    "backing_out m s' = (if err = ERR_TIMED_OUT then insert t (backing_out m s) else backing_out m s)"
    using ta d t by (auto simp: granted_def backing_out_def a ws r)
  show "t \<notin> granted m s" "t \<notin> backing_out m s" using t by (auto simp: granted_def backing_out_def)
qed

lemma mutex_pending_after:
  assumes ok: "mutex_ok m s" and w: "wake_post {cur} (WQ_mutex m) err [t] (remove1 t (mutex_waiters m s)) s s'"
    and t: "t \<in> set (mutex_waiters m s)" and d: "distinct (mutex_waiters m s)" and q: "ls_ok (queues s)"
    and ks: "FR_mutex_acquire m \<in> set (kstack s' cur) \<longleftrightarrow> FR_mutex_acquire m \<in> set (kstack s cur)"
    and u: "u \<in> acquiring m s'" "u \<notin> set (mutex_waiters m s')" and err: "err \<in> {NO_ERROR, ERR_TIMED_OUT}"
  shows "wait_queue_block_ret (threads s' u) \<in> {NO_ERROR, ERR_TIMED_OUT} \<and> (\<forall>v. u \<notin> set (lcont (queues s') (WaitL v)))"
proof (cases "u = t")
  case True
  have tl: "lon (queues s) t = Some (WaitL (WQ_mutex m))" using t ls_ok_mem[OF q] by (simp add: mutex_waiters_def)
  have "t \<notin> set (lcont (queues s') (WaitL v))" for v
    using w d tl ls_ok_mem[OF q, of t "WaitL v"] by (auto simp: wake_post_def)
  with True w err show ?thesis by (auto simp: wake_post_def)
next
  case False
  note m = mutex_wake_sets[OF ok w t d ks]
  have "u \<in> acquiring m s" "u \<notin> set (mutex_waiters m s)" using u m(1,2) False by auto
  then have p: "wait_queue_block_ret (threads s u) \<in> {NO_ERROR, ERR_TIMED_OUT}" "\<And>v. u \<notin> set (lcont (queues s) (WaitL v))"
    using ok by (auto simp: mutex_ok_def)
  have "u \<notin> set (lcont (queues s') (WaitL v))" for v
    using w p(2)[of v] p(2)[of "WQ_mutex m"] notin_set_remove1 by (auto simp: wake_post_def mutex_waiters_def)
  with p(1) False w show ?thesis by (auto simp: wake_post_def)
qed

lemma mutex_ok_timeout:
  assumes ok: "mutex_ok m s" and w: "wake_post {} (WQ_mutex m) ERR_TIMED_OUT [t] (remove1 t (mutex_waiters m s)) s s'"
    and t: "t \<in> set (mutex_waiters m s)" and q: "ls_ok (queues s)" and mx: "mutexes s' m = mutexes s m"
  shows "mutex_ok m s'"
proof -
  have w': "wake_post {t} (WQ_mutex m) ERR_TIMED_OUT [t] (remove1 t (mutex_waiters m s)) s s'"
    using w by (rule wake_post_mono) simp
  have d: "distinct (mutex_waiters m s)" using ls_ok_distinct[OF q] by (simp add: mutex_waiters_def)
  have ks: "kstack s' = kstack s" using w by (auto simp: wake_post_def base_frame_def)
  note m = mutex_wake_sets[OF ok w' t d]
  have o: "owners m s' = owners m s" using m(3) ks mx by (simp add: owners_def)
  have fin: "finite (backing_out m s)" using ok by (simp add: mutex_ok_def backing_out_def)
  have len: "length (mutex_waiters m s) = Suc (length (mutex_waiters m s'))"
    using m(2) ks remove1_length_in[OF t] by simp
  have card: "card (backing_out m s') = Suc (card (backing_out m s))" using m(4,6) ks fin by simp
  have "m_count (mutexes s' m) = int (owners m s' + length (mutex_waiters m s') + card (backing_out m s'))"
    using ok o len card mx by (simp add: mutex_ok_def)
  moreover have "wait_queue_block_ret (threads s' u) \<in> {NO_ERROR, ERR_TIMED_OUT} \<and> (\<forall>v. u \<notin> set (lcont (queues s') (WaitL v)))"
    if u: "u \<in> acquiring m s'" "u \<notin> set (mutex_waiters m s')" for u
    using mutex_pending_after[OF ok w' t d q _ u] ks by simp
  ultimately show ?thesis using ok m(1,2) ks o d by (auto simp: mutex_ok_def)
qed

section \<open>The mutex operations keep the invariant\<close>

lemma sync_more:
  assumes "kstate.more s' = kstate.more (s :: 'z sync_state_scheme)"
  shows "mutexes s' = mutexes s" "sems s' = sems s" "events s' = events s" "cond_magic s' = cond_magic s"
  using assms by (cases s; cases s'; simp)+

lemma wake_post_more: "wake_post K w err ts rest s s' \<Longrightarrow> kstate.more s' = kstate.more s"
  by (simp add: wake_post_def base_frame_def)

lemma blocked_post_more: "blocked_post C c w timeout s s' \<Longrightarrow> kstate.more s' = kstate.more s"
  by (simp add: blocked_post_def base_frame_def)

lemma upd_mutex_sel [simp]:
  "kinv C (upd_mutex m f s) = kinv C s" "threads (upd_mutex m f s) = threads s" "queues (upd_mutex m f s) = queues s"
  "current (upd_mutex m f s) = current s" "kstack (upd_mutex m f s) = kstack s" "wqs (upd_mutex m f s) = wqs s"
  "tqueue (upd_mutex m f s) = tqueue s" "mutexes (upd_mutex m f s) = (mutexes s)(m := f (mutexes s m))"
  by (simp_all add: upd_mutex_def kinv_def sched_inv_def queue_inv_def bitmap_ok_def thread_inv_def cpu_inv_def preempt_inv_def)

lemma upd_sem_sel [simp]:
  "kinv C (upd_sem m f s) = kinv C s" "threads (upd_sem m f s) = threads s" "queues (upd_sem m f s) = queues s"
  "current (upd_sem m f s) = current s" "kstack (upd_sem m f s) = kstack s" "wqs (upd_sem m f s) = wqs s"
  "tqueue (upd_sem m f s) = tqueue s" "mutexes (upd_sem m f s) = mutexes s" "sems (upd_sem m f s) = (sems s)(m := f (sems s m))"
  by (simp_all add: upd_sem_def kinv_def sched_inv_def queue_inv_def bitmap_ok_def thread_inv_def cpu_inv_def preempt_inv_def)

lemma upd_event_sel [simp]:
  "kinv C (upd_event m f s) = kinv C s" "threads (upd_event m f s) = threads s" "queues (upd_event m f s) = queues s"
  "current (upd_event m f s) = current s" "kstack (upd_event m f s) = kstack s" "wqs (upd_event m f s) = wqs s"
  "tqueue (upd_event m f s) = tqueue s" "mutexes (upd_event m f s) = mutexes s" "events (upd_event m f s) = (events s)(m := f (events s m))"
  by (simp_all add: upd_event_def kinv_def sched_inv_def queue_inv_def bitmap_ok_def thread_inv_def cpu_inv_def preempt_inv_def)

lemma mutex_sets_upd [simp]:
  "acquiring m (upd_mutex m' f s) = acquiring m s" "mutex_waiters m (upd_mutex m' f s) = mutex_waiters m s"
  "granted m (upd_mutex m' f s) = granted m s" "backing_out m (upd_mutex m' f s) = backing_out m s"
  "mutex_ok m (upd_sem x g s) = mutex_ok m s" "mutex_ok m (upd_event y h s) = mutex_ok m s"
  by (simp_all add: mutex_sets mutex_ok_def owners_def)

lemma mutex_ok_upd_other: "m' \<noteq> m \<Longrightarrow> mutex_ok m (upd_mutex m' f s) = mutex_ok m s"
  by (simp add: mutex_ok_def owners_def)

lemma mutex_sets_kstack_const:
  assumes "\<And>t. t \<noteq> u \<Longrightarrow> kstack s' t = kstack s t" "kstack s' u = kstack s u @ fs" "\<And>k. FR_mutex_acquire k \<notin> set fs"
    "queues s' = queues s" "threads s' = threads s" "mutexes s' = mutexes s"
  shows "mutex_ok m s' = mutex_ok m s"
proof -
  have "acquiring m s' = acquiring m s" by (rule acquiring_kstack[of u]) (use assms in auto)
  then show ?thesis using assms by (simp add: mutex_ok_def owners_def granted_def backing_out_def mutex_waiters_def)
qed

lemma owned_granted:
  assumes "mutex_ok m s" "m_holder (mutexes s m) = Some h"
  shows "granted m s = {}" "owners m s = 1"
  using assms by (auto simp: mutex_ok_def owners_def granted_def card_eq_0_iff)

lemma wake_result_more:
  assumes "wake_result C c w err ts rest s r s'"
  shows "kinv C s'" "wake_post {current s c} w err ts rest s s'"
    "FR_mutex_acquire m \<in> set (kstack s' (current s c)) \<longleftrightarrow> FR_mutex_acquire m \<in> set (kstack s (current s c))"
  using assms by (auto simp: wake_result_def)

text \<open>Without \<open>reschedule\<close> the caller of \<open>wait_queue_wake_one\<close> goes on.\<close>

lemma wake_one_stays:
  assumes r: "wait_queue_wake_one c w False err s = Some (r, s')" and inv: "kinv C s"
  shows "current s' = current s" "kstack s' = kstack s"
proof -
  have m: "wq_magic (wqs s w) = WAIT_QUEUE_MAGIC"
    using r by (auto simp: wait_queue_wake_one_def Let_def split: if_splits)
  have "s' = s \<or> (\<exists>t s1. woken w err t s s1 \<and> s' = mp_reschedule c 0xFFFFFFFF 0 s1)"
    using wake_one_wp[OF kinvD(1)[OF inv] m, of c err] r by (auto split: list.splits)
  moreover have "current (mp_reschedule c 0xFFFFFFFF 0 x) = current x" "kstack (mp_reschedule c 0xFFFFFFFF 0 x) = kstack x" for x :: "'a kstate_scheme"
    by (simp_all add: mp_reschedule_def Let_def)
  ultimately show "current s' = current s" "kstack s' = kstack s" by (auto simp: woken_def base_frame_def)
qed

lemma mutex_release_step:
  assumes r: "mutex_release_internal c m b s = Some (r, s')" and inv: "kinv C s" "c \<in> C"
    and cur: "\<not> thread_is_idle (threads s (current s c))" and ok: "mutex_ok m s"
    and own: "m_holder (mutexes s m) = Some h"
  shows "kinv C s' \<and> mutex_ok m s' \<and> (\<forall>k. k \<noteq> m \<longrightarrow> mutex_ok k s \<longrightarrow> mutex_ok k s') \<and>
     (\<forall>k. m_magic (mutexes s' k) = m_magic (mutexes s k)) \<and> (\<forall>t. t \<noteq> current s c \<longrightarrow> kstack s' t = kstack s t) \<and>
     (kstack s' (current s c) = kstack s (current s c) \<or> kstack s' (current s c) = kstack s (current s c) @ [FR_const 1]) \<and>
     (\<forall>t. thread_static (threads s' t) = thread_static (threads s t)) \<and> (b \<or> current s' = current s \<and> kstack s' = kstack s)"
proof -
  let ?s1 = "upd_mutex m (\<lambda>x. x\<lparr>m_holder := None, m_count := m_count x - 1\<rparr>) s"
  note og = owned_granted[OF ok own]
  have k1: "kinv C ?s1" "\<not> thread_is_idle (threads ?s1 (current ?s1 c))" using inv cur by simp_all
  have q: "ls_ok (queues s)" using inv(1) by (simp add: kinv_def sched_inv_def queue_inv_def)
  have cnt: "m_count (mutexes ?s1 m) = int (length (mutex_waiters m s) + card (backing_out m s))"
    using ok og by (simp add: mutex_ok_def)
  have ok1: "mutex_ok m ?s1 " using ok og by (simp add: mutex_ok_def owners_def)
  show ?thesis
  proof (cases "1 \<le> m_count (mutexes ?s1 m)")
    case False
    then have "s' = ?s1" using r by (simp add: mutex_release_internal_def Let_def)
    with k1 ok1 show ?thesis by (simp add: mutex_ok_upd_other)
  next
    case True
    then have wk: "wait_queue_wake_one c (WQ_mutex m) b NO_ERROR ?s1 = Some (r, s')"
      using r by (simp add: mutex_release_internal_def Let_def)
    show ?thesis
    proof (rule wake_one_cases[OF wk k1(1) inv(2) k1(2)])
      assume "s' = ?s1"
      then show ?thesis using k1 ok1 by (simp add: mutex_ok_upd_other)
    next
      fix t ts
      assume woken: "lcont (queues ?s1) (WaitL (WQ_mutex m)) = t # ts" "wake_result C c (WQ_mutex m) NO_ERROR [t] ts ?s1 r s'"
      note wr = wake_result_more[OF woken(2)]
      have ws: "mutex_waiters m ?s1 = t # ts" using woken(1) by (simp add: mutex_waiters_def)
      have mx: "mutexes s' = mutexes ?s1" by (rule sync_more(1)[OF wake_post_more[OF wr(2)]])
      have wp': "wake_post {current ?s1 c} (WQ_mutex m) NO_ERROR [t] (remove1 t (mutex_waiters m ?s1)) ?s1 s'"
        using wr(2) ws by simp
      have d: "distinct (mutex_waiters m ?s1)" using ls_ok_distinct[OF q] by (simp add: mutex_waiters_def)
      have t: "t \<in> set (mutex_waiters m ?s1)" using ws by simp
      note st = mutex_wake_sets[OF ok1 wp' t d wr(3)]
      have o: "owners m s' = 1" using st(3) og mx by (simp add: owners_def)
      have pend: "wait_queue_block_ret (threads s' u) \<in> {NO_ERROR, ERR_TIMED_OUT} \<and> (\<forall>v. u \<notin> set (lcont (queues s') (WaitL v)))"
        if "u \<in> acquiring m s'" "u \<notin> set (mutex_waiters m s')" for u
        by (rule mutex_pending_after[OF ok1 wp' t d _ wr(3) that]) (use q in simp_all)
      have "mutex_ok m s'"
        using ok st(1,2,4) o pend cnt mx ws by (auto simp: mutex_ok_def)
      moreover have "mutex_ok k s'" if "k \<noteq> m" "mutex_ok k s" for k
        by (rule mutex_ok_wake_other[OF _ wr(2)]) (use that mx wr(3) woken(1) in \<open>auto simp: mutex_ok_upd_other\<close>)
      moreover have "\<forall>t. t \<noteq> current s c \<longrightarrow> kstack s' t = kstack s t"
        "kstack s' (current s c) = kstack s (current s c) \<or> kstack s' (current s c) = kstack s (current s c) @ [FR_const 1]"
        "\<forall>t. thread_static (threads s' t) = thread_static (threads s t)"
        using woken(2) by (auto simp: wake_result_def wake_post_def base_frame_def)
      moreover have "b \<or> current s' = current s \<and> kstack s' = kstack s"
        using wake_one_stays[OF _ k1(1), of c "WQ_mutex m" NO_ERROR r s'] wk by (cases b) simp_all
      ultimately show ?thesis using wr(1) mx by simp
    qed
  qed
qed

lemma mutex_acquire_step:
  assumes r: "mutex_acquire_timeout_internal c m timeout s = Some (r, s')" and inv: "kinv C s" "c \<in> C"
    and cur: "\<not> thread_is_idle (threads s (current s c))" "kstack s (current s c) = []" and ok: "mutex_ok m s"
  shows "kinv C s' \<and> mutex_ok m s' \<and> (\<forall>k. k \<noteq> m \<longrightarrow> mutex_ok k s \<longrightarrow> mutex_ok k s') \<and>
     (r = Ret NO_ERROR \<longrightarrow> m_holder (mutexes s' m) = Some (current s c) \<and> owners m s = 0) \<and>
     (\<forall>k. m_magic (mutexes s' k) = m_magic (mutexes s k)) \<and> (\<forall>t. t \<noteq> current s c \<longrightarrow> kstack s' t = kstack s t) \<and>
     kstack s' (current s c) \<in> {[], [FR_block timeout, FR_mutex_acquire m]} \<and>
     (\<forall>t. thread_static (threads s' t) = thread_static (threads s t))"
proof -
  let ?s1 = "upd_mutex m (\<lambda>x. x\<lparr>m_count := m_count x + 1\<rparr>) s"
  have k1: "kinv C ?s1" "\<not> thread_is_idle (threads ?s1 (current ?s1 c))" using inv cur by simp_all
  show ?thesis
  proof (cases "1 < m_count (mutexes ?s1 m)")
    case False
    then have "m_count (mutexes s m) \<le> 0" by simp
    moreover have "m_count (mutexes s m) = int (owners m s + length (mutex_waiters m s) + card (backing_out m s))"
      using ok unfolding mutex_ok_def by blast
    ultimately have "owners m s + length (mutex_waiters m s) + card (backing_out m s) = 0" by linarith
    then have z: "owners m s = 0" "mutex_waiters m s = []" "card (backing_out m s) = 0" by simp_all
    have g: "granted m s = {}" using z(1) ok by (auto simp: owners_def mutex_ok_def granted_def card_eq_0_iff split: option.splits)
    have s': "s' = upd_mutex m (\<lambda>x. x\<lparr>m_holder := Some (current s c)\<rparr>) ?s1" "r = Ret NO_ERROR"
      using r False by (simp_all add: mutex_acquire_timeout_internal_def Let_def)
    have "mutex_ok m s'" using ok z g by (auto simp: s' mutex_ok_def owners_def)
    then show ?thesis using k1 z(1) cur(2) by (simp add: s' mutex_ok_upd_other)
  next
    case True
    then obtain r1 s2 where b: "wait_queue_block c (WQ_mutex m) timeout ?s1 = Some (r1, s2)"
        "with_frame (current s c) (FR_mutex_acquire m) (mutex_acquire_woken c m) (r1, s2) = Some (r, s')"
      using r by (auto simp: mutex_acquire_timeout_internal_def Let_def bind_eq_Some_conv)
    show ?thesis
    proof (rule block_cases[OF b(1) k1(1) inv(2) k1(2)])
      assume z: "r1 = Ret ERR_TIMED_OUT" "s2 = ?s1"
      then have s': "s' = upd_mutex m (\<lambda>x. x\<lparr>m_count := m_count x - 1\<rparr>) ?s1" "r = Ret ERR_TIMED_OUT"
        using b(2) by (simp_all add: with_frame_def mutex_acquire_woken_def)
      have "mutex_ok m s'" using ok by (auto simp: s' mutex_ok_def owners_def)
      then show ?thesis using k1 cur(2) by (simp add: s' mutex_ok_upd_other)
    next
      assume z: "r1 = Switched" and bp: "blocked_post C c (WQ_mutex m) timeout ?s1 s2"
      then have s': "s' = s2\<lparr>kstack := (kstack s2)(current s c := kstack s2 (current s c) @ [FR_mutex_acquire m])\<rparr>" "r = Switched"
        using b(2) by (simp_all add: with_frame_def)
      have mx: "mutexes s2 = mutexes ?s1" by (rule sync_more(1)[OF blocked_post_more[OF bp]])
      have ls: "ls_ok (queues s)" using inv(1) by (simp add: kinv_def sched_inv_def queue_inv_def)
      have un: "current s c \<notin> set (lcont (queues s) (WaitL w))" for w
        using kinv_current(3)[OF inv] ls_ok_mem[OF ls] by simp
      have "mutex_ok m s'"
        by (rule mutex_ok_block_self[OF ok bp refl cur(2) mx un]) (simp_all add: s')
      moreover have "mutex_ok k s'" if "k \<noteq> m" "mutex_ok k s" for k
        by (rule mutex_ok_block_other[OF _ bp, where fs = "[FR_mutex_acquire m]"])
          (use that cur(2) mx in \<open>simp_all add: s' mutex_ok_upd_other\<close>)
      moreover have "kinv C s'" using bp by (simp add: s' blocked_post_def)
      moreover have "\<forall>t. t \<noteq> current s c \<longrightarrow> kstack s' t = kstack s t"
        "kstack s' (current s c) = [FR_block timeout, FR_mutex_acquire m]"
        "\<forall>t. thread_static (threads s' t) = thread_static (threads s t)"
        using bp cur(2) by (auto simp: s' blocked_post_def base_frame_def Let_def)
      ultimately show ?thesis using s' mx by simp
    qed
  qed
qed

section \<open>Steps\<close>

text \<open>A thread that may make a call: it is current, not idle, and not in the middle of one.\<close>

definition may_call :: "nat \<Rightarrow> 'z kstate_scheme \<Rightarrow> bool" where
  "may_call c s \<longleftrightarrow> kstack s (current s c) = [] \<and> \<not> thread_is_idle (threads s (current s c))"

text \<open>Nobody waits on an object again while it is being destroyed: when the thread that destroys a wait queue goes
  on after waking its threads, the queue is empty.\<close>

definition unused_when_destroyed :: "nat \<Rightarrow> 'z kstate_scheme \<Rightarrow> bool" where
  "unused_when_destroyed c s \<longleftrightarrow> (\<forall>w. FR_wq_destroy w \<in> set (kstack s (current s c)) \<longrightarrow> lcont (queues s) (WaitL w) = [])"

inductive kstep :: "nat set \<Rightarrow> 'z sync_state_scheme \<Rightarrow> 'z sync_state_scheme \<Rightarrow> bool" for C where
  mutex_init: "m_magic (mutexes s m) \<noteq> MUTEX_MAGIC \<Longrightarrow> acquiring m s = {} \<Longrightarrow> mutex_init m s = Some s' \<Longrightarrow> kstep C s s'"
| mutex_destroy: "c \<in> C \<Longrightarrow> may_call c s \<Longrightarrow> \<forall>t. FR_cond_reacquire m \<notin> set (kstack s t) \<Longrightarrow>
    mutex_destroy c m s = Some (r, s') \<Longrightarrow> kstep C s s'"
| acquire: "c \<in> C \<Longrightarrow> may_call c s \<Longrightarrow> mutex_acquire_timeout c m timeout s = Some (r, s') \<Longrightarrow> kstep C s s'"
| release: "c \<in> C \<Longrightarrow> may_call c s \<Longrightarrow> mutex_release c m s = Some (r, s') \<Longrightarrow> kstep C s s'"
| yield: "c \<in> C \<Longrightarrow> kstack s (current s c) = [] \<Longrightarrow> thread_yield c s = Some (r, s') \<Longrightarrow> kstep C s s'"
| preempt: "c \<in> C \<Longrightarrow> kstack s (current s c) = [] \<Longrightarrow> thread_preempt c s = Some (r, s') \<Longrightarrow> kstep C s s'"
| sem_init: "sem_init x val s = Some s' \<Longrightarrow> kstep C s s'"
| sem_destroy: "c \<in> C \<Longrightarrow> may_call c s \<Longrightarrow> sem_destroy c x s = Some (r, s') \<Longrightarrow> kstep C s s'"
| sem_trywait: "sem_trywait x s = (r, s') \<Longrightarrow> kstep C s s'"
| sem_wait: "c \<in> C \<Longrightarrow> may_call c s \<Longrightarrow> sem_wait c x s = Some (r, s') \<Longrightarrow> kstep C s s'"
| sem_timedwait: "c \<in> C \<Longrightarrow> may_call c s \<Longrightarrow> sem_timedwait c x timeout s = Some (r, s') \<Longrightarrow> kstep C s s'"
| sem_post: "c \<in> C \<Longrightarrow> may_call c s \<Longrightarrow> sem_post c x b s = Some (r, s') \<Longrightarrow> kstep C s s'"
| event_init: "event_init e initial fl s = Some s' \<Longrightarrow> kstep C s s'"
| event_destroy: "c \<in> C \<Longrightarrow> may_call c s \<Longrightarrow> event_destroy c e s = Some (r, s') \<Longrightarrow> kstep C s s'"
| event_unsignal: "event_unsignal e s = Some (r, s') \<Longrightarrow> kstep C s s'"
| event_wait: "c \<in> C \<Longrightarrow> may_call c s \<Longrightarrow> event_wait_timeout c e timeout s = Some (r, s') \<Longrightarrow> kstep C s s'"
| event_signal: "c \<in> C \<Longrightarrow> may_call c s \<Longrightarrow> event_signal c e b s = Some (r, s') \<Longrightarrow> kstep C s s'"
| cond_init: "cond_init cv s = Some s' \<Longrightarrow> kstep C s s'"
| cond_destroy: "c \<in> C \<Longrightarrow> may_call c s \<Longrightarrow> cond_destroy c cv s = Some (r, s') \<Longrightarrow> kstep C s s'"
| cond_wait: "c \<in> C \<Longrightarrow> may_call c s \<Longrightarrow> is_mutex_held c m s \<Longrightarrow>
    cond_wait_timeout c cv m timeout s = Some (r, s') \<Longrightarrow> kstep C s s'"
| cond_signal: "c \<in> C \<Longrightarrow> may_call c s \<Longrightarrow> cond_signal c cv s = Some (r, s') \<Longrightarrow> kstep C s s'"
| cond_broadcast: "c \<in> C \<Longrightarrow> may_call c s \<Longrightarrow> cond_broadcast c cv s = Some (r, s') \<Longrightarrow> kstep C s s'"
| sleep: "c \<in> C \<Longrightarrow> may_call c s \<Longrightarrow> thread_sleep c delay s = Some (r, s') \<Longrightarrow> kstep C s s'"
| resume: "c \<in> C \<Longrightarrow> kstack s (current s c) \<noteq> [] \<Longrightarrow> unused_when_destroyed c s \<Longrightarrow> resume c s = Some (r, s') \<Longrightarrow> kstep C s s'"
| timeout: "callback (timers s (TM_stack t)) = Some CB_wait_queue_timeout_handler \<Longrightarrow>
    periodic_time (timers s (TM_stack t)) = 0 \<Longrightarrow>
    timer_fire_one (kernel_fire c) c now (TM_stack t) s = Some (r, s') \<Longrightarrow> kstep C s s'"
| wake_up: "callback (timers s (TM_stack t)) = Some CB_thread_sleep_handler \<Longrightarrow> kernel_ready (TM_stack t) s \<Longrightarrow>
    timer_fire_one (kernel_fire c) c now (TM_stack t) s = Some (r, s') \<Longrightarrow> kstep C s s'"
| tick: "s' = snd (thread_timer_tick c s) \<Longrightarrow> kstep C s s'"

inductive kreach :: "nat set \<Rightarrow> 'z sync_state_scheme \<Rightarrow> 'z sync_state_scheme \<Rightarrow> bool" for C where
  start: "kreach C s s"
| step: "kreach C s s' \<Longrightarrow> kstep C s' s'' \<Longrightarrow> kreach C s s''"

text \<open>What the pending callers of a switched-out thread can be. Those that take no notice of what they are given
  return a constant, or end the destruction of a wait queue.\<close>

fun is_const_frame :: "frame \<Rightarrow> bool" where
  "is_const_frame (FR_const v) = True"
| "is_const_frame (FR_wq_destroy w) = True"
| "is_const_frame _ = False"

text \<open>The callers of \<open>wait_queue_block\<close>: none, an acquisition, \<open>sem_timedwait\<close>, \<open>cond_wait_timeout\<close> that waits for
  the condition, and \<open>cond_wait_timeout\<close> that waits for its mutex.\<close>

definition block_callers :: "frame list \<Rightarrow> bool" where
  "block_callers fs \<longleftrightarrow> fs = [] \<or> (\<exists>m. fs = [FR_mutex_acquire m]) \<or> (\<exists>x. fs = [FR_sem_timedwait x]) \<or>
     (\<exists>m. fs = [FR_cond_reacquire m]) \<or> (\<exists>m v. fs = [FR_mutex_acquire m, FR_const v])"

fun kshape :: "frame list \<Rightarrow> bool" where
  "kshape (FR_block t # fs) = block_callers fs"
| "kshape fs = list_all is_const_frame fs"

text \<open>A thread that waits for a condition is not an idle thread and has an initialised mutex to come back to.\<close>

definition cond_ok :: "'z sync_state_scheme \<Rightarrow> bool" where
  "cond_ok s \<longleftrightarrow> (\<forall>t m. FR_cond_reacquire m \<in> set (kstack s t) \<longrightarrow>
     \<not> thread_is_idle (threads s t) \<and> m_magic (mutexes s m) = MUTEX_MAGIC)"

definition sync_inv :: "nat set \<Rightarrow> 'z sync_state_scheme \<Rightarrow> bool" where
  "sync_inv C s \<longleftrightarrow> kinv C s \<and> (\<forall>t. kshape (kstack s t)) \<and> cond_ok s \<and>
     (\<forall>m. m_magic (mutexes s m) = MUTEX_MAGIC \<longrightarrow> mutex_ok m s)"

lemma cond_ok_step:
  assumes "cond_ok s" and "\<And>t. thread_static (threads s' t) = thread_static (threads s t)"
    and "\<And>m. m_magic (mutexes s' m) = m_magic (mutexes s m)"
    and "\<And>t m. FR_cond_reacquire m \<in> set (kstack s' t) \<Longrightarrow>
      FR_cond_reacquire m \<in> set (kstack s t) \<or> \<not> thread_is_idle (threads s t) \<and> m_magic (mutexes s m) = MUTEX_MAGIC"
  shows "cond_ok s'"
  using assms(1,3,4) thread_static_eqD(6)[OF assms(2)] unfolding cond_ok_def by metis

lemma cond_ok_upd [simp]:
  "cond_ok (upd_sem x g s) = cond_ok s" "cond_ok (upd_event y h s) = cond_ok s"
  by (simp_all add: cond_ok_def)

lemma const_not_cond: "list_all is_const_frame fs \<Longrightarrow> FR_cond_reacquire m \<notin> set fs"
  by (induction fs) auto

lemma const_not_acquire: "list_all is_const_frame fs \<Longrightarrow> FR_mutex_acquire m \<notin> set fs"
  by (induction fs) auto

lemma sync_inv_core:
  assumes inv: "sync_inv C s" and k: "kinv C s'" and m: "kstate.more s' = kstate.more s" and ks: "kstack s' = kstack s"
    and f: "\<And>w. lcont (queues s') (WaitL w) = lcont (queues s) (WaitL w)" "\<And>t. thread_core (threads s' t) = thread_core (threads s t)"
  shows "sync_inv C s'"
proof -
  note mx = sync_more(1)[OF m]
  have r: "wait_queue_block_ret (threads s' t) = wait_queue_block_ret (threads s t)" for t by (rule thread_core_eqD(6)[OF f(2)])
  have "mutex_ok m s'" if "mutex_ok m s" for m
    by (rule mutex_ok_cong[OF that]) (use f(1) ks r mx that in \<open>auto simp: acquiring_def mutex_waiters_def mutex_ok_def\<close>)
  moreover have "cond_ok s'"
    by (rule cond_ok_step[of s, OF _ thread_static_core[OF f(2)]]) (use inv ks mx in \<open>simp_all add: sync_inv_def\<close>)
  ultimately show ?thesis using inv k ks mx by (simp add: sync_inv_def)
qed

lemma sync_inv_frame:
  assumes "sync_inv C s" "kinv C s'" and f: "resched_frame s s'"
  shows "sync_inv C s'"
  by (rule sync_inv_core[OF assms(1,2)]) (use f in \<open>simp_all add: resched_frame_def\<close>)

text \<open>A constant result of a caller is put on an empty stack.\<close>

lemma sync_inv_push_const:
  assumes inv: "sync_inv C s" and ks: "kstack s t = []"
  shows "sync_inv C (s\<lparr>kstack := (kstack s)(t := [FR_const v])\<rparr>)" (is "sync_inv C ?s")
proof -
  have "mutex_ok m ?s = mutex_ok m s" for m
    by (rule mutex_sets_kstack_const[of t _ _ "[FR_const v]"]) (simp_all add: ks)
  moreover have "cond_ok ?s"
    by (rule cond_ok_step[of s]) (use inv in \<open>auto simp: sync_inv_def split: if_splits\<close>)
  ultimately show ?thesis using inv by (simp add: sync_inv_def)
qed

text \<open>Blocking on, and waking, an object that is not a mutex.\<close>

lemma sync_inv_block:
  assumes inv: "sync_inv C s" and c: "c \<in> C" "may_call c s" and r: "wait_queue_block c w timeout s = Some (r, s')"
    and w: "\<And>m. w \<noteq> WQ_mutex m"
    and s2: "r = Switched \<Longrightarrow> s2 = s'\<lparr>kstack := (kstack s')(current s c := kstack s' (current s c) @ fs)\<rparr>" "r \<noteq> Switched \<Longrightarrow> s2 = s'"
    and fs: "fs = [] \<or> (\<exists>x. fs = [FR_sem_timedwait x]) \<or> (\<exists>m. fs = [FR_cond_reacquire m] \<and> m_magic (mutexes s m) = MUTEX_MAGIC)"
  shows "sync_inv C s2"
proof -
  have k: "kinv C s" "\<not> thread_is_idle (threads s (current s c))" "kstack s (current s c) = []"
    using inv c by (auto simp: sync_inv_def may_call_def)
  show ?thesis
  proof (rule block_cases[OF r k(1) c(1) k(2)])
    assume "r = Ret ERR_TIMED_OUT" "s' = s"
    then show ?thesis using inv s2(2) by simp
  next
    assume sw: "r = Switched" and b: "blocked_post C c w timeout s s'"
    note s2' = s2(1)[OF sw]
    have mx: "mutexes s' = mutexes s" by (rule sync_more(1)[OF blocked_post_more[OF b]])
    have "mutex_ok m s2" if "mutex_ok m s" for m
      by (rule mutex_ok_block_other[OF that b w k(3), where fs = fs]) (use mx fs in \<open>auto simp: s2'\<close>)
    moreover have "kshape (kstack s2 t)" for t
      using b fs k(3) inv by (auto simp: s2' blocked_post_def base_frame_def Let_def sync_inv_def block_callers_def)
    moreover have "cond_ok s2"
    proof (rule cond_ok_step[of s])
      show "thread_static (threads s2 t) = thread_static (threads s t)" for t
        using b by (simp add: s2' blocked_post_def base_frame_def)
      show "FR_cond_reacquire m \<in> set (kstack s2 t) \<Longrightarrow>
          FR_cond_reacquire m \<in> set (kstack s t) \<or> \<not> thread_is_idle (threads s t) \<and> m_magic (mutexes s m) = MUTEX_MAGIC" for t m
        using b fs k(2,3) by (cases "t = current s c") (auto simp: s2' blocked_post_def base_frame_def Let_def)
    qed (use inv mx in \<open>simp_all add: sync_inv_def s2'\<close>)
    ultimately show ?thesis using inv b mx by (auto simp: sync_inv_def s2' blocked_post_def)
  qed
qed

lemma sync_inv_wake:
  assumes inv: "sync_inv C s" and c: "c \<in> C" "may_call c s" and wr: "wake_result C c w err ts rest s r s'"
    and w: "\<And>m. w = WQ_mutex m \<Longrightarrow> m_magic (mutexes s m) \<noteq> MUTEX_MAGIC" and ts: "lcont (queues s) (WaitL w) = ts @ rest"
    and s2: "r = Switched \<Longrightarrow> s2 = s'\<lparr>kstack := (kstack s')(current s c := kstack s' (current s c) @ fs)\<rparr>" "r \<noteq> Switched \<Longrightarrow> s2 = s'"
    and fs: "list_all is_const_frame fs"
  shows "sync_inv C s2"
proof -
  have k: "kstack s (current s c) = []" using c by (simp add: may_call_def)
  have mx: "mutexes s' = mutexes s" by (rule sync_more(1)[OF wake_post_more[OF wake_result_more(2)[OF wr]]])
  have ok': "mutex_ok m s'" if m: "m_magic (mutexes s m) = MUTEX_MAGIC" for m
    by (rule mutex_ok_wake_other[OF _ wake_result_more(2)[OF wr]])
      (use inv w[of m] m ts mx wake_result_more(3)[OF wr, of m] in \<open>auto simp: sync_inv_def\<close>)
  have sh: "kshape (kstack s' t @ (if t = current s c then fs' else []))" if "list_all is_const_frame fs'" for t fs'
  proof (cases "t = current s c")
    case True
    with wr k have "kstack s' t = [] \<or> kstack s' t = [FR_const (int (length ts))]" by (auto simp: wake_result_def)
    with that True show ?thesis by (cases fs'; cases "hd fs'") auto
  next
    case False
    with wr have "kstack s' t = kstack s t" by (simp add: wake_result_def wake_post_def base_frame_def)
    with False inv show ?thesis by (simp add: sync_inv_def)
  qed
  have co: "cond_ok s'"
  proof (rule cond_ok_step[of s])
    show "FR_cond_reacquire m \<in> set (kstack s' t) \<Longrightarrow>
        FR_cond_reacquire m \<in> set (kstack s t) \<or> \<not> thread_is_idle (threads s t) \<and> m_magic (mutexes s m) = MUTEX_MAGIC" for t m
      using wr by (cases "t = current s c") (auto simp: wake_result_def wake_post_def base_frame_def)
  qed (use inv mx wr in \<open>auto simp: sync_inv_def wake_result_def wake_post_def base_frame_def\<close>)
  show ?thesis
  proof (cases "r = Switched")
    case True
    note s2' = s2(1)[OF True]
    have "cond_ok s2"
      by (rule cond_ok_step[OF co]) (use const_not_cond[OF fs] in \<open>auto simp: s2' split: if_splits\<close>)
    moreover have "mutex_ok m s2 = mutex_ok m s'" for m
      by (rule mutex_sets_kstack_const[of "current s c" _ _ fs]) (use const_not_acquire[OF fs] in \<open>simp_all add: s2'\<close>)
    moreover have "kshape (kstack s2 t)" for t using sh[OF fs, of t] by (auto simp: s2')
    ultimately show ?thesis using inv ok' mx wake_result_more(1)[OF wr] by (simp add: sync_inv_def s2')
  next
    case False
    have "kshape (kstack s' t)" for t using sh[of "[]" t] by simp
    then show ?thesis using co inv ok' mx wake_result_more(1)[OF wr] s2(2)[OF False] by (simp add: sync_inv_def)
  qed
qed

text \<open>Acquiring a mutex, with the callers \<open>fs\<close> of the acquisition put on the stack if it blocks.\<close>

lemma sync_inv_acquire_internal:
  assumes inv: "sync_inv C s" and c: "c \<in> C" "may_call c s" and mg: "m_magic (mutexes s m) = MUTEX_MAGIC"
    and i: "mutex_acquire_timeout_internal c m timeout s = Some (r, s')"
  shows "sync_inv C s'" "sync_inv C (s'\<lparr>kstack := (kstack s')(current s c := kstack s' (current s c) @ [FR_const v])\<rparr>)" (is "sync_inv C ?s2")
proof -
  have k: "kinv C s" "\<not> thread_is_idle (threads s (current s c))" "kstack s (current s c) = []" "mutex_ok m s"
    using inv c mg by (auto simp: sync_inv_def may_call_def)
  note st = mutex_acquire_step[OF i k(1) c(1) k(2-4)]
  have sh: "kshape (kstack s' t)" "kshape (kstack ?s2 t)" for t
    using st inv by (cases "t = current s c"; force simp: sync_inv_def block_callers_def)+
  have ok: "mutex_ok k s'" if "m_magic (mutexes s k) = MUTEX_MAGIC" for k
    using st inv that by (cases "k = m") (auto simp: sync_inv_def)
  have co: "cond_ok s'"
  proof (rule cond_ok_step[of s])
    show "FR_cond_reacquire n \<in> set (kstack s' t) \<Longrightarrow>
        FR_cond_reacquire n \<in> set (kstack s t) \<or> \<not> thread_is_idle (threads s t) \<and> m_magic (mutexes s n) = MUTEX_MAGIC" for t n
      using st by (cases "t = current s c") auto
  qed (use inv st in \<open>simp_all add: sync_inv_def\<close>)
  show "sync_inv C s'" using st sh(1) ok co by (simp add: sync_inv_def)
  have "mutex_ok k ?s2 = mutex_ok k s'" for k
    by (rule mutex_sets_kstack_const[of "current s c" _ _ "[FR_const v]"]) simp_all
  moreover have "cond_ok ?s2" by (rule cond_ok_step[OF co]) (auto split: if_splits)
  ultimately show "sync_inv C ?s2" using st sh(2) ok by (simp add: sync_inv_def)
qed

lemma sync_inv_acquire:
  assumes "sync_inv C s" "c \<in> C" "may_call c s" and r: "mutex_acquire_timeout c m timeout s = Some (r, s')"
  shows "sync_inv C s'"
  by (rule sync_inv_acquire_internal(1)[OF assms(1-3), of m timeout r])
    (use r in \<open>auto simp: mutex_acquire_timeout_def split: if_splits\<close>)

text \<open>\<open>cond_wait_timeout\<close> comes back and takes its mutex.\<close>

lemma sync_inv_cond_woken:
  assumes inv: "sync_inv C s" and c: "c \<in> C" "may_call c s" and mg: "m_magic (mutexes s m) = MUTEX_MAGIC"
    and r: "cond_wait_woken c m v s = Some (r, s')"
  shows "sync_inv C s'"
proof -
  obtain r1 s1 where i: "mutex_acquire_timeout_internal c m INFINITE_TIME s = Some (r1, s1)"
      "with_frame (current s c) (FR_const v) (\<lambda>_ s. Some (Ret v, s)) (r1, s1) = Some (r, s')"
    using r by (auto simp: cond_wait_woken_def bind_eq_Some_conv)
  then show ?thesis
    using sync_inv_acquire_internal(1)[OF inv c mg i(1)] sync_inv_acquire_internal(2)[OF inv c mg i(1), of v]
    by (cases r1) (auto simp: with_frame_def)
qed

lemma mutex_release_cond_ok:
  assumes "kinv C s1 \<and> mutex_ok m s1 \<and> (\<forall>k. k \<noteq> m \<longrightarrow> mutex_ok k s \<longrightarrow> mutex_ok k s1) \<and>
     (\<forall>k. m_magic (mutexes s1 k) = m_magic (mutexes s k)) \<and> (\<forall>t. t \<noteq> cur \<longrightarrow> kstack s1 t = kstack s t) \<and>
     (kstack s1 cur = kstack s cur \<or> kstack s1 cur = kstack s cur @ [FR_const 1]) \<and>
     (\<forall>t. thread_static (threads s1 t) = thread_static (threads s t)) \<and> P" and "cond_ok s"
  shows "cond_ok s1"
proof (rule cond_ok_step[OF assms(2)])
  show "FR_cond_reacquire n \<in> set (kstack s1 t) \<Longrightarrow>
      FR_cond_reacquire n \<in> set (kstack s t) \<or> \<not> thread_is_idle (threads s t) \<and> m_magic (mutexes s n) = MUTEX_MAGIC" for t n
    using assms(1) by (cases "t = cur") auto
qed (use assms(1) in simp_all)

text \<open>The release inside \<open>cond_wait_timeout\<close>: the caller goes on without its mutex.\<close>

lemma sync_inv_release_stays:
  assumes inv: "sync_inv C s" and c: "c \<in> C" "may_call c s" and mg: "m_magic (mutexes s m) = MUTEX_MAGIC"
    and own: "m_holder (mutexes s m) = Some (current s c)" and i: "mutex_release_internal c m False s = Some (r1, s1)"
  shows "sync_inv C s1" "may_call c s1" "m_magic (mutexes s1 m) = MUTEX_MAGIC"
proof -
  have k: "kinv C s" "\<not> thread_is_idle (threads s (current s c))" "mutex_ok m s"
    using inv c mg by (auto simp: sync_inv_def may_call_def)
  note st = mutex_release_step[OF i k(1) c(1) k(2,3) own]
  have p: "kinv C s1" "mutex_ok m s1" "\<forall>k. k \<noteq> m \<longrightarrow> mutex_ok k s \<longrightarrow> mutex_ok k s1" "\<forall>k. m_magic (mutexes s1 k) = m_magic (mutexes s k)"
    "current s1 = current s" "kstack s1 = kstack s" "thread_static (threads s1 (current s c)) = thread_static (threads s (current s c))"
    using st by blast+
  have "mutex_ok k s1" if "m_magic (mutexes s1 k) = MUTEX_MAGIC" for k
    using p(2-4) inv that by (cases "k = m") (simp_all add: sync_inv_def)
  moreover have "cond_ok s1" by (rule mutex_release_cond_ok[OF st]) (use inv in \<open>simp add: sync_inv_def\<close>)
  ultimately show "sync_inv C s1" using p(1,6) inv by (simp add: sync_inv_def)
  show "m_magic (mutexes s1 m) = MUTEX_MAGIC" using p(4) mg by simp
  show "may_call c s1" using p(5,6) c(2) thread_static_eqD(6)[OF p(7)] by (simp add: may_call_def)
qed

lemma sync_inv_cond_wait:
  assumes inv: "sync_inv C s" and c: "c \<in> C" "may_call c s" and own: "is_mutex_held c m s"
    and r: "cond_wait_timeout c cv m timeout s = Some (r, s')"
  shows "sync_inv C s'"
proof -
  have mg: "m_magic (mutexes s m) = MUTEX_MAGIC" using r by (auto simp: cond_wait_timeout_def split: if_splits)
  obtain r0 s0 r1 s1 where i: "mutex_release_internal c m False s = Some (r0, s0)"
      "wait_queue_block c (WQ_cond cv) timeout s0 = Some (r1, s1)"
      "with_frame (current s0 c) (FR_cond_reacquire m) (cond_wait_woken c m) (r1, s1) = Some (r, s')"
    using r by (auto simp: cond_wait_timeout_def bind_eq_Some_conv split: if_splits)
  note rel = sync_inv_release_stays[OF inv c mg own[unfolded is_mutex_held_def] i(1)]
  show ?thesis
  proof (cases r1)
    case Switched
    show ?thesis
      by (rule sync_inv_block[OF rel(1) c(1) rel(2) i(2), where fs = "[FR_cond_reacquire m]"])
        (use Switched i(3) rel(3) in \<open>simp_all add: with_frame_def\<close>)
  next
    case (Ret v)
    have "kinv C s0" "\<not> thread_is_idle (threads s0 (current s0 c))" using rel(1,2) by (auto simp: sync_inv_def may_call_def)
    then have "s1 = s0" by (rule block_cases[OF i(2) _ c(1)]) (use Ret in simp_all)
    then show ?thesis using sync_inv_cond_woken[OF rel(1) c(1) rel(2,3), of v r s'] i(3) Ret by (simp add: with_frame_def)
  qed
qed

lemma sync_inv_release:
  assumes inv: "sync_inv C s" and c: "c \<in> C" "may_call c s" and r: "mutex_release c m s = Some (r, s')"
  shows "sync_inv C s'"
proof -
  have mg: "m_magic (mutexes s m) = MUTEX_MAGIC" and own: "m_holder (mutexes s m) = Some (current s c)"
    using r by (auto simp: mutex_release_def split: if_splits)
  obtain r1 s1 where i: "mutex_release_internal c m True s = Some (r1, s1)"
      "with_frame (current s c) (FR_const NO_ERROR) (\<lambda>_ s. Some (Ret NO_ERROR, s)) (r1, s1) = Some (r, s')"
    using r mg own by (auto simp: mutex_release_def bind_eq_Some_conv)
  have k: "kinv C s" "\<not> thread_is_idle (threads s (current s c))" "kstack s (current s c) = []" "mutex_ok m s"
    using inv c mg by (auto simp: sync_inv_def may_call_def)
  note st = mutex_release_step[OF i(1) k(1) c(1) k(2,4) own]
  have ok1: "mutex_ok k s1" if "m_magic (mutexes s1 k) = MUTEX_MAGIC" for k
    using st inv that by (cases "k = m") (auto simp: sync_inv_def)
  have sh1: "kshape (kstack s1 t @ (if t = current s c then fs else []))" if "fs = [] \<or> fs = [FR_const NO_ERROR]" for t fs
    using st inv k(3) that by (cases "t = current s c") (auto simp: sync_inv_def)
  have co: "cond_ok s1" by (rule mutex_release_cond_ok[OF st]) (use inv in \<open>simp add: sync_inv_def\<close>)
  show ?thesis
  proof (cases r1)
    case (Ret v)
    then have "s' = s1" using i(2) by (simp add: with_frame_def)
    then show ?thesis using st ok1 co sh1[of "[]"] by (simp add: sync_inv_def)
  next
    case Switched
    then have s': "s' = s1\<lparr>kstack := (kstack s1)(current s c := kstack s1 (current s c) @ [FR_const NO_ERROR])\<rparr>"
      using i(2) by (simp add: with_frame_def)
    have "mutex_ok k s' = mutex_ok k s1" for k
      by (rule mutex_sets_kstack_const[of "current s c" _ _ "[FR_const NO_ERROR]"]) (simp_all add: s')
    moreover have "cond_ok s'" by (rule cond_ok_step[OF co]) (auto simp: s' split: if_splits)
    moreover have "kshape (kstack s' t)" for t using sh1[of "[FR_const NO_ERROR]" t] by (auto simp: s')
    ultimately show ?thesis using st ok1 by (simp add: sync_inv_def s')
  qed
qed

lemma sync_inv_sem_wait:
  assumes inv: "sync_inv C s" and c: "c \<in> C" "may_call c s"
  shows "sem_wait c x s = Some (r, s') \<Longrightarrow> sync_inv C s'" "sem_timedwait c x timeout s = Some (r, s') \<Longrightarrow> sync_inv C s'"
proof -
  let ?s1 = "upd_sem x (\<lambda>y. y\<lparr>sem_count := sem_count y - 1\<rparr>) s"
  have i1: "sync_inv C ?s1" "may_call c ?s1" using inv c by (simp_all add: sync_inv_def may_call_def)
  show "sync_inv C s'" if "sem_wait c x s = Some (r, s')"
    using that i1 sync_inv_block[OF i1(1) c(1) i1(2), of "WQ_sem x" INFINITE_TIME r s' s' "[]"]
    by (auto simp: sem_wait_def Let_def split: if_splits)
  show "sync_inv C s'" if r: "sem_timedwait c x timeout s = Some (r, s')"
  proof (cases "sem_count (sems ?s1 x) < 0")
    case False
    with r i1 show ?thesis by (auto simp: sem_timedwait_def Let_def)
  next
    case True
    with r obtain r1 s2 where b: "wait_queue_block c (WQ_sem x) timeout ?s1 = Some (r1, s2)"
        "with_frame (current s c) (FR_sem_timedwait x) (sem_timedwait_woken x) (r1, s2) = Some (r, s')"
      by (auto simp: sem_timedwait_def Let_def bind_eq_Some_conv)
    show ?thesis
    proof (cases r1)
      case Switched
      with b(2) sync_inv_block[OF i1(1) c(1) i1(2) b(1), of s' "[FR_sem_timedwait x]"] show ?thesis
        by (auto simp: with_frame_def)
    next
      case (Ret v)
      with sync_inv_block[OF i1(1) c(1) i1(2) b(1), of s2 "[]"] have "sync_inv C s2" by simp
      with b(2) Ret show ?thesis
        by (auto simp: with_frame_def sem_timedwait_woken_def sync_inv_def split: if_splits)
    qed
  qed
qed

lemma sync_inv_wake_one:
  assumes inv: "sync_inv C s" and c: "c \<in> C" "may_call c s" and r: "wait_queue_wake_one c w b err s = Some (r, s')"
    and w: "\<And>m. w \<noteq> WQ_mutex m"
    and s2: "r = Switched \<Longrightarrow> s2 = s'\<lparr>kstack := (kstack s')(current s c := kstack s' (current s c) @ fs)\<rparr>" "r \<noteq> Switched \<Longrightarrow> s2 = s'"
    and fs: "list_all is_const_frame fs"
  shows "sync_inv C s2"
proof -
  have k: "kinv C s" "\<not> thread_is_idle (threads s (current s c))" using inv c by (auto simp: sync_inv_def may_call_def)
  show ?thesis
  proof (rule wake_one_cases[OF r k(1) c(1) k(2)])
    assume "r = Ret 0" "s' = s"
    with inv s2(2) show ?thesis by simp
  next
    fix t ts assume t: "lcont (queues s) (WaitL w) = t # ts" and wr: "wake_result C c w err [t] ts s r s'"
    show ?thesis by (rule sync_inv_wake[OF inv c wr _ _ s2 fs]) (use t w in simp_all)
  qed
qed

lemma sync_inv_sem_post:
  assumes inv: "sync_inv C s" and c: "c \<in> C" "may_call c s" and r: "sem_post c x b s = Some (r, s')"
  shows "sync_inv C s'"
proof -
  let ?s1 = "upd_sem x (\<lambda>y. y\<lparr>sem_count := sem_count y + 1\<rparr>) s"
  have i1: "sync_inv C ?s1" "may_call c ?s1" using inv c by (simp_all add: sync_inv_def may_call_def)
  show ?thesis
    using r i1(1) sync_inv_wake_one[OF i1(1) c(1) i1(2), of "WQ_sem x" b NO_ERROR r s' s' "[]"]
    by (auto simp: sem_post_def Let_def split: if_splits)
qed

lemma sync_inv_event_wait:
  assumes inv: "sync_inv C s" and c: "c \<in> C" "may_call c s" and r: "event_wait_timeout c e timeout s = Some (r, s')"
  shows "sync_inv C s'"
  using r inv sync_inv_block[OF inv c, of "WQ_event e" timeout r s' s' "[]"]
  by (auto simp: event_wait_timeout_def sync_inv_def split: if_splits)

lemma sync_inv_event_signal:
  assumes inv: "sync_inv C s" and c: "c \<in> C" "may_call c s" and r: "event_signal c e b s = Some (r, s')"
  shows "sync_inv C s'"
proof (cases "e_signaled (events s e)")
  case True
  with r inv show ?thesis by (auto simp: event_signal_def split: if_splits)
next
  case False
  have mg: "e_magic (events s e) = EVENT_MAGIC" using r by (auto simp: event_signal_def split: if_splits)
  show ?thesis
  proof (cases "e_flags (events s e) AND EVENT_FLAG_AUTOUNSIGNAL \<noteq> 0")
    case True
    with r False mg obtain r1 s1 where b: "wait_queue_wake_one c (WQ_event e) b NO_ERROR s = Some (r1, s1)"
        "with_frame (current s c) (FR_const NO_ERROR) (\<lambda>n s. Some (Ret NO_ERROR,
           if n \<le> 0 then upd_event e (\<lambda>x. x\<lparr>e_signaled := True\<rparr>) s else s)) (r1, s1) = Some (r, s')"
      by (auto simp: event_signal_def bind_eq_Some_conv)
    show ?thesis
    proof (cases r1)
      case Switched
      with b(2) sync_inv_wake_one[OF inv c b(1), of s' "[FR_const NO_ERROR]"] show ?thesis by (auto simp: with_frame_def)
    next
      case (Ret v)
      with sync_inv_wake_one[OF inv c b(1), of s1 "[]"] have "sync_inv C s1" by simp
      with b(2) Ret show ?thesis by (auto simp: with_frame_def sync_inv_def split: if_splits)
    qed
  next
    case auto: False
    let ?s0 = "upd_event e (\<lambda>x. x\<lparr>e_signaled := True\<rparr>) s"
    have i0: "sync_inv C ?s0" "may_call c ?s0" using inv c by (simp_all add: sync_inv_def may_call_def)
    have k: "kinv C ?s0" "\<not> thread_is_idle (threads ?s0 (current ?s0 c))" using i0 by (auto simp: sync_inv_def may_call_def)
    from r False mg auto obtain r1 s1 where b: "wait_queue_wake_all c (WQ_event e) b NO_ERROR ?s0 = Some (r1, s1)"
        "with_frame (current s c) (FR_const NO_ERROR) (\<lambda>_ s. Some (Ret NO_ERROR, s)) (r1, s1) = Some (r, s')"
      by (auto simp: event_signal_def bind_eq_Some_conv)
    note wr = wake_all_cases[OF b(1) k(1) c(1) k(2)]
    show ?thesis
    proof (rule sync_inv_wake[OF i0(1) c(1) i0(2) wr])
      show "r1 = Switched \<Longrightarrow> s' = s1\<lparr>kstack := (kstack s1)(current ?s0 c := kstack s1 (current ?s0 c) @ [FR_const NO_ERROR])\<rparr>"
        using b(2) by (simp add: with_frame_def)
      show "s' = s1" if "r1 \<noteq> Switched" using that b(2) by (cases r1) (simp_all add: with_frame_def)
    qed simp_all
  qed
qed

text \<open>Initialising and destroying objects.\<close>

lemma kinv_wqs:
  "kinv C s \<Longrightarrow> lcont (queues s) (WaitL w) = [] \<Longrightarrow> wq_magic x = WAIT_QUEUE_MAGIC \<longrightarrow> wq_count x = 0 \<Longrightarrow>
   kinv C (s\<lparr>wqs := (wqs s)(w := x)\<rparr>)"
  by (simp add: kinv_def sched_inv_def queue_inv_def bitmap_ok_def thread_inv_def cpu_inv_def preempt_inv_def)

lemma sync_inv_wqs:
  assumes inv: "sync_inv C s" and "lcont (queues s) (WaitL w) = []" "wq_magic x = WAIT_QUEUE_MAGIC \<longrightarrow> wq_count x = 0"
  shows "sync_inv C (s\<lparr>wqs := (wqs s)(w := x)\<rparr>)"
  by (rule sync_inv_core[OF inv kinv_wqs]) (use assms in \<open>simp_all add: sync_inv_def\<close>)

lemma sync_inv_wq_init: "sync_inv C s \<Longrightarrow> wait_queue_init w s = Some s' \<Longrightarrow> sync_inv C s'"
  using sync_inv_wqs[of C s w "\<lparr>wq_magic = WAIT_QUEUE_MAGIC, wq_count = 0\<rparr>"]
  by (auto simp: wait_queue_init_def ls_is_empty_def split: if_splits)

lemma sync_inv_cond_magic: "sync_inv C s \<Longrightarrow> sync_inv C (s\<lparr>cond_magic := q\<rparr>)"
  by (simp add: sync_inv_def cond_ok_def mutex_ok_def owners_def mutex_sets kinv_def sched_inv_def queue_inv_def bitmap_ok_def
      thread_inv_def cpu_inv_def preempt_inv_def)

lemma sync_inv_wq_destroy:
  assumes inv: "sync_inv C s" and c: "c \<in> C" "may_call c s" and r: "wait_queue_destroy c w True s = Some (r, s')"
    and w: "\<And>m. w = WQ_mutex m \<Longrightarrow> m_magic (mutexes s m) \<noteq> MUTEX_MAGIC"
  shows "sync_inv C s'"
proof -
  have k: "kinv C s" "\<not> thread_is_idle (threads s (current s c))" using inv c by (auto simp: sync_inv_def may_call_def)
  obtain r1 s1 where i: "wait_queue_wake_all c w True ERR_OBJECT_DESTROYED s = Some (r1, s1)"
      "with_frame (current s c) (FR_wq_destroy w) (\<lambda>_. wait_queue_clear_magic w) (r1, s1) = Some (r, s')"
    using r by (auto simp: wait_queue_destroy_def bind_eq_Some_conv split: if_splits)
  note wr = wake_all_cases[OF i(1) k(1) c(1) k(2)]
  show ?thesis
  proof (cases r1)
    case Switched
    show ?thesis
      by (rule sync_inv_wake[OF inv c wr w, where fs = "[FR_wq_destroy w]"])
        (use Switched i(2) in \<open>simp_all add: with_frame_def\<close>)
  next
    case (Ret v)
    have "sync_inv C s1" by (rule sync_inv_wake[OF inv c wr w, where fs = "[]"]) (use Ret in simp_all)
    moreover have "lcont (queues s1) (WaitL w) = []" using wr by (simp add: wake_result_def wake_post_def)
    ultimately show ?thesis using i(2) Ret sync_inv_wqs[of C s1 w "(wqs s1 w)\<lparr>wq_magic := 0\<rparr>"]
      by (auto simp: with_frame_def wait_queue_clear_magic_def)
  qed
qed

lemma sync_inv_init:
  assumes "sync_inv C s"
  shows "sem_init x val s = Some s' \<Longrightarrow> sync_inv C s'" "event_init e initial fl s = Some s' \<Longrightarrow> sync_inv C s'"
    "cond_init cv s = Some s' \<Longrightarrow> sync_inv C s'" "sem_trywait x s = (r, s') \<Longrightarrow> sync_inv C s'"
    "event_unsignal e s = Some (r, s') \<Longrightarrow> sync_inv C s'"
proof -
  have u: "sync_inv C (upd_sem x g s)" "sync_inv C (upd_event e h s)" for x g e h using assms by (simp_all add: sync_inv_def)
  show "sem_init x val s = Some s' \<Longrightarrow> sync_inv C s'" "event_init e initial fl s = Some s' \<Longrightarrow> sync_inv C s'"
    using sync_inv_wq_init[OF u(1)] sync_inv_wq_init[OF u(2)] by (simp_all add: sem_init_def event_init_def)
  show "cond_init cv s = Some s' \<Longrightarrow> sync_inv C s'"
    using sync_inv_wq_init[OF sync_inv_cond_magic[OF assms]] by (simp add: cond_init_def)
  show "sem_trywait x s = (r, s') \<Longrightarrow> sync_inv C s'" "event_unsignal e s = Some (r, s') \<Longrightarrow> sync_inv C s'"
    using u assms by (auto simp: sem_trywait_def event_unsignal_def split: if_splits)
qed

lemma sync_inv_destroy:
  assumes inv: "sync_inv C s" and c: "c \<in> C" "may_call c s"
  shows "sem_destroy c x s = Some (r, s') \<Longrightarrow> sync_inv C s'" "event_destroy c e s = Some (r, s') \<Longrightarrow> sync_inv C s'"
    "cond_destroy c cv s = Some (r, s') \<Longrightarrow> sync_inv C s'"
proof -
  have u: "sync_inv C (upd_sem x g s)" "sync_inv C (upd_event e h s)" "may_call c (upd_sem x g s)" "may_call c (upd_event e h s)"
    for x g e h using inv c by (simp_all add: sync_inv_def may_call_def)
  show "sem_destroy c x s = Some (r, s') \<Longrightarrow> sync_inv C s'"
    using sync_inv_wq_destroy[OF u(1) c(1) u(3), where w = "WQ_sem x"] by (simp add: sem_destroy_def)
  show "event_destroy c e s = Some (r, s') \<Longrightarrow> sync_inv C s'"
    using sync_inv_wq_destroy[OF u(2) c(1) u(4), where w = "WQ_event e"] by (auto simp: event_destroy_def split: if_splits)
  have "may_call c (s\<lparr>cond_magic := q\<rparr>)" for q using c by (simp add: may_call_def)
  then show "cond_destroy c cv s = Some (r, s') \<Longrightarrow> sync_inv C s'"
    using sync_inv_wq_destroy[OF sync_inv_cond_magic[OF inv] c(1), where w = "WQ_cond cv"] by (auto simp: cond_destroy_def split: if_splits)
qed

lemma sync_inv_mutex_init:
  assumes inv: "sync_inv C s" and m: "m_magic (mutexes s m) \<noteq> MUTEX_MAGIC" "acquiring m s = {}" and r: "mutex_init m s = Some s'"
  shows "sync_inv C s'"
proof -
  let ?s1 = "upd_mutex m (\<lambda>_. \<lparr>m_magic = MUTEX_MAGIC, m_holder = None, m_count = 0\<rparr>) s"
  have q: "wait_queue_init (WQ_mutex m) ?s1 = Some s'" "mutex_waiters m s = []"
    using r by (auto simp: mutex_init_def wait_queue_init_def ls_is_empty_def mutex_waiters_def split: if_splits)
  have "mutex_ok m ?s1" using m(2) q(2) by (simp add: mutex_ok_def owners_def granted_def backing_out_def)
  moreover have "mutex_ok k ?s1" if "k \<noteq> m" "m_magic (mutexes s k) = MUTEX_MAGIC" for k
    using inv that by (simp add: sync_inv_def mutex_ok_upd_other)
  moreover have "cond_ok ?s1" using inv by (simp add: sync_inv_def cond_ok_def)
  ultimately have "sync_inv C ?s1" using inv by (simp add: sync_inv_def)
  then show ?thesis using q(1) by (rule sync_inv_wq_init)
qed

lemma sync_inv_mutex_destroy:
  assumes inv: "sync_inv C s" and c: "c \<in> C" "may_call c s" and n: "\<forall>t. FR_cond_reacquire m \<notin> set (kstack s t)"
    and r: "mutex_destroy c m s = Some (r, s')"
  shows "sync_inv C s'"
proof -
  let ?s1 = "upd_mutex m (\<lambda>x. x\<lparr>m_magic := 0, m_count := 0\<rparr>) s"
  have d: "wait_queue_destroy c (WQ_mutex m) True ?s1 = Some (r, s')" using r by (auto simp: mutex_destroy_def split: if_splits)
  have "mutex_ok k ?s1" if "k \<noteq> m" "m_magic (mutexes s k) = MUTEX_MAGIC" for k
    using inv that by (simp add: sync_inv_def mutex_ok_upd_other)
  moreover have "cond_ok ?s1" using inv n by (auto simp: sync_inv_def cond_ok_def)
  ultimately have "sync_inv C ?s1" using inv by (simp add: sync_inv_def)
  then show ?thesis by (rule sync_inv_wq_destroy[OF _ c(1) _ d]) (use c(2) in \<open>simp_all add: may_call_def\<close>)
qed

lemma sync_inv_cond_signal:
  assumes inv: "sync_inv C s" and c: "c \<in> C" "may_call c s"
  shows "cond_signal c cv s = Some (r, s') \<Longrightarrow> sync_inv C s'" "cond_broadcast c cv s = Some (r, s') \<Longrightarrow> sync_inv C s'"
proof -
  have k: "kinv C s" "\<not> thread_is_idle (threads s (current s c))" using inv c by (auto simp: sync_inv_def may_call_def)
  show "sync_inv C s'" if "cond_signal c cv s = Some (r, s')"
    using that sync_inv_wake_one[OF inv c, of "WQ_cond cv" True NO_ERROR r s' s' "[]"]
    by (auto simp: cond_signal_def split: if_splits)
  show "sync_inv C s'" if "cond_broadcast c cv s = Some (r, s')"
  proof -
    have "wait_queue_wake_all c (WQ_cond cv) True NO_ERROR s = Some (r, s')"
      using that by (auto simp: cond_broadcast_def split: if_splits)
    from sync_inv_wake[OF inv c wake_all_cases[OF this k(1) c(1) k(2)], of s' "[]"] show ?thesis by simp
  qed
qed

lemma sync_inv_sleep:
  assumes inv: "sync_inv C s" and c: "c \<in> C" "may_call c s" and r: "thread_sleep c delay s = Some (r, s')"
  shows "sync_inv C s'"
proof -
  let ?cur = "current s c"
  have k: "kinv C s" "\<not> thread_is_idle (threads s ?cur)" "kstack s ?cur = []" using inv c by (auto simp: sync_inv_def may_call_def)
  have ks: "kstack (s'\<lparr>kstack := kstack s\<rparr>) = kstack s" "kstate.more (s'\<lparr>kstack := kstack s\<rparr>) = kstate.more s'" by simp_all
  have "lon (tqueue s) (TM_stack ?cur) = None"
    using r by (cases "lon (tqueue s) (TM_stack ?cur)") (auto simp: thread_sleep_def timer_initialize_def Let_def ls_in_list_def bind_eq_Some_conv split: if_splits)
  note p = thread_sleep_wp[OF k(1) c(1) k(2) this, of delay, unfolded r wp_simps prod.case]
  have b: "base_frame {?cur} {?cur} s s'" "kinv C s'" "kstack s' ?cur = kstack s ?cur @ [FR_const NO_ERROR]"
    and f: "\<And>w. lcont (queues s') (WaitL w) = lcont (queues s) (WaitL w)" "\<And>t. thread_core (threads s' t) = thread_core (threads s t)"
    using p by blast+
  have "kstate.more s' = kstate.more s" using b(1) by (simp add: base_frame_def)
  then have "sync_inv C (s'\<lparr>kstack := kstack s\<rparr>)"
    by (intro sync_inv_core[OF inv]) (use b(2) f in simp_all)
  from sync_inv_push_const[OF this, of ?cur NO_ERROR] k(3)
  have i: "sync_inv C (s'\<lparr>kstack := (kstack s)(?cur := [FR_const NO_ERROR])\<rparr>)" by simp
  have "kstack s' t = ((kstack s)(?cur := [FR_const NO_ERROR])) t" for t
    using b k(3) by (cases "t = ?cur") (simp_all add: base_frame_def)
  then have "kstack s' = (kstack s)(?cur := [FR_const NO_ERROR])" by blast
  then have "s'\<lparr>kstack := (kstack s)(?cur := [FR_const NO_ERROR])\<rparr> = s'" by (simp flip: \<open>kstack s' = _\<close>)
  with i show ?thesis by (simp only:)
qed

text \<open>Switching back.\<close>

lemma cancel_stack_timer:
  assumes r: "timer_cancel c (TM_stack t) s = Some s'" and inv: "kinv C s"
  shows "kinv C s'" "threads s' = threads s" "queues s' = queues s" "current s' = current s" "kstack s' = kstack s"
    "kstate.more s' = kstate.more s"
proof -
  have m: "tm_magic (timers s (TM_stack t)) = TIMER_MAGIC"
    using r by (auto simp: timer_cancel_def split: if_splits)
  have ok: "ls_ok (tqueue s)" using inv by (simp add: kinv_def preempt_inv_def)
  from timer_cancel_wp[OF ok m, of c] r obtain q hw where q: "ls_ok q" "lon q = (lon (tqueue s))(TM_stack t := None)"
      and s': "s' = s\<lparr>tqueue := q, timers := (timers s)(TM_stack t := (timers s (TM_stack t))
                 \<lparr>periodic_time := 0, callback := None, tm_arg := 0\<rparr>), hw_timer := hw\<rparr>"
    by auto
  show "threads s' = threads s" "queues s' = queues s" "current s' = current s" "kstack s' = kstack s"
    "kstate.more s' = kstate.more s" by (simp_all add: s')
  show "kinv C s'" using inv q by (simp add: s' kinv_def preempt_inv_def ls_in_list_def)
qed

lemma block_end_cases:
  assumes r: "wait_queue_block_end c timeout s = Some (r, s')" and inv: "kinv C s"
  shows "kinv C s' \<and> threads s' = threads s \<and> queues s' = queues s \<and> current s' = current s \<and> kstack s' = kstack s \<and>
    kstate.more s' = kstate.more s \<and> r = Ret (wait_queue_block_ret (threads s (current s c)))"
proof (cases "timeout = INFINITE_TIME")
  case True
  with r inv show ?thesis by (auto simp: wait_queue_block_end_def Let_def)
next
  case False
  with r obtain s1 where s1: "timer_cancel c (TM_stack (current s c)) s = Some s1"
      "s' = s1" "r = Ret (wait_queue_block_ret (threads s1 (current s c)))"
    by (auto simp: wait_queue_block_end_def Let_def bind_eq_Some_conv)
  with cancel_stack_timer[OF s1(1) inv] show ?thesis by simp
qed

text \<open>A thread that has run all its pending callers, none of them a mutex acquisition.\<close>

lemma sync_inv_unstack:
  assumes inv: "sync_inv C s" and na: "\<And>m. FR_mutex_acquire m \<notin> set (kstack s t)"
    and s': "kinv C s'" "kstack s' = (kstack s)(t := [])" "threads s' = threads s" "queues s' = queues s" "mutexes s' = mutexes s"
  shows "sync_inv C s'"
proof -
  have a: "acquiring m s' = acquiring m s" for m by (rule acquiring_kstack[of t]) (use na s'(2) in auto)
  have "mutex_ok m s' = mutex_ok m s" for m
    by (simp add: mutex_ok_def owners_def granted_def backing_out_def mutex_waiters_def a s')
  moreover have "cond_ok s'" by (rule cond_ok_step[of s]) (use inv s' in \<open>auto simp: sync_inv_def split: if_splits\<close>)
  ultimately show ?thesis using inv s' by (simp add: sync_inv_def)
qed

text \<open>A blocked acquisition goes on: the thread takes a mutex that was handed to it, or takes back its
  count after a timeout.\<close>

lemma mutex_woken_step:
  assumes ok: "mutex_ok m s" and cur: "cur = current s c" "kstack s cur = FR_block timeout # FR_mutex_acquire m # fs"
      "\<And>w. cur \<notin> set (lcont (queues s) (WaitL w))"
    and s1: "kstack s1 = (kstack s)(cur := [])" "threads s1 = threads s" "queues s1 = queues s" "mutexes s1 = mutexes s" "current s1 = current s"
    and r: "mutex_acquire_woken c m (wait_queue_block_ret (threads s cur)) s1 = Some (r, s')"
  shows "mutex_ok m s'" "kstack s' = kstack s1" "threads s' = threads s1" "queues s' = queues s1"
    "\<And>k. k \<noteq> m \<Longrightarrow> mutexes s' k = mutexes s1 k" "m_magic (mutexes s' m) = m_magic (mutexes s m)" "kinv C s' = kinv C s1"
proof -
  let ?v = "wait_queue_block_ret (threads s cur)"
  have ca: "cur \<in> acquiring m s" using cur(2) by (simp add: acquiring_def)
  have cw: "cur \<notin> set (mutex_waiters m s)" using cur(3) by (simp add: mutex_waiters_def)
  have v: "?v = NO_ERROR \<or> ?v = ERR_TIMED_OUT" using ok ca cw by (auto simp: mutex_ok_def)
  have s': "s' = (if ?v = ERR_TIMED_OUT then upd_mutex m (\<lambda>x. x\<lparr>m_count := m_count x - 1\<rparr>) s1
      else upd_mutex m (\<lambda>x. x\<lparr>m_holder := Some cur\<rparr>) s1)"
    using r v s1(5) cur(1) by (auto simp: mutex_acquire_woken_def split: if_splits)
  show "kstack s' = kstack s1" "threads s' = threads s1" "queues s' = queues s1"
    "\<And>k. k \<noteq> m \<Longrightarrow> mutexes s' k = mutexes s1 k" "m_magic (mutexes s' m) = m_magic (mutexes s m)" "kinv C s' = kinv C s1"
    using s1(4) by (simp_all add: s')
  have a: "acquiring m s' = acquiring m s - {cur}" by (auto simp: s' s1 acquiring_def)
  have w: "mutex_waiters m s' = mutex_waiters m s" "mutex_waiters m s1 = mutex_waiters m s"
    by (simp_all add: s' s1 mutex_waiters_def)
  have th: "threads s' = threads s" "queues s' = queues s" by (simp_all add: s' s1)
  have g: "granted m s' = granted m s - {cur}" "backing_out m s' = backing_out m s - {cur}"
    by (auto simp: granted_def backing_out_def a w th)
  have fin: "finite (granted m s)" "finite (backing_out m s)" using ok by (auto simp: mutex_ok_def granted_def backing_out_def)
  have cnt: "m_count (mutexes s m) = int (owners m s + length (mutex_waiters m s) + card (backing_out m s))" "owners m s \<le> 1"
    using ok unfolding mutex_ok_def by blast+
  have "owners m s' \<le> 1 \<and> m_count (mutexes s' m) = int (owners m s' + length (mutex_waiters m s') + card (backing_out m s'))"
  proof (cases "?v = ERR_TIMED_OUT")
    case True
    then have b: "cur \<in> backing_out m s" "cur \<notin> granted m s" using ca cw by (auto simp: granted_def backing_out_def)
    then have "card (backing_out m s) = Suc (card (backing_out m s'))" "granted m s' = granted m s"
      using g card.remove[OF fin(2) b(1)] by simp_all
    with True cnt show ?thesis by (simp add: s' s1 w owners_def)
  next
    case False
    then have b: "cur \<notin> backing_out m s" "cur \<in> granted m s" using ca cw v by (auto simp: granted_def backing_out_def)
    have "card (granted m s) = Suc (card (granted m s'))" using g card.remove[OF fin(1) b(2)] by simp
    moreover have "backing_out m s' = backing_out m s" using g b by simp
    moreover have "m_holder (mutexes s m) = None" "card (granted m s) = 1"
      using calculation(1) cnt(2) by (auto simp: owners_def split: option.splits)
    ultimately show ?thesis using False cnt by (simp add: s' s1 w owners_def)
  qed
  then show "mutex_ok m s'" using ok a w th cw by (auto simp: mutex_ok_def)
qed

lemma sync_inv_mutex_resume:
  assumes inv: "sync_inv C s" and c: "c \<in> C" and ks: "kstack s (current s c) = FR_block t # FR_mutex_acquire m # fs"
    and fs: "list_all is_const_frame fs" and s1: "kinv C s1" "kstack s1 = (kstack s)(current s c := [])" "threads s1 = threads s" "queues s1 = queues s"
      "mutexes s1 = mutexes s" "current s1 = current s"
    and w: "mutex_acquire_woken c m (wait_queue_block_ret (threads s (current s c))) s1 = Some (r, s')"
  shows "sync_inv C s'"
proof (cases "m_magic (mutexes s m) = MUTEX_MAGIC")
  note na = const_not_acquire[OF fs]
  case True
  have k: "kinv C s" and ok: "mutex_ok m s" using inv True by (auto simp: sync_inv_def)
  have ls: "ls_ok (queues s)" using k by (simp add: kinv_def sched_inv_def queue_inv_def)
  have un: "current s c \<notin> set (lcont (queues s) (WaitL w))" for w
    using kinv_current(3)[OF k c] ls_ok_mem[OF ls] by simp
  note st = mutex_woken_step[OF ok refl ks un s1(2-6) w]
  have "mutex_ok n s'" if n: "n \<noteq> m" "mutex_ok n s" for n
    by (rule mutex_ok_cong[OF n(2)])
      (use st(2-5) s1 ks n na in \<open>auto simp: acquiring_def mutex_waiters_def mutex_ok_def split: if_splits\<close>)
  moreover have mm: "m_magic (mutexes s' n) = m_magic (mutexes s n)" for n
    using st(5,6) s1(5) by (cases "n = m") auto
  ultimately have "\<forall>n. m_magic (mutexes s' n) = MUTEX_MAGIC \<longrightarrow> mutex_ok n s'"
    using inv st(1) by (metis sync_inv_def)
  moreover have "cond_ok s'"
    by (rule cond_ok_step[of s]) (use inv st(2,3) s1(2,3) mm in \<open>auto simp: sync_inv_def split: if_splits\<close>)
  ultimately show ?thesis using inv st s1 by (simp add: sync_inv_def)
next
  note na = const_not_acquire[OF fs]
  case False
  have same: "kstack s' = kstack s1 \<and> threads s' = threads s1 \<and> queues s' = queues s1 \<and> kinv C s' \<and>
      (\<forall>n. n \<noteq> m \<longrightarrow> mutexes s' n = mutexes s n) \<and> (\<forall>n. m_magic (mutexes s' n) = m_magic (mutexes s n))"
    using w s1 by (auto simp: mutex_acquire_woken_def split: if_splits)
  have "mutex_ok n s'" if n: "n \<noteq> m" "mutex_ok n s" for n
    by (rule mutex_ok_cong[OF n(2)])
      (use same s1 ks n na in \<open>auto simp: acquiring_def mutex_waiters_def mutex_ok_def split: if_splits\<close>)
  then have "\<forall>n. m_magic (mutexes s' n) = MUTEX_MAGIC \<longrightarrow> mutex_ok n s'"
    using inv same False by (metis sync_inv_def)
  moreover have "cond_ok s'" by (rule cond_ok_step[of s]) (use inv same s1(2,3) in \<open>auto simp: sync_inv_def split: if_splits\<close>)
  ultimately show ?thesis using inv same s1 by (simp add: sync_inv_def)
qed

lemma run_block_frame:
  assumes r: "run_frames c t (FR_block timeout # fs) v s = Some (r, s')" and inv: "kinv C s"
  shows "\<exists>s1. kinv C s1 \<and> threads s1 = threads s \<and> queues s1 = queues s \<and> current s1 = current s \<and>
     kstack s1 = kstack s \<and> mutexes s1 = mutexes s \<and>
     run_frames c t fs (wait_queue_block_ret (threads s (current s c))) s1 = Some (r, s')"
proof -
  obtain r1 s1 where b: "wait_queue_block_end c timeout s = Some (r1, s1)"
    using r by (cases "wait_queue_block_end c timeout s") auto
  note e = block_end_cases[OF b inv]
  with r b sync_more(1)[of s1 s] show ?thesis by (intro exI[of _ s1]) simp
qed

lemma run_const_frames:
  assumes "list_all is_const_frame fs" "\<forall>w. FR_wq_destroy w \<in> set fs \<longrightarrow> lcont (queues s) (WaitL w) = []" "kinv C s"
  shows "\<exists>v' q. run_frames c t fs v s = Some (Ret v', s\<lparr>wqs := q\<rparr>) \<and> kinv C (s\<lparr>wqs := q\<rparr>)"
  using assms
proof (induction fs arbitrary: v s)
  case Nil
  then show ?case by (intro exI[of _ v] exI[of _ "wqs s"]) simp
next
  case (Cons f fs)
  consider x where "f = FR_const x" | w where "f = FR_wq_destroy w" using Cons.prems by (auto elim!: is_const_frame.elims)
  then show ?case
  proof cases
    case (2 w)
    let ?s = "s\<lparr>wqs := (wqs s)(w := (wqs s w)\<lparr>wq_magic := 0\<rparr>)\<rparr>"
    have "kinv C ?s" by (rule kinv_wqs) (use Cons.prems 2 in simp_all)
    then show ?thesis using Cons.IH[of ?s NO_ERROR] Cons.prems 2 by (simp add: wait_queue_clear_magic_def)
  qed (use Cons in auto)
qed

lemma sync_inv_resume:
  assumes inv: "sync_inv C s" and c: "c \<in> C" and u: "unused_when_destroyed c s" and r: "resume c s = Some (r, s')"
  shows "sync_inv C s'"
proof -
  let ?cur = "current s c" and ?v = "wait_queue_block_ret (threads s (current s c))"
  let ?s0 = "s\<lparr>kstack := (kstack s)(?cur := [])\<rparr>"
  have k: "kinv C s" "kinv C ?s0" and sh: "kshape (kstack s ?cur)" using inv by (auto simp: sync_inv_def)
  have run: "run_frames c ?cur (kstack s ?cur) NO_ERROR ?s0 = Some (r, s')" using r by (simp add: resume_def Let_def)
  consider (const) "list_all is_const_frame (kstack s ?cur)"
    | (block) t fs where "kstack s ?cur = FR_block t # fs" "block_callers fs"
    using sh by (cases "kstack s ?cur" rule: kshape.cases) auto
  then show ?thesis
  proof cases
    case const
    from run_const_frames[OF const, of ?s0 C c ?cur NO_ERROR] run k(2) u obtain q where s': "s' = ?s0\<lparr>wqs := q\<rparr>" "kinv C s'"
      by (auto simp: unused_when_destroyed_def)
    show ?thesis by (rule sync_inv_unstack[OF inv const_not_acquire[OF const] s'(2)]) (simp_all add: s'(1))
  next
    case block
    from run_block_frame[OF run[unfolded block(1)] k(2)] obtain s1 where
      s1: "kinv C s1" "threads s1 = threads s" "queues s1 = queues s" "current s1 = current s"
        "kstack s1 = (kstack s)(?cur := [])" "mutexes s1 = mutexes s" "run_frames c ?cur fs ?v s1 = Some (r, s')"
      by auto
    from block(2) consider "fs = []" | x where "fs = [FR_sem_timedwait x]" | m where "fs = [FR_mutex_acquire m]"
      | m where "fs = [FR_cond_reacquire m]" | m v where "fs = [FR_mutex_acquire m, FR_const v]"
      unfolding block_callers_def by blast
    then show ?thesis
    proof cases
      case 1
      then show ?thesis using s1 block(1) sync_inv_unstack[OF inv _ s1(1,5,2,3,6)] by simp
    next
      case (2 x)
      have "sync_inv C s1" using 2 block(1) sync_inv_unstack[OF inv _ s1(1,5,2,3,6)] by simp
      then show ?thesis using s1(7) 2 by (auto simp: sem_timedwait_woken_def sync_inv_def split: if_splits)
    next
      case (3 m)
      have w: "mutex_acquire_woken c m ?v s1 = Some (r, s')"
        using s1(7) 3 by (auto simp: mutex_acquire_woken_def split: if_splits)
      show ?thesis by (rule sync_inv_mutex_resume[OF inv c _ _ s1(1,5,2,3,6,4) w, where fs = "[]"]) (use block(1) 3 in simp_all)
    next
      case (4 m)
      have i: "sync_inv C s1" using 4 block(1) sync_inv_unstack[OF inv _ s1(1,5,2,3,6)] by simp
      have p: "\<not> thread_is_idle (threads s ?cur)" "m_magic (mutexes s m) = MUTEX_MAGIC"
        using inv block(1) 4 unfolding sync_inv_def cond_ok_def by (metis list.set_intros)+
      have mc: "may_call c s1" using s1 p(1) by (simp add: may_call_def)
      obtain r1 s2 where w: "cond_wait_woken c m ?v s1 = Some (r1, s2)" using s1(7) 4 by (cases "cond_wait_woken c m ?v s1") auto
      then have "cond_wait_woken c m ?v s1 = Some (r, s')" using s1(7) 4 by (cases r1) simp_all
      then show ?thesis using sync_inv_cond_woken[OF i c mc] p(2) s1(6) by simp
    next
      case (5 m v)
      obtain r1 where w: "mutex_acquire_woken c m ?v s1 = Some (r1, s')"
        using s1(7) 5 by (auto simp: mutex_acquire_woken_def split: if_splits)
      show ?thesis by (rule sync_inv_mutex_resume[OF inv c _ _ s1(1,5,2,3,6,4) w, where fs = "[FR_const v]"]) (use block(1) 5 in simp_all)
    qed
  qed
qed

lemma sync_inv_acct:
  assumes inv: "sync_inv C s" and f: "acct_frame s s'"
  shows "sync_inv C s'"
  by (rule sync_inv_frame[OF inv]) (use acct_frame_kinv(3)[OF f] inv f in \<open>auto simp: sync_inv_def acct_frame_def\<close>)

lemma sync_inv_yield:
  assumes inv: "sync_inv C s" and c: "c \<in> C" and r: "thread_yield c s = Some (r, s')"
  shows "sync_inv C s'"
proof -
  let ?s0 = "upd_thread (current s c) (\<lambda>th. th\<lparr>remaining_quantum := 0\<rparr>) s"
  have k: "kinv C s" using inv by (simp add: sync_inv_def)
  have p: "put_back_resched (\<lambda>t xs. xs @ [t]) C c ?s0 (r, s')"
    using thread_yield_wp[OF k c] r by simp
  have "sync_inv C ?s0" by (rule sync_inv_acct[OF inv]) simp
  then show ?thesis using sync_inv_frame put_back_kinv[OF p] by blast
qed

lemma sync_inv_preempt:
  assumes inv: "sync_inv C s" and c: "c \<in> C" and r: "thread_preempt c s = Some (r, s')"
  shows "sync_inv C s'"
proof -
  have k: "kinv C s" using inv by (simp add: sync_inv_def)
  note p = thread_preempt_wp[OF k c, unfolded r wp_simps]
  show ?thesis using sync_inv_frame[OF inv] put_back_kinv[OF p] by blast
qed

lemma ls_delete_ok:
  assumes ok: "ls_ok q" and d: "ls_delete n q = Some q'"
  shows "ls_ok q'" "lon q' = (lon q)(n := None)"
proof -
  obtain h where h: "lon q n = Some h" "q' = ls_put h (remove1 n (lcont q h)) n None q"
    using d by (auto simp: ls_delete_def split: option.splits)
  show "lon q' = (lon q)(n := None)" by (simp add: h)
  show "ls_ok q'" unfolding h(2)
    by (rule ls_put_unlink_ok[OF ok h(1)]) (use ls_ok_distinct[OF ok] in \<open>simp_all add: set_remove1_eq distinct_remove1\<close>)
qed

text \<open>A timer on a thread's stack leaves the timer queue.\<close>

lemma sync_inv_unqueue_timer:
  assumes inv: "sync_inv C s" and q: "ls_delete (TM_stack t) (tqueue s) = Some q"
  shows "sync_inv C (s\<lparr>tqueue := q\<rparr>)"
proof -
  have ok: "ls_ok (tqueue s)" using inv by (simp add: sync_inv_def kinv_def preempt_inv_def)
  have "kinv C (s\<lparr>tqueue := q\<rparr>)"
    using inv ls_delete_ok[OF ok q] by (auto simp: sync_inv_def kinv_def preempt_inv_def ls_in_list_def)
  then show ?thesis by (rule sync_inv_core[OF inv]) simp_all
qed

lemma sync_inv_wake_up:
  assumes inv: "sync_inv C s" and cb: "callback (timers s (TM_stack t)) = Some CB_thread_sleep_handler" "kernel_ready (TM_stack t) s"
    and r: "timer_fire_one (kernel_fire c) c now (TM_stack t) s = Some (r, s')"
  shows "sync_inv C s'"
proof -
  obtain q where q: "ls_delete (TM_stack t) (tqueue s) = Some q"
    using r by (auto simp: timer_fire_one_def bind_eq_Some_conv split: if_splits)
  let ?s1 = "s\<lparr>tqueue := q\<rparr>"
  have i1: "sync_inv C ?s1" "kinv C ?s1" using sync_inv_unqueue_timer[OF inv q] by (simp_all add: sync_inv_def)
  have rd: "th_magic (threads ?s1 t) = THREAD_MAGIC" "state (threads ?s1 t) = THREAD_SLEEPING" "\<not> thread_is_idle (threads ?s1 t)"
    and a: "tm_arg (timers s (TM_stack t)) = t" "periodic_time (timers s (TM_stack t)) = 0"
    using cb by (simp_all add: kernel_ready_def)
  have h: "thread_sleep_handler t ?s1 = Some (r, s')"
    using r cb(1) q a by (auto simp: timer_fire_one_def bind_eq_Some_conv Let_def split: if_splits)
  note p = thread_sleep_handler_wp[OF i1(2) rd, unfolded h wp_simps prod.case]
  then obtain qs bm where e: "s' = (set_state t THREAD_READY ?s1)\<lparr>queues := qs, run_queue_bitmap := bm\<rparr>"
      "\<And>w. lcont qs (WaitL w) = lcont (queues s) (WaitL w)"
    by (auto simp: ready_at_def)
  show ?thesis
    by (rule sync_inv_core[OF i1(1)]) (use p e(2) in \<open>auto simp: e(1) set_state_def upd_thread_def thread_core_def\<close>)
qed

lemma sync_inv_timeout:
  assumes inv: "sync_inv C s" and cb: "callback (timers s (TM_stack t)) = Some CB_wait_queue_timeout_handler"
      "periodic_time (timers s (TM_stack t)) = 0"
    and r: "timer_fire_one (kernel_fire c) c now (TM_stack t) s = Some (r, s')"
  shows "sync_inv C s'"
proof -
  obtain q where q: "ls_delete (TM_stack t) (tqueue s) = Some q"
    using r by (auto simp: timer_fire_one_def bind_eq_Some_conv split: if_splits)
  let ?s1 = "s\<lparr>tqueue := q\<rparr>"
  obtain u where h: "wait_queue_timeout_handler c u ?s1 = Some (r, s')"
    using r cb q by (auto simp: timer_fire_one_def bind_eq_Some_conv Let_def split: if_splits)
  have i1: "sync_inv C ?s1" and k1: "kinv C ?s1" using sync_inv_unqueue_timer[OF inv q] by (simp_all add: sync_inv_def)
  show ?thesis
  proof (rule timeout_cases[OF h k1])
    assume "s' = ?s1"
    with i1 show ?thesis by simp
  next
    fix w
    assume w: "u \<in> set (lcont (queues ?s1) (WaitL w))" "kinv C s'"
      "wake_post {} w ERR_TIMED_OUT [u] (remove1 u (lcont (queues ?s1) (WaitL w))) ?s1 s'"
    have mx: "mutexes s' = mutexes ?s1" by (rule sync_more(1)[OF wake_post_more[OF w(3)]])
    have ks: "kstack s' = kstack s" using w(3) by (auto simp: wake_post_def base_frame_def)
    have lo: "ls_ok (queues ?s1)" using k1 by (simp add: kinv_def sched_inv_def queue_inv_def)
    have "mutex_ok m s'" if m: "mutex_ok m ?s1" for m
    proof (cases "w = WQ_mutex m")
      case True
      show ?thesis by (rule mutex_ok_timeout[OF m _ _ lo]) (use w True mx in \<open>simp_all add: mutex_waiters_def\<close>)
    next
      case False
      show ?thesis
        by (rule mutex_ok_wake_other[OF m wake_post_mono[OF w(3)] False, of u])
          (use w(1) ks mx set_remove1_subset[of u "lcont (queues s) (WaitL w)"] in auto)
    qed
    moreover have "cond_ok s'"
      by (rule cond_ok_step[of ?s1]) (use i1 w(3) mx ks in \<open>auto simp: sync_inv_def wake_post_def base_frame_def\<close>)
    ultimately show ?thesis using i1 w(2) mx ks by (simp add: sync_inv_def)
  qed
qed

section \<open>Reachable states\<close>

inductive_cases kreachE: "kreach C s s'"

lemma kstep_sync_inv:
  assumes "kstep C s s'" "sync_inv C s"
  shows "sync_inv C s'"
  using assms
proof induction
  case (tick s' c s)
  show ?case
    using tick sync_inv_acct[OF tick(2), of "upd_thread (current s c) (\<lambda>t. t\<lparr>remaining_quantum := remaining_quantum t - 1\<rparr>) s"]
    by (simp add: thread_timer_tick_def Let_def)
qed (blast intro: sync_inv_acquire sync_inv_release sync_inv_yield sync_inv_preempt sync_inv_sem_wait sync_inv_sem_post
    sync_inv_event_wait sync_inv_event_signal sync_inv_cond_wait sync_inv_cond_signal sync_inv_sleep sync_inv_resume
    sync_inv_init sync_inv_destroy sync_inv_mutex_init sync_inv_mutex_destroy
    sync_inv_timeout sync_inv_wake_up)+

lemma kreach_sync_inv: "kreach C s s' \<Longrightarrow> sync_inv C s \<Longrightarrow> sync_inv C s'"
  by (induction rule: kreach.induct) (blast intro: kstep_sync_inv)+

section \<open>Properties of the reachable states\<close>

text \<open>The demo state with thread 2 made the only other thread: thread 1 holds mutex 7, nobody waits.\<close>

definition mutex_demo :: sync_state where
  "mutex_demo = demo\<lparr>threads := (threads demo)(3 := zero_thread),
     queues := \<lparr>lcont = (\<lambda>_. [])(RunQ 16 := [2]), lon = [2 \<mapsto> RunQ 16]\<rparr>,
     wqs := (\<lambda>_. \<lparr>wq_magic = WAIT_QUEUE_MAGIC, wq_count = 0\<rparr>), kstack := (\<lambda>_. []),
     mutexes := (mutexes demo)(7 := \<lparr>m_magic = MUTEX_MAGIC, m_holder = Some 1, m_count = 1\<rparr>)\<rparr>"

lemma mutex_demo_kinv: "kinv {0} mutex_demo"
proof -
  have b: "bitmap_ok mutex_demo" using demo_queue_ok(2) by (simp add: mutex_demo_def bitmap_ok_def demo_def demo_queues_def)
  moreover have "ls_ok (queues mutex_demo)" by (auto simp: mutex_demo_def ls_ok_def)
  ultimately have "queue_inv mutex_demo"
    by (auto simp: queue_inv_def queued_ok_def mutex_demo_def demo_defs thread_is_idle_def split: if_splits)
  moreover have "thread_inv {} mutex_demo"
    by (auto simp: thread_inv_def mutex_demo_def demo_defs thread_is_idle_def)
  moreover have "cpu_inv {0} {0} mutex_demo"
    by (auto simp: cpu_inv_def mutex_demo_def demo_defs thread_is_idle_def split: if_splits)
  moreover have "preempt_inv {0} mutex_demo"
    by (simp add: preempt_inv_def mutex_demo_def demo_def TIMER_INITIAL_VALUE_def ls_empty_def ls_in_list_def ls_ok_def)
  ultimately show ?thesis by (simp add: kinv_def sched_inv_def)
qed

lemma mutex_demo_inv: "sync_inv {0} mutex_demo"
proof -
  have "mutex_ok m mutex_demo" for m
    by (simp add: mutex_ok_def owners_def mutex_sets mutex_demo_def demo_def)
  with mutex_demo_kinv show ?thesis by (simp add: sync_inv_def) (simp add: mutex_demo_def cond_ok_def)
qed

text \<open>Thread 1 yields to thread 2, which tries to acquire the mutex and blocks.\<close>

lemma mutex_demo_contended:
  "map_option (\<lambda>(r, s). (r, kstack s (current s 0), thread_is_idle (threads s (current s 0)))) (thread_yield 0 mutex_demo) =
     Some (Switched, [], False)"
  "map_option (\<lambda>(r, s). (r, lcont (queues s) (WaitL (WQ_mutex 7)), mutexes s 7))
     (Option.bind (thread_yield 0 mutex_demo) (\<lambda>(_, s). mutex_acquire_timeout 0 7 INFINITE_TIME s)) =
     Some (Switched, [2], \<lparr>m_magic = MUTEX_MAGIC, m_holder = Some 1, m_count = 2\<rparr>)"
  by code_simp+

text \<open>C1: Mutual exclusion. Whatever sequence of calls on mutexes, semaphores, events and condition variables,
  yields, preemptions, sleeps, resumptions, timeouts and timer ticks the cpus make, in every state reached an initialised mutex has at most one owner (the holder, or
  the one thread the mutex was handed to), and its count is the number of owners, of waiters and
  of timed-out threads that have not yet run.\<close>

theorem mutex_mutual_exclusion:
  assumes "kreach C s s'" "sync_inv C s" "m_magic (mutexes s' m) = MUTEX_MAGIC"
  shows "owners m s' \<le> 1 \<and> (m_holder (mutexes s' m) = Some h \<longrightarrow> granted m s' = {}) \<and>
    m_count (mutexes s' m) = int (owners m s' + length (mutex_waiters m s') + card (backing_out m s'))"
proof -
  have "mutex_ok m s'" using kreach_sync_inv[OF assms(1,2)] assms(3) by (simp add: sync_inv_def)
  then show ?thesis using owned_granted(1)[of m s' h] unfolding mutex_ok_def by blast
qed

theorem mutex_mutual_exclusion_witness:
  "\<exists>s1 s2. thread_yield 0 mutex_demo = Some (Switched, s1) \<and> mutex_acquire_timeout 0 7 INFINITE_TIME s1 = Some (Switched, s2) \<and>
     owners 7 s2 = 1 \<and> mutex_waiters 7 s2 = [2] \<and> backing_out 7 s2 = {}"
proof -
  obtain s1 where s1: "thread_yield 0 mutex_demo = Some (Switched, s1)" "may_call 0 s1"
    using mutex_demo_contended(1) by (auto simp: may_call_def)
  then obtain s2 where s2: "mutex_acquire_timeout 0 7 INFINITE_TIME s1 = Some (Switched, s2)" "mutex_waiters 7 s2 = [2]"
      "mutexes s2 7 = \<lparr>m_magic = MUTEX_MAGIC, m_holder = Some 1, m_count = 2\<rparr>"
    using mutex_demo_contended(2) by (auto simp: mutex_waiters_def)
  have "kstep {0} mutex_demo s1" using kstep.yield[OF _ _ s1(1), of "{0}"] by (simp add: mutex_demo_def)
  moreover have "kstep {0} s1 s2" using kstep.acquire[OF _ s1(2) s2(1), of "{0}"] by simp
  ultimately have re: "kreach {0} mutex_demo s2" by (blast intro: kreach.intros)
  have m: "m_magic (mutexes s2 7) = MUTEX_MAGIC" using s2(3) by simp
  have ok: "mutex_ok 7 s2" using kreach_sync_inv[OF re mutex_demo_inv] m by (simp add: sync_inv_def)
  have "owners 7 s2 = 1 \<and> card (backing_out 7 s2) = 0"
    using mutex_mutual_exclusion[OF re mutex_demo_inv m, of 1] s2(2,3) by (auto simp: owners_def)
  moreover have "finite (backing_out 7 s2)" using ok by (simp add: mutex_ok_def backing_out_def)
  ultimately show ?thesis using s1(1) s2(1,2) by auto
qed

text \<open>A mutex that was released while a timed-out waiter, thread 3, has not yet run.\<close>

definition race_demo :: sync_state where
  "race_demo = demo\<lparr>threads := (threads demo)(3 := (demo_thread 20 THREAD_READY)\<lparr>wait_queue_block_ret := ERR_TIMED_OUT\<rparr>),
     queues := \<lparr>lcont = (\<lambda>_. [])(RunQ 16 := [2], RunQ 20 := [3]), lon = [2 \<mapsto> RunQ 16, 3 \<mapsto> RunQ 20]\<rparr>,
     run_queue_bitmap := 0x110000,
     wqs := (\<lambda>_. \<lparr>wq_magic = WAIT_QUEUE_MAGIC, wq_count = 0\<rparr>),
     kstack := (\<lambda>_. [])(3 := [FR_block 50, FR_mutex_acquire 7]),
     mutexes := (mutexes demo)(7 := \<lparr>m_magic = MUTEX_MAGIC, m_holder = None, m_count = 1\<rparr>)\<rparr>"

lemma race_demo_kinv: "kinv {0} race_demo"
proof -
  have "bit ((2 :: u32) ^ n) p \<longleftrightarrow> p = n" if "n < 32" for n p using that by (auto simp: bit_exp_iff)
  from this[of 16] this[of 20] have "bit (0x10000 :: u32) p \<longleftrightarrow> p = 16" "bit (0x100000 :: u32) p \<longleftrightarrow> p = 20" for p
    by simp_all
  moreover have "(0x110000 :: u32) = 0x10000 OR 0x100000" by simp
  ultimately have "bit (0x110000 :: u32) p \<longleftrightarrow> p = 16 \<or> p = 20" for p by (metis bit_or_iff)
  then have "bitmap_ok race_demo" by (auto simp: race_demo_def bitmap_ok_def)
  moreover have "ls_ok (queues race_demo)" by (auto simp: race_demo_def ls_ok_def)
  ultimately have "queue_inv race_demo"
    by (auto simp: queue_inv_def queued_ok_def race_demo_def demo_defs thread_is_idle_def split: if_splits)
  moreover have "thread_inv {} race_demo"
    by (auto simp: thread_inv_def race_demo_def demo_defs thread_is_idle_def)
  moreover have "cpu_inv {0} {0} race_demo"
    by (auto simp: cpu_inv_def race_demo_def demo_defs thread_is_idle_def split: if_splits)
  moreover have "preempt_inv {0} race_demo"
    by (simp add: preempt_inv_def race_demo_def demo_def TIMER_INITIAL_VALUE_def ls_empty_def ls_in_list_def ls_ok_def)
  ultimately show ?thesis by (simp add: kinv_def sched_inv_def)
qed

lemma race_demo_sets:
  "acquiring m race_demo = (if m = 7 then {3} else {})" "mutex_waiters m race_demo = []" "granted m race_demo = {}"
  "backing_out m race_demo = (if m = 7 then {3} else {})"
  by (auto simp: mutex_sets race_demo_def demo_thread_def zero_thread_def split: if_splits)

lemma race_demo_inv: "sync_inv {0} race_demo"
proof -
  have "mutex_ok m race_demo" for m
    by (auto simp: mutex_ok_def owners_def race_demo_sets)
      (auto simp: race_demo_def demo_def)
  with race_demo_kinv show ?thesis by (simp add: sync_inv_def) (simp add: race_demo_def cond_ok_def block_callers_def)
qed

text \<open>C12: The count that a timed-out waiter has not yet taken back makes the mutex look owned:
  when the owner has released it (no holder, nobody it was handed to), an acquisition without
  timeout still blocks, behind nobody. No release is pending that could wake the thread up, and
  the waiter that backs out only decrements the count.\<close>

theorem mutex_acquire_blocks_on_free_mutex:
  assumes inv: "sync_inv C s" "c \<in> C" "may_call c s" "m_magic (mutexes s m) = MUTEX_MAGIC"
    and wq: "wq_magic (wqs s (WQ_mutex m)) = WAIT_QUEUE_MAGIC"
    and free: "owners m s = 0" "backing_out m s \<noteq> {}"
  shows "\<exists>s'. mutex_acquire c m s = Some (Switched, s') \<and> state (threads s' (current s c)) = THREAD_BLOCKED \<and>
     mutex_waiters m s' = mutex_waiters m s @ [current s c] \<and> m_holder (mutexes s' m) = None \<and> sync_inv C s'"
proof -
  let ?s1 = "upd_mutex m (\<lambda>x. x\<lparr>m_count := m_count x + 1\<rparr>) s"
  have k: "kinv C s" "mutex_ok m s" "\<not> thread_is_idle (threads s (current s c))" using inv by (auto simp: sync_inv_def may_call_def)
  have h: "m_holder (mutexes s m) = None" using free by (auto simp: owners_def split: option.splits)
  have "finite (backing_out m s)" using k(2) by (simp add: mutex_ok_def backing_out_def)
  then have "1 \<le> card (backing_out m s)" using free(2) by (simp add: Suc_leI card_gt_0_iff)
  then have "1 \<le> m_count (mutexes s m)" using k(2) unfolding mutex_ok_def by linarith
  then have e: "mutex_acquire c m s = Option.bind (wait_queue_block c (WQ_mutex m) INFINITE_TIME ?s1)
      (with_frame (current s c) (FR_mutex_acquire m) (mutex_acquire_woken c m))"
    using inv(4) h by (simp add: mutex_acquire_def mutex_acquire_timeout_def mutex_acquire_timeout_internal_def Let_def)
  have "wp (wait_queue_block c (WQ_mutex m) INFINITE_TIME ?s1)
      (\<lambda>(r, s'). r = Switched \<and> blocked_post C c (WQ_mutex m) INFINITE_TIME ?s1 s')"
    by (rule wait_queue_block_wp) (use k inv(2) wq in simp_all)
  then obtain s2 where b: "wait_queue_block c (WQ_mutex m) INFINITE_TIME ?s1 = Some (Switched, s2)"
      "blocked_post C c (WQ_mutex m) INFINITE_TIME ?s1 s2" by (auto simp: wp_ex)
  let ?s' = "s2\<lparr>kstack := (kstack s2)(current s c := kstack s2 (current s c) @ [FR_mutex_acquire m])\<rparr>"
  have r: "mutex_acquire c m s = Some (Switched, ?s')" using e b(1) by (simp add: with_frame_def)
  have "sync_inv C ?s'" using sync_inv_acquire[OF inv(1-3)] r by (simp add: mutex_acquire_def)
  moreover have "mutexes s2 = mutexes ?s1" by (rule sync_more(1)[OF blocked_post_more[OF b(2)]])
  ultimately show ?thesis using r b(2) h by (auto simp: blocked_post_def Let_def mutex_waiters_def)
qed

theorem mutex_acquire_blocks_on_free_mutex_witness:
  "\<exists>s'. mutex_acquire 0 7 race_demo = Some (Switched, s') \<and> mutex_waiters 7 s' = [1] \<and> m_holder (mutexes s' 7) = None"
proof -
  have "owners 7 race_demo = 0" "backing_out 7 race_demo \<noteq> {}" by (simp_all add: owners_def race_demo_sets) (simp add: race_demo_def)
  moreover have "may_call 0 race_demo" "m_magic (mutexes race_demo 7) = MUTEX_MAGIC"
    "wq_magic (wqs race_demo (WQ_mutex 7)) = WAIT_QUEUE_MAGIC" "current race_demo 0 = 1"
    by (simp_all add: may_call_def race_demo_def demo_defs thread_is_idle_def)
  ultimately show ?thesis
    using mutex_acquire_blocks_on_free_mutex[OF race_demo_inv, of 0 7] by (auto simp: race_demo_sets)
qed

end
