(* ===== verification/Ring.thy ===== *)
theory Ring
  imports LK_Prelude
begin

text \<open>
  Ring buffers: the contract of a bounded queue as the locale \<open>bounded_fifo\<close>, with what its
  clients get from it, and the index arithmetic that the two implementations
  (\<^verbatim>\<open>kernel/port.c\<close> and \<^verbatim>\<open>lib/cbuf/cbuf.c\<close>) share.
\<close>

section \<open>The contract\<close>

text \<open>\<open>put\<close> takes a prefix of what it is offered (all of it when there is room) and reports how
  much; \<open>get\<close> takes the oldest element, if there is one.\<close>

locale bounded_fifo =
  fixes ok :: "'s \<Rightarrow> bool"
    and cap :: "'s \<Rightarrow> nat"
    and cont :: "'s \<Rightarrow> 'a list"
    and put :: "'a list \<Rightarrow> 's \<Rightarrow> (nat \<times> 's) option"
    and get :: "'s \<Rightarrow> ('a option \<times> 's) option"
  assumes bounded: "ok s \<Longrightarrow> length (cont s) \<le> cap s"
    and put_law: "ok s \<Longrightarrow> \<exists>n s'. put xs s = Some (n, s') \<and> ok s' \<and> cap s' = cap s \<and> n \<le> length xs \<and>
      cont s' = cont s @ take n xs \<and> (length (cont s) + length xs \<le> cap s \<longrightarrow> n = length xs)"
    and get_empty: "ok s \<Longrightarrow> cont s = [] \<Longrightarrow> get s = Some (None, s)"
    and get_law: "ok s \<Longrightarrow> cont s = x # ys \<Longrightarrow>
      \<exists>s'. get s = Some (Some x, s') \<and> ok s' \<and> cap s' = cap s \<and> cont s' = ys"
begin

text \<open>Everything that went in comes out in order, or is still there: after any sequence of
  operations the accepted elements are the delivered ones followed by the content.\<close>

fun run :: "'a list option list \<Rightarrow> 's \<Rightarrow> ('a list \<times> 'a list \<times> 's) option" where
  "run [] s = Some ([], [], s)"
| "run (Some xs # ops) s = Option.bind (put xs s) (\<lambda>(n, s).
     Option.bind (run ops s) (\<lambda>(i, out, s). Some (take n xs @ i, out, s)))"
| "run (None # ops) s = Option.bind (get s) (\<lambda>(x, s).
     Option.bind (run ops s) (\<lambda>(i, out, s). Some (i, (case x of None \<Rightarrow> out | Some x \<Rightarrow> x # out), s)))"

lemma run_fifo:
  "ok s \<Longrightarrow> \<exists>i out s'. run ops s = Some (i, out, s') \<and> ok s' \<and> cap s' = cap s \<and> cont s @ i = out @ cont s'"
proof (induction ops arbitrary: s)
  case Nil
  then show ?case by simp
next
  case (Cons a ops)
  show ?case
  proof (cases a)
    case (Some xs)
    from put_law[OF Cons.prems, of xs] obtain n s1 where s1: "put xs s = Some (n, s1)" "ok s1" "cap s1 = cap s"
      "cont s1 = cont s @ take n xs" by blast
    from Cons.IH[OF s1(2)] obtain i out s' where "run ops s1 = Some (i, out, s')" "ok s'" "cap s' = cap s1"
      "cont s1 @ i = out @ cont s'" by blast
    with s1 Some show ?thesis by auto
  next
    case None
    have "\<exists>x s1. get s = Some (x, s1) \<and> ok s1 \<and> cap s1 = cap s \<and> cont s = (case x of None \<Rightarrow> [] | Some y \<Rightarrow> [y]) @ cont s1"
      using get_empty[OF Cons.prems] get_law[OF Cons.prems] Cons.prems by (cases "cont s") fastforce+
    then obtain x s1 where s1: "get s = Some (x, s1)" "ok s1" "cap s1 = cap s"
      "cont s = (case x of None \<Rightarrow> [] | Some y \<Rightarrow> [y]) @ cont s1" by blast
    from Cons.IH[OF s1(2)] obtain i out s' where "run ops s1 = Some (i, out, s')" "ok s'" "cap s' = cap s1"
      "cont s1 @ i = out @ cont s'" by blast
    with s1 None show ?thesis by (auto split: option.splits)
  qed
qed

lemma run_from_empty:
  assumes "ok s" "cont s = []" "run ops s = Some (i, out, s')"
  shows "i = out @ cont s' \<and> length (cont s') \<le> cap s"
  using run_fifo[OF assms(1), of ops] assms(2,3) bounded[of s'] by auto

end

section \<open>Index arithmetic\<close>

definition ring :: "'a list \<Rightarrow> nat \<Rightarrow> nat \<Rightarrow> 'a list" where
  "ring xs h n = map (\<lambda>i. xs ! ((h + i) mod length xs)) [0..<n]"

lemma ring_length [simp]: "length (ring xs h n) = n"
  by (simp add: ring_def)

lemma ring_0 [simp]: "ring xs h 0 = []"
  by (simp add: ring_def)

lemma mod_inject_window:
  assumes "(h + i) mod N = (h + n) mod N" "i < n" "n < (N :: nat)"
  shows False
proof -
  have "n - i < N" "0 < n - i" using assms by auto
  moreover have "N dvd (h + n) - (h + i)" using assms(1,2) by (metis mod_eq_dvd_iff_nat add_le_mono1 add.commute less_imp_le)
  ultimately show False by (auto dest: nat_dvd_not_less)
qed

lemma ring_update:
  assumes "n < length xs"
  shows "ring (xs[(h + n) mod length xs := x]) h (Suc n) = ring xs h n @ [x]"
proof -
  have "(h + n) mod length xs \<noteq> (h + i) mod length xs" if "i < n" for i
    using mod_inject_window[OF _ that assms, of h] by (metis)
  moreover have "(h + n) mod length xs < length xs" using assms by (intro mod_less_divisor) auto
  ultimately show ?thesis by (simp add: ring_def)
qed

lemma ring_Suc: "ring xs h (Suc n) = xs ! (h mod length xs) # ring xs (Suc h mod length xs) n"
proof -
  have "[0..<Suc n] = 0 # map Suc [0..<n]" by (simp only: upt_conv_Cons zero_less_Suc map_Suc_upt)
  then show ?thesis by (simp add: ring_def mod_add_left_eq)
qed

lemma ring_add: "ring xs h (n + k) = ring xs h n @ ring xs ((h + n) mod length xs) k"
proof (induction n arbitrary: h)
  case 0
  show ?case by (simp add: ring_def mod_add_left_eq)
next
  case (Suc n)
  show ?case using Suc.IH[of "Suc h mod length xs"] by (simp add: ring_Suc mod_add_left_eq)
qed

lemma ring_drop: "k \<le> n \<Longrightarrow> ring xs ((h + k) mod length xs) (n - k) = drop k (ring xs h n)"
  using ring_add[of xs h k "n - k"] by simp

lemma ring_take: "k \<le> n \<Longrightarrow> ring xs h k = take k (ring xs h n)"
  using ring_add[of xs h k "n - k"] by simp

lemma ring_memcpy:
  assumes "0 < length xs" "(t + u) mod length xs = h mod length xs" "u + length ys \<le> length xs" "h + length ys \<le> length xs"
  shows "ring (memcpy_at h ys xs) t (u + length ys) = ring xs t u @ ys"
  using assms
proof (induction ys arbitrary: h u xs)
  case Nil
  then show ?case by simp
next
  case (Cons y ys)
  have h: "h < length xs" "u < length xs" using Cons.prems by auto
  then have e: "(t + u) mod length xs = h" using Cons.prems(2) by simp
  have "(t + Suc u) mod length xs = Suc h mod length xs" using e by (metis add_Suc_right mod_Suc_eq)
  then have "ring (memcpy_at (Suc h) ys (xs[h := y])) t (Suc u + length ys) = ring (xs[h := y]) t (Suc u) @ ys"
    using Cons.IH[of "xs[h := y]" "Suc u" "Suc h"] Cons.prems by simp
  then show ?case using ring_update[OF h(2), of t y] e memcpy_at_Cons[OF h(1)] by simp
qed

end
