(* ===== verification/Port_Buf.thy ===== *)
theory Port_Buf
  imports Ring
begin

text \<open>
  The circular packet buffers of \<^verbatim>\<open>kernel/port.c\<close>: the code's \<open>port_buf_t\<close> with its power-of-two index
  arithmetic on 32-bit words, shown to be a bounded queue (interpretation \<open>pbuf\<close> of
  \<open>bounded_fifo\<close>).
\<close>

section \<open>Packet buffers\<close>

type_synonym port_packet = "8 word list"

record port_buf =
  pb_log2 :: nat
  pb_avail :: u32
  pb_head :: u32
  pb_tail :: u32
  pb_packet :: "port_packet list"

abbreviation (input) PORT_BUFF_SIZE :: nat where "PORT_BUFF_SIZE \<equiv> 8"
abbreviation (input) PORT_BUFF_SIZE_BIG :: nat where "PORT_BUFF_SIZE_BIG \<equiv> 512"

text \<open>The buffer that \<open>make_buf\<close> initialises when its allocation succeeds. The packets are not
  initialised by the code; no packet is read before it was written.\<close>

definition make_buf :: "bool \<Rightarrow> port_buf" where
  "make_buf big =
     (let pk_count = (if big then PORT_BUFF_SIZE_BIG else PORT_BUFF_SIZE) in
      \<lparr>pb_log2 = log2_uint (of_nat pk_count), pb_avail = of_nat pk_count, pb_head = 0, pb_tail = 0,
       pb_packet = replicate pk_count []\<rparr>)"

definition buf_is_empty :: "port_buf \<Rightarrow> bool" where
  "buf_is_empty b \<longleftrightarrow> pb_avail b = valpow2 (pb_log2 b)"

fun buf_write_loop :: "port_packet list \<Rightarrow> port_buf \<Rightarrow> port_buf option" where
  "buf_write_loop [] b = Some b"
| "buf_write_loop (p # ps) b =
     (if unat (pb_tail b) < length (pb_packet b)
      then buf_write_loop ps (b\<lparr>pb_packet := (pb_packet b)[unat (pb_tail b) := p],
                                pb_tail := modpow2 (pb_tail b + 1) (pb_log2 b)\<rparr>)
      else None)"

definition buf_write :: "port_packet list \<Rightarrow> nat \<Rightarrow> port_buf \<Rightarrow> (int \<times> port_buf) option" where
  "buf_write packets count b =
     (if unat (pb_avail b) < count then Some (ERR_NOT_ENOUGH_BUFFER, b)
      else if length packets < count then None
      else do { b \<leftarrow> buf_write_loop (take count packets) b;
                Some (NO_ERROR, b\<lparr>pb_avail := pb_avail b - of_nat count\<rparr>) })"

text \<open>The second component is what is stored through \<open>pr->packet\<close>, if anything.\<close>

definition buf_read :: "port_buf \<Rightarrow> (int \<times> port_packet option \<times> port_buf) option" where
  "buf_read b =
     (if buf_is_empty b then Some (ERR_NO_MSG, None, b)
      else if unat (pb_head b) < length (pb_packet b)
      then Some (NO_ERROR, Some (pb_packet b ! unat (pb_head b)),
             b\<lparr>pb_head := modpow2 (pb_head b + 1) (pb_log2 b), pb_avail := pb_avail b + 1\<rparr>)
      else None)"

text \<open>The queue that a buffer holds.\<close>

definition buf_used :: "port_buf \<Rightarrow> nat" where
  "buf_used b = 2 ^ pb_log2 b - unat (pb_avail b)"

definition buf_cont :: "port_buf \<Rightarrow> port_packet list" where
  "buf_cont b = ring (pb_packet b) (unat (pb_head b)) (buf_used b)"

definition buf_ok :: "port_buf \<Rightarrow> bool" where
  "buf_ok b \<longleftrightarrow> pb_log2 b < 31 \<and> length (pb_packet b) = 2 ^ pb_log2 b \<and> unat (pb_head b) < 2 ^ pb_log2 b \<and>
     unat (pb_avail b) \<le> 2 ^ pb_log2 b \<and> unat (pb_tail b) = (unat (pb_head b) + buf_used b) mod 2 ^ pb_log2 b"

lemma unat_modpow2_Suc:
  assumes "unat w < 2 ^ k" "k < 31"
  shows "unat (modpow2 (w + 1) k) = Suc (unat w) mod 2 ^ k"
proof -
  have "(2::nat) ^ k < 2 ^ 31" using assms(2) by (intro power_strict_increasing) auto
  then have "unat (w + 1) = Suc (unat w)"
    using assms(1) by (simp add: unat_word_ariths)
  then show ?thesis by (simp add: unat_modpow2)
qed

lemma unat_valpow2:
  assumes "k < 32"
  shows "unat (valpow2 k) = 2 ^ k"
proof -
  have "(2::nat) ^ k < 2 ^ 32" using assms by (intro power_strict_increasing) auto
  moreover have "valpow2 k = of_nat (2 ^ k)" by (simp add: valpow2_def push_bit_eq_mult)
  ultimately show ?thesis by (simp only: unat_of_nat) simp
qed

lemma buf_is_empty_iff:
  assumes "buf_ok b"
  shows "buf_is_empty b \<longleftrightarrow> buf_cont b = []"
proof -
  have "buf_is_empty b \<longleftrightarrow> unat (pb_avail b) = 2 ^ pb_log2 b"
    using assms unat_valpow2[of "pb_log2 b"] by (auto simp: buf_is_empty_def buf_ok_def word_unat_eq_iff)
  also have "\<dots> \<longleftrightarrow> buf_used b = 0" using assms by (auto simp: buf_ok_def buf_used_def)
  also have "\<dots> \<longleftrightarrow> buf_cont b = []" by (metis buf_cont_def length_0_conv ring_length)
  finally show ?thesis .
qed

lemma buf_write_loop_ring:
  assumes "pb_log2 b < 31" "length (pb_packet b) = 2 ^ pb_log2 b" "n + length ps \<le> 2 ^ pb_log2 b"
    "unat (pb_tail b) = (unat (pb_head b) + n) mod 2 ^ pb_log2 b"
  shows "\<exists>xs t. buf_write_loop ps b = Some (b\<lparr>pb_packet := xs, pb_tail := t\<rparr>) \<and> length xs = 2 ^ pb_log2 b \<and>
     unat t = (unat (pb_head b) + n + length ps) mod 2 ^ pb_log2 b \<and>
     ring xs (unat (pb_head b)) (n + length ps) = ring (pb_packet b) (unat (pb_head b)) n @ ps"
  using assms
proof (induction ps arbitrary: b n)
  case Nil
  then show ?case by (intro exI[of _ "pb_packet b"] exI[of _ "pb_tail b"]) simp
next
  case (Cons p ps)
  let ?N = "2 ^ pb_log2 b" and ?h = "unat (pb_head b)"
  let ?b = "b\<lparr>pb_packet := (pb_packet b)[unat (pb_tail b) := p], pb_tail := modpow2 (pb_tail b + 1) (pb_log2 b)\<rparr>"
  have t: "unat (pb_tail b) < ?N" using Cons.prems(4) by simp
  have t': "unat (modpow2 (pb_tail b + 1) (pb_log2 b)) = (?h + Suc n) mod ?N"
    using unat_modpow2_Suc[OF t Cons.prems(1)] Cons.prems(4) by (simp add: mod_Suc_eq)
  have r: "ring (pb_packet ?b) ?h (Suc n) = ring (pb_packet b) ?h n @ [p]"
    using ring_update[of n "pb_packet b" ?h p] Cons.prems by simp
  have "\<exists>xs t. buf_write_loop ps ?b = Some (?b\<lparr>pb_packet := xs, pb_tail := t\<rparr>) \<and> length xs = ?N \<and>
     unat t = (?h + Suc n + length ps) mod ?N \<and> ring xs ?h (Suc n + length ps) = ring (pb_packet ?b) ?h (Suc n) @ ps"
    using Cons.IH[of ?b "Suc n"] Cons.prems t' by simp
  then show ?case using t r Cons.prems(2) by auto
qed

lemma buf_write_ok:
  assumes ok: "buf_ok b" and n: "count \<le> length ps" "count \<le> unat (pb_avail b)"
  shows "\<exists>b'. buf_write ps count b = Some (NO_ERROR, b') \<and> buf_ok b' \<and> pb_log2 b' = pb_log2 b \<and>
     buf_cont b' = buf_cont b @ take count ps"
proof -
  let ?N = "2 ^ pb_log2 b" and ?h = "unat (pb_head b)"
  have u: "buf_used b + count \<le> ?N" using ok n by (auto simp: buf_ok_def buf_used_def)
  from buf_write_loop_ring[of b "buf_used b" "take count ps"] ok u n(1) obtain xs t where
    w: "buf_write_loop (take count ps) b = Some (b\<lparr>pb_packet := xs, pb_tail := t\<rparr>)" "length xs = ?N"
      "unat t = (?h + buf_used b + count) mod ?N"
      "ring xs ?h (buf_used b + count) = ring (pb_packet b) ?h (buf_used b) @ take count ps"
    by (auto simp: buf_ok_def min_absorb2)
  let ?b = "b\<lparr>pb_packet := xs, pb_tail := t, pb_avail := pb_avail b - of_nat count\<rparr>"
  have "unat (pb_avail b) < 2 ^ 32" using unsigned_less[of "pb_avail b"] by simp
  then have "count < 2 ^ 32" using n(2) by linarith
  then have c: "unat (of_nat count :: u32) = count" by (simp add: unat_of_nat)
  then have a: "unat (pb_avail b - of_nat count) = unat (pb_avail b) - count"
    using n(2) by (simp add: unat_sub word_le_nat_alt)
  then have used: "buf_used ?b = buf_used b + count" using ok n(2) by (simp add: buf_used_def buf_ok_def)
  have "buf_ok ?b" using ok w(2,3) a used by (auto simp: buf_ok_def add.assoc)
  moreover have "buf_cont ?b = buf_cont b @ take count ps" using w(4) used by (simp add: buf_cont_def)
  moreover have "buf_write ps count b = Some (NO_ERROR, ?b)" using n w(1) by (simp add: buf_write_def)
  ultimately show ?thesis by (intro exI[of _ ?b]) simp
qed

lemma buf_write_full: "unat (pb_avail b) < count \<Longrightarrow> buf_write ps count b = Some (ERR_NOT_ENOUGH_BUFFER, b)"
  by (simp add: buf_write_def)

lemma buf_avail_used: "buf_ok b \<Longrightarrow> unat (pb_avail b) = 2 ^ pb_log2 b - length (buf_cont b)"
  by (simp add: buf_ok_def buf_cont_def buf_used_def)

lemma buf_read_ok:
  assumes ok: "buf_ok b" and x: "buf_cont b = x # ys"
  shows "\<exists>b'. buf_read b = Some (NO_ERROR, Some x, b') \<and> buf_ok b' \<and> pb_log2 b' = pb_log2 b \<and> buf_cont b' = ys"
proof -
  let ?N = "2 ^ pb_log2 b" and ?h = "unat (pb_head b)"
  have h: "?h < ?N" "length (pb_packet b) = ?N" "pb_log2 b < 31" using ok by (auto simp: buf_ok_def)
  have "length (buf_cont b) = buf_used b" by (simp add: buf_cont_def)
  then have u: "buf_used b = Suc (length ys)" using x by simp
  have r: "x = pb_packet b ! ?h" "ys = ring (pb_packet b) (Suc ?h mod ?N) (length ys)"
    using x h ring_Suc[of "pb_packet b" ?h "length ys"] by (auto simp: buf_cont_def u)
  let ?b = "b\<lparr>pb_head := modpow2 (pb_head b + 1) (pb_log2 b), pb_avail := pb_avail b + 1\<rparr>"
  have hd: "unat (modpow2 (pb_head b + 1) (pb_log2 b)) = Suc ?h mod ?N" by (rule unat_modpow2_Suc[OF h(1,3)])
  have lt: "unat (pb_avail b) < ?N" using u by (simp add: buf_used_def)
  moreover have "(?N::nat) < 2 ^ 31" using h(3) by (intro power_strict_increasing) auto
  ultimately have a: "unat (pb_avail b + 1) = Suc (unat (pb_avail b))" by (simp add: unat_word_ariths)
  have used: "buf_used ?b = length ys" using u a by (simp add: buf_used_def)
  have "unat (pb_tail b) = (Suc ?h mod ?N + length ys) mod ?N"
    using ok u by (simp add: buf_ok_def mod_add_left_eq)
  then have "buf_ok ?b" using ok hd a lt used by (simp add: buf_ok_def)
  moreover have "buf_cont ?b = ys" using r(2) hd used by (simp add: buf_cont_def)
  moreover have "buf_read b = Some (NO_ERROR, Some x, ?b)"
    using buf_is_empty_iff[OF ok] x h r(1) by (simp add: buf_read_def)
  ultimately show ?thesis by (intro exI[of _ ?b]) simp
qed

lemma make_buf_ok: "buf_ok (make_buf big) \<and> buf_cont (make_buf big) = [] \<and> pb_log2 (make_buf big) = (if big then 9 else 3)"
proof -
  have "log2_uint 512 = 9" "log2_uint 8 = 3" by code_simp+
  then show ?thesis by (auto simp: make_buf_def Let_def buf_ok_def buf_cont_def buf_used_def)
qed

text \<open>A buffer is a bounded queue that accepts all or nothing.\<close>

definition buf_put :: "port_packet list \<Rightarrow> port_buf \<Rightarrow> (nat \<times> port_buf) option" where
  "buf_put ps b = map_option (\<lambda>(r, b'). (if r = NO_ERROR then length ps else 0, b')) (buf_write ps (length ps) b)"

definition buf_get :: "port_buf \<Rightarrow> (port_packet option \<times> port_buf) option" where
  "buf_get b = map_option snd (buf_read b)"

interpretation pbuf: bounded_fifo buf_ok "\<lambda>b. 2 ^ pb_log2 b" buf_cont buf_put buf_get
proof (unfold_locales, goal_cases)
  case (1 s)
  then show ?case by (simp add: buf_cont_def buf_used_def)
next
  case (2 s xs)
  show ?case
  proof (cases "length xs \<le> unat (pb_avail s)")
    case True
    with buf_write_ok[OF 2, of "length xs" xs] show ?thesis by (auto simp: buf_put_def)
  next
    case False
    then show ?thesis
      using 2 buf_avail_used[OF 2] by (auto simp: buf_put_def buf_write_full)
  qed
next
  case (3 s)
  then show ?case using buf_is_empty_iff[OF 3(1)] by (simp add: buf_get_def buf_read_def)
next
  case (4 s x ys)
  then show ?case using buf_read_ok[OF 4] by (auto simp: buf_get_def)
qed

end
