(* ===== verification/Port.thy ===== *)
theory Port
  imports Sync Port_Buf
begin

text \<open>
  Ports (\<^verbatim>\<open>kernel/port.c\<close>): named write ports, read ports, port groups. A port handle is the address
  of its structure; all three structures start with a magic number, which the code reads to
  find out what it was given, so the magic numbers are one map over addresses. The nodes
  \<open>node\<close>, \<open>w_node\<close> and \<open>g_node\<close> are linked in the stores \<open>write_port_list\<close>, \<open>rp_lists\<close> (by write
  port) and \<open>group_lists\<close> (by port group). Addresses returned by \<open>malloc\<close> and \<open>calloc\<close> are
  arguments (0 for failure); \<open>free\<close> adds to \<open>freed\<close>. The functions that take the thread lock
  twice run their two regions in sequence.
\<close>

section \<open>State\<close>

abbreviation (input) WRITEPORT_MAGIC_W :: int where "WRITEPORT_MAGIC_W \<equiv> 0x70727477"
abbreviation (input) WRITEPORT_MAGIC_X :: int where "WRITEPORT_MAGIC_X \<equiv> 0x70727478"
abbreviation (input) READPORT_MAGIC :: int where "READPORT_MAGIC \<equiv> 0x70727472"
abbreviation (input) PORTGROUP_MAGIC :: int where "PORTGROUP_MAGIC \<equiv> 0x70727467"
abbreviation (input) MAX_PORT_GROUP_COUNT :: nat where "MAX_PORT_GROUP_COUNT \<equiv> 256"
abbreviation (input) PORT_NAME_LEN :: nat where "PORT_NAME_LEN \<equiv> 64"
abbreviation (input) PORT_MODE_BROADCAST :: u32 where "PORT_MODE_BROADCAST \<equiv> 0"
abbreviation (input) PORT_MODE_UNICAST :: u32 where "PORT_MODE_UNICAST \<equiv> 1"
abbreviation (input) PORT_MODE_BIG_BUFFER :: u32 where "PORT_MODE_BIG_BUFFER \<equiv> 2"

record write_port =
  wp_buf :: nat
  wp_mode :: u32
  wp_name :: string

record read_port =
  rp_buf :: nat
  rp_ctx :: nat
  rp_wport :: nat
  rp_gport :: nat

record port_state = sync_state +
  port_magic :: "nat \<Rightarrow> int"
  port_bufs :: "nat \<Rightarrow> port_buf"
  wports :: "nat \<Rightarrow> write_port"
  rports :: "nat \<Rightarrow> read_port"
  write_port_list :: "(unit, nat) lstore"
  rp_lists :: "(nat, nat) lstore"
  group_lists :: "(nat, nat) lstore"
  port_results :: "nat \<Rightarrow> nat \<times> port_packet"
  lock_leaked :: bool

definition upd_wport :: "nat \<Rightarrow> (write_port \<Rightarrow> write_port) \<Rightarrow> 'z port_state_scheme \<Rightarrow> 'z port_state_scheme" where
  "upd_wport p f s = s\<lparr>wports := (wports s)(p := f (wports s p))\<rparr>"

definition upd_rport :: "nat \<Rightarrow> (read_port \<Rightarrow> read_port) \<Rightarrow> 'z port_state_scheme \<Rightarrow> 'z port_state_scheme" where
  "upd_rport p f s = s\<lparr>rports := (rports s)(p := f (rports s p))\<rparr>"

definition set_magic :: "nat \<Rightarrow> int \<Rightarrow> 'z port_state_scheme \<Rightarrow> 'z port_state_scheme" where
  "set_magic p m s = s\<lparr>port_magic := (port_magic s)(p := m)\<rparr>"

definition set_buf :: "nat \<Rightarrow> port_buf \<Rightarrow> 'z port_state_scheme \<Rightarrow> 'z port_state_scheme" where
  "set_buf p b s = s\<lparr>port_bufs := (port_bufs s)(p := b)\<rparr>"

definition free :: "nat \<Rightarrow> 'z kstate_scheme \<Rightarrow> 'z kstate_scheme" where
  "free p s = (if p = 0 then s else s\<lparr>freed := freed s @ [p]\<rparr>)"

text \<open>A list head that is initialised, or freed, forgets its nodes; the code never uses the nodes'
  old pointers again.\<close>

definition ls_reset :: "'h \<Rightarrow> ('h, 'n) lstore \<Rightarrow> ('h, 'n) lstore" where
  "ls_reset h q = \<lparr>lcont = (lcont q)(h := []), lon = (\<lambda>n. if lon q n = Some h then None else lon q n)\<rparr>"

text \<open>\<open>wait_queue_wake_one\<close> and \<open>wait_queue_wake_all\<close> called with \<open>reschedule\<close> false.\<close>

definition returned :: "outcome \<times> 's \<Rightarrow> (int \<times> 's) option" where
  "returned os = (case os of (Ret v, s) \<Rightarrow> Some (v, s) | (Switched, s) \<Rightarrow> None)"

section \<open>Creating and opening\<close>

definition port_init :: "'z port_state_scheme \<Rightarrow> 'z port_state_scheme" where
  "port_init s = s\<lparr>write_port_list := ls_reset () (write_port_list s)\<rparr>"

definition port_create ::
  "string option \<Rightarrow> u32 \<Rightarrow> bool \<Rightarrow> nat \<Rightarrow> nat \<Rightarrow> 'z port_state_scheme \<Rightarrow> (int \<times> nat option \<times> 'z port_state_scheme) option" where
  "port_create name mode portp wpt bufp s =
     (case name of None \<Rightarrow> Some (ERR_INVALID_ARGS, None, s)
      | Some name \<Rightarrow>
          if \<not> portp then Some (ERR_INVALID_ARGS, None, s)
          else if mode AND PORT_MODE_BROADCAST \<noteq> 0 \<and> mode AND PORT_MODE_BIG_BUFFER \<noteq> 0
          then Some (ERR_INVALID_ARGS, None, s)
          else if PORT_NAME_LEN \<le> length name then Some (ERR_INVALID_ARGS, None, s)
          else (case List.find (\<lambda>p. wp_name (wports s p) = name) (lcont (write_port_list s) ()) of
                  Some p \<Rightarrow> if port_magic s p = WRITEPORT_MAGIC_X then Some (ERR_BUSY, None, s)
                            else Some (ERR_ALREADY_EXISTS, Some p, s)
                | None \<Rightarrow>
                    if wpt = 0 then Some (ERR_NO_MEMORY, None, s)
                    else if bufp = 0 then Some (ERR_NO_MEMORY, None, free wpt s)
                    else do { q \<leftarrow> ls_add_tail () wpt (write_port_list s);
                              let s = set_buf bufp (make_buf (mode AND PORT_MODE_BIG_BUFFER \<noteq> 0)) (set_magic wpt WRITEPORT_MAGIC_W s);
                                  s = s\<lparr>wports := (wports s)(wpt := \<lparr>wp_buf = bufp, wp_mode = mode, wp_name = name\<rparr>),
                                        rp_lists := ls_reset wpt (rp_lists s), write_port_list := q\<rparr>
                              in Some (NO_ERROR, Some wpt, s) }))"

definition port_open ::
  "string option \<Rightarrow> nat \<Rightarrow> bool \<Rightarrow> nat \<Rightarrow> nat \<Rightarrow> 'z port_state_scheme \<Rightarrow> (int \<times> nat option \<times> 'z port_state_scheme) option" where
  "port_open name ctx portp rp bufp s =
     (case name of None \<Rightarrow> Some (ERR_INVALID_ARGS, None, s)
      | Some name \<Rightarrow>
          if \<not> portp then Some (ERR_INVALID_ARGS, None, s)
          else if rp = 0 then Some (ERR_NO_MEMORY, None, s)
          else do {
            s \<leftarrow> wait_queue_init (WQ_rport rp)
                   ((set_magic rp READPORT_MAGIC s)\<lparr>rports := (rports s)
                      (rp := \<lparr>rp_buf = 0, rp_ctx = ctx, rp_wport = 0, rp_gport = 0\<rparr>)\<rparr>);
            if bufp = 0 then Some (ERR_NO_MEMORY, None, free rp s)
            else let s = set_buf bufp (make_buf False) s in
              (case List.find (\<lambda>p. wp_name (wports s p) = name) (lcont (write_port_list s) ()) of
                 None \<Rightarrow> Some (ERR_NOT_FOUND, None, free rp (free bufp s))
               | Some wpt \<Rightarrow>
                   let s = upd_rport rp (\<lambda>r. r\<lparr>rp_wport := wpt\<rparr>) s in
                   if wp_buf (wports s wpt) \<noteq> 0
                   then do { q \<leftarrow> ls_add_tail wpt rp (rp_lists s);
                             let s = s\<lparr>rp_lists := q\<rparr>;
                                 s = upd_rport rp (\<lambda>r. r\<lparr>rp_buf := wp_buf (wports s wpt)\<rparr>) s;
                                 s = upd_wport wpt (\<lambda>w. w\<lparr>wp_buf := 0\<rparr>) s
                             in Some (NO_ERROR, Some rp, free bufp s) }
                   else if wp_mode (wports s wpt) AND PORT_MODE_UNICAST \<noteq> 0
                   then Some (ERR_NOT_ALLOWED, None, free rp (free bufp s))
                   else do { q \<leftarrow> ls_add_tail wpt rp (rp_lists s);
                             Some (NO_ERROR, Some rp, upd_rport rp (\<lambda>r. r\<lparr>rp_buf := bufp\<rparr>) (s\<lparr>rp_lists := q\<rparr>)) }) })"

section \<open>Groups\<close>

text \<open>The loop over the ports of a new group; \<open>done\<close> are the ones already linked.\<close>

fun port_group_loop ::
  "nat \<Rightarrow> nat list \<Rightarrow> nat list \<Rightarrow> 'z port_state_scheme \<Rightarrow> (int \<times> 'z port_state_scheme) option" where
  "port_group_loop pg done [] s = Some (NO_ERROR, s)"
| "port_group_loop pg done (rp # rps) s =
     (if port_magic s rp \<noteq> READPORT_MAGIC \<or> rp_gport (rports s rp) \<noteq> 0
      then Some (ERR_BAD_HANDLE, fold (\<lambda>r. upd_rport r (\<lambda>x. x\<lparr>rp_gport := 0\<rparr>)) done s)
      else do { q \<leftarrow> ls_add_tail pg rp (group_lists s);
                port_group_loop pg (done @ [rp]) rps
                  ((upd_rport rp (\<lambda>x. x\<lparr>rp_gport := pg\<rparr>) s)\<lparr>group_lists := q\<rparr>) })"

definition port_group ::
  "nat list option \<Rightarrow> nat \<Rightarrow> bool \<Rightarrow> nat \<Rightarrow> 'z port_state_scheme \<Rightarrow> (int \<times> nat option \<times> 'z port_state_scheme) option" where
  "port_group ports count groupp pg s =
     (if MAX_PORT_GROUP_COUNT < count then Some (ERR_TOO_BIG, None, s)
      else if count \<noteq> 0 \<and> ports = None then Some (ERR_INVALID_ARGS, None, s)
      else if \<not> groupp then Some (ERR_INVALID_ARGS, None, s)
      else if pg = 0 then Some (ERR_NO_MEMORY, None, s)
      else if length (case ports of None \<Rightarrow> [] | Some ps \<Rightarrow> ps) < count then None
      else do { s \<leftarrow> wait_queue_init (WQ_pgroup pg) (set_magic pg PORTGROUP_MAGIC s);
                let s = s\<lparr>group_lists := ls_reset pg (group_lists s)\<rparr> in
                do { (rc, s) \<leftarrow> port_group_loop pg [] (take count (case ports of None \<Rightarrow> [] | Some ps \<Rightarrow> ps)) s;
                     if rc = NO_ERROR then Some (rc, Some pg, s)
                     else Some (rc, None, free pg (s\<lparr>group_lists := ls_reset pg (group_lists s)\<rparr>)) } })"

definition port_group_add ::
  "nat \<Rightarrow> nat \<Rightarrow> nat \<Rightarrow> 'z port_state_scheme \<Rightarrow> (int \<times> 'z port_state_scheme) option" where
  "port_group_add cpu pg rp s =
     (if rp = 0 \<or> pg = 0 then Some (ERR_INVALID_ARGS, s)
      else if port_magic s pg \<noteq> PORTGROUP_MAGIC then Some (ERR_INVALID_ARGS, s)
      else if port_magic s rp \<noteq> READPORT_MAGIC \<or> rp_gport (rports s rp) \<noteq> 0 then Some (ERR_BAD_HANDLE, s)
      else if length (lcont (group_lists s) pg) = MAX_PORT_GROUP_COUNT then Some (ERR_TOO_BIG, s)
      else do { q \<leftarrow> ls_add_tail pg rp (group_lists s);
                let s = (upd_rport rp (\<lambda>x. x\<lparr>rp_gport := pg\<rparr>) s)\<lparr>group_lists := q\<rparr> in
                if rp_buf (rports s rp) = 0 then None
                else if \<not> buf_is_empty (port_bufs s (rp_buf (rports s rp)))
                then do { os \<leftarrow> wait_queue_wake_one cpu (WQ_pgroup pg) False NO_ERROR s;
                          (_, s) \<leftarrow> returned os;
                          Some (NO_ERROR, s) }
                else Some (NO_ERROR, s) })"

text \<open>When the port is not found the function returns without releasing the thread lock.\<close>

definition port_group_remove :: "nat \<Rightarrow> nat \<Rightarrow> 'z port_state_scheme \<Rightarrow> (int \<times> 'z port_state_scheme) option" where
  "port_group_remove pg rp s =
     (if rp = 0 \<or> pg = 0 then Some (ERR_INVALID_ARGS, s)
      else if port_magic s pg \<noteq> PORTGROUP_MAGIC then Some (ERR_INVALID_ARGS, s)
      else if port_magic s rp \<noteq> READPORT_MAGIC \<or> rp_gport (rports s rp) \<noteq> pg then Some (ERR_BAD_HANDLE, s)
      else if rp \<notin> set (lcont (group_lists s) pg) then Some (ERR_BAD_HANDLE, s\<lparr>lock_leaked := True\<rparr>)
      else do { q \<leftarrow> ls_delete rp (group_lists s);
                Some (NO_ERROR, s\<lparr>group_lists := q\<rparr>) })"

section \<open>Writing\<close>

fun port_write_loop ::
  "nat \<Rightarrow> nat list \<Rightarrow> port_packet list \<Rightarrow> nat \<Rightarrow> int \<Rightarrow> int \<Rightarrow> 'z port_state_scheme \<Rightarrow> (int \<times> int \<times> 'z port_state_scheme) option" where
  "port_write_loop cpu [] pk count status awake s = Some (status, awake, s)"
| "port_write_loop cpu (rp # rps) pk count status awake s =
     (if rp_buf (rports s rp) = 0 then None
      else do { (r, b) \<leftarrow> buf_write pk count (port_bufs s (rp_buf (rports s rp)));
                if r < 0 then port_write_loop cpu rps pk count ERR_PARTIAL_WRITE awake s
                else let s = set_buf (rp_buf (rports s rp)) b s in
                  do { (awaken, s) \<leftarrow>
                         (if rp_gport (rports s rp) \<noteq> 0
                          then do { os \<leftarrow> wait_queue_wake_one cpu (WQ_pgroup (rp_gport (rports s rp))) False NO_ERROR s;
                                    returned os }
                          else Some (0, s));
                       (awaken, s) \<leftarrow>
                         (if awaken = 0
                          then do { os \<leftarrow> wait_queue_wake_one cpu (WQ_rport rp) False NO_ERROR s; returned os }
                          else Some (awaken, s));
                       port_write_loop cpu rps pk count status (awake + awaken) s } })"

definition port_write ::
  "nat \<Rightarrow> nat \<Rightarrow> port_packet list option \<Rightarrow> nat \<Rightarrow> 'z port_state_scheme \<Rightarrow> (outcome \<times> 'z port_state_scheme) option" where
  "port_write cpu wpt pk count s =
     (case pk of None \<Rightarrow> Some (Ret ERR_INVALID_ARGS, s)
      | Some pk \<Rightarrow>
          if wpt = 0 then Some (Ret ERR_INVALID_ARGS, s)
          else if port_magic s wpt \<noteq> WRITEPORT_MAGIC_W then Some (Ret ERR_BAD_HANDLE, s)
          else do { (status, awake, s) \<leftarrow>
                      (if wp_buf (wports s wpt) \<noteq> 0
                       then do { (status, b) \<leftarrow> buf_write pk count (port_bufs s (wp_buf (wports s wpt)));
                                 Some (status, 0, set_buf (wp_buf (wports s wpt)) b s) }
                       else port_write_loop cpu (lcont (rp_lists s) wpt) pk count NO_ERROR 0 s);
                    if awake \<noteq> 0
                    then do { os \<leftarrow> thread_yield cpu s;
                              with_frame (current s cpu) (FR_const status) (\<lambda>_ s. Some (Ret status, s)) os }
                    else Some (Ret status, s) })"

section \<open>Reading\<close>

text \<open>The part of \<open>read_no_lock\<close> before the wait: the status of \<open>buf_read\<close>, and \<open>*result\<close> written.\<close>

definition read_buf :: "nat \<Rightarrow> nat \<Rightarrow> 'z port_state_scheme \<Rightarrow> (int \<times> 'z port_state_scheme) option" where
  "read_buf rp result s =
     (if rp_buf (rports s rp) = 0 then None
      else do { (st, p, b) \<leftarrow> buf_read (port_bufs s (rp_buf (rports s rp)));
                Some (st, (set_buf (rp_buf (rports s rp)) b s)\<lparr>port_results := (port_results s)
                       (result := (rp_ctx (rports s rp), case p of None \<Rightarrow> snd (port_results s result) | Some p \<Rightarrow> p))\<rparr>) })"

partial_function (option) read_no_lock ::
  "nat \<Rightarrow> nat \<Rightarrow> lk_time \<Rightarrow> nat \<Rightarrow> 'z port_state_scheme \<Rightarrow> (outcome \<times> 'z port_state_scheme) option" where
  "read_no_lock cpu rp timeout result s =
     Option.bind (read_buf rp result s) (\<lambda>(st, s).
       if st \<noteq> ERR_NO_MSG then Some (Ret st, s)
       else if timeout = 0 then Some (Ret ERR_TIMED_OUT, s)
       else Option.bind (wait_queue_block cpu (WQ_rport rp) timeout s) (\<lambda>(wr, s1).
              case wr of
                Switched \<Rightarrow> Some (Switched, s1\<lparr>kstack := (kstack s1)
                   (current s cpu := kstack s1 (current s cpu) @ [FR_port_read rp timeout result])\<rparr>)
              | Ret wr \<Rightarrow> if wr \<noteq> NO_ERROR then Some (Ret wr, s1) else read_no_lock cpu rp timeout result s1))"

text \<open>One pass over the ports of a group.\<close>

fun group_scan :: "nat list \<Rightarrow> nat \<Rightarrow> 'z port_state_scheme \<Rightarrow> (int \<times> 'z port_state_scheme) option" where
  "group_scan [] result s = Some (ERR_TIMED_OUT, s)"
| "group_scan (rp # rps) result s =
     do { (st, s) \<leftarrow> read_buf rp result s;
          if st \<noteq> ERR_NO_MSG then Some (st, s) else group_scan rps result s }"

partial_function (option) group_read ::
  "nat \<Rightarrow> nat \<Rightarrow> lk_time \<Rightarrow> nat \<Rightarrow> 'z port_state_scheme \<Rightarrow> (outcome \<times> 'z port_state_scheme) option" where
  "group_read cpu pg timeout result s =
     Option.bind (group_scan (lcont (group_lists s) pg) result s) (\<lambda>(st, s).
       if st \<noteq> ERR_TIMED_OUT then Some (Ret st, s)
       else Option.bind (wait_queue_block cpu (WQ_pgroup pg) timeout s) (\<lambda>(wr, s1).
              case wr of
                Switched \<Rightarrow> Some (Switched, s1\<lparr>kstack := (kstack s1)
                   (current s cpu := kstack s1 (current s cpu) @ [FR_port_group_read pg timeout result])\<rparr>)
              | Ret wr \<Rightarrow> if wr \<noteq> NO_ERROR then Some (Ret wr, s1) else group_read cpu pg timeout result s1))"

definition port_read ::
  "nat \<Rightarrow> nat \<Rightarrow> lk_time \<Rightarrow> nat \<Rightarrow> 'z port_state_scheme \<Rightarrow> (outcome \<times> 'z port_state_scheme) option" where
  "port_read cpu port timeout result s =
     (if port = 0 \<or> result = 0 then Some (Ret ERR_INVALID_ARGS, s)
      else if port_magic s port = READPORT_MAGIC then read_no_lock cpu port timeout result s
      else if port_magic s port = PORTGROUP_MAGIC then group_read cpu port timeout result s
      else Some (Ret ERR_BAD_HANDLE, s))"

section \<open>Closing\<close>

fun port_destroy_loop :: "nat \<Rightarrow> nat list \<Rightarrow> 'z port_state_scheme \<Rightarrow> 'z port_state_scheme option" where
  "port_destroy_loop cpu [] s = Some s"
| "port_destroy_loop cpu (rp # rps) s =
     do { os \<leftarrow> wait_queue_wake_all cpu (WQ_rport rp) False ERR_CANCELLED s;
          (_, s) \<leftarrow> returned os;
          s \<leftarrow> (if rp_gport (rports s rp) \<noteq> 0
                 then do { os \<leftarrow> wait_queue_wake_all cpu (WQ_pgroup (rp_gport (rports s rp))) False ERR_CANCELLED s;
                           (_, s) \<leftarrow> returned os;
                           Some s }
                 else Some s);
          port_destroy_loop cpu rps (upd_rport rp (\<lambda>r. r\<lparr>rp_wport := 0\<rparr>) s) }"

definition port_destroy :: "nat \<Rightarrow> nat \<Rightarrow> 'z port_state_scheme \<Rightarrow> (int \<times> 'z port_state_scheme) option" where
  "port_destroy cpu wpt s =
     (if wpt = 0 then Some (ERR_INVALID_ARGS, s)
      else if port_magic s wpt \<noteq> WRITEPORT_MAGIC_X then Some (ERR_BAD_HANDLE, s)
      else do { q \<leftarrow> ls_delete wpt (write_port_list s);
                let s = s\<lparr>write_port_list := q\<rparr>; bufp = wp_buf (wports s wpt) in
                do { s \<leftarrow> (if bufp \<noteq> 0 then Some s else port_destroy_loop cpu (lcont (rp_lists s) wpt) s);
                     let s = (set_magic wpt 0 s)\<lparr>rp_lists := ls_reset wpt (rp_lists s)\<rparr> in
                     Some (NO_ERROR, free wpt (free bufp s)) } })"

text \<open>The rest of \<open>port_close\<close> after the waiters have been woken.\<close>

definition port_close_end :: "nat \<Rightarrow> nat \<Rightarrow> 'z port_state_scheme \<Rightarrow> (outcome \<times> 'z port_state_scheme) option" where
  "port_close_end rp bufp s = Some (Ret NO_ERROR, free rp (free bufp (set_magic rp 0 s)))"

definition port_close_group_end :: "nat \<Rightarrow> 'z port_state_scheme \<Rightarrow> (outcome \<times> 'z port_state_scheme) option" where
  "port_close_group_end pg s =
     (let s = fold (\<lambda>r. upd_rport r (\<lambda>x. x\<lparr>rp_gport := 0\<rparr>)) (lcont (group_lists s) pg) s;
          s = (set_magic pg 0 s)\<lparr>group_lists := ls_reset pg (group_lists s)\<rparr>
      in Some (Ret NO_ERROR, free pg s))"

definition port_close :: "nat \<Rightarrow> nat \<Rightarrow> 'z port_state_scheme \<Rightarrow> (outcome \<times> 'z port_state_scheme) option" where
  "port_close cpu port s =
     (if port = 0 then Some (Ret ERR_INVALID_ARGS, s)
      else if port_magic s port = READPORT_MAGIC
      then do { (bufp, s) \<leftarrow>
                  (let wpt = rp_wport (rports s port) in
                   if wpt \<noteq> 0
                   then do { q \<leftarrow> ls_delete port (rp_lists s);
                             let s = s\<lparr>rp_lists := q\<rparr>; b = rp_buf (rports s port) in
                             if ls_is_empty wpt q
                             then Some (0, upd_rport port (\<lambda>r. r\<lparr>rp_buf := 0\<rparr>) (upd_wport wpt (\<lambda>w. w\<lparr>wp_buf := b\<rparr>) s))
                             else Some (b, s) }
                   else Some (0, s));
                s \<leftarrow> (if rp_gport (rports s port) \<noteq> 0
                      then do { q \<leftarrow> ls_delete port (group_lists s); Some (s\<lparr>group_lists := q\<rparr>) }
                      else Some s);
                os \<leftarrow> wait_queue_destroy cpu (WQ_rport port) True s;
                with_frame (current s cpu) (FR_port_close port bufp) (\<lambda>_. port_close_end port bufp) os }
      else if port_magic s port = PORTGROUP_MAGIC
      then do { os \<leftarrow> wait_queue_destroy cpu (WQ_pgroup port) True s;
                with_frame (current s cpu) (FR_port_close_group port) (\<lambda>_. port_close_group_end port) os }
      else if port_magic s port = WRITEPORT_MAGIC_W
      then Some (Ret NO_ERROR, set_magic port WRITEPORT_MAGIC_X s)
      else Some (Ret ERR_BAD_HANDLE, s))"

section \<open>Switching back\<close>

fun port_run_frame ::
  "nat \<Rightarrow> frame \<Rightarrow> int \<Rightarrow> 'z port_state_scheme \<Rightarrow> (outcome \<times> 'z port_state_scheme) option" where
  "port_run_frame cpu (FR_port_read rp timeout result) v s =
     (if v \<noteq> NO_ERROR then Some (Ret v, s) else read_no_lock cpu rp timeout result s)"
| "port_run_frame cpu (FR_port_group_read pg timeout result) v s =
     (if v \<noteq> NO_ERROR then Some (Ret v, s) else group_read cpu pg timeout result s)"
| "port_run_frame cpu (FR_port_close rp bufp) v s = port_close_end rp bufp s"
| "port_run_frame cpu (FR_port_close_group pg) v s = port_close_group_end pg s"
| "port_run_frame cpu f v s = run_frame cpu f v s"

fun port_run_frames ::
  "nat \<Rightarrow> tid \<Rightarrow> frame list \<Rightarrow> int \<Rightarrow> 'z port_state_scheme \<Rightarrow> (outcome \<times> 'z port_state_scheme) option" where
  "port_run_frames cpu t [] v s = Some (Ret v, s)"
| "port_run_frames cpu t (f # fs) v s =
     do { (r, s) \<leftarrow> port_run_frame cpu f v s;
          (case r of
             Ret v \<Rightarrow> port_run_frames cpu t fs v s
           | Switched \<Rightarrow> Some (Switched, s\<lparr>kstack := (kstack s)(t := kstack s t @ fs)\<rparr>)) }"

definition port_resume :: "nat \<Rightarrow> 'z port_state_scheme \<Rightarrow> (outcome \<times> 'z port_state_scheme) option" where
  "port_resume cpu s =
     (let cur = current s cpu in
      port_run_frames cpu cur (kstack s cur) NO_ERROR (s\<lparr>kstack := (kstack s)(cur := [])\<rparr>))"

end
