(* ===== verification/Port_Inv.thy ===== *)
theory Port_Inv
  imports Port Kernel_Steps
begin

text \<open>
  The port invariant (every packet buffer has one owner: the write port while it has no reader,
  else one of its readers) and what writing, reading, opening and closing do to it.
\<close>

section \<open>The invariant\<close>

text \<open>Who owns a packet buffer: a write port without readers (\<open>Inl\<close>), or a read port (\<open>Inr\<close>).\<close>

fun owns :: "'z port_state_scheme \<Rightarrow> nat + nat \<Rightarrow> nat \<Rightarrow> bool" where
  "owns s (Inl w) b \<longleftrightarrow> lon (write_port_list s) w = Some () \<and> wp_buf (wports s w) = b \<and> b \<noteq> 0"
| "owns s (Inr r) b \<longleftrightarrow> lon (rp_lists s) r \<noteq> None \<and> rp_buf (rports s r) = b"

definition wport_ok :: "'z port_state_scheme \<Rightarrow> nat \<Rightarrow> bool" where
  "wport_ok s w \<longleftrightarrow> w \<noteq> 0 \<and> port_magic s w \<in> {WRITEPORT_MAGIC_W, WRITEPORT_MAGIC_X} \<and>
     (wp_buf (wports s w) = 0 \<longleftrightarrow> lcont (rp_lists s) w \<noteq> [])"

definition rport_ok :: "'z port_state_scheme \<Rightarrow> nat \<Rightarrow> nat \<Rightarrow> bool" where
  "rport_ok s r w \<longleftrightarrow> lon (write_port_list s) w = Some () \<and> r \<noteq> 0 \<and> port_magic s r = READPORT_MAGIC \<and>
     rp_buf (rports s r) \<noteq> 0 \<and> rp_wport (rports s r) = w \<and> wq_magic (wqs s (WQ_rport r)) = WAIT_QUEUE_MAGIC \<and>
     (rp_gport (rports s r) \<noteq> 0 \<longrightarrow> wq_magic (wqs s (WQ_pgroup (rp_gport (rports s r)))) = WAIT_QUEUE_MAGIC)"

definition port_inv :: "'z port_state_scheme \<Rightarrow> bool" where
  "port_inv s \<longleftrightarrow> ls_ok (write_port_list s) \<and> ls_ok (rp_lists s) \<and> ls_ok (group_lists s) \<and>
     (\<forall>w. lon (write_port_list s) w = Some () \<longrightarrow> wport_ok s w) \<and>
     (\<forall>r w. lon (rp_lists s) r = Some w \<longrightarrow> rport_ok s r w) \<and>
     (\<forall>x b. owns s x b \<longrightarrow> buf_ok (port_bufs s b)) \<and>
     (\<forall>x y b. owns s x b \<longrightarrow> owns s y b \<longrightarrow> x = y) \<and>
     inj_on (\<lambda>w. wp_name (wports s w)) {w. lon (write_port_list s) w = Some ()}"

lemma port_more:
  assumes "kstate.more s' = kstate.more (s :: 'z port_state_scheme)"
  shows "port_magic s' = port_magic s" "port_bufs s' = port_bufs s" "wports s' = wports s" "rports s' = rports s"
    "write_port_list s' = write_port_list s" "rp_lists s' = rp_lists s" "group_lists s' = group_lists s"
    "port_results s' = port_results s"
  using assms by (cases s; cases s'; simp)+

lemma owns_cong:
  assumes "wports s' = wports s" "rports s' = rports s" "write_port_list s' = write_port_list s" "rp_lists s' = rp_lists s"
  shows "owns s' x b \<longleftrightarrow> owns s x b"
  using assms by (cases x) simp_all

lemma port_inv_cong:
  assumes "wports s' = wports s" "rports s' = rports s" "write_port_list s' = write_port_list s" "rp_lists s' = rp_lists s"
    "group_lists s' = group_lists s" "port_magic s' = port_magic s" "\<And>w. wq_magic (wqs s' w) = wq_magic (wqs s w)"
    "\<And>b x. owns s x b \<Longrightarrow> buf_ok (port_bufs s b) \<Longrightarrow> buf_ok (port_bufs s' b)" "port_inv s"
  shows "port_inv s'"
proof -
  have o: "owns s' x b \<longleftrightarrow> owns s x b" for x b by (rule owns_cong[OF assms(1-4)])
  have "wport_ok s' w = wport_ok s w" "rport_ok s' r w = rport_ok s r w" for w r
    using assms(1-7) by (simp_all add: wport_ok_def rport_ok_def)
  then show ?thesis using assms(8,9) o assms(1,3-5) unfolding port_inv_def by simp
qed

lemma kinv_port_fields [simp]:
  "kinv C (s\<lparr>port_magic := a\<rparr>) = kinv C s" "kinv C (s\<lparr>port_bufs := b\<rparr>) = kinv C s" "kinv C (s\<lparr>wports := d\<rparr>) = kinv C s"
  "kinv C (s\<lparr>rports := e\<rparr>) = kinv C s" "kinv C (s\<lparr>write_port_list := f\<rparr>) = kinv C s" "kinv C (s\<lparr>rp_lists := g\<rparr>) = kinv C s"
  "kinv C (s\<lparr>group_lists := h\<rparr>) = kinv C s" "kinv C (s\<lparr>port_results := i\<rparr>) = kinv C s"
  by (simp_all add: kinv_def sched_inv_def queue_inv_def bitmap_ok_def thread_inv_def cpu_inv_def preempt_inv_def)

lemma set_buf_sel [simp]:
  "kinv C (set_buf p b s) = kinv C s" "port_bufs (set_buf p b s) = (port_bufs s)(p := b)" "wports (set_buf p b s) = wports s"
  "rports (set_buf p b s) = rports s" "write_port_list (set_buf p b s) = write_port_list s" "rp_lists (set_buf p b s) = rp_lists s"
  "group_lists (set_buf p b s) = group_lists s" "port_magic (set_buf p b s) = port_magic s" "current (set_buf p b s) = current s"
  "threads (set_buf p b s) = threads s" "wqs (set_buf p b s) = wqs s" "queues (set_buf p b s) = queues s"
  "port_results (set_buf p b s) = port_results s" "kstack (set_buf p b s) = kstack s"
  by (simp_all add: set_buf_def)

lemma port_inv_set_buf: "port_inv s \<Longrightarrow> buf_ok b \<Longrightarrow> port_inv (set_buf p b s)"
  by (rule port_inv_cong[of _ s]) simp_all

section \<open>Waking readers\<close>

text \<open>What a wake without rescheduling leaves alone.\<close>

definition wake_frame :: "nat set \<Rightarrow> 'z port_state_scheme \<Rightarrow> 'z port_state_scheme \<Rightarrow> bool" where
  "wake_frame C s s' \<longleftrightarrow> kinv C s' \<and> kstate.more s' = kstate.more s \<and> current s' = current s \<and>
     (\<forall>w. wq_magic (wqs s' w) = wq_magic (wqs s w)) \<and> (\<forall>t. thread_is_idle (threads s' t) = thread_is_idle (threads s t))"

lemma wake_frame_trans: "wake_frame C a b \<Longrightarrow> wake_frame C b d \<Longrightarrow> wake_frame C a d"
  by (simp add: wake_frame_def)

lemma wake_frame_inv:
  assumes "wake_frame C s s'" "port_inv s"
  shows "port_inv s'"
proof -
  have m: "kstate.more s' = kstate.more s" and w: "wq_magic (wqs s' w) = wq_magic (wqs s w)" for w
    using assms(1) by (simp_all add: wake_frame_def)
  show ?thesis by (rule port_inv_cong[of s' s]) (simp_all add: port_more[OF m] w assms(2))
qed

lemma wake_one_frame:
  assumes inv: "kinv C s" "c \<in> C" and m: "wq_magic (wqs s w) = WAIT_QUEUE_MAGIC"
  shows "wp (wait_queue_wake_one c w False err s) (\<lambda>(r, s').
     r = Ret (if lcont (queues s) (WaitL w) = [] then 0 else 1) \<and> wake_frame C s s')"
proof (rule wp_mono[OF wake_one_wp[OF kinvD(1)[OF inv(1)] m]], simp, clarify)
  fix r s'
  assume a: "case lcont (queues s) (WaitL w) of [] \<Rightarrow> r = Ret 0 \<and> s' = s
      | t # ts \<Rightarrow> r = Ret 1 \<and> sched_inv C C {} s' \<and> (\<exists>s1. woken w err t s s1 \<and> s' = mp_reschedule c 0xFFFFFFFF 0 s1)"
  show "r = Ret (if lcont (queues s) (WaitL w) = [] then 0 else 1) \<and> wake_frame C s s'"
  proof (cases "lcont (queues s) (WaitL w)")
    case Nil
    with a inv show ?thesis by (simp add: wake_frame_def)
  next
    case (Cons t ts)
    with a obtain s1 where s1: "r = Ret 1" "sched_inv C C {} s'" "woken w err t s s1" "s' = mp_reschedule c 0xFFFFFFFF 0 s1" by auto
    have "kinv C s'"
      using acct_frame_kinv(2)[OF acct_frame_mp_reschedule woken_preempt[OF s1(3) kinvD(2)[OF inv(1)]]] s1(2,4)
      by (simp add: kinv_def)
    then show ?thesis
      using s1 Cons by (simp add: wake_frame_def woken_def base_frame_def mp_reschedule_def Let_def thread_is_idle_def)
  qed
qed

section \<open>Writing\<close>

text \<open>Is there room for \<open>count\<close> packets in the buffer of reader \<open>r\<close>?\<close>

definition room :: "nat \<Rightarrow> 'z port_state_scheme \<Rightarrow> nat \<Rightarrow> bool" where
  "room count s r \<longleftrightarrow>
     (let b = port_bufs s (rp_buf (rports s r)) in length (buf_cont b) + count \<le> 2 ^ pb_log2 b)"

lemma room_avail:
  assumes "buf_ok (port_bufs s (rp_buf (rports s r)))"
  shows "room count s r \<longleftrightarrow> count \<le> unat (pb_avail (port_bufs s (rp_buf (rports s r))))"
proof -
  let ?b = "port_bufs s (rp_buf (rports s r))"
  have "length (buf_cont ?b) \<le> 2 ^ pb_log2 ?b" by (rule pbuf.bounded[OF assms])
  then show ?thesis using buf_avail_used[OF assms] by (auto simp: room_def Let_def)
qed

text \<open>The reader \<open>r\<close> is woken, through its group or directly.\<close>

lemma wake_reader:
  assumes inv: "kinv C s" "c \<in> C" and r: "rport_ok s r w"
  shows "wp (if rp_gport (rports s r) \<noteq> 0
             then do { os \<leftarrow> wait_queue_wake_one c (WQ_pgroup (rp_gport (rports s r))) False NO_ERROR s; returned os }
             else Some (0, s))
    (\<lambda>(a, s1). wp (if a = 0 then do { os \<leftarrow> wait_queue_wake_one c (WQ_rport r) False NO_ERROR s1; returned os } else Some (a, s1))
       (\<lambda>(a', s'). 0 \<le> a' \<and> wake_frame C s s'))"
proof -
  have second: "wp (if a = 0 then do { os \<leftarrow> wait_queue_wake_one c (WQ_rport r) False NO_ERROR s1; returned os } else Some (a, s1))
       (\<lambda>(a', s'). 0 \<le> a' \<and> wake_frame C s s')" if f: "wake_frame C s s1" and a: "0 \<le> a" for a s1
  proof -
    have "wp (wait_queue_wake_one c (WQ_rport r) False NO_ERROR s1) (\<lambda>(x, s').
       x = Ret (if lcont (queues s1) (WaitL (WQ_rport r)) = [] then 0 else 1) \<and> wake_frame C s1 s')"
      by (rule wake_one_frame) (use f r inv(2) in \<open>auto simp: wake_frame_def rport_ok_def\<close>)
    then have "wp (wait_queue_wake_one c (WQ_rport r) False NO_ERROR s1) (\<lambda>os. wp (returned os)
       (\<lambda>(a', s'). 0 \<le> a' \<and> wake_frame C s s'))"
      by (rule wp_mono) (use wake_frame_trans[OF f] in \<open>auto simp: returned_def\<close>)
    then show ?thesis using f a by simp
  qed
  have refl: "wake_frame C s s" using inv by (simp add: wake_frame_def)
  show ?thesis
  proof (cases "rp_gport (rports s r) = 0")
    case True
    then show ?thesis using second[OF refl, of 0] by simp
  next
    case False
    have "wp (wait_queue_wake_one c (WQ_pgroup (rp_gport (rports s r))) False NO_ERROR s) (\<lambda>(x, s').
       x = Ret (if lcont (queues s) (WaitL (WQ_pgroup (rp_gport (rports s r)))) = [] then 0 else 1) \<and> wake_frame C s s')"
      by (rule wake_one_frame) (use False r inv in \<open>auto simp: rport_ok_def\<close>)
    then obtain n s1 where w: "wait_queue_wake_one c (WQ_pgroup (rp_gport (rports s r))) False NO_ERROR s = Some (Ret n, s1)"
        "0 \<le> n" "wake_frame C s s1" by (auto simp: wp_ex split: if_splits)
    show ?thesis using False w(1) second[OF w(3,2)] by (simp add: returned_def)
  qed
qed

text \<open>The effect of writing to the readers \<open>rps\<close>: each buffer with room gets the packets, and no
  buffer loses or reorders any.\<close>

definition written ::
  "nat set \<Rightarrow> nat list \<Rightarrow> port_packet list \<Rightarrow> nat \<Rightarrow> 'z port_state_scheme \<Rightarrow> 'z port_state_scheme \<Rightarrow> bool" where
  "written C rps pk count s s' \<longleftrightarrow> kinv C s' \<and> port_inv s' \<and>
     wports s' = wports s \<and> rports s' = rports s \<and> write_port_list s' = write_port_list s \<and> rp_lists s' = rp_lists s \<and>
     group_lists s' = group_lists s \<and> port_magic s' = port_magic s \<and> current s' = current s \<and>
     (\<forall>t. thread_is_idle (threads s' t) = thread_is_idle (threads s t)) \<and>
     (\<forall>x b. owns s x b \<longrightarrow> pb_log2 (port_bufs s' b) = pb_log2 (port_bufs s b) \<and>
        buf_cont (port_bufs s' b) = buf_cont (port_bufs s b) @
          (case x of Inl _ \<Rightarrow> [] | Inr r \<Rightarrow> if r \<in> set rps \<and> room count s r then take count pk else []))"

lemma owns_reader:
  assumes "port_inv s" "lon (rp_lists s) r = Some w"
  shows "owns s (Inr r) (rp_buf (rports s r))" "buf_ok (port_bufs s (rp_buf (rports s r)))" "rport_ok s r w"
proof -
  show "owns s (Inr r) (rp_buf (rports s r))" using assms(2) by simp
  then show "buf_ok (port_bufs s (rp_buf (rports s r)))" using assms(1) unfolding port_inv_def by blast
  show "rport_ok s r w" using assms unfolding port_inv_def by blast
qed

lemma written_refl: "kinv C s \<Longrightarrow> port_inv s \<Longrightarrow> written C [] pk count s s"
  by (simp add: written_def split: sum.splits)

lemma written_skip: "\<not> room count s r \<Longrightarrow> written C rps pk count s s' \<Longrightarrow> written C (r # rps) pk count s s'"
  unfolding written_def by (auto split: sum.splits)

text \<open>Writing to the first reader and waking somebody, then to the rest.\<close>

lemma written_first:
  assumes inv: "port_inv s" and r: "lon (rp_lists s) r = Some w" "r \<notin> set rps" "room count s r"
    and b: "buf_ok b" "pb_log2 b = pb_log2 (port_bufs s (rp_buf (rports s r)))"
      "buf_cont b = buf_cont (port_bufs s (rp_buf (rports s r))) @ take count pk"
    and s2: "wake_frame C (set_buf (rp_buf (rports s r)) b s) s2" and w: "written C rps pk count s2 s'"
  shows "written C (r # rps) pk count s s'"
    and "\<And>x. lon (rp_lists s) x \<noteq> None \<Longrightarrow> x \<noteq> r \<Longrightarrow> room count s2 x = room count s x"
proof -
  let ?p = "rp_buf (rports s r)" and ?s1 = "set_buf (rp_buf (rports s r)) b s"
  have m: "kstate.more s2 = kstate.more ?s1" and cur: "current s2 = current s"
    and idle: "\<And>t. thread_is_idle (threads s2 t) = thread_is_idle (threads s t)" using s2 by (auto simp: wake_frame_def)
  note pm = port_more[OF m]
  have inj: "x = Inr r" if "owns s x ?p" for x
    using that owns_reader(1)[OF inv r(1)] inv unfolding port_inv_def by blast
  have o: "owns s2 x q \<longleftrightarrow> owns s x q" for x q by (rule owns_cong) (simp_all add: pm)
  have bufs: "port_bufs s2 q = (if q = ?p then b else port_bufs s q)" for q by (simp add: pm)
  have other: "q \<noteq> ?p" if "owns s x q" "x \<noteq> Inr r" for x q using inj[of x] that by blast
  show rm: "room count s2 x = room count s x" if "lon (rp_lists s) x \<noteq> None" "x \<noteq> r" for x
  proof -
    have "rp_buf (rports s x) \<noteq> ?p" using other[of "Inr x" "rp_buf (rports s x)"] that by simp
    then show ?thesis by (simp add: room_def Let_def bufs pm)
  qed
  have "pb_log2 (port_bufs s' q) = pb_log2 (port_bufs s q) \<and> buf_cont (port_bufs s' q) = buf_cont (port_bufs s q) @
      (case x of Inl _ \<Rightarrow> [] | Inr y \<Rightarrow> if y \<in> set (r # rps) \<and> room count s y then take count pk else [])"
    if own: "owns s x q" for x q
  proof -
    have w': "pb_log2 (port_bufs s' q) = pb_log2 (port_bufs s2 q)" "buf_cont (port_bufs s' q) = buf_cont (port_bufs s2 q) @
        (case x of Inl _ \<Rightarrow> [] | Inr y \<Rightarrow> if y \<in> set rps \<and> room count s2 y then take count pk else [])"
      using w own o unfolding written_def by blast+
    show ?thesis
    proof (cases "x = Inr r")
      case True
      then have "q = ?p" using own by simp
      then show ?thesis using w' True b r(2,3) by (simp add: bufs)
    next
      case False
      then have "q \<noteq> ?p" using other own by blast
      moreover have "room count s2 y = room count s y" if "x = Inr y" for y using rm[of y] own that False by simp
      ultimately show ?thesis using w' False by (auto simp: bufs split: sum.splits)
    qed
  qed
  then show "written C (r # rps) pk count s s'" using w pm cur idle unfolding written_def by simp
qed

lemma port_write_loop_wp:
  assumes "kinv C s" "c \<in> C" "port_inv s" "\<And>r. r \<in> set rps \<Longrightarrow> lon (rp_lists s) r = Some w" "distinct rps"
    "count \<le> length pk"
  shows "wp (port_write_loop c rps pk count st aw s) (\<lambda>(st', aw', s'). written C rps pk count s s' \<and>
     st' = (if \<forall>r \<in> set rps. room count s r then st else ERR_PARTIAL_WRITE))"
  using assms
proof (induction rps arbitrary: s st aw)
  case Nil
  then show ?case by (simp add: written_refl)
next
  case (Cons r rps)
  have r: "lon (rp_lists s) r = Some w" "r \<notin> set rps" using Cons.prems by auto
  note own = owns_reader[OF Cons.prems(3) r(1)]
  have nz: "rp_buf (rports s r) \<noteq> 0" using own(3) by (simp add: rport_ok_def)
  let ?b = "port_bufs s (rp_buf (rports s r))"
  show ?case
  proof (cases "room count s r")
    case False
    then have "buf_write pk count ?b = Some (ERR_NOT_ENOUGH_BUFFER, ?b)"
      using buf_write_full room_avail[OF own(2)] by simp
    then have e: "port_write_loop c (r # rps) pk count st aw s = port_write_loop c rps pk count ERR_PARTIAL_WRITE aw s"
      using nz by simp
    have "wp (port_write_loop c rps pk count ERR_PARTIAL_WRITE aw s) (\<lambda>(st', aw', s'). written C rps pk count s s' \<and>
       st' = (if \<forall>r \<in> set rps. room count s r then ERR_PARTIAL_WRITE else ERR_PARTIAL_WRITE))"
      by (rule Cons.IH) (use Cons.prems in simp_all)
    then show ?thesis unfolding e by (rule wp_mono) (use False written_skip in auto)
  next
    case True
    then obtain b where b: "buf_write pk count ?b = Some (NO_ERROR, b)" "buf_ok b" "pb_log2 b = pb_log2 ?b"
        "buf_cont b = buf_cont ?b @ take count pk"
      using buf_write_ok[OF own(2) Cons.prems(6)] room_avail[OF own(2)] by blast
    let ?s1 = "set_buf (rp_buf (rports s r)) b s"
    have ok1: "rport_ok ?s1 r w" "kinv C ?s1" using own(3) Cons.prems(1) by (simp_all add: rport_ok_def)
    obtain a s1 where a: "(if rp_gport (rports ?s1 r) \<noteq> 0
             then do { os \<leftarrow> wait_queue_wake_one c (WQ_pgroup (rp_gport (rports ?s1 r))) False NO_ERROR ?s1; returned os }
             else Some (0, ?s1)) = Some (a, s1)"
        "wp (if a = 0 then do { os \<leftarrow> wait_queue_wake_one c (WQ_rport r) False NO_ERROR s1; returned os } else Some (a, s1))
           (\<lambda>(a', s'). 0 \<le> a' \<and> wake_frame C ?s1 s')"
      using wake_reader[OF ok1(2) Cons.prems(2) ok1(1)] by (auto simp: wp_ex)
    from a(2) obtain a' s2 where a': "(if a = 0 then do { os \<leftarrow> wait_queue_wake_one c (WQ_rport r) False NO_ERROR s1; returned os }
          else Some (a, s1)) = Some (a', s2)" "wake_frame C ?s1 s2" by (auto simp: wp_ex)
    have e: "port_write_loop c (r # rps) pk count st aw s = port_write_loop c rps pk count st (aw + a') s2"
      unfolding port_write_loop.simps b(1) using nz a(1) a'(1) by (simp add: Let_def del: set_buf_sel) 
    have m: "kstate.more s2 = kstate.more ?s1" using a'(2) by (simp add: wake_frame_def)
    have inv2: "port_inv s2" by (rule wake_frame_inv[OF a'(2) port_inv_set_buf[OF Cons.prems(3) b(2)]])
    have "wp (port_write_loop c rps pk count st (aw + a') s2) (\<lambda>(st', aw', s'). written C rps pk count s2 s' \<and>
       st' = (if \<forall>r \<in> set rps. room count s2 r then st else ERR_PARTIAL_WRITE))"
      by (rule Cons.IH) (use Cons.prems a'(2) inv2 port_more[OF m] in \<open>simp_all add: wake_frame_def\<close>)
    then show ?thesis unfolding e
    proof (rule wp_mono, clarify)
      fix st' aw' s'
      assume w: "written C rps pk count s2 s'"
      note f = written_first[OF Cons.prems(3) r True b(2-4) a'(2) w]
      have "room count s2 x = room count s x" if "x \<in> set rps" for x using f(2)[of x] Cons.prems(4,5) that by auto
      then show "written C (r # rps) pk count s s' \<and>
          (if \<forall>r \<in> set rps. room count s2 r then st else ERR_PARTIAL_WRITE) =
          (if \<forall>r \<in> set (r # rps). room count s r then st else ERR_PARTIAL_WRITE)"
        using f(1) True by simp
    qed
  qed
qed

text \<open>Giving the cpu away keeps the ports as they are.\<close>

lemma port_inv_resched:
  assumes "resched_frame s s'" "port_inv s"
  shows "port_inv s'"
proof -
  have m: "kstate.more s' = kstate.more s" "wqs s' = wqs s" using assms(1) by (simp_all add: resched_frame_def)
  show ?thesis by (rule port_inv_cong[of s' s]) (simp_all add: port_more[OF m(1)] m(2) assms(2))
qed

lemma port_inv_kstack: "port_inv (s\<lparr>kstack := k\<rparr>) = port_inv s"
proof
  show "port_inv (s\<lparr>kstack := k\<rparr>) \<Longrightarrow> port_inv s" by (rule port_inv_cong[of s "s\<lparr>kstack := k\<rparr>"]) simp_all
  show "port_inv s \<Longrightarrow> port_inv (s\<lparr>kstack := k\<rparr>)" by (rule port_inv_cong[of "s\<lparr>kstack := k\<rparr>" s]) simp_all
qed

definition with_status :: "tid \<Rightarrow> int \<Rightarrow> outcome \<times> 'z kstate_scheme \<Rightarrow> bool" where
  "with_status cur st os \<longleftrightarrow> (case os of (Ret v, s) \<Rightarrow> v = st | (Switched, s) \<Rightarrow> last (kstack s cur) = FR_const st)"

lemma yield_status_wp:
  assumes k: "kinv C s" "c \<in> C" and p: "port_inv s"
  shows "wp (Option.bind (thread_yield c s) (with_frame (current s c) (FR_const st) (\<lambda>_ s. Some (Ret st, s))))
     (\<lambda>os. with_status (current s c) st os \<and> kinv C (snd os) \<and> port_inv (snd os) \<and> kstate.more (snd os) = kstate.more s)"
proof -
  let ?s0 = "upd_thread (current s c) (\<lambda>th. th\<lparr>remaining_quantum := 0\<rparr>) s"
  obtain r s1 where r: "thread_yield c s = Some (r, s1)" "put_back_resched (\<lambda>t xs. xs @ [t]) C c ?s0 (r, s1)"
    using thread_yield_wp[OF k] by (auto simp: wp_ex)
  note q = put_back_kinv[OF r(2)]
  have f: "resched_frame s s1"
    using resched_frame_trans[of s ?s0 s1] q acct_frame_quantum[of s "current s c" "\<lambda>_. 0"] by (simp add: acct_frame_def)
  then have "port_inv s1" "kstate.more s1 = kstate.more s" using port_inv_resched p by (auto simp: resched_frame_def)
  with r(1) q show ?thesis
    by (cases r) (simp_all add: with_frame_def with_status_def port_inv_kstack)
qed

lemma port_write_wp:
  assumes k: "kinv C s" "c \<in> C" and p: "port_inv s" and w: "lon (write_port_list s) w = Some ()"
      "port_magic s w = WRITEPORT_MAGIC_W" and n: "count \<le> length pk"
  shows "wp (port_write c w (Some pk) count s) (\<lambda>os. kinv C (snd os) \<and> port_inv (snd os) \<and>
     (if wp_buf (wports s w) \<noteq> 0
      then let b = port_bufs s (wp_buf (wports s w)) in
        if length (buf_cont b) + count \<le> 2 ^ pb_log2 b
        then fst os = Ret NO_ERROR \<and> buf_cont (port_bufs (snd os) (wp_buf (wports s w))) = buf_cont b @ take count pk
        else os = (Ret ERR_NOT_ENOUGH_BUFFER, s)
      else with_status (current s c) (if \<forall>r \<in> set (lcont (rp_lists s) w). room count s r then NO_ERROR else ERR_PARTIAL_WRITE) os \<and>
        (\<forall>x b. owns s x b \<longrightarrow> buf_cont (port_bufs (snd os) b) = buf_cont (port_bufs s b) @
           (case x of Inl _ \<Rightarrow> [] | Inr r \<Rightarrow>
              if r \<in> set (lcont (rp_lists s) w) \<and> room count s r then take count pk else []))))"
proof -
  have nz: "w \<noteq> 0" using p w unfolding port_inv_def wport_ok_def by blast
  show ?thesis
  proof (cases "wp_buf (wports s w) = 0")
    case False
    let ?b = "port_bufs s (wp_buf (wports s w))"
    have "owns s (Inl w) (wp_buf (wports s w))" using w(1) False by simp
    then have ok: "buf_ok ?b" using p unfolding port_inv_def by blast
    have av: "count \<le> unat (pb_avail ?b) \<longleftrightarrow> length (buf_cont ?b) + count \<le> 2 ^ pb_log2 ?b"
      using buf_avail_used[OF ok] pbuf.bounded[OF ok] by auto
    show ?thesis
    proof (cases "count \<le> unat (pb_avail ?b)")
      case True
      then obtain b where b: "buf_write pk count ?b = Some (NO_ERROR, b)" "buf_ok b" "buf_cont b = buf_cont ?b @ take count pk"
        using buf_write_ok[OF ok n] by blast
      then show ?thesis using nz w False True av k p port_inv_set_buf[OF p b(2)]
        by (simp add: port_write_def Let_def)
    next
      case full: False
      have "set_buf (wp_buf (wports s w)) ?b s = s" by (simp add: set_buf_def)
      then show ?thesis using nz w False full av k p by (simp add: port_write_def buf_write_full Let_def)
    qed
  next
    case True
    let ?rps = "lcont (rp_lists s) w"
    have ls: "ls_ok (rp_lists s)" using p by (simp add: port_inv_def)
    have l: "wp (port_write_loop c ?rps pk count NO_ERROR 0 s) (\<lambda>(st', aw', s'). written C ?rps pk count s s' \<and>
       st' = (if \<forall>r \<in> set ?rps. room count s r then NO_ERROR else ERR_PARTIAL_WRITE))"
      by (rule port_write_loop_wp[OF k p _ _ n, where w = w]) (use ls_ok_mem[OF ls] ls_ok_distinct[OF ls] in \<open>auto\<close>)
    then obtain st aw s1 where s1: "port_write_loop c ?rps pk count NO_ERROR 0 s = Some (st, aw, s1)"
        "written C ?rps pk count s s1" "st = (if \<forall>r \<in> set ?rps. room count s r then NO_ERROR else ERR_PARTIAL_WRITE)"
      by (auto simp: wp_ex)
    have e: "port_write c w (Some pk) count s = (if aw \<noteq> 0
        then Option.bind (thread_yield c s1) (with_frame (current s1 c) (FR_const st) (\<lambda>_ s. Some (Ret st, s)))
        else Some (Ret st, s1))"
      using nz w True s1(1) by (simp add: port_write_def)
    have k1: "kinv C s1" "port_inv s1" "current s1 = current s" using s1(2) by (auto simp: written_def)
    have "wp (port_write c w (Some pk) count s) (\<lambda>os. with_status (current s c) st os \<and> kinv C (snd os) \<and>
        port_inv (snd os) \<and> port_bufs (snd os) = port_bufs s1)"
    proof (cases "aw = 0")
      case True
      then show ?thesis unfolding e using k1 by (simp add: with_status_def)
    next
      case False
      then have e': "port_write c w (Some pk) count s =
          Option.bind (thread_yield c s1) (with_frame (current s1 c) (FR_const st) (\<lambda>_ s. Some (Ret st, s)))"
        using e by simp
      show ?thesis unfolding e'
        by (rule wp_mono[OF yield_status_wp[OF k1(1) k(2) k1(2)]]) (use k1(3) port_more(2) in \<open>auto\<close>)
    qed
    moreover have "\<forall>x b. owns s x b \<longrightarrow> buf_cont (port_bufs s1 b) = buf_cont (port_bufs s b) @
           (case x of Inl _ \<Rightarrow> [] | Inr r \<Rightarrow> if r \<in> set ?rps \<and> room count s r then take count pk else [])"
      using s1(2) unfolding written_def by blast
    ultimately show ?thesis unfolding s1(3)[symmetric] by - (erule wp_mono, simp add: True)
  qed
qed

section \<open>Reading\<close>

lemma read_buf_wp:
  assumes p: "port_inv s" and r: "lon (rp_lists s) r = Some w"
  shows "wp (read_buf r result s) (\<lambda>(st, s'). port_inv s' \<and>
     (\<exists>b v. buf_ok b \<and> s' = (set_buf (rp_buf (rports s r)) b s)\<lparr>port_results := (port_results s)(result := (rp_ctx (rports s r), v))\<rparr> \<and>
       (case buf_cont (port_bufs s (rp_buf (rports s r))) of
          [] \<Rightarrow> st = ERR_NO_MSG \<and> b = port_bufs s (rp_buf (rports s r))
        | x # ys \<Rightarrow> st = NO_ERROR \<and> v = x \<and> buf_cont b = ys)))"
proof -
  let ?p = "rp_buf (rports s r)" and ?b = "port_bufs s (rp_buf (rports s r))"
  note own = owns_reader[OF p r]
  have nz: "?p \<noteq> 0" using own(3) by (simp add: rport_ok_def)
  have inv: "port_inv ((set_buf ?p b s)\<lparr>port_results := x\<rparr>)" if "buf_ok b" for b x
    by (rule port_inv_cong[OF _ _ _ _ _ _ _ _ port_inv_set_buf[OF p that, of ?p]]) simp_all
  show ?thesis
  proof (cases "buf_cont ?b")
    case Nil
    then have "buf_read ?b = Some (ERR_NO_MSG, None, ?b)"
      using buf_is_empty_iff[OF own(2)] by (simp add: buf_read_def)
    then show ?thesis using nz Nil inv[OF own(2)] own(2) by (auto simp: read_buf_def)
  next
    case (Cons x ys)
    then obtain b where "buf_read ?b = Some (NO_ERROR, Some x, b)" "buf_ok b" "buf_cont b = ys"
      using buf_read_ok[OF own(2)] by blast
    then show ?thesis using nz Cons inv by (auto simp: read_buf_def)
  qed
qed

lemma blocked_port_inv:
  assumes "blocked_post C c w timeout s s'" "port_inv s"
  shows "port_inv s'"
proof -
  have m: "kstate.more s' = kstate.more s" using assms(1) by (simp add: blocked_post_def base_frame_def)
  have w: "wq_magic (wqs s' v) = wq_magic (wqs s v)" for v using assms(1) by (simp add: blocked_post_def Let_def)
  show ?thesis by (rule port_inv_cong[of s' s]) (simp_all add: port_more[OF m] w assms(2))
qed

lemma port_read_wp:
  assumes k: "kinv C s" "c \<in> C" "\<not> thread_is_idle (threads s (current s c))" and p: "port_inv s"
    and r: "lon (rp_lists s) r = Some w" and res: "result \<noteq> 0"
    and un: "timeout \<noteq> INFINITE_TIME \<Longrightarrow> lon (tqueue s) (TM_stack (current s c)) = None"
  shows "wp (port_read c r timeout result s) (\<lambda>(out, s'). kinv C s' \<and> port_inv s' \<and>
     (case buf_cont (port_bufs s (rp_buf (rports s r))) of
        x # ys \<Rightarrow> out = Ret NO_ERROR \<and> port_results s' result = (rp_ctx (rports s r), x) \<and>
          (\<forall>d b. owns s d b \<longrightarrow> buf_cont (port_bufs s' b) = (if d = Inr r then ys else buf_cont (port_bufs s b)))
      | [] \<Rightarrow> port_bufs s' = port_bufs s \<and>
          (if timeout = 0 then out = Ret ERR_TIMED_OUT
           else out = Switched \<and> state (threads s' (current s c)) = THREAD_BLOCKED \<and>
             lcont (queues s') (WaitL (WQ_rport r)) = lcont (queues s) (WaitL (WQ_rport r)) @ [current s c] \<and>
             kstack s' (current s c) = kstack s (current s c) @ [FR_block timeout, FR_port_read r timeout result])))"
proof -
  let ?p = "rp_buf (rports s r)" and ?b = "port_bufs s (rp_buf (rports s r))"
  note own = owns_reader[OF p r]
  have mg: "r \<noteq> 0" "port_magic s r = READPORT_MAGIC" "wq_magic (wqs s (WQ_rport r)) = WAIT_QUEUE_MAGIC"
    using own(3) by (simp_all add: rport_ok_def)
  then have e: "port_read c r timeout result s = read_no_lock c r timeout result s" using res by (simp add: port_read_def)
  obtain st b v where rb: "read_buf r result s = Some (st, (set_buf ?p b s)\<lparr>port_results := (port_results s)(result := (rp_ctx (rports s r), v))\<rparr>)"
      "port_inv ((set_buf ?p b s)\<lparr>port_results := (port_results s)(result := (rp_ctx (rports s r), v))\<rparr>)"
      "case buf_cont ?b of [] \<Rightarrow> st = ERR_NO_MSG \<and> b = ?b | x # ys \<Rightarrow> st = NO_ERROR \<and> v = x \<and> buf_cont b = ys"
    using read_buf_wp[OF p r, of result] by (auto simp: wp_ex)
  define s1 where "s1 = (set_buf ?p b s)\<lparr>port_results := (port_results s)(result := (rp_ctx (rports s r), v))\<rparr>"
  have sel: "kinv C s1" "current s1 = current s" "threads s1 = threads s" "wqs s1 = wqs s" "tqueue s1 = tqueue s"
    "queues s1 = queues s" "kstack s1 = kstack s" "port_bufs s1 = (port_bufs s)(?p := b)"
    "port_results s1 result = (rp_ctx (rports s r), v)"
    using k by (simp_all add: s1_def) (simp_all add: set_buf_def)
  note rb' = rb(1,2)[folded s1_def]
  show ?thesis
  proof (cases "buf_cont ?b")
    case (Cons x ys)
    have "d = Inr r \<longleftrightarrow> q = ?p" if "owns s d q" for d q
      using that own(1) p unfolding port_inv_def by fastforce
    then show ?thesis using rb(3) rb' Cons sel unfolding e
      by (subst read_no_lock.simps) auto
  next
    case Nil
    then have st: "st = ERR_NO_MSG" "port_bufs s1 = port_bufs s" using rb(3) sel by auto
    show ?thesis
    proof (cases "timeout = 0")
      case True
      then show ?thesis using rb' st Nil sel unfolding e by (subst read_no_lock.simps) simp
    next
      case False
      have "wp (wait_queue_block c (WQ_rport r) timeout s1) (\<lambda>(r', s'). r' = Switched \<and> blocked_post C c (WQ_rport r) timeout s1 s')"
        by (rule wait_queue_block_wp) (use k mg False un sel in simp_all)
      then obtain s2 where b2: "wait_queue_block c (WQ_rport r) timeout s1 = Some (Switched, s2)"
          "blocked_post C c (WQ_rport r) timeout s1 s2" by (auto simp: wp_ex)
      have "port_bufs s2 = port_bufs s1"
        by (rule port_more(2)) (use b2(2) in \<open>simp add: blocked_post_def base_frame_def\<close>)
      then show ?thesis using rb' st Nil False b2 sel blocked_port_inv[OF b2(2) rb'(2)] unfolding e
        by (subst read_no_lock.simps) (auto simp: blocked_post_def Let_def port_inv_kstack)
    qed
  qed
qed

section \<open>Creating and opening\<close>

text \<open>Addresses that the allocator hands out are not in use.\<close>

definition fresh_port :: "nat \<Rightarrow> 'z port_state_scheme \<Rightarrow> bool" where
  "fresh_port a s \<longleftrightarrow> a \<noteq> 0 \<and> lon (write_port_list s) a = None \<and> lon (rp_lists s) a = None \<and> lcont (rp_lists s) a = []"

definition fresh_buf :: "nat \<Rightarrow> 'z port_state_scheme \<Rightarrow> bool" where
  "fresh_buf a s \<longleftrightarrow> a \<noteq> 0 \<and> (\<forall>x. \<not> owns s x a)"

lemma find_wport:
  assumes "ls_ok (write_port_list s)"
  shows "List.find P (lcont (write_port_list s) ()) = None \<longleftrightarrow> (\<forall>w. lon (write_port_list s) w = Some () \<longrightarrow> \<not> P w)"
    and "List.find P (lcont (write_port_list s) ()) = Some w \<Longrightarrow> lon (write_port_list s) w = Some () \<and> P w"
  using ls_ok_mem[OF assms, where h = "()", symmetric] by (auto simp: find_None_iff find_Some_iff)

lemma port_inv_agree:
  assumes p: "port_inv s" and l: "write_port_list s' = write_port_list s" "rp_lists s' = rp_lists s" "ls_ok (group_lists s')"
    and w: "\<And>w. lon (write_port_list s) w = Some () \<Longrightarrow> wports s' w = wports s w \<and> port_magic s' w = port_magic s w"
    and r: "\<And>r w. lon (rp_lists s) r = Some w \<Longrightarrow> rports s' r = rports s r \<and> port_magic s' r = port_magic s r \<and>
        wq_magic (wqs s' (WQ_rport r)) = wq_magic (wqs s (WQ_rport r))"
    and g: "\<And>g. wq_magic (wqs s' (WQ_pgroup g)) = wq_magic (wqs s (WQ_pgroup g))"
    and b: "\<And>x b. owns s x b \<Longrightarrow> port_bufs s' b = port_bufs s b"
  shows "port_inv s'"
proof -
  have o: "owns s' x b \<longleftrightarrow> owns s x b" for x b
    using w r l by (cases x) auto
  have wo: "wport_ok s' v" if "lon (write_port_list s) v = Some ()" for v
    using that p w[OF that] l unfolding port_inv_def wport_ok_def by simp
  have ro: "rport_ok s' v u" if "lon (rp_lists s) v = Some u" for v u
    using that p r[OF that] l g unfolding port_inv_def rport_ok_def by simp
  have "inj_on (\<lambda>w. wp_name (wports s' w)) {w. lon (write_port_list s) w = Some ()}"
    using p w by (simp add: port_inv_def inj_on_def)
  moreover have "buf_ok (port_bufs s' b)" if "owns s x b" for x b using p b[OF that] that unfolding port_inv_def by simp
  ultimately show ?thesis using p l o wo ro unfolding port_inv_def by simp
qed

lemma ls_reset_empty:
  assumes "ls_ok q" "lcont q h = []"
  shows "ls_reset h q = q"
proof -
  have "lon q n \<noteq> Some h" for n using ls_ok_mem[OF assms(1), of n h] assms(2) by simp
  then have "(\<lambda>n. if lon q n = Some h then None else lon q n) = lon q" "(lcont q)(h := []) = lcont q" using assms(2) by auto
  then show ?thesis by (simp add: ls_reset_def)
qed

text \<open>A new write port, with an empty buffer of its own.\<close>

lemma port_inv_add_wport:
  assumes p: "port_inv s" and f: "fresh_port w s" "fresh_buf bufp s"
    and q: "ls_add_tail () w (write_port_list s) = Some q"
    and n: "\<And>v. lon (write_port_list s) v = Some () \<Longrightarrow> wp_name (wports s v) \<noteq> name"
    and s': "write_port_list s' = q" "rp_lists s' = rp_lists s" "group_lists s' = group_lists s" "rports s' = rports s"
      "wports s' = (wports s)(w := \<lparr>wp_buf = bufp, wp_mode = mode, wp_name = name\<rparr>)"
      "port_magic s' = (port_magic s)(w := WRITEPORT_MAGIC_W)" "port_bufs s' = (port_bufs s)(bufp := b)" "wqs s' = wqs s"
    and b: "buf_ok b"
  shows "port_inv s'" and "\<And>v. lon q v = (if v = w then Some () else lon (write_port_list s) v)"
proof -
  have ok: "ls_ok (write_port_list s)" and un: "lon (write_port_list s) w = None" using p f by (auto simp: port_inv_def fresh_port_def)
  have qe: "q = ls_put () (lcont (write_port_list s) () @ [w]) w (Some ()) (write_port_list s)"
    using q by (auto simp: ls_add_tail_def split: if_splits)
  show lq: "lon q v = (if v = w then Some () else lon (write_port_list s) v)" for v by (simp add: qe)
  have okq: "ls_ok q" unfolding qe by (rule ls_put_link_ok[OF ok un]) (use ls_ok_distinct[OF ok] ls_ok_mem[OF ok, of w] un in auto)
  have o: "owns s' x d \<longleftrightarrow> owns s x d \<or> x = Inl w \<and> d = bufp" for x d
    using f un by (cases x) (auto simp: s' lq fresh_buf_def)
  have nb: "d \<noteq> bufp" if "owns s x d" for x d using f(2) that by (auto simp: fresh_buf_def)
  have rw: "r \<noteq> w" if "lon (rp_lists s) r = Some v" for r v using f(1) that by (auto simp: fresh_port_def)
  have wo: "wport_ok s' v" if "lon q v = Some ()" for v
    using that p f un unfolding port_inv_def wport_ok_def fresh_port_def fresh_buf_def by (simp add: s' lq split: if_splits)
  have ro: "rport_ok s' r v" if "lon (rp_lists s) r = Some v" for r v
    using that p rw[OF that] unfolding port_inv_def rport_ok_def by (simp add: s' lq)
  have bo: "buf_ok (port_bufs s' d)" if "owns s' x d" for x d
    using that nb p b unfolding o s' port_inv_def by (auto simp: fun_upd_def)
  have inj: "x = y" if "owns s' x d" "owns s' y d" for x y d
    using that nb p unfolding o port_inv_def by blast
  have "inj_on (\<lambda>v. wp_name (wports s' v)) {v. lon q v = Some ()}"
  proof (rule inj_onI)
    fix x y assume "x \<in> {v. lon q v = Some ()}" "y \<in> {v. lon q v = Some ()}" "wp_name (wports s' x) = wp_name (wports s' y)"
    then show "x = y" using p n unfolding port_inv_def inj_on_def by (auto simp: lq s' split: if_splits)
  qed
  then show "port_inv s'" using p okq wo ro bo inj unfolding port_inv_def s' by blast
qed

text \<open>A new reader \<open>r\<close> of \<open>w\<close>: the first one takes over the buffer of the write port, a later one
  brings its own.\<close>

lemma port_inv_add_reader:
  assumes p: "port_inv s" and w: "lon (write_port_list s) w = Some ()" and r: "fresh_port r s"
    and q: "ls_add_tail w r (rp_lists s) = Some q"
    and b: "if wp_buf (wports s w) \<noteq> 0 then bufp = wp_buf (wports s w) else fresh_buf bufp s \<and> buf_ok (port_bufs s bufp)"
    and s': "write_port_list s' = write_port_list s" "rp_lists s' = q" "group_lists s' = group_lists s"
      "rports s' = (rports s)(r := \<lparr>rp_buf = bufp, rp_ctx = ctx, rp_wport = w, rp_gport = 0\<rparr>)"
      "wports s' = (wports s)(w := (wports s w)\<lparr>wp_buf := 0\<rparr>)"
      "port_magic s' = (port_magic s)(r := READPORT_MAGIC)" "port_bufs s' = port_bufs s"
      "wq_magic (wqs s' (WQ_rport r)) = WAIT_QUEUE_MAGIC" "\<And>v. v \<noteq> WQ_rport r \<Longrightarrow> wqs s' v = wqs s v"
  shows "port_inv s'" and "lcont q = (lcont (rp_lists s))(w := lcont (rp_lists s) w @ [r])"
    and "\<And>v. lon q v = (if v = r then Some w else lon (rp_lists s) v)"
proof -
  have ok: "ls_ok (rp_lists s)" and un: "lon (rp_lists s) r = None" using p r by (auto simp: port_inv_def fresh_port_def)
  have qe: "q = ls_put w (lcont (rp_lists s) w @ [r]) r (Some w) (rp_lists s)"
    using q by (auto simp: ls_add_tail_def split: if_splits)
  show lc: "lcont q = (lcont (rp_lists s))(w := lcont (rp_lists s) w @ [r])" unfolding qe by simp
  show lq: "lon q v = (if v = r then Some w else lon (rp_lists s) v)" for v unfolding qe by simp
  have okq: "ls_ok q" unfolding qe by (rule ls_put_link_ok[OF ok un]) (use ls_ok_distinct[OF ok, of w] ls_ok_mem[OF ok, of r w] un in auto)
  have rw: "v \<noteq> r" if "lon (write_port_list s) v = Some ()" for v using r that by (auto simp: fresh_port_def)
  have o: "owns s' x d \<longleftrightarrow> (owns s x d \<and> x \<noteq> Inl w) \<or> x = Inr r \<and> d = bufp" for x d
    using un by (cases x) (auto simp: s' lq)
  have bo0: "owns s x d \<Longrightarrow> buf_ok (port_bufs s d)" and inj0: "owns s x d \<Longrightarrow> owns s y d \<Longrightarrow> x = y" for x y d
    using p unfolding port_inv_def by blast+
  have ob: "x = Inl w" if "owns s x bufp" for x
  proof (cases "wp_buf (wports s w) \<noteq> 0")
    case True
    then have "owns s (Inl w) bufp" using b w by simp
    with that show ?thesis by (rule inj0)
  next
    case False
    then show ?thesis using b that by (simp add: fresh_buf_def)
  qed
  have bb: "bufp \<noteq> 0" "buf_ok (port_bufs s bufp)"
  proof -
    show "bufp \<noteq> 0" using b by (auto simp: fresh_buf_def split: if_splits)
    have "owns s (Inl w) bufp \<or> buf_ok (port_bufs s bufp)" using b w by (auto split: if_splits)
    then show "buf_ok (port_bufs s bufp)" using bo0 by blast
  qed
  have wo: "wport_ok s' v" if "lon (write_port_list s) v = Some ()" for v
    using that rw[OF that] p unfolding port_inv_def wport_ok_def by (simp add: s' lc)
  have ro: "rport_ok s' v u" if "lon q v = Some u" for v u
  proof (cases "v = r")
    case True
    then have "u = w" using that lq by simp
    then show ?thesis using True w r bb(1) s'(8) by (simp add: rport_ok_def fresh_port_def s'(1-7))
  next
    case False
    then have l: "lon (rp_lists s) v = Some u" using that lq by simp
    then have "rport_ok s v u" using p unfolding port_inv_def by blast
    then show ?thesis using False s'(9) by (simp add: rport_ok_def s'(1-7))
  qed
  have bo: "buf_ok (port_bufs s' d)" if "owns s' x d" for x d
    using that bo0[of x d] bb(2) unfolding o s'(7) by auto
  have inj: "x = y" if "owns s' x d" "owns s' y d" for x y d
    using that ob[of x] ob[of y] inj0[of x d y] unfolding o by auto
  have "inj_on (\<lambda>v. wp_name (wports s' v)) {v. lon (write_port_list s) v = Some ()}"
  proof -
    have "(\<lambda>v. wp_name (wports s' v)) = (\<lambda>v. wp_name (wports s v))" by (auto simp: s'(5))
    then show ?thesis using p by (simp add: port_inv_def)
  qed
  then show "port_inv s'" using p okq wo ro bo inj unfolding port_inv_def s'(1-3) by simp
qed

lemma port_create_wp:
  assumes p: "port_inv s" and f: "fresh_port w s" "fresh_buf bufp s" and n: "length name < PORT_NAME_LEN"
  shows "wp (port_create (Some name) mode True w bufp s) (\<lambda>(st, h, s'). port_inv s' \<and>
     (if \<exists>v. lon (write_port_list s) v = Some () \<and> wp_name (wports s v) = name
      then s' = s \<and> (\<exists>v. lon (write_port_list s) v = Some () \<and> wp_name (wports s v) = name \<and>
             (if port_magic s v = WRITEPORT_MAGIC_X then st = ERR_BUSY \<and> h = None else st = ERR_ALREADY_EXISTS \<and> h = Some v))
      else st = NO_ERROR \<and> h = Some w \<and> lon (write_port_list s') w = Some () \<and>
        wports s' w = \<lparr>wp_buf = bufp, wp_mode = mode, wp_name = name\<rparr> \<and>
        buf_cont (port_bufs s' bufp) = [] \<and> pb_log2 (port_bufs s' bufp) = (if mode AND PORT_MODE_BIG_BUFFER \<noteq> 0 then 9 else 3)))"
proof -
  have ok: "ls_ok (write_port_list s)" "ls_ok (rp_lists s)" using p by (simp_all add: port_inv_def)
  have nz: "w \<noteq> 0" "bufp \<noteq> 0" using f by (simp_all add: fresh_port_def fresh_buf_def)
  show ?thesis
  proof (cases "List.find (\<lambda>p. wp_name (wports s p) = name) (lcont (write_port_list s) ())")
    case (Some v)
    note v = find_wport(2)[OF ok(1) Some]
    then show ?thesis using Some n p nz by (auto simp: port_create_def)
  next
    case None
    then have nn: "\<And>v. lon (write_port_list s) v = Some () \<Longrightarrow> wp_name (wports s v) \<noteq> name"
      using find_wport(1)[OF ok(1), of "\<lambda>p. wp_name (wports s p) = name"] by simp
    have "\<not> ls_in_list w (write_port_list s)" using f(1) by (simp add: fresh_port_def ls_in_list_def)
    then obtain q where q: "ls_add_tail () w (write_port_list s) = Some q" by (simp add: ls_add_tail_def)
    let ?b = "make_buf (mode AND PORT_MODE_BIG_BUFFER \<noteq> 0)"
    let ?s1 = "set_buf bufp ?b (set_magic w WRITEPORT_MAGIC_W s)"
    define s' where "s' = ?s1\<lparr>wports := (wports ?s1)(w := \<lparr>wp_buf = bufp, wp_mode = mode, wp_name = name\<rparr>),
        rp_lists := ls_reset w (rp_lists ?s1), write_port_list := q\<rparr>"
    have e: "port_create (Some name) mode True w bufp s = Some (NO_ERROR, Some w, s')"
      using None n nz q by (simp add: port_create_def s'_def Let_def del: set_buf_sel)
    have rl: "ls_reset w (rp_lists s) = rp_lists s" by (rule ls_reset_empty[OF ok(2)]) (use f(1) in \<open>simp add: fresh_port_def\<close>)
    have inv: "port_inv s'" "lon q w = Some ()"
      using port_inv_add_wport[OF p f q nn, of s' mode ?b] make_buf_ok rl by (simp_all add: s'_def set_magic_def)
    have "\<not> (\<exists>v. lon (write_port_list s) v = Some () \<and> wp_name (wports s v) = name)" using nn by blast
    then show ?thesis unfolding e using inv make_buf_ok[of "mode AND PORT_MODE_BIG_BUFFER \<noteq> 0"] by (simp add: s'_def)
  qed
qed

lemma free_sel [simp]:
  "wports (free a s) = wports s" "rports (free a s) = rports s" "port_bufs (free a s) = port_bufs s" "port_magic (free a s) = port_magic s"
  "write_port_list (free a s) = write_port_list s" "rp_lists (free a s) = rp_lists s" "group_lists (free a s) = group_lists s"
  "wqs (free a s) = wqs s" "queues (free a s) = queues s"
  by (simp_all add: free_def)

lemma port_inv_free [simp]: "port_inv (free a s) = port_inv s"
proof
  show "port_inv (free a s) \<Longrightarrow> port_inv s" by (rule port_inv_cong[of s "free a s"]) simp_all
  show "port_inv s \<Longrightarrow> port_inv (free a s)" by (rule port_inv_cong[of "free a s" s]) simp_all
qed

text \<open>What \<open>port_open\<close> has done before it looks for the write port.\<close>

definition open_prepared :: "nat \<Rightarrow> nat \<Rightarrow> nat \<Rightarrow> 'z port_state_scheme \<Rightarrow> 'z port_state_scheme" where
  "open_prepared r ctx bufp s = (set_buf bufp (make_buf False) ((set_magic r READPORT_MAGIC s)\<lparr>rports := (rports s)
      (r := \<lparr>rp_buf = 0, rp_ctx = ctx, rp_wport = 0, rp_gport = 0\<rparr>)\<rparr>))
      \<lparr>wqs := (wqs s)(WQ_rport r := \<lparr>wq_magic = WAIT_QUEUE_MAGIC, wq_count = 0\<rparr>)\<rparr>"

lemma open_prepared_sel:
  "wports (open_prepared r ctx bufp s) = wports s"
  "rports (open_prepared r ctx bufp s) = (rports s)(r := \<lparr>rp_buf = 0, rp_ctx = ctx, rp_wport = 0, rp_gport = 0\<rparr>)"
  "write_port_list (open_prepared r ctx bufp s) = write_port_list s" "rp_lists (open_prepared r ctx bufp s) = rp_lists s"
  "group_lists (open_prepared r ctx bufp s) = group_lists s"
  "port_magic (open_prepared r ctx bufp s) = (port_magic s)(r := READPORT_MAGIC)"
  "port_bufs (open_prepared r ctx bufp s) = (port_bufs s)(bufp := make_buf False)"
  "wqs (open_prepared r ctx bufp s) = (wqs s)(WQ_rport r := \<lparr>wq_magic = WAIT_QUEUE_MAGIC, wq_count = 0\<rparr>)"
  by (simp_all add: open_prepared_def set_buf_def set_magic_def)

lemma open_prepared_inv:
  assumes p: "port_inv s" and f: "fresh_port r s" "fresh_buf bufp s"
  shows "port_inv (open_prepared r ctx bufp s)" "fresh_port r (open_prepared r ctx bufp s)" "fresh_buf bufp (open_prepared r ctx bufp s)"
proof -
  have rw: "v \<noteq> r" if "lon (write_port_list s) v = Some () \<or> lon (rp_lists s) v = Some u" for v u
    using f(1) that by (auto simp: fresh_port_def)
  show "port_inv (open_prepared r ctx bufp s)"
    by (rule port_inv_agree[OF p]) (use p f rw in \<open>auto simp: open_prepared_sel port_inv_def fresh_buf_def\<close>)
  show "fresh_port r (open_prepared r ctx bufp s)" using f(1) by (simp add: fresh_port_def open_prepared_sel)
  have "owns (open_prepared r ctx bufp s) x b \<longleftrightarrow> owns s x b" for x b
    using f(1) by (cases x) (auto simp: open_prepared_sel fresh_port_def)
  then show "fresh_buf bufp (open_prepared r ctx bufp s)" using f(2) by (simp add: fresh_buf_def)
qed

lemma port_open_wp:
  assumes p: "port_inv s" and f: "fresh_port r s" "fresh_buf bufp s" and q: "lcont (queues s) (WaitL (WQ_rport r)) = []"
  shows "wp (port_open (Some name) ctx True r bufp s) (\<lambda>(st, h, s'). port_inv s' \<and>
     (\<forall>x b. owns s x b \<longrightarrow> port_bufs s' b = port_bufs s b) \<and>
     (case List.find (\<lambda>p. wp_name (wports s p) = name) (lcont (write_port_list s) ()) of
        None \<Rightarrow> st = ERR_NOT_FOUND \<and> h = None \<and> rp_lists s' = rp_lists s
      | Some w \<Rightarrow>
          if wp_buf (wports s w) = 0 \<and> wp_mode (wports s w) AND PORT_MODE_UNICAST \<noteq> 0
          then st = ERR_NOT_ALLOWED \<and> h = None \<and> rp_lists s' = rp_lists s
          else st = NO_ERROR \<and> h = Some r \<and> lcont (rp_lists s') w = lcont (rp_lists s) w @ [r] \<and>
            (if wp_buf (wports s w) \<noteq> 0 then rp_buf (rports s' r) = wp_buf (wports s w)
             else buf_cont (port_bufs s' (rp_buf (rports s' r))) = [])))"
proof -
  let ?s1 = "open_prepared r ctx bufp s"
  have nz: "r \<noteq> 0" "bufp \<noteq> 0" using f by (simp_all add: fresh_port_def fresh_buf_def)
  note i1 = open_prepared_inv[OF p f, of ctx]
  have init: "wait_queue_init (WQ_rport r) ((set_magic r READPORT_MAGIC s)\<lparr>rports := (rports s)
        (r := \<lparr>rp_buf = 0, rp_ctx = ctx, rp_wport = 0, rp_gport = 0\<rparr>)\<rparr>) = Some s0 \<Longrightarrow> set_buf bufp (make_buf False) s0 = ?s1"
    and ex: "\<exists>s0. wait_queue_init (WQ_rport r) ((set_magic r READPORT_MAGIC s)\<lparr>rports := (rports s)
        (r := \<lparr>rp_buf = 0, rp_ctx = ctx, rp_wport = 0, rp_gport = 0\<rparr>)\<rparr>) = Some s0" for s0
    using q by (auto simp: wait_queue_init_def open_prepared_def set_magic_def set_buf_def ls_is_empty_def)
  have ok: "ls_ok (write_port_list s)" using p by (simp add: port_inv_def)
  have fb: "d \<noteq> bufp" if "owns s x d" for x d using f(2) that by (auto simp: fresh_buf_def)
  obtain s0 where s0: "wait_queue_init (WQ_rport r) ((set_magic r READPORT_MAGIC s)\<lparr>rports := (rports s)
        (r := \<lparr>rp_buf = 0, rp_ctx = ctx, rp_wport = 0, rp_gport = 0\<rparr>)\<rparr>) = Some s0" using ex by blast
  show ?thesis
  proof (cases "List.find (\<lambda>p. wp_name (wports s p) = name) (lcont (write_port_list s) ())")
    case None
    then have "port_open (Some name) ctx True r bufp s = Some (ERR_NOT_FOUND, None, free r (free bufp ?s1))"
      using s0 init[OF s0] nz by (simp add: port_open_def open_prepared_sel del: set_buf_sel)
    then show ?thesis using None i1(1) fb by (simp add: open_prepared_sel)
  next
    case (Some w)
    note w = find_wport(2)[OF ok Some]
    have "\<not> ls_in_list r (rp_lists ?s1)" using f(1) by (simp add: fresh_port_def ls_in_list_def open_prepared_sel)
    then obtain q where q: "ls_add_tail w r (rp_lists ?s1) = Some q" by (simp add: ls_add_tail_def)
    let ?b = "if wp_buf (wports s w) \<noteq> 0 then wp_buf (wports s w) else bufp"
    define s2 where "s2 = upd_wport w (\<lambda>x. x\<lparr>wp_buf := 0\<rparr>) (upd_rport r (\<lambda>x. x\<lparr>rp_buf := ?b\<rparr>)
       ((upd_rport r (\<lambda>x. x\<lparr>rp_wport := w\<rparr>) ?s1)\<lparr>rp_lists := q\<rparr>))"
    have sel: "write_port_list s2 = write_port_list ?s1" "rp_lists s2 = q" "group_lists s2 = group_lists ?s1"
      "rports s2 = (rports ?s1)(r := \<lparr>rp_buf = ?b, rp_ctx = ctx, rp_wport = w, rp_gport = 0\<rparr>)"
      "wports s2 = (wports ?s1)(w := (wports ?s1 w)\<lparr>wp_buf := 0\<rparr>)" "port_magic s2 = (port_magic ?s1)(r := READPORT_MAGIC)"
      "port_bufs s2 = port_bufs ?s1" "wqs s2 = wqs ?s1"
      by (simp_all add: s2_def upd_wport_def upd_rport_def open_prepared_sel)
    have inv2: "port_inv s2" "lcont q = (lcont (rp_lists s))(w := lcont (rp_lists s) w @ [r])"
      using port_inv_add_reader[OF i1(1) _ i1(2) q _ sel(1-7)] w i1(3) make_buf_ok sel(8) by (simp_all add: open_prepared_sel)
    have e: "port_open (Some name) ctx True r bufp s =
       (if wp_buf (wports s w) \<noteq> 0 then Some (NO_ERROR, Some r, free bufp s2)
        else if wp_mode (wports s w) AND PORT_MODE_UNICAST \<noteq> 0
        then Some (ERR_NOT_ALLOWED, None, free r (free bufp (upd_rport r (\<lambda>x. x\<lparr>rp_wport := w\<rparr>) ?s1)))
        else Some (NO_ERROR, Some r, s2))"
    proof -
      have "upd_wport w (\<lambda>x. x\<lparr>wp_buf := 0\<rparr>) x = x" if "wp_buf (wports x w) = 0" for x :: "'a port_state_scheme"
      proof -
        have "(wports x w)\<lparr>wp_buf := 0\<rparr> = wports x w" using that by (cases "wports x w") simp
        then show ?thesis by (simp add: upd_wport_def)
      qed
      then show ?thesis using Some s0 init[OF s0] nz q
        by (simp add: port_open_def open_prepared_sel s2_def upd_rport_def Let_def del: set_buf_sel)
    qed
    have "port_inv (upd_rport r (\<lambda>x. x\<lparr>rp_wport := w\<rparr>) ?s1)"
      by (rule port_inv_agree[OF i1(1)]) (use i1(1,2) in \<open>auto simp: upd_rport_def port_inv_def fresh_port_def\<close>)
    then show ?thesis unfolding e using Some inv2 sel fb make_buf_ok
      by (auto simp: open_prepared_sel upd_rport_def)
  qed
qed

end
