(* ===== verification/Port_Props.thy ===== *)
theory Port_Props
  imports Port_Inv
begin

text \<open>Properties of the ports and their witnesses on a concrete state.\<close>

section \<open>A concrete state\<close>

text \<open>The threads of \<open>demo\<close>; write port 100, named ''a'', with the readers 200 and 201; reader 201 is
  in group 400.\<close>

definition port_demo :: port_state where
  "port_demo = sync_state.extend demo (port_state.fields
     ((\<lambda>_. 0)(100 := WRITEPORT_MAGIC_W, 200 := READPORT_MAGIC, 201 := READPORT_MAGIC, 400 := PORTGROUP_MAGIC))
     (\<lambda>_. make_buf False)
     (\<lambda>_. \<lparr>wp_buf = 0, wp_mode = 0, wp_name = ''a''\<rparr>)
     ((\<lambda>_. \<lparr>rp_buf = 300, rp_ctx = 5, rp_wport = 100, rp_gport = 0\<rparr>)
        (201 := \<lparr>rp_buf = 301, rp_ctx = 6, rp_wport = 100, rp_gport = 400\<rparr>))
     \<lparr>lcont = (\<lambda>_. [100]), lon = [100 \<mapsto> ()]\<rparr>
     \<lparr>lcont = (\<lambda>_. [])(100 := [200, 201]), lon = [200 \<mapsto> 100, 201 \<mapsto> 100]\<rparr>
     \<lparr>lcont = (\<lambda>_. [])(400 := [201]), lon = [201 \<mapsto> 400]\<rparr>
     (\<lambda>_. (0, [])) False)"

lemma port_demo_sel:
  "threads port_demo = threads demo" "queues port_demo = queues demo" "current port_demo = current demo"
  "idle_threads port_demo = idle_threads demo" "wqs port_demo = wqs demo" "tqueue port_demo = tqueue demo"
  "timers port_demo = timers demo" "has_dynamic_timer port_demo = has_dynamic_timer demo"
  "run_queue_bitmap port_demo = run_queue_bitmap demo"
  "port_magic port_demo = (\<lambda>_. 0)(100 := WRITEPORT_MAGIC_W, 200 := READPORT_MAGIC, 201 := READPORT_MAGIC, 400 := PORTGROUP_MAGIC)"
  "port_bufs port_demo = (\<lambda>_. make_buf False)" "wports port_demo = (\<lambda>_. \<lparr>wp_buf = 0, wp_mode = 0, wp_name = ''a''\<rparr>)"
  "rports port_demo = (\<lambda>_. \<lparr>rp_buf = 300, rp_ctx = 5, rp_wport = 100, rp_gport = 0\<rparr>)
        (201 := \<lparr>rp_buf = 301, rp_ctx = 6, rp_wport = 100, rp_gport = 400\<rparr>)"
  "write_port_list port_demo = \<lparr>lcont = (\<lambda>_. [100]), lon = [100 \<mapsto> ()]\<rparr>"
  "rp_lists port_demo = \<lparr>lcont = (\<lambda>_. [])(100 := [200, 201]), lon = [200 \<mapsto> 100, 201 \<mapsto> 100]\<rparr>"
  "group_lists port_demo = \<lparr>lcont = (\<lambda>_. [])(400 := [201]), lon = [201 \<mapsto> 400]\<rparr>"
  by (simp_all add: port_demo_def sync_state.defs port_state.defs demo_def)

lemma port_demo_kinv: "kinv {0} port_demo"
  using demo_kinv
  by (simp add: kinv_def sched_inv_def queue_inv_def bitmap_ok_def thread_inv_def cpu_inv_def preempt_inv_def port_demo_sel)

lemma port_demo_owns: "owns port_demo x b \<longleftrightarrow> x = Inr 200 \<and> b = 300 \<or> x = Inr 201 \<and> b = 301"
  by (cases x) (auto simp: port_demo_sel)

lemma port_demo_inv: "port_inv port_demo"
proof -
  have "ls_ok (write_port_list port_demo)" "ls_ok (rp_lists port_demo)" "ls_ok (group_lists port_demo)"
    by (auto simp: port_demo_sel ls_ok_def)
  moreover have "wport_ok port_demo 100" by (simp add: wport_ok_def port_demo_sel)
  moreover have "rport_ok port_demo 200 100" "rport_ok port_demo 201 100"
    by (simp_all add: rport_ok_def port_demo_sel demo_def)
  ultimately show ?thesis
    using make_buf_ok unfolding port_inv_def by (auto simp: port_demo_owns port_demo_sel split: if_splits)
qed

section \<open>Properties\<close>

text \<open>C13: A packet buffer is a bounded queue. Whatever is written to and read from a new buffer, in
  any order, the packets accepted so far are exactly the packets delivered, in order, followed by
  the ones still in the buffer, of which there are at most 8 (512 in a big buffer).\<close>

theorem port_buffer_fifo:
  "\<exists>accepted delivered b. pbuf.run ops (make_buf big) = Some (accepted, delivered, b) \<and>
     accepted = delivered @ buf_cont b \<and> length (buf_cont b) \<le> (if big then PORT_BUFF_SIZE_BIG else PORT_BUFF_SIZE)"
proof -
  have ok: "buf_ok (make_buf big)" "buf_cont (make_buf big) = []" "pb_log2 (make_buf big) = (if big then 9 else 3)"
    using make_buf_ok by auto
  obtain i out b where "pbuf.run ops (make_buf big) = Some (i, out, b)" using pbuf.run_fifo[OF ok(1)] by blast
  with pbuf.run_from_empty[OF ok(1,2) this] ok(3) show ?thesis by (auto split: if_splits)
qed

text \<open>C14: Broadcast. A write to an open port that has readers never panics, keeps the kernel and the
  port invariant, appends the packets to the buffer of every reader that has room for all of
  them and leaves every other buffer as it is; the status is \<open>ERR_PARTIAL_WRITE\<close> when some reader
  had no room, else \<open>NO_ERROR\<close>.\<close>

theorem port_write_reaches_every_reader:
  assumes "kinv C s" "c \<in> C" "port_inv s" "lon (write_port_list s) w = Some ()" "port_magic s w = WRITEPORT_MAGIC_W"
    "count \<le> length pk" "lcont (rp_lists s) w \<noteq> []"
  shows "\<exists>out s'. port_write c w (Some pk) count s = Some (out, s') \<and> kinv C s' \<and> port_inv s' \<and>
     with_status (current s c) (if \<forall>r \<in> set (lcont (rp_lists s) w). room count s r then NO_ERROR else ERR_PARTIAL_WRITE) (out, s') \<and>
     (\<forall>r w'. lon (rp_lists s) r = Some w' \<longrightarrow> buf_cont (port_bufs s' (rp_buf (rports s r))) =
        buf_cont (port_bufs s (rp_buf (rports s r))) @ (if w' = w \<and> room count s r then take count pk else []))"
proof -
  have z: "wp_buf (wports s w) = 0" using assms(3,4,7) by (auto simp: port_inv_def wport_ok_def)
  have ls: "ls_ok (rp_lists s)" using assms(3) by (simp add: port_inv_def)
  obtain out s' where o: "port_write c w (Some pk) count s = Some (out, s')" "kinv C s'" "port_inv s'"
      "with_status (current s c) (if \<forall>r \<in> set (lcont (rp_lists s) w). room count s r then NO_ERROR else ERR_PARTIAL_WRITE) (out, s')"
      "\<And>x b. owns s x b \<Longrightarrow> buf_cont (port_bufs s' b) = buf_cont (port_bufs s b) @
           (case x of Inl _ \<Rightarrow> [] | Inr r \<Rightarrow> if r \<in> set (lcont (rp_lists s) w) \<and> room count s r then take count pk else [])"
    using port_write_wp[OF assms(1-6)] z by (auto simp: wp_ex)
  have "buf_cont (port_bufs s' (rp_buf (rports s r))) =
        buf_cont (port_bufs s (rp_buf (rports s r))) @ (if w' = w \<and> room count s r then take count pk else [])"
    if "lon (rp_lists s) r = Some w'" for r w'
    using o(5)[OF owns_reader(1)[OF assms(3) that]] ls_ok_mem[OF ls, of r w] that by (auto split: if_splits)
  with o(1-4) show ?thesis by blast
qed

theorem port_write_reaches_every_reader_witness:
  "\<exists>out s'. port_write 0 100 (Some [[1], [2]]) 2 port_demo = Some (out, s') \<and>
     buf_cont (port_bufs s' 300) = [[1], [2]] \<and> buf_cont (port_bufs s' 301) = [[1], [2]]"
proof -
  have r: "room 2 port_demo 200" "room 2 port_demo 201" using make_buf_ok[of False] by (simp_all add: room_def port_demo_sel)
  obtain out s' where o: "port_write 0 100 (Some [[1], [2]]) 2 port_demo = Some (out, s')"
      "\<forall>r w'. lon (rp_lists port_demo) r = Some w' \<longrightarrow> buf_cont (port_bufs s' (rp_buf (rports port_demo r))) =
        buf_cont (port_bufs port_demo (rp_buf (rports port_demo r))) @ (if w' = 100 \<and> room 2 port_demo r then take 2 [[1], [2]] else [])"
    using port_write_reaches_every_reader[OF port_demo_kinv _ port_demo_inv, of 0 100 2 "[[1], [2]]"]
    by (auto simp: port_demo_sel)
  from o(2)[rule_format, of 200 100] o(2)[rule_format, of 201 100] r make_buf_ok[of False] o(1) show ?thesis
    by (auto simp: port_demo_sel)
qed

text \<open>C15: Reading. A read of a port with packets returns the oldest one with the reader's context and
  takes it out of that reader's buffer only; without packets it returns \<open>ERR_TIMED_OUT\<close> when the
  timeout is 0, and otherwise blocks at the tail of the reader's wait queue with the read still to
  be redone. It never panics and keeps the invariants.\<close>

theorem port_read_oldest:
  assumes "kinv C s" "c \<in> C" "\<not> thread_is_idle (threads s (current s c))" "port_inv s"
    "lon (rp_lists s) r = Some w" "result \<noteq> 0"
    "timeout \<noteq> INFINITE_TIME \<Longrightarrow> lon (tqueue s) (TM_stack (current s c)) = None"
  shows "\<exists>out s'. port_read c r timeout result s = Some (out, s') \<and> kinv C s' \<and> port_inv s' \<and>
     (case buf_cont (port_bufs s (rp_buf (rports s r))) of
        x # ys \<Rightarrow> out = Ret NO_ERROR \<and> port_results s' result = (rp_ctx (rports s r), x) \<and>
          (\<forall>d b. owns s d b \<longrightarrow> buf_cont (port_bufs s' b) = (if d = Inr r then ys else buf_cont (port_bufs s b)))
      | [] \<Rightarrow> port_bufs s' = port_bufs s \<and>
          (if timeout = 0 then out = Ret ERR_TIMED_OUT
           else out = Switched \<and> state (threads s' (current s c)) = THREAD_BLOCKED \<and>
             lcont (queues s') (WaitL (WQ_rport r)) = lcont (queues s) (WaitL (WQ_rport r)) @ [current s c] \<and>
             kstack s' (current s c) = kstack s (current s c) @ [FR_block timeout, FR_port_read r timeout result]))"
  using port_read_wp[OF assms] unfolding wp_ex2 .

theorem port_read_oldest_witness:
  "\<exists>s'. port_read 0 200 0 9 port_demo = Some (Ret ERR_TIMED_OUT, s') \<and> port_bufs s' = port_bufs port_demo"
  using port_read_oldest[OF port_demo_kinv _ _ port_demo_inv, of 0 200 100 9 0] demo_current make_buf_ok[of False]
  by (auto simp: port_demo_sel demo_def ls_empty_def)

text \<open>C16: Opening. The first reader of a port takes over the buffer with everything written so far; a
  further reader of a broadcast port gets an empty buffer of its own; a second reader of a unicast
  port is refused, and so is an unknown name. No other buffer changes and the port invariant
  (every buffer has exactly one owner) holds again.\<close>

theorem port_open_hands_over_buffer:
  assumes "port_inv s" "fresh_port r s" "fresh_buf bufp s" "lcont (queues s) (WaitL (WQ_rport r)) = []"
  shows "\<exists>st h s'. port_open (Some name) ctx True r bufp s = Some (st, h, s') \<and> port_inv s' \<and>
     (\<forall>x b. owns s x b \<longrightarrow> port_bufs s' b = port_bufs s b) \<and>
     (case List.find (\<lambda>p. wp_name (wports s p) = name) (lcont (write_port_list s) ()) of
        None \<Rightarrow> st = ERR_NOT_FOUND \<and> h = None \<and> rp_lists s' = rp_lists s
      | Some w \<Rightarrow>
          if wp_buf (wports s w) = 0 \<and> wp_mode (wports s w) AND PORT_MODE_UNICAST \<noteq> 0
          then st = ERR_NOT_ALLOWED \<and> h = None \<and> rp_lists s' = rp_lists s
          else st = NO_ERROR \<and> h = Some r \<and> lcont (rp_lists s') w = lcont (rp_lists s) w @ [r] \<and>
            (if wp_buf (wports s w) \<noteq> 0 then rp_buf (rports s' r) = wp_buf (wports s w)
             else buf_cont (port_bufs s' (rp_buf (rports s' r))) = []))"
  using port_open_wp[OF assms] unfolding wp_ex3 .

lemma port_demo_fresh: "fresh_port 202 port_demo" "fresh_buf 302 port_demo"
  by (simp_all add: fresh_port_def fresh_buf_def port_demo_owns) (simp_all add: port_demo_sel)

theorem port_open_hands_over_buffer_witness:
  "\<exists>s'. port_open (Some ''a'') 7 True 202 302 port_demo = Some (NO_ERROR, Some 202, s') \<and>
     lcont (rp_lists s') 100 = [200, 201, 202]"
  using port_open_hands_over_buffer[OF port_demo_inv port_demo_fresh, of "''a''" 7]
  by (auto simp: port_demo_sel demo_def demo_queues_def)

text \<open>Port names are unique. Creating a port under a name in use returns the existing port with
  \<open>ERR_ALREADY_EXISTS\<close> (\<open>ERR_BUSY\<close> when it is closed) and changes nothing; otherwise there is a new
  port with that name and an empty buffer. The invariant, which includes that no two ports have the
  same name, is kept.\<close>

theorem port_create_unique_names:
  assumes "port_inv s" "fresh_port w s" "fresh_buf bufp s" "length name < PORT_NAME_LEN"
  shows "\<exists>st h s'. port_create (Some name) mode True w bufp s = Some (st, h, s') \<and> port_inv s' \<and>
     (if \<exists>v. lon (write_port_list s) v = Some () \<and> wp_name (wports s v) = name
      then s' = s \<and> (\<exists>v. lon (write_port_list s) v = Some () \<and> wp_name (wports s v) = name \<and>
             (if port_magic s v = WRITEPORT_MAGIC_X then st = ERR_BUSY \<and> h = None else st = ERR_ALREADY_EXISTS \<and> h = Some v))
      else st = NO_ERROR \<and> h = Some w \<and> lon (write_port_list s') w = Some () \<and>
        wports s' w = \<lparr>wp_buf = bufp, wp_mode = mode, wp_name = name\<rparr> \<and>
        buf_cont (port_bufs s' bufp) = [] \<and> pb_log2 (port_bufs s' bufp) = (if mode AND PORT_MODE_BIG_BUFFER \<noteq> 0 then 9 else 3))"
  using port_create_wp[OF assms] unfolding wp_ex3 .

theorem port_create_unique_names_witness:
  "port_create (Some ''a'') 0 True 202 302 port_demo = Some (ERR_ALREADY_EXISTS, Some 100, port_demo)"
  using port_create_unique_names[OF port_demo_inv port_demo_fresh, of "''a''" 0]
  by (auto simp: port_demo_sel split: if_splits)

text \<open>The check that only unicast ports have a big buffer never fires, because
  \<open>PORT_MODE_BROADCAST\<close> is 0: a broadcast port (no unicast bit) with a big buffer is created.\<close>

theorem port_create_big_broadcast:
  assumes "port_inv s" "fresh_port w s" "fresh_buf bufp s" "length name < PORT_NAME_LEN"
    "\<And>v. lon (write_port_list s) v = Some () \<Longrightarrow> wp_name (wports s v) \<noteq> name"
  shows "\<exists>s'. port_create (Some name) (PORT_MODE_BROADCAST OR PORT_MODE_BIG_BUFFER) True w bufp s = Some (NO_ERROR, Some w, s') \<and>
     wp_mode (wports s' w) AND PORT_MODE_UNICAST = 0 \<and> pb_log2 (port_bufs s' bufp) = 9"
proof -
  have "\<not> (\<exists>v. lon (write_port_list s) v = Some () \<and> wp_name (wports s v) = name)" using assms(5) by blast
  then show ?thesis
    using port_create_wp[OF assms(1-4), of "PORT_MODE_BROADCAST OR PORT_MODE_BIG_BUFFER"] by (auto simp: wp_ex)
qed

theorem port_create_big_broadcast_witness:
  "\<exists>s'. port_create (Some ''b'') (PORT_MODE_BROADCAST OR PORT_MODE_BIG_BUFFER) True 202 302 port_demo = Some (NO_ERROR, Some 202, s') \<and>
     pb_log2 (port_bufs s' 302) = 9"
  using port_create_big_broadcast[OF port_demo_inv port_demo_fresh, of "''b''"] by (auto simp: port_demo_sel)

text \<open>\<open>port_group_remove\<close> does not clear the port's group pointer. After a successful removal the
  port still names the group: removing it again returns with the thread lock held, and closing it
  deletes an unlinked node (a null pointer dereference).\<close>

theorem port_group_remove_dangles:
  assumes "ls_ok (group_lists s)" "r \<in> set (lcont (group_lists s) g)" "r \<noteq> 0" "g \<noteq> 0"
    "port_magic s g = PORTGROUP_MAGIC" "port_magic s r = READPORT_MAGIC" "rp_gport (rports s r) = g"
  shows "\<exists>s'. port_group_remove g r s = Some (NO_ERROR, s') \<and> rp_gport (rports s' r) = g \<and>
     (\<exists>s''. port_group_remove g r s' = Some (ERR_BAD_HANDLE, s'') \<and> lock_leaked s'') \<and> port_close c r s' = None"
proof -
  have on: "lon (group_lists s) r = Some g" using ls_ok_mem[OF assms(1)] assms(2) by blast
  then obtain q where q: "ls_delete r (group_lists s) = Some q" by (simp add: ls_delete_def)
  have un: "lon q r = None" and okq: "ls_ok q" using ls_delete_ok[OF assms(1) q] by simp_all
  then have nm: "r \<notin> set (lcont q g)" using ls_ok_mem[OF okq] by simp
  have nd: "ls_delete r q = None" using un by (simp add: ls_delete_def)
  let ?s' = "s\<lparr>group_lists := q\<rparr>"
  have "port_close c r ?s' = None"
    using assms(3-7) nd
    by (cases "ls_delete r (rp_lists s)") (simp_all add: port_close_def Let_def upd_rport_def upd_wport_def)
  then show ?thesis using assms(2-7) q nm by (intro exI[of _ ?s']) (simp add: port_group_remove_def)
qed

theorem port_group_remove_dangles_witness:
  "\<exists>s'. port_group_remove 400 201 port_demo = Some (NO_ERROR, s') \<and> port_close 0 201 s' = None"
proof -
  have "ls_ok (group_lists port_demo)" using port_demo_inv by (simp add: port_inv_def)
  then show ?thesis using port_group_remove_dangles[of port_demo 201 400 0] by (auto simp: port_demo_sel)
qed

end
