(* ===== verification/Cbuf.thy ===== *)
theory Cbuf
  imports Sync Ring
begin

text \<open>
  Circular byte buffers (\<^verbatim>\<open>lib/cbuf/cbuf.c\<close>) on a target with a 32-bit \<open>size_t\<close>. The index
  arithmetic is a pure function of the structure \<open>cbuf_t\<close>; the operations also signal and wait for
  the buffer's event, so they are state transformers over the kernel state extended with the
  buffers and with the memory that \<open>cbuf_read\<close> copies to. The spin lock makes each locked region
  one step. Cache maintenance has no effect in the model.
\<close>

section \<open>The structure\<close>

abbreviation (input) CBUF_FLAG_SW_IS_WRITER :: u32 where "CBUF_FLAG_SW_IS_WRITER \<equiv> 4"
abbreviation (input) CBUF_FLAG_SW_IS_READER :: u32 where "CBUF_FLAG_SW_IS_READER \<equiv> 8"
abbreviation (input) CBUF_FLAG_USE_MAX_CHUNK_R :: u32 where "CBUF_FLAG_USE_MAX_CHUNK_R \<equiv> 32"
abbreviation (input) CBUF_FLAG_USE_MAX_CHUNK_W :: u32 where "CBUF_FLAG_USE_MAX_CHUNK_W \<equiv> 64"
abbreviation (input) CBUF_FLAG_DEFAULT :: u32 where "CBUF_FLAG_DEFAULT \<equiv> 28"
abbreviation (input) CBUF_MAX_CHUNK :: u32 where "CBUF_MAX_CHUNK \<equiv> 16384"

record cbuf =
  cb_head :: u32
  cb_tail :: u32
  cb_len_max :: u32
  cb_len :: u32
  cb_len_pow2 :: nat
  cb_buf :: "8 word list"
  cb_event :: nat
  cb_no_event :: bool
  cb_is_reset :: bool
  cb_flags :: u32

definition cbuf_is_sw_writer :: "cbuf \<Rightarrow> bool" where
  "cbuf_is_sw_writer cb \<longleftrightarrow> cb_flags cb AND CBUF_FLAG_SW_IS_WRITER \<noteq> 0"

definition cbuf_is_sw_reader :: "cbuf \<Rightarrow> bool" where
  "cbuf_is_sw_reader cb \<longleftrightarrow> cb_flags cb AND CBUF_FLAG_SW_IS_READER \<noteq> 0"

definition cbuf_writer_use_max_chunk :: "cbuf \<Rightarrow> bool" where
  "cbuf_writer_use_max_chunk cb \<longleftrightarrow> cb_flags cb AND CBUF_FLAG_USE_MAX_CHUNK_W \<noteq> 0"

definition cbuf_reader_use_max_chunk :: "cbuf \<Rightarrow> bool" where
  "cbuf_reader_use_max_chunk cb \<longleftrightarrow> cb_flags cb AND CBUF_FLAG_USE_MAX_CHUNK_R \<noteq> 0"

definition INC_POINTER :: "cbuf \<Rightarrow> u32 \<Rightarrow> u32 \<Rightarrow> u32" where
  "INC_POINTER cb ptr i =
     (if cb_len_pow2 cb \<noteq> 0 then modpow2 (ptr + i) (cb_len_pow2 cb) else (ptr + i) mod cb_len cb)"

definition DEC_POINTER :: "cbuf \<Rightarrow> u32 \<Rightarrow> u32 \<Rightarrow> u32" where
  "DEC_POINTER cb ptr i =
     (if cb_len_pow2 cb \<noteq> 0 then modpow2 (ptr - i) (cb_len_pow2 cb) else (ptr - i) mod cb_len cb)"

definition cbuf_set_size :: "u32 \<Rightarrow> cbuf \<Rightarrow> cbuf option" where
  "cbuf_set_size len cb =
     do { DEBUG_ASSERT (0 < len);
          Some (cb\<lparr>cb_len := len, cb_len_pow2 := (if ispow2 len then log2_uint len else 0)\<rparr>) }"

definition cbuf_space_avail :: "cbuf \<Rightarrow> u32" where
  "cbuf_space_avail cb =
     (if cb_len_pow2 cb \<noteq> 0
      then valpow2 (cb_len_pow2 cb) - modpow2 (cb_head cb - cb_tail cb) (cb_len_pow2 cb) - 1
      else cb_len cb - (cb_head cb - cb_tail cb) mod cb_len cb - 1)"

definition cbuf_space_used :: "cbuf \<Rightarrow> u32" where
  "cbuf_space_used cb =
     (if cb_len_pow2 cb \<noteq> 0 then modpow2 (cb_head cb - cb_tail cb) (cb_len_pow2 cb)
      else (cb_head cb - cb_tail cb) mod cb_len cb)"

definition cbuf_get_contiguous_space :: "cbuf \<Rightarrow> u32 \<Rightarrow> u32 \<Rightarrow> u32" where
  "cbuf_get_contiguous_space cb len pos =
     (if cb_tail cb \<le> cb_head cb
      then if cb_tail cb = 0 then min (cb_len cb - cb_head cb - 1) (len - pos)
           else min (cb_len cb - cb_head cb) (len - pos)
      else min (cb_tail cb - cb_head cb - 1) (len - pos))"

definition cbuf_get_contiguous_used :: "cbuf \<Rightarrow> u32 \<Rightarrow> u32 \<Rightarrow> u32" where
  "cbuf_get_contiguous_used cb buflen pos =
     (if cb_tail cb < cb_head cb then min (cb_head cb - cb_tail cb) (buflen - pos)
      else min (cb_len cb - cb_tail cb) (buflen - pos))"

section \<open>Copying in and out\<close>

text \<open>The bytes of one pass of the write loop: zeroes when there is no source buffer (none when the
  buffer is already all zero), nothing when hardware writes.\<close>

definition cbuf_fill :: "8 word list option \<Rightarrow> u32 \<Rightarrow> u32 \<Rightarrow> cbuf \<Rightarrow> cbuf option" where
  "cbuf_fill src pos n cb =
     (case src of
        None \<Rightarrow>
          if \<not> cb_is_reset cb \<and> cbuf_is_sw_writer cb
          then do { m \<leftarrow> store_at (unat (cb_head cb)) (replicate (unat n) 0) (cb_buf cb); Some (cb\<lparr>cb_buf := m\<rparr>) }
          else Some cb
      | Some xs \<Rightarrow>
          do { m \<leftarrow> (if cbuf_is_sw_writer cb
                      then do { ys \<leftarrow> load_at (unat pos) (unat n) xs; store_at (unat (cb_head cb)) ys (cb_buf cb) }
                      else Some (cb_buf cb));
               Some (cb\<lparr>cb_buf := m, cb_is_reset := False\<rparr>) })"

lemma contiguous_space_le: "cbuf_get_contiguous_space cb len pos \<le> len - pos"
  by (simp add: cbuf_get_contiguous_space_def)

lemma write_progress:
  assumes "pos < len" "cbuf_get_contiguous_space cb len pos \<noteq> 0"
  shows "unat (len - (pos + cbuf_get_contiguous_space cb len pos)) < unat (len - pos)"
proof -
  let ?n = "cbuf_get_contiguous_space cb len pos"
  have le: "?n \<le> len - pos" by (rule contiguous_space_le)
  have eq: "len - (pos + ?n) = (len - pos) - ?n" by simp
  have "unat (len - (pos + ?n)) = unat (len - pos) - unat ?n" unfolding eq by (rule unat_sub[OF le])
  moreover have "0 < unat ?n" "unat ?n \<le> unat (len - pos)"
    using assms(2) le by (simp_all add: unat_gt_0 word_le_nat_alt)
  ultimately show ?thesis by simp
qed

function cbuf_write_loop :: "8 word list option \<Rightarrow> u32 \<Rightarrow> u32 \<Rightarrow> cbuf \<Rightarrow> (u32 \<times> cbuf) option" where
  "cbuf_write_loop src len pos cb =
     (if pos < len \<and> 0 < cbuf_space_avail cb
      then let n = cbuf_get_contiguous_space cb len pos in
           if n = 0 then Some (pos, cb)
           else (case cbuf_fill src pos n cb of
                   None \<Rightarrow> None
                 | Some cb \<Rightarrow> cbuf_write_loop src len (pos + n) (cb\<lparr>cb_head := INC_POINTER cb (cb_head cb) n\<rparr>))
      else Some (pos, cb))"
  by pat_completeness auto
termination
  by (relation "measure (\<lambda>(src, len, pos, cb). unat (len - pos))") (simp_all add: write_progress)

declare cbuf_write_loop.simps [simp del]

text \<open>The read loop, with the bytes it passes over.\<close>

partial_function (option) cbuf_read_loop :: "u32 \<Rightarrow> u32 \<Rightarrow> cbuf \<Rightarrow> (u32 \<times> 8 word list \<times> cbuf) option" where
  "cbuf_read_loop buflen pos cb =
     (if pos < buflen \<and> cb_tail cb \<noteq> cb_head cb
      then let n = cbuf_get_contiguous_used cb buflen pos in
           Option.bind (load_at (unat (cb_tail cb)) (unat n) (cb_buf cb)) (\<lambda>xs.
           Option.bind (cbuf_read_loop buflen (pos + n) (cb\<lparr>cb_tail := INC_POINTER cb (cb_tail cb) n\<rparr>)) (\<lambda>(p, ys, cb).
           Some (p, xs @ ys, cb)))
      else Some (pos, [], cb))"

section \<open>Operations\<close>

record cbuf_state = sync_state +
  cbufs :: "nat \<Rightarrow> cbuf"
  cbuf_mem :: "nat \<Rightarrow> 8 word list"

definition set_cbuf :: "nat \<Rightarrow> cbuf \<Rightarrow> 'z cbuf_state_scheme \<Rightarrow> 'z cbuf_state_scheme" where
  "set_cbuf p cb s = s\<lparr>cbufs := (cbufs s)(p := cb)\<rparr>"

definition cbuf_initialize_etc ::
  "nat \<Rightarrow> u32 \<Rightarrow> 8 word list \<Rightarrow> nat \<Rightarrow> 'z cbuf_state_scheme \<Rightarrow> 'z cbuf_state_scheme option" where
  "cbuf_initialize_etc p len buf ev s =
     do { cb \<leftarrow> cbuf_set_size len ((cbufs s p)\<lparr>cb_head := 0, cb_tail := 0, cb_len_max := len\<rparr>);
          event_init ev False 0
            (set_cbuf p (cb\<lparr>cb_buf := buf, cb_event := ev, cb_no_event := False, cb_is_reset := False,
                            cb_flags := CBUF_FLAG_DEFAULT\<rparr>) s) }"

definition cbuf_adjust_size :: "nat \<Rightarrow> u32 \<Rightarrow> 'z cbuf_state_scheme \<Rightarrow> 'z cbuf_state_scheme option" where
  "cbuf_adjust_size p len s =
     do { DEBUG_ASSERT (len \<le> cb_len_max (cbufs s p));
          cb \<leftarrow> cbuf_set_size len ((cbufs s p)\<lparr>cb_head := 0, cb_tail := 0\<rparr>);
          Some (set_cbuf p cb s) }"

text \<open>Calls of \<open>event_signal\<close> with \<open>reschedule\<close> false, and of \<open>event_unsignal\<close>.\<close>

definition event_done :: "(outcome \<times> 's) option \<Rightarrow> 's option" where
  "event_done r = (case r of Some (Ret _, s) \<Rightarrow> Some s | _ \<Rightarrow> None)"

definition cbuf_write_wo_lock ::
  "nat \<Rightarrow> nat \<Rightarrow> 8 word list option \<Rightarrow> u32 \<Rightarrow> 'z cbuf_state_scheme \<Rightarrow> (u32 \<times> 'z cbuf_state_scheme) option" where
  "cbuf_write_wo_lock cpu p src len s =
     do { (pos, cb) \<leftarrow> cbuf_write_loop src len 0 (cbufs s p);
          s \<leftarrow> (if \<not> cb_no_event cb \<and> cb_head cb \<noteq> cb_tail cb
                then event_done (event_signal cpu (cb_event cb) False (set_cbuf p cb s))
                else Some (set_cbuf p cb s));
          Some (pos, s) }"

fun cbuf_write_chunks ::
  "nat \<Rightarrow> nat \<Rightarrow> nat \<Rightarrow> 8 word list \<Rightarrow> u32 \<Rightarrow> u32 \<Rightarrow> 'z cbuf_state_scheme \<Rightarrow> (u32 \<times> 'z cbuf_state_scheme) option" where
  "cbuf_write_chunks 0 cpu p src remaining pos s = Some (pos, s)"
| "cbuf_write_chunks (Suc k) cpu p src remaining pos s =
     do { (written, s) \<leftarrow> cbuf_write_wo_lock cpu p (Some src)
                            (if CBUF_MAX_CHUNK < remaining then CBUF_MAX_CHUNK else remaining) s;
          if written = 0 then Some (pos, s)
          else cbuf_write_chunks k cpu p (drop (unat written) src) (remaining - written) (pos + written) s }"

definition cbuf_chunk_count :: "u32 \<Rightarrow> nat" where
  "cbuf_chunk_count len = unat (len div CBUF_MAX_CHUNK) + (if len mod CBUF_MAX_CHUNK \<noteq> 0 then 1 else 0)"

definition cbuf_write ::
  "nat \<Rightarrow> nat \<Rightarrow> 8 word list option \<Rightarrow> u32 \<Rightarrow> bool \<Rightarrow> 'z cbuf_state_scheme \<Rightarrow> (outcome \<times> 'z cbuf_state_scheme) option" where
  "cbuf_write cpu p src len canreschedule s =
     do { DEBUG_ASSERT (len < cb_len (cbufs s p));
          (pos, s) \<leftarrow> (case src of
             Some xs \<Rightarrow> if cbuf_writer_use_max_chunk (cbufs s p)
                       then cbuf_write_chunks (cbuf_chunk_count len) cpu p xs len 0 s
                       else cbuf_write_wo_lock cpu p src len s
           | None \<Rightarrow> cbuf_write_wo_lock cpu p src len s);
          if canreschedule
          then do { os \<leftarrow> thread_preempt cpu s;
                    with_frame (current s cpu) (FR_const (uint pos)) (\<lambda>_ s. Some (Ret (uint pos), s)) os }
          else Some (Ret (uint pos), s) }"

text \<open>\<open>dst\<close> is the address the bytes go to (0 for none) and \<open>off\<close> the position there.\<close>

definition cbuf_read_wo_lock ::
  "nat \<Rightarrow> nat \<Rightarrow> nat \<Rightarrow> u32 \<Rightarrow> 'z cbuf_state_scheme \<Rightarrow> (u32 \<times> 'z cbuf_state_scheme) option" where
  "cbuf_read_wo_lock p dst off buflen s =
     (if cb_tail (cbufs s p) \<noteq> cb_head (cbufs s p)
      then do { (pos, xs, cb) \<leftarrow> cbuf_read_loop buflen 0 (cbufs s p);
                s \<leftarrow> (if dst \<noteq> 0 \<and> cbuf_is_sw_reader cb
                      then do { m \<leftarrow> store_at off xs (cbuf_mem s dst); Some (s\<lparr>cbuf_mem := (cbuf_mem s)(dst := m)\<rparr>) }
                      else Some s);
                let s = set_cbuf p cb s in
                do { s \<leftarrow> (if \<not> cb_no_event cb \<and> cb_tail cb = cb_head cb
                           then do { DEBUG_ASSERT (0 < pos); event_done (event_unsignal (cb_event cb) s) }
                           else Some s);
                     Some (pos, s) } }
      else Some (0, s))"

fun cbuf_read_chunks ::
  "nat \<Rightarrow> nat \<Rightarrow> nat \<Rightarrow> nat \<Rightarrow> u32 \<Rightarrow> u32 \<Rightarrow> 'z cbuf_state_scheme \<Rightarrow> (u32 \<times> 'z cbuf_state_scheme) option" where
  "cbuf_read_chunks 0 p dst off remaining ret s = Some (ret, s)"
| "cbuf_read_chunks (Suc k) p dst off remaining ret s =
     do { (n, s) \<leftarrow> cbuf_read_wo_lock p dst off (if CBUF_MAX_CHUNK < remaining then CBUF_MAX_CHUNK else remaining) s;
          if n = 0 then Some (ret, s)
          else cbuf_read_chunks k p dst (off + unat n) (remaining - n) (ret + n) s }"

text \<open>One attempt of \<open>cbuf_read\<close>, after the event.\<close>

definition cbuf_read_once ::
  "nat \<Rightarrow> nat \<Rightarrow> u32 \<Rightarrow> 'z cbuf_state_scheme \<Rightarrow> (u32 \<times> 'z cbuf_state_scheme) option" where
  "cbuf_read_once p dst buflen s =
     (if \<not> cbuf_reader_use_max_chunk (cbufs s p) \<or> dst = 0 then cbuf_read_wo_lock p dst 0 buflen s
      else cbuf_read_chunks (cbuf_chunk_count buflen) p dst 0 buflen 0 s)"

partial_function (option) cbuf_read ::
  "nat \<Rightarrow> nat \<Rightarrow> nat \<Rightarrow> u32 \<Rightarrow> bool \<Rightarrow> 'z cbuf_state_scheme \<Rightarrow> (outcome \<times> 'z cbuf_state_scheme) option" where
  "cbuf_read cpu p dst buflen block s =
     Option.bind (if \<not> cb_no_event (cbufs s p) \<and> block
                  then event_wait_timeout cpu (cb_event (cbufs s p)) INFINITE_TIME s
                  else Some (Ret NO_ERROR, s)) (\<lambda>(r, s1).
       case r of
         Switched \<Rightarrow> Some (Switched, s1\<lparr>kstack := (kstack s1)
            (current s cpu := kstack s1 (current s cpu) @ [FR_cbuf_read p dst buflen])\<rparr>)
       | Ret v \<Rightarrow> Option.bind (cbuf_read_once p dst buflen s1) (\<lambda>(ret, s2).
           if block \<and> ret = 0 then cbuf_read cpu p dst buflen block s2 else Some (Ret (uint ret), s2)))"

definition cbuf_trash :: "nat \<Rightarrow> u32 \<Rightarrow> 'z cbuf_state_scheme \<Rightarrow> 'z cbuf_state_scheme option" where
  "cbuf_trash p len s =
     (let cb = cbufs s p in
      if cbuf_is_sw_writer cb \<and> cbuf_is_sw_reader cb then Some s
      else do { DEBUG_ASSERT (len < cb_len cb);
                Some (set_cbuf p (cb\<lparr>cb_head := INC_POINTER cb (cb_head cb) len,
                                     cb_tail := INC_POINTER cb (cb_tail cb) len\<rparr>) s) })"

definition cbuf_skip :: "nat \<Rightarrow> bool \<Rightarrow> u32 \<Rightarrow> 'z cbuf_state_scheme \<Rightarrow> 'z cbuf_state_scheme option" where
  "cbuf_skip p is_write len s =
     (let cb = cbufs s p in
      do { DEBUG_ASSERT (len < cb_len cb);
           Some (set_cbuf p (if is_write then cb\<lparr>cb_head := INC_POINTER cb (cb_head cb) len\<rparr>
                             else cb\<lparr>cb_tail := INC_POINTER cb (cb_tail cb) len\<rparr>) s) })"

definition cbuf_rewind :: "nat \<Rightarrow> 'z cbuf_state_scheme \<Rightarrow> u32 \<times> 'z cbuf_state_scheme" where
  "cbuf_rewind p s =
     (let cb = cbufs s p in (cbuf_space_used cb, set_cbuf p (cb\<lparr>cb_head := cb_tail cb\<rparr>) s))"

definition cbuf_rewind_len :: "nat \<Rightarrow> u32 \<Rightarrow> 'z cbuf_state_scheme \<Rightarrow> (u32 \<times> 'z cbuf_state_scheme) option" where
  "cbuf_rewind_len p len s =
     (let cb = cbufs s p in
      do { DEBUG_ASSERT (len < cb_len cb);
           let n = (if cbuf_space_used cb < len then cbuf_space_used cb else len) in
           Some (n, set_cbuf p (cb\<lparr>cb_head := DEC_POINTER cb (cb_head cb) n\<rparr>) s) })"

text \<open>A region is an offset into the buffer (none for a null pointer) and a length.\<close>

definition cbuf_peek ::
  "nat \<Rightarrow> 'z cbuf_state_scheme \<Rightarrow> (u32 \<times> (u32 option \<times> u32) \<times> (u32 option \<times> u32)) option" where
  "cbuf_peek p s =
     (let cb = cbufs s p; ret = cbuf_space_used cb; sz = cb_len cb in
      do { DEBUG_ASSERT (cb_tail cb < sz);
           DEBUG_ASSERT (ret \<le> sz);
           let base0 = (if ret \<noteq> 0 then Some (cb_tail cb) else None) in
           if sz < ret + cb_tail cb
           then Some (ret, (base0, sz - cb_tail cb), (Some 0, ret - (sz - cb_tail cb)))
           else Some (ret, (base0, ret), (None, 0)) })"

definition cbuf_write_char ::
  "nat \<Rightarrow> nat \<Rightarrow> 8 word \<Rightarrow> bool \<Rightarrow> 'z cbuf_state_scheme \<Rightarrow> (outcome \<times> 'z cbuf_state_scheme) option" where
  "cbuf_write_char cpu p ch canreschedule s =
     (let cb = cbufs s p in
      if 0 < cbuf_space_avail cb
      then do { m \<leftarrow> store_at (unat (cb_head cb)) [ch] (cb_buf cb);
                let cb = cb\<lparr>cb_buf := m, cb_head := INC_POINTER cb (cb_head cb) 1\<rparr>; s = set_cbuf p cb s in
                if \<not> cb_no_event cb \<and> cb_head cb \<noteq> cb_tail cb
                then do { os \<leftarrow> event_signal cpu (cb_event cb) canreschedule s;
                          with_frame (current s cpu) (FR_const 1) (\<lambda>_ s. Some (Ret 1, s)) os }
                else Some (Ret 1, s) }
      else Some (Ret 0, s))"

text \<open>The locked region of \<open>cbuf_read_char\<close>; \<open>*c\<close> is the first byte at \<open>dst\<close>.\<close>

definition cbuf_read_char_once :: "nat \<Rightarrow> nat \<Rightarrow> 'z cbuf_state_scheme \<Rightarrow> (int \<times> 'z cbuf_state_scheme) option" where
  "cbuf_read_char_once p dst s =
     (let cb = cbufs s p in
      if cb_tail cb \<noteq> cb_head cb
      then do { xs \<leftarrow> load_at (unat (cb_tail cb)) 1 (cb_buf cb);
                m \<leftarrow> store_at 0 xs (cbuf_mem s dst);
                let cb = cb\<lparr>cb_tail := INC_POINTER cb (cb_tail cb) 1\<rparr>;
                    s = set_cbuf p cb (s\<lparr>cbuf_mem := (cbuf_mem s)(dst := m)\<rparr>) in
                do { s \<leftarrow> (if \<not> cb_no_event cb \<and> cb_tail cb = cb_head cb
                           then event_done (event_unsignal (cb_event cb) s) else Some s);
                     Some (1, s) } }
      else Some (0, s))"

partial_function (option) cbuf_read_char ::
  "nat \<Rightarrow> nat \<Rightarrow> nat \<Rightarrow> bool \<Rightarrow> 'z cbuf_state_scheme \<Rightarrow> (outcome \<times> 'z cbuf_state_scheme) option" where
  "cbuf_read_char cpu p dst block s =
     Option.bind (if \<not> cb_no_event (cbufs s p) \<and> block
                  then event_wait_timeout cpu (cb_event (cbufs s p)) INFINITE_TIME s
                  else Some (Ret NO_ERROR, s)) (\<lambda>(r, s1).
       case r of
         Switched \<Rightarrow> Some (Switched, s1\<lparr>kstack := (kstack s1)
            (current s cpu := kstack s1 (current s cpu) @ [FR_cbuf_read_char p dst])\<rparr>)
       | Ret v \<Rightarrow> Option.bind (cbuf_read_char_once p dst s1) (\<lambda>(ret, s2).
           if block \<and> ret = 0 then cbuf_read_char cpu p dst block s2 else Some (Ret ret, s2)))"

definition cbuf_reset :: "nat \<Rightarrow> nat \<Rightarrow> 'z cbuf_state_scheme \<Rightarrow> (outcome \<times> 'z cbuf_state_scheme) option" where
  "cbuf_reset cpu p s = cbuf_read cpu p 0 (cb_len (cbufs s p)) False s"

definition cbuf_reset_indexes :: "nat \<Rightarrow> nat \<Rightarrow> 'z cbuf_state_scheme \<Rightarrow> 'z cbuf_state_scheme option" where
  "cbuf_reset_indexes cpu p s =
     do { (_, s) \<leftarrow> cbuf_reset cpu p s;
          Some (set_cbuf p ((cbufs s p)\<lparr>cb_head := 0, cb_tail := 0\<rparr>) s) }"

definition cbuf_reset_with_zero :: "nat \<Rightarrow> nat \<Rightarrow> 'z cbuf_state_scheme \<Rightarrow> 'z cbuf_state_scheme option" where
  "cbuf_reset_with_zero cpu p s =
     do { m \<leftarrow> store_at 0 (replicate (unat (cb_len (cbufs s p))) 0) (cb_buf (cbufs s p));
          let s = set_cbuf p ((cbufs s p)\<lparr>cb_buf := m\<rparr>) s; cb = cbufs s p in
          do { s \<leftarrow> (if cbuf_is_sw_writer cb \<and> cbuf_is_sw_reader cb
                     then map_option snd (cbuf_reset cpu p s) else cbuf_reset_indexes cpu p s);
               Some (set_cbuf p ((cbufs s p)\<lparr>cb_is_reset := True\<rparr>) s) } }"

section \<open>Switching back\<close>

text \<open>A reader that waited for the event goes on with the attempt.\<close>

fun cbuf_run_frame ::
  "nat \<Rightarrow> frame \<Rightarrow> int \<Rightarrow> 'z cbuf_state_scheme \<Rightarrow> (outcome \<times> 'z cbuf_state_scheme) option" where
  "cbuf_run_frame cpu (FR_cbuf_read p dst buflen) v s =
     do { (ret, s) \<leftarrow> cbuf_read_once p dst buflen s;
          if ret = 0 then cbuf_read cpu p dst buflen True s else Some (Ret (uint ret), s) }"
| "cbuf_run_frame cpu (FR_cbuf_read_char p dst) v s =
     do { (ret, s) \<leftarrow> cbuf_read_char_once p dst s;
          if ret = 0 then cbuf_read_char cpu p dst True s else Some (Ret ret, s) }"
| "cbuf_run_frame cpu f v s = run_frame cpu f v s"

end
