(* ===== verification/Cbuf_Inv.thy ===== *)
theory Cbuf_Inv
  imports Cbuf Kernel_Steps
begin

text \<open>
  What a circular buffer holds, and that the copy loops, with their two passes around the end of the
  buffer, put bytes in and take them out in order; a buffer whose length is a power of two is a
  bounded queue (interpretation \<open>cbq\<close> of \<open>bounded_fifo\<close>).
\<close>

section \<open>The abstract queue\<close>

definition cb_used :: "cbuf \<Rightarrow> nat" where
  "cb_used cb = (if cb_tail cb \<le> cb_head cb then unat (cb_head cb) - unat (cb_tail cb)
                 else unat (cb_len cb) + unat (cb_head cb) - unat (cb_tail cb))"

definition cb_ok :: "cbuf \<Rightarrow> bool" where
  "cb_ok cb \<longleftrightarrow> 0 < cb_len cb \<and> cb_head cb < cb_len cb \<and> cb_tail cb < cb_len cb \<and> unat (cb_len cb) \<le> length (cb_buf cb) \<and>
     cb_len_pow2 cb = (if ispow2 (cb_len cb) then log2_uint (cb_len cb) else 0)"

definition cb_cont :: "cbuf \<Rightarrow> 8 word list" where
  "cb_cont cb = ring (take (unat (cb_len cb)) (cb_buf cb)) (unat (cb_tail cb)) (cb_used cb)"

lemma cb_okD:
  assumes "cb_ok cb"
  shows "unat (cb_head cb) < unat (cb_len cb)" "unat (cb_tail cb) < unat (cb_len cb)" "unat (cb_len cb) \<le> length (cb_buf cb)"
    "0 < unat (cb_len cb)" "cb_used cb < unat (cb_len cb)"
  using assms by (auto simp: cb_ok_def word_less_nat_alt cb_used_def word_le_nat_alt)

lemma unat_lt32: "unat (w :: u32) < 4294967296"
  using unsigned_less[of w] by simp

lemma unat_add32: "unat (a :: u32) + unat b < 4294967296 \<Longrightarrow> unat (a + b) = unat a + unat b"
  by (simp add: unat_word_ariths)

lemma unat_min32: "unat (min a b :: u32) = min (unat a) (unat b)"
  by (simp add: min_def word_le_nat_alt)

lemma cb_used_mod:
  assumes "cb_ok cb"
  shows "(unat (cb_tail cb) + cb_used cb) mod unat (cb_len cb) = unat (cb_head cb)"
  using cb_okD[OF assms] by (auto simp: cb_used_def word_le_nat_alt)

lemma inc_pointer:
  assumes ok: "cb_ok cb" and n: "unat p + unat i < 4294967296"
  shows "unat (INC_POINTER cb p i) = (unat p + unat i) mod unat (cb_len cb)"
proof (cases "cb_len_pow2 cb = 0")
  case True
  then show ?thesis using unat_add32[OF n] by (simp add: INC_POINTER_def unat_mod)
next
  case False
  then have "ispow2 (cb_len cb)" "cb_len_pow2 cb = log2_uint (cb_len cb)" "cb_len cb \<noteq> 0"
    using ok by (auto simp: cb_ok_def split: if_splits)
  then show ?thesis using False ispow2_log2[of "cb_len cb"] unat_add32[OF n] by (simp add: INC_POINTER_def unat_modpow2)
qed

text \<open>Moving the head over bytes that were stored there, and the tail over bytes that were read.\<close>

lemma cb_put_pass:
  assumes ok: "cb_ok cb" and n: "unat (cb_head cb) + length ys \<le> unat (cb_len cb)" "cb_used cb + length ys < unat (cb_len cb)"
    and cb': "cb_head cb' = INC_POINTER cb (cb_head cb) (of_nat (length ys))" "cb_tail cb' = cb_tail cb" "cb_len cb' = cb_len cb"
      "cb_len_pow2 cb' = cb_len_pow2 cb" "cb_buf cb' = memcpy_at (unat (cb_head cb)) ys (cb_buf cb)"
  shows "cb_ok cb' \<and> cb_cont cb' = cb_cont cb @ ys \<and> cb_used cb' = cb_used cb + length ys"
proof -
  let ?N = "unat (cb_len cb)" and ?h = "unat (cb_head cb)" and ?t = "unat (cb_tail cb)"
  note D = cb_okD[OF ok]
  have "?N < 4294967296" by (rule unat_lt32)
  then have k: "unat (of_nat (length ys) :: u32) = length ys" using n(1) by (simp add: unat_of_nat)
  then have h': "unat (cb_head cb') = (?h + length ys) mod ?N"
    using inc_pointer[OF ok, of "cb_head cb" "of_nat (length ys)"] n(1) unat_lt32[of "cb_len cb"] cb'(1) by simp
  have used: "cb_used cb' = cb_used cb + length ys"
  proof (cases "?h + length ys = ?N")
    case True
    then have "unat (cb_head cb') = 0" using h' by simp
    then show ?thesis using n D True cb'(2,3) by (auto simp: cb_used_def word_le_nat_alt)
  next
    case False
    then have "unat (cb_head cb') = ?h + length ys" using h' n(1) by simp
    then show ?thesis using n D False cb'(2,3) by (auto simp: cb_used_def word_le_nat_alt)
  qed
  have "unat (cb_head cb') < ?N" using h' D by simp
  then have "cb_ok cb'" using ok n D cb' by (simp add: cb_ok_def word_less_nat_alt)
  moreover have "ring (memcpy_at ?h ys (take ?N (cb_buf cb))) ?t (cb_used cb + length ys) =
      ring (take ?N (cb_buf cb)) ?t (cb_used cb) @ ys"
    by (rule ring_memcpy) (use D n cb_used_mod[OF ok] in auto)
  ultimately show ?thesis using used n D cb' by (simp add: cb_cont_def memcpy_at_take)
qed

lemma cb_get_pass:
  assumes ok: "cb_ok cb" and n: "unat (cb_tail cb) + unat n \<le> unat (cb_len cb)" "unat n \<le> cb_used cb"
    and cb': "cb' = cb\<lparr>cb_tail := INC_POINTER cb (cb_tail cb) n\<rparr>"
  shows "cb_ok cb' \<and> cb_cont cb' = drop (unat n) (cb_cont cb) \<and> cb_used cb' = cb_used cb - unat n \<and>
     take (unat n) (drop (unat (cb_tail cb)) (cb_buf cb)) = take (unat n) (cb_cont cb)"
proof -
  let ?N = "unat (cb_len cb)" and ?h = "unat (cb_head cb)" and ?t = "unat (cb_tail cb)"
  let ?xs = "take ?N (cb_buf cb)"
  note D = cb_okD[OF ok]
  have t': "unat (cb_tail cb') = (?t + unat n) mod ?N"
    using inc_pointer[OF ok, of "cb_tail cb" n] n(1) unat_lt32[of "cb_len cb"] cb' by simp
  have used: "cb_used cb' = cb_used cb - unat n"
  proof (cases "?t + unat n = ?N")
    case True
    then have "unat (cb_tail cb') = 0" using t' by simp
    then show ?thesis using n D True cb' by (auto simp: cb_used_def word_le_nat_alt split: if_splits)
  next
    case False
    then have "unat (cb_tail cb') = ?t + unat n" using t' n(1) by simp
    then show ?thesis using n D False cb' by (auto simp: cb_used_def word_le_nat_alt split: if_splits)
  qed
  have "cb_ok cb'" using ok t' D cb' by (simp add: cb_ok_def word_less_nat_alt)
  moreover have "cb_cont cb' = drop (unat n) (cb_cont cb)"
    using ring_drop[OF n(2), of ?xs ?t] used t' D cb' by (simp add: cb_cont_def)
  moreover have "take (unat n) (drop ?t (cb_buf cb)) = take (unat n) (cb_cont cb)"
  proof -
    have "take (unat n) (cb_cont cb) = ring ?xs ?t (unat n)" using ring_take[OF n(2), of ?xs ?t] by (simp add: cb_cont_def)
    also have "\<dots> = map (\<lambda>i. cb_buf cb ! (?t + i)) [0..<unat n]" using n D by (auto simp: ring_def)
    also have "\<dots> = take (unat n) (drop ?t (cb_buf cb))" by (rule nth_equalityI) (use n D in auto)
    finally show ?thesis ..
  qed
  ultimately show ?thesis using used by blast
qed

section \<open>The loops\<close>

lemma contiguous_space:
  assumes ok: "cb_ok cb" and p: "pos < len"
  defines "n \<equiv> unat (cbuf_get_contiguous_space cb len pos)"
  shows "n \<le> unat len - unat pos" "unat (cb_head cb) + n \<le> unat (cb_len cb)" "cb_used cb + n < unat (cb_len cb)"
    "cb_used cb < unat (cb_len cb) - 1 \<Longrightarrow> 0 < n"
proof -
  note D = cb_okD[OF ok]
  have lp: "unat (len - pos) = unat len - unat pos" "0 < unat len - unat pos"
    using p by (simp_all add: unat_sub word_less_nat_alt word_le_nat_alt)
  have u: "unat (a - b) = unat a - unat b" if "unat b \<le> unat a" for a b :: u32
    using that by (simp add: unat_sub word_le_nat_alt)
  have tz: "cb_tail cb \<noteq> 0 \<Longrightarrow> \<exists>m. unat (cb_tail cb) = Suc m" by (cases "unat (cb_tail cb)") (auto simp: unat_eq_zero)
  show "n \<le> unat len - unat pos" "unat (cb_head cb) + n \<le> unat (cb_len cb)" "cb_used cb + n < unat (cb_len cb)"
    "cb_used cb < unat (cb_len cb) - 1 \<Longrightarrow> 0 < n"
    using D lp tz by (auto simp: n_def cbuf_get_contiguous_space_def unat_min32 u cb_used_def word_le_nat_alt word_less_nat_alt
        split: if_splits)
qed

lemma contiguous_used:
  assumes ok: "cb_ok cb" and p: "pos < len" "cb_tail cb \<noteq> cb_head cb"
  defines "n \<equiv> unat (cbuf_get_contiguous_used cb len pos)"
  shows "n \<le> unat len - unat pos" "unat (cb_tail cb) + n \<le> unat (cb_len cb)" "n \<le> cb_used cb" "0 < n" "0 < cb_used cb"
proof -
  note D = cb_okD[OF ok]
  have lp: "unat (len - pos) = unat len - unat pos" "0 < unat len - unat pos"
    using p by (simp_all add: unat_sub word_less_nat_alt word_le_nat_alt)
  have ne: "unat (cb_tail cb) \<noteq> unat (cb_head cb)" using p(2) by (simp add: word_unat_eq_iff)
  have u: "unat (a - b) = unat a - unat b" if "unat b \<le> unat a" for a b :: u32
    using that by (simp add: unat_sub word_le_nat_alt)
  show "n \<le> unat len - unat pos" "unat (cb_tail cb) + n \<le> unat (cb_len cb)" "n \<le> cb_used cb" "0 < n" "0 < cb_used cb"
    using D lp ne by (auto simp: n_def cbuf_get_contiguous_used_def unat_min32 u cb_used_def word_le_nat_alt word_less_nat_alt
        split: if_splits)
qed

lemma space_avail_pow2:
  assumes ok: "cb_ok cb" and p: "ispow2 (cb_len cb)"
  shows "unat (cbuf_space_avail cb) = unat (cb_len cb) - 1 - cb_used cb" "unat (cbuf_space_used cb) = cb_used cb"
proof -
  let ?N = "unat (cb_len cb)" and ?h = "unat (cb_head cb)" and ?t = "unat (cb_tail cb)" and ?k = "cb_len_pow2 cb"
  note D = cb_okD[OF ok]
  have k: "?k = log2_uint (cb_len cb)" "cb_len cb \<noteq> 0" using ok p by (auto simp: cb_ok_def)
  then have N: "?N = 2 ^ ?k" using ispow2_log2[OF p] by simp
  have k32: "?k < 32" using log2_uint_top[OF k(2)] k(1) by simp
  have d: "unat (cb_head cb - cb_tail cb) mod ?N = cb_used cb"
  proof (cases "?t \<le> ?h")
    case True
    then have "unat (cb_head cb - cb_tail cb) = ?h - ?t" by (simp add: unat_sub word_le_nat_alt)
    then show ?thesis using True D by (simp add: cb_used_def word_le_nat_alt)
  next
    case False
    then have "unat (cb_head cb - cb_tail cb) = 2 ^ 32 + ?h - ?t" by (simp add: unat_sub_if')
    moreover have "(2 :: nat) ^ 32 = ?N * 2 ^ (32 - ?k)" using k32 by (simp add: N flip: power_add)
    moreover have "1 \<le> (2 :: nat) ^ (32 - ?k)" by simp
    then obtain j where "(2 :: nat) ^ (32 - ?k) = Suc j" by (cases "(2 :: nat) ^ (32 - ?k)") auto
    moreover define r where "r = ?N + ?h - ?t"
    ultimately have e: "unat (cb_head cb - cb_tail cb) = ?N * j + r" using False D by simp
    have "r < ?N" using False D by (simp add: r_def)
    then show ?thesis using False D unfolding e by (simp add: cb_used_def word_le_nat_alt r_def[symmetric])
  qed
  have used: "unat (if ?k \<noteq> 0 then modpow2 (cb_head cb - cb_tail cb) ?k else (cb_head cb - cb_tail cb) mod cb_len cb) = cb_used cb"
    using d N by (auto simp: unat_modpow2 unat_mod)
  then show "unat (cbuf_space_used cb) = cb_used cb" by (simp add: cbuf_space_used_def)
  have v: "(if ?k \<noteq> 0 then valpow2 ?k else cb_len cb) = cb_len cb"
  proof -
    have "valpow2 ?k = of_nat ?N" by (simp add: N valpow2_def push_bit_eq_mult)
    then show ?thesis by simp
  qed
  have a: "cbuf_space_avail cb = cb_len cb - cbuf_space_used cb - 1"
    using v by (auto simp: cbuf_space_avail_def cbuf_space_used_def)
  have "unat (cb_len cb - cbuf_space_used cb) = ?N - cb_used cb"
    using \<open>unat (cbuf_space_used cb) = cb_used cb\<close> D by (simp add: unat_sub word_le_nat_alt)
  then show "unat (cbuf_space_avail cb) = ?N - 1 - cb_used cb"
    using D by (simp add: a unat_sub word_le_nat_alt)
qed

text \<open>Nothing but the head, the bytes and the reset flag changes when writing; nothing but the tail when
  reading.\<close>

definition cb_same :: "cbuf \<Rightarrow> cbuf \<Rightarrow> bool" where
  "cb_same cb cb' \<longleftrightarrow> cb_len cb' = cb_len cb \<and> cb_len_pow2 cb' = cb_len_pow2 cb \<and> cb_event cb' = cb_event cb \<and>
     cb_no_event cb' = cb_no_event cb \<and> cb_flags cb' = cb_flags cb \<and> cb_len_max cb' = cb_len_max cb \<and>
     length (cb_buf cb') = length (cb_buf cb)"

lemma write_pass:
  assumes ok: "cb_ok cb" and w: "cbuf_is_sw_writer cb" and p: "pos < len" "unat len \<le> length xs"
  defines "n \<equiv> cbuf_get_contiguous_space cb len pos"
  shows "\<exists>cb1. cbuf_fill (Some xs) pos n cb = Some cb1 \<and>
    (let cb2 = cb1\<lparr>cb_head := INC_POINTER cb1 (cb_head cb1) n\<rparr> in cb_ok cb2 \<and> cb_same cb cb2 \<and> cbuf_is_sw_writer cb2 \<and>
       cb_tail cb2 = cb_tail cb \<and>
       cb_cont cb2 = cb_cont cb @ take (unat n) (drop (unat pos) xs) \<and> cb_used cb2 = cb_used cb + unat n)"
proof -
  note D = cb_okD[OF ok] and c = contiguous_space[OF ok p(1), folded n_def]
  let ?ys = "take (unat n) (drop (unat pos) xs)"
  have pn: "unat pos + unat n \<le> length xs" using c(1) p by (simp add: word_less_nat_alt)
  then have len: "length ?ys = unat n" by simp
  let ?m = "memcpy_at (unat (cb_head cb)) ?ys (cb_buf cb)"
  let ?cb1 = "cb\<lparr>cb_buf := ?m, cb_is_reset := False\<rparr>"
  let ?cb2 = "?cb1\<lparr>cb_head := INC_POINTER ?cb1 (cb_head ?cb1) n\<rparr>"
  have st: "unat (cb_head cb) + unat n \<le> length (cb_buf cb)" using c(2) D(3) by linarith
  have f: "cbuf_fill (Some xs) pos n cb = Some ?cb1"
    using w pn st len by (simp add: cbuf_fill_def load_at_def store_at_def)
  have inc: "INC_POINTER ?cb1 (cb_head ?cb1) n = INC_POINTER cb (cb_head cb) n" by (simp add: INC_POINTER_def)
  have "cb_ok ?cb2 \<and> cb_cont ?cb2 = cb_cont cb @ ?ys \<and> cb_used ?cb2 = cb_used cb + length ?ys"
    by (rule cb_put_pass[OF ok]) (use c len inc in simp_all)
  then show ?thesis using f len w st by (simp add: Let_def cb_same_def cbuf_is_sw_writer_def)
qed

lemma cbuf_write_loop_ok:
  "cb_ok cb \<Longrightarrow> cbuf_is_sw_writer cb \<Longrightarrow> unat len \<le> length xs \<Longrightarrow> pos \<le> len \<Longrightarrow>
   \<exists>p cb'. cbuf_write_loop (Some xs) len pos cb = Some (p, cb') \<and> pos \<le> p \<and> p \<le> len \<and> cb_ok cb' \<and> cb_same cb cb' \<and>
     cb_tail cb' = cb_tail cb \<and>
     cb_cont cb' = cb_cont cb @ take (unat p - unat pos) (drop (unat pos) xs) \<and>
     (ispow2 (cb_len cb) \<longrightarrow> cb_used cb + (unat len - unat pos) < unat (cb_len cb) \<longrightarrow> p = len)"
proof (induction "Some xs" len pos cb rule: cbuf_write_loop.induct)
  case (1 len pos cb)
  let ?n = "cbuf_get_contiguous_space cb len pos"
  note st = cbuf_write_loop.simps[of "Some xs" len pos cb]
  have stop: ?case if e: "cbuf_write_loop (Some xs) len pos cb = Some (pos, cb)"
    and f: "ispow2 (cb_len cb) \<Longrightarrow> cb_used cb + (unat len - unat pos) < unat (cb_len cb) \<Longrightarrow> pos = len"
    using 1 e f by (auto simp: cb_same_def)
  show ?case
  proof (cases "pos < len \<and> 0 < cbuf_space_avail cb")
    case False
    have "pos = len" if "ispow2 (cb_len cb)" "cb_used cb + (unat len - unat pos) < unat (cb_len cb)"
    proof (rule ccontr)
      assume "pos \<noteq> len"
      then have l: "pos < len" using "1.prems"(4) by simp
      then have "cbuf_space_avail cb = 0" using False by (simp add: word_gt_0)
      then have "unat (cbuf_space_avail cb) = 0" by simp
      then have "unat (cb_len cb) - 1 \<le> cb_used cb" using space_avail_pow2(1)[OF "1.prems"(1) that(1)] by simp
      then show False using that(2) l by (simp add: word_less_nat_alt)
    qed
    then show ?thesis using False st by (intro stop) auto
  next
    case True
    note c = contiguous_space[OF "1.prems"(1), of pos len]
    show ?thesis
    proof (cases "?n = 0")
      case z: True
      have "pos = len" if "ispow2 (cb_len cb)" "cb_used cb + (unat len - unat pos) < unat (cb_len cb)"
      proof -
        have "unat pos < unat len" using True by (simp add: word_less_nat_alt)
        then have "cb_used cb < unat (cb_len cb) - 1" using that(2) by linarith
        then show ?thesis using c(4) True z by simp
      qed
      then show ?thesis using True z st by (intro stop) auto
    next
      case nz: False
      from write_pass[OF "1.prems"(1,2) _ "1.prems"(3), of pos] True obtain cb1 where
        f: "cbuf_fill (Some xs) pos ?n cb = Some cb1" and cb2: "cb_ok (cb1\<lparr>cb_head := INC_POINTER cb1 (cb_head cb1) ?n\<rparr>)"
          "cb_same cb (cb1\<lparr>cb_head := INC_POINTER cb1 (cb_head cb1) ?n\<rparr>)"
          "cbuf_is_sw_writer (cb1\<lparr>cb_head := INC_POINTER cb1 (cb_head cb1) ?n\<rparr>)" "cb_tail cb1 = cb_tail cb"
          "cb_cont (cb1\<lparr>cb_head := INC_POINTER cb1 (cb_head cb1) ?n\<rparr>) = cb_cont cb @ take (unat ?n) (drop (unat pos) xs)"
          "cb_used (cb1\<lparr>cb_head := INC_POINTER cb1 (cb_head cb1) ?n\<rparr>) = cb_used cb + unat ?n"
        by (auto simp: Let_def)
      define cb2 where "cb2 = cb1\<lparr>cb_head := INC_POINTER cb1 (cb_head cb1) ?n\<rparr>"
      note s2 = cb2[folded cb2_def]
      have pl: "unat pos < unat len" using True by (simp add: word_less_nat_alt)
      then have pn: "unat (pos + ?n) = unat pos + unat ?n"
        using c(1) True unat_lt32[of len] by (intro unat_add32) auto
      have le: "pos + ?n \<le> len" using pn c(1) True pl by (simp add: word_le_nat_alt)
      have e: "cbuf_write_loop (Some xs) len pos cb = cbuf_write_loop (Some xs) len (pos + ?n) cb2"
        using st True nz f by (simp add: Let_def cb2_def)
      from "1.hyps"[OF True refl nz f _ _ _ le, folded cb2_def] s2 "1.prems"(3) obtain p cb' where
        r: "cbuf_write_loop (Some xs) len (pos + ?n) cb2 = Some (p, cb')" "pos + ?n \<le> p" "p \<le> len" "cb_ok cb'" "cb_same cb2 cb'"
          "cb_tail cb' = cb_tail cb2"
          "cb_cont cb' = cb_cont cb2 @ take (unat p - unat (pos + ?n)) (drop (unat (pos + ?n)) xs)"
          "ispow2 (cb_len cb2) \<longrightarrow> cb_used cb2 + (unat len - unat (pos + ?n)) < unat (cb_len cb2) \<longrightarrow> p = len"
        by blast
      have p: "unat pos + unat ?n \<le> unat p" using r(2) pn by (simp add: word_le_nat_alt)
      have "take (unat ?n) (drop (unat pos) xs) @ take (unat p - unat (pos + ?n)) (drop (unat (pos + ?n)) xs) =
          take (unat p - unat pos) (drop (unat pos) xs)"
        using p pn take_add[of "unat ?n" "unat p - (unat pos + unat ?n)" "drop (unat pos) xs"] by (simp add: add.commute)
      moreover have "cb_same cb cb'" using r(5) s2(2) by (simp add: cb_same_def)
      moreover have "pos \<le> p" using p by (simp add: word_le_nat_alt)
      moreover have "cb_tail cb2 = cb_tail cb" using s2(4) by (simp add: cb2_def)
      ultimately show ?thesis using e r s2 pn c(1) True by (auto simp: cb_same_def)
    qed
  qed
qed

lemma cbuf_read_loop_ok:
  "cb_ok cb \<Longrightarrow> pos \<le> len \<Longrightarrow>
   \<exists>p ys cb'. cbuf_read_loop len pos cb = Some (p, ys, cb') \<and> cb_ok cb' \<and> cb_same cb cb' \<and> cb_head cb' = cb_head cb \<and>
     cb_buf cb' = cb_buf cb \<and>
     unat p = unat pos + min (unat len - unat pos) (cb_used cb) \<and>
     ys = take (unat len - unat pos) (cb_cont cb) \<and> cb_cont cb' = drop (unat len - unat pos) (cb_cont cb)"
proof (induction "unat len - unat pos" arbitrary: pos cb rule: less_induct)
  case less
  let ?n = "cbuf_get_contiguous_used cb len pos"
  note D = cb_okD[OF less.prems(1)]
  have used: "length (cb_cont cb) = cb_used cb" by (simp add: cb_cont_def)
  show ?case
  proof (cases "pos < len \<and> cb_tail cb \<noteq> cb_head cb")
    case False
    then have "unat len - unat pos = 0 \<or> cb_used cb = 0"
      using less.prems(2) by (auto simp: cb_used_def word_le_nat_alt word_less_nat_alt)
    moreover have "cbuf_read_loop len pos cb = Some (pos, [], cb)" using False by (subst cbuf_read_loop.simps) auto
    ultimately show ?thesis using less.prems used by (auto simp: cb_same_def)
  next
    case True
    note c = contiguous_used[OF less.prems(1), of pos len]
    define cb2 where "cb2 = cb\<lparr>cb_tail := INC_POINTER cb (cb_tail cb) ?n\<rparr>"
    have g: "cb_ok cb2" "cb_cont cb2 = drop (unat ?n) (cb_cont cb)" "cb_used cb2 = cb_used cb - unat ?n"
        "take (unat ?n) (drop (unat (cb_tail cb)) (cb_buf cb)) = take (unat ?n) (cb_cont cb)"
      using cb_get_pass[OF less.prems(1), of ?n cb2] c True by (auto simp: cb2_def)
    have pn: "unat (pos + ?n) = unat pos + unat ?n"
      using c(1) True unat_lt32[of len] by (intro unat_add32) (auto simp: word_less_nat_alt)
    have lt: "unat len - unat (pos + ?n) < unat len - unat pos" using pn c(1,4) True by (simp add: word_less_nat_alt)
    have "unat pos + unat ?n \<le> unat len" using c(1) True by (auto simp: word_less_nat_alt)
    then have le: "pos + ?n \<le> len" using pn by (simp add: word_le_nat_alt)
    from less.hyps[OF lt g(1) le] obtain p ys cb' where
      r: "cbuf_read_loop len (pos + ?n) cb2 = Some (p, ys, cb')" "cb_ok cb'" "cb_same cb2 cb'" "cb_head cb' = cb_head cb2"
        "cb_buf cb' = cb_buf cb2"
        "unat p = unat (pos + ?n) + min (unat len - unat (pos + ?n)) (cb_used cb2)"
        "ys = take (unat len - unat (pos + ?n)) (cb_cont cb2)" "cb_cont cb' = drop (unat len - unat (pos + ?n)) (cb_cont cb2)"
      by blast
    have ld: "load_at (unat (cb_tail cb)) (unat ?n) (cb_buf cb) = Some (take (unat ?n) (cb_cont cb))"
      using c(2) True D(3) g(4) by (simp add: load_at_def)
    have e: "cbuf_read_loop len pos cb = Some (p, take (unat ?n) (cb_cont cb) @ ys, cb')"
      using True r(1) ld by (subst cbuf_read_loop.simps) (simp add: Let_def cb2_def)
    define a where "a = unat len - unat pos"
    define n where "n = unat ?n"
    have a: "n \<le> a" "unat len - unat (pos + ?n) = a - n" using c(1) True pn by (simp_all add: a_def n_def)
    have "take n (cb_cont cb) @ take (a - n) (drop n (cb_cont cb)) = take a (cb_cont cb)"
      using take_add[of n "a - n" "cb_cont cb"] a(1) by simp
    moreover have "drop (a - n) (drop n (cb_cont cb)) = drop a (cb_cont cb)" using a(1) by (simp add: add.commute)
    moreover have "unat p = unat pos + min a (cb_used cb)"
      using r(6) pn a c(3) True g(3) by (auto simp: n_def[symmetric] min_def)
    moreover have "cb_same cb cb'" "cb_head cb' = cb_head cb" "cb_buf cb' = cb_buf cb" using r(3-5) by (simp_all add: cb2_def cb_same_def)
    ultimately show ?thesis using e r(2,7,8) a(2) g(2) by (simp add: a_def[symmetric] n_def[symmetric])
  qed
qed

section \<open>A power-of-two buffer is a bounded queue\<close>

definition cb_ready :: "cbuf \<Rightarrow> bool" where
  "cb_ready cb \<longleftrightarrow> cb_ok cb \<and> ispow2 (cb_len cb) \<and> cbuf_is_sw_writer cb"

definition cb_put :: "8 word list \<Rightarrow> cbuf \<Rightarrow> (nat \<times> cbuf) option" where
  "cb_put xs cb = (let len = (if length xs < unat (cb_len cb) then of_nat (length xs) else cb_len cb - 1) in
     map_option (\<lambda>(p, cb'). (unat p, cb')) (cbuf_write_loop (Some xs) len 0 cb))"

definition cb_get :: "cbuf \<Rightarrow> (8 word option \<times> cbuf) option" where
  "cb_get cb = map_option (\<lambda>(p, ys, cb'). (if ys = [] then None else Some (hd ys), cb')) (cbuf_read_loop 1 0 cb)"

interpretation cbq: bounded_fifo cb_ready "\<lambda>cb. unat (cb_len cb) - 1" cb_cont cb_put cb_get
proof (unfold_locales, goal_cases)
  case (1 cb)
  then show ?case using cb_okD(5)[of cb] by (simp add: cb_ready_def cb_cont_def)
next
  case (2 cb xs)
  note D = cb_okD[of cb]
  define len where "len = (if length xs < unat (cb_len cb) then of_nat (length xs) else cb_len cb - 1)"
  have ok: "cb_ok cb" "ispow2 (cb_len cb)" "cbuf_is_sw_writer cb" using 2 by (auto simp: cb_ready_def)
  have len: "unat len = min (length xs) (unat (cb_len cb) - 1)"
    using D[OF ok(1)] unat_lt32[of "cb_len cb"] by (auto simp: len_def unat_of_nat unat_sub word_le_nat_alt)
  then have lx: "unat len \<le> length xs" by simp
  from cbuf_write_loop_ok[OF ok(1,3) lx, of 0] obtain p cb' where
    r: "cbuf_write_loop (Some xs) len 0 cb = Some (p, cb')" "p \<le> len" "cb_ok cb'" "cb_same cb cb'"
      "cb_cont cb' = cb_cont cb @ take (unat p) xs"
      "cb_used cb + unat len < unat (cb_len cb) \<longrightarrow> p = len" using ok(2) by auto
  have "cb_ready cb'" using r(3,4) ok by (simp add: cb_ready_def cb_same_def cbuf_is_sw_writer_def)
  moreover have "unat p \<le> length xs" using r(2) lx by (simp add: word_le_nat_alt)
  moreover have "unat p = length xs" if "length (cb_cont cb) + length xs \<le> unat (cb_len cb) - 1"
  proof -
    have "cb_used cb + length xs \<le> unat (cb_len cb) - 1" using that by (simp add: cb_cont_def)
    then have "unat len = length xs" "cb_used cb + unat len < unat (cb_len cb)" using len D[OF ok(1)] by linarith+
    then show ?thesis using r(6) by simp
  qed
  ultimately show ?case using r(1,4,5) by (auto simp: cb_put_def Let_def len_def[symmetric] cb_same_def)
next
  case (3 cb)
  then have "cb_tail cb = cb_head cb"
    using cb_okD[of cb] by (auto simp: cb_ready_def cb_cont_def cb_used_def word_unat_eq_iff word_le_nat_alt ring_def split: if_splits)
  then show ?case by (subst cb_get_def, subst cbuf_read_loop.simps) simp
next
  case (4 cb x ys)
  then have ok: "cb_ok cb" by (simp add: cb_ready_def)
  from cbuf_read_loop_ok[OF ok, of 0 1] 4(2) obtain p cb' where
    "cbuf_read_loop 1 0 cb = Some (p, [x], cb')" "cb_ok cb'" "cb_same cb cb'" "cb_cont cb' = ys" by auto
  then show ?case using 4(1) by (auto simp: cb_get_def cb_ready_def cb_same_def cbuf_is_sw_writer_def)
qed

section \<open>Signalling\<close>

lemma cbuf_more:
  assumes "sync_state.more s' = sync_state.more (s :: 'z cbuf_state_scheme)"
  shows "cbufs s' = cbufs s" "cbuf_mem s' = cbuf_mem s"
  using assms by (cases s; cases s'; simp)+

lemma kstate_sync_more:
  assumes "kstate.more s' = kstate.more (s :: 'z sync_state_scheme)"
  shows "sync_state.more s' = sync_state.more s"
  using assms by (cases s; cases s'; simp)

lemma upd_event_more [simp]: "sync_state.more (upd_event e f s) = sync_state.more s"
  by (cases s) (simp add: upd_event_def)

text \<open>The event of a buffer is a plain one (not auto-unsignalling): signalling it wakes every waiter.\<close>

definition event_ok :: "nat \<Rightarrow> 'z sync_state_scheme \<Rightarrow> bool" where
  "event_ok e s \<longleftrightarrow> e_magic (events s e) = EVENT_MAGIC \<and> e_flags (events s e) AND EVENT_FLAG_AUTOUNSIGNAL = 0 \<and>
     wq_magic (wqs s (WQ_event e)) = WAIT_QUEUE_MAGIC"

lemma event_signal_quiet:
  assumes inv: "kinv C s" and e: "event_ok e s"
  shows "wp (event_done (event_signal c e False s)) (\<lambda>s'. kinv C s' \<and> sync_state.more s' = sync_state.more s \<and>
     e_signaled (events s' e) \<and> event_ok e s' \<and>
     (\<not> e_signaled (events s e) \<longrightarrow> lcont (queues s') (WaitL (WQ_event e)) = [] \<and>
        (\<forall>t \<in> set (lcont (queues s) (WaitL (WQ_event e))). wait_queue_block_ret (threads s' t) = NO_ERROR)))"
proof (cases "e_signaled (events s e)")
  case True
  then show ?thesis using inv e by (simp add: event_signal_def event_done_def event_ok_def)
next
  case False
  let ?s0 = "upd_event e (\<lambda>x. x\<lparr>e_signaled := True\<rparr>) s" and ?ts = "lcont (queues s) (WaitL (WQ_event e))"
  have k0: "kinv C ?s0" "wq_magic (wqs ?s0 (WQ_event e)) = WAIT_QUEUE_MAGIC" using inv e by (simp_all add: event_ok_def)
  have "wp (wait_queue_wake_all c (WQ_event e) False NO_ERROR ?s0) (\<lambda>(r, s'). r = Ret (int (length ?ts)) \<and>
      sched_inv C C {} s' \<and> wake_post {} (WQ_event e) NO_ERROR ?ts [] ?s0 s' \<and> pushed_all ?ts ?s0 s')"
    by (rule wake_all_wp) (use kinvD(1)[OF k0(1)] k0(2) in simp_all)
  then obtain s1 where s1: "wait_queue_wake_all c (WQ_event e) False NO_ERROR ?s0 = Some (Ret (int (length ?ts)), s1)"
      "sched_inv C C {} s1" "wake_post {} (WQ_event e) NO_ERROR ?ts [] ?s0 s1" "pushed_all ?ts ?s0 s1" by (auto simp: wp_ex)
  have "preempt_inv C s1"
    by (rule preempt_inv_base[OF kinvD(2)[OF k0(1)] conjunct1[OF s1(3)[unfolded wake_post_def]]])
      (use s1(4) in \<open>simp_all add: pushed_all_def\<close>)
  then have "kinv C s1" using s1(2) by (simp add: kinv_def)
  moreover have m: "kstate.more s1 = kstate.more ?s0" by (rule wake_post_more[OF s1(3)])
  moreover have "event_ok e s1" using e s1(3) sync_more(3)[OF m] by (simp add: event_ok_def wake_post_def)
  moreover have "event_signal c e False s = Some (Ret NO_ERROR, s1)"
    using e False s1(1) by (simp add: event_signal_def event_ok_def with_frame_def)
  ultimately show ?thesis
    using s1(3) sync_more(3)[OF m] kstate_sync_more[OF m] by (simp add: event_done_def wake_post_def)
qed

section \<open>Writing and reading\<close>

definition cbuf_event_ok :: "nat \<Rightarrow> 'z cbuf_state_scheme \<Rightarrow> bool" where
  "cbuf_event_ok p s \<longleftrightarrow> cb_no_event (cbufs s p) \<or> event_ok (cb_event (cbufs s p)) s"

lemma set_cbuf_sel [simp]:
  "kinv C (set_cbuf p cb s) = kinv C s" "cbufs (set_cbuf p cb s) = (cbufs s)(p := cb)" "cbuf_mem (set_cbuf p cb s) = cbuf_mem s"
  "event_ok e (set_cbuf p cb s) = event_ok e s" "events (set_cbuf p cb s) = events s" "queues (set_cbuf p cb s) = queues s"
  "threads (set_cbuf p cb s) = threads s" "current (set_cbuf p cb s) = current s"
  by (simp_all add: set_cbuf_def event_ok_def kinv_def sched_inv_def queue_inv_def bitmap_ok_def thread_inv_def cpu_inv_def preempt_inv_def)

lemma cbuf_write_wo_lock_wp:
  assumes k: "kinv C s" and ok: "cb_ready (cbufs s p)" "cbuf_event_ok p s" and len: "unat len = length xs"
  shows "wp (cbuf_write_wo_lock c p (Some xs) len s) (\<lambda>(n, s'). kinv C s' \<and> cb_ready (cbufs s' p) \<and> cbuf_event_ok p s' \<and>
     cb_same (cbufs s p) (cbufs s' p) \<and> unat n \<le> length xs \<and> cbuf_mem s' = cbuf_mem s \<and> (\<forall>q. q \<noteq> p \<longrightarrow> cbufs s' q = cbufs s q) \<and>
     cb_cont (cbufs s' p) = cb_cont (cbufs s p) @ take (unat n) xs \<and>
     (length (cb_cont (cbufs s p)) + length xs < unat (cb_len (cbufs s p)) \<longrightarrow> n = len) \<and>
     (\<not> cb_no_event (cbufs s p) \<longrightarrow> cb_cont (cbufs s' p) \<noteq> [] \<longrightarrow> e_signaled (events s' (cb_event (cbufs s p))) \<and>
        (\<not> e_signaled (events s (cb_event (cbufs s p))) \<longrightarrow>
           lcont (queues s') (WaitL (WQ_event (cb_event (cbufs s p)))) = [])))"
proof -
  let ?cb = "cbufs s p"
  have o: "cb_ok ?cb" "ispow2 (cb_len ?cb)" "cbuf_is_sw_writer ?cb" using ok by (auto simp: cb_ready_def)
  from cbuf_write_loop_ok[OF o(1,3), of len xs 0] len o(2) obtain n cb' where
    w: "cbuf_write_loop (Some xs) len 0 ?cb = Some (n, cb')" "n \<le> len" "cb_ok cb'" "cb_same ?cb cb'"
      "cb_cont cb' = cb_cont ?cb @ take (unat n) xs" "cb_used ?cb + unat len < unat (cb_len ?cb) \<longrightarrow> n = len" by auto
  have rd: "cb_ready cb'" using w(3,4) o by (simp add: cb_ready_def cb_same_def cbuf_is_sw_writer_def)
  have nl: "unat n \<le> length xs" using w(2) len by (simp add: word_le_nat_alt)
  have full: "length (cb_cont ?cb) + length xs < unat (cb_len ?cb) \<longrightarrow> n = len" using w(6) len by (simp add: cb_cont_def)
  have same: "cb_event cb' = cb_event ?cb" "cb_no_event cb' = cb_no_event ?cb" using w(4) by (simp_all add: cb_same_def)
  have empty: "cb_head cb' = cb_tail cb' \<Longrightarrow> cb_cont cb' = []" by (simp add: cb_cont_def cb_used_def)
  show ?thesis
  proof (cases "\<not> cb_no_event cb' \<and> cb_head cb' \<noteq> cb_tail cb'")
    case False
    then show ?thesis using w(1,4,5) rd nl full same ok(2) k empty
      by (auto simp: cbuf_write_wo_lock_def cbuf_event_ok_def)
  next
    case True
    then have e: "event_ok (cb_event cb') (set_cbuf p cb' s)" using ok(2) same by (simp add: cbuf_event_ok_def)
    have k1: "kinv C (set_cbuf p cb' s)" using k by simp
    have "wp (event_done (event_signal c (cb_event cb') False (set_cbuf p cb' s))) (\<lambda>s'. kinv C s' \<and>
        event_ok (cb_event cb') s' \<and> cbufs s' = (cbufs s)(p := cb') \<and> cbuf_mem s' = cbuf_mem s \<and>
        e_signaled (events s' (cb_event cb')) \<and>
        (\<not> e_signaled (events s (cb_event cb')) \<longrightarrow> lcont (queues s') (WaitL (WQ_event (cb_event cb'))) = []))"
      by (rule wp_mono[OF event_signal_quiet[OF k1 e]]) (elim conjE, simp add: cbuf_more[of _ "set_cbuf p cb' s"])
    then obtain s' where s': "event_done (event_signal c (cb_event cb') False (set_cbuf p cb' s)) = Some s'" "kinv C s'"
        "event_ok (cb_event cb') s'" "cbufs s' = (cbufs s)(p := cb')" "cbuf_mem s' = cbuf_mem s"
        "e_signaled (events s' (cb_event cb'))"
        "\<not> e_signaled (events s (cb_event cb')) \<longrightarrow> lcont (queues s') (WaitL (WQ_event (cb_event cb'))) = []"
      unfolding wp_ex by blast
    then show ?thesis using w(1,4,5) rd nl full same True
      by (simp add: cbuf_write_wo_lock_def cbuf_event_ok_def)
  qed
qed

lemma cbuf_read_wo_lock_wp:
  assumes k: "kinv C s" and ok: "cb_ok (cbufs s p)" "cbuf_event_ok p s" and d: "dst \<noteq> 0" "cbuf_is_sw_reader (cbufs s p)"
    and m: "unat len \<le> length (cbuf_mem s dst)" and pos: "0 < len"
  shows "wp (cbuf_read_wo_lock p dst 0 len s) (\<lambda>(n, s'). kinv C s' \<and> cb_ok (cbufs s' p) \<and> cbuf_event_ok p s' \<and>
     unat n = min (unat len) (length (cb_cont (cbufs s p))) \<and> cb_cont (cbufs s' p) = drop (unat len) (cb_cont (cbufs s p)) \<and>
     cbuf_mem s' dst = memcpy_at 0 (take (unat len) (cb_cont (cbufs s p))) (cbuf_mem s dst) \<and>
     (\<not> cb_no_event (cbufs s p) \<longrightarrow> cb_cont (cbufs s p) \<noteq> [] \<longrightarrow> cb_cont (cbufs s' p) = [] \<longrightarrow>
        \<not> e_signaled (events s' (cb_event (cbufs s p)))))"
proof -
  let ?cb = "cbufs s p"
  have used: "length (cb_cont cb) = cb_used cb" for cb by (simp add: cb_cont_def)
  have z: "cb_cont cb = [] \<longleftrightarrow> cb_tail cb = cb_head cb" if "cb_ok cb" for cb
  proof -
    have "cb_cont cb = [] \<longleftrightarrow> cb_used cb = 0" using used[of cb] by (metis length_0_conv)
    also have "\<dots> \<longleftrightarrow> cb_tail cb = cb_head cb"
      using cb_okD[OF that] by (auto simp: cb_used_def word_le_nat_alt word_unat_eq_iff)
    finally show ?thesis .
  qed
  show ?thesis
  proof (cases "cb_tail ?cb = cb_head ?cb")
    case True
    then show ?thesis using k ok z[OF ok(1)] by (simp add: cbuf_read_wo_lock_def)
  next
    case False
    from cbuf_read_loop_ok[OF ok(1), of 0 len] obtain n cb' where
      r: "cbuf_read_loop len 0 ?cb = Some (n, take (unat len) (cb_cont ?cb), cb')" "cb_ok cb'" "cb_same ?cb cb'"
        "unat n = min (unat len) (cb_used ?cb)" "cb_cont cb' = drop (unat len) (cb_cont ?cb)" by auto
    have same: "cb_event cb' = cb_event ?cb" "cb_no_event cb' = cb_no_event ?cb" "cbuf_is_sw_reader cb'"
      using r(3) d(2) by (simp_all add: cb_same_def cbuf_is_sw_reader_def)
    let ?m = "memcpy_at 0 (take (unat len) (cb_cont ?cb)) (cbuf_mem s dst)"
    let ?s1 = "set_cbuf p cb' (s\<lparr>cbuf_mem := (cbuf_mem s)(dst := ?m)\<rparr>)"
    have st: "store_at 0 (take (unat len) (cb_cont ?cb)) (cbuf_mem s dst) = Some ?m" using m by (simp add: store_at_def)
    have n0: "0 < n"
    proof -
      have "cb_used ?cb \<noteq> 0" using z[OF ok(1)] False used[of ?cb] by (metis length_0_conv)
      then have "0 < unat n" using r(4) pos by (simp add: word_less_nat_alt)
      then show ?thesis by (simp add: word_less_nat_alt)
    qed
    have sel: "kinv C ?s1" "events ?s1 = events s" "wqs ?s1 = wqs s"
      using k by (simp_all add: set_cbuf_def kinv_def sched_inv_def queue_inv_def bitmap_ok_def thread_inv_def cpu_inv_def preempt_inv_def)
    show ?thesis
    proof (cases "\<not> cb_no_event cb' \<and> cb_tail cb' = cb_head cb'")
      case True
      let ?s2 = "upd_event (cb_event cb') (\<lambda>x. x\<lparr>e_signaled := False\<rparr>) ?s1"
      have "event_ok (cb_event cb') s" using True ok(2) same by (simp add: cbuf_event_ok_def)
      then have e: "event_done (event_unsignal (cb_event cb') ?s1) = Some ?s2" "event_ok (cb_event cb') ?s2"
        using sel by (simp_all add: event_unsignal_def event_done_def event_ok_def)
      have c2: "cbufs ?s2 = (cbufs s)(p := cb')" "cbuf_mem ?s2 = (cbuf_mem s)(dst := ?m)"
        by (simp_all add: upd_event_def set_cbuf_def)
      show ?thesis using False True r st d same e n0 sel c2 used[of ?cb]
        by (simp add: cbuf_read_wo_lock_def cbuf_event_ok_def Let_def)
    next
      case f: False
      have "cb_no_event cb' \<or> cb_cont cb' \<noteq> []" using f z[OF r(2)] by auto
      then show ?thesis using False f r st d same ok(2) sel used[of ?cb]
        by (auto simp: cbuf_read_wo_lock_def cbuf_event_ok_def event_ok_def Let_def)
    qed
  qed
qed

end
