(* ===== verification/Cbuf_Props.thy ===== *)
theory Cbuf_Props
  imports Cbuf_Inv
begin

text \<open>Properties of the circular byte buffers and their witnesses on a concrete state.\<close>

definition cbuf_demo :: cbuf_state where
  "cbuf_demo = sync_state.extend demo (cbuf_state.fields
     (\<lambda>_. \<lparr>cb_head = 6, cb_tail = 6, cb_len_max = 8, cb_len = 8, cb_len_pow2 = 3, cb_buf = replicate 8 0, cb_event = 0,
           cb_no_event = False, cb_is_reset = False, cb_flags = CBUF_FLAG_DEFAULT\<rparr>)
     (\<lambda>_. replicate 16 0))"

lemma cbuf_demo_sel:
  "threads cbuf_demo = threads demo" "queues cbuf_demo = queues demo" "current cbuf_demo = current demo"
  "idle_threads cbuf_demo = idle_threads demo" "wqs cbuf_demo = wqs demo" "tqueue cbuf_demo = tqueue demo"
  "timers cbuf_demo = timers demo" "has_dynamic_timer cbuf_demo = has_dynamic_timer demo"
  "run_queue_bitmap cbuf_demo = run_queue_bitmap demo" "events cbuf_demo = events demo"
  "cbufs cbuf_demo = (\<lambda>_. \<lparr>cb_head = 6, cb_tail = 6, cb_len_max = 8, cb_len = 8, cb_len_pow2 = 3, cb_buf = replicate 8 0,
     cb_event = 0, cb_no_event = False, cb_is_reset = False, cb_flags = CBUF_FLAG_DEFAULT\<rparr>)"
  "cbuf_mem cbuf_demo = (\<lambda>_. replicate 16 0)"
  by (simp_all add: cbuf_demo_def sync_state.defs cbuf_state.defs demo_def)

lemma cbuf_demo_kinv: "kinv {0} cbuf_demo"
  using demo_kinv
  by (simp add: kinv_def sched_inv_def queue_inv_def bitmap_ok_def thread_inv_def cpu_inv_def preempt_inv_def cbuf_demo_sel)

lemma cbuf_demo_ready: "cb_ready (cbufs cbuf_demo p)" "cbuf_event_ok p cbuf_demo" "cb_cont (cbufs cbuf_demo p) = []"
proof -
  have "log2_uint 8 = 3" "ispow2 8" by code_simp+
  then show "cb_ready (cbufs cbuf_demo p)" by (simp add: cb_ready_def cb_ok_def cbuf_is_sw_writer_def cbuf_demo_sel)
  show "cbuf_event_ok p cbuf_demo" by (simp add: cbuf_event_ok_def event_ok_def cbuf_demo_sel demo_def)
  show "cb_cont (cbufs cbuf_demo p) = []" by (simp add: cb_cont_def cb_used_def cbuf_demo_sel)
qed

lemma cbuf_write_plain:
  assumes "len < cb_len (cbufs s p)" "\<not> cbuf_writer_use_max_chunk (cbufs s p)"
  shows "cbuf_write c p (Some xs) len False s =
    map_option (\<lambda>(n, s'). (Ret (uint n), s')) (cbuf_write_wo_lock c p (Some xs) len s)"
  using assms by (cases "cbuf_write_wo_lock c p (Some xs) len s") (auto simp: cbuf_write_def)

lemma cbuf_read_plain:
  assumes "\<not> cbuf_reader_use_max_chunk (cbufs s p)"
  shows "cbuf_read c p dst len False s = map_option (\<lambda>(n, s'). (Ret (uint n), s')) (cbuf_read_wo_lock p dst 0 len s)"
  using assms by (subst cbuf_read.simps) (cases "cbuf_read_wo_lock p dst 0 len s"; auto simp: cbuf_read_once_def)

text \<open>C18: Writing to a buffer of power-of-two length appends a prefix of the bytes to what it holds, all
  of them when they fit, also across the end of the storage; a buffer that holds data afterwards
  has its event signalled and no reader left waiting on it. The kernel invariant is kept.\<close>

theorem cbuf_write_appends_and_wakes:
  assumes "kinv C s" "cb_ready (cbufs s p)" "cbuf_event_ok p s" "\<not> cbuf_writer_use_max_chunk (cbufs s p)"
    "len < cb_len (cbufs s p)" "unat len = length xs"
  shows "\<exists>n s'. cbuf_write c p (Some xs) len False s = Some (Ret (int n), s') \<and> kinv C s' \<and> n \<le> length xs \<and>
     cb_cont (cbufs s' p) = cb_cont (cbufs s p) @ take n xs \<and>
     (length (cb_cont (cbufs s p)) + length xs < unat (cb_len (cbufs s p)) \<longrightarrow> n = length xs) \<and>
     (\<not> cb_no_event (cbufs s p) \<and> cb_cont (cbufs s' p) \<noteq> [] \<longrightarrow> e_signaled (events s' (cb_event (cbufs s p))) \<and>
        (\<not> e_signaled (events s (cb_event (cbufs s p))) \<longrightarrow> lcont (queues s') (WaitL (WQ_event (cb_event (cbufs s p)))) = []))"
proof -
  obtain n s' where w: "cbuf_write_wo_lock c p (Some xs) len s = Some (n, s')" "kinv C s'" "unat n \<le> length xs"
      "cb_cont (cbufs s' p) = cb_cont (cbufs s p) @ take (unat n) xs"
      "length (cb_cont (cbufs s p)) + length xs < unat (cb_len (cbufs s p)) \<longrightarrow> n = len"
      "\<not> cb_no_event (cbufs s p) \<longrightarrow> cb_cont (cbufs s' p) \<noteq> [] \<longrightarrow> e_signaled (events s' (cb_event (cbufs s p))) \<and>
        (\<not> e_signaled (events s (cb_event (cbufs s p))) \<longrightarrow> lcont (queues s') (WaitL (WQ_event (cb_event (cbufs s p)))) = [])"
    using cbuf_write_wo_lock_wp[OF assms(1-3,6), of c] unfolding wp_ex2 by blast
  then show ?thesis using cbuf_write_plain[OF assms(5,4), of c xs] assms(6)
    by (intro exI[of _ "unat n"] exI[of _ s']) auto
qed

theorem cbuf_write_appends_and_wakes_witness:
  "\<exists>s'. cbuf_write 0 1 (Some [1, 2, 3]) 3 False cbuf_demo = Some (Ret 3, s') \<and> cb_cont (cbufs s' 1) = [1, 2, 3] \<and>
     e_signaled (events s' 0)"
proof -
  obtain n s' where "cbuf_write 0 1 (Some [1, 2, 3]) 3 False cbuf_demo = Some (Ret (int n), s')"
      "cb_cont (cbufs s' 1) = take n [1, 2, 3]" "n = 3"
      "cb_cont (cbufs s' 1) \<noteq> [] \<longrightarrow> e_signaled (events s' 0)"
    using cbuf_write_appends_and_wakes[OF cbuf_demo_kinv cbuf_demo_ready(1,2), of 1 3 "[1, 2, 3]" 0] cbuf_demo_ready(3)[of 1]
    by (auto simp: cbuf_writer_use_max_chunk_def cbuf_demo_sel)
  then show ?thesis by auto
qed

text \<open>C17: Round trip. What is written to an empty buffer of power-of-two length comes out of the next
  read, byte for byte and in order, and the buffer is empty again with its event unsignalled.\<close>

theorem cbuf_write_read_roundtrip:
  assumes "kinv C s" "cb_ready (cbufs s p)" "cbuf_event_ok p s" "\<not> cbuf_writer_use_max_chunk (cbufs s p)"
    "\<not> cbuf_reader_use_max_chunk (cbufs s p)" "cbuf_is_sw_reader (cbufs s p)" "cb_cont (cbufs s p) = []"
    "len < cb_len (cbufs s p)" "unat len = length xs" "xs \<noteq> []" "dst \<noteq> 0" "length xs \<le> length (cbuf_mem s dst)"
  shows "\<exists>s1 s2. cbuf_write c p (Some xs) len False s = Some (Ret (int (length xs)), s1) \<and>
     cbuf_read c p dst len False s1 = Some (Ret (int (length xs)), s2) \<and>
     take (length xs) (cbuf_mem s2 dst) = xs \<and> cb_cont (cbufs s2 p) = [] \<and>
     (\<not> cb_no_event (cbufs s p) \<longrightarrow> \<not> e_signaled (events s2 (cb_event (cbufs s p))))"
proof -
  have fits: "length (cb_cont (cbufs s p)) + length xs < unat (cb_len (cbufs s p))"
    using assms(7-9) by (simp add: word_less_nat_alt)
  obtain n s1 where w0: "cbuf_write_wo_lock c p (Some xs) len s = Some (n, s1)" "kinv C s1" "cb_ready (cbufs s1 p)"
      "cbuf_event_ok p s1" "cb_same (cbufs s p) (cbufs s1 p)" "cbuf_mem s1 = cbuf_mem s"
      "cb_cont (cbufs s1 p) = cb_cont (cbufs s p) @ take (unat n) xs"
      "length (cb_cont (cbufs s p)) + length xs < unat (cb_len (cbufs s p)) \<longrightarrow> n = len"
    using cbuf_write_wo_lock_wp[OF assms(1-3,9), of c] unfolding wp_ex2 by blast
  have "n = len" using w0(8) fits by blast
  then have w: "cbuf_write_wo_lock c p (Some xs) len s = Some (len, s1)" "cb_cont (cbufs s1 p) = xs"
    using w0(1,7) assms(7,9) by simp_all
  note w1 = w0(2-6)
  have fl: "cbuf_is_sw_reader (cbufs s1 p)" "\<not> cbuf_reader_use_max_chunk (cbufs s1 p)" "cb_event (cbufs s1 p) = cb_event (cbufs s p)"
      "cb_no_event (cbufs s1 p) = cb_no_event (cbufs s p)" "cb_ok (cbufs s1 p)"
    using w1(2,4) assms(5,6) by (simp_all add: cb_same_def cbuf_is_sw_reader_def cbuf_reader_use_max_chunk_def cb_ready_def)
  have m: "unat len \<le> length (cbuf_mem s1 dst)" "0 < len"
    using assms(9,10,12) w1(5) by (simp_all add: word_less_nat_alt)
  obtain n s2 where r: "cbuf_read_wo_lock p dst 0 len s1 = Some (n, s2)" "unat n = length xs" "cb_cont (cbufs s2 p) = []"
      "cbuf_mem s2 dst = memcpy_at 0 xs (cbuf_mem s1 dst)"
      "\<not> cb_no_event (cbufs s1 p) \<longrightarrow> \<not> e_signaled (events s2 (cb_event (cbufs s1 p)))"
    using cbuf_read_wo_lock_wp[OF w1(1) fl(5) w1(3) assms(11) fl(1) m] w(2) assms(9,10) by (auto simp: wp_ex2)
  have u: "uint len = int (length xs)" "uint n = int (length xs)"
  proof -
    show "uint len = int (length xs)" unfolding assms(9)[symmetric] by simp
    show "uint n = int (length xs)" unfolding r(2)[symmetric] by simp
  qed
  have "cbuf_write c p (Some xs) len False s = Some (Ret (int (length xs)), s1)"
    using cbuf_write_plain[OF assms(8,4), of c xs] w(1) u by simp
  moreover have "cbuf_read c p dst len False s1 = Some (Ret (int (length xs)), s2)"
    using cbuf_read_plain[OF fl(2), of c dst len] r(1) u by simp
  ultimately show ?thesis using r fl by (auto simp: memcpy_at_def)
qed

theorem cbuf_write_read_roundtrip_witness:
  "\<exists>s1 s2. cbuf_write 0 1 (Some [1, 2, 3]) 3 False cbuf_demo = Some (Ret 3, s1) \<and>
     cbuf_read 0 1 9 3 False s1 = Some (Ret 3, s2) \<and> take 3 (cbuf_mem s2 9) = [1, 2, 3]"
proof -
  have L: "length [1 :: 8 word, 2, 3] = 3" by simp
  show ?thesis
    using cbuf_write_read_roundtrip[OF cbuf_demo_kinv cbuf_demo_ready(1,2), of 1 3 "[1, 2, 3]" 9 0, unfolded L] cbuf_demo_ready(3)[of 1]
    by (auto simp: cbuf_writer_use_max_chunk_def cbuf_reader_use_max_chunk_def cbuf_is_sw_reader_def cbuf_demo_sel)
qed

text \<open>With a length that is not a power of two the space computation is wrong once the head has
  wrapped around: \<open>(head - tail) % len\<close> reduces a difference modulo \<open>2 ^ 32\<close>, not modulo the
  length. A buffer of 3 bytes with head 0 and tail 2 holds one byte, but reports two, and a write
  stores nothing although a byte is free.\<close>

theorem cbuf_space_wrong_for_other_lengths:
  assumes "cb_len cb = 3" "cb_head cb = 0" "cb_tail cb = 2" "cb_len_pow2 cb = 0" "length (cb_buf cb) = 3"
  shows "cb_ok cb \<and> length (cb_cont cb) = 1 \<and> cbuf_space_used cb = 2 \<and> cbuf_space_avail cb = 0 \<and>
     cbuf_write_loop src len 0 cb = Some (0, cb)"
proof -
  have p: "\<not> ispow2 3" by code_simp
  have a: "cbuf_space_used cb = 2" "cbuf_space_avail cb = 0" using assms by (simp_all add: cbuf_space_used_def cbuf_space_avail_def)
  then have "cbuf_write_loop src len 0 cb = Some (0, cb)" by (subst cbuf_write_loop.simps) simp
  then show ?thesis using assms a p by (simp add: cb_ok_def cb_cont_def cb_used_def)
qed

theorem cbuf_space_wrong_for_other_lengths_witness:
  "cbuf_write_loop (Some [7]) 1 0 \<lparr>cb_head = 0, cb_tail = 2, cb_len_max = 3, cb_len = 3, cb_len_pow2 = 0, cb_buf = [0, 0, 9],
      cb_event = 0, cb_no_event = True, cb_is_reset = False, cb_flags = CBUF_FLAG_DEFAULT\<rparr> =
    Some (0, \<lparr>cb_head = 0, cb_tail = 2, cb_len_max = 3, cb_len = 3, cb_len_pow2 = 0, cb_buf = [0, 0, 9],
      cb_event = 0, cb_no_event = True, cb_is_reset = False, cb_flags = CBUF_FLAG_DEFAULT\<rparr>)"
  using cbuf_space_wrong_for_other_lengths[of "\<lparr>cb_head = 0, cb_tail = 2, cb_len_max = 3, cb_len = 3, cb_len_pow2 = 0, cb_buf = [0, 0, 9],
      cb_event = 0, cb_no_event = True, cb_is_reset = False, cb_flags = CBUF_FLAG_DEFAULT\<rparr>" "Some [7]" 1] by simp

end
