(* ===== verification/Libc_Mem.thy ===== *)
theory Libc_Mem
  imports LK_Prelude
begin

text \<open>
  The memory routines of \<^verbatim>\<open>lib/libc/string\<close>, on a byte-addressed 32-bit memory: an address is a
  \<open>u32\<close>, the memory a function from addresses to bytes. \<open>long\<close>, \<open>size_t\<close> and pointers have 32
  bits and \<open>int\<close> is signed with 32 bits, so the conversions between them are written out. A word
  access to an address that is not a multiple of 4 faults: its value is \<open>None\<close>.
\<close>

section \<open>Memory\<close>

type_synonym mem = "u32 \<Rightarrow> u8"

abbreviation (input) lsize :: u32 where "lsize \<equiv> 4"
abbreviation (input) lmask :: u32 where "lmask \<equiv> 3"

definition load_word :: "u32 \<Rightarrow> mem \<Rightarrow> u32 option" where
  "load_word a m = (if a AND lmask = 0
     then Some (ucast (m a) OR push_bit 8 (ucast (m (a + 1))) OR push_bit 16 (ucast (m (a + 2)))
            OR push_bit 24 (ucast (m (a + 3))))
     else None)"

definition store_word :: "u32 \<Rightarrow> u32 \<Rightarrow> mem \<Rightarrow> mem option" where
  "store_word a w m = (if a AND lmask = 0
     then Some (m(a := ucast w, a + 1 := ucast (drop_bit 8 w), a + 2 := ucast (drop_bit 16 w),
                  a + 3 := ucast (drop_bit 24 w)))
     else None)"

text \<open>The number of iterations of \<open>for (; len > 0; len--)\<close> for an \<open>int len\<close>.\<close>

definition int_count :: "u32 \<Rightarrow> nat" where
  "int_count len = nat (sint len)"

section \<open>memcpy and memmove\<close>

text \<open>The byte movers \<open>*d++ = *s++\<close> and \<open>*--d = *--s\<close>.\<close>

fun bytes_up :: "nat \<Rightarrow> u32 \<Rightarrow> u32 \<Rightarrow> mem \<Rightarrow> u32 \<times> u32 \<times> mem" where
  "bytes_up 0 d s m = (d, s, m)"
| "bytes_up (Suc n) d s m = bytes_up n (d + 1) (s + 1) (m(d := m s))"

fun bytes_down :: "nat \<Rightarrow> u32 \<Rightarrow> u32 \<Rightarrow> mem \<Rightarrow> u32 \<times> u32 \<times> mem" where
  "bytes_down 0 d s m = (d, s, m)"
| "bytes_down (Suc n) d s m = bytes_down n (d - 1) (s - 1) (m(d - 1 := m (s - 1)))"

text \<open>The word movers.\<close>

fun words_up :: "nat \<Rightarrow> u32 \<Rightarrow> u32 \<Rightarrow> mem \<Rightarrow> (u32 \<times> u32 \<times> mem) option" where
  "words_up 0 d s m = Some (d, s, m)"
| "words_up (Suc n) d s m = do {
     w \<leftarrow> load_word s m;
     m \<leftarrow> store_word d w m;
     words_up n (d + lsize) (s + lsize) m }"

fun words_down :: "nat \<Rightarrow> u32 \<Rightarrow> u32 \<Rightarrow> mem \<Rightarrow> (u32 \<times> u32 \<times> mem) option" where
  "words_down 0 d s m = Some (d, s, m)"
| "words_down (Suc n) d s m = do {
     w \<leftarrow> load_word (s - lsize) m;
     m \<leftarrow> store_word (d - lsize) w m;
     words_down n (d - lsize) (s - lsize) m }"

definition memcpy :: "u32 \<Rightarrow> u32 \<Rightarrow> u32 \<Rightarrow> mem \<Rightarrow> (u32 \<times> mem) option" where
  "memcpy dest src count m =
    (if count = 0 \<or> dest = src then Some (dest, m)
     else
       let (d, s, count, m) =
         (if (dest OR src) AND lmask \<noteq> 0 then
            let len = (if (dest XOR src) AND lmask \<noteq> 0 \<or> count < lsize then count else lsize - (dest AND lmask));
                (d, s, m) = bytes_up (int_count len) dest src m
            in (d, s, count - len, m)
          else (dest, src, count, m))
       in do {
         (d, s, m) \<leftarrow> words_up (int_count (count div lsize)) d s m;
         let (d, s, m) = bytes_up (int_count (count AND lmask)) d s m;
         Some (dest, m) })"

definition memmove :: "u32 \<Rightarrow> u32 \<Rightarrow> u32 \<Rightarrow> mem \<Rightarrow> (u32 \<times> mem) option" where
  "memmove dest src count m =
    (if count = 0 \<or> dest = src then Some (dest, m)
     else if sint dest < sint src then
       let (d, s, count, m) =
         (if (dest OR src) AND lmask \<noteq> 0 then
            let len = (if (dest XOR src) AND lmask \<noteq> 0 \<or> count < lsize then count else lsize - (dest AND lmask));
                (d, s, m) = bytes_up (int_count len) dest src m
            in (d, s, count - len, m)
          else (dest, src, count, m))
       in do {
         (d, s, m) \<leftarrow> words_up (int_count (count div lsize)) d s m;
         let (d, s, m) = bytes_up (int_count (count AND lmask)) d s m;
         Some (dest, m) }
     else
       let d = dest + count; s = src + count;
           (d, s, count, m) =
         (if (d OR s) AND lmask \<noteq> 0 then
            let len = (if (d XOR s) AND lmask \<noteq> 0 \<or> count \<le> lsize then count else d AND lmask);
                (d, s, m) = bytes_down (int_count len) d s m
            in (d, s, count - len, m)
          else (d, s, count, m))
       in do {
         (d, s, m) \<leftarrow> words_down (int_count (count div lsize)) d s m;
         let (d, s, m) = bytes_down (int_count (count AND lmask)) d s m;
         Some (dest, m) })"

definition bcopy :: "u32 \<Rightarrow> u32 \<Rightarrow> u32 \<Rightarrow> mem \<Rightarrow> mem option" where
  "bcopy src dest count m = do { (_, m) \<leftarrow> memcpy dest src count m; Some m }"

section \<open>memset\<close>

text \<open>\<open>*xs++ = c\<close> for a \<open>size_t\<close> counter, and the word loop.\<close>

fun fill_bytes :: "nat \<Rightarrow> u32 \<Rightarrow> u8 \<Rightarrow> mem \<Rightarrow> u32 \<times> mem" where
  "fill_bytes 0 xs c m = (xs, m)"
| "fill_bytes (Suc n) xs c m = fill_bytes n (xs + 1) c (m(xs := c))"

fun fill_words :: "nat \<Rightarrow> u32 \<Rightarrow> u32 \<Rightarrow> mem \<Rightarrow> (u32 \<times> mem) option" where
  "fill_words 0 xs cc m = Some (xs, m)"
| "fill_words (Suc n) xs cc m = do { m \<leftarrow> store_word xs cc m; fill_words n (xs + 4) cc m }"

definition memset :: "u32 \<Rightarrow> u32 \<Rightarrow> u32 \<Rightarrow> mem \<Rightarrow> (u32 \<times> mem) option" where
  "memset s c count m =
    (let len = (- s) AND 3;
         cc = c AND 0xff
     in do {
       (xs, count, m) \<leftarrow>
         (if count > len then
            let count = count - len;
                cc = cc OR push_bit 8 cc;
                cc = cc OR push_bit 16 cc;
                (xs, m) = fill_bytes (unat len) s (ucast c) m
            in do {
              (xs, m) \<leftarrow> fill_words (unat (count div 4)) xs cc m;
              Some (xs, count AND 3, m) }
          else Some (s, count, m));
       let (xs, m) = fill_bytes (unat count) xs (ucast c) m;
       Some (s, m) })"

definition bzero :: "u32 \<Rightarrow> u32 \<Rightarrow> mem \<Rightarrow> mem option" where
  "bzero dst count m = do { (_, m) \<leftarrow> memset dst 0 count m; Some m }"

section \<open>memcmp, memchr and memscan\<close>

text \<open>\<open>res\<close> is a \<open>signed char\<close>: the difference is cut to 8 bits and sign-extended on return.\<close>

fun memcmp_loop :: "nat \<Rightarrow> u32 \<Rightarrow> u32 \<Rightarrow> u8 \<Rightarrow> mem \<Rightarrow> u8" where
  "memcmp_loop 0 su1 su2 res m = res"
| "memcmp_loop (Suc count) su1 su2 res m =
    (let res = m su1 - m su2
     in if res \<noteq> 0 then res else memcmp_loop count (su1 + 1) (su2 + 1) res m)"

definition memcmp :: "u32 \<Rightarrow> u32 \<Rightarrow> u32 \<Rightarrow> mem \<Rightarrow> int" where
  "memcmp cs ct count m = sint (memcmp_loop (unat count) cs ct 0 m)"

fun memchr_loop :: "nat \<Rightarrow> u32 \<Rightarrow> u8 \<Rightarrow> mem \<Rightarrow> u32" where
  "memchr_loop 0 p x m = 0"
| "memchr_loop (Suc n) p x m = (if m p = x then p else memchr_loop n (p + 1) x m)"

definition memchr :: "u32 \<Rightarrow> u32 \<Rightarrow> u32 \<Rightarrow> mem \<Rightarrow> u32" where
  "memchr buf c len m = memchr_loop (unat len) buf (ucast (c AND 0xff)) m"

fun memscan_loop :: "nat \<Rightarrow> u32 \<Rightarrow> int \<Rightarrow> mem \<Rightarrow> u32" where
  "memscan_loop 0 p c m = p"
| "memscan_loop (Suc n) p c m = (if uint (m p) = c then p else memscan_loop n (p + 1) c m)"

definition memscan :: "u32 \<Rightarrow> int \<Rightarrow> u32 \<Rightarrow> mem \<Rightarrow> u32" where
  "memscan addr c sz m = memscan_loop (unat sz) addr c m"

section \<open>The reference: all bytes at once\<close>

text \<open>\<open>moved d s n m\<close> is memory after \<open>n\<close> bytes at \<open>s\<close> have been read and then written to \<open>d\<close>;
  \<open>filled\<close> the same for a constant.\<close>

definition moved :: "u32 \<Rightarrow> u32 \<Rightarrow> nat \<Rightarrow> mem \<Rightarrow> mem" where
  "moved d s n m = (\<lambda>a. if unat (a - d) < n then m (s + (a - d)) else m a)"

definition filled :: "u32 \<Rightarrow> nat \<Rightarrow> u8 \<Rightarrow> mem \<Rightarrow> mem" where
  "filled d n c m = (\<lambda>a. if unat (a - d) < n then c else m a)"

lemma moved_0 [simp]: "moved d s 0 m = m" and filled_0 [simp]: "filled d 0 c m = m"
  by (simp_all add: moved_def filled_def)

lemma moved_same: "moved d d n m = m"
  by (auto simp: moved_def)

lemma moved_1: "moved d s (Suc 0) m = m(d := m s)"
  by (auto simp: moved_def fun_eq_iff unat_eq_0)

lemma filled_1: "filled d (Suc 0) c m = m(d := c)"
  by (auto simp: filled_def fun_eq_iff unat_eq_0)

lemma moved_add:
  assumes "unat (d - s) = 0 \<or> n1 + n2 \<le> unat (d - s)" "n1 + n2 < 2 ^ 32"
  shows "moved (d + of_nat n1) (s + of_nat n1) n2 (moved d s n1 m) = moved d s (n1 + n2) m"
proof
  fix a
  define x e where "x = a - d" and "e = d - s"
  have x1: "a - (d + of_nat n1) = x - of_nat n1" "s + of_nat n1 + (x - of_nat n1) = s + x" "s + x - d = x - e"
    by (simp_all add: x_def e_def)
  have x2: "unat (x - of_nat n1) = (if n1 \<le> unat x then unat x - n1 else unat x + 2 ^ 32 - n1)"
    using assms(2) by (simp add: unat32_sub unat_of_nat)
  have x3: "unat (x - e) = (if unat e \<le> unat x then unat x - unat e else unat x + 2 ^ 32 - unat e)"
    by (rule unat32_sub)
  have lt: "unat x < 2 ^ 32" "unat e < 2 ^ 32" by (rule unat32_lt)+
  show "moved (d + of_nat n1) (s + of_nat n1) n2 (moved d s n1 m) a = moved d s (n1 + n2) m a"
  proof (cases "unat (x - of_nat n1) < n2")
    case True
    then have "n1 \<le> unat x" "unat x < n1 + n2" using x2 lt assms(2) by (auto split: if_splits)
    moreover from this have "\<not> unat (x - e) < n1" using x3 lt assms by (auto simp: e_def)
    ultimately show ?thesis using True by (simp add: moved_def x1 flip: x_def)
  next
    case False
    then show ?thesis using x2 lt assms(2) by (auto simp add: moved_def x1 simp flip: x_def split: if_splits)
  qed
qed

lemma moved_add_down:
  assumes "unat (s - d) = 0 \<or> n1 + n2 \<le> unat (s - d)" "n1 + n2 < 2 ^ 32"
  shows "moved d s n1 (moved (d + of_nat n1) (s + of_nat n1) n2 m) = moved d s (n1 + n2) m"
proof
  fix a
  define x e where "x = a - d" and "e = s - d"
  have x1: "a - (d + of_nat n1) = x - of_nat n1" "s + of_nat n1 + (x - of_nat n1) = s + x"
    "s + x - (d + of_nat n1) = x + e - of_nat n1"
    by (simp_all add: x_def e_def)
  have x2: "unat (y - of_nat n1) = (if n1 \<le> unat y then unat y - n1 else unat y + 2 ^ 32 - n1)" for y :: u32
    using assms(2) by (simp add: unat32_sub unat_of_nat)
  have x3: "unat (x + e) = (if unat x + unat e < 2 ^ 32 then unat x + unat e else unat x + unat e - 2 ^ 32)"
    by (simp add: unat_plus_if')
  have lt: "unat x < 2 ^ 32" "unat e < 2 ^ 32" by (rule unat32_lt)+
  show "moved d s n1 (moved (d + of_nat n1) (s + of_nat n1) n2 m) a = moved d s (n1 + n2) m a"
  proof (cases "unat x < n1")
    case True
    then have "\<not> unat (x + e - of_nat n1) < n2" using x2[of "x + e"] x3 lt assms
      by (auto simp: e_def split: if_splits)
    then show ?thesis using True by (simp add: moved_def x1 flip: x_def)
  next
    case False
    then have "unat (x - of_nat n1) = unat x - n1" using x2[of x] by simp
    then show ?thesis using False by (auto simp add: moved_def x1 simp flip: x_def)
  qed
qed

lemma filled_add:
  assumes "n1 + n2 < 2 ^ 32"
  shows "filled (d + of_nat n1) n2 c (filled d n1 c m) = filled d (n1 + n2) c m"
proof
  fix a
  define x where "x = a - d"
  have x1: "a - (d + of_nat n1) = x - of_nat n1" by (simp_all add: x_def)
  have x2: "unat (x - of_nat n1) = (if n1 \<le> unat x then unat x - n1 else unat x + 2 ^ 32 - n1)"
    using assms by (simp add: unat32_sub unat_of_nat)
  then show "filled (d + of_nat n1) n2 c (filled d n1 c m) a = filled d (n1 + n2) c m a"
    using assms unat32_lt[of x] by (auto simp: filled_def x1 simp flip: x_def split: if_splits)
qed

lemma bytes_up_moved:
  assumes "unat (d - s) = 0 \<or> n \<le> unat (d - s)" "n < 2 ^ 32"
  shows "bytes_up n d s m = (d + of_nat n, s + of_nat n, moved d s n m)"
  using assms
proof (induction n arbitrary: d s m)
  case (Suc n)
  have "bytes_up n (d + 1) (s + 1) (moved d s 1 m) = (d + 1 + of_nat n, s + 1 + of_nat n, moved (d + 1) (s + 1) n (moved d s 1 m))"
    using Suc.prems by (intro Suc.IH) auto
  moreover have "moved (d + of_nat 1) (s + of_nat 1) n (moved d s 1 m) = moved d s (1 + n) m"
    using Suc.prems by (intro moved_add) auto
  ultimately show ?case by (simp add: moved_1 algebra_simps)
qed simp

lemma bytes_down_moved:
  assumes "unat (s - d) = 0 \<or> n \<le> unat (s - d)" "n < 2 ^ 32"
  shows "bytes_down n (d + of_nat n) (s + of_nat n) m = (d, s, moved d s n m)"
  using assms
proof (induction n arbitrary: d s m)
  case (Suc n)
  have "bytes_down n (d + of_nat n) (s + of_nat n) (moved (d + of_nat n) (s + of_nat n) 1 m) = (d, s, moved d s n (moved (d + of_nat n) (s + of_nat n) 1 m))"
    using Suc.prems by (intro Suc.IH) auto
  moreover have "moved d s n (moved (d + of_nat n) (s + of_nat n) 1 m) = moved d s (n + 1) m"
    using Suc.prems by (intro moved_add_down) auto
  ultimately show ?case by (simp add: moved_1 algebra_simps)
qed simp

lemma fill_bytes_filled:
  "n < 2 ^ 32 \<Longrightarrow> fill_bytes n d c m = (d + of_nat n, filled d n c m)"
proof (induction n arbitrary: d m)
  case (Suc n)
  have "filled (d + of_nat 1) n c (filled d 1 c m) = filled d (1 + n) c m"
    using Suc.prems by (intro filled_add) auto
  then show ?case using Suc by (simp add: filled_1 algebra_simps)
qed simp

lemma unat_diff_lt4: "unat (a - d :: u32) < 4 \<longleftrightarrow> a = d \<or> a = d + 1 \<or> a = d + 2 \<or> a = d + 3"
proof -
  have "unat x < 4 \<longleftrightarrow> x = 0 \<or> x = 1 \<or> x = 2 \<or> x = 3" for x :: u32
  proof
    assume "unat x < 4"
    then obtain k where k: "x = of_nat k" "k < 4" by (metis of_nat_unat_id)
    then have "k = 0 \<or> k = 1 \<or> k = 2 \<or> k = 3" by auto
    with k(1) show "x = 0 \<or> x = 1 \<or> x = 2 \<or> x = 3" by auto
  qed auto
  from this[of "a - d"] show ?thesis by (auto simp: diff_eq_eq algebra_simps)
qed

lemma word_bytes:
  fixes a b c e :: u8
  defines "w \<equiv> (ucast a :: u32) OR push_bit 8 (ucast b) OR push_bit 16 (ucast c) OR push_bit 24 (ucast e)"
  shows "ucast w = a" "ucast (drop_bit 8 w) = b" "ucast (drop_bit 16 w) = c" "ucast (drop_bit 24 w) = e"
  unfolding w_def
  by (rule bit_word_eqI; auto simp: bit_simps dest: bit_imp_le_length)+

lemma copy_word_moved:
  assumes "s AND lmask = 0" "d AND lmask = 0" "load_word s m = Some w"
  shows "store_word d w m = Some (moved d s 4 m)"
proof -
  have w: "w = ucast (m s) OR push_bit 8 (ucast (m (s + 1))) OR push_bit 16 (ucast (m (s + 2)))
            OR push_bit 24 (ucast (m (s + 3)))" using assms by (simp add: load_word_def)
  have "m(d := m s, d + 1 := m (s + 1), d + 2 := m (s + 2), d + 3 := m (s + 3)) = moved d s 4 m"
    by (rule ext) (auto simp: moved_def unat_diff_lt4)
  with assms(2) show ?thesis unfolding w store_word_def word_bytes by simp
qed

lemma unat_and_lmask: "unat (a AND lmask :: u32) = unat a mod 4"
  using unat_modpow2[of a 2] by (simp add: modpow2_def push_bit_eq_mult)

lemma aligned_iff: "(a :: u32) AND lmask = 0 \<longleftrightarrow> 4 dvd unat a"
  using unat_and_lmask[of a] by (metis dvd_eq_mod_eq_0 unat_eq_0)

lemma or_aligned: "(a OR b :: u32) AND lmask = 0 \<longleftrightarrow> a AND lmask = 0 \<and> b AND lmask = 0"
  by (simp only: bit.conj_disj_distrib2 or_eq_0_iff)

lemma xor_aligned: "(a XOR b :: u32) AND lmask = 0 \<longleftrightarrow> a AND lmask = b AND lmask"
proof -
  have "(a XOR b) AND lmask = (a AND lmask) XOR (b AND lmask)" by (rule bit.conj_xor_distrib2)
  moreover have "x XOR y = 0 \<longleftrightarrow> x = y" for x y :: u32
    by (metis xor_self_eq xor.assoc xor.right_neutral xor.left_neutral)
  ultimately show ?thesis by simp
qed

lemma aligned_add: "a AND lmask = 0 \<Longrightarrow> (a + lsize :: u32) AND lmask = 0"
  and aligned_diff: "a AND lmask = 0 \<Longrightarrow> (a - lsize :: u32) AND lmask = 0"
  by (simp_all add: aligned_iff unat_plus_if' unat32_sub dvd_diff_nat dvd_add)

lemma words_up_moved:
  assumes "unat (d - s) = 0 \<or> 4 * n \<le> unat (d - s)" "4 * n < 2 ^ 32" "d AND lmask = 0" "s AND lmask = 0"
  shows "words_up n d s m = Some (d + of_nat (4 * n), s + of_nat (4 * n), moved d s (4 * n) m)"
  using assms
proof (induction n arbitrary: d s m)
  case (Suc n)
  obtain w where w: "load_word s m = Some w" using Suc.prems by (simp add: load_word_def)
  have "words_up n (d + 4) (s + 4) (moved d s 4 m) = Some (d + 4 + of_nat (4 * n), s + 4 + of_nat (4 * n),
      moved (d + 4) (s + 4) (4 * n) (moved d s 4 m))"
    using Suc.prems by (intro Suc.IH aligned_add) auto
  moreover have "moved (d + of_nat 4) (s + of_nat 4) (4 * n) (moved d s 4 m) = moved d s (4 + 4 * n) m"
    using Suc.prems by (intro moved_add) auto
  ultimately show ?case using copy_word_moved[OF Suc.prems(4,3) w] w by (simp add: algebra_simps)
qed simp

lemma words_down_moved:
  assumes "unat (s - d) = 0 \<or> 4 * n \<le> unat (s - d)" "4 * n < 2 ^ 32"
    "(d + of_nat (4 * n)) AND lmask = 0" "(s + of_nat (4 * n)) AND lmask = 0"
  shows "words_down n (d + of_nat (4 * n)) (s + of_nat (4 * n)) m = Some (d, s, moved d s (4 * n) m)"
  using assms
proof (induction n arbitrary: d s m)
  case (Suc n)
  let ?d = "d + of_nat (4 * n)" and ?s = "s + of_nat (4 * n)"
  have al: "?d AND lmask = 0" "?s AND lmask = 0"
    using aligned_diff[OF Suc.prems(3)] aligned_diff[OF Suc.prems(4)] by (simp_all add: algebra_simps)
  obtain w where w: "load_word ?s m = Some w" using al by (simp add: load_word_def)
  have "words_down n ?d ?s (moved ?d ?s 4 m) = Some (d, s, moved d s (4 * n) (moved ?d ?s 4 m))"
    using Suc.prems al by (intro Suc.IH) auto
  moreover have "moved d s (4 * n) (moved ?d ?s 4 m) = moved d s (4 * n + 4) m"
    using Suc.prems by (intro moved_add_down) auto
  ultimately show ?case using copy_word_moved[OF al(2,1) w] w by (simp add: algebra_simps)
qed simp

lemma fill_words_filled:
  fixes c :: u32
  defines "cc \<equiv> (c AND 0xff) OR push_bit 8 (c AND 0xff)"
  assumes "4 * n < 2 ^ 32" "d AND lmask = 0"
  shows "fill_words n d (cc OR push_bit 16 cc) m = Some (d + of_nat (4 * n), filled d (4 * n) (ucast c) m)"
  using assms(2,3)
proof (induction n arbitrary: d m)
  case (Suc n)
  let ?w = "cc OR push_bit 16 cc"
  have 255: "(255::u32) = mask 8" by (simp add: mask_eq_exp_minus_1)
  have "ucast ?w = (ucast c :: u8)" "ucast (drop_bit 8 ?w) = (ucast c :: u8)"
    "ucast (drop_bit 16 ?w) = (ucast c :: u8)" "ucast (drop_bit 24 ?w) = (ucast c :: u8)"
    unfolding cc_def 255 by (rule bit_word_eqI; auto simp: bit_simps dest: bit_imp_le_length)+
  then have "store_word d ?w m = Some (m(d := ucast c, d + 1 := ucast c, d + 2 := ucast c, d + 3 := ucast c))"
    using Suc.prems by (simp add: store_word_def)
  also have "m(d := ucast c, d + 1 := ucast c, d + 2 := ucast c, d + 3 := ucast c) = filled d 4 (ucast c) m"
    by (rule ext) (auto simp: filled_def unat_diff_lt4)
  finally have st: "store_word d ?w m = Some (filled d 4 (ucast c) m)" .
  have "filled (d + of_nat 4) (4 * n) (ucast c) (filled d 4 (ucast c) m) = filled d (4 + 4 * n) (ucast c) m"
    using Suc.prems by (intro filled_add) auto
  with st Suc.IH[of "d + 4" "filled d 4 (ucast c) m"] aligned_add[OF Suc.prems(2)] Suc.prems(1)
  show ?case by (simp add: algebra_simps)
qed simp

lemma int_count_unat: "unat len < 2 ^ 31 \<Longrightarrow> int_count len = unat len"
proof -
  assume a: "unat len < 2 ^ 31"
  define n where "n = unat len"
  have "sint len = signed_take_bit 31 (int n)" unfolding sint_uint n_def uint_nat by simp
  also have "... = int n" using a by (intro signed_take_bit_int_eq_self) (simp_all flip: n_def)
  finally show ?thesis by (simp add: int_count_def n_def)
qed

text \<open>The word and byte phases once the pointers are aligned, or nothing is left to copy.\<close>

lemma copy_up_tail:
  assumes "unat (d - s) = 0 \<or> unat count \<le> unat (d - s)" "unat count < 2 ^ 31"
    "count \<noteq> 0 \<Longrightarrow> d AND lmask = 0 \<and> s AND lmask = 0"
  shows "do { (d, s, m) \<leftarrow> words_up (int_count (count div lsize)) d s m;
              let (d, s, m) = bytes_up (int_count (count AND lmask)) d s m;
              Some (dest, m) } = Some (dest, moved d s (unat count) m)"
proof -
  let ?q = "unat count div 4" and ?r = "unat count mod 4"
  have n: "int_count (count div lsize) = ?q" "int_count (count AND lmask) = ?r"
    using assms(2) by (subst int_count_unat; simp add: unat_div_distrib unat_and_lmask)+
  have c: "unat count = 4 * ?q + ?r" by simp
  have "words_up ?q d s m = Some (d + of_nat (4 * ?q), s + of_nat (4 * ?q), moved d s (4 * ?q) m)"
    using assms c by (cases "count = 0") (simp, intro words_up_moved, auto)
  moreover have "bytes_up ?r (d + of_nat (4 * ?q)) (s + of_nat (4 * ?q)) m' =
     (d + of_nat (4 * ?q) + of_nat ?r, s + of_nat (4 * ?q) + of_nat ?r, moved (d + of_nat (4 * ?q)) (s + of_nat (4 * ?q)) ?r m')" for m'
    using assms c by (intro bytes_up_moved) auto
  moreover have "moved (d + of_nat (4 * ?q)) (s + of_nat (4 * ?q)) ?r (moved d s (4 * ?q) m) = moved d s (4 * ?q + ?r) m"
    using assms c by (intro moved_add) auto
  ultimately show ?thesis using c by (simp add: n)
qed

lemma copy_down_tail:
  assumes "unat (s - d) = 0 \<or> unat count \<le> unat (s - d)" "unat count < 2 ^ 31"
    "count \<noteq> 0 \<Longrightarrow> (d + count) AND lmask = 0 \<and> (s + count) AND lmask = 0"
  shows "do { (d, s, m) \<leftarrow> words_down (int_count (count div lsize)) (d + count) (s + count) m;
              let (d, s, m) = bytes_down (int_count (count AND lmask)) d s m;
              Some (dest, m) } = Some (dest, moved d s (unat count) m)"
proof -
  let ?q = "unat count div 4" and ?r = "unat count mod 4"
  have n: "int_count (count div lsize) = ?q" "int_count (count AND lmask) = ?r"
    using assms(2) by (subst int_count_unat; simp add: unat_div_distrib unat_and_lmask)+
  have c: "unat count = ?r + 4 * ?q" by simp
  have e: "a + count = a + of_nat ?r + of_nat (4 * ?q)" for a
  proof -
    have "count = of_nat (?r + 4 * ?q)" using c by (metis of_nat_unat_id) 
    then show ?thesis by (metis add.assoc of_nat_add)
  qed
  have "words_down ?q (d + of_nat ?r + of_nat (4 * ?q)) (s + of_nat ?r + of_nat (4 * ?q)) m = Some (d + of_nat ?r, s + of_nat ?r, moved (d + of_nat ?r) (s + of_nat ?r) (4 * ?q) m)"
  proof (cases "count = 0")
    case False
    show ?thesis using assms(1,2) assms(3)[OF False] c by (intro words_down_moved) (auto simp: e simp del: of_nat_mult)
  qed simp
  moreover have "bytes_down ?r (d + of_nat ?r) (s + of_nat ?r) m' = (d, s, moved d s ?r m')" for m'
    using assms c by (intro bytes_down_moved) auto
  moreover have "moved d s ?r (moved (d + of_nat ?r) (s + of_nat ?r) (4 * ?q) m) = moved d s (?r + 4 * ?q) m"
    using assms c by (intro moved_add_down) auto
  ultimately show ?thesis using c by (simp add: n e del: of_nat_mult)
qed

text \<open>The length of the first phase takes both pointers to a word boundary.\<close>

lemma len_up:
  assumes "d AND lmask = s AND lmask" "\<not> (d AND lmask = 0 \<and> s AND lmask = 0)" "\<not> count < lsize"
  shows "unat (lsize - (d AND lmask)) \<le> unat count \<and> (d + (lsize - (d AND lmask))) AND lmask = 0
     \<and> (s + (lsize - (d AND lmask))) AND lmask = 0"
proof -
  have u: "unat (lsize - (d AND lmask)) = 4 - unat d mod 4" by (simp add: unat32_sub unat_and_lmask)
  have "4 - unat d mod 4 \<le> unat count" using assms(3) by (simp add: word_less_nat_alt)
  moreover have "(a + (lsize - (a AND lmask))) AND lmask = 0" for a :: u32
  proof -
    have "unat (lsize - (a AND lmask)) = 4 - unat a mod 4" by (simp add: unat32_sub unat_and_lmask)
    moreover have "4 dvd unat a + (4 - unat a mod 4)" by presburger
    ultimately show ?thesis by (simp add: aligned_iff unat_plus_if') presburger
  qed
  ultimately show ?thesis using u assms(1) by metis
qed

lemma len_down:
  assumes "d AND lmask = s AND lmask" "\<not> count \<le> lsize"
  shows "unat (d AND lmask) \<le> unat count \<and> (d - (d AND lmask)) AND lmask = 0 \<and> (s - (d AND lmask)) AND lmask = 0"
proof -
  have "unat (d AND lmask) \<le> unat count" using assms(2) by (simp add: unat_and_lmask word_le_nat_alt)
  moreover have "(a - (a AND lmask)) AND lmask = 0" for a :: u32
    by (simp add: aligned_iff unat32_sub unat_and_lmask dvd_minus_mod)
  ultimately show ?thesis using assms(1) by metis
qed

lemma copy_up_phases:
  assumes "unat (dest - src) = 0 \<or> unat count \<le> unat (dest - src)" "unat count < 2 ^ 31"
  shows "(let (d, s, count, m) =
         (if (dest OR src) AND lmask \<noteq> 0 then
            let len = (if (dest XOR src) AND lmask \<noteq> 0 \<or> count < lsize then count else lsize - (dest AND lmask));
                (d, s, m) = bytes_up (int_count len) dest src m
            in (d, s, count - len, m)
          else (dest, src, count, m))
       in do {
         (d, s, m) \<leftarrow> words_up (int_count (count div lsize)) d s m;
         let (d, s, m) = bytes_up (int_count (count AND lmask)) d s m;
         Some (dest, m) }) = Some (dest, moved dest src (unat count) m)"
proof (cases "(dest OR src) AND lmask = 0")
  case True
  then show ?thesis using copy_up_tail[OF assms, of m dest] by (simp add: or_aligned)
next
  case False
  define len where "len = (if (dest XOR src) AND lmask \<noteq> 0 \<or> count < lsize then count else lsize - (dest AND lmask))"
  have len: "unat len \<le> unat count"
    "count \<noteq> len \<Longrightarrow> (dest + len) AND lmask = 0 \<and> (src + len) AND lmask = 0"
    using False len_up[of dest src count] by (auto simp: len_def or_aligned xor_aligned)
  have b: "bytes_up (int_count len) dest src m = (dest + len, src + len, moved dest src (unat len) m)"
    using bytes_up_moved[of dest src "unat len" m] assms len(1) by (auto simp: int_count_unat)
  have r: "unat (count - len) = unat count - unat len" using len(1) by (simp add: unat32_sub)
  have "moved (dest + of_nat (unat len)) (src + of_nat (unat len)) (unat (count - len)) (moved dest src (unat len) m)
      = moved dest src (unat len + unat (count - len)) m"
    using assms len r by (intro moved_add) auto
  then have mv: "moved (dest + len) (src + len) (unat (count - len)) (moved dest src (unat len) m) = moved dest src (unat count) m"
    using r len(1) by simp
  have "unat (dest + len - (src + len)) = 0 \<or> unat (count - len) \<le> unat (dest + len - (src + len))"
    "unat (count - len) < 2 ^ 31"
    "count - len \<noteq> 0 \<Longrightarrow> (dest + len) AND lmask = 0 \<and> (src + len) AND lmask = 0"
    using assms len r by auto
  from copy_up_tail[OF this, of "moved dest src (unat len) m" dest] False
  show ?thesis unfolding len_def[symmetric] mv by (simp add: b)
qed

lemma copy_down_phases:
  assumes "unat (src - dest) = 0 \<or> unat count \<le> unat (src - dest)" "unat count < 2 ^ 31"
  shows "(let d = dest + count; s = src + count;
           (d, s, count, m) =
         (if (d OR s) AND lmask \<noteq> 0 then
            let len = (if (d XOR s) AND lmask \<noteq> 0 \<or> count \<le> lsize then count else d AND lmask);
                (d, s, m) = bytes_down (int_count len) d s m
            in (d, s, count - len, m)
          else (d, s, count, m))
       in do {
         (d, s, m) \<leftarrow> words_down (int_count (count div lsize)) d s m;
         let (d, s, m) = bytes_down (int_count (count AND lmask)) d s m;
         Some (dest, m) }) = Some (dest, moved dest src (unat count) m)"
proof (cases "((dest + count) OR (src + count)) AND lmask = 0")
  case True
  then show ?thesis using copy_down_tail[OF assms, of m dest] by (simp add: or_aligned)
next
  case False
  define d s where "d = dest + count" and "s = src + count"
  define len where "len = (if (d XOR s) AND lmask \<noteq> 0 \<or> count \<le> lsize then count else d AND lmask)"
  define rest where "rest = count - len"
  have len: "unat len \<le> unat count"
    "rest \<noteq> 0 \<Longrightarrow> (dest + rest) AND lmask = 0 \<and> (src + rest) AND lmask = 0"
    using len_down[of d s count] by (auto simp: len_def rest_def xor_aligned d_def s_def add_diff_eq)
  have r: "unat rest = unat count - unat len" using len(1) by (simp add: unat32_sub rest_def)
  have d: "d = dest + rest + of_nat (unat len)" "s = src + rest + of_nat (unat len)"
    by (simp_all add: d_def s_def rest_def)
  have b: "bytes_down (int_count len) d s m = (dest + rest, src + rest, moved (dest + rest) (src + rest) (unat len) m)"
    using bytes_down_moved[of "src + rest" "dest + rest" "unat len" m] assms len(1) d by (auto simp: int_count_unat)
  have "moved dest src (unat rest) (moved (dest + of_nat (unat rest)) (src + of_nat (unat rest)) (unat len) m)
      = moved dest src (unat rest + unat len) m"
    using assms len r by (intro moved_add_down) auto
  then have mv: "moved dest src (unat rest) (moved (dest + rest) (src + rest) (unat len) m) = moved dest src (unat count) m"
    unfolding of_nat_unat_id using len(1) r by (metis le_add_diff_inverse2)
  have "unat (src - dest) = 0 \<or> unat rest \<le> unat (src - dest)" "unat rest < 2 ^ 31"
    using assms len r by auto
  from copy_down_tail[OF this len(2), of "moved (dest + rest) (src + rest) (unat len) m" dest] False
  show ?thesis unfolding d_def[symmetric] s_def[symmetric] Let_def unfolding len_def[symmetric] mv
    by (simp add: b flip: rest_def)
qed

section \<open>The routines against the reference\<close>

lemma uint_diff_sint: "uint (d - s :: u32) = (sint d - sint s) mod 2 ^ 32"
proof -
  have "d - s = word_of_int (sint d - sint s)" by simp
  moreover have "uint (word_of_int k :: u32) = k mod 2 ^ 32" for k
    by (simp add: uint_word_of_int_eq take_bit_eq_mod)
  ultimately show ?thesis by metis
qed

lemma unat_diff_sint:
  assumes "sint d < sint s" "sint s + int n \<le> 2 ^ 31"
  shows "n \<le> unat (d - s :: u32)"
proof -
  have "- (2 ^ 31) \<le> sint d" using sint_greater_eq[of d] by simp
  then have "0 \<le> sint d - sint s + 2 ^ 32" "sint d - sint s + 2 ^ 32 < 2 ^ 32" using assms by auto
  then have "(sint d - sint s) mod 2 ^ 32 = sint d - sint s + 2 ^ 32"
    by (metis mod_add_self2 mod_pos_pos_trivial)
  then have "int n \<le> uint (d - s)" using assms \<open>- (2 ^ 31) \<le> sint d\<close> unfolding uint_diff_sint by simp
  then show ?thesis unfolding uint_nat by (simp only: of_nat_le_iff)
qed

lemma memcpy_moved:
  assumes "unat count \<le> unat (dest - src) \<or> dest = src" "unat count < 2 ^ 31"
  shows "memcpy dest src count m = Some (dest, moved dest src (unat count) m)"
proof (cases "count = 0 \<or> dest = src")
  case True
  then show ?thesis by (auto simp: memcpy_def moved_same)
next
  case False
  then show ?thesis using assms copy_up_phases[of dest src count m] by (simp add: memcpy_def)
qed

lemma memmove_moved:
  assumes "sint dest + int (unat count) \<le> 2 ^ 31" "sint src + int (unat count) \<le> 2 ^ 31" "unat count < 2 ^ 31"
  shows "memmove dest src count m = Some (dest, moved dest src (unat count) m)"
proof (cases "count = 0 \<or> dest = src")
  case True
  then show ?thesis by (auto simp: memmove_def moved_same)
next
  case False
  show ?thesis
  proof (cases "sint dest < sint src")
    case True
    then show ?thesis using False assms unat_diff_sint[OF True assms(2)] copy_up_phases[of dest src count m]
      by (simp add: memmove_def)
  next
    case ge: False
    then have "sint src < sint dest" using False by (auto simp: not_less le_less dest: signed_word_eqI)
    then show ?thesis using False ge assms(3) unat_diff_sint[OF _ assms(1)] copy_down_phases[of src dest count m]
      by (simp add: memmove_def)
  qed
qed

lemma memset_filled: "memset s c count m = Some (s, filled s (unat count) (ucast c) m)"
proof (cases "count > (- s) AND 3")
  case True
  define len where "len = (- s) AND (3::u32)"
  define r where "r = count - len"
  have l: "unat len \<le> unat count" using True by (simp add: len_def word_less_nat_alt)
  then have r: "unat r = unat count - unat len" by (simp add: r_def unat32_sub)
  have al: "(s + len) AND lmask = 0"
  proof -
    have "unat len = unat (- s) mod 4" unfolding len_def by (rule unat_and_lmask)
    moreover have "s = 0 \<or> unat (- s) = 2 ^ 32 - unat s" using unat32_sub[of 0 s] by (auto simp: unat_eq_0)
    moreover have "unat (s + len) = (unat s + unat len) mod 2 ^ 32" by (simp add: unat_word_ariths)
    moreover have "4 dvd (x + (2 ^ 32 - x) mod 4) mod 2 ^ 32" if "x < 2 ^ 32" for x :: nat
    proof -
      have "(x + (2 ^ 32 - x) mod 4) mod 4 = (x + (2 ^ 32 - x)) mod 4" by (rule mod_add_right_eq)
      also have "... = 0" using that by simp
      finally show ?thesis by (intro dvd_mod) auto
    qed
    ultimately show ?thesis using unat32_lt[of s] by (auto simp: aligned_iff)
  qed
  let ?q = "unat r div 4" and ?r = "unat r mod 4"
  have c: "unat count = unat len + (4 * ?q + ?r)" using r l by simp
  have lt: "unat len + (4 * ?q + ?r) < 2 ^ 32" using unat32_lt[of count] unfolding c by simp
  have b: "fill_bytes (unat len) s (ucast c) m = (s + len, filled s (unat len) (ucast c) m)"
    using fill_bytes_filled[of "unat len" s "ucast c" m] unat32_lt[of len] by simp
  have w: "fill_words ?q (s + len) (cc OR push_bit 16 cc) (filled s (unat len) (ucast c) m) =
     Some (s + len + of_nat (4 * ?q), filled s (unat len + 4 * ?q) (ucast c) m)"
    if "cc = (c AND 0xff) OR push_bit 8 (c AND 0xff)" for cc
    using fill_words_filled[OF _ al, of ?q c] filled_add[of "unat len" "4 * ?q" s "ucast c" m] lt that by simp
  have t: "fill_bytes ?r (s + len + of_nat (4 * ?q)) (ucast c) (filled s (unat len + 4 * ?q) (ucast c) m)
     = (s + len + of_nat (4 * ?q) + of_nat ?r, filled s (unat count) (ucast c) m)"
    using fill_bytes_filled[of ?r "s + len + of_nat (4 * ?q)"] filled_add[of "unat len + 4 * ?q" ?r s "ucast c" m] lt
    by (simp add: c add.assoc)
  show ?thesis using True w[OF refl] t
    by (simp add: memset_def Let_def b unat_div_distrib unat_and_lmask flip: len_def r_def)
next
  case False
  then show ?thesis using fill_bytes_filled[of "unat count" s "ucast c" m] unat32_lt[of count] by (simp add: memset_def Let_def)
qed

section \<open>Comparing and searching\<close>

text \<open>The \<open>n\<close> bytes at an address.\<close>

definition bytes :: "mem \<Rightarrow> u32 \<Rightarrow> nat \<Rightarrow> u8 list" where
  "bytes m a n = map (\<lambda>i. m (a + of_nat i)) [0..<n]"

lemma bytes_0 [simp]: "bytes m a 0 = []"
  by (simp add: bytes_def)

lemma bytes_Suc: "bytes m a (Suc n) = m a # bytes m (a + 1) n"
  by (simp add: bytes_def upt_conv_Cons map_Suc_upt[symmetric] algebra_simps del: upt_Suc)

lemma length_bytes [simp]: "length (bytes m a n) = n"
  by (simp add: bytes_def)

lemma memcmp_loop_0: "memcmp_loop n a b 0 m = 0 \<longleftrightarrow> bytes m a n = bytes m b n"
  by (induction n arbitrary: a b) (auto simp: bytes_Suc Let_def)

lemma bytes_moved:
  "n < 2 ^ 32 \<Longrightarrow> bytes (moved d s n m) d n = bytes m s n"
  by (simp add: bytes_def moved_def unat_of_nat)

end
