(* ===== verification/Libc_String.thy ===== *)
theory Libc_String
  imports Libc_Mem "HOL-Library.List_Lexorder"
begin

text \<open>
  The string routines of \<^verbatim>\<open>lib/libc/string\<close> and the character classes of \<^verbatim>\<open>lib/libc/ctype.c\<close>,
  on the memory of \<open>Libc_Mem\<close>. Plain \<open>char\<close> is unsigned, as the ARM ABI has it. A loop that stops
  only at a terminator is a \<open>partial_function (option)\<close>: on memory that holds none it does not
  return and its value is \<open>None\<close>. A pointer result of 0 is \<open>NULL\<close>.
\<close>

section \<open>Character classes (ctype.c)\<close>

definition isblank :: "int \<Rightarrow> bool" where
  "isblank c \<longleftrightarrow> c = 32 \<or> c = 9"

definition isspace :: "int \<Rightarrow> bool" where
  "isspace c \<longleftrightarrow> c = 32 \<or> c = 12 \<or> c = 10 \<or> c = 13 \<or> c = 9 \<or> c = 11"

definition islower :: "int \<Rightarrow> bool" where
  "islower c \<longleftrightarrow> 97 \<le> c \<and> c \<le> 122"

definition isupper :: "int \<Rightarrow> bool" where
  "isupper c \<longleftrightarrow> 65 \<le> c \<and> c \<le> 90"

definition isdigit :: "int \<Rightarrow> bool" where
  "isdigit c \<longleftrightarrow> 48 \<le> c \<and> c \<le> 57"

definition isalpha :: "int \<Rightarrow> bool" where
  "isalpha c \<longleftrightarrow> isupper c \<or> islower c"

definition isalnum :: "int \<Rightarrow> bool" where
  "isalnum c \<longleftrightarrow> isalpha c \<or> isdigit c"

definition isxdigit :: "int \<Rightarrow> bool" where
  "isxdigit c \<longleftrightarrow> isdigit c \<or> (97 \<le> c \<and> c \<le> 102) \<or> (65 \<le> c \<and> c \<le> 70)"

definition isgraph :: "int \<Rightarrow> bool" where
  "isgraph c \<longleftrightarrow> 32 < c \<and> c < 0x7f"

definition iscntrl :: "int \<Rightarrow> bool" where
  "iscntrl c \<longleftrightarrow> c < 32 \<or> c = 0x7f"

definition isprint :: "int \<Rightarrow> bool" where
  "isprint c \<longleftrightarrow> 0x20 \<le> c \<and> c < 0x7f"

definition ispunct :: "int \<Rightarrow> bool" where
  "ispunct c \<longleftrightarrow> isgraph c \<and> \<not> isalnum c"

definition tolower :: "int \<Rightarrow> int" where
  "tolower c = (if 65 \<le> c \<and> c \<le> 90 then c + (97 - 65) else c)"

definition toupper :: "int \<Rightarrow> int" where
  "toupper c = (if 97 \<le> c \<and> c \<le> 122 then c + (65 - 97) else c)"

section \<open>Lengths\<close>

partial_function (option) strlen_loop :: "mem \<Rightarrow> u32 \<Rightarrow> u32 \<Rightarrow> u32 option" where
  "strlen_loop m s i = (if m (s + i) \<noteq> 0 then strlen_loop m s (i + 1) else Some i)"

definition strlen :: "mem \<Rightarrow> u32 \<Rightarrow> u32 option" where
  "strlen m s = strlen_loop m s 0"

text \<open>\<open>count-- && *sc != '\0'\<close>: the counter is a \<open>size_t\<close>.\<close>

fun strnlen_loop :: "mem \<Rightarrow> u32 \<Rightarrow> nat \<Rightarrow> u32" where
  "strnlen_loop m sc 0 = sc"
| "strnlen_loop m sc (Suc count) = (if m sc \<noteq> 0 then strnlen_loop m (sc + 1) count else sc)"

definition strnlen :: "mem \<Rightarrow> u32 \<Rightarrow> u32 \<Rightarrow> u32" where
  "strnlen m s count = strnlen_loop m s (unat count) - s"

section \<open>Comparison\<close>

partial_function (option) strcmp_loop :: "mem \<Rightarrow> u32 \<Rightarrow> u32 \<Rightarrow> u8 option" where
  "strcmp_loop m cs ct =
    (let res = m cs - m ct
     in if res \<noteq> 0 \<or> m cs = 0 then Some res else strcmp_loop m (cs + 1) (ct + 1))"

definition strcmp :: "mem \<Rightarrow> u32 \<Rightarrow> u32 \<Rightarrow> int option" where
  "strcmp m cs ct = do { res \<leftarrow> strcmp_loop m cs ct; Some (sint res) }"

fun strncmp_loop :: "mem \<Rightarrow> nat \<Rightarrow> u32 \<Rightarrow> u32 \<Rightarrow> u8 \<Rightarrow> u8" where
  "strncmp_loop m 0 cs ct res = res"
| "strncmp_loop m (Suc count) cs ct res =
    (let res = m cs - m ct
     in if res \<noteq> 0 \<or> m cs = 0 then res else strncmp_loop m count (cs + 1) (ct + 1) res)"

definition strncmp :: "mem \<Rightarrow> u32 \<Rightarrow> u32 \<Rightarrow> u32 \<Rightarrow> int" where
  "strncmp m cs ct count = sint (strncmp_loop m (unat count) cs ct 0)"

definition strcoll :: "mem \<Rightarrow> u32 \<Rightarrow> u32 \<Rightarrow> int option" where
  "strcoll m s1 s2 = strcmp m s1 s2"

text \<open>The \<open>do ... while (--len)\<close> loop; \<open>continue\<close> goes to the test. The first argument is the
  number of iterations left after this one.\<close>

fun strnicmp_loop :: "mem \<Rightarrow> nat \<Rightarrow> u32 \<Rightarrow> u32 \<Rightarrow> int" where
  "strnicmp_loop m len s1 s2 =
    (let c1 = uint (m s1); c2 = uint (m s2);
         next = (\<lambda>c1 c2. case len of 0 \<Rightarrow> c1 - c2 | Suc len \<Rightarrow> strnicmp_loop m len (s1 + 1) (s2 + 1))
     in if c1 = 0 then c1 - c2
        else if c2 = 0 then c1 - c2
        else if c1 = c2 then next c1 c2
        else let c1 = tolower c1; c2 = tolower c2
             in if c1 \<noteq> c2 then c1 - c2 else next c1 c2)"

definition strnicmp :: "mem \<Rightarrow> u32 \<Rightarrow> u32 \<Rightarrow> u32 \<Rightarrow> int" where
  "strnicmp m s1 s2 len = (if len > 0 then strnicmp_loop m (unat len - 1) s1 s2 else 0)"

section \<open>Searching\<close>

partial_function (option) strchr :: "mem \<Rightarrow> u32 \<Rightarrow> u32 \<Rightarrow> u32 option" where
  "strchr m s c =
    (if m s \<noteq> ucast c then if m s = 0 then Some 0 else strchr m (s + 1) c else Some s)"

partial_function (option) strrchr_loop :: "mem \<Rightarrow> u32 \<Rightarrow> int \<Rightarrow> u32 \<Rightarrow> u32 option" where
  "strrchr_loop m s c p =
    (if m s \<noteq> 0 then strrchr_loop m (s + 1) c (if uint (m s) = c then s else p) else Some p)"

definition strrchr :: "mem \<Rightarrow> u32 \<Rightarrow> int \<Rightarrow> u32 option" where
  "strrchr m s c = strrchr_loop m s c (if c \<noteq> 0 then 0 else s)"

text \<open>The inner loop of \<open>strspn\<close>, \<open>strcspn\<close> and \<open>strpbrk\<close>: where in a set of characters \<open>c\<close> is, or
  the address of its terminator.\<close>

partial_function (option) scan_set :: "mem \<Rightarrow> u32 \<Rightarrow> u8 \<Rightarrow> u32 option" where
  "scan_set m a c = (if m a \<noteq> 0 then if c = m a then Some a else scan_set m (a + 1) c else Some a)"

partial_function (option) strspn_loop :: "mem \<Rightarrow> u32 \<Rightarrow> u32 \<Rightarrow> u32 \<Rightarrow> u32 option" where
  "strspn_loop m p acc count =
    (if m p \<noteq> 0 then
       Option.bind (scan_set m acc (m p)) (\<lambda>a.
         if m a = 0 then Some count else strspn_loop m (p + 1) acc (count + 1))
     else Some count)"

definition strspn :: "mem \<Rightarrow> u32 \<Rightarrow> u32 \<Rightarrow> u32 option" where
  "strspn m s acc = strspn_loop m s acc 0"

partial_function (option) strcspn_loop :: "mem \<Rightarrow> u32 \<Rightarrow> u32 \<Rightarrow> u32 option" where
  "strcspn_loop m s1 s2 =
    (if m s1 \<noteq> 0 then
       Option.bind (scan_set m s2 (m s1)) (\<lambda>c. if m c \<noteq> 0 then Some s1 else strcspn_loop m (s1 + 1) s2)
     else Some s1)"

definition strcspn :: "mem \<Rightarrow> u32 \<Rightarrow> u32 \<Rightarrow> u32 option" where
  "strcspn m s1 s2 = do { e \<leftarrow> strcspn_loop m s1 s2; Some (e - s1) }"

partial_function (option) strpbrk :: "mem \<Rightarrow> u32 \<Rightarrow> u32 \<Rightarrow> u32 option" where
  "strpbrk m cs ct =
    (if m cs \<noteq> 0 then
       Option.bind (scan_set m ct (m cs)) (\<lambda>sc2. if m sc2 \<noteq> 0 then Some cs else strpbrk m (cs + 1) ct)
     else Some 0)"

text \<open>\<open>l1\<close> and \<open>l2\<close> are \<open>int\<close>.\<close>

function strstr_loop :: "mem \<Rightarrow> u32 \<Rightarrow> u32 \<Rightarrow> int \<Rightarrow> int \<Rightarrow> u32" where
  "strstr_loop m s1 s2 l1 l2 =
    (if l1 \<ge> l2 then
       if memcmp s1 s2 (word_of_int l2) m = 0 then s1 else strstr_loop m (s1 + 1) s2 (l1 - 1) l2
     else 0)"
  by auto
termination by (relation "measure (\<lambda>(m, s1, s2, l1, l2). nat (l1 - l2 + 1))") auto

definition strstr :: "mem \<Rightarrow> u32 \<Rightarrow> u32 \<Rightarrow> u32 option" where
  "strstr m s1 s2 = do {
     l2 \<leftarrow> strlen m s2;
     if l2 = 0 then Some s1
     else do {
       l1 \<leftarrow> strlen m s1;
       Some (strstr_loop m s1 s2 (sint l1) (sint l2)) } }"

section \<open>Copying\<close>

partial_function (option) strcpy_loop :: "u32 \<Rightarrow> u32 \<Rightarrow> mem \<Rightarrow> mem option" where
  "strcpy_loop dest src m =
    (let c = m src; m = m(dest := c)
     in if c \<noteq> 0 then strcpy_loop (dest + 1) (src + 1) m else Some m)"

definition strcpy :: "u32 \<Rightarrow> u32 \<Rightarrow> mem \<Rightarrow> (u32 \<times> mem) option" where
  "strcpy dest src m = do { m \<leftarrow> strcpy_loop dest src m; Some (dest, m) }"

fun strncpy_loop :: "nat \<Rightarrow> u32 \<Rightarrow> u32 \<Rightarrow> mem \<Rightarrow> mem" where
  "strncpy_loop 0 dest src m = m"
| "strncpy_loop (Suc count) dest src m =
    (let c = m src; m = m(dest := c)
     in if c \<noteq> 0 then strncpy_loop count (dest + 1) (src + 1) m else m)"

definition strncpy :: "u32 \<Rightarrow> u32 \<Rightarrow> u32 \<Rightarrow> mem \<Rightarrow> u32 \<times> mem" where
  "strncpy dest src count m = (dest, strncpy_loop (unat count) dest src m)"

partial_function (option) str_end :: "mem \<Rightarrow> u32 \<Rightarrow> u32 option" where
  "str_end m dest = (if m dest \<noteq> 0 then str_end m (dest + 1) else Some dest)"

definition strcat :: "u32 \<Rightarrow> u32 \<Rightarrow> mem \<Rightarrow> (u32 \<times> mem) option" where
  "strcat dest src m = do {
     e \<leftarrow> str_end m dest;
     m \<leftarrow> strcpy_loop e src m;
     Some (dest, m) }"

text \<open>\<open>while ((*dest++ = *src++)) if (--count == 0) { *dest = '\0'; break; }\<close>, entered with
  \<open>count > 0\<close>.\<close>

fun strncat_loop :: "nat \<Rightarrow> u32 \<Rightarrow> u32 \<Rightarrow> mem \<Rightarrow> mem" where
  "strncat_loop 0 dest src m = m(dest := 0)"
| "strncat_loop (Suc count) dest src m =
    (let c = m src; m = m(dest := c)
     in if c \<noteq> 0 then strncat_loop count (dest + 1) (src + 1) m else m)"

definition strncat :: "u32 \<Rightarrow> u32 \<Rightarrow> u32 \<Rightarrow> mem \<Rightarrow> (u32 \<times> mem) option" where
  "strncat dest src count m =
    (if count > 0 then do {
       e \<leftarrow> str_end m dest;
       Some (dest, strncat_loop (unat count) e src m) }
     else Some (dest, m))"

text \<open>The loop \<open>for (i = 0; i < s - 1 && src[i]; i++) dst[i] = src[i]\<close> of \<open>strlcpy\<close> and
  \<open>strlcat\<close>; its first argument is the number of iterations left, its result the final \<open>i\<close>.\<close>

fun strl_loop :: "nat \<Rightarrow> u32 \<Rightarrow> u32 \<Rightarrow> u32 \<Rightarrow> mem \<Rightarrow> u32 \<times> mem" where
  "strl_loop 0 dst src i m = (i, m)"
| "strl_loop (Suc n) dst src i m =
    (if m (src + i) \<noteq> 0 then strl_loop n dst src (i + 1) (m(dst + i := m (src + i))) else (i, m))"

definition strlcpy :: "u32 \<Rightarrow> u32 \<Rightarrow> u32 \<Rightarrow> mem \<Rightarrow> (u32 \<times> mem) option" where
  "strlcpy dst src s m =
    (if s = 0 then do { l \<leftarrow> strlen m src; Some (l, m) }
     else do {
       let (i, m) = strl_loop (unat (s - 1)) dst src 0 m;
       let m = m(dst + i := 0);
       l \<leftarrow> strlen m (src + i);
       Some (i + l, m) })"

definition strlcat :: "u32 \<Rightarrow> u32 \<Rightarrow> u32 \<Rightarrow> mem \<Rightarrow> (u32 \<times> mem) option" where
  "strlcat dst src s m =
    (let j = strnlen m dst s
     in if s = 0 then do { l \<leftarrow> strlen m src; Some (j + l, m) }
     else do {
       let dst = dst + j;
       let (i, m) = strl_loop (unat (s - 1)) dst src 0 m;
       let m = m(dst + i := 0);
       l \<leftarrow> strlen m (src + i);
       Some (j + i + l, m) })"

definition strxfrm :: "u32 \<Rightarrow> u32 \<Rightarrow> u32 \<Rightarrow> mem \<Rightarrow> (u32 \<times> mem) option" where
  "strxfrm dest src n m = do {
     len \<leftarrow> strlen m src;
     if n \<noteq> 0 then do {
       let copy_len = (if len < n then len else n - 1);
       (_, m) \<leftarrow> memcpy dest src copy_len m;
       Some (len, m(dest + copy_len := 0)) }
     else Some (len, m) }"

text \<open>\<open>malloc\<close> is the heap's: the address it returns (0 when it fails) is an argument.\<close>

definition strdup :: "(u32 \<Rightarrow> u32) \<Rightarrow> u32 \<Rightarrow> mem \<Rightarrow> (u32 \<times> mem) option" where
  "strdup malloc str m = do {
     len \<leftarrow> strlen m str;
     let len = len + 1;
     let copy = malloc len;
     if copy = 0 then Some (0, m)
     else do { (_, m) \<leftarrow> memcpy copy str len m; Some (copy, m) } }"

definition strerror :: "int \<Rightarrow> string" where
  "strerror errnum = (if errnum < 0 then ''General Error'' else ''No Error'')"

section \<open>Tokens\<close>

text \<open>\<open>___strtok\<close> is the static variable of \<open>strtok.c\<close>; the result is the token, the new value of
  the variable and memory.\<close>

definition strtok :: "u32 \<Rightarrow> u32 \<Rightarrow> u32 \<Rightarrow> mem \<Rightarrow> (u32 \<times> u32 \<times> mem) option" where
  "strtok s ct strtok_save m =
    (let sbegin = (if s \<noteq> 0 then s else strtok_save)
     in if sbegin = 0 then Some (0, strtok_save, m)
     else do {
       n \<leftarrow> strspn m sbegin ct;
       let sbegin = sbegin + n;
       if m sbegin = 0 then Some (0, 0, m)
       else do {
         send \<leftarrow> strpbrk m sbegin ct;
         if send \<noteq> 0 \<and> m send \<noteq> 0 then Some (sbegin, send + 1, m(send := 0))
         else Some (sbegin, send, m) } })"

text \<open>\<open>strtok_r\<close>: \<open>in_set\<close> is the loop \<open>(sc = *spanp++) != 0\<close> over the delimiters.\<close>

partial_function (option) in_set :: "mem \<Rightarrow> u32 \<Rightarrow> u8 \<Rightarrow> bool option" where
  "in_set m spanp c = (let sc = m spanp in if sc \<noteq> 0 then if c = sc then Some True else in_set m (spanp + 1) c else Some False)"

text \<open>The second loop, \<open>do { if ((sc = *spanp++) == c) ... } while (sc != 0)\<close>, sees the
  terminator too.\<close>

partial_function (option) in_set0 :: "mem \<Rightarrow> u32 \<Rightarrow> u8 \<Rightarrow> bool option" where
  "in_set0 m spanp c = (let sc = m spanp in if sc = c then Some True else if sc \<noteq> 0 then in_set0 m (spanp + 1) c else Some False)"

partial_function (option) tok_scan :: "mem \<Rightarrow> u32 \<Rightarrow> u32 \<Rightarrow> u32 \<Rightarrow> (u32 \<times> u32 \<times> mem) option" where
  "tok_scan m s delim tok =
    (let c = m s; s = s + 1
     in Option.bind (in_set0 m delim c) (\<lambda>found.
       if found then
         if c = 0 then Some (tok, 0, m) else Some (tok, s, m(s - 1 := 0))
       else tok_scan m s delim tok))"

text \<open>From the label \<open>cont\<close>; the result is the token, \<open>*lasts\<close> and memory.\<close>

partial_function (option) tok_cont :: "mem \<Rightarrow> u32 \<Rightarrow> u32 \<Rightarrow> bool \<Rightarrow> (u32 \<times> u32 \<times> mem) option" where
  "tok_cont m s delim skip_leading_delim =
    (let c = m s; s = s + 1
     in Option.bind (in_set m delim c) (\<lambda>found.
       if found then
         if skip_leading_delim then tok_cont m s delim skip_leading_delim
         else Some (s - 1, s, m(s - 1 := 0))
       else if c = 0 then Some (0, 0, m)
       else tok_scan m s delim (s - 1)))"

definition strtok_r_internal :: "u32 \<Rightarrow> u32 \<Rightarrow> u32 \<Rightarrow> bool \<Rightarrow> mem \<Rightarrow> (u32 \<times> u32 \<times> mem) option" where
  "strtok_r_internal s delim lasts skip_leading_delim m =
    (let s = (if s = 0 then lasts else s)
     in if s = 0 then Some (0, lasts, m) else tok_cont m s delim skip_leading_delim)"

definition strtok_r :: "u32 \<Rightarrow> u32 \<Rightarrow> u32 \<Rightarrow> mem \<Rightarrow> (u32 \<times> u32 \<times> mem) option" where
  "strtok_r s delim lasts m = strtok_r_internal s delim lasts True m"

declare strstr_loop.simps [simp del] strnicmp_loop.simps [simp del]

declare strlen_loop.simps [code] strcmp_loop.simps [code] strchr.simps [code] strrchr_loop.simps [code]
  scan_set.simps [code] strspn_loop.simps [code] strcspn_loop.simps [code] strpbrk.simps [code]
  strcpy_loop.simps [code] str_end.simps [code] in_set.simps [code] in_set0.simps [code]
  tok_scan.simps [code] tok_cont.simps [code]

section \<open>Strings in memory\<close>

text \<open>\<open>cstr m p xs\<close>: the string at \<open>p\<close> is \<open>xs\<close>, without its terminator. \<open>poked d ys m\<close>: memory with
  the bytes \<open>ys\<close> stored at \<open>d\<close>, the reference for the copying routines.\<close>

fun cstr :: "mem \<Rightarrow> u32 \<Rightarrow> u8 list \<Rightarrow> bool" where
  "cstr m p [] \<longleftrightarrow> m p = 0"
| "cstr m p (x # xs) \<longleftrightarrow> m p = x \<and> x \<noteq> 0 \<and> cstr m (p + 1) xs"

definition poked :: "u32 \<Rightarrow> u8 list \<Rightarrow> mem \<Rightarrow> mem" where
  "poked d ys m = (\<lambda>a. if unat (a - d) < length ys then ys ! unat (a - d) else m a)"

lemma poked_Nil [simp]: "poked d [] m = m"
  by (simp add: poked_def)

lemma poked_Cons:
  assumes "length ys < 2 ^ 32 - 1"
  shows "poked (d + 1) ys (m(d := y)) = poked d (y # ys) m"
proof
  fix a
  show "poked (d + 1) ys (m(d := y)) a = poked d (y # ys) m a"
  proof (cases "a = d")
    case True
    have "unat (- 1 :: u32) = 2 ^ 32 - 1" by (simp add: unsigned_minus_1_eq_mask mask_eq_exp_minus_1)
    then show ?thesis using True assms by (simp add: poked_def)
  next
    case False
    then have "unat (a - d) \<noteq> 0" by (simp add: unat_eq_0)
    moreover have "unat (a - (d + 1)) = unat (a - d) - 1" using False unat_minus_1[of "a - d"] by (simp add: diff_diff_eq)
    ultimately show ?thesis using False by (auto simp: poked_def nth_Cons' less_Suc_eq_le)
  qed
qed

lemma poked_poked:
  "length xs + length ys < 2 ^ 32 \<Longrightarrow> poked (d + of_nat (length xs)) ys (poked d xs m) = poked d (xs @ ys) m"
proof (induction xs arbitrary: d m)
  case (Cons x xs)
  then show ?case using Cons.IH[of "d + 1" "m(d := x)"] poked_Cons[of xs d m x]
      poked_Cons[of "xs @ ys" d m x] by (simp add: add.assoc del: fun_upd_apply)
qed simp

lemma moved_poked: "n < 2 ^ 32 \<Longrightarrow> moved d s n m = poked d (bytes m s n) m"
  by (rule ext) (simp add: moved_def poked_def bytes_def)

lemma bytes_poked: "length ys < 2 ^ 32 \<Longrightarrow> bytes (poked d ys m) d (length ys) = ys"
  by (rule nth_equalityI) (simp_all add: bytes_def poked_def unat_of_nat)

text \<open>\<open>apart a n b k\<close>: the ranges of \<open>n\<close> bytes at \<open>a\<close> and \<open>k\<close> bytes at \<open>b\<close> do not meet.\<close>

definition apart :: "u32 \<Rightarrow> nat \<Rightarrow> u32 \<Rightarrow> nat \<Rightarrow> bool" where
  "apart a n b k \<longleftrightarrow> n \<le> unat (b - a) \<and> k \<le> unat (a - b)"

lemma apart_offset:
  assumes "apart a n b k" "i < n" "j < k" 
  shows "a + of_nat i \<noteq> b + of_nat j"
proof
  assume "a + of_nat i = b + of_nat j"
  then have e: "b - a = of_nat i - of_nat j" "a - b = of_nat j - of_nat i" by (simp_all add: algebra_simps)
  have lt: "n < 2 ^ 32" "k < 2 ^ 32" using assms(1) unat32_lt[of "b - a"] unat32_lt[of "a - b"] by (auto simp: apart_def)
  show False
  proof (cases "j \<le> i")
    case True
    then have "b - a = of_nat (i - j)" using e by (simp add: of_nat_diff)
    then have "unat (b - a) \<le> i - j" using lt assms by (simp add: unat_of_nat)
    then show False using assms unfolding apart_def by arith
  next
    case False
    then have "a - b = of_nat (j - i)" using e by (simp add: of_nat_diff)
    then have "unat (a - b) \<le> j - i" using lt assms by (simp add: unat_of_nat)
    then show False using assms unfolding apart_def by arith
  qed
qed

lemma poked_outside: "n \<le> unat (a - d) \<Longrightarrow> length ys \<le> n \<Longrightarrow> poked d ys m a = m a"
  by (simp add: poked_def)

lemma apart_outside: "apart d n b k \<Longrightarrow> j < k \<Longrightarrow> n \<le> unat (b + of_nat j - d)"
proof (rule ccontr)
  assume a: "apart d n b k" "j < k" "\<not> n \<le> unat (b + of_nat j - d)"
  define i where "i = unat (b + of_nat j - d)"
  have "d + of_nat i = b + of_nat j" by (simp add: i_def)
  with apart_offset[OF a(1), of i j] a show False by (simp add: i_def)
qed

lemma bytes_poked_apart: "apart d n b k \<Longrightarrow> length ys \<le> n \<Longrightarrow> bytes (poked d ys m) b k = bytes m b k"
  by (auto simp: bytes_def intro!: poked_outside[where n = n] apart_outside)

lemma cstr_iff: "cstr m p xs \<longleftrightarrow> bytes m p (Suc (length xs)) = xs @ [0] \<and> 0 \<notin> set xs"
proof (induction xs arbitrary: p)
  case Nil
  then show ?case by (simp add: bytes_Suc)
next
  case (Cons x xs)
  then show ?case by (subst length_Cons, subst bytes_Suc) auto
qed

lemma cstr_poked: "0 \<notin> set xs \<Longrightarrow> length xs < 2 ^ 32 - 1 \<Longrightarrow> cstr (poked d (xs @ [0]) m) d xs"
  using bytes_poked[of "xs @ [0]" d m] by (simp add: cstr_iff)

lemma cstr_poked_apart:
  "cstr m p xs \<Longrightarrow> apart d n p (Suc (length xs)) \<Longrightarrow> length ys \<le> n \<Longrightarrow> cstr (poked d ys m) p xs"
  by (simp add: cstr_iff bytes_poked_apart)

lemma cstr_drop: "cstr m p xs \<Longrightarrow> k \<le> length xs \<Longrightarrow> cstr m (p + of_nat k) (drop k xs)"
proof (induction xs arbitrary: p k)
  case (Cons x xs)
  then show ?case using Cons.IH[of "p + 1"] by (cases k) (auto simp: add.assoc)
qed simp

lemma cstr_nz: "cstr m p xs \<Longrightarrow> 0 \<notin> set xs"
  by (simp add: cstr_iff)

lemma cstr_end: "cstr m p xs \<Longrightarrow> m (p + of_nat (length xs)) = 0"
  using cstr_drop[of m p xs "length xs"] by simp

lemma cstr_nth: "cstr m p xs \<Longrightarrow> k < length xs \<Longrightarrow> m (p + of_nat k) = xs ! k"
  using cstr_drop[of m p xs k] by (simp flip: Cons_nth_drop_Suc)

lemma cstr_unique: "cstr m p xs \<Longrightarrow> cstr m p ys \<Longrightarrow> xs = ys"
proof (induction xs arbitrary: p ys)
  case Nil then show ?case by (cases ys) auto
next
  case (Cons x xs) then show ?case by (cases ys) auto
qed

section \<open>What the routines compute\<close>

lemma strlen_loop_cstr: "cstr m (s + i) xs \<Longrightarrow> strlen_loop m s i = Some (i + of_nat (length xs))"
proof (induction xs arbitrary: i)
  case Nil
  then show ?case by (subst strlen_loop.simps) simp
next
  case (Cons x xs)
  then show ?case using Cons.IH[of "i + 1"] by (subst strlen_loop.simps) (auto simp: add.assoc)
qed

lemma strlen_cstr: "cstr m s xs \<Longrightarrow> strlen m s = Some (of_nat (length xs))"
  using strlen_loop_cstr[of m s 0 xs] by (simp add: strlen_def)

lemma str_end_cstr: "cstr m s xs \<Longrightarrow> str_end m s = Some (s + of_nat (length xs))"
proof (induction xs arbitrary: s)
  case Nil
  then show ?case by (subst str_end.simps) simp
next
  case (Cons x xs)
  then show ?case using Cons.IH[of "s + 1"] by (subst str_end.simps) (auto simp: add.assoc)
qed

lemma strnlen_loop_cstr:
  "cstr m s xs \<Longrightarrow> strnlen_loop m s n = s + of_nat (min n (length xs))"
proof (induction n arbitrary: s xs)
  case (Suc n)
  then show ?case
  proof (cases xs)
    case (Cons x ys)
    then show ?thesis using Suc.prems Suc.IH[of "s + 1" ys] by (simp add: add.assoc)
  qed simp
qed simp

lemma strnlen_cstr: "cstr m s xs \<Longrightarrow> strnlen m s n = of_nat (min (unat n) (length xs))"
  by (simp add: strnlen_def strnlen_loop_cstr)

subsection \<open>Sets of characters\<close>

lemma scan_set_cstr:
  assumes "cstr m a D"
  shows "\<exists>b. scan_set m a c = Some b \<and> (m b = 0 \<longleftrightarrow> c \<notin> set D)"
  using assms
proof (induction D arbitrary: a)
  case Nil
  then show ?case by (subst scan_set.simps) simp
next
  case (Cons x D)
  then show ?case using Cons.IH[of "a + 1"] by (subst scan_set.simps) auto
qed

lemma strspn_loop_cstr:
  assumes "cstr m a D" "cstr m s xs"
  shows "strspn_loop m s a n = Some (n + of_nat (length (takeWhile (\<lambda>c. c \<in> set D) xs)))"
  using assms(2)
proof (induction xs arbitrary: s n)
  case Nil
  then show ?case by (subst strspn_loop.simps) simp
next
  case (Cons x xs)
  obtain b where b: "scan_set m a x = Some b" "m b = 0 \<longleftrightarrow> x \<notin> set D" using scan_set_cstr[OF assms(1)] by blast
  with Cons show ?case by (subst strspn_loop.simps) (auto simp: algebra_simps)
qed

lemma strspn_cstr: "cstr m a D \<Longrightarrow> cstr m s xs \<Longrightarrow> strspn m s a = Some (of_nat (length (takeWhile (\<lambda>c. c \<in> set D) xs)))"
  using strspn_loop_cstr[of m a D s xs 0] by (simp add: strspn_def)

lemma strcspn_loop_cstr:
  assumes "cstr m a D" "cstr m s xs"
  shows "strcspn_loop m s a = Some (s + of_nat (length (takeWhile (\<lambda>c. c \<notin> set D) xs)))"
  using assms(2)
proof (induction xs arbitrary: s)
  case Nil
  then show ?case by (subst strcspn_loop.simps) simp
next
  case (Cons x xs)
  obtain b where b: "scan_set m a x = Some b" "m b = 0 \<longleftrightarrow> x \<notin> set D" using scan_set_cstr[OF assms(1)] by blast
  with Cons show ?case by (subst strcspn_loop.simps) (auto simp: algebra_simps)
qed

lemma strcspn_cstr: "cstr m a D \<Longrightarrow> cstr m s xs \<Longrightarrow> strcspn m s a = Some (of_nat (length (takeWhile (\<lambda>c. c \<notin> set D) xs)))"
  using strcspn_loop_cstr[of m a D s xs] by (simp add: strcspn_def)

lemma strpbrk_cstr:
  assumes "cstr m a D" "cstr m s xs"
  shows "strpbrk m s a = Some (if set xs \<inter> set D = {} then 0 else s + of_nat (length (takeWhile (\<lambda>c. c \<notin> set D) xs)))"
  using assms(2)
proof (induction xs arbitrary: s)
  case Nil
  then show ?case by (subst strpbrk.simps) simp
next
  case (Cons x xs)
  obtain b where b: "scan_set m a x = Some b" "m b = 0 \<longleftrightarrow> x \<notin> set D" using scan_set_cstr[OF assms(1)] by blast
  with Cons show ?case by (subst strpbrk.simps) (auto simp: algebra_simps)
qed

lemma in_set_cstr: "cstr m a D \<Longrightarrow> in_set m a c = Some (c \<in> set D)"
proof (induction D arbitrary: a)
  case Nil
  then show ?case by (subst in_set.simps) simp
next
  case (Cons x D)
  then show ?case using Cons.IH[of "a + 1"] by (subst in_set.simps) auto
qed

lemma in_set0_cstr: "cstr m a D \<Longrightarrow> in_set0 m a c = Some (c = 0 \<or> c \<in> set D)"
proof (induction D arbitrary: a)
  case Nil
  then show ?case by (subst in_set0.simps) auto
next
  case (Cons x D)
  then show ?case using Cons.IH[of "a + 1"] by (subst in_set0.simps) auto
qed

lemma strchr_cstr:
  "cstr m s xs \<Longrightarrow> strchr m s c = Some (if ucast c \<in> set xs \<or> (ucast c :: u8) = 0
     then s + of_nat (length (takeWhile (\<lambda>x. x \<noteq> ucast c) xs)) else 0)"
proof (induction xs arbitrary: s)
  case Nil
  then show ?case by (subst strchr.simps) auto
next
  case (Cons x xs)
  then show ?case using Cons.IH[of "s + 1"] by (subst strchr.simps) (auto simp: algebra_simps)
qed

subsection \<open>Tokens\<close>

lemma tok_scan_cstr:
  assumes "cstr m a D" "cstr m s xs"
  shows "tok_scan m s a tok = Some (let e = s + of_nat (length (takeWhile (\<lambda>c. c \<notin> set D) xs))
     in if set xs \<inter> set D = {} then (tok, 0, m) else (tok, e + 1, m(e := 0)))"
  using assms(2)
proof (induction xs arbitrary: s)
  case Nil
  then show ?case by (subst tok_scan.simps) (simp add: in_set0_cstr[OF assms(1)])
next
  case (Cons x xs)
  show ?case
  proof (cases "x \<in> set D")
    case True
    with Cons.prems show ?thesis by (subst tok_scan.simps) (auto simp: in_set0_cstr[OF assms(1)] Let_def)
  next
    case False
    with Cons show ?thesis by (subst tok_scan.simps) (auto simp: in_set0_cstr[OF assms(1)] Let_def algebra_simps)
  qed
qed

lemma tok_cont_cstr:
  assumes "cstr m a D" "cstr m s xs"
  shows "tok_cont m s a True = (let s' = s + of_nat (length (takeWhile (\<lambda>c. c \<in> set D) xs))
     in case dropWhile (\<lambda>c. c \<in> set D) xs of [] \<Rightarrow> Some (0, 0, m) | y # ys \<Rightarrow> tok_scan m (s' + 1) a s')"
  using assms(2)
proof (induction xs arbitrary: s)
  case Nil
  then show ?case using cstr_nz[OF assms(1)] by (subst tok_cont.simps) (simp add: in_set_cstr[OF assms(1)])
next
  case (Cons x xs)
  show ?case
  proof (cases "x \<in> set D")
    case True
    with Cons show ?thesis by (subst tok_cont.simps) (simp add: in_set_cstr[OF assms(1)] Let_def ac_simps del: dropWhile_eq_Nil_conv split: list.split)
  next
    case False
    with Cons.prems show ?thesis by (subst tok_cont.simps) (simp add: in_set_cstr[OF assms(1)] Let_def)
  qed
qed

subsection \<open>Copies\<close>

lemma apart_next:
  assumes "apart d n s (Suc (Suc k))"
  shows "apart d 1 (s + 1) (Suc k)"
proof -
  have u: "Suc (Suc k) \<le> unat (d - s)" using assms by (simp add: apart_def)
  then have ne: "s + 1 \<noteq> d" "d \<noteq> s" by auto
  moreover have "unat (d - (s + 1)) = unat (d - s) - 1" using ne unat_minus_1[of "d - s"] by (simp add: diff_diff_eq)
  moreover have "unat (s + 1 - d) \<noteq> 0" using ne by (simp add: unat_eq_0)
  ultimately show ?thesis using u by (simp add: apart_def)
qed

lemma strcpy_loop_cstr:
  assumes "cstr m s xs" "apart d (Suc (length xs)) s (Suc (length xs))" "length xs < 2 ^ 32 - 1"
  shows "strcpy_loop d s m = Some (poked d (xs @ [0]) m)"
  using assms
proof (induction xs arbitrary: d s m)
  case Nil
  then show ?case by (subst strcpy_loop.simps) (simp add: poked_Cons[of "[]", symmetric])
next
  case (Cons x xs)
  have ap: "apart (d + 1) (Suc (length xs)) (s + 1) (Suc (length xs))"
    using Cons.prems(2) by (simp add: apart_def)
  have "m(d := x) = poked d [x] m" using poked_Cons[of "[]" d m x] by simp
  moreover have "apart d 1 (s + 1) (Suc (length xs))"
    using Cons.prems(2) apart_next[of d] by simp
  ultimately have "cstr (m(d := x)) (s + 1) xs"
    using cstr_poked_apart[of m "s + 1" xs d 1 "[x]"] Cons.prems(1) by simp
  from Cons.IH[OF this ap] Cons.prems show ?case
    by (subst strcpy_loop.simps) (simp add: poked_Cons del: fun_upd_apply)
qed

lemma strl_loop_cstr:
  assumes "cstr m (s + i) xs" "apart (d + i) (Suc n) (s + i) (Suc (length xs))" "n < 2 ^ 32 - 1"
  shows "strl_loop n d s i m = (i + of_nat (min n (length xs)), poked (d + i) (take n xs) m)"
  using assms
proof (induction n arbitrary: i xs m)
  case (Suc n)
  show ?case
  proof (cases xs)
    case Nil
    then show ?thesis using Suc.prems by simp
  next
    case (Cons x ys)
    have ap: "apart (d + (i + 1)) (Suc n) (s + (i + 1)) (Suc (length ys))"
      using Suc.prems(2) by (simp add: apart_def Cons)
    have "m(d + i := x) = poked (d + i) [x] m" using poked_Cons[of "[]" "d + i" m x] by simp
    moreover have "apart (d + i) 1 (s + i + 1) (Suc (length ys))"
      using Suc.prems(2) apart_next[of "d + i"] by (simp add: Cons)
    ultimately have "cstr (m(d + i := x)) (s + (i + 1)) ys"
      using cstr_poked_apart[of m "s + i + 1" ys "d + i" 1 "[x]"] Suc.prems(1) by (simp add: Cons add.assoc)
    from Suc.IH[OF this ap] Suc.prems show ?thesis
      using poked_Cons[of "take n ys" "d + i" m x]
      by (simp add: Cons add.assoc del: fun_upd_apply)
  qed
qed simp

subsection \<open>strtok, strstr and strcmp\<close>

lemma length_takeWhile_less: "\<exists>x\<in>set xs. \<not> P x \<Longrightarrow> length (takeWhile P xs) < length xs"
  by (induction xs) auto

lemma strtok_cstr:
  assumes "cstr m ct D" "cstr m s xs" "s \<noteq> 0" "unat s + length xs < 2 ^ 32"
  shows "strtok s ct sv m = tok_cont m s ct True"
proof -
  let ?P = "\<lambda>c. c \<in> set D"
  define k where "k = length (takeWhile ?P xs)"
  have k: "k \<le> length xs" unfolding k_def by (rule length_takeWhile_le)
  have dr: "drop k xs = dropWhile ?P xs" unfolding k_def by (rule dropWhile_eq_drop[symmetric])
  have rest: "cstr m (s + of_nat k) (dropWhile ?P xs)" using cstr_drop[OF assms(2) k] dr by simp
  show ?thesis
  proof (cases "dropWhile ?P xs")
    case Nil
    then show ?thesis using rest assms(3) strspn_cstr[OF assms(1,2)] tok_cont_cstr[OF assms(1,2)]
      by (simp add: strtok_def Let_def flip: k_def del: dropWhile_eq_Nil_conv)
  next
    case (Cons y ys)
    then have y: "y \<notin> set D" "cstr m (s + of_nat k + 1) ys" "y \<noteq> 0" "m (s + of_nat k) = y"
      using rest hd_dropWhile[of ?P xs] unfolding Cons by auto
    define e where "e = s + of_nat k + of_nat (length (takeWhile (\<lambda>c. c \<notin> set D) (y # ys)))"
    have e': "e = s + of_nat k + 1 + of_nat (length (takeWhile (\<lambda>c. c \<notin> set D) ys))"
      using y(1) by (simp add: e_def add.assoc)
    have e0: "e \<noteq> 0 \<and> m e \<noteq> 0" if i: "set ys \<inter> set D \<noteq> {}"
    proof -
      let ?n = "length (takeWhile (\<lambda>c. c \<notin> set D) (y # ys))"
      have lt: "?n < length (y # ys)" using i y(1) length_takeWhile_less[of "y # ys" "\<lambda>c. c \<notin> set D"] by auto
      then have len: "k + ?n < length xs" using dr Cons k by (metis add.commute length_drop less_diff_conv)
      have "e = s + of_nat (k + ?n)" by (simp add: e_def)
      then have "unat e = unat s + (k + ?n)" using assms(4) len by (simp add: unat_plus_if' unat_of_nat)
      moreover have "0 < unat s" using assms(3) by (simp add: unat_gt_0)
      moreover have "m e \<noteq> 0"
        using cstr_nth[OF rest, of ?n] lt Cons cstr_nz[OF rest] by (metis e_def nth_mem)
      ultimately show ?thesis by auto
    qed
    have "strpbrk m (s + of_nat k) ct = Some (if set ys \<inter> set D = {} then 0 else e)"
      using strpbrk_cstr[OF assms(1) rest] y(1) by (simp add: Cons e_def)
    then show ?thesis using strspn_cstr[OF assms(1,2)] tok_cont_cstr[OF assms(1,2)] tok_scan_cstr[OF assms(1) y(2)] y assms(3) e0
      by (simp add: strtok_def Cons Let_def flip: k_def e')
  qed
qed

text \<open>\<open>first_occ ys xs\<close>: where \<open>ys\<close> first occurs in \<open>xs\<close>.\<close>

fun first_occ :: "'a list \<Rightarrow> 'a list \<Rightarrow> nat option" where
  "first_occ ys [] = (if ys = [] then Some 0 else None)"
| "first_occ ys (x # xs) = (if take (length ys) (x # xs) = ys then Some 0 else map_option Suc (first_occ ys xs))"

lemma first_occ_short: "length xs < length ys \<Longrightarrow> first_occ ys xs = None"
  by (induction xs) (auto dest: arg_cong[of _ _ length])

lemma bytes_take_cstr: "cstr m p xs \<Longrightarrow> n \<le> length xs \<Longrightarrow> bytes m p n = take n xs"
  by (rule nth_equalityI) (auto simp: bytes_def cstr_nth)

lemma strstr_loop_cstr:
  assumes "cstr m s2 ys" "ys \<noteq> []" "cstr m s1 xs" "length xs < 2 ^ 31" "length ys < 2 ^ 31"
  shows "strstr_loop m s1 s2 (int (length xs)) (int (length ys)) =
    (case first_occ ys xs of None \<Rightarrow> 0 | Some k \<Rightarrow> s1 + of_nat k)"
  using assms(3,4)
proof (induction xs arbitrary: s1)
  case Nil
  then show ?case using assms(2) by (subst strstr_loop.simps) simp
next
  case (Cons x xs)
  show ?case
  proof (cases "length ys \<le> length (x # xs)")
    case True
    have "bytes m s1 (length ys) = take (length ys) (x # xs)" using bytes_take_cstr[OF Cons.prems(1) True] .
    moreover have "bytes m s2 (length ys) = ys" using bytes_take_cstr[OF assms(1), of "length ys"] by simp
    moreover have "unat (word_of_int (int (length ys)) :: u32) = length ys" using assms(5) by (simp add: unat_of_nat)
    ultimately have mc: "memcmp s1 s2 (word_of_int (int (length ys))) m = 0 \<longleftrightarrow> take (length ys) (x # xs) = ys"
      using memcmp_loop_0[of "length ys" s1 s2 m] by (simp add: memcmp_def signed_eq_0_iff)
    have ih: "strstr_loop m (s1 + 1) s2 (int (length xs)) (int (length ys)) =
      (case first_occ ys xs of None \<Rightarrow> 0 | Some k \<Rightarrow> s1 + 1 + of_nat k)" using Cons by simp
    show ?thesis using True mc ih by (subst strstr_loop.simps) (auto split: option.splits)
  next
    case False
    then show ?thesis using first_occ_short[of "x # xs" ys] by (subst strstr_loop.simps) simp
  qed
qed

lemma uint_gt_0_iff: "0 < uint (w :: u8) \<longleftrightarrow> w \<noteq> 0"
  using uint_ge_0[of w] unsigned_eq_0_iff[of w, where ?'a = int] by linarith

lemma sint_sub8: "x < 0x80 \<Longrightarrow> y < 0x80 \<Longrightarrow> sint (x - y :: u8) = uint x - uint y"
proof -
  assume a: "x < 0x80" "y < 0x80"
  have u: "0 \<le> uint x" "uint x < 128" "0 \<le> uint y" "uint y < 128" using a by (auto simp: word_less_def)
  then have d: "- 128 \<le> uint x - uint y" "uint x - uint y < 128" by linarith+
  have "x - y = word_of_int (uint x - uint y)" by simp
  then have "sint (x - y) = sint (word_of_int (uint x - uint y) :: u8)" by (rule arg_cong)
  also have "... = signed_take_bit 7 (uint x - uint y)" by (subst signed_of_int) simp
  also have "... = uint x - uint y" by (rule signed_take_bit_int_eq_self) (simp_all add: d)
  finally show ?thesis .
qed

lemma strcmp_loop_cstr:
  assumes "cstr m p xs" "cstr m q ys"
  shows "\<exists>r. strcmp_loop m p q = Some r \<and> (r = 0 \<longleftrightarrow> xs = ys) \<and>
    ((\<forall>c\<in>set xs \<union> set ys. c < 0x80) \<longrightarrow> (sint r < 0 \<longleftrightarrow> xs < ys))"
  using assms
proof (induction xs arbitrary: p q ys)
  case Nil
  then show ?case using sint_sub8[of 0] by (cases ys) (subst strcmp_loop.simps, simp add: word_less_def uint_gt_0_iff)+
next
  case (Cons x xs)
  show ?case
  proof (cases ys)
    case Nil
    then show ?thesis using Cons.prems sint_sub8[of x 0] by (subst strcmp_loop.simps) simp
  next
    case ys: (Cons y zs)
    show ?thesis
    proof (cases "x = y")
      case True
      then show ?thesis using Cons.prems Cons.IH[of "p + 1" "q + 1" zs] by (subst strcmp_loop.simps) (auto simp: ys)
    next
      case False
      then show ?thesis using Cons.prems sint_sub8[of x y] by (subst strcmp_loop.simps) (auto simp: ys word_less_def)
    qed
  qed
qed

lemma apart_sub:
  assumes "apart d (i + n) s k" "0 < n"
  shows "apart (d + of_nat i) n s k"
proof -
  define e where "e = unat (s - d)"
  have e: "i + n \<le> e" "k \<le> unat (d - s)" "e < 2 ^ 32" using assms unat32_lt[of "s - d"] by (auto simp: apart_def e_def)
  have i: "unat (of_nat i :: u32) = i" using e by (simp add: unat_of_nat)
  have "s - (d + of_nat i) = (s - d) - of_nat i" "d + of_nat i - s = (d - s) + of_nat i" by simp_all
  note off = this
  have "unat (s - (d + of_nat i)) = e - i"
    unfolding off unat32_sub[of "s - d"] i using e(1) by (simp flip: e_def)
  moreover have "unat (d + of_nat i - s) = unat (d - s) + i"
  proof -
    have "unat (d - s) = 2 ^ 32 - e" using unat32_sub[of 0 "s - d"] e(1) assms(2) by (simp flip: e_def)
    then have "unat (d - s) + i < 2 ^ 32" using e(1,3) assms(2) by simp
    then show ?thesis unfolding off by (simp add: unat_plus_if' i)
  qed
  ultimately show ?thesis using e by (simp add: apart_def)
qed

lemma poked_overwrite: "length zs \<le> length ys \<Longrightarrow> poked d ys (poked d zs m) = poked d ys m"
  by (rule ext) (simp add: poked_def)

lemma poked_append_end:
  assumes "length xs + length ys < 2 ^ 32" "ys \<noteq> []"
  shows "poked (d + of_nat (length xs)) ys (poked d (xs @ [z]) m) = poked d (xs @ ys) m"
proof -
  have "length xs + length [z] < 2 ^ 32" using assms by (cases ys) auto
  from poked_poked[OF this, symmetric] poked_poked[OF assms(1)] assms(2)
  show ?thesis by (simp add: poked_overwrite Suc_leI)
qed

lemma strl_core:
  fixes s :: u32
  assumes "cstr m src xs" "s \<noteq> 0" "apart dst (unat s) src (Suc (length xs))"
  shows "\<exists>i l m1. strl_loop (unat (s - 1)) dst src 0 m = (i, m1) \<and>
    m1(dst + i := 0) = poked dst (take (unat s - 1) xs @ [0]) m \<and>
    strlen (poked dst (take (unat s - 1) xs @ [0]) m) (src + i) = Some l \<and> i + l = of_nat (length xs)"
proof -
  define n where "n = unat s - 1"
  have s: "unat s = Suc n" "unat (s - 1) = n" using unat_minus_1[OF assms(2)] assms(2) by (simp_all add: n_def unat_gt_0)
  have n: "n < 2 ^ 32 - 1" using s(1) unat32_lt[of s] by simp
  let ?k = "min n (length xs)" and ?m = "poked dst (take n xs @ [0]) m"
  have "strl_loop n dst src 0 m = (of_nat ?k, poked dst (take n xs) m)"
    using strl_loop_cstr[of m src 0 xs dst n] assms n s by simp
  moreover have "(poked dst (take n xs) m)(dst + of_nat ?k := 0) = ?m"
    using poked_poked[of "take n xs" "[0]" dst m] poked_Cons[of "[]" "dst + of_nat ?k" "poked dst (take n xs) m" 0] n
    by (simp add: min.commute)
  moreover have "cstr ?m src xs" using assms s by (intro cstr_poked_apart[of m src xs dst "unat s"]) auto
  then have "strlen ?m (src + of_nat ?k) = Some (of_nat (length (drop ?k xs)))"
    by (intro strlen_cstr cstr_drop) auto
  moreover have "(of_nat ?k :: u32) + of_nat (length (drop ?k xs)) = of_nat (length xs)"
    by (simp flip: of_nat_add)
  ultimately show ?thesis unfolding s(2) n_def[symmetric] by blast
qed

lemma strlcpy_cstr:
  assumes "cstr m src xs" "s \<noteq> 0" "apart dst (unat s) src (Suc (length xs))"
  shows "strlcpy dst src s m = Some (of_nat (length xs), poked dst (take (unat s - 1) xs @ [0]) m)"
  using strl_core[OF assms] assms(2) by (auto simp: strlcpy_def simp del: fun_upd_apply)

lemma strlcat_cstr:
  assumes "cstr m dst xs" "cstr m src ys" "length xs < unat s" "apart (dst + of_nat (length xs)) (unat s) src (Suc (length ys))"
  shows "strlcat dst src s m = Some (of_nat (length xs + length ys),
    poked (dst + of_nat (length xs)) (take (unat s - 1) ys @ [0]) m)"
proof -
  have "s \<noteq> 0" using assms(3) by auto
  moreover have "strnlen m dst s = of_nat (length xs)" using strnlen_cstr[OF assms(1), of s] assms(3) by simp
  ultimately show ?thesis using strl_core[OF assms(2) _ assms(4)]
    by (auto simp: strlcat_def Let_def add.assoc simp del: fun_upd_apply)
qed

end
