(* ===== verification/Libc_Num.thy ===== *)
theory Libc_Num
  imports Libc_String "HOL-Library.Signed_Division"
begin

text \<open>
  Numbers and arrays of the C library: \<^verbatim>\<open>atoi.c\<close>, \<^verbatim>\<open>strtol.c\<close>, \<^verbatim>\<open>strtoll.c\<close>,
  \<^verbatim>\<open>strtoul.c\<close>, \<^verbatim>\<open>strtoull.c\<close>, \<^verbatim>\<open>bsearch.c\<close>, \<^verbatim>\<open>qsort.c\<close>,
  \<^verbatim>\<open>rand.c\<close>, \<^verbatim>\<open>abs.c\<close> and their relatives. \<open>long\<close> has 32 bits. Signed results are
  integers and an overflow of signed arithmetic, which C leaves undefined, is \<open>None\<close>.
\<close>

section \<open>atoi.c\<close>

definition in_range :: "int \<Rightarrow> int \<Rightarrow> int \<Rightarrow> int option" where
  "in_range lo hi x = (if lo \<le> x \<and> x \<le> hi then Some x else None)"

abbreviation (input) LONG_MIN :: int where "LONG_MIN \<equiv> - (2 ^ 31)"
abbreviation (input) LONG_MAX :: int where "LONG_MAX \<equiv> 2 ^ 31 - 1"
abbreviation (input) LLONG_MIN :: int where "LLONG_MIN \<equiv> - (2 ^ 63)"
abbreviation (input) LLONG_MAX :: int where "LLONG_MAX \<equiv> 2 ^ 63 - 1"

abbreviation (input) ERANGE :: int where "ERANGE \<equiv> 34"

definition hexval :: "u8 \<Rightarrow> int" where
  "hexval c = (let c = uint c in
     if 48 \<le> c \<and> c \<le> 57 then c - 48
     else if 97 \<le> c \<and> c \<le> 102 then c - 97 + 10
     else if 65 \<le> c \<and> c \<le> 70 then c - 65 + 10
     else 0)"

partial_function (option) atol_hex :: "mem \<Rightarrow> u32 \<Rightarrow> int \<Rightarrow> int option" where
  "atol_hex m num v =
    (if m num \<noteq> 0 \<and> isxdigit (uint (m num)) then
       Option.bind (in_range LONG_MIN LONG_MAX (v * 16 + hexval (m num))) (\<lambda>v. atol_hex m (num + 1) v)
     else Some v)"

text \<open>\<open>value * 10 + *num++ - '0'\<close> associates to the left, so the intermediate sum must fit too.\<close>

partial_function (option) atol_dec :: "mem \<Rightarrow> u32 \<Rightarrow> int \<Rightarrow> int option" where
  "atol_dec m num v =
    (if m num \<noteq> 0 \<and> isdigit (uint (m num)) then
       Option.bind (in_range LONG_MIN LONG_MAX (v * 10 + uint (m num))) (\<lambda>v. atol_dec m (num + 1) (v - 48))
     else Some v)"

definition atol :: "mem \<Rightarrow> u32 \<Rightarrow> int option" where
  "atol m num =
    (if m num = 48 \<and> m (num + 1) = 120 then atol_hex m (num + 2) 0
     else do {
       let neg = (m num = 45);
       let num = (if neg then num + 1 else num);
       v \<leftarrow> atol_dec m num 0;
       in_range LONG_MIN LONG_MAX (if neg then - v else v) })"

definition atoi :: "mem \<Rightarrow> u32 \<Rightarrow> int option" where
  "atoi m num = atol m num"

text \<open>The unsigned versions differ in the type of \<open>value\<close> only and wrap around.\<close>

partial_function (option) atoul_hex :: "mem \<Rightarrow> u32 \<Rightarrow> 'a::len word \<Rightarrow> 'a word option" where
  "atoul_hex m num v =
    (if m num \<noteq> 0 \<and> isxdigit (uint (m num)) then atoul_hex m (num + 1) (v * 16 + of_int (hexval (m num))) else Some v)"

partial_function (option) atoul_dec :: "mem \<Rightarrow> u32 \<Rightarrow> 'a::len word \<Rightarrow> 'a word option" where
  "atoul_dec m num v =
    (if m num \<noteq> 0 \<and> isdigit (uint (m num)) then atoul_dec m (num + 1) (v * 10 + ucast (m num) - 48) else Some v)"

definition atoul :: "mem \<Rightarrow> u32 \<Rightarrow> u32 option" where
  "atoul m num =
    (if m num = 48 \<and> m (num + 1) = 120 then atoul_hex m (num + 2) 0 else atoul_dec m num 0)"

definition atoull :: "mem \<Rightarrow> u32 \<Rightarrow> u64 option" where
  "atoull m num =
    (if m num = 48 \<and> m (num + 1) = 120 then atoul_hex m (num + 2) 0 else atoul_dec m num 0)"

definition atoui :: "mem \<Rightarrow> u32 \<Rightarrow> u32 option" where
  "atoui m num = atoul m num"

section \<open>strtol, strtoll, strtoul, strtoull\<close>

text \<open>White space, sign and prefix, the same in all four. The result is \<open>neg\<close>, the first
  character \<open>c\<close> of the digits, the address \<open>s\<close> after it and the base.\<close>

partial_function (option) skip_space :: "mem \<Rightarrow> u32 \<Rightarrow> (int \<times> u32) option" where
  "skip_space m s =
    (let c = uint (m s); s = s + 1
     in if isspace c then skip_space m s else Some (c, s))"

definition strtol_head :: "mem \<Rightarrow> u32 \<Rightarrow> int \<Rightarrow> (bool \<times> int \<times> u32 \<times> int) option" where
  "strtol_head m nptr base = do {
     (c, s) \<leftarrow> skip_space m nptr;
     let (neg, c, s) =
       (if c = 45 then (True, uint (m s), s + 1)
        else if c = 43 then (False, uint (m s), s + 1)
        else (False, c, s));
     let (c, s, base) =
       (if (base = 0 \<or> base = 16) \<and> c = 48 \<and> (m s = 120 \<or> m s = 88)
        then (uint (m (s + 1)), s + 2, 16) else (c, s, base));
     let base = (if base = 0 then if c = 48 then 8 else 10 else base);
     Some (neg, c, s, base) }"

text \<open>The value of a character as a digit, if it is one.\<close>

definition digit_val :: "int \<Rightarrow> int option" where
  "digit_val c = (if isdigit c then Some (c - 48)
     else if isalpha c then Some (c - (if isupper c then 65 - 10 else 97 - 10)) else None)"

text \<open>The tests that leave the conversion loop: not a digit, or not one of the base.\<close>

definition conv_digit :: "int \<Rightarrow> int \<Rightarrow> int option" where
  "conv_digit base c = (case digit_val c of None \<Rightarrow> None | Some c \<Rightarrow> if c \<ge> base then None else Some c)"

text \<open>The rest of the loop body of \<open>strtol\<close> and \<open>strtoll\<close>, for a type with the given limits, on
  \<open>acc\<close>, \<open>any\<close> and \<open>errno\<close>.\<close>

definition strtol_digit :: "int \<Rightarrow> int \<Rightarrow> int \<Rightarrow> bool \<Rightarrow> int \<Rightarrow> int \<Rightarrow> int \<Rightarrow> int \<times> int \<times> int \<Rightarrow> (int \<times> int \<times> int) option" where
  "strtol_digit lmin lmax base neg cutoff cutlim c = (\<lambda>(acc, any, errno).
     if any < 0 then Some (acc, any, errno)
     else if neg then
       if acc < cutoff \<or> (acc = cutoff \<and> c > cutlim) then Some (lmin, - 1, ERANGE)
       else do {
         acc \<leftarrow> in_range lmin lmax (acc * base);
         acc \<leftarrow> in_range lmin lmax (acc - c);
         Some (acc, 1, errno) }
     else
       if acc > cutoff \<or> (acc = cutoff \<and> c > cutlim) then Some (lmax, - 1, ERANGE)
       else do {
         acc \<leftarrow> in_range lmin lmax (acc * base);
         acc \<leftarrow> in_range lmin lmax (acc + c);
         Some (acc, 1, errno) })"

text \<open>The loop; its result is \<open>s\<close>, \<open>acc\<close>, \<open>any\<close> and \<open>errno\<close>.\<close>

partial_function (option) strtol_loop ::
  "mem \<Rightarrow> int \<Rightarrow> (int \<Rightarrow> int \<times> int \<times> int \<Rightarrow> (int \<times> int \<times> int) option) \<Rightarrow> u32 \<Rightarrow> int \<Rightarrow> int \<times> int \<times> int \<Rightarrow> (u32 \<times> int \<times> int \<times> int) option" where
  "strtol_loop m base digit s c st =
    (if conv_digit base c = None then Some (s, st)
     else Option.bind (digit (the (conv_digit base c)) st) (\<lambda>st. strtol_loop m base digit (s + 1) (uint (m s)) st))"

text \<open>The two functions have the same body, for \<open>long\<close> and for \<open>long long\<close>. The result is the
  value, what is stored in \<open>*endptr\<close> and \<open>errno\<close>.\<close>

definition strtol_body :: "int \<Rightarrow> int \<Rightarrow> mem \<Rightarrow> u32 \<Rightarrow> bool \<Rightarrow> int \<Rightarrow> int \<Rightarrow> (int \<times> u32 option \<times> int) option" where
  "strtol_body lmin lmax m nptr endptr base errno = do {
     (neg, c, s, base) \<leftarrow> strtol_head m nptr base;
     let cutoff = (if neg then lmin else lmax);
     let cutlim = cutoff smod base;
     cutoff \<leftarrow> in_range lmin lmax (cutoff sdiv base);
     let (cutlim, cutoff) =
       (if neg then
          let (cutlim, cutoff) = (if cutlim > 0 then (cutlim - base, cutoff + 1) else (cutlim, cutoff))
          in (- cutlim, cutoff)
        else (cutlim, cutoff));
     (s, acc, any, errno) \<leftarrow>
       strtol_loop m base (strtol_digit lmin lmax base neg cutoff cutlim) s c (0, 0, errno);
     Some (acc, if endptr then Some (if any \<noteq> 0 then s - 1 else nptr) else None, errno) }"

definition strtol :: "mem \<Rightarrow> u32 \<Rightarrow> bool \<Rightarrow> int \<Rightarrow> int \<Rightarrow> (int \<times> u32 option \<times> int) option" where
  "strtol = strtol_body LONG_MIN LONG_MAX"

definition strtoll :: "mem \<Rightarrow> u32 \<Rightarrow> bool \<Rightarrow> int \<Rightarrow> int \<Rightarrow> (int \<times> u32 option \<times> int) option" where
  "strtoll = strtol_body LLONG_MIN LLONG_MAX"

text \<open>\<open>strtoul\<close> and \<open>strtoull\<close>.\<close>

partial_function (option) strtoul_loop ::
  "mem \<Rightarrow> int \<Rightarrow> 'a::len word \<Rightarrow> int \<Rightarrow> u32 \<Rightarrow> int \<Rightarrow> 'a word \<Rightarrow> int \<Rightarrow> (u32 \<times> 'a word \<times> int) option" where
  "strtoul_loop m base cutoff cutlim s c acc any =
    (if conv_digit base c = None then Some (s, acc, any)
     else if any < 0 \<or> acc > cutoff \<or> (acc = cutoff \<and> the (conv_digit base c) > cutlim) then
       strtoul_loop m base cutoff cutlim (s + 1) (uint (m s)) acc (- 1)
     else
       strtoul_loop m base cutoff cutlim (s + 1) (uint (m s))
         (acc * of_int base + of_int (the (conv_digit base c))) 1)"

definition strtoul_body :: "mem \<Rightarrow> u32 \<Rightarrow> bool \<Rightarrow> int \<Rightarrow> int \<Rightarrow> ('a::len word \<times> u32 option \<times> int) option" where
  "strtoul_body m nptr endptr base errno = do {
     (neg, c, s, base) \<leftarrow> strtol_head m nptr base;
     let cutoff = - 1 div (of_int base :: 'a word);
     let cutlim = sint (ucast (- 1 mod (of_int base :: 'a word)) :: u32);
     (s, acc, any) \<leftarrow> strtoul_loop m base cutoff cutlim s c 0 0;
     let (acc, errno) = (if any < 0 then (- 1, ERANGE) else if neg then (- acc, errno) else (acc, errno));
     Some (acc, if endptr then Some (if any \<noteq> 0 then s - 1 else nptr) else None, errno) }"

definition strtoul :: "mem \<Rightarrow> u32 \<Rightarrow> bool \<Rightarrow> int \<Rightarrow> int \<Rightarrow> (u32 \<times> u32 option \<times> int) option" where
  "strtoul = strtoul_body"

definition strtoull :: "mem \<Rightarrow> u32 \<Rightarrow> bool \<Rightarrow> int \<Rightarrow> int \<Rightarrow> (u64 \<times> u32 option \<times> int) option" where
  "strtoull = strtoul_body"

declare atol_hex.simps [code] atol_dec.simps [code] atoul_hex.simps [code] atoul_dec.simps [code]
  skip_space.simps [code] strtol_loop.simps [code] strtoul_loop.simps [code]

section \<open>rand.c, abs.c\<close>

definition srand :: "u32 \<Rightarrow> u32" where
  "srand seed = seed"

definition rand_add_entropy :: "mem \<Rightarrow> u32 \<Rightarrow> u32 \<Rightarrow> u32 \<Rightarrow> u32" where
  "rand_add_entropy m buf len randseed =
    (if len = 0 then randseed
     else randseed XOR
       fold (\<lambda>i enp. enp XOR ((push_bit 8 enp OR drop_bit 24 enp) XOR ucast (m (buf + of_nat i)))) [0..<unat len] 0)"

definition rand :: "u32 \<Rightarrow> int \<times> u32" where
  "rand randseed = (let randseed = randseed * 1664525 + 1013904223 in (sint randseed, randseed))"

definition labs :: "int \<Rightarrow> int option" where
  "labs x = in_range LONG_MIN LONG_MAX (if x < 0 then - x else x)"

definition llabs :: "int \<Rightarrow> int option" where
  "llabs j = in_range LLONG_MIN LLONG_MAX (if j < 0 then - j else j)"

definition abs_c :: "int \<Rightarrow> int option" where
  "abs_c i = in_range (- (2 ^ 31)) (2 ^ 31 - 1) (if i < 0 then - i else i)"

section \<open>Conversion is exact up to the limits\<close>

definition horner :: "int \<Rightarrow> int \<Rightarrow> int list \<Rightarrow> int" where
  "horner base a ds = foldl (\<lambda>a d. a * base + d) a ds"

fun run_digits :: "('d \<Rightarrow> 's \<Rightarrow> 's option) \<Rightarrow> 'd list \<Rightarrow> 's \<Rightarrow> 's option" where
  "run_digits f [] st = Some st"
| "run_digits f (d # ds) st = Option.bind (f d st) (run_digits f ds)"

lemma horner_Cons [simp]: "horner base a (d # ds) = horner base (a * base + d) ds"
  and horner_Nil [simp]: "horner base a [] = a"
  by (simp_all add: horner_def)

lemma horner_ge: "0 \<le> a \<Longrightarrow> 1 \<le> base \<Longrightarrow> (\<And>d. d \<in> set ds \<Longrightarrow> 0 \<le> d) \<Longrightarrow> a \<le> horner base a ds"
proof (induction ds arbitrary: a)
  case (Cons d ds)
  have "a \<le> a * base" using Cons.prems mult_left_mono[of 1 base a] by simp
  then have "a \<le> a * base + d" using Cons.prems(3)[of d] by simp
  also have "... \<le> horner base (a * base + d) ds" using Cons.prems calculation by (intro Cons.IH) auto
  finally show ?case by simp
qed simp

lemma cut_test:
  fixes a d base L :: int
  assumes "0 \<le> d" "d < base"
  shows "a > L div base \<or> (a = L div base \<and> d > L mod base) \<longleftrightarrow> a * base + d > L"
proof -
  have b: "0 < base" using assms by simp
  have L: "L = (L div base) * base + L mod base" by simp
  have r: "0 \<le> L mod base" "L mod base < base" using b by simp_all
  consider "a < L div base" | "a = L div base" | "a > L div base" by linarith
  then show ?thesis
  proof cases
    case 1
    then have "(a + 1) * base \<le> (L div base) * base" using b by (intro mult_right_mono) auto
    then have "a * base + d \<le> L" using L r assms by (simp only: distrib_right)
    then show ?thesis using 1 by simp
  next
    case 2
    then show ?thesis using L by (metis add_less_cancel_left less_irrefl)
  next
    case 3
    then have "(L div base + 1) * base \<le> a * base" using b by (intro mult_right_mono) auto
    then have "a * base + d > L" using L r assms by (simp only: distrib_right)
    then show ?thesis using 3 by simp
  qed
qed

lemma strtol_digit_eq:
  "strtol_digit lmin lmax base neg cutoff cutlim c (acc, any, errno) =
    (if any < 0 then Some (acc, any, errno)
     else if neg then
       if acc < cutoff \<or> (acc = cutoff \<and> c > cutlim) then Some (lmin, - 1, ERANGE)
       else do { acc \<leftarrow> in_range lmin lmax (acc * base); acc \<leftarrow> in_range lmin lmax (acc - c); Some (acc, 1, errno) }
     else
       if acc > cutoff \<or> (acc = cutoff \<and> c > cutlim) then Some (lmax, - 1, ERANGE)
       else do { acc \<leftarrow> in_range lmin lmax (acc * base); acc \<leftarrow> in_range lmin lmax (acc + c); Some (acc, 1, errno) })"
  by (simp add: strtol_digit_def)

lemma run_digits_over: "any < 0 \<Longrightarrow> run_digits (strtol_digit lmin lmax base neg cutoff cutlim) ds (acc, any, e) = Some (acc, any, e)"
  by (induction ds) (auto simp: strtol_digit_eq)

lemma run_digits_pos:
  assumes "2 \<le> base" "\<And>d. d \<in> set ds \<Longrightarrow> 0 \<le> d \<and> d < base" "lmin \<le> 0" "0 \<le> acc" "acc \<le> lmax" "0 \<le> any"
  shows "run_digits (strtol_digit lmin lmax base False (lmax div base) (lmax mod base)) ds (acc, any, e) =
    Some (if horner base acc ds > lmax then (lmax, - 1, ERANGE) else (horner base acc ds, if ds = [] then any else 1, e))"
  using assms(2,4,5,6)
proof (induction ds arbitrary: acc any)
  case (Cons d ds)
  have d: "0 \<le> d" "d < base" using Cons.prems(1)[of d] by auto
  have nn: "0 \<le> acc * base" "0 \<le> acc * base + d" using Cons.prems(2) assms(1) d by simp_all
  have ge: "acc * base + d \<le> horner base (acc * base + d) ds" using Cons.prems assms(1) nn by (intro horner_ge) auto
  show ?case
  proof (cases "acc * base + d > lmax")
    case True
    then show ?thesis using cut_test[OF d, of lmax acc] Cons.prems ge run_digits_over
      by (simp add: strtol_digit_eq)
  next
    case False
    have "run_digits (strtol_digit lmin lmax base False (lmax div base) (lmax mod base)) ds (acc * base + d, 1, e) =
      Some (if horner base (acc * base + d) ds > lmax then (lmax, - 1, ERANGE) else (horner base (acc * base + d) ds, if ds = [] then 1 else 1, e))"
      using Cons.prems False nn by (intro Cons.IH) auto
    moreover have "in_range lmin lmax (acc * base) = Some (acc * base)" "in_range lmin lmax (acc * base + d) = Some (acc * base + d)"
      using False nn d assms(3) by (auto simp: in_range_def)
    then have "strtol_digit lmin lmax base False (lmax div base) (lmax mod base) d (acc, any, e) = Some (acc * base + d, 1, e)"
      using False cut_test[OF d, of lmax acc] Cons.prems(4) by (simp only: strtol_digit_eq) simp
    ultimately show ?thesis by simp
  qed
qed simp

lemma run_digits_neg:
  assumes "2 \<le> base" "\<And>d. d \<in> set ds \<Longrightarrow> 0 \<le> d \<and> d < base" "0 \<le> lmax" "0 \<le> a" "a \<le> L" "0 \<le> any"
  shows "run_digits (strtol_digit (- L) lmax base True (- (L div base)) (L mod base)) ds (- a, any, e) =
    Some (if horner base a ds > L then (- L, - 1, ERANGE) else (- horner base a ds, if ds = [] then any else 1, e))"
  using assms(2,4,5,6)
proof (induction ds arbitrary: a any)
  case (Cons d ds)
  have d: "0 \<le> d" "d < base" using Cons.prems(1)[of d] by auto
  have nn: "0 \<le> a * base" "0 \<le> a * base + d" using Cons.prems(2) assms(1) d by simp_all
  have ge: "a * base + d \<le> horner base (a * base + d) ds" using Cons.prems assms(1) nn by (intro horner_ge) auto
  show ?case
  proof (cases "a * base + d > L")
    case True
    then show ?thesis using cut_test[OF d, of L a] Cons.prems ge run_digits_over
      by (simp add: strtol_digit_eq)
  next
    case False
    have "run_digits (strtol_digit (- L) lmax base True (- (L div base)) (L mod base)) ds (- (a * base + d), 1, e) =
      Some (if horner base (a * base + d) ds > L then (- L, - 1, ERANGE) else (- horner base (a * base + d) ds, if ds = [] then 1 else 1, e))"
      using Cons.prems False nn by (intro Cons.IH) auto
    moreover have "in_range (- L) lmax (- a * base) = Some (- a * base)" "in_range (- L) lmax (- a * base - d) = Some (- (a * base + d))"
      using False nn d assms(3) by (auto simp: in_range_def)
    then have "strtol_digit (- L) lmax base True (- (L div base)) (L mod base) d (- a, any, e) = Some (- (a * base + d), 1, e)"
      using False cut_test[OF d, of L a] Cons.prems(4) by (simp only: strtol_digit_eq) simp
    ultimately show ?thesis by simp
  qed
qed simp

lemma conv_digit_bounds: "conv_digit base c = Some d \<Longrightarrow> 0 \<le> d \<and> d < base"
  by (auto simp: conv_digit_def digit_val_def isdigit_def isalpha_def isupper_def islower_def split: option.splits if_splits)

lemma conv_digit_0 [simp]: "conv_digit base 0 = None"
  by (simp add: conv_digit_def digit_val_def isdigit_def isalpha_def isupper_def islower_def)

lemma conv_digit_not_space: "conv_digit base c \<noteq> None \<Longrightarrow> \<not> isspace c \<and> c \<noteq> 45 \<and> c \<noteq> 43"
  by (auto simp: conv_digit_def digit_val_def isdigit_def isalpha_def isupper_def islower_def isspace_def
      split: option.splits if_splits)

lemma strtol_loop_cstr:
  assumes "cstr m p (ds @ rest)" "\<And>c. c \<in> set ds \<Longrightarrow> conv_digit base (uint c) \<noteq> None"
    "rest = [] \<or> conv_digit base (uint (hd rest)) = None"
  shows "strtol_loop m base f (p + 1) (uint (m p)) st =
    map_option (\<lambda>st. (p + of_nat (length ds) + 1, st)) (run_digits f (map (\<lambda>c. the (conv_digit base (uint c))) ds) st)"
  using assms(1,2)
proof (induction ds arbitrary: p st)
  case Nil
  then have "conv_digit base (uint (m p)) = None" using assms(3) by (cases rest) auto
  then show ?case by (subst strtol_loop.simps) simp
next
  case (Cons x ds)
  have p: "m p = x" "cstr m (p + 1) (ds @ rest)" using Cons.prems by auto
  have "conv_digit base (uint x) \<noteq> None" using Cons.prems by simp
  then obtain y where x: "conv_digit base (uint x) = Some y" by blast
  have "strtol_loop m base f (p + 1 + 1) (uint (m (p + 1))) st =
    map_option (\<lambda>st. (p + 1 + of_nat (length ds) + 1, st)) (run_digits f (map (\<lambda>c. the (conv_digit base (uint c))) ds) st)" for st
    using Cons.prems p by (intro Cons.IH) auto
  then show ?case using x p
    by (subst strtol_loop.simps) (cases "f y st", simp_all add: ac_simps)
qed

lemma skip_space_cstr:
  assumes "cstr m p (ws @ x # xs)" "\<And>c. c \<in> set ws \<Longrightarrow> isspace (uint c)" "\<not> isspace (uint x)"
  shows "skip_space m p = Some (uint x, p + of_nat (length ws) + 1)"
  using assms(1,2)
proof (induction ws arbitrary: p)
  case Nil
  then show ?case using assms(3) by (subst skip_space.simps) simp
next
  case (Cons w ws)
  then show ?case using Cons.IH[of "p + 1"] by (subst skip_space.simps) (auto simp: algebra_simps)
qed

text \<open>The decimal, octal, hexadecimal \<dots> numeral \<open>ws @ sg @ ds\<close> at the start of a string.\<close>

definition numeral_at :: "mem \<Rightarrow> u32 \<Rightarrow> int \<Rightarrow> u8 list \<Rightarrow> u8 list \<Rightarrow> u8 list \<Rightarrow> u8 list \<Rightarrow> bool" where
  "numeral_at m p base ws sg ds rest \<longleftrightarrow> cstr m p (ws @ sg @ ds @ rest) \<and>
     list_all (\<lambda>c. isspace (uint c)) ws \<and> sg \<in> {[], [45], [43]} \<and> ds \<noteq> [] \<and>
     list_all (\<lambda>c. conv_digit base (uint c) \<noteq> None) ds \<and>
     (rest = [] \<or> conv_digit base (uint (hd rest)) = None) \<and>
     \<not> (base = 16 \<and> hd (ds @ rest) = 48 \<and> length (ds @ rest) > 1 \<and> (ds @ rest) ! 1 \<in> {120, 88})"

definition numeral_val :: "int \<Rightarrow> u8 list \<Rightarrow> u8 list \<Rightarrow> int" where
  "numeral_val base sg ds = (let v = horner base 0 (map (\<lambda>c. the (conv_digit base (uint c))) ds)
     in if sg = [45] then - v else v)"

lemma uint_u8_48: "uint (48 :: u8) = 48"
  by simp

lemma strtol_head_numeral:
  assumes "numeral_at m p base ws sg ds rest" "2 \<le> base"
  shows "strtol_head m p base = (let q = p + of_nat (length ws + length sg)
    in Some (sg = [45], uint (m q), q + 1, base)) \<and> cstr m (p + of_nat (length ws + length sg)) (ds @ rest)"
proof -
  obtain d ds' where ds: "ds = d # ds'" using assms(1) by (cases ds) (auto simp: numeral_at_def)
  define q where "q = p + of_nat (length ws + length sg)"
  have str: "cstr m p (ws @ sg @ d # ds' @ rest)" and ws: "c \<in> set ws \<Longrightarrow> isspace (uint c)"
    and sg: "sg = [] \<or> sg = [45] \<or> sg = [43]" and d: "conv_digit base (uint d) \<noteq> None" for c
    using assms(1) by (auto simp: numeral_at_def ds list_all_iff)
  have q: "cstr m q (d # ds' @ rest)" using cstr_drop[OF str, of "length ws + length sg"] by (simp add: q_def)
  then have mq: "m q = d" by simp
  have px: "\<not> ((base = 0 \<or> base = 16) \<and> d = 48 \<and> (m (q + 1) = 120 \<or> m (q + 1) = 88))"
  proof
    assume a: "(base = 0 \<or> base = 16) \<and> d = 48 \<and> (m (q + 1) = 120 \<or> m (q + 1) = 88)"
    with q have "ds' @ rest \<noteq> [] \<and> (ds' @ rest) ! 0 = m (q + 1)" by (cases "ds' @ rest") auto
    then show False using a assms by (auto simp: numeral_at_def ds)
  qed
  have d48: "uint d = 48 \<longleftrightarrow> d = 48" by (metis uint_u8_48 word_uint_eq_iff)
  from conv_digit_not_space[OF d] have ns: "\<not> isspace (uint d)" "uint d \<noteq> 45" "uint d \<noteq> 43" by auto
  have "strtol_head m p base = Some (sg = [45], uint (m q), q + 1, base)"
  proof (cases "sg = []")
    case True
    then have "skip_space m p = Some (uint d, q + 1)" using skip_space_cstr[of m p ws d "ds' @ rest"] str ws ns by (simp add: q_def)
    then show ?thesis using True ns px assms(2) mq by (auto simp: strtol_head_def d48)
  next
    case False
    then obtain g where g: "sg = [g]" "g = 45 \<or> g = 43" using sg by auto
    then have "skip_space m p = Some (uint g, q)"
      using skip_space_cstr[of m p ws g "d # ds' @ rest"] str ws by (auto simp: q_def isspace_def add.assoc)
    then show ?thesis using g px assms(2) mq by (auto simp: strtol_head_def d48)
  qed
  then show ?thesis using q unfolding q_def ds by (simp add: Let_def)
qed


lemma smod_sdiv_neg:
  fixes L base :: int
  assumes "0 \<le> L" "0 < base"
  shows "- L sdiv base = - (L div base)" "- L smod base = - (L mod base)"
  using assms by (simp_all add: signed_divide_int_def signed_modulo_int_def minus_mult_div_eq_mod [symmetric] sgn_if)

lemma sdiv_pos:
  fixes L base :: int
  assumes "0 \<le> L" "0 < base"
  shows "L sdiv base = L div base" "L smod base = L mod base"
  using assms by (simp_all add: signed_divide_int_def signed_modulo_int_def minus_mult_div_eq_mod [symmetric] sgn_if)

lemma strtol_body_numeral:
  assumes num: "numeral_at m p base ws sg ds rest" and base: "2 \<le> base" and lim: "lmin < 0" "0 < lmax"
  defines "v \<equiv> numeral_val base sg ds"
  shows "strtol_body lmin lmax m p True base errno =
    Some (max lmin (min lmax v), Some (p + of_nat (length (ws @ sg @ ds))), if v < lmin \<or> v > lmax then ERANGE else errno)"
proof -
  define q where "q = p + of_nat (length ws + length sg)"
  let ?D = "map (\<lambda>c. the (conv_digit base (uint c))) ds"
  have hd: "strtol_head m p base = Some (sg = [45], uint (m q), q + 1, base)" and str: "cstr m q (ds @ rest)"
    using strtol_head_numeral[OF num base] by (simp_all add: q_def Let_def)
  have dg: "c \<in> set ds \<Longrightarrow> conv_digit base (uint c) \<noteq> None" and rest: "rest = [] \<or> conv_digit base (uint (hd rest)) = None"
    and ne: "ds \<noteq> []" for c
    using num by (auto simp: numeral_at_def list_all_iff)
  have D: "d \<in> set ?D \<Longrightarrow> 0 \<le> d \<and> d < base" for d using dg conv_digit_bounds[of base] by fastforce
  have h0: "0 \<le> horner base 0 ?D" using D base by (intro horner_ge) auto
  note loop = strtol_loop_cstr[OF str dg rest]
  have e: "p + of_nat (length (ws @ sg @ ds)) = q + of_nat (length ds)" by (simp add: q_def)
  have q1: "0 \<le> x div base \<and> x div base \<le> x" if "0 \<le> x" for x
    using that base int_div_less_self[of x base] by (cases "x = 0") (auto simp: pos_imp_zdiv_nonneg_iff)
  show ?thesis
  proof (cases "sg = [45]")
    case True
    define L where "L = - lmin"
    have L: "lmin = - L" "0 \<le> L" using lim by (auto simp: L_def)
    have "in_range lmin lmax (- (L div base)) = Some (- (L div base))"
      using q1[OF L(2)] L lim by (auto simp: in_range_def)
    moreover have "\<not> - (L mod base) > 0" using base by (simp add: not_less)
    moreover have "lmin sdiv base = - (L div base)" "lmin smod base = - (L mod base)"
      using smod_sdiv_neg[OF L(2), of base] base L(1) by simp_all
    moreover have "run_digits (strtol_digit lmin lmax base True (- (L div base)) (L mod base)) ?D (- 0, 0, errno) =
      Some (if - horner base 0 ?D < lmin then (lmin, - 1, ERANGE) else (- horner base 0 ?D, 1, errno))"
      using run_digits_neg[of base ?D lmax 0 L 0 errno] base D L lim ne by auto
    ultimately show ?thesis using True hd h0 lim unfolding e
      by (simp add: strtol_body_def loop v_def numeral_val_def Let_def)
  next
    case False
    have "in_range lmin lmax (lmax div base) = Some (lmax div base)"
      using q1[of lmax] lim by (auto simp: in_range_def)
    moreover have "run_digits (strtol_digit lmin lmax base False (lmax div base) (lmax mod base)) ?D (0, 0, errno) =
      Some (if horner base 0 ?D > lmax then (lmax, - 1, ERANGE) else (horner base 0 ?D, 1, errno))"
      using run_digits_pos[of base ?D lmin 0 lmax 0 errno] base D lim ne by auto
    ultimately show ?thesis using False hd h0 lim base unfolding e
      by (simp add: strtol_body_def loop sdiv_pos v_def numeral_val_def Let_def)
  qed
qed

section \<open>bsearch.c\<close>

text \<open>The array is a list; reading an element outside it is undefined, hence \<open>None\<close>. The result
  is the index of the element found, or \<open>None\<close> for a \<open>NULL\<close> result.\<close>

partial_function (option) bsearch_loop :: "('k \<Rightarrow> 'a \<Rightarrow> int) \<Rightarrow> 'k \<Rightarrow> 'a list \<Rightarrow> u32 \<Rightarrow> u32 \<Rightarrow> u32 option option" where
  "bsearch_loop compare key base low high =
    (let mid = low + ((high - low) div 2)
     in if unat mid < length base then
       let r = compare key (base ! unat mid)
       in if r < 0 then
            if mid = 0 then Some None else bsearch_loop compare key base low (mid - 1)
          else if r > 0 then
            let low = mid + 1
            in if low < mid \<or> low > high then Some None else bsearch_loop compare key base low high
          else Some (Some mid)
     else None)"

definition bsearch :: "('k \<Rightarrow> 'a \<Rightarrow> int) \<Rightarrow> 'k \<Rightarrow> 'a list \<Rightarrow> u32 \<Rightarrow> u32 option option" where
  "bsearch compare key base num_elems =
    (if num_elems = 0 then Some None else bsearch_loop compare key base 0 (num_elems - 1))"

declare bsearch_loop.simps [code]

text \<open>The array is ordered for \<open>key\<close> when the comparisons with it go from positive over zero to
  negative. An element that compares equal stays between \<open>low\<close> and \<open>high\<close>.\<close>

lemma bsearch_loop_finds:
  assumes ord: "sorted_wrt (\<lambda>x y. compare key x \<ge> compare key y) base"
    and k: "unat low \<le> k" "k \<le> unat high" "unat high < length base" "compare key (base ! k) = 0"
  shows "\<exists>i. bsearch_loop compare key base low high = Some (Some i) \<and> unat i < length base \<and> compare key (base ! unat i) = 0"
  using k(1,2,3)
proof (induction "unat high - unat low" arbitrary: low high rule: less_induct)
  case less
  define mid where "mid = low + ((high - low) div 2)"
  have mid: "unat mid = unat low + (unat high - unat low) div 2"
  proof -
    have "unat ((high - low) div 2) = (unat high - unat low) div 2"
      using less.prems by (simp add: unat_div_distrib unat32_sub)
    moreover have "unat low + (unat high - unat low) div 2 < 2 ^ 32" using less.prems unat32_lt[of high] by linarith
    ultimately show ?thesis by (simp add: mid_def unat_plus_if')
  qed
  then have le: "unat low \<le> unat mid" "unat mid \<le> unat high" using less.prems by auto
  let ?r = "compare key (base ! unat mid)"
  consider "?r < 0" | "?r > 0" | "?r = 0" by linarith
  then show ?case
  proof cases
    case 1
    have "k < unat mid"
    proof (rule ccontr)
      assume "\<not> k < unat mid"
      then have "compare key (base ! unat mid) \<ge> compare key (base ! k)"
        using sorted_wrt_nth_less[OF ord, of "unat mid" k] less.prems by (cases "k = unat mid") auto
      then show False using 1 k(4) by simp
    qed
    then have m0: "mid \<noteq> 0" by auto
    note m = m0 unat_minus_1[OF m0]
    have "\<exists>i. bsearch_loop compare key base low (mid - 1) = Some (Some i) \<and> unat i < length base \<and> compare key (base ! unat i) = 0"
      using le m \<open>k < unat mid\<close> less.prems by (intro less.hyps) auto
    then show ?thesis using 1 m le less.prems by (subst bsearch_loop.simps) (simp add: Let_def flip: mid_def)
  next
    case 2
    have gt: "unat mid < k"
    proof (rule ccontr)
      assume "\<not> unat mid < k"
      then have "compare key (base ! k) \<ge> compare key (base ! unat mid)"
        using sorted_wrt_nth_less[OF ord, of k "unat mid"] le less.prems by (cases "k = unat mid") auto
      then show False using 2 k(4) by simp
    qed
    then have m: "unat (mid + 1) = unat mid + 1" using less.prems unat32_lt[of high] by (simp add: unat_plus_if')
    then have nle: "\<not> mid + 1 < mid" "\<not> high < mid + 1" using gt less.prems by (auto simp: word_less_nat_alt)
    have "\<exists>i. bsearch_loop compare key base (mid + 1) high = Some (Some i) \<and> unat i < length base \<and> compare key (base ! unat i) = 0"
      using le m gt less.prems by (intro less.hyps) auto
    then show ?thesis using 2 nle le less.prems by (subst bsearch_loop.simps) (simp add: Let_def flip: mid_def)
  next
    case 3
    then show ?thesis using le less.prems by (subst bsearch_loop.simps) (simp add: Let_def flip: mid_def)
  qed
qed


text \<open>A key that is absent can make \<open>high\<close> drop below \<open>low\<close>: the difference wraps around and the
  next probe is far outside the array.\<close>

lemma bsearch_probes_outside: "bsearch (\<lambda>k x. k - x) (2::int) [1, 3] 2 = None"
  unfolding bsearch_def by (simp, (subst bsearch_loop.simps, simp)+)

end
