(* ===== verification/Libc_Props.thy ===== *)
theory Libc_Props
  imports Libc_Num
begin

text \<open>
  Properties of the C library: the memory and string routines against their reference
  definitions, and the inputs on which they depart from them.
\<close>

section \<open>Memory\<close>

text \<open>A memory with a few strings in it, for the examples.\<close>

definition demo_mem :: mem where
  "demo_mem = poked 0x100 (map of_nat [97, 98, 99, 0]) (poked 0x200 (map of_nat [119, 120, 121, 122, 0])
     (poked 0x300 (map of_nat [44, 59, 0]) (poked 0x400 (map of_nat [59, 97, 98, 44, 44, 99, 0]) (\<lambda>a. 0xff))))"

lemma demo_strings:
  "cstr demo_mem 0x100 [97, 98, 99]" "cstr demo_mem 0x200 [119, 120, 121, 122]"
  "cstr demo_mem 0x300 [44, 59]" "cstr demo_mem 0x400 [59, 97, 98, 44, 44, 99]"
  by code_simp+

text \<open>
  C19: when neither range crosses the sign boundary of the address space, \<open>memmove\<close> has the effect of
  reading all bytes before writing any, whatever the overlap and the alignment; its word accesses
  are all aligned, and it returns \<open>dest\<close>.
\<close>

theorem memmove_reads_before_writing:
  assumes "sint dest + int (unat count) \<le> 2 ^ 31" "sint src + int (unat count) \<le> 2 ^ 31" "unat count < 2 ^ 31"
  shows "memmove dest src count m = Some (dest, moved dest src (unat count) m)"
  by (rule memmove_moved[OF assms])

theorem memmove_reads_before_writing_witness:
  "memmove 0x401 0x400 5 demo_mem = Some (0x401, moved 0x401 0x400 5 demo_mem)"
  using memmove_reads_before_writing[of "0x401" 5 "0x400" demo_mem] by simp

text \<open>
  The direction test compares addresses as signed numbers. Across \<open>0x80000000\<close> it takes the
  wrong direction and overwrites source bytes before they are read.
\<close>

theorem memmove_wrong_direction:
  "\<exists>m. memmove 0x7FFFFFFE 0x80000000 4 m \<noteq> Some (0x7FFFFFFE, moved 0x7FFFFFFE 0x80000000 4 m)"
proof -
  have "map_option (\<lambda>(d, m). m 0x7FFFFFFE) (memmove 0x7FFFFFFE 0x80000000 4 (\<lambda>a. ucast a)) = Some 2"
    by code_simp
  moreover have "moved 0x7FFFFFFE 0x80000000 4 (\<lambda>a. ucast a) 0x7FFFFFFE = 0" by code_simp
  ultimately show ?thesis by (intro exI[of _ "\<lambda>a. ucast a"]) auto
qed

text \<open>
  C20: \<open>memset\<close> fills exactly the \<open>count\<close> bytes at \<open>s\<close> with the low byte of \<open>c\<close>, for every address and
  length, through its byte, word and byte phases.
\<close>

theorem memset_fills: "memset s c count m = Some (s, filled s (unat count) (ucast c) m)"
  by (rule memset_filled)

section \<open>Strings\<close>

text \<open>
  \<open>strcpy\<close> followed by \<open>strcat\<close> leaves the concatenation at the destination and changes
  nothing else.
\<close>

theorem strcpy_strcat_concatenate:
  assumes "cstr m s1 xs" "cstr m s2 ys"
    and "apart d (length xs + length ys + 1) s1 (Suc (length xs))" "apart d (length xs + length ys + 1) s2 (Suc (length ys))"
    and "length xs + length ys < 2 ^ 32 - 1"
  shows "\<exists>m1 m2. strcpy d s1 m = Some (d, m1) \<and> strcat d s2 m1 = Some (d, m2) \<and>
    cstr m2 d (xs @ ys) \<and> m2 = poked d (xs @ ys @ [0]) m"
proof -
  define m1 where "m1 = poked d (xs @ [0]) m"
  have "strcpy d s1 m = Some (d, m1)"
    using strcpy_loop_cstr[OF assms(1), of d] assms(3,5) by (simp add: strcpy_def m1_def apart_def)
  moreover have "cstr m1 d xs" unfolding m1_def using cstr_nz[OF assms(1)] assms(5) by (intro cstr_poked) auto
  moreover have "cstr m1 s2 ys" unfolding m1_def by (rule cstr_poked_apart[OF assms(2,4)]) simp
  moreover have "apart (d + of_nat (length xs)) (Suc (length ys)) s2 (Suc (length ys))"
    using apart_sub[of d "length xs" "Suc (length ys)"] assms(4) by simp
  ultimately have "strcat d s2 m1 = Some (d, poked (d + of_nat (length xs)) (ys @ [0]) m1)"
    using assms(5) by (simp add: strcat_def str_end_cstr strcpy_loop_cstr)
  moreover have "poked (d + of_nat (length xs)) (ys @ [0]) m1 = poked d (xs @ ys @ [0]) m"
    unfolding m1_def using assms(5) by (intro poked_append_end) auto
  moreover have "cstr (poked d ((xs @ ys) @ [0]) m) d (xs @ ys)"
    using cstr_nz[OF assms(1)] cstr_nz[OF assms(2)] assms(5) by (intro cstr_poked) auto
  ultimately show ?thesis using \<open>strcpy d s1 m = Some (d, m1)\<close> by simp
qed

theorem strcpy_strcat_concatenate_witness:
  "\<exists>m1 m2. strcpy 0x500 0x100 demo_mem = Some (0x500, m1) \<and> strcat 0x500 0x200 m1 = Some (0x500, m2) \<and>
    cstr m2 0x500 [97, 98, 99, 119, 120, 121, 122] \<and> m2 = poked 0x500 [97, 98, 99, 119, 120, 121, 122, 0] demo_mem"
  using strcpy_strcat_concatenate[OF demo_strings(1,2), of "0x500"] by (simp add: apart_def)

text \<open>
  C21: \<open>strlcpy\<close> writes at most \<open>s\<close> bytes, truncates and always terminates, and returns the
  length of the source.
\<close>

theorem strlcpy_bounded:
  assumes "cstr m src xs" "s \<noteq> 0" "apart dst (unat s) src (Suc (length xs))"
  shows "strlcpy dst src s m = Some (of_nat (length xs), poked dst (take (unat s - 1) xs @ [0]) m)"
  by (rule strlcpy_cstr[OF assms])

theorem strlcpy_bounded_witness:
  "strlcpy 0x500 0x200 3 demo_mem = Some (4, poked 0x500 [119, 120, 0] demo_mem)"
  using strlcpy_bounded[OF demo_strings(2), of 3 "0x500"] by (simp add: apart_def)

text \<open>
  \<open>strlcat\<close> bounds the number of copied bytes by the size of the whole buffer, not by what is
  left of it: with a string of length \<open>n\<close> in the buffer it writes up to \<open>n\<close> bytes past its end.
\<close>

theorem strlcat_ignores_used_space:
  assumes "cstr m dst xs" "cstr m src ys" "length xs < unat s"
    and "apart (dst + of_nat (length xs)) (unat s) src (Suc (length ys))"
  shows "strlcat dst src s m = Some (of_nat (length xs + length ys),
    poked (dst + of_nat (length xs)) (take (unat s - 1) ys @ [0]) m)"
  by (rule strlcat_cstr[OF assms])

theorem strlcat_ignores_used_space_witness:
  "map_option (\<lambda>(n, m). map m [0x105, 0x106, 0x107]) (strlcat 0x100 0x200 5 demo_mem) = Some [121, 122, 0]"
  using strlcat_ignores_used_space[OF demo_strings(1,2), of 5] by (simp add: apart_def poked_def)

text \<open>
  C22: \<open>strtok\<close>, built from \<open>strspn\<close> and \<open>strpbrk\<close>, and the loops of \<open>strtok_r\<close> agree: the same token,
  the same saved position and the same memory.
\<close>

theorem strtok_agrees_with_strtok_r:
  assumes "cstr m ct D" "cstr m s xs" "s \<noteq> 0" "unat s + length xs < 2 ^ 32"
  shows "strtok s ct save m = strtok_r s ct save m"
  using strtok_cstr[OF assms] assms(3) by (simp add: strtok_r_def strtok_r_internal_def)

theorem strtok_agrees_with_strtok_r_witness:
  "strtok 0x400 0x300 0 demo_mem = strtok_r 0x400 0x300 0 demo_mem \<and>
   map_option (\<lambda>(t, s, m). (t, s)) (strtok_r 0x400 0x300 0 demo_mem) = Some (0x401, 0x404)"
proof
  show "strtok 0x400 0x300 0 demo_mem = strtok_r 0x400 0x300 0 demo_mem"
    using strtok_agrees_with_strtok_r[OF demo_strings(3,4)] by simp
  show "map_option (\<lambda>(t, s, m). (t, s)) (strtok_r 0x400 0x300 0 demo_mem) = Some (0x401, 0x404)"
    by code_simp
qed

text \<open>\<open>strstr\<close> returns the first occurrence of the needle, or \<open>NULL\<close>.\<close>

theorem strstr_first_occurrence:
  assumes "cstr m s1 xs" "cstr m s2 ys" "length xs < 2 ^ 31" "length ys < 2 ^ 31"
  shows "strstr m s1 s2 = Some (case first_occ ys xs of None \<Rightarrow> 0 | Some k \<Rightarrow> s1 + of_nat k)"
proof (cases "ys = []")
  case True
  have "first_occ [] xs = Some 0" by (cases xs) auto
  then show ?thesis using strlen_cstr[OF assms(2)] True by (simp add: strstr_def)
next
  case False
  have "unat (of_nat (length ys) :: u32) = length ys" using assms(4) by (simp add: unat_of_nat)
  then have "(of_nat (length ys) :: u32) \<noteq> 0" using False by auto
  then show ?thesis
    using strlen_cstr[OF assms(1)] strlen_cstr[OF assms(2)] strstr_loop_cstr[OF assms(2) False assms(1,3,4)] assms(3,4)
    by (simp add: strstr_def sint_of_nat32)
qed

theorem strstr_first_occurrence_witness:
  "strstr (poked 0x500 [98, 44, 0] demo_mem) 0x400 0x500 = Some 0x402"
  using strstr_first_occurrence[of "poked 0x500 [98, 44, 0] demo_mem" "0x400" "[59, 97, 98, 44, 44, 99]" "0x500" "[98, 44]"]
    cstr_poked_apart[OF demo_strings(4), of "0x500" 3 "[98, 44, 0]"] cstr_poked[of "[98, 44]" "0x500" demo_mem]
  by (simp add: apart_def)

text \<open>
  \<open>strcmp\<close> returns 0 exactly on equal strings, and on strings of 7-bit characters its sign is
  the lexicographic order. (A difference of 128 or more is cut to a \<open>signed char\<close>.)
\<close>

theorem strcmp_compares:
  assumes "cstr m p xs" "cstr m q ys"
  shows "\<exists>r. strcmp m p q = Some r \<and> (r = 0 \<longleftrightarrow> xs = ys) \<and>
    ((\<forall>c\<in>set xs \<union> set ys. c < 0x80) \<longrightarrow> (r < 0 \<longleftrightarrow> xs < ys))"
  using strcmp_loop_cstr[OF assms] by (auto simp: strcmp_def signed_eq_0_iff)

theorem strcmp_compares_witness:
  "\<exists>r. strcmp demo_mem 0x100 0x200 = Some r \<and> r < 0"
  using strcmp_compares[OF demo_strings(1,2)] by auto

lemma strcmp_wrong_sign: "strcmp (poked 0x10 [0x80, 0] (poked 0x20 [0x01, 0] (\<lambda>a. 0))) 0x20 0x10 = Some (- 127)"
  and strcmp_wrong_sign2: "strcmp (poked 0x10 [0xff, 0] (poked 0x20 [0x01, 0] (\<lambda>a. 0))) 0x10 0x20 = Some (- 2)"
  by code_simp+

section \<open>Numbers and arrays\<close>

text \<open>
  C23: on a numeral with optional white space and sign, followed by anything that is not a digit of
  the base, \<open>strtol\<close> returns the exact value when it fits a \<open>long\<close> and the nearest limit with
  \<open>ERANGE\<close> otherwise; \<open>*endptr\<close> is the first character after the numeral. No step overflows.
\<close>

theorem strtol_exact_or_clamped:
  assumes "numeral_at m p base ws sg ds rest" "2 \<le> base"
  shows "strtol m p True base errno = (let v = numeral_val base sg ds
    in Some (max LONG_MIN (min LONG_MAX v), Some (p + of_nat (length (ws @ sg @ ds))),
             if v < LONG_MIN \<or> v > LONG_MAX then ERANGE else errno))"
  unfolding strtol_def Let_def by (rule strtol_body_numeral[OF assms]) simp_all

theorem strtol_exact_or_clamped_witness:
  "strtol (poked 0x10 [32, 45, 49, 50, 122, 0] (\<lambda>a. 0)) 0x10 True 10 0 = Some (- 12, Some 0x14, 0) \<and>
   strtol (poked 0x10 [57, 57, 57, 57, 57, 57, 57, 57, 57, 57, 0] (\<lambda>a. 0)) 0x10 True 10 0 = Some (2147483647, Some 0x1a, 34)"
proof
  have n: "numeral_at (poked 0x10 [32, 45, 49, 50, 122, 0] (\<lambda>a. 0)) 0x10 10 [32] [45] [49, 50] [122]"
    "numeral_at (poked 0x10 [57, 57, 57, 57, 57, 57, 57, 57, 57, 57, 0] (\<lambda>a. 0)) 0x10 10 [] [] [57, 57, 57, 57, 57, 57, 57, 57, 57, 57] []"
    by code_simp+
  have v: "numeral_val 10 [45] [49, 50] = - 12" "numeral_val 10 [] [57, 57, 57, 57, 57, 57, 57, 57, 57, 57] = 9999999999"
    by code_simp+
  show "strtol (poked 0x10 [32, 45, 49, 50, 122, 0] (\<lambda>a. 0)) 0x10 True 10 0 = Some (- 12, Some 0x14, 0)"
    using strtol_exact_or_clamped[OF n(1), of 0] by (simp add: v)
  show "strtol (poked 0x10 [57, 57, 57, 57, 57, 57, 57, 57, 57, 57, 0] (\<lambda>a. 0)) 0x10 True 10 0 = Some (2147483647, Some 0x1a, 34)"
    using strtol_exact_or_clamped[OF n(2), of 0] by (simp add: v)
qed

text \<open>
  C24: \<open>bsearch\<close> terminates and returns an element that compares equal whenever the ordered array
  holds one. (Without one it can read outside the array: \<open>bsearch_probes_outside\<close>.)
\<close>

theorem bsearch_finds_present:
  assumes "sorted_wrt (\<lambda>x y. compare key x \<ge> compare key y) base" "length base < 2 ^ 32"
    and "k < length base" "compare key (base ! k) = 0"
  shows "\<exists>i. bsearch compare key base (of_nat (length base)) = Some (Some i) \<and>
    unat i < length base \<and> compare key (base ! unat i) = 0"
proof -
  have u: "unat (of_nat (length base) :: u32) = length base" using assms(2) by (simp add: unat_of_nat)
  then have nz: "(of_nat (length base) :: u32) \<noteq> 0" using assms(3) by auto
  have h: "unat (of_nat (length base) - 1 :: u32) = length base - 1" using unat_minus_1[OF nz] u by simp
  show ?thesis using bsearch_loop_finds[of compare key base 0 k "of_nat (length base) - 1"] assms nz h
    by (simp add: bsearch_def)
qed

theorem bsearch_finds_present_witness:
  "\<exists>i. bsearch (\<lambda>k x. k - x) (5::int) [1, 3, 5, 7] 4 = Some (Some i) \<and> unat i < length [1, 3, 5, 7::int] \<and> 5 - [1, 3, 5, 7::int] ! unat i = 0"
  using bsearch_finds_present[of "\<lambda>k x. k - x" "5::int" "[1, 3, 5, 7]" 2] by simp

end
