(* ===== verification/Novm.thy ===== *)
theory Novm
  imports Libc_Mem
begin

text \<open>
  The page allocator for targets without an MMU (\<^verbatim>\<open>kernel/novm/novm.c\<close>) and its wrapper
  \<^verbatim>\<open>lib/heap/page_alloc.c\<close>: arenas of pages with one map byte per page. Every operation on
  an arena holds its mutex throughout, so it is one step here. Pages have 4096 bytes. An access
  outside the map is undefined and has the value \<open>None\<close>. \<open>page_allocator\<close> is the contract that the
  heap relies on.
\<close>

section \<open>Arenas\<close>

abbreviation (input) PAGE_SIZE :: u32 where "PAGE_SIZE \<equiv> 4096"
abbreviation (input) PAGE_SIZE_SHIFT :: nat where "PAGE_SIZE_SHIFT \<equiv> 12"
abbreviation (input) MINIMUM_USEFUL_UNALIGNED_SIZE :: u32 where "MINIMUM_USEFUL_UNALIGNED_SIZE \<equiv> 64"
abbreviation (input) NOVM_ARENA_ANY :: u32 where "NOVM_ARENA_ANY \<equiv> 0xFFFFFFFF"

definition ROUNDUP :: "u32 \<Rightarrow> u32 \<Rightarrow> u32" where
  "ROUNDUP a b = ((a + (b - 1)) AND NOT (b - 1))"

definition ROUNDDOWN :: "u32 \<Rightarrow> u32 \<Rightarrow> u32" where
  "ROUNDDOWN a b = (a AND NOT (b - 1))"

text \<open>\<open>struct novm_arena\<close>; \<open>na_map\<close> is what the map at \<open>na_map_addr\<close> holds.\<close>

record novm_arena =
  na_name :: string
  na_pages :: u32
  na_map :: "u8 list"
  na_map_addr :: u32
  na_base :: u32
  na_size :: u32
  na_unaligned_area :: u32
  na_unaligned_size :: u32

section \<open>Operations\<close>

text \<open>The number of ranges found, and the ranges filled in.\<close>

fun novm_get_arenas_loop :: "nat \<Rightarrow> nat \<Rightarrow> novm_arena list \<Rightarrow> int \<Rightarrow> int \<times> (u32 \<times> u32) list" where
  "novm_get_arenas_loop i k [] ranges_found = (ranges_found, [])"
| "novm_get_arenas_loop i 0 (n # ns) ranges_found = (ranges_found, [])"
| "novm_get_arenas_loop i (Suc k) (n # ns) ranges_found =
    (let (r, rs) = novm_get_arenas_loop (Suc i) k ns (if na_pages n > 0 then int i + 1 else ranges_found)
     in (r, (na_base n, push_bit PAGE_SIZE_SHIFT (na_pages n)) # rs))"

definition novm_get_arenas :: "novm_arena list \<Rightarrow> int \<Rightarrow> int \<times> (u32 \<times> u32) list" where
  "novm_get_arenas arena number_of_ranges = novm_get_arenas_loop 0 (nat number_of_ranges) arena 0"

definition in_arena :: "novm_arena \<Rightarrow> u32 \<Rightarrow> bool" where
  "in_arena n p = (if na_size n = 0 then False else na_base n \<le> p \<and> p < na_base n + na_size n)"

text \<open>\<open>while (start - arena_start < map_size)\<close>: pages of the arena are given up for the map.\<close>

function novm_map_loop :: "u32 \<Rightarrow> u32 \<Rightarrow> u32 \<Rightarrow> u32 \<Rightarrow> u32 \<times> u32 \<times> u32" where
  "novm_map_loop arena_start start sz map_size =
    (if start - arena_start < map_size
     then novm_map_loop arena_start (start + PAGE_SIZE) (sz - PAGE_SIZE) (map_size - 1)
     else (start, sz, map_size))"
  by auto
termination
proof (relation "measure (\<lambda>(a, s, z, ms). unat ms)")
  fix arena_start start sz map_size :: u32
  assume "start - arena_start < map_size"
  then have "map_size \<noteq> 0" by auto
  then show "((arena_start, start + 4096, sz - 4096, map_size - 1), arena_start, start, sz, map_size)
    \<in> measure (\<lambda>(a, s, z, ms). unat ms)" by (simp add: measure_unat)
qed simp

declare novm_map_loop.simps [simp del]

definition novm_init_helper :: "novm_arena \<Rightarrow> string \<Rightarrow> u32 \<Rightarrow> u32 \<Rightarrow> u32 \<Rightarrow> u32 \<Rightarrow> novm_arena" where
  "novm_init_helper n nm arena_start arena_size default_map default_map_size =
    (let start = ROUNDUP arena_start PAGE_SIZE;
         sz = ROUNDDOWN (arena_start + arena_size) PAGE_SIZE - start;
         map_size = drop_bit PAGE_SIZE_SHIFT sz;
         (map_addr, start, sz, map_size, n) =
           (if default_map = 0 \<or> default_map_size < map_size then
              let map_addr = arena_start;
                  (start, sz, map_size) = novm_map_loop arena_start start sz map_size;
                  free = map_addr + ROUNDUP map_size 4
              in (map_addr, start, sz, map_size,
                  if sint (start - free) \<ge> sint MINIMUM_USEFUL_UNALIGNED_SIZE
                  then n\<lparr>na_unaligned_area := free, na_unaligned_size := start - free\<rparr> else n)
            else (default_map, start, sz, map_size,
                  if start - arena_start \<ge> MINIMUM_USEFUL_UNALIGNED_SIZE
                  then n\<lparr>na_unaligned_area := arena_start, na_unaligned_size := start - arena_start\<rparr> else n))
     in n\<lparr>na_name := nm, na_map_addr := map_addr, na_map := replicate (unat map_size) 0,
          na_pages := map_size, na_base := start, na_size := sz\<rparr>)"

fun novm_add_arena :: "novm_arena list \<Rightarrow> string \<Rightarrow> u32 \<Rightarrow> u32 \<Rightarrow> novm_arena list option" where
  "novm_add_arena [] nm arena_start arena_size = None"
| "novm_add_arena (n # ns) nm arena_start arena_size =
    (if na_pages n = 0 then Some (novm_init_helper n nm arena_start arena_size 0 0 # ns)
     else map_option (Cons n) (novm_add_arena ns nm arena_start arena_size))"

text \<open>\<open>novm_init\<close> for the given end of the image, RAM and static map.\<close>

definition novm_init :: "novm_arena list \<Rightarrow> u32 \<Rightarrow> u32 \<Rightarrow> u32 \<Rightarrow> u32 \<Rightarrow> novm_arena list" where
  "novm_init arena MEM_START MEM_SIZE mem_allocation_map DEFAULT_MAP_SIZE =
    (case arena of [] \<Rightarrow> [] | n # ns \<Rightarrow>
       novm_init_helper n ''main'' MEM_START MEM_SIZE mem_allocation_map DEFAULT_MAP_SIZE # ns)"

text \<open>The inner loop of \<open>novm_alloc_helper\<close>: the first \<open>j\<close> with \<open>map[i + j]\<close> in use.\<close>

fun first_used :: "u8 list \<Rightarrow> nat \<Rightarrow> nat \<Rightarrow> nat \<Rightarrow> nat option" where
  "first_used mp i j 0 = None"
| "first_used mp i j (Suc k) = (if mp ! (i + j) \<noteq> 0 then Some j else first_used mp i (Suc j) k)"

text \<open>The outer loop, from \<open>i\<close>; after a failure at \<open>j\<close> it goes on at \<open>i + j + 1\<close>.\<close>

function novm_scan :: "u8 list \<Rightarrow> nat \<Rightarrow> nat \<Rightarrow> nat \<Rightarrow> nat option" where
  "novm_scan mp n pages i =
    (if i \<le> n - pages then
       case first_used mp i 0 pages of None \<Rightarrow> Some i | Some j \<Rightarrow> novm_scan mp n pages (i + j + 1)
     else None)"
  by auto
termination by (relation "measure (\<lambda>(mp, n, pages, i). Suc n - i)") auto

declare novm_scan.simps [simp del]

definition novm_alloc_helper :: "novm_arena \<Rightarrow> u32 \<Rightarrow> u32 \<times> novm_arena" where
  "novm_alloc_helper n pages =
    (if pages = 0 \<or> pages > na_pages n then (0, n)
     else case novm_scan (na_map n) (unat (na_pages n)) (unat pages) 0 of
       None \<Rightarrow> (0, n)
     | Some i \<Rightarrow> (na_base n + push_bit PAGE_SIZE_SHIFT (of_nat i),
                 n\<lparr>na_map := memcpy_at i (replicate (unat pages) 1) (na_map n)\<rparr>))"

fun novm_alloc_loop :: "nat \<Rightarrow> u32 \<Rightarrow> u32 \<Rightarrow> novm_arena list \<Rightarrow> u32 \<times> novm_arena list" where
  "novm_alloc_loop i pages arena_bitmap [] = (0, [])"
| "novm_alloc_loop i pages arena_bitmap (n # ns) =
    (if arena_bitmap AND push_bit i 1 \<noteq> 0 then
       let (result, n) = novm_alloc_helper n pages
       in if result \<noteq> 0 then (result, n # ns)
          else let (result, ns) = novm_alloc_loop (Suc i) pages arena_bitmap ns in (result, n # ns)
     else let (result, ns) = novm_alloc_loop (Suc i) pages arena_bitmap ns in (result, n # ns))"

definition novm_alloc_pages :: "novm_arena list \<Rightarrow> u32 \<Rightarrow> u32 \<Rightarrow> u32 \<times> novm_arena list" where
  "novm_alloc_pages arena pages arena_bitmap = novm_alloc_loop 0 pages arena_bitmap arena"

text \<open>The address, the size stored in \<open>*size_return\<close> and the arenas.\<close>

definition novm_alloc_unaligned :: "novm_arena list \<Rightarrow> u32 \<times> u32 \<times> novm_arena list" where
  "novm_alloc_unaligned arena =
    (case arena of
       n # ns \<Rightarrow>
         if na_unaligned_area n \<noteq> 0
         then (na_unaligned_area n, na_unaligned_size n, n\<lparr>na_unaligned_area := 0, na_unaligned_size := 0\<rparr> # ns)
         else let (r, arena) = novm_alloc_pages arena 1 NOVM_ARENA_ANY in (r, PAGE_SIZE, arena)
     | [] \<Rightarrow> (0, 0, []))"

text \<open>The search for the arena of an address, as an index.\<close>

fun find_arena :: "novm_arena list \<Rightarrow> u32 \<Rightarrow> nat option" where
  "find_arena [] address = None"
| "find_arena (n # ns) address = (if in_arena n address then Some 0 else map_option Suc (find_arena ns address))"

definition novm_free_pages :: "novm_arena list \<Rightarrow> u32 \<Rightarrow> u32 \<Rightarrow> novm_arena list option" where
  "novm_free_pages arena address pages =
    (case find_arena arena address of
       None \<Rightarrow> Some arena
     | Some a \<Rightarrow> do {
         let n = arena ! a;
         let index = unat (drop_bit PAGE_SIZE_SHIFT (address - na_base n));
         mp \<leftarrow> store_at index (replicate (unat pages) 0) (na_map n);
         Some (arena[a := n\<lparr>na_map := mp\<rparr>]) })"

text \<open>The loop of \<open>novm_alloc_specific_pages\<close> marks pages until it meets one in use.\<close>

fun mark_specific :: "nat \<Rightarrow> nat \<Rightarrow> u8 list \<Rightarrow> (int \<times> u8 list) option" where
  "mark_specific 0 i mp = Some (NO_ERROR, mp)"
| "mark_specific (Suc k) i mp =
    (if i < length mp then
       if mp ! i \<noteq> 0 then Some (ERR_NO_MEMORY, mp) else mark_specific k (Suc i) (mp[i := 1])
     else None)"

definition novm_alloc_specific_pages :: "novm_arena list \<Rightarrow> u32 \<Rightarrow> u32 \<Rightarrow> (int \<times> novm_arena list) option" where
  "novm_alloc_specific_pages arena address pages =
    (case find_arena arena address of
       None \<Rightarrow> Some (ERR_NOT_FOUND, arena)
     | Some a \<Rightarrow> do {
         let n = arena ! a;
         let index = unat (drop_bit PAGE_SIZE_SHIFT (address - na_base n));
         (err, mp) \<leftarrow> mark_specific (unat pages) index (na_map n);
         Some (err, arena[a := n\<lparr>na_map := mp\<rparr>]) })"

section \<open>page_alloc.c without a kernel VM\<close>

definition page_alloc :: "u32 \<Rightarrow> u32 \<Rightarrow> novm_arena list \<Rightarrow> u32 \<times> novm_arena list" where
  "page_alloc pages ar arena = novm_alloc_pages arena pages ar"

definition page_free :: "u32 \<Rightarrow> u32 \<Rightarrow> novm_arena list \<Rightarrow> novm_arena list option" where
  "page_free ptr pages arena = novm_free_pages arena ptr pages"

definition page_get_arenas :: "int \<Rightarrow> novm_arena list \<Rightarrow> int \<times> (u32 \<times> u32) list" where
  "page_get_arenas number_of_ranges arena = novm_get_arenas arena number_of_ranges"

definition page_first_alloc :: "novm_arena list \<Rightarrow> u32 \<times> u32 \<times> novm_arena list" where
  "page_first_alloc arena = novm_alloc_unaligned arena"

end
