(* ===== verification/Novm_Inv.thy ===== *)
theory Novm_Inv
  imports Novm
begin

text \<open>
  What the page allocator guarantees: first fit, the contract \<open>page_allocator\<close> with its
  interpretation on the arenas of \<open>Novm\<close>, and the layout of a new arena.
\<close>

section \<open>First fit\<close>

lemma first_used_None: "first_used mp i j k = None \<longleftrightarrow> (\<forall>x\<in>{j..<j + k}. mp ! (i + x) = 0)"
proof (induction k arbitrary: j)
  case (Suc k)
  have "{j..<j + Suc k} = insert j {Suc j..<Suc j + k}" by auto
  then show ?case using Suc by simp
qed simp

lemma first_used_Some: "first_used mp i j k = Some x \<Longrightarrow> j \<le> x \<and> x < j + k \<and> mp ! (i + x) \<noteq> 0"
  by (induction k arbitrary: j) (fastforce split: if_splits)+

lemma novm_scan_spec:
  assumes "0 < p" "p \<le> n"
  shows "(case novm_scan mp n p i of
     Some i' \<Rightarrow> i \<le> i' \<and> i' + p \<le> n \<and> (\<forall>x<p. mp ! (i' + x) = 0) \<and> (\<forall>k. i \<le> k \<and> k < i' \<longrightarrow> (\<exists>x<p. mp ! (k + x) \<noteq> 0))
   | None \<Rightarrow> \<forall>k. i \<le> k \<and> k + p \<le> n \<longrightarrow> (\<exists>x<p. mp ! (k + x) \<noteq> 0))"
  using assms
proof (induction mp n p i rule: novm_scan.induct)
  case (1 mp n p i)
  show ?case
  proof (cases "i \<le> n - p")
    case False
    then show ?thesis using 1 by (subst novm_scan.simps) auto
  next
    case True
    show ?thesis
    proof (cases "first_used mp i 0 p")
      case None
      then have "\<forall>x<p. mp ! (i + x) = 0" by (simp add: first_used_None)
      then show ?thesis using True None 1(2,3) by (subst novm_scan.simps) auto
    next
      case (Some j)
      then have j: "j < p" "mp ! (i + j) \<noteq> 0" using first_used_Some by fastforce+
      have skip: "\<exists>x<p. mp ! (k + x) \<noteq> 0" if "i \<le> k" "k < i + j + 1" for k
        using that j by (intro exI[of _ "i + j - k"]) auto
      have e: "novm_scan mp n p i = novm_scan mp n p (i + j + 1)"
        using True Some by (subst novm_scan.simps) simp
      show ?thesis
      proof (cases "novm_scan mp n p (i + j + 1)")
        case None
        then have "\<exists>x<p. mp ! (k + x) \<noteq> 0" if "i \<le> k" "k + p \<le> n" for k
          using 1(1)[OF True Some 1(2,3)] skip[OF that(1)] that by (cases "k < i + j + 1") auto
        then show ?thesis unfolding e None by simp
      next
        case i': (Some i')
        then have "\<exists>x<p. mp ! (k + x) \<noteq> 0" if "i \<le> k" "k < i'" for k
          using 1(1)[OF True Some 1(2,3)] skip[OF that(1)] that by (cases "k < i + j + 1") auto
        then show ?thesis using 1(1)[OF True Some 1(2,3)] unfolding e i' by simp
      qed
    qed
  qed
qed

section \<open>The contract of a page allocator\<close>

text \<open>The bytes of \<open>n\<close> pages at \<open>p\<close>.\<close>

definition page_bytes :: "u32 \<Rightarrow> u32 \<Rightarrow> nat set" where
  "page_bytes p n = {unat p ..< unat p + 4096 * unat n}"

locale page_allocator =
  fixes ok :: "'s \<Rightarrow> bool"
    and used :: "'s \<Rightarrow> nat set"
    and palloc :: "u32 \<Rightarrow> 's \<Rightarrow> u32 \<times> 's"
    and pfree :: "u32 \<Rightarrow> u32 \<Rightarrow> 's \<Rightarrow> 's option"
  assumes palloc_fail: "ok s \<Longrightarrow> palloc n s = (0, s') \<Longrightarrow> s' = s"
    and palloc_ok: "ok s \<Longrightarrow> palloc n s = (p, s') \<Longrightarrow> p \<noteq> 0 \<Longrightarrow>
      ok s' \<and> n \<noteq> 0 \<and> 4096 dvd unat p \<and> unat p + 4096 * unat n < 2 ^ 32 \<and>
      used s \<inter> page_bytes p n = {} \<and> used s' = used s \<union> page_bytes p n"
    and pfree_ok: "ok s \<Longrightarrow> n \<noteq> 0 \<Longrightarrow> 4096 dvd unat p \<Longrightarrow> page_bytes p n \<subseteq> used s \<Longrightarrow>
      \<exists>s'. pfree p n s = Some s' \<and> ok s' \<and> used s' = used s - page_bytes p n"
begin

text \<open>Pages that are allocated and freed again leave the same pages in use.\<close>

lemma alloc_free:
  assumes "ok s" "palloc n s = (p, s1)" "p \<noteq> 0"
  shows "\<exists>s2. pfree p n s1 = Some s2 \<and> ok s2 \<and> used s2 = used s"
proof -
  note a = palloc_ok[OF assms]
  then obtain s2 where "pfree p n s1 = Some s2" "ok s2" "used s2 = used s1 - page_bytes p n"
    using pfree_ok[of s1 n p] by auto
  then show ?thesis using a by auto
qed

text \<open>Two allocations do not overlap.\<close>

lemma alloc_alloc:
  assumes "ok s" "palloc n s = (p, s1)" "p \<noteq> 0" "palloc k s1 = (q, s2)" "q \<noteq> 0"
  shows "page_bytes p n \<inter> page_bytes q k = {}"
  using palloc_ok[OF assms(1-3)] palloc_ok[of s1 k q s2] assms(4,5) by auto

end

section \<open>The arenas as a page allocator\<close>

text \<open>An arena that is set up: its map has a byte per page, its pages are aligned and do not wrap
  around; two arenas do not touch.\<close>

definition arena_ok :: "novm_arena \<Rightarrow> bool" where
  "arena_ok n \<longleftrightarrow> length (na_map n) = unat (na_pages n) \<and> unat (na_size n) = 4096 * unat (na_pages n) \<and>
     (na_pages n \<noteq> 0 \<longrightarrow> na_base n \<noteq> 0 \<and> 4096 dvd unat (na_base n) \<and>
       unat (na_base n) + 4096 * unat (na_pages n) < 2 ^ 32)"

definition arena_end :: "novm_arena \<Rightarrow> nat" where
  "arena_end n = unat (na_base n) + 4096 * unat (na_pages n)"

definition arenas_apart :: "novm_arena \<Rightarrow> novm_arena \<Rightarrow> bool" where
  "arenas_apart n n' \<longleftrightarrow> na_pages n = 0 \<or> na_pages n' = 0 \<or>
     arena_end n < unat (na_base n') \<or> arena_end n' < unat (na_base n)"

definition arena_used :: "novm_arena \<Rightarrow> nat set" where
  "arena_used n = {a \<in> {unat (na_base n) ..< arena_end n}. na_map n ! ((a - unat (na_base n)) div 4096) \<noteq> 0}"

definition novm_ok :: "novm_arena list \<Rightarrow> bool" where
  "novm_ok ns \<longleftrightarrow> list_all arena_ok ns \<and> sorted_wrt arenas_apart ns"

definition novm_used :: "novm_arena list \<Rightarrow> nat set" where
  "novm_used ns = (\<Union>n\<in>set ns. arena_used n)"

lemma arena_used_upd:
  assumes "i + k \<le> length (na_map n)" "arena_ok n"
  shows "arena_used (n\<lparr>na_map := memcpy_at i (replicate k v) (na_map n)\<rparr>) =
    (let R = {unat (na_base n) + 4096 * i ..< unat (na_base n) + 4096 * (i + k)}
     in if v \<noteq> 0 then arena_used n \<union> R else arena_used n - R)"
proof -
  let ?R = "{unat (na_base n) + 4096 * i ..< unat (na_base n) + 4096 * (i + k)}" and ?b = "unat (na_base n)"
  have len: "length (na_map n) = unat (na_pages n)" using assms(2) by (simp add: arena_ok_def)
  have R: "?R \<subseteq> {?b ..< arena_end n}" using assms(1) by (auto simp: arena_end_def len)
  have nth: "memcpy_at i (replicate k v) (na_map n) ! ((a - ?b) div 4096) =
      (if a \<in> ?R then v else na_map n ! ((a - ?b) div 4096))" if "a \<in> {?b ..< arena_end n}" for a
  proof -
    have j: "(a - ?b) div 4096 < length (na_map n)" using that by (auto simp: arena_end_def len)
    have "a \<in> ?R \<longleftrightarrow> i \<le> (a - ?b) div 4096 \<and> (a - ?b) div 4096 < i + k" using that by auto
    moreover have "memcpy_at i (replicate k v) (na_map n) ! x = (if i \<le> x \<and> x < i + k then v else na_map n ! x)"
      if "x < length (na_map n)" for x using assms(1) that by (auto simp: nth_memcpy_at)
    ultimately show ?thesis using j by presburger
  qed
  show ?thesis
    using R nth unfolding arena_used_def arena_end_def by (auto simp: Let_def arena_end_def split: if_splits)
qed

lemma unat_push12: "i < 2 ^ 20 \<Longrightarrow> unat (push_bit 12 (of_nat i) :: u32) = 4096 * i"
  by (simp add: push_bit_eq_mult unat_word_ariths unat_of_nat)

lemma alloc_helper_ok:
  assumes ok: "arena_ok n" and r: "novm_alloc_helper n k = (p, n')"
  shows "p = 0 \<Longrightarrow> n' = n"
    and "p \<noteq> 0 \<Longrightarrow> arena_ok n' \<and> na_base n' = na_base n \<and> na_pages n' = na_pages n \<and> k \<noteq> 0 \<and> 4096 dvd unat p \<and>
      page_bytes p k \<subseteq> {unat (na_base n) ..< arena_end n} \<and> arena_used n \<inter> page_bytes p k = {} \<and>
      arena_used n' = arena_used n \<union> page_bytes p k"
proof -
  have "if p = 0 then n' = n else arena_ok n' \<and> na_base n' = na_base n \<and> na_pages n' = na_pages n \<and> k \<noteq> 0 \<and> 4096 dvd unat p \<and>
      page_bytes p k \<subseteq> {unat (na_base n) ..< arena_end n} \<and> arena_used n \<inter> page_bytes p k = {} \<and>
      arena_used n' = arena_used n \<union> page_bytes p k"
  proof (cases "k = 0 \<or> k > na_pages n \<or> novm_scan (na_map n) (unat (na_pages n)) (unat k) 0 = None")
    case True
    then have "p = 0 \<and> n' = n" using r by (auto simp: novm_alloc_helper_def split: if_splits option.splits)
    then show ?thesis by simp
  next
    case False
    then obtain i where i: "novm_scan (na_map n) (unat (na_pages n)) (unat k) 0 = Some i" by blast
    have k: "0 < unat k" "unat k \<le> unat (na_pages n)" "k \<noteq> 0" "\<not> k > na_pages n"
      using False by (auto simp: unat_gt_0 word_less_nat_alt)
    have fit: "i + unat k \<le> unat (na_pages n)" "\<forall>x<unat k. na_map n ! (i + x) = 0"
      using novm_scan_spec[of "unat k" "unat (na_pages n)" 0 "na_map n"] k by (simp_all add: i)
    have b: "na_base n \<noteq> 0" "4096 dvd unat (na_base n)" "unat (na_base n) + 4096 * unat (na_pages n) < 2 ^ 32"
      "length (na_map n) = unat (na_pages n)"
      using ok k by (auto simp: arena_ok_def)
    let ?m = "memcpy_at i (replicate (unat k) 1) (na_map n)"
    have p: "p = na_base n + push_bit 12 (of_nat i)" "n' = n\<lparr>na_map := ?m\<rparr>"
      using r i k by (auto simp: novm_alloc_helper_def)
    have i20: "i < 2 ^ 20" using fit b k(1) by simp
    have up: "unat p = unat (na_base n) + 4096 * i"
      using unat_push12[OF i20] b(3) fit(1) k(1) unfolding p(1) by (simp add: unat_plus_if')
    have R: "page_bytes p k = {unat (na_base n) + 4096 * i ..< unat (na_base n) + 4096 * (i + unat k)}"
      by (auto simp: page_bytes_def up)
    have "na_map n ! ((a - unat (na_base n)) div 4096) = 0" if "a \<in> page_bytes p k" for a
    proof -
      have "i \<le> (a - unat (na_base n)) div 4096" "(a - unat (na_base n)) div 4096 < i + unat k"
        using that unfolding R by auto
      then show ?thesis using fit(2) by (metis le_add_diff_inverse less_diff_conv2 add.commute)
    qed
    then have "arena_used n \<inter> page_bytes p k = {}" by (auto simp: arena_used_def)
    moreover have "arena_used n' = arena_used n \<union> page_bytes p k"
      using arena_used_upd[of i "unat k" n 1] fit(1) b(4) ok unfolding p(2) R by (simp add: Let_def)
    moreover have "page_bytes p k \<subseteq> {unat (na_base n) ..< arena_end n}" using fit(1) unfolding R arena_end_def by auto
    moreover have "arena_ok n'" using ok fit(1) b(4) unfolding p(2) by (simp add: arena_ok_def)
    moreover have "p \<noteq> 0" using up b(1) by (metis add_is_0 unat_0 unat_eq_0)
    moreover have "4096 dvd unat p" using up b(2) by simp
    ultimately show ?thesis using k(3) p(2) by simp
  qed
  then show "p = 0 \<Longrightarrow> n' = n" and "p \<noteq> 0 \<Longrightarrow> arena_ok n' \<and> na_base n' = na_base n \<and> na_pages n' = na_pages n \<and> k \<noteq> 0 \<and> 4096 dvd unat p \<and>
      page_bytes p k \<subseteq> {unat (na_base n) ..< arena_end n} \<and> arena_used n \<inter> page_bytes p k = {} \<and>
      arena_used n' = arena_used n \<union> page_bytes p k" by auto
qed

lemma arena_used_subset: "arena_used n \<subseteq> {unat (na_base n) ..< arena_end n}"
  by (auto simp: arena_used_def)

lemma apart_disjoint:
  "arenas_apart n n' \<Longrightarrow> {unat (na_base n) ..< arena_end n} \<inter> {unat (na_base n') ..< arena_end n'} = {}"
  by (auto simp: arenas_apart_def arena_end_def)

lemma apart_cong:
  "na_base m = na_base n \<Longrightarrow> na_pages m = na_pages n \<Longrightarrow> arenas_apart m = arenas_apart n"
  by (rule ext) (simp add: arenas_apart_def arena_end_def)

lemma apart_sym: "arenas_apart n n' \<longleftrightarrow> arenas_apart n' n"
  by (auto simp: arenas_apart_def)

lemma novm_ok_Cons: "novm_ok (n # ns) \<longleftrightarrow> arena_ok n \<and> (\<forall>n'\<in>set ns. arenas_apart n n') \<and> novm_ok ns"
  by (auto simp: novm_ok_def)

lemma novm_used_Cons: "novm_used (n # ns) = arena_used n \<union> novm_used ns"
  by (simp add: novm_used_def)

lemma apart_used:
  assumes "\<forall>n'\<in>set ns. arenas_apart n n'" "S \<subseteq> {unat (na_base n) ..< arena_end n}"
  shows "novm_used ns \<inter> S = {}"
proof -
  have "arena_used n' \<inter> S = {}" if "n' \<in> set ns" for n'
    using apart_disjoint[of n n'] arena_used_subset[of n'] assms that by blast
  then show ?thesis by (auto simp: novm_used_def)
qed

definition same_layout :: "novm_arena \<Rightarrow> novm_arena \<Rightarrow> bool" where
  "same_layout n n' \<longleftrightarrow> na_base n = na_base n' \<and> na_pages n = na_pages n'"

lemma same_layout_apart:
  "list_all2 same_layout ns ns' \<Longrightarrow> \<forall>x\<in>set ns. arenas_apart n x \<Longrightarrow> \<forall>x\<in>set ns'. arenas_apart n x"
proof (induction rule: list_all2_induct)
  case (Cons x xs y ys)
  then show ?case using apart_cong[of x y] apart_sym by (auto simp: same_layout_def)
qed simp

lemma alloc_loop_ok:
  assumes "novm_ok ns" "novm_alloc_loop i k bm ns = (p, ns')"
  shows "(p = 0 \<longrightarrow> ns' = ns) \<and> (p \<noteq> 0 \<longrightarrow> novm_ok ns' \<and> list_all2 same_layout ns ns' \<and> k \<noteq> 0 \<and> 4096 dvd unat p \<and>
    (\<exists>n\<in>set ns. page_bytes p k \<subseteq> {unat (na_base n) ..< arena_end n}) \<and>
    novm_used ns \<inter> page_bytes p k = {} \<and> novm_used ns' = novm_used ns \<union> page_bytes p k)"
  using assms
proof (induction ns arbitrary: i ns')
  case Nil
  then show ?case by simp
next
  case (Cons n ns)
  have ok: "arena_ok n" "\<forall>n'\<in>set ns. arenas_apart n n'" "novm_ok ns" using Cons.prems(1) by (auto simp: novm_ok_Cons)
  obtain q m where h: "novm_alloc_helper n k = (q, m)" by fastforce
  show ?case
  proof (cases "bm AND push_bit i 1 \<noteq> 0 \<and> q \<noteq> 0")
    case True
    then have r: "p = q" "ns' = m # ns" using Cons.prems(2) h by (auto simp: Let_def split: prod.splits)
    note a = alloc_helper_ok(2)[OF ok(1) h]
    have "novm_used ns \<inter> page_bytes p k = {}" using a True r by (intro apart_used[OF ok(2)]) auto
    moreover have "list_all2 same_layout ns ns" by (simp add: list_all2_same same_layout_def)
    moreover have "same_layout n m" using a True by (simp add: same_layout_def)
    ultimately show ?thesis using a True r ok apart_cong[of m n] Cons.prems(1)
      by (auto simp: novm_ok_Cons novm_used_Cons)
  next
    case False
    obtain r ns1 where l: "novm_alloc_loop (Suc i) k bm ns = (r, ns1)" by fastforce
    have r: "p = r" "ns' = n # ns1" using Cons.prems(2) h l False alloc_helper_ok(1)[OF ok(1) h]
      by (auto simp: Let_def split: if_splits)
    note ih = Cons.IH[OF ok(3) l[folded r(1)]]
    show ?thesis
    proof (cases "p = 0")
      case True
      then show ?thesis using ih r by simp
    next
      case p: False
      then obtain x where x: "x \<in> set ns" "page_bytes p k \<subseteq> {unat (na_base x) ..< arena_end x}" using ih r by auto
      then have "arena_used n \<inter> page_bytes p k = {}"
        using apart_disjoint[of n x] ok(2) arena_used_subset[of n] by blast
      moreover have "\<forall>y\<in>set ns1. arenas_apart n y" using ih r p ok(2) same_layout_apart[of ns ns1 n] by blast
      ultimately show ?thesis using ih r p ok by (auto simp: novm_ok_Cons novm_used_Cons same_layout_def)
    qed
  qed
qed

lemma find_arena_Some:
  "find_arena ns p = Some a \<Longrightarrow> a < length ns \<and> in_arena (ns ! a) p"
  by (induction ns arbitrary: a) (auto split: if_splits)

lemma find_arena_None: "find_arena ns p = None \<longleftrightarrow> (\<forall>n\<in>set ns. \<not> in_arena n p)"
  by (induction ns) auto

lemma in_arena_iff: "arena_ok n \<Longrightarrow> in_arena n p \<longleftrightarrow> unat p \<in> {unat (na_base n) ..< arena_end n}"
  by (auto simp: in_arena_def arena_ok_def arena_end_def word_le_nat_alt word_less_nat_alt unat_plus_if' unat_eq_0)

lemma novm_used_upd:
  assumes "novm_ok ns" "a < length ns" "arena_ok m" "same_layout m (ns ! a)" "arena_used m = arena_used (ns ! a) - S"
    "S \<subseteq> {unat (na_base (ns ! a)) ..< arena_end (ns ! a)}"
  shows "novm_ok (ns[a := m]) \<and> novm_used (ns[a := m]) = novm_used ns - S"
  using assms
proof (induction ns arbitrary: a)
  case (Cons n ns)
  show ?case
  proof (cases a)
    case 0
    then show ?thesis using Cons.prems apart_cong[of m n] apart_used[of ns n S]
      by (auto simp: novm_ok_Cons novm_used_Cons same_layout_def)
  next
    case (Suc b)
    then have ih: "novm_ok (ns[b := m]) \<and> novm_used (ns[b := m]) = novm_used ns - S"
      using Cons.prems by (intro Cons.IH) (auto simp: novm_ok_Cons)
    have nb: "ns ! b \<in> set ns" using Suc Cons.prems(2) by simp
    have ap: "arenas_apart n (ns ! b)" using nb Cons.prems(1) by (simp add: novm_ok_Cons)
    moreover have "S \<subseteq> {unat (na_base (ns ! b)) ..< arena_end (ns ! b)}" using Cons.prems(6) Suc by simp
    ultimately have "arena_used n \<inter> S = {}" using apart_disjoint[of n "ns ! b"] arena_used_subset[of n] by blast
    moreover have "\<forall>y\<in>set (ns[b := m]). arenas_apart n y"
      using Cons.prems(1,4) ap apart_cong[of m "ns ! b"] apart_sym Suc set_update_subset_insert[of ns b m]
      by (auto simp: novm_ok_Cons same_layout_def)
    ultimately show ?thesis using ih Suc Cons.prems(1) by (auto simp: novm_ok_Cons novm_used_Cons)
  qed
qed simp

lemma free_pages_ok:
  assumes ok: "novm_ok ns" and k: "k \<noteq> 0" and al: "4096 dvd unat p" and sub: "page_bytes p k \<subseteq> novm_used ns"
  shows "\<exists>ns'. novm_free_pages ns p k = Some ns' \<and> novm_ok ns' \<and> novm_used ns' = novm_used ns - page_bytes p k"
proof -
  have k0: "0 < unat k" using k by (simp add: unat_gt_0)
  have aok: "arena_ok n" if "n \<in> set ns" for n using ok that by (auto simp: novm_ok_def list_all_iff)
  have "unat p \<in> novm_used ns" using sub k0 by (auto simp: page_bytes_def)
  then obtain x where x: "x \<in> set ns" "unat p \<in> arena_used x" by (auto simp: novm_used_def)
  then have "in_arena x p" using in_arena_iff[OF aok[OF x(1)]] arena_used_subset by blast
  then obtain a where a: "find_arena ns p = Some a" using find_arena_None x(1) by fastforce
  define n where "n = ns ! a"
  have n: "a < length ns" "in_arena n p" "n \<in> set ns" using find_arena_Some[OF a] by (auto simp: n_def)
  have nok: "arena_ok n" by (rule aok[OF n(3)])
  have pn: "unat (na_base n) \<le> unat p" "unat p < arena_end n" using in_arena_iff[OF nok] n(2) by auto
  have np: "na_pages n \<noteq> 0" using pn by (auto simp: arena_end_def)
  then have b: "4096 dvd unat (na_base n)" "length (na_map n) = unat (na_pages n)" using nok by (auto simp: arena_ok_def)
  have fit: "unat p + 4096 * unat k \<le> arena_end n"
  proof (rule ccontr)
    assume "\<not> unat p + 4096 * unat k \<le> arena_end n"
    then have "arena_end n \<in> page_bytes p k" using pn by (auto simp: page_bytes_def)
    then obtain y where y: "y \<in> set ns" "arena_end n \<in> arena_used y" using sub by (auto simp: novm_used_def)
    then have yr: "unat (na_base y) \<le> arena_end n" "arena_end n < arena_end y" using arena_used_subset[of y] by auto
    then have "y \<noteq> n" by auto
    then have "arenas_apart y n \<or> arenas_apart n y" using ok y(1) n(3)
      by (metis novm_ok_def in_set_conv_nth linorder_neqE_nat sorted_wrt_nth_less)
    then show False using yr pn np by (auto simp: arenas_apart_def arena_end_def)
  qed
  define i where "i = (unat p - unat (na_base n)) div 4096"
  have i: "unat (drop_bit 12 (p - na_base n)) = i"
    using pn(1) by (simp add: i_def drop_bit_eq_div unat_div_distrib unat32_sub)
  have "4096 dvd unat p - unat (na_base n)" using al b by (simp add: dvd_diff_nat)
  then have up: "unat p = unat (na_base n) + 4096 * i" using pn(1) by (simp add: i_def)
  have ik: "i + unat k \<le> length (na_map n)" using fit up b by (simp add: arena_end_def)
  define m where "m = n\<lparr>na_map := memcpy_at i (replicate (unat k) 0) (na_map n)\<rparr>"
  have R: "page_bytes p k = {unat (na_base n) + 4096 * i ..< unat (na_base n) + 4096 * (i + unat k)}"
    by (auto simp: page_bytes_def up)
  have "arena_used m = arena_used n - page_bytes p k"
    using arena_used_upd[OF ik nok, of 0] by (simp add: m_def R Let_def)
  moreover have "arena_ok m" using nok ik by (simp add: m_def arena_ok_def)
  moreover have "same_layout m n" by (simp add: same_layout_def m_def)
  moreover have "page_bytes p k \<subseteq> {unat (na_base n) ..< arena_end n}" using fit pn by (auto simp: page_bytes_def)
  ultimately have "novm_ok (ns[a := m]) \<and> novm_used (ns[a := m]) = novm_used ns - page_bytes p k"
    using novm_used_upd[OF ok n(1)] by (simp add: n_def)
  moreover have "novm_free_pages ns p k = Some (ns[a := m])"
    using ik by (simp add: novm_free_pages_def a n_def[symmetric] i store_at_def m_def)
  ultimately show ?thesis by blast
qed

interpretation novm: page_allocator novm_ok novm_used
  "\<lambda>n. page_alloc n NOVM_ARENA_ANY" page_free
proof
  fix s :: "novm_arena list" and n p s'
  assume ok: "novm_ok s" and r: "page_alloc n NOVM_ARENA_ANY s = (p, s')" and p: "p \<noteq> 0"
  note a = alloc_loop_ok[OF ok r[unfolded page_alloc_def novm_alloc_pages_def]]
  then obtain x where x: "x \<in> set s" "page_bytes p n \<subseteq> {unat (na_base x) ..< arena_end x}" using p by auto
  have "0 < unat n" using a p by (simp add: unat_gt_0)
  then have "unat p + 4096 * unat n - 1 \<in> page_bytes p n" by (auto simp: page_bytes_def)
  then have "unat p + 4096 * unat n - 1 < arena_end x" using x by auto
  moreover have "na_pages x \<noteq> 0" using \<open>unat p + 4096 * unat n - 1 \<in> page_bytes p n\<close> x(2) by (auto simp: arena_end_def)
  then have "arena_end x < 2 ^ 32" using ok x(1) by (auto simp: novm_ok_def list_all_iff arena_ok_def arena_end_def)
  ultimately have "unat p + 4096 * unat n < 2 ^ 32" by linarith
  then show "novm_ok s' \<and> n \<noteq> 0 \<and> 4096 dvd unat p \<and> unat p + 4096 * unat n < 2 ^ 32 \<and>
      novm_used s \<inter> page_bytes p n = {} \<and> novm_used s' = novm_used s \<union> page_bytes p n"
    using a p by auto
next
  fix s :: "novm_arena list" and n s'
  assume "novm_ok s" "page_alloc n NOVM_ARENA_ANY s = (0, s')"
  then show "s' = s" using alloc_loop_ok by (fastforce simp: page_alloc_def novm_alloc_pages_def)
next
  fix s :: "novm_arena list" and n p
  assume "novm_ok s" "n \<noteq> 0" "4096 dvd unat p" "page_bytes p n \<subseteq> novm_used s"
  then show "\<exists>s'. page_free p n s = Some s' \<and> novm_ok s' \<and> novm_used s' = novm_used s - page_bytes p n"
    using free_pages_ok by (simp add: page_free_def)
qed

section \<open>Rounding and the layout of an arena\<close>

lemma unat_ROUNDDOWN:
  assumes "unat b = 2 ^ k"
  shows "unat (ROUNDDOWN a b) = unat a div 2 ^ k * 2 ^ k"
proof -
  have "(2::nat) ^ k < 2 ^ 32" using assms unat32_lt[of b] by simp
  then have k: "k < 32" using power_less_imp_less_exp[of 2 k 32] by simp
  have b: "b = 2 ^ k" using of_nat_unat_id[of b] unfolding assms by (metis of_nat_numeral of_nat_power)
  have m: "b - 1 = mask k" unfolding b by (simp add: mask_eq_exp_minus_1)
  have "a AND NOT (mask k) = push_bit k (drop_bit k a)"
    by (rule bit_word_eqI) (auto simp: bit_simps)
  then have "unat (ROUNDDOWN a b) = unat (push_bit k (drop_bit k a))" by (simp add: ROUNDDOWN_def m)
  also have "... = take_bit 32 (push_bit k (unat (drop_bit k a)))" by (simp add: unsigned_push_bit_eq)
  also have "unat (drop_bit k a) = unat a div 2 ^ k" unfolding unat_drop_bit_eq by (simp add: drop_bit_eq_div)
  also have "push_bit k (unat a div 2 ^ k) = 2 ^ k * (unat a div 2 ^ k)" by (simp add: push_bit_eq_mult)
  also have "take_bit 32 (2 ^ k * (unat a div 2 ^ k)) = 2 ^ k * (unat a div 2 ^ k)"
  proof -
    have "2 ^ k * (unat a div 2 ^ k) \<le> unat a" by simp
    also have "... < 2 ^ 32" by (rule unat32_lt)
    finally show ?thesis by (rule take_bit_nat_eq_self)
  qed
  finally show ?thesis by (simp add: mult.commute)
qed

lemma ROUNDUP_ROUNDDOWN: "ROUNDUP a b = ROUNDDOWN (a + (b - 1)) b"
  by (simp add: ROUNDUP_def ROUNDDOWN_def)

lemma unat_ROUNDUP:
  assumes "unat b = 2 ^ k" "unat a + unat b \<le> 2 ^ 32"
  shows "unat (ROUNDUP a b) = (unat a + (2 ^ k - 1)) div 2 ^ k * 2 ^ k"
proof -
  have "b \<noteq> 0" using assms(1) by auto
  from unat_minus_1[OF this] have "unat (b - 1) = 2 ^ k - 1" using assms(1) by simp
  moreover have "unat a + (2 ^ k - 1) < 2 ^ 32" using assms by (simp add: less_le_trans[of _ "unat a + 2 ^ k"])
  ultimately have "unat (a + (b - 1)) = unat a + (2 ^ k - 1)" by (simp add: unat_plus_if')
  then show ?thesis unfolding ROUNDUP_ROUNDDOWN by (simp add: unat_ROUNDDOWN[OF assms(1)])
qed

lemma roundup_bounds:
  fixes a b :: nat
  assumes "0 < b"
  shows "a \<le> (a + (b - 1)) div b * b" "(a + (b - 1)) div b * b < a + b" "b dvd (a + (b - 1)) div b * b"
proof -
  have "(a + (b - 1)) div b * b + (a + (b - 1)) mod b = a + (b - 1)" by simp
  moreover have "(a + (b - 1)) mod b < b" using assms by simp
  ultimately show "a \<le> (a + (b - 1)) div b * b" "(a + (b - 1)) div b * b < a + b" using assms by linarith+
qed simp

text \<open>The loop that gives up pages for the map keeps the end of the arena and the size of the map
  in step, and ends with the map below the first page.\<close>

lemma novm_map_loop_spec:
  assumes "novm_map_loop s0 start sz ms = (start', sz', ms')"
    "unat s0 \<le> unat start" "unat start + 4096 * unat ms < 2 ^ 32" "unat sz = 4096 * unat ms" "4096 dvd unat start"
  shows "unat s0 + unat ms' \<le> unat start' \<and> unat start' + 4096 * unat ms' = unat start + 4096 * unat ms \<and>
    unat sz' = 4096 * unat ms' \<and> 4096 dvd unat start' \<and> unat start \<le> unat start'"
  using assms
proof (induction s0 start sz ms rule: novm_map_loop.induct)
  case (1 s0 start sz ms)
  have d: "unat (start - s0) = unat start - unat s0" using 1(3) by (simp add: unat32_sub)
  show ?case
  proof (cases "start - s0 < ms")
    case True
    then have ms: "ms \<noteq> 0" by auto
    note m1 = unat_minus_1[OF ms]
    have ms0: "0 < unat ms" using ms by (simp add: unat_gt_0)
    have st: "unat (start + 4096) = unat start + 4096" using 1(4) ms0 by (simp add: unat_plus_if')
    have sz: "unat (sz - 4096) = unat sz - 4096" using 1(5) ms0 by (simp add: unat32_sub)
    have rec: "novm_map_loop s0 (start + 4096) (sz - 4096) (ms - 1) = (start', sz', ms')"
      using 1(2) True by (subst (asm) novm_map_loop.simps) simp
    have "unat s0 + unat ms' \<le> unat start' \<and> unat start' + 4096 * unat ms' = unat (start + 4096) + 4096 * unat (ms - 1) \<and>
      unat sz' = 4096 * unat ms' \<and> 4096 dvd unat start' \<and> unat (start + 4096) \<le> unat start'"
      using 1(3-6) st sz m1 ms0 by (intro 1(1)[OF True rec]) (auto simp: dvd_add)
    then show ?thesis using st m1 ms0 by auto
  next
    case False
    then have "(start', sz', ms') = (start, sz, ms)" using 1(2) by (subst (asm) novm_map_loop.simps) simp
    then show ?thesis using False 1(3-6) d by (simp add: word_less_nat_alt)
  qed
qed

lemma novm_init_layout:
  fixes n :: novm_arena and nm :: string
  assumes nz: "s \<noteq> 0" and wrap: "unat s + unat z < 2 ^ 32"
    and pg: "(unat s + 4095) div 4096 * 4096 \<le> (unat s + unat z) div 4096 * 4096"
  defines "n' \<equiv> novm_init_helper n nm s z 0 0"
  shows "arena_ok n' \<and> na_map_addr n' = s \<and> unat s + unat (na_pages n') \<le> unat (na_base n') \<and>
    arena_end n' \<le> unat s + unat z \<and> set (na_map n') \<subseteq> {0}"
proof -
  define U E where "U = (unat s + 4095) div 4096 * 4096" and "E = (unat s + unat z) div 4096 * 4096"
  have U: "unat s \<le> U" "4096 dvd U" using roundup_bounds[of 4096 "unat s"] by (auto simp: U_def)
  have E: "E \<le> unat s + unat z" "4096 dvd E" "U \<le> E" using pg by (auto simp: U_def E_def)
  define start where "start = ROUNDUP s 4096"
  define sz where "sz = ROUNDDOWN (s + z) 4096 - start"
  define ms where "ms = drop_bit 12 sz"
  have "unat s + 4096 \<le> 2 ^ 32"
  proof (rule ccontr)
    assume "\<not> unat s + 4096 \<le> 2 ^ 32"
    then have "U \<ge> 2 ^ 32" using U by (auto simp: U_def)
    then show False using E wrap by simp
  qed
  then have st: "unat start = U" using unat_ROUNDUP[of 4096 12 s] by (simp add: start_def U_def)
  have "unat (s + z) = unat s + unat z" using wrap by (simp add: unat_plus_if')
  then have "unat (ROUNDDOWN (s + z) 4096) = E" using unat_ROUNDDOWN[of 4096 12 "s + z"] by (simp add: E_def)
  then have sz: "unat sz = E - U" using E st by (simp add: sz_def unat32_sub)
  have ms: "unat ms = (E - U) div 4096" by (simp add: ms_def drop_bit_eq_div unat_div_distrib sz)
  have ms4: "4096 * unat ms = E - U" using ms U E by (simp add: dvd_diff_nat)
  obtain start' sz' ms' where l: "novm_map_loop s start sz ms = (start', sz', ms')" by (metis prod_cases3)
  have "unat start + 4096 * unat ms < 2 ^ 32" using st ms4 E wrap by simp
  from novm_map_loop_spec[OF l _ this] have sp: "unat s + unat ms' \<le> unat start'" "unat start' + 4096 * unat ms' = E"
    "unat sz' = 4096 * unat ms'" "4096 dvd unat start'" "U \<le> unat start'"
    using U st sz ms4 E by auto
  have f: "na_pages n' = ms'" "na_base n' = start'" "na_size n' = sz'" "na_map n' = replicate (unat ms') 0" "na_map_addr n' = s"
    unfolding n'_def novm_init_helper_def Let_def start_def[symmetric] sz_def[symmetric] ms_def[symmetric] l
    by simp_all
  have "start' \<noteq> 0" using sp(5) U(1) nz by (metis le_zero_eq unat_0 unat_eq_0)
  then show ?thesis using sp E wrap by (auto simp: arena_ok_def arena_end_def f)
qed

text \<open>An arena without a whole page: the size wraps around to almost 4 GB.\<close>

lemma novm_init_tiny_arena:
  "unat (ROUNDDOWN (0x1001 + 0x10) 4096 - ROUNDUP 0x1001 4096) = 2 ^ 32 - 4096"
  by (simp add: ROUNDUP_def ROUNDDOWN_def)

text \<open>\<open>novm_alloc_specific_pages\<close> that fails half way leaves the pages before the conflict marked.\<close>

lemma alloc_specific_leaks:
  "mark_specific 2 0 [0, 1] = Some (ERR_NO_MEMORY, [1, 1])"
  by code_simp

end
