(* ===== verification/Miniheap.thy ===== *)
theory Miniheap
  imports Novm_Inv
begin

text \<open>
  The first-fit heap \<^verbatim>\<open>lib/heap/miniheap/miniheap.c\<close> on a 32-bit target. The free list is the
  list of its chunks (address and length) in list order; the headers \<open>alloc_struct_begin\<close> that live
  in front of the allocations are a map from their address to \<open>ptr\<close> and \<open>size\<close>, with no entry where
  the magic word is not intact. Every region between \<open>mutex_acquire\<close> and \<open>mutex_release\<close> is one
  step. \<open>DEBUG_HEAP\<close>, \<open>MINIHEAP_AUTOTRIM\<close> and \<open>MINIHEAP_RETRY_ALLOC_ONCE\<close> are 0, their default. The page
  allocator is an argument of the operations that call it; \<open>Miniheap_Inv\<close> states what they rely on.
\<close>

section \<open>State\<close>

type_synonym chunk = "u32 \<times> u32"

record heap =
  hp_base :: u32
  hp_len :: u32
  hp_remaining :: u32
  hp_low_watermark :: u32
  hp_free :: "chunk list"
  hp_as :: "u32 \<rightharpoonup> u32 \<times> u32"
  hp_fl_addr :: u32

text \<open>\<open>sizeof(struct free_heap_chunk)\<close> and \<open>sizeof(struct alloc_struct_begin)\<close>, with the magic word
  of debug builds. \<open>hp_fl_addr\<close> is the address of \<open>theheap.free_list\<close>.\<close>

abbreviation (input) SIZEOF_CHUNK :: u32 where "SIZEOF_CHUNK \<equiv> 12"
abbreviation (input) SIZEOF_AS :: u32 where "SIZEOF_AS \<equiv> 12"

section \<open>Free chunks\<close>

text \<open>Writing the chunk header at \<open>ptr\<close> destroys the allocation headers that it overlaps.\<close>

definition heap_create_free_chunk :: "u32 \<Rightarrow> u32 \<Rightarrow> heap \<Rightarrow> (chunk \<times> heap) option" where
  "heap_create_free_chunk ptr len h = do {
     DEBUG_ASSERT (len mod 4 = 0);
     Some ((ptr, len),
       h\<lparr>hp_as := (\<lambda>a. if a - ptr < SIZEOF_CHUNK \<or> ptr - a < SIZEOF_AS then None else hp_as h a)\<rparr>) }"

text \<open>The walk stops at the first chunk above the new one. Off the end of the list \<open>next_chunk\<close> is
  the list head, taken for a chunk; if the new chunk ends there, the code reads a length from it.\<close>

definition heap_insert_free_chunk :: "chunk \<Rightarrow> heap \<Rightarrow> (u32 \<times> heap) option" where
  "heap_insert_free_chunk chunk h =
    (let (c, len) = chunk;
         h = h\<lparr>hp_remaining := hp_remaining h + len\<rparr>;
         before = takeWhile (\<lambda>nx. \<not> c < fst nx) (hp_free h);
         after = dropWhile (\<lambda>nx. \<not> c < fst nx) (hp_free h);
         (before', c', len') =
           (if before \<noteq> [] \<and> fst (last before) + snd (last before) = c
            then (butlast before, fst (last before), snd (last before) + len)
            else (before, c, len))
     in case after of
          [] \<Rightarrow>
            if c' + len' = hp_fl_addr h then None
            else Some (c', h\<lparr>hp_free := before' @ [(c', len')]\<rparr>)
        | (n, nlen) # rest \<Rightarrow> do {
            DEBUG_ASSERT (c + len \<le> n);
            if c' + len' = n then Some (c', h\<lparr>hp_free := before' @ (c', len' + nlen) # rest\<rparr>)
            else Some (c', h\<lparr>hp_free := before' @ (c', len') # after\<rparr>) })"

definition miniheap_init :: "u32 \<Rightarrow> u32 \<Rightarrow> heap \<Rightarrow> heap option" where
  "miniheap_init ptr len h = do {
     let h = h\<lparr>hp_free := [], hp_base := ptr, hp_len := len, hp_remaining := 0, hp_low_watermark := 0\<rparr>;
     if len > 0 then do {
       (c, h) \<leftarrow> heap_create_free_chunk ptr len h;
       (_, h) \<leftarrow> heap_insert_free_chunk c h;
       Some h }
     else Some h }"

text \<open>\<open>heap_grow\<close> returns a \<open>ssize_t\<close>.\<close>

definition heap_grow :: "(u32 \<Rightarrow> 's \<Rightarrow> u32 \<times> 's) \<Rightarrow> u32 \<Rightarrow> heap \<Rightarrow> 's \<Rightarrow> (int \<times> heap \<times> 's) option" where
  "heap_grow palloc sz h s =
    (let sz = ROUNDUP sz PAGE_SIZE;
         (ptr, s) = palloc (sz div PAGE_SIZE) s
     in if ptr = 0 then Some (ERR_NO_MEMORY, h, s)
        else do {
          (c, h) \<leftarrow> heap_create_free_chunk ptr sz h;
          (_, h) \<leftarrow> heap_insert_free_chunk c h;
          let h = (if ptr < hp_base h \<or> hp_base h = 0 then h\<lparr>hp_base := ptr\<rparr> else h);
          let endptr = ptr + sz;
          let h = (if endptr > hp_base h + hp_len h then h\<lparr>hp_len := endptr - hp_base h\<rparr> else h);
          Some (sint sz, h, s) })"

section \<open>Allocation\<close>

text \<open>The walk over the free list: the chunks before the first that is big enough, that chunk and
  the rest. The outer \<open>None\<close> is a failed assertion.\<close>

fun heap_find :: "u32 \<Rightarrow> chunk list \<Rightarrow> (chunk list \<times> chunk \<times> chunk list) option option" where
  "heap_find sz [] = Some None"
| "heap_find sz (c # cs) = do {
     DEBUG_ASSERT (snd c mod 4 = 0);
     if snd c \<ge> sz then Some (Some ([], c, cs))
     else do {
       r \<leftarrow> heap_find sz cs;
       Some (map_option (\<lambda>(bs, x, as). (c # bs, x, as)) r) } }"

definition heap_take :: "u32 \<Rightarrow> u32 \<Rightarrow> heap \<Rightarrow> (u32 \<times> heap) option option" where
  "heap_take sz alignment h = do {
     r \<leftarrow> heap_find sz (hp_free h);
     case r of
       None \<Rightarrow> Some None
     | Some (before, (c, len), after) \<Rightarrow> do {
         (h, len) \<leftarrow>
           (if len > sz + SIZEOF_CHUNK then do {
              (new, h) \<leftarrow> heap_create_free_chunk (c + sz) (len - sz) h;
              Some (h\<lparr>hp_free := before @ new # after\<rparr>, len - (len - sz)) }
            else Some (h\<lparr>hp_free := before @ after\<rparr>, len));
         DEBUG_ASSERT (len \<ge> sz);
         let sz = len;
         let ptr = c + SIZEOF_AS;
         let ptr = (if alignment > 0 then ROUNDUP ptr alignment else ptr);
         let h = h\<lparr>hp_as := (hp_as h)(ptr - SIZEOF_AS \<mapsto> (c, sz)), hp_remaining := hp_remaining h - sz\<rparr>;
         let h = (if hp_remaining h < hp_low_watermark h then h\<lparr>hp_low_watermark := hp_remaining h\<rparr> else h);
         Some (Some (ptr, h)) } }"

text \<open>From the label \<open>retry\<close>.\<close>

partial_function (option) miniheap_retry ::
  "(u32 \<Rightarrow> 's \<Rightarrow> u32 \<times> 's) \<Rightarrow> u32 \<Rightarrow> u32 \<Rightarrow> heap \<Rightarrow> 's \<Rightarrow> (u32 \<times> heap \<times> 's) option" where
  "miniheap_retry palloc sz alignment h s =
    Option.bind (heap_take sz alignment h) (\<lambda>r.
      if r \<noteq> None then Some (fst (the r), snd (the r), s)
      else Option.bind (heap_grow palloc sz h s) (\<lambda>g.
        if fst g \<ge> 0 then miniheap_retry palloc sz alignment (fst (snd g)) (snd (snd g))
        else Some (0, fst (snd g), snd (snd g))))"

declare miniheap_retry.simps [code]

text \<open>The request with header and padding, as \<open>miniheap_alloc\<close> computes it.\<close>

definition request_size :: "u32 \<Rightarrow> u32 \<Rightarrow> u32 \<times> u32" where
  "request_size sz alignment =
    (let sz = sz + SIZEOF_AS;
         sz = (if sz < SIZEOF_CHUNK then SIZEOF_CHUNK else sz);
         sz = ROUNDUP sz 4
     in if alignment > 0 then
          let alignment = (if alignment < 16 then 16 else alignment) in (sz + alignment, alignment)
        else (sz, alignment))"

definition miniheap_alloc :: "(u32 \<Rightarrow> 's \<Rightarrow> u32 \<times> 's) \<Rightarrow> u32 \<Rightarrow> u32 \<Rightarrow> heap \<Rightarrow> 's \<Rightarrow> (u32 \<times> heap \<times> 's) option" where
  "miniheap_alloc palloc sz alignment h s =
    (if alignment AND (alignment - 1) \<noteq> 0 then Some (0, h, s)
     else let (sz, alignment) = request_size sz alignment in miniheap_retry palloc sz alignment h s)"

definition miniheap_free :: "u32 \<Rightarrow> heap \<Rightarrow> heap option" where
  "miniheap_free ptr h =
    (if ptr = 0 then Some h
     else do {
       (p, sz) \<leftarrow> hp_as h (ptr - SIZEOF_AS);
       (c, h) \<leftarrow> heap_create_free_chunk p sz h;
       (_, h) \<leftarrow> heap_insert_free_chunk c h;
       Some h })"

definition miniheap_realloc :: "(u32 \<Rightarrow> 's \<Rightarrow> u32 \<times> 's) \<Rightarrow> u32 \<Rightarrow> u32 \<Rightarrow> heap \<Rightarrow> 's \<Rightarrow> mem \<Rightarrow> (u32 \<times> heap \<times> 's \<times> mem) option" where
  "miniheap_realloc palloc ptr sz h s m =
    (if ptr = 0 then do { (p, h, s) \<leftarrow> miniheap_alloc palloc sz 0 h s; Some (p, h, s, m) }
     else if sz = 0 then do { h \<leftarrow> miniheap_free ptr h; Some (0, h, s, m) }
     else do {
       (p, h, s) \<leftarrow> miniheap_alloc palloc sz 0 h s;
       if p = 0 then Some (0, h, s, m)
       else do {
         (_, m) \<leftarrow> memcpy p ptr sz m;
         h \<leftarrow> miniheap_free ptr h;
         Some (p, h, s, m) } })"

section \<open>Trimming and statistics\<close>

text \<open>The page range that can be cut out of a free block, with the retries that leave room for a
  chunk header before and after it.\<close>

partial_function (option) trim_range :: "u32 \<Rightarrow> u32 \<Rightarrow> u32 \<Rightarrow> u32 \<Rightarrow> (u32 \<times> u32) option option" where
  "trim_range start fin start_page end_page =
    (if end_page > start_page then
       if start_page = start \<and> end_page = fin then Some (Some (start_page, end_page))
       else if start_page \<noteq> start \<and> start_page - start < SIZEOF_CHUNK
         then trim_range start fin (start_page + PAGE_SIZE) end_page
       else if end_page < fin \<and> fin - end_page < SIZEOF_CHUNK
         then trim_range start fin start_page (end_page - PAGE_SIZE)
       else Some (Some (start_page, end_page))
     else Some None)"

declare trim_range.simps [code]

text \<open>One iteration: the chunks that replace the block, and the heap and page allocator after
  \<open>page_free\<close> and the accounting.\<close>

definition trim_chunk :: "(u32 \<Rightarrow> u32 \<Rightarrow> 's \<Rightarrow> 's option) \<Rightarrow> chunk \<Rightarrow> heap \<Rightarrow> 's \<Rightarrow> (chunk list \<times> heap \<times> 's) option" where
  "trim_chunk pfree chunk h s = do {
     let (c, len) = chunk;
     let start = c;
     let fin = start + len;
     DEBUG_ASSERT (fin > start);
     let start_page = ROUNDUP start PAGE_SIZE;
     let end_page = ROUNDDOWN fin PAGE_SIZE;
     DEBUG_ASSERT (end_page \<le> fin);
     DEBUG_ASSERT (start_page \<ge> start);
     r \<leftarrow> trim_range start fin start_page end_page;
     case r of
       None \<Rightarrow> Some ([chunk], h, s)
     | Some (start_page, end_page) \<Rightarrow> do {
         (cs, h) \<leftarrow>
           (if start_page = start \<and> end_page = fin then Some ([], h)
            else do {
              (len, fin, new, h) \<leftarrow>
                (if end_page < fin then do {
                   let new_chunk_size = fin - end_page;
                   (new, h) \<leftarrow> heap_create_free_chunk end_page new_chunk_size h;
                   Some (len - new_chunk_size, end_page, [new], h) }
                 else Some (len, fin, [], h));
              if start_page = start \<and> end_page = fin then Some (new, h)
              else Some ((c, len - (end_page - start_page)) # new, h) });
         s \<leftarrow> pfree start_page ((end_page - start_page) div PAGE_SIZE) s;
         Some (cs, h\<lparr>hp_remaining := hp_remaining h - (end_page - start_page)\<rparr>, s) } }"

text \<open>The safe iteration does not visit the chunks that it adds.\<close>

fun trim_loop :: "(u32 \<Rightarrow> u32 \<Rightarrow> 's \<Rightarrow> 's option) \<Rightarrow> chunk list \<Rightarrow> heap \<Rightarrow> 's \<Rightarrow> (chunk list \<times> heap \<times> 's) option" where
  "trim_loop pfree [] h s = Some ([], h, s)"
| "trim_loop pfree (c # cs) h s = do {
     (xs, h, s) \<leftarrow> trim_chunk pfree c h s;
     (ys, h, s) \<leftarrow> trim_loop pfree cs h s;
     Some (xs @ ys, h, s) }"

definition miniheap_trim :: "(u32 \<Rightarrow> u32 \<Rightarrow> 's \<Rightarrow> 's option) \<Rightarrow> heap \<Rightarrow> 's \<Rightarrow> (heap \<times> 's) option" where
  "miniheap_trim pfree h s = do {
     (cs, h, s) \<leftarrow> trim_loop pfree (hp_free h) h s;
     Some (h\<lparr>hp_free := cs\<rparr>, s) }"

record miniheap_stats =
  heap_start :: u32
  heap_len :: u32
  heap_free :: u32
  heap_max_chunk :: u32
  heap_low_watermark :: u32

definition miniheap_get_stats :: "heap \<Rightarrow> miniheap_stats" where
  "miniheap_get_stats h =
    fold (\<lambda>chunk ptr.
        let ptr = ptr\<lparr>heap_free := heap_free ptr + snd chunk\<rparr>
        in if snd chunk > heap_max_chunk ptr then ptr\<lparr>heap_max_chunk := snd chunk\<rparr> else ptr)
      (hp_free h)
      \<lparr>heap_start = hp_base h, heap_len = hp_len h, heap_free = 0, heap_max_chunk = 0,
       heap_low_watermark = hp_low_watermark h\<rparr>"

end
