(* ===== verification/Miniheap_Inv.thy ===== *)
theory Miniheap_Inv
  imports Miniheap
begin

text \<open>
  The invariant of the heap and what its operations do to it. Bytes are natural numbers: a chunk
  stands for the bytes \<open>span\<close> from its address, none wraps around.
\<close>

section \<open>Invariant\<close>

definition span :: "chunk \<Rightarrow> nat set" where
  "span c = {unat (fst c) ..< unat (fst c) + unat (snd c)}"

definition cend :: "chunk \<Rightarrow> nat" where
  "cend c = unat (fst c) + unat (snd c)"

text \<open>A chunk has room for its header, an address and a length that are multiples of the word size, lies above
  \<open>lo\<close> (the static data of the heap) and does not wrap around.\<close>

definition chunk_ok :: "nat \<Rightarrow> chunk \<Rightarrow> bool" where
  "chunk_ok lo c \<longleftrightarrow> 12 \<le> unat (snd c) \<and> 4 dvd unat (fst c) \<and> 4 dvd unat (snd c) \<and> lo < unat (fst c) \<and> cend c < 2 ^ 32"

definition before :: "chunk \<Rightarrow> chunk \<Rightarrow> bool" where
  "before c d \<longleftrightarrow> cend c < unat (fst d)"

text \<open>The free list is sorted by address and no two of its chunks touch.\<close>

definition free_ok :: "nat \<Rightarrow> chunk list \<Rightarrow> bool" where
  "free_ok lo cs \<longleftrightarrow> list_all (chunk_ok lo) cs \<and> sorted_wrt before cs"

definition free_bytes :: "chunk list \<Rightarrow> nat set" where
  "free_bytes cs = (\<Union>c\<in>set cs. span c)"

definition free_total :: "chunk list \<Rightarrow> nat" where
  "free_total cs = sum_list (map (\<lambda>c. unat (snd c)) cs)"

lemma free_simps [simp]:
  "free_bytes [] = {}" "free_bytes (c # cs) = span c \<union> free_bytes cs" "free_bytes (cs @ ds) = free_bytes cs \<union> free_bytes ds"
  "free_total [] = 0" "free_total (c # cs) = unat (snd c) + free_total cs" "free_total (cs @ ds) = free_total cs + free_total ds"
  by (auto simp: free_bytes_def free_total_def)

lemma free_ok_simps:
  "free_ok lo []"
  "free_ok lo (c # cs) \<longleftrightarrow> chunk_ok lo c \<and> (\<forall>d\<in>set cs. before c d) \<and> free_ok lo cs"
  "free_ok lo (cs @ ds) \<longleftrightarrow> free_ok lo cs \<and> free_ok lo ds \<and> (\<forall>c\<in>set cs. \<forall>d\<in>set ds. before c d)"
  by (auto simp: free_ok_def sorted_wrt_append)

lemma span_cend: "span c = {unat (fst c) ..< cend c}"
  by (simp add: span_def cend_def)

lemma chunk_ok_nonempty: "chunk_ok lo c \<Longrightarrow> unat (fst c) \<in> span c \<and> unat (fst c) < cend c"
  by (auto simp: chunk_ok_def span_def cend_def)

text \<open>Disjoint chunks are ordered by their addresses.\<close>

lemma disjoint_order:
  assumes "chunk_ok lo c" "chunk_ok lo d" "span c \<inter> span d = {}"
  shows "\<not> fst d < fst c \<Longrightarrow> cend c \<le> unat (fst d)" "fst d < fst c \<Longrightarrow> cend d \<le> unat (fst c)"
proof -
  have "fst c \<noteq> fst d" using assms chunk_ok_nonempty[OF assms(1)] chunk_ok_nonempty[OF assms(2)] by auto
  moreover have "unat (fst d) \<notin> span c" "unat (fst c) \<notin> span d"
    using assms(3) chunk_ok_nonempty[OF assms(1)] chunk_ok_nonempty[OF assms(2)] by auto
  ultimately show "\<not> fst d < fst c \<Longrightarrow> cend c \<le> unat (fst d)" "fst d < fst c \<Longrightarrow> cend d \<le> unat (fst c)"
    by (auto simp: span_cend word_less_nat_alt)
qed

section \<open>Inserting a chunk\<close>

text \<open>Two adjacent chunks become one.\<close>

definition joined :: "chunk \<Rightarrow> chunk \<Rightarrow> chunk" where
  "joined c d = (fst c, snd c + snd d)"

lemma joined_ok:
  assumes "chunk_ok lo c" "chunk_ok lo d" "cend c = unat (fst d)"
  shows "chunk_ok lo (joined c d)" "cend (joined c d) = cend d" "span (joined c d) = span c \<union> span d"
    "unat (snd (joined c d)) = unat (snd c) + unat (snd d)" "fst (joined c d) = fst c"
proof -
  have "unat (snd c) + unat (snd d) < 2 ^ 32" using assms by (simp add: chunk_ok_def cend_def)
  then have l: "unat (snd c + snd d) = unat (snd c) + unat (snd d)" by (simp add: unat_plus_if')
  then show u: "unat (snd (joined c d)) = unat (snd c) + unat (snd d)" by (simp add: joined_def)
  then show e: "cend (joined c d) = cend d" using assms(3) by (simp add: cend_def joined_def)
  show "fst (joined c d) = fst c" by (simp add: joined_def)
  then show "chunk_ok lo (joined c d)" "span (joined c d) = span c \<union> span d"
    using assms u e by (auto simp: chunk_ok_def span_cend cend_def)
qed

lemma cend_word:
  "chunk_ok lo c \<Longrightarrow> fst c + snd c = w \<longleftrightarrow> cend c = unat w"
proof -
  assume "chunk_ok lo c"
  then have "unat (fst c + snd c) = cend c" by (simp add: chunk_ok_def cend_def unat_plus_if')
  then show ?thesis by (metis unsigned_word_eqI)
qed

lemma takeWhile_le_chunks:
  assumes "free_ok lo cs" "chunk_ok lo c" "span c \<inter> free_bytes cs = {}"
  defines "bs \<equiv> takeWhile (\<lambda>d. \<not> fst c < fst d) cs" and "as \<equiv> dropWhile (\<lambda>d. \<not> fst c < fst d) cs"
  shows "cs = bs @ as" "\<forall>d\<in>set bs. cend d \<le> unat (fst c)" "\<forall>d\<in>set as. cend c \<le> unat (fst d)"
proof -
  show cs: "cs = bs @ as" by (simp add: bs_def as_def)
  have ok: "chunk_ok lo d" "span c \<inter> span d = {}" if "d \<in> set cs" for d
    using that assms(1,3) by (auto simp: free_ok_def list_all_iff free_bytes_def)
  have "\<not> fst c < fst d" if "d \<in> set bs" for d using that by (auto simp: bs_def dest: set_takeWhileD)
  then show "\<forall>d\<in>set bs. cend d \<le> unat (fst c)"
    using disjoint_order(1)[OF ok(1) assms(2)] ok(2) cs by (auto simp: Int_commute)
  show "\<forall>d\<in>set as. cend c \<le> unat (fst d)"
  proof (cases as)
    case (Cons a as')
    then have "fst c < fst a" using hd_dropWhile[of "\<lambda>d. \<not> fst c < fst d" cs] by (auto simp: as_def)
    moreover have "a \<in> set cs" using cs Cons by simp
    ultimately have a: "cend c \<le> unat (fst a)" using disjoint_order(2)[OF ok(1)[of a] assms(2)] ok(2)[of a]
      by (simp add: Int_commute)
    have "before a d" if "d \<in> set as'" for d
      using that assms(1) unfolding cs Cons by (auto simp: free_ok_simps)
    then have "cend c \<le> unat (fst d)" if "d \<in> set as'" for d using that a by (fastforce simp: before_def cend_def)
    then show ?thesis using a Cons by auto
  qed simp
qed

text \<open>Merging with the chunk before, as the code does it after the walk.\<close>

definition merge_prev :: "chunk list \<Rightarrow> chunk \<Rightarrow> chunk list \<times> chunk" where
  "merge_prev bs c = (if bs \<noteq> [] \<and> fst (last bs) + snd (last bs) = fst c
     then (butlast bs, joined (last bs) c) else (bs, c))"

lemma merge_prev_ok:
  assumes "free_ok lo bs" "chunk_ok lo c" "\<forall>d\<in>set bs. cend d \<le> unat (fst c)" "merge_prev bs c = (bs', c')"
  shows "free_ok lo bs'" "chunk_ok lo c'" "\<forall>d\<in>set bs'. before d c'" "cend c' = cend c"
    "free_bytes bs' \<union> span c' = free_bytes bs \<union> span c" "free_total bs' + unat (snd c') = free_total bs + unat (snd c)"
    "set bs' \<subseteq> set bs"
proof -
  have "free_ok lo bs' \<and> chunk_ok lo c' \<and> (\<forall>d\<in>set bs'. before d c') \<and> cend c' = cend c \<and>
    free_bytes bs' \<union> span c' = free_bytes bs \<union> span c \<and> free_total bs' + unat (snd c') = free_total bs + unat (snd c) \<and> set bs' \<subseteq> set bs"
  proof (cases bs rule: rev_cases)
    case Nil
    then show ?thesis using assms by (auto simp: merge_prev_def free_ok_simps)
  next
    case (snoc xs l)
    have l: "chunk_ok lo l" "cend l \<le> unat (fst c)" using assms(1,3) snoc by (auto simp: free_ok_simps)
    have xs: "\<forall>d\<in>set xs. before d l" "free_ok lo xs" using assms(1) snoc by (auto simp: free_ok_simps)
    show ?thesis
    proof (cases "cend l = unat (fst c)")
      case True
      then have "bs' = xs" "c' = joined l c" using assms(4) snoc cend_word[OF l(1)] by (auto simp: merge_prev_def)
      then show ?thesis using joined_ok[OF l(1) assms(2) True] xs snoc by (auto simp: before_def)
    next
      case False
      then have "bs' = bs" "c' = c" using assms(4) snoc cend_word[OF l(1)] by (auto simp: merge_prev_def)
      moreover have "before l c" using False l(2) by (simp add: before_def)
      moreover have "before d c" if "d \<in> set xs" for d
        using xs(1) that l chunk_ok_nonempty[OF l(1)] by (fastforce simp: before_def)
      ultimately show ?thesis using assms(1,2) snoc by auto
    qed
  qed
  then show "free_ok lo bs'" "chunk_ok lo c'" "\<forall>d\<in>set bs'. before d c'" "cend c' = cend c"
    "free_bytes bs' \<union> span c' = free_bytes bs \<union> span c" "free_total bs' + unat (snd c') = free_total bs + unat (snd c)"
    "set bs' \<subseteq> set bs" by blast+
qed

lemma heap_insert_eq:
  "heap_insert_free_chunk c h =
    (let bs = takeWhile (\<lambda>d. \<not> fst c < fst d) (hp_free h); as = dropWhile (\<lambda>d. \<not> fst c < fst d) (hp_free h);
         (bs', c') = merge_prev bs c; h = h\<lparr>hp_remaining := hp_remaining h + snd c\<rparr>
     in case as of
          [] \<Rightarrow> if fst c' + snd c' = hp_fl_addr h then None else Some (fst c', h\<lparr>hp_free := bs' @ [c']\<rparr>)
        | n # rest \<Rightarrow> do {
            DEBUG_ASSERT (fst c + snd c \<le> fst n);
            if fst c' + snd c' = fst n then Some (fst c', h\<lparr>hp_free := bs' @ joined c' n # rest\<rparr>)
            else Some (fst c', h\<lparr>hp_free := bs' @ c' # as\<rparr>) })"
proof -
  obtain a l where c: "c = (a, l)" by (cases c)
  define B A where "B = takeWhile (\<lambda>d. \<not> a < fst d) (hp_free h)" and "A = dropWhile (\<lambda>d. \<not> a < fst d) (hp_free h)"
  have f: "hp_free (h\<lparr>hp_remaining := x\<rparr>) = hp_free h" for x by simp
  show ?thesis
    unfolding heap_insert_free_chunk_def merge_prev_def joined_def c Let_def prod.case fst_conv snd_conv f
      B_def[symmetric] A_def[symmetric]
    by (cases "B \<noteq> [] \<and> fst (last B) + snd (last B) = a"; cases A) auto
qed

lemma heap_insert_ok:
  assumes ok: "free_ok lo (hp_free h)" "chunk_ok lo c" "span c \<inter> free_bytes (hp_free h) = {}" "unat (hp_fl_addr h) \<le> lo"
  shows "\<exists>c' cs. heap_insert_free_chunk c h = Some (c', h\<lparr>hp_remaining := hp_remaining h + snd c, hp_free := cs\<rparr>) \<and>
    free_ok lo cs \<and> free_bytes cs = span c \<union> free_bytes (hp_free h) \<and> free_total cs = unat (snd c) + free_total (hp_free h)"
proof -
  define bs as where "bs = takeWhile (\<lambda>d. \<not> fst c < fst d) (hp_free h)" and "as = dropWhile (\<lambda>d. \<not> fst c < fst d) (hp_free h)"
  note tw = takeWhile_le_chunks[OF ok(1-3), folded bs_def as_def]
  obtain bs' c' where m: "merge_prev bs c = (bs', c')" using prod.exhaust by blast
  have okb: "free_ok lo bs" "free_ok lo as" "\<forall>b\<in>set bs. \<forall>a\<in>set as. before b a" using ok(1) tw(1) by (auto simp: free_ok_simps)
  note mp = merge_prev_ok[OF okb(1) ok(2) tw(2) m]
  show ?thesis
  proof (cases as)
    case Nil
    have "cend c' \<noteq> unat (hp_fl_addr h)" using mp(2) ok(4) chunk_ok_nonempty[OF mp(2)] by (auto simp: chunk_ok_def)
    then have "heap_insert_free_chunk c h = Some (fst c', h\<lparr>hp_remaining := hp_remaining h + snd c, hp_free := bs' @ [c']\<rparr>)"
      unfolding heap_insert_eq bs_def[symmetric] as_def[symmetric] Nil by (simp add: Let_def m cend_word[OF mp(2)])
    moreover have "free_ok lo (bs' @ [c'])" using mp by (auto simp: free_ok_simps)
    moreover have "free_bytes (bs' @ [c']) = span c \<union> free_bytes (hp_free h)"
      using mp(5) by (subst tw(1)) (auto simp: Nil)
    moreover have "free_total (bs' @ [c']) = unat (snd c) + free_total (hp_free h)" using mp(6) by (subst tw(1)) (simp add: Nil)
    ultimately show ?thesis by blast
  next
    case (Cons n rest)
    have n: "chunk_ok lo n" "\<forall>d\<in>set rest. before n d" "free_ok lo rest" using okb(2) Cons by (auto simp: free_ok_simps)
    have cn: "cend c \<le> unat (fst n)" using tw(3) Cons by simp
    then have as1: "fst c + snd c \<le> fst n" using ok(2) by (simp add: word_le_nat_alt chunk_ok_def cend_def unat_plus_if')
    have bn: "\<forall>d\<in>set bs'. before d n \<and> (\<forall>e\<in>set rest. before d e)" using okb(3) mp(7) Cons by auto
    show ?thesis
    proof (cases "cend c' = unat (fst n)")
      case True
      note j = joined_ok[OF mp(2) n(1) True]
      have "heap_insert_free_chunk c h = Some (fst c', h\<lparr>hp_remaining := hp_remaining h + snd c, hp_free := bs' @ joined c' n # rest\<rparr>)"
        unfolding heap_insert_eq bs_def[symmetric] as_def[symmetric] Cons by (simp add: Let_def m cend_word[OF mp(2)] True as1)
      moreover have "free_ok lo (bs' @ joined c' n # rest)" using mp j n bn by (auto simp: free_ok_simps before_def)
      moreover have "free_bytes (bs' @ joined c' n # rest) = span c \<union> free_bytes (hp_free h)"
        using mp(5) j(3) by (subst tw(1)) (auto simp: Cons)
      moreover have "free_total (bs' @ joined c' n # rest) = unat (snd c) + free_total (hp_free h)"
        using mp(6) j(4) by (subst tw(1)) (simp add: Cons)
      ultimately show ?thesis by blast
    next
      case False
      have "heap_insert_free_chunk c h = Some (fst c', h\<lparr>hp_remaining := hp_remaining h + snd c, hp_free := bs' @ c' # as\<rparr>)"
        unfolding heap_insert_eq bs_def[symmetric] as_def[symmetric] Cons by (simp add: Let_def m cend_word[OF mp(2)] False as1)
      moreover have "before c' n" using False cn mp(4) by (simp add: before_def)
      then have "\<forall>d\<in>set rest. before c' d" using n chunk_ok_nonempty[OF n(1)] by (fastforce simp: before_def)
      then have "free_ok lo (bs' @ c' # as)" using mp n bn \<open>before c' n\<close> Cons by (auto simp: free_ok_simps)
      moreover have "free_bytes (bs' @ c' # as) = span c \<union> free_bytes (hp_free h)"
        using mp(5) by (subst tw(1)) auto
      moreover have "free_total (bs' @ c' # as) = unat (snd c) + free_total (hp_free h)"
        using mp(6) by (subst tw(1)) simp
      ultimately show ?thesis by blast
    qed
  qed
qed

section \<open>Live allocations\<close>

text \<open>\<open>A\<close> is the set of pointers that have been handed out and not freed; \<open>blk h p\<close> is the chunk
  behind such a pointer.\<close>

definition blk :: "heap \<Rightarrow> u32 \<Rightarrow> chunk" where
  "blk h p = the (hp_as h (p - 12))"

definition block_ok :: "nat \<Rightarrow> u32 \<Rightarrow> chunk \<Rightarrow> bool" where
  "block_ok lo p c \<longleftrightarrow> chunk_ok lo c \<and> unat (fst c) + 12 \<le> unat p \<and> unat p \<le> cend c"

definition heap_ok :: "heap \<Rightarrow> u32 set \<Rightarrow> bool" where
  "heap_ok h A \<longleftrightarrow> 12 \<le> unat (hp_fl_addr h) \<and> free_ok (unat (hp_fl_addr h)) (hp_free h) \<and>
     hp_remaining h = of_nat (free_total (hp_free h)) \<and>
     (\<forall>p\<in>A. hp_as h (p - 12) \<noteq> None \<and> block_ok (unat (hp_fl_addr h)) p (blk h p) \<and>
        span (blk h p) \<inter> free_bytes (hp_free h) = {}) \<and>
     (\<forall>p\<in>A. \<forall>q\<in>A. p \<noteq> q \<longrightarrow> span (blk h p) \<inter> span (blk h q) = {})"

definition heap_bytes :: "heap \<Rightarrow> u32 set \<Rightarrow> nat set" where
  "heap_bytes h A = free_bytes (hp_free h) \<union> (\<Union>p\<in>A. span (blk h p))"

lemma heap_okD:
  assumes "heap_ok h A"
  shows "12 \<le> unat (hp_fl_addr h)" "free_ok (unat (hp_fl_addr h)) (hp_free h)"
    "hp_remaining h = of_nat (free_total (hp_free h))"
    "p \<in> A \<Longrightarrow> hp_as h (p - 12) = Some (blk h p)" "p \<in> A \<Longrightarrow> block_ok (unat (hp_fl_addr h)) p (blk h p)"
    "p \<in> A \<Longrightarrow> span (blk h p) \<inter> free_bytes (hp_free h) = {}"
    "p \<in> A \<Longrightarrow> q \<in> A \<Longrightarrow> p \<noteq> q \<Longrightarrow> span (blk h p) \<inter> span (blk h q) = {}"
  using assms unfolding heap_ok_def blk_def by auto

text \<open>Writing the header of a free chunk leaves the allocation headers outside it alone.\<close>

lemma header_kept:
  assumes "block_ok lo p c" "chunk_ok lo d" "span c \<inter> span d = {}"
  shows "\<not> (p - 12 - fst d < 12 \<or> fst d - (p - 12) < 12)"
proof -
  have p: "unat (fst c) + 12 \<le> unat p" "unat p \<le> cend c" "chunk_ok lo c" using assms(1) by (auto simp: block_ok_def)
  have u: "unat (p - 12) = unat p - 12" using p(1) by (simp add: unat32_sub)
  have o: "cend c \<le> unat (fst d) \<or> cend d \<le> unat (fst c)"
    using disjoint_order[OF p(3) assms(2,3)] by (cases "fst d < fst c") auto
  have d: "12 \<le> unat (snd d)" "cend d < 2 ^ 32" "12 \<le> unat (snd c)" using assms(2) p(3) by (auto simp: chunk_ok_def)
  have b: "unat (p - 12) < 2 ^ 32 - 12" "unat (fst d) < 2 ^ 32 - 12" using d p u unat32_lt[of p] by (auto simp: cend_def)
  have "12 \<le> unat (p - 12) - unat (fst d) \<or> 12 \<le> unat (fst d) - unat (p - 12)"
    using o p d u by (auto simp: cend_def)
  then show ?thesis using b
    by (auto simp: word_less_nat_alt unat32_sub[of "p - 12" "fst d"] unat32_sub[of "fst d" "p - 12"] split: if_splits)
qed

lemma create_keeps:
  assumes "block_ok lo p c" "chunk_ok lo d" "span c \<inter> span d = {}" "heap_create_free_chunk (fst d) l h = Some (x, h')"
  shows "hp_as h' (p - 12) = hp_as h (p - 12)"
  using header_kept[OF assms(1-3)] assms(4) by (auto simp: heap_create_free_chunk_def split: if_splits)

lemma create_ok:
  assumes "chunk_ok lo c"
  shows "heap_create_free_chunk (fst c) (snd c) h = Some (c,
    h\<lparr>hp_as := (\<lambda>a. if a - fst c < 12 \<or> fst c - a < 12 then None else hp_as h a)\<rparr>)"
proof -
  have "4 dvd unat (snd c)" using assms by (simp add: chunk_ok_def)
  moreover have "unat (snd c mod 4) = unat (snd c) mod 4" by (simp add: unat_mod_distrib)
  ultimately have "snd c mod 4 = 0" using unat_eq_0[of "snd c mod 4"] by simp
  then show ?thesis by (simp add: heap_create_free_chunk_def)
qed

section \<open>Giving bytes back\<close>

text \<open>A chunk that meets neither the free list nor a live block joins the free list.\<close>

lemma add_chunk_ok:
  assumes ok: "heap_ok h A" and c: "chunk_ok (unat (hp_fl_addr h)) c" "span c \<inter> heap_bytes h A = {}"
  shows "\<exists>h' h'' x. heap_create_free_chunk (fst c) (snd c) h = Some (c, h') \<and> heap_insert_free_chunk c h' = Some (x, h'') \<and>
    heap_ok h'' A \<and> free_bytes (hp_free h'') = span c \<union> free_bytes (hp_free h) \<and>
    (\<forall>p\<in>A. blk h'' p = blk h p) \<and> hp_fl_addr h'' = hp_fl_addr h \<and> hp_low_watermark h'' = hp_low_watermark h \<and>
    hp_base h'' = hp_base h \<and> hp_len h'' = hp_len h"
proof -
  define h' where "h' = h\<lparr>hp_as := (\<lambda>a. if a - fst c < 12 \<or> fst c - a < 12 then None else hp_as h a)\<rparr>"
  have cr: "heap_create_free_chunk (fst c) (snd c) h = Some (c, h')" using create_ok[OF c(1)] by (simp add: h'_def)
  note D = heap_okD[OF ok]
  have dj: "span c \<inter> free_bytes (hp_free h) = {}" "p \<in> A \<Longrightarrow> span (blk h p) \<inter> span c = {}" for p
    using c(2) by (auto simp: heap_bytes_def)
  have keep: "hp_as h' (p - 12) = hp_as h (p - 12)" if "p \<in> A" for p
    using create_keeps[OF D(5)[OF that] c(1) dj(2)[OF that] cr] .
  have hf: "hp_free h' = hp_free h" "hp_fl_addr h' = hp_fl_addr h" "hp_remaining h' = hp_remaining h" by (simp_all add: h'_def)
  obtain x cs where ins: "heap_insert_free_chunk c h' = Some (x, h'\<lparr>hp_remaining := hp_remaining h' + snd c, hp_free := cs\<rparr>)"
    "free_ok (unat (hp_fl_addr h)) cs" "free_bytes cs = span c \<union> free_bytes (hp_free h)"
    "free_total cs = unat (snd c) + free_total (hp_free h)"
    using heap_insert_ok[of "unat (hp_fl_addr h)" h' c] D(2) c(1) dj(1) hf by auto
  define h'' where "h'' = h'\<lparr>hp_remaining := hp_remaining h' + snd c, hp_free := cs\<rparr>"
  have f: "hp_as h'' = hp_as h'" "hp_free h'' = cs" "hp_fl_addr h'' = hp_fl_addr h" "hp_remaining h'' = hp_remaining h + snd c"
    "hp_low_watermark h'' = hp_low_watermark h" "hp_base h'' = hp_base h" "hp_len h'' = hp_len h"
    by (simp_all add: h''_def h'_def)
  have blk: "blk h'' p = blk h p" if "p \<in> A" for p using keep[OF that] by (simp add: blk_def f)
  have "heap_ok h'' A"
    unfolding heap_ok_def f
    using D ins keep blk dj(2) by (auto simp: ins(4) D(3) Int_Un_distrib)
  then show ?thesis using cr ins(1,3) blk f unfolding h''_def[symmetric] by blast
qed

lemma miniheap_free_ok:
  assumes ok: "heap_ok h A" and p: "p \<in> A"
  shows "\<exists>h'. miniheap_free p h = Some h' \<and> heap_ok h' (A - {p}) \<and>
    free_bytes (hp_free h') = span (blk h p) \<union> free_bytes (hp_free h) \<and> (\<forall>q\<in>A - {p}. blk h' q = blk h q) \<and>
    hp_fl_addr h' = hp_fl_addr h \<and> hp_low_watermark h' = hp_low_watermark h"
proof -
  note D = heap_okD[OF ok]
  have ok': "heap_ok h (A - {p})" using ok by (auto simp: heap_ok_def)
  have c: "chunk_ok (unat (hp_fl_addr h)) (blk h p)" using D(5)[OF p] by (simp add: block_ok_def)
  have "span (blk h p) \<inter> heap_bytes h (A - {p}) = {}"
    using D(6)[OF p] D(7)[OF p] by (fastforce simp: heap_bytes_def)
  from add_chunk_ok[OF ok' c this] obtain h1 h' x where r: "heap_create_free_chunk (fst (blk h p)) (snd (blk h p)) h = Some (blk h p, h1)"
    "heap_insert_free_chunk (blk h p) h1 = Some (x, h')" "heap_ok h' (A - {p})"
    "free_bytes (hp_free h') = span (blk h p) \<union> free_bytes (hp_free h)" "\<forall>q\<in>A - {p}. blk h' q = blk h q"
    "hp_fl_addr h' = hp_fl_addr h" "hp_low_watermark h' = hp_low_watermark h" by blast
  have "p \<noteq> 0" using D(5)[OF p] by (auto simp: block_ok_def)
  then have "miniheap_free p h = Some h'" using D(4)[OF p] r(1,2)
    by (cases "blk h p") (simp add: miniheap_free_def)
  then show ?thesis using r by blast
qed

section \<open>Taking a block\<close>

lemma heap_find_spec:
  assumes "list_all (chunk_ok lo) cs"
  shows "\<exists>r. heap_find sz cs = Some r \<and> (case r of
      None \<Rightarrow> \<forall>c\<in>set cs. snd c < sz
    | Some (bs, c, as) \<Rightarrow> cs = bs @ c # as \<and> snd c \<ge> sz \<and> (\<forall>b\<in>set bs. snd b < sz))"
  using assms
proof (induction cs)
  case (Cons c cs)
  have m: "snd c mod 4 = 0" using create_ok[of lo c undefined] Cons.prems
    by (simp add: heap_create_free_chunk_def split: if_splits)
  obtain r where r: "heap_find sz cs = Some r" "case r of None \<Rightarrow> \<forall>c\<in>set cs. snd c < sz
    | Some (bs, c, as) \<Rightarrow> cs = bs @ c # as \<and> snd c \<ge> sz \<and> (\<forall>b\<in>set bs. snd b < sz)" using Cons by auto
  show ?case
  proof (cases "snd c \<ge> sz")
    case True
    then show ?thesis using m by simp
  next
    case False
    then show ?thesis using m r by (cases r) (auto simp: not_le)
  qed
qed simp

lemma split_chunk:
  assumes "chunk_ok lo c" "4 dvd unat sz" "12 \<le> unat sz" "unat sz + 12 < unat (snd c)"
  shows "chunk_ok lo (fst c, sz)" "chunk_ok lo (fst c + sz, snd c - sz)" "cend (fst c + sz, snd c - sz) = cend c"
    "span c = span (fst c, sz) \<union> span (fst c + sz, snd c - sz)" "span (fst c, sz) \<inter> span (fst c + sz, snd c - sz) = {}"
    "unat (snd c - sz) + unat sz = unat (snd c)" "unat (fst c + sz) = unat (fst c) + unat sz"
proof -
  have l: "unat (snd c - sz) = unat (snd c) - unat sz" using assms(4) by (simp add: unat32_sub)
  have a: "unat (fst c + sz) = unat (fst c) + unat sz" using assms(1,4) by (simp add: unat_plus_if' chunk_ok_def cend_def)
  show "cend (fst c + sz, snd c - sz) = cend c" using l a assms(4) by (simp add: cend_def)
  show "unat (snd c - sz) + unat sz = unat (snd c)" "unat (fst c + sz) = unat (fst c) + unat sz" using l a assms(4) by simp_all
  show "chunk_ok lo (fst c, sz)" "chunk_ok lo (fst c + sz, snd c - sz)"
    using assms l a by (auto simp: chunk_ok_def cend_def dvd_diff_nat)
  show "span c = span (fst c, sz) \<union> span (fst c + sz, snd c - sz)" "span (fst c, sz) \<inter> span (fst c + sz, snd c - sz) = {}"
    using assms l a by (auto simp: span_def)
qed

text \<open>What the free list is after a block \<open>b\<close> has been cut off the front of the chunk \<open>c\<close>.\<close>

lemma free_without:
  assumes "free_ok lo (bs @ c # as)"
  shows "free_ok lo (bs @ as)" "free_bytes (bs @ as) = free_bytes (bs @ c # as) - span c"
    "free_total (bs @ c # as) = unat (snd c) + free_total (bs @ as)"
proof -
  show "free_ok lo (bs @ as)" using assms by (auto simp: free_ok_simps)
  have "span d \<inter> span c = {}" if "d \<in> set bs \<union> set as" for d
    using assms that by (auto simp: free_ok_simps before_def span_cend)
  then show "free_bytes (bs @ as) = free_bytes (bs @ c # as) - span c" by (auto simp: free_bytes_def)
  show "free_total (bs @ c # as) = unat (snd c) + free_total (bs @ as)" by simp
qed

lemma free_split:
  assumes ok: "free_ok lo (bs @ c # as)" and sp: "4 dvd unat sz" "12 \<le> unat sz" "unat sz + 12 < unat (snd c)"
  defines "n \<equiv> (fst c + sz, snd c - sz)"
  shows "free_ok lo (bs @ n # as)" "free_bytes (bs @ n # as) = free_bytes (bs @ c # as) - span (fst c, sz)"
    "free_total (bs @ c # as) = unat sz + free_total (bs @ n # as)"
proof -
  have c: "chunk_ok lo c" using ok by (simp add: free_ok_simps)
  note s = split_chunk[OF c sp, folded n_def]
  have st: "unat (fst c) \<le> unat (fst n)" using s(7) by (simp add: n_def)
  show "free_ok lo (bs @ n # as)" using ok s(2,3) st by (fastforce simp: free_ok_simps before_def)
  have "span d \<inter> span c = {}" if "d \<in> set bs \<union> set as" for d
    using ok that by (auto simp: free_ok_simps before_def span_cend)
  then show "free_bytes (bs @ n # as) = free_bytes (bs @ c # as) - span (fst c, sz)"
    using s(4,5) by (auto simp: free_bytes_def)
  show "free_total (bs @ c # as) = unat sz + free_total (bs @ n # as)" using s(6) by (simp add: n_def)
qed

text \<open>The pointer that is returned: behind the header, aligned, with room for the request.\<close>

lemma user_pointer:
  assumes "chunk_ok lo b" "12 + unat al \<le> unat (snd b)" "al = 0 \<or> unat al = 2 ^ k"
  defines "p \<equiv> (if al > 0 then ROUNDUP (fst b + 12) al else fst b + 12)"
  shows "block_ok lo p b" "unat p + (unat (snd b) - 12 - unat al) \<le> cend b" "al \<noteq> 0 \<Longrightarrow> unat al dvd unat p"
proof -
  have c: "unat (fst b + 12) = unat (fst b) + 12" using assms(1,2) by (simp add: unat_plus_if' chunk_ok_def cend_def)
  have "unat (fst b) + 12 \<le> unat p \<and> unat p \<le> unat (fst b) + 12 + unat al \<and> (al \<noteq> 0 \<longrightarrow> unat al dvd unat p)"
  proof (cases "al = 0")
    case True
    then show ?thesis using c by (simp add: p_def)
  next
    case False
    then have k: "unat al = 2 ^ k" "0 < unat al" using assms(3) by (auto simp: unat_gt_0)
    have "unat (fst b + 12) + unat al \<le> 2 ^ 32" using c assms(1,2) by (simp add: chunk_ok_def cend_def)
    from unat_ROUNDUP[OF k(1) this] have e: "unat p = (unat (fst b) + 12 + (unat al - 1)) div unat al * unat al"
      using False c k(1) by (simp add: p_def word_neq_0_conv)
    note rb = roundup_bounds[OF k(2), of "unat (fst b) + 12"]
    show ?thesis unfolding e using rb(1) less_imp_le[OF rb(2)] rb(3) by blast
  qed
  then show "block_ok lo p b" "unat p + (unat (snd b) - 12 - unat al) \<le> cend b" "al \<noteq> 0 \<Longrightarrow> unat al dvd unat p"
    using assms(1,2) by (auto simp: block_ok_def cend_def)
qed

text \<open>The block that \<open>heap_take\<close> cuts off a chunk, and what it leaves on the free list.\<close>

definition cut_block :: "u32 \<Rightarrow> chunk \<Rightarrow> chunk" where
  "cut_block sz c = (if snd c > sz + 12 then (fst c, sz) else c)"

definition cut_free :: "u32 \<Rightarrow> chunk list \<Rightarrow> chunk \<Rightarrow> chunk list \<Rightarrow> chunk list" where
  "cut_free sz bs c as = (if snd c > sz + 12 then bs @ (fst c + sz, snd c - sz) # as else bs @ as)"

lemma cut_ok:
  assumes "free_ok lo (bs @ c # as)" "4 dvd unat sz" "12 \<le> unat sz" "unat sz \<le> unat (snd c)" "12 \<le> lo"
  defines "b \<equiv> cut_block sz c" and "fl \<equiv> cut_free sz bs c as"
  shows "chunk_ok lo b" "unat sz \<le> unat (snd b)" "fst b = fst c" "span b \<subseteq> span c" "free_ok lo fl"
    "free_bytes fl = free_bytes (bs @ c # as) - span b" "free_total (bs @ c # as) = unat (snd b) + free_total fl"
proof -
  have c: "chunk_ok lo c" using assms(1) by (simp add: free_ok_simps)
  have nw: "unat (sz + 12) = unat sz + 12" using c assms(4,5) by (simp add: unat_plus_if' chunk_ok_def cend_def)
  have "chunk_ok lo b \<and> unat sz \<le> unat (snd b) \<and> fst b = fst c \<and> span b \<subseteq> span c \<and> free_ok lo fl \<and>
    free_bytes fl = free_bytes (bs @ c # as) - span b \<and> free_total (bs @ c # as) = unat (snd b) + free_total fl"
  proof (cases "snd c > sz + 12")
    case True
    then have "unat sz + 12 < unat (snd c)" using nw by (simp add: word_less_nat_alt)
    note s = split_chunk[OF c assms(2,3) this] and f = free_split[OF assms(1-3) this]
    show ?thesis using True s f by (simp add: b_def fl_def cut_block_def cut_free_def) 
  next
    case False
    then show ?thesis using c assms(4) free_without[OF assms(1)] by (simp add: b_def fl_def cut_block_def cut_free_def)
  qed
  then show "chunk_ok lo b" "unat sz \<le> unat (snd b)" "fst b = fst c" "span b \<subseteq> span c" "free_ok lo fl"
    "free_bytes fl = free_bytes (bs @ c # as) - span b" "free_total (bs @ c # as) = unat (snd b) + free_total fl" by blast+
qed

lemma header_in_span: "block_ok lo p c \<Longrightarrow> unat p - 12 \<in> span c"
  by (auto simp: block_ok_def span_cend chunk_ok_def cend_def)

text \<open>A block taken from the free list becomes live.\<close>

lemma add_live:
  assumes ok: "heap_ok h A" and b: "block_ok (unat (hp_fl_addr h)) p b" "span b \<subseteq> free_bytes (hp_free h)"
    and fl: "free_ok (unat (hp_fl_addr h)) fl" "free_bytes fl = free_bytes (hp_free h) - span b"
      "free_total (hp_free h) = unat (snd b) + free_total fl"
    and keep: "\<And>q. q \<in> A \<Longrightarrow> hs (q - 12) = hp_as h (q - 12)"
    and h': "hp_free h' = fl" "hp_as h' = hs(p - 12 \<mapsto> b)" "hp_remaining h' = hp_remaining h - snd b" "hp_fl_addr h' = hp_fl_addr h"
  shows "p \<notin> A" "heap_ok h' (insert p A)" "blk h' p = b" "\<And>q. q \<in> A \<Longrightarrow> blk h' q = blk h q"
proof -
  note D = heap_okD[OF ok]
  have disj: "span (blk h q) \<inter> span b = {}" if "q \<in> A" for q using D(6)[OF that] b(2) by blast
  show pA: "p \<notin> A"
  proof
    assume "p \<in> A"
    then show False using disj header_in_span[OF b(1)] header_in_span[OF D(5)] by blast
  qed
  show bp: "blk h' p = b" by (simp add: blk_def h')
  have as: "hp_as h' (q - 12) = hp_as h (q - 12)" if "q \<in> A" for q using keep[OF that] pA that by (auto simp: h')
  then show bq: "blk h' q = blk h q" if "q \<in> A" for q using that by (simp add: blk_def)
  have "hp_remaining h' = of_nat (free_total fl)" using D(3) fl(3) by (simp add: h' of_nat_add)
  moreover have "hp_as h' (p - 12) \<noteq> None" by (simp add: h')
  moreover have "span (blk h q) \<inter> (free_bytes (hp_free h) - span b) = {}" if "q \<in> A" for q using D(6)[OF that] by blast
  ultimately show "heap_ok h' (insert p A)"
    using D(1,2,4,5,7) fl(1) b(1) bp bq as disj unfolding heap_ok_def h' fl(2)
    by (auto simp: Int_commute)
qed

lemma heap_take_eq:
  assumes "heap_find sz (hp_free h) = Some (Some (bs, c, as))" "chunk_ok lo c" "4 dvd unat sz" "12 \<le> unat sz"
    "unat sz \<le> unat (snd c)" "unat (sz + 12) = unat sz + 12"
  shows "heap_take sz al h = (let b = cut_block sz c; p = (if al > 0 then ROUNDUP (fst b + 12) al else fst b + 12)
    in Some (Some (p, h\<lparr>hp_free := cut_free sz bs c as, hp_as := (if snd c > sz + 12
      then (\<lambda>a. if a - (fst c + sz) < 12 \<or> (fst c + sz) - a < 12 then None else hp_as h a) else hp_as h)(p - 12 \<mapsto> b),
      hp_remaining := hp_remaining h - snd b, hp_low_watermark := min (hp_low_watermark h) (hp_remaining h - snd b)\<rparr>)))"
proof (cases "snd c > sz + 12")
  case True
  then have g: "unat sz + 12 < unat (snd c)" using assms(6) by (simp add: word_less_nat_alt)
  note cr = create_ok[OF split_chunk(2)[OF assms(2-4) g], of h]
  show ?thesis using True cr
    by (cases c) (simp add: heap_take_def assms(1) cut_block_def cut_free_def Let_def min_def not_le)
next
  case False
  have "sz \<le> snd c" using assms(5) by (simp add: word_le_nat_alt)
  then show ?thesis using False
    by (cases c) (simp add: heap_take_def assms(1) cut_block_def cut_free_def Let_def min_def not_le)
qed

lemma heap_take_ok:
  assumes ok: "heap_ok h A" and sz: "4 dvd unat sz" "12 + unat al \<le> unat sz" and al: "al = 0 \<or> unat al = 2 ^ k"
  shows "\<exists>r. heap_take sz al h = Some r \<and> (case r of
      None \<Rightarrow> \<forall>c\<in>set (hp_free h). snd c < sz
    | Some (p, h') \<Rightarrow> p \<notin> A \<and> heap_ok h' (insert p A) \<and> span (blk h' p) \<subseteq> free_bytes (hp_free h) \<and>
        free_bytes (hp_free h') = free_bytes (hp_free h) - span (blk h' p) \<and> (\<forall>q\<in>A. blk h' q = blk h q) \<and>
        unat p + (unat sz - 12 - unat al) \<le> cend (blk h' p) \<and> (al \<noteq> 0 \<longrightarrow> unat al dvd unat p) \<and>
        hp_fl_addr h' = hp_fl_addr h \<and> hp_low_watermark h' = min (hp_low_watermark h) (hp_remaining h'))"
proof -
  let ?lo = "unat (hp_fl_addr h)"
  note D = heap_okD[OF ok]
  have la: "list_all (chunk_ok ?lo) (hp_free h)" using D(2) by (simp add: free_ok_def)
  obtain r where r: "heap_find sz (hp_free h) = Some r" "case r of
      None \<Rightarrow> \<forall>c\<in>set (hp_free h). snd c < sz
    | Some (bs, c, as) \<Rightarrow> hp_free h = bs @ c # as \<and> snd c \<ge> sz \<and> (\<forall>b\<in>set bs. snd b < sz)"
    using heap_find_spec[OF la] by blast
  show ?thesis
  proof (cases r)
    case None
    then show ?thesis using r by (simp add: heap_take_def)
  next
    case (Some t)
    obtain bs c as where t: "t = (bs, c, as)" by (cases t)
    have cs: "hp_free h = bs @ c # as" "unat sz \<le> unat (snd c)" using r Some t by (auto simp: word_le_nat_alt)
    have fo: "free_ok ?lo (bs @ c # as)" using D(2) cs(1) by simp
    have c: "chunk_ok ?lo c" using fo by (simp add: free_ok_simps)
    have nw: "unat (sz + 12) = unat sz + 12"
      using c D(1) cs(2) by (simp add: unat_plus_if' chunk_ok_def cend_def)
    define b fl where "b = cut_block sz c" and "fl = cut_free sz bs c as"
    define hs where "hs = (if snd c > sz + 12
      then (\<lambda>a. if a - (fst c + sz) < 12 \<or> (fst c + sz) - a < 12 then None else hp_as h a) else hp_as h)"
    define p where "p = (if al > 0 then ROUNDUP (fst b + 12) al else fst b + 12)"
    define h' where "h' = h\<lparr>hp_free := fl, hp_as := hs(p - 12 \<mapsto> b), hp_remaining := hp_remaining h - snd b,
      hp_low_watermark := min (hp_low_watermark h) (hp_remaining h - snd b)\<rparr>"
    have z12: "12 \<le> unat sz" using sz(2) by simp
    note B = cut_ok[OF fo sz(1) z12 cs(2) D(1), folded b_def fl_def cs(1)]
    have alb: "12 + unat al \<le> unat (snd b)" using B(2) sz(2) by simp
    note up = user_pointer[OF B(1) alb al, folded p_def]
    have sb: "span b \<subseteq> free_bytes (hp_free h)" using B(4) cs(1) by auto
    have keep: "hs (q - 12) = hp_as h (q - 12)" if "q \<in> A" for q
    proof (cases "snd c > sz + 12")
      case True
      then have g: "unat sz + 12 < unat (snd c)" using nw by (simp add: word_less_nat_alt)
      note s = split_chunk[OF c sz(1) z12 g]
      have "span (blk h q) \<inter> span (fst c + sz, snd c - sz) = {}" using D(6)[OF that] s(4) cs(1) by auto
      from header_kept[OF D(5)[OF that] s(2) this] show ?thesis by (simp add: hs_def True)
    qed (simp add: hs_def)
    have f: "hp_free h' = fl" "hp_as h' = hs(p - 12 \<mapsto> b)" "hp_remaining h' = hp_remaining h - snd b" "hp_fl_addr h' = hp_fl_addr h"
      "hp_low_watermark h' = min (hp_low_watermark h) (hp_remaining h')" by (simp_all add: h'_def)
    note live = add_live[OF ok up(1) sb B(5-7) keep f(1-4)]
    have "heap_take sz al h = Some (Some (p, h'))"
      unfolding h'_def p_def hs_def b_def fl_def
      using heap_take_eq[OF _ c sz(1) z12 cs(2) nw, of h bs as al] by (simp add: r(1) Some t Let_def)
    moreover have "unat p + (unat sz - 12 - unat al) \<le> cend b" using up(2) B(2) by linarith
    ultimately show ?thesis using live sb B(6) f(1,4,5) up(3) by simp
  qed
qed

end
