(* ===== verification/Miniheap_Pages.thy ===== *)
theory Miniheap_Pages
  imports Miniheap_Inv
begin

text \<open>
  The heap on top of a page allocator: growing, the retry loop of \<open>miniheap_alloc\<close> and \<open>miniheap_trim\<close>,
  in the locale \<open>heap_pages\<close>; the free list as a function of its bytes; and the interpretation of the
  locale on the page arenas of \<open>Novm\<close>.
\<close>

section \<open>Growing the heap\<close>

text \<open>Chunks of a coalesced list cover a contiguous range only if one of them does.\<close>

lemma span_in_one:
  assumes "free_ok lo cs" "chunk_ok lo d" "span d \<subseteq> free_bytes cs"
  shows "\<exists>c\<in>set cs. span d \<subseteq> span c"
proof -
  have "unat (fst d) \<in> free_bytes cs" using assms(3) chunk_ok_nonempty[OF assms(2)] by blast
  then obtain c where c: "c \<in> set cs" "unat (fst d) \<in> span c" by (auto simp: free_bytes_def)
  have "cend d \<le> cend c"
  proof (rule ccontr)
    assume "\<not> cend d \<le> cend c"
    then have "cend c \<in> span d" using c(2) by (auto simp: span_cend)
    then obtain e where e: "e \<in> set cs" "cend c \<in> span e" using assms(3) by (auto simp: free_bytes_def)
    then have "e \<noteq> c" by (auto simp: span_cend)
    then have "before c e \<or> before e c" using assms(1) c(1) e(1)
      by (metis free_ok_def in_set_conv_nth linorder_neqE_nat sorted_wrt_nth_less)
    then show False using e(2) c(2) by (auto simp: before_def span_cend)
  qed
  then show ?thesis using c by (intro bexI[of _ c]) (auto simp: span_cend)
qed

lemma span_len: "span d \<subseteq> span c \<Longrightarrow> chunk_ok lo d \<Longrightarrow> snd d \<le> snd c"
  using chunk_ok_nonempty[of lo d] by (auto simp: span_cend cend_def word_le_nat_alt)

text \<open>Rounding a request up to pages: the size is a whole number of pages, and covers the request
  unless it wraps around to nothing.\<close>

lemma page_round:
  defines "R \<equiv> (\<lambda>sz. ROUNDUP sz PAGE_SIZE)"
  shows "unat (R sz) = 4096 * unat (R sz div 4096)" "R sz div 4096 \<noteq> 0 \<Longrightarrow> unat sz \<le> unat (R sz)"
proof -
  have r: "unat (R sz) = unat (sz + 4095) div 4096 * 4096"
    using unat_ROUNDDOWN[of 4096 12 "sz + 4095"] by (simp add: R_def ROUNDUP_ROUNDDOWN)
  then have q: "unat (R sz div 4096) = unat (sz + 4095) div 4096" by (simp add: unat_div_distrib)
  then show "unat (R sz) = 4096 * unat (R sz div 4096)" using r by simp
  assume "R sz div 4096 \<noteq> 0"
  then have "unat (sz + 4095) div 4096 \<noteq> 0" using q by (metis unat_eq_0)
  then have "4096 \<le> unat (sz + 4095)" by (simp add: div_eq_0_iff)
  then have "unat (sz + 4095) = unat sz + 4095" using unat32_lt[of sz] by (simp add: unat_plus_if' split: if_splits)
  then show "unat sz \<le> unat (R sz)" using r by simp
qed

text \<open>The request with its header, rounding and alignment, when nothing overflows.\<close>

lemma request_size_ok:
  assumes al: "al = 0 \<or> unat al = 2 ^ k" and n: "unat n + unat al + 32 < 2 ^ 32" and r: "request_size n al = (sz, al')"
  shows "4 dvd unat sz" "12 + unat n + unat al' \<le> unat sz" "al' = 0 \<longleftrightarrow> al = 0" "al' = 0 \<or> unat al' = 2 ^ max 4 k"
    "unat al dvd unat al'"
proof -
  define z where "z = ROUNDUP (n + 12) 4"
  have n12: "unat (n + 12) = unat n + 12" using n by (simp add: unat_plus_if')
  then have nl: "\<not> n + 12 < 12" by (simp add: word_less_nat_alt)
  have uz: "unat z = (unat n + 12 + (4 - 1)) div 4 * 4"
    using unat_ROUNDUP[of 4 2 "n + 12"] n12 n by (simp add: z_def)
  note rb = roundup_bounds[of 4 "unat n + 12", folded uz, simplified]
  have "4 dvd unat sz \<and> 12 + unat n + unat al' \<le> unat sz \<and> (al' = 0 \<longleftrightarrow> al = 0) \<and> (al' = 0 \<or> unat al' = 2 ^ max 4 k) \<and> unat al dvd unat al'"
  proof (cases "al = 0")
    case True
    then have "sz = z" "al' = 0" using r nl by (auto simp: request_size_def Let_def z_def)
    then show ?thesis using rb uz True by simp
  next
    case False
    then have k: "unat al = 2 ^ k" using al by simp
    have e: "al' = (if al < 16 then 16 else al)" "sz = z + al'"
      using r nl False by (auto simp: request_size_def Let_def z_def word_neq_0_conv)
    have ua: "unat al' = 2 ^ max 4 k"
    proof (cases "al < 16")
      case True
      then have "(2::nat) ^ k < 2 ^ 4" using k by (simp add: word_less_nat_alt)
      then have "k < 4" using power_less_imp_less_exp[of 2 k 4] by simp
      then show ?thesis using e True by simp
    next
      case f: False
      then have "(2::nat) ^ 4 \<le> 2 ^ k" using k by (simp add: word_less_nat_alt)
      then have "4 \<le> k" using power_le_imp_le_exp[of 2 4 k] by simp
      then show ?thesis using e f k by (simp add: max_absorb2)
    qed
    have le: "unat al' \<le> unat al + 16" using e by simp
    have us: "unat sz = unat z + unat al'" using rb n le unfolding e(2) by (simp add: unat_plus_if')
    have "(2::nat) ^ 2 dvd 2 ^ max 4 k" by (rule le_imp_power_dvd) simp
    then have d4: "4 dvd unat al'" using ua by simp
    have "2 ^ k dvd (2::nat) ^ max 4 k" by (rule le_imp_power_dvd) simp
    then have dv: "unat al dvd unat al'" using ua k by simp
    have "al' \<noteq> 0" using ua by auto
    then show ?thesis using False us ua d4 dv rb uz by (auto intro: dvd_add)
  qed
  then show "4 dvd unat sz" "12 + unat n + unat al' \<le> unat sz" "al' = 0 \<longleftrightarrow> al = 0" "al' = 0 \<or> unat al' = 2 ^ max 4 k"
    "unat al dvd unat al'" by blast+
qed

text \<open>A page allocator whose pages lie above the static data of the heap.\<close>

locale heap_pages = page_allocator ok used palloc pfree
  for ok :: "'s \<Rightarrow> bool" and used and palloc and pfree +
  fixes lo :: nat
  assumes used_above: "ok s \<Longrightarrow> a \<in> used s \<Longrightarrow> lo < a"
begin

lemma heap_grow_ok:
  assumes "heap_ok h A" "ok s" "heap_bytes h A \<subseteq> used s" "unat (hp_fl_addr h) = lo"
  shows "\<exists>e h' s'. heap_grow palloc sz h s = Some (e, h', s') \<and> ok s' \<and> heap_ok h' A \<and> heap_bytes h' A \<subseteq> used s' \<and>
    used s \<subseteq> used s' \<and> heap_bytes h' A = heap_bytes h A \<union> (used s' - used s) \<and> (\<forall>p\<in>A. blk h' p = blk h p) \<and> hp_fl_addr h' = hp_fl_addr h \<and> hp_low_watermark h' = hp_low_watermark h \<and>
    (e \<ge> 0 \<longrightarrow> (\<exists>c\<in>set (hp_free h'). sz \<le> snd c))"
proof -
  define R where "R = ROUNDUP sz PAGE_SIZE"
  obtain p s' where pa: "palloc (R div 4096) s = (p, s')" by (cases "palloc (R div 4096) s")
  show ?thesis
  proof (cases "p = 0")
    case True
    then have "heap_grow palloc sz h s = Some (ERR_NO_MEMORY, h, s)"
      using pa palloc_fail[OF assms(2)] by (auto simp: heap_grow_def Let_def R_def)
    then show ?thesis using assms by auto
  next
    case False
    note a = palloc_ok[OF assms(2) pa False]
    have nz: "R div 4096 \<noteq> 0" using a by blast
    have R: "unat R = 4096 * unat (R div 4096)" "unat sz \<le> unat R" using page_round[of sz] nz by (simp_all add: R_def)
    have R0: "4096 \<le> unat R" using R(1) nz by (metis dvd_triv_left dvd_imp_le not_gr0 mult_eq_0_iff unat_eq_0 zero_neq_numeral)
    let ?c = "(p, R)"
    have sp: "span ?c = page_bytes p (R div 4096)" by (simp add: span_def page_bytes_def R(1))
    have "lo < unat p" using used_above[of s' "unat p"] a R0 R(1) by (auto simp: page_bytes_def)
    moreover have "4 dvd unat p" using a dvd_trans[of 4 4096 "unat p"] by simp
    ultimately have c: "chunk_ok (unat (hp_fl_addr h)) ?c" using a R R0 assms(4) by (simp add: chunk_ok_def cend_def)
    have dj: "span ?c \<inter> heap_bytes h A = {}" using a sp assms(3) by blast
    from add_chunk_ok[OF assms(1) c dj] obtain h1 h2 x where g: "heap_create_free_chunk p R h = Some (?c, h1)"
      "heap_insert_free_chunk ?c h1 = Some (x, h2)" "heap_ok h2 A" "free_bytes (hp_free h2) = span ?c \<union> free_bytes (hp_free h)"
      "\<forall>q\<in>A. blk h2 q = blk h q" "hp_fl_addr h2 = hp_fl_addr h" "hp_low_watermark h2 = hp_low_watermark h" by auto
    define b where "b = (if p < hp_base h2 \<or> hp_base h2 = 0 then p else hp_base h2)"
    define l where "l = (if p + R > b + hp_len h2 then p + R - b else hp_len h2)"
    have hg: "heap_grow palloc sz h s = Some (sint R, h2\<lparr>hp_base := b, hp_len := l\<rparr>, s')"
      using pa False g(1,2) by (auto simp: heap_grow_def Let_def R_def[symmetric] b_def l_def intro!: heap.equality)
    define h' where "h' = h2\<lparr>hp_base := b, hp_len := l\<rparr>"
    have f: "hp_free h' = hp_free h2" "hp_as h' = hp_as h2" "hp_remaining h' = hp_remaining h2" "hp_fl_addr h' = hp_fl_addr h2"
      "hp_low_watermark h' = hp_low_watermark h2" by (simp_all add: h'_def)
    have bk: "blk h' = blk h2" by (rule ext) (simp add: blk_def f)
    have ok': "heap_ok h' A" using g(3) by (simp add: heap_ok_def f bk)
    have us: "used s \<subseteq> used s'" "used s' - used s = span ?c" using a sp by auto
    have hbe: "heap_bytes h' A = heap_bytes h A \<union> (used s' - used s)"
      using g(4,5) unfolding us(2) by (auto simp: heap_bytes_def f bk)
    then have hb: "heap_bytes h' A \<subseteq> used s'" using assms(3) us(1) by blast
    obtain d where "d \<in> set (hp_free h')" "span ?c \<subseteq> span d"
      using span_in_one[OF heap_okD(2)[OF g(3)], of ?c] c g(4,6) by (auto simp: f)
    then have "\<exists>d\<in>set (hp_free h'). sz \<le> snd d"
      using span_len[OF _ c, of d] R(2) by (intro bexI[of _ d]) (auto simp: word_le_nat_alt)
    then show ?thesis using hg ok' hb hbe us(1) a g(5-7) unfolding h'_def[symmetric] by (simp add: f bk)
  qed
qed

text \<open>The result of an allocation of \<open>n\<close> bytes from the heap \<open>h\<close>: \<open>NULL\<close> with the heap still in order,
  or a fresh aligned block with room for them that changes no live one. The heap has gained exactly
  the pages that the page allocator has handed out.\<close>

definition alloc_post :: "nat \<Rightarrow> nat \<Rightarrow> heap \<Rightarrow> u32 set \<Rightarrow> 's \<Rightarrow> u32 \<Rightarrow> heap \<Rightarrow> 's \<Rightarrow> bool" where
  "alloc_post n al h A s p h' s' \<longleftrightarrow> ok s' \<and> unat (hp_fl_addr h') = lo \<and>
    heap_ok h' (if p = 0 then A else insert p A) \<and> heap_bytes h' (if p = 0 then A else insert p A) \<subseteq> used s' \<and>
    used s \<subseteq> used s' \<and> heap_bytes h' (if p = 0 then A else insert p A) = heap_bytes h A \<union> (used s' - used s) \<and>
    (\<forall>q\<in>A. blk h' q = blk h q) \<and>
    (p \<noteq> 0 \<longrightarrow> p \<notin> A \<and> unat p + n \<le> cend (blk h' p) \<and> (al \<noteq> 0 \<longrightarrow> al dvd unat p))"

lemma retry_found:
  assumes h: "heap_ok h A" "ok s" "heap_bytes h A \<subseteq> used s" "unat (hp_fl_addr h) = lo"
    and sz: "4 dvd unat sz" "12 + unat al \<le> unat sz" "al = 0 \<or> unat al = 2 ^ k"
    and fits: "\<exists>c\<in>set (hp_free h). sz \<le> snd c"
  shows "\<exists>p h'. miniheap_retry palloc sz al h s = Some (p, h', s) \<and> p \<noteq> 0 \<and> alloc_post (unat sz - 12 - unat al) (unat al) h A s p h' s"
proof -
  obtain r where r: "heap_take sz al h = Some r" "case r of
      None \<Rightarrow> \<forall>c\<in>set (hp_free h). snd c < sz
    | Some (p, h') \<Rightarrow> p \<notin> A \<and> heap_ok h' (insert p A) \<and> span (blk h' p) \<subseteq> free_bytes (hp_free h) \<and>
        free_bytes (hp_free h') = free_bytes (hp_free h) - span (blk h' p) \<and> (\<forall>q\<in>A. blk h' q = blk h q) \<and>
        unat p + (unat sz - 12 - unat al) \<le> cend (blk h' p) \<and> (al \<noteq> 0 \<longrightarrow> unat al dvd unat p) \<and>
        hp_fl_addr h' = hp_fl_addr h \<and> hp_low_watermark h' = min (hp_low_watermark h) (hp_remaining h')"
    using heap_take_ok[OF h(1) sz] by blast
  have "r \<noteq> None"
  proof
    assume "r = None"
    then show False using r(2) fits by (auto simp: not_le[symmetric])
  qed
  then obtain p h' where ph: "r = Some (p, h')" by auto
  have P: "p \<notin> A" "heap_ok h' (insert p A)" "span (blk h' p) \<subseteq> free_bytes (hp_free h)"
    "free_bytes (hp_free h') = free_bytes (hp_free h) - span (blk h' p)" "\<forall>q\<in>A. blk h' q = blk h q"
    "unat p + (unat sz - 12 - unat al) \<le> cend (blk h' p)" "al \<noteq> 0 \<longrightarrow> unat al dvd unat p" "hp_fl_addr h' = hp_fl_addr h"
    using r(2) ph by simp_all
  have "block_ok (unat (hp_fl_addr h')) p (blk h' p)" using heap_okD(5)[OF P(2)] by simp
  then have p0: "p \<noteq> 0" by (auto simp: block_ok_def)
  have hb: "heap_bytes h' (insert p A) = heap_bytes h A" using P(3,4,5) by (auto simp: heap_bytes_def)
  have "alloc_post (unat sz - 12 - unat al) (unat al) h A s p h' s"
    using P p0 h hb unfolding alloc_post_def by (simp add: unat_eq_0)
  moreover have "miniheap_retry palloc sz al h s = Some (p, h', s)" by (subst miniheap_retry.simps) (simp add: r(1) ph)
  ultimately show ?thesis using p0 by blast
qed

text \<open>The retry loop ends: after one growth the request fits.\<close>

lemma miniheap_retry_ok:
  assumes h: "heap_ok h A" "ok s" "heap_bytes h A \<subseteq> used s" "unat (hp_fl_addr h) = lo"
    and sz: "4 dvd unat sz" "12 + unat al \<le> unat sz" "al = 0 \<or> unat al = 2 ^ k"
  shows "\<exists>p h' s'. miniheap_retry palloc sz al h s = Some (p, h', s') \<and> alloc_post (unat sz - 12 - unat al) (unat al) h A s p h' s'"
proof (cases "\<exists>c\<in>set (hp_free h). sz \<le> snd c")
  case True
  then show ?thesis using retry_found[OF h sz] by blast
next
  case False
  obtain e h1 s1 where g: "heap_grow palloc sz h s = Some (e, h1, s1)" "ok s1" "heap_ok h1 A" "heap_bytes h1 A \<subseteq> used s1"
    "used s \<subseteq> used s1" "heap_bytes h1 A = heap_bytes h A \<union> (used s1 - used s)" "\<forall>p\<in>A. blk h1 p = blk h p"
    "hp_fl_addr h1 = hp_fl_addr h" "e \<ge> 0 \<longrightarrow> (\<exists>c\<in>set (hp_free h1). sz \<le> snd c)"
    using heap_grow_ok[OF h] by blast
  have "heap_find sz (hp_free h) = Some None"
  proof -
    obtain r where r: "heap_find sz (hp_free h) = Some r" "case r of None \<Rightarrow> \<forall>c\<in>set (hp_free h). snd c < sz
      | Some (bs, c, as) \<Rightarrow> hp_free h = bs @ c # as \<and> snd c \<ge> sz \<and> (\<forall>b\<in>set bs. snd b < sz)"
      using heap_find_spec[of "unat (hp_fl_addr h)" "hp_free h" sz] heap_okD(2)[OF h(1)] by (auto simp: free_ok_def)
    then show ?thesis using False by (cases r) auto
  qed
  then have ht: "heap_take sz al h = Some None" by (simp add: heap_take_def)
  show ?thesis
  proof (cases "e \<ge> 0")
    case True
    then obtain p h' where "miniheap_retry palloc sz al h1 s1 = Some (p, h', s1)" "alloc_post (unat sz - 12 - unat al) (unat al) h1 A s1 p h' s1"
      using retry_found[OF g(3,2,4) _ sz] g(8,9) h(4) by auto
    moreover from this have "alloc_post (unat sz - 12 - unat al) (unat al) h A s p h' s1" using g(5-7) by (auto simp: alloc_post_def)
    moreover have "miniheap_retry palloc sz al h s = miniheap_retry palloc sz al h1 s1"
      using True by (subst miniheap_retry.simps) (simp add: ht g(1))
    ultimately show ?thesis by metis
  next
    case False
    then have "miniheap_retry palloc sz al h s = Some (0, h1, s1)" by (subst miniheap_retry.simps) (simp add: ht g(1))
    moreover have "alloc_post (unat sz - 12 - unat al) (unat al) h A s 0 h1 s1" using g h(4) by (simp add: alloc_post_def)
    ultimately show ?thesis by blast
  qed
qed

text \<open>\<open>miniheap_alloc\<close> on a request that does not overflow.\<close>

lemma miniheap_alloc_ok:
  assumes h: "heap_ok h A" "ok s" "heap_bytes h A \<subseteq> used s" "unat (hp_fl_addr h) = lo"
    and al: "al = 0 \<or> unat al = 2 ^ k" and n: "unat n + unat al + 32 < 2 ^ 32"
  shows "\<exists>p h' s'. miniheap_alloc palloc n al h s = Some (p, h', s') \<and> alloc_post (unat n) (unat al) h A s p h' s'"
proof -
  obtain sz al' where rs: "request_size n al = (sz, al')" by (cases "request_size n al")
  note R = request_size_ok[OF al n rs] and pow = pow2_and[OF al]
  obtain p h' s' where r: "miniheap_retry palloc sz al' h s = Some (p, h', s')"
    "alloc_post (unat sz - 12 - unat al') (unat al') h A s p h' s'"
    using miniheap_retry_ok[OF h R(1) _ R(4)] R(2) by force
  have "alloc_post (unat n) (unat al) h A s p h' s'"
    using r(2) R(2,3,5) dvd_trans[OF R(5)] unfolding alloc_post_def by (auto simp: unat_eq_0)
  then show ?thesis using r(1) pow rs by (auto simp: miniheap_alloc_def)
qed

end

section \<open>Trimming\<close>

text \<open>The pages of a range that can be given back: a chunk header still fits in what is left on either side.\<close>

definition trimmable :: "nat \<Rightarrow> nat \<Rightarrow> nat \<Rightarrow> bool" where
  "trimmable a e P \<longleftrightarrow> 4096 dvd P \<and> a \<le> P \<and> P + 4096 \<le> e \<and> (P = a \<or> a + 12 \<le> P) \<and> (P + 4096 = e \<or> P + 4096 + 12 \<le> e)"

definition trim_bytes :: "chunk \<Rightarrow> nat set" where
  "trim_bytes c = (\<Union>P\<in>{P. trimmable (unat (fst c)) (cend c) P}. {P..<P + 4096})"

abbreviation trim_set :: "chunk list \<Rightarrow> nat set" where
  "trim_set cs \<equiv> \<Union> (trim_bytes ` set cs)"

lemma page_next: "4096 dvd a \<Longrightarrow> 4096 dvd b \<Longrightarrow> a < b \<Longrightarrow> a + 4096 \<le> (b :: nat)"
  by (auto elim!: dvdE)

lemma pages_of_range:
  assumes "4096 dvd a" "4096 dvd (b :: nat)"
  shows "(\<Union>P\<in>{P. 4096 dvd P \<and> a \<le> P \<and> P + 4096 \<le> b}. {P..<P + 4096}) = {a..<b}"
proof (rule set_eqI, rule iffI)
  fix x assume x: "x \<in> {a..<b}"
  define P where "P = x div 4096 * 4096"
  have P: "4096 dvd P" "P \<le> x" "x < P + 4096" by (auto simp: P_def)
  have "a \<le> P" using page_next[OF P(1) assms(1)] P(3) x by (cases "a \<le> P") auto
  moreover have "P + 4096 \<le> b" using page_next[OF P(1) assms(2)] P(2) x by auto
  ultimately show "x \<in> (\<Union>P\<in>{P. 4096 dvd P \<and> a \<le> P \<and> P + 4096 \<le> b}. {P..<P + 4096})" using P by force
qed auto

lemma trim_range_ok:
  assumes "unat a < unat e" "4096 dvd unat sp" "4096 dvd unat ep" "unat a \<le> unat sp" "unat ep \<le> unat e" "unat sp \<le> unat ep + 4096"
    "unat ep + 4096 < 2 ^ 32" "\<forall>P. trimmable (unat a) (unat e) P \<longrightarrow> unat sp \<le> P \<and> P + 4096 \<le> unat ep"
  shows "\<exists>r. trim_range a e sp ep = Some r \<and> (case r of None \<Rightarrow> \<forall>P. \<not> trimmable (unat a) (unat e) P | Some (sp', ep') \<Rightarrow>
    4096 dvd unat sp' \<and> 4096 dvd unat ep' \<and> unat a \<le> unat sp' \<and> unat sp' < unat ep' \<and> unat ep' \<le> unat e \<and>
    (sp' = a \<or> unat a + 12 \<le> unat sp') \<and> (ep' = e \<or> unat ep' + 12 \<le> unat e) \<and>
    (\<forall>P. trimmable (unat a) (unat e) P \<longrightarrow> unat sp' \<le> P \<and> P + 4096 \<le> unat ep'))"
  using assms
proof (induction "unat ep + 4096 - unat sp" arbitrary: sp ep rule: less_induct)
  case less
  note inv = less.prems(8)[rule_format]
  show ?case
  proof (cases "ep > sp")
    case False
    then have "unat ep \<le> unat sp" by (simp add: word_less_nat_alt)
    then have "\<forall>P. \<not> trimmable (unat a) (unat e) P" using inv by fastforce
    then show ?thesis using False by (subst trim_range.simps) simp
  next
    case True
    then have lt: "unat sp < unat ep" by (simp add: word_less_nat_alt)
    have sp1: "unat (sp + 4096) = unat sp + 4096" using lt less.prems(7) by (simp add: unat_plus_if')
    have ge: "unat sp + 4096 \<le> unat ep" using lt less.prems(2,3) by (rule page_next[rotated 2])
    have ep1: "unat (ep - 4096) = unat ep - 4096" using ge by (simp add: unat32_sub)
    have da: "unat (sp - a) = unat sp - unat a" "unat (e - ep) = unat e - unat ep"
      using less.prems(4,5) by (simp_all add: unat32_sub)
    consider (whole) "sp = a \<and> ep = e" | (head) "\<not> (sp = a \<and> ep = e)" "sp \<noteq> a \<and> sp - a < 12"
      | (tail) "\<not> (sp = a \<and> ep = e)" "\<not> (sp \<noteq> a \<and> sp - a < 12)" "ep < e \<and> e - ep < 12"
      | (fits) "\<not> (sp = a \<and> ep = e)" "\<not> (sp \<noteq> a \<and> sp - a < 12)" "\<not> (ep < e \<and> e - ep < 12)" by blast
    then show ?thesis
    proof cases
      case whole
      then show ?thesis using True less.prems by (subst trim_range.simps) simp
    next
      case head
      have e: "trim_range a e sp ep = trim_range a e (sp + 4096) ep" using True head by (subst trim_range.simps) auto
      have no: "\<not> trimmable (unat a) (unat e) (unat sp)"
        using head(2) da(1) less.prems(4) by (auto simp: trimmable_def word_less_nat_alt word_unat_eq_iff)
      have "unat (sp + 4096) \<le> P \<and> P + 4096 \<le> unat ep" if P: "trimmable (unat a) (unat e) P" for P
      proof -
        have "unat sp \<noteq> P" using P no by auto
        then have "unat sp < P" using inv[OF P] by simp
        then show ?thesis using page_next[OF less.prems(2), of P] P inv[OF P] sp1 by (simp add: trimmable_def)
      qed
      then show ?thesis unfolding e
        using less.prems(1-7) sp1 ge by (intro less.hyps) (auto simp: dvd_add)
    next
      case tail
      have e: "trim_range a e sp ep = trim_range a e sp (ep - 4096)" using True tail by (subst trim_range.simps) auto
      have no: "\<not> trimmable (unat a) (unat e) P" if "P + 4096 = unat ep" for P
        using tail(3) da(2) less.prems(5) that by (auto simp: trimmable_def word_less_nat_alt)
      have "unat sp \<le> P \<and> P + 4096 \<le> unat (ep - 4096)" if P: "trimmable (unat a) (unat e) P" for P
      proof -
        have "P + 4096 < unat ep" using inv[OF P] no[of P] P by fastforce
        then show ?thesis using page_next[of "P + 4096" "unat ep"] P inv[OF P] ep1 less.prems(3) by (simp add: trimmable_def)
      qed
      then show ?thesis unfolding e
        using less.prems(1-7) ep1 ge by (intro less.hyps) (auto simp: dvd_diff_nat)
    next
      case fits
      have "trim_range a e sp ep = Some (Some (sp, ep))" using True fits by (subst trim_range.simps) auto
      then show ?thesis using less.prems lt fits da by (auto simp: word_less_nat_alt dest: word_unat_eq_iff[THEN iffD2])
    qed
  qed
qed

lemma trim_bytes_range:
  assumes "4096 dvd unat sp" "4096 dvd unat ep" "unat (fst c) \<le> unat sp" "unat ep \<le> cend c"
    "unat sp = unat (fst c) \<or> unat (fst c) + 12 \<le> unat sp" "unat ep = cend c \<or> unat ep + 12 \<le> cend c"
    "\<forall>P. trimmable (unat (fst c)) (cend c) P \<longrightarrow> unat sp \<le> P \<and> P + 4096 \<le> unat ep"
  shows "trim_bytes c = {unat sp..<unat ep}"
proof -
  have "trimmable (unat (fst c)) (cend c) P \<longleftrightarrow> 4096 dvd P \<and> unat sp \<le> P \<and> P + 4096 \<le> unat ep" for P
  proof
    assume P: "4096 dvd P \<and> unat sp \<le> P \<and> P + 4096 \<le> unat ep"
    have "P = unat (fst c) \<or> unat (fst c) + 12 \<le> P"
      using assms(3,5) P page_next[OF assms(1), of P] by (cases "unat sp < P") auto
    moreover have "P + 4096 = cend c \<or> P + 4096 + 12 \<le> cend c"
      using assms(2,4,6) P page_next[of "P + 4096" "unat ep"] by (cases "P + 4096 < unat ep") auto
    ultimately show "trimmable (unat (fst c)) (cend c) P" using P assms(3,4) by (simp add: trimmable_def)
  qed (use assms(7) in \<open>auto simp: trimmable_def\<close>)
  then show ?thesis using pages_of_range[OF assms(1,2)] by (simp add: trim_bytes_def)
qed

lemma trim_bytes_span: "trim_bytes c \<subseteq> span c"
  by (auto simp: trim_bytes_def trimmable_def span_cend)

lemma trim_bytes_free: "(\<Union>c\<in>set cs. trim_bytes c) \<subseteq> free_bytes cs"
  using trim_bytes_span by (auto simp: free_bytes_def)

text \<open>What is left of a free chunk around the page range that is cut out of it.\<close>

definition rest_chunks :: "chunk \<Rightarrow> u32 \<Rightarrow> u32 \<Rightarrow> chunk list" where
  "rest_chunks c sp ep = (if sp = fst c then [] else [(fst c, sp - fst c)]) @
     (if ep = fst c + snd c then [] else [(ep, fst c + snd c - ep)])"

lemma rest_chunks_ok:
  assumes c: "chunk_ok lo c" and "unat (fst c) \<le> unat sp" "unat sp < unat ep" "unat ep \<le> cend c" "4 dvd unat sp" "4 dvd unat ep"
    and room: "sp = fst c \<or> unat (fst c) + 12 \<le> unat sp" "ep = fst c + snd c \<or> unat ep + 12 \<le> cend c"
  shows "free_ok lo (rest_chunks c sp ep)" "free_bytes (rest_chunks c sp ep) = span c - {unat sp..<unat ep}"
    "free_total (rest_chunks c sp ep) + (unat ep - unat sp) = unat (snd c)"
proof -
  have e: "unat (fst c + snd c) = cend c" using cend_word[OF c, of "fst c + snd c"] by simp
  have u: "unat (sp - fst c) = unat sp - unat (fst c)" "unat (fst c + snd c - ep) = cend c - unat ep"
    using assms(2,4) e by (simp_all add: unat32_sub)
  have d: "4 dvd unat (fst c)" "4 dvd cend c" "lo < unat (fst c)" "cend c < 2 ^ 32" using c by (auto simp: chunk_ok_def cend_def)
  have H: "sp \<noteq> fst c \<Longrightarrow> chunk_ok lo (fst c, sp - fst c)"
    using room(1) u d assms by (auto simp: chunk_ok_def cend_def dvd_diff_nat)
  have T: "ep \<noteq> fst c + snd c \<Longrightarrow> chunk_ok lo (ep, fst c + snd c - ep)"
    using room(2) u d assms by (auto simp: chunk_ok_def cend_def[of "(ep, _)"] dvd_diff_nat)
  show "free_ok lo (rest_chunks c sp ep)"
    using H T u(1) assms(2,3) by (auto simp: rest_chunks_def free_ok_simps before_def cend_def)
  show "free_bytes (rest_chunks c sp ep) = span c - {unat sp..<unat ep}"
    using u e assms(2-4) unfolding rest_chunks_def by (auto simp: span_cend cend_def[of "(_, _)"])
  show "free_total (rest_chunks c sp ep) + (unat ep - unat sp) = unat (snd c)"
    using u e assms(2-4) unfolding rest_chunks_def by (auto simp: cend_def)
qed


definition kept :: "nat \<Rightarrow> nat set \<Rightarrow> heap \<Rightarrow> heap \<Rightarrow> bool" where
  "kept lo X h h' \<longleftrightarrow> (\<forall>p b. block_ok lo p b \<longrightarrow> span b \<inter> X = {} \<longrightarrow> hp_as h' (p - 12) = hp_as h (p - 12)) \<and>
     hp_free h' = hp_free h \<and> hp_fl_addr h' = hp_fl_addr h \<and> hp_base h' = hp_base h \<and> hp_len h' = hp_len h \<and>
     hp_low_watermark h' = hp_low_watermark h"

lemma kept_trans: "kept lo X h h1 \<Longrightarrow> kept lo Y h1 h2 \<Longrightarrow> kept lo (X \<union> Y) h h2"
  by (simp add: kept_def Int_Un_distrib)

text \<open>The accounting of \<open>trim_chunk\<close>, once the page range is known.\<close>

lemma trim_chunk_eq:
  assumes "trim_range (fst c) (fst c + snd c) (ROUNDUP (fst c) PAGE_SIZE) (ROUNDDOWN (fst c + snd c) PAGE_SIZE) = Some (Some (sp, ep))"
    "fst c < fst c + snd c" "ROUNDDOWN (fst c + snd c) PAGE_SIZE \<le> fst c + snd c" "fst c \<le> ROUNDUP (fst c) PAGE_SIZE"
    "ep \<le> fst c + snd c" "(fst c + snd c - ep) mod 4 = 0" "pfree sp ((ep - sp) div PAGE_SIZE) s = Some s'"
  shows "\<exists>hs. trim_chunk pfree c h s = Some (rest_chunks c sp ep, h\<lparr>hp_as := hs, hp_remaining := hp_remaining h - (ep - sp)\<rparr>, s') \<and>
    hs = (if ep = fst c + snd c then hp_as h else (\<lambda>a. if a - ep < 12 \<or> ep - a < 12 then None else hp_as h a))"
proof (cases "ep = fst c + snd c")
  case True
  then show ?thesis using assms by (cases c) (auto simp: trim_chunk_def rest_chunks_def Let_def)
next
  case False
  then have "ep < fst c + snd c" using assms(5) by simp
  then show ?thesis using False assms by (cases c) (auto simp: trim_chunk_def rest_chunks_def Let_def heap_create_free_chunk_def)
qed

context heap_pages
begin

lemma trim_chunk_ok:
  assumes c: "chunk_ok lo' c" "cend c + 4096 < 2 ^ 32" and s: "ok s" "span c \<subseteq> used s"
  shows "\<exists>cs h' s'. trim_chunk pfree c h s = Some (cs, h', s') \<and> free_ok lo' cs \<and> free_bytes cs = span c - trim_bytes c \<and>
    ok s' \<and> used s' = used s - trim_bytes c \<and> kept lo' (span c) h h' \<and>
    hp_remaining h' + snd c = hp_remaining h + of_nat (free_total cs)"
proof -
  have e: "unat (fst c + snd c) = cend c" using cend_word[OF c(1), of "fst c + snd c"] by simp
  have ac: "unat (fst c) < cend c" using chunk_ok_nonempty[OF c(1)] by simp
  define SP EP where "SP = ROUNDUP (fst c) PAGE_SIZE" and "EP = ROUNDDOWN (fst c + snd c) PAGE_SIZE"
  have uS: "unat SP = (unat (fst c) + (4096 - 1)) div 4096 * 4096"
    using unat_ROUNDUP[of 4096 12 "fst c"] c(2) ac by (simp add: SP_def)
  have uE: "unat EP = cend c div 4096 * 4096" using unat_ROUNDDOWN[of 4096 12 "fst c + snd c"] e by (simp add: EP_def)
  note rb = roundup_bounds[of 4096 "unat (fst c)", folded uS, simplified]
  have "(unat (fst c) + 4095) div 4096 \<le> (cend c + 4096) div 4096" using ac by (intro div_le_mono) simp
  also have "\<dots> = cend c div 4096 + 1" by (simp add: div_add_self2)
  finally have "(unat (fst c) + (4096 - 1)) div 4096 * 4096 \<le> (cend c div 4096 + 1) * 4096" by (intro mult_right_mono) simp_all
  then have SE: "unat SP \<le> unat EP + 4096" unfolding uS uE by simp
  have le: "unat (fst c) \<le> unat SP" "unat EP \<le> cend c" "cend c < unat EP + 4096" "unat SP \<le> unat EP + 4096"
    using rb uS uE ac SE by linarith+
  have dv: "4096 dvd unat SP" "4096 dvd unat EP" using uS uE by auto
  have asr: "fst c < fst c + snd c" "EP \<le> fst c + snd c" "fst c \<le> SP"
    using le ac by (simp_all add: word_less_nat_alt word_le_nat_alt e)
  have inv: "\<forall>P. trimmable (unat (fst c)) (cend c) P \<longrightarrow> unat SP \<le> P \<and> P + 4096 \<le> unat EP"
  proof (intro allI impI)
    fix P assume P: "trimmable (unat (fst c)) (cend c) P"
    have "\<not> P < unat SP" using page_next[of P "unat SP"] P dv(1) rb by (auto simp: trimmable_def)
    moreover have "\<not> unat EP < P + 4096"
      using page_next[OF dv(2), of "P + 4096"] P le(3) by (auto simp: trimmable_def)
    ultimately show "unat SP \<le> P \<and> P + 4096 \<le> unat EP" by simp
  qed
  have "\<exists>r. trim_range (fst c) (fst c + snd c) SP EP = Some r \<and> (case r of None \<Rightarrow> \<forall>P. \<not> trimmable (unat (fst c)) (unat (fst c + snd c)) P | Some (sp', ep') \<Rightarrow>
    4096 dvd unat sp' \<and> 4096 dvd unat ep' \<and> unat (fst c) \<le> unat sp' \<and> unat sp' < unat ep' \<and> unat ep' \<le> unat (fst c + snd c) \<and>
    (sp' = fst c \<or> unat (fst c) + 12 \<le> unat sp') \<and> (ep' = fst c + snd c \<or> unat ep' + 12 \<le> unat (fst c + snd c)) \<and>
    (\<forall>P. trimmable (unat (fst c)) (unat (fst c + snd c)) P \<longrightarrow> unat sp' \<le> P \<and> P + 4096 \<le> unat ep'))"
    by (rule trim_range_ok) (use e ac le dv c(2) inv in simp_all)
  then obtain r where r: "trim_range (fst c) (fst c + snd c) SP EP = Some r" "case r of None \<Rightarrow> \<forall>P. \<not> trimmable (unat (fst c)) (cend c) P | Some (sp', ep') \<Rightarrow>
    4096 dvd unat sp' \<and> 4096 dvd unat ep' \<and> unat (fst c) \<le> unat sp' \<and> unat sp' < unat ep' \<and> unat ep' \<le> cend c \<and>
    (sp' = fst c \<or> unat (fst c) + 12 \<le> unat sp') \<and> (ep' = fst c + snd c \<or> unat ep' + 12 \<le> cend c) \<and>
    (\<forall>P. trimmable (unat (fst c)) (cend c) P \<longrightarrow> unat sp' \<le> P \<and> P + 4096 \<le> unat ep')"
    unfolding e by blast
  show ?thesis
  proof (cases r)
    case None
    then have "trim_chunk pfree c h s = Some ([c], h, s)"
      using r(1) asr by (cases c) (simp add: trim_chunk_def SP_def EP_def Let_def)
    moreover have "free_ok lo' [c]" using c(1) by (simp add: free_ok_simps)
    moreover have "kept lo' (span c) h h" by (simp add: kept_def)
    moreover have "trim_bytes c = {}" using r(2) None by (simp add: trim_bytes_def)
    ultimately show ?thesis using s by (intro exI[of _ "[c]"] exI[of _ h] exI[of _ s]) simp
  next
    case (Some t)
    obtain sp ep where t: "t = (sp, ep)" by (cases t)
    have R: "4096 dvd unat sp" "4096 dvd unat ep" "unat (fst c) \<le> unat sp" "unat sp < unat ep" "unat ep \<le> cend c"
      "sp = fst c \<or> unat (fst c) + 12 \<le> unat sp" "ep = fst c + snd c \<or> unat ep + 12 \<le> cend c"
      "\<forall>P. trimmable (unat (fst c)) (cend c) P \<longrightarrow> unat sp \<le> P \<and> P + 4096 \<le> unat ep" using r(2) Some t by auto
    have tb: "trim_bytes c = {unat sp..<unat ep}" using R by (intro trim_bytes_range) (auto simp: e)
    have d4: "4 dvd unat sp" "4 dvd unat ep" using R(1,2) dvd_trans[of 4 4096] by auto
    note rc = rest_chunks_ok[OF c(1) R(3-5) d4 R(6,7)]
    let ?n = "(ep - sp) div PAGE_SIZE"
    have n: "unat (ep - sp) = unat ep - unat sp" using R(4) by (simp add: unat32_sub)
    have un: "4096 * unat ?n = unat ep - unat sp" using R(1,2) by (simp add: unat_div_distrib n dvd_diff_nat)
    then have F: "page_bytes sp ?n = {unat sp..<unat ep}" using R(4) by (simp add: page_bytes_def)
    have n0: "?n \<noteq> 0" using un R(4) by auto
    have "page_bytes sp ?n \<subseteq> used s" unfolding F using R(3,5) s(2) by (auto simp: span_cend)
    from pfree_ok[OF s(1) n0 R(1) this] obtain s' where s': "pfree sp ?n s = Some s'" "ok s'" "used s' = used s - {unat sp..<unat ep}"
      unfolding F by blast
    have ut: "unat (fst c + snd c - ep) = cend c - unat ep" using R(5) e by (simp add: unat32_sub)
    have d4c: "4 dvd cend c - unat ep" using c(1) d4 by (simp add: chunk_ok_def cend_def dvd_diff_nat)
    have T: "(fst c + snd c - ep) mod 4 = 0" using d4c ut unat_mod_distrib[of "fst c + snd c - ep" 4] unat_eq_0 by fastforce
    have epl: "ep \<le> fst c + snd c" using R(5) e by (simp add: word_le_nat_alt)
    from trim_chunk_eq[OF r(1)[unfolded Some t SP_def EP_def] asr(1,2,3)[unfolded SP_def EP_def] epl T, of pfree s s' h] s'(1)
    obtain hs where tr: "trim_chunk pfree c h s = Some (rest_chunks c sp ep, h\<lparr>hp_as := hs, hp_remaining := hp_remaining h - (ep - sp)\<rparr>, s')"
      "hs = (if ep = fst c + snd c then hp_as h else (\<lambda>a. if a - ep < 12 \<or> ep - a < 12 then None else hp_as h a))" by blast
    define h' where "h' = h\<lparr>hp_as := hs, hp_remaining := hp_remaining h - (ep - sp)\<rparr>"
    have "hs (p - 12) = hp_as h (p - 12)" if "block_ok lo' p b" "span b \<inter> span c = {}" for p b
    proof (cases "ep = fst c + snd c")
      case False
      let ?d = "(ep, fst c + snd c - ep)"
      have "chunk_ok lo' ?d" using rc(1) False by (auto simp: rest_chunks_def free_ok_simps)
      moreover have "span ?d \<subseteq> span c" using ut R by (auto simp: span_cend cend_def[of ?d])
      ultimately show ?thesis using header_kept[OF that(1), of ?d] that(2) False by (auto simp: tr(2))
    qed (simp add: tr(2))
    then have k: "kept lo' (span c) h h'" by (simp add: kept_def h'_def)
    have "snd c = of_nat (free_total (rest_chunks c sp ep)) + (ep - sp)"
      using rc(3) n by (metis of_nat_add of_nat_unat_id)
    then have rem: "hp_remaining h' + snd c = hp_remaining h + of_nat (free_total (rest_chunks c sp ep))" by (simp add: h'_def)
    show ?thesis using tr(1) rc(1,2) s'(2,3) k rem unfolding h'_def[symmetric] tb by blast
  qed
qed


lemma trim_loop_ok:
  assumes "free_ok lo' cs" "\<forall>c\<in>set cs. cend c + 4096 < 2 ^ 32" "ok s" "free_bytes cs \<subseteq> used s"
  shows "\<exists>ds h' s'. trim_loop pfree cs h s = Some (ds, h', s') \<and> free_ok lo' ds \<and> free_bytes ds = free_bytes cs - trim_set cs \<and>
    ok s' \<and> used s' = used s - trim_set cs \<and> kept lo' (free_bytes cs) h h' \<and>
    hp_remaining h' + of_nat (free_total cs) = hp_remaining h + of_nat (free_total ds)"
  using assms
proof (induction cs arbitrary: h s)
  case Nil
  then show ?case by (intro exI[of _ "[]"] exI[of _ h] exI[of _ s]) (simp add: kept_def free_ok_simps)
next
  case (Cons c cs)
  have c: "chunk_ok lo' c" "\<forall>d\<in>set cs. before c d" "free_ok lo' cs" using Cons.prems(1) by (auto simp: free_ok_simps)
  have cr: "cend c + 4096 < 2 ^ 32" "span c \<subseteq> used s" using Cons.prems by auto
  define F G where "F = trim_bytes c" and "G = trim_set cs"
  have FG: "F \<subseteq> span c" "G \<subseteq> free_bytes cs" "trim_set (c # cs) = F \<union> G"
    using trim_bytes_span trim_bytes_free by (simp_all add: F_def G_def)
  obtain xs h1 s1 where
    x: "trim_chunk pfree c h s = Some (xs, h1, s1)" "free_ok lo' xs" "free_bytes xs = span c - F" "ok s1" "used s1 = used s - F"
      "kept lo' (span c) h h1" "hp_remaining h1 + snd c = hp_remaining h + of_nat (free_total xs)"
    using trim_chunk_ok[OF c(1) cr(1) Cons.prems(3) cr(2), of h] unfolding F_def[symmetric] by blast
  have dj: "span c \<inter> free_bytes cs = {}" using c(2) by (fastforce simp: free_bytes_def before_def span_cend)
  have p: "free_bytes cs \<subseteq> used s1" "\<forall>c\<in>set cs. cend c + 4096 < 2 ^ 32" using Cons.prems(2,4) x(5) FG(1) dj by auto
  obtain ys h2 s2 where
    y: "trim_loop pfree cs h1 s1 = Some (ys, h2, s2)" "free_ok lo' ys" "free_bytes ys = free_bytes cs - G" "ok s2"
      "used s2 = used s1 - G" "kept lo' (free_bytes cs) h1 h2"
      "hp_remaining h2 + of_nat (free_total cs) = hp_remaining h1 + of_nat (free_total ys)"
    using Cons.IH[OF c(3) p(2) x(4) p(1), of h1] unfolding G_def[symmetric] by blast
  have "before d e" if d: "d \<in> set xs" and e: "e \<in> set ys" for d e
  proof -
    have ok: "chunk_ok lo' d" "chunk_ok lo' e" using d e x(2) y(2) by (auto simp: free_ok_def list_all_iff)
    have "span d \<subseteq> span c" using d x(3) by (auto simp: free_bytes_def)
    then have "cend d \<le> cend c" using chunk_ok_nonempty[OF ok(1)] by (auto simp: span_cend)
    moreover have "unat (fst e) \<in> free_bytes cs" using chunk_ok_nonempty[OF ok(2)] e y(3) by (auto simp: free_bytes_def)
    then obtain b where "b \<in> set cs" "unat (fst e) \<in> span b" by (auto simp: free_bytes_def)
    ultimately show ?thesis using c(2) by (fastforce simp: before_def span_cend)
  qed
  then have fo: "free_ok lo' (xs @ ys)" using x(2) y(2) by (simp add: free_ok_simps)
  have fb: "free_bytes (xs @ ys) = free_bytes (c # cs) - trim_set (c # cs)" unfolding FG(3) using x(3) y(3) FG(1,2) dj by auto
  have "hp_remaining h2 + of_nat (free_total (c # cs)) = (hp_remaining h1 + of_nat (free_total ys)) + snd c"
    using y(7) by (simp add: algebra_simps)
  also have "\<dots> = hp_remaining h + of_nat (free_total (xs @ ys))" using x(7) by (simp add: algebra_simps)
  finally have rm: "hp_remaining h2 + of_nat (free_total (c # cs)) = hp_remaining h + of_nat (free_total (xs @ ys))" .
  have tl: "trim_loop pfree (c # cs) h s = Some (xs @ ys, h2, s2)" using x(1) y(1) by simp
  have k: "kept lo' (free_bytes (c # cs)) h h2" using kept_trans[OF x(6) y(6)] by simp
  have "used s2 = used s - trim_set (c # cs)" unfolding FG(3) using x(5) y(5) by auto
  with tl k fo fb rm y(4) show ?case by blast
qed

text \<open>Trimming gives whole free pages back to the page allocator and nothing else; the live blocks stay.\<close>

lemma miniheap_trim_ok:
  assumes h: "heap_ok h A" "ok s" "heap_bytes h A \<subseteq> used s" and top: "\<forall>c\<in>set (hp_free h). cend c + 4096 < 2 ^ 32"
  shows "\<exists>h' s'. miniheap_trim pfree h s = Some (h', s') \<and> heap_ok h' A \<and>
    free_bytes (hp_free h') = free_bytes (hp_free h) - trim_set (hp_free h) \<and> ok s' \<and> used s' = used s - trim_set (hp_free h) \<and>
    heap_bytes h' A \<subseteq> used s' \<and> (\<forall>p\<in>A. blk h' p = blk h p) \<and> hp_fl_addr h' = hp_fl_addr h"
proof -
  note D = heap_okD[OF h(1)]
  have fu: "free_bytes (hp_free h) \<subseteq> used s" using h(3) by (simp add: heap_bytes_def)
  define F where "F = trim_set (hp_free h)"
  have Fs: "F \<subseteq> free_bytes (hp_free h)" unfolding F_def by (rule trim_bytes_free)
  obtain ds h1 s' where
    t: "trim_loop pfree (hp_free h) h s = Some (ds, h1, s')" "free_ok (unat (hp_fl_addr h)) ds"
      "free_bytes ds = free_bytes (hp_free h) - F" "ok s'" "used s' = used s - F" "kept (unat (hp_fl_addr h)) (free_bytes (hp_free h)) h h1"
      "hp_remaining h1 + of_nat (free_total (hp_free h)) = hp_remaining h + of_nat (free_total ds)"
    using trim_loop_ok[OF D(2) top h(2) fu, of h] unfolding F_def[symmetric] by blast
  define h' where "h' = h1\<lparr>hp_free := ds\<rparr>"
  have tr: "miniheap_trim pfree h s = Some (h', s')" by (simp add: miniheap_trim_def t(1) h'_def)
  have f: "hp_free h' = ds" "hp_as h' = hp_as h1" "hp_remaining h' = hp_remaining h1" "hp_fl_addr h' = hp_fl_addr h"
    using t(6) by (simp_all add: h'_def kept_def)
  have as: "hp_as h' (p - 12) = hp_as h (p - 12)" if "p \<in> A" for p using t(6) D(5,6)[OF that] unfolding kept_def f by blast
  then have bk: "blk h' p = blk h p" if "p \<in> A" for p using that by (simp add: blk_def)
  have "hp_remaining h' = of_nat (free_total ds)" using t(7) D(3) by (simp add: f algebra_simps)
  moreover have "span (blk h p) \<inter> (free_bytes (hp_free h) - F) = {}" if "p \<in> A" for p using D(6)[OF that] by blast
  ultimately have "heap_ok h' A"
    using D(1,4,5,7) t(2) as bk unfolding heap_ok_def f t(3) by auto
  moreover have "span (blk h p) \<inter> F = {}" if "p \<in> A" for p using D(6)[OF that] Fs by blast
  then have "heap_bytes h' A \<subseteq> used s'" using h(3) t(3,5) bk by (auto simp: heap_bytes_def f)
  ultimately show ?thesis using tr t(3-5) bk f unfolding F_def[symmetric] by blast
qed

end

section \<open>The free list is determined by its bytes\<close>

lemma free_head:
  assumes "free_ok lo (c # cs)"
  shows "unat (fst c) \<in> free_bytes (c # cs)" "x \<in> free_bytes (c # cs) \<Longrightarrow> unat (fst c) \<le> x" "cend c \<notin> free_bytes (c # cs)"
    "span c \<inter> free_bytes cs = {}"
proof -
  have c: "chunk_ok lo c" "\<And>d. d \<in> set cs \<Longrightarrow> before c d" using assms by (auto simp: free_ok_simps)
  show "unat (fst c) \<in> free_bytes (c # cs)" using chunk_ok_nonempty[OF c(1)] by simp
  show "unat (fst c) \<le> x" if "x \<in> free_bytes (c # cs)"
    using that c(2) chunk_ok_nonempty[OF c(1)] by (fastforce simp: free_bytes_def span_cend before_def)
  show "cend c \<notin> free_bytes (c # cs)" "span c \<inter> free_bytes cs = {}" using c(2) by (fastforce simp: free_bytes_def span_cend before_def)+
qed

lemma free_canonical:
  assumes "free_ok lo cs" "free_ok lo ds" "free_bytes cs = free_bytes ds"
  shows "cs = ds"
  using assms
proof (induction cs arbitrary: ds)
  case Nil
  then show ?case using free_head(1)[of lo "hd ds" "tl ds"] by (cases ds) auto
next
  case (Cons c cs)
  then obtain d ds' where ds: "ds = d # ds'" using free_head(1)[of lo c cs] by (cases ds) auto
  note C = free_head[OF Cons.prems(1)] and D = free_head[OF Cons.prems(2)[unfolded ds]]
  have eq: "free_bytes (c # cs) = free_bytes (d # ds')" using Cons.prems(3) ds by simp
  have f: "unat (fst c) = unat (fst d)" using C(2)[of "unat (fst d)"] D(2)[of "unat (fst c)"] C(1) D(1) unfolding eq by (simp only: antisym)
  have ok: "unat (fst c) < cend c" "unat (fst d) < cend d"
    using Cons.prems(1,2) ds chunk_ok_nonempty[of lo c] chunk_ok_nonempty[of lo d] by (auto simp: free_ok_simps)
  have "\<not> cend c < cend d"
  proof
    assume "cend c < cend d"
    then have "cend c \<in> span d" using f ok(1) by (simp add: span_cend)
    then show False using C(3) eq by auto
  qed
  moreover have "\<not> cend d < cend c"
  proof
    assume "cend d < cend c"
    then have "cend d \<in> span c" using f ok(2) by (simp add: span_cend)
    then show False using D(3) eq by auto
  qed
  ultimately have "cend c = cend d" by simp
  then have cd: "c = d" using f by (cases c; cases d) (auto simp: cend_def intro: unsigned_word_eqI)
  then have "free_bytes cs = free_bytes ds'" using eq C(4) D(4) by auto
  then have "cs = ds'" using Cons.IH[of ds'] Cons.prems(1,2) ds by (simp add: free_ok_simps)
  then show ?case using cd ds by simp
qed

lemma heap_determined:
  assumes "heap_ok h A" "heap_ok k B" "hp_fl_addr h = hp_fl_addr k" "free_bytes (hp_free h) = free_bytes (hp_free k)"
  shows "hp_free h = hp_free k" "hp_remaining h = hp_remaining k"
proof -
  show "hp_free h = hp_free k" using free_canonical[OF heap_okD(2)[OF assms(1)]] heap_okD(2)[OF assms(2)] assms(3,4) by simp
  then show "hp_remaining h = hp_remaining k" using heap_okD(3)[OF assms(1)] heap_okD(3)[OF assms(2)] by simp
qed

text \<open>Two blocks may be freed in either order.\<close>

lemma free_commutes:
  assumes "heap_ok h A" "p \<in> A" "q \<in> A" "p \<noteq> q"
  shows "\<exists>h1 h2. Option.bind (miniheap_free p h) (miniheap_free q) = Some h1 \<and> Option.bind (miniheap_free q h) (miniheap_free p) = Some h2 \<and>
    hp_free h1 = hp_free h2 \<and> hp_remaining h1 = hp_remaining h2 \<and> heap_ok h1 (A - {p, q})"
proof -
  have two: "\<exists>h1. Option.bind (miniheap_free p h) (miniheap_free q) = Some h1 \<and> heap_ok h1 (A - {p} - {q}) \<and> hp_fl_addr h1 = hp_fl_addr h \<and>
    free_bytes (hp_free h1) = span (blk h q) \<union> (span (blk h p) \<union> free_bytes (hp_free h))" if p: "p \<in> A" and q: "q \<in> A" and "p \<noteq> q" for p q
  proof -
    have q': "q \<in> A - {p}" using that by simp
    obtain k where k: "miniheap_free p h = Some k" "heap_ok k (A - {p})" "free_bytes (hp_free k) = span (blk h p) \<union> free_bytes (hp_free h)"
      "\<forall>q\<in>A - {p}. blk k q = blk h q" "hp_fl_addr k = hp_fl_addr h" using miniheap_free_ok[OF assms(1) p] by blast
    obtain h1 where "miniheap_free q k = Some h1" "heap_ok h1 (A - {p} - {q})" "hp_fl_addr h1 = hp_fl_addr k"
      "free_bytes (hp_free h1) = span (blk k q) \<union> free_bytes (hp_free k)" using miniheap_free_ok[OF k(2) q'] by blast
    then show ?thesis using k q' by auto
  qed
  obtain h1 where h1: "Option.bind (miniheap_free p h) (miniheap_free q) = Some h1" "heap_ok h1 (A - {p} - {q})" "hp_fl_addr h1 = hp_fl_addr h"
    "free_bytes (hp_free h1) = span (blk h q) \<union> (span (blk h p) \<union> free_bytes (hp_free h))" using two[OF assms(2-4)] by blast
  obtain h2 where h2: "Option.bind (miniheap_free q h) (miniheap_free p) = Some h2" "heap_ok h2 (A - {q} - {p})" "hp_fl_addr h2 = hp_fl_addr h"
    "free_bytes (hp_free h2) = span (blk h p) \<union> (span (blk h q) \<union> free_bytes (hp_free h))" using two[OF assms(3,2)] assms(4) by metis
  have "hp_free h1 = hp_free h2" "hp_remaining h1 = hp_remaining h2"
    using heap_determined[OF h1(2) h2(2)] h1(3,4) h2(3,4) by (auto simp: Un_left_commute)
  moreover have "A - {p, q} = A - {p} - {q}" by auto
  ultimately show ?thesis using h1(1,2) h2(1) by auto
qed

context heap_pages
begin

text \<open>Freeing what was just allocated gives the free list back, with the pages that the heap grew by.\<close>

lemma alloc_then_free:
  assumes "heap_ok h A" "heap_bytes h A \<subseteq> used s" "unat (hp_fl_addr h) = lo" "alloc_post n al h A s p h' s'" "p \<noteq> 0"
  shows "\<exists>h''. miniheap_free p h' = Some h'' \<and> heap_ok h'' A \<and> used s \<subseteq> used s' \<and>
    free_bytes (hp_free h'') = free_bytes (hp_free h) \<union> (used s' - used s) \<and>
    (used s' = used s \<longrightarrow> hp_free h'' = hp_free h \<and> hp_remaining h'' = hp_remaining h)"
proof -
  have P: "heap_ok h' (insert p A)" "p \<notin> A" "heap_bytes h' (insert p A) = heap_bytes h A \<union> (used s' - used s)"
    "\<forall>q\<in>A. blk h' q = blk h q" "used s \<subseteq> used s'" "unat (hp_fl_addr h') = lo" using assms(4,5) by (auto simp: alloc_post_def)
  have fl: "hp_fl_addr h' = hp_fl_addr h" using P(6) assms(3) by (simp add: word_unat_eq_iff)
  have pA: "p \<in> insert p A" "insert p A - {p} = A" using P(2) by auto
  obtain h'' where f: "miniheap_free p h' = Some h''" "heap_ok h'' A" "free_bytes (hp_free h'') = span (blk h' p) \<union> free_bytes (hp_free h')"
    "hp_fl_addr h'' = hp_fl_addr h'" using miniheap_free_ok[OF P(1) pA(1)] unfolding pA(2) by blast
  define L where "L = (\<Union>q\<in>A. span (blk h q))"
  have L: "span (blk h q) \<inter> (span (blk h' p) \<union> free_bytes (hp_free h')) = {}" if "q \<in> A" for q
    using heap_okD(6,7)[OF P(1)] that P(2,4) by (metis Int_Un_distrib Un_empty insertCI)
  then have LF: "L \<inter> free_bytes (hp_free h'') = {}" unfolding f(3) L_def by blast
  have Lh: "L \<inter> free_bytes (hp_free h) = {}" using heap_okD(6)[OF assms(1)] unfolding L_def by blast
  have Lu: "L \<subseteq> used s" using assms(2) by (auto simp: heap_bytes_def L_def)
  have "free_bytes (hp_free h'') \<union> L = free_bytes (hp_free h) \<union> L \<union> (used s' - used s)"
    using P(3,4) f(3) by (auto simp: heap_bytes_def L_def)
  then have fb: "free_bytes (hp_free h'') = free_bytes (hp_free h) \<union> (used s' - used s)" using LF Lh Lu by blast
  have "hp_free h'' = hp_free h \<and> hp_remaining h'' = hp_remaining h" if "used s' = used s"
    using heap_determined[OF f(2) assms(1)] fb that f(4) fl by simp
  then show ?thesis using f(1,2) fb P(5) by blast
qed

end

section \<open>The heap on top of the page arenas\<close>

definition novm_above :: "nat \<Rightarrow> novm_arena list \<Rightarrow> bool" where
  "novm_above lo s \<longleftrightarrow> novm_ok s \<and> (\<forall>n\<in>set s. na_pages n \<noteq> 0 \<longrightarrow> lo < unat (na_base n))"

lemma novm_above_layout:
  assumes "list_all2 same_layout s s'" "novm_ok s'" "novm_above lo s"
  shows "novm_above lo s'"
proof -
  have "\<forall>n\<in>set s. na_pages n \<noteq> 0 \<longrightarrow> lo < unat (na_base n)" using assms(3) by (simp add: novm_above_def)
  with assms(1) have "\<forall>n\<in>set s'. na_pages n \<noteq> 0 \<longrightarrow> lo < unat (na_base n)"
    by (induction rule: list_all2_induct) (auto simp: same_layout_def)
  then show ?thesis using assms(2) by (simp add: novm_above_def)
qed

lemma free_pages_layout: "novm_free_pages s p k = Some s' \<Longrightarrow> list_all2 same_layout s s'"
proof (cases "find_arena s p")
  case (Some a)
  assume "novm_free_pages s p k = Some s'"
  then obtain mp where "s' = s[a := (s ! a)\<lparr>na_map := mp\<rparr>]"
    using Some by (auto simp: novm_free_pages_def Let_def split: Option.bind_splits)
  then show ?thesis using find_arena_Some[OF Some] by (auto simp: list_all2_conv_all_nth same_layout_def nth_list_update)
qed (auto simp: novm_free_pages_def list_all2_same same_layout_def)

lemma novm_used_above:
  assumes "novm_above lo s" "a \<in> novm_used s"
  shows "lo < a"
proof -
  obtain n where n: "n \<in> set s" "a \<in> arena_used n" using assms(2) by (auto simp: novm_used_def)
  then have "a \<in> {unat (na_base n)..<arena_end n}" using arena_used_subset by blast
  moreover from this have "na_pages n \<noteq> 0" by (auto simp: arena_end_def)
  ultimately show ?thesis using assms(1) n(1) by (fastforce simp: novm_above_def)
qed

interpretation novm_heap: heap_pages "novm_above lo" novm_used "\<lambda>n. page_alloc n NOVM_ARENA_ANY" page_free lo
  for lo
proof
  fix s :: "novm_arena list" and n p s'
  assume ok: "novm_above lo s" and r: "page_alloc n NOVM_ARENA_ANY s = (p, s')" and p: "p \<noteq> 0"
  have "novm_ok s" using ok by (simp add: novm_above_def)
  moreover have "list_all2 same_layout s s'"
    using alloc_loop_ok[OF \<open>novm_ok s\<close> r[unfolded page_alloc_def novm_alloc_pages_def]] p by blast
  ultimately show "novm_above lo s' \<and> n \<noteq> 0 \<and> 4096 dvd unat p \<and> unat p + 4096 * unat n < 2 ^ 32 \<and>
      novm_used s \<inter> page_bytes p n = {} \<and> novm_used s' = novm_used s \<union> page_bytes p n"
    using novm.palloc_ok[OF \<open>novm_ok s\<close> r p] novm_above_layout ok by blast
next
  fix s :: "novm_arena list" and n s'
  assume "novm_above lo s" "page_alloc n NOVM_ARENA_ANY s = (0, s')"
  then show "s' = s" using novm.palloc_fail by (simp add: novm_above_def)
next
  fix s :: "novm_arena list" and n p
  assume ok: "novm_above lo s" and a: "n \<noteq> 0" "4096 dvd unat p" "page_bytes p n \<subseteq> novm_used s"
  then obtain s' where "page_free p n s = Some s'" "novm_ok s'" "novm_used s' = novm_used s - page_bytes p n"
    using novm.pfree_ok[of s n p] by (auto simp: novm_above_def)
  moreover from this have "novm_above lo s'" using free_pages_layout novm_above_layout ok by (metis page_free_def)
  ultimately show "\<exists>s'. page_free p n s = Some s' \<and> novm_above lo s' \<and> novm_used s' = novm_used s - page_bytes p n" by blast
qed (rule novm_used_above)

end
