(* ===== verification/Mem_Props.thy ===== *)
theory Mem_Props
  imports Miniheap_Pages
begin

text \<open>
  Properties of the memory allocators: the page arenas, and the heap on top of them.
\<close>

section \<open>Page allocator\<close>

text \<open>C35: \<open>page_alloc\<close> on the arenas of \<open>novm.c\<close> returns NULL and changes nothing, or hands out whole pages that
  were not in use, aligned and inside the address space; \<open>page_free\<close> of them succeeds and leaves the same pages in
  use as before.\<close>

theorem page_alloc_free_roundtrip:
  assumes "novm_ok s" "page_alloc n NOVM_ARENA_ANY s = (p, s')"
  shows "(p = 0 \<longrightarrow> s' = s) \<and>
    (p \<noteq> 0 \<longrightarrow> novm_ok s' \<and> 4096 dvd unat p \<and> unat p + 4096 * unat n < 2 ^ 32 \<and> novm_used s \<inter> page_bytes p n = {} \<and>
      novm_used s' = novm_used s \<union> page_bytes p n \<and>
      (\<exists>s''. page_free p n s' = Some s'' \<and> novm_ok s'' \<and> novm_used s'' = novm_used s))"
  using novm.palloc_fail[OF assms(1)] novm.palloc_ok[OF assms] novm.alloc_free[OF assms] assms(2) by metis

text \<open>An arena of four pages at 0x10000, the first of them in use.\<close>

definition demo_arena :: novm_arena where
  "demo_arena = \<lparr>na_name = ''main'', na_pages = 4, na_map = [1, 0, 0, 0], na_map_addr = 0x8000,
  na_base = 0x10000, na_size = 0x4000, na_unaligned_area = 0, na_unaligned_size = 0\<rparr>"

lemma demo_arena_ok: "novm_ok [demo_arena]"
  by (simp add: demo_arena_def novm_ok_def arena_ok_def dvd_eq_mod_eq_0)

theorem page_alloc_free_roundtrip_witness:
  "\<exists>s'. page_alloc 2 NOVM_ARENA_ANY [demo_arena] = (0x11000, s') \<and> novm_ok s' \<and>
    (\<exists>s''. page_free 0x11000 2 s' = Some s'' \<and> novm_used s'' = novm_used [demo_arena])"
proof -
  have "page_alloc 2 NOVM_ARENA_ANY [demo_arena] = (0x11000, [demo_arena\<lparr>na_map := [1, 1, 1, 0]\<rparr>])" by code_simp
  from page_alloc_free_roundtrip[OF demo_arena_ok this] this show ?thesis by auto
qed


text \<open>A region of RAM that contains a whole page becomes an arena in order: its map lies at the start of the
  region and ends before the first page, every page lies inside the region, and none is in use.\<close>

theorem novm_new_arena_inside_region:
  assumes "s \<noteq> 0" "unat s + unat z < 2 ^ 32" "(unat s + 4095) div 4096 * 4096 \<le> (unat s + unat z) div 4096 * 4096"
  shows "\<exists>n'. novm_add_arena [n\<lparr>na_pages := 0\<rparr>] nm s z = Some [n'] \<and> arena_ok n' \<and> na_map_addr n' = s \<and>
    unat s + unat (na_pages n') \<le> unat (na_base n') \<and> arena_end n' \<le> unat s + unat z \<and> set (na_map n') \<subseteq> {0}"
  using novm_init_layout[OF assms, of "n\<lparr>na_pages := 0\<rparr>" nm] by simp

theorem novm_new_arena_inside_region_witness:
  "\<exists>n'. novm_add_arena [demo_arena\<lparr>na_pages := 0\<rparr>] ''main'' 0x10100 0x8000 = Some [n'] \<and> arena_ok n' \<and> arena_end n' \<le> 0x18100"
  using novm_new_arena_inside_region[of "0x10100" "0x8000" demo_arena "''main''"] by auto

section \<open>Heap\<close>

abbreviation (input) "arena_pages \<equiv> (\<lambda>n. page_alloc n NOVM_ARENA_ANY)"

text \<open>C25: \<open>miniheap_alloc\<close> on top of the page arenas ends for every request that does not overflow. It returns
  NULL, or a pointer that is not in use, aligned as asked, with room for the request behind it; the
  heap stays in order, no live block is changed or overlapped, and everything the heap holds is memory that the page
  allocator has handed out.\<close>

theorem miniheap_alloc_fresh:
  assumes "heap_ok h A" "novm_above (unat (hp_fl_addr h)) s" "heap_bytes h A \<subseteq> novm_used s"
    and "al = 0 \<or> unat al = 2 ^ k" "unat n + unat al + 32 < 2 ^ 32"
  shows "\<exists>p h' s'. miniheap_alloc arena_pages n al h s = Some (p, h', s') \<and> novm_above (unat (hp_fl_addr h)) s' \<and>
    heap_ok h' (if p = 0 then A else insert p A) \<and> heap_bytes h' (if p = 0 then A else insert p A) \<subseteq> novm_used s' \<and>
    (\<forall>q\<in>A. blk h' q = blk h q) \<and>
    (p \<noteq> 0 \<longrightarrow> p \<notin> A \<and> unat p + unat n \<le> cend (blk h' p) \<and> (unat al \<noteq> 0 \<longrightarrow> unat al dvd unat p))"
  using novm_heap.miniheap_alloc_ok[OF assms(1-3) refl assms(4,5)] unfolding novm_heap.alloc_post_def by blast

text \<open>An empty heap whose free list head is at 0x100.\<close>

definition demo_heap :: heap where
  "demo_heap = \<lparr>hp_base = 0, hp_len = 0, hp_remaining = 0, hp_low_watermark = 0, hp_free = [], hp_as = Map.empty, hp_fl_addr = 0x100\<rparr>"

lemma demo_heap_ok: "heap_ok demo_heap {}" "heap_bytes demo_heap {} \<subseteq> novm_used [demo_arena]"
  "novm_above (unat (hp_fl_addr demo_heap)) [demo_arena]"
  using demo_arena_ok by (simp_all add: heap_ok_def demo_heap_def free_ok_simps heap_bytes_def novm_above_def demo_arena_def)

theorem miniheap_alloc_fresh_witness:
  "\<exists>p h' s'. miniheap_alloc arena_pages 100 64 demo_heap [demo_arena] = Some (p, h', s') \<and>
    heap_ok h' (if p = 0 then {} else {p}) \<and> (p \<noteq> 0 \<longrightarrow> 64 dvd unat p)"
proof -
  have "unat (64 :: u32) = 2 ^ 6" "unat (100 :: u32) + unat (64 :: u32) + 32 < 2 ^ 32" by simp_all
  with miniheap_alloc_fresh[OF demo_heap_ok(1,3,2), of 64 6 100] show ?thesis by (fastforce split: if_splits)
qed

text \<open>C32: a block that was allocated and is freed again leaves the live blocks as they were; when no page had to be
  added, the free list and the count of free bytes are the ones from before the allocation.\<close>

theorem miniheap_alloc_free_roundtrip:
  assumes "heap_ok h A" "novm_above (unat (hp_fl_addr h)) s" "heap_bytes h A \<subseteq> novm_used s"
    and "al = 0 \<or> unat al = 2 ^ k" "unat n + unat al + 32 < 2 ^ 32"
    and "miniheap_alloc arena_pages n al h s = Some (p, h', s')" "p \<noteq> 0"
  shows "\<exists>h''. miniheap_free p h' = Some h'' \<and> heap_ok h'' A \<and> novm_used s \<subseteq> novm_used s' \<and>
    free_bytes (hp_free h'') = free_bytes (hp_free h) \<union> (novm_used s' - novm_used s) \<and>
    (novm_used s' = novm_used s \<longrightarrow> hp_free h'' = hp_free h \<and> hp_remaining h'' = hp_remaining h)"
  by (rule novm_heap.alloc_then_free[OF assms(1,3) refl]) (use novm_heap.miniheap_alloc_ok[OF assms(1-3) refl assms(4,5)] assms(6,7) in auto)


lemma demo_alloc: "map_option fst (miniheap_alloc arena_pages 100 64 demo_heap [demo_arena]) = Some 0x11040"
  by code_simp

theorem miniheap_alloc_free_roundtrip_witness:
  "\<exists>h' s' h''. miniheap_alloc arena_pages 100 64 demo_heap [demo_arena] = Some (0x11040, h', s') \<and>
    miniheap_free 0x11040 h' = Some h'' \<and> heap_ok h'' {} \<and>
    free_bytes (hp_free h'') = novm_used s' - novm_used [demo_arena]"
proof -
  obtain h' s' where a: "miniheap_alloc arena_pages 100 64 demo_heap [demo_arena] = Some (0x11040, h', s')"
    using demo_alloc by auto
  have "unat (64 :: u32) = 2 ^ 6" "unat (100 :: u32) + unat (64 :: u32) + 32 < 2 ^ 32" by simp_all
  with miniheap_alloc_free_roundtrip[OF demo_heap_ok(1,3,2), of 64 6 100 "0x11040" h' s'] a show ?thesis by (auto simp: demo_heap_def)
qed

text \<open>C33: two live blocks may be freed in either order: both orders succeed and leave the same free list, fully
  coalesced, and the same count of free bytes.\<close>

theorem miniheap_free_any_order:
  assumes "heap_ok h A" "p \<in> A" "q \<in> A" "p \<noteq> q"
  shows "\<exists>h1 h2. Option.bind (miniheap_free p h) (miniheap_free q) = Some h1 \<and> Option.bind (miniheap_free q h) (miniheap_free p) = Some h2 \<and>
    hp_free h1 = hp_free h2 \<and> hp_remaining h1 = hp_remaining h2 \<and> heap_ok h1 (A - {p, q})"
  by (rule free_commutes[OF assms])

text \<open>Three blocks of 32 bytes from 0x10000, the first two live.\<close>

definition demo_heap2 :: heap where
  "demo_heap2 = \<lparr>hp_base = 0x10000, hp_len = 96, hp_remaining = 32, hp_low_watermark = 0, hp_free = [(0x10040, 32)],
     hp_as = [0x10000 \<mapsto> (0x10000, 32), 0x10020 \<mapsto> (0x10020, 32)], hp_fl_addr = 0x100\<rparr>"

lemma demo_heap2_ok: "heap_ok demo_heap2 {0x1000c, 0x1002c}"
proof -
  have b: "blk demo_heap2 0x1000c = (0x10000, 32)" "blk demo_heap2 0x1002c = (0x10020, 32)"
    "hp_as demo_heap2 (0x1000c - 12) \<noteq> None" "hp_as demo_heap2 (0x1002c - 12) \<noteq> None" by (simp_all add: blk_def demo_heap2_def)
  have ok: "block_ok 0x100 0x1000c (0x10000, 32)" "block_ok 0x100 0x1002c (0x10020, 32)" "free_ok 0x100 [(0x10040, 32)]"
    by (simp_all add: block_ok_def chunk_ok_def cend_def free_ok_simps dvd_eq_mod_eq_0)
  have d: "span (0x10000, 32) \<inter> span (0x10020, 32) = {}" "span (0x10000, 32) \<inter> span (0x10040, 32) = {}"
    "span (0x10020, 32) \<inter> span (0x10040, 32) = {}" by (auto simp: span_def)
  have f: "hp_free demo_heap2 = [(0x10040, 32)]" "hp_remaining demo_heap2 = 32" "hp_fl_addr demo_heap2 = 0x100" by (simp_all add: demo_heap2_def)
  show ?thesis unfolding heap_ok_def f using b ok d by (simp add: Int_commute)
qed

theorem miniheap_free_any_order_witness:
  "\<exists>h1 h2. Option.bind (miniheap_free 0x1000c demo_heap2) (miniheap_free 0x1002c) = Some h1 \<and>
     Option.bind (miniheap_free 0x1002c demo_heap2) (miniheap_free 0x1000c) = Some h2 \<and> hp_free h1 = hp_free h2 \<and> heap_ok h1 {}"
  using miniheap_free_any_order[OF demo_heap2_ok, of "0x1000c" "0x1002c"] by auto

text \<open>C34: \<open>miniheap_trim\<close> ends and gives exactly the trimmable pages back to the page allocator, those that lie in a
  free chunk and leave room for a chunk header on either side: they leave the free list, nothing
  else does, and the live blocks and the invariant are kept. (No free chunk
  may reach into the last page of the address space, where rounding up would wrap around.)\<close>

theorem miniheap_trim_returns_free_pages:
  assumes "heap_ok h A" "novm_above (unat (hp_fl_addr h)) s" "heap_bytes h A \<subseteq> novm_used s"
    and "\<forall>c\<in>set (hp_free h). cend c + 4096 < 2 ^ 32"
  shows "\<exists>h' s'. miniheap_trim page_free h s = Some (h', s') \<and> heap_ok h' A \<and>
    free_bytes (hp_free h') = free_bytes (hp_free h) - trim_set (hp_free h) \<and> novm_above (unat (hp_fl_addr h)) s' \<and>
    novm_used s' = novm_used s - trim_set (hp_free h) \<and> heap_bytes h' A \<subseteq> novm_used s' \<and> (\<forall>p\<in>A. blk h' p = blk h p)"
  using novm_heap.miniheap_trim_ok[OF assms] by blast

text \<open>An arena of four pages in use as one free chunk that starts in the middle of the first.\<close>

definition demo_full_arena :: novm_arena where
  "demo_full_arena = demo_arena\<lparr>na_map := [1, 1, 1, 1]\<rparr>"

definition demo_heap3 :: heap where
  "demo_heap3 = \<lparr>hp_base = 0x10000, hp_len = 0x4000, hp_remaining = 0x3800, hp_low_watermark = 0, hp_free = [(0x10800, 0x3800)],
     hp_as = Map.empty, hp_fl_addr = 0x100\<rparr>"

lemma demo_full_used: "novm_used [demo_full_arena] = {0x10000..<0x14000}"
proof -
  have "[1, 1, 1, 1] = replicate 4 (1 :: u8)" by (simp add: numeral_eq_Suc)
  moreover have "(a - 0x10000) div 4096 < (4 :: nat)" if "a < 0x14000" for a using that by (simp add: div_less_iff_less_mult)
  ultimately show ?thesis by (auto simp: novm_used_def arena_used_def arena_end_def demo_full_arena_def demo_arena_def)
qed

lemma demo_heap3_ok: "heap_ok demo_heap3 {}" "novm_above (unat (hp_fl_addr demo_heap3)) [demo_full_arena]"
  "heap_bytes demo_heap3 {} \<subseteq> novm_used [demo_full_arena]" "\<forall>c\<in>set (hp_free demo_heap3). cend c + 4096 < 2 ^ 32"
  unfolding demo_full_used
  by (simp_all add: heap_ok_def demo_heap3_def free_ok_simps chunk_ok_def cend_def span_def heap_bytes_def dvd_eq_mod_eq_0
      novm_above_def novm_ok_def arena_ok_def demo_full_arena_def demo_arena_def)

theorem miniheap_trim_returns_free_pages_witness:
  "\<exists>h' s'. miniheap_trim page_free demo_heap3 [demo_full_arena] = Some (h', s') \<and> heap_ok h' {} \<and>
    novm_used s' = novm_used [demo_full_arena] - trim_bytes (0x10800, 0x3800)"
  using miniheap_trim_returns_free_pages[OF demo_heap3_ok] by (auto simp: demo_heap3_def)

text \<open>A request within twelve bytes of the largest size wraps around when the header is added: it is treated
  like a request for nothing, and gets the smallest block instead of NULL.\<close>

theorem miniheap_alloc_size_wraps:
  assumes "n \<ge> 0xFFFFFFF4"
  shows "miniheap_alloc palloc n 0 h s = miniheap_alloc palloc 0 0 h s"
proof -
  have n: "unat n \<ge> 0xFFFFFFF4" using assms by (simp add: word_le_nat_alt)
  have "unat (n + 12) = unat n + 12 - 2 ^ 32" using n unat32_lt[of n] by (simp add: unat_plus_if')
  then have "n + 12 < 12" using unat32_lt[of n] by (simp add: word_less_nat_alt)
  then show ?thesis by (simp add: miniheap_alloc_def request_size_def)
qed

theorem miniheap_alloc_size_wraps_witness:
  "map_option fst (miniheap_alloc arena_pages 0xFFFFFFF8 0 demo_heap [demo_arena]) = Some 0x1100c"
  unfolding miniheap_alloc_size_wraps[of "0xFFFFFFF8" arena_pages demo_heap "[demo_arena]", simplified]
  by code_simp

end
