(* ===== verification/Bio.thy ===== *)
theory Bio
  imports List_Store
begin

text \<open>
  Block devices: \<^verbatim>\<open>lib/bio/bio.c\<close>, the memory device \<^verbatim>\<open>mem.c\<close> and the subdevices of \<^verbatim>\<open>subdev.c\<close>.
  A function pointer of \<open>struct bdev\<close> is the name of the function it points to. The block hooks of a hardware driver
  are arguments (\<open>bio_driver\<close>), on a state \<open>'w\<close> of their own. A buffer is the list of bytes in it; its
  address is an argument where the code looks at its alignment. \<open>size_t\<close> and \<open>ssize_t\<close> have 32 bits,
  \<open>off_t\<close> has 64 and never overflows for sizes below \<open>2 ^ 62\<close>. Functions that follow the parent of a
  subdevice are partial functions. The list of devices is protected by a mutex throughout.
\<close>

section \<open>State\<close>

record erase_geometry =
  eg_start :: int
  eg_size :: int
  eg_erase_size :: u32
  eg_erase_shift :: u32

datatype byte_hook = BY_default | BY_mem | BY_subdev

datatype block_hook = BL_default | BL_mem | BL_subdev | BL_driver

datatype erase_hook = ER_default | ER_subdev

text \<open>\<open>struct bdev\<close> with the fields that \<open>mem_bdev_t\<close> and \<open>subdev_t\<close> add. \<open>bd_close\<close> is true when the
  hook is \<open>subdev_close\<close> and false when it is null.\<close>

record bdev =
  bd_ref :: int
  bd_name :: string
  bd_total_size :: int
  bd_block_size :: u32
  bd_block_shift :: nat
  bd_block_count :: u32
  bd_geometry :: "erase_geometry list"
  bd_erase_byte :: u8
  bd_flags :: u32
  bd_read :: byte_hook
  bd_read_block :: block_hook
  bd_write :: byte_hook
  bd_write_block :: block_hook
  bd_erase :: erase_hook
  bd_close :: bool
  bd_parent :: "nat option"
  bd_offset :: u32

text \<open>\<open>mem_bytes\<close> is what the memory of a memory device holds.\<close>

record 'w bio_state =
  bdevs :: "(unit, nat) lstore"
  bdev_of :: "nat \<Rightarrow> bdev"
  mem_bytes :: "nat \<Rightarrow> u8 list"
  hw :: 'w

record 'w bio_driver =
  drv_read_block :: "nat \<Rightarrow> u32 \<Rightarrow> u32 \<Rightarrow> 'w \<Rightarrow> int \<times> u8 list \<times> 'w"
  drv_write_block :: "nat \<Rightarrow> u8 list \<Rightarrow> u32 \<Rightarrow> u32 \<Rightarrow> 'w \<Rightarrow> int \<times> 'w"

abbreviation (input) CACHE_LINE :: u32 where "CACHE_LINE \<equiv> 32"
abbreviation (input) BLOCKSIZE :: u32 where "BLOCKSIZE \<equiv> 512"
abbreviation (input) BIO_FLAGS_NONE :: u32 where "BIO_FLAGS_NONE \<equiv> 0"
abbreviation (input) BIO_FLAG_CACHE_ALIGNED_READS :: u32 where "BIO_FLAG_CACHE_ALIGNED_READS \<equiv> 1"
abbreviation (input) BIO_FLAG_CACHE_ALIGNED_WRITES :: u32 where "BIO_FLAG_CACHE_ALIGNED_WRITES \<equiv> 2"

text \<open>The address of a \<open>STACKBUF_DMA_ALIGN\<close> buffer: any aligned one.\<close>

abbreviation (input) TEMP :: u32 where "TEMP \<equiv> CACHE_LINE"

section \<open>Trimming a request to the device\<close>

definition bio_trim_range :: "bdev \<Rightarrow> int \<Rightarrow> u32 \<Rightarrow> u32" where
  "bio_trim_range dev offset len =
    (if offset < 0 then 0
     else if offset \<ge> bd_total_size dev then 0
     else if len = 0 then 0
     else if offset + int (unat len) > bd_total_size dev then of_int (bd_total_size dev - offset)
     else len)"

definition bio_trim_block_range :: "bdev \<Rightarrow> u32 \<Rightarrow> u32 \<Rightarrow> u32" where
  "bio_trim_block_range dev block count =
    (if block > bd_block_count dev then 0
     else if count = 0 then 0
     else if block + count > bd_block_count dev then bd_block_count dev - block
     else count)"

section \<open>Memory devices\<close>

definition mem_bdev_read :: "nat \<Rightarrow> int \<Rightarrow> u32 \<Rightarrow> 'w bio_state \<Rightarrow> (int \<times> u8 list \<times> 'w bio_state) option" where
  "mem_bdev_read d offset len s = do {
     bs \<leftarrow> load_at (nat offset) (unat len) (mem_bytes s d);
     Some (sint len, bs, s) }"

definition mem_bdev_read_block :: "nat \<Rightarrow> u32 \<Rightarrow> u32 \<Rightarrow> 'w bio_state \<Rightarrow> (int \<times> u8 list \<times> 'w bio_state) option" where
  "mem_bdev_read_block d block count s = do {
     bs \<leftarrow> load_at (unat (block * BLOCKSIZE)) (unat (count * BLOCKSIZE)) (mem_bytes s d);
     Some (sint (count * BLOCKSIZE), bs, s) }"

definition mem_bdev_write :: "nat \<Rightarrow> u8 list \<Rightarrow> int \<Rightarrow> u32 \<Rightarrow> 'w bio_state \<Rightarrow> (int \<times> 'w bio_state) option" where
  "mem_bdev_write d buf offset len s = do {
     bs \<leftarrow> load_at 0 (unat len) buf;
     m \<leftarrow> store_at (nat offset) bs (mem_bytes s d);
     Some (sint len, s\<lparr>mem_bytes := (mem_bytes s)(d := m)\<rparr>) }"

definition mem_bdev_write_block :: "nat \<Rightarrow> u8 list \<Rightarrow> u32 \<Rightarrow> u32 \<Rightarrow> 'w bio_state \<Rightarrow> (int \<times> 'w bio_state) option" where
  "mem_bdev_write_block d buf block count s = do {
     bs \<leftarrow> load_at 0 (unat (count * BLOCKSIZE)) buf;
     m \<leftarrow> store_at (unat (block * BLOCKSIZE)) bs (mem_bytes s d);
     Some (sint (count * BLOCKSIZE), s\<lparr>mem_bytes := (mem_bytes s)(d := m)\<rparr>) }"

section \<open>Block access\<close>

text \<open>The hooks other than the one of a subdevice, which calls \<open>bio_read_block\<close> on the parent.\<close>

definition read_block_leaf :: "'w bio_driver \<Rightarrow> nat \<Rightarrow> u32 \<Rightarrow> u32 \<Rightarrow> 'w bio_state \<Rightarrow> (int \<times> u8 list \<times> 'w bio_state) option" where
  "read_block_leaf drv d block count s =
    (case bd_read_block (bdev_of s d) of
       BL_mem \<Rightarrow> mem_bdev_read_block d block count s
     | BL_driver \<Rightarrow> (let (err, bs, w) = drv_read_block drv d block count (hw s) in Some (err, bs, s\<lparr>hw := w\<rparr>))
     | _ \<Rightarrow> Some (ERR_NOT_SUPPORTED, [], s))"

partial_function (option) bio_read_block ::
  "'w bio_driver \<Rightarrow> nat \<Rightarrow> u32 \<Rightarrow> u32 \<Rightarrow> u32 \<Rightarrow> 'w bio_state \<Rightarrow> (int \<times> u8 list \<times> 'w bio_state) option" where
  "bio_read_block drv d buf block count s =
    (if bd_ref (bdev_of s d) > 0 \<and> buf \<noteq> 0 then
       if bio_trim_block_range (bdev_of s d) block count = 0 then Some (0, [], s)
       else if bd_read_block (bdev_of s d) = BL_subdev then
         Option.bind (bd_parent (bdev_of s d)) (\<lambda>p.
           bio_read_block drv p buf (block + bd_offset (bdev_of s d)) (bio_trim_block_range (bdev_of s d) block count) s)
       else read_block_leaf drv d block (bio_trim_block_range (bdev_of s d) block count) s
     else None)"

definition write_block_leaf :: "'w bio_driver \<Rightarrow> nat \<Rightarrow> u8 list \<Rightarrow> u32 \<Rightarrow> u32 \<Rightarrow> 'w bio_state \<Rightarrow> (int \<times> 'w bio_state) option" where
  "write_block_leaf drv d buf block count s =
    (case bd_write_block (bdev_of s d) of
       BL_mem \<Rightarrow> mem_bdev_write_block d buf block count s
     | BL_driver \<Rightarrow> (let (err, w) = drv_write_block drv d buf block count (hw s) in Some (err, s\<lparr>hw := w\<rparr>))
     | _ \<Rightarrow> Some (ERR_NOT_SUPPORTED, s))"

partial_function (option) bio_write_block ::
  "'w bio_driver \<Rightarrow> nat \<Rightarrow> u8 list \<Rightarrow> u32 \<Rightarrow> u32 \<Rightarrow> u32 \<Rightarrow> 'w bio_state \<Rightarrow> (int \<times> 'w bio_state) option" where
  "bio_write_block drv d data buf block count s =
    (if bd_ref (bdev_of s d) > 0 \<and> buf \<noteq> 0 then
       if bio_trim_block_range (bdev_of s d) block count = 0 then Some (0, s)
       else if bd_write_block (bdev_of s d) = BL_subdev then
         Option.bind (bd_parent (bdev_of s d)) (\<lambda>p.
           bio_write_block drv p data buf (block + bd_offset (bdev_of s d)) (bio_trim_block_range (bdev_of s d) block count) s)
       else write_block_leaf drv d data block (bio_trim_block_range (bdev_of s d) block count) s
     else None)"

declare bio_read_block.simps [code] bio_write_block.simps [code]

section \<open>Byte access by the block hooks\<close>

text \<open>The test after every block transfer: the error to return, if any.\<close>

definition io_err :: "int \<Rightarrow> u32 \<Rightarrow> int option" where
  "io_err err expected = (if err < 0 then Some err else if of_int err \<noteq> expected then Some ERR_IO else None)"

definition IS_ALIGNED :: "u32 \<Rightarrow> u32 \<Rightarrow> bool" where
  "IS_ALIGNED a b \<longleftrightarrow> a AND (b - 1) = 0"

text \<open>\<open>bio_default_read\<close>: the position is the buffer address, the block, the length that is left and
  the bytes stored so far. An error leaves the function through \<open>Inl\<close>, with what has been stored.\<close>

type_synonym rd_pos = "u32 \<times> u32 \<times> u32 \<times> u8 list"

definition default_read_first ::
  "'w bio_driver \<Rightarrow> nat \<Rightarrow> u32 \<Rightarrow> int \<Rightarrow> u32 \<Rightarrow> 'w bio_state \<Rightarrow> ((int \<times> u8 list + rd_pos) \<times> 'w bio_state) option" where
  "default_read_first drv d buf offset len s =
    (let bs = bd_block_size (bdev_of s d);
         block = of_int (offset div int (unat bs))
     in if offset mod int (unat bs) \<noteq> 0 then do {
          (err, temp, s) \<leftarrow> bio_read_block drv d TEMP block 1 s;
          case io_err err bs of
            Some e \<Rightarrow> Some (Inl (e, []), s)
          | None \<Rightarrow> do {
              let block_offset = of_int (offset mod int (unat bs));
              let tocopy = min (bs - block_offset) len;
              bytes \<leftarrow> load_at (unat block_offset) (unat tocopy) temp;
              Some (Inr (buf + tocopy, block + 1, len - tocopy, bytes), s) } }
        else Some (Inr (buf, block, len, []), s))"

partial_function (option) default_read_middle ::
  "'w bio_driver \<Rightarrow> nat \<Rightarrow> u32 \<Rightarrow> u32 \<Rightarrow> u32 \<Rightarrow> u8 list \<Rightarrow> 'w bio_state \<Rightarrow> ((int \<times> u8 list + rd_pos) \<times> 'w bio_state) option" where
  "default_read_middle drv d buf block len out s =
    (if len \<ge> bd_block_size (bdev_of s d) then
       Option.bind (bio_read_block drv d TEMP block 1 s) (\<lambda>r.
         if io_err (fst r) (bd_block_size (bdev_of s d)) \<noteq> None
         then Some (Inl (the (io_err (fst r) (bd_block_size (bdev_of s d))), out), snd (snd r))
         else Option.bind (load_at 0 (unat (bd_block_size (bdev_of s d))) (fst (snd r))) (\<lambda>bytes.
           default_read_middle drv d (buf + bd_block_size (bdev_of s d)) (block + 1) (len - bd_block_size (bdev_of s d))
             (out @ bytes) (snd (snd r))))
     else Some (Inr (buf, block, len, out), s))"

declare default_read_middle.simps [code]

definition default_read_blocks ::
  "'w bio_driver \<Rightarrow> nat \<Rightarrow> rd_pos \<Rightarrow> 'w bio_state \<Rightarrow> ((int \<times> u8 list + rd_pos) \<times> 'w bio_state) option" where
  "default_read_blocks drv d pos s =
    (let (buf, block, len, out) = pos;
         dev = bdev_of s d;
         requires_alignment = (bd_flags dev AND BIO_FLAG_CACHE_ALIGNED_READS \<noteq> 0 \<and> \<not> IS_ALIGNED buf CACHE_LINE)
     in if requires_alignment then default_read_middle drv d buf block len out s
        else do {
          let num_blocks = divpow2 len (bd_block_shift dev);
          (err, data, s) \<leftarrow> bio_read_block drv d buf block num_blocks s;
          case io_err err (bd_block_size dev * num_blocks) of
            Some e \<Rightarrow> Some (Inl (e, out), s)
          | None \<Rightarrow> do {
              bytes \<leftarrow> load_at 0 (nat err) data;
              Some (Inr (buf + of_int err, block + num_blocks, len - of_int err, out @ bytes), s) } })"

definition default_read_last ::
  "'w bio_driver \<Rightarrow> nat \<Rightarrow> rd_pos \<Rightarrow> 'w bio_state \<Rightarrow> (int \<times> u8 list \<times> 'w bio_state) option" where
  "default_read_last drv d pos s =
    (let (buf, block, len, out) = pos
     in if len > 0 then do {
          (err, temp, s) \<leftarrow> bio_read_block drv d TEMP block 1 s;
          case io_err err (bd_block_size (bdev_of s d)) of
            Some e \<Rightarrow> Some (e, out, s)
          | None \<Rightarrow> do {
              bytes \<leftarrow> load_at 0 (unat len) temp;
              Some (int (length (out @ bytes)), out @ bytes, s) } }
        else Some (int (length out), out, s))"

definition bio_default_read ::
  "'w bio_driver \<Rightarrow> nat \<Rightarrow> u32 \<Rightarrow> int \<Rightarrow> u32 \<Rightarrow> 'w bio_state \<Rightarrow> (int \<times> u8 list \<times> 'w bio_state) option" where
  "bio_default_read drv d buf offset len s = do {
     (r, s) \<leftarrow> default_read_first drv d buf offset len s;
     case r of
       Inl (e, out) \<Rightarrow> Some (e, out, s)
     | Inr pos \<Rightarrow> do {
         (r, s) \<leftarrow> default_read_blocks drv d pos s;
         case r of
           Inl (e, out) \<Rightarrow> Some (e, out, s)
         | Inr pos \<Rightarrow> default_read_last drv d pos s } }"

text \<open>\<open>bio_default_write\<close>, in the same way: the position holds the bytes of the buffer that are still to be
  written and the count of those that have been.\<close>

type_synonym wr_pos = "u32 \<times> u32 \<times> u32 \<times> u8 list \<times> int"

definition default_write_first ::
  "'w bio_driver \<Rightarrow> nat \<Rightarrow> u8 list \<Rightarrow> u32 \<Rightarrow> int \<Rightarrow> u32 \<Rightarrow> 'w bio_state \<Rightarrow> ((int + wr_pos) \<times> 'w bio_state) option" where
  "default_write_first drv d data buf offset len s =
    (let bs = bd_block_size (bdev_of s d);
         block = of_int (offset div int (unat bs))
     in if offset mod int (unat bs) \<noteq> 0 then do {
          (err, temp, s) \<leftarrow> bio_read_block drv d TEMP block 1 s;
          case io_err err bs of
            Some e \<Rightarrow> Some (Inl e, s)
          | None \<Rightarrow> do {
              let block_offset = of_int (offset mod int (unat bs));
              let tocopy = min (bs - block_offset) len;
              bytes \<leftarrow> load_at 0 (unat tocopy) data;
              temp \<leftarrow> store_at (unat block_offset) bytes temp;
              (err, s) \<leftarrow> bio_write_block drv d temp TEMP block 1 s;
              case io_err err bs of
                Some e \<Rightarrow> Some (Inl e, s)
              | None \<Rightarrow> Some (Inr (buf + tocopy, block + 1, len - tocopy, drop (unat tocopy) data, int (unat tocopy)), s) } }
        else Some (Inr (buf, block, len, data, 0), s))"

partial_function (option) default_write_middle ::
  "'w bio_driver \<Rightarrow> nat \<Rightarrow> u32 \<Rightarrow> u32 \<Rightarrow> u32 \<Rightarrow> u8 list \<Rightarrow> int \<Rightarrow> 'w bio_state \<Rightarrow> ((int + wr_pos) \<times> 'w bio_state) option" where
  "default_write_middle drv d buf block len data written s =
    (if len \<ge> bd_block_size (bdev_of s d) then
       Option.bind (load_at 0 (unat (bd_block_size (bdev_of s d))) data) (\<lambda>temp.
         Option.bind (bio_write_block drv d temp TEMP block 1 s) (\<lambda>r.
           if io_err (fst r) (bd_block_size (bdev_of s d)) \<noteq> None
           then Some (Inl (the (io_err (fst r) (bd_block_size (bdev_of s d)))), snd r)
           else default_write_middle drv d (buf + bd_block_size (bdev_of s d)) (block + 1) (len - bd_block_size (bdev_of s d))
             (drop (unat (bd_block_size (bdev_of s d))) data) (written + int (unat (bd_block_size (bdev_of s d)))) (snd r)))
     else Some (Inr (buf, block, len, data, written), s))"

declare default_write_middle.simps [code]

definition default_write_blocks ::
  "'w bio_driver \<Rightarrow> nat \<Rightarrow> wr_pos \<Rightarrow> 'w bio_state \<Rightarrow> ((int + wr_pos) \<times> 'w bio_state) option" where
  "default_write_blocks drv d pos s =
    (let (buf, block, len, data, written) = pos;
         dev = bdev_of s d;
         requires_alignment = (bd_flags dev AND BIO_FLAG_CACHE_ALIGNED_WRITES \<noteq> 0 \<and> \<not> IS_ALIGNED buf CACHE_LINE)
     in if requires_alignment then default_write_middle drv d buf block len data written s
        else do {
          let block_count = divpow2 len (bd_block_shift dev);
          (err, s) \<leftarrow> bio_write_block drv d data buf block block_count s;
          case io_err err (bd_block_size dev * block_count) of
            Some e \<Rightarrow> Some (Inl e, s)
          | None \<Rightarrow> do {
              DEBUG_ASSERT (of_int err = block_count * bd_block_size dev);
              Some (Inr (buf + of_int err, block + block_count, len - of_int err, drop (nat err) data, written + err), s) } })"

definition default_write_last ::
  "'w bio_driver \<Rightarrow> nat \<Rightarrow> wr_pos \<Rightarrow> 'w bio_state \<Rightarrow> (int \<times> 'w bio_state) option" where
  "default_write_last drv d pos s =
    (let (buf, block, len, data, written) = pos
     in if len > 0 then do {
          (err, temp, s) \<leftarrow> bio_read_block drv d TEMP block 1 s;
          case io_err err (bd_block_size (bdev_of s d)) of
            Some e \<Rightarrow> Some (e, s)
          | None \<Rightarrow> do {
              bytes \<leftarrow> load_at 0 (unat len) data;
              temp \<leftarrow> store_at 0 bytes temp;
              (err, s) \<leftarrow> bio_write_block drv d temp TEMP block 1 s;
              case io_err err (bd_block_size (bdev_of s d)) of
                Some e \<Rightarrow> Some (e, s)
              | None \<Rightarrow> Some (written + int (unat len), s) } }
        else Some (written, s))"

definition bio_default_write ::
  "'w bio_driver \<Rightarrow> nat \<Rightarrow> u8 list \<Rightarrow> u32 \<Rightarrow> int \<Rightarrow> u32 \<Rightarrow> 'w bio_state \<Rightarrow> (int \<times> 'w bio_state) option" where
  "bio_default_write drv d data buf offset len s = do {
     (r, s) \<leftarrow> default_write_first drv d data buf offset len s;
     case r of
       Inl e \<Rightarrow> Some (e, s)
     | Inr pos \<Rightarrow> do {
         (r, s) \<leftarrow> default_write_blocks drv d pos s;
         case r of
           Inl e \<Rightarrow> Some (e, s)
         | Inr pos \<Rightarrow> default_write_last drv d pos s } }"

section \<open>Byte access\<close>

text \<open>A subdevice adds its offset, computed in 32 bits, and goes on at its parent.\<close>

definition subdev_offset :: "bdev \<Rightarrow> int \<Rightarrow> int" where
  "subdev_offset dev offset = offset + int (unat (bd_offset dev * bd_block_size dev))"

partial_function (option) bio_read ::
  "'w bio_driver \<Rightarrow> nat \<Rightarrow> u32 \<Rightarrow> int \<Rightarrow> u32 \<Rightarrow> 'w bio_state \<Rightarrow> (int \<times> u8 list \<times> 'w bio_state) option" where
  "bio_read drv d buf offset len s =
    (if bd_ref (bdev_of s d) > 0 \<and> buf \<noteq> 0 then
       if bio_trim_range (bdev_of s d) offset len = 0 then Some (0, [], s)
       else if bd_read (bdev_of s d) = BY_subdev then
         Option.bind (bd_parent (bdev_of s d)) (\<lambda>p.
           bio_read drv p buf (subdev_offset (bdev_of s d) offset) (bio_trim_range (bdev_of s d) offset len) s)
       else if bd_read (bdev_of s d) = BY_mem then mem_bdev_read d offset (bio_trim_range (bdev_of s d) offset len) s
       else bio_default_read drv d buf offset (bio_trim_range (bdev_of s d) offset len) s
     else None)"

partial_function (option) bio_write ::
  "'w bio_driver \<Rightarrow> nat \<Rightarrow> u8 list \<Rightarrow> u32 \<Rightarrow> int \<Rightarrow> u32 \<Rightarrow> 'w bio_state \<Rightarrow> (int \<times> 'w bio_state) option" where
  "bio_write drv d data buf offset len s =
    (if bd_ref (bdev_of s d) > 0 \<and> buf \<noteq> 0 then
       if bio_trim_range (bdev_of s d) offset len = 0 then Some (0, s)
       else if bd_write (bdev_of s d) = BY_subdev then
         Option.bind (bd_parent (bdev_of s d)) (\<lambda>p.
           bio_write drv p data buf (subdev_offset (bdev_of s d) offset) (bio_trim_range (bdev_of s d) offset len) s)
       else if bd_write (bdev_of s d) = BY_mem then mem_bdev_write d data offset (bio_trim_range (bdev_of s d) offset len) s
       else bio_default_write drv d data buf offset (bio_trim_range (bdev_of s d) offset len) s
     else None)"

declare bio_read.simps [code] bio_write.simps [code]

text \<open>The loop of \<open>bio_default_erase\<close>. A count of bytes written is at most what was asked for, so the
  remaining length shrinks or the loop ends.\<close>

partial_function (option) default_erase_loop ::
  "'w bio_driver \<Rightarrow> nat \<Rightarrow> u8 list \<Rightarrow> int \<Rightarrow> u32 \<Rightarrow> int \<Rightarrow> 'w bio_state \<Rightarrow> (int \<times> 'w bio_state) option" where
  "default_erase_loop drv d erase_buf pos remaining erased s =
    (if remaining > 0 then
       Option.bind (bio_write drv d erase_buf TEMP pos (min remaining (bd_block_size (bdev_of s d))) s) (\<lambda>r.
         if fst r < 0 then Some (fst r, snd r)
         else if of_int (fst r) < min remaining (bd_block_size (bdev_of s d)) then Some (erased + fst r, snd r)
         else default_erase_loop drv d erase_buf (pos + fst r) (remaining - of_int (fst r)) (erased + fst r) (snd r))
     else Some (erased, s))"

declare default_erase_loop.simps [code]

definition bio_default_erase :: "'w bio_driver \<Rightarrow> nat \<Rightarrow> int \<Rightarrow> u32 \<Rightarrow> 'w bio_state \<Rightarrow> (int \<times> 'w bio_state) option" where
  "bio_default_erase drv d offset len s =
    default_erase_loop drv d (replicate (unat (bd_block_size (bdev_of s d))) (bd_erase_byte (bdev_of s d))) offset len 0 s"

partial_function (option) bio_erase ::
  "'w bio_driver \<Rightarrow> nat \<Rightarrow> int \<Rightarrow> u32 \<Rightarrow> 'w bio_state \<Rightarrow> (int \<times> 'w bio_state) option" where
  "bio_erase drv d offset len s =
    (if bd_ref (bdev_of s d) > 0 then
       if bio_trim_range (bdev_of s d) offset len = 0 then Some (0, s)
       else if bd_erase (bdev_of s d) = ER_subdev then
         Option.bind (bd_parent (bdev_of s d)) (\<lambda>p.
           bio_erase drv p (subdev_offset (bdev_of s d) offset) (bio_trim_range (bdev_of s d) offset len) s)
       else bio_default_erase drv d offset (bio_trim_range (bdev_of s d) offset len) s
     else None)"

declare bio_erase.simps [code]

section \<open>The registry\<close>

definition upd_bdev :: "nat \<Rightarrow> (bdev \<Rightarrow> bdev) \<Rightarrow> 'w bio_state \<Rightarrow> 'w bio_state" where
  "upd_bdev d f s = s\<lparr>bdev_of := (bdev_of s)(d := f (bdev_of s d))\<rparr>"

definition bdev_inc_ref :: "nat \<Rightarrow> 'w bio_state \<Rightarrow> 'w bio_state" where
  "bdev_inc_ref d s = upd_bdev d (\<lambda>b. b\<lparr>bd_ref := bd_ref b + 1\<rparr>) s"

text \<open>\<open>subdev_close\<close> drops the reference to the parent, which may close it in turn.\<close>

partial_function (option) bdev_dec_ref :: "nat \<Rightarrow> 'w bio_state \<Rightarrow> 'w bio_state option" where
  "bdev_dec_ref d s =
    (if bd_ref (bdev_of s d) = 1 then
       if \<not> ls_in_list d (bdevs s) then
         if bd_close (bdev_of s d) then
           Option.bind (bd_parent (bdev_of s d)) (\<lambda>p.
             Option.bind (bdev_dec_ref p (upd_bdev d (\<lambda>b. b\<lparr>bd_ref := bd_ref b - 1\<rparr>) s)) (\<lambda>s.
               Some (upd_bdev d (\<lambda>b. b\<lparr>bd_parent := None, bd_name := []\<rparr>) s)))
         else Some (upd_bdev d (\<lambda>b. b\<lparr>bd_ref := bd_ref b - 1, bd_name := []\<rparr>) s)
       else None
     else Some (upd_bdev d (\<lambda>b. b\<lparr>bd_ref := bd_ref b - 1\<rparr>) s))"

declare bdev_dec_ref.simps [code]

text \<open>The walk of \<open>bio_open\<close> asserts that every device it passes is referenced.\<close>

fun open_walk :: "string \<Rightarrow> (nat \<Rightarrow> bdev) \<Rightarrow> nat list \<Rightarrow> nat option option" where
  "open_walk nm devs [] = Some None"
| "open_walk nm devs (d # ds) = do {
     DEBUG_ASSERT (bd_ref (devs d) > 0);
     if bd_name (devs d) = nm then Some (Some d) else open_walk nm devs ds }"

definition bio_open :: "string \<Rightarrow> 'w bio_state \<Rightarrow> (nat option \<times> 'w bio_state) option" where
  "bio_open nm s = do {
     r \<leftarrow> open_walk nm (bdev_of s) (lcont (bdevs s) ());
     Some (r, case r of None \<Rightarrow> s | Some d \<Rightarrow> bdev_inc_ref d s) }"

definition bio_close :: "nat \<Rightarrow> 'w bio_state \<Rightarrow> 'w bio_state option" where
  "bio_close d s = bdev_dec_ref d s"

text \<open>No driver of this library sets the \<open>ioctl\<close> hook. Clearing the node of a device that is on the list
  would break the list.\<close>

definition bio_initialize_bdev :: "nat \<Rightarrow> string \<Rightarrow> u32 \<Rightarrow> u32 \<Rightarrow> erase_geometry list \<Rightarrow> u32 \<Rightarrow> 'w bio_state \<Rightarrow> 'w bio_state option" where
  "bio_initialize_bdev d nm block_size block_count geometry flags s = do {
     DEBUG_ASSERT (block_size \<noteq> 0 \<and> ispow2 block_size);
     if ls_in_list d (bdevs s) then None else
     Some (upd_bdev d (\<lambda>b. b\<lparr>
         bd_name := nm,
         bd_block_size := block_size,
         bd_block_count := block_count,
         bd_block_shift := log2_uint block_size,
         bd_total_size := int (unat block_count) * 2 ^ log2_uint block_size,
         bd_geometry := geometry,
         bd_erase_byte := 0,
         bd_ref := 0,
         bd_flags := flags,
         bd_read := BY_default,
         bd_read_block := BL_default,
         bd_write := BY_default,
         bd_write_block := BL_default,
         bd_erase := ER_default,
         bd_close := False\<rparr>) s) }"

definition bio_register_device :: "nat \<Rightarrow> 'w bio_state \<Rightarrow> 'w bio_state option" where
  "bio_register_device d s = do {
     let s = bdev_inc_ref d s;
     l \<leftarrow> ls_add_tail () d (bdevs s);
     Some (s\<lparr>bdevs := l\<rparr>) }"

definition bio_unregister_device :: "nat \<Rightarrow> 'w bio_state \<Rightarrow> 'w bio_state option" where
  "bio_unregister_device d s = do {
     l \<leftarrow> ls_delete d (bdevs s);
     bdev_dec_ref d (s\<lparr>bdevs := l\<rparr>) }"

text \<open>\<open>create_membdev\<close> for the memory \<open>m\<close> and the new object \<open>d\<close>.\<close>

definition create_membdev :: "nat \<Rightarrow> string \<Rightarrow> u8 list \<Rightarrow> u32 \<Rightarrow> 'w bio_state \<Rightarrow> (int \<times> 'w bio_state) option" where
  "create_membdev d nm m len s = do {
     s \<leftarrow> bio_initialize_bdev d nm BLOCKSIZE (len div BLOCKSIZE) [] BIO_FLAGS_NONE s;
     let s = upd_bdev d (\<lambda>b. b\<lparr>bd_read := BY_mem, bd_read_block := BL_mem, bd_write := BY_mem, bd_write_block := BL_mem\<rparr>)
       (s\<lparr>mem_bytes := (mem_bytes s)(d := m)\<rparr>);
     s \<leftarrow> bio_register_device d s;
     Some (0, s) }"

section \<open>Subdevices\<close>

definition bio_contains_range :: "u64 \<Rightarrow> u64 \<Rightarrow> u64 \<Rightarrow> u64 \<Rightarrow> bool option" where
  "bio_contains_range container_start container_len contained_start contained_len = do {
     let container_end = container_start + container_len;
     let contained_end = contained_start + contained_len;
     DEBUG_ASSERT (container_end \<ge> container_start);
     DEBUG_ASSERT (contained_end \<ge> contained_start);
     Some (container_start \<le> contained_start \<and> container_end \<ge> contained_end) }"

text \<open>The search for the erase region: when none contains the range, \<open>geo\<close> is the last one.\<close>

fun find_geometry :: "u64 \<Rightarrow> u64 \<Rightarrow> erase_geometry \<Rightarrow> erase_geometry list \<Rightarrow> erase_geometry option" where
  "find_geometry byte_start byte_size geo [] = Some geo"
| "find_geometry byte_start byte_size geo (g # gs) = do {
     c \<leftarrow> bio_contains_range (of_int (eg_start g)) (of_int (eg_size g)) byte_start byte_size;
     if c then Some g else find_geometry byte_start byte_size g gs }"

text \<open>The geometry of the subdevice, or an error.\<close>

definition subdev_geometry :: "bdev \<Rightarrow> u32 \<Rightarrow> u32 \<Rightarrow> (int + erase_geometry list) option" where
  "subdev_geometry parent startblock block_count =
    (case bd_geometry parent of
       g # gs \<Rightarrow> do {
         let byte_start = push_bit (bd_block_shift parent) (ucast startblock :: u64);
         let byte_size = push_bit (bd_block_shift parent) (ucast block_count :: u64);
         geo \<leftarrow> find_geometry byte_start byte_size g (g # gs);
         let erase_mask = push_bit (unat (eg_erase_shift geo)) 1 - 1;
         if byte_start AND erase_mask \<noteq> 0 \<or> byte_size AND erase_mask \<noteq> 0 then Some (Inl ERR_INVALID_ARGS)
         else Some (Inr [\<lparr>eg_start = 0, eg_size = uint byte_size, eg_erase_size = eg_erase_size geo, eg_erase_shift = eg_erase_shift geo\<rparr>]) }
     | [] \<Rightarrow>
         let endblock = startblock + block_count
         in if endblock < startblock \<or> endblock > bd_block_count parent then Some (Inl ERR_INVALID_ARGS) else Some (Inr []))"

text \<open>\<open>mallocd\<close> is the object that \<open>malloc\<close> returns, if any.\<close>

definition bio_publish_subdevice ::
  "nat option \<Rightarrow> string \<Rightarrow> string \<Rightarrow> u32 \<Rightarrow> u32 \<Rightarrow> 'w bio_state \<Rightarrow> (int \<times> 'w bio_state) option" where
  "bio_publish_subdevice mallocd parent_dev subdev startblock block_count s = do {
     (r, s) \<leftarrow> bio_open parent_dev s;
     case r of
       None \<Rightarrow> Some (ERR_NOT_FOUND, s)
     | Some parent \<Rightarrow>
         (case mallocd of
            None \<Rightarrow> do { s \<leftarrow> bio_close parent s; Some (ERR_NO_MEMORY, s) }
          | Some d \<Rightarrow> do {
              g \<leftarrow> subdev_geometry (bdev_of s parent) startblock block_count;
              case g of
                Inl err \<Rightarrow> do { s \<leftarrow> bio_close parent s; Some (err, s) }
              | Inr geometry \<Rightarrow> do {
                  s \<leftarrow> bio_initialize_bdev d subdev (bd_block_size (bdev_of s parent)) block_count geometry BIO_FLAGS_NONE s;
                  let s = upd_bdev d (\<lambda>b. b\<lparr>bd_parent := Some parent, bd_offset := startblock, bd_read := BY_subdev,
                    bd_read_block := BL_subdev, bd_write := BY_subdev, bd_write_block := BL_subdev, bd_erase := ER_subdev,
                    bd_close := True\<rparr>) s;
                  s \<leftarrow> bio_register_device d s;
                  Some (NO_ERROR, s) } }) }"

end
