(* ===== verification/Bio_Inv.thy ===== *)
theory Bio_Inv
  imports Bio
begin

text \<open>
  What a block device holds, and that every way to read or write it agrees with that: through the block
  hooks or the byte hooks, directly or through any number of subdevices.
\<close>

section \<open>What a device holds\<close>

text \<open>\<open>dbytes\<close> and \<open>dbs\<close> say what the devices of hardware drivers hold, and the sizes of their blocks.\<close>

definition geom_ok :: "bdev \<Rightarrow> u8 list \<Rightarrow> bool" where
  "geom_ok b xs \<longleftrightarrow> bd_ref b > 0 \<and> unat (bd_block_size b) = 2 ^ bd_block_shift b \<and> bd_block_shift b < 31 \<and>
     bd_total_size b = int (length xs) \<and> length xs = unat (bd_block_count b) * unat (bd_block_size b)"

inductive dev_holds :: "(nat \<Rightarrow> 'w \<Rightarrow> u8 list) \<Rightarrow> (nat \<Rightarrow> nat) \<Rightarrow> 'w bio_state \<Rightarrow> nat \<Rightarrow> u8 list \<Rightarrow> bool"
  for dbytes dbs where
  holds_mem: "geom_ok (bdev_of s d) xs \<Longrightarrow> bd_read (bdev_of s d) = BY_mem \<Longrightarrow> bd_write (bdev_of s d) = BY_mem \<Longrightarrow>
    bd_read_block (bdev_of s d) = BL_mem \<Longrightarrow> bd_write_block (bdev_of s d) = BL_mem \<Longrightarrow> bd_block_size (bdev_of s d) = 512 \<Longrightarrow>
    length (mem_bytes s d) < 2 ^ 32 \<Longrightarrow> length xs \<le> length (mem_bytes s d) \<Longrightarrow> xs = take (length xs) (mem_bytes s d) \<Longrightarrow> dev_holds dbytes dbs s d xs"
| holds_driver: "geom_ok (bdev_of s d) xs \<Longrightarrow> bd_read (bdev_of s d) = BY_default \<Longrightarrow> bd_write (bdev_of s d) = BY_default \<Longrightarrow>
    bd_read_block (bdev_of s d) = BL_driver \<Longrightarrow> bd_write_block (bdev_of s d) = BL_driver \<Longrightarrow> unat (bd_block_size (bdev_of s d)) = dbs d \<Longrightarrow>
    xs = dbytes d (hw s) \<Longrightarrow> dev_holds dbytes dbs s d xs"
| holds_sub: "dev_holds dbytes dbs s p ys \<Longrightarrow> geom_ok (bdev_of s d) xs \<Longrightarrow> bd_read (bdev_of s d) = BY_subdev \<Longrightarrow> bd_write (bdev_of s d) = BY_subdev \<Longrightarrow>
    bd_read_block (bdev_of s d) = BL_subdev \<Longrightarrow> bd_write_block (bdev_of s d) = BL_subdev \<Longrightarrow> bd_parent (bdev_of s d) = Some p \<Longrightarrow>
    bd_block_size (bdev_of s d) = bd_block_size (bdev_of s p) \<Longrightarrow>
    unat (bd_offset (bdev_of s d)) + unat (bd_block_count (bdev_of s d)) \<le> unat (bd_block_count (bdev_of s p)) \<Longrightarrow>
    unat (bd_offset (bdev_of s d)) * unat (bd_block_size (bdev_of s d)) < 2 ^ 32 \<Longrightarrow>
    xs = take (length xs) (drop (unat (bd_offset (bdev_of s d)) * unat (bd_block_size (bdev_of s d))) ys) \<Longrightarrow> dev_holds dbytes dbs s d xs"

lemma holds_geom: "dev_holds dbytes dbs s d xs \<Longrightarrow> geom_ok (bdev_of s d) xs"
  by (cases rule: dev_holds.cases) auto

text \<open>A state in which all devices hold the same bytes.\<close>

definition same_bytes :: "(nat \<Rightarrow> 'w \<Rightarrow> u8 list) \<Rightarrow> 'w bio_state \<Rightarrow> 'w bio_state \<Rightarrow> bool" where
  "same_bytes dbytes s s' \<longleftrightarrow> bdev_of s' = bdev_of s \<and> bdevs s' = bdevs s \<and> mem_bytes s' = mem_bytes s \<and> (\<forall>d. dbytes d (hw s') = dbytes d (hw s))"

section \<open>Drivers\<close>

text \<open>What the block hooks of a driver promise for a request inside the device: \<open>dbytes\<close> is what a device holds, \<open>dbs\<close>
  its block size.\<close>

locale bio_drivers =
  fixes drv :: "'w bio_driver"
    and dbytes :: "nat \<Rightarrow> 'w \<Rightarrow> u8 list"
    and dbs :: "nat \<Rightarrow> nat"
  assumes drv_read: "(unat b + unat c) * dbs d \<le> length (dbytes d w) \<Longrightarrow> unat c * dbs d < 2 ^ 31 \<Longrightarrow>
      \<exists>w'. drv_read_block drv d b c w = (int (unat c * dbs d), take (unat c * dbs d) (drop (unat b * dbs d) (dbytes d w)), w') \<and>
        (\<forall>e. dbytes e w' = dbytes e w)"
    and drv_write: "(unat b + unat c) * dbs d \<le> length (dbytes d w) \<Longrightarrow> unat c * dbs d < 2 ^ 31 \<Longrightarrow> unat c * dbs d \<le> length data \<Longrightarrow>
      \<exists>w'. drv_write_block drv d data b c w = (int (unat c * dbs d), w') \<and>
        dbytes d w' = memcpy_at (unat b * dbs d) (take (unat c * dbs d) data) (dbytes d w) \<and>
        (\<forall>e. e \<noteq> d \<longrightarrow> dbytes e w' = dbytes e w)"
begin

abbreviation holds :: "'w bio_state \<Rightarrow> nat \<Rightarrow> u8 list \<Rightarrow> bool" where
  "holds \<equiv> dev_holds dbytes dbs"

abbreviation same :: "'w bio_state \<Rightarrow> 'w bio_state \<Rightarrow> bool" where
  "same \<equiv> same_bytes dbytes"

lemma same_refl [simp]: "same s s"
  by (simp add: same_bytes_def)

lemma same_trans: "same s t \<Longrightarrow> same t u \<Longrightarrow> same s u"
  by (simp add: same_bytes_def)

lemma same_holds: "holds s d xs \<Longrightarrow> same s s' \<Longrightarrow> holds s' d xs"
  by (induction rule: dev_holds.induct) (auto simp: same_bytes_def intro: dev_holds.intros)

section \<open>Blocks\<close>

lemma trim_block_inside:
  "unat b + unat c \<le> unat (bd_block_count dev) \<Longrightarrow> bio_trim_block_range dev b c = c"
  using unat32_lt[of "bd_block_count dev"]
  by (auto simp: bio_trim_block_range_def word_less_nat_alt unat_plus_if')

lemma geom_blocks:
  "geom_ok b xs \<Longrightarrow> unat k \<le> unat (bd_block_count b) \<Longrightarrow> unat k * unat (bd_block_size b) \<le> length xs"
  by (simp add: geom_ok_def)

lemma block_in_mem:
  assumes "(unat k + unat c) * 512 \<le> n" "n < 2 ^ 32"
  shows "unat (k * 512 :: u32) = unat k * 512" "unat (c * 512 :: u32) = unat c * 512"
  using assms by (simp_all add: unat_word_ariths)

lemma bio_read_block_ok:
  assumes "holds s d xs" "buf \<noteq> 0" "unat b + unat c \<le> unat (bd_block_count (bdev_of s d))"
    "unat c * unat (bd_block_size (bdev_of s d)) < 2 ^ 31"
  shows "\<exists>s'. bio_read_block drv d buf b c s = Some (int (unat c * unat (bd_block_size (bdev_of s d))),
      take (unat c * unat (bd_block_size (bdev_of s d))) (drop (unat b * unat (bd_block_size (bdev_of s d))) xs), s') \<and> same s s'"
  using assms
proof (induction arbitrary: b c rule: dev_holds.induct)
  case (holds_mem s d xs)
  let ?b = "bdev_of s d"
  have ref: "bd_ref ?b > 0" and len: "length xs = unat (bd_block_count ?b) * 512" using holds_mem(1,6) by (auto simp: geom_ok_def)
  have le: "(unat b + unat c) * 512 \<le> length xs" using holds_mem.prems(2) by (simp add: len)
  note u = block_in_mem[OF order_trans[OF le holds_mem(8)] holds_mem(7)]
  have c31: "unat c * 512 < 2 ^ 31" using holds_mem.prems(3) holds_mem(6) by simp
  have sn: "sint (c * 512 :: u32) = int (unat c * 512)" using sint32_small[of "c * 512"] u(2) c31 by simp
  show ?case
  proof (cases "c = 0")
    case True
    then show ?thesis using ref holds_mem.prems trim_block_inside[of b c ?b] by (subst bio_read_block.simps) simp
  next
    case False
    have ld: "load_at (unat b * 512) (unat c * 512) (mem_bytes s d) = Some (take (unat c * 512) (drop (unat b * 512) (mem_bytes s d)))"
      using le holds_mem(8) by (intro load_at_ok) (simp add: algebra_simps)
    have "take (unat c * 512) (drop (unat b * 512) (mem_bytes s d)) = take (unat c * 512) (drop (unat b * 512) xs)"
      using le by (subst holds_mem(9)) (simp add: drop_take min_def algebra_simps)
    then have "bio_read_block drv d buf b c s = Some (int (unat c * 512), take (unat c * 512) (drop (unat b * 512) xs), s)"
      using False ref holds_mem.prems(1) holds_mem(4) trim_block_inside[OF holds_mem.prems(2)] ld
      by (subst bio_read_block.simps) (simp add: read_block_leaf_def mem_bdev_read_block_def u sn)
    then show ?thesis using holds_mem(6) by auto
  qed
next
  case (holds_driver s d xs)
  let ?b = "bdev_of s d" and ?bs = "dbs d"
  have bs: "unat (bd_block_size ?b) = ?bs" by (rule holds_driver(6))
  have ref: "bd_ref ?b > 0" and len: "length xs = unat (bd_block_count ?b) * ?bs" using holds_driver(1) bs by (auto simp: geom_ok_def)
  show ?case
  proof (cases "c = 0")
    case True
    then show ?thesis using ref holds_driver.prems trim_block_inside[of b c ?b] by (subst bio_read_block.simps) simp
  next
    case False
    have "(unat b + unat c) * ?bs \<le> length (dbytes d (hw s))" using holds_driver.prems(2) len holds_driver(7) by simp
    from drv_read[OF this] holds_driver.prems(3) obtain w' where w: "drv_read_block drv d b c (hw s) =
      (int (unat c * ?bs), take (unat c * ?bs) (drop (unat b * ?bs) xs), w')" "\<forall>e. dbytes e w' = dbytes e (hw s)"
      unfolding bs holds_driver(7) by blast
    then have "bio_read_block drv d buf b c s = Some (int (unat c * ?bs), take (unat c * ?bs) (drop (unat b * ?bs) xs), s\<lparr>hw := w'\<rparr>)"
      using False ref holds_driver.prems(1) holds_driver(4) trim_block_inside[OF holds_driver.prems(2)]
      by (subst bio_read_block.simps) (simp add: read_block_leaf_def)
    moreover have "same s (s\<lparr>hw := w'\<rparr>)" using w(2) by (simp add: same_bytes_def)
    ultimately show ?thesis unfolding bs by blast
  qed
next
  case (holds_sub s p ys d xs)
  let ?b = "bdev_of s d" and ?o = "unat (bd_offset (bdev_of s d))" and ?bs = "unat (bd_block_size (bdev_of s d))"
  have ref: "bd_ref ?b > 0" and len: "length xs = unat (bd_block_count ?b) * ?bs" using holds_sub(2) by (auto simp: geom_ok_def)
  show ?case
  proof (cases "c = 0")
    case True
    then show ?thesis using ref holds_sub.prems trim_block_inside[of b c ?b] by (subst bio_read_block.simps) simp
  next
    case False
    have bo: "unat (b + bd_offset ?b) = unat b + ?o"
      using holds_sub(9) holds_sub.prems(2) unat32_lt[of "bd_block_count (bdev_of s p)"] by (simp add: unat_plus_if')
    have "unat (b + bd_offset ?b) + unat c \<le> unat (bd_block_count (bdev_of s p))" using bo holds_sub(9) holds_sub.prems(2) by simp
    from holds_sub.IH[OF holds_sub.prems(1) this] holds_sub.prems(3) obtain s' where r:
      "bio_read_block drv p buf (b + bd_offset ?b) c s = Some (int (unat c * ?bs), take (unat c * ?bs) (drop ((unat b + ?o) * ?bs) ys), s')"
      "same s s'" unfolding bo holds_sub(8) by blast
    have "take (unat c * ?bs) (drop ((unat b + ?o) * ?bs) ys) = take (unat c * ?bs) (drop (unat b * ?bs) xs)"
    proof -
      have "(unat b + unat c) * ?bs \<le> length xs" using holds_sub.prems(2) unfolding len by (rule mult_le_mono1)
      then show ?thesis by (subst holds_sub(11)) (simp add: drop_take min_def algebra_simps)
    qed
    then show ?thesis using r False ref holds_sub.prems(1) holds_sub(5,7) trim_block_inside[OF holds_sub.prems(2)]
      by (subst bio_read_block.simps) auto
  qed
qed


lemma mem_write_block_ok:
  assumes h: "geom_ok (bdev_of s d) xs" "bd_read (bdev_of s d) = BY_mem" "bd_write (bdev_of s d) = BY_mem"
    "bd_read_block (bdev_of s d) = BL_mem" "bd_write_block (bdev_of s d) = BL_mem" "bd_block_size (bdev_of s d) = 512"
    "length (mem_bytes s d) < 2 ^ 32" "length xs \<le> length (mem_bytes s d)" "xs = take (length xs) (mem_bytes s d)"
    and le: "i + length ys \<le> length xs"
  shows "holds (s\<lparr>mem_bytes := (mem_bytes s)(d := memcpy_at i ys (mem_bytes s d))\<rparr>) d (memcpy_at i ys xs)"
proof -
  have l: "length (memcpy_at i ys (mem_bytes s d)) = length (mem_bytes s d)" using le h(8) by simp
  have "memcpy_at i ys xs = take (length xs) (memcpy_at i ys (mem_bytes s d))"
    by (subst h(9)) (rule memcpy_at_take[OF le h(8), symmetric])
  then show ?thesis using h le l by (intro holds_mem) (auto simp: geom_ok_def)
qed

lemma sub_write_ok:
  assumes sub: "geom_ok (bdev_of s d) xs" "bd_read (bdev_of s d) = BY_subdev" "bd_write (bdev_of s d) = BY_subdev"
    "bd_read_block (bdev_of s d) = BL_subdev" "bd_write_block (bdev_of s d) = BL_subdev" "bd_parent (bdev_of s d) = Some p"
    "bd_block_size (bdev_of s d) = bd_block_size (bdev_of s p)"
    "unat (bd_offset (bdev_of s d)) + unat (bd_block_count (bdev_of s d)) \<le> unat (bd_block_count (bdev_of s p))"
    "unat (bd_offset (bdev_of s d)) * unat (bd_block_size (bdev_of s d)) < 2 ^ 32"
    "xs = take (length xs) (drop (unat (bd_offset (bdev_of s d)) * unat (bd_block_size (bdev_of s d))) ys)"
    and p: "geom_ok (bdev_of s p) ys" "holds s' p (memcpy_at (i + unat (bd_offset (bdev_of s d)) * unat (bd_block_size (bdev_of s d))) zs ys)"
    "bdev_of s' = bdev_of s" and le: "i + length zs \<le> length xs"
  shows "holds s' d (memcpy_at i zs xs)"
proof -
  let ?o = "unat (bd_offset (bdev_of s d)) * unat (bd_block_size (bdev_of s d))"
  have ly: "?o + length xs \<le> length ys"
    using sub(1,7) p(1) mult_le_mono1[OF sub(8), of "unat (bd_block_size (bdev_of s d))"]
    by (simp add: geom_ok_def algebra_simps)
  have "take (length xs) (drop ?o (memcpy_at (i + ?o) zs ys)) = memcpy_at i zs (take (length xs) (drop ?o ys))"
    using le ly by (subst drop_memcpy_at) (auto simp: memcpy_at_take)
  also have "\<dots> = memcpy_at i zs xs" using sub(10) by simp
  finally show ?thesis using sub(1-9) p(2,3) le by (intro holds_sub[OF p(2)]) (auto simp: geom_ok_def)
qed

lemma bio_write_block_ok:
  assumes "holds s d xs" "buf \<noteq> 0" "unat b + unat c \<le> unat (bd_block_count (bdev_of s d))"
    "unat c * unat (bd_block_size (bdev_of s d)) < 2 ^ 31" "unat c * unat (bd_block_size (bdev_of s d)) \<le> length data"
  shows "\<exists>s'. bio_write_block drv d data buf b c s = Some (int (unat c * unat (bd_block_size (bdev_of s d))), s') \<and>
    holds s' d (memcpy_at (unat b * unat (bd_block_size (bdev_of s d))) (take (unat c * unat (bd_block_size (bdev_of s d))) data) xs) \<and>
    bdev_of s' = bdev_of s \<and> bdevs s' = bdevs s"
  using assms
proof (induction arbitrary: b c rule: dev_holds.induct)
  case (holds_mem s d xs)
  let ?b = "bdev_of s d"
  have ref: "bd_ref ?b > 0" and len: "length xs = unat (bd_block_count ?b) * 512" using holds_mem(1,6) by (auto simp: geom_ok_def)
  have le: "(unat b + unat c) * 512 \<le> length xs" using holds_mem.prems(2) by (simp add: len)
  note u = block_in_mem[OF order_trans[OF le holds_mem(8)] holds_mem(7)]
  have c31: "unat c * 512 < 2 ^ 31" "unat c * 512 \<le> length data" using holds_mem.prems(3,4) holds_mem(6) by simp_all
  have sn: "sint (c * 512 :: u32) = int (unat c * 512)" using sint32_small[of "c * 512"] u(2) c31 by simp
  let ?ys = "take (unat c * 512) data" and ?i = "unat b * 512"
  have iy: "?i + length ?ys \<le> length xs" using le c31 by (simp add: algebra_simps)
  define s' where "s' = s\<lparr>mem_bytes := (mem_bytes s)(d := memcpy_at ?i ?ys (mem_bytes s d))\<rparr>"
  have h: "holds s' d (memcpy_at ?i ?ys xs)" unfolding s'_def by (rule mem_write_block_ok[OF holds_mem(1-9) iy])
  have m: "bdev_of s' = bdev_of s" "bdevs s' = bdevs s" by (simp_all add: s'_def)
  show ?case
  proof (cases "c = 0")
    case True
    have "holds s d xs" by (rule dev_holds.holds_mem[OF holds_mem(1-9)])
    then show ?thesis using True ref holds_mem.prems trim_block_inside[of b c ?b] by (subst bio_write_block.simps) simp
  next
    case False
    have "bio_write_block drv d data buf b c s = Some (int (unat c * 512), s')"
      using False ref holds_mem.prems(1) holds_mem(5) trim_block_inside[OF holds_mem.prems(2)] load_at_ok[of 0 "unat c * 512" data]
        store_at_ok[of ?i ?ys "mem_bytes s d"] c31 order_trans[OF iy holds_mem(8)]
      by (subst bio_write_block.simps) (simp add: write_block_leaf_def mem_bdev_write_block_def u sn s'_def)
    then show ?thesis using h m holds_mem(6) by auto
  qed
next
  case (holds_driver s d xs)
  let ?b = "bdev_of s d" and ?bs = "dbs d"
  have bs: "unat (bd_block_size ?b) = ?bs" by (rule holds_driver(6))
  have ref: "bd_ref ?b > 0" and len: "length xs = unat (bd_block_count ?b) * ?bs" using holds_driver(1) bs by (auto simp: geom_ok_def)
  show ?case
  proof (cases "c = 0")
    case True
    have "holds s d xs" using holds_driver(1-7) by (rule dev_holds.holds_driver)
    then show ?thesis using True ref holds_driver.prems trim_block_inside[of b c ?b] by (subst bio_write_block.simps) simp
  next
    case False
    have le: "(unat b + unat c) * ?bs \<le> length (dbytes d (hw s))" using holds_driver.prems(2) len holds_driver(7) by simp
    have dl: "unat c * ?bs < 2 ^ 31" "unat c * ?bs \<le> length data" using holds_driver.prems(3,4) bs by simp_all
    from drv_write[OF le dl] obtain w' where w: "drv_write_block drv d data b c (hw s) = (int (unat c * ?bs), w')"
      "dbytes d w' = memcpy_at (unat b * ?bs) (take (unat c * ?bs) data) xs" unfolding holds_driver(7) by blast
    then have e: "bio_write_block drv d data buf b c s = Some (int (unat c * ?bs), s\<lparr>hw := w'\<rparr>)"
      using False ref holds_driver.prems(1) holds_driver(5) trim_block_inside[OF holds_driver.prems(2)]
      by (subst bio_write_block.simps) (simp add: write_block_leaf_def)
    have "holds (s\<lparr>hw := w'\<rparr>) d (memcpy_at (unat b * ?bs) (take (unat c * ?bs) data) xs)"
      using holds_driver(1-6) w(2) le dl holds_driver(7) by (intro dev_holds.holds_driver) (auto simp: geom_ok_def algebra_simps)
    then show ?thesis unfolding bs using e by auto
  qed
next
  case (holds_sub s p ys d xs)
  let ?b = "bdev_of s d" and ?o = "unat (bd_offset (bdev_of s d))" and ?bs = "unat (bd_block_size (bdev_of s d))"
  have ref: "bd_ref ?b > 0" and len: "length xs = unat (bd_block_count ?b) * ?bs" using holds_sub(2) by (auto simp: geom_ok_def)
  show ?case
  proof (cases "c = 0")
    case True
    have "holds s d xs" by (rule dev_holds.holds_sub[OF holds_sub(1-11)])
    then show ?thesis using True ref holds_sub.prems trim_block_inside[of b c ?b] by (subst bio_write_block.simps) simp
  next
    case False
    have bo: "unat (b + bd_offset ?b) = unat b + ?o"
      using holds_sub(9) holds_sub.prems(2) unat32_lt[of "bd_block_count (bdev_of s p)"] by (simp add: unat_plus_if')
    have "unat (b + bd_offset ?b) + unat c \<le> unat (bd_block_count (bdev_of s p))" using bo holds_sub(9) holds_sub.prems(2) by simp
    from holds_sub.IH[OF holds_sub.prems(1) this] holds_sub.prems(3,4) obtain s' where r:
      "bio_write_block drv p data buf (b + bd_offset ?b) c s = Some (int (unat c * ?bs), s')"
      "holds s' p (memcpy_at ((unat b + ?o) * ?bs) (take (unat c * ?bs) data) ys)" "bdev_of s' = bdev_of s" "bdevs s' = bdevs s"
      unfolding bo holds_sub(8) by blast
    have le: "unat b * ?bs + length (take (unat c * ?bs) data) \<le> length xs"
      using holds_sub.prems(2,4) mult_le_mono1[OF holds_sub.prems(2), of ?bs] unfolding len by (simp add: algebra_simps)
    have "holds s' d (memcpy_at (unat b * ?bs) (take (unat c * ?bs) data) xs)"
      by (rule sub_write_ok[OF holds_sub(2-11) holds_geom[OF holds_sub(1)] _ r(3) le]) (use r(2) in \<open>simp add: algebra_simps\<close>)
    then show ?thesis using r False ref holds_sub.prems(1) holds_sub(6,7) trim_block_inside[OF holds_sub.prems(2)]
      by (subst bio_write_block.simps) auto
  qed
qed

section \<open>Bytes through the block hooks\<close>


lemma bs_pos: "geom_ok b xs \<Longrightarrow> 0 < unat (bd_block_size b) \<and> unat (bd_block_size b) < 2 ^ 31"
  using power_strict_increasing[of "bd_block_shift b" 31 "2 :: nat"] by (auto simp: geom_ok_def)

lemma read_one:
  assumes "holds s d xs" "unat b < unat (bd_block_count (bdev_of s d))"
  shows "\<exists>s'. bio_read_block drv d TEMP b 1 s = Some (int (unat (bd_block_size (bdev_of s d))),
      take (unat (bd_block_size (bdev_of s d))) (drop (unat b * unat (bd_block_size (bdev_of s d))) xs), s') \<and> same s s'"
  using bio_read_block_ok[OF assms(1), of 32 b 1] assms(2) bs_pos[OF holds_geom[OF assms(1)]] by simp

lemma io_err_ok: "io_err (uint w) w = None"
  by (simp add: io_err_def)

lemma first_block:
  assumes "geom_ok b xs" "off < length xs"
  shows "unat (of_int (int off div int (unat (bd_block_size b))) :: u32) = off div unat (bd_block_size b)"
    "off div unat (bd_block_size b) < unat (bd_block_count b)"
proof -
  have bs: "0 < unat (bd_block_size b)" using bs_pos[OF assms(1)] by simp
  show l: "off div unat (bd_block_size b) < unat (bd_block_count b)"
    using assms bs by (simp add: geom_ok_def div_less_iff_less_mult)
  have "int off div int (unat (bd_block_size b)) = int (off div unat (bd_block_size b))" by (simp add: zdiv_int)
  then show "unat (of_int (int off div int (unat (bd_block_size b))) :: u32) = off div unat (bd_block_size b)"
    using l unat32_lt[of "bd_block_count b"] by (simp add: unat_of_nat)
qed

text \<open>Where a transfer of \<open>len\<close> bytes from \<open>off\<close> stands after \<open>k\<close> of them: at the start of a block, unless
  nothing is left.\<close>

definition at_pos :: "bdev \<Rightarrow> u32 \<Rightarrow> nat \<Rightarrow> nat \<Rightarrow> nat \<Rightarrow> u32 \<Rightarrow> u32 \<Rightarrow> u32 \<Rightarrow> bool" where
  "at_pos b buf0 off len k buf block rest \<longleftrightarrow> k + unat rest = len \<and> unat buf = unat buf0 + k \<and>
     unat block \<le> unat (bd_block_count b) \<and> (rest \<noteq> 0 \<longrightarrow> unat block * unat (bd_block_size b) = off + k)"

lemma at_pos_step:
  assumes "at_pos b buf0 off len k buf block rest" "unat buf0 + len < 2 ^ 32" "off + len \<le> length xs" "geom_ok b xs"
    and m: "unat m = unat c * unat (bd_block_size b)" "unat m \<le> unat rest" "c \<noteq> 0"
  shows "at_pos b buf0 off len (k + unat m) (buf + m) (block + c) (rest - m)" "unat block + unat c \<le> unat (bd_block_count b)"
proof -
  let ?bs = "unat (bd_block_size b)"
  have bs: "0 < ?bs" using bs_pos[OF assms(4)] by simp
  have "0 < unat m" using m(1,3) bs by (simp add: unat_gt_0)
  then have "rest \<noteq> 0" using m(2) by auto
  then have a: "k + unat rest = len" "unat buf = unat buf0 + k" "unat block * ?bs = off + k" using assms(1) by (auto simp: at_pos_def)
  have "(unat block + unat c) * ?bs \<le> unat (bd_block_count b) * ?bs"
    using a m assms(3,4) by (simp add: geom_ok_def algebra_simps)
  then show bc: "unat block + unat c \<le> unat (bd_block_count b)" using bs by simp
  have u: "unat (buf + m) = unat buf + unat m" "unat (rest - m) = unat rest - unat m" "unat (block + c) = unat block + unat c"
    using a m(2) assms(2) bc unat32_lt[of "bd_block_count b"] by (auto simp: unat_plus_if' unat32_sub)
  then show "at_pos b buf0 off len (k + unat m) (buf + m) (block + c) (rest - m)"
    using a m bc by (simp add: at_pos_def algebra_simps)
qed

lemma first_pos:
  assumes b: "geom_ok b xs" "off + len \<le> length xs" "0 < len" "unat buf + len < 2 ^ 32" "unat l = len"
  defines "bs \<equiv> unat (bd_block_size b)"
  defines "bo \<equiv> of_int (int off mod int bs) :: u32"
  defines "t \<equiv> min (bd_block_size b - bo) l"
  shows "unat bo = off mod bs" "off mod bs + unat t \<le> bs" "unat t \<le> len"
    "at_pos b buf off len (unat t) (buf + t) (of_int (int off div int bs) + 1) (l - t)"
    "off mod bs = 0 \<Longrightarrow> at_pos b buf off len 0 buf (of_int (int off div int bs)) l"
proof -
  note fb = first_block[OF b(1), of off, folded bs_def]
  have bs: "0 < bs" "bs < 2 ^ 31" using bs_pos[OF b(1)] by (auto simp: bs_def)
  have "int off mod int bs = int (off mod bs)" by (simp add: zmod_int)
  moreover have "off mod bs < 2 ^ 32" using bs by (intro less_trans[OF mod_less_divisor]) auto
  then have "off mod bs mod 2 ^ 32 = off mod bs" by (rule mod_less)
  ultimately show bo: "unat bo = off mod bs" by (simp add: bo_def unat_of_nat)
  have sub: "unat (bd_block_size b - bo) = bs - off mod bs" using bo bs by (simp add: unat32_sub bs_def)
  have ut: "unat t = min (bs - off mod bs) len" using sub b(5) by (simp add: t_def min_def word_le_nat_alt)
  then show "off mod bs + unat t \<le> bs" "unat t \<le> len" using mod_less_divisor[OF bs(1), of off] by (auto simp: min_def)
  have u: "unat (buf + t) = unat buf + unat t" "unat (l - t) = len - unat t"
    using ut b(4,5) by (auto simp: unat_plus_if' unat32_sub)
  have blk: "unat (of_int (int off div int bs) + 1 :: u32) = off div bs + 1"
    using fb b(2,3) unat32_lt[of "bd_block_count b"] by (simp add: unat_plus_if')
  have "(off div bs + 1) * bs = off + unat t" if "len - unat t \<noteq> 0"
  proof -
    have "unat t = bs - off mod bs" using that ut by (auto simp: min_def split: if_splits)
    then show ?thesis using div_mult_mod_eq[of off bs] mod_less_divisor[OF bs(1), of off] unfolding add_mult_distrib by linarith
  qed
  then show "at_pos b buf off len (unat t) (buf + t) (of_int (int off div int bs) + 1) (l - t)"
    unfolding at_pos_def u blk using ut fb b(2,3) by (auto simp: bs_def[symmetric] unat_eq_0[symmetric] u)
  assume "off mod bs = 0"
  then have "off div bs * bs = off" by auto
  then show "at_pos b buf off len 0 buf (of_int (int off div int bs)) l"
    using fb b(2,3,5) by (auto simp: at_pos_def bs_def[symmetric])
qed


subsection \<open>Reading\<close>

text \<open>The bytes that have been read up to a position.\<close>

definition rd_at :: "bdev \<Rightarrow> u32 \<Rightarrow> nat \<Rightarrow> nat \<Rightarrow> u8 list \<Rightarrow> rd_pos \<Rightarrow> bool" where
  "rd_at b buf0 off len xs pos \<longleftrightarrow> (case pos of (buf, block, rest, out) \<Rightarrow>
     at_pos b buf0 off len (length out) buf block rest \<and> out = take (length out) (drop off xs))"

lemma rd_at_step:
  assumes r: "rd_at b buf0 off len xs (buf, block, rest, out)" and b: "unat buf0 + len < 2 ^ 32" "off + len \<le> length xs" "geom_ok b xs"
    and m: "unat m = unat c * unat (bd_block_size b)" "unat m \<le> unat rest" "c \<noteq> 0"
    and new: "new = take (unat m) (drop (unat block * unat (bd_block_size b)) xs)"
  shows "rd_at b buf0 off len xs (buf + m, block + c, rest - m, out @ new)"
proof -
  have a: "at_pos b buf0 off len (length out) buf block rest" "out = take (length out) (drop off xs)" using r by (auto simp: rd_at_def)
  note st = at_pos_step[OF a(1) b m]
  have "0 < unat m" using m(1,3) bs_pos[OF b(3)] by (simp add: unat_gt_0)
  then have p: "unat block * unat (bd_block_size b) = off + length out" "length out + unat rest = len"
    using a(1) m(2) by (auto simp: at_pos_def)
  have ln: "length new = unat m" using p b(2) m(2) by (simp add: new)
  have "take (length out + unat m) (drop off xs) = out @ new"
    unfolding take_drop_add a(2)[symmetric] new p(1) by simp
  then show ?thesis using st(1) ln by (simp add: rd_at_def)
qed

lemma int_mod_0: "int a mod int b = 0 \<longleftrightarrow> a mod b = 0"
  by (simp flip: zmod_int)

lemma block_slice:
  assumes "geom_ok b xs" "i + c \<le> unat (bd_block_count b)"
  shows "i * unat (bd_block_size b) + c * unat (bd_block_size b) \<le> length xs"
    "length (take (c * unat (bd_block_size b)) (drop (i * unat (bd_block_size b)) xs)) = c * unat (bd_block_size b)"
proof -
  show "i * unat (bd_block_size b) + c * unat (bd_block_size b) \<le> length xs"
    using mult_le_mono1[OF assms(2), of "unat (bd_block_size b)"] assms(1) by (simp add: geom_ok_def algebra_simps)
  then show "length (take (c * unat (bd_block_size b)) (drop (i * unat (bd_block_size b)) xs)) = c * unat (bd_block_size b)" by simp
qed

lemma default_read_first_ok:
  assumes h: "holds s d xs" and r: "off + len \<le> length xs" "0 < len" "unat buf + len < 2 ^ 32" "unat l = len"
  shows "\<exists>pos s'. default_read_first drv d buf (int off) l s = Some (Inr pos, s') \<and> same s s' \<and> rd_at (bdev_of s d) buf off len xs pos"
proof -
  let ?b = "bdev_of s d" and ?bs = "unat (bd_block_size (bdev_of s d))"
  note g = holds_geom[OF h]
  note fp = first_pos[OF g r]
  have ol: "off < length xs" using r by simp
  note fb = first_block[OF g ol]
  show ?thesis
  proof (cases "off mod ?bs = 0")
    case True
    then have "int off mod int ?bs = 0" by (simp only: int_mod_0)
    then show ?thesis using fp(5)[OF True] by (auto simp: default_read_first_def Let_def rd_at_def)
  next
    case False
    then have nz: "int off mod int ?bs \<noteq> 0" by (simp only: int_mod_0 not_False_eq_True)
    define bo t where "bo = (of_int (int off mod int ?bs) :: u32)" and "t = min (bd_block_size ?b - bo) l"
    note fp' = fp[folded bo_def, folded t_def]
    have ul: "unat (of_int (int off div int ?bs) :: u32) < unat (bd_block_count ?b)" using fb by simp
    obtain s' where ro: "bio_read_block drv d TEMP (of_int (int off div int ?bs)) 1 s = Some (int ?bs, take ?bs (drop (off div ?bs * ?bs) xs), s')"
      "same s s'" using read_one[OF h ul] fb(1) by auto
    let ?temp = "take ?bs (drop (off div ?bs * ?bs) xs)"
    have lt: "length ?temp = ?bs" using block_slice(2)[OF g, of "off div ?bs" 1] fb(2) by simp
    have ld: "load_at (unat bo) (unat t) ?temp = Some (take (unat t) (drop off xs))"
    proof -
      have "load_at (unat bo) (unat t) ?temp = Some (take (unat t) (drop (off mod ?bs) ?temp))"
        using fp'(1,2) lt by (simp add: load_at_def)
      also have "drop (off mod ?bs) ?temp = take (?bs - off mod ?bs) (drop off xs)"
        using div_mult_mod_eq[of off ?bs] by (simp add: drop_take add.commute)
      also have "take (unat t) (take (?bs - off mod ?bs) (drop off xs)) = take (unat t) (drop off xs)"
        using fp'(2) by (simp add: min_def)
      finally show ?thesis .
    qed
    have "default_read_first drv d buf (int off) l s =
      Some (Inr (buf + t, of_int (int off div int ?bs) + 1, l - t, take (unat t) (drop off xs)), s')"
      using nz ro(1) ld unfolding t_def bo_def by (simp add: default_read_first_def Let_def io_err_ok)
    moreover have "length (take (unat t) (drop off xs)) = unat t" using fp'(3) r(1) by simp
    ultimately show ?thesis using ro(2) fp'(4) by (auto simp: rd_at_def)
  qed
qed

lemma default_read_middle_ok:
  assumes "holds s d xs" "rd_at (bdev_of s d) buf0 off len xs (buf, block, rest, out)" "unat buf0 + len < 2 ^ 32" "off + len \<le> length xs"
  shows "\<exists>buf' block' rest' out' s'. default_read_middle drv d buf block rest out s = Some (Inr (buf', block', rest', out'), s') \<and> same s s' \<and>
    rd_at (bdev_of s d) buf0 off len xs (buf', block', rest', out') \<and> unat rest' < unat (bd_block_size (bdev_of s d))"
  using assms
proof (induction "unat rest" arbitrary: buf block rest out s rule: less_induct)
  case less
  let ?w = "bd_block_size (bdev_of s d)" let ?bs = "unat ?w"
  note g = holds_geom[OF less.prems(1)] and bs = bs_pos[OF holds_geom[OF less.prems(1)]]
  show ?case
  proof (cases "rest \<ge> ?w")
    case False
    then show ?thesis using less.prems(2) by (subst default_read_middle.simps) (auto simp: word_le_nat_alt)
  next
    case True
    then have le: "?bs \<le> unat rest" by (simp add: word_le_nat_alt)
    have a: "at_pos (bdev_of s d) buf0 off len (length out) buf block rest" using less.prems(2) by (simp add: rd_at_def)
    have m: "unat ?w = unat (1 :: u32) * ?bs" "unat ?w \<le> unat rest" "(1 :: u32) \<noteq> 0" using le by simp_all
    have bc: "unat block < unat (bd_block_count (bdev_of s d))" using at_pos_step(2)[OF a less.prems(3,4) g m] by simp
    obtain s1 where ro: "bio_read_block drv d TEMP block 1 s = Some (int ?bs, take ?bs (drop (unat block * ?bs) xs), s1)" "same s s1"
      using read_one[OF less.prems(1) bc] by blast
    let ?new = "take ?bs (drop (unat block * ?bs) xs)"
    have nx: "rd_at (bdev_of s d) buf0 off len xs (buf + ?w, block + 1, rest - ?w, out @ ?new)"
      by (rule rd_at_step[OF less.prems(2-4) g m refl])
    have ln: "length ?new = ?bs" using block_slice(2)[OF g, of "unat block" 1] bc by simp
    have ld: "load_at 0 ?bs ?new = Some ?new" using ln by (simp add: load_at_def)
    have eq: "default_read_middle drv d buf block rest out s = default_read_middle drv d (buf + ?w) (block + 1) (rest - ?w) (out @ ?new) s1"
      using True ro(1) ld by (subst default_read_middle.simps) (simp add: io_err_ok)
    have sb: "bdev_of s1 = bdev_of s" using ro(2) by (simp add: same_bytes_def)
    have "unat (rest - ?w) < unat rest" using le bs by (simp add: unat32_sub)
    from less.hyps[OF this same_holds[OF less.prems(1) ro(2)] _ less.prems(3,4)] nx
    obtain buf' block' rest' out' s' where z: "default_read_middle drv d (buf + ?w) (block + 1) (rest - ?w) (out @ ?new) s1 = Some (Inr (buf', block', rest', out'), s')"
      "same s1 s'" "rd_at (bdev_of s d) buf0 off len xs (buf', block', rest', out')" "unat rest' < ?bs" unfolding sb by blast
    then show ?thesis using eq same_trans[OF ro(2) z(2)] by auto
  qed
qed

lemma default_read_blocks_ok:
  assumes h: "holds s d xs" and r: "rd_at (bdev_of s d) buf0 off len xs pos" "unat buf0 + len < 2 ^ 32" "off + len \<le> length xs"
    "buf0 \<noteq> 0" "len < 2 ^ 31"
  shows "\<exists>buf' block' rest' out' s'. default_read_blocks drv d pos s = Some (Inr (buf', block', rest', out'), s') \<and> same s s' \<and>
    rd_at (bdev_of s d) buf0 off len xs (buf', block', rest', out') \<and> unat rest' < unat (bd_block_size (bdev_of s d))"
proof -
  obtain buf block rest out where pos: "pos = (buf, block, rest, out)" by (cases pos)
  let ?b = "bdev_of s d" let ?w = "bd_block_size ?b" let ?bs = "unat ?w"
  note g = holds_geom[OF h] and bs = bs_pos[OF holds_geom[OF h]]
  have a: "at_pos ?b buf0 off len (length out) buf block rest" using r(1) by (simp add: rd_at_def pos)
  show ?thesis
  proof (cases "bd_flags ?b AND BIO_FLAG_CACHE_ALIGNED_READS \<noteq> 0 \<and> \<not> IS_ALIGNED buf CACHE_LINE")
    case True
    then show ?thesis using default_read_middle_ok[OF h r(1)[unfolded pos] r(2,3)] by (simp add: default_read_blocks_def pos)
  next
    case False
    define c where "c = divpow2 rest (bd_block_shift ?b)"
    have "unat c = drop_bit (bd_block_shift ?b) (unat rest)" by (simp add: c_def divpow2_def unat_drop_bit_eq)
    then have uc: "unat c = unat rest div ?bs" using g by (simp add: geom_ok_def drop_bit_eq_div)
    define m where "m = ?w * c"
    have lc: "unat c * ?bs \<le> unat rest" "unat rest < unat c * ?bs + ?bs" using uc bs by (simp_all add: div_mult_mod_eq dividend_less_div_times add.commute)
    have um: "unat m = unat c * ?bs" using lc(1) unat32_lt[of rest] by (simp add: m_def unat_word_ariths mult.commute)
    have rl: "unat rest \<le> len" "unat buf \<noteq> 0" using a r(4) by (auto simp: at_pos_def unat_eq_0)
    have bc: "unat block + unat c \<le> unat (bd_block_count ?b)"
    proof (cases "c = 0")
      case True
      then show ?thesis using a by (simp add: at_pos_def)
    next
      case f: False
      show ?thesis by (rule at_pos_step(2)[OF a r(2,3) g um _ f]) (use um lc in simp)
    qed
    have c31: "unat c * ?bs < 2 ^ 31" using lc(1) rl(1) r(5) by simp
    have b0: "buf \<noteq> 0" using rl(2) by auto
    obtain s1 where ro: "bio_read_block drv d buf block c s = Some (int (unat m), take (unat m) (drop (unat block * ?bs) xs), s1)" "same s s1"
      using bio_read_block_ok[OF h b0 bc c31] um by auto
    let ?new = "take (unat m) (drop (unat block * ?bs) xs)"
    have "length ?new = unat m" using block_slice(2)[OF g bc] um by simp
    then have "default_read_blocks drv d pos s = Some (Inr (buf + m, block + c, rest - m, out @ ?new), s1)"
      using False ro(1) by (auto simp: default_read_blocks_def pos Let_def c_def[symmetric] m_def[symmetric] io_err_ok load_at_def)
    moreover have "rd_at ?b buf0 off len xs (buf + m, block + c, rest - m, out @ ?new)"
    proof (cases "c = 0")
      case True
      then show ?thesis using r(1) um by (simp add: m_def pos)
    next
      case f: False
      show ?thesis by (rule rd_at_step[OF r(1)[unfolded pos] r(2,3) g um _ f refl]) (use um lc in simp)
    qed
    moreover have "unat (rest - m) < ?bs" using um lc by (simp add: unat32_sub)
    ultimately show ?thesis using ro(2) by blast
  qed
qed

lemma default_read_last_ok:
  assumes h: "holds s d xs" and r: "rd_at (bdev_of s d) buf0 off len xs (buf, block, rest, out)" "off + len \<le> length xs"
    "unat rest < unat (bd_block_size (bdev_of s d))"
  shows "\<exists>s'. default_read_last drv d (buf, block, rest, out) s = Some (int len, take len (drop off xs), s') \<and> same s s'"
proof -
  let ?b = "bdev_of s d" let ?bs = "unat (bd_block_size ?b)"
  have a: "length out + unat rest = len" "rest \<noteq> 0 \<longrightarrow> unat block * ?bs = off + length out" "out = take (length out) (drop off xs)"
    using r(1) by (auto simp: rd_at_def at_pos_def)
  show ?thesis
  proof (cases "rest = 0")
    case True
    then have "out = take len (drop off xs)" "length out = len" using a by simp_all
    then show ?thesis using True by (simp add: default_read_last_def)
  next
    case False
    then have p: "unat block * ?bs = off + length out" using a by simp
    have "unat block * ?bs < unat (bd_block_count ?b) * ?bs"
      using p a(1) r(2) False holds_geom[OF h] unat_gt_0[of rest] by (simp add: geom_ok_def)
    then have bc: "unat block < unat (bd_block_count ?b)" by simp
    obtain s1 where ro: "bio_read_block drv d TEMP block 1 s = Some (int ?bs, take ?bs (drop (unat block * ?bs) xs), s1)" "same s s1"
      using read_one[OF h bc] by blast
    have sb: "bdev_of s1 = bdev_of s" using ro(2) by (simp add: same_bytes_def)
    let ?temp = "take ?bs (drop (unat block * ?bs) xs)"
    have "length ?temp = ?bs" using block_slice(2)[OF holds_geom[OF h], of "unat block" 1] bc by simp
    then have ld: "load_at 0 (unat rest) ?temp = Some (take (unat rest) (drop (off + length out) xs))"
      using r(3) by (simp add: load_at_def p min_def)
    have "out @ take (unat rest) (drop (off + length out) xs) = take len (drop off xs)"
      using take_drop_add[of "length out" "unat rest" off xs] a by simp
    moreover have "int (length out) + int (length (take (unat rest) (drop (off + length out) xs))) = int len"
      using r(2) unfolding a(1)[symmetric] by simp
    moreover have "rest > 0" using False by (simp add: word_neq_0_conv)
    ultimately show ?thesis using ro ld
      by (simp add: default_read_last_def sb io_err_ok del: length_take length_drop)
  qed
qed

lemma bio_default_read_ok:
  assumes h: "holds s d xs" and r: "off + len \<le> length xs" "0 < len" "unat buf + len < 2 ^ 32" "unat l = len" "buf \<noteq> 0" "len < 2 ^ 31"
  shows "\<exists>s'. bio_default_read drv d buf (int off) l s = Some (int len, take len (drop off xs), s') \<and> same s s'"
proof -
  obtain pos s1 where 1: "default_read_first drv d buf (int off) l s = Some (Inr pos, s1)" "same s s1" "rd_at (bdev_of s d) buf off len xs pos"
    using default_read_first_ok[OF h r(1-4)] by blast
  have b1: "bdev_of s1 = bdev_of s" using 1(2) by (simp add: same_bytes_def)
  note h1 = same_holds[OF h 1(2)]
  obtain buf' block' rest' out' s2 where 2: "default_read_blocks drv d pos s1 = Some (Inr (buf', block', rest', out'), s2)" "same s1 s2"
    "rd_at (bdev_of s d) buf off len xs (buf', block', rest', out')" "unat rest' < unat (bd_block_size (bdev_of s d))"
    using default_read_blocks_ok[OF h1 _ r(3,1,5,6)] 1(3) unfolding b1 by blast
  have b2: "bdev_of s2 = bdev_of s" using 2(2) b1 by (simp add: same_bytes_def)
  obtain s3 where 3: "default_read_last drv d (buf', block', rest', out') s2 = Some (int len, take len (drop off xs), s3)" "same s2 s3"
    using default_read_last_ok[OF same_holds[OF h1 2(2)] _ r(1)] 2(3,4) unfolding b2 by blast
  show ?thesis using 1(1) 2(1) 3 same_trans[OF 1(2) same_trans[OF 2(2) 3(2)]] by (simp add: bio_default_read_def)
qed

end

end
