(* ===== verification/Bio_Access.thy ===== *)
theory Bio_Access
  imports Bio_Inv
begin

text \<open>
  Block devices, continued: writing through the block hooks, access by bytes on any stack of subdevices, erasing, and
  what \<open>create_membdev\<close> and \<open>bio_publish_subdevice\<close> set up. The contract \<open>byte_device\<close> is what a client such as the
  block cache relies on.
\<close>

context bio_drivers
begin

subsection \<open>Writing\<close>

definition meta_same :: "'w bio_state \<Rightarrow> 'w bio_state \<Rightarrow> bool" where
  "meta_same s s' \<longleftrightarrow> bdev_of s' = bdev_of s \<and> bdevs s' = bdevs s"

lemma same_meta: "same s s' \<Longrightarrow> meta_same s s'"
  by (simp add: same_bytes_def meta_same_def)

lemma meta_trans: "meta_same s t \<Longrightarrow> meta_same t u \<Longrightarrow> meta_same s u"
  by (simp add: meta_same_def)

lemma write_one:
  assumes "holds s d xs" "unat b < unat (bd_block_count (bdev_of s d))" "length temp = unat (bd_block_size (bdev_of s d))"
  shows "\<exists>s'. bio_write_block drv d temp TEMP b 1 s = Some (int (unat (bd_block_size (bdev_of s d))), s') \<and>
    holds s' d (memcpy_at (unat b * unat (bd_block_size (bdev_of s d))) temp xs) \<and> meta_same s s'"
  using bio_write_block_ok[OF assms(1), of 32 b 1 temp] assms(2,3) bs_pos[OF holds_geom[OF assms(1)]] by (simp add: meta_same_def)

text \<open>Reading a block, changing part of it and writing it back changes just that part.\<close>

lemma update_block:
  assumes h: "holds s d xs" and b: "unat b < unat (bd_block_count (bdev_of s d))"
    and k: "k + length ys \<le> unat (bd_block_size (bdev_of s d))"
  defines "bs \<equiv> unat (bd_block_size (bdev_of s d))"
  defines "temp \<equiv> take bs (drop (unat b * bs) xs)"
  shows "\<exists>s1 s'. bio_read_block drv d TEMP b 1 s = Some (int bs, temp, s1) \<and> store_at k ys temp = Some (memcpy_at k ys temp) \<and>
    bio_write_block drv d (memcpy_at k ys temp) TEMP b 1 s1 = Some (int bs, s') \<and>
    holds s' d (memcpy_at (unat b * bs + k) ys xs) \<and> meta_same s s' \<and> meta_same s s1"
proof -
  obtain s1 where r: "bio_read_block drv d TEMP b 1 s = Some (int bs, temp, s1)" "same s s1"
    using read_one[OF h b] unfolding temp_def bs_def by blast
  have sl: "unat b * bs + bs \<le> length xs" using block_slice(1)[OF holds_geom[OF h], of "unat b" 1] b by (simp add: bs_def)
  have lt: "length temp = bs" using sl by (simp add: temp_def)
  have st: "store_at k ys temp = Some (memcpy_at k ys temp)" using k lt by (simp add: store_at_def bs_def)
  have b1: "bdev_of s1 = bdev_of s" using r(2) by (simp add: same_bytes_def)
  have l: "length (memcpy_at k ys temp) = bs" using k lt by (simp add: bs_def)
  obtain s' where w: "bio_write_block drv d (memcpy_at k ys temp) TEMP b 1 s1 = Some (int bs, s')"
    "holds s' d (memcpy_at (unat b * bs) (memcpy_at k ys temp) xs)" "meta_same s1 s'"
    using write_one[OF same_holds[OF h r(2)], of b "memcpy_at k ys temp"] b l unfolding b1 bs_def by blast
  have "memcpy_at (unat b * bs) (memcpy_at k ys temp) xs = memcpy_at (unat b * bs + k) ys xs"
    unfolding temp_def by (rule memcpy_at_nested[OF k[folded bs_def] sl])
  then show ?thesis using r st w same_meta[OF r(2)] meta_trans[OF same_meta[OF r(2)] w(3)] by auto
qed

definition wr_at :: "bdev \<Rightarrow> u32 \<Rightarrow> nat \<Rightarrow> nat \<Rightarrow> u8 list \<Rightarrow> wr_pos \<Rightarrow> bool" where
  "wr_at b buf0 off len data pos \<longleftrightarrow> (case pos of (buf, block, rest, left, written) \<Rightarrow>
     0 \<le> written \<and> at_pos b buf0 off len (nat written) buf block rest \<and> left = drop (nat written) data)"

abbreviation wr_done :: "nat \<Rightarrow> u8 list \<Rightarrow> wr_pos \<Rightarrow> u8 list \<Rightarrow> u8 list" where
  "wr_done off data pos xs \<equiv> memcpy_at off (take (nat (snd (snd (snd (snd pos))))) data) xs"

lemma wr_at_step:
  assumes w: "wr_at b buf0 off len data (buf, block, rest, left, written)" and b: "unat buf0 + len < 2 ^ 32" "off + len \<le> length xs" "geom_ok b xs"
    and m: "unat m = unat c * unat (bd_block_size b)" "unat m \<le> unat rest" "c \<noteq> 0" and dl: "len \<le> length data"
  shows "wr_at b buf0 off len data (buf + m, block + c, rest - m, drop (unat m) left, written + int (unat m))"
    "memcpy_at (unat block * unat (bd_block_size b)) (take (unat m) left) (wr_done off data (buf, block, rest, left, written) xs) =
      wr_done off data (buf + m, block + c, rest - m, drop (unat m) left, written + int (unat m)) xs"
    "unat block + unat c \<le> unat (bd_block_count b)" "unat m \<le> length left"
proof -
  have a: "at_pos b buf0 off len (nat written) buf block rest" "left = drop (nat written) data" "0 \<le> written" using w by (auto simp: wr_at_def)
  note st = at_pos_step[OF a(1) b m]
  have n: "nat (written + int (unat m)) = nat written + unat m" using a(3) by (simp add: nat_add_distrib)
  show "wr_at b buf0 off len data (buf + m, block + c, rest - m, drop (unat m) left, written + int (unat m))"
    unfolding wr_at_def prod.case n using st(1) a(2,3) by (simp add: add.commute)
  show "unat block + unat c \<le> unat (bd_block_count b)" by (rule st(2))
  have "0 < unat m" using m(1,3) bs_pos[OF b(3)] by (simp add: unat_gt_0)
  then have p: "unat block * unat (bd_block_size b) = off + nat written" "nat written + unat rest = len"
    using a(1) m(2) by (auto simp: at_pos_def)
  show "unat m \<le> length left" using p(2) m(2) dl a(2) by simp
  have lt: "length (take (nat written) data) = nat written" "length (take (unat m) (drop (nat written) data)) = unat m" using p(2) m(2) dl by auto
  have "memcpy_at off (take (nat written) data @ take (unat m) (drop (nat written) data)) xs =
    memcpy_at (off + nat written) (take (unat m) (drop (nat written) data)) (memcpy_at off (take (nat written) data) xs)"
    by (subst memcpy_at_append) (use lt p(2) m(2) b(2) in \<open>auto\<close>)
  then show "memcpy_at (unat block * unat (bd_block_size b)) (take (unat m) left) (wr_done off data (buf, block, rest, left, written) xs) =
      wr_done off data (buf + m, block + c, rest - m, drop (unat m) left, written + int (unat m)) xs"
    unfolding snd_conv n p(1) a(2) take_add by simp
qed

lemma default_write_first_ok:
  assumes h: "holds s d xs" and r: "off + len \<le> length xs" "0 < len" "unat buf + len < 2 ^ 32" "unat l = len" "len \<le> length data"
  shows "\<exists>pos s'. default_write_first drv d data buf (int off) l s = Some (Inr pos, s') \<and> meta_same s s' \<and>
    wr_at (bdev_of s d) buf off len data pos \<and> holds s' d (wr_done off data pos xs)"
proof -
  let ?b = "bdev_of s d" and ?bs = "unat (bd_block_size (bdev_of s d))"
  note g = holds_geom[OF h]
  note fp = first_pos[OF g r(1-4)]
  have ol: "off < length xs" using r by simp
  note fb = first_block[OF g ol]
  show ?thesis
  proof (cases "off mod ?bs = 0")
    case True
    then have "int off mod int ?bs = 0" by (simp only: int_mod_0)
    then show ?thesis using fp(5)[OF True] h by (auto simp: default_write_first_def Let_def wr_at_def meta_same_def)
  next
    case False
    then have nz: "int off mod int ?bs \<noteq> 0" by (simp only: int_mod_0 not_False_eq_True)
    define bo t blk where "bo = (of_int (int off mod int ?bs) :: u32)" and "t = min (bd_block_size ?b - bo) l" and "blk = (of_int (int off div int ?bs) :: u32)"
    note fp' = fp[folded bo_def, folded t_def, folded blk_def]
    have ul: "unat blk < unat (bd_block_count ?b)" using fb by (simp add: blk_def)
    let ?ys = "take (unat t) data"
    have ly: "length ?ys = unat t" using fp'(3) r(5) by simp
    have k: "unat bo + length ?ys \<le> ?bs" using fp'(1,2) ly by simp
    obtain temp s1 s' where u: "bio_read_block drv d TEMP blk 1 s = Some (int ?bs, temp, s1)" "store_at (unat bo) ?ys temp = Some (memcpy_at (unat bo) ?ys temp)"
      "bio_write_block drv d (memcpy_at (unat bo) ?ys temp) TEMP blk 1 s1 = Some (int ?bs, s')"
      "holds s' d (memcpy_at (unat blk * ?bs + unat bo) ?ys xs)" "meta_same s s'" using update_block[OF h ul k] by blast
    have ld: "load_at 0 (unat t) data = Some ?ys" using fp'(3) r(5) by (simp add: load_at_def)
    have "default_write_first drv d data buf (int off) l s =
      Some (Inr (buf + t, blk + 1, l - t, drop (unat t) data, int (unat t)), s')"
      using nz u(1-3) ld unfolding t_def bo_def blk_def by (simp add: default_write_first_def Let_def io_err_ok)
    moreover have "wr_at ?b buf off len data (buf + t, blk + 1, l - t, drop (unat t) data, int (unat t))"
      unfolding wr_at_def using fp'(4) by simp
    moreover have "unat blk * ?bs + unat bo = off" using fb(1) fp'(1) by (simp add: blk_def)
    ultimately show ?thesis using u(4,5)
      by (intro exI[of _ "(buf + t, blk + 1, l - t, drop (unat t) data, int (unat t))"] exI[of _ s']) simp
  qed
qed


lemma wr_done_geom:
  "geom_ok b xs \<Longrightarrow> off + len \<le> length xs \<Longrightarrow> len \<le> length data \<Longrightarrow> wr_at b buf0 off len data pos \<Longrightarrow>
   geom_ok b (wr_done off data pos xs)"
  by (cases pos) (auto simp: geom_ok_def wr_at_def at_pos_def)

lemma default_write_middle_ok:
  assumes "wr_at (bdev_of s d) buf0 off len data (buf, block, rest, left, written)"
    "holds s d (wr_done off data (buf, block, rest, left, written) xs)"
    "unat buf0 + len < 2 ^ 32" "off + len \<le> length xs" "geom_ok (bdev_of s d) xs" "len \<le> length data"
  shows "\<exists>pos s'. default_write_middle drv d buf block rest left written s = Some (Inr pos, s') \<and> meta_same s s' \<and>
    wr_at (bdev_of s d) buf0 off len data pos \<and> holds s' d (wr_done off data pos xs) \<and>
    unat (fst (snd (snd pos))) < unat (bd_block_size (bdev_of s d))"
  using assms
proof (induction "unat rest" arbitrary: buf block rest left written s rule: less_induct)
  case less
  let ?w = "bd_block_size (bdev_of s d)" let ?bs = "unat ?w"
  note bs = bs_pos[OF less.prems(5)]
  show ?case
  proof (cases "rest \<ge> ?w")
    case False
    then have "default_write_middle drv d buf block rest left written s = Some (Inr (buf, block, rest, left, written), s)"
      by (subst default_write_middle.simps) simp
    then show ?thesis using False less.prems(1,2)
      by (intro exI[of _ "(buf, block, rest, left, written)"] exI[of _ s]) (simp add: word_le_nat_alt meta_same_def)
  next
    case True
    then have le: "?bs \<le> unat rest" by (simp add: word_le_nat_alt)
    have m: "unat ?w = unat (1 :: u32) * ?bs" "unat ?w \<le> unat rest" "(1 :: u32) \<noteq> 0" using le by simp_all
    note st = wr_at_step[OF less.prems(1,3,4,5) m less.prems(6)]
    have bc: "unat block < unat (bd_block_count (bdev_of s d))" using st(3) by simp
    have ld: "load_at 0 ?bs left = Some (take ?bs left)" "length (take ?bs left) = ?bs" using st(4) by (simp_all add: load_at_def)
    let ?p = "(buf + ?w, block + 1, rest - ?w, drop ?bs left, written + int ?bs)"
    obtain s1 where w: "bio_write_block drv d (take ?bs left) TEMP block 1 s = Some (int ?bs, s1)"
      "holds s1 d (wr_done off data ?p xs)" "meta_same s s1"
      using write_one[OF less.prems(2) bc ld(2)] unfolding st(2) by blast
    have sb: "bdev_of s1 = bdev_of s" using w(3) by (simp add: meta_same_def)
    have eq: "default_write_middle drv d buf block rest left written s =
      default_write_middle drv d (buf + ?w) (block + 1) (rest - ?w) (drop ?bs left) (written + int ?bs) s1"
      using True w(1) ld(1) by (subst default_write_middle.simps) (simp add: io_err_ok)
    have "unat (rest - ?w) < unat rest" using le bs by (simp add: unat32_sub)
    from less.hyps[OF this, of s1 "buf + ?w" "block + 1" "drop ?bs left" "written + int ?bs"] st(1) w(2) less.prems(3-6)
    obtain pos s' where z: "default_write_middle drv d (buf + ?w) (block + 1) (rest - ?w) (drop ?bs left) (written + int ?bs) s1 = Some (Inr pos, s')"
      "meta_same s1 s'" "wr_at (bdev_of s d) buf0 off len data pos" "holds s' d (wr_done off data pos xs)" "unat (fst (snd (snd pos))) < ?bs"
      unfolding sb by blast
    show ?thesis unfolding eq using z meta_trans[OF w(3) z(2)] by blast
  qed
qed

lemma default_write_blocks_ok:
  assumes r: "wr_at (bdev_of s d) buf0 off len data pos" "holds s d (wr_done off data pos xs)" "unat buf0 + len < 2 ^ 32"
    "off + len \<le> length xs" "geom_ok (bdev_of s d) xs" "len \<le> length data" "buf0 \<noteq> 0" "len < 2 ^ 31"
  shows "\<exists>pos' s'. default_write_blocks drv d pos s = Some (Inr pos', s') \<and> meta_same s s' \<and>
    wr_at (bdev_of s d) buf0 off len data pos' \<and> holds s' d (wr_done off data pos' xs) \<and>
    unat (fst (snd (snd pos'))) < unat (bd_block_size (bdev_of s d))"
proof -
  obtain buf block rest left written where pos: "pos = (buf, block, rest, left, written)" by (cases pos)
  let ?b = "bdev_of s d" let ?w = "bd_block_size ?b" let ?bs = "unat ?w"
  note g = r(5) and bs = bs_pos[OF r(5)]
  have a: "at_pos ?b buf0 off len (nat written) buf block rest" using r(1) by (simp add: wr_at_def pos)
  show ?thesis
  proof (cases "bd_flags ?b AND BIO_FLAG_CACHE_ALIGNED_WRITES \<noteq> 0 \<and> \<not> IS_ALIGNED buf CACHE_LINE")
    case True
    then show ?thesis using default_write_middle_ok[OF r(1,2)[unfolded pos] r(3-6)] by (simp add: default_write_blocks_def pos)
  next
    case False
    define c where "c = divpow2 rest (bd_block_shift ?b)"
    have "unat c = drop_bit (bd_block_shift ?b) (unat rest)" by (simp add: c_def divpow2_def unat_drop_bit_eq)
    then have uc: "unat c = unat rest div ?bs" using g by (simp add: geom_ok_def drop_bit_eq_div)
    define m where "m = ?w * c"
    have lc: "unat c * ?bs \<le> unat rest" "unat rest < unat c * ?bs + ?bs" using uc bs by (simp_all add: div_mult_mod_eq dividend_less_div_times add.commute)
    have um: "unat m = unat c * ?bs" using lc(1) unat32_lt[of rest] by (simp add: m_def unat_word_ariths mult.commute)
    have rl: "unat rest \<le> len" "unat buf \<noteq> 0" using a r(7) by (auto simp: at_pos_def unat_eq_0)
    have c31: "unat c * ?bs < 2 ^ 31" using lc(1) rl(1) r(8) by simp
    have b0: "buf \<noteq> 0" using rl(2) by auto
    let ?p = "(buf + m, block + c, rest - m, drop (unat m) left, written + int (unat m))"
    have st: "wr_at ?b buf0 off len data ?p \<and> unat block + unat c \<le> unat (bd_block_count ?b) \<and> unat m \<le> length left \<and>
      memcpy_at (unat block * ?bs) (take (unat m) left) (wr_done off data pos xs) = wr_done off data ?p xs"
    proof (cases "c = 0")
      case True
      then show ?thesis using r(1) a by (simp add: m_def pos at_pos_def)
    next
      case f: False
      have "unat m \<le> unat rest" using um lc by simp
      from wr_at_step[OF r(1)[unfolded pos] r(3-5) um this f r(6)] show ?thesis by (simp add: pos)
    qed
    have bc: "unat block + unat c \<le> unat (bd_block_count ?b)" using st by blast
    obtain s1 where w: "bio_write_block drv d left buf block c s = Some (int (unat m), s1)" "holds s1 d (wr_done off data ?p xs)" "meta_same s s1"
      using bio_write_block_ok[OF r(2) b0 bc c31, of left] st um by (auto simp: meta_same_def)
    have "default_write_blocks drv d pos s = Some (Inr ?p, s1)"
      using False w(1) by (auto simp: default_write_blocks_def pos Let_def c_def[symmetric] m_def io_err_ok mult.commute)
    moreover have "unat (rest - m) < ?bs" using um lc by (simp add: unat32_sub)
    ultimately show ?thesis using st w(2,3) by (intro exI[of _ ?p] exI[of _ s1]) simp
  qed
qed

lemma default_write_last_ok:
  assumes r: "wr_at (bdev_of s d) buf0 off len data pos" "holds s d (wr_done off data pos xs)"
    "off + len \<le> length xs" "geom_ok (bdev_of s d) xs" "len \<le> length data" "unat (fst (snd (snd pos))) < unat (bd_block_size (bdev_of s d))"
  shows "\<exists>s'. default_write_last drv d pos s = Some (int len, s') \<and> meta_same s s' \<and> holds s' d (memcpy_at off (take len data) xs)"
proof -
  obtain buf block rest left written where pos: "pos = (buf, block, rest, left, written)" by (cases pos)
  let ?b = "bdev_of s d" let ?bs = "unat (bd_block_size ?b)"
  have a: "nat written + unat rest = len" "rest \<noteq> 0 \<longrightarrow> unat block * ?bs = off + nat written" "left = drop (nat written) data" "0 \<le> written"
    using r(1) by (auto simp: wr_at_def at_pos_def pos)
  show ?thesis
  proof (cases "rest = 0")
    case True
    then have "nat written = len" using a by simp
    then show ?thesis using True r(2) a(4) by (auto simp: default_write_last_def pos meta_same_def)
  next
    case False
    then have p: "unat block * ?bs = off + nat written" using a by simp
    have "unat block * ?bs < unat (bd_block_count ?b) * ?bs"
      using p a(1) r(3,4) False unat_gt_0[of rest] by (simp add: geom_ok_def)
    then have bc: "unat block < unat (bd_block_count ?b)" by simp
    let ?ys = "take (unat rest) left"
    have ly: "length ?ys = unat rest" using a(1,3) r(5) by simp
    have "0 + length ?ys \<le> ?bs" using r(6) ly by (simp add: pos)
    from update_block[OF r(2) bc this] obtain temp s1 s' where u: "bio_read_block drv d TEMP block 1 s = Some (int ?bs, temp, s1)"
      "store_at 0 ?ys temp = Some (memcpy_at 0 ?ys temp)" "bio_write_block drv d (memcpy_at 0 ?ys temp) TEMP block 1 s1 = Some (int ?bs, s')"
      "holds s' d (memcpy_at (unat block * ?bs) ?ys (wr_done off data pos xs))" "meta_same s s'" "meta_same s s1" by auto
    have ld: "load_at 0 (unat rest) left = Some ?ys" using ly by (simp add: load_at_def)
    have tk: "take len data = take (nat written) data @ ?ys" using a(1,3) by (metis take_add)
    have "length (take (nat written) data) = nat written" using a(1) r(5) by simp
    then have "memcpy_at off (take len data) xs = memcpy_at (unat block * ?bs) ?ys (wr_done off data pos xs)"
      unfolding pos p snd_conv tk by (subst memcpy_at_append) (use ly a(1) r(3) in auto)
    moreover have "bdev_of s1 = bdev_of s" "bdev_of s' = bdev_of s" using u(5,6) by (simp_all add: meta_same_def)
    moreover have "written + int (unat rest) = int len" using a(1,4) by (simp flip: a(1) uint_nat)
    moreover have "rest > 0" using False by (simp add: word_neq_0_conv)
    ultimately show ?thesis using u ld by (simp add: default_write_last_def pos io_err_ok)
  qed
qed

lemma bio_default_write_ok:
  assumes h: "holds s d xs" and r: "off + len \<le> length xs" "0 < len" "unat buf + len < 2 ^ 32" "unat l = len" "buf \<noteq> 0" "len < 2 ^ 31"
    "len \<le> length data"
  shows "\<exists>s'. bio_default_write drv d data buf (int off) l s = Some (int len, s') \<and> meta_same s s' \<and> holds s' d (memcpy_at off (take len data) xs)"
proof -
  note g = holds_geom[OF h]
  obtain pos s1 where 1: "default_write_first drv d data buf (int off) l s = Some (Inr pos, s1)" "meta_same s s1"
    "wr_at (bdev_of s d) buf off len data pos" "holds s1 d (wr_done off data pos xs)"
    using default_write_first_ok[OF h r(1-4,7)] by blast
  have b1: "bdev_of s1 = bdev_of s" using 1(2) by (simp add: meta_same_def)
  obtain pos2 s2 where 2: "default_write_blocks drv d pos s1 = Some (Inr pos2, s2)" "meta_same s1 s2"
    "wr_at (bdev_of s d) buf off len data pos2" "holds s2 d (wr_done off data pos2 xs)" "unat (fst (snd (snd pos2))) < unat (bd_block_size (bdev_of s d))"
    using default_write_blocks_ok[of s1 d buf off len data pos xs] 1(3,4) r g unfolding b1 by blast
  have b2: "bdev_of s2 = bdev_of s" using 2(2) b1 by (simp add: meta_same_def)
  obtain s3 where 3: "default_write_last drv d pos2 s2 = Some (int len, s3)" "meta_same s2 s3" "holds s3 d (memcpy_at off (take len data) xs)"
    using default_write_last_ok[of s2 d buf off len data pos2 xs] 2(3-5) r g unfolding b2 by blast
  show ?thesis using 1(1) 2(1) 3 meta_trans[OF 1(2) meta_trans[OF 2(2) 3(2)]] by (simp add: bio_default_write_def)
qed


subsection \<open>Any device\<close>

lemma trim_range_len:
  assumes "geom_ok b xs"
  shows "unat (bio_trim_range b (int off) l) = min (unat l) (length xs - off)"
proof -
  have t: "bd_total_size b = int (length xs)" using assms by (simp add: geom_ok_def)
  show ?thesis
  proof (cases "off < length xs \<and> length xs < off + unat l")
    case True
    then have "int off + int (unat l) > int (length xs)" by linarith
    moreover have "l \<noteq> 0" using True by auto
    ultimately have tr: "bio_trim_range b (int off) l = of_nat (length xs - off)"
      using True by (simp add: bio_trim_range_def t of_nat_diff)
    have "length xs - off < 2 ^ 32" using True unat32_lt[of l] by linarith
    then have "unat (of_nat (length xs - off) :: u32) = length xs - off" unfolding unat_of_nat by simp
    moreover have "min (unat l) (length xs - off) = length xs - off" using True by linarith
    ultimately show ?thesis unfolding tr by simp
  next
    case False
    show ?thesis
    proof (cases "off < length xs")
      case True
      then have "\<not> int off + int (unat l) > int (length xs)" using False by linarith
      then show ?thesis using True False by (auto simp: bio_trim_range_def t)
    qed (simp add: bio_trim_range_def t)
  qed
qed

lemma sub_offset:
  assumes "unat (bd_offset b) * unat (bd_block_size b) < 2 ^ 32"
  shows "subdev_offset b (int off) = int (off + unat (bd_offset b) * unat (bd_block_size b))"
  using assms by (simp add: subdev_offset_def unat_word_ariths flip: uint_nat)

lemma bio_read_ok:
  assumes "holds s d xs" "buf \<noteq> 0" "unat buf + unat l < 2 ^ 32" "unat l < 2 ^ 31"
  shows "\<exists>s'. bio_read drv d buf (int off) l s = Some (int (min (unat l) (length xs - off)), take (unat l) (drop off xs), s') \<and> same s s'"
  using assms
proof (induction arbitrary: off l rule: dev_holds.induct)
  case (holds_mem s d xs)
  let ?b = "bdev_of s d" define t where "t = bio_trim_range ?b (int off) l"
  have ut: "unat t = min (unat l) (length xs - off)" unfolding t_def by (rule trim_range_len[OF holds_mem(1)])
  have ref: "bd_ref ?b > 0" using holds_mem(1) by (simp add: geom_ok_def)
  show ?case
  proof (cases "t = 0")
    case True
    then have "min (unat l) (length xs - off) = 0" using ut by simp
    then show ?thesis using True ref holds_mem.prems(1) by (subst bio_read.simps) (auto simp: t_def min_def split: if_splits)
  next
    case False
    have le: "off + unat t \<le> length xs" using ut False by (auto simp: unat_gt_0[symmetric] simp del: unat_gt_0)
    have "sint t = int (unat t)" using ut holds_mem.prems(3) by (intro sint32_small) simp
    moreover have "take (unat t) (drop off (mem_bytes s d)) = take (unat l) (drop off xs)"
      using le ut by (subst holds_mem(9)) (auto simp: drop_take min_def)
    ultimately have "bio_read drv d buf (int off) l s = Some (int (unat t), take (unat l) (drop off xs), s)"
      using False ref holds_mem.prems(1) holds_mem(2,8) le
      by (subst bio_read.simps) (simp add: t_def[symmetric] mem_bdev_read_def load_at_def)
    then show ?thesis unfolding ut by auto
  qed
next
  case (holds_driver s d xs)
  let ?b = "bdev_of s d" define t where "t = bio_trim_range ?b (int off) l"
  have ut: "unat t = min (unat l) (length xs - off)" unfolding t_def by (rule trim_range_len[OF holds_driver(1)])
  have ref: "bd_ref ?b > 0" using holds_driver(1) by (simp add: geom_ok_def)
  show ?case
  proof (cases "t = 0")
    case True
    then have "min (unat l) (length xs - off) = 0" using ut by simp
    then show ?thesis using True ref holds_driver.prems(1) by (subst bio_read.simps) (auto simp: t_def min_def split: if_splits)
  next
    case False
    then have p: "0 < unat t" "off + unat t \<le> length xs" using ut by (auto simp: unat_gt_0[symmetric] simp del: unat_gt_0)
    have "holds s d xs" using holds_driver(1-7) by (rule dev_holds.holds_driver)
    have tl: "unat buf + unat t < 2 ^ 32" "unat t < 2 ^ 31" using ut holds_driver.prems(2,3) by simp_all
    obtain s' where "bio_default_read drv d buf (int off) t s = Some (int (unat t), take (unat t) (drop off xs), s')" "same s s'"
      using bio_default_read_ok[OF \<open>holds s d xs\<close> p(2,1) tl(1) refl holds_driver.prems(1) tl(2)] by blast
    moreover have "take (unat t) (drop off xs) = take (unat l) (drop off xs)" using ut by (simp add: min_def)
    ultimately show ?thesis using False ref holds_driver.prems(1) holds_driver(2) ut
      by (subst bio_read.simps) (simp add: t_def[symmetric])
  qed
next
  case (holds_sub s p ys d xs)
  let ?b = "bdev_of s d" define t where "t = bio_trim_range ?b (int off) l"
  let ?o = "unat (bd_offset ?b) * unat (bd_block_size ?b)"
  have ut: "unat t = min (unat l) (length xs - off)" unfolding t_def by (rule trim_range_len[OF holds_sub(2)])
  have ref: "bd_ref ?b > 0" using holds_sub(2) by (simp add: geom_ok_def)
  show ?case
  proof (cases "t = 0")
    case True
    then have "min (unat l) (length xs - off) = 0" using ut by simp
    then show ?thesis using True ref holds_sub.prems(1) by (subst bio_read.simps) (auto simp: t_def min_def split: if_splits)
  next
    case False
    then have pp: "0 < unat t" "off + unat t \<le> length xs" using ut by (auto simp: unat_gt_0[symmetric] simp del: unat_gt_0)
    have lx: "length xs \<le> length ys - ?o" using arg_cong[OF holds_sub(11), of length] by simp
    have mt: "min (unat t) (length ys - (off + ?o)) = unat t" using pp lx by (simp add: min_def)
    have tl: "unat buf + unat t < 2 ^ 32" "unat t < 2 ^ 31" using ut holds_sub.prems(2,3) by simp_all
    obtain s' where r: "bio_read drv p buf (int (off + ?o)) t s = Some (int (unat t), take (unat t) (drop (off + ?o) ys), s')" "same s s'"
      using holds_sub.IH[OF holds_sub.prems(1) tl, of "off + ?o"] unfolding mt by blast
    have "take (unat t) (drop (off + ?o) ys) = take (unat l) (drop off xs)"
      using pp(2) ut by (subst holds_sub(11)) (auto simp: drop_take min_def add.commute)
    then show ?thesis using False ref holds_sub.prems(1) holds_sub(3,7) r ut sub_offset[OF holds_sub(10), of off]
      by (subst bio_read.simps) (simp add: t_def[symmetric])
  qed
qed

lemma bio_write_ok:
  assumes "holds s d xs" "buf \<noteq> 0" "unat buf + unat l < 2 ^ 32" "unat l < 2 ^ 31" "unat l \<le> length data"
  shows "\<exists>s'. bio_write drv d data buf (int off) l s = Some (int (min (unat l) (length xs - off)), s') \<and> meta_same s s' \<and>
    holds s' d (memcpy_at off (take (min (unat l) (length xs - off)) data) xs)"
  using assms
proof (induction arbitrary: off l rule: dev_holds.induct)
  case (holds_mem s d xs)
  let ?b = "bdev_of s d" define t where "t = bio_trim_range ?b (int off) l"
  have ut: "unat t = min (unat l) (length xs - off)" unfolding t_def by (rule trim_range_len[OF holds_mem(1)])
  have ref: "bd_ref ?b > 0" using holds_mem(1) by (simp add: geom_ok_def)
  show ?case
  proof (cases "t = 0")
    case True
    then have "min (unat l) (length xs - off) = 0" using ut by simp
    moreover have "holds s d xs" by (rule dev_holds.holds_mem[OF holds_mem(1-9)])
    ultimately show ?thesis using True ref holds_mem.prems(1) by (subst bio_write.simps) (simp add: t_def meta_same_def)
  next
    case False
    have le: "off + unat t \<le> length xs" "unat t \<le> length data" using ut False holds_mem.prems(4) by (auto simp: unat_gt_0[symmetric] simp del: unat_gt_0)
    have sn: "sint t = int (unat t)" using ut holds_mem.prems(3) by (intro sint32_small) simp
    let ?ys = "take (unat t) data"
    have ly: "off + length ?ys \<le> length xs" "length ?ys = unat t" using le by simp_all
    define s' where "s' = s\<lparr>mem_bytes := (mem_bytes s)(d := memcpy_at off ?ys (mem_bytes s d))\<rparr>"
    have h: "holds s' d (memcpy_at off ?ys xs)" unfolding s'_def by (rule mem_write_block_ok[OF holds_mem(1-9) ly(1)])
    have "meta_same s s'" by (simp add: s'_def meta_same_def)
    moreover have "bio_write drv d data buf (int off) l s = Some (int (unat t), s')"
      using False ref holds_mem.prems(1) holds_mem(3,8) le sn ly store_at_ok[of off ?ys "mem_bytes s d"]
      by (subst bio_write.simps) (simp add: t_def[symmetric] mem_bdev_write_def load_at_def s'_def)
    ultimately show ?thesis using h unfolding ut by auto
  qed
next
  case (holds_driver s d xs)
  let ?b = "bdev_of s d" define t where "t = bio_trim_range ?b (int off) l"
  have ut: "unat t = min (unat l) (length xs - off)" unfolding t_def by (rule trim_range_len[OF holds_driver(1)])
  have ref: "bd_ref ?b > 0" using holds_driver(1) by (simp add: geom_ok_def)
  have h: "holds s d xs" using holds_driver(1-7) by (rule dev_holds.holds_driver)
  show ?case
  proof (cases "t = 0")
    case True
    then have "min (unat l) (length xs - off) = 0" using ut by simp
    then show ?thesis using True ref holds_driver.prems(1) h by (subst bio_write.simps) (simp add: t_def meta_same_def)
  next
    case False
    then have p: "0 < unat t" "off + unat t \<le> length xs" using ut by (auto simp: unat_gt_0[symmetric] simp del: unat_gt_0)
    have tl: "unat buf + unat t < 2 ^ 32" "unat t < 2 ^ 31" "unat t \<le> length data" using ut holds_driver.prems(2-4) by simp_all
    obtain s' where "bio_default_write drv d data buf (int off) t s = Some (int (unat t), s')" "meta_same s s'"
      "holds s' d (memcpy_at off (take (unat t) data) xs)"
      using bio_default_write_ok[OF h p(2,1) tl(1) refl holds_driver.prems(1) tl(2,3)] by blast
    then show ?thesis using False ref holds_driver.prems(1) holds_driver(3) unfolding ut[symmetric]
      by (subst bio_write.simps) (simp add: t_def[symmetric])
  qed
next
  case (holds_sub s p ys d xs)
  let ?b = "bdev_of s d" define t where "t = bio_trim_range ?b (int off) l"
  let ?o = "unat (bd_offset ?b) * unat (bd_block_size ?b)"
  have ut: "unat t = min (unat l) (length xs - off)" unfolding t_def by (rule trim_range_len[OF holds_sub(2)])
  have ref: "bd_ref ?b > 0" using holds_sub(2) by (simp add: geom_ok_def)
  show ?case
  proof (cases "t = 0")
    case True
    then have "min (unat l) (length xs - off) = 0" using ut by simp
    moreover have "holds s d xs" by (rule dev_holds.holds_sub[OF holds_sub(1-11)])
    ultimately show ?thesis using True ref holds_sub.prems(1) by (subst bio_write.simps) (simp add: t_def meta_same_def)
  next
    case False
    then have pp: "0 < unat t" "off + unat t \<le> length xs" using ut by (auto simp: unat_gt_0[symmetric] simp del: unat_gt_0)
    have lx: "length xs \<le> length ys - ?o" using arg_cong[OF holds_sub(11), of length] by simp
    have mt: "min (unat t) (length ys - (off + ?o)) = unat t" using pp lx by (simp add: min_def)
    have tl: "unat buf + unat t < 2 ^ 32" "unat t < 2 ^ 31" "unat t \<le> length data" using ut holds_sub.prems(2-4) by simp_all
    obtain s' where r: "bio_write drv p data buf (int (off + ?o)) t s = Some (int (unat t), s')" "meta_same s s'"
      "holds s' p (memcpy_at (off + ?o) (take (unat t) data) ys)"
      using holds_sub.IH[OF holds_sub.prems(1) tl, of "off + ?o"] unfolding mt by blast
    have bd: "bdev_of s' = bdev_of s" using r(2) by (simp add: meta_same_def)
    have le: "off + length (take (unat t) data) \<le> length xs" using pp(2) by simp
    have "holds s' d (memcpy_at off (take (unat t) data) xs)"
      by (rule sub_write_ok[OF holds_sub(2-11) holds_geom[OF holds_sub(1)] r(3) bd le])
    then show ?thesis using False ref holds_sub.prems(1) holds_sub(4,7) r(1,2) sub_offset[OF holds_sub(10), of off] unfolding ut[symmetric]
      by (subst bio_write.simps) (simp add: t_def[symmetric])
  qed
qed


subsection \<open>Erasing\<close>

lemma default_erase_loop_ok:
  assumes "holds s d xs" "off + unat remaining \<le> length xs" "eb = replicate (unat (bd_block_size (bdev_of s d))) v"
  shows "\<exists>s'. default_erase_loop drv d eb (int off) remaining erased s = Some (erased + int (unat remaining), s') \<and> meta_same s s' \<and>
    holds s' d (memcpy_at off (replicate (unat remaining) v) xs)"
  using assms
proof (induction "unat remaining" arbitrary: off remaining erased s xs rule: less_induct)
  case less
  let ?w = "bd_block_size (bdev_of s d)"
  note bs = bs_pos[OF holds_geom[OF less.prems(1)]]
  show ?case
  proof (cases "remaining = 0")
    case True
    then show ?thesis using less.prems(1) by (subst default_erase_loop.simps) (simp add: meta_same_def)
  next
    case False
    define c where "c = min remaining ?w"
    have uc: "unat c = min (unat remaining) (unat ?w)" by (simp add: c_def min_def word_le_nat_alt)
    have c0: "0 < unat c" "unat c \<le> unat remaining" "unat c \<le> unat ?w" using uc bs False by (auto simp: unat_gt_0 min_def)
    have tk: "take (unat c) eb = replicate (unat c) v" using less.prems(3) c0(3) by simp
    have mn: "min (unat c) (length xs - off) = unat c" using c0(2) less.prems(2) by simp
    obtain s1 where w: "bio_write drv d eb TEMP (int off) c s = Some (int (unat c), s1)" "meta_same s s1"
      "holds s1 d (memcpy_at off (replicate (unat c) v) xs)"
      using bio_write_ok[OF less.prems(1), of 32 c eb off] c0(3) bs less.prems(3) tk unfolding mn by auto
    have sb: "bdev_of s1 = bdev_of s" using w(2) by (simp add: meta_same_def)
    have e: "default_erase_loop drv d eb (int off) remaining erased s =
      default_erase_loop drv d eb (int (off + unat c)) (remaining - c) (erased + int (unat c)) s1"
      using False w(1) by (subst default_erase_loop.simps) (simp add: c_def[symmetric] word_neq_0_conv add.commute)
    have ur: "unat (remaining - c) = unat remaining - unat c" using c0(2) by (simp add: unat32_sub)
    have "unat (remaining - c) < unat remaining" using ur c0 by simp
    from less.hyps[OF this w(3), of "off + unat c" "erased + int (unat c)"] less.prems(2,3) c0(2)
    obtain s' where r: "default_erase_loop drv d eb (int (off + unat c)) (remaining - c) (erased + int (unat c)) s1 =
        Some (erased + int (unat c) + int (unat (remaining - c)), s')" "meta_same s1 s'"
      "holds s' d (memcpy_at (off + unat c) (replicate (unat (remaining - c)) v) (memcpy_at off (replicate (unat c) v) xs))"
      unfolding sb ur by auto
    have "int (unat c) + int (unat (remaining - c)) = int (unat remaining)" using ur c0(2) by (simp only: of_nat_add[symmetric])
    moreover have "replicate (unat remaining) v = replicate (unat c) v @ replicate (unat (remaining - c)) v"
      using ur c0(2) by (simp flip: replicate_add)
    then have "memcpy_at off (replicate (unat remaining) v) xs =
      memcpy_at (off + unat c) (replicate (unat (remaining - c)) v) (memcpy_at off (replicate (unat c) v) xs)"
      using memcpy_at_append[of off "replicate (unat c) v" "replicate (unat (remaining - c)) v" xs] ur c0(2) less.prems(2) by simp
    ultimately show ?thesis using r meta_trans[OF w(2) r(2)] unfolding e by (auto simp: algebra_simps)
  qed
qed

lemma bio_erase_ok:
  fixes l :: u32 and off :: nat
  assumes h: "holds s d xs" and e: "bd_erase (bdev_of s d) = ER_default"
  defines "n \<equiv> min (unat l) (length xs - off)"
  shows "\<exists>s'. bio_erase drv d (int off) l s = Some (int n, s') \<and> meta_same s s' \<and>
    holds s' d (memcpy_at off (replicate n (bd_erase_byte (bdev_of s d))) xs)"
proof -
  let ?b = "bdev_of s d" define t where "t = bio_trim_range ?b (int off) l"
  have ut: "unat t = n" unfolding t_def n_def by (rule trim_range_len[OF holds_geom[OF h]])
  have ref: "bd_ref ?b > 0" using holds_geom[OF h] by (simp add: geom_ok_def)
  show ?thesis
  proof (cases "t = 0")
    case True
    then have "n = 0" using ut by simp
    then show ?thesis using True ref h by (subst bio_erase.simps) (simp add: t_def meta_same_def)
  next
    case False
    then have "n \<noteq> 0" using ut unat_eq_0[of t] by simp
    then have "off + unat t \<le> length xs" using ut by (auto simp: n_def)
    from default_erase_loop_ok[OF h this refl, of "bd_erase_byte ?b" 0] show ?thesis
      using False ref e unfolding ut by (subst bio_erase.simps) (simp add: t_def[symmetric] bio_default_erase_def)
  qed
qed

end

section \<open>New devices\<close>

text \<open>A device keeps what it holds while references to devices are taken and a device is set up that it does not use.\<close>

definition others_kept :: "nat \<Rightarrow> 'w bio_state \<Rightarrow> 'w bio_state \<Rightarrow> bool" where
  "others_kept d s s' \<longleftrightarrow> hw s' = hw s \<and> (\<forall>e. e \<noteq> d \<longrightarrow> mem_bytes s' e = mem_bytes s e \<and>
     (\<exists>r \<ge> bd_ref (bdev_of s e). bdev_of s' e = (bdev_of s e)\<lparr>bd_ref := r\<rparr>))"

lemma holds_frame:
  assumes "dev_holds dbytes dbs s p ys" "p \<noteq> d" "\<And>e. bd_parent (bdev_of s e) \<noteq> Some d" "others_kept d s s'"
  shows "dev_holds dbytes dbs s' p ys"
  using assms
proof (induction rule: dev_holds.induct)
  case (holds_mem s p xs)
  then obtain r where "bdev_of s' p = (bdev_of s p)\<lparr>bd_ref := r\<rparr>" "bd_ref (bdev_of s p) \<le> r" "mem_bytes s' p = mem_bytes s p"
    unfolding others_kept_def by blast
  then show ?case using holds_mem(1-9) by (intro dev_holds.holds_mem) (auto simp: geom_ok_def)
next
  case (holds_driver s p xs)
  then obtain r where "bdev_of s' p = (bdev_of s p)\<lparr>bd_ref := r\<rparr>" "bd_ref (bdev_of s p) \<le> r" "hw s' = hw s"
    unfolding others_kept_def by blast
  then show ?case using holds_driver(1-7) by (intro dev_holds.holds_driver) (auto simp: geom_ok_def)
next
  case (holds_sub s q ys p xs)
  have q: "q \<noteq> d" using holds_sub(7) holds_sub.prems(2)[of p] by auto
  obtain r where r: "bdev_of s' p = (bdev_of s p)\<lparr>bd_ref := r\<rparr>" "bd_ref (bdev_of s p) \<le> r"
    using holds_sub.prems unfolding others_kept_def by blast
  obtain r' where r': "bdev_of s' q = (bdev_of s q)\<lparr>bd_ref := r'\<rparr>" using holds_sub.prems(3) q unfolding others_kept_def by blast
  have "dev_holds dbytes dbs s' q ys" by (rule holds_sub.IH[OF q holds_sub.prems(2,3)])
  then show ?case by (rule dev_holds.holds_sub) (use holds_sub(2-11) r r' in \<open>auto simp: geom_ok_def\<close>)
qed

lemma log2_512: "log2_uint 512 = 9"
  by code_simp

lemma upd_bdev_simps [simp]:
  "bdev_of (upd_bdev d f s) e = (if e = d then f (bdev_of s d) else bdev_of s e)" "bdevs (upd_bdev d f s) = bdevs s"
  "mem_bytes (upd_bdev d f s) = mem_bytes s" "hw (upd_bdev d f s) = hw s"
  by (simp_all add: upd_bdev_def)

lemma register_ok:
  assumes "\<not> ls_in_list d (bdevs s)"
  shows "\<exists>l. bio_register_device d s = Some ((bdev_inc_ref d s)\<lparr>bdevs := l\<rparr>) \<and> lcont l () = lcont (bdevs s) () @ [d]"
  using assms by (auto simp: bio_register_device_def bdev_inc_ref_def ls_add_tail_def ls_in_list_def ls_put_def)

lemma create_membdev_holds:
  assumes "\<not> ls_in_list d (bdevs s)" "unat len \<le> length m" "length m < 2 ^ 32"
  shows "\<exists>s'. create_membdev d nm m len s = Some (0, s') \<and> dev_holds dbytes dbs s' d (take (unat len div 512 * 512) m) \<and>
    lcont (bdevs s') () = lcont (bdevs s) () @ [d] \<and> bd_name (bdev_of s' d) = nm \<and> others_kept d s s'"
proof -
  have p: "ispow2 512" by (simp add: ispow2_def)
  have u: "unat (len div 512) = unat len div 512" by (simp add: unat_div_distrib)
  obtain s1 where s1: "bio_initialize_bdev d nm BLOCKSIZE (len div BLOCKSIZE) [] BIO_FLAGS_NONE s = Some s1"
    and b1: "bdev_of s1 d = (bdev_of s d)\<lparr>bd_name := nm, bd_block_size := 512, bd_block_count := len div 512, bd_block_shift := 9,
      bd_total_size := int (unat (len div 512)) * 512, bd_geometry := [], bd_erase_byte := 0, bd_ref := 0, bd_flags := 0,
      bd_read := BY_default, bd_read_block := BL_default, bd_write := BY_default, bd_write_block := BL_default, bd_erase := ER_default, bd_close := False\<rparr>"
    and o1: "\<And>e. e \<noteq> d \<Longrightarrow> bdev_of s1 e = bdev_of s e" "bdevs s1 = bdevs s" "mem_bytes s1 = mem_bytes s" "hw s1 = hw s"
    using assms(1) p by (auto simp: bio_initialize_bdev_def log2_512)
  define s2 where "s2 = upd_bdev d (\<lambda>b. b\<lparr>bd_read := BY_mem, bd_read_block := BL_mem, bd_write := BY_mem, bd_write_block := BL_mem\<rparr>)
       (s1\<lparr>mem_bytes := (mem_bytes s1)(d := m)\<rparr>)"
  have "\<not> ls_in_list d (bdevs s2)" using assms(1) o1 by (simp add: s2_def)
  from register_ok[OF this] obtain l where l: "bio_register_device d s2 = Some ((bdev_inc_ref d s2)\<lparr>bdevs := l\<rparr>)" "lcont l () = lcont (bdevs s) () @ [d]"
    using o1(2) by (auto simp: s2_def)
  define s' where "s' = (bdev_inc_ref d s2)\<lparr>bdevs := l\<rparr>"
  have c: "create_membdev d nm m len s = Some (0, s')"
    using s1 l by (simp add: create_membdev_def s2_def[symmetric] s'_def Let_def)
  have le: "unat len div 512 * 512 \<le> length m" using assms(2) by (meson div_times_less_eq_dividend le_trans)
  have b: "bdev_of s' d = (bdev_of s1 d)\<lparr>bd_read := BY_mem, bd_read_block := BL_mem, bd_write := BY_mem, bd_write_block := BL_mem, bd_ref := 1\<rparr>"
    "mem_bytes s' d = m" by (simp_all add: s'_def s2_def bdev_inc_ref_def b1)
  have "dev_holds dbytes dbs s' d (take (unat len div 512 * 512) m)"
    by (rule dev_holds.holds_mem) (use le assms(3) u in \<open>auto simp: b b1 geom_ok_def zdiv_int\<close>)
  moreover have "others_kept d s s'" unfolding others_kept_def
  proof (intro conjI allI impI)
    fix e assume e: "e \<noteq> d"
    show "mem_bytes s' e = mem_bytes s e" "\<exists>r\<ge>bd_ref (bdev_of s e). bdev_of s' e = (bdev_of s e)\<lparr>bd_ref := r\<rparr>"
      using e o1 by (auto simp: s'_def s2_def bdev_inc_ref_def intro!: exI[of _ "bd_ref (bdev_of s e)"])
  qed (simp add: s'_def s2_def bdev_inc_ref_def o1)
  ultimately show ?thesis using c l(2) by (auto simp: s'_def[symmetric] b b1) (simp add: s'_def)
qed


lemma block_size_pow2:
  assumes "geom_ok b xs"
  shows "ispow2 (bd_block_size b)" "bd_block_size b \<noteq> 0" "log2_uint (bd_block_size b) = bd_block_shift b"
proof -
  have u: "unat (bd_block_size b) = 2 ^ bd_block_shift b" using assms by (simp add: geom_ok_def)
  then show nz: "bd_block_size b \<noteq> 0" by auto
  show p: "ispow2 (bd_block_size b)" using pow2_and[of "bd_block_size b" "bd_block_shift b"] u by (simp add: ispow2_def and.commute)
  have "(2::nat) ^ log2_uint (bd_block_size b) = 2 ^ bd_block_shift b" using ispow2_log2[OF p nz] u by simp
  then show "log2_uint (bd_block_size b) = bd_block_shift b" by simp
qed

text \<open>Erase regions as drivers describe them: they end below \<open>2 ^ 64\<close>.\<close>

definition regions_ok :: "erase_geometry list \<Rightarrow> bool" where
  "regions_ok gs \<longleftrightarrow> (\<forall>g\<in>set gs. 0 \<le> eg_start g \<and> 0 \<le> eg_size g \<and> eg_start g + eg_size g < 2 ^ 64 \<and> unat (eg_erase_shift g) < 64)"

text \<open>Reference definitions: the region that a range of bytes is checked against, and whether it is accepted as a subdevice.\<close>

definition in_region :: "nat \<Rightarrow> nat \<Rightarrow> erase_geometry \<Rightarrow> bool" where
  "in_region start len g \<longleftrightarrow> eg_start g \<le> int start \<and> int (start + len) \<le> eg_start g + eg_size g"

definition checked_region :: "nat \<Rightarrow> nat \<Rightarrow> erase_geometry list \<Rightarrow> erase_geometry" where
  "checked_region start len gs = (case List.find (in_region start len) gs of Some g \<Rightarrow> g | None \<Rightarrow> last gs)"

definition subdev_accepted :: "bdev \<Rightarrow> u32 \<Rightarrow> u32 \<Rightarrow> bool" where
  "subdev_accepted b sb bc \<longleftrightarrow>
    (let start = unat sb * unat (bd_block_size b); len = unat bc * unat (bd_block_size b); gs = bd_geometry b in
     if gs = [] then unat sb + unat bc \<le> unat (bd_block_count b)
     else 2 ^ unat (eg_erase_shift (checked_region start len gs)) dvd start \<and>
          2 ^ unat (eg_erase_shift (checked_region start len gs)) dvd len)"

lemma uint_of_int64: "0 \<le> i \<Longrightarrow> i < 2 ^ 64 \<Longrightarrow> uint (of_int i :: u64) = i"
  by (simp add: uint_word_of_int)

lemma contains_range_ok:
  assumes g: "0 \<le> eg_start g" "0 \<le> eg_size g" "eg_start g + eg_size g < 2 ^ 64" and r: "unat bst + unat bsz < 2 ^ 64"
  shows "bio_contains_range (of_int (eg_start g)) (of_int (eg_size g)) bst bsz = Some (in_region (unat bst) (unat bsz) g)"
proof -
  have u: "uint (of_int (eg_start g) :: u64) = eg_start g" "uint (of_int (eg_size g) :: u64) = eg_size g"
    "uint (of_int (eg_start g) + of_int (eg_size g) :: u64) = eg_start g + eg_size g"
    using uint_of_int64[of "eg_start g"] uint_of_int64[of "eg_size g"] uint_of_int64[of "eg_start g + eg_size g"] g by auto
  have "unat (bst + bsz) = unat bst + unat bsz" using r by (simp add: unat_plus_if')
  then have v: "uint (bst + bsz) = int (unat bst + unat bsz)" "uint bst = int (unat bst)"
    by (simp_all only: uint_nat)
  show ?thesis unfolding bio_contains_range_def Let_def word_le_def u v in_region_def
    using g(2) by simp
qed

lemma find_geometry_ok:
  assumes "regions_ok gs" "unat bst + unat bsz < 2 ^ 64"
  shows "find_geometry bst bsz g gs =
    Some (case List.find (in_region (unat bst) (unat bsz)) gs of Some g \<Rightarrow> g | None \<Rightarrow> last (g # gs))"
  using assms(1)
proof (induction gs arbitrary: g)
  case (Cons h gs)
  then show ?case using contains_range_ok[of h bst bsz] assms(2) by (auto simp: regions_ok_def split: option.splits)
qed simp

lemma and_mask_dvd: "x AND (2 ^ k - 1) = 0 \<longleftrightarrow> 2 ^ k dvd unat x" for x :: u64
proof -
  have "x AND (2 ^ k - 1) = take_bit k x" by (simp add: take_bit_eq_mask mask_eq_exp_minus_1)
  moreover have "take_bit k x = 0 \<longleftrightarrow> unat (take_bit k x) = 0" by (simp add: unat_eq_0)
  moreover have "unat (take_bit k x) = unat x mod 2 ^ k" by (simp add: unsigned_take_bit_eq flip: take_bit_eq_mod)
  ultimately show ?thesis by (simp add: dvd_eq_mod_eq_0)
qed

lemma unat_push32:
  fixes x :: u32
  assumes "k < 31"
  shows "unat (push_bit k (ucast x :: u64)) = unat x * 2 ^ k" "unat x * 2 ^ k < 2 ^ 63"
proof -
  have "(2 :: nat) ^ k \<le> 2 ^ 31" using assms by (intro power_increasing) simp_all
  then have "unat x * 2 ^ k \<le> unat x * 2 ^ 31" by simp
  also have "\<dots> < 2 ^ 32 * 2 ^ 31" using unat32_lt[of x] by simp
  finally show l: "unat x * 2 ^ k < 2 ^ 63" by simp
  have "unat x < 2 ^ 64" using unat32_lt[of x] by (rule less_trans) simp
  then have "unat (ucast x :: u64) = unat x" by (simp add: unsigned_ucast_eq take_bit_nat_eq_self)
  moreover have "unat (push_bit k (ucast x :: u64)) = take_bit 64 (push_bit k (unat (ucast x :: u64)))"
    by (simp add: unsigned_push_bit_eq)
  then have "unat (push_bit k (ucast x :: u64)) = (unat (ucast x :: u64) * 2 ^ k) mod 2 ^ 64"
    by (simp only: push_bit_eq_mult take_bit_eq_mod)
  ultimately show "unat (push_bit k (ucast x :: u64)) = unat x * 2 ^ k" using l by simp
qed

lemma subdev_geometry_decides:
  assumes "geom_ok b ys" "regions_ok (bd_geometry b)"
  shows "\<exists>geo. subdev_geometry b sb bc = Some (if subdev_accepted b sb bc then Inr geo else Inl ERR_INVALID_ARGS)"
proof (cases "bd_geometry b")
  case Nil
  have "sb + bc < sb \<or> sb + bc > bd_block_count b \<longleftrightarrow> \<not> unat sb + unat bc \<le> unat (bd_block_count b)"
    using unat32_lt[of bc] unat32_lt[of "bd_block_count b"] by (auto simp: word_less_nat_alt unat_plus_if')
  then show ?thesis using Nil by (auto simp: subdev_geometry_def subdev_accepted_def Let_def)
next
  case (Cons g gs)
  let ?sh = "bd_block_shift b"
  let ?bst = "push_bit ?sh (ucast sb :: u64)" and ?bsz = "push_bit ?sh (ucast bc :: u64)"
  have bs: "unat (bd_block_size b) = 2 ^ ?sh" "?sh < 31" using assms(1) by (simp_all add: geom_ok_def)
  note u = unat_push32[OF bs(2), of sb] unat_push32[OF bs(2), of bc]
  have lt: "unat ?bst + unat ?bsz < 2 ^ 64" using u by simp
  let ?geo = "checked_region (unat sb * 2 ^ ?sh) (unat bc * 2 ^ ?sh) (bd_geometry b)"
  have f: "find_geometry ?bst ?bsz g (g # gs) = Some ?geo"
    using find_geometry_ok[OF _ lt, of "g # gs" g] assms(2) Cons by (simp add: checked_region_def u split: option.splits)
  note d = and_mask_dvd[of ?bst "unat (eg_erase_shift ?geo)"] and_mask_dvd[of ?bsz "unat (eg_erase_shift ?geo)"]
  show ?thesis
    using f d u unfolding Cons by (auto simp: subdev_geometry_def Cons Let_def subdev_accepted_def bs(1) simp del: find_geometry.simps)
qed

lemma publish_holds:
  assumes opn: "open_walk pn (bdev_of s) (lcont (bdevs s) ()) = Some (Some p)" and h: "dev_holds dbytes dbs s p ys"
    and d: "d \<noteq> p" "\<not> ls_in_list d (bdevs s)" "\<And>e. bd_parent (bdev_of s e) \<noteq> Some d" and g: "subdev_geometry (bdev_of s p) sb bc = Some (Inr geo)"
  shows "\<exists>s'. bio_publish_subdevice (Some d) pn nm sb bc s = Some (NO_ERROR, s') \<and> dev_holds dbytes dbs s' p ys \<and>
    (unat sb + unat bc \<le> unat (bd_block_count (bdev_of s p)) \<and> unat sb * unat (bd_block_size (bdev_of s p)) < 2 ^ 32 \<longrightarrow>
     dev_holds dbytes dbs s' d (take (unat bc * unat (bd_block_size (bdev_of s p))) (drop (unat sb * unat (bd_block_size (bdev_of s p))) ys))) \<and>
    lcont (bdevs s') () = lcont (bdevs s) () @ [d] \<and> bd_ref (bdev_of s' p) = bd_ref (bdev_of s p) + 1 \<and> others_kept d s s'"
proof -
  let ?b = "bdev_of s p" let ?bs = "unat (bd_block_size ?b)"
  note G = holds_geom[OF h]
  note pw = block_size_pow2[OF G]
  define s0 where "s0 = bdev_inc_ref p s"
  have o0: "bdev_of s0 e = (if e = p then ?b\<lparr>bd_ref := bd_ref ?b + 1\<rparr> else bdev_of s e)" "bdevs s0 = bdevs s" "mem_bytes s0 = mem_bytes s" "hw s0 = hw s" for e
    by (simp_all add: s0_def bdev_inc_ref_def)
  have op: "bio_open pn s = Some (Some p, s0)" using opn by (simp add: bio_open_def s0_def)
  have gm: "subdev_geometry (bdev_of s0 p) sb bc = Some (Inr geo)"
    using g by (simp add: subdev_geometry_def o0 cong: list.case_cong)
  obtain s1 where s1: "bio_initialize_bdev d nm (bd_block_size (bdev_of s0 p)) bc geo BIO_FLAGS_NONE s0 = Some s1"
    and b1: "bdev_of s1 d = (bdev_of s d)\<lparr>bd_name := nm, bd_block_size := bd_block_size ?b, bd_block_count := bc, bd_block_shift := bd_block_shift ?b,
      bd_total_size := int (unat bc) * 2 ^ bd_block_shift ?b, bd_geometry := geo, bd_erase_byte := 0, bd_ref := 0, bd_flags := 0,
      bd_read := BY_default, bd_read_block := BL_default, bd_write := BY_default, bd_write_block := BL_default, bd_erase := ER_default, bd_close := False\<rparr>"
    and o1: "\<And>e. e \<noteq> d \<Longrightarrow> bdev_of s1 e = bdev_of s0 e" "bdevs s1 = bdevs s" "mem_bytes s1 = mem_bytes s" "hw s1 = hw s"
    using d(1,2) pw by (auto simp: bio_initialize_bdev_def o0)
  define f where "f = (\<lambda>b :: bdev. b\<lparr>bd_parent := Some p, bd_offset := sb, bd_read := BY_subdev, bd_read_block := BL_subdev, bd_write := BY_subdev,
      bd_write_block := BL_subdev, bd_erase := ER_subdev, bd_close := True\<rparr>)"
  define s2 where "s2 = upd_bdev d f s1"
  have "\<not> ls_in_list d (bdevs s2)" using d(2) o1 by (simp add: s2_def)
  from register_ok[OF this] obtain l where l: "bio_register_device d s2 = Some ((bdev_inc_ref d s2)\<lparr>bdevs := l\<rparr>)" "lcont l () = lcont (bdevs s) () @ [d]"
    using o1(2) by (auto simp: s2_def)
  define s' where "s' = (bdev_inc_ref d s2)\<lparr>bdevs := l\<rparr>"
  have c: "bio_publish_subdevice (Some d) pn nm sb bc s = Some (NO_ERROR, s')"
    using op gm s1 l by (simp add: bio_publish_subdevice_def s2_def f_def s'_def Let_def)
  have bd: "bdev_of s' d = (f (bdev_of s1 d))\<lparr>bd_ref := 1\<rparr>" "e \<noteq> d \<Longrightarrow> bdev_of s' e = bdev_of s0 e" "mem_bytes s' = mem_bytes s" "hw s' = hw s" for e
    by (simp_all add: s'_def s2_def bdev_inc_ref_def b1 o1 f_def)
  have "\<exists>r\<ge>bd_ref (bdev_of s e). bdev_of s' e = (bdev_of s e)\<lparr>bd_ref := r\<rparr>" if "e \<noteq> d" for e
    using bd(2)[OF that] o0(1)[of e]
    by (cases "e = p") (auto intro: exI[of _ "bd_ref (bdev_of s p) + 1"] exI[of _ "bd_ref (bdev_of s e)"])
  then have ok: "others_kept d s s'" unfolding others_kept_def using bd(3,4) by simp
  have hp: "dev_holds dbytes dbs s' p ys" by (rule holds_frame[OF h d(1)[symmetric] d(3) ok])
  have "dev_holds dbytes dbs s' d (take (unat bc * ?bs) (drop (unat sb * ?bs) ys))"
    if r: "unat sb + unat bc \<le> unat (bd_block_count ?b)" "unat sb * ?bs < 2 ^ 32"
  proof -
    have lx: "length (take (unat bc * ?bs) (drop (unat sb * ?bs) ys)) = unat bc * ?bs"
      using mult_le_mono1[OF r(1), of ?bs] G by (simp add: geom_ok_def algebra_simps)
    show ?thesis
      by (rule dev_holds.holds_sub[OF hp]) (use lx r G d(1) bd o0 in \<open>auto simp: b1 f_def geom_ok_def\<close>)
  qed
  moreover have "bd_ref (bdev_of s' p) = bd_ref (bdev_of s p) + 1" using bd(2)[of p] d(1) o0 by simp
  ultimately show ?thesis using c hp ok l(2) by (auto simp: s'_def[symmetric]) (simp add: s'_def)
qed

text \<open>Without memory, or when the range is not accepted, the call fails and the reference to the parent is given back.\<close>

lemma publish_refused:
  assumes opn: "open_walk pn (bdev_of s) (lcont (bdevs s) ()) = Some (Some p)" and ref: "bd_ref (bdev_of s p) > 0"
  shows "bio_publish_subdevice None pn nm sb bc s = Some (ERR_NO_MEMORY, s)"
    "subdev_geometry (bdev_of s p) sb bc = Some (Inl e) \<Longrightarrow> bio_publish_subdevice (Some d) pn nm sb bc s = Some (e, s)"
proof -
  have op: "bio_open pn s = Some (Some p, bdev_inc_ref p s)" using opn by (simp add: bio_open_def)
  have dec: "bdev_dec_ref p (bdev_inc_ref p s) = Some s"
    using ref by (subst bdev_dec_ref.simps) (simp add: bdev_inc_ref_def upd_bdev_def)
  show "bio_publish_subdevice None pn nm sb bc s = Some (ERR_NO_MEMORY, s)"
    by (simp add: bio_publish_subdevice_def op bio_close_def dec)
  assume "subdev_geometry (bdev_of s p) sb bc = Some (Inl e)"
  then have "subdev_geometry (bdev_of (bdev_inc_ref p s) p) sb bc = Some (Inl e)"
    by (simp add: subdev_geometry_def bdev_inc_ref_def cong: list.case_cong)
  then show "bio_publish_subdevice (Some d) pn nm sb bc s = Some (e, s)"
    by (simp add: bio_publish_subdevice_def op bio_close_def dec)
qed

section \<open>A device as its clients see it\<close>

locale byte_device =
  fixes rd :: "u32 \<Rightarrow> int \<Rightarrow> u32 \<Rightarrow> 's \<Rightarrow> (int \<times> u8 list \<times> 's) option"
    and wr :: "u8 list \<Rightarrow> u32 \<Rightarrow> int \<Rightarrow> u32 \<Rightarrow> 's \<Rightarrow> (int \<times> 's) option"
    and bytes_are :: "'s \<Rightarrow> u8 list \<Rightarrow> bool"
  assumes rd_law: "bytes_are s xs \<Longrightarrow> p \<noteq> 0 \<Longrightarrow> unat p + unat l < 2 ^ 32 \<Longrightarrow> unat l < 2 ^ 31 \<Longrightarrow> off + unat l \<le> length xs \<Longrightarrow>
      \<exists>s'. rd p (int off) l s = Some (int (unat l), take (unat l) (drop off xs), s') \<and> bytes_are s' xs"
    and wr_law: "bytes_are s xs \<Longrightarrow> p \<noteq> 0 \<Longrightarrow> unat p + unat l < 2 ^ 32 \<Longrightarrow> unat l < 2 ^ 31 \<Longrightarrow> off + unat l \<le> length xs \<Longrightarrow>
      length data = unat l \<Longrightarrow> \<exists>s'. wr data p (int off) l s = Some (int (unat l), s') \<and> bytes_are s' (memcpy_at off data xs)"

text \<open>Every block device, whatever it is made of, is one.\<close>

sublocale bio_drivers \<subseteq> dev: byte_device "bio_read drv d" "bio_write drv d" "\<lambda>s. holds s d" for d
proof
  fix s xs off and p l :: u32
  assume "holds s d xs" "p \<noteq> 0" "unat p + unat l < 2 ^ 32" "unat l < 2 ^ 31" "off + unat l \<le> length xs"
  then show "\<exists>s'. bio_read drv d p (int off) l s = Some (int (unat l), take (unat l) (drop off xs), s') \<and> holds s' d xs"
    using bio_read_ok[of s d xs p l off] same_holds by (fastforce simp: min_absorb1)
next
  fix s xs off and p l :: u32 and data :: "u8 list"
  assume "holds s d xs" "p \<noteq> 0" "unat p + unat l < 2 ^ 32" "unat l < 2 ^ 31" "off + unat l \<le> length xs" "length data = unat l"
  then show "\<exists>s'. bio_write drv d data p (int off) l s = Some (int (unat l), s') \<and> holds s' d (memcpy_at off data xs)"
    using bio_write_ok[of s d xs p l data off] by (fastforce simp: min_absorb1)
qed

section \<open>The memory device as a driver\<close>

text \<open>The block hooks of \<open>mem.c\<close> for a device that uses the default byte hooks.\<close>

definition null_bdev :: bdev where
  "null_bdev = \<lparr>bd_ref = 0, bd_name = [], bd_total_size = 0, bd_block_size = 0, bd_block_shift = 0, bd_block_count = 0, bd_geometry = [],
     bd_erase_byte = 0, bd_flags = 0, bd_read = BY_default, bd_read_block = BL_default, bd_write = BY_default, bd_write_block = BL_default,
     bd_erase = ER_default, bd_close = False, bd_parent = None, bd_offset = 0\<rparr>"

definition ram_state :: "(nat \<Rightarrow> u8 list) \<Rightarrow> unit bio_state" where
  "ram_state w = \<lparr>bdevs = ls_empty, bdev_of = (\<lambda>_. null_bdev), mem_bytes = w, hw = ()\<rparr>"

definition ram_driver :: "(nat \<Rightarrow> u8 list) bio_driver" where
  "ram_driver = \<lparr>
     drv_read_block = (\<lambda>d b c w. case mem_bdev_read_block d b c (ram_state w) of
       Some (err, bs, s) \<Rightarrow> (err, bs, mem_bytes s) | None \<Rightarrow> (ERR_IO, [], w)),
     drv_write_block = (\<lambda>d data b c w. case mem_bdev_write_block d data b c (ram_state w) of
       Some (err, s) \<Rightarrow> (err, mem_bytes s) | None \<Rightarrow> (ERR_IO, w))\<rparr>"

definition ram_bytes :: "nat \<Rightarrow> (nat \<Rightarrow> u8 list) \<Rightarrow> u8 list" where
  "ram_bytes d w = (if length (w d) < 2 ^ 32 then w d else [])"

lemma ram_block:
  assumes "(unat b + unat c) * 512 \<le> length (ram_bytes d w)" "unat c * 512 < 2 ^ 31"
  shows "unat (b * 512 :: u32) = unat b * 512" "unat (c * 512 :: u32) = unat c * 512" "sint (c * 512 :: u32) = int (unat c * 512)"
    "unat b * 512 + unat c * 512 \<le> length (w d)"
proof -
  have "length (ram_bytes d w) < 2 ^ 32" by (simp add: ram_bytes_def)
  have "unat b * 512 + unat c * 512 < 2 ^ 32" using assms(1) \<open>length (ram_bytes d w) < 2 ^ 32\<close> by simp
  then show ub: "unat (b * 512 :: u32) = unat b * 512" and uc: "unat (c * 512 :: u32) = unat c * 512" by (simp_all add: unat_word_ariths)
  show "sint (c * 512 :: u32) = int (unat c * 512)" using sint32_small[of "c * 512"] uc assms(2) by simp
  show "unat b * 512 + unat c * 512 \<le> length (w d)" using assms(1) by (auto simp: ram_bytes_def split: if_splits)
qed

interpretation ram: bio_drivers ram_driver ram_bytes "\<lambda>_. 512"
proof
  fix b c :: u32 and d and w :: "nat \<Rightarrow> u8 list"
  assume a: "(unat b + unat c) * 512 \<le> length (ram_bytes d w)" "unat c * 512 < 2 ^ 31"
  note r = ram_block[OF a]
  have e: "take (unat c * 512) (drop (unat b * 512) (w d)) = take (unat c * 512) (drop (unat b * 512) (ram_bytes d w))"
    using a(1) by (auto simp: ram_bytes_def)
  show "\<exists>w'. drv_read_block ram_driver d b c w = (int (unat c * 512), take (unat c * 512) (drop (unat b * 512) (ram_bytes d w)), w') \<and>
      (\<forall>e. ram_bytes e w' = ram_bytes e w)"
    using r by (simp add: ram_driver_def mem_bdev_read_block_def ram_state_def load_at_def e[symmetric])
next
  fix b c :: u32 and d and w :: "nat \<Rightarrow> u8 list" and data :: "u8 list"
  assume a: "(unat b + unat c) * 512 \<le> length (ram_bytes d w)" "unat c * 512 < 2 ^ 31" "unat c * 512 \<le> length data"
  note r = ram_block[OF a(1,2)]
  show "\<exists>w'. drv_write_block ram_driver d data b c w = (int (unat c * 512), w') \<and>
      ram_bytes d w' = memcpy_at (unat b * 512) (take (unat c * 512) data) (ram_bytes d w) \<and> (\<forall>e. e \<noteq> d \<longrightarrow> ram_bytes e w' = ram_bytes e w)"
    using r a by (auto simp: ram_driver_def mem_bdev_write_block_def ram_state_def load_at_def store_at_def ram_bytes_def)
qed

end
