(* ===== verification/Bcache.thy ===== *)
theory Bcache
  imports Bio_Access
begin

text \<open>
  The block cache: \<^verbatim>\<open>lib/bcache/bcache.c\<close>. The array \<open>blocks\<close> is a list, a block is its index in
  it, and \<open>bk_data\<close> is what the memory behind \<open>ptr\<close> holds. The two lists are an intrusive list store, in which
  linking a node that is still linked is None (the pointers of both lists would be broken). What \<open>malloc\<close>
  returns is an argument. The device is reached through \<open>bio_read\<close> and \<open>bio_write\<close> of \<open>Bio\<close>.
\<close>

section \<open>State\<close>

record bcache_block =
  bk_blocknum :: u32
  bk_ref_count :: int
  bk_is_dirty :: bool
  bk_ptr :: u32
  bk_data :: "u8 list"

datatype bc_list = BC_free | BC_lru

record bcache_stats =
  st_hits :: u32
  st_depth :: u32
  st_misses :: u32
  st_reads :: u32
  st_writes :: u32

record bcache =
  bc_dev :: nat
  bc_block_size :: u32
  bc_count :: int
  bc_stats :: bcache_stats
  bc_lists :: "(bc_list, nat) lstore"
  bc_blocks :: "bcache_block list"

abbreviation bc_lru :: "bcache \<Rightarrow> nat list" where "bc_lru c \<equiv> lcont (bc_lists c) BC_lru"
abbreviation bc_free :: "bcache \<Rightarrow> nat list" where "bc_free c \<equiv> lcont (bc_lists c) BC_free"

definition upd_block :: "nat \<Rightarrow> (bcache_block \<Rightarrow> bcache_block) \<Rightarrow> bcache \<Rightarrow> bcache" where
  "upd_block i f c = c\<lparr>bc_blocks := (bc_blocks c)[i := f (bc_blocks c ! i)]\<rparr>"

definition upd_stats :: "(bcache_stats \<Rightarrow> bcache_stats) \<Rightarrow> bcache \<Rightarrow> bcache" where
  "upd_stats f c = c\<lparr>bc_stats := f (bc_stats c)\<rparr>"

section \<open>Creating and destroying a cache\<close>

text \<open>The array comes from \<open>malloc\<close> (\<open>mem\<close>, any values); \<open>ptrs i\<close> is the address that the \<open>i\<close>-th
  call in the loop returns and the bytes found there.\<close>

fun create_loop :: "(nat \<Rightarrow> u32 \<times> u8 list) \<Rightarrow> nat list \<Rightarrow> bcache \<Rightarrow> bcache option" where
  "create_loop ptrs [] c = Some c"
| "create_loop ptrs (i # is) c = do {
     let c = upd_block i (\<lambda>b. b\<lparr>bk_ref_count := 0, bk_is_dirty := False, bk_ptr := fst (ptrs i), bk_data := snd (ptrs i)\<rparr>) c;
     l \<leftarrow> ls_add_head BC_free i (bc_lists c);
     create_loop ptrs is (c\<lparr>bc_lists := l\<rparr>) }"

definition bcache_create :: "bcache_block list \<Rightarrow> (nat \<Rightarrow> u32 \<times> u8 list) \<Rightarrow> nat \<Rightarrow> u32 \<Rightarrow> int \<Rightarrow> bcache option" where
  "bcache_create mem ptrs dev block_size block_count =
     create_loop ptrs [0..<nat block_count]
       \<lparr>bc_dev = dev, bc_block_size = block_size, bc_count = block_count, bc_stats = \<lparr>st_hits = 0, st_depth = 0, st_misses = 0, st_reads = 0, st_writes = 0\<rparr>,
        bc_lists = ls_empty, bc_blocks = mem\<rparr>"

text \<open>The pointers that are freed, and the numbers of the dirty blocks that are warned about.\<close>

fun destroy_loop :: "bcache_block list \<Rightarrow> (u32 list \<times> u32 list) option" where
  "destroy_loop [] = Some ([], [])"
| "destroy_loop (b # bs) = do {
     DEBUG_ASSERT (bk_ref_count b = 0);
     (freed, warned) \<leftarrow> destroy_loop bs;
     Some (bk_ptr b # freed, (if bk_is_dirty b then [bk_blocknum b] else []) @ warned) }"

definition bcache_destroy :: "bcache \<Rightarrow> (u32 list \<times> u32 list) option" where
  "bcache_destroy c = destroy_loop (take (nat (bc_count c)) (bc_blocks c))"

section \<open>Finding and allocating blocks\<close>

definition flush_block :: "'w bio_driver \<Rightarrow> nat \<Rightarrow> bcache \<Rightarrow> 'w bio_state \<Rightarrow> (int \<times> bcache \<times> 'w bio_state) option" where
  "flush_block drv i c s = do {
     let b = bc_blocks c ! i;
     (rc, s) \<leftarrow> bio_write drv (bc_dev c) (bk_data b) (bk_ptr b) (int (unat (bk_blocknum b)) * int (unat (bc_block_size c))) (bc_block_size c) s;
     if rc < 0 then Some (rc, c, s)
     else Some (0, upd_stats (\<lambda>t. t\<lparr>st_writes := st_writes t + 1\<rparr>) (upd_block i (\<lambda>b. b\<lparr>bk_is_dirty := False\<rparr>) c), s) }"

text \<open>The walk of \<open>find_block\<close>: the block, and the depth it was found at.\<close>

fun find_walk :: "bcache_block list \<Rightarrow> u32 \<Rightarrow> nat list \<Rightarrow> u32 \<Rightarrow> (nat \<times> u32) option" where
  "find_walk bl bn [] depth = None"
| "find_walk bl bn (i # is) depth =
     (if bk_blocknum (bl ! i) = bn then Some (i, depth + 1) else find_walk bl bn is (depth + 1))"

definition find_block :: "u32 \<Rightarrow> bcache \<Rightarrow> (nat option \<times> bcache) option" where
  "find_block bn c =
    (case find_walk (bc_blocks c) bn (bc_lru c) 0 of
       Some (i, depth) \<Rightarrow> do {
         l \<leftarrow> ls_delete i (bc_lists c);
         l \<leftarrow> ls_add_tail BC_lru i l;
         Some (Some i, upd_stats (\<lambda>t. t\<lparr>st_hits := st_hits t + 1, st_depth := st_depth t + depth\<rparr>) (c\<lparr>bc_lists := l\<rparr>)) }
     | None \<Rightarrow> Some (None, upd_stats (\<lambda>t. t\<lparr>st_misses := st_misses t + 1\<rparr>) c))"

definition alloc_block :: "'w bio_driver \<Rightarrow> bcache \<Rightarrow> 'w bio_state \<Rightarrow> (nat option \<times> bcache \<times> 'w bio_state) option" where
  "alloc_block drv c s = do {
     (r, l) \<leftarrow> ls_remove_head BC_free (bc_lists c);
     case r of
       Some i \<Rightarrow> do {
         let c = upd_block i (\<lambda>b. b\<lparr>bk_ref_count := 0\<rparr>) c;
         l \<leftarrow> ls_add_tail BC_lru i l;
         Some (Some i, c\<lparr>bc_lists := l\<rparr>, s) }
     | None \<Rightarrow>
         (case List.find (\<lambda>i. bk_ref_count (bc_blocks c ! i) = 0) (bc_lru c) of
            None \<Rightarrow> Some (None, c, s)
          | Some i \<Rightarrow> do {
              (err, c, s) \<leftarrow> (if bk_is_dirty (bc_blocks c ! i) then flush_block drv i c s else Some (0, c, s));
              if err \<noteq> 0 then Some (None, c, s)
              else do {
                l \<leftarrow> ls_delete i (bc_lists c);
                l \<leftarrow> ls_add_tail BC_lru i l;
                Some (Some i, c\<lparr>bc_lists := l\<rparr>, s) } }) }"

text \<open>A read stores its bytes at the start of the block's memory.\<close>

definition find_or_fill_block :: "'w bio_driver \<Rightarrow> u32 \<Rightarrow> bcache \<Rightarrow> 'w bio_state \<Rightarrow> (nat option \<times> bcache \<times> 'w bio_state) option" where
  "find_or_fill_block drv bn c s = do {
     (r, c) \<leftarrow> find_block bn c;
     (r, c, s) \<leftarrow> (case r of
         Some i \<Rightarrow> Some (Some i, c, s)
       | None \<Rightarrow> do {
           (r, c, s) \<leftarrow> alloc_block drv c s;
           i \<leftarrow> r;
           let c = upd_block i (\<lambda>b. b\<lparr>bk_blocknum := bn\<rparr>) c;
           (err, bs, s) \<leftarrow> bio_read drv (bc_dev c) (bk_ptr (bc_blocks c ! i)) (int (unat bn) * int (unat (bc_block_size c))) (bc_block_size c) s;
           m \<leftarrow> store_at 0 bs (bk_data (bc_blocks c ! i));
           let c = upd_block i (\<lambda>b. b\<lparr>bk_data := m\<rparr>) c;
           if err < 0 then do {
             l \<leftarrow> ls_add_tail BC_free i (bc_lists c);
             Some (None, c\<lparr>bc_lists := l\<rparr>, s) }
           else Some (Some i, upd_stats (\<lambda>t. t\<lparr>st_reads := st_reads t + 1\<rparr>) c, s) });
     case r of
       None \<Rightarrow> Some (None, c, s)
     | Some i \<Rightarrow> do {
         DEBUG_ASSERT (bk_blocknum (bc_blocks c ! i) = bn);
         Some (Some i, c, s) } }"

section \<open>Operations\<close>

text \<open>The bytes are those copied into \<open>buf\<close>.\<close>

definition bcache_read_block :: "'w bio_driver \<Rightarrow> u32 \<Rightarrow> bcache \<Rightarrow> 'w bio_state \<Rightarrow> (int \<times> u8 list \<times> bcache \<times> 'w bio_state) option" where
  "bcache_read_block drv bn c s = do {
     (r, c, s) \<leftarrow> find_or_fill_block drv bn c s;
     case r of
       None \<Rightarrow> Some (-1, [], c, s)
     | Some i \<Rightarrow> do {
         bs \<leftarrow> load_at 0 (unat (bc_block_size c)) (bk_data (bc_blocks c ! i));
         Some (0, bs, c, s) } }"

text \<open>\<open>ptr\<close> is true when it is not null; what is stored there is the index of the block, whose memory the
  caller then reads and writes.\<close>

definition bcache_get_block :: "'w bio_driver \<Rightarrow> bool \<Rightarrow> u32 \<Rightarrow> bcache \<Rightarrow> 'w bio_state \<Rightarrow> (int \<times> nat option \<times> bcache \<times> 'w bio_state) option" where
  "bcache_get_block drv ptr bn c s = do {
     DEBUG_ASSERT ptr;
     (r, c, s) \<leftarrow> find_or_fill_block drv bn c s;
     case r of
       None \<Rightarrow> Some (-1, None, c, s)
     | Some i \<Rightarrow> Some (0, Some i, upd_block i (\<lambda>b. b\<lparr>bk_ref_count := bk_ref_count b + 1\<rparr>) c, s) }"

definition bcache_put_block :: "u32 \<Rightarrow> bcache \<Rightarrow> (int \<times> bcache) option" where
  "bcache_put_block bn c = do {
     (r, c) \<leftarrow> find_block bn c;
     i \<leftarrow> r;
     DEBUG_ASSERT (bk_ref_count (bc_blocks c ! i) > 0);
     Some (0, upd_block i (\<lambda>b. b\<lparr>bk_ref_count := bk_ref_count b - 1\<rparr>) c) }"

definition bcache_mark_block_dirty :: "u32 \<Rightarrow> bcache \<Rightarrow> (int \<times> bcache) option" where
  "bcache_mark_block_dirty bn c = do {
     (r, c) \<leftarrow> find_block bn c;
     case r of
       None \<Rightarrow> Some (-1, c)
     | Some i \<Rightarrow> Some (0, upd_block i (\<lambda>b. b\<lparr>bk_is_dirty := True\<rparr>) c) }"

definition bcache_zero_block :: "'w bio_driver \<Rightarrow> u32 \<Rightarrow> bcache \<Rightarrow> 'w bio_state \<Rightarrow> (int \<times> bcache \<times> 'w bio_state) option" where
  "bcache_zero_block drv bn c s = do {
     (r, c) \<leftarrow> find_block bn c;
     (r, c, s) \<leftarrow> (case r of
         Some i \<Rightarrow> Some (Some i, c, s)
       | None \<Rightarrow> do {
           (r, c, s) \<leftarrow> alloc_block drv c s;
           case r of
             None \<Rightarrow> Some (None, c, s)
           | Some i \<Rightarrow> Some (Some i, upd_block i (\<lambda>b. b\<lparr>bk_blocknum := bn\<rparr>) c, s) });
     case r of
       None \<Rightarrow> Some (-1, c, s)
     | Some i \<Rightarrow> do {
         m \<leftarrow> store_at 0 (replicate (unat (bc_block_size c)) 0) (bk_data (bc_blocks c ! i));
         Some (0, upd_block i (\<lambda>b. b\<lparr>bk_data := m, bk_is_dirty := True\<rparr>) c, s) } }"

fun flush_loop :: "'w bio_driver \<Rightarrow> nat list \<Rightarrow> bcache \<Rightarrow> 'w bio_state \<Rightarrow> (int \<times> bcache \<times> 'w bio_state) option" where
  "flush_loop drv [] c s = Some (0, c, s)"
| "flush_loop drv (i # is) c s =
    (if bk_is_dirty (bc_blocks c ! i) then do {
       (err, c, s) \<leftarrow> flush_block drv i c s;
       if err \<noteq> 0 then Some (err, c, s) else flush_loop drv is c s }
     else flush_loop drv is c s)"

definition bcache_flush :: "'w bio_driver \<Rightarrow> bcache \<Rightarrow> 'w bio_state \<Rightarrow> (int \<times> bcache \<times> 'w bio_state) option" where
  "bcache_flush drv c s = flush_loop drv (bc_lru c) c s"

text \<open>The numbers that \<open>bcache_dump\<close> prints, in order.\<close>

definition bcache_dump :: "bcache \<Rightarrow> u32 list" where
  "bcache_dump c =
    (let t = bc_stats c; finds = st_hits t + st_misses t
     in [st_hits t, if finds \<noteq> 0 then st_hits t * 100 div finds else 0, if st_hits t \<noteq> 0 then st_depth t div st_hits t else 0,
         st_misses t, if finds \<noteq> 0 then st_misses t * 100 div finds else 0, st_reads t, st_writes t])"

end
