(* ===== verification/Bcache_Inv.thy ===== *)
theory Bcache_Inv
  imports Bcache
begin

text \<open>
  What a block cache stands for. The bytes \<open>ys\<close> that clients see are the bytes \<open>xs\<close> of the device with the
  cached blocks laid over them (\<open>maps\<close>). Every operation keeps the cache well formed (\<open>bc_wf\<close>) and changes
  \<open>ys\<close> as its specification says, whatever it moves between the cache and the device.
\<close>

section \<open>Blocks of a byte list\<close>

definition dslice :: "nat \<Rightarrow> nat \<Rightarrow> 'a list \<Rightarrow> 'a list" where
  "dslice n b xs = take n (drop (b * n) xs)"

definition in_dev :: "nat \<Rightarrow> nat \<Rightarrow> 'a list \<Rightarrow> bool" where
  "in_dev n b xs \<longleftrightarrow> b * n + n \<le> length xs"

lemma dslice_length: "in_dev n b xs \<Longrightarrow> length (dslice n b xs) = n"
  by (simp add: in_dev_def dslice_def)

lemma in_dev_memcpy [simp]: "in_dev n b xs \<Longrightarrow> length v = n \<Longrightarrow> length (memcpy_at (b * n) v xs) = length xs"
  by (simp add: in_dev_def)

lemma dslice_memcpy:
  assumes "in_dev n b xs" "in_dev n b' xs" "length v = n"
  shows "dslice n b' (memcpy_at (b * n) v xs) = (if b' = b then v else dslice n b' xs)"
proof (rule nth_equalityI)
  show "length (dslice n b' (memcpy_at (b * n) v xs)) = length (if b' = b then v else dslice n b' xs)"
    using assms by (simp add: dslice_def in_dev_def)
next
  fix k assume "k < length (dslice n b' (memcpy_at (b * n) v xs))"
  then have k: "k < n" by (simp add: dslice_def)
  have e: "dslice n b' zs ! k = zs ! (b' * n + k)" if "length zs = length xs" for zs :: "'a list"
    using k assms(2) that by (simp add: dslice_def in_dev_def)
  have "b' = b \<longleftrightarrow> b * n \<le> b' * n + k \<and> b' * n + k < b * n + n"
  proof
    assume r: "b * n \<le> b' * n + k \<and> b' * n + k < b * n + n"
    then have "b * n < (b' + 1) * n" "b' * n < (b + 1) * n" using k by simp_all
    then have "b < b' + 1" "b' < b + 1" by (simp_all only: mult_less_cancel2)
    then show "b' = b" by simp
  qed (use k in simp)
  then show "dslice n b' (memcpy_at (b * n) v xs) ! k = (if b' = b then v else dslice n b' xs) ! k"
    using e[of "memcpy_at (b * n) v xs"] e[of xs] assms k by (auto simp: nth_memcpy_at in_dev_def)
qed

lemma dslice_same: "in_dev n b xs \<Longrightarrow> memcpy_at (b * n) (dslice n b xs) xs = xs"
  by (simp add: memcpy_at_def dslice_def in_dev_def min_absorb2) (metis append_take_drop_id drop_drop add.commute)

definition dev_tail :: "nat \<Rightarrow> 'a list \<Rightarrow> 'a list" where
  "dev_tail n xs = drop (length xs div n * n) xs"

lemma dev_tail_memcpy:
  assumes "in_dev n b xs" "length v = n"
  shows "dev_tail n (memcpy_at (b * n) v xs) = dev_tail n xs"
proof (cases "n = 0")
  case False
  have "(b + 1) * n \<le> length xs" using assms(1) by (simp add: in_dev_def)
  then have "b + 1 \<le> length xs div n" using False by (simp add: less_eq_div_iff_mult_less_eq)
  then have "b \<le> length xs div n" "b * n + n \<le> length xs div n * n" using mult_le_mono1[of "b + 1" "length xs div n" n] by (simp, simp add: add.commute)
  then show ?thesis using assms by (simp add: dev_tail_def) (simp add: memcpy_at_def in_dev_def min_absorb2)
qed (use assms in simp)

lemma dslice_ext:
  assumes "length xs = length ys" "dev_tail n xs = dev_tail n ys" "0 < n" "\<And>b. in_dev n b xs \<Longrightarrow> dslice n b xs = dslice n b ys"
  shows "xs = ys"
proof (rule nth_equalityI)
  fix k assume k: "k < length xs"
  show "xs ! k = ys ! k"
  proof (cases "in_dev n (k div n) xs")
    case True
    have "zs ! k = dslice n (k div n) zs ! (k mod n)" if "length zs = length xs" for zs :: "'a list"
      using True that \<open>0 < n\<close> k by (simp add: dslice_def in_dev_def)
    then show ?thesis using assms(1) assms(4)[OF True] by metis
  next
    case False
    let ?t = "length xs div n * n"
    have "k div n * n + n > length xs" using False by (simp add: in_dev_def)
    moreover have "(k div n + 1) * n = k div n * n + n" by simp
    ultimately have "?t < (k div n + 1) * n" using div_times_less_eq_dividend[of "length xs" n] by linarith
    then have "length xs div n \<le> k div n" by (simp only: mult_less_cancel2) simp
    then have "?t \<le> k" using mult_le_mono1[of "length xs div n" "k div n" n] div_times_less_eq_dividend[of k n] by linarith
    then have "zs ! k = dev_tail n zs ! (k - ?t)" if "length zs = length xs" for zs :: "'a list"
      using that k by (simp add: dev_tail_def)
    then show ?thesis using assms(1,2) by metis
  qed
qed (fact assms(1))

section \<open>Well-formed caches\<close>

abbreviation bn_of :: "bcache_block list \<Rightarrow> nat \<Rightarrow> nat" where "bn_of bl i \<equiv> unat (bk_blocknum (bl ! i))"

definition slot_ok :: "nat \<Rightarrow> bcache_block \<Rightarrow> bool" where
  "slot_ok n b \<longleftrightarrow> length (bk_data b) = n \<and> bk_ptr b \<noteq> 0 \<and> unat (bk_ptr b) + n < 2 ^ 32 \<and> bk_ref_count b \<ge> 0"

definition bc_wf :: "bcache \<Rightarrow> bool" where
  "bc_wf c \<longleftrightarrow> ls_ok (bc_lists c) \<and> set (bc_lru c) \<union> set (bc_free c) = {..<length (bc_blocks c)} \<and>
     0 < bc_block_size c \<and> unat (bc_block_size c) < 2 ^ 31 \<and> bc_count c = int (length (bc_blocks c)) \<and>
     (\<forall>b \<in> set (bc_blocks c). slot_ok (unat (bc_block_size c)) b) \<and>
     (\<forall>i \<in> set (bc_free c). bk_ref_count (bc_blocks c ! i) = 0 \<and> \<not> bk_is_dirty (bc_blocks c ! i))"

text \<open>The blocks in \<open>L\<close> lie over the device. One that is not dirty equals what the device holds.\<close>

definition laid :: "nat \<Rightarrow> u8 list \<Rightarrow> u8 list \<Rightarrow> bcache_block \<Rightarrow> bool" where
  "laid n xs ys b \<longleftrightarrow> in_dev n (unat (bk_blocknum b)) xs \<and> bk_data b = dslice n (unat (bk_blocknum b)) ys \<and>
     (\<not> bk_is_dirty b \<longrightarrow> bk_data b = dslice n (unat (bk_blocknum b)) xs)"

definition maps :: "nat \<Rightarrow> bcache_block list \<Rightarrow> nat set \<Rightarrow> u8 list \<Rightarrow> u8 list \<Rightarrow> bool" where
  "maps n bl L xs ys \<longleftrightarrow> length ys = length xs \<and> dev_tail n ys = dev_tail n xs \<and> inj_on (bn_of bl) L \<and>
     (\<forall>i \<in> L. laid n xs ys (bl ! i)) \<and> (\<forall>b. in_dev n b xs \<longrightarrow> b \<notin> bn_of bl ` L \<longrightarrow> dslice n b ys = dslice n b xs)"

lemma in_dev_length: "length xs = length ys \<Longrightarrow> in_dev n b xs = in_dev n b ys"
  by (simp add: in_dev_def)

lemma maps_update:
  assumes m: "maps n bl L xs ys" and i: "i < length bl" "i \<in> L \<Longrightarrow> unat (bk_blocknum v) = bn_of bl i" "unat (bk_blocknum v) \<notin> bn_of bl ` (L - {i})"
    and b: "in_dev n (unat (bk_blocknum v)) xs" "length (bk_data v) = n"
      "\<not> bk_is_dirty v \<Longrightarrow> bk_data v = dslice n (unat (bk_blocknum v)) xs"
  shows "maps n (bl[i := v]) (insert i L) xs (memcpy_at (unat (bk_blocknum v) * n) (bk_data v) ys)"
proof -
  let ?b = "unat (bk_blocknum v)" let ?ys = "memcpy_at (?b * n) (bk_data v) ys"
  have l: "length ys = length xs" using m by (simp add: maps_def)
  note dv = in_dev_length[OF l]
  have sl: "dslice n b' ?ys = (if b' = ?b then bk_data v else dslice n b' ys)" if "in_dev n b' xs" for b'
    using dslice_memcpy[of n ?b ys b' "bk_data v"] b that dv by simp
  have bo: "bn_of (bl[i := v]) j = (if j = i then ?b else bn_of bl j)" for j using i(1) by simp
  have im: "bn_of (bl[i := v]) ` insert i L = insert ?b (bn_of bl ` (L - {i}))" by (auto simp only: bo image_iff insert_iff Diff_iff split: if_splits)
  have other: "bn_of bl l \<noteq> ?b" if "l \<in> L" "l \<noteq> i" for l using i(3) that by force
  have "inj_on (bn_of (bl[i := v])) (insert i L)"
  proof (rule inj_onI)
    fix j k assume jk: "j \<in> insert i L" "k \<in> insert i L" "bn_of (bl[i := v]) j = bn_of (bl[i := v]) k"
    have "inj_on (bn_of bl) L" using m by (simp add: maps_def)
    then show "j = k" using jk other unfolding bo by (cases "j = i"; cases "k = i") (auto dest: inj_onD)
  qed
  moreover have "laid n xs ?ys (bl[i := v] ! j)" if j: "j \<in> insert i L" for j
  proof (cases "j = i")
    case True then show ?thesis using b sl i(1) by (simp add: laid_def)
  next
    case False
    then have "j \<in> L" "bn_of bl j \<noteq> ?b" using j other by auto
    moreover then have "laid n xs ys (bl ! j)" using m by (simp add: maps_def)
    ultimately show ?thesis using False sl by (auto simp: laid_def)
  qed
  moreover have "dslice n b' ?ys = dslice n b' xs" if "in_dev n b' xs" "b' \<notin> bn_of (bl[i := v]) ` insert i L" for b'
  proof -
    have "b' \<noteq> ?b" "b' \<notin> bn_of bl ` L" using that(2) i(2) unfolding im by auto
    then show ?thesis using that(1) sl m by (simp add: maps_def)
  qed
  moreover have "length ?ys = length xs" "dev_tail n ?ys = dev_tail n xs" using b dv l m dev_tail_memcpy[of n ?b ys "bk_data v"] by (simp_all add: maps_def)
  ultimately show ?thesis unfolding maps_def by blast
qed


text \<open>Changes that leave the bytes of a block as they are.\<close>

lemma maps_touch:
  assumes "maps n bl L xs ys" "i < length bl" "i \<in> L" "bk_blocknum v = bk_blocknum (bl ! i)" "bk_data v = bk_data (bl ! i)"
    "\<not> bk_is_dirty v \<Longrightarrow> bk_data v = dslice n (bn_of bl i) xs"
  shows "maps n (bl[i := v]) L xs ys"
proof -
  have l: "laid n xs ys (bl ! i)" "length ys = length xs" "inj_on (bn_of bl) L" using assms(1,3) by (simp_all add: maps_def)
  have dv: "in_dev n (bn_of bl i) ys" using l in_dev_length[OF l(2)] by (simp add: laid_def)
  have "bk_data v = dslice n (bn_of bl i) ys" using l(1) assms(5) by (simp add: laid_def)
  then have "memcpy_at (unat (bk_blocknum v) * n) (bk_data v) ys = ys" "length (bk_data v) = n" using dslice_same[OF dv] dslice_length[OF dv] assms(4) by simp_all
  moreover have "unat (bk_blocknum v) \<notin> bn_of bl ` (L - {i})" using l(3) assms(3,4) by (auto dest: inj_onD)
  ultimately show ?thesis using maps_update[OF assms(1,2), of v] assms l(1) by (simp add: insert_absorb laid_def)
qed

lemma maps_frame: "maps n bl L xs ys \<Longrightarrow> i \<notin> L \<Longrightarrow> maps n (bl[i := v]) L xs ys"
proof -
  assume a: "maps n bl L xs ys" "i \<notin> L"
  have "bl[i := v] ! j = bl ! j" if "j \<in> L" for j using that a(2) by (metis nth_list_update_neq)
  then have "\<And>j. j \<in> L \<Longrightarrow> bn_of (bl[i := v]) j = bn_of bl j" "\<And>j. j \<in> L \<Longrightarrow> bl[i := v] ! j = bl ! j" by simp_all
  then show ?thesis using a(1) unfolding maps_def by (simp cong: inj_on_cong image_cong)
qed

text \<open>Writing a cached block to the device, and dropping one that the device holds.\<close>

lemma maps_flush:
  assumes m: "maps n bl L xs ys" and i: "i \<in> L"
  shows "maps n bl L (memcpy_at (bn_of bl i * n) (bk_data (bl ! i)) xs) ys"
proof -
  let ?xs = "memcpy_at (bn_of bl i * n) (bk_data (bl ! i)) xs"
  have l: "laid n xs ys (bl ! j)" "length ys = length xs" if "j \<in> L" for j using m that by (simp_all add: maps_def)
  have di: "in_dev n (bn_of bl i) xs" "bk_data (bl ! i) = dslice n (bn_of bl i) ys" using l(1)[OF i] by (simp_all add: laid_def)
  have ln: "length (bk_data (bl ! i)) = n" using di dslice_length[of n "bn_of bl i" ys] in_dev_length[OF l(2)[OF i]] by simp
  have lx: "length ?xs = length xs" using di ln by simp
  have sl: "dslice n b ?xs = (if b = bn_of bl i then bk_data (bl ! i) else dslice n b xs)" if "in_dev n b xs" for b
    using dslice_memcpy[OF di(1) that ln] .
  have "laid n ?xs ys (bl ! j)" if "j \<in> L" for j
    using l(1)[OF that] sl[of "bn_of bl j"] di(2) in_dev_length[OF lx] by (auto simp: laid_def)
  moreover have "dslice n b ys = dslice n b ?xs" if "in_dev n b xs" "b \<notin> bn_of bl ` L" for b
    using m that sl[OF that(1)] i by (auto simp: maps_def)
  ultimately show ?thesis using m lx dev_tail_memcpy[OF di(1) ln] in_dev_length[OF lx] unfolding maps_def by simp
qed

lemma maps_evict:
  assumes m: "maps n bl L xs ys" and i: "bk_data (bl ! i) = dslice n (bn_of bl i) xs"
  shows "maps n bl (L - {i}) xs ys"
proof (cases "i \<in> L")
  case True
  have "dslice n b ys = dslice n b xs" if b: "in_dev n b xs" "b \<notin> bn_of bl ` (L - {i})" for b
  proof (cases "b = bn_of bl i")
    case True then show ?thesis using m i \<open>i \<in> L\<close> by (auto simp: maps_def laid_def)
  next
    case False
    then have "b \<notin> bn_of bl ` L" using b(2) by auto
    then show ?thesis using m b(1) by (simp add: maps_def)
  qed
  then show ?thesis using m unfolding maps_def by (auto intro: inj_on_subset)
qed (use m in simp)

text \<open>When every cached block equals what the device holds, the clients see the device.\<close>

lemma maps_clean:
  assumes m: "maps n bl L xs ys" and "0 < n" "\<And>i. i \<in> L \<Longrightarrow> \<not> bk_is_dirty (bl ! i)"
  shows "ys = xs"
proof (rule dslice_ext[of ys xs n])
  show l: "length ys = length xs" "dev_tail n ys = dev_tail n xs" using m by (simp_all add: maps_def)
  fix b assume "in_dev n b ys"
  then have b: "in_dev n b xs" using in_dev_length[OF l(1)] by simp
  show "dslice n b ys = dslice n b xs"
  proof (cases "b \<in> bn_of bl ` L")
    case True
    then obtain i where "i \<in> L" "b = bn_of bl i" by blast
    then show ?thesis using m assms(3)[of i] by (auto simp: maps_def laid_def)
  next
    case False then show ?thesis using m b by (simp add: maps_def)
  qed
qed (fact assms(2))

section \<open>Lists and slots\<close>

lemma upd_sel [simp]:
  "bc_blocks (upd_block i f c) = (bc_blocks c)[i := f (bc_blocks c ! i)]" "bc_lists (upd_block i f c) = bc_lists c"
  "bc_dev (upd_block i f c) = bc_dev c" "bc_block_size (upd_block i f c) = bc_block_size c" "bc_count (upd_block i f c) = bc_count c"
  "bc_stats (upd_block i f c) = bc_stats c"
  "bc_blocks (upd_stats g c) = bc_blocks c" "bc_lists (upd_stats g c) = bc_lists c" "bc_dev (upd_stats g c) = bc_dev c"
  "bc_block_size (upd_stats g c) = bc_block_size c" "bc_count (upd_stats g c) = bc_count c" "bc_stats (upd_stats g c) = g (bc_stats c)"
  by (simp_all add: upd_block_def upd_stats_def)

lemma wf_slot: "bc_wf c \<Longrightarrow> i < length (bc_blocks c) \<Longrightarrow> slot_ok (unat (bc_block_size c)) (bc_blocks c ! i)"
  by (simp add: bc_wf_def)

lemma wf_lru: "bc_wf c \<Longrightarrow> i \<in> set (bc_lru c) \<Longrightarrow> i < length (bc_blocks c) \<and> i \<notin> set (bc_free c)"
  unfolding bc_wf_def by (metis UnCI bc_list.distinct(1) lessThan_iff ls_ok_mem option.inject)

lemma wf_stats [simp]: "bc_wf (upd_stats g c) = bc_wf c"
  by (simp add: bc_wf_def)

lemma wf_upd:
  assumes "bc_wf c" "slot_ok (unat (bc_block_size c)) (f (bc_blocks c ! i))"
    "i \<in> set (bc_free c) \<Longrightarrow> bk_ref_count (f (bc_blocks c ! i)) = 0 \<and> \<not> bk_is_dirty (f (bc_blocks c ! i))"
  shows "bc_wf (upd_block i f c)"
proof -
  have "slot_ok (unat (bc_block_size c)) b" if "b \<in> set ((bc_blocks c)[i := f (bc_blocks c ! i)])" for b
    using assms(1,2) set_update_subset_insert[of "bc_blocks c" i "f (bc_blocks c ! i)"] that by (auto simp: bc_wf_def)
  moreover have "bk_ref_count ((bc_blocks c)[i := f (bc_blocks c ! i)] ! j) = 0 \<and> \<not> bk_is_dirty ((bc_blocks c)[i := f (bc_blocks c ! i)] ! j)"
    if "j \<in> set (bc_free c)" for j
    using assms(1,3) that by (cases "j = i"; cases "i < length (bc_blocks c)") (auto simp: bc_wf_def)
  ultimately show ?thesis using assms(1) by (auto simp: bc_wf_def)
qed

lemma wf_relist:
  assumes "bc_wf c" "ls_ok l" "set (lcont l BC_lru) \<union> set (lcont l BC_free) = {..<length (bc_blocks c)}" "set (lcont l BC_free) \<subseteq> set (bc_free c)"
  shows "bc_wf (c\<lparr>bc_lists := l\<rparr>)"
  using assms unfolding bc_wf_def by auto

text \<open>What a search may do to a cache: reorder the list and count.\<close>

definition relisted :: "bcache \<Rightarrow> bcache \<Rightarrow> bool" where
  "relisted c c' \<longleftrightarrow> bc_dev c' = bc_dev c \<and> bc_block_size c' = bc_block_size c \<and> bc_blocks c' = bc_blocks c \<and> bc_wf c' \<and>
     set (bc_lru c') = set (bc_lru c)"

lemma move_to_tail:
  assumes "ls_ok l" "i \<in> set (lcont l h)"
  shows "\<exists>l1 l2. ls_delete i l = Some l1 \<and> ls_add_tail h i l1 = Some l2 \<and> ls_ok l2 \<and> set (lcont l2 h) = set (lcont l h) \<and>
    (\<forall>k. k \<noteq> h \<longrightarrow> lcont l2 k = lcont l k)"
proof -
  obtain ys zs where sp: "lcont l h = ys @ i # zs" using assms(2) by (meson split_list)
  from ls.del_law[OF assms(1) sp] obtain l1 where l1: "ls_delete i l = Some l1" "ls_ok l1" "lcont l1 = (lcont l)(h := ys @ zs)" by blast
  have "i \<notin> set (lcont l1 k)" for k
    using l1(3) ls_ok_split[OF assms(1) sp] ls_ok_mem[OF assms(1), of i k] by (auto split: if_splits)
  then have "\<not> ls_in_list i l1" using ls.linked_iff[OF l1(2)] by simp
  from ls.add_tail_law[OF l1(2) _ _ this, of h] obtain l2 where
    "ls_add_tail h i l1 = Some l2" "ls_ok l2" "lcont l2 = (lcont l1)(h := lcont l1 h @ [i])" by auto
  then show ?thesis using l1 sp by auto
qed

lemma find_walk_Some: "find_walk bl b is d = Some (i, e) \<Longrightarrow> i \<in> set is \<and> bk_blocknum (bl ! i) = b"
  by (induction "is" arbitrary: d) (auto split: if_splits)

lemma find_walk_None: "find_walk bl b is d = None \<longleftrightarrow> (\<forall>i \<in> set is. bk_blocknum (bl ! i) \<noteq> b)"
  by (induction "is" arbitrary: d) auto

lemma find_block_ok:
  assumes "bc_wf c"
  shows "\<exists>r c'. find_block b c = Some (r, c') \<and> relisted c c' \<and>
    (case r of None \<Rightarrow> \<forall>i \<in> set (bc_lru c). bk_blocknum (bc_blocks c ! i) \<noteq> b
     | Some i \<Rightarrow> i \<in> set (bc_lru c) \<and> bk_blocknum (bc_blocks c ! i) = b)"
proof (cases "find_walk (bc_blocks c) b (bc_lru c) 0")
  case None
  then have "\<forall>i \<in> set (bc_lru c). bk_blocknum (bc_blocks c ! i) \<noteq> b" by (simp only: find_walk_None)
  with None show ?thesis using assms by (simp add: find_block_def relisted_def)
next
  case (Some r)
  then obtain i e where r: "find_walk (bc_blocks c) b (bc_lru c) 0 = Some (i, e)" by (cases r) auto
  note i = find_walk_Some[OF r]
  have lo: "ls_ok (bc_lists c)" using assms by (simp add: bc_wf_def)
  from move_to_tail[OF lo conjunct1[OF i]] obtain l1 l2 where l: "ls_delete i (bc_lists c) = Some l1" "ls_add_tail BC_lru i l1 = Some l2" "ls_ok l2"
    "set (lcont l2 BC_lru) = set (bc_lru c)" "lcont l2 BC_free = bc_free c" by auto
  then have "bc_wf (c\<lparr>bc_lists := l2\<rparr>)" using assms by (intro wf_relist) (auto simp: bc_wf_def)
  then show ?thesis using r i l by (simp add: find_block_def relisted_def)
qed

section \<open>The operations\<close>

text \<open>The device \<open>c\<close> is on holds \<open>xs\<close>, the clients see \<open>ys\<close>; \<open>L\<close> are the blocks that count.\<close>

definition cached :: "(nat \<Rightarrow> 'w \<Rightarrow> u8 list) \<Rightarrow> (nat \<Rightarrow> nat) \<Rightarrow> nat set \<Rightarrow> bcache \<Rightarrow> 'w bio_state \<Rightarrow> u8 list \<Rightarrow> bool" where
  "cached dbytes dbs L c s ys \<longleftrightarrow> bc_wf c \<and>
     (\<exists>xs. dev_holds dbytes dbs s (bc_dev c) xs \<and> maps (unat (bc_block_size c)) (bc_blocks c) L xs ys)"

definition bcache_view :: "(nat \<Rightarrow> 'w \<Rightarrow> u8 list) \<Rightarrow> (nat \<Rightarrow> nat) \<Rightarrow> bcache \<Rightarrow> 'w bio_state \<Rightarrow> u8 list \<Rightarrow> bool" where
  "bcache_view dbytes dbs c s ys \<longleftrightarrow> cached dbytes dbs (set (bc_lru c)) c s ys"

text \<open>What searching and filling keep: the parameters, every reference count, and every block in use.\<close>

definition bc_kept :: "bcache \<Rightarrow> bcache \<Rightarrow> bool" where
  "bc_kept c c' \<longleftrightarrow> bc_dev c' = bc_dev c \<and> bc_block_size c' = bc_block_size c \<and> length (bc_blocks c') = length (bc_blocks c) \<and>
     (\<forall>j < length (bc_blocks c). bk_ref_count (bc_blocks c' ! j) = bk_ref_count (bc_blocks c ! j)) \<and>
     (\<forall>j \<in> set (bc_lru c). bk_ref_count (bc_blocks c ! j) > 0 \<longrightarrow> j \<in> set (bc_lru c') \<and> bc_blocks c' ! j = bc_blocks c ! j)"

lemma bc_kept_trans: "bc_kept a b \<Longrightarrow> bc_kept b c \<Longrightarrow> bc_kept a c"
  unfolding bc_kept_def by (smt (verit))

lemma relisted_kept: "relisted c c' \<Longrightarrow> bc_kept c c'"
  by (simp add: relisted_def bc_kept_def)

lemma relisted_cached: "relisted c c' \<Longrightarrow> cached dbytes dbs L c s ys \<Longrightarrow> cached dbytes dbs L c' s ys"
  by (simp add: relisted_def cached_def)

text \<open>A block that is not in use can be given to another number.\<close>

definition bc_room :: "bcache \<Rightarrow> bool" where
  "bc_room c \<longleftrightarrow> (\<exists>j < length (bc_blocks c). bk_ref_count (bc_blocks c ! j) = 0)"

lemma bc_kept_room: "bc_kept c c' \<Longrightarrow> bc_room c \<Longrightarrow> bc_room c'"
  by (auto simp: bc_kept_def bc_room_def)

context bio_drivers
begin

lemma flush_block_ok:
  assumes "cached dbytes dbs L c s ys" and i: "i \<in> L" "i \<in> set (bc_lru c)"
  shows "\<exists>c' s'. flush_block drv i c s = Some (0, c', s') \<and> cached dbytes dbs L c' s' ys \<and> bc_lists c' = bc_lists c \<and>
    bc_blocks c' = (bc_blocks c)[i := (bc_blocks c ! i)\<lparr>bk_is_dirty := False\<rparr>] \<and> bc_dev c' = bc_dev c \<and> bc_block_size c' = bc_block_size c \<and>
    cached dbytes dbs (L - {i}) c' s' ys"
proof -
  let ?b = "bc_blocks c ! i" let ?n = "unat (bc_block_size c)" let ?bn = "bn_of (bc_blocks c) i"
  obtain xs where w: "bc_wf c" and h: "holds s (bc_dev c) xs" and m: "maps ?n (bc_blocks c) L xs ys" using assms(1) by (auto simp: cached_def)
  have il: "i < length (bc_blocks c)" "i \<notin> set (bc_free c)" using wf_lru[OF w i(2)] by auto
  have so: "slot_ok ?n ?b" using wf_slot[OF w il(1)] .
  have n: "?n < 2 ^ 31" using w by (simp add: bc_wf_def)
  have la: "laid ?n xs ys ?b" using m i(1) by (simp add: maps_def)
  have dv: "in_dev ?n ?bn xs" using la by (simp add: laid_def)
  obtain s' where wr: "bio_write drv (bc_dev c) (bk_data ?b) (bk_ptr ?b) (int (?bn * ?n)) (bc_block_size c) s = Some (int ?n, s')"
    and h': "holds s' (bc_dev c) (memcpy_at (?bn * ?n) (bk_data ?b) xs)"
    using dev.wr_law[OF h, of "bk_ptr ?b" "bc_block_size c" "?bn * ?n" "bk_data ?b"] so n dv by (auto simp: slot_ok_def in_dev_def)
  define c' where "c' = upd_stats (\<lambda>t. t\<lparr>st_writes := st_writes t + 1\<rparr>) (upd_block i (\<lambda>b. b\<lparr>bk_is_dirty := False\<rparr>) c)"
  have fl: "flush_block drv i c s = Some (0, c', s')" using wr by (simp add: flush_block_def c'_def)
  have bl: "bc_blocks c' = (bc_blocks c)[i := ?b\<lparr>bk_is_dirty := False\<rparr>]" by (simp add: c'_def)
  have w': "bc_wf c'" unfolding c'_def wf_stats by (rule wf_upd[OF w]) (use so il in \<open>simp_all add: slot_ok_def\<close>)
  have ln: "length (bk_data ?b) = ?n" using so by (simp add: slot_ok_def)
  let ?xs = "memcpy_at (?bn * ?n) (bk_data ?b) xs"
  have ds: "dslice ?n ?bn ?xs = bk_data ?b" using dslice_memcpy[OF dv dv ln] by simp
  have m': "maps ?n (bc_blocks c') L ?xs ys" unfolding bl
    by (rule maps_touch[OF maps_flush[OF m i(1)] il(1) i(1)]) (simp_all add: ds)
  have "maps ?n (bc_blocks c') (L - {i}) ?xs ys" by (rule maps_evict[OF m']) (use bl il ds in simp)
  then show ?thesis using fl bl w' m' h' unfolding cached_def by (auto simp: c'_def)
qed

end

lemma maps_laid: "maps n bl L xs ys \<Longrightarrow> i \<in> L \<Longrightarrow> laid n xs ys (bl ! i)"
  by (simp add: maps_def)

lemma laid_clean: "laid n xs ys b \<Longrightarrow> \<not> bk_is_dirty b \<Longrightarrow> bk_data b = dslice n (unat (bk_blocknum b)) xs"
  unfolding laid_def by blast

context bio_drivers
begin

text \<open>The result of \<open>alloc_block\<close>: a block that stands for nothing any more.\<close>

definition allocated :: "nat \<Rightarrow> bcache \<Rightarrow> bcache \<Rightarrow> 'w bio_state \<Rightarrow> u8 list \<Rightarrow> bool" where
  "allocated i c c' s' ys \<longleftrightarrow> cached dbytes dbs (set (bc_lru c') - {i}) c' s' ys \<and> i \<in> set (bc_lru c') \<and> i < length (bc_blocks c) \<and>
     bc_dev c' = bc_dev c \<and> bc_block_size c' = bc_block_size c \<and> set (bc_lru c') = insert i (set (bc_lru c)) \<and>
     length (bc_blocks c') = length (bc_blocks c) \<and> (\<forall>j. j \<noteq> i \<longrightarrow> bc_blocks c' ! j = bc_blocks c ! j) \<and>
     bk_ref_count (bc_blocks c ! i) = 0 \<and> bk_ref_count (bc_blocks c' ! i) = 0 \<and> \<not> bk_is_dirty (bc_blocks c' ! i)"

lemma alloc_free_ok:
  assumes v: "bcache_view dbytes dbs c s ys" and f: "bc_free c = i # fs"
  shows "\<exists>c'. alloc_block drv c s = Some (Some i, c', s) \<and> allocated i c c' s ys"
proof -
  obtain xs where w: "bc_wf c" and h: "holds s (bc_dev c) xs" and m: "maps (unat (bc_block_size c)) (bc_blocks c) (set (bc_lru c)) xs ys"
    using v by (auto simp: bcache_view_def cached_def)
  have lo: "ls_ok (bc_lists c)" and un: "set (bc_lru c) \<union> set (bc_free c) = {..<length (bc_blocks c)}" using w by (simp_all add: bc_wf_def)
  have f': "bc_free c = [] @ i # fs" using f by simp
  from ls.del_law[OF lo f'] obtain l1 where l1: "ls_delete i (bc_lists c) = Some l1" "ls_ok l1" "lcont l1 = (lcont (bc_lists c))(BC_free := fs)" by auto
  have ni: "i \<notin> set (bc_lru c)" "i \<notin> set fs" using wf_lru[OF w, of i] f ls_ok_distinct[OF lo, of BC_free] by auto
  have "i \<notin> set (lcont l1 k)" for k using l1(3) ni by (cases k) auto
  then have "\<not> ls_in_list i l1" using ls.linked_iff[OF l1(2)] by simp
  from ls.add_tail_law[OF l1(2) _ _ this, of BC_lru] obtain l2 where
    l2: "ls_add_tail BC_lru i l1 = Some l2" "ls_ok l2" "lcont l2 = (lcont l1)(BC_lru := lcont l1 BC_lru @ [i])" by auto
  have il: "i < length (bc_blocks c)" using un f by auto
  have fr: "bk_ref_count (bc_blocks c ! i) = 0" "\<not> bk_is_dirty (bc_blocks c ! i)" using w f by (simp_all add: bc_wf_def)
  define c1 where "c1 = upd_block i (\<lambda>b. b\<lparr>bk_ref_count := 0\<rparr>) c" define c' where "c' = c1\<lparr>bc_lists := l2\<rparr>"
  have al: "alloc_block drv c s = Some (Some i, c', s)"
    using f l1(1) l2(1) by (simp add: alloc_block_def ls_remove_head_def ls_peek_head_def c'_def c1_def)
  have w1: "bc_wf c1" unfolding c1_def by (rule wf_upd[OF w]) (use wf_slot[OF w il] fr in \<open>auto simp: slot_ok_def\<close>)
  have lc: "bc_lru c' = bc_lru c @ [i]" "bc_free c' = fs" using l2(3) l1(3) by (simp_all add: c'_def)
  have w': "bc_wf c'" unfolding c'_def
    by (rule wf_relist[OF w1 l2(2)]) (use lc un f in \<open>auto simp: c'_def c1_def\<close>)
  have "maps (unat (bc_block_size c)) (bc_blocks c') (set (bc_lru c)) xs ys" unfolding c'_def c1_def using maps_frame[OF m ni(1)] by simp
  moreover have "set (bc_lru c') - {i} = set (bc_lru c)" using lc(1) ni(1) by auto
  ultimately have "cached dbytes dbs (set (bc_lru c') - {i}) c' s ys" using w' h by (auto simp: cached_def c'_def c1_def)
  then show ?thesis using al il fr lc unfolding allocated_def by (auto simp: c'_def c1_def)
qed

lemma alloc_lru_ok:
  assumes v: "bcache_view dbytes dbs c s ys" and f: "bc_free c = []" and r: "bc_room c"
  shows "\<exists>i c' s'. alloc_block drv c s = Some (Some i, c', s') \<and> allocated i c c' s' ys"
proof -
  let ?P = "\<lambda>i. bk_ref_count (bc_blocks c ! i) = 0"
  have ca: "cached dbytes dbs (set (bc_lru c)) c s ys" and w: "bc_wf c" using v by (auto simp: bcache_view_def cached_def)
  have un: "set (bc_lru c) = {..<length (bc_blocks c)}" using w f by (simp add: bc_wf_def)
  have "List.find ?P (bc_lru c) \<noteq> None" using r un by (auto simp: bc_room_def find_None_iff)
  then obtain i where fi: "List.find ?P (bc_lru c) = Some i" by blast
  have i: "i \<in> set (bc_lru c)" "?P i" using fi by (auto simp: find_Some_iff)
  have il: "i < length (bc_blocks c)" using i un by simp
  obtain c1 s1 where f1: "(if bk_is_dirty (bc_blocks c ! i) then flush_block drv i c s else Some (0, c, s)) = Some (0, c1, s1)"
    and c1: "cached dbytes dbs (set (bc_lru c) - {i}) c1 s1 ys" "bc_lists c1 = bc_lists c"
      "bc_blocks c1 = (bc_blocks c)[i := (bc_blocks c ! i)\<lparr>bk_is_dirty := False\<rparr>]" "bc_dev c1 = bc_dev c" "bc_block_size c1 = bc_block_size c"
  proof (cases "bk_is_dirty (bc_blocks c ! i)")
    case True
    then show ?thesis using that flush_block_ok[OF ca i(1) i(1)] by auto
  next
    case False
    obtain xs where h: "holds s (bc_dev c) xs" "maps (unat (bc_block_size c)) (bc_blocks c) (set (bc_lru c)) xs ys" using ca by (auto simp: cached_def)
    have "bk_data (bc_blocks c ! i) = dslice (unat (bc_block_size c)) (bn_of (bc_blocks c) i) xs"
      using laid_clean[OF maps_laid[OF h(2) i(1)] False] .
    then have ev: "cached dbytes dbs (set (bc_lru c) - {i}) c s ys" using w h maps_evict[OF h(2)] by (auto simp: cached_def)
    have "(bc_blocks c)[i := (bc_blocks c ! i)\<lparr>bk_is_dirty := False\<rparr>] = bc_blocks c" using False by (cases "bc_blocks c ! i") (simp add: list_update_same_conv il)
    then show ?thesis using False by (intro that[of c s]) (simp_all add: ev)
  qed
  have lo: "ls_ok (bc_lists c)" using w by (simp add: bc_wf_def)
  from move_to_tail[OF lo i(1)] obtain l1 l2 where l: "ls_delete i (bc_lists c) = Some l1" "ls_add_tail BC_lru i l1 = Some l2" "ls_ok l2"
    "set (lcont l2 BC_lru) = set (bc_lru c)" "lcont l2 BC_free = []" using f by auto
  have al: "alloc_block drv c s = Some (Some i, c1\<lparr>bc_lists := l2\<rparr>, s1)"
    using f fi l f1 c1(2) by (simp add: alloc_block_def ls_remove_head_def ls_peek_head_def)
  have "bc_wf (c1\<lparr>bc_lists := l2\<rparr>)" by (rule wf_relist[OF _ l(3)]) (use c1(1,3) l un in \<open>auto simp: cached_def\<close>)
  then have "cached dbytes dbs (set (bc_lru c) - {i}) (c1\<lparr>bc_lists := l2\<rparr>) s1 ys" using c1(1) by (simp add: cached_def)
  then show ?thesis using al il i l c1 unfolding allocated_def by (auto intro!: exI[of _ i])
qed

end

context bio_drivers
begin

lemma alloc_block_ok:
  assumes "bcache_view dbytes dbs c s ys" "bc_room c"
  shows "\<exists>i c' s'. alloc_block drv c s = Some (Some i, c', s') \<and> allocated i c c' s' ys"
  using alloc_free_ok[OF assms(1)] alloc_lru_ok[OF assms(1) _ assms(2)] by (cases "bc_free c") blast+

lemma allocated_unmapped:
  assumes "allocated i c c' s' ys" "\<forall>j \<in> set (bc_lru c). bk_blocknum (bc_blocks c ! j) \<noteq> b"
  shows "unat b \<notin> bn_of (bc_blocks c') ` (set (bc_lru c') - {i})"
  using assms by (auto simp: allocated_def word_unat_eq_iff)

text \<open>The block is given the number \<open>b\<close>.\<close>

lemma allocated_view:
  assumes a: "allocated i c c' s' ys" and u: "\<forall>j \<in> set (bc_lru c). bk_blocknum (bc_blocks c ! j) \<noteq> bk_blocknum v"
    and v: "slot_ok (unat (bc_block_size c)) v" "bk_ref_count v = 0" "in_dev (unat (bc_block_size c)) (unat (bk_blocknum v)) ys"
      "\<not> bk_is_dirty v \<Longrightarrow> bk_data v = dslice (unat (bc_block_size c)) (unat (bk_blocknum v)) ys"
    and f: "f (bc_blocks c' ! i) = v"
  shows "bcache_view dbytes dbs (upd_block i f c') s' (memcpy_at (unat (bk_blocknum v) * unat (bc_block_size c)) (bk_data v) ys)"
    "bc_kept c (upd_block i f c')"
proof -
  let ?n = "unat (bc_block_size c)" let ?L = "set (bc_lru c') - {i}"
  obtain xs where w: "bc_wf c'" and h: "holds s' (bc_dev c') xs" and m: "maps ?n (bc_blocks c') ?L xs ys"
    and i: "i \<in> set (bc_lru c')" and il: "i < length (bc_blocks c')" "bc_block_size c' = bc_block_size c"
    using a unfolding allocated_def cached_def by auto
  have nb: "unat (bk_blocknum v) \<notin> bn_of (bc_blocks c') ` ?L" by (rule allocated_unmapped[OF a u])
  have l: "length ys = length xs" using m by (simp add: maps_def)
  have dv: "in_dev ?n (unat (bk_blocknum v)) xs" using v(3) in_dev_length[OF l] by simp
  have "dslice ?n (unat (bk_blocknum v)) ys = dslice ?n (unat (bk_blocknum v)) xs" using m dv nb by (simp add: maps_def)
  then have "maps ?n ((bc_blocks c')[i := v]) (insert i ?L) xs (memcpy_at (unat (bk_blocknum v) * ?n) (bk_data v) ys)"
    using v nb dv by (intro maps_update[OF m il(1)]) (auto simp: slot_ok_def)
  moreover have "insert i ?L = set (bc_lru c')" using i by auto
  moreover have "bc_wf (upd_block i f c')" by (rule wf_upd[OF w]) (use v f wf_lru[OF w i] il in auto)
  ultimately show "bcache_view dbytes dbs (upd_block i f c') s' (memcpy_at (unat (bk_blocknum v) * ?n) (bk_data v) ys)"
    using h f il by (auto simp: bcache_view_def cached_def)
  show "bc_kept c (upd_block i f c')" using a f v(2) il unfolding allocated_def bc_kept_def by (auto simp: nth_list_update)
qed

lemma read_uncached:
  assumes "cached dbytes dbs L c s ys" "b \<notin> bn_of (bc_blocks c) ` L" "in_dev (unat (bc_block_size c)) b ys"
    "p \<noteq> 0" "unat p + unat (bc_block_size c) < 2 ^ 32"
  shows "\<exists>s'. bio_read drv (bc_dev c) p (int b * int (unat (bc_block_size c))) (bc_block_size c) s =
      Some (int (unat (bc_block_size c)), dslice (unat (bc_block_size c)) b ys, s') \<and> cached dbytes dbs L c s' ys"
proof -
  let ?n = "unat (bc_block_size c)"
  obtain xs where w: "bc_wf c" and h: "holds s (bc_dev c) xs" and m: "maps ?n (bc_blocks c) L xs ys" using assms(1) by (auto simp: cached_def)
  have l: "length ys = length xs" using m by (simp add: maps_def)
  have dv: "in_dev ?n b xs" using assms(3) in_dev_length[OF l] by simp
  have ds: "dslice ?n b ys = dslice ?n b xs" using m dv assms(2) by (simp add: maps_def)
  have "?n < 2 ^ 31" using w by (simp add: bc_wf_def)
  from dev.rd_law[OF h assms(4,5) this, of "b * ?n"] dv
  obtain s' where "bio_read drv (bc_dev c) p (int (b * ?n)) (bc_block_size c) s = Some (int ?n, dslice ?n b xs, s')" "holds s' (bc_dev c) xs"
    by (auto simp: dslice_def in_dev_def)
  then show ?thesis using w m ds by (auto simp: cached_def)
qed

lemma find_or_fill_ok:
  assumes v: "bcache_view dbytes dbs c s ys" and r: "bc_room c" and d: "in_dev (unat (bc_block_size c)) (unat b) ys"
  shows "\<exists>i c' s'. find_or_fill_block drv b c s = Some (Some i, c', s') \<and> bcache_view dbytes dbs c' s' ys \<and> bc_kept c c' \<and>
    i \<in> set (bc_lru c') \<and> bk_blocknum (bc_blocks c' ! i) = b"
proof -
  let ?n = "unat (bc_block_size c)"
  have w: "bc_wf c" using v by (simp add: bcache_view_def cached_def)
  from find_block_ok[OF w, of b] obtain q c1 where q: "find_block b c = Some (q, c1)" "relisted c c1"
    "case q of None \<Rightarrow> \<forall>i \<in> set (bc_lru c). bk_blocknum (bc_blocks c ! i) \<noteq> b | Some i \<Rightarrow> i \<in> set (bc_lru c) \<and> bk_blocknum (bc_blocks c ! i) = b"
    by blast
  have v1: "bcache_view dbytes dbs c1 s ys" using relisted_cached[OF q(2)] v q(2) by (simp add: bcache_view_def relisted_def)
  note k1 = relisted_kept[OF q(2)]
  show ?thesis
  proof (cases q)
    case (Some i)
    then show ?thesis using q v1 k1 by (auto simp: find_or_fill_block_def relisted_def)
  next
    case None
    then have u: "\<forall>i \<in> set (bc_lru c1). bk_blocknum (bc_blocks c1 ! i) \<noteq> b" using q by (simp add: relisted_def)
    from alloc_block_ok[OF v1 bc_kept_room[OF k1 r]] obtain i c2 s2 where
      al: "alloc_block drv c1 s = Some (Some i, c2, s2)" "allocated i c1 c2 s2 ys" by blast
    define c3 where "c3 = upd_block i (\<lambda>b'. b'\<lparr>bk_blocknum := b\<rparr>) c2"
    have n: "bc_block_size c1 = bc_block_size c" "bc_block_size c2 = bc_block_size c" "bc_block_size c3 = bc_block_size c"
      using q(2) al(2) by (simp_all add: relisted_def allocated_def c3_def)
    have w2: "bc_wf c2" and il: "i < length (bc_blocks c2)" "i \<in> set (bc_lru c2)" using al(2) by (auto simp: allocated_def cached_def)
    note so = wf_slot[OF w2 il(1)]
    have "maps ?n (bc_blocks c3) (set (bc_lru c3) - {i}) xs ys" if "maps ?n (bc_blocks c2) (set (bc_lru c2) - {i}) xs ys" for xs
      unfolding c3_def using maps_frame[OF that] by simp
    moreover have "bc_wf c3" unfolding c3_def by (rule wf_upd[OF w2]) (use so wf_lru[OF w2 il(2)] in \<open>simp_all add: slot_ok_def\<close>)
    ultimately have a3: "allocated i c1 c3 s2 ys" using al(2) n unfolding allocated_def cached_def by (auto simp: c3_def)
    then have "cached dbytes dbs (set (bc_lru c3) - {i}) c3 s2 ys" unfolding allocated_def by blast
    from read_uncached[OF this allocated_unmapped[OF a3 u], of "bk_ptr (bc_blocks c3 ! i)"]
    obtain s3 where rd: "bio_read drv (bc_dev c3) (bk_ptr (bc_blocks c3 ! i)) (int (unat b) * int ?n) (bc_block_size c) s2 = Some (int ?n, dslice ?n (unat b) ys, s3)"
      and c4: "cached dbytes dbs (set (bc_lru c3) - {i}) c3 s3 ys"
      using d n so il by (auto simp: slot_ok_def c3_def)
    have ln: "length (bk_data (bc_blocks c3 ! i)) = ?n" "length (dslice ?n (unat b) ys) = ?n" using so n il dslice_length[OF d] by (simp_all add: slot_ok_def c3_def)
    then have st: "store_at 0 (dslice ?n (unat b) ys) (bk_data (bc_blocks c3 ! i)) = Some (dslice ?n (unat b) ys)" by (simp add: store_at_def memcpy_at_def)
    define g where "g = (\<lambda>b' :: bcache_block. b'\<lparr>bk_data := dslice ?n (unat b) ys\<rparr>)"
    define c' where "c' = upd_stats (\<lambda>t. t\<lparr>st_reads := st_reads t + 1\<rparr>) (upd_block i g c3)"
    have a4: "allocated i c1 c3 s3 ys" using a3 c4 unfolding allocated_def by blast
    have bn: "bk_blocknum (bc_blocks c3 ! i) = b" "bk_ref_count (bc_blocks c3 ! i) = 0" using il a3 by (simp_all add: c3_def allocated_def)
    have V: "bcache_view dbytes dbs (upd_block i g c3) s3 ys" "bc_kept c1 (upd_block i g c3)"
      using allocated_view[OF a4, of "g (bc_blocks c3 ! i)" g] u bn n so il ln d dslice_same[OF d] by (auto simp: g_def slot_ok_def c3_def)
    have "find_or_fill_block drv b c s = Some (Some i, c', s3)"
      using q(1) None al(1) rd st n il by (simp add: find_or_fill_block_def c'_def g_def[symmetric] c3_def[symmetric] Let_def) (simp add: g_def c3_def)
    moreover have "bcache_view dbytes dbs c' s3 ys" using V(1) by (simp add: c'_def bcache_view_def cached_def)
    moreover have "bc_kept c c'" using bc_kept_trans[OF k1 V(2)] by (simp add: c'_def bc_kept_def)
    moreover have "i \<in> set (bc_lru c')" "bk_blocknum (bc_blocks c' ! i) = b" using il by (simp_all add: c'_def g_def c3_def)
    ultimately show ?thesis by blast
  qed
qed

end

section \<open>The interface\<close>

text \<open>A change to one cached block.\<close>

lemma view_upd:
  assumes v: "bcache_view dbytes dbs c s ys" and i: "i \<in> set (bc_lru c)" and so: "slot_ok (unat (bc_block_size c)) (f (bc_blocks c ! i))"
    and n: "bk_blocknum (f (bc_blocks c ! i)) = bk_blocknum (bc_blocks c ! i)"
    and d: "bk_is_dirty (f (bc_blocks c ! i)) \<or> \<not> bk_is_dirty (bc_blocks c ! i) \<and> bk_data (f (bc_blocks c ! i)) = bk_data (bc_blocks c ! i)"
  shows "bcache_view dbytes dbs (upd_block i f c) s
    (memcpy_at (bn_of (bc_blocks c) i * unat (bc_block_size c)) (bk_data (f (bc_blocks c ! i))) ys)"
proof -
  let ?n = "unat (bc_block_size c)" let ?v = "f (bc_blocks c ! i)"
  obtain xs where w: "bc_wf c" and h: "dev_holds dbytes dbs s (bc_dev c) xs" and m: "maps ?n (bc_blocks c) (set (bc_lru c)) xs ys"
    using v by (auto simp: bcache_view_def cached_def)
  note il = wf_lru[OF w i] and la = maps_laid[OF m i]
  have "inj_on (bn_of (bc_blocks c)) (set (bc_lru c))" using m by (simp add: maps_def)
  then have "bn_of (bc_blocks c) i \<notin> bn_of (bc_blocks c) ` (set (bc_lru c) - {i})" using i by (auto dest: inj_onD)
  moreover have "bk_data ?v = dslice ?n (bn_of (bc_blocks c) i) xs" if "\<not> bk_is_dirty ?v" using d that laid_clean[OF la] by simp
  ultimately have "maps ?n ((bc_blocks c)[i := ?v]) (insert i (set (bc_lru c))) xs (memcpy_at (bn_of (bc_blocks c) i * ?n) (bk_data ?v) ys)"
    using maps_update[OF m, of i ?v] il n la so by (simp add: laid_def slot_ok_def)
  moreover have "bc_wf (upd_block i f c)" by (rule wf_upd[OF w]) (use so il in simp_all)
  ultimately show ?thesis using h i by (auto simp: bcache_view_def cached_def insert_absorb)
qed

lemma view_slot:
  assumes "bcache_view dbytes dbs c s ys" "i \<in> set (bc_lru c)"
  shows "i < length (bc_blocks c)" "slot_ok (unat (bc_block_size c)) (bc_blocks c ! i)"
    "in_dev (unat (bc_block_size c)) (bn_of (bc_blocks c) i) ys" "bk_data (bc_blocks c ! i) = dslice (unat (bc_block_size c)) (bn_of (bc_blocks c) i) ys"
proof -
  obtain xs where w: "bc_wf c" and m: "maps (unat (bc_block_size c)) (bc_blocks c) (set (bc_lru c)) xs ys"
    using assms(1) by (auto simp: bcache_view_def cached_def)
  show "i < length (bc_blocks c)" "slot_ok (unat (bc_block_size c)) (bc_blocks c ! i)" using wf_lru[OF w assms(2)] wf_slot[OF w] by auto
  have "length ys = length xs" using m by (simp add: maps_def)
  then show "in_dev (unat (bc_block_size c)) (bn_of (bc_blocks c) i) ys" "bk_data (bc_blocks c ! i) = dslice (unat (bc_block_size c)) (bn_of (bc_blocks c) i) ys"
    using maps_laid[OF m assms(2)] in_dev_length[of ys xs] by (simp_all add: laid_def)
qed

lemma view_touch:
  assumes "bcache_view dbytes dbs c s ys" "i \<in> set (bc_lru c)" "slot_ok (unat (bc_block_size c)) (f (bc_blocks c ! i))"
    "bk_blocknum (f (bc_blocks c ! i)) = bk_blocknum (bc_blocks c ! i)" "bk_data (f (bc_blocks c ! i)) = bk_data (bc_blocks c ! i)"
    "bk_is_dirty (bc_blocks c ! i) \<longrightarrow> bk_is_dirty (f (bc_blocks c ! i))"
  shows "bcache_view dbytes dbs (upd_block i f c) s ys"
  using view_upd[of dbytes dbs c s ys i f] assms view_slot(4)[OF assms(1,2)] dslice_same[OF view_slot(3)[OF assms(1,2)]] by (auto simp: insert_absorb)

lemma view_wf: "bcache_view dbytes dbs c s ys \<Longrightarrow> bc_wf c"
  by (simp add: bcache_view_def cached_def)

lemma relisted_view: "relisted c c' \<Longrightarrow> bcache_view dbytes dbs c s ys \<Longrightarrow> bcache_view dbytes dbs c' s ys"
  by (simp add: bcache_view_def cached_def relisted_def)

text \<open>The reference counts by block number.\<close>

definition pinned :: "bcache \<Rightarrow> (u32 \<Rightarrow> int) \<Rightarrow> bool" where
  "pinned c pins \<longleftrightarrow> (\<forall>i \<in> set (bc_lru c). bk_ref_count (bc_blocks c ! i) = pins (bk_blocknum (bc_blocks c ! i))) \<and>
     (\<forall>b. pins b \<noteq> 0 \<longrightarrow> b \<in> (\<lambda>i. bk_blocknum (bc_blocks c ! i)) ` set (bc_lru c))"

lemma view_inj:
  assumes "bcache_view dbytes dbs c s ys" "i \<in> set (bc_lru c)" "j \<in> set (bc_lru c)" "bk_blocknum (bc_blocks c ! i) = bk_blocknum (bc_blocks c ! j)"
  shows "i = j"
proof -
  have "inj_on (bn_of (bc_blocks c)) (set (bc_lru c))" using assms(1) by (auto simp: bcache_view_def cached_def maps_def)
  then show ?thesis using assms(2-4) by (auto simp: inj_on_def)
qed

lemma wf_cases: "bc_wf c \<Longrightarrow> i < length (bc_blocks c) \<Longrightarrow> i \<in> set (bc_lru c) \<or> bk_ref_count (bc_blocks c ! i) = 0"
  unfolding bc_wf_def by blast

lemma kept_pinned:
  assumes v: "bcache_view dbytes dbs c s ys" and v': "bcache_view dbytes dbs c' s' ys'" and k: "bc_kept c c'" and p: "pinned c pins"
  shows "pinned c' pins"
proof -
  have ref: "bk_ref_count (bc_blocks c' ! j) = bk_ref_count (bc_blocks c ! j)" if "j < length (bc_blocks c)" for j using k that by (simp add: bc_kept_def)
  have held: "j \<in> set (bc_lru c') \<and> bc_blocks c' ! j = bc_blocks c ! j" if "j \<in> set (bc_lru c)" "bk_ref_count (bc_blocks c ! j) \<noteq> 0" for j
  proof -
    have "bk_ref_count (bc_blocks c ! j) > 0" using view_slot(2)[OF v that(1)] that(2) by (simp add: slot_ok_def)
    then show ?thesis using k that(1) by (simp add: bc_kept_def)
  qed
  have mapped: "\<exists>j. j \<in> set (bc_lru c') \<and> bk_blocknum (bc_blocks c' ! j) = b \<and> bk_ref_count (bc_blocks c' ! j) = pins b" if nz: "pins b \<noteq> 0" for b
  proof -
    obtain j where "j \<in> set (bc_lru c)" "b = bk_blocknum (bc_blocks c ! j)" using p nz unfolding pinned_def by blast
    moreover then have "bk_ref_count (bc_blocks c ! j) = pins b" using p by (simp add: pinned_def)
    ultimately show ?thesis using held[of j] nz by auto
  qed
  have "bk_ref_count (bc_blocks c' ! i) = pins (bk_blocknum (bc_blocks c' ! i))" if i: "i \<in> set (bc_lru c')" for i
  proof (cases "pins (bk_blocknum (bc_blocks c' ! i)) = 0")
    case False
    from mapped[OF this] obtain j where "j \<in> set (bc_lru c')" "bk_blocknum (bc_blocks c' ! j) = bk_blocknum (bc_blocks c' ! i)"
      "bk_ref_count (bc_blocks c' ! j) = pins (bk_blocknum (bc_blocks c' ! i))" by blast
    then show ?thesis using view_inj[OF v' _ i] by auto
  next
    case True
    have il: "i < length (bc_blocks c)" using view_slot(1)[OF v' i] k by (simp add: bc_kept_def)
    show ?thesis
    proof (rule ccontr)
      assume "\<not> ?thesis"
      then have nz: "bk_ref_count (bc_blocks c ! i) \<noteq> 0" using True ref[OF il] by simp
      then have "i \<in> set (bc_lru c)" using wf_cases[OF view_wf[OF v] il] by simp
      then show False using held[OF _ nz] p nz True by (simp add: pinned_def)
    qed
  qed
  then show ?thesis unfolding pinned_def using mapped by blast
qed

lemma pinned_room:
  assumes v: "bcache_view dbytes dbs c s ys" and p: "pinned c pins" and k: "card {b. pins b \<noteq> 0} < length (bc_blocks c)"
  shows "bc_room c"
proof (rule ccontr)
  assume n: "\<not> bc_room c"
  let ?f = "\<lambda>i. bk_blocknum (bc_blocks c ! i)"
  have all: "i \<in> set (bc_lru c)" "bk_ref_count (bc_blocks c ! i) \<noteq> 0" if "i < length (bc_blocks c)" for i
    using n that wf_cases[OF view_wf[OF v] that] by (auto simp: bc_room_def)
  then have "?f ` {..<length (bc_blocks c)} \<subseteq> {b. pins b \<noteq> 0}" using p by (auto simp: pinned_def)
  then have "card (?f ` {..<length (bc_blocks c)}) \<le> card {b. pins b \<noteq> 0}" by (simp add: card_mono)
  moreover have "inj_on ?f {..<length (bc_blocks c)}" using all(1) view_inj[OF v] by (auto intro!: inj_onI)
  ultimately show False using k by (simp add: card_image)
qed

end
