(* ===== verification/Bcache_Spec.thy ===== *)
theory Bcache_Spec
  imports Bcache_Inv "HOL-Library.Multiset"
begin

text \<open>
  The block cache implements its specification: a client that reads, writes, zeroes, holds and releases blocks sees the bytes
  of the device and the blocks it holds, and after a flush the device holds what the client sees. Each operation refines the
  operation on \<open>bc_spec\<close> (\<open>bc_refines\<close>), a block that is held keeps its place (\<open>stay\<close>).
\<close>

section \<open>What a cache promises\<close>

text \<open>
  Calls of a client. \<open>Write_block\<close> is the way a client changes a block: get it, store through the pointer, mark it
  dirty, put it. To the client the cache is the bytes of the device and the multiset of the blocks it holds.
\<close>

datatype bc_op = Read_block u32 | Get_block u32 | Put_block u32 | Write_block u32 "u8 list" | Zero_block u32 | Flush_blocks

definition client_write :: "'w bio_driver \<Rightarrow> u32 \<Rightarrow> u8 list \<Rightarrow> bcache \<Rightarrow> 'w bio_state \<Rightarrow> (int \<times> bcache \<times> 'w bio_state) option" where
  "client_write drv b v c s = do {
     (err, ptr, c, s) \<leftarrow> bcache_get_block drv True b c s;
     i \<leftarrow> ptr;
     m \<leftarrow> store_at 0 v (bk_data (bc_blocks c ! i));
     (err, c) \<leftarrow> bcache_mark_block_dirty b (upd_block i (\<lambda>b. b\<lparr>bk_data := m\<rparr>) c);
     (err, c) \<leftarrow> bcache_put_block b c;
     Some (err, c, s) }"

fun bc_do :: "'w bio_driver \<Rightarrow> bc_op \<Rightarrow> bcache \<Rightarrow> 'w bio_state \<Rightarrow> ((int \<times> u8 list) \<times> bcache \<times> 'w bio_state) option" where
  "bc_do drv (Read_block b) c s = do { (err, bs, c, s) \<leftarrow> bcache_read_block drv b c s; Some ((err, bs), c, s) }"
| "bc_do drv (Get_block b) c s = do {
     (err, ptr, c, s) \<leftarrow> bcache_get_block drv True b c s;
     Some ((err, case ptr of None \<Rightarrow> [] | Some i \<Rightarrow> bk_data (bc_blocks c ! i)), c, s) }"
| "bc_do drv (Put_block b) c s = do { (err, c) \<leftarrow> bcache_put_block b c; Some ((err, []), c, s) }"
| "bc_do drv (Write_block b v) c s = do { (err, c, s) \<leftarrow> client_write drv b v c s; Some ((err, []), c, s) }"
| "bc_do drv (Zero_block b) c s = do { (err, c, s) \<leftarrow> bcache_zero_block drv b c s; Some ((err, []), c, s) }"
| "bc_do drv Flush_blocks c s = do { (err, c, s) \<leftarrow> bcache_flush drv c s; Some ((err, []), c, s) }"

fun bc_run :: "'w bio_driver \<Rightarrow> bc_op list \<Rightarrow> bcache \<Rightarrow> 'w bio_state \<Rightarrow> ((int \<times> u8 list) list \<times> bcache \<times> 'w bio_state) option" where
  "bc_run drv [] c s = Some ([], c, s)"
| "bc_run drv (op # ops) c s = do {
     (r, c, s) \<leftarrow> bc_do drv op c s;
     (rs, c, s) \<leftarrow> bc_run drv ops c s;
     Some (r # rs, c, s) }"

type_synonym bc_spec = "u8 list \<times> u32 multiset"

text \<open>The specification for \<open>k\<close> blocks of \<open>n\<close> bytes.\<close>

fun spec_pre :: "nat \<Rightarrow> nat \<Rightarrow> bc_op \<Rightarrow> bc_spec \<Rightarrow> bool" where
  "spec_pre k n (Read_block b) (ys, held) \<longleftrightarrow> in_dev n (unat b) ys \<and> card (set_mset held) < k"
| "spec_pre k n (Get_block b) (ys, held) \<longleftrightarrow> in_dev n (unat b) ys \<and> card (set_mset held) < k"
| "spec_pre k n (Put_block b) (ys, held) \<longleftrightarrow> b \<in># held"
| "spec_pre k n (Write_block b v) (ys, held) \<longleftrightarrow> in_dev n (unat b) ys \<and> card (set_mset held) < k \<and> length v = n"
| "spec_pre k n (Zero_block b) (ys, held) \<longleftrightarrow> in_dev n (unat b) ys \<and> card (set_mset held) < k"
| "spec_pre k n Flush_blocks (ys, held) \<longleftrightarrow> True"

fun spec_do :: "nat \<Rightarrow> bc_op \<Rightarrow> bc_spec \<Rightarrow> u8 list \<times> bc_spec" where
  "spec_do n (Read_block b) (ys, held) = (dslice n (unat b) ys, ys, held)"
| "spec_do n (Get_block b) (ys, held) = (dslice n (unat b) ys, ys, add_mset b held)"
| "spec_do n (Put_block b) (ys, held) = ([], ys, held - {#b#})"
| "spec_do n (Write_block b v) (ys, held) = ([], memcpy_at (unat b * n) v ys, held)"
| "spec_do n (Zero_block b) (ys, held) = ([], memcpy_at (unat b * n) (replicate n 0) ys, held)"
| "spec_do n Flush_blocks (ys, held) = ([], ys, held)"

fun spec_run :: "nat \<Rightarrow> nat \<Rightarrow> bc_op list \<Rightarrow> bc_spec \<Rightarrow> (u8 list list \<times> bc_spec) option" where
  "spec_run k n [] a = Some ([], a)"
| "spec_run k n (op # ops) a =
    (if spec_pre k n op a then do {
       let (r, a) = spec_do n op a;
       (rs, a) \<leftarrow> spec_run k n ops a;
       Some (r # rs, a) }
     else None)"

text \<open>The relation: what the cache shows, and its reference counts.\<close>

definition bc_refines :: "(nat \<Rightarrow> 'w \<Rightarrow> u8 list) \<Rightarrow> (nat \<Rightarrow> nat) \<Rightarrow> nat \<Rightarrow> nat \<Rightarrow> bcache \<Rightarrow> 'w bio_state \<Rightarrow> bc_spec \<Rightarrow> bool" where
  "bc_refines dbytes dbs k n c s a \<longleftrightarrow> bcache_view dbytes dbs c s (fst a) \<and> pinned c (\<lambda>b. int (count (snd a) b)) \<and>
     unat (bc_block_size c) = n \<and> length (bc_blocks c) = k"

lemma count_room: "{b. int (count M b) \<noteq> 0} = set_mset M"
  by auto

lemma refines_room:
  assumes "bc_refines dbytes dbs k n c s (ys, M)" "card (set_mset M) < k"
  shows "bc_room c"
  using assms pinned_room[of dbytes dbs c s ys "\<lambda>b. int (count M b)"] by (simp add: bc_refines_def count_room del: of_nat_eq_0_iff)

context bio_drivers
begin

lemma fill_refines:
  assumes r: "bc_refines dbytes dbs k n c s (ys, M)" and "in_dev n (unat b) ys" "card (set_mset M) < k"
  shows "\<exists>i c' s'. find_or_fill_block drv b c s = Some (Some i, c', s') \<and> bc_refines dbytes dbs k n c' s' (ys, M) \<and> bc_kept c c' \<and>
    i \<in> set (bc_lru c') \<and> bk_blocknum (bc_blocks c' ! i) = b \<and> bk_data (bc_blocks c' ! i) = dslice n (unat b) ys"
proof -
  have v: "bcache_view dbytes dbs c s ys" and n: "unat (bc_block_size c) = n" using r by (simp_all add: bc_refines_def)
  from find_or_fill_ok[OF v refines_room[OF r assms(3)], of b] assms(2) n obtain i c' s' where
    f: "find_or_fill_block drv b c s = Some (Some i, c', s')" "bcache_view dbytes dbs c' s' ys" "bc_kept c c'" "i \<in> set (bc_lru c')"
      "bk_blocknum (bc_blocks c' ! i) = b" by auto
  have "pinned c' (\<lambda>b. int (count M b))" using kept_pinned[OF v f(2,3)] r by (simp add: bc_refines_def)
  moreover have "unat (bc_block_size c') = n" "length (bc_blocks c') = k" using f(3) n r by (simp_all add: bc_kept_def bc_refines_def)
  ultimately show ?thesis using f view_slot(4)[OF f(2,4)] by (auto simp: bc_refines_def)
qed

lemma read_refines:
  assumes r: "bc_refines dbytes dbs k n c s (ys, M)" and "in_dev n (unat b) ys" "card (set_mset M) < k"
  shows "\<exists>c' s'. bcache_read_block drv b c s = Some (0, dslice n (unat b) ys, c', s') \<and> bc_refines dbytes dbs k n c' s' (ys, M) \<and> bc_kept c c'"
proof -
  from fill_refines[OF assms] obtain i c' s' where f: "find_or_fill_block drv b c s = Some (Some i, c', s')" "bc_refines dbytes dbs k n c' s' (ys, M)"
    "bc_kept c c'" "bk_data (bc_blocks c' ! i) = dslice n (unat b) ys" by blast
  moreover have "unat (bc_block_size c') = n" using f(2) by (simp add: bc_refines_def)
  ultimately show ?thesis using dslice_length[OF assms(2)] by (simp add: bcache_read_block_def load_at_def)
qed

end

text \<open>A change of the reference count of a block.\<close>

lemma pinned_upd:
  assumes p: "pinned c pins" and i: "i \<in> set (bc_lru c)" "i < length (bc_blocks c)" and u: "\<And>j. j \<in> set (bc_lru c) \<Longrightarrow> j \<noteq> i \<Longrightarrow> bk_blocknum (bc_blocks c ! j) \<noteq> bk_blocknum (bc_blocks c ! i)"
    and f: "bk_blocknum (f (bc_blocks c ! i)) = bk_blocknum (bc_blocks c ! i)"
  shows "pinned (upd_block i f c) (pins(bk_blocknum (bc_blocks c ! i) := bk_ref_count (f (bc_blocks c ! i))))"
proof -
  let ?b = "bk_blocknum (bc_blocks c ! i)"
  have bl: "bc_blocks (upd_block i f c) ! j = (if j = i then f (bc_blocks c ! i) else bc_blocks c ! j)" for j using i(2) by simp
  have "(\<lambda>j. bk_blocknum (bc_blocks (upd_block i f c) ! j)) ` set (bc_lru c) = (\<lambda>j. bk_blocknum (bc_blocks c ! j)) ` set (bc_lru c)"
    by (rule image_cong) (use f bl in auto)
  then show ?thesis using p i u f unfolding pinned_def by (auto simp: nth_list_update)
qed

lemma find_mapped:
  assumes r: "bc_refines dbytes dbs k n c s (ys, M)" and i: "i \<in> set (bc_lru c)" "bk_blocknum (bc_blocks c ! i) = b"
  shows "\<exists>c'. find_block b c = Some (Some i, c') \<and> relisted c c' \<and> bc_refines dbytes dbs k n c' s (ys, M)"
proof -
  have v: "bcache_view dbytes dbs c s ys" using r by (simp add: bc_refines_def)
  from find_block_ok[OF view_wf[OF v], of b] obtain q c' where q: "find_block b c = Some (q, c')" "relisted c c'"
    "case q of None \<Rightarrow> \<forall>i \<in> set (bc_lru c). bk_blocknum (bc_blocks c ! i) \<noteq> b | Some i \<Rightarrow> i \<in> set (bc_lru c) \<and> bk_blocknum (bc_blocks c ! i) = b"
    by blast
  have "q \<noteq> None" using q(3) i by (cases q) auto
  then obtain j where j: "q = Some j" by blast
  then have "j \<in> set (bc_lru c)" "bk_blocknum (bc_blocks c ! j) = bk_blocknum (bc_blocks c ! i)" using q(3) i(2) by simp_all
  then have "q = Some i" using j view_inj[OF v _ i(1), of j] by simp
  moreover have "bc_refines dbytes dbs k n c' s (ys, M)" using r relisted_view[OF q(2) v] q(2) by (simp add: bc_refines_def relisted_def pinned_def)
  ultimately show ?thesis using q by blast
qed

lemma refines_member:
  assumes r: "bc_refines dbytes dbs k n c s (ys, M)" and "b \<in># M"
  obtains i where "i \<in> set (bc_lru c)" "bk_blocknum (bc_blocks c ! i) = b"
proof -
  have "int (count M b) \<noteq> 0" using assms(2) by (simp add: count_eq_zero_iff)
  then have "b \<in> (\<lambda>i. bk_blocknum (bc_blocks c ! i)) ` set (bc_lru c)" using r unfolding bc_refines_def pinned_def by simp
  then show ?thesis using that by blast
qed

lemma refines_slot:
  assumes r: "bc_refines dbytes dbs k n c s (ys, M)" and i: "i \<in> set (bc_lru c)" "bk_blocknum (bc_blocks c ! i) = b"
  shows "bk_ref_count (bc_blocks c ! i) = int (count M b)" "bk_data (bc_blocks c ! i) = dslice n (unat b) ys" "in_dev n (unat b) ys"
    "i < length (bc_blocks c)" "slot_ok n (bc_blocks c ! i)"
  using r view_slot[of dbytes dbs c s ys i] i by (auto simp: bc_refines_def pinned_def)

text \<open>A change of one block, as the client sees it.\<close>

lemma refines_upd:
  assumes r: "bc_refines dbytes dbs k n c s (ys, M)" and i: "i \<in> set (bc_lru c)" "bk_blocknum (bc_blocks c ! i) = b"
    and f: "slot_ok n (f (bc_blocks c ! i))" "bk_blocknum (f (bc_blocks c ! i)) = b" "bk_ref_count (f (bc_blocks c ! i)) = int (count M' b)"
      "\<And>e. e \<noteq> b \<Longrightarrow> count M' e = count M e"
    and d: "bk_is_dirty (f (bc_blocks c ! i)) \<or> \<not> bk_is_dirty (bc_blocks c ! i) \<and> bk_data (f (bc_blocks c ! i)) = bk_data (bc_blocks c ! i)"
  shows "bc_refines dbytes dbs k n (upd_block i f c) s (memcpy_at (unat b * n) (bk_data (f (bc_blocks c ! i))) ys, M')"
proof -
  have v: "bcache_view dbytes dbs c s ys" and n: "unat (bc_block_size c) = n" and p: "pinned c (\<lambda>b. int (count M b))" and k: "length (bc_blocks c) = k"
    using r by (simp_all add: bc_refines_def)
  have "bcache_view dbytes dbs (upd_block i f c) s (memcpy_at (unat b * n) (bk_data (f (bc_blocks c ! i))) ys)"
    using view_upd[of dbytes dbs c s ys i f] v i f(1,2) d n by simp
  moreover have "pinned (upd_block i f c) ((\<lambda>b. int (count M b))(b := int (count M' b)))"
    using pinned_upd[OF p i(1), of f] view_slot(1)[OF v i(1)] view_inj[OF v _ i(1)] i(2) f(2,3) by fastforce
  moreover have "(\<lambda>b. int (count M b))(b := int (count M' b)) = (\<lambda>b. int (count M' b))" using f(4) by auto
  ultimately show ?thesis using n k by (simp add: bc_refines_def)
qed

lemma refines_touch:
  assumes r: "bc_refines dbytes dbs k n c s (ys, M)" and i: "i \<in> set (bc_lru c)" "bk_blocknum (bc_blocks c ! i) = b"
    and f: "f (bc_blocks c ! i) = (bc_blocks c ! i)\<lparr>bk_ref_count := int (count M' b)\<rparr>" "\<And>e. e \<noteq> b \<Longrightarrow> count M' e = count M e"
  shows "bc_refines dbytes dbs k n (upd_block i f c) s (ys, M')"
proof -
  note sl = refines_slot[OF r i]
  have e: "memcpy_at (unat b * n) (dslice n (unat b) ys) ys = ys" by (rule dslice_same[OF sl(3)])
  have v: "bcache_view dbytes dbs c s ys" and n: "unat (bc_block_size c) = n" and p: "pinned c (\<lambda>b. int (count M b))" and k: "length (bc_blocks c) = k"
    using r by (simp_all add: bc_refines_def)
  have "bcache_view dbytes dbs (upd_block i f c) s ys"
    by (rule view_touch[OF v i(1)]) (use f sl n i in \<open>simp_all add: slot_ok_def\<close>)
  moreover have "pinned (upd_block i f c) ((\<lambda>b. int (count M b))(b := int (count M' b)))"
    using pinned_upd[OF p i(1), of f] view_slot(1)[OF v i(1)] view_inj[OF v _ i(1)] i(2) f(1) by fastforce
  moreover have "(\<lambda>b. int (count M b))(b := int (count M' b)) = (\<lambda>b. int (count M' b))" using f(2) by auto
  ultimately show ?thesis using n k by (simp add: bc_refines_def)
qed

text \<open>The blocks that stay where they are.\<close>

definition stay :: "u32 set \<Rightarrow> bcache \<Rightarrow> bcache \<Rightarrow> bool" where
  "stay B c c' \<longleftrightarrow> bc_dev c' = bc_dev c \<and> (\<forall>i \<in> set (bc_lru c). bk_ref_count (bc_blocks c ! i) > 0 \<and> bk_blocknum (bc_blocks c ! i) \<in> B \<longrightarrow>
     i \<in> set (bc_lru c') \<and> bk_blocknum (bc_blocks c' ! i) = bk_blocknum (bc_blocks c ! i) \<and> bk_ptr (bc_blocks c' ! i) = bk_ptr (bc_blocks c ! i) \<and>
     bk_ref_count (bc_blocks c' ! i) > 0)"

lemma stay_trans: "stay B a b \<Longrightarrow> stay B b c \<Longrightarrow> stay B a c"
  unfolding stay_def by (smt (verit))

lemma stay_kept: "bc_kept c c' \<Longrightarrow> stay B c c'"
  unfolding stay_def bc_kept_def by auto

lemma stay_upd:
  assumes "\<And>b. bk_blocknum (f b) = bk_blocknum b \<and> bk_ptr (f b) = bk_ptr b" "bk_blocknum (bc_blocks c ! i) \<in> B \<Longrightarrow> bk_ref_count (f (bc_blocks c ! i)) > 0 \<or> bk_ref_count (bc_blocks c ! i) \<le> 0"
  shows "stay B c (upd_block i f c)"
  using assms unfolding stay_def by (cases "i < length (bc_blocks c)") (auto simp: nth_list_update list_update_beyond not_less)

text \<open>A search depends on the numbers of the blocks only.\<close>

lemma find_walk_upd:
  "bk_blocknum (f (bl ! i)) = bk_blocknum (bl ! i) \<Longrightarrow> find_walk (bl[i := f (bl ! i)]) b is d = find_walk bl b is d"
proof -
  assume "bk_blocknum (f (bl ! i)) = bk_blocknum (bl ! i)"
  then have "bk_blocknum (bl[i := f (bl ! i)] ! j) = bk_blocknum (bl ! j)" for j
    by (cases "i < length bl") (auto simp: nth_list_update list_update_beyond not_less)
  then show ?thesis by (induction "is" arbitrary: d) auto
qed

lemma find_block_upd:
  assumes "bk_blocknum (f (bc_blocks c ! i)) = bk_blocknum (bc_blocks c ! i)" "find_block b c = Some (r, c')"
  shows "find_block b (upd_block i f c) = Some (r, upd_block i f c')"
proof -
  have "find_walk (bc_blocks (upd_block i f c)) b (bc_lru c) 0 = find_walk (bc_blocks c) b (bc_lru c) 0"
    using find_walk_upd[of f "bc_blocks c" i b "bc_lru c" 0] assms(1) by simp
  then show ?thesis using assms(2)
    by (auto simp: find_block_def upd_block_def upd_stats_def split: option.splits Option.bind_splits prod.splits)
qed

lemma put_refines:
  assumes r: "bc_refines dbytes dbs k n c s (ys, M)" and m: "b \<in># M"
  shows "\<exists>c'. bcache_put_block b c = Some (0, c') \<and> bc_refines dbytes dbs k n c' s (ys, M - {#b#}) \<and> stay {e. e \<noteq> b \<or> e \<in># M - {#b#}} c c'"
proof -
  obtain i where i: "i \<in> set (bc_lru c)" "bk_blocknum (bc_blocks c ! i) = b" using refines_member[OF r m] by blast
  from find_mapped[OF r i] obtain c1 where c1: "find_block b c = Some (Some i, c1)" "relisted c c1" "bc_refines dbytes dbs k n c1 s (ys, M)" by blast
  have i1: "i \<in> set (bc_lru c1)" "bk_blocknum (bc_blocks c1 ! i) = b" using i c1(2) by (simp_all add: relisted_def)
  note sl = refines_slot[OF c1(3) i1]
  have pos: "count M b > 0" using m by simp
  let ?f = "\<lambda>b. b\<lparr>bk_ref_count := bk_ref_count b - 1\<rparr>"
  have "bcache_put_block b c = Some (0, upd_block i ?f c1)" using c1(1) sl(1) pos by (simp add: bcache_put_block_def)
  moreover have "bc_refines dbytes dbs k n (upd_block i ?f c1) s (ys, M - {#b#})"
    by (rule refines_touch[OF c1(3) i1]) (use sl(1) pos in \<open>simp_all add: of_nat_diff\<close>)
  moreover have "stay {e. e \<noteq> b \<or> e \<in># M - {#b#}} c (upd_block i ?f c1)"
    by (rule stay_trans[OF stay_kept[OF relisted_kept[OF c1(2)]] stay_upd]) (use i1 sl(1) in \<open>simp_all add: in_diff_count\<close>)
  ultimately show ?thesis by blast
qed

lemma stay_mono: "stay UNIV c c' \<Longrightarrow> stay B c c'"
  by (simp add: stay_def)

lemma stay_held:
  assumes "bc_refines dbytes dbs k n c s (ys, M)" "stay B c c'" "set_mset M \<subseteq> B"
  shows "stay UNIV c c'"
proof -
  have "bk_blocknum (bc_blocks c ! i) \<in> B" if "i \<in> set (bc_lru c)" "bk_ref_count (bc_blocks c ! i) > 0" for i
    using refines_slot(1)[OF assms(1) that(1) refl] that(2) assms(3) by auto
  then show ?thesis using assms(2) unfolding stay_def by auto
qed

context bio_drivers
begin

lemma get_refines:
  assumes r: "bc_refines dbytes dbs k n c s (ys, M)" and "in_dev n (unat b) ys" "card (set_mset M) < k"
  shows "\<exists>i c' s'. bcache_get_block drv True b c s = Some (0, Some i, c', s') \<and> bc_refines dbytes dbs k n c' s' (ys, add_mset b M) \<and> stay UNIV c c' \<and>
    i \<in> set (bc_lru c') \<and> bk_blocknum (bc_blocks c' ! i) = b \<and> bk_data (bc_blocks c' ! i) = dslice n (unat b) ys"
proof -
  from fill_refines[OF assms] obtain i c1 s1 where f: "find_or_fill_block drv b c s = Some (Some i, c1, s1)" "bc_refines dbytes dbs k n c1 s1 (ys, M)"
    "bc_kept c c1" "i \<in> set (bc_lru c1)" "bk_blocknum (bc_blocks c1 ! i) = b" "bk_data (bc_blocks c1 ! i) = dslice n (unat b) ys" by blast
  note sl = refines_slot[OF f(2,4,5)]
  let ?f = "\<lambda>b. b\<lparr>bk_ref_count := bk_ref_count b + 1\<rparr>"
  have "bc_refines dbytes dbs k n (upd_block i ?f c1) s1 (ys, add_mset b M)"
    by (rule refines_touch[OF f(2,4,5)]) (use sl(1) in simp_all)
  moreover have "stay UNIV c (upd_block i ?f c1)" by (rule stay_trans[OF stay_kept[OF f(3)] stay_upd]) (use sl(1) in simp_all)
  ultimately show ?thesis using f sl(4) by (simp add: bcache_get_block_def)
qed

lemma write_refines:
  assumes r: "bc_refines dbytes dbs k n c s (ys, M)" and "in_dev n (unat b) ys" "card (set_mset M) < k" and l: "length v = n"
  shows "\<exists>c' s'. client_write drv b v c s = Some (0, c', s') \<and> bc_refines dbytes dbs k n c' s' (memcpy_at (unat b * n) v ys, M) \<and> stay UNIV c c'"
proof -
  from get_refines[OF assms(1-3)] obtain i c1 s1 where g: "bcache_get_block drv True b c s = Some (0, Some i, c1, s1)"
    "bc_refines dbytes dbs k n c1 s1 (ys, add_mset b M)" "stay UNIV c c1" "i \<in> set (bc_lru c1)" "bk_blocknum (bc_blocks c1 ! i) = b" by blast
  note sl = refines_slot[OF g(2,4,5)]
  have st: "store_at 0 v (bk_data (bc_blocks c1 ! i)) = Some v" using sl(5) l by (simp add: slot_ok_def store_at_def memcpy_at_def)
  from find_mapped[OF g(2,4,5)] obtain c2 where c2: "find_block b c1 = Some (Some i, c2)" "relisted c1 c2"
    "bc_refines dbytes dbs k n c2 s1 (ys, add_mset b M)" by blast
  have i2: "i \<in> set (bc_lru c2)" "bk_blocknum (bc_blocks c2 ! i) = b" "bc_blocks c2 = bc_blocks c1" using g c2(2) by (simp_all add: relisted_def)
  let ?f = "\<lambda>b. b\<lparr>bk_data := v\<rparr>" let ?g = "\<lambda>b. b\<lparr>bk_data := v, bk_is_dirty := True\<rparr>"
  define c3 where "c3 = upd_block i ?g c2"
  have "upd_block i (\<lambda>b. b\<lparr>bk_is_dirty := True\<rparr>) (upd_block i ?f c2) = c3"
    using sl(4) i2(3) by (simp add: c3_def upd_block_def)
  then have md: "bcache_mark_block_dirty b (upd_block i ?f c1) = Some (0, c3)"
    using find_block_upd[of ?f c1 i b, OF _ c2(1)] by (simp add: bcache_mark_block_dirty_def)
  have "bc_refines dbytes dbs k n c3 s1 (memcpy_at (unat b * n) (bk_data (?g (bc_blocks c2 ! i))) ys, add_mset b M)"
    unfolding c3_def by (rule refines_upd[OF c2(3) i2(1,2)]) (use sl l i2 in \<open>simp_all add: slot_ok_def\<close>)
  then have r3: "bc_refines dbytes dbs k n c3 s1 (memcpy_at (unat b * n) v ys, add_mset b M)" by simp
  from put_refines[OF r3, of b] obtain c4 where c4: "bcache_put_block b c3 = Some (0, c4)" "bc_refines dbytes dbs k n c4 s1 (memcpy_at (unat b * n) v ys, M)"
    "stay {e. e \<noteq> b \<or> e \<in># M} c3 c4" by auto
  have "stay UNIV c2 c3" unfolding c3_def by (rule stay_upd) auto
  then have "stay UNIV c c3" using stay_trans[OF g(3) stay_trans[OF stay_kept[OF relisted_kept[OF c2(2)]]]] by blast
  then have "stay {e. e \<noteq> b \<or> e \<in># M} c c4" using stay_trans[OF stay_mono c4(3)] by blast
  then have "stay UNIV c c4" by (rule stay_held[OF r]) auto
  moreover have "client_write drv b v c s = Some (0, c4, s1)" using g(1) st md c4(1) by (simp add: client_write_def)
  ultimately show ?thesis using c4(2) by blast
qed

end

context bio_drivers
begin

lemma zero_refines:
  assumes r: "bc_refines dbytes dbs k n c s (ys, M)" and d: "in_dev n (unat b) ys" and m: "card (set_mset M) < k"
  shows "\<exists>c' s'. bcache_zero_block drv b c s = Some (0, c', s') \<and> bc_refines dbytes dbs k n c' s' (memcpy_at (unat b * n) (replicate n 0) ys, M) \<and> stay UNIV c c'"
proof -
  have v: "bcache_view dbytes dbs c s ys" and n: "unat (bc_block_size c) = n" using r by (simp_all add: bc_refines_def)
  let ?z = "replicate n (0 :: u8)"
  show ?thesis
  proof (cases "\<exists>i \<in> set (bc_lru c). bk_blocknum (bc_blocks c ! i) = b")
    case True
    then obtain i where i: "i \<in> set (bc_lru c)" "bk_blocknum (bc_blocks c ! i) = b" by blast
    from find_mapped[OF r i] obtain c1 where c1: "find_block b c = Some (Some i, c1)" "relisted c c1" "bc_refines dbytes dbs k n c1 s (ys, M)" by blast
    have i1: "i \<in> set (bc_lru c1)" "bk_blocknum (bc_blocks c1 ! i) = b" "unat (bc_block_size c1) = n" using i n c1(2) by (simp_all add: relisted_def)
    note sl = refines_slot[OF c1(3) i1(1,2)]
    have st: "store_at 0 ?z (bk_data (bc_blocks c1 ! i)) = Some ?z" using sl(5) by (simp add: slot_ok_def store_at_def memcpy_at_def)
    let ?g = "\<lambda>b. b\<lparr>bk_data := ?z, bk_is_dirty := True\<rparr>"
    have "bcache_zero_block drv b c s = Some (0, upd_block i ?g c1, s)" using c1(1) st i1(3) by (simp add: bcache_zero_block_def)
    moreover have "bc_refines dbytes dbs k n (upd_block i ?g c1) s (memcpy_at (unat b * n) (bk_data (?g (bc_blocks c1 ! i))) ys, M)"
      by (rule refines_upd[OF c1(3) i1(1,2)]) (use sl i1 in \<open>simp_all add: slot_ok_def\<close>)
    moreover have "stay UNIV c (upd_block i ?g c1)" by (rule stay_trans[OF stay_kept[OF relisted_kept[OF c1(2)]] stay_upd]) auto
    ultimately show ?thesis by auto
  next
    case False
    from find_block_ok[OF view_wf[OF v], of b] False obtain c1 where c1: "find_block b c = Some (None, c1)" "relisted c c1"
      by (auto split: option.splits)
    have v1: "bcache_view dbytes dbs c1 s ys" by (rule relisted_view[OF c1(2) v])
    have u: "\<forall>i \<in> set (bc_lru c1). bk_blocknum (bc_blocks c1 ! i) \<noteq> b" using False c1(2) by (simp add: relisted_def)
    note k1 = relisted_kept[OF c1(2)]
    from alloc_block_ok[OF v1 bc_kept_room[OF k1 refines_room[OF r m]]] obtain i c2 s2 where
      al: "alloc_block drv c1 s = Some (Some i, c2, s2)" "allocated i c1 c2 s2 ys" by blast
    have n2: "unat (bc_block_size c1) = n" "unat (bc_block_size c2) = n" using n c1(2) al(2) by (simp_all add: relisted_def allocated_def)
    have il: "i < length (bc_blocks c2)" "bk_ref_count (bc_blocks c2 ! i) = 0" and w2: "bc_wf c2" using al(2) by (auto simp: allocated_def cached_def)
    have so: "slot_ok n (bc_blocks c2 ! i)" using wf_slot[OF w2 il(1)] n2 by simp
    let ?h = "\<lambda>b'. b'\<lparr>bk_blocknum := b\<rparr>" let ?g = "\<lambda>b. b\<lparr>bk_data := ?z, bk_is_dirty := True\<rparr>"
    define c' where "c' = upd_block i (\<lambda>b'. ?g (?h b')) c2"
    have c': "c' = upd_block i ?g (upd_block i ?h c2)" using il by (simp add: c'_def upd_block_def)
    have "store_at 0 ?z (bk_data (bc_blocks (upd_block i ?h c2) ! i)) = Some ?z" using so il by (simp add: slot_ok_def store_at_def memcpy_at_def)
    then have "bcache_zero_block drv b c s = Some (0, c', s2)" using c1(1) al(1) n2(2) by (simp add: bcache_zero_block_def c')
    moreover have V: "bcache_view dbytes dbs c' s2 (memcpy_at (unat b * n) ?z ys)" "bc_kept c1 c'"
      using allocated_view[OF al(2), of "?g (?h (bc_blocks c2 ! i))" "\<lambda>b'. ?g (?h b')"] u so il d n2 unfolding c'_def by (auto simp: slot_ok_def)
    moreover have k': "bc_kept c c'" by (rule bc_kept_trans[OF k1 V(2)])
    moreover have "bc_refines dbytes dbs k n c' s2 (memcpy_at (unat b * n) ?z ys, M)"
      using V(1) kept_pinned[OF v V(1) k'] k' r by (simp add: bc_refines_def bc_kept_def)
    ultimately show ?thesis using stay_kept by blast
  qed
qed

text \<open>Writing all dirty blocks back.\<close>

lemma flush_loop_ok:
  assumes "cached dbytes dbs L c s ys" "set is \<subseteq> set (bc_lru c)" "set is \<subseteq> L"
  shows "\<exists>c' s'. flush_loop drv is c s = Some (0, c', s') \<and> cached dbytes dbs L c' s' ys \<and> bc_lists c' = bc_lists c \<and>
    bc_dev c' = bc_dev c \<and> bc_block_size c' = bc_block_size c \<and> length (bc_blocks c') = length (bc_blocks c) \<and>
    (\<forall>j. bc_blocks c' ! j = (if j \<in> set is then (bc_blocks c ! j)\<lparr>bk_is_dirty := False\<rparr> else bc_blocks c ! j))"
  using assms
proof (induction "is" arbitrary: c s)
  case Nil
  then show ?case by simp
next
  case (Cons i "is")
  have il: "i < length (bc_blocks c)" using Cons.prems wf_lru[of c i] by (auto simp: cached_def)
  obtain c1 s1 where f1: "flush_loop drv (i # is) c s = flush_loop drv is c1 s1" and
    c1: "cached dbytes dbs L c1 s1 ys" "bc_lists c1 = bc_lists c" "bc_dev c1 = bc_dev c" "bc_block_size c1 = bc_block_size c"
      "length (bc_blocks c1) = length (bc_blocks c)" "\<And>j. bc_blocks c1 ! j = (if j = i then (bc_blocks c ! i)\<lparr>bk_is_dirty := False\<rparr> else bc_blocks c ! j)"
  proof (cases "bk_is_dirty (bc_blocks c ! i)")
    case True
    from flush_block_ok[OF Cons.prems(1), of i] Cons.prems(2,3) obtain c1 s1 where fb: "flush_block drv i c s = Some (0, c1, s1)" "cached dbytes dbs L c1 s1 ys"
      "bc_lists c1 = bc_lists c" "bc_blocks c1 = (bc_blocks c)[i := (bc_blocks c ! i)\<lparr>bk_is_dirty := False\<rparr>]" "bc_dev c1 = bc_dev c"
      "bc_block_size c1 = bc_block_size c" by auto
    show ?thesis by (rule that[of c1 s1]) (use True fb il in \<open>simp_all add: nth_list_update\<close>)
  next
    case False
    then have "(bc_blocks c ! i)\<lparr>bk_is_dirty := False\<rparr> = bc_blocks c ! i" by (cases "bc_blocks c ! i") simp
    then show ?thesis using False Cons.prems(1) by (intro that[of c s]) simp_all
  qed
  have "set is \<subseteq> set (bc_lru c1)" "set is \<subseteq> L" using Cons.prems c1(2) by auto
  from Cons.IH[OF c1(1) this] obtain c' s' where r: "flush_loop drv is c1 s1 = Some (0, c', s')" "cached dbytes dbs L c' s' ys" "bc_lists c' = bc_lists c1"
    "bc_dev c' = bc_dev c1" "bc_block_size c' = bc_block_size c1" "length (bc_blocks c') = length (bc_blocks c1)"
    "\<forall>j. bc_blocks c' ! j = (if j \<in> set is then (bc_blocks c1 ! j)\<lparr>bk_is_dirty := False\<rparr> else bc_blocks c1 ! j)" by blast
  then show ?case using f1 c1 by auto
qed

lemma flush_refines:
  assumes r: "bc_refines dbytes dbs k n c s (ys, M)"
  shows "\<exists>c' s'. bcache_flush drv c s = Some (0, c', s') \<and> bc_refines dbytes dbs k n c' s' (ys, M) \<and> stay UNIV c c' \<and> holds s' (bc_dev c) ys"
proof -
  have v: "bcache_view dbytes dbs c s ys" using r by (simp add: bc_refines_def)
  from flush_loop_ok[of "set (bc_lru c)" c s ys "bc_lru c"] v obtain c' s' where
    f: "flush_loop drv (bc_lru c) c s = Some (0, c', s')" "cached dbytes dbs (set (bc_lru c)) c' s' ys" "bc_lists c' = bc_lists c" "bc_dev c' = bc_dev c"
      "bc_block_size c' = bc_block_size c" "length (bc_blocks c') = length (bc_blocks c)"
      "\<And>j. bc_blocks c' ! j = (if j \<in> set (bc_lru c) then (bc_blocks c ! j)\<lparr>bk_is_dirty := False\<rparr> else bc_blocks c ! j)"
    unfolding bcache_view_def by blast
  obtain xs where xs: "bc_wf c'" "holds s' (bc_dev c') xs" "maps (unat (bc_block_size c')) (bc_blocks c') (set (bc_lru c)) xs ys" using f(2) by (auto simp: cached_def)
  have "ys = xs" by (rule maps_clean[OF xs(3)]) (use xs(1) f(7) in \<open>auto simp: bc_wf_def word_less_nat_alt\<close>)
  then have "holds s' (bc_dev c) ys" using xs(2) f(4) by simp
  moreover have "bc_refines dbytes dbs k n c' s' (ys, M)"
    using r f by (auto simp: bc_refines_def bcache_view_def pinned_def image_iff)
  moreover have "stay UNIV c c'" using f by (simp add: stay_def)
  ultimately show ?thesis using f(1) by (auto simp: bcache_flush_def)
qed

end

section \<open>Sequences of calls\<close>

fun put_of :: "bc_op \<Rightarrow> u32 set" where
  "put_of (Put_block b) = {b}"
| "put_of _ = {}"

lemma refines_dev: "stay B c c' \<Longrightarrow> bc_dev c' = bc_dev c"
  by (simp add: stay_def)

context bio_drivers
begin

lemma do_refines:
  assumes "bc_refines dbytes dbs k n c s a" "spec_pre k n op a"
  shows "\<exists>c' s'. bc_do drv op c s = Some ((0, fst (spec_do n op a)), c', s') \<and> bc_refines dbytes dbs k n c' s' (snd (spec_do n op a)) \<and> stay (- put_of op) c c'"
proof -
  obtain ys M where a: "a = (ys, M)" by (cases a)
  note r = assms(1)[unfolded a] and p = assms(2)[unfolded a]
  show ?thesis
  proof (cases op)
    case (Read_block b)
    with read_refines[OF r, of b] p show ?thesis unfolding a by (auto intro: stay_kept)
  next
    case (Get_block b)
    with get_refines[OF r, of b] p show ?thesis unfolding a by (auto intro: stay_mono)
  next
    case (Put_block b)
    with put_refines[OF r, of b] p obtain c' where "bcache_put_block b c = Some (0, c')" "bc_refines dbytes dbs k n c' s (ys, M - {#b#})"
      "stay {e. e \<noteq> b \<or> e \<in># M - {#b#}} c c'" by auto
    then show ?thesis unfolding a Put_block by (auto simp: stay_def)
  next
    case (Write_block b v)
    with write_refines[OF r, of b v] p show ?thesis unfolding a by (auto intro: stay_mono)
  next
    case (Zero_block b)
    with zero_refines[OF r, of b] p show ?thesis unfolding a by (auto intro: stay_mono)
  next
    case Flush_blocks
    with flush_refines[OF r] show ?thesis unfolding a by (auto intro: stay_mono)
  qed
qed

lemma run_refines:
  assumes "bc_refines dbytes dbs k n c s a" "spec_run k n ops a = Some (outs, a')"
  shows "\<exists>c' s'. bc_run drv ops c s = Some (map (Pair 0) outs, c', s') \<and> bc_refines dbytes dbs k n c' s' a' \<and> stay (- (\<Union>op \<in> set ops. put_of op)) c c'"
  using assms
proof (induction ops arbitrary: c s a outs)
  case Nil
  then show ?case by (simp add: stay_def)
next
  case (Cons op ops)
  obtain r a1 rs where sp: "spec_pre k n op a" "spec_do n op a = (r, a1)" "spec_run k n ops a1 = Some (rs, a')" "outs = r # rs"
    using Cons.prems(2) by (auto split: if_splits prod.splits Option.bind_splits)
  from do_refines[OF Cons.prems(1) sp(1)] sp(2) obtain c1 s1 where c1: "bc_do drv op c s = Some ((0, r), c1, s1)" "bc_refines dbytes dbs k n c1 s1 a1"
    "stay (- put_of op) c c1" by auto
  from Cons.IH[OF c1(2) sp(3)] obtain c' s' where c': "bc_run drv ops c1 s1 = Some (map (Pair 0) rs, c', s')" "bc_refines dbytes dbs k n c' s' a'"
    "stay (- (\<Union>op \<in> set ops. put_of op)) c1 c'" by blast
  have "stay (- (\<Union>op \<in> set (op # ops). put_of op)) c c'"
    using stay_trans[of "- (\<Union>op \<in> set (op # ops). put_of op)" c c1 c'] c1(3) c'(3) by (auto simp: stay_def)
  then show ?case using c1(1) c'(1,2) sp(4) by auto
qed

end

section \<open>New caches\<close>

lemma create_loop_ok:
  assumes "ls_ok (bc_lists c)" "distinct is" "set is \<subseteq> {..<length (bc_blocks c)}" "bc_lru c = []" "set (bc_free c) \<inter> set is = {}"
    "\<And>i. i \<in> set is \<Longrightarrow> slot_ok n (undefined\<lparr>bk_ref_count := 0, bk_ptr := fst (ptrs i), bk_data := snd (ptrs i)\<rparr>)"
  shows "\<exists>c'. create_loop ptrs is c = Some c' \<and> ls_ok (bc_lists c') \<and> bc_lru c' = [] \<and> set (bc_free c') = set (bc_free c) \<union> set is \<and>
    bc_dev c' = bc_dev c \<and> bc_block_size c' = bc_block_size c \<and> bc_count c' = bc_count c \<and> length (bc_blocks c') = length (bc_blocks c) \<and>
    (\<forall>j. if j \<in> set is then slot_ok n (bc_blocks c' ! j) \<and> bk_ref_count (bc_blocks c' ! j) = 0 \<and> \<not> bk_is_dirty (bc_blocks c' ! j)
         else bc_blocks c' ! j = bc_blocks c ! j)"
  using assms
proof (induction "is" arbitrary: c)
  case Nil
  then show ?case by simp
next
  case (Cons i "is")
  define c1 where "c1 = upd_block i (\<lambda>b. b\<lparr>bk_ref_count := 0, bk_is_dirty := False, bk_ptr := fst (ptrs i), bk_data := snd (ptrs i)\<rparr>) c"
  have il: "i < length (bc_blocks c)" using Cons.prems by simp
  have "i \<notin> set (lcont (bc_lists c) k)" for k using Cons.prems by (cases k) auto
  then have "\<not> ls_in_list i (bc_lists c)" using ls.linked_iff[OF Cons.prems(1)] by simp
  from ls.add_head_law[OF Cons.prems(1) _ _ this, of BC_free] obtain l where
    l: "ls_add_head BC_free i (bc_lists c) = Some l" "ls_ok l" "lcont l = (lcont (bc_lists c))(BC_free := i # bc_free c)" by auto
  have e: "create_loop ptrs (i # is) c = create_loop ptrs is (c1\<lparr>bc_lists := l\<rparr>)" using l(1) by (simp add: c1_def)
  have "\<exists>c'. create_loop ptrs is (c1\<lparr>bc_lists := l\<rparr>) = Some c' \<and> ls_ok (bc_lists c') \<and> bc_lru c' = [] \<and> set (bc_free c') = set (bc_free (c1\<lparr>bc_lists := l\<rparr>)) \<union> set is \<and>
    bc_dev c' = bc_dev (c1\<lparr>bc_lists := l\<rparr>) \<and> bc_block_size c' = bc_block_size (c1\<lparr>bc_lists := l\<rparr>) \<and> bc_count c' = bc_count (c1\<lparr>bc_lists := l\<rparr>) \<and>
    length (bc_blocks c') = length (bc_blocks (c1\<lparr>bc_lists := l\<rparr>)) \<and>
    (\<forall>j. if j \<in> set is then slot_ok n (bc_blocks c' ! j) \<and> bk_ref_count (bc_blocks c' ! j) = 0 \<and> \<not> bk_is_dirty (bc_blocks c' ! j)
         else bc_blocks c' ! j = bc_blocks (c1\<lparr>bc_lists := l\<rparr>) ! j)"
    by (rule Cons.IH) (use l Cons.prems in \<open>auto simp: c1_def\<close>)
  then obtain c' where c': "create_loop ptrs is (c1\<lparr>bc_lists := l\<rparr>) = Some c'" "ls_ok (bc_lists c')" "bc_lru c' = []" "set (bc_free c') = insert i (set (bc_free c) \<union> set is)"
    "bc_dev c' = bc_dev c" "bc_block_size c' = bc_block_size c" "bc_count c' = bc_count c" "length (bc_blocks c') = length (bc_blocks c)"
    "\<And>j. if j \<in> set is then slot_ok n (bc_blocks c' ! j) \<and> bk_ref_count (bc_blocks c' ! j) = 0 \<and> \<not> bk_is_dirty (bc_blocks c' ! j)
         else bc_blocks c' ! j = bc_blocks c1 ! j" using l(3) by (auto simp: c1_def)
  have "if j \<in> set (i # is) then slot_ok n (bc_blocks c' ! j) \<and> bk_ref_count (bc_blocks c' ! j) = 0 \<and> \<not> bk_is_dirty (bc_blocks c' ! j)
         else bc_blocks c' ! j = bc_blocks c ! j" for j
    using c'(9)[of j] il Cons.prems(6)[of i] Cons.prems(2) by (cases "j = i") (auto simp: c1_def slot_ok_def)
  then show ?case using e c' by auto
qed

lemma create_refines:
  assumes h: "dev_holds dbytes dbs s d xs" and b: "0 < bs" "unat bs < 2 ^ 31" and m: "length mem = nat cnt" "0 \<le> cnt"
    and p: "\<And>i. i < nat cnt \<Longrightarrow> fst (ptrs i) \<noteq> 0 \<and> unat (fst (ptrs i)) + unat bs < 2 ^ 32 \<and> length (snd (ptrs i)) = unat bs"
  shows "\<exists>c. bcache_create mem ptrs d bs cnt = Some c \<and> bc_refines dbytes dbs (nat cnt) (unat bs) c s (xs, {#}) \<and> bc_dev c = d"
proof -
  define c0 where "c0 = \<lparr>bc_dev = d, bc_block_size = bs, bc_count = cnt, bc_stats = \<lparr>st_hits = 0, st_depth = 0, st_misses = 0, st_reads = 0, st_writes = 0\<rparr>,
        bc_lists = ls_empty, bc_blocks = mem\<rparr>"
  have e: "ls_ok (ls_empty :: (bc_list, nat) lstore)" "\<And>k. lcont (ls_empty :: (bc_list, nat) lstore) k = []" by (simp_all add: ls_ok_def ls_empty_def)
  have c0: "bc_dev c0 = d" "bc_block_size c0 = bs" "bc_count c0 = cnt" "length (bc_blocks c0) = nat cnt" "bc_free c0 = []" "bc_lru c0 = []" "ls_ok (bc_lists c0)"
    using e m by (simp_all add: c0_def)
  have "slot_ok (unat bs) (undefined\<lparr>bk_ref_count := 0, bk_ptr := fst (ptrs i), bk_data := snd (ptrs i)\<rparr>)" if "i \<in> set [0..<nat cnt]" for i
    using p[of i] that by (simp add: slot_ok_def)
  then have ex: "\<exists>c'. create_loop ptrs [0..<nat cnt] c0 = Some c' \<and> ls_ok (bc_lists c') \<and> bc_lru c' = [] \<and> set (bc_free c') = set (bc_free c0) \<union> set [0..<nat cnt] \<and>
    bc_dev c' = bc_dev c0 \<and> bc_block_size c' = bc_block_size c0 \<and> bc_count c' = bc_count c0 \<and> length (bc_blocks c') = length (bc_blocks c0) \<and>
    (\<forall>j. if j \<in> set [0..<nat cnt] then slot_ok (unat bs) (bc_blocks c' ! j) \<and> bk_ref_count (bc_blocks c' ! j) = 0 \<and> \<not> bk_is_dirty (bc_blocks c' ! j)
         else bc_blocks c' ! j = bc_blocks c0 ! j)"
    by (intro create_loop_ok) (use c0 in auto)
  obtain c where c: "create_loop ptrs [0..<nat cnt] c0 = Some c" "ls_ok (bc_lists c)" "bc_lru c = []"
    "set (bc_free c) = {..<nat cnt}" "bc_dev c = d" "bc_block_size c = bs" "bc_count c = cnt" "length (bc_blocks c) = nat cnt"
    and all: "\<forall>j. if j \<in> {..<nat cnt} then slot_ok (unat bs) (bc_blocks c ! j) \<and> bk_ref_count (bc_blocks c ! j) = 0 \<and> \<not> bk_is_dirty (bc_blocks c ! j)
         else bc_blocks c ! j = bc_blocks c0 ! j"
    using ex[unfolded c0 list.set(1) Un_empty_left set_upt atLeast0LessThan] by blast
  have c9: "slot_ok (unat bs) (bc_blocks c ! j) \<and> bk_ref_count (bc_blocks c ! j) = 0 \<and> \<not> bk_is_dirty (bc_blocks c ! j)" if "j < nat cnt" for j
    using all[rule_format, of j] that by simp
  have "\<forall>v \<in> set (bc_blocks c). slot_ok (unat bs) v" using c(8) c9 by (simp add: all_set_conv_all_nth)
  then have "bc_wf c" unfolding bc_wf_def using c(2-8) c9 b m(2) by simp
  moreover have "maps (unat bs) (bc_blocks c) {} xs xs" by (simp add: maps_def)
  ultimately have "bc_refines dbytes dbs (nat cnt) (unat bs) c s (xs, {#})" using c h by (auto simp: bc_refines_def bcache_view_def cached_def pinned_def)
  then show ?thesis using c by (auto simp: bcache_create_def c0_def)
qed

end
