(* ===== verification/Block_Props.thy ===== *)
theory Block_Props
  imports Bcache_Spec
begin

text \<open>
  Properties of the block devices and of the block cache in front of them.
\<close>

section \<open>Devices\<close>

text \<open>C37: a write to a block device stores the bytes of the buffer that lie inside the device, whatever the alignment of
  the request and whatever the device is made of (memory, a driver with block hooks behind the default byte hooks, a
  subdevice of either, to any depth); every later read returns what is there then, and both report the number of
  bytes moved.\<close>

theorem bio_write_read_roundtrip:
  fixes drv :: "'w bio_driver" and l l2 buf buf2 :: u32 and off off2 :: nat
  assumes "bio_drivers drv dbytes dbs" "dev_holds dbytes dbs s d xs"
    and "buf \<noteq> 0" "unat buf + unat l < 2 ^ 32" "unat l < 2 ^ 31" "unat l \<le> length data"
    and "buf2 \<noteq> 0" "unat buf2 + unat l2 < 2 ^ 32" "unat l2 < 2 ^ 31"
  defines "ys \<equiv> memcpy_at off (take (min (unat l) (length xs - off)) data) xs"
  shows "\<exists>s1 s2. bio_write drv d data buf (int off) l s = Some (int (min (unat l) (length xs - off)), s1) \<and>
    bio_read drv d buf2 (int off2) l2 s1 = Some (int (min (unat l2) (length xs - off2)), take (unat l2) (drop off2 ys), s2) \<and>
    dev_holds dbytes dbs s2 d ys"
proof -
  obtain s1 where s1: "bio_write drv d data buf (int off) l s = Some (int (min (unat l) (length xs - off)), s1)" "dev_holds dbytes dbs s1 d ys"
    using bio_drivers.bio_write_ok[OF assms(1-6), of off] unfolding ys_def by blast
  obtain s2 where "bio_read drv d buf2 (int off2) l2 s1 = Some (int (min (unat l2) (length ys - off2)), take (unat l2) (drop off2 ys), s2)"
    "same_bytes dbytes s1 s2" using bio_drivers.bio_read_ok[OF assms(1) s1(2) assms(7-9), of off2] by blast
  moreover have "length ys = length xs" using assms(6) by (cases "off \<le> length xs") (simp_all add: ys_def min_absorb2)
  ultimately show ?thesis using s1 bio_drivers.same_holds[OF assms(1)] by fastforce
qed

text \<open>A disk of two blocks behind a driver.\<close>

definition demo_disk :: bdev where
  "demo_disk = null_bdev\<lparr>bd_ref := 1, bd_name := ''disk0'', bd_total_size := 1024, bd_block_size := 512, bd_block_shift := 9, bd_block_count := 2,
     bd_read_block := BL_driver, bd_write_block := BL_driver\<rparr>"

definition demo_bio :: "(nat \<Rightarrow> u8 list) bio_state" where
  "demo_bio = \<lparr>bdevs = \<lparr>lcont = (\<lambda>_. [0]), lon = [0 \<mapsto> ()]\<rparr>, bdev_of = (\<lambda>d. if d = 0 then demo_disk else null_bdev), mem_bytes = (\<lambda>_. []),
     hw = (\<lambda>_. replicate 1024 0)\<rparr>"

lemma demo_bio_holds: "dev_holds ram_bytes (\<lambda>_. 512) demo_bio 0 (replicate 1024 0)"
  by (rule dev_holds.holds_driver) (simp_all add: demo_bio_def demo_disk_def null_bdev_def geom_ok_def ram_bytes_def)

theorem bio_write_read_roundtrip_witness:
  "\<exists>s1 s2. bio_write ram_driver 0 [1, 2, 3] 64 510 3 demo_bio = Some (3, s1) \<and>
    bio_read ram_driver 0 96 509 6 s1 = Some (6, [0, 1, 2, 3, 0, 0], s2)"
proof -
  have e: "take 6 (drop 509 (memcpy_at 510 (take 3 [1, 2, 3]) (replicate 1024 0))) = [0, 1, 2, 3, 0, 0 :: u8]" by (simp add: memcpy_at_def numeral_eq_Suc)
  show ?thesis
    using bio_write_read_roundtrip[OF ram.bio_drivers_axioms demo_bio_holds, of 64 3 "[1, 2, 3]" 96 6 510 509] e by auto
qed

text \<open>C39: \<open>bio_publish_subdevice\<close> for \<open>bc\<close> blocks from block \<open>sb\<close> of a registered device \<open>p\<close> that holds the bytes \<open>ys\<close> and whose erase regions, if any, end below
  \<open>2 ^ 64\<close>, on every outcome; \<open>d\<close> is the new object from \<open>malloc\<close>. Without memory for the subdevice it
  returns \<open>ERR_NO_MEMORY\<close>. On a device without erase geometry it accepts the range exactly when it fits into the device, without overflow of the sum. On a device with
  erase regions it accepts the range exactly when it is aligned to the erase unit of the first region that contains it or, if no region contains it, of the
  last region: contrary to the comment in the source, a range that lies in no region, or even behind the end of the device, is not refused for that. An accepted range
  is published at the end of the list of devices and, if it lies in the parent and starts below 4 GB, reads of the subdevice return that part of the parent. A range that is
  not accepted gives \<open>ERR_INVALID_ARGS\<close>. Every failing call leaves everything as it was.\<close>

theorem bio_publish_subdevice_window:
  fixes drv :: "'w bio_driver" and sb bc :: u32
  assumes drv: "bio_drivers drv dbytes dbs" and opn: "open_walk pn (bdev_of s) (lcont (bdevs s) ()) = Some (Some p)" and h: "dev_holds dbytes dbs s p ys"
    and d: "d \<noteq> p" "\<not> ls_in_list d (bdevs s)" "\<forall>e. bd_parent (bdev_of s e) \<noteq> Some d" and g: "regions_ok (bd_geometry (bdev_of s p))"
  defines "bs \<equiv> unat (bd_block_size (bdev_of s p))"
  shows "bio_publish_subdevice None pn nm sb bc s = Some (ERR_NO_MEMORY, s) \<and>
    (if subdev_accepted (bdev_of s p) sb bc
     then \<exists>s'. bio_publish_subdevice (Some d) pn nm sb bc s = Some (NO_ERROR, s') \<and> lcont (bdevs s') () = lcont (bdevs s) () @ [d] \<and>
       (\<forall>buf l off. unat sb + unat bc \<le> unat (bd_block_count (bdev_of s p)) \<and> unat sb * bs < 2 ^ 32 \<and>
          buf \<noteq> 0 \<and> unat buf + unat l < 2 ^ 32 \<and> unat l < 2 ^ 31 \<and> off + unat l \<le> unat bc * bs \<longrightarrow>
          (\<exists>s''. bio_read drv d buf (int off) l s' = Some (int (unat l), take (unat l) (drop (unat sb * bs + off) ys), s'')))
     else bio_publish_subdevice (Some d) pn nm sb bc s = Some (ERR_INVALID_ARGS, s))"
proof (rule conjI)
  have ref: "bd_ref (bdev_of s p) > 0" using holds_geom[OF h] by (simp add: geom_ok_def)
  show "bio_publish_subdevice None pn nm sb bc s = Some (ERR_NO_MEMORY, s)" by (rule publish_refused(1)[OF opn ref])
  from subdev_geometry_decides[OF holds_geom[OF h] g, of sb bc] obtain geo where
    geo: "subdev_geometry (bdev_of s p) sb bc = Some (if subdev_accepted (bdev_of s p) sb bc then Inr geo else Inl ERR_INVALID_ARGS)" by blast
  show "if subdev_accepted (bdev_of s p) sb bc
     then \<exists>s'. bio_publish_subdevice (Some d) pn nm sb bc s = Some (NO_ERROR, s') \<and> lcont (bdevs s') () = lcont (bdevs s) () @ [d] \<and>
       (\<forall>buf l off. unat sb + unat bc \<le> unat (bd_block_count (bdev_of s p)) \<and> unat sb * bs < 2 ^ 32 \<and>
          buf \<noteq> 0 \<and> unat buf + unat l < 2 ^ 32 \<and> unat l < 2 ^ 31 \<and> off + unat l \<le> unat bc * bs \<longrightarrow>
          (\<exists>s''. bio_read drv d buf (int off) l s' = Some (int (unat l), take (unat l) (drop (unat sb * bs + off) ys), s'')))
     else bio_publish_subdevice (Some d) pn nm sb bc s = Some (ERR_INVALID_ARGS, s)"
  proof (cases "subdev_accepted (bdev_of s p) sb bc")
    case True
    let ?w = "take (unat bc * bs) (drop (unat sb * bs) ys)"
    from publish_holds[OF opn h d(1,2), of sb bc geo nm] d(3) geo True obtain s' where
      s': "bio_publish_subdevice (Some d) pn nm sb bc s = Some (NO_ERROR, s')" "lcont (bdevs s') () = lcont (bdevs s) () @ [d]"
        "unat sb + unat bc \<le> unat (bd_block_count (bdev_of s p)) \<and> unat sb * bs < 2 ^ 32 \<longrightarrow> dev_holds dbytes dbs s' d ?w" unfolding bs_def by auto
    have "\<exists>s''. bio_read drv d buf (int off) l s' = Some (int (unat l), take (unat l) (drop (unat sb * bs + off) ys), s'')"
      if f: "unat sb + unat bc \<le> unat (bd_block_count (bdev_of s p))" "unat sb * bs < 2 ^ 32"
        and "buf \<noteq> 0" "unat buf + unat l < 2 ^ 32" "unat l < 2 ^ 31" "off + unat l \<le> unat bc * bs" for buf l off
    proof -
      have lw: "length ?w = unat bc * bs" using mult_le_mono1[OF f(1), of bs] holds_geom[OF h] by (simp add: geom_ok_def bs_def algebra_simps)
      have "take (unat l) (drop off ?w) = take (unat l) (drop (unat sb * bs + off) ys)" using that(6) by (simp add: drop_take min_def add.commute)
      moreover have "min (unat l) (length ?w - off) = unat l" using that(6) lw by simp
      moreover have "dev_holds dbytes dbs s' d ?w" using s'(3) f by blast
      ultimately show ?thesis using bio_drivers.bio_read_ok[OF drv _ that(3-5), of s' d ?w off] by auto
    qed
    then show ?thesis using True s'(1,2) by auto
  next
    case False
    then show ?thesis using publish_refused(2)[OF opn ref, of sb bc ERR_INVALID_ARGS d nm] geo by simp
  qed
qed

text \<open>The same disk with one erase region, its first block.\<close>

definition demo_flash :: "(nat \<Rightarrow> u8 list) bio_state" where
  "demo_flash = demo_bio\<lparr>bdev_of := (bdev_of demo_bio)(0 := demo_disk
     \<lparr>bd_geometry := [\<lparr>eg_start = 0, eg_size = 512, eg_erase_size = 512, eg_erase_shift = 9\<rparr>]\<rparr>)\<rparr>"

lemma demo_flash_holds: "dev_holds ram_bytes (\<lambda>_. 512) demo_flash 0 (replicate 1024 0)"
  by (rule dev_holds.holds_driver) (simp_all add: demo_flash_def demo_bio_def demo_disk_def null_bdev_def geom_ok_def ram_bytes_def)

theorem bio_publish_subdevice_window_witness:
  "(\<exists>s' s''. bio_publish_subdevice (Some 1) ''disk0'' ''part1'' 1 1 demo_bio = Some (NO_ERROR, s') \<and>
     bio_read ram_driver 1 64 16 4 s' = Some (4, [0, 0, 0, 0], s'')) \<and>
   bio_publish_subdevice (Some 1) ''disk0'' ''part1'' 1 2 demo_bio = Some (ERR_INVALID_ARGS, demo_bio) \<and>
   (\<exists>s'. bio_publish_subdevice (Some 1) ''disk0'' ''part1'' 5 1 demo_flash = Some (NO_ERROR, s'))"
proof -
  have a: "open_walk ''disk0'' (bdev_of demo_bio) (lcont (bdevs demo_bio) ()) = Some (Some 0)" "\<not> ls_in_list (1::nat) (bdevs demo_bio)"
    "\<forall>e. bd_parent (bdev_of demo_bio e) \<noteq> Some (1::nat)" "regions_ok (bd_geometry (bdev_of demo_bio 0))"
    by (simp_all add: demo_bio_def demo_disk_def null_bdev_def ls_in_list_def regions_ok_def)
  have b: "unat (bd_block_size (bdev_of demo_bio 0)) = 512" "unat (bd_block_count (bdev_of demo_bio 0)) = 2" by (simp_all add: demo_bio_def demo_disk_def)
  have c: "subdev_accepted (bdev_of demo_bio 0) 1 1" "\<not> subdev_accepted (bdev_of demo_bio 0) 1 2"
    by (simp_all add: subdev_accepted_def demo_bio_def demo_disk_def null_bdev_def)
  note w = bio_publish_subdevice_window[OF ram.bio_drivers_axioms a(1) demo_bio_holds _ a(2-4), unfolded b]
  obtain s' where s': "bio_publish_subdevice (Some 1) ''disk0'' ''part1'' 1 1 demo_bio = Some (NO_ERROR, s')"
    and r: "\<forall>buf l off. unat (1 :: u32) + unat (1 :: u32) \<le> 2 \<and> unat (1 :: u32) * 512 < (2 :: nat) ^ 32 \<and>
         buf \<noteq> 0 \<and> unat buf + unat l < 2 ^ 32 \<and> unat l < 2 ^ 31 \<and> off + unat l \<le> unat (1 :: u32) * 512 \<longrightarrow>
         (\<exists>s''. bio_read ram_driver 1 buf (int off) l s' = Some (int (unat l), take (unat l) (drop (unat (1 :: u32) * 512 + off) (replicate 1024 0)), s''))"
    using w[of "''part1''" 1 1, unfolded if_P[OF c(1)]] by auto
  have "replicate 4 (0 :: u8) = [0, 0, 0, 0]" by (simp add: numeral_eq_Suc)
  then have "\<exists>s''. bio_read ram_driver 1 64 16 4 s' = Some (4, [0, 0, 0, 0], s'')" using r[rule_format, of 64 4 16] by simp
  moreover have "bio_publish_subdevice (Some 1) ''disk0'' ''part1'' 1 2 demo_bio = Some (ERR_INVALID_ARGS, demo_bio)"
    using w[of "''part1''" 1 2, unfolded if_not_P[OF c(2)]] by simp
  moreover have f: "open_walk ''disk0'' (bdev_of demo_flash) (lcont (bdevs demo_flash) ()) = Some (Some 0)" "\<not> ls_in_list (1::nat) (bdevs demo_flash)"
    "\<forall>e. bd_parent (bdev_of demo_flash e) \<noteq> Some (1::nat)" "regions_ok (bd_geometry (bdev_of demo_flash 0))" "subdev_accepted (bdev_of demo_flash 0) 5 1"
    by (simp_all add: demo_flash_def demo_bio_def demo_disk_def null_bdev_def ls_in_list_def regions_ok_def subdev_accepted_def
        checked_region_def in_region_def Let_def)
  have "\<exists>s'. bio_publish_subdevice (Some 1) ''disk0'' ''part1'' 5 1 demo_flash = Some (NO_ERROR, s')"
    using bio_publish_subdevice_window[OF ram.bio_drivers_axioms f(1) demo_flash_holds _ f(2-4), of "''part1''" 5 1, unfolded if_P[OF f(5)]] by auto
  ultimately show ?thesis using s' by blast
qed

section \<open>The block cache\<close>

lemma put_of_iff: "b \<in> put_of op \<longleftrightarrow> op = Put_block b"
  by (cases op) auto

text \<open>C36: a cache created on a device can be used as the device itself. Whatever sequence of reads, writes, zeroing, getting and putting
  of blocks and flushes a client makes, holding fewer different blocks at a time than the cache has, every call
  succeeds and returns what the same calls on the bytes of the device would, whichever blocks the cache evicts and writes back on the way;
  after a final flush the device holds the result.\<close>

theorem bcache_refines_blocks:
  fixes drv :: "'w bio_driver" and bs :: u32
  assumes "bio_drivers drv dbytes dbs" "dev_holds dbytes dbs s d xs" "0 < bs" "unat bs < 2 ^ 31" "length mem = nat cnt" "0 \<le> cnt"
    and "\<forall>i < nat cnt. fst (ptrs i) \<noteq> 0 \<and> unat (fst (ptrs i)) + unat bs < 2 ^ 32 \<and> length (snd (ptrs i)) = unat bs"
    and "spec_run (nat cnt) (unat bs) ops (xs, {#}) = Some (outs, ys, held)"
  shows "\<exists>c c1 s1 c2 s2. bcache_create mem ptrs d bs cnt = Some c \<and> bc_run drv ops c s = Some (map (Pair 0) outs, c1, s1) \<and>
    bcache_flush drv c1 s1 = Some (0, c2, s2) \<and> dev_holds dbytes dbs s2 d ys"
proof -
  obtain c where c: "bcache_create mem ptrs d bs cnt = Some c" "bc_refines dbytes dbs (nat cnt) (unat bs) c s (xs, {#})" "bc_dev c = d"
    using create_refines[OF assms(2-6)] assms(7) by blast
  obtain c1 s1 where c1: "bc_run drv ops c s = Some (map (Pair 0) outs, c1, s1)" "bc_refines dbytes dbs (nat cnt) (unat bs) c1 s1 (ys, held)"
    "stay (- (\<Union>op \<in> set ops. put_of op)) c c1" using bio_drivers.run_refines[OF assms(1) c(2) assms(8)] by blast
  have "bc_dev c1 = d" using refines_dev[OF c1(3)] c(3) by simp
  obtain c2 s2 where "bcache_flush drv c1 s1 = Some (0, c2, s2)" "dev_holds dbytes dbs s2 (bc_dev c1) ys"
    using bio_drivers.flush_refines[OF assms(1) c1(2)] by blast
  then show ?thesis using c(1) c1(1) \<open>bc_dev c1 = d\<close> by blast
qed

text \<open>A cache of one block of four bytes in front of the disk: every other call evicts.\<close>

definition demo_slot :: bcache_block where
  "demo_slot = \<lparr>bk_blocknum = 7, bk_ref_count = 5, bk_is_dirty = True, bk_ptr = 0, bk_data = []\<rparr>"

theorem bcache_refines_blocks_witness:
  "\<exists>c c1 s1 c2 s2. bcache_create [demo_slot] (\<lambda>_. (64, [9, 9, 9, 9])) 0 4 1 = Some c \<and>
    bc_run ram_driver [Write_block 1 [1, 2, 3, 4], Zero_block 0, Read_block 1, Get_block 1, Put_block 1] c demo_bio =
      Some ([(0, []), (0, []), (0, [1, 2, 3, 4]), (0, [1, 2, 3, 4]), (0, [])], c1, s1) \<and>
    bcache_flush ram_driver c1 s1 = Some (0, c2, s2) \<and>
    dev_holds ram_bytes (\<lambda>_. 512) s2 0 (memcpy_at 0 [0, 0, 0, 0] (memcpy_at 4 [1, 2, 3, 4] (replicate 1024 0)))"
proof -
  let ?ys = "memcpy_at 0 [0, 0, 0, 0] (memcpy_at 4 [1, 2, 3, 4] (replicate 1024 (0 :: u8)))"
  let ?ops = "[Write_block 1 [1, 2, 3, 4], Zero_block 0, Read_block 1, Get_block 1, Put_block 1]"
  have "replicate 4 (0 :: u8) = [0, 0, 0, 0]" by (simp add: numeral_eq_Suc)
  moreover have "dslice 4 1 ?ys = [1, 2, 3, 4]" by (simp add: dslice_def memcpy_at_def)
  ultimately have "spec_run (nat 1) (unat (4 :: u32)) ?ops (replicate 1024 0, {#}) = Some ([[], [], [1, 2, 3, 4], [1, 2, 3, 4], []], ?ys, {#})"
    by (simp add: in_dev_def)
  from bcache_refines_blocks[OF ram.bio_drivers_axioms demo_bio_holds _ _ _ _ _ this, of "[demo_slot]" "\<lambda>_. (64, [9, 9, 9, 9])"]
  show ?thesis by simp
qed

text \<open>C38: while a client holds a block, the memory it points to stays that block: through any calls that do not put the
  block, it is not given to another number, its address does not change, and it shows the current bytes of the block.\<close>

theorem bcache_held_block_stays:
  fixes drv :: "'w bio_driver"
  assumes "bio_drivers drv dbytes dbs" "bc_refines dbytes dbs k n c s (ys, held)" "spec_run k n ops (ys, held) = Some (outs, ys', held')"
    and i: "i \<in> set (bc_lru c)" "bk_blocknum (bc_blocks c ! i) = b" "b \<in># held" "Put_block b \<notin> set ops"
  shows "\<exists>c' s'. bc_run drv ops c s = Some (map (Pair 0) outs, c', s') \<and> i \<in> set (bc_lru c') \<and> bk_blocknum (bc_blocks c' ! i) = b \<and>
    bk_ptr (bc_blocks c' ! i) = bk_ptr (bc_blocks c ! i) \<and> bk_data (bc_blocks c' ! i) = dslice n (unat b) ys'"
proof -
  obtain c' s' where r: "bc_run drv ops c s = Some (map (Pair 0) outs, c', s')" "bc_refines dbytes dbs k n c' s' (ys', held')"
    "stay (- (\<Union>op \<in> set ops. put_of op)) c c'" using bio_drivers.run_refines[OF assms(1-3)] by blast
  have "b \<notin> (\<Union>op \<in> set ops. put_of op)" using i(4) by (auto simp: put_of_iff)
  moreover have "bk_ref_count (bc_blocks c ! i) > 0" using refines_slot(1)[OF assms(2) i(1,2)] i(3) by simp
  ultimately have st: "i \<in> set (bc_lru c')" "bk_blocknum (bc_blocks c' ! i) = b" "bk_ptr (bc_blocks c' ! i) = bk_ptr (bc_blocks c ! i)"
    using r(3) i(1,2) unfolding stay_def by auto
  then show ?thesis using r(1) refines_slot(2)[OF r(2) st(1,2)] by blast
qed

text \<open>Two blocks of four bytes, the first one held as block 1.\<close>

definition demo_cache :: bcache where
  "demo_cache = \<lparr>bc_dev = 0, bc_block_size = 4, bc_count = 2, bc_stats = \<lparr>st_hits = 0, st_depth = 0, st_misses = 1, st_reads = 1, st_writes = 0\<rparr>,
     bc_lists = \<lparr>lcont = (\<lambda>h. case h of BC_lru \<Rightarrow> [0] | BC_free \<Rightarrow> [1]), lon = [0 \<mapsto> BC_lru, 1 \<mapsto> BC_free]\<rparr>,
     bc_blocks = [\<lparr>bk_blocknum = 1, bk_ref_count = 1, bk_is_dirty = False, bk_ptr = 64, bk_data = [0, 0, 0, 0]\<rparr>,
                  \<lparr>bk_blocknum = 0, bk_ref_count = 0, bk_is_dirty = False, bk_ptr = 68, bk_data = [9, 9, 9, 9]\<rparr>]\<rparr>"

lemma demo_cache_refines: "bc_refines ram_bytes (\<lambda>_. 512) 2 4 demo_cache demo_bio (replicate 1024 0, {#1#})"
proof -
  have "ls_ok (bc_lists demo_cache)" by (auto simp: ls_ok_def demo_cache_def split: bc_list.splits)
  moreover have "{Suc 0, 0} = {..<Suc (Suc 0)}" by auto
  ultimately have "bc_wf demo_cache" by (simp add: bc_wf_def demo_cache_def slot_ok_def)
  moreover have "replicate 4 (0 :: u8) = [0, 0, 0, 0]" by (simp add: numeral_eq_Suc)
  then have "maps 4 (bc_blocks demo_cache) {0} (replicate 1024 0) (replicate 1024 0)"
    by (simp add: maps_def laid_def demo_cache_def in_dev_def dslice_def)
  ultimately have "bcache_view ram_bytes (\<lambda>_. 512) demo_cache demo_bio (replicate 1024 0)"
    using demo_bio_holds unfolding bcache_view_def cached_def by (auto simp: demo_cache_def)
  then show ?thesis by (simp add: bc_refines_def pinned_def) (simp add: demo_cache_def)
qed

theorem bcache_held_block_stays_witness:
  "\<exists>c' s'. bc_run ram_driver [Read_block 5, Write_block 1 [1, 2, 3, 4], Read_block 6, Flush_blocks] demo_cache demo_bio =
      Some ([(0, [0, 0, 0, 0]), (0, []), (0, [0, 0, 0, 0]), (0, [])], c', s') \<and> 0 \<in> set (bc_lru c') \<and> bk_blocknum (bc_blocks c' ! 0) = 1 \<and>
    bk_ptr (bc_blocks c' ! 0) = 64 \<and> bk_data (bc_blocks c' ! 0) = [1, 2, 3, 4]"
proof -
  let ?ys = "memcpy_at 4 [1, 2, 3, 4] (replicate 1024 (0 :: u8))"
  let ?ops = "[Read_block 5, Write_block 1 [1, 2, 3, 4], Read_block 6, Flush_blocks]"
  have z: "replicate 4 (0 :: u8) = [0, 0, 0, 0]" by (simp add: numeral_eq_Suc)
  have d: "dslice 4 5 (replicate 1024 (0 :: u8)) = [0, 0, 0, 0]" "dslice 4 6 ?ys = [0, 0, 0, 0]" "dslice 4 (unat (1 :: u32)) ?ys = [1, 2, 3, 4]"
    using z by (simp_all add: dslice_def memcpy_at_def)
  then have "spec_run 2 4 ?ops (replicate 1024 0, {#1#}) = Some ([[0, 0, 0, 0], [], [0, 0, 0, 0], []], ?ys, {#1#})" by (simp add: in_dev_def)
  from bcache_held_block_stays[OF ram.bio_drivers_axioms demo_cache_refines this, of 0 1] d(3) show ?thesis by (simp add: demo_cache_def)
qed

text \<open>C40: when the device reports an error while a block is filled, the block is linked into the free list although \<open>alloc_block\<close> has
  linked it into the LRU list: no later state of the two lists is defined.\<close>

theorem bcache_fill_error_links_twice:
  assumes "find_block b c = Some (None, c1)" "alloc_block drv c1 s = Some (Some i, c2, s2)"
    and "bio_read drv (bc_dev c2) (bk_ptr ((bc_blocks c2)[i := (bc_blocks c2 ! i)\<lparr>bk_blocknum := b\<rparr>] ! i))
      (int (unat b) * int (unat (bc_block_size c2))) (bc_block_size c2) s2 = Some (err, bs, s3)" "err < 0"
  shows "i \<in> set (bc_lru c2) \<and> lon (bc_lists c2) i = Some BC_lru \<and> find_or_fill_block drv b c s = None"
proof -
  have "i \<in> set (bc_lru c2) \<and> lon (bc_lists c2) i = Some BC_lru"
    using assms(2) by (auto simp: alloc_block_def ls_add_tail_def Let_def split: option.splits if_splits Option.bind_splits prod.splits)
  then show ?thesis using assms by (auto simp: find_or_fill_block_def ls_add_tail_def ls_in_list_def Let_def split: Option.bind_splits)
qed

text \<open>A disk that fails.\<close>

definition fail_driver :: "unit bio_driver" where
  "fail_driver = \<lparr>drv_read_block = (\<lambda>d b n w. (ERR_IO, [], w)), drv_write_block = (\<lambda>d data b n w. (ERR_IO, w))\<rparr>"

definition fail_bio :: "unit bio_state" where
  "fail_bio = \<lparr>bdevs = \<lparr>lcont = (\<lambda>_. [0]), lon = [0 \<mapsto> ()]\<rparr>, bdev_of = (\<lambda>d. if d = 0 then demo_disk else null_bdev), mem_bytes = (\<lambda>_. []), hw = ()\<rparr>"

theorem bcache_fill_error_links_twice_witness:
  "\<exists>c1 c2 s2. find_block 5 demo_cache = Some (None, c1) \<and> alloc_block fail_driver c1 fail_bio = Some (Some 1, c2, s2) \<and>
    1 \<in> set (bc_lru c2) \<and> lon (bc_lists c2) 1 = Some BC_lru \<and> find_or_fill_block fail_driver 5 demo_cache fail_bio = None"
proof -
  define c1 where "c1 = upd_stats (\<lambda>t. t\<lparr>st_misses := st_misses t + 1\<rparr>) demo_cache"
  have f: "find_block 5 demo_cache = Some (None, c1)" by (simp add: find_block_def c1_def) (simp add: demo_cache_def)
  obtain c2 where a: "alloc_block fail_driver c1 fail_bio = Some (Some 1, c2, fail_bio)" and c2: "bc_dev c2 = 0" "bc_block_size c2 = 4"
      "bk_ptr ((bc_blocks c2)[1 := (bc_blocks c2 ! 1)\<lparr>bk_blocknum := 5\<rparr>] ! 1) = 68"
    by (simp add: alloc_block_def c1_def ls_remove_head_def ls_peek_head_def ls_delete_def ls_add_tail_def ls_in_list_def demo_cache_def upd_block_def upd_stats_def)
  have "map_option fst (bio_read fail_driver 0 68 20 4 fail_bio) = Some ERR_IO" by code_simp
  then obtain bs s3 where "bio_read fail_driver 0 68 20 4 fail_bio = Some (ERR_IO, bs, s3)" by auto
  then show ?thesis using bcache_fill_error_links_twice[OF f a, of ERR_IO bs s3] f a c2 by simp
qed

end
