(* ===== verification/Pmm.thy ===== *)
theory Pmm
  imports List_Store Novm
begin

text \<open>
  The physical memory manager, \<^verbatim>\<open>kernel/vm/pmm.c\<close>: arenas of pages, each page on the free list of its
  arena or handed out. Every operation holds the mutex of the file throughout. A page is named by its arena and
  its index in the array of the arena; the arrays that \<open>boot_alloc_mem\<close> returns do not overlap. Lists of pages
  that belong to callers have numbers. \<open>paddr_t\<close> and \<open>size_t\<close> have 32 bits. \<open>None\<close> is a failed assertion,
  an access outside an array, a broken list, or a shift by 32 or more.
\<close>

section \<open>State\<close>

type_synonym vm_page = "nat \<times> nat"

datatype pg_head = Free_list nat | Page_list nat

text \<open>\<open>pa_page_array\<close> holds the flags of the pages.\<close>

record pmm_arena =
  pa_name :: string
  pa_flags :: u32
  pa_priority :: u32
  pa_base :: u32
  pa_size :: u32
  pa_free_count :: u32
  pa_page_array :: "u8 list"

record pmm =
  pm_arenas :: "(unit, nat) lstore"
  pm_arena :: "nat \<Rightarrow> pmm_arena"
  pm_lists :: "(pg_head, vm_page) lstore"

abbreviation (input) VM_PAGE_FLAG_NONFREE :: u8 where "VM_PAGE_FLAG_NONFREE \<equiv> 1"
abbreviation (input) PMM_ARENA_FLAG_KMAP :: u32 where "PMM_ARENA_FLAG_KMAP \<equiv> 1"

abbreviation arenas :: "pmm \<Rightarrow> nat list" where "arenas s \<equiv> lcont (pm_arenas s) ()"
abbreviation page_list :: "pmm \<Rightarrow> nat \<Rightarrow> vm_page list" where "page_list s l \<equiv> lcont (pm_lists s) (Page_list l)"

definition IS_PAGE_ALIGNED :: "u32 \<Rightarrow> bool" where
  "IS_PAGE_ALIGNED x \<longleftrightarrow> x AND (PAGE_SIZE - 1) = 0"

definition PAGE_BELONGS_TO_ARENA :: "vm_page \<Rightarrow> pmm \<Rightarrow> nat \<Rightarrow> bool" where
  "PAGE_BELONGS_TO_ARENA p s a \<longleftrightarrow> fst p = a \<and> snd p < unat (pa_size (pm_arena s a) div PAGE_SIZE)"

definition PAGE_ADDRESS_FROM_ARENA :: "vm_page \<Rightarrow> pmm_arena \<Rightarrow> u32" where
  "PAGE_ADDRESS_FROM_ARENA p ar = of_nat (snd p) * PAGE_SIZE + pa_base ar"

definition ADDRESS_IN_ARENA :: "u32 \<Rightarrow> pmm_arena \<Rightarrow> bool" where
  "ADDRESS_IN_ARENA address ar \<longleftrightarrow> address \<ge> pa_base ar \<and> address \<le> pa_base ar + pa_size ar - 1"

definition upd_arena :: "nat \<Rightarrow> (pmm_arena \<Rightarrow> pmm_arena) \<Rightarrow> pmm \<Rightarrow> pmm" where
  "upd_arena a f s = s\<lparr>pm_arena := (pm_arena s)(a := f (pm_arena s a))\<rparr>"

text \<open>The flags of a page, and storing them.\<close>

definition page_flags :: "vm_page \<Rightarrow> pmm \<Rightarrow> u8 option" where
  "page_flags p s = (let xs = pa_page_array (pm_arena s (fst p)) in if snd p < length xs then Some (xs ! snd p) else None)"

definition set_page_flags :: "vm_page \<Rightarrow> u8 \<Rightarrow> pmm \<Rightarrow> pmm" where
  "set_page_flags p f s = upd_arena (fst p) (\<lambda>ar. ar\<lparr>pa_page_array := (pa_page_array ar)[snd p := f]\<rparr>) s"

definition page_is_free :: "u8 \<Rightarrow> bool" where
  "page_is_free flags \<longleftrightarrow> flags AND VM_PAGE_FLAG_NONFREE = 0"

text \<open>\<open>list_initialize\<close>: nodes that are on the list would stay linked to each other.\<close>

definition ls_initialize :: "'h \<Rightarrow> ('h, 'n) lstore \<Rightarrow> ('h, 'n) lstore option" where
  "ls_initialize h s = (if lcont s h = [] then Some s else None)"

section \<open>Pages and addresses\<close>

definition vm_page_to_paddr :: "vm_page \<Rightarrow> pmm \<Rightarrow> u32" where
  "vm_page_to_paddr p s =
    (case List.find (PAGE_BELONGS_TO_ARENA p s) (arenas s) of
       Some a \<Rightarrow> PAGE_ADDRESS_FROM_ARENA p (pm_arena s a)
     | None \<Rightarrow> - 1)"

definition paddr_to_vm_page :: "u32 \<Rightarrow> pmm \<Rightarrow> vm_page option" where
  "paddr_to_vm_page addr s =
    (case List.find (\<lambda>a. ADDRESS_IN_ARENA addr (pm_arena s a)) (arenas s) of
       Some a \<Rightarrow> Some (a, unat ((addr - pa_base (pm_arena s a)) div PAGE_SIZE))
     | None \<Rightarrow> None)"

section \<open>Arenas\<close>

fun add_arena_pages :: "nat \<Rightarrow> nat list \<Rightarrow> pmm \<Rightarrow> pmm option" where
  "add_arena_pages a [] s = Some s"
| "add_arena_pages a (i # is) s = do {
     l \<leftarrow> ls_add_tail (Free_list a) (a, i) (pm_lists s);
     add_arena_pages a is (upd_arena a (\<lambda>ar. ar\<lparr>pa_free_count := pa_free_count ar + 1\<rparr>) (s\<lparr>pm_lists := l\<rparr>)) }"

definition pmm_add_arena :: "nat \<Rightarrow> pmm \<Rightarrow> (int \<times> pmm) option" where
  "pmm_add_arena a s = do {
     let ar = pm_arena s a;
     DEBUG_ASSERT (IS_PAGE_ALIGNED (pa_base ar));
     DEBUG_ASSERT (IS_PAGE_ALIGNED (pa_size ar));
     DEBUG_ASSERT (pa_size ar > 0);
     al \<leftarrow> (case List.find (\<lambda>b. pa_priority (pm_arena s b) > pa_priority ar) (arenas s) of
       Some b \<Rightarrow> ls_add_before b a (pm_arenas s)
     | None \<Rightarrow> ls_add_tail () a (pm_arenas s));
     pl \<leftarrow> ls_initialize (Free_list a) (pm_lists s);
     let page_count = unat (pa_size ar div PAGE_SIZE);
     let s = upd_arena a (\<lambda>ar. ar\<lparr>pa_free_count := 0, pa_page_array := replicate page_count 0\<rparr>) (s\<lparr>pm_arenas := al, pm_lists := pl\<rparr>);
     s \<leftarrow> add_arena_pages a [0..<page_count] s;
     Some (NO_ERROR, s) }"

section \<open>Allocation\<close>

text \<open>A page leaves its free list, is marked and goes to the list of the caller, if there is one.\<close>

definition take_page :: "nat \<Rightarrow> vm_page \<Rightarrow> nat option \<Rightarrow> pmm \<Rightarrow> pmm option" where
  "take_page a p list s = do {
     pl \<leftarrow> ls_delete p (pm_lists s);
     f \<leftarrow> page_flags p s;
     pl \<leftarrow> (case list of None \<Rightarrow> Some pl | Some l \<Rightarrow> ls_add_tail (Page_list l) p pl);
     Some (upd_arena a (\<lambda>ar. ar\<lparr>pa_free_count := pa_free_count ar - 1\<rparr>) (set_page_flags p (f OR VM_PAGE_FLAG_NONFREE) (s\<lparr>pm_lists := pl\<rparr>))) }"

text \<open>The walk of \<open>pmm_alloc_pages\<close> over the arenas; the number is the pages that are still to be allocated. An empty
  free list ends the whole walk (\<open>True\<close>).\<close>

fun alloc_arena_loop :: "nat \<Rightarrow> nat \<Rightarrow> nat \<Rightarrow> pmm \<Rightarrow> (bool \<times> nat \<times> pmm) option" where
  "alloc_arena_loop a l 0 s = Some (False, 0, s)"
| "alloc_arena_loop a l (Suc n) s =
    (case ls_peek_head (Free_list a) (pm_lists s) of
       None \<Rightarrow> Some (True, Suc n, s)
     | Some p \<Rightarrow> do {
         s \<leftarrow> take_page a p (Some l) s;
         alloc_arena_loop a l n s })"

fun alloc_walk :: "nat \<Rightarrow> nat list \<Rightarrow> nat \<Rightarrow> pmm \<Rightarrow> (nat \<times> pmm) option" where
  "alloc_walk l [] n s = Some (n, s)"
| "alloc_walk l (a # as) n s = do {
     (stop, n, s) \<leftarrow> alloc_arena_loop a l n s;
     if stop then Some (n, s) else alloc_walk l as n s }"

definition pmm_alloc_pages :: "u32 \<Rightarrow> nat \<Rightarrow> pmm \<Rightarrow> (u32 \<times> pmm) option" where
  "pmm_alloc_pages count l s =
    (if count = 0 then Some (0, s)
     else do {
       (n, s) \<leftarrow> alloc_walk l (arenas s) (unat count) s;
       Some (count - of_nat n, s) })"

fun range_arena_loop :: "nat \<Rightarrow> nat \<Rightarrow> nat \<Rightarrow> u32 \<Rightarrow> pmm \<Rightarrow> (nat \<times> u32 \<times> pmm) option" where
  "range_arena_loop a l 0 address s = Some (0, address, s)"
| "range_arena_loop a l (Suc n) address s =
    (let ar = pm_arena s a; index = (address - pa_base ar) div PAGE_SIZE; p = (a, unat index)
     in if ADDRESS_IN_ARENA address ar then do {
          DEBUG_ASSERT (index < pa_size ar div PAGE_SIZE);
          f \<leftarrow> page_flags p s;
          if \<not> page_is_free f then Some (Suc n, address, s)
          else do {
            DEBUG_ASSERT (ls_in_list p (pm_lists s));
            s \<leftarrow> take_page a p (Some l) s;
            range_arena_loop a l n (address + PAGE_SIZE) s } }
        else Some (Suc n, address, s))"

fun range_walk :: "nat \<Rightarrow> nat list \<Rightarrow> nat \<Rightarrow> u32 \<Rightarrow> pmm \<Rightarrow> (nat \<times> pmm) option" where
  "range_walk l [] n address s = Some (n, s)"
| "range_walk l (a # as) n address s = do {
     (n, address, s) \<leftarrow> range_arena_loop a l n address s;
     if n = 0 then Some (n, s) else range_walk l as n address s }"

definition pmm_alloc_range :: "u32 \<Rightarrow> u32 \<Rightarrow> nat \<Rightarrow> pmm \<Rightarrow> (u32 \<times> pmm) option" where
  "pmm_alloc_range address count l s =
    (if count = 0 then Some (0, s)
     else do {
       (n, s) \<leftarrow> range_walk l (arenas s) (unat count) (ROUNDDOWN address PAGE_SIZE) s;
       Some (count - of_nat n, s) })"

section \<open>Freeing\<close>

text \<open>The loop runs once for every page on the list; a page that belongs to no arena is dropped.\<close>

fun pmm_free_loop :: "nat \<Rightarrow> nat \<Rightarrow> u32 \<Rightarrow> pmm \<Rightarrow> (u32 \<times> pmm) option" where
  "pmm_free_loop 0 l count s = Some (count, s)"
| "pmm_free_loop (Suc k) l count s = do {
     (r, pl) \<leftarrow> ls_remove_head (Page_list l) (pm_lists s);
     p \<leftarrow> r;
     DEBUG_ASSERT (\<not> ls_in_list p pl);
     f \<leftarrow> page_flags p s;
     DEBUG_ASSERT (\<not> page_is_free f);
     case List.find (PAGE_BELONGS_TO_ARENA p s) (arenas s) of
       None \<Rightarrow> pmm_free_loop k l count (s\<lparr>pm_lists := pl\<rparr>)
     | Some a \<Rightarrow> do {
         pl \<leftarrow> ls_add_head (Free_list a) p pl;
         pmm_free_loop k l (count + 1)
           (upd_arena a (\<lambda>ar. ar\<lparr>pa_free_count := pa_free_count ar + 1\<rparr>) (set_page_flags p (f AND NOT VM_PAGE_FLAG_NONFREE) (s\<lparr>pm_lists := pl\<rparr>))) } }"

definition pmm_free :: "nat \<Rightarrow> pmm \<Rightarrow> (u32 \<times> pmm) option" where
  "pmm_free l s = pmm_free_loop (length (page_list s l)) l 0 s"

text \<open>\<open>l\<close> is the list on the stack.\<close>

definition pmm_free_page :: "nat \<Rightarrow> vm_page \<Rightarrow> pmm \<Rightarrow> (u32 \<times> pmm) option" where
  "pmm_free_page l p s = do {
     pl \<leftarrow> ls_initialize (Page_list l) (pm_lists s);
     pl \<leftarrow> ls_add_head (Page_list l) p pl;
     pmm_free l (s\<lparr>pm_lists := pl\<rparr>) }"

section \<open>Contiguous runs\<close>

text \<open>The first page of the run that is in use, if any: \<open>Some (Some i)\<close>.\<close>

fun run_broken :: "u8 list \<Rightarrow> nat \<Rightarrow> nat \<Rightarrow> nat \<Rightarrow> nat option option" where
  "run_broken fl start i 0 = Some None"
| "run_broken fl start i (Suc k) =
    (if start + i < length fl then
       if \<not> page_is_free (fl ! (start + i)) then Some (Some i) else run_broken fl start (Suc i) k
     else None)"

text \<open>The search of one arena; the result is the start of the run, if there is one.\<close>

partial_function (option) contig_search :: "u8 list \<Rightarrow> u32 \<Rightarrow> u32 \<Rightarrow> u32 \<Rightarrow> u32 \<Rightarrow> u32 \<Rightarrow> u32 option option" where
  "contig_search fl pages count al off start =
    (if start < pages \<and> start + count \<le> pages then
       Option.bind (run_broken fl (unat start) 0 (unat count)) (\<lambda>r.
         if r = None then Some (Some start)
         else contig_search fl pages count al off (ROUNDUP (start - off + of_nat (the r) + 1) al + off))
     else Some None)"

declare contig_search.simps [code]

fun take_run :: "nat \<Rightarrow> nat option \<Rightarrow> nat list \<Rightarrow> pmm \<Rightarrow> pmm option" where
  "take_run a list [] s = Some s"
| "take_run a list (i # is) s = do {
     f \<leftarrow> page_flags (a, i) s;
     DEBUG_ASSERT (page_is_free f);
     DEBUG_ASSERT (ls_in_list (a, i) (pm_lists s));
     s \<leftarrow> take_page a (a, i) list s;
     take_run a list is s }"

text \<open>The result is the count and the value stored in \<open>*pa\<close>, if one is.\<close>

fun contig_walk :: "u32 \<Rightarrow> nat \<Rightarrow> nat option \<Rightarrow> nat list \<Rightarrow> pmm \<Rightarrow> (u32 \<times> u32 option \<times> pmm) option" where
  "contig_walk count al list [] s = Some (0, None, s)"
| "contig_walk count al list (a # as) s =
    (let ar = pm_arena s a; rounded_base = ROUNDUP (pa_base ar) (push_bit al 1)
     in if pa_flags ar AND PMM_ARENA_FLAG_KMAP \<noteq> 0 \<and> \<not> (rounded_base < pa_base ar \<or> rounded_base > pa_base ar + pa_size ar - 1) then do {
          let off = (rounded_base - pa_base ar) div PAGE_SIZE;
          r \<leftarrow> contig_search (pa_page_array ar) (pa_size ar div PAGE_SIZE) count (push_bit (al - PAGE_SIZE_SHIFT) 1) off off;
          case r of
            None \<Rightarrow> contig_walk count al list as s
          | Some start \<Rightarrow> do {
              s \<leftarrow> take_run a list [unat start..<unat (start + count)] s;
              Some (count, Some (pa_base ar + start * PAGE_SIZE), s) } }
        else contig_walk count al list as s)"

definition pmm_alloc_contiguous :: "u32 \<Rightarrow> u8 \<Rightarrow> nat option \<Rightarrow> pmm \<Rightarrow> (u32 \<times> u32 option \<times> pmm) option" where
  "pmm_alloc_contiguous count alignment_log2 list s =
    (if count = 0 then Some (0, None, s)
     else let al = max (unat alignment_log2) PAGE_SIZE_SHIFT
          in if al < 32 then contig_walk count al list (arenas s) s else None)"

text \<open>\<open>paddr_to_kvaddr\<close> and \<open>vaddr_to_paddr\<close> are arguments.\<close>

definition pmm_alloc_kpages :: "(u32 \<Rightarrow> u32) \<Rightarrow> u32 \<Rightarrow> nat option \<Rightarrow> pmm \<Rightarrow> (u32 \<times> pmm) option" where
  "pmm_alloc_kpages to_kvaddr count list s = do {
     (alloc_count, pa, s) \<leftarrow> pmm_alloc_contiguous count (of_nat PAGE_SIZE_SHIFT) list s;
     if alloc_count = 0 then Some (0, s)
     else do { pa \<leftarrow> pa; Some (to_kvaddr pa, s) } }"

fun kpages_loop :: "(u32 \<Rightarrow> u32) \<Rightarrow> nat \<Rightarrow> u32 \<Rightarrow> nat \<Rightarrow> pmm \<Rightarrow> pmm option" where
  "kpages_loop to_paddr l ptr 0 s = Some s"
| "kpages_loop to_paddr l ptr (Suc n) s = do {
     s \<leftarrow> (case paddr_to_vm_page (to_paddr ptr) s of
         None \<Rightarrow> Some s
       | Some p \<Rightarrow> do { pl \<leftarrow> ls_add_tail (Page_list l) p (pm_lists s); Some (s\<lparr>pm_lists := pl\<rparr>) });
     kpages_loop to_paddr l (ptr + PAGE_SIZE) n s }"

definition pmm_free_kpages :: "(u32 \<Rightarrow> u32) \<Rightarrow> nat \<Rightarrow> u32 \<Rightarrow> u32 \<Rightarrow> pmm \<Rightarrow> (u32 \<times> pmm) option" where
  "pmm_free_kpages to_paddr l ptr count s = do {
     pl \<leftarrow> ls_initialize (Page_list l) (pm_lists s);
     s \<leftarrow> kpages_loop to_paddr l ptr (unat count) (s\<lparr>pm_lists := pl\<rparr>);
     pmm_free l s }"

end
