(* ===== verification/Vmm.thy ===== *)
theory Vmm
  imports Pmm
begin

text \<open>
  The virtual memory manager, \<^verbatim>\<open>kernel/vm/vmm.c\<close>, with \<^verbatim>\<open>kernel/vm/vm.c\<close> and \<^verbatim>\<open>kernel/vm/bootalloc.c\<close>: address spaces
  with ordered lists of regions, and the pages behind them. Address spaces and regions are named by their addresses; a list
  has the address of what it is part of: \<open>Page_list r\<close> is the page list of region \<open>r\<close>, or a list on the stack. Results of
  \<open>calloc\<close> and the addresses of lists on the stack are arguments. The operations of the MMU, which every architecture provides, are
  an argument too. Addresses have 32 bits. Calls do not overlap. \<open>None\<close> is a failed assertion or
  a broken list.
\<close>

section \<open>State\<close>

record vmm_region =
  vr_name :: string
  vr_flags :: u32
  vr_arch_mmu_flags :: u32
  vr_base :: u32
  vr_size :: u32

record vmm_aspace =
  va_name :: string
  va_flags :: u32
  va_base :: u32
  va_size :: u32

text \<open>\<^verbatim>\<open>arch/mmu.h\<close>. A query stores the physical address and the flags or leaves both alone; the results of
  mapping, unmapping and destroying are not looked at.\<close>

record 'm arch_mmu =
  mmu_init_aspace :: "nat \<Rightarrow> u32 \<Rightarrow> u32 \<Rightarrow> u32 \<Rightarrow> 'm \<Rightarrow> int \<times> 'm"
  mmu_destroy_aspace :: "nat \<Rightarrow> 'm \<Rightarrow> 'm"
  mmu_map :: "nat \<Rightarrow> u32 \<Rightarrow> u32 \<Rightarrow> u32 \<Rightarrow> u32 \<Rightarrow> 'm \<Rightarrow> 'm"
  mmu_unmap :: "nat \<Rightarrow> u32 \<Rightarrow> u32 \<Rightarrow> 'm \<Rightarrow> 'm"
  mmu_query :: "nat \<Rightarrow> u32 \<Rightarrow> 'm \<Rightarrow> int \<times> (u32 \<times> u32) option"
  mmu_context_switch :: "nat option \<Rightarrow> 'm \<Rightarrow> 'm"

text \<open>\<open>vm_current\<close> is the address space of the current thread.\<close>

record 'm vmm =
  vm_pmm :: pmm
  vm_aspaces :: "(unit, nat) lstore"
  vm_aspace :: "nat \<Rightarrow> vmm_aspace"
  vm_regions :: "(nat, nat) lstore"
  vm_region :: "nat \<Rightarrow> vmm_region"
  vm_current :: "nat option"
  vm_mmu :: 'm

abbreviation aspaces :: "'m vmm \<Rightarrow> nat list" where "aspaces s \<equiv> lcont (vm_aspaces s) ()"
abbreviation regions :: "'m vmm \<Rightarrow> nat \<Rightarrow> nat list" where "regions s a \<equiv> lcont (vm_regions s) a"

abbreviation (input) KERNEL_ASPACE_BASE :: u32 where "KERNEL_ASPACE_BASE \<equiv> 0x80000000"
abbreviation (input) KERNEL_ASPACE_SIZE :: u32 where "KERNEL_ASPACE_SIZE \<equiv> 0x80000000"
abbreviation (input) USER_ASPACE_BASE :: u32 where "USER_ASPACE_BASE \<equiv> 0x01000000"
abbreviation (input) USER_ASPACE_SIZE :: u32 where "USER_ASPACE_SIZE \<equiv> KERNEL_ASPACE_BASE - USER_ASPACE_BASE - 0x01000000"
abbreviation (input) VMM_ASPACE_FLAG_KERNEL :: u32 where "VMM_ASPACE_FLAG_KERNEL \<equiv> 1"
abbreviation (input) ARCH_ASPACE_FLAG_KERNEL :: u32 where "ARCH_ASPACE_FLAG_KERNEL \<equiv> 1"
abbreviation (input) VMM_REGION_FLAG_RESERVED :: u32 where "VMM_REGION_FLAG_RESERVED \<equiv> 1"
abbreviation (input) VMM_REGION_FLAG_PHYSICAL :: u32 where "VMM_REGION_FLAG_PHYSICAL \<equiv> 2"
abbreviation (input) VMM_FLAG_VALLOC_SPECIFIC :: u32 where "VMM_FLAG_VALLOC_SPECIFIC \<equiv> 1"
abbreviation (input) ARCH_MMU_FLAG_INVALID :: u32 where "ARCH_MMU_FLAG_INVALID \<equiv> 128"

text \<open>\<open>strlcpy\<close> into a name of 32 bytes.\<close>

abbreviation (input) name32 :: "string \<Rightarrow> string" where "name32 n \<equiv> take 31 n"

section \<open>Regions\<close>

definition is_inside_aspace :: "vmm_aspace \<Rightarrow> u32 \<Rightarrow> bool" where
  "is_inside_aspace a vaddr \<longleftrightarrow> vaddr \<ge> va_base a \<and> vaddr \<le> va_base a + va_size a - 1"

definition is_region_inside_aspace :: "vmm_aspace \<Rightarrow> u32 \<Rightarrow> u32 \<Rightarrow> bool" where
  "is_region_inside_aspace a vaddr sz =
    (if \<not> is_inside_aspace a vaddr then False
     else if sz = 0 then True
     else if vaddr + sz - 1 < vaddr then False
     else if vaddr + sz - 1 > va_base a + va_size a - 1 then False
     else True)"

definition trim_to_aspace :: "vmm_aspace \<Rightarrow> u32 \<Rightarrow> u32 \<Rightarrow> u32 option" where
  "trim_to_aspace a vaddr sz = do {
     DEBUG_ASSERT (is_inside_aspace a vaddr);
     if sz = 0 then Some sz
     else do {
       let offset = vaddr - va_base a;
       let sz = (if offset + sz < offset then - 1 - offset - 1 else sz);
       let sz = (if offset + sz \<ge> va_size a - 1 then va_size a - offset else sz);
       Some sz } }"

definition alloc_region_struct :: "nat option \<Rightarrow> string \<Rightarrow> u32 \<Rightarrow> u32 \<Rightarrow> u32 \<Rightarrow> u32 \<Rightarrow> 'm vmm \<Rightarrow> (nat option \<times> 'm vmm) option" where
  "alloc_region_struct mem name base sz flags arch_mmu_flags s =
    (case mem of
       None \<Rightarrow> Some (None, s)
     | Some r \<Rightarrow> do {
         DEBUG_ASSERT (\<not> ls_in_list r (vm_regions s));
         pl \<leftarrow> ls_initialize (Page_list r) (pm_lists (vm_pmm s));
         Some (Some r, s\<lparr>vm_region := (vm_region s)(r := \<lparr>vr_name = name32 name, vr_flags = flags, vr_arch_mmu_flags = arch_mmu_flags, vr_base = base, vr_size = sz\<rparr>),
           vm_pmm := (vm_pmm s)\<lparr>pm_lists := pl\<rparr>\<rparr>) })"

text \<open>The walk of \<open>add_region_to_aspace\<close>: the region after which the new one goes.\<close>

fun find_place :: "(nat \<Rightarrow> vmm_region) \<Rightarrow> u32 \<Rightarrow> u32 \<Rightarrow> nat list \<Rightarrow> nat option" where
  "find_place rg base r_end [] = None"
| "find_place rg base r_end (x # xs) =
    (if base > vr_base (rg x) + vr_size (rg x) - 1 \<and> (case xs of [] \<Rightarrow> True | y # _ \<Rightarrow> r_end < vr_base (rg y)) then Some x
     else find_place rg base r_end xs)"

definition add_region_to_aspace :: "nat \<Rightarrow> nat \<Rightarrow> 'm vmm \<Rightarrow> (int \<times> 'm vmm) option" where
  "add_region_to_aspace a r s =
    (let rg = vm_region s r; r_end = vr_base rg + vr_size rg - 1
     in if vr_size rg = 0 \<or> \<not> is_region_inside_aspace (vm_aspace s a) (vr_base rg) (vr_size rg) then Some (ERR_OUT_OF_RANGE, s)
        else if (case ls_peek_head a (vm_regions s) of None \<Rightarrow> True | Some f \<Rightarrow> r_end < vr_base (vm_region s f)) then do {
          q \<leftarrow> ls_add_head a r (vm_regions s);
          Some (NO_ERROR, s\<lparr>vm_regions := q\<rparr>) }
        else case find_place (vm_region s) (vr_base rg) r_end (regions s a) of
          Some p \<Rightarrow> do {
            q \<leftarrow> ls_add_after p r (vm_regions s);
            Some (NO_ERROR, s\<lparr>vm_regions := q\<rparr>) }
        | None \<Rightarrow> Some (ERR_NO_MEMORY, s))"

text \<open>The default; an architecture may have its own.\<close>

definition arch_mmu_pick_spot :: "u32 \<Rightarrow> u32 \<Rightarrow> u32 \<Rightarrow> u32 \<Rightarrow> u32 \<Rightarrow> u32 \<Rightarrow> u32 \<Rightarrow> u32" where
  "arch_mmu_pick_spot base prev_flags e next_flags align sz arch_mmu_flags = ROUNDUP base align"

text \<open>\<open>Some spot\<close> ends the search, \<open>- 1\<close> without a spot.\<close>

definition check_gap :: "vmm_aspace \<Rightarrow> vmm_region option \<Rightarrow> vmm_region option \<Rightarrow> u32 \<Rightarrow> u32 \<Rightarrow> u32 \<Rightarrow> u32 option" where
  "check_gap a prev next align sz arch_mmu_flags =
    (let gap_beg = (case prev of Some p \<Rightarrow> vr_base p + vr_size p | None \<Rightarrow> va_base a);
         gap_end = (case next of Some n \<Rightarrow> vr_base n - 1 | None \<Rightarrow> va_base a + va_size a - 1);
         pva = arch_mmu_pick_spot gap_beg (case prev of Some p \<Rightarrow> vr_arch_mmu_flags p | None \<Rightarrow> ARCH_MMU_FLAG_INVALID)
           gap_end (case next of Some n \<Rightarrow> vr_arch_mmu_flags n | None \<Rightarrow> ARCH_MMU_FLAG_INVALID) align sz arch_mmu_flags
     in if (case next of Some n \<Rightarrow> gap_beg = vr_base n | None \<Rightarrow> False) then None
        else if next = None \<and> gap_beg = va_base a + va_size a then Some (- 1)
        else if pva < gap_beg then Some (- 1)
        else if pva < gap_end \<and> gap_end - pva + 1 \<ge> sz then Some pva
        else None)"

text \<open>The search from the gap behind \<open>prev\<close> on. The second result is \<open>*before\<close>: \<open>None\<close> when it is not stored, else the region before the spot
  or \<open>Some None\<close> for the head of the list.\<close>

fun spot_walk :: "(nat \<Rightarrow> vmm_region) \<Rightarrow> vmm_aspace \<Rightarrow> u32 \<Rightarrow> u32 \<Rightarrow> u32 \<Rightarrow> nat option \<Rightarrow> nat list \<Rightarrow> u32 \<times> nat option option" where
  "spot_walk rg a align sz fl prev xs =
    (case check_gap a (map_option rg prev) (case xs of [] \<Rightarrow> None | x # _ \<Rightarrow> Some (rg x)) align sz fl of
       Some spot \<Rightarrow> (spot, Some prev)
     | None \<Rightarrow> (case xs of [] \<Rightarrow> (- 1, None) | x # xs \<Rightarrow> spot_walk rg a align sz fl (Some x) xs))"

declare spot_walk.simps [simp del]

definition alloc_spot :: "nat \<Rightarrow> u32 \<Rightarrow> u8 \<Rightarrow> u32 \<Rightarrow> 'm vmm \<Rightarrow> (u32 \<times> nat option option) option" where
  "alloc_spot a sz align_pow2 arch_mmu_flags s = do {
     DEBUG_ASSERT (sz > 0 \<and> IS_PAGE_ALIGNED sz);
     let align_pow2 = max (unat align_pow2) PAGE_SIZE_SHIFT;
     DEBUG_ASSERT (align_pow2 < 32);
     Some (spot_walk (vm_region s) (vm_aspace s a) (push_bit align_pow2 1) sz arch_mmu_flags None (regions s a)) }"

definition alloc_region :: "nat option \<Rightarrow> nat \<Rightarrow> string \<Rightarrow> u32 \<Rightarrow> u32 \<Rightarrow> u8 \<Rightarrow> u32 \<Rightarrow> u32 \<Rightarrow> u32 \<Rightarrow> 'm vmm \<Rightarrow> (nat option \<times> 'm vmm) option" where
  "alloc_region mem a name sz vaddr align_pow2 vmm_flags region_flags arch_mmu_flags s = do {
     (r, s) \<leftarrow> alloc_region_struct mem name vaddr sz region_flags arch_mmu_flags s;
     case r of
       None \<Rightarrow> Some (None, s)
     | Some r \<Rightarrow>
         if vmm_flags AND VMM_FLAG_VALLOC_SPECIFIC \<noteq> 0 then do {
           (err, s) \<leftarrow> add_region_to_aspace a r s;
           Some (if err < 0 then None else Some r, s) }
         else do {
           (vaddr, before) \<leftarrow> alloc_spot a sz align_pow2 arch_mmu_flags s;
           if vaddr = - 1 then Some (None, s)
           else do {
             before \<leftarrow> before;
             let s = s\<lparr>vm_region := (vm_region s)(r := (vm_region s r)\<lparr>vr_base := vaddr\<rparr>)\<rparr>;
             q \<leftarrow> (case before of None \<Rightarrow> ls_add_head a r (vm_regions s) | Some p \<Rightarrow> ls_add_after p r (vm_regions s));
             Some (Some r, s\<lparr>vm_regions := q\<rparr>) } } }"

section \<open>Operations\<close>

definition vmm_reserve_space :: "'m arch_mmu \<Rightarrow> nat option \<Rightarrow> nat \<Rightarrow> string option \<Rightarrow> u32 \<Rightarrow> u32 \<Rightarrow> 'm vmm \<Rightarrow> (int \<times> 'm vmm) option" where
  "vmm_reserve_space mmu mem a name sz vaddr s = do {
     DEBUG_ASSERT (IS_PAGE_ALIGNED vaddr);
     DEBUG_ASSERT (IS_PAGE_ALIGNED sz);
     let name = (case name of None \<Rightarrow> [] | Some n \<Rightarrow> n);
     if sz = 0 then Some (NO_ERROR, s)
     else if \<not> IS_PAGE_ALIGNED vaddr \<or> \<not> IS_PAGE_ALIGNED sz then Some (ERR_INVALID_ARGS, s)
     else if \<not> is_inside_aspace (vm_aspace s a) vaddr then Some (ERR_OUT_OF_RANGE, s)
     else do {
       sz \<leftarrow> trim_to_aspace (vm_aspace s a) vaddr sz;
       let arch_mmu_flags = (case mmu_query mmu a vaddr (vm_mmu s) of (_, Some (_, fl)) \<Rightarrow> fl | (_, None) \<Rightarrow> 0);
       (r, s) \<leftarrow> alloc_region mem a name sz vaddr 0 VMM_FLAG_VALLOC_SPECIFIC VMM_REGION_FLAG_RESERVED arch_mmu_flags s;
       Some (if r = None then ERR_NO_MEMORY else NO_ERROR, s) } }"

text \<open>\<open>ptr\<close> is \<open>None\<close> for a null pointer, else the value of \<open>*ptr\<close>; the second result is its value afterwards.\<close>

definition vmm_alloc_physical :: "'m arch_mmu \<Rightarrow> nat option \<Rightarrow> nat \<Rightarrow> string option \<Rightarrow> u32 \<Rightarrow> u32 option \<Rightarrow> u8 \<Rightarrow> u32 \<Rightarrow> u32 \<Rightarrow> u32 \<Rightarrow> 'm vmm \<Rightarrow>
    (int \<times> u32 option \<times> 'm vmm) option" where
  "vmm_alloc_physical mmu mem a name sz ptr align_log2 paddr vmm_flags arch_mmu_flags s = do {
     DEBUG_ASSERT (IS_PAGE_ALIGNED paddr);
     DEBUG_ASSERT (IS_PAGE_ALIGNED sz);
     let name = (case name of None \<Rightarrow> [] | Some n \<Rightarrow> n);
     if sz = 0 then Some (NO_ERROR, ptr, s)
     else if \<not> IS_PAGE_ALIGNED paddr \<or> \<not> IS_PAGE_ALIGNED sz then Some (ERR_INVALID_ARGS, ptr, s)
     else if vmm_flags AND VMM_FLAG_VALLOC_SPECIFIC \<noteq> 0 \<and> ptr = None then Some (ERR_INVALID_ARGS, ptr, s)
     else do {
       let vaddr = (if vmm_flags AND VMM_FLAG_VALLOC_SPECIFIC \<noteq> 0 then the ptr else 0);
       (r, s) \<leftarrow> alloc_region mem a name sz vaddr align_log2 vmm_flags VMM_REGION_FLAG_PHYSICAL arch_mmu_flags s;
       case r of
         None \<Rightarrow> Some (ERR_NO_MEMORY, ptr, s)
       | Some r \<Rightarrow> do {
           let base = vr_base (vm_region s r);
           Some (NO_ERROR, map_option (\<lambda>_. base) ptr, s\<lparr>vm_mmu := mmu_map mmu a base paddr (sz div PAGE_SIZE) arch_mmu_flags (vm_mmu s)\<rparr>) } } }"

text \<open>The pages of the list on the stack go to the page list of the region. The loops run once for every page.\<close>

fun move_pages :: "nat \<Rightarrow> nat \<Rightarrow> nat \<Rightarrow> pmm \<Rightarrow> pmm option" where
  "move_pages l r 0 p = Some p"
| "move_pages l r (Suc n) p = do {
     (x, pl) \<leftarrow> ls_remove_head (Page_list l) (pm_lists p);
     x \<leftarrow> x;
     pl \<leftarrow> ls_add_tail (Page_list r) x pl;
     move_pages l r n (p\<lparr>pm_lists := pl\<rparr>) }"

definition vmm_alloc_contiguous :: "'m arch_mmu \<Rightarrow> nat option \<Rightarrow> nat \<Rightarrow> nat \<Rightarrow> string option \<Rightarrow> u32 \<Rightarrow> u32 option \<Rightarrow> u8 \<Rightarrow> u32 \<Rightarrow> u32 \<Rightarrow> 'm vmm \<Rightarrow>
    (int \<times> u32 option \<times> 'm vmm) option" where
  "vmm_alloc_contiguous mmu mem l a name sz ptr align_pow2 vmm_flags arch_mmu_flags s =
    (let sz = ROUNDUP sz PAGE_SIZE; name = (case name of None \<Rightarrow> [] | Some n \<Rightarrow> n)
     in if sz = 0 then Some (ERR_INVALID_ARGS, ptr, s)
        else if vmm_flags AND VMM_FLAG_VALLOC_SPECIFIC \<noteq> 0 \<and> ptr = None then Some (ERR_INVALID_ARGS, ptr, s)
        else do {
          let vaddr = (if vmm_flags AND VMM_FLAG_VALLOC_SPECIFIC \<noteq> 0 then the ptr else 0);
          pl \<leftarrow> ls_initialize (Page_list l) (pm_lists (vm_pmm s));
          (count, pa, p) \<leftarrow> pmm_alloc_contiguous (sz div PAGE_SIZE) align_pow2 (Some l) ((vm_pmm s)\<lparr>pm_lists := pl\<rparr>);
          let s = s\<lparr>vm_pmm := p\<rparr>;
          let pa = (case pa of None \<Rightarrow> 0 | Some pa \<Rightarrow> pa);
          if count < sz div PAGE_SIZE then do {
            DEBUG_ASSERT (count = 0);
            Some (ERR_NO_MEMORY, ptr, s) }
          else do {
            (r, s) \<leftarrow> alloc_region mem a name sz vaddr align_pow2 vmm_flags VMM_REGION_FLAG_PHYSICAL arch_mmu_flags s;
            case r of
              None \<Rightarrow> do {
                (_, p) \<leftarrow> pmm_free l (vm_pmm s);
                Some (ERR_NO_MEMORY, ptr, s\<lparr>vm_pmm := p\<rparr>) }
            | Some r \<Rightarrow> do {
                let base = vr_base (vm_region s r);
                let s = s\<lparr>vm_mmu := mmu_map mmu a base pa (sz div PAGE_SIZE) arch_mmu_flags (vm_mmu s)\<rparr>;
                p \<leftarrow> move_pages l r (length (page_list (vm_pmm s) l)) (vm_pmm s);
                Some (NO_ERROR, map_option (\<lambda>_. base) ptr, s\<lparr>vm_pmm := p\<rparr>) } } })"

fun map_pages :: "'m arch_mmu \<Rightarrow> nat \<Rightarrow> nat \<Rightarrow> nat \<Rightarrow> u32 \<Rightarrow> nat \<Rightarrow> u32 \<Rightarrow> 'm vmm \<Rightarrow> 'm vmm option" where
  "map_pages mmu a l r fl 0 va s = Some s"
| "map_pages mmu a l r fl (Suc n) va s = do {
     (x, pl) \<leftarrow> ls_remove_head (Page_list l) (pm_lists (vm_pmm s));
     x \<leftarrow> x;
     DEBUG_ASSERT (va \<le> vr_base (vm_region s r) + vr_size (vm_region s r) - 1);
     let pa = vm_page_to_paddr x (vm_pmm s);
     DEBUG_ASSERT (IS_PAGE_ALIGNED pa);
     let m = mmu_map mmu a va pa 1 fl (vm_mmu s);
     pl \<leftarrow> ls_add_tail (Page_list r) x pl;
     map_pages mmu a l r fl n (va + PAGE_SIZE) (s\<lparr>vm_pmm := (vm_pmm s)\<lparr>pm_lists := pl\<rparr>, vm_mmu := m\<rparr>) }"

definition vmm_alloc :: "'m arch_mmu \<Rightarrow> nat option \<Rightarrow> nat \<Rightarrow> nat \<Rightarrow> string option \<Rightarrow> u32 \<Rightarrow> u32 option \<Rightarrow> u8 \<Rightarrow> u32 \<Rightarrow> u32 \<Rightarrow> 'm vmm \<Rightarrow>
    (int \<times> u32 option \<times> 'm vmm) option" where
  "vmm_alloc mmu mem l a name sz ptr align_pow2 vmm_flags arch_mmu_flags s =
    (let sz = ROUNDUP sz PAGE_SIZE; name = (case name of None \<Rightarrow> [] | Some n \<Rightarrow> n)
     in if sz = 0 then Some (ERR_INVALID_ARGS, ptr, s)
        else if vmm_flags AND VMM_FLAG_VALLOC_SPECIFIC \<noteq> 0 \<and> ptr = None then Some (ERR_INVALID_ARGS, ptr, s)
        else do {
          let vaddr = (if vmm_flags AND VMM_FLAG_VALLOC_SPECIFIC \<noteq> 0 then the ptr else 0);
          pl \<leftarrow> ls_initialize (Page_list l) (pm_lists (vm_pmm s));
          (count, p) \<leftarrow> pmm_alloc_pages (sz div PAGE_SIZE) l ((vm_pmm s)\<lparr>pm_lists := pl\<rparr>);
          DEBUG_ASSERT (count \<le> sz);
          if count < sz div PAGE_SIZE then do {
            (_, p) \<leftarrow> pmm_free l p;
            Some (ERR_NO_MEMORY, ptr, s\<lparr>vm_pmm := p\<rparr>) }
          else do {
            (r, s) \<leftarrow> alloc_region mem a name sz vaddr align_pow2 vmm_flags VMM_REGION_FLAG_PHYSICAL arch_mmu_flags (s\<lparr>vm_pmm := p\<rparr>);
            case r of
              None \<Rightarrow> do {
                (_, p) \<leftarrow> pmm_free l (vm_pmm s);
                Some (ERR_NO_MEMORY, ptr, s\<lparr>vm_pmm := p\<rparr>) }
            | Some r \<Rightarrow> do {
                let base = vr_base (vm_region s r);
                DEBUG_ASSERT (IS_PAGE_ALIGNED base);
                s \<leftarrow> map_pages mmu a l r arch_mmu_flags (length (page_list (vm_pmm s) l)) base s;
                Some (NO_ERROR, map_option (\<lambda>_. base) ptr, s) } } })"

definition vmm_find_region :: "nat \<Rightarrow> u32 \<Rightarrow> 'm vmm \<Rightarrow> nat option" where
  "vmm_find_region a vaddr s =
    List.find (\<lambda>r. vaddr \<ge> vr_base (vm_region s r) \<and> vaddr \<le> vr_base (vm_region s r) + vr_size (vm_region s r) - 1) (regions s a)"

definition vmm_free_region :: "'m arch_mmu \<Rightarrow> nat \<Rightarrow> u32 \<Rightarrow> 'm vmm \<Rightarrow> (int \<times> 'm vmm) option" where
  "vmm_free_region mmu a vaddr s =
    (case vmm_find_region a vaddr s of
       None \<Rightarrow> Some (ERR_NOT_FOUND, s)
     | Some r \<Rightarrow> do {
         q \<leftarrow> ls_delete r (vm_regions s);
         let m = mmu_unmap mmu a (vr_base (vm_region s r)) (vr_size (vm_region s r) div PAGE_SIZE) (vm_mmu s);
         (_, p) \<leftarrow> pmm_free r (vm_pmm s);
         Some (NO_ERROR, s\<lparr>vm_regions := q, vm_mmu := m, vm_pmm := p\<rparr>) })"

section \<open>Address spaces\<close>

text \<open>The result holds the value stored in \<open>*_aspace\<close>.\<close>

definition vmm_create_aspace :: "'m arch_mmu \<Rightarrow> nat option \<Rightarrow> string option \<Rightarrow> u32 \<Rightarrow> 'm vmm \<Rightarrow> (int \<times> nat option \<times> 'm vmm) option" where
  "vmm_create_aspace mmu mem name flags s =
    (case mem of
       None \<Rightarrow> Some (ERR_NO_MEMORY, None, s)
     | Some a \<Rightarrow> do {
         let kernel = flags AND VMM_ASPACE_FLAG_KERNEL \<noteq> 0;
         let as = \<lparr>va_name = name32 (case name of Some n \<Rightarrow> n | None \<Rightarrow> ''unnamed''), va_flags = flags,
           va_base = (if kernel then KERNEL_ASPACE_BASE else USER_ASPACE_BASE), va_size = (if kernel then KERNEL_ASPACE_SIZE else USER_ASPACE_SIZE)\<rparr>;
         let (err, m) = mmu_init_aspace mmu a (va_base as) (va_size as) (if kernel then ARCH_ASPACE_FLAG_KERNEL else 0) (vm_mmu s);
         let s = s\<lparr>vm_aspace := (vm_aspace s)(a := as), vm_mmu := m\<rparr>;
         if err < 0 then Some (err, None, s)
         else do {
           rl \<leftarrow> ls_initialize a (vm_regions s);
           al \<leftarrow> ls_add_head () a (vm_aspaces s);
           Some (NO_ERROR, Some a, s\<lparr>vm_regions := rl, vm_aspaces := al\<rparr>) } })"

fun unlink_regions :: "'m arch_mmu \<Rightarrow> nat \<Rightarrow> nat \<Rightarrow> nat \<Rightarrow> 'm vmm \<Rightarrow> 'm vmm option" where
  "unlink_regions mmu a l 0 s = Some s"
| "unlink_regions mmu a l (Suc n) s = do {
     (r, q) \<leftarrow> ls_remove_head a (vm_regions s);
     r \<leftarrow> r;
     q \<leftarrow> ls_add_tail l r q;
     unlink_regions mmu a l n (s\<lparr>vm_regions := q,
       vm_mmu := mmu_unmap mmu a (vr_base (vm_region s r)) (vr_size (vm_region s r) div PAGE_SIZE) (vm_mmu s)\<rparr>) }"

fun free_regions :: "nat \<Rightarrow> nat \<Rightarrow> 'm vmm \<Rightarrow> 'm vmm option" where
  "free_regions l 0 s = Some s"
| "free_regions l (Suc n) s = do {
     (r, q) \<leftarrow> ls_remove_head l (vm_regions s);
     r \<leftarrow> r;
     (_, p) \<leftarrow> pmm_free r (vm_pmm s);
     free_regions l n (s\<lparr>vm_regions := q, vm_pmm := p\<rparr>) }"

definition vmm_context_switch :: "'m arch_mmu \<Rightarrow> nat option \<Rightarrow> 'm vmm \<Rightarrow> 'm vmm" where
  "vmm_context_switch mmu newaspace s = s\<lparr>vm_mmu := mmu_context_switch mmu newaspace (vm_mmu s)\<rparr>"

definition vmm_free_aspace :: "'m arch_mmu \<Rightarrow> nat \<Rightarrow> nat \<Rightarrow> 'm vmm \<Rightarrow> (int \<times> 'm vmm) option" where
  "vmm_free_aspace mmu l a s =
    (if \<not> ls_in_list a (vm_aspaces s) then Some (ERR_INVALID_ARGS, s)
     else do {
       al \<leftarrow> ls_delete a (vm_aspaces s);
       let s = s\<lparr>vm_aspaces := al\<rparr>;
       rl \<leftarrow> ls_initialize l (vm_regions s);
       s \<leftarrow> unlink_regions mmu a l (length (regions s a)) (s\<lparr>vm_regions := rl\<rparr>);
       s \<leftarrow> free_regions l (length (regions s l)) s;
       let s = (if vm_current s = Some a then vmm_context_switch mmu None (s\<lparr>vm_current := None\<rparr>) else s);
       Some (NO_ERROR, s\<lparr>vm_mmu := mmu_destroy_aspace mmu a (vm_mmu s)\<rparr>) })"

definition vmm_set_active_aspace :: "'m arch_mmu \<Rightarrow> nat option \<Rightarrow> 'm vmm \<Rightarrow> 'm vmm" where
  "vmm_set_active_aspace mmu a s =
    (if a = vm_current s then s else vmm_context_switch mmu a (s\<lparr>vm_current := a\<rparr>))"

section \<open>Start of the system\<close>

text \<open>\<open>k\<close> is \<open>_kernel_aspace\<close>.\<close>

definition vmm_init_preheap :: "'m arch_mmu \<Rightarrow> nat \<Rightarrow> 'm vmm \<Rightarrow> 'm vmm option" where
  "vmm_init_preheap mmu k s = do {
     rl \<leftarrow> ls_initialize k (vm_regions s);
     al \<leftarrow> ls_add_head () k (vm_aspaces s);
     Some (s\<lparr>vm_aspace := (vm_aspace s)(k := \<lparr>va_name = ''kernel'', va_flags = VMM_ASPACE_FLAG_KERNEL, va_base = KERNEL_ASPACE_BASE, va_size = KERNEL_ASPACE_SIZE\<rparr>),
       vm_regions := rl, vm_aspaces := al,
       vm_mmu := snd (mmu_init_aspace mmu k KERNEL_ASPACE_BASE KERNEL_ASPACE_SIZE ARCH_ASPACE_FLAG_KERNEL (vm_mmu s))\<rparr>) }"

text \<open>The pages go to a list \<open>l\<close> on the stack that is left behind.\<close>

fun mark_loop :: "'m arch_mmu \<Rightarrow> nat \<Rightarrow> nat \<Rightarrow> u32 \<Rightarrow> nat \<Rightarrow> 'm vmm \<Rightarrow> 'm vmm option" where
  "mark_loop mmu k l va 0 s = Some s"
| "mark_loop mmu k l va (Suc n) s = do {
     let (err, st) = mmu_query mmu k va (vm_mmu s);
     DEBUG_ASSERT (err \<ge> 0);
     (pa, fl) \<leftarrow> st;
     (_, p) \<leftarrow> pmm_alloc_range pa 1 l (vm_pmm s);
     mark_loop mmu k l (va + PAGE_SIZE) n (s\<lparr>vm_pmm := p\<rparr>) }"

definition mark_pages_in_use :: "'m arch_mmu \<Rightarrow> nat \<Rightarrow> nat \<Rightarrow> u32 \<Rightarrow> u32 \<Rightarrow> 'm vmm \<Rightarrow> 'm vmm option" where
  "mark_pages_in_use mmu k l va len s = do {
     pl \<leftarrow> ls_initialize (Page_list l) (pm_lists (vm_pmm s));
     let len = ROUNDUP (len + (va AND (PAGE_SIZE - 1))) PAGE_SIZE;
     mark_loop mmu k l (ROUNDDOWN va PAGE_SIZE) (unat (len div PAGE_SIZE)) (s\<lparr>vm_pmm := (vm_pmm s)\<lparr>pm_lists := pl\<rparr>\<rparr>) }"

definition vm_init_preheap :: "'m arch_mmu \<Rightarrow> nat \<Rightarrow> nat \<Rightarrow> nat \<Rightarrow> u32 \<Rightarrow> u32 \<Rightarrow> u32 \<Rightarrow> u32 \<Rightarrow> 'm vmm \<Rightarrow> 'm vmm option" where
  "vm_init_preheap mmu k l l' k_start k_end boot_alloc_start boot_alloc_end s = do {
     s \<leftarrow> vmm_init_preheap mmu k s;
     s \<leftarrow> mark_pages_in_use mmu k l k_start (k_end - k_start) s;
     if boot_alloc_end \<noteq> boot_alloc_start then mark_pages_in_use mmu k l' boot_alloc_start (boot_alloc_end - boot_alloc_start) s
     else Some s }"

definition boot_alloc_mem :: "u32 \<Rightarrow> u32 \<Rightarrow> u32 \<times> u32" where
  "boot_alloc_mem len boot_alloc_end = (let ptr = ROUNDUP boot_alloc_end 8 in (ptr, ptr + ROUNDUP len 8))"

text \<open>The table of initial mappings ends with an entry of size 0, which is left out of the list here.\<close>

record mmu_initial_mapping =
  im_phys :: u32
  im_virt :: u32
  im_size :: u32
  im_flags :: u32
  im_name :: string

abbreviation (input) MMU_INITIAL_MAPPING_TEMPORARY :: u32 where "MMU_INITIAL_MAPPING_TEMPORARY \<equiv> 1"

text \<open>With every entry the result of \<open>calloc\<close> for its region.\<close>

fun vm_init_postheap :: "'m arch_mmu \<Rightarrow> nat \<Rightarrow> (nat option \<times> mmu_initial_mapping) list \<Rightarrow> 'm vmm \<Rightarrow> 'm vmm option" where
  "vm_init_postheap mmu k [] s = Some s"
| "vm_init_postheap mmu k ((mem, m) # ms) s =
    (if im_size m > 0 then do {
       s \<leftarrow> (if im_flags m AND MMU_INITIAL_MAPPING_TEMPORARY = 0
             then map_option snd (vmm_reserve_space mmu mem k (Some (im_name m)) (im_size m) (im_virt m) s)
             else Some s);
       vm_init_postheap mmu k ms s }
     else Some s)"

fun paddr_to_kvaddr :: "mmu_initial_mapping list \<Rightarrow> u32 \<Rightarrow> u32" where
  "paddr_to_kvaddr [] pa = 0"
| "paddr_to_kvaddr (m # ms) pa =
    (if im_size m > 0 then
       if im_flags m AND MMU_INITIAL_MAPPING_TEMPORARY = 0 \<and> pa \<ge> im_phys m \<and> pa \<le> im_phys m + im_size m - 1
       then im_virt m + (pa - im_phys m)
       else paddr_to_kvaddr ms pa
     else 0)"

definition is_kernel_address :: "u32 \<Rightarrow> bool" where
  "is_kernel_address va \<longleftrightarrow> va \<ge> KERNEL_ASPACE_BASE \<and> va \<le> KERNEL_ASPACE_BASE + (KERNEL_ASPACE_SIZE - 1)"

definition is_user_address :: "u32 \<Rightarrow> bool" where
  "is_user_address va \<longleftrightarrow> va \<ge> USER_ASPACE_BASE \<and> va \<le> USER_ASPACE_BASE + (USER_ASPACE_SIZE - 1)"

definition vaddr_to_aspace :: "nat \<Rightarrow> u32 \<Rightarrow> 'm vmm \<Rightarrow> nat option" where
  "vaddr_to_aspace k va s = (if is_kernel_address va then Some k else if is_user_address va then vm_current s else None)"

text \<open>\<open>None\<close> when a query that succeeds stores nothing.\<close>

definition vaddr_to_paddr :: "'m arch_mmu \<Rightarrow> nat \<Rightarrow> u32 \<Rightarrow> 'm vmm \<Rightarrow> u32 option" where
  "vaddr_to_paddr mmu k va s =
    (case vaddr_to_aspace k va s of
       None \<Rightarrow> Some 0
     | Some a \<Rightarrow> (case mmu_query mmu a va (vm_mmu s) of (rc, st) \<Rightarrow> if rc \<noteq> 0 then Some 0 else map_option fst st))"

end
