(* ===== verification/Pmm_Inv.thy ===== *)
theory Pmm_Inv
  imports Pmm Novm_Inv
begin

text \<open>
  The invariant of the physical memory manager: the free list of an arena holds exactly the pages of the arena that are not
  marked, and its length is the count. Every operation is a sequence of single pages that are taken (\<open>took\<close>) or given
  back (\<open>gave\<close>).
\<close>

section \<open>Invariant\<close>

definition pmm_arena_ok :: "pmm_arena \<Rightarrow> bool" where
  "pmm_arena_ok ar \<longleftrightarrow> 4096 dvd unat (pa_base ar) \<and> 4096 dvd unat (pa_size ar) \<and> 0 < unat (pa_size ar) \<and>
     unat (pa_base ar) + unat (pa_size ar) \<le> 2 ^ 32 \<and> length (pa_page_array ar) = unat (pa_size ar) div 4096"

definition arena_span :: "pmm_arena \<Rightarrow> nat set" where
  "arena_span ar = {unat (pa_base ar)..<unat (pa_base ar) + unat (pa_size ar)}"

definition pg_free :: "pmm \<Rightarrow> vm_page \<Rightarrow> bool" where
  "pg_free s p \<longleftrightarrow> fst p \<in> set (arenas s) \<and> snd p < length (pa_page_array (pm_arena s (fst p))) \<and>
     page_is_free (pa_page_array (pm_arena s (fst p)) ! snd p)"

definition page_valid :: "pmm \<Rightarrow> vm_page \<Rightarrow> bool" where
  "page_valid s p \<longleftrightarrow> fst p \<in> set (arenas s) \<and> snd p < length (pa_page_array (pm_arena s (fst p)))"

definition pmm_inv :: "pmm \<Rightarrow> bool" where
  "pmm_inv s \<longleftrightarrow> ls_ok (pm_arenas s) \<and> ls_ok (pm_lists s) \<and> (\<forall>a \<in> set (arenas s). pmm_arena_ok (pm_arena s a)) \<and>
     (\<forall>a \<in> set (arenas s). \<forall>b \<in> set (arenas s). a \<noteq> b \<longrightarrow> arena_span (pm_arena s a) \<inter> arena_span (pm_arena s b) = {}) \<and>
     (\<forall>a. set (lcont (pm_lists s) (Free_list a)) = {p. pg_free s p \<and> fst p = a}) \<and>
     (\<forall>a \<in> set (arenas s). unat (pa_free_count (pm_arena s a)) = length (lcont (pm_lists s) (Free_list a)))"

text \<open>What never changes after an arena has been added.\<close>

definition pmm_same :: "pmm \<Rightarrow> pmm \<Rightarrow> bool" where
  "pmm_same s s' \<longleftrightarrow> pm_arenas s' = pm_arenas s \<and>
     (\<forall>a. pa_name (pm_arena s' a) = pa_name (pm_arena s a) \<and> pa_base (pm_arena s' a) = pa_base (pm_arena s a) \<and>
        pa_size (pm_arena s' a) = pa_size (pm_arena s a) \<and> pa_flags (pm_arena s' a) = pa_flags (pm_arena s a) \<and>
        pa_priority (pm_arena s' a) = pa_priority (pm_arena s a) \<and> length (pa_page_array (pm_arena s' a)) = length (pa_page_array (pm_arena s a)))"

lemma pmm_same_refl [simp]: "pmm_same s s"
  by (simp add: pmm_same_def)

lemma pmm_same_trans: "pmm_same s t \<Longrightarrow> pmm_same t u \<Longrightarrow> pmm_same s u"
  by (simp add: pmm_same_def)

lemma pmm_sameD:
  assumes "pmm_same s s'"
  shows "arenas s' = arenas s" "pm_arenas s' = pm_arenas s" "pa_base (pm_arena s' a) = pa_base (pm_arena s a)" "pa_size (pm_arena s' a) = pa_size (pm_arena s a)"
    "pa_flags (pm_arena s' a) = pa_flags (pm_arena s a)" "pa_priority (pm_arena s' a) = pa_priority (pm_arena s a)"
    "length (pa_page_array (pm_arena s' a)) = length (pa_page_array (pm_arena s a))"
  using assms by (simp_all add: pmm_same_def)

lemma pmm_same_valid: "pmm_same s s' \<Longrightarrow> page_valid s' p = page_valid s p"
  by (simp add: page_valid_def pmm_sameD)

lemma upd_arena_sel [simp]:
  "pm_arenas (upd_arena a f s) = pm_arenas s" "pm_lists (upd_arena a f s) = pm_lists s"
  "pm_arena (upd_arena a f s) = (pm_arena s)(a := f (pm_arena s a))"
  by (simp_all add: upd_arena_def)

lemma set_page_flags_sel [simp]:
  "pm_arenas (set_page_flags p f s) = pm_arenas s" "pm_lists (set_page_flags p f s) = pm_lists s"
  by (simp_all add: set_page_flags_def)

lemma pg_free_valid: "pg_free s p \<Longrightarrow> page_valid s p"
  by (simp add: pg_free_def page_valid_def)

text \<open>The one change that every operation is made of: the flags of one page, and where it is linked.\<close>

definition mark :: "vm_page \<Rightarrow> u8 \<Rightarrow> u32 \<Rightarrow> (pg_head, vm_page) lstore \<Rightarrow> pmm \<Rightarrow> pmm" where
  "mark p f k pl s = upd_arena (fst p) (\<lambda>ar. ar\<lparr>pa_free_count := pa_free_count ar + k\<rparr>) (set_page_flags p f (s\<lparr>pm_lists := pl\<rparr>))"

lemma mark_same: "pmm_same s (mark p f k pl s)"
  by (simp add: pmm_same_def mark_def set_page_flags_def)

lemma mark_free:
  assumes "page_valid s p"
  shows "pg_free (mark p f k pl s) q \<longleftrightarrow> (if q = p then page_is_free f else pg_free s q)"
proof -
  obtain a i where p: "p = (a, i)" by (cases p)
  obtain b j where q: "q = (b, j)" by (cases q)
  show ?thesis using assms by (auto simp: pg_free_def page_valid_def mark_def set_page_flags_def p q nth_list_update)
qed

lemma mark_lists: "pm_lists (mark p f k pl s) = pl"
  by (simp add: mark_def)


lemma mark_inv:
  assumes v: "pmm_inv s" and p: "page_valid s p" and l: "ls_ok pl" "\<And>a. a \<noteq> fst p \<Longrightarrow> lcont pl (Free_list a) = lcont (pm_lists s) (Free_list a)"
    and f: "set (lcont pl (Free_list (fst p))) = (if page_is_free f then insert p else (\<lambda>X. X - {p})) (set (lcont (pm_lists s) (Free_list (fst p))))"
    and k: "unat (pa_free_count (pm_arena s (fst p)) + k) = length (lcont pl (Free_list (fst p)))"
  shows "pmm_inv (mark p f k pl s)"
proof -
  let ?s = "mark p f k pl s"
  note same = mark_same[of s p f k pl]
  have "pmm_arena_ok (pm_arena ?s a) = pmm_arena_ok (pm_arena s a)" "arena_span (pm_arena ?s a) = arena_span (pm_arena s a)" for a
    using pmm_sameD[OF same] by (simp_all add: pmm_arena_ok_def arena_span_def)
  moreover have "set (lcont pl (Free_list a)) = {q. pg_free ?s q \<and> fst q = a}" for a
  proof (cases "a = fst p")
    case True
    then show ?thesis using f v mark_free[OF p, of f k pl] by (auto simp: pmm_inv_def)
  next
    case False
    then show ?thesis using l(2) v mark_free[OF p, of f k pl] by (auto simp: pmm_inv_def)
  qed
  moreover have "unat (pa_free_count (pm_arena ?s a)) = length (lcont pl (Free_list a))" if "a \<in> set (arenas s)" for a
    using that v k l(2)[of a] by (cases "a = fst p") (auto simp: mark_def set_page_flags_def pmm_inv_def)
  ultimately show ?thesis using v l(1) unfolding pmm_inv_def by (simp add: mark_lists pmm_sameD[OF same])
qed

lemma page_is_free_flags [simp]: "\<not> page_is_free (f OR 1)" "page_is_free (f AND NOT 1)" "page_is_free (f AND - 2)"
proof -
  have "bit ((f OR 1) AND 1 :: u8) 0" by (simp add: bit_or_iff bit_and_iff)
  then show "\<not> page_is_free (f OR 1)" by (auto simp: page_is_free_def)
  show n: "page_is_free (f AND NOT 1)" by (simp add: page_is_free_def and.assoc)
  then show "page_is_free (f AND - 2)" by simp
qed

section \<open>Taking pages\<close>

definition took :: "nat option \<Rightarrow> vm_page list \<Rightarrow> pmm \<Rightarrow> pmm \<Rightarrow> bool" where
  "took list ps s s' \<longleftrightarrow> pmm_inv s' \<and> pmm_same s s' \<and> distinct ps \<and> (\<forall>p \<in> set ps. pg_free s p) \<and> (\<forall>q. pg_free s' q \<longleftrightarrow> pg_free s q \<and> q \<notin> set ps) \<and>
     (\<forall>m. page_list s' m = page_list s m @ (if list = Some m then ps else [])) \<and>
     (\<forall>a. lcont (pm_lists s') (Free_list a) = filter (\<lambda>q. q \<notin> set ps) (lcont (pm_lists s) (Free_list a)))"

lemma took_refl: "pmm_inv s \<Longrightarrow> took list [] s s"
  by (simp add: took_def)

lemma took_trans: "took list ps s t \<Longrightarrow> took list qs t u \<Longrightarrow> took list (ps @ qs) s u"
  unfolding took_def by (auto intro: pmm_same_trans)

lemma tookD:
  assumes "took list ps s s'"
  shows "pmm_inv s'" "pmm_same s s'" "pg_free s' q \<longleftrightarrow> pg_free s q \<and> q \<notin> set ps" "page_list s' m = page_list s m @ (if list = Some m then ps else [])"
    "lcont (pm_lists s') (Free_list a) = filter (\<lambda>q. q \<notin> set ps) (lcont (pm_lists s) (Free_list a))"
  using assms unfolding took_def by blast+

lemma filter_ne: "x \<notin> set xs \<Longrightarrow> filter (\<lambda>q. q \<noteq> x) xs = xs"
  by (induction xs) auto

lemma take_page_ok:
  assumes v: "pmm_inv s" and p: "pg_free s p" "fst p = a"
  shows "\<exists>s'. take_page a p list s = Some s' \<and> took list [p] s s'"
proof -
  have lo: "ls_ok (pm_lists s)" and fl: "set (lcont (pm_lists s) (Free_list a)) = {q. pg_free s q \<and> fst q = a}" using v by (simp_all add: pmm_inv_def)
  have pin: "p \<in> set (lcont (pm_lists s) (Free_list a))" using p fl by simp
  obtain ys zs where sp: "lcont (pm_lists s) (Free_list a) = ys @ p # zs" using pin by (meson split_list)
  note ds = ls_ok_split[OF lo sp]
  from ls.del_law[OF lo sp] obtain l1 where l1: "ls_delete p (pm_lists s) = Some l1" "ls_ok l1" "lcont l1 = (lcont (pm_lists s))(Free_list a := ys @ zs)" by blast
  have "p \<notin> set (lcont l1 h)" for h using l1(3) ds ls_ok_mem[OF lo, of p h] by (auto split: if_splits)
  then have nl: "\<not> ls_in_list p l1" using ls.linked_iff[OF l1(2)] by simp
  obtain l2 where l2: "(case list of None \<Rightarrow> Some l1 | Some l \<Rightarrow> ls_add_tail (Page_list l) p l1) = Some l2" "ls_ok l2"
    "\<And>b. lcont l2 (Free_list b) = lcont l1 (Free_list b)" "\<And>m. lcont l2 (Page_list m) = lcont l1 (Page_list m) @ (if list = Some m then [p] else [])"
  proof (cases list)
    case None then show ?thesis using that l1(2) by auto
  next
    case (Some l)
    from ls.add_tail_law[OF l1(2) _ _ nl, of "Page_list l"] obtain l2 where "ls_add_tail (Page_list l) p l1 = Some l2" "ls_ok l2"
      "lcont l2 = (lcont l1)(Page_list l := lcont l1 (Page_list l) @ [p])" by auto
    then show ?thesis using that Some by auto
  qed
  have pv: "page_valid s p" by (rule pg_free_valid[OF p(1)])
  have fl': "filter (\<lambda>q. q \<noteq> p) (lcont (pm_lists s) (Free_list b)) = lcont l2 (Free_list b)" for b
  proof (cases "b = a")
    case True
    then show ?thesis using sp ds l1(3) l2(3) by (simp add: filter_ne)
  next
    case False
    then have "p \<notin> set (lcont (pm_lists s) (Free_list b))" using ls_ok_mem[OF lo] ds(1) by simp
    then show ?thesis using False l1(3) l2(3) by (simp add: filter_ne)
  qed
  obtain f where f: "page_flags p s = Some f" using pv by (auto simp: page_flags_def page_valid_def Let_def)
  let ?s = "mark p (f OR 1) (- 1) l2 s"
  have t: "take_page a p list s = Some ?s" using l1(1) f l2(1) p(2) by (simp add: take_page_def mark_def)
  have aa: "a \<in> set (arenas s)" using p by (auto simp: pg_free_def)
  then have "unat (pa_free_count (pm_arena s a)) = length (ys @ p # zs)" using v sp by (simp add: pmm_inv_def)
  then have "unat (pa_free_count (pm_arena s a) - 1) = length (ys @ zs)" by (simp add: unat32_sub)
  then have inv: "pmm_inv ?s" using l2 l1(3) sp ds p(2) by (intro mark_inv[OF v pv]) auto
  have "pg_free ?s q \<longleftrightarrow> pg_free s q \<and> q \<notin> {p}" for q using mark_free[OF pv] by simp
  then show ?thesis using t inv mark_same fl' l2(4) l1(3) p(1) unfolding took_def by (auto simp: mark_lists)
qed

lemma alloc_arena_loop_ok:
  assumes "pmm_inv s" "a \<in> set (arenas s)"
  defines "fl \<equiv> lcont (pm_lists s) (Free_list a)"
  shows "\<exists>s'. alloc_arena_loop a l n s = Some (length fl < n, n - length fl, s') \<and> took (Some l) (take n fl) s s'"
  using assms(1,2) unfolding fl_def
proof (induction n arbitrary: s)
  case 0
  then show ?case by (simp add: took_refl)
next
  case (Suc n)
  show ?case
  proof (cases "lcont (pm_lists s) (Free_list a)")
    case Nil
    then show ?thesis using Suc.prems by (simp add: ls_peek_head_def took_refl)
  next
    case (Cons p ps)
    have "p \<in> {q. pg_free s q \<and> fst q = a}" using Suc.prems(1) Cons unfolding pmm_inv_def by (metis list.set_intros(1))
    then have p: "pg_free s p" "fst p = a" by simp_all
    have d: "distinct (p # ps)" using Suc.prems(1) ls_ok_distinct[of "pm_lists s" "Free_list a"] Cons by (simp add: pmm_inv_def)
    from take_page_ok[OF Suc.prems(1) p] obtain t where t: "take_page a p (Some l) s = Some t" "took (Some l) [p] s t" by blast
    have ft: "lcont (pm_lists t) (Free_list a) = ps" using tookD(5)[OF t(2), of a] Cons d by (simp add: filter_ne)
    from Suc.IH[of t] tookD[OF t(2)] Suc.prems(2) pmm_sameD(1)[OF tookD(2)[OF t(2)]] ft obtain s' where
      s': "alloc_arena_loop a l n t = Some (length ps < n, n - length ps, s')" "took (Some l) (take n ps) t s'" by auto
    show ?thesis using Cons t(1) s'(1) took_trans[OF t(2) s'(2)] by (simp add: ls_peek_head_def)
  qed
qed

lemma alloc_walk_0: "alloc_walk l as 0 s = Some (0, s)"
  by (induction as) simp_all

text \<open>\<open>pmm_alloc_pages\<close> takes pages from the first arena only.\<close>

lemma pmm_alloc_pages_ok:
  assumes "pmm_inv s"
  defines "fl \<equiv> (case arenas s of [] \<Rightarrow> [] | a # as \<Rightarrow> lcont (pm_lists s) (Free_list a))"
  shows "\<exists>s'. pmm_alloc_pages count l s = Some (of_nat (min (unat count) (length fl)), s') \<and> took (Some l) (take (unat count) fl) s s'"
proof (cases "count = 0")
  case True
  then show ?thesis using assms(1) by (simp add: pmm_alloc_pages_def took_refl)
next
  case False
  show ?thesis
  proof (cases "arenas s")
    case Nil
    then show ?thesis using assms(1) False by (simp add: pmm_alloc_pages_def took_refl fl_def)
  next
    case (Cons a as)
    have f: "fl = lcont (pm_lists s) (Free_list a)" by (simp add: fl_def Cons)
    from alloc_arena_loop_ok[OF assms(1), of a l "unat count"] Cons obtain s' where
      s': "alloc_arena_loop a l (unat count) s = Some (length fl < unat count, unat count - length fl, s')" "took (Some l) (take (unat count) fl) s s'" by (auto simp: f)
    have "count - of_nat (unat count - length fl) = of_nat (min (unat count) (length fl))"
    proof (cases "length fl \<le> unat count")
      case True
      then have "of_nat (unat count - length fl) = count - of_nat (length fl)" by (simp add: of_nat_diff)
      then show ?thesis using True by (simp add: min_absorb2)
    qed (simp add: min_absorb1)
    then show ?thesis using False Cons s' by (auto simp: pmm_alloc_pages_def alloc_walk_0)
  qed
qed

section \<open>Giving pages back\<close>

lemma arena_pages:
  assumes "pmm_inv s" "a \<in> set (arenas s)"
  shows "unat (pa_size (pm_arena s a) div 4096) = length (pa_page_array (pm_arena s a))"
proof -
  have "unat (pa_size (pm_arena s a) div 4096) = unat (pa_size (pm_arena s a)) div 4096" by (simp add: unat_div_distrib)
  then show ?thesis using assms by (simp add: pmm_inv_def pmm_arena_ok_def)
qed

lemma find_owner:
  assumes "pmm_inv s" "page_valid s p"
  shows "List.find (PAGE_BELONGS_TO_ARENA p s) (arenas s) = Some (fst p)"
proof -
  have p: "fst p \<in> set (arenas s)" "PAGE_BELONGS_TO_ARENA p s (fst p)" using assms arena_pages[OF assms(1)] by (auto simp: page_valid_def PAGE_BELONGS_TO_ARENA_def)
  then have "List.find (PAGE_BELONGS_TO_ARENA p s) (arenas s) \<noteq> None" by (auto simp: find_None_iff)
  then obtain a where a: "List.find (PAGE_BELONGS_TO_ARENA p s) (arenas s) = Some a" by blast
  then have "a = fst p" by (auto simp: find_Some_iff PAGE_BELONGS_TO_ARENA_def)
  with a show ?thesis by simp
qed

definition gave :: "nat \<Rightarrow> vm_page set \<Rightarrow> pmm \<Rightarrow> pmm \<Rightarrow> bool" where
  "gave l P s s' \<longleftrightarrow> pmm_inv s' \<and> pmm_same s s' \<and> (\<forall>q. pg_free s' q \<longleftrightarrow> pg_free s q \<or> q \<in> P) \<and> page_list s' l = [] \<and>
     (\<forall>m. m \<noteq> l \<longrightarrow> page_list s' m = page_list s m)"

lemma pmm_free_loop_ok:
  assumes "pmm_inv s" "page_list s l = ps" "\<And>p. p \<in> set ps \<Longrightarrow> page_valid s p \<and> \<not> pg_free s p"
  shows "\<exists>s'. pmm_free_loop (length ps) l c s = Some (c + of_nat (length ps), s') \<and> gave l (set ps) s s'"
  using assms
proof (induction ps arbitrary: s c)
  case Nil
  then show ?case by (simp add: gave_def)
next
  case (Cons p ps)
  have lo: "ls_ok (pm_lists s)" using Cons.prems(1) by (simp add: pmm_inv_def)
  have sp: "lcont (pm_lists s) (Page_list l) = [] @ p # ps" using Cons.prems(2) by simp
  note ds = ls_ok_split[OF lo sp]
  from ls.del_law[OF lo sp] obtain l1 where l1: "ls_delete p (pm_lists s) = Some l1" "ls_ok l1" "lcont l1 = (lcont (pm_lists s))(Page_list l := ps)" by auto
  have "p \<notin> set (lcont l1 h)" for h using l1(3) ds ls_ok_mem[OF lo, of p h] by (auto split: if_splits)
  then have nl: "\<not> ls_in_list p l1" using ls.linked_iff[OF l1(2)] by simp
  from ls.add_head_law[OF l1(2) _ _ nl, of "Free_list (fst p)"] obtain l2 where l2: "ls_add_head (Free_list (fst p)) p l1 = Some l2" "ls_ok l2"
    "lcont l2 = (lcont l1)(Free_list (fst p) := p # lcont l1 (Free_list (fst p)))" by auto
  have pv: "page_valid s p" and pf: "\<not> pg_free s p" using Cons.prems(3) by auto
  obtain f where f: "page_flags p s = Some f" "\<not> page_is_free f" using pv pf by (auto simp: page_flags_def page_valid_def pg_free_def Let_def)
  define t where "t = mark p (f AND NOT 1) 1 l2 s"
  have e: "pmm_free_loop (length (p # ps)) l c s = pmm_free_loop (length ps) l (c + 1) t"
    using sp l1(1) nl f find_owner[OF Cons.prems(1) pv] l2(1) by (simp add: ls_remove_head_def ls_peek_head_def t_def mark_def)
  have "fst p \<in> set (arenas s)" using pv by (simp add: page_valid_def)
  then have cnt: "unat (pa_free_count (pm_arena s (fst p))) = length (lcont (pm_lists s) (Free_list (fst p)))"
    and fs: "set (lcont (pm_lists s) (Free_list (fst p))) = {q. pg_free s q \<and> fst q = fst p}"
    and dist: "distinct (lcont (pm_lists s) (Free_list (fst p)))"
    and ap: "length (pa_page_array (pm_arena s (fst p))) \<le> 2 ^ 20" using Cons.prems(1) ls_ok_distinct[OF lo]
    by (auto simp: pmm_inv_def pmm_arena_ok_def)
  have "card (set (lcont (pm_lists s) (Free_list (fst p)))) \<le> card ({fst p} \<times> {..<length (pa_page_array (pm_arena s (fst p)))})"
    unfolding fs by (rule card_mono) (auto simp: pg_free_def)
  then have "length (lcont (pm_lists s) (Free_list (fst p))) \<le> 2 ^ 20" using dist ap by (simp add: distinct_card)
  then have "unat (pa_free_count (pm_arena s (fst p)) + 1) = length (lcont l2 (Free_list (fst p)))" using cnt l2(3) l1(3) by (simp add: unat_plus_if')
  then have inv: "pmm_inv t" unfolding t_def using l2 l1(3) by (intro mark_inv[OF Cons.prems(1) pv]) auto
  have same: "pmm_same s t" unfolding t_def by (rule mark_same)
  have fr: "pg_free t q \<longleftrightarrow> q = p \<or> pg_free s q" for q using mark_free[OF pv, of "f AND NOT 1" 1 l2 q] by (simp add: t_def)
  have "page_list t l = ps" using l2(3) l1(3) by (simp add: t_def mark_lists)
  moreover have "page_valid t q \<and> \<not> pg_free t q" if "q \<in> set ps" for q
    using Cons.prems(3)[of q] that fr ds(3) pmm_same_valid[OF same] by auto
  ultimately obtain s' where s': "pmm_free_loop (length ps) l (c + 1) t = Some (c + 1 + of_nat (length ps), s')" "gave l (set ps) t s'"
    using Cons.IH[OF inv] by blast
  have "gave l (set (p # ps)) s s'"
    using s'(2) fr same l2(3) l1(3) unfolding gave_def by (auto intro: pmm_same_trans simp: t_def mark_lists)
  then show ?case using e s'(1) by (auto simp: add.assoc)
qed

lemma pmm_free_ok:
  assumes "pmm_inv s" "\<And>p. p \<in> set (page_list s l) \<Longrightarrow> page_valid s p \<and> \<not> pg_free s p"
  shows "\<exists>s'. pmm_free l s = Some (of_nat (length (page_list s l)), s') \<and> gave l (set (page_list s l)) s s'"
  using pmm_free_loop_ok[OF assms(1) refl assms(2), of l 0] by (simp add: pmm_free_def)

text \<open>Pages that have just been taken into an empty list can be given back.\<close>

lemma took_gave:
  assumes "pmm_inv s" "page_list s l = []" "took (Some l) ps s t"
  shows "\<exists>s'. pmm_free l t = Some (of_nat (length ps), s') \<and> pmm_inv s' \<and> pmm_same s s' \<and> (\<forall>q. pg_free s' q = pg_free s q) \<and>
    (\<forall>m. page_list s' m = page_list s m)"
proof -
  have ps: "page_list t l = ps" "\<And>m. m \<noteq> l \<Longrightarrow> page_list t m = page_list s m" using tookD(4)[OF assms(3)] assms(2) by auto
  have "page_valid t p \<and> \<not> pg_free t p" if "p \<in> set ps" for p
    using assms(3) that pg_free_valid pmm_same_valid[OF tookD(2)[OF assms(3)]] unfolding took_def by blast
  with pmm_free_ok[OF tookD(1)[OF assms(3)], of l] ps obtain s' where s': "pmm_free l t = Some (of_nat (length ps), s')" "gave l (set ps) t s'" by auto
  have "pg_free s' q = pg_free s q" for q using s'(2) assms(3) unfolding gave_def took_def by blast
  moreover have "page_list s' m = page_list s m" for m using s'(2) ps assms(2) by (cases "m = l") (auto simp: gave_def)
  ultimately show ?thesis using s' pmm_same_trans[OF tookD(2)[OF assms(3)]] by (auto simp: gave_def)
qed

section \<open>Contiguous runs\<close>

lemma run_broken_spec:
  assumes "st + i + k \<le> length fl"
  shows "\<exists>r. run_broken fl st i k = Some r \<and>
    (case r of None \<Rightarrow> \<forall>j. i \<le> j \<and> j < i + k \<longrightarrow> page_is_free (fl ! (st + j))
     | Some m \<Rightarrow> i \<le> m \<and> m < i + k \<and> \<not> page_is_free (fl ! (st + m)))"
  using assms
proof (induction k arbitrary: i)
  case 0
  then show ?case by auto
next
  case (Suc k)
  have b: "st + i < length fl" using Suc.prems by simp
  show ?case
  proof (cases "page_is_free (fl ! (st + i))")
    case True
    from Suc.IH[of "Suc i"] Suc.prems obtain r where r: "run_broken fl st (Suc i) k = Some r"
      "case r of None \<Rightarrow> \<forall>j. Suc i \<le> j \<and> j < Suc i + k \<longrightarrow> page_is_free (fl ! (st + j)) | Some m \<Rightarrow> Suc i \<le> m \<and> m < Suc i + k \<and> \<not> page_is_free (fl ! (st + m))" by auto
    have "page_is_free (fl ! (st + j))" if "r = None" "i \<le> j" "j < i + Suc k" for j
      using r(2) that True by (cases "j = i") auto
    then show ?thesis using r b True by (cases r) auto
  next
    case False
    then show ?thesis using b by simp
  qed
qed

lemma roundup_next:
  fixes x e :: nat
  assumes "e dvd a" "x < a" "0 < e"
  shows "(x + 1 + (e - 1)) div e * e \<le> a"
proof -
  obtain m where m: "a = m * e" using assms(1) by (metis dvd_def mult.commute)
  have "x div e < m" using assms(2) m by (simp add: div_less_iff_less_mult assms(3))
  moreover have "(x + 1 + (e - 1)) div e = x div e + 1" using assms(3) div_add_self2[of e x] by simp
  ultimately show ?thesis using m by (simp del: mult_Suc)
qed

definition run_free :: "u8 list \<Rightarrow> nat \<Rightarrow> nat \<Rightarrow> bool" where
  "run_free fl count st \<longleftrightarrow> st + count \<le> length fl \<and> (\<forall>j < count. page_is_free (fl ! (st + j)))"

lemma contig_search_ok:
  fixes pages count al off start :: u32
  assumes "unat pages = length fl" "length fl \<le> 2 ^ 20" "unat al = 2 ^ e" "e \<le> 19" "0 < unat count" "unat count < 2 ^ 31"
    and "unat off \<le> unat start" "2 ^ e dvd unat start - unat off" "unat start \<le> 2 ^ 22"
  shows "\<exists>r. contig_search fl pages count al off start = Some r \<and>
    (case r of None \<Rightarrow> \<forall>st. unat start \<le> st \<and> 2 ^ e dvd st - unat off \<longrightarrow> \<not> run_free fl (unat count) st
     | Some st \<Rightarrow> unat off \<le> unat st \<and> 2 ^ e dvd unat st - unat off \<and> run_free fl (unat count) (unat st))"
  using assms(7-9)
proof (induction "length fl - unat start" arbitrary: start rule: less_induct)
  case less
  have sc: "unat (start + count) = unat start + unat count" using less.prems(3) assms(6) by (simp add: unat_plus_if')
  show ?case
  proof (cases "start < pages \<and> start + count \<le> pages")
    case False
    then have "unat start + unat count > length fl" using assms(1,5) sc by (auto simp: word_less_nat_alt word_le_nat_alt)
    then have "\<not> run_free fl (unat count) st" if "unat start \<le> st" for st using that by (auto simp: run_free_def)
    then show ?thesis using False by (subst contig_search.simps) auto
  next
    case True
    then have lt: "unat start < length fl" "unat start + unat count \<le> length fl" using assms(1) sc by (simp_all add: word_less_nat_alt word_le_nat_alt)
    from run_broken_spec[of "unat start" 0 "unat count" fl] lt(2) obtain q where q: "run_broken fl (unat start) 0 (unat count) = Some q"
      "case q of None \<Rightarrow> \<forall>j. 0 \<le> j \<and> j < 0 + unat count \<longrightarrow> page_is_free (fl ! (unat start + j))
       | Some m \<Rightarrow> 0 \<le> m \<and> m < 0 + unat count \<and> \<not> page_is_free (fl ! (unat start + m))" by auto
    show ?thesis
    proof (cases q)
      case None
      then have "run_free fl (unat count) (unat start)" using q(2) lt by (simp add: run_free_def)
      then show ?thesis using True q(1) None less.prems by (subst contig_search.simps) simp
    next
      case (Some m)
      have m: "m < unat count" "\<not> page_is_free (fl ! (unat start + m))" using q(2) Some by simp_all
      define x where "x = start - off + of_nat m"
      have ml: "unat start + m < 2 ^ 20" using m(1) lt(2) assms(2) by simp
      have "unat (of_nat m :: u32) = m" using ml by (simp add: unat_of_nat)
      then have ux: "unat x = unat start - unat off + m" using less.prems(1) ml by (simp add: x_def unat_plus_if' unat32_sub)
      have ux1: "unat (x + 1) = unat x + 1" using ux ml by (simp add: unat_plus_if')
      have e2: "(2::nat) ^ e \<le> 2 ^ 19" by (rule power_increasing) (use assms(4) in simp_all)
      define z where "z = ROUNDUP (x + 1) al + off"
      have ur: "unat (ROUNDUP (x + 1) al) = (unat x + 1 + (2 ^ e - 1)) div 2 ^ e * 2 ^ e"
        using unat_ROUNDUP[OF assms(3), of "x + 1"] ux1 ux ml e2 assms(3) by simp
      have rb: "unat x + 1 \<le> unat (ROUNDUP (x + 1) al)" "unat (ROUNDUP (x + 1) al) < unat x + 1 + 2 ^ e" "2 ^ e dvd unat (ROUNDUP (x + 1) al)"
        unfolding ur by (rule roundup_bounds, simp)+
      have xo: "unat x + unat off = unat start + m" using ux less.prems(1) by simp
      have "(2::nat) ^ e \<le> 524288" "unat start + m < 1048576" using e2 ml by simp_all
      then have "unat (ROUNDUP (x + 1) al) + unat off < 4194304" using rb(2) xo by linarith
      then have sm: "unat (ROUNDUP (x + 1) al) + unat off < 2 ^ 22" by simp
      then have uz: "unat z = unat (ROUNDUP (x + 1) al) + unat off" by (simp add: z_def unat_plus_if')
      have nx: "unat start < unat z" "unat off \<le> unat z" "2 ^ e dvd unat z - unat off" "unat z \<le> 2 ^ 22"
        using uz rb xo sm by simp_all
      have "length fl - unat z < length fl - unat start" using nx(1) lt(1) by simp
      from less.hyps[OF this nx(2-4)] obtain r where r: "contig_search fl pages count al off z = Some r"
        "case r of None \<Rightarrow> \<forall>st. unat z \<le> st \<and> 2 ^ e dvd st - unat off \<longrightarrow> \<not> run_free fl (unat count) st
         | Some st \<Rightarrow> unat off \<le> unat st \<and> 2 ^ e dvd unat st - unat off \<and> run_free fl (unat count) (unat st)" by blast
      have eq: "contig_search fl pages count al off start = Some r"
        using True q(1) Some r(1) by (subst contig_search.simps) (simp add: z_def x_def add.assoc)
      have "\<not> run_free fl (unat count) st" if "r = None" "unat start \<le> st" "2 ^ e dvd st - unat off" for st
      proof (cases "st \<le> unat start + m")
        case True
        then have "unat start + m = st + (unat start + m - st)" "unat start + m - st < unat count" using that(2) m(1) by simp_all
        then show ?thesis using m(2) unfolding run_free_def by metis
      next
        case False
        then have "unat x < st - unat off" using ux less.prems(1) by simp
        from roundup_next[OF that(3) this] have "unat z \<le> st" using uz ur that(2) less.prems(1) by simp
        then show ?thesis using r(2) that by simp
      qed
      then show ?thesis using eq r(2) by (cases r) auto
    qed
  qed
qed

lemma roundup_least:
  fixes x e :: nat
  assumes "e dvd a" "x \<le> a" "0 < e"
  shows "(x + (e - 1)) div e * e \<le> a"
proof -
  obtain m where m: "a = m * e" using assms(1) by (metis dvd_def mult.commute)
  have "(x + (e - 1)) div e \<le> (m * e + (e - 1)) div e" using assms(2) m by (intro div_le_mono) simp
  also have "\<dots> = m" using assms(3) div_mult_self3[of e m "e - 1"] by (metis add_cancel_left_right add.commute diff_less div_less div_mult_self3 less_numeral_extra(1) not_gr0)
  finally show ?thesis unfolding m by (rule mult_le_mono1)
qed

lemma unat_push_bit1: "al < 32 \<Longrightarrow> unat (push_bit al 1 :: u32) = 2 ^ al"
proof -
  assume "al < 32"
  then have "(2::nat) ^ al < 2 ^ 32" by (rule power_strict_increasing) simp
  moreover have "(push_bit al 1 :: u32) = of_nat (2 ^ al)" by (simp add: push_bit_eq_mult)
  ultimately show ?thesis by (simp only: unat_of_nat) simp
qed

lemma roundup_wraps:
  fixes a b :: u32
  assumes "unat b = 2 ^ k" "unat a + 2 ^ k > 2 ^ 32"
  shows "ROUNDUP a b = 0"
proof -
  have "b \<noteq> 0" using assms(1) by auto
  then have b1: "unat (b - 1) = 2 ^ k - 1" using assms(1) unat_minus_1 by simp
  have "unat (a + (b - 1)) = unat a + (2 ^ k - 1) - 2 ^ 32" 
  proof -
    have "\<not> unat a + unat (b - 1) < 2 ^ 32" using assms(2) b1 by simp
    then show ?thesis using b1 by (simp add: unat_plus_if')
  qed
  then have "unat (a + (b - 1)) < 2 ^ k" using unat32_lt[of a] zero_less_power[of "2::nat" k] by linarith
  then have "unat (ROUNDUP a b) = 0" unfolding ROUNDUP_ROUNDDOWN by (simp add: unat_ROUNDDOWN[OF assms(1)])
  then show ?thesis by (simp only: unat_eq_0)
qed

lemma unat_last:
  fixes b n :: u32
  assumes "unat b + unat n \<le> 2 ^ 32" "0 < unat n"
  shows "unat (b + n - 1) = unat b + unat n - 1"
proof (cases "unat b + unat n = 2 ^ 32")
  case True
  then have "b + n = 0" by (simp add: unat_eq_0[symmetric] unat_plus_if' unat32_lt)
  moreover have "unat (- 1 :: u32) = 2 ^ 32 - 1" using unat32_sub[of 0 1] by simp
  ultimately show ?thesis using True by simp
next
  case False
  then have "unat (b + n) = unat b + unat n" using assms by (simp add: unat_plus_if')
  then show ?thesis using assms by (simp add: unat32_sub)
qed

lemma arena_last:
  assumes "pmm_arena_ok ar"
  shows "unat (pa_base ar + pa_size ar - 1) = unat (pa_base ar) + unat (pa_size ar) - 1"
  using unat_last[of "pa_base ar" "pa_size ar"] assms by (simp add: pmm_arena_ok_def)

text \<open>The pages of an arena that lie on a boundary.\<close>

definition aligned_page :: "pmm_arena \<Rightarrow> nat \<Rightarrow> nat \<Rightarrow> bool" where
  "aligned_page ar al i \<longleftrightarrow> 2 ^ al dvd unat (pa_base ar) + i * 4096"

lemma rounded_base:
  assumes ok: "pmm_arena_ok ar" and al: "12 \<le> al" "al < 32"
  defines "R \<equiv> ROUNDUP (pa_base ar) (push_bit al 1)"
  shows "if R < pa_base ar \<or> R > pa_base ar + pa_size ar - 1 then \<forall>i < length (pa_page_array ar). \<not> aligned_page ar al i
    else unat ((R - pa_base ar) div 4096) < length (pa_page_array ar) \<and>
      (\<forall>i. aligned_page ar al i \<longleftrightarrow> unat ((R - pa_base ar) div 4096) \<le> i \<and> 2 ^ (al - 12) dvd i - unat ((R - pa_base ar) div 4096))"
proof -
  let ?b = "unat (pa_base ar)" let ?sz = "unat (pa_size ar)" let ?e = "(2::nat) ^ al"
  have A: "4096 dvd ?b" "4096 dvd ?sz" "0 < ?sz" "?b + ?sz \<le> 2 ^ 32" "length (pa_page_array ar) = ?sz div 4096" using ok by (auto simp: pmm_arena_ok_def)
  have pb: "unat (push_bit al 1 :: u32) = ?e" by (rule unat_push_bit1[OF al(2)])
  have e12: "?e = 4096 * 2 ^ (al - 12)" using al(1) power_add[of "2::nat" 12 "al - 12"] by simp
  have in_arena: "?b + i * 4096 < ?b + ?sz" if "i < length (pa_page_array ar)" for i
    using that A(2,5) by (metis add_less_cancel_left dvd_div_mult_self mult_less_cancel2 zero_less_numeral)
  note en = arena_last[OF ok]
  show ?thesis
  proof (cases "?b + ?e \<le> 2 ^ 32")
    case False
    then have R0: "R = 0" unfolding R_def using roundup_wraps[OF pb] by simp
    have "?b \<noteq> 0" using False al(2) power_increasing[of al 31 "2::nat"] by (intro notI) simp
    then have "R < pa_base ar" using R0 by (simp add: word_less_nat_alt)
    moreover have "\<not> aligned_page ar al i" if i: "i < length (pa_page_array ar)" for i
    proof
      assume "aligned_page ar al i"
      then obtain m where m: "?b + i * 4096 = m * ?e" by (auto simp: aligned_page_def dvd_def mult.commute)
      have p32: "(2::nat) ^ 32 = 2 ^ (32 - al) * ?e" using al(2) by (simp flip: power_add)
      have "m * ?e < 2 ^ (32 - al) * ?e" using m in_arena[OF i] A(4) p32 by linarith
      then have "m + 1 \<le> 2 ^ (32 - al)" by simp
      then have "(m + 1) * ?e \<le> 2 ^ 32" unfolding p32 by (rule mult_le_mono1)
      then show False using m False by simp
    qed
    ultimately show ?thesis by simp
  next
    case True
    then have uR: "unat R = (?b + (?e - 1)) div ?e * ?e" unfolding R_def by (rule unat_ROUNDUP[OF pb, unfolded pb])
    have rb: "?b \<le> unat R" "?e dvd unat R" unfolding uR by (rule roundup_bounds, simp)+
    have ge: "\<not> R < pa_base ar" using rb(1) by (simp add: word_less_nat_alt)
    have least: "unat R \<le> ?b + i * 4096" if "aligned_page ar al i" for i
      unfolding uR using that by (intro roundup_least) (simp_all add: aligned_page_def)
    show ?thesis
    proof (cases "R > pa_base ar + pa_size ar - 1")
      case True
      then have "?b + ?sz \<le> unat R" using en A(3) by (simp add: word_less_nat_alt)
      then have "\<forall>i < length (pa_page_array ar). \<not> aligned_page ar al i" using least in_arena by fastforce
      then show ?thesis using True by simp
    next
      case False
      define off where "off = unat ((R - pa_base ar) div 4096)"
      have d: "4096 dvd unat R" using rb(2) e12 by (metis dvd_mult_left)
      have o: "unat R = ?b + off * 4096"
        using rb(1) dvd_diff_nat[OF d A(1)] by (simp add: off_def unat_div_distrib unat32_sub)
      have "unat R < ?b + ?sz" using False en A(3) by (simp add: word_less_nat_alt)
      then have "off * 4096 < ?sz div 4096 * 4096" using o dvd_div_mult_self[OF A(2)] by simp
      then have ol: "off < length (pa_page_array ar)" unfolding A(5) by (simp only: mult_less_cancel2)
      have "aligned_page ar al i \<longleftrightarrow> off \<le> i \<and> 2 ^ (al - 12) dvd i - off" for i
      proof (cases "off \<le> i")
        case True
        then have "?b + i * 4096 = unat R + 4096 * (i - off)" using o by (simp add: algebra_simps)
        then have "aligned_page ar al i \<longleftrightarrow> ?e dvd 4096 * (i - off)" unfolding aligned_page_def using dvd_add_right_iff[OF rb(2)] by simp
        then show ?thesis using True unfolding e12 by simp
      next
        case False
        then show ?thesis using least[of i] o by auto
      qed
      then show ?thesis using ge False ol by (simp add: off_def)
    qed
  qed
qed

lemma take_run_ok:
  assumes "pmm_inv s" "distinct is" "\<And>i. i \<in> set is \<Longrightarrow> pg_free s (a, i)"
  shows "\<exists>s'. take_run a list is s = Some s' \<and> took list (map (Pair a) is) s s'"
  using assms
proof (induction "is" arbitrary: s)
  case Nil
  then show ?case by (simp add: took_refl)
next
  case (Cons i "is")
  have f: "pg_free s (a, i)" using Cons.prems(3) by simp
  from take_page_ok[OF Cons.prems(1) f, of a list] obtain t where t: "take_page a (a, i) list s = Some t" "took list [(a, i)] s t" by auto
  have "pg_free t (a, j)" if "j \<in> set is" for j using tookD(3)[OF t(2)] Cons.prems that by auto
  with Cons.IH[OF tookD(1)[OF t(2)]] Cons.prems(2) obtain s' where s': "take_run a list is t = Some s'" "took list (map (Pair a) is) t s'" by auto
  have "(a, i) \<in> set (lcont (pm_lists s) (Free_list a))" using f Cons.prems(1) by (simp add: pmm_inv_def)
  then have "ls_in_list (a, i) (pm_lists s)" using ls.linked_iff[of "pm_lists s"] Cons.prems(1) unfolding pmm_inv_def by blast
  moreover have "page_flags (a, i) s = Some (pa_page_array (pm_arena s a) ! i)" "page_is_free (pa_page_array (pm_arena s a) ! i)"
    using f by (simp_all add: page_flags_def pg_free_def Let_def)
  ultimately show ?case using t(1) s'(1) took_trans[OF t(2) s'(2)] by simp
qed

text \<open>A run of free pages on the boundary that was asked for, in an arena that the kernel has mapped.\<close>

definition kmap_run :: "pmm \<Rightarrow> nat \<Rightarrow> nat \<Rightarrow> nat \<Rightarrow> nat \<Rightarrow> bool" where
  "kmap_run s al count a i \<longleftrightarrow> a \<in> set (arenas s) \<and> pa_flags (pm_arena s a) AND 1 \<noteq> 0 \<and> aligned_page (pm_arena s a) al i \<and>
     run_free (pa_page_array (pm_arena s a)) count i"

lemma contig_walk_ok:
  fixes count :: u32
  assumes "pmm_inv s" "12 \<le> al" "al < 32" "0 < unat count" "unat count < 2 ^ 31" "set as \<subseteq> set (arenas s)"
  shows "if \<exists>a \<in> set as. \<exists>i. kmap_run s al (unat count) a i
    then \<exists>a i s'. kmap_run s al (unat count) a i \<and>
      contig_walk count al list as s = Some (count, Some (pa_base (pm_arena s a) + of_nat i * 4096), s') \<and> took list (map (Pair a) [i..<i + unat count]) s s'
    else contig_walk count al list as s = Some (0, None, s)"
  using assms(6)
proof (induction as)
  case Nil
  then show ?case by simp
next
  case (Cons a as)
  let ?ar = "pm_arena s a" let ?fl = "pa_page_array ?ar" let ?R = "ROUNDUP (pa_base ?ar) (push_bit al 1)"
  have aa: "a \<in> set (arenas s)" and ok: "pmm_arena_ok ?ar" using Cons.prems assms(1) by (auto simp: pmm_inv_def)
  have IH: "if \<exists>a \<in> set as. \<exists>i. kmap_run s al (unat count) a i
    then \<exists>a i s'. kmap_run s al (unat count) a i \<and>
      contig_walk count al list as s = Some (count, Some (pa_base (pm_arena s a) + of_nat i * 4096), s') \<and> took list (map (Pair a) [i..<i + unat count]) s s'
    else contig_walk count al list as s = Some (0, None, s)" using Cons by simp
  have pages: "unat (pa_size ?ar div 4096) = length ?fl" by (rule arena_pages[OF assms(1) aa])
  have small: "length ?fl \<le> 2 ^ 20" using ok by (auto simp: pmm_arena_ok_def)
  note rb = rounded_base[OF ok assms(2,3)]
  have skip: ?case if nr: "\<nexists>i. kmap_run s al (unat count) a i" and e: "contig_walk count al list (a # as) s = contig_walk count al list as s"
  proof -
    have "(\<exists>b \<in> set (a # as). \<exists>i. kmap_run s al (unat count) b i) \<longleftrightarrow> (\<exists>b \<in> set as. \<exists>i. kmap_run s al (unat count) b i)" using nr by auto
    then show ?thesis unfolding e by (simp only:) (rule IH)
  qed
  show ?case
  proof (cases "pa_flags ?ar AND 1 \<noteq> 0 \<and> \<not> (?R < pa_base ?ar \<or> ?R > pa_base ?ar + pa_size ?ar - 1)")
    case False
    then have "\<nexists>i. kmap_run s al (unat count) a i" using rb assms(4) by (auto simp: kmap_run_def run_free_def split: if_splits)
    then show ?thesis by (rule skip) (use False in \<open>auto simp: Let_def\<close>)
  next
    case True
    define off where "off = (?R - pa_base ?ar) div 4096"
    have al: "aligned_page ?ar al i \<longleftrightarrow> unat off \<le> i \<and> 2 ^ (al - 12) dvd i - unat off" for i using rb True by (simp add: off_def)
    have ol: "unat off < length ?fl" using rb True by (simp add: off_def)
    have pe: "unat (push_bit (al - 12) 1 :: u32) = 2 ^ (al - 12)" by (rule unat_push_bit1) (use assms(3) in simp)
    have a19: "al - 12 \<le> 19" and o22: "unat off \<le> 2 ^ 22" and o0: "2 ^ (al - 12) dvd unat off - unat off" using assms(3) ol small by simp_all
    from contig_search_ok[OF pages small pe a19 assms(4,5) order_refl o0 o22] obtain r where
      r: "contig_search ?fl (pa_size ?ar div 4096) count (push_bit (al - 12) 1) off off = Some r"
        "case r of None \<Rightarrow> \<forall>st. unat off \<le> st \<and> 2 ^ (al - 12) dvd st - unat off \<longrightarrow> \<not> run_free ?fl (unat count) st
         | Some st \<Rightarrow> unat off \<le> unat st \<and> 2 ^ (al - 12) dvd unat st - unat off \<and> run_free ?fl (unat count) (unat st)" by blast
    show ?thesis
    proof (cases r)
      case None
      then have "\<nexists>i. kmap_run s al (unat count) a i" using r(2) al by (auto simp: kmap_run_def)
      then show ?thesis by (rule skip) (use True r(1) None in \<open>simp add: Let_def off_def\<close>)
    next
      case (Some st)
      have k: "kmap_run s al (unat count) a (unat st)" using r(2) Some al True aa by (simp add: kmap_run_def)
      then have rf: "unat st + unat count \<le> length ?fl" "\<And>j. j < unat count \<Longrightarrow> page_is_free (?fl ! (unat st + j))" by (auto simp: kmap_run_def run_free_def)
      have us: "unat (st + count) = unat st + unat count" using rf(1) small by (simp add: unat_plus_if')
      have "pg_free s (a, i)" if "i \<in> set [unat st..<unat st + unat count]" for i
      proof -
        have "i - unat st < unat count" "unat st + (i - unat st) = i" using that by auto
        then show ?thesis using that rf(1) rf(2)[of "i - unat st"] aa by (simp add: pg_free_def)
      qed
      with take_run_ok[OF assms(1), of "[unat st..<unat st + unat count]" a list] obtain s' where
        s': "take_run a list [unat st..<unat st + unat count] s = Some s'" "took list (map (Pair a) [unat st..<unat st + unat count]) s s'" by auto
      have "contig_walk count al list (a # as) s = Some (count, Some (pa_base ?ar + of_nat (unat st) * 4096), s')"
        using True r(1) Some us s'(1) by (simp add: Let_def off_def)
      then have "\<exists>a' i s'. kmap_run s al (unat count) a' i \<and> contig_walk count al list (a # as) s =
          Some (count, Some (pa_base (pm_arena s a') + of_nat i * 4096), s') \<and> took list (map (Pair a') [i..<i + unat count]) s s'"
        using k s'(2) by blast
      moreover have "\<exists>b \<in> set (a # as). \<exists>i. kmap_run s al (unat count) b i" using k by auto
      ultimately show ?thesis by (simp only: if_True)
    qed
  qed
qed

lemma pmm_alloc_contiguous_ok:
  fixes count :: u32
  assumes "pmm_inv s" "unat al < 32" "0 < unat count" "unat count < 2 ^ 31"
  defines "k \<equiv> max (unat al) 12"
  shows "if \<exists>a i. kmap_run s k (unat count) a i
    then \<exists>a i s'. kmap_run s k (unat count) a i \<and>
      pmm_alloc_contiguous count al list s = Some (count, Some (pa_base (pm_arena s a) + of_nat i * 4096), s') \<and> took list (map (Pair a) [i..<i + unat count]) s s'
    else pmm_alloc_contiguous count al list s = Some (0, None, s)"
proof -
  have "count \<noteq> 0" using assms(3) by auto
  then have e: "pmm_alloc_contiguous count al list s = contig_walk count k list (arenas s) s"
    using assms(2) by (simp add: pmm_alloc_contiguous_def k_def)
  have "(\<exists>a i. kmap_run s k (unat count) a i) \<longleftrightarrow> (\<exists>a \<in> set (arenas s). \<exists>i. kmap_run s k (unat count) a i)" by (auto simp: kmap_run_def)
  then show ?thesis using contig_walk_ok[OF assms(1) _ _ assms(3,4), of k "arenas s" list] assms(2) unfolding e by (simp add: k_def)
qed

section \<open>Ranges\<close>

definition page_addr :: "pmm \<Rightarrow> vm_page \<Rightarrow> u32" where
  "page_addr s p = of_nat (snd p) * 4096 + pa_base (pm_arena s (fst p))"

lemma address_in_arena:
  assumes "pmm_arena_ok ar" "4096 dvd unat x" "ADDRESS_IN_ARENA x ar"
  defines "i \<equiv> unat ((x - pa_base ar) div 4096)"
  shows "i < length (pa_page_array ar)" "x = of_nat i * 4096 + pa_base ar"
proof -
  have b: "unat (pa_base ar) \<le> unat x" "unat x < unat (pa_base ar) + unat (pa_size ar)"
    using assms(1,3) arena_last[OF assms(1)] by (auto simp: ADDRESS_IN_ARENA_def word_le_nat_alt pmm_arena_ok_def)
  have A: "4096 dvd unat (pa_base ar)" "4096 dvd unat (pa_size ar)" "length (pa_page_array ar) = unat (pa_size ar) div 4096" using assms(1) by (simp_all add: pmm_arena_ok_def)
  have u: "unat (x - pa_base ar) = unat x - unat (pa_base ar)" using b(1) by (simp add: unat32_sub)
  have i: "i * 4096 = unat x - unat (pa_base ar)" using dvd_diff_nat[OF assms(2) A(1)] u by (simp add: i_def unat_div_distrib)
  then have "i * 4096 < unat (pa_size ar) div 4096 * 4096" using b dvd_div_mult_self[OF A(2)] by simp
  then show "i < length (pa_page_array ar)" unfolding A(3) by (simp only: mult_less_cancel2)
  have "of_nat i * 4096 = (of_nat (i * 4096) :: u32)" by simp
  also have "\<dots> = x - pa_base ar" unfolding i using u by (metis of_nat_unat_id)
  finally show "x = of_nat i * 4096 + pa_base ar" by simp
qed

lemma range_arena_loop_ok:
  assumes "pmm_inv s" "a \<in> set (arenas s)" "4096 dvd unat x"
  shows "\<exists>ps s'. range_arena_loop a l n x s = Some (n - length ps, x + of_nat (length ps) * 4096, s') \<and> length ps \<le> n \<and> took (Some l) ps s s' \<and>
    (\<forall>j < length ps. page_addr s (ps ! j) = x + of_nat j * 4096)"
  using assms
proof (induction n arbitrary: x s)
  case 0
  then show ?case by (intro exI[of _ "[]"] exI[of _ s]) (simp add: took_refl)
next
  case (Suc n)
  have nil: ?case if "range_arena_loop a l (Suc n) x s = Some (Suc n, x, s)"
    using that Suc.prems(1) by (intro exI[of _ "[]"] exI[of _ s]) (simp add: took_refl)
  let ?ar = "pm_arena s a" define i where "i = unat ((x - pa_base ?ar) div 4096)"
  have ok: "pmm_arena_ok ?ar" using Suc.prems by (simp add: pmm_inv_def)
  show ?case
  proof (cases "ADDRESS_IN_ARENA x ?ar")
    case False
    then show ?thesis by (intro nil) simp
  next
    case True
    note ai = address_in_arena[OF ok Suc.prems(3) True, folded i_def]
    have as: "(x - pa_base ?ar) div 4096 < pa_size ?ar div 4096"
      using ai(1) arena_pages[OF Suc.prems(1,2)] by (simp add: word_less_nat_alt i_def)
    have pf: "page_flags (a, i) s = Some (pa_page_array ?ar ! i)" using ai(1) by (simp add: page_flags_def Let_def)
    show ?thesis
    proof (cases "page_is_free (pa_page_array ?ar ! i)")
      case False
      then show ?thesis using True as pf by (intro nil) (simp add: i_def)
    next
      case free: True
      then have f: "pg_free s (a, i)" using ai(1) Suc.prems(2) by (simp add: pg_free_def)
      from take_page_ok[OF Suc.prems(1) f, of a "Some l"] obtain t where t: "take_page a (a, i) (Some l) s = Some t" "took (Some l) [(a, i)] s t" by auto
      have "(a, i) \<in> set (lcont (pm_lists s) (Free_list a))" using f Suc.prems(1) by (simp add: pmm_inv_def)
      then have li: "ls_in_list (a, i) (pm_lists s)" using ls.linked_iff[of "pm_lists s"] Suc.prems(1) unfolding pmm_inv_def by blast
      have e: "range_arena_loop a l (Suc n) x s = range_arena_loop a l n (x + 4096) t"
        using True as pf free li t(1) by (simp add: i_def)
      have "4096 dvd unat (x + 4096)"
      proof -
        have "unat (x + 4096) = (unat x + 4096) mod 2 ^ 32" by (simp add: unat_word_ariths)
        moreover have "(4096::nat) dvd 2 ^ 32" by simp
        ultimately show ?thesis using Suc.prems(3) by (simp add: dvd_mod_iff)
      qed
      with Suc.IH[of t "x + 4096"] tookD(1)[OF t(2)] Suc.prems(2) pmm_sameD(1)[OF tookD(2)[OF t(2)]] obtain ps s' where
        s': "range_arena_loop a l n (x + 4096) t = Some (n - length ps, x + 4096 + of_nat (length ps) * 4096, s')" "length ps \<le> n" "took (Some l) ps t s'"
          "\<forall>j < length ps. page_addr t (ps ! j) = x + 4096 + of_nat j * 4096" by auto
      have pa: "page_addr t p = page_addr s p" for p using pmm_sameD(3)[OF tookD(2)[OF t(2)]] by (simp add: page_addr_def)
      have "page_addr s (((a, i) # ps) ! j) = x + of_nat j * 4096" if "j < length ((a, i) # ps)" for j
        using that s'(4) ai(2) pa by (cases j) (auto simp: page_addr_def algebra_simps)
      moreover have "took (Some l) ((a, i) # ps) s s'" using took_trans[OF t(2) s'(3)] by simp
      ultimately show ?thesis using e s'(1,2) by (intro exI[of _ "(a, i) # ps"] exI[of _ s']) (simp add: algebra_simps)
    qed
  qed
qed

lemma dvd_unat_step: "4096 dvd unat (x :: u32) \<Longrightarrow> 4096 dvd unat (x + of_nat k * 4096)"
proof -
  assume "4096 dvd unat x"
  moreover have "x + of_nat k * 4096 = of_nat (unat x + k * 4096)" by simp
  then have "unat (x + of_nat k * 4096) = (unat x + k * 4096) mod 2 ^ 32" by (simp only: unat_of_nat) simp
  moreover have "(4096::nat) dvd 2 ^ 32" by simp
  ultimately show ?thesis by (simp add: dvd_mod_iff)
qed

lemma range_walk_ok:
  assumes "pmm_inv s" "set as \<subseteq> set (arenas s)" "4096 dvd unat x"
  shows "\<exists>ps s'. range_walk l as n x s = Some (n - length ps, s') \<and> length ps \<le> n \<and> took (Some l) ps s s' \<and>
    (\<forall>j < length ps. page_addr s (ps ! j) = x + of_nat j * 4096)"
  using assms
proof (induction as arbitrary: n x s)
  case Nil
  then show ?case by (intro exI[of _ "[]"] exI[of _ s]) (simp add: took_refl)
next
  case (Cons a as)
  from range_arena_loop_ok[OF Cons.prems(1) _ Cons.prems(3), of a l n] Cons.prems(2) obtain ps t where
    t: "range_arena_loop a l n x s = Some (n - length ps, x + of_nat (length ps) * 4096, t)" "length ps \<le> n" "took (Some l) ps s t"
      "\<forall>j < length ps. page_addr s (ps ! j) = x + of_nat j * 4096" by auto
  have "set as \<subseteq> set (arenas t)" using Cons.prems(2) pmm_sameD(1)[OF tookD(2)[OF t(3)]] by simp
  from Cons.IH[OF tookD(1)[OF t(3)] this dvd_unat_step[OF Cons.prems(3)], of "n - length ps" "length ps"] obtain qs s' where
    s': "range_walk l as (n - length ps) (x + of_nat (length ps) * 4096) t = Some (n - length ps - length qs, s')" "length qs \<le> n - length ps" "took (Some l) qs t s'"
      "\<forall>j < length qs. page_addr t (qs ! j) = x + of_nat (length ps) * 4096 + of_nat j * 4096" by auto
  show ?case
  proof (cases "length ps = n")
    case True
    then show ?thesis using t by (intro exI[of _ ps] exI[of _ t]) simp
  next
    case False
    have pa: "page_addr t p = page_addr s p" for p using pmm_sameD(3)[OF tookD(2)[OF t(3)]] by (simp add: page_addr_def)
    have "page_addr s ((ps @ qs) ! j) = x + of_nat j * 4096" if "j < length (ps @ qs)" for j
    proof (cases "j < length ps")
      case True
      then show ?thesis using t(4) by (simp add: nth_append)
    next
      case False
      then have "j - length ps < length qs" "of_nat j = (of_nat (length ps) + of_nat (j - length ps) :: u32)" using that by (auto simp flip: of_nat_add)
      then show ?thesis using s'(4) False pa by (simp add: nth_append algebra_simps)
    qed
    then show ?thesis using t(1,2) False s'(1,2) took_trans[OF t(3) s'(3)] by (intro exI[of _ "ps @ qs"] exI[of _ s']) (simp add: algebra_simps)
  qed
qed

section \<open>New arenas\<close>

lemma insert_before_sorted:
  assumes "sorted (map f xs)" "distinct xs" "List.find (\<lambda>b. f b > v) xs = Some b"
  shows "\<exists>ys zs. xs = ys @ b # zs \<and> (\<forall>y \<in> set ys. f y \<le> v) \<and> (\<forall>z \<in> set (b # zs). v < f z)"
proof -
  obtain i where i: "i < length xs" "b = xs ! i" "f b > v" "\<And>j. j < i \<Longrightarrow> \<not> f (xs ! j) > v" using assms(3) by (auto simp: find_Some_iff)
  have sp: "xs = take i xs @ b # drop (Suc i) xs" using i(1,2) by (simp add: id_take_nth_drop)
  have "f b \<le> f z" if "z \<in> set (drop (Suc i) xs)" for z using assms(1) that by (subst (asm) sp) (auto simp: sorted_append)
  moreover have "f y \<le> v" if "y \<in> set (take i xs)" for y using that i(4) by (auto simp: in_set_conv_nth not_less)
  ultimately have "\<forall>y \<in> set (take i xs). f y \<le> v" "\<forall>z \<in> set (b # drop (Suc i) xs). v < f z" using i(3) by fastforce+
  then show ?thesis using sp by blast
qed

text \<open>The list of arenas with a new one, in the order of priorities.\<close>

lemma arena_order:
  assumes "ls_ok q" "\<not> ls_in_list a q" "sorted (map f (lcont q ()))"
  shows "\<exists>q'. (case List.find (\<lambda>b. f b > f a) (lcont q ()) of Some b \<Rightarrow> ls_add_before b a q | None \<Rightarrow> ls_add_tail () a q) = Some q' \<and> ls_ok q' \<and>
    set (lcont q' ()) = insert a (set (lcont q ())) \<and> sorted (map f (lcont q' ()))"
proof (cases "List.find (\<lambda>b. f b > f a) (lcont q ())")
  case None
  then have "\<forall>b \<in> set (lcont q ()). f b \<le> f a" by (auto simp: find_None_iff not_less)
  then show ?thesis using ls.add_tail_law[OF assms(1) _ _ assms(2), of "()"] assms(3) None by (auto simp: sorted_append)
next
  case (Some b)
  from insert_before_sorted[OF assms(3) ls_ok_distinct[OF assms(1)] Some] obtain ys zs where
    sp: "lcont q () = ys @ b # zs" "\<forall>y \<in> set ys. f y \<le> f a" "\<forall>z \<in> set (b # zs). f a < f z" by blast
  from ls.add_before_law[OF assms(1) sp(1) _ assms(2)] obtain q' where q': "ls_add_before b a q = Some q'" "ls_ok q'" "lcont q' () = ys @ a # b # zs" by auto
  then show ?thesis using Some sp assms(3) by (auto simp: sorted_append)
qed

lemma add_arena_pages_ok:
  assumes "ls_ok (pm_lists s)" "lcont (pm_lists s) (Free_list a) = map (Pair a) [0..<n]" "\<And>i. n \<le> i \<Longrightarrow> \<not> ls_in_list (a, i) (pm_lists s)"
    "pa_free_count (pm_arena s a) = of_nat n" "n \<le> m"
  shows "\<exists>s'. add_arena_pages a [n..<m] s = Some s' \<and> ls_ok (pm_lists s') \<and> lcont (pm_lists s') = (lcont (pm_lists s))(Free_list a := map (Pair a) [0..<m]) \<and>
    pm_arenas s' = pm_arenas s \<and> pm_arena s' = (pm_arena s)(a := (pm_arena s a)\<lparr>pa_free_count := of_nat m\<rparr>)"
  using assms
proof (induction "m - n" arbitrary: n s)
  case 0
  then have "[n..<m] = []" "m = n" by simp_all
  moreover have "(pm_arena s a)\<lparr>pa_free_count := of_nat n\<rparr> = pm_arena s a" using "0.prems"(4) by (cases "pm_arena s a") simp
  ultimately show ?case using 0 by (simp add: fun_upd_idem)
next
  case (Suc k)
  then have c: "[n..<m] = n # [Suc n..<m]" by (simp add: upt_conv_Cons)
  from ls.add_tail_law[OF Suc.prems(1) _ _ Suc.prems(3)[of n], of "Free_list a"] obtain q where
    q: "ls_add_tail (Free_list a) (a, n) (pm_lists s) = Some q" "ls_ok q" "lcont q = (lcont (pm_lists s))(Free_list a := map (Pair a) [0..<Suc n])"
    using Suc.prems(2) by auto
  define t where "t = upd_arena a (\<lambda>ar. ar\<lparr>pa_free_count := pa_free_count ar + 1\<rparr>) (s\<lparr>pm_lists := q\<rparr>)"
  have nl: "\<not> ls_in_list (a, i) (pm_lists t)" if i: "Suc n \<le> i" for i
  proof -
    have "\<not> (\<exists>h. (a, i) \<in> set (lcont (pm_lists s) h))" using Suc.prems(3)[of i] ls.linked_iff[OF Suc.prems(1)] i by simp
    then have "\<not> (\<exists>h. (a, i) \<in> set (lcont q h))" using q(3) i by (auto split: if_splits)
    then show ?thesis using ls.linked_iff[OF q(2)] by (simp add: t_def)
  qed
  have "\<exists>s'. add_arena_pages a [Suc n..<m] t = Some s' \<and> ls_ok (pm_lists s') \<and> lcont (pm_lists s') = (lcont (pm_lists t))(Free_list a := map (Pair a) [0..<m]) \<and>
    pm_arenas s' = pm_arenas t \<and> pm_arena s' = (pm_arena t)(a := (pm_arena t a)\<lparr>pa_free_count := of_nat m\<rparr>)"
    by (rule Suc.hyps(1)) (use Suc.hyps(2) Suc.prems q nl in \<open>simp_all add: t_def\<close>)
  then show ?case using c q by (auto simp: t_def)
qed

lemma pmm_add_arena_ok:
  assumes v: "pmm_inv s" and srt: "sorted (map (\<lambda>a. pa_priority (pm_arena s a)) (arenas s))" and new: "\<not> ls_in_list a (pm_arenas s)" "\<And>i. \<not> ls_in_list (a, i) (pm_lists s)"
    and ar: "IS_PAGE_ALIGNED (pa_base (pm_arena s a))" "IS_PAGE_ALIGNED (pa_size (pm_arena s a))" "0 < pa_size (pm_arena s a)"
      "unat (pa_base (pm_arena s a)) + unat (pa_size (pm_arena s a)) \<le> 2 ^ 32"
    and dj: "\<And>b. b \<in> set (arenas s) \<Longrightarrow> arena_span (pm_arena s a) \<inter> arena_span (pm_arena s b) = {}"
  shows "\<exists>s'. pmm_add_arena a s = Some (NO_ERROR, s') \<and> pmm_inv s' \<and> sorted (map (\<lambda>a. pa_priority (pm_arena s' a)) (arenas s')) \<and>
    set (arenas s') = insert a (set (arenas s)) \<and> (\<forall>m. page_list s' m = page_list s m) \<and>
    (\<forall>q. pg_free s' q \<longleftrightarrow> pg_free s q \<or> fst q = a \<and> snd q < unat (pa_size (pm_arena s a)) div 4096)"
proof -
  let ?ar = "pm_arena s a" let ?n = "unat (pa_size ?ar) div 4096"
  have lo: "ls_ok (pm_arenas s)" "ls_ok (pm_lists s)" using v by (simp_all add: pmm_inv_def)
  have dvd: "4096 dvd unat x" if "IS_PAGE_ALIGNED x" for x
  proof -
    have "x AND mask 12 = 0" using that by (simp add: IS_PAGE_ALIGNED_def mask_eq_exp_minus_1)
    then have "take_bit 12 x = 0" by (simp add: take_bit_eq_mask)
    then show ?thesis using unat_modpow2[of x 12] by (simp add: modpow2_take_bit dvd_eq_mod_eq_0)
  qed
  from arena_order[OF lo(1) new(1) srt] obtain q where q: "(case List.find (\<lambda>b. pa_priority (pm_arena s b) > pa_priority ?ar) (arenas s) of Some b \<Rightarrow> ls_add_before b a (pm_arenas s)
      | None \<Rightarrow> ls_add_tail () a (pm_arenas s)) = Some q" "ls_ok q" "set (lcont q ()) = insert a (set (arenas s))" "sorted (map (\<lambda>a. pa_priority (pm_arena s a)) (lcont q ()))" by blast
  have na: "a \<notin> set (arenas s)" using new(1) ls.linked_iff[OF lo(1)] by blast
  have fe: "lcont (pm_lists s) (Free_list a) = []"
  proof -
    have "set (lcont (pm_lists s) (Free_list a)) = {p. pg_free s p \<and> fst p = a}" using v by (simp add: pmm_inv_def)
    also have "\<dots> = {}" using na by (auto simp: pg_free_def)
    finally show ?thesis by simp
  qed
  have pc: "unat (pa_size ?ar div 4096) = ?n" by (simp add: unat_div_distrib)
  define t where "t = upd_arena a (\<lambda>ar. ar\<lparr>pa_free_count := 0, pa_page_array := replicate ?n 0\<rparr>) (s\<lparr>pm_arenas := q, pm_lists := pm_lists s\<rparr>)"
  from add_arena_pages_ok[of t a 0 ?n] lo fe new(2) obtain s' where s': "add_arena_pages a [0..<?n] t = Some s'" "ls_ok (pm_lists s')"
    "lcont (pm_lists s') = (lcont (pm_lists s))(Free_list a := map (Pair a) [0..<?n])" "pm_arenas s' = q"
    "pm_arena s' = (pm_arena s)(a := ?ar\<lparr>pa_page_array := replicate ?n 0, pa_free_count := of_nat ?n\<rparr>)" by (auto simp: t_def)
  have run: "pmm_add_arena a s = Some (NO_ERROR, s')"
    using ar q(1) fe s'(1) pc by (simp add: pmm_add_arena_def Let_def ls_initialize_def t_def)
  have fr: "pg_free s' p \<longleftrightarrow> pg_free s p \<or> fst p = a \<and> snd p < ?n" for p
    using na q(3) s'(4,5) by (auto simp: pg_free_def page_is_free_def)
  have n20: "?n \<le> 2 ^ 20" using ar(4) by auto
  have "pmm_arena_ok (pm_arena s' b)" if "b \<in> set (arenas s')" for b
    using that q(3) s'(4,5) v ar dvd by (cases "b = a") (auto simp: pmm_inv_def pmm_arena_ok_def word_less_nat_alt)
  moreover have "arena_span (pm_arena s' b) = arena_span (pm_arena s b)" for b using s'(5) by (simp add: arena_span_def)
  then have "arena_span (pm_arena s' b) \<inter> arena_span (pm_arena s' c) = {}" if "b \<in> set (arenas s')" "c \<in> set (arenas s')" "b \<noteq> c" for b c
    using that q(3) s'(4) dj v na unfolding pmm_inv_def by (cases "b = a"; cases "c = a") (auto simp: Int_commute)
  moreover have "set (lcont (pm_lists s') (Free_list b)) = {p. pg_free s' p \<and> fst p = b}" for b
  proof (cases "b = a")
    case True
    then show ?thesis using s'(3) fr na by (auto simp: pg_free_def)
  next
    case False
    then show ?thesis using s'(3) fr v by (auto simp: pmm_inv_def)
  qed
  moreover have "unat (pa_free_count (pm_arena s' b)) = length (lcont (pm_lists s') (Free_list b))" if "b \<in> set (arenas s')" for b
    using that s'(3-5) q(3) v n20 by (cases "b = a") (auto simp: pmm_inv_def unat_of_nat)
  ultimately have "pmm_inv s'" using s' q(2) unfolding pmm_inv_def by blast
  moreover have "(\<lambda>b. pa_priority (pm_arena s' b)) = (\<lambda>b. pa_priority (pm_arena s b))" using s'(5) by auto
  then have "sorted (map (\<lambda>b. pa_priority (pm_arena s' b)) (arenas s'))" using q(4) s'(4) by (simp only:)
  ultimately show ?thesis using run fr q(3,4) s'(3,4) by auto
qed

end
