(* ===== verification/Vmm_Inv.thy ===== *)
theory Vmm_Inv
  imports Vmm Pmm_Inv
begin

text \<open>
  The invariant of the virtual memory manager: the regions of an address space lie in it, in order and without overlap, and
  every page on the list of a region is in use. The search for a free spot is exact.
\<close>

section \<open>Ordered regions\<close>

text \<open>Regions as start and size, from \<open>lo\<close> to \<open>hi\<close>.\<close>

fun in_order :: "nat \<Rightarrow> nat \<Rightarrow> (nat \<times> nat) list \<Rightarrow> bool" where
  "in_order lo hi [] \<longleftrightarrow> lo \<le> hi"
| "in_order lo hi (x # xs) \<longleftrightarrow> lo \<le> fst x \<and> 0 < snd x \<and> in_order (fst x + snd x) hi xs"

definition clear_of :: "(nat \<times> nat) list \<Rightarrow> nat \<Rightarrow> nat \<Rightarrow> bool" where
  "clear_of xs v n \<longleftrightarrow> (\<forall>x \<in> set xs. v + n \<le> fst x \<or> fst x + snd x \<le> v)"

lemma clear_of_simps [simp]: "clear_of [] v n" "clear_of (x # xs) v n \<longleftrightarrow> (v + n \<le> fst x \<or> fst x + snd x \<le> v) \<and> clear_of xs v n"
  "clear_of (xs @ ys) v n \<longleftrightarrow> clear_of xs v n \<and> clear_of ys v n"
  by (auto simp: clear_of_def)

lemma in_order_le: "in_order lo hi xs \<Longrightarrow> lo \<le> hi"
  by (induction xs arbitrary: lo) fastforce+

lemma in_order_mem: "in_order lo hi xs \<Longrightarrow> x \<in> set xs \<Longrightarrow> lo \<le> fst x \<and> 0 < snd x \<and> fst x + snd x \<le> hi"
  by (induction xs arbitrary: lo) (use in_order_le in fastforce)+

lemma in_order_before: "in_order lo hi xs \<Longrightarrow> v + n \<le> lo \<Longrightarrow> clear_of xs v n"
  using in_order_mem by (fastforce simp: clear_of_def)

text \<open>A range that is clear of the regions goes between those before and those behind it.\<close>

lemma in_order_insert:
  assumes "in_order lo hi (xs @ ys)" "\<forall>x \<in> set xs. fst x + snd x \<le> v" "\<forall>y \<in> set ys. v + n \<le> fst y" "lo \<le> v" "v + n \<le> hi" "0 < n"
  shows "in_order lo hi (xs @ (v, n) # ys)"
  using assms
proof (induction xs arbitrary: lo)
  case Nil
  then show ?case by (cases ys) auto
qed auto

lemma in_order_remove: "in_order lo hi (xs @ x # ys) \<Longrightarrow> in_order lo hi (xs @ ys)"
proof (induction xs arbitrary: lo)
  case Nil
  then show ?case by (cases ys) auto
qed auto

text \<open>Ordered regions are disjoint.\<close>

lemma in_order_disjoint: "in_order lo hi (xs @ x # ys) \<Longrightarrow> clear_of (xs @ ys) (fst x) (snd x)"
proof (induction xs arbitrary: lo)
  case Nil
  then show ?case using in_order_before by auto
next
  case (Cons z xs)
  then have "in_order (fst z + snd z) hi (xs @ x # ys)" by simp
  then have "fst z + snd z \<le> fst x" using in_order_mem by (metis in_set_conv_decomp)
  moreover have "clear_of (xs @ ys) (fst x) (snd x)" using Cons.IH Cons.prems by auto
  ultimately show ?case by simp
qed

definition span :: "(nat \<Rightarrow> vmm_region) \<Rightarrow> nat \<Rightarrow> nat \<times> nat" where
  "span rg r = (unat (vr_base (rg r)), unat (vr_size (rg r)))"

lemma find_place_ok:
  assumes "in_order lo hi (map (span rg) xs)" "hi \<le> 2 ^ 32" "unat base + n \<le> hi" "0 < n" "unat r_end = unat base + n - 1"
  shows "case find_place rg base r_end xs of
      Some p \<Rightarrow> \<exists>ys zs. xs = ys @ p # zs \<and> (\<forall>y \<in> set (ys @ [p]). fst (span rg y) + snd (span rg y) \<le> unat base) \<and> (\<forall>z \<in> set zs. unat base + n \<le> fst (span rg z))
    | None \<Rightarrow> xs = [] \<or> unat base + n \<le> fst (span rg (hd xs)) \<or> \<not> clear_of (map (span rg) xs) (unat base) n"
  using assms(1)
proof (induction xs arbitrary: lo)
  case (Cons x xs)
  let ?e = "fst (span rg x) + snd (span rg x)"
  have x: "0 < snd (span rg x)" and ord: "in_order ?e hi (map (span rg) xs)" using Cons.prems by auto
  have "?e \<le> 2 ^ 32" using in_order_le[OF ord] assms(2) by simp
  then have a: "base > vr_base (rg x) + vr_size (rg x) - 1 \<longleftrightarrow> ?e \<le> unat base"
    using x unat_last[of "vr_base (rg x)" "vr_size (rg x)"] by (auto simp: word_less_nat_alt span_def)
  have b: "(case xs of [] \<Rightarrow> True | y # _ \<Rightarrow> r_end < vr_base (rg y)) \<longleftrightarrow> (\<forall>z \<in> set xs. unat base + n \<le> fst (span rg z))"
  proof (cases xs)
    case (Cons y ys)
    have "fst (span rg y) \<le> fst (span rg z)" if "z \<in> set ys" for z
      using in_order_mem[of "fst (span rg y) + snd (span rg y)" hi "map (span rg) ys" "span rg z"] ord that Cons by simp
    then have "(\<forall>z \<in> set xs. unat base + n \<le> fst (span rg z)) \<longleftrightarrow> unat base + n \<le> fst (span rg y)" unfolding Cons using le_trans by fastforce
    then show ?thesis using Cons assms(4,5) by (auto simp: word_less_nat_alt span_def)
  qed simp
  show ?case
  proof (cases "find_place rg base r_end (x # xs) = Some x")
    case True
    have "base > vr_base (rg x) + vr_size (rg x) - 1 \<and> (case xs of [] \<Rightarrow> True | y # _ \<Rightarrow> r_end < vr_base (rg y)) \<or> find_place rg base r_end xs = Some x"
      using True by (auto split: if_splits)
    then show ?thesis
    proof
      assume "base > vr_base (rg x) + vr_size (rg x) - 1 \<and> (case xs of [] \<Rightarrow> True | y # _ \<Rightarrow> r_end < vr_base (rg y))"
      then have "\<exists>ys zs. x # xs = ys @ x # zs \<and> (\<forall>y \<in> set (ys @ [x]). fst (span rg y) + snd (span rg y) \<le> unat base) \<and> (\<forall>z \<in> set zs. unat base + n \<le> fst (span rg z))"
        using a b by (intro exI[of _ "[]"] exI[of _ xs]) simp
      then show ?thesis using True by simp
    next
      assume f: "find_place rg base r_end xs = Some x"
      with Cons.IH[OF ord] have "x \<in> set xs" by auto
      with in_order_mem[OF ord, of "span rg x"] x have False by simp
      then show ?thesis ..
    qed
  next
    case False
    then have e: "find_place rg base r_end (x # xs) = find_place rg base r_end xs"
      and nb: "\<not> (?e \<le> unat base \<and> (\<forall>z \<in> set xs. unat base + n \<le> fst (span rg z)))" using a b by (auto split: if_splits)
    show ?thesis
    proof (cases "find_place rg base r_end xs")
      case (Some p)
      with Cons.IH[OF ord] obtain ys zs where yz: "xs = ys @ p # zs" "\<forall>y \<in> set (ys @ [p]). fst (span rg y) + snd (span rg y) \<le> unat base" "\<forall>z \<in> set zs. unat base + n \<le> fst (span rg z)" by auto
      then have "?e \<le> unat base" using in_order_mem[OF ord, of "span rg p"] by simp
      then have "\<exists>ys zs. x # xs = ys @ p # zs \<and> (\<forall>y \<in> set (ys @ [p]). fst (span rg y) + snd (span rg y) \<le> unat base) \<and> (\<forall>z \<in> set zs. unat base + n \<le> fst (span rg z))"
        using yz by (intro exI[of _ "x # ys"] exI[of _ zs]) simp
      then show ?thesis using e Some by simp
    next
      case None
      have "?e \<le> unat base \<Longrightarrow> \<not> clear_of (map (span rg) xs) (unat base) n"
      proof
        assume "?e \<le> unat base" and c: "clear_of (map (span rg) xs) (unat base) n"
        then have "xs \<noteq> [] \<and> \<not> unat base + n \<le> fst (span rg (hd xs))"
          using nb in_order_mem[OF ord] b by (cases xs) (auto simp: word_less_nat_alt span_def assms(5))
        with Cons.IH[OF ord] None c show False by simp
      qed
      then show ?thesis using e None x by auto
    qed
  qed
qed simp

section \<open>Free spots\<close>

definition next_aligned :: "nat \<Rightarrow> nat \<Rightarrow> nat" where
  "next_aligned k lo = (lo + (2 ^ k - 1)) div 2 ^ k * 2 ^ k"

lemma next_aligned: "2 ^ k dvd next_aligned k lo" "lo \<le> next_aligned k lo" "2 ^ k dvd v \<Longrightarrow> lo \<le> v \<Longrightarrow> next_aligned k lo \<le> v"
  "next_aligned k lo < lo + 2 ^ k"
proof -
  show "2 ^ k dvd next_aligned k lo" by (simp add: next_aligned_def)
  show "2 ^ k dvd v \<Longrightarrow> lo \<le> v \<Longrightarrow> next_aligned k lo \<le> v" unfolding next_aligned_def by (rule roundup_least) auto
  have "lo + (2 ^ k - 1) = next_aligned k lo + (lo + (2 ^ k - 1)) mod 2 ^ k" unfolding next_aligned_def by (rule div_mult_mod_eq[symmetric])
  moreover have "(lo + (2 ^ k - 1)) mod 2 ^ k < 2 ^ k" by simp
  ultimately show "lo \<le> next_aligned k lo" "next_aligned k lo < lo + 2 ^ k" by linarith+
qed

lemma no_aligned:
  assumes "lo + 2 ^ k > (2 :: nat) ^ 32" "k < 32" "2 ^ k dvd v" "lo \<le> v"
  shows "2 ^ 32 \<le> v"
proof (rule ccontr)
  assume "\<not> 2 ^ 32 \<le> v"
  moreover have "(2 :: nat) ^ k dvd 2 ^ 32" by (rule le_imp_power_dvd) (use assms(2) in simp)
  ultimately have "v + 2 ^ k \<le> 2 ^ 32" using assms(3) by (metis not_le dvd_add_right_iff dvd_diff_nat dvd_imp_le le_add_diff_inverse less_imp_le_nat zero_less_diff add_le_cancel_left)
  then show False using assms by simp
qed

text \<open>The decision for one gap, from \<open>lo\<close> to \<open>hi\<close>.\<close>

lemma check_gap_ok:
  fixes sz :: u32
  assumes gb: "(case prev of Some p \<Rightarrow> vr_base p + vr_size p | None \<Rightarrow> va_base a) = of_nat lo"
    and ge: "case next of Some n \<Rightarrow> unat (vr_base n) = hi \<and> hi < 2 ^ 32 | None \<Rightarrow> hi = unat (va_base a) + unat (va_size a) \<and> hi \<le> 2 ^ 32"
    and o: "lo \<le> hi" "hi - lo < 2 ^ 32" "4096 dvd lo" "4096 dvd hi" "4096 \<le> unat sz" and k: "12 \<le> k" "k < 32" "unat al = 2 ^ k"
  shows "check_gap a prev next al sz fl =
    (if lo = hi then (if next = None then Some (- 1) else None)
     else if lo + 2 ^ k > 2 ^ 32 then Some (- 1)
     else if next_aligned k lo + unat sz \<le> hi then Some (of_nat (next_aligned k lo)) else None)"
proof -
  let ?u = "next_aligned k lo"
  define gap_end where "gap_end = (case next of Some n \<Rightarrow> vr_base n - 1 | None \<Rightarrow> va_base a + va_size a - 1)"
  have h32: "hi \<le> 2 ^ 32" using ge by (auto split: option.splits)
  have e1: "(case next of Some n \<Rightarrow> of_nat lo = vr_base n | None \<Rightarrow> False) \<longleftrightarrow> next \<noteq> None \<and> lo = hi"
  proof (cases "next")
    case (Some n)
    then have h: "unat (vr_base n) = hi" "lo < 2 ^ 32" using ge o(1) by auto
    then have "unat (of_nat lo :: u32) = lo" by (simp add: unat_of_nat)
    then show ?thesis using Some h(1) by (auto simp: word_unat_eq_iff)
  qed simp
  have e2: "next = None \<and> of_nat lo = va_base a + va_size a \<longleftrightarrow> next = None \<and> lo = hi"
  proof (cases "next")
    case None
    then have h: "of_nat hi = va_base a + va_size a" using ge by (simp add: word_unat_eq_iff unat_of_nat unat_plus_if' unat32_lt)
    have "(of_nat lo :: u32) = of_nat hi \<longleftrightarrow> lo mod 2 ^ 32 = hi mod 2 ^ 32" by (simp add: word_unat_eq_iff unat_of_nat)
    also have "\<dots> \<longleftrightarrow> lo = hi" using o(1,2) h32 by (cases "hi = 2 ^ 32") auto
    finally show ?thesis using None h by simp
  qed simp
  show ?thesis
  proof (cases "lo = hi")
    case True
    then show ?thesis using e1 e2 by (cases "next") (simp_all add: check_gap_def Let_def gb)
  next
    case False
    then have lo: "unat (of_nat lo :: u32) = lo" using o(1) h32 by (simp add: unat_of_nat)
    have ge2: "unat gap_end = hi - 1"
    proof (cases "next")
      case None
      show ?thesis
      proof (cases "va_size a = 0")
        case True
        then have "unat (va_base a - 1) = hi - 1" using None ge False o(1) unat32_sub[of "va_base a" 1] by simp
        then show ?thesis using None True by (simp add: gap_end_def)
      next
        case sz: False
        then have "0 < unat (va_size a)" by (simp add: unat_gt_0)
        then show ?thesis using None ge unat_last[of "va_base a" "va_size a"] by (simp add: gap_end_def)
      qed
    next
      case (Some n)
      then show ?thesis using ge False o(1) unat32_sub[of "vr_base n" 1] by (simp add: gap_end_def)
    qed
    have c: "check_gap a prev next al sz fl = (let pva = ROUNDUP (of_nat lo) al in
      if pva < of_nat lo then Some (- 1) else if pva < gap_end \<and> gap_end - pva + 1 \<ge> sz then Some pva else None)"
      using False e1 e2 by (cases "next") (simp_all add: check_gap_def Let_def gb gap_end_def arch_mmu_pick_spot_def)
    show ?thesis
    proof (cases "lo + 2 ^ k > 2 ^ 32")
      case True
      then have "ROUNDUP (of_nat lo) al = 0" using roundup_wraps[OF k(3)] lo by simp
      moreover have "0 < lo" using True k(2) power_strict_increasing[of k 32 "2 :: nat"] by linarith
      then have "0 < (of_nat lo :: u32)" using lo by (simp add: word_less_nat_alt)
      ultimately show ?thesis using c True False by simp
    next
      case nw: False
      have u: "unat (ROUNDUP (of_nat lo) al) = ?u" using unat_ROUNDUP[OF k(3), of "of_nat lo"] nw lo k(3) by (simp add: next_aligned_def)
      have R: "ROUNDUP (of_nat lo) al = of_nat ?u" by (simp add: u[symmetric])
      have "\<not> of_nat ?u < (of_nat lo :: u32)" using next_aligned(2)[of lo k] u lo by (simp add: word_less_nat_alt R)
      moreover have "of_nat ?u < gap_end \<and> gap_end - of_nat ?u + 1 \<ge> sz \<longleftrightarrow> ?u + unat sz \<le> hi"
      proof (cases "?u < hi - 1")
        case True
        then have "unat (gap_end - of_nat ?u) = hi - 1 - ?u" using u ge2 R by (simp add: unat_sub word_le_nat_alt)
        moreover have "hi - ?u < 2 ^ 32" using o(2) next_aligned(2)[of lo k] by linarith
        ultimately have "unat (gap_end - of_nat ?u + 1) = hi - ?u" using True by (simp add: unat_plus_if' Suc_diff_Suc)
        then show ?thesis using True u R ge2 by (auto simp: word_less_nat_alt word_le_nat_alt)
      next
        case f: False
        then show ?thesis using u R ge2 o(5) by (auto simp: word_less_nat_alt)
      qed
      ultimately show ?thesis using c nw False unfolding R by (simp add: Let_def)
    qed
  qed
qed

definition pages_only :: "(nat \<times> nat) list \<Rightarrow> bool" where
  "pages_only xs \<longleftrightarrow> (\<forall>x \<in> set xs. 4096 dvd fst x \<and> 4096 dvd snd x)"

text \<open>A spot for \<open>n\<close> bytes on a boundary of \<open>2 ^ k\<close>.\<close>

definition fits :: "nat \<Rightarrow> nat \<Rightarrow> (nat \<times> nat) list \<Rightarrow> nat \<Rightarrow> nat \<Rightarrow> nat \<Rightarrow> bool" where
  "fits lo hi xs k n v \<longleftrightarrow> lo \<le> v \<and> 2 ^ k dvd v \<and> v + n \<le> hi \<and> clear_of xs v n"

text \<open>First fit: the walk finds the lowest spot there is, and the region before it.\<close>

lemma spot_walk_ok:
  fixes sz :: u32
  assumes "in_order lo hi (map (span rg) xs)" "pages_only (map (span rg) xs)" "4096 dvd lo" "unat (va_base a) \<le> lo"
    "(case prev of Some p \<Rightarrow> vr_base (rg p) + vr_size (rg p) | None \<Rightarrow> va_base a) = of_nat lo"
    and a: "hi = unat (va_base a) + unat (va_size a)" "hi \<le> 2 ^ 32" "4096 dvd hi"
    and k: "4096 \<le> unat sz" "12 \<le> k" "k < 32" "unat al = 2 ^ k"
  shows "if \<exists>v. fits lo hi (map (span rg) xs) k (unat sz) v
    then \<exists>v ys zs. spot_walk rg a al sz fl prev xs = (of_nat v, Some (if ys = [] then prev else Some (last ys))) \<and> xs = ys @ zs \<and>
      fits lo hi (map (span rg) xs) k (unat sz) v \<and> (\<forall>w. fits lo hi (map (span rg) xs) k (unat sz) w \<longrightarrow> v \<le> w) \<and>
      (\<forall>y \<in> set ys. fst (span rg y) + snd (span rg y) \<le> v) \<and> (\<forall>z \<in> set zs. v + unat sz \<le> fst (span rg z))
    else fst (spot_walk rg a al sz fl prev xs) = - 1"
  using assms(1-5)
proof (induction xs arbitrary: lo prev)
  case Nil
  let ?u = "next_aligned k lo"
  have "hi - lo < 2 ^ 32" using a(1) unat32_lt[of "va_size a"] Nil.prems by simp
  then have c: "check_gap a (map_option rg prev) None al sz fl = (if lo = hi then Some (- 1) else if lo + 2 ^ k > 2 ^ 32 then Some (- 1)
      else if ?u + unat sz \<le> hi then Some (of_nat ?u) else None)"
    using Nil.prems a k by (subst check_gap_ok[where lo = lo and hi = hi and k = k]) (auto split: option.splits)
  have none: "\<not> fits lo hi [] k (unat sz) v" if "lo = hi \<or> lo + 2 ^ k > 2 ^ 32 \<or> \<not> ?u + unat sz \<le> hi" for v
    using that a(2) k no_aligned[of lo k v] next_aligned(3)[of k v lo] by (auto simp: fits_def)
  show ?case
  proof (cases "lo = hi \<or> lo + 2 ^ k > 2 ^ 32 \<or> \<not> ?u + unat sz \<le> hi")
    case True
    then have "fst (spot_walk rg a al sz fl prev []) = - 1" using c by (auto simp: spot_walk.simps)
    then show ?thesis using none[OF True] by simp
  next
    case False
    then have f: "fits lo hi [] k (unat sz) ?u" using next_aligned(1)[of k lo] next_aligned(2)[of lo k] by (simp add: fits_def)
    have "spot_walk rg a al sz fl prev [] = (of_nat ?u, Some prev)" using c False by (simp add: spot_walk.simps)
    moreover have "\<forall>w. fits lo hi [] k (unat sz) w \<longrightarrow> ?u \<le> w" using next_aligned(3) by (auto simp: fits_def)
    ultimately show ?thesis using f by (auto intro!: exI[of _ "?u"])
  qed
next
  case (Cons x xs)
  let ?u = "next_aligned k lo" let ?b = "fst (span rg x)" let ?e = "?b + snd (span rg x)" let ?n = "unat sz"
  have x: "lo \<le> ?b" "0 < snd (span rg x)" "in_order ?e hi (map (span rg) xs)" "4096 dvd ?b" "4096 dvd snd (span rg x)" "pages_only (map (span rg) xs)"
    using Cons.prems by (auto simp: pages_only_def)
  have eh: "?e \<le> hi" using in_order_le[OF x(3)] .
  then have "?b < 2 ^ 32" "?b - lo < 2 ^ 32" using x(2) a(2) by linarith+
  then have c: "check_gap a (map_option rg prev) (Some (rg x)) al sz fl = (if lo = ?b then None else if lo + 2 ^ k > 2 ^ 32 then Some (- 1)
      else if ?u + ?n \<le> ?b then Some (of_nat ?u) else None)"
    using Cons.prems(3,5) x k by (subst check_gap_ok[where lo = lo and hi = ?b and k = k]) (auto simp: span_def split: option.splits)
  have "vr_base (rg x) + vr_size (rg x) = of_nat ?e" by (simp add: span_def)
  then have IH: "if \<exists>v. fits ?e hi (map (span rg) xs) k ?n v
    then \<exists>v ys zs. spot_walk rg a al sz fl (Some x) xs = (of_nat v, Some (if ys = [] then Some x else Some (last ys))) \<and> xs = ys @ zs \<and>
      fits ?e hi (map (span rg) xs) k ?n v \<and> (\<forall>w. fits ?e hi (map (span rg) xs) k ?n w \<longrightarrow> v \<le> w) \<and>
      (\<forall>y \<in> set ys. fst (span rg y) + snd (span rg y) \<le> v) \<and> (\<forall>z \<in> set zs. v + ?n \<le> fst (span rg z))
    else fst (spot_walk rg a al sz fl (Some x) xs) = - 1"
    using Cons.prems(4) x by (intro Cons.IH) (auto intro: dvd_add)
  have split: "fits lo hi (map (span rg) (x # xs)) k ?n v \<longleftrightarrow> (lo \<le> v \<and> 2 ^ k dvd v \<and> v + ?n \<le> ?b) \<or> fits ?e hi (map (span rg) xs) k ?n v" for v
    using x eh in_order_before[OF x(3), of v ?n] by (auto simp: fits_def)
  show ?case
  proof (cases "lo \<noteq> ?b \<and> \<not> lo + 2 ^ k > 2 ^ 32 \<and> ?u + ?n \<le> ?b")
    case True
    have "spot_walk rg a al sz fl prev (x # xs) = (of_nat ?u, Some prev)" using c True by (simp add: spot_walk.simps)
    moreover have "fits lo hi (map (span rg) (x # xs)) k ?n ?u" unfolding split using True next_aligned(1)[of k lo] next_aligned(2)[of lo k] by blast
    moreover have "\<forall>w. fits lo hi (map (span rg) (x # xs)) k ?n w \<longrightarrow> ?u \<le> w" using next_aligned(3) by (auto simp: fits_def)
    moreover have "\<forall>z \<in> set (x # xs). ?u + ?n \<le> fst (span rg z)" using True in_order_mem[OF x(3)] by fastforce
    ultimately show ?thesis by (auto intro!: exI[of _ "?u"] exI[of _ "[]"])
  next
    case False
    show ?thesis
    proof (cases "lo \<noteq> ?b \<and> lo + 2 ^ k > 2 ^ 32")
      case True
      then have "fst (spot_walk rg a al sz fl prev (x # xs)) = - 1" using c by (simp add: spot_walk.simps)
      moreover have "\<not> fits lo hi (map (span rg) (x # xs)) k ?n v" for v
        using True a(2) k no_aligned[of lo k v] by (auto simp: fits_def)
      ultimately show ?thesis by simp
    next
      case nw: False
      then have s: "spot_walk rg a al sz fl prev (x # xs) = spot_walk rg a al sz fl (Some x) xs"
      proof -
        have "check_gap a (map_option rg prev) (Some (rg x)) al sz fl = None" unfolding c using False nw by (simp del: not_less) argo
        then show ?thesis by (simp add: spot_walk.simps[of _ _ _ _ _ _ "x # xs"])
      qed
      have "\<not> (lo \<le> v \<and> 2 ^ k dvd v \<and> v + ?n \<le> ?b)" for v using False nw k(1) next_aligned(3)[of k v lo] by auto
      then have same: "fits lo hi (map (span rg) (x # xs)) k ?n v = fits ?e hi (map (span rg) xs) k ?n v" for v using split by blast
      show ?thesis
      proof (cases "\<exists>v. fits ?e hi (map (span rg) xs) k ?n v")
        case True
        with IH obtain v ys zs where v: "spot_walk rg a al sz fl (Some x) xs = (of_nat v, Some (if ys = [] then Some x else Some (last ys)))" "xs = ys @ zs"
          "fits ?e hi (map (span rg) xs) k ?n v" "\<forall>w. fits ?e hi (map (span rg) xs) k ?n w \<longrightarrow> v \<le> w"
          "\<forall>y \<in> set ys. fst (span rg y) + snd (span rg y) \<le> v" "\<forall>z \<in> set zs. v + ?n \<le> fst (span rg z)" by auto
        then have "?e \<le> v" by (simp add: fits_def)
        with v have "\<exists>v ys zs. spot_walk rg a al sz fl (Some x) xs = (of_nat v, Some (if ys = [] then prev else Some (last ys))) \<and> x # xs = ys @ zs \<and>
          fits ?e hi (map (span rg) xs) k ?n v \<and> (\<forall>w. fits ?e hi (map (span rg) xs) k ?n w \<longrightarrow> v \<le> w) \<and>
          (\<forall>y \<in> set ys. fst (span rg y) + snd (span rg y) \<le> v) \<and> (\<forall>z \<in> set zs. v + ?n \<le> fst (span rg z))"
          by (intro exI[of _ v] exI[of _ "x # ys"] exI[of _ zs]) simp
        with True show ?thesis unfolding same s by simp
      next
        case False
        then show ?thesis using IH unfolding same s by simp
      qed
    qed
  qed
qed

section \<open>Invariant\<close>

definition aspace_ok :: "vmm_aspace \<Rightarrow> bool" where
  "aspace_ok a \<longleftrightarrow> 4096 dvd unat (va_base a) \<and> 4096 dvd unat (va_size a) \<and> 0 < unat (va_size a) \<and> unat (va_base a) + unat (va_size a) \<le> 2 ^ 32"

definition spans :: "'m vmm \<Rightarrow> nat \<Rightarrow> (nat \<times> nat) list" where
  "spans s a = map (span (vm_region s)) (regions s a)"

definition layout :: "'m vmm \<Rightarrow> nat \<Rightarrow> bool" where
  "layout s a \<longleftrightarrow> aspace_ok (vm_aspace s a) \<and> pages_only (spans s a) \<and>
     in_order (unat (va_base (vm_aspace s a))) (unat (va_base (vm_aspace s a)) + unat (va_size (vm_aspace s a))) (spans s a)"

definition vmm_inv :: "'m vmm \<Rightarrow> bool" where
  "vmm_inv s \<longleftrightarrow> pmm_inv (vm_pmm s) \<and> ls_ok (vm_aspaces s) \<and> ls_ok (vm_regions s) \<and> (\<forall>a \<in> set (aspaces s). layout s a) \<and>
     (\<forall>a. a \<notin> set (aspaces s) \<longrightarrow> regions s a = []) \<and>
     (\<forall>a. \<forall>r \<in> set (regions s a). \<forall>p \<in> set (page_list (vm_pmm s) r). page_valid (vm_pmm s) p \<and> \<not> pg_free (vm_pmm s) p)"

lemma vmm_invD:
  assumes "vmm_inv s"
  shows "pmm_inv (vm_pmm s)" "ls_ok (vm_aspaces s)" "ls_ok (vm_regions s)" "a \<in> set (aspaces s) \<Longrightarrow> layout s a" "a \<notin> set (aspaces s) \<Longrightarrow> regions s a = []"
    "r \<in> set (regions s a) \<Longrightarrow> p \<in> set (page_list (vm_pmm s) r) \<Longrightarrow> page_valid (vm_pmm s) p \<and> \<not> pg_free (vm_pmm s) p"
  using assms unfolding vmm_inv_def by blast+

text \<open>What \<open>calloc\<close> returns: memory that is neither a region nor a list that is in use.\<close>

definition fresh :: "'m vmm \<Rightarrow> nat \<Rightarrow> bool" where
  "fresh s r \<longleftrightarrow> \<not> ls_in_list r (vm_regions s) \<and> page_list (vm_pmm s) r = []"

definition room :: "'m vmm \<Rightarrow> nat \<Rightarrow> nat \<Rightarrow> nat \<Rightarrow> bool" where
  "room s a v n \<longleftrightarrow> 0 < n \<and> unat (va_base (vm_aspace s a)) \<le> v \<and> v + n \<le> unat (va_base (vm_aspace s a)) + unat (va_size (vm_aspace s a)) \<and> clear_of (spans s a) v n"

text \<open>\<open>r\<close> becomes a region of \<open>a\<close> with the content \<open>rg\<close>.\<close>

definition placed :: "nat \<Rightarrow> nat \<Rightarrow> vmm_region \<Rightarrow> 'm vmm \<Rightarrow> 'm vmm \<Rightarrow> bool" where
  "placed a r rg s s' \<longleftrightarrow> room s a (unat (vr_base rg)) (unat (vr_size rg)) \<and>
     (\<exists>q ys zs. s' = s\<lparr>vm_region := (vm_region s)(r := rg), vm_regions := q\<rparr> \<and> ls_ok q \<and> regions s a = ys @ zs \<and> lcont q = (lcont (vm_regions s))(a := ys @ r # zs) \<and>
       (\<forall>y \<in> set ys. fst (span (vm_region s) y) + snd (span (vm_region s) y) \<le> unat (vr_base rg)) \<and>
       (\<forall>z \<in> set zs. unat (vr_base rg) + unat (vr_size rg) \<le> fst (span (vm_region s) z)))"

lemma fresh_regions: "vmm_inv s \<Longrightarrow> fresh s r \<Longrightarrow> r \<notin> set (regions s h)"
  using ls_ok_unlinked[OF vmm_invD(3)] by (auto simp: fresh_def)

lemma fresh_spans: "vmm_inv s \<Longrightarrow> fresh s r \<Longrightarrow> map (span ((vm_region s)(r := rg))) (regions s h) = spans s h"
  using fresh_regions by (fastforce simp: spans_def span_def)

lemma placed_inv:
  assumes v: "vmm_inv s" "a \<in> set (aspaces s)" "fresh s r" and p: "placed a r rg s s'" and al: "4096 dvd unat (vr_base rg)" "4096 dvd unat (vr_size rg)"
  shows "vmm_inv s'" "set (regions s' a) = insert r (set (regions s a))" "\<And>h. h \<noteq> a \<Longrightarrow> regions s' h = regions s h"
proof -
  from p obtain q ys zs where s': "s' = s\<lparr>vm_region := (vm_region s)(r := rg), vm_regions := q\<rparr>" "ls_ok q" "regions s a = ys @ zs" "lcont q = (lcont (vm_regions s))(a := ys @ r # zs)"
    and yz: "\<forall>y \<in> set ys. fst (span (vm_region s) y) + snd (span (vm_region s) y) \<le> unat (vr_base rg)" "\<forall>z \<in> set zs. unat (vr_base rg) + unat (vr_size rg) \<le> fst (span (vm_region s) z)"
    and rm: "room s a (unat (vr_base rg)) (unat (vr_size rg))" unfolding placed_def by blast
  let ?x = "(unat (vr_base rg), unat (vr_size rg))" let ?sp = "span (vm_region s)"
  have oth: "spans s' h = spans s h" if "h \<noteq> a" for h using fresh_spans[OF v(1,3), of rg h] that s' by (simp add: spans_def)
  have sa: "spans s a = map ?sp ys @ map ?sp zs" using s'(3) by (simp add: spans_def)
  have "map (span ((vm_region s)(r := rg))) ys = map ?sp ys" "map (span ((vm_region s)(r := rg))) zs = map ?sp zs"
    using fresh_regions[OF v(1,3), of a] s'(3) by (auto simp: span_def)
  then have sa': "spans s' a = map ?sp ys @ ?x # map ?sp zs" using s'(1,4) by (simp add: spans_def) (simp add: span_def)
  have la: "layout s a" using vmm_invD(4)[OF v(1,2)] .
  have "layout s' a"
    using la rm yz al in_order_insert[of _ _ "map ?sp ys" "map ?sp zs" "unat (vr_base rg)" "unat (vr_size rg)"]
    unfolding layout_def room_def sa sa' by (auto simp: s'(1) pages_only_def)
  moreover have "layout s' h" if "h \<in> set (aspaces s)" "h \<noteq> a" for h
    using vmm_invD(4)[OF v(1) that(1)] oth[OF that(2)] by (simp add: layout_def s'(1))
  ultimately have "\<forall>h \<in> set (aspaces s'). layout s' h" using s'(1) by (auto simp: s'(1))
  moreover have "\<forall>h. h \<notin> set (aspaces s') \<longrightarrow> regions s' h = []" using v(2) vmm_invD(5)[OF v(1)] s' by auto
  moreover have "page_valid (vm_pmm s') p \<and> \<not> pg_free (vm_pmm s') p" if "x \<in> set (regions s' h)" "p \<in> set (page_list (vm_pmm s') x)" for h x p
  proof -
    have "x \<noteq> r" using that(2) v(3) s'(1) by (auto simp: fresh_def)
    then have "x \<in> set (regions s h)" using that(1) s' by (auto split: if_splits)
    then show ?thesis using vmm_invD(6)[OF v(1)] that(2) s'(1) by simp
  qed
  ultimately show "vmm_inv s'" using vmm_invD(1-3)[OF v(1)] s'(1,2) by (simp add: vmm_inv_def)
  show "set (regions s' a) = insert r (set (regions s a))" "\<And>h. h \<noteq> a \<Longrightarrow> regions s' h = regions s h" using s' by auto
qed

section \<open>Placing regions\<close>

lemma region_inside:
  assumes "aspace_ok a" "0 < unat sz"
  shows "is_region_inside_aspace a v sz \<longleftrightarrow> unat (va_base a) \<le> unat v \<and> unat v + unat sz \<le> unat (va_base a) + unat (va_size a)"
proof -
  have e: "unat (va_base a + va_size a - 1) = unat (va_base a) + unat (va_size a) - 1" using unat_last assms(1) by (simp add: aspace_ok_def)
  have nz: "sz \<noteq> 0" using assms(2) by auto
  show ?thesis
  proof (cases "unat v + unat sz \<le> 2 ^ 32")
    case True
    then have "unat (v + sz - 1) = unat v + unat sz - 1" using unat_last assms(2) by simp
    then show ?thesis using e nz assms by (auto simp: is_region_inside_aspace_def is_inside_aspace_def aspace_ok_def word_less_nat_alt word_le_nat_alt)
  next
    case False
    have "unat (sz - 1) = unat sz - 1" using unat32_sub[of sz 1] assms(2) by simp
    moreover have "v + sz - 1 = v + (sz - 1)" by simp
    ultimately have "unat (v + sz - 1) = unat v + (unat sz - 1) - 2 ^ 32" using False unat32_lt[of v] unat32_lt[of sz] by (simp only:) (simp add: unat_plus_if')
    then have "v + sz - 1 < v" using False unat32_lt[of sz] assms(2) by (simp add: word_less_nat_alt)
    then show ?thesis using False nz assms(1) by (auto simp: is_region_inside_aspace_def aspace_ok_def)
  qed
qed

text \<open>A region goes to a given place exactly when there is room; otherwise nothing changes.\<close>

lemma add_region_to_aspace_ok:
  fixes rg :: vmm_region
  assumes v: "vmm_inv s" "a \<in> set (aspaces s)" "fresh s r"
  defines "s1 \<equiv> s\<lparr>vm_region := (vm_region s)(r := rg)\<rparr>"
  shows "if room s a (unat (vr_base rg)) (unat (vr_size rg)) then \<exists>s'. add_region_to_aspace a r s1 = Some (NO_ERROR, s') \<and> placed a r rg s s'
    else \<exists>err. err < 0 \<and> add_region_to_aspace a r s1 = Some (err, s1)"
proof -
  let ?v = "unat (vr_base rg)" let ?n = "unat (vr_size rg)" let ?e = "vr_base rg + vr_size rg - 1" let ?rg = "(vm_region s)(r := rg)"
  let ?lo = "unat (va_base (vm_aspace s a))" let ?hi = "?lo + unat (va_size (vm_aspace s a))"
  have la: "layout s a" using vmm_invD(4)[OF v(1,2)] .
  have sp: "map (span ?rg) (regions s a) = spans s a" by (rule fresh_spans[OF v(1,3)])
  have ok: "ls_ok (vm_regions s)" using vmm_invD(3)[OF v(1)] .
  have nl: "\<not> ls_in_list r (vm_regions s)" using v(3) by (simp add: fresh_def)
  have s1: "vm_region s1 = ?rg" "vm_aspace s1 = vm_aspace s" "vm_regions s1 = vm_regions s" by (simp_all add: s1_def)
  have same: "span ?rg x = span (vm_region s) x" if "x \<in> set (regions s a)" for x using that fresh_regions[OF v(1,3), of a] by (auto simp: span_def)
  show ?thesis
  proof (cases "0 < ?n \<and> ?lo \<le> ?v \<and> ?v + ?n \<le> ?hi")
    case False
    then have "vr_size rg = 0 \<or> \<not> is_region_inside_aspace (vm_aspace s a) (vr_base rg) (vr_size rg)"
      using region_inside[of "vm_aspace s a" "vr_size rg" "vr_base rg"] la by (auto simp: layout_def unat_gt_0)
    then have "add_region_to_aspace a r s1 = Some (ERR_OUT_OF_RANGE, s1)" by (simp add: add_region_to_aspace_def s1 Let_def)
    then show ?thesis using False by (auto simp: room_def)
  next
    case True
    then have i: "vr_size rg \<noteq> 0" "is_region_inside_aspace (vm_aspace s a) (vr_base rg) (vr_size rg)"
      using region_inside[of "vm_aspace s a" "vr_size rg" "vr_base rg"] la by (auto simp: layout_def)
    have h32: "?hi \<le> 2 ^ 32" using la by (simp add: layout_def aspace_ok_def)
    then have e: "unat ?e = ?v + ?n - 1" using unat_last True by simp
    have ord: "in_order ?lo ?hi (map (span ?rg) (regions s a))" using la sp by (simp add: layout_def)
    have rm: "room s a ?v ?n \<longleftrightarrow> clear_of (spans s a) ?v ?n" using True by (simp add: room_def)
    show ?thesis
    proof (cases "regions s a = [] \<or> ?v + ?n \<le> fst (span (vm_region s) (hd (regions s a)))")
      case front: True
      have after: "\<forall>z \<in> set (regions s a). ?v + ?n \<le> fst (span (vm_region s) z)"
      proof (cases "regions s a")
        case (Cons y ys)
        then have "in_order (fst (span (vm_region s) y) + snd (span (vm_region s) y)) ?hi (map (span (vm_region s)) ys)" using la Cons by (simp add: layout_def spans_def)
        then show ?thesis using in_order_mem front Cons by fastforce
      qed simp
      then have r: "room s a ?v ?n" unfolding rm by (auto simp: clear_of_def spans_def)
      from ls.add_head_law[OF ok _ _ nl] obtain q where q: "ls_add_head a r (vm_regions s) = Some q" "ls_ok q" "lcont q = (lcont (vm_regions s))(a := r # regions s a)" by blast
      have "case ls_peek_head a (vm_regions s) of None \<Rightarrow> True | Some f \<Rightarrow> ?e < vr_base (vm_region s1 f)"
        unfolding s1 using front e True same fresh_regions[OF v(1,3), of a] by (cases "regions s a") (auto simp: ls_peek_head_def word_less_nat_alt span_def)
      then have "add_region_to_aspace a r s1 = Some (NO_ERROR, s1\<lparr>vm_regions := q\<rparr>)" using i q(1) by (simp add: add_region_to_aspace_def s1 Let_def)
      moreover have "placed a r rg s (s1\<lparr>vm_regions := q\<rparr>)" unfolding placed_def using r q(2,3) after
        by (intro conjI exI[of _ q] exI[of _ "[]"] exI[of _ "regions s a"]) (simp_all add: s1_def)
      ultimately show ?thesis using r by auto
    next
      case behind: False
      have nf: "\<not> (case ls_peek_head a (vm_regions s) of None \<Rightarrow> True | Some f \<Rightarrow> ?e < vr_base (vm_region s1 f))"
        unfolding s1 using behind e True same fresh_regions[OF v(1,3), of a] by (cases "regions s a") (auto simp: ls_peek_head_def word_less_nat_alt span_def)
      note fp = find_place_ok[OF ord h32 _ _ e]
      show ?thesis
      proof (cases "find_place ?rg (vr_base rg) ?e (regions s a)")
        case None
        then have "add_region_to_aspace a r s1 = Some (ERR_NO_MEMORY, s1)" using i nf by (simp add: add_region_to_aspace_def s1 Let_def)
        moreover have "\<not> room s a ?v ?n" using fp True None behind same sp unfolding rm by (cases "regions s a") auto
        ultimately show ?thesis by simp
      next
        case (Some p)
        with fp True obtain ys zs where yz: "regions s a = ys @ p # zs" "\<forall>y \<in> set (ys @ [p]). fst (span ?rg y) + snd (span ?rg y) \<le> ?v" "\<forall>z \<in> set zs. ?v + ?n \<le> fst (span ?rg z)" by auto
        from la.add_after_law[OF ok yz(1) _ nl] obtain q where q: "ls_add_after p r (vm_regions s) = Some q" "ls_ok q" "lcont q = (lcont (vm_regions s))(a := ys @ p # r # zs)" by blast
        have "add_region_to_aspace a r s1 = Some (NO_ERROR, s1\<lparr>vm_regions := q\<rparr>)" using i nf Some q(1) by (simp add: add_region_to_aspace_def s1 Let_def)
        moreover have r: "room s a ?v ?n" unfolding rm sp[symmetric] yz(1) using yz(2,3) by (auto simp: clear_of_def)
        moreover have "placed a r rg s (s1\<lparr>vm_regions := q\<rparr>)" unfolding placed_def using r q(2,3) yz same
          by (intro conjI exI[of _ q] exI[of _ "ys @ [p]"] exI[of _ zs]) (simp_all add: s1_def)
        ultimately show ?thesis by auto
      qed
    qed
  qed
qed

text \<open>The places where a region may go: the address that was asked for, or any boundary.\<close>

definition spot_ok :: "'m vmm \<Rightarrow> nat \<Rightarrow> u32 \<Rightarrow> u32 \<Rightarrow> u8 \<Rightarrow> nat \<Rightarrow> nat \<Rightarrow> bool" where
  "spot_ok s a flags vaddr al n v \<longleftrightarrow> room s a v n \<and> (if flags AND VMM_FLAG_VALLOC_SPECIFIC \<noteq> 0 then v = unat vaddr else 2 ^ max (unat al) 12 dvd v)"

lemma page_aligned_iff: "IS_PAGE_ALIGNED x \<longleftrightarrow> 4096 dvd unat x"
proof -
  have "IS_PAGE_ALIGNED x \<longleftrightarrow> take_bit 12 x = 0" by (simp add: IS_PAGE_ALIGNED_def take_bit_eq_mask mask_eq_exp_minus_1)
  also have "\<dots> \<longleftrightarrow> unat (take_bit 12 x) = 0" by (simp only: unat_eq_0)
  finally show ?thesis using unat_modpow2[of x 12] by (simp add: modpow2_take_bit dvd_eq_mod_eq_0)
qed

lemma alloc_spot_ok:
  assumes v: "vmm_inv s" "a \<in> set (aspaces s)" and sz: "0 < unat sz" "4096 dvd unat sz" "unat al < 32"
  defines "k \<equiv> max (unat al) 12"
  shows "if \<exists>v. room s a v (unat sz) \<and> 2 ^ k dvd v
    then \<exists>v ys zs. alloc_spot a sz al fl s = Some (of_nat v, Some (if ys = [] then None else Some (last ys))) \<and> regions s a = ys @ zs \<and>
      room s a v (unat sz) \<and> 2 ^ k dvd v \<and> (\<forall>w. room s a w (unat sz) \<and> 2 ^ k dvd w \<longrightarrow> v \<le> w) \<and>
      (\<forall>y \<in> set ys. fst (span (vm_region s) y) + snd (span (vm_region s) y) \<le> v) \<and> (\<forall>z \<in> set zs. v + unat sz \<le> fst (span (vm_region s) z))
    else \<exists>before. alloc_spot a sz al fl s = Some (- 1, before)"
proof -
  let ?as = "vm_aspace s a" let ?lo = "unat (va_base ?as)" let ?hi = "?lo + unat (va_size ?as)"
  have la: "layout s a" using vmm_invD(4)[OF v] .
  have fr: "fits ?lo ?hi (map (span (vm_region s)) (regions s a)) k (unat sz) v \<longleftrightarrow> room s a v (unat sz) \<and> 2 ^ k dvd v" for v
    using sz(1) by (auto simp: fits_def room_def spans_def)
  have "4096 \<le> unat sz" using sz by (simp add: dvd_imp_le)
  moreover have k: "k < 32" "12 \<le> k" "unat (push_bit k 1 :: u32) = 2 ^ k" using sz(3) unat_push_bit1[of k] by (auto simp: k_def)
  ultimately have w: "if \<exists>v. fits ?lo ?hi (map (span (vm_region s)) (regions s a)) k (unat sz) v
    then \<exists>v ys zs. spot_walk (vm_region s) ?as (push_bit k 1) sz fl None (regions s a) = (of_nat v, Some (if ys = [] then None else Some (last ys))) \<and> regions s a = ys @ zs \<and>
      fits ?lo ?hi (map (span (vm_region s)) (regions s a)) k (unat sz) v \<and> (\<forall>w. fits ?lo ?hi (map (span (vm_region s)) (regions s a)) k (unat sz) w \<longrightarrow> v \<le> w) \<and>
      (\<forall>y \<in> set ys. fst (span (vm_region s) y) + snd (span (vm_region s) y) \<le> v) \<and> (\<forall>z \<in> set zs. v + unat sz \<le> fst (span (vm_region s) z))
    else fst (spot_walk (vm_region s) ?as (push_bit k 1) sz fl None (regions s a)) = - 1"
    using la unfolding layout_def aspace_ok_def spans_def by (intro spot_walk_ok) auto
  have "sz > 0" using sz(1) by (simp add: word_less_nat_alt)
  then have e: "alloc_spot a sz al fl s = Some (spot_walk (vm_region s) ?as (push_bit k 1) sz fl None (regions s a))"
    using sz(2) k(1) by (simp add: alloc_spot_def page_aligned_iff k_def[symmetric] DEBUG_ASSERT_def del: push_bit_of_1)
  show ?thesis
  proof (cases "\<exists>v. room s a v (unat sz) \<and> 2 ^ k dvd v")
    case True
    with w show ?thesis unfolding fr e by simp
  next
    case False
    with w have "fst (spot_walk (vm_region s) ?as (push_bit k 1) sz fl None (regions s a)) = - 1" unfolding fr by simp
    then show ?thesis using False unfolding e by (auto simp: prod_eq_iff)
  qed
qed

definition new_region :: "string \<Rightarrow> u32 \<Rightarrow> u32 \<Rightarrow> u32 \<Rightarrow> u32 \<Rightarrow> vmm_region" where
  "new_region name rf af sz x = \<lparr>vr_name = take 31 name, vr_flags = rf, vr_arch_mmu_flags = af, vr_base = x, vr_size = sz\<rparr>"

lemma new_region_sel [simp]: "vr_base (new_region name rf af sz x) = x" "vr_size (new_region name rf af sz x) = sz"
  by (simp_all add: new_region_def)

text \<open>Writing to memory that is not a region yet changes nothing.\<close>

lemma fresh_upd:
  fixes rg :: vmm_region
  assumes "vmm_inv s" "fresh s r"
  defines "s1 \<equiv> s\<lparr>vm_region := (vm_region s)(r := rg)\<rparr>"
  shows "vmm_inv s1" "room s1 a v n = room s a v n" "x \<in> set (regions s h) \<Longrightarrow> span (vm_region s1) x = span (vm_region s) x"
proof -
  have sp: "spans s1 h = spans s h" for h using fresh_spans[OF assms(1,2), of rg h] by (simp add: spans_def s1_def)
  have "layout s1 h = layout s h" for h by (simp add: layout_def sp) (simp add: s1_def)
  then show "vmm_inv s1" using assms(1) by (simp add: vmm_inv_def) (simp add: s1_def)
  show "room s1 a v n = room s a v n" by (simp add: room_def sp) (simp add: s1_def)
  show "x \<in> set (regions s h) \<Longrightarrow> span (vm_region s1) x = span (vm_region s) x" using fresh_regions[OF assms(1,2), of h] by (auto simp: s1_def span_def)
qed

lemma alloc_region_ok:
  assumes v: "vmm_inv s" "a \<in> set (aspaces s)" "\<And>r. mem = Some r \<Longrightarrow> fresh s r" and sz: "0 < unat sz" "4096 dvd unat sz" "unat al < 32"
  shows "if mem \<noteq> None \<and> (\<exists>x. spot_ok s a flags vaddr al (unat sz) x)
    then \<exists>r x s'. mem = Some r \<and> alloc_region mem a name sz vaddr al flags rf af s = Some (Some r, s') \<and>
      spot_ok s a flags vaddr al (unat sz) (unat x) \<and> (\<forall>w. spot_ok s a flags vaddr al (unat sz) w \<longrightarrow> unat x \<le> w) \<and> placed a r (new_region name rf af sz x) s s'
    else \<exists>s'. alloc_region mem a name sz vaddr al flags rf af s = Some (None, s') \<and>
      (s' = s \<or> (\<exists>r. mem = Some r \<and> s' = s\<lparr>vm_region := (vm_region s)(r := new_region name rf af sz vaddr)\<rparr>))"
proof (cases mem)
  case None
  then show ?thesis by (simp add: alloc_region_def alloc_region_struct_def)
next
  case (Some r)
  let ?rg = "new_region name rf af sz"
  define s1 where "s1 = s\<lparr>vm_region := (vm_region s)(r := ?rg vaddr)\<rparr>"
  have fr: "fresh s r" using v(3) Some .
  have st: "alloc_region_struct mem name vaddr sz rf af s = Some (Some r, s1)"
    using fr Some by (simp add: alloc_region_struct_def fresh_def ls_initialize_def DEBUG_ASSERT_def s1_def new_region_def)
  show ?thesis
  proof (cases "flags AND 1 \<noteq> 0")
    case True
    have sp: "spot_ok s a flags vaddr al (unat sz) x \<longleftrightarrow> room s a x (unat sz) \<and> x = unat vaddr" for x using True by (simp add: spot_ok_def)
    have "if room s a (unat vaddr) (unat sz) then \<exists>s'. add_region_to_aspace a r s1 = Some (NO_ERROR, s') \<and> placed a r (?rg vaddr) s s'
      else \<exists>err. err < 0 \<and> add_region_to_aspace a r s1 = Some (err, s1)"
      using add_region_to_aspace_ok[OF v(1,2) fr, of "?rg vaddr"] by (simp add: s1_def)
    then show ?thesis using Some st True unfolding sp by (auto simp: alloc_region_def s1_def split: if_splits)
  next
    case False
    have sp: "spot_ok s a flags vaddr al (unat sz) x \<longleftrightarrow> room s a x (unat sz) \<and> 2 ^ max (unat al) 12 dvd x" for x using False by (simp add: spot_ok_def)
    note u = fresh_upd[OF v(1) fr, where rg = "?rg vaddr", folded s1_def]
    have r1: "regions s1 a = regions s a" "vm_regions s1 = vm_regions s" "aspaces s1 = aspaces s" by (simp_all add: s1_def)
    note as = alloc_spot_ok[OF u(1), of a sz al af, unfolded r1 u(2), OF v(2) sz]
    show ?thesis
    proof (cases "\<exists>x. room s a x (unat sz) \<and> 2 ^ max (unat al) 12 dvd x")
      case True
      with as obtain x ys zs where x: "alloc_spot a sz al af s1 = Some (of_nat x, Some (if ys = [] then None else Some (last ys)))" "regions s a = ys @ zs"
        "room s a x (unat sz)" "2 ^ max (unat al) 12 dvd x" "\<forall>w. room s a w (unat sz) \<and> 2 ^ max (unat al) 12 dvd w \<longrightarrow> x \<le> w"
        and yz: "\<forall>y \<in> set ys. fst (span (vm_region s1) y) + snd (span (vm_region s1) y) \<le> x" "\<forall>z \<in> set zs. x + unat sz \<le> fst (span (vm_region s1) z)" by auto
      have "x < 2 ^ 32" using x(3) vmm_invD(4)[OF v(1,2)] sz(1) by (auto simp: room_def layout_def aspace_ok_def)
      then have ux: "unat (of_nat x :: u32) = x" by (simp add: unat_of_nat)
      have "4096 dvd x" using x(4) power_le_dvd[of 2 "max (unat al) 12" x 12] by simp
      then have "IS_PAGE_ALIGNED (of_nat x)" using ux by (simp add: page_aligned_iff)
      then have nx: "(of_nat x :: u32) \<noteq> - 1" by (auto simp: IS_PAGE_ALIGNED_def)
      let ?s' = "s\<lparr>vm_region := (vm_region s)(r := ?rg (of_nat x))\<rparr>"
      have nl: "\<not> ls_in_list r (vm_regions s)" using fr by (simp add: fresh_def)
      have bl: "butlast ys @ last ys # w = ys @ w" if "ys \<noteq> []" for w using that by (metis append_butlast_last_id append.assoc append_Cons append_Nil)
      have "\<exists>q. (case if ys = [] then None else Some (last ys) of None \<Rightarrow> ls_add_head a r (vm_regions s) | Some p \<Rightarrow> ls_add_after p r (vm_regions s)) = Some q \<and>
        ls_ok q \<and> lcont q = (lcont (vm_regions s))(a := ys @ r # zs)"
        using ls.add_head_law[OF vmm_invD(3)[OF v(1)] _ _ nl, of a] la.add_after_law[OF vmm_invD(3)[OF v(1)] _ _ nl, of a "butlast ys" "last ys" zs] x(2)
        by (cases "ys = []") (auto simp: bl)
      then obtain q where q: "(case if ys = [] then None else Some (last ys) of None \<Rightarrow> ls_add_head a r (vm_regions s) | Some p \<Rightarrow> ls_add_after p r (vm_regions s)) = Some q"
        "ls_ok q" "lcont q = (lcont (vm_regions s))(a := ys @ r # zs)" by blast
      have "alloc_region mem a name sz vaddr al flags rf af s = Some (Some r, ?s'\<lparr>vm_regions := q\<rparr>)"
        using st \<open>\<not> flags AND 1 \<noteq> 0\<close> x(1) nx q(1) by (cases "ys = []") (simp_all add: alloc_region_def s1_def new_region_def)
      moreover have "placed a r (?rg (of_nat x)) s (?s'\<lparr>vm_regions := q\<rparr>)" unfolding placed_def
        using x(2,3) ux q(2,3) yz u(3)[of _ a] by (intro conjI exI[of _ q] exI[of _ ys] exI[of _ zs]) auto
      ultimately have "\<exists>y s'. alloc_region mem a name sz vaddr al flags rf af s = Some (Some r, s') \<and> (room s a (unat y) (unat sz) \<and> 2 ^ max (unat al) 12 dvd unat y) \<and>
          (\<forall>w. room s a w (unat sz) \<and> 2 ^ max (unat al) 12 dvd w \<longrightarrow> unat y \<le> w) \<and> placed a r (?rg y) s s'"
        using x(3-5) ux by (intro exI[of _ "of_nat x"] exI[of _ "?s'\<lparr>vm_regions := q\<rparr>"]) simp
      moreover have c: "mem \<noteq> None \<and> (\<exists>x. spot_ok s a flags vaddr al (unat sz) x)" using Some x(3,4) unfolding sp by blast
      ultimately show ?thesis unfolding if_P[OF c] sp by (simp add: Some)
    next
      case False
      with as obtain before where "alloc_spot a sz al af s1 = Some (- 1, before)" by auto
      then have "alloc_region mem a name sz vaddr al flags rf af s = Some (None, s1)" using st \<open>\<not> flags AND 1 \<noteq> 0\<close> by (simp add: alloc_region_def)
      then show ?thesis using False Some unfolding sp by (simp add: s1_def)
    qed
  qed
qed

end
