(* ===== verification/Vmm_Ops.thy ===== *)
theory Vmm_Ops
  imports Vmm_Inv
begin

text \<open>
  What the operations of the virtual memory manager do, on every path: a region is added with its pages (\<open>vm_added\<close>) or removed
  with them (\<open>vm_removed\<close>), or nothing changes (\<open>vm_unchanged\<close>). All keep the invariant.
\<close>

section \<open>Pages of regions\<close>

lemma ls_move_head:
  assumes "ls_ok q" "lcont q h = x # xs" "h \<noteq> k"
  shows "\<exists>q1 q2. ls_remove_head h q = Some (Some x, q1) \<and> ls_add_tail k x q1 = Some q2 \<and> ls_ok q2 \<and> lcont q2 = (lcont q)(h := xs, k := lcont q k @ [x])"
proof -
  from ls.del_law[OF assms(1), of h "[]" x xs] assms(2) obtain q1 where q1: "ls_delete x q = Some q1" "ls_ok q1" "lcont q1 = (lcont q)(h := xs)" by auto
  have "x \<notin> set (lcont q1 j)" for j
    using q1(3) ls_ok_distinct[OF assms(1), of h] ls.member_unique[OF assms(1), of x h j] assms(2) by auto
  then have "\<not> ls_in_list x q1" using ls.linked_iff[OF q1(2)] by blast
  from ls.add_tail_law[OF q1(2) _ _ this, of k] obtain q2 where "ls_add_tail k x q1 = Some q2" "ls_ok q2" "lcont q2 = (lcont q1)(k := lcont q1 k @ [x])" by auto
  then show ?thesis using q1 assms(2,3) by (simp add: ls_remove_head_def ls_peek_head_def)
qed

lemma pmm_inv_lists: "pmm_inv p \<Longrightarrow> ls_ok pl \<Longrightarrow> (\<And>a. lcont pl (Free_list a) = lcont (pm_lists p) (Free_list a)) \<Longrightarrow> pmm_inv (p\<lparr>pm_lists := pl\<rparr>)"
  by (auto simp: pmm_inv_def pg_free_def)

text \<open>The pages of one list are moved to another.\<close>

definition moved :: "nat \<Rightarrow> nat \<Rightarrow> pmm \<Rightarrow> pmm \<Rightarrow> bool" where
  "moved l r p p' \<longleftrightarrow> (\<exists>pl. p' = p\<lparr>pm_lists := pl\<rparr> \<and> ls_ok pl \<and> lcont pl = (lcont (pm_lists p))(Page_list l := [], Page_list r := page_list p r @ page_list p l))"

lemma movedD:
  assumes "pmm_inv p" "moved l r p p'" "l \<noteq> r"
  shows "pmm_inv p'" "pmm_same p p'" "pg_free p' q = pg_free p q" "page_list p' m = (if m = l then [] else if m = r then page_list p r @ page_list p l else page_list p m)"
    "lcont (pm_lists p') (Free_list a) = lcont (pm_lists p) (Free_list a)"
proof -
  from assms(2) obtain pl where pl: "p' = p\<lparr>pm_lists := pl\<rparr>" "ls_ok pl" "lcont pl = (lcont (pm_lists p))(Page_list l := [], Page_list r := page_list p r @ page_list p l)" by (auto simp: moved_def)
  show "pmm_inv p'" unfolding pl(1) by (rule pmm_inv_lists[OF assms(1) pl(2)]) (simp add: pl(3))
  show "pmm_same p p'" "pg_free p' q = pg_free p q" by (simp_all add: pl(1) pmm_same_def pg_free_def)
  show "page_list p' m = (if m = l then [] else if m = r then page_list p r @ page_list p l else page_list p m)" "lcont (pm_lists p') (Free_list a) = lcont (pm_lists p) (Free_list a)"
    using pl assms(3) by auto
qed

lemma move_pages_ok:
  assumes "ls_ok (pm_lists p)" "l \<noteq> r" "page_list p l = ps"
  shows "\<exists>p'. move_pages l r (length ps) p = Some p' \<and> moved l r p p'"
  using assms
proof (induction ps arbitrary: p)
  case Nil
  then show ?case by (auto simp: moved_def intro!: exI[of _ "pm_lists p"])
next
  case (Cons x ps)
  from ls_move_head[OF Cons.prems(1,3), of "Page_list r"] Cons.prems(2) obtain q1 q2 where q: "ls_remove_head (Page_list l) (pm_lists p) = Some (Some x, q1)"
    "ls_add_tail (Page_list r) x q1 = Some q2" "ls_ok q2" "lcont q2 = (lcont (pm_lists p))(Page_list l := ps, Page_list r := page_list p r @ [x])" by auto
  from Cons.IH[of "p\<lparr>pm_lists := q2\<rparr>"] q Cons.prems(2) obtain p' where p': "move_pages l r (length ps) (p\<lparr>pm_lists := q2\<rparr>) = Some p'" "moved l r (p\<lparr>pm_lists := q2\<rparr>) p'" by auto
  have "moved l r p p'" using p'(2) q(4) Cons.prems(2,3) by (auto simp: moved_def)
  then show ?case using q(1,2) p'(1) by auto
qed

text \<open>What the loop of \<open>vmm_alloc\<close> asks of the MMU.\<close>

fun map_run :: "'m arch_mmu \<Rightarrow> nat \<Rightarrow> u32 \<Rightarrow> u32 \<Rightarrow> u32 list \<Rightarrow> 'm \<Rightarrow> 'm" where
  "map_run mmu a fl va [] m = m"
| "map_run mmu a fl va (pa # pas) m = map_run mmu a fl (va + 4096) pas (mmu_map mmu a va pa 1 fl m)"

lemma page_paddr:
  assumes "pmm_inv p" "page_valid p x"
  shows "vm_page_to_paddr x p = page_addr p x" "IS_PAGE_ALIGNED (page_addr p x)"
proof -
  show "vm_page_to_paddr x p = page_addr p x" using find_owner[OF assms] by (simp add: vm_page_to_paddr_def PAGE_ADDRESS_FROM_ARENA_def page_addr_def)
  have "4096 dvd unat (pa_base (pm_arena p (fst x)))" using assms by (auto simp: pmm_inv_def pmm_arena_ok_def page_valid_def)
  then show "IS_PAGE_ALIGNED (page_addr p x)" using dvd_unat_step[of "pa_base (pm_arena p (fst x))" "snd x"] by (simp add: page_aligned_iff page_addr_def add.commute)
qed

lemma map_pages_ok:
  assumes "pmm_inv (vm_pmm s)" "l \<noteq> r" "page_list (vm_pmm s) l = ps" "\<And>x. x \<in> set ps \<Longrightarrow> page_valid (vm_pmm s) x"
    "unat (vr_base (vm_region s r)) + unat (vr_size (vm_region s r)) \<le> 2 ^ 32"
    "unat (vr_base (vm_region s r)) \<le> unat va" "unat va + 4096 * length ps \<le> unat (vr_base (vm_region s r)) + unat (vr_size (vm_region s r))"
  shows "\<exists>p'. map_pages mmu a l r fl (length ps) va s = Some (s\<lparr>vm_pmm := p', vm_mmu := map_run mmu a fl va (map (page_addr (vm_pmm s)) ps) (vm_mmu s)\<rparr>) \<and> moved l r (vm_pmm s) p'"
  using assms
proof (induction ps arbitrary: s va)
  case Nil
  then show ?case by (auto simp: moved_def pmm_inv_def intro!: exI[of _ "vm_pmm s"] exI[of _ "pm_lists (vm_pmm s)"])
next
  case (Cons x ps)
  let ?p = "vm_pmm s" let ?r = "vm_region s r"
  have "ls_ok (pm_lists ?p)" using Cons.prems(1) by (simp add: pmm_inv_def)
  from ls_move_head[OF this Cons.prems(3), of "Page_list r"] Cons.prems(2) obtain q1 q2 where q: "ls_remove_head (Page_list l) (pm_lists ?p) = Some (Some x, q1)"
    "ls_add_tail (Page_list r) x q1 = Some q2" "ls_ok q2" "lcont q2 = (lcont (pm_lists ?p))(Page_list l := ps, Page_list r := page_list ?p r @ [x])" by auto
  define s1 where "s1 = s\<lparr>vm_pmm := ?p\<lparr>pm_lists := q2\<rparr>, vm_mmu := mmu_map mmu a va (page_addr ?p x) 1 fl (vm_mmu s)\<rparr>"
  have pa: "page_addr (?p\<lparr>pm_lists := q2\<rparr>) = page_addr ?p" by (simp add: page_addr_def fun_eq_iff)
  have i1: "pmm_inv (vm_pmm s1)" unfolding s1_def using pmm_inv_lists[OF Cons.prems(1) q(3)] q(4) by simp
  have sz: "0 < unat (vr_size ?r)" using Cons.prems(6,7) by simp
  have bd: "va \<le> vr_base ?r + vr_size ?r - 1" using unat_last[OF Cons.prems(5) sz] Cons.prems(7) by (simp add: word_le_nat_alt)
  have step: "map_pages mmu a l r fl (length (x # ps)) va s = map_pages mmu a l r fl (length ps) (va + 4096) s1"
    using q(1,2) bd page_paddr[OF Cons.prems(1), of x] Cons.prems(4) by (simp add: DEBUG_ASSERT_def s1_def)
  show ?case
  proof (cases ps)
    case Nil
    have "moved l r ?p (?p\<lparr>pm_lists := q2\<rparr>)" using q(3,4) Cons.prems(3) Nil by (auto simp: moved_def)
    then show ?thesis using step Nil by (auto simp: s1_def)
  next
    case c: (Cons y zs)
    then have "unat va + 4096 < 2 ^ 32" using Cons.prems(5,7) by simp
    then have va: "unat (va + 4096) = unat va + 4096" by (simp add: unat_plus_if')
    have "\<exists>p'. map_pages mmu a l r fl (length ps) (va + 4096) s1 = Some (s1\<lparr>vm_pmm := p', vm_mmu := map_run mmu a fl (va + 4096) (map (page_addr (vm_pmm s1)) ps) (vm_mmu s1)\<rparr>) \<and> moved l r (vm_pmm s1) p'"
    proof (rule Cons.IH[OF i1 Cons.prems(2)])
      show "page_list (vm_pmm s1) l = ps" using q(4) Cons.prems(2) by (simp add: s1_def)
      show "page_valid (vm_pmm s1) z" if "z \<in> set ps" for z using Cons.prems(4)[of z] that by (simp add: s1_def page_valid_def)
    qed (use Cons.prems(5-7) va in \<open>simp_all add: s1_def\<close>)
    then obtain p' where p': "map_pages mmu a l r fl (length ps) (va + 4096) s1 = Some (s1\<lparr>vm_pmm := p', vm_mmu := map_run mmu a fl (va + 4096) (map (page_addr (vm_pmm s1)) ps) (vm_mmu s1)\<rparr>)"
      "moved l r (vm_pmm s1) p'" by blast
    have "moved l r ?p p'" using p'(2) q(4) Cons.prems(2,3) by (auto simp: moved_def s1_def)
    then show ?thesis using step p'(1) by (auto simp: s1_def pa)
  qed
qed

lemma took_moved:
  assumes "took (Some l) ps p p1" "moved l r p1 p2" "l \<noteq> r" "page_list p l = []"
  shows "took (Some r) ps p p2"
proof -
  note m = movedD[OF tookD(1)[OF assms(1)] assms(2,3)] and t = tookD[OF assms(1)]
  have "page_list p2 m = page_list p m @ (if m = r then ps else [])" for m using m(4)[of m] t(4)[of m] t(4)[of l] t(4)[of r] assms(3,4) by (cases "m = l") auto
  then show ?thesis using assms(1) m(1,3,5) pmm_same_trans[OF t(2) m(2)] unfolding took_def by auto
qed

section \<open>Adding a region with its pages\<close>

lemma vmm_inv_pmm:
  assumes "vmm_inv s" "pmm_inv p" "\<And>h r x. r \<in> set (regions s h) \<Longrightarrow> x \<in> set (page_list p r) \<Longrightarrow> page_valid p x \<and> \<not> pg_free p x"
  shows "vmm_inv (s\<lparr>vm_pmm := p, vm_mmu := m\<rparr>)"
  using assms by (simp add: vmm_inv_def layout_def spans_def)

definition vm_added :: "nat \<Rightarrow> nat \<Rightarrow> vmm_region \<Rightarrow> vm_page list \<Rightarrow> 'm vmm \<Rightarrow> 'm vmm \<Rightarrow> bool" where
  "vm_added a r rg ps s s' \<longleftrightarrow> placed a r rg s (s'\<lparr>vm_pmm := vm_pmm s, vm_mmu := vm_mmu s\<rparr>) \<and> took (Some r) ps (vm_pmm s) (vm_pmm s')"

lemma vm_added_inv:
  assumes v: "vmm_inv s" "a \<in> set (aspaces s)" "fresh s r" and d: "vm_added a r rg ps s s'" and al: "4096 dvd unat (vr_base rg)" "4096 dvd unat (vr_size rg)"
  shows "vmm_inv s'" "set (regions s' a) = insert r (set (regions s a))" "\<And>h. h \<noteq> a \<Longrightarrow> regions s' h = regions s h" "page_list (vm_pmm s') r = ps"
proof -
  let ?t = "s'\<lparr>vm_pmm := vm_pmm s, vm_mmu := vm_mmu s\<rparr>"
  have p: "placed a r rg s ?t" and k: "took (Some r) ps (vm_pmm s) (vm_pmm s')" using d by (simp_all add: vm_added_def)
  note t = placed_inv[OF v p al] and k' = tookD[OF k]
  show "set (regions s' a) = insert r (set (regions s a))" "\<And>h. h \<noteq> a \<Longrightarrow> regions s' h = regions s h" using t(2,3) by simp_all
  show r: "page_list (vm_pmm s') r = ps" using k'(4)[of r] v(3) by (simp add: fresh_def)
  have "page_valid (vm_pmm s') x \<and> \<not> pg_free (vm_pmm s') x" if "y \<in> set (regions ?t h)" "x \<in> set (page_list (vm_pmm s') y)" for h y x
  proof (cases "y = r")
    case True
    then have x: "x \<in> set ps" using that(2) r by simp
    then have "pg_free (vm_pmm s) x" using k by (simp add: took_def)
    then show ?thesis using x k'(3)[of x] pg_free_valid pmm_same_valid[OF k'(2)] by simp
  next
    case False
    then have "x \<in> set (page_list (vm_pmm s) y)" using that(2) k'(4)[of y] by simp
    moreover have "y \<in> set (regions s h)" using that(1) t(2,3) False by (cases "h = a") auto
    ultimately show ?thesis using vmm_invD(6)[OF v(1)] k'(3)[of x] pmm_same_valid[OF k'(2)] by simp
  qed
  from vmm_inv_pmm[OF t(1) k'(1) this, where m = "vm_mmu s'"] show "vmm_inv s'" by simp
qed

text \<open>A call that fails leaves regions, mappings, free pages and page lists as they are.\<close>

definition vm_unchanged :: "'m vmm \<Rightarrow> 'm vmm \<Rightarrow> bool" where
  "vm_unchanged s s' \<longleftrightarrow> vmm_inv s' \<and> vm_aspaces s' = vm_aspaces s \<and> vm_aspace s' = vm_aspace s \<and> vm_regions s' = vm_regions s \<and>
     (\<forall>h. \<forall>r \<in> set (regions s h). vm_region s' r = vm_region s r) \<and> vm_current s' = vm_current s \<and> vm_mmu s' = vm_mmu s \<and>
     pmm_same (vm_pmm s) (vm_pmm s') \<and> (\<forall>q. pg_free (vm_pmm s') q = pg_free (vm_pmm s) q) \<and> (\<forall>m. page_list (vm_pmm s') m = page_list (vm_pmm s) m)"

lemma vm_unchanged_refl: "vmm_inv s \<Longrightarrow> vm_unchanged s s"
  by (simp add: vm_unchanged_def)

lemma vm_unchanged_fresh: "vmm_inv s \<Longrightarrow> fresh s r \<Longrightarrow> vm_unchanged s (s\<lparr>vm_region := (vm_region s)(r := rg)\<rparr>)"
  using fresh_upd(1)[of s r rg] fresh_regions[of s r] by (auto simp: vm_unchanged_def)

lemma vm_unchanged_pmm:
  assumes "vm_unchanged s t" "pmm_inv p" "pmm_same (vm_pmm s) p" "\<And>q. pg_free p q = pg_free (vm_pmm s) q" "\<And>m. page_list p m = page_list (vm_pmm s) m"
  shows "vm_unchanged s (t\<lparr>vm_pmm := p\<rparr>)"
proof -
  have "\<forall>q. pg_free (vm_pmm t) q = pg_free (vm_pmm s) q" "\<forall>m. page_list (vm_pmm t) m = page_list (vm_pmm s) m" "vmm_inv t"
    using assms(1) unfolding vm_unchanged_def by blast+
  then have t: "vmm_inv t" "\<And>q. pg_free p q = pg_free (vm_pmm t) q" "\<And>m. page_list p m = page_list (vm_pmm t) m" using assms(4,5) by metis+
  have "page_valid p x = page_valid (vm_pmm t) x" for x
    using pmm_same_valid[OF assms(3)] pmm_same_valid[of "vm_pmm s" "vm_pmm t"] assms(1) by (simp add: vm_unchanged_def)
  then have "vmm_inv (t\<lparr>vm_pmm := p, vm_mmu := vm_mmu t\<rparr>)" using vmm_invD(6)[OF t(1)] t(2,3) by (intro vmm_inv_pmm[OF t(1) assms(2)]) auto
  then have "vmm_inv (t\<lparr>vm_pmm := p\<rparr>)" by simp
  then show ?thesis using assms unfolding vm_unchanged_def by simp
qed

section \<open>Allocation\<close>

lemma roundup_pages: "4096 dvd unat (ROUNDUP sz 4096)"
  unfolding ROUNDUP_ROUNDDOWN using unat_ROUNDDOWN[of 4096 12] by simp

lemma placed_pmm:
  assumes "placed a r rg (s\<lparr>vm_pmm := p\<rparr>) t"
  shows "placed a r rg s (t\<lparr>vm_pmm := vm_pmm s, vm_mmu := vm_mmu s\<rparr>)" "vm_pmm t = p" "vm_mmu t = vm_mmu s" "vm_region t = (vm_region s)(r := rg)"
proof -
  from assms obtain q ys zs where t: "t = s\<lparr>vm_pmm := p, vm_region := (vm_region s)(r := rg), vm_regions := q\<rparr>" "ls_ok q" "regions s a = ys @ zs" "lcont q = (lcont (vm_regions s))(a := ys @ r # zs)"
    "\<forall>y \<in> set ys. fst (span (vm_region s) y) + snd (span (vm_region s) y) \<le> unat (vr_base rg)" "\<forall>z \<in> set zs. unat (vr_base rg) + unat (vr_size rg) \<le> fst (span (vm_region s) z)"
    "room s a (unat (vr_base rg)) (unat (vr_size rg))" unfolding placed_def room_def spans_def by auto
  show "placed a r rg s (t\<lparr>vm_pmm := vm_pmm s, vm_mmu := vm_mmu s\<rparr>)" unfolding placed_def
    using t by (intro conjI exI[of _ q] exI[of _ ys] exI[of _ zs]) simp_all
  show "vm_pmm t = p" "vm_mmu t = vm_mmu s" "vm_region t = (vm_region s)(r := rg)" by (simp_all add: t(1))
qed

lemma vm_fail:
  assumes "vmm_inv s" "page_list (vm_pmm s) l = []" "took (Some l) ps (vm_pmm s) p"
    and t: "t = s\<lparr>vm_pmm := p\<rparr> \<or> (\<exists>r rg. fresh s r \<and> t = s\<lparr>vm_pmm := p, vm_region := (vm_region s)(r := rg)\<rparr>)"
  shows "\<exists>c p'. pmm_free l (vm_pmm t) = Some (c, p') \<and> vm_unchanged s (t\<lparr>vm_pmm := p'\<rparr>)"
proof -
  from took_gave[OF vmm_invD(1)[OF assms(1)] assms(2,3)] obtain p' where p': "pmm_free l p = Some (of_nat (length ps), p')" "pmm_inv p'" "pmm_same (vm_pmm s) p'"
    "\<And>q. pg_free p' q = pg_free (vm_pmm s) q" "\<And>m. page_list p' m = page_list (vm_pmm s) m" by auto
  have "vm_unchanged s (t\<lparr>vm_pmm := p'\<rparr>)"
    using t vm_unchanged_pmm[OF vm_unchanged_refl[OF assms(1)] p'(2-5)] vm_unchanged_pmm[OF vm_unchanged_fresh[OF assms(1)] p'(2-5)] by auto
  moreover have "vm_pmm t = p" using t by auto
  ultimately show ?thesis using p'(1) by auto
qed

lemma vmm_inv_took:
  assumes "vmm_inv s" "\<not> ls_in_list l (vm_regions s)" "took (Some l) ps (vm_pmm s) p"
  shows "vmm_inv (s\<lparr>vm_pmm := p\<rparr>)"
proof -
  note k = tookD[OF assms(3)]
  have "page_valid p x \<and> \<not> pg_free p x" if "r \<in> set (regions s h)" "x \<in> set (page_list p r)" for h r x
  proof -
    have "r \<noteq> l" using that(1) ls_ok_unlinked[OF vmm_invD(3)[OF assms(1)] assms(2), of h] by auto
    then have "x \<in> set (page_list (vm_pmm s) r)" using that(2) k(4)[of r] by simp
    then show ?thesis using vmm_invD(6)[OF assms(1) that(1)] k(3)[of x] pmm_same_valid[OF k(2)] by simp
  qed
  from vmm_inv_pmm[OF assms(1) k(1) this, where m = "vm_mmu s"] show ?thesis by simp
qed

text \<open>The second half of an allocation: the pages \<open>ps\<close> are on the list \<open>l\<close> on the stack.\<close>

lemma alloc_region_taken:
  assumes v: "vmm_inv s" "a \<in> set (aspaces s)" "\<And>r. mem = Some r \<Longrightarrow> fresh s r \<and> r \<noteq> l" and l: "fresh s l" "took (Some l) ps (vm_pmm s) p"
    and sz: "0 < unat sz" "4096 dvd unat sz" "unat al < 32"
  shows "if mem \<noteq> None \<and> (\<exists>x. spot_ok s a flags vaddr al (unat sz) x)
    then \<exists>r x t. mem = Some r \<and> alloc_region mem a name sz vaddr al flags rf af (s\<lparr>vm_pmm := p\<rparr>) = Some (Some r, t) \<and>
      spot_ok s a flags vaddr al (unat sz) (unat x) \<and> (\<forall>w. spot_ok s a flags vaddr al (unat sz) w \<longrightarrow> unat x \<le> w) \<and>
      placed a r (new_region name rf af sz x) s (t\<lparr>vm_pmm := vm_pmm s, vm_mmu := vm_mmu s\<rparr>) \<and> vm_pmm t = p \<and> vm_mmu t = vm_mmu s \<and> vm_region t r = new_region name rf af sz x
    else \<exists>t c p'. alloc_region mem a name sz vaddr al flags rf af (s\<lparr>vm_pmm := p\<rparr>) = Some (None, t) \<and> pmm_free l (vm_pmm t) = Some (c, p') \<and>
      vm_unchanged s (t\<lparr>vm_pmm := p'\<rparr>)"
proof -
  let ?s = "s\<lparr>vm_pmm := p\<rparr>"
  have l': "\<not> ls_in_list l (vm_regions s)" "page_list (vm_pmm s) l = []" using l(1) by (simp_all add: fresh_def)
  have so: "spot_ok ?s = spot_ok s" by (simp add: spot_ok_def room_def spans_def fun_eq_iff)
  have fr: "fresh ?s r" if "mem = Some r" for r using v(3)[OF that] tookD(4)[OF l(2), of r] by (auto simp: fresh_def)
  have as: "a \<in> set (aspaces ?s)" using v(2) by simp
  have r0: "\<And>r. mem = Some r \<Longrightarrow> fresh ?s r" by (rule fr)
  note r = alloc_region_ok[where mem = mem and flags = flags and vaddr = vaddr and name = name and rf = rf and af = af, OF vmm_inv_took[OF v(1) l'(1) l(2)] as r0 sz, unfolded so]
  show ?thesis
  proof (cases "mem \<noteq> None \<and> (\<exists>x. spot_ok s a flags vaddr al (unat sz) x)")
    case True
    from r[unfolded if_P[OF True]] obtain r x t where t: "mem = Some r" "alloc_region mem a name sz vaddr al flags rf af ?s = Some (Some r, t)" "spot_ok s a flags vaddr al (unat sz) (unat x)"
      "\<forall>w. spot_ok s a flags vaddr al (unat sz) w \<longrightarrow> unat x \<le> w" "placed a r (new_region name rf af sz x) ?s t" by blast
    note q = placed_pmm[OF t(5)]
    have rg: "vm_region t r = new_region name rf af sz x" using q(4) by simp
    show ?thesis unfolding if_P[OF True] by (intro exI[of _ r] exI[of _ x] exI[of _ t] conjI) (rule t(1-4) q(1-3) rg)+
  next
    case False
    from r[unfolded if_not_P[OF False]] obtain t where t: "alloc_region mem a name sz vaddr al flags rf af ?s = Some (None, t)"
      "t = ?s \<or> (\<exists>r. mem = Some r \<and> t = ?s\<lparr>vm_region := (vm_region ?s)(r := new_region name rf af sz vaddr)\<rparr>)" by blast
    have "t = s\<lparr>vm_pmm := p\<rparr> \<or> (\<exists>r rg. fresh s r \<and> t = s\<lparr>vm_pmm := p, vm_region := (vm_region s)(r := rg)\<rparr>)" using t(2) v(3) by auto
    from vm_fail[OF v(1) l'(2) l(2) this] t(1) show ?thesis unfolding if_not_P[OF False] by blast
  qed
qed

text \<open>\<open>vmm_alloc\<close>: the pages come from the first arena, the region goes to the lowest spot; otherwise nothing changes.\<close>

definition first_free :: "'m vmm \<Rightarrow> vm_page list" where
  "first_free s = (case arenas (vm_pmm s) of [] \<Rightarrow> [] | a # _ \<Rightarrow> lcont (pm_lists (vm_pmm s)) (Free_list a))"

abbreviation (input) opt_name :: "string option \<Rightarrow> string" where "opt_name n \<equiv> (case n of None \<Rightarrow> [] | Some n \<Rightarrow> n)"
abbreviation (input) opt_addr :: "u32 \<Rightarrow> u32 option \<Rightarrow> u32" where "opt_addr flags ptr \<equiv> (if flags AND 1 \<noteq> 0 then the ptr else 0)"

lemma spot_ok_bounds:
  assumes "vmm_inv s" "a \<in> set (aspaces s)" "spot_ok s a flags vaddr al n x"
  shows "x + n \<le> 2 ^ 32"
  using assms(3) vmm_invD(4)[OF assms(1,2)] by (auto simp: spot_ok_def room_def layout_def aspace_ok_def)

lemma spot_ok_aligned: "spot_ok s a flags vaddr al n x \<Longrightarrow> (flags AND 1 \<noteq> 0 \<Longrightarrow> 4096 dvd unat vaddr) \<Longrightarrow> 4096 dvd x"
  using power_le_dvd[of 2 "max (unat al) 12" x 12] by (auto simp: spot_ok_def split: if_splits)

lemma vmm_alloc_ok:
  assumes v: "vmm_inv s" "a \<in> set (aspaces s)" "\<And>r. mem = Some r \<Longrightarrow> fresh s r \<and> r \<noteq> l" "fresh s l" "unat al < 32"
    and al: "flags AND 1 \<noteq> 0 \<Longrightarrow> 4096 dvd unat (the ptr)"
    and n: "n = ROUNDUP sz 4096" "n \<noteq> 0" and p: "flags AND 1 \<noteq> 0 \<Longrightarrow> ptr \<noteq> None"
  shows "if mem \<noteq> None \<and> (\<exists>x. spot_ok s a flags (opt_addr flags ptr) al (unat n) x) \<and> unat n div 4096 \<le> length (first_free s)
    then \<exists>r x s'. mem = Some r \<and> vmm_alloc mmu mem l a name sz ptr al flags af s = Some (NO_ERROR, map_option (\<lambda>_. x) ptr, s') \<and>
      spot_ok s a flags (opt_addr flags ptr) al (unat n) (unat x) \<and> (\<forall>w. spot_ok s a flags (opt_addr flags ptr) al (unat n) w \<longrightarrow> unat x \<le> w) \<and>
      vm_added a r (new_region (opt_name name) 2 af n x) (take (unat n div 4096) (first_free s)) s s' \<and>
      vm_mmu s' = map_run mmu a af x (map (page_addr (vm_pmm s)) (take (unat n div 4096) (first_free s))) (vm_mmu s)
    else \<exists>s'. vmm_alloc mmu mem l a name sz ptr al flags af s = Some (ERR_NO_MEMORY, ptr, s') \<and> vm_unchanged s s'"
proof -
  let ?k = "unat n div 4096" let ?fl = "first_free s" let ?ps = "take ?k ?fl"
  have nk: "unat (n div 4096) = ?k" "4096 dvd unat n" "0 < unat n" using roundup_pages n by (simp_all add: unat_div_distrib unat_gt_0)
  have l0: "page_list (vm_pmm s) l = []" using v(4) by (simp add: fresh_def)
  then have li: "ls_initialize (Page_list l) (pm_lists (vm_pmm s)) = Some (pm_lists (vm_pmm s))" by (simp add: ls_initialize_def)
  from pmm_alloc_pages_ok[OF vmm_invD(1)[OF v(1)], of "n div 4096" l] obtain p where
    p1: "pmm_alloc_pages (n div 4096) l (vm_pmm s) = Some (of_nat (min ?k (length ?fl)), p)" and p2: "took (Some l) ?ps (vm_pmm s) p" unfolding first_free_def nk by blast
  have cnt: "unat (of_nat (min ?k (length ?fl)) :: u32) = min ?k (length ?fl)" using unat32_lt[of n] by (simp add: unat_of_nat)
  have c1: "of_nat (min ?k (length ?fl)) \<le> n" using cnt by (simp add: word_le_nat_alt)
  have c2: "of_nat (min ?k (length ?fl)) < n div 4096 \<longleftrightarrow> length ?fl < ?k" using cnt nk(1) by (auto simp: word_less_nat_alt min_def)
  have pn: "\<not> (flags AND 1 \<noteq> 0 \<and> ptr = None)" using p by blast
  define va where "va = opt_addr flags ptr"
  note e = vmm_alloc_def[of mmu mem l a name sz ptr al flags af s, folded n(1) va_def, unfolded Let_def, folded va_def]
  show ?thesis
  proof (cases "length ?fl < ?k")
    case True
    from vm_fail[OF v(1) l0 p2, of "s\<lparr>vm_pmm := p\<rparr>"] obtain c p' where f: "pmm_free l p = Some (c, p')" "vm_unchanged s (s\<lparr>vm_pmm := p'\<rparr>)" by auto
    have "vmm_alloc mmu mem l a name sz ptr al flags af s = Some (ERR_NO_MEMORY, ptr, s\<lparr>vm_pmm := p'\<rparr>)"
      unfolding e using n(2) pn li p1 c1 c2 True f(1) by (simp add: DEBUG_ASSERT_def)
    then show ?thesis using f(2) True by auto
  next
    case False
    note ar = alloc_region_taken[where mem = mem and flags = flags and vaddr = va and name = "opt_name name" and rf = 2 and af = af, OF v(1,2) v(3) v(4) p2 nk(3,2) v(5)]
    show ?thesis
    proof (cases "mem \<noteq> None \<and> (\<exists>x. spot_ok s a flags va al (unat n) x)")
      case no: False
      from ar[unfolded if_not_P[OF no]] obtain t c p' where "alloc_region mem a (opt_name name) n va al flags 2 af (s\<lparr>vm_pmm := p\<rparr>) = Some (None, t)" "pmm_free l (vm_pmm t) = Some (c, p')"
        "vm_unchanged s (t\<lparr>vm_pmm := p'\<rparr>)" by blast
      then have "vmm_alloc mmu mem l a name sz ptr al flags af s = Some (ERR_NO_MEMORY, ptr, t\<lparr>vm_pmm := p'\<rparr>)"
        unfolding e using n(2) pn li p1 c1 c2 False by (simp add: DEBUG_ASSERT_def)
      then show ?thesis using no \<open>vm_unchanged s (t\<lparr>vm_pmm := p'\<rparr>)\<close> by (auto simp: va_def)
    next
      case yes: True
      from ar[unfolded if_P[OF yes]] obtain r x t where t: "mem = Some r" "alloc_region mem a (opt_name name) n va al flags 2 af (s\<lparr>vm_pmm := p\<rparr>) = Some (Some r, t)"
        "spot_ok s a flags va al (unat n) (unat x)" "\<forall>w. spot_ok s a flags va al (unat n) w \<longrightarrow> unat x \<le> w"
        "placed a r (new_region (opt_name name) 2 af n x) s (t\<lparr>vm_pmm := vm_pmm s, vm_mmu := vm_mmu s\<rparr>)" "vm_pmm t = p" "vm_mmu t = vm_mmu s" "vm_region t r = new_region (opt_name name) 2 af n x"
        by blast
      have lr: "l \<noteq> r" using v(3) t(1) by blast
      have lp: "page_list (vm_pmm t) l = ?ps" using tookD(4)[OF p2, of l] l0 t(6) by simp
      have x: "unat x + unat n \<le> 2 ^ 32" "4096 dvd unat x" using spot_ok_bounds[OF v(1,2) t(3)] spot_ok_aligned[OF t(3)] al by (auto simp: va_def)
      have pv: "page_valid p z" if "z \<in> set ?ps" for z using p2 that pg_free_valid pmm_same_valid[OF tookD(2)[OF p2]] unfolding took_def by blast
      have "length ?ps = ?k" using False by simp
      then have "unat x + 4096 * length ?ps \<le> unat x + unat n" using nk(2) by simp
      with map_pages_ok[of t l r ?ps x mmu a af] lr lp x pv tookD(1)[OF p2] t(6,8) obtain p' where
        m: "map_pages mmu a l r af (length ?ps) x t = Some (t\<lparr>vm_pmm := p', vm_mmu := map_run mmu a af x (map (page_addr p) ?ps) (vm_mmu t)\<rparr>)" "moved l r p p'" by auto
      have pa: "page_addr p = page_addr (vm_pmm s)" using pmm_sameD(3)[OF tookD(2)[OF p2]] by (simp add: page_addr_def fun_eq_iff)
      let ?s' = "t\<lparr>vm_pmm := p', vm_mmu := map_run mmu a af x (map (page_addr (vm_pmm s)) ?ps) (vm_mmu s)\<rparr>"
      have run: "vmm_alloc mmu mem l a name sz ptr al flags af s = Some (NO_ERROR, map_option (\<lambda>_. x) ptr, ?s')"
        unfolding e using n(2) pn li p1 c1 c2 False t(2,7,8) lp m(1) x(2) pa by (simp add: DEBUG_ASSERT_def page_aligned_iff)
      have add: "vm_added a r (new_region (opt_name name) 2 af n x) ?ps s ?s'"
        using t(5) took_moved[OF p2 m(2) lr l0] by (simp add: vm_added_def)
      have "vm_mmu ?s' = map_run mmu a af x (map (page_addr (vm_pmm s)) ?ps) (vm_mmu s)" by simp
      with run add t(1,3,4) yes False show ?thesis unfolding va_def by auto
    qed
  qed
qed

lemma vmm_alloc_contiguous_ok:
  assumes v: "vmm_inv s" "a \<in> set (aspaces s)" "\<And>r. mem = Some r \<Longrightarrow> fresh s r \<and> r \<noteq> l" "fresh s l" "unat al < 32"
    and n: "n = ROUNDUP sz 4096" "n \<noteq> 0" and p: "flags AND 1 \<noteq> 0 \<Longrightarrow> ptr \<noteq> None"
  shows "if mem \<noteq> None \<and> (\<exists>x. spot_ok s a flags (opt_addr flags ptr) al (unat n) x) \<and> (\<exists>b i. kmap_run (vm_pmm s) (max (unat al) 12) (unat n div 4096) b i)
    then \<exists>r x b i s'. mem = Some r \<and> vmm_alloc_contiguous mmu mem l a name sz ptr al flags af s = Some (NO_ERROR, map_option (\<lambda>_. x) ptr, s') \<and>
      spot_ok s a flags (opt_addr flags ptr) al (unat n) (unat x) \<and> (\<forall>w. spot_ok s a flags (opt_addr flags ptr) al (unat n) w \<longrightarrow> unat x \<le> w) \<and>
      kmap_run (vm_pmm s) (max (unat al) 12) (unat n div 4096) b i \<and> vm_added a r (new_region (opt_name name) 2 af n x) (map (Pair b) [i..<i + unat n div 4096]) s s' \<and>
      vm_mmu s' = mmu_map mmu a x (page_addr (vm_pmm s) (b, i)) (n div 4096) af (vm_mmu s)
    else \<exists>s'. vmm_alloc_contiguous mmu mem l a name sz ptr al flags af s = Some (ERR_NO_MEMORY, ptr, s') \<and> vm_unchanged s s'"
proof -
  let ?k = "unat n div 4096" let ?al = "max (unat al) 12"
  have nk: "unat (n div 4096) = ?k" "4096 dvd unat n" "0 < unat n" using roundup_pages n by (simp_all add: unat_div_distrib unat_gt_0)
  have k: "0 < unat (n div 4096)" "unat (n div 4096) < 2 ^ 31" using nk unat32_lt[of n] by (auto simp: dvd_imp_le div_greater_zero_iff)
  have l0: "page_list (vm_pmm s) l = []" using v(4) by (simp add: fresh_def)
  then have li: "ls_initialize (Page_list l) (pm_lists (vm_pmm s)) = Some (pm_lists (vm_pmm s))" by (simp add: ls_initialize_def)
  have pn: "\<not> (flags AND 1 \<noteq> 0 \<and> ptr = None)" using p by blast
  have c0: "0 < n div 4096" using k(1) by (simp add: word_less_nat_alt)
  define va where "va = opt_addr flags ptr"
  note e = vmm_alloc_contiguous_def[of mmu mem l a name sz ptr al flags af s, folded n(1) va_def, unfolded Let_def, folded va_def]
  note pc = pmm_alloc_contiguous_ok[OF vmm_invD(1)[OF v(1)] v(5) k, of "Some l", unfolded nk(1)]
  show ?thesis
  proof (cases "\<exists>b i. kmap_run (vm_pmm s) ?al ?k b i")
    case False
    then have "pmm_alloc_contiguous (n div 4096) al (Some l) (vm_pmm s) = Some (0, None, vm_pmm s)" using pc by simp
    then have "vmm_alloc_contiguous mmu mem l a name sz ptr al flags af s = Some (ERR_NO_MEMORY, ptr, s)"
      unfolding e using n(2) pn li c0 by (simp add: DEBUG_ASSERT_def)
    then show ?thesis using False vm_unchanged_refl[OF v(1)] by auto
  next
    case True
    from pc[unfolded if_P[OF True]] obtain b i p where run: "kmap_run (vm_pmm s) ?al ?k b i"
      "pmm_alloc_contiguous (n div 4096) al (Some l) (vm_pmm s) = Some (n div 4096, Some (pa_base (pm_arena (vm_pmm s) b) + of_nat i * 4096), p)"
      and p2: "took (Some l) (map (Pair b) [i..<i + ?k]) (vm_pmm s) p" by blast
    let ?pa = "page_addr (vm_pmm s) (b, i)" let ?ps = "map (Pair b) [i..<i + ?k]"
    have pa: "pa_base (pm_arena (vm_pmm s) b) + of_nat i * 4096 = ?pa" by (simp add: page_addr_def)
    note ar = alloc_region_taken[where mem = mem and flags = flags and vaddr = va and name = "opt_name name" and rf = 2 and af = af, OF v(1,2) v(3) v(4) p2 nk(3,2) v(5)]
    show ?thesis
    proof (cases "mem \<noteq> None \<and> (\<exists>x. spot_ok s a flags va al (unat n) x)")
      case no: False
      from ar[unfolded if_not_P[OF no]] obtain t c p' where t: "alloc_region mem a (opt_name name) n va al flags 2 af (s\<lparr>vm_pmm := p\<rparr>) = Some (None, t)" "pmm_free l (vm_pmm t) = Some (c, p')"
        "vm_unchanged s (t\<lparr>vm_pmm := p'\<rparr>)" by blast
      then have "vmm_alloc_contiguous mmu mem l a name sz ptr al flags af s = Some (ERR_NO_MEMORY, ptr, t\<lparr>vm_pmm := p'\<rparr>)"
        unfolding e using n(2) pn li run(2) by simp
      then show ?thesis using no t(3) by (auto simp: va_def)
    next
      case yes: True
      from ar[unfolded if_P[OF yes]] obtain r x t where t: "mem = Some r" "alloc_region mem a (opt_name name) n va al flags 2 af (s\<lparr>vm_pmm := p\<rparr>) = Some (Some r, t)"
        "spot_ok s a flags va al (unat n) (unat x)" "\<forall>w. spot_ok s a flags va al (unat n) w \<longrightarrow> unat x \<le> w"
        "placed a r (new_region (opt_name name) 2 af n x) s (t\<lparr>vm_pmm := vm_pmm s, vm_mmu := vm_mmu s\<rparr>)" "vm_pmm t = p" "vm_mmu t = vm_mmu s" "vm_region t r = new_region (opt_name name) 2 af n x"
        by blast
      have lr: "l \<noteq> r" using v(3) t(1) by blast
      have lp: "page_list p l = ?ps" using tookD(4)[OF p2, of l] l0 by simp
      have "ls_ok (pm_lists p)" using tookD(1)[OF p2] by (simp add: pmm_inv_def)
      from move_pages_ok[OF this lr lp] obtain p' where m: "move_pages l r (length ?ps) p = Some p'" "moved l r p p'" by blast
      let ?s' = "t\<lparr>vm_mmu := mmu_map mmu a x ?pa (n div 4096) af (vm_mmu s), vm_pmm := p'\<rparr>"
      have "vmm_alloc_contiguous mmu mem l a name sz ptr al flags af s = Some (NO_ERROR, map_option (\<lambda>_. x) ptr, ?s')"
        unfolding e using n(2) pn li run(2) t(2,6-8) lp m(1) pa by simp
      moreover have "vm_added a r (new_region (opt_name name) 2 af n x) ?ps s ?s'"
        using t(5) took_moved[OF p2 m(2) lr l0] by (simp add: vm_added_def)
      moreover have "vm_mmu ?s' = mmu_map mmu a x ?pa (n div 4096) af (vm_mmu s)" by simp
      moreover have c: "mem \<noteq> None \<and> (\<exists>x. spot_ok s a flags (opt_addr flags ptr) al (unat n) x) \<and> (\<exists>b i. kmap_run (vm_pmm s) ?al ?k b i)" using yes True by (simp add: va_def)
      ultimately show ?thesis using t(1,3,4) run(1) unfolding if_P[OF c] va_def by blast
    qed
  qed
qed

lemma placed_added:
  assumes "vmm_inv s" "placed a r rg s t"
  shows "vm_added a r rg [] s (t\<lparr>vm_mmu := m\<rparr>)"
proof -
  have "vm_pmm t = vm_pmm s" "vm_mmu t = vm_mmu s" using assms(2) by (auto simp: placed_def)
  then have "t\<lparr>vm_pmm := vm_pmm s, vm_mmu := vm_mmu s\<rparr> = t" by simp
  then show ?thesis using assms took_refl[OF vmm_invD(1)[OF assms(1)]] \<open>vm_pmm t = vm_pmm s\<close> by (simp add: vm_added_def)
qed

lemma alloc_region_failed:
  assumes "vmm_inv s" "\<And>r. mem = Some r \<Longrightarrow> fresh s r" "s' = s \<or> (\<exists>r. mem = Some r \<and> s' = s\<lparr>vm_region := (vm_region s)(r := rg)\<rparr>)"
  shows "vm_unchanged s s'"
  using assms vm_unchanged_refl vm_unchanged_fresh by blast

lemma vmm_alloc_physical_ok:
  assumes v: "vmm_inv s" "a \<in> set (aspaces s)" "\<And>r. mem = Some r \<Longrightarrow> fresh s r" "unat al < 32"
    and n: "4096 dvd unat n" "n \<noteq> 0" "4096 dvd unat pa" and p: "flags AND 1 \<noteq> 0 \<Longrightarrow> ptr \<noteq> None"
  shows "if mem \<noteq> None \<and> (\<exists>x. spot_ok s a flags (opt_addr flags ptr) al (unat n) x)
    then \<exists>r x s'. mem = Some r \<and> vmm_alloc_physical mmu mem a name n ptr al pa flags af s = Some (NO_ERROR, map_option (\<lambda>_. x) ptr, s') \<and>
      spot_ok s a flags (opt_addr flags ptr) al (unat n) (unat x) \<and> (\<forall>w. spot_ok s a flags (opt_addr flags ptr) al (unat n) w \<longrightarrow> unat x \<le> w) \<and>
      vm_added a r (new_region (opt_name name) 2 af n x) [] s s' \<and> vm_mmu s' = mmu_map mmu a x pa (n div 4096) af (vm_mmu s)
    else \<exists>s'. vmm_alloc_physical mmu mem a name n ptr al pa flags af s = Some (ERR_NO_MEMORY, ptr, s') \<and> vm_unchanged s s'"
proof -
  define va where "va = opt_addr flags ptr"
  have pn: "\<not> (flags AND 1 \<noteq> 0 \<and> ptr = None)" using p by blast
  have n0: "0 < unat n" using n(2) by (simp add: unat_gt_0)
  note e = vmm_alloc_physical_def[of mmu mem a name n ptr al pa flags af s, folded va_def, unfolded Let_def, folded va_def]
  note ar = alloc_region_ok[where mem = mem and flags = flags and vaddr = va and name = "opt_name name" and rf = 2 and af = af, OF v(1,2) v(3) n0 n(1) v(4)]
  show ?thesis
  proof (cases "mem \<noteq> None \<and> (\<exists>x. spot_ok s a flags va al (unat n) x)")
    case True
    from ar[unfolded if_P[OF True]] obtain r x t where t: "mem = Some r" "alloc_region mem a (opt_name name) n va al flags 2 af s = Some (Some r, t)"
      "spot_ok s a flags va al (unat n) (unat x)" "\<forall>w. spot_ok s a flags va al (unat n) w \<longrightarrow> unat x \<le> w" "placed a r (new_region (opt_name name) 2 af n x) s t" by blast
    have "vm_region t r = new_region (opt_name name) 2 af n x" "vm_mmu t = vm_mmu s" using t(5) by (auto simp: placed_def)
    then have "vmm_alloc_physical mmu mem a name n ptr al pa flags af s = Some (NO_ERROR, map_option (\<lambda>_. x) ptr, t\<lparr>vm_mmu := mmu_map mmu a x pa (n div 4096) af (vm_mmu s)\<rparr>)"
      unfolding e using n pn t(2) by (simp add: DEBUG_ASSERT_def page_aligned_iff)
    moreover have "vm_mmu (t\<lparr>vm_mmu := mmu_map mmu a x pa (n div 4096) af (vm_mmu s)\<rparr>) = mmu_map mmu a x pa (n div 4096) af (vm_mmu s)" by simp
    ultimately show ?thesis using t(1,3,4) placed_added[OF v(1) t(5)] unfolding if_P[OF True[unfolded va_def]] va_def by blast
  next
    case False
    from ar[unfolded if_not_P[OF False]] obtain t where t: "alloc_region mem a (opt_name name) n va al flags 2 af s = Some (None, t)"
      "t = s \<or> (\<exists>r. mem = Some r \<and> t = s\<lparr>vm_region := (vm_region s)(r := new_region (opt_name name) 2 af n va)\<rparr>)" by blast
    have "vmm_alloc_physical mmu mem a name n ptr al pa flags af s = Some (ERR_NO_MEMORY, ptr, t)"
      unfolding e using n pn t(1) by (simp add: DEBUG_ASSERT_def page_aligned_iff)
    then show ?thesis using alloc_region_failed[OF v(1) v(3) t(2)] False by (auto simp: va_def)
  qed
qed

section \<open>Reserving\<close>

lemma inside_aspace:
  assumes "aspace_ok a"
  shows "is_inside_aspace a v \<longleftrightarrow> unat (va_base a) \<le> unat v \<and> unat v < unat (va_base a) + unat (va_size a)"
proof -
  have "unat (va_base a + va_size a - 1) = unat (va_base a) + unat (va_size a) - 1" using unat_last assms by (simp add: aspace_ok_def)
  then show ?thesis using assms by (auto simp: is_inside_aspace_def word_le_nat_alt aspace_ok_def)
qed

lemma trim_to_aspace_ok:
  assumes a: "aspace_ok a" "is_inside_aspace a v" "4096 dvd unat v" "4096 dvd unat n" "n \<noteq> 0"
  shows "\<exists>m. trim_to_aspace a v n = Some m \<and> unat m = min (unat n) (unat (va_base a) + unat (va_size a) - unat v)"
proof -
  let ?off = "v - va_base a" let ?b = "unat (va_base a)" let ?z = "unat (va_size a)"
  have i: "?b \<le> unat v" "unat v < ?b + ?z" using inside_aspace[OF a(1)] a(2) by auto
  have al: "4096 dvd ?b" "4096 dvd ?z" "0 < ?z" using a(1) by (simp_all add: aspace_ok_def)
  have off: "unat ?off = unat v - ?b" using i(1) by (simp add: unat_sub word_le_nat_alt)
  have z1: "unat (va_size a - 1) = ?z - 1" using unat32_sub[of "va_size a" 1] al(3) by simp
  have zo: "unat (va_size a - ?off) = ?b + ?z - unat v" using unat_sub[of ?off "va_size a"] off i by (simp add: word_le_nat_alt)
  define m1 where "m1 = (if ?off + n < ?off then - 1 - ?off - 1 else n)"
  have r: "trim_to_aspace a v n = Some (if ?off + m1 \<ge> va_size a - 1 then va_size a - ?off else m1)"
    using a(2,5) by (simp add: trim_to_aspace_def DEBUG_ASSERT_def Let_def m1_def)
  show ?thesis
  proof (cases "unat ?off + unat n < 2 ^ 32")
    case True
    then have on: "unat (?off + n) = unat ?off + unat n" by (simp add: unat_plus_if')
    then have m1: "m1 = n" by (simp add: m1_def word_less_nat_alt)
    have "4096 dvd unat ?off + unat n" using off al(1) a(3,4) by (simp add: dvd_diff_nat)
    then have "?off + n \<ge> va_size a - 1 \<longleftrightarrow> unat ?off + unat n \<ge> ?z" using on z1 al(2,3) by (auto simp: word_le_nat_alt dvd_def)
    then show ?thesis using r zo off i m1 by auto
  next
    case False
    then have "unat (?off + n) = unat ?off + unat n - 2 ^ 32" by (simp add: unat_plus_if')
    then have "?off + n < ?off" using False unat32_lt[of n] by (simp add: word_less_nat_alt)
    then have "?off + m1 = - 2" by (simp add: m1_def)
    moreover have "va_size a - 1 \<le> - 2" 
    proof -
      have "unat (- 2 :: u32) = 2 ^ 32 - 2" by simp
      then show ?thesis using z1 unat32_lt[of "va_size a"] by (simp add: word_le_nat_alt)
    qed
    ultimately have "trim_to_aspace a v n = Some (va_size a - ?off)" using r by simp
    then show ?thesis using zo False off i unat32_lt[of "va_size a"] by (auto simp: min_def)
  qed
qed

lemma vmm_reserve_space_ok:
  assumes v: "vmm_inv s" "a \<in> set (aspaces s)" "\<And>r. mem = Some r \<Longrightarrow> fresh s r" and n: "4096 dvd unat n" "n \<noteq> 0" "4096 dvd unat x"
  defines "lo \<equiv> unat (va_base (vm_aspace s a))"
  defines "hi \<equiv> lo + unat (va_size (vm_aspace s a))"
  defines "m \<equiv> min (unat n) (hi - unat x)"
  shows "if \<not> (lo \<le> unat x \<and> unat x < hi) then vmm_reserve_space mmu mem a name n x s = Some (ERR_OUT_OF_RANGE, s)
    else if mem \<noteq> None \<and> room s a (unat x) m
    then \<exists>r s' fl. mem = Some r \<and> vmm_reserve_space mmu mem a name n x s = Some (NO_ERROR, s') \<and> vm_added a r (new_region (opt_name name) 1 fl (of_nat m) x) [] s s' \<and> vm_mmu s' = vm_mmu s
    else \<exists>s'. vmm_reserve_space mmu mem a name n x s = Some (ERR_NO_MEMORY, s') \<and> vm_unchanged s s'"
proof -
  have aok: "aspace_ok (vm_aspace s a)" using vmm_invD(4)[OF v(1,2)] by (simp add: layout_def)
  have ins: "is_inside_aspace (vm_aspace s a) x \<longleftrightarrow> lo \<le> unat x \<and> unat x < hi" using inside_aspace[OF aok] by (simp add: lo_def hi_def)
  define fl where "fl = (case mmu_query mmu a x (vm_mmu s) of (_, Some (_, fl)) \<Rightarrow> fl | (_, None) \<Rightarrow> 0)"
  note e = vmm_reserve_space_def[of mmu mem a name n x s, unfolded Let_def, folded fl_def]
  show ?thesis
  proof (cases "lo \<le> unat x \<and> unat x < hi")
    case False
    then show ?thesis unfolding e using n ins by (simp add: DEBUG_ASSERT_def page_aligned_iff)
  next
    case True
    from trim_to_aspace_ok[OF aok _ n(3,1,2)] True ins obtain m' where m': "trim_to_aspace (vm_aspace s a) x n = Some m'" "unat m' = m" by (auto simp: m_def hi_def lo_def)
    have mm: "m' = of_nat m" by (simp add: m'(2)[symmetric])
    have "0 < m" using True n(2) by (simp add: m_def unat_gt_0)
    moreover have "4096 dvd m" using n aok by (auto simp: m_def hi_def lo_def aspace_ok_def min_def intro!: dvd_diff_nat)
    ultimately have mo: "0 < unat m'" "4096 dvd unat m'" using m'(2) by simp_all
    have z: "unat (0 :: u8) < 32" by simp
    note ar = alloc_region_ok[where mem = mem and flags = 1 and vaddr = x and name = "opt_name name" and rf = 1 and af = fl, OF v(1,2) v(3) mo z, unfolded m'(2)]
    have sp: "(\<exists>y. spot_ok s a 1 x 0 m y) \<longleftrightarrow> room s a (unat x) m" by (simp add: spot_ok_def)
    have run: "vmm_reserve_space mmu mem a name n x s = Option.bind (alloc_region mem a (opt_name name) m' x 0 1 1 fl s) (\<lambda>(r, s). Some (if r = None then ERR_NO_MEMORY else NO_ERROR, s))"
      unfolding e using n ins True m'(1) by (simp add: DEBUG_ASSERT_def page_aligned_iff)
    show ?thesis
    proof (cases "mem \<noteq> None \<and> room s a (unat x) m")
      case yes: True
      from ar[unfolded sp, unfolded if_P[OF yes]] obtain r y t where t: "mem = Some r" "alloc_region mem a (opt_name name) m' x 0 1 1 fl s = Some (Some r, t)"
        "spot_ok s a 1 x 0 m (unat y)" "placed a r (new_region (opt_name name) 1 fl m' y) s t" by blast
      have "y = x" using t(3) by (simp add: spot_ok_def word_unat_eq_iff)
      with placed_added[OF v(1) t(4), of "vm_mmu t"] have "vm_added a r (new_region (opt_name name) 1 fl (of_nat m) x) [] s t" by (simp add: mm)
      moreover have "vm_mmu t = vm_mmu s" using t(4) by (auto simp: placed_def)
      moreover have "vmm_reserve_space mmu mem a name n x s = Some (NO_ERROR, t)" using run t(2) by simp
      ultimately show ?thesis using True yes t(1) by auto
    next
      case no: False
      from ar[unfolded sp, unfolded if_not_P[OF no]] obtain t where t: "alloc_region mem a (opt_name name) m' x 0 1 1 fl s = Some (None, t)"
        "t = s \<or> (\<exists>r. mem = Some r \<and> t = s\<lparr>vm_region := (vm_region s)(r := new_region (opt_name name) 1 fl m' x)\<rparr>)" by blast
      then have "vmm_reserve_space mmu mem a name n x s = Some (ERR_NO_MEMORY, t)" using run by simp
      then show ?thesis using alloc_region_failed[OF v(1) v(3) t(2)] True no by auto
    qed
  qed
qed

section \<open>Removing regions\<close>

lemma vmm_find_region_ok:
  assumes v: "vmm_inv s" "a \<in> set (aspaces s)"
  shows "vmm_find_region a x s = Some r \<longleftrightarrow> r \<in> set (regions s a) \<and> fst (span (vm_region s) r) \<le> unat x \<and> unat x < fst (span (vm_region s) r) + snd (span (vm_region s) r)"
proof -
  let ?sp = "span (vm_region s)"
  have la: "layout s a" using vmm_invD(4)[OF v] .
  let ?hi = "unat (va_base (vm_aspace s a)) + unat (va_size (vm_aspace s a))"
  have ord: "in_order (unat (va_base (vm_aspace s a))) ?hi (spans s a)" "?hi \<le> 2 ^ 32" using la by (simp_all add: layout_def aspace_ok_def)
  have hit: "x \<ge> vr_base (vm_region s y) \<and> x \<le> vr_base (vm_region s y) + vr_size (vm_region s y) - 1 \<longleftrightarrow> fst (?sp y) \<le> unat x \<and> unat x < fst (?sp y) + snd (?sp y)"
    if "y \<in> set (regions s a)" for y
  proof -
    have "0 < snd (?sp y)" "fst (?sp y) + snd (?sp y) \<le> 2 ^ 32" using in_order_mem[OF ord(1), of "?sp y"] ord(2) that by (auto simp: spans_def)
    then show ?thesis using unat_last[of "vr_base (vm_region s y)" "vr_size (vm_region s y)"] by (auto simp: span_def word_le_nat_alt)
  qed
  have uni: "y = z" if y: "y \<in> set (regions s a)" and that: "z \<in> set (regions s a)" "fst (?sp y) \<le> unat x" "unat x < fst (?sp y) + snd (?sp y)"
    "fst (?sp z) \<le> unat x" "unat x < fst (?sp z) + snd (?sp z)" for y z
  proof (rule ccontr)
    assume "y \<noteq> z"
    obtain ys zs where yz: "regions s a = ys @ y # zs" using split_list[OF y] by blast
    with in_order_disjoint[of _ _ "map ?sp ys" "?sp y" "map ?sp zs"] ord(1) have "clear_of (map ?sp (ys @ zs)) (fst (?sp y)) (snd (?sp y))" by (simp add: spans_def)
    moreover have "z \<in> set (ys @ zs)" using that(1) yz \<open>y \<noteq> z\<close> by auto
    ultimately have "fst (?sp y) + snd (?sp y) \<le> fst (?sp z) \<or> fst (?sp z) + snd (?sp z) \<le> fst (?sp y)" unfolding clear_of_def by (metis image_eqI list.set_map)
    then show False using that(2-5) by linarith
  qed
  show ?thesis
  proof
    assume "vmm_find_region a x s = Some r"
    then have "r \<in> set (regions s a)" "x \<ge> vr_base (vm_region s r) \<and> x \<le> vr_base (vm_region s r) + vr_size (vm_region s r) - 1"
      by (auto simp: vmm_find_region_def find_Some_iff)
    then show "r \<in> set (regions s a) \<and> fst (?sp r) \<le> unat x \<and> unat x < fst (?sp r) + snd (?sp r)" using hit by blast
  next
    assume r: "r \<in> set (regions s a) \<and> fst (?sp r) \<le> unat x \<and> unat x < fst (?sp r) + snd (?sp r)"
    then have "vmm_find_region a x s \<noteq> None" using hit by (auto simp: vmm_find_region_def find_None_iff)
    then obtain y where y: "vmm_find_region a x s = Some y" by auto
    then have "y \<in> set (regions s a)" "x \<ge> vr_base (vm_region s y) \<and> x \<le> vr_base (vm_region s y) + vr_size (vm_region s y) - 1"
      by (auto simp: vmm_find_region_def find_Some_iff)
    then have "y = r" using hit uni r by blast
    then show "vmm_find_region a x s = Some r" using y by simp
  qed
qed

definition vm_removed :: "nat \<Rightarrow> nat \<Rightarrow> 'm vmm \<Rightarrow> 'm vmm \<Rightarrow> bool" where
  "vm_removed a r s s' \<longleftrightarrow> (\<exists>ys zs q m p. regions s a = ys @ r # zs \<and> ls_ok q \<and> lcont q = (lcont (vm_regions s))(a := ys @ zs) \<and>
     s' = s\<lparr>vm_regions := q, vm_mmu := m, vm_pmm := p\<rparr>) \<and> gave r (set (page_list (vm_pmm s) r)) (vm_pmm s) (vm_pmm s')"

lemma vm_removed_inv:
  assumes v: "vmm_inv s" "a \<in> set (aspaces s)" and d: "vm_removed a r s s'"
  shows "vmm_inv s'" "regions s' a = remove1 r (regions s a)" "\<And>h. h \<noteq> a \<Longrightarrow> regions s' h = regions s h"
proof -
  from d obtain ys zs q m p where s': "regions s a = ys @ r # zs" "ls_ok q" "lcont q = (lcont (vm_regions s))(a := ys @ zs)" "s' = s\<lparr>vm_regions := q, vm_mmu := m, vm_pmm := p\<rparr>"
    and g: "gave r (set (page_list (vm_pmm s) r)) (vm_pmm s) p" by (auto simp: vm_removed_def)
  let ?t = "s\<lparr>vm_regions := q\<rparr>"
  have "r \<notin> set ys" using ls_ok_split[OF vmm_invD(3)[OF v(1)] s'(1)] by blast
  then show "regions s' a = remove1 r (regions s a)" using s' by (simp add: remove1_append)
  show "\<And>h. h \<noteq> a \<Longrightarrow> regions s' h = regions s h" using s' by simp
  have sub: "set (regions ?t h) \<subseteq> set (regions s h)" for h using s' by auto
  have rn: "r \<notin> set (regions ?t h)" for h
    using s' ls_ok_split[OF vmm_invD(3)[OF v(1)] s'(1)] ls.member_unique[OF vmm_invD(3)[OF v(1)], of r a h] by auto
  have "layout ?t h" if "h \<in> set (aspaces s)" for h
    using vmm_invD(4)[OF v(1) that] s' in_order_remove[of _ _ "map (span (vm_region s)) ys" "span (vm_region s) r"]
    by (cases "h = a") (auto simp: layout_def spans_def pages_only_def)
  moreover have "\<forall>h. \<forall>y \<in> set (regions ?t h). \<forall>x \<in> set (page_list (vm_pmm s) y). page_valid (vm_pmm s) x \<and> \<not> pg_free (vm_pmm s) x"
    using vmm_invD(6)[OF v(1)] sub by blast
  ultimately have t: "vmm_inv ?t" using v(2) vmm_invD(1,2,5)[OF v(1)] s'(2,3) unfolding vmm_inv_def by auto
  have gp: "pmm_inv p" "pmm_same (vm_pmm s) p" "\<And>q. pg_free p q \<longleftrightarrow> pg_free (vm_pmm s) q \<or> q \<in> set (page_list (vm_pmm s) r)" "\<And>m. m \<noteq> r \<Longrightarrow> page_list p m = page_list (vm_pmm s) m"
    using g unfolding gave_def by blast+
  have "page_valid p x \<and> \<not> pg_free p x" if y: "y \<in> set (regions ?t h)" and x: "x \<in> set (page_list p y)" for h y x
  proof -
    have "y \<noteq> r" using rn y by blast
    then have x': "x \<in> set (page_list (vm_pmm s) y)" using x gp(4) by simp
    have "ls_ok (pm_lists (vm_pmm s))" using vmm_invD(1)[OF v(1)] by (simp add: pmm_inv_def)
    then have "x \<notin> set (page_list (vm_pmm s) r)" using ls.member_unique[of _ x "Page_list y" "Page_list r"] x' \<open>y \<noteq> r\<close> by blast
    then show ?thesis using vmm_invD(6)[OF v(1), of y h x] sub y x' gp(3) pmm_same_valid[OF gp(2)] by blast
  qed
  then have "vmm_inv (?t\<lparr>vm_pmm := p, vm_mmu := m\<rparr>)" by (rule vmm_inv_pmm[OF t gp(1)])
  moreover have "s' = ?t\<lparr>vm_pmm := p, vm_mmu := m\<rparr>" using s'(4) by simp
  ultimately show "vmm_inv s'" by simp
qed

lemma vmm_free_region_ok:
  assumes v: "vmm_inv s" "a \<in> set (aspaces s)"
  shows "case vmm_find_region a x s of None \<Rightarrow> vmm_free_region mmu a x s = Some (ERR_NOT_FOUND, s)
    | Some r \<Rightarrow> \<exists>s'. vmm_free_region mmu a x s = Some (NO_ERROR, s') \<and> vm_removed a r s s' \<and>
        vm_mmu s' = mmu_unmap mmu a (vr_base (vm_region s r)) (vr_size (vm_region s r) div 4096) (vm_mmu s)"
proof (cases "vmm_find_region a x s")
  case None
  then show ?thesis by (simp add: vmm_free_region_def)
next
  case (Some r)
  then have r: "r \<in> set (regions s a)" using vmm_find_region_ok[OF v] by blast
  then obtain ys zs where yz: "regions s a = ys @ r # zs" by (meson split_list)
  from ls.del_law[OF vmm_invD(3)[OF v(1)] yz] obtain q where q: "ls_delete r (vm_regions s) = Some q" "ls_ok q" "lcont q = (lcont (vm_regions s))(a := ys @ zs)" by blast
  from pmm_free_ok[OF vmm_invD(1)[OF v(1)], of r] vmm_invD(6)[OF v(1) r] obtain p where p: "pmm_free r (vm_pmm s) = Some (of_nat (length (page_list (vm_pmm s) r)), p)"
    "gave r (set (page_list (vm_pmm s) r)) (vm_pmm s) p" by auto
  let ?m = "mmu_unmap mmu a (vr_base (vm_region s r)) (vr_size (vm_region s r) div 4096) (vm_mmu s)"
  let ?s' = "s\<lparr>vm_regions := q, vm_mmu := ?m, vm_pmm := p\<rparr>"
  have "vmm_free_region mmu a x s = Some (NO_ERROR, ?s')" using Some q(1) p(1) by (simp add: vmm_free_region_def)
  moreover have "vm_removed a r s ?s'" unfolding vm_removed_def using yz q(2,3) p(2)
    by (intro conjI exI[of _ ys] exI[of _ zs] exI[of _ q] exI[of _ ?m] exI[of _ p]) simp_all
  ultimately show ?thesis using Some by auto
qed

text \<open>Removing a region that has just been added gives back the regions and the pages.\<close>

lemma added_removed:
  assumes v: "vmm_inv s" "a \<in> set (aspaces s)" "fresh s r" and d: "vm_added a r rg ps s t" "vm_removed a r t u"
  shows "regions u h = regions s h" "\<And>y. y \<in> set (regions s h) \<Longrightarrow> vm_region u y = vm_region s y" "pg_free (vm_pmm u) q = pg_free (vm_pmm s) q" "page_list (vm_pmm u) m = page_list (vm_pmm s) m"
proof -
  from d(1) obtain q ys zs where t: "t\<lparr>vm_pmm := vm_pmm s, vm_mmu := vm_mmu s\<rparr> = s\<lparr>vm_region := (vm_region s)(r := rg), vm_regions := q\<rparr>" "regions s a = ys @ zs" "lcont q = (lcont (vm_regions s))(a := ys @ r # zs)"
    and k: "took (Some r) ps (vm_pmm s) (vm_pmm t)" unfolding vm_added_def placed_def by blast
  have t': "vm_regions t = q" "vm_region t = (vm_region s)(r := rg)" using arg_cong[OF t(1), of vm_regions] arg_cong[OF t(1), of vm_region] by simp_all
  from d(2) obtain ys' zs' q' m' p' where u: "regions t a = ys' @ r # zs'" "lcont q' = (lcont (vm_regions t))(a := ys' @ zs')" "u = t\<lparr>vm_regions := q', vm_mmu := m', vm_pmm := p'\<rparr>"
    and g: "gave r (set (page_list (vm_pmm t) r)) (vm_pmm t) p'" by (auto simp: vm_removed_def)
  have nr: "r \<notin> set (ys @ zs)" using fresh_regions[OF v(1,3), of a] t(2) by simp
  have "ys @ r # zs = ys' @ r # zs'" using u(1) t(3) t' by simp
  then have "ys' @ zs' = ys @ zs" using nr by (metis Un_iff append_Cons_eq_iff set_append)
  then show "regions u h = regions s h" using u(2,3) t(2,3) t' by simp
  show "\<And>y. y \<in> set (regions s h) \<Longrightarrow> vm_region u y = vm_region s y" using fresh_regions[OF v(1,3), of h] u(3) t' by auto
  have r0: "page_list (vm_pmm s) r = []" using v(3) by (simp add: fresh_def)
  then have pr: "page_list (vm_pmm t) r = ps" using tookD(4)[OF k, of r] by simp
  show "pg_free (vm_pmm u) q = pg_free (vm_pmm s) q" for q
    using g k u(3) pr unfolding gave_def took_def by (cases q) auto
  show "page_list (vm_pmm u) m = page_list (vm_pmm s) m" using g tookD(4)[OF k, of m] u(3) r0 by (cases "m = r") (auto simp: gave_def)
qed

section \<open>Address spaces\<close>

lemma aspace_consts: "aspace_ok \<lparr>va_name = nm, va_flags = f, va_base = 0x80000000, va_size = 0x80000000\<rparr>"
  "aspace_ok \<lparr>va_name = nm, va_flags = f, va_base = 0x01000000, va_size = 0x80000000 - 0x01000000 - 0x01000000\<rparr>"
  by (simp_all add: aspace_ok_def)

lemma vmm_inv_new_aspace:
  assumes v: "vmm_inv s" "\<not> ls_in_list a (vm_aspaces s)" and a: "aspace_ok as" and q: "ls_ok al" "lcont al () = a # aspaces s"
  shows "vmm_inv (s\<lparr>vm_aspace := (vm_aspace s)(a := as), vm_mmu := m, vm_aspaces := al\<rparr>)"
proof -
  have na: "a \<notin> set (aspaces s)" using v(2) ls.linked_iff[OF vmm_invD(2)[OF v(1)]] by blast
  let ?s = "s\<lparr>vm_aspace := (vm_aspace s)(a := as), vm_mmu := m, vm_aspaces := al\<rparr>"
  have "layout ?s a" using a vmm_invD(5)[OF v(1) na] by (simp add: layout_def spans_def pages_only_def)
  moreover have "layout ?s h" if "h \<in> set (aspaces s)" for h
  proof -
    have "h \<noteq> a" using na that by auto
    then show ?thesis using vmm_invD(4)[OF v(1) that] by (simp add: layout_def spans_def)
  qed
  ultimately show ?thesis using vmm_invD(1,3,5)[OF v(1)] vmm_invD(6)[OF v(1)] q unfolding vmm_inv_def by auto
qed

lemma vmm_create_aspace_ok:
  fixes fl :: u32
  assumes v: "vmm_inv s" "\<And>a. mem = Some a \<Longrightarrow> \<not> ls_in_list a (vm_aspaces s)"
  defines "lo \<equiv> if fl AND 1 \<noteq> 0 then 0x80000000 else 0x01000000 :: u32"
  defines "n \<equiv> if fl AND 1 \<noteq> 0 then 0x80000000 else 0x7E000000 :: u32"
  shows "case mem of None \<Rightarrow> vmm_create_aspace mmu mem name fl s = Some (ERR_NO_MEMORY, None, s)
    | Some a \<Rightarrow> \<exists>s' err. err = fst (mmu_init_aspace mmu a lo n (if fl AND 1 \<noteq> 0 then 1 else 0) (vm_mmu s)) \<and>
       vmm_create_aspace mmu mem name fl s = Some (if err < 0 then err else NO_ERROR, if err < 0 then None else Some a, s') \<and> vmm_inv s' \<and>
       aspaces s' = (if err < 0 then aspaces s else a # aspaces s) \<and> regions s' = regions s \<and>
       (\<not> err < 0 \<longrightarrow> regions s' a = [] \<and> va_base (vm_aspace s' a) = lo \<and> va_size (vm_aspace s' a) = n)"
proof (cases mem)
  case None
  then show ?thesis by (simp add: vmm_create_aspace_def)
next
  case (Some a)
  have nl: "\<not> ls_in_list a (vm_aspaces s)" using v(2) Some .
  then have na: "a \<notin> set (aspaces s)" using ls.linked_iff[OF vmm_invD(2)[OF v(1)]] by blast
  have ra: "regions s a = []" using vmm_invD(5)[OF v(1) na] .
  let ?as = "\<lparr>va_name = take 31 (case name of Some n \<Rightarrow> n | None \<Rightarrow> ''unnamed''), va_flags = fl, va_base = lo, va_size = n\<rparr>"
  have ok: "aspace_ok ?as" using aspace_consts by (simp add: lo_def n_def)
  obtain err m where i: "mmu_init_aspace mmu a lo n (if fl AND 1 \<noteq> 0 then 1 else 0) (vm_mmu s) = (err, m)" by fastforce
  let ?s1 = "s\<lparr>vm_aspace := (vm_aspace s)(a := ?as), vm_mmu := m\<rparr>"
  show ?thesis
  proof (cases "err < 0")
    case True
    have "vmm_create_aspace mmu mem name fl s = Some (err, None, ?s1)" using Some i True
      by (cases "fl AND 1 = 0") (simp_all add: vmm_create_aspace_def lo_def n_def Let_def)
    moreover have "layout ?s1 h" if "h \<in> set (aspaces s)" for h using vmm_invD(4)[OF v(1) that] na that by (auto simp: layout_def spans_def)
    then have "vmm_inv ?s1" using v(1) unfolding vmm_inv_def by simp
    ultimately show ?thesis using Some i True by auto
  next
    case False
    from ls.add_head_law[OF vmm_invD(2)[OF v(1)] _ _ nl, of "()"] obtain al where al: "ls_add_head () a (vm_aspaces s) = Some al" "ls_ok al" "lcont al = (lcont (vm_aspaces s))(() := a # aspaces s)" by auto
    let ?s' = "?s1\<lparr>vm_aspaces := al\<rparr>"
    have "vmm_create_aspace mmu mem name fl s = Some (NO_ERROR, Some a, ?s')"
      using Some i False al(1) ra by (cases "fl AND 1 = 0") (simp_all add: vmm_create_aspace_def lo_def n_def Let_def ls_initialize_def)
    moreover have "vmm_inv ?s'" using vmm_inv_new_aspace[OF v(1) nl ok al(2), of m] al(3) by simp
    ultimately show ?thesis using Some i False al(3) ra by auto
  qed
qed

lemma vmm_init_preheap_ok:
  assumes v: "vmm_inv s" "\<not> ls_in_list k (vm_aspaces s)"
  shows "\<exists>s'. vmm_init_preheap mmu k s = Some s' \<and> vmm_inv s' \<and> aspaces s' = k # aspaces s \<and> regions s' k = [] \<and> vm_pmm s' = vm_pmm s"
proof -
  have na: "k \<notin> set (aspaces s)" using v(2) ls.linked_iff[OF vmm_invD(2)[OF v(1)]] by blast
  have ra: "regions s k = []" using vmm_invD(5)[OF v(1) na] .
  from ls.add_head_law[OF vmm_invD(2)[OF v(1)] _ _ v(2), of "()"] obtain al where al: "ls_add_head () k (vm_aspaces s) = Some al" "ls_ok al" "lcont al = (lcont (vm_aspaces s))(() := k # aspaces s)" by auto
  let ?as = "\<lparr>va_name = ''kernel'', va_flags = 1, va_base = 0x80000000, va_size = 0x80000000\<rparr>"
  let ?s' = "s\<lparr>vm_aspace := (vm_aspace s)(k := ?as), vm_mmu := snd (mmu_init_aspace mmu k 0x80000000 0x80000000 1 (vm_mmu s)), vm_aspaces := al\<rparr>"
  have "vmm_init_preheap mmu k s = Some ?s'" using al(1) ra by (simp add: vmm_init_preheap_def ls_initialize_def)
  moreover have "vmm_inv ?s'" using vmm_inv_new_aspace[OF v aspace_consts(1) al(2)] al(3) by simp
  ultimately show ?thesis using al(3) ra by auto
qed

text \<open>The two loops of \<open>vmm_free_aspace\<close>.\<close>

lemma unlink_regions_ok:
  assumes "ls_ok (vm_regions s)" "l \<noteq> a" "regions s a = rs"
  shows "\<exists>q m. unlink_regions mmu a l (length rs) s = Some (s\<lparr>vm_regions := q, vm_mmu := m\<rparr>) \<and> ls_ok q \<and> lcont q = (lcont (vm_regions s))(a := [], l := regions s l @ rs)"
  using assms
proof (induction rs arbitrary: s)
  case Nil
  then show ?case by (auto intro!: exI[of _ "vm_regions s"] exI[of _ "vm_mmu s"])
next
  case (Cons r rs)
  have "a \<noteq> l" using Cons.prems(2) by simp
  from ls_move_head[OF Cons.prems(1,3) this] obtain q1 q2 where q: "ls_remove_head a (vm_regions s) = Some (Some r, q1)" "ls_add_tail l r q1 = Some q2" "ls_ok q2"
    "lcont q2 = (lcont (vm_regions s))(a := rs, l := regions s l @ [r])" by auto
  define s1 where "s1 = s\<lparr>vm_regions := q2, vm_mmu := mmu_unmap mmu a (vr_base (vm_region s r)) (vr_size (vm_region s r) div 4096) (vm_mmu s)\<rparr>"
  have "ls_ok (vm_regions s1)" "regions s1 a = rs" using q Cons.prems(2) by (simp_all add: s1_def)
  with Cons.IH[of s1] Cons.prems(2) obtain q m where i: "unlink_regions mmu a l (length rs) s1 = Some (s1\<lparr>vm_regions := q, vm_mmu := m\<rparr>)" "ls_ok q"
    "lcont q = (lcont (vm_regions s1))(a := [], l := regions s1 l @ rs)" by blast
  have "unlink_regions mmu a l (length (r # rs)) s = Some (s\<lparr>vm_regions := q, vm_mmu := m\<rparr>)" using q(1,2) i(1) by (simp add: s1_def)
  moreover have "lcont q = (lcont (vm_regions s))(a := [], l := regions s l @ r # rs)" using i(3) q(4) Cons.prems(2) by (simp add: s1_def fun_upd_twist)
  ultimately show ?case using i(2) by blast
qed

definition pages_of :: "nat set \<Rightarrow> pmm \<Rightarrow> vm_page set" where
  "pages_of R p = (\<Union>r \<in> R. set (page_list p r))"

lemma free_regions_ok:
  assumes "ls_ok (vm_regions s)" "pmm_inv (vm_pmm s)" "regions s l = rs" "\<And>r x. r \<in> set rs \<Longrightarrow> x \<in> set (page_list (vm_pmm s) r) \<Longrightarrow> page_valid (vm_pmm s) x \<and> \<not> pg_free (vm_pmm s) x"
  shows "\<exists>q p. free_regions l (length rs) s = Some (s\<lparr>vm_regions := q, vm_pmm := p\<rparr>) \<and> ls_ok q \<and> lcont q = (lcont (vm_regions s))(l := []) \<and> pmm_inv p \<and> pmm_same (vm_pmm s) p \<and>
    (\<forall>y. pg_free p y \<longleftrightarrow> pg_free (vm_pmm s) y \<or> y \<in> pages_of (set rs) (vm_pmm s)) \<and> (\<forall>m. page_list p m = (if m \<in> set rs then [] else page_list (vm_pmm s) m))"
  using assms
proof (induction rs arbitrary: s)
  case Nil
  then show ?case by (auto simp: pages_of_def intro!: exI[of _ "vm_regions s"] exI[of _ "vm_pmm s"])
next
  case (Cons r rs)
  let ?p = "vm_pmm s"
  have rn: "r \<notin> set rs" using ls_ok_distinct[OF Cons.prems(1), of l] Cons.prems(3) by simp
  from ls.del_law[OF Cons.prems(1), of l "[]" r rs] Cons.prems(3) obtain q where q: "ls_delete r (vm_regions s) = Some q" "ls_ok q" "lcont q = (lcont (vm_regions s))(l := rs)" by auto
  from pmm_free_ok[OF Cons.prems(2), of r] Cons.prems(4)[of r] obtain c p where p: "pmm_free r ?p = Some (c, p)" "gave r (set (page_list ?p r)) ?p p" by auto
  have g: "pmm_inv p" "pmm_same ?p p" "\<And>y. pg_free p y \<longleftrightarrow> pg_free ?p y \<or> y \<in> set (page_list ?p r)" "page_list p r = []" "\<And>m. m \<noteq> r \<Longrightarrow> page_list p m = page_list ?p m"
    using p(2) unfolding gave_def by blast+
  define s1 where "s1 = s\<lparr>vm_regions := q, vm_pmm := p\<rparr>"
  have ok: "ls_ok (pm_lists ?p)" using Cons.prems(2) by (simp add: pmm_inv_def)
  have s1: "ls_ok (vm_regions s1)" "pmm_inv (vm_pmm s1)" "regions s1 l = rs" using q(2,3) g(1) by (simp_all add: s1_def)
  have "page_valid (vm_pmm s1) x \<and> \<not> pg_free (vm_pmm s1) x" if "y \<in> set rs" "x \<in> set (page_list (vm_pmm s1) y)" for y x
  proof -
    have "y \<noteq> r" using that(1) rn by auto
    then have x: "x \<in> set (page_list ?p y)" using that(2) g(5) by (simp add: s1_def)
    then have "x \<notin> set (page_list ?p r)" using ls.member_unique[OF ok, of x "Page_list y" "Page_list r"] \<open>y \<noteq> r\<close> by blast
    then show ?thesis using Cons.prems(4)[of y x] that(1) x g(3) pmm_same_valid[OF g(2)] by (simp add: s1_def)
  qed
  then have "\<exists>q' p'. free_regions l (length rs) s1 = Some (s1\<lparr>vm_regions := q', vm_pmm := p'\<rparr>) \<and> ls_ok q' \<and> lcont q' = (lcont (vm_regions s1))(l := []) \<and> pmm_inv p' \<and> pmm_same (vm_pmm s1) p' \<and>
    (\<forall>y. pg_free p' y \<longleftrightarrow> pg_free (vm_pmm s1) y \<or> y \<in> pages_of (set rs) (vm_pmm s1)) \<and> (\<forall>m. page_list p' m = (if m \<in> set rs then [] else page_list (vm_pmm s1) m))"
    by (rule Cons.IH[OF s1])
  then obtain q' p' where i: "free_regions l (length rs) s1 = Some (s1\<lparr>vm_regions := q', vm_pmm := p'\<rparr>)" "ls_ok q'" "lcont q' = (lcont (vm_regions s1))(l := [])" "pmm_inv p'" "pmm_same (vm_pmm s1) p'"
    "\<forall>y. pg_free p' y \<longleftrightarrow> pg_free (vm_pmm s1) y \<or> y \<in> pages_of (set rs) (vm_pmm s1)" "\<forall>m. page_list p' m = (if m \<in> set rs then [] else page_list (vm_pmm s1) m)"
    by blast
  have "free_regions l (length (r # rs)) s = Some (s\<lparr>vm_regions := q', vm_pmm := p'\<rparr>)"
    using q(1) p(1) i(1) Cons.prems(3) by (simp add: s1_def ls_remove_head_def ls_peek_head_def)
  moreover have "pages_of (set rs) p = pages_of (set rs) ?p" using g(5) rn unfolding pages_of_def by (metis (no_types, lifting) SUP_cong)
  then have "\<forall>y. pg_free p' y \<longleftrightarrow> pg_free ?p y \<or> y \<in> pages_of (set (r # rs)) ?p" using i(6) g(3) unfolding s1_def pages_of_def by simp
  moreover have "\<forall>m. page_list p' m = (if m \<in> set (r # rs) then [] else page_list ?p m)" using i(7) g(4,5) by (simp add: s1_def)
  moreover have "lcont q' = (lcont (vm_regions s))(l := [])" using i(3) q(3) by (simp add: s1_def)
  moreover have "pmm_same ?p p'" using pmm_same_trans[OF g(2)] i(5) by (simp add: s1_def)
  ultimately show ?case using i(2,4) by blast
qed

lemma vmm_free_aspace_ok:
  assumes v: "vmm_inv s" "a \<in> set (aspaces s)" and l: "l \<notin> set (aspaces s)" "l \<noteq> a"
  shows "\<exists>s'. vmm_free_aspace mmu l a s = Some (NO_ERROR, s') \<and> vmm_inv s' \<and> aspaces s' = remove1 a (aspaces s) \<and> regions s' = (regions s)(a := []) \<and>
    (\<forall>y. pg_free (vm_pmm s') y \<longleftrightarrow> pg_free (vm_pmm s) y \<or> y \<in> pages_of (set (regions s a)) (vm_pmm s)) \<and> vm_current s' \<noteq> Some a"
proof -
  let ?rs = "regions s a"
  obtain as bs where ab: "aspaces s = as @ a # bs" using v(2) by (meson split_list)
  from ls.del_law[OF vmm_invD(2)[OF v(1)] ab] obtain al where al: "ls_delete a (vm_aspaces s) = Some al" "ls_ok al" "lcont al () = as @ bs" by auto
  have na: "a \<notin> set as" "a \<notin> set bs" using ls_ok_split[OF vmm_invD(2)[OF v(1)] ab] by blast+
  have ina: "ls_in_list a (vm_aspaces s)" using ls.linked_iff[OF vmm_invD(2)[OF v(1)]] v(2) by blast
  have l0: "regions s l = []" using vmm_invD(5)[OF v(1) l(1)] .
  let ?s1 = "s\<lparr>vm_aspaces := al\<rparr>"
  from unlink_regions_ok[of ?s1 l a ?rs mmu] vmm_invD(3)[OF v(1)] l(2) l0 obtain q1 m1 where
    u: "unlink_regions mmu a l (length ?rs) ?s1 = Some (?s1\<lparr>vm_regions := q1, vm_mmu := m1\<rparr>)" "ls_ok q1" "lcont q1 = (lcont (vm_regions s))(a := [], l := ?rs)" by auto
  define s2 where "s2 = ?s1\<lparr>vm_regions := q1, vm_mmu := m1\<rparr>"
  have s2: "regions s2 l = ?rs" "vm_pmm s2 = vm_pmm s" "ls_ok (vm_regions s2)" using u(2,3) by (simp_all add: s2_def)
  from free_regions_ok[of s2 l ?rs] s2 vmm_invD(1)[OF v(1)] vmm_invD(6)[OF v(1)] obtain q p where
    f: "free_regions l (length ?rs) s2 = Some (s2\<lparr>vm_regions := q, vm_pmm := p\<rparr>)" "ls_ok q" "lcont q = (lcont (vm_regions s2))(l := [])" "pmm_inv p" "pmm_same (vm_pmm s) p"
    "\<forall>y. pg_free p y \<longleftrightarrow> pg_free (vm_pmm s) y \<or> y \<in> pages_of (set ?rs) (vm_pmm s)" "\<forall>m. page_list p m = (if m \<in> set ?rs then [] else page_list (vm_pmm s) m)" by auto
  have cq: "lcont q = (regions s)(a := [])" using f(3) u(3) l0 l(2) by (auto simp: s2_def fun_eq_iff)
  define s3 where "s3 = s2\<lparr>vm_regions := q, vm_pmm := p\<rparr>"
  define s4 where "s4 = (if vm_current s3 = Some a then vmm_context_switch mmu None (s3\<lparr>vm_current := None\<rparr>) else s3)"
  define s' where "s' = s4\<lparr>vm_mmu := mmu_destroy_aspace mmu a (vm_mmu s4)\<rparr>"
  have "vmm_free_aspace mmu l a s = Some (NO_ERROR, s')"
    using ina al(1) u(1) f(1) l0 s2(1) by (simp add: vmm_free_aspace_def ls_initialize_def s'_def s4_def s3_def s2_def Let_def)
  moreover have sel: "vm_aspaces s' = al" "vm_aspace s' = vm_aspace s" "vm_regions s' = q" "vm_region s' = vm_region s" "vm_pmm s' = p" "vm_current s' \<noteq> Some a"
    by (simp_all add: s'_def s4_def s3_def s2_def vmm_context_switch_def)
  moreover have "vmm_inv s'"
  proof -
    have "layout s' h" if "h \<in> set (lcont al ())" for h
    proof -
      have "h \<noteq> a" "h \<in> set (aspaces s)" using that al(3) na ab by auto
      then show ?thesis using vmm_invD(4)[OF v(1)] cq by (simp add: layout_def spans_def sel)
    qed
    moreover have "lcont q h = []" if "h \<notin> set (lcont al ())" for h using that vmm_invD(5)[OF v(1)] cq al(3) ab by auto
    moreover have "page_valid p x \<and> \<not> pg_free p x" if "r \<in> set (lcont q h)" "x \<in> set (page_list p r)" for h r x
    proof -
      have r: "r \<notin> set ?rs" "x \<in> set (page_list (vm_pmm s) r)" using that(2) f(7) by (auto split: if_splits)
      have rh: "r \<in> set (regions s h)" using that(1) cq by (auto split: if_splits)
      have "x \<notin> pages_of (set ?rs) (vm_pmm s)"
      proof
        assume "x \<in> pages_of (set ?rs) (vm_pmm s)"
        then obtain y where "y \<in> set ?rs" "x \<in> set (page_list (vm_pmm s) y)" by (auto simp: pages_of_def)
        moreover have "ls_ok (pm_lists (vm_pmm s))" using vmm_invD(1)[OF v(1)] by (simp add: pmm_inv_def)
        ultimately show False using ls.member_unique[of _ x "Page_list y" "Page_list r"] r by blast
      qed
      then show ?thesis using vmm_invD(6)[OF v(1) rh r(2)] f(6) pmm_same_valid[OF f(5)] by blast
    qed
    ultimately show ?thesis unfolding vmm_inv_def sel using al(2) f(2,4) by blast
  qed
  moreover have "lcont al () = remove1 a (aspaces s)" using al(3) ab na(1) by (simp add: remove1_append)
  ultimately show ?thesis using cq f(6) by auto
qed

section \<open>Start of the system\<close>

lemma page_addr_unat:
  assumes "pmm_inv s" "page_valid s p"
  shows "unat (page_addr s p) = unat (pa_base (pm_arena s (fst p))) + 4096 * snd p"
    "unat (page_addr s p) \<in> arena_span (pm_arena s (fst p))"
proof -
  let ?ar = "pm_arena s (fst p)"
  have ok: "pmm_arena_ok ?ar" and i: "snd p < length (pa_page_array ?ar)" using assms by (auto simp: pmm_inv_def page_valid_def)
  then have "4096 * length (pa_page_array ?ar) = unat (pa_size ?ar)" by (simp add: pmm_arena_ok_def)
  then have b: "4096 * snd p + 4096 \<le> unat (pa_size ?ar)" using i by linarith
  have hi: "unat (pa_base ?ar) + unat (pa_size ?ar) \<le> 2 ^ 32" using ok by (simp add: pmm_arena_ok_def)
  have "page_addr s p = of_nat (4096 * snd p) + pa_base ?ar" by (simp add: page_addr_def mult.commute)
  moreover have "unat (of_nat (4096 * snd p) :: u32) = 4096 * snd p" using b hi by (simp only: unat_of_nat) simp
  ultimately have u: "unat (page_addr s p) = 4096 * snd p + unat (pa_base ?ar)" using b hi by (simp only: unat_plus_if') simp
  then show "unat (page_addr s p) = unat (pa_base ?ar) + 4096 * snd p" by simp
  show "unat (page_addr s p) \<in> arena_span ?ar" using u b by (simp add: arena_span_def)
qed

lemma page_addr_inj:
  assumes "pmm_inv s" "page_valid s p" "page_valid s q" "page_addr s p = page_addr s q"
  shows "p = q"
proof -
  have a: "fst p = fst q"
  proof (rule ccontr)
    assume "fst p \<noteq> fst q"
    then have "arena_span (pm_arena s (fst p)) \<inter> arena_span (pm_arena s (fst q)) = {}" using assms(1-3) by (simp add: pmm_inv_def page_valid_def)
    then show False using page_addr_unat(2)[OF assms(1,2)] page_addr_unat(2)[OF assms(1,3)] assms(4) by auto
  qed
  then have "snd p = snd q" using page_addr_unat(1)[OF assms(1,2)] page_addr_unat(1)[OF assms(1,3)] assms(4) by simp
  with a show ?thesis by (simp add: prod_eq_iff)
qed

lemma page_addr_in_arena:
  assumes "pmm_inv s" "page_valid s p"
  shows "ADDRESS_IN_ARENA (page_addr s p) (pm_arena s (fst p))"
proof -
  have "pmm_arena_ok (pm_arena s (fst p))" using assms by (auto simp: pmm_inv_def page_valid_def)
  then show ?thesis using arena_last page_addr_unat(2)[OF assms] by (auto simp: ADDRESS_IN_ARENA_def word_le_nat_alt arena_span_def)
qed

text \<open>Allocating the one page at an address: afterwards it is not free.\<close>

lemma range_walk_one:
  assumes "pmm_inv s" "set as \<subseteq> set (arenas s)" "4096 dvd unat x"
  shows "\<exists>n ps s'. range_walk l as (Suc 0) x s = Some (n, s') \<and> took (Some l) ps s s' \<and>
    (\<forall>p. page_valid s p \<and> fst p \<in> set as \<and> page_addr s p = x \<longrightarrow> \<not> pg_free s' p)"
  using assms(2)
proof (induction as)
  case Nil
  then show ?case using took_refl[OF assms(1)] by auto
next
  case (Cons a as)
  let ?ar = "pm_arena s a"
  have aa: "a \<in> set (arenas s)" and ok: "pmm_arena_ok ?ar" using Cons.prems assms(1) by (auto simp: pmm_inv_def)
  from Cons obtain n ps s' where IH: "range_walk l as (Suc 0) x s = Some (n, s')" "took (Some l) ps s s'"
    "\<forall>p. page_valid s p \<and> fst p \<in> set as \<and> page_addr s p = x \<longrightarrow> \<not> pg_free s' p" by auto
  show ?case
  proof (cases "ADDRESS_IN_ARENA x ?ar")
    case False
    have "\<not> (page_valid s p \<and> fst p = a \<and> page_addr s p = x)" for p using page_addr_in_arena[OF assms(1), of p] False by auto
    moreover have "range_walk l (a # as) (Suc 0) x s = Some (n, s')" using IH(1) False by (simp add: Let_def)
    ultimately show ?thesis using IH(2,3) by (metis set_ConsD)
  next
    case True
    define i where "i = unat ((x - pa_base ?ar) div 4096)"
    note i = address_in_arena[OF ok assms(3) True, folded i_def]
    have pv: "page_valid s (a, i)" using i(1) aa by (simp add: page_valid_def)
    have pa: "page_addr s (a, i) = x" using i(2) by (simp add: page_addr_def)
    have uni: "p = (a, i)" if "page_valid s p" "page_addr s p = x" for p using page_addr_inj[OF assms(1) that(1) pv] that(2) pa by simp
    have ix: "(x - pa_base ?ar) div 4096 < pa_size ?ar div 4096"
      using i(1) arena_pages[OF assms(1) aa] by (simp add: word_less_nat_alt i_def)
    have fl: "page_flags (a, i) s = Some (pa_page_array ?ar ! i)" using i(1) by (simp add: page_flags_def)
    show ?thesis
    proof (cases "pg_free s (a, i)")
      case fr: True
      then have il: "ls_in_list (a, i) (pm_lists s)"
      proof -
        have "(a, i) \<in> set (lcont (pm_lists s) (Free_list a))" using fr assms(1) by (auto simp: pmm_inv_def)
        moreover have "ls_ok (pm_lists s)" using assms(1) by (simp add: pmm_inv_def)
        ultimately show ?thesis using ls.linked_iff[of "pm_lists s" "(a, i)"] by blast
      qed
      from take_page_ok[OF assms(1) fr, of a "Some l"] obtain t where t: "take_page a (a, i) (Some l) s = Some t" "took (Some l) [(a, i)] s t" by auto
      have "page_is_free (pa_page_array ?ar ! i)" using fr by (simp add: pg_free_def)
      then have "range_walk l (a # as) (Suc 0) x s = Some (0, t)"
        using True ix fl il t(1) by (simp add: Let_def DEBUG_ASSERT_def i_def[symmetric])
      moreover have "\<not> pg_free t (a, i)" using tookD(3)[OF t(2), of "(a, i)"] by simp
      ultimately show ?thesis using t(2) uni by blast
    next
      case nf: False
      then have "\<not> page_is_free (pa_page_array ?ar ! i)" using pv by (simp add: pg_free_def page_valid_def)
      then have "range_walk l (a # as) (Suc 0) x s = Some (n, s')"
        using True ix fl IH(1) by (simp add: Let_def DEBUG_ASSERT_def i_def[symmetric])
      moreover have "\<not> pg_free s' (a, i)" using tookD(3)[OF IH(2), of "(a, i)"] nf by simp
      ultimately show ?thesis using IH(2,3) uni by (metis set_ConsD)
    qed
  qed
qed

lemma pmm_alloc_range_one:
  assumes "pmm_inv s"
  shows "\<exists>n ps s'. pmm_alloc_range pa 1 l s = Some (n, s') \<and> took (Some l) ps s s' \<and>
    (\<forall>p. page_valid s p \<and> page_addr s p = ROUNDDOWN pa 4096 \<longrightarrow> \<not> pg_free s' p)"
proof -
  have "4096 dvd unat (ROUNDDOWN pa 4096)" using unat_ROUNDDOWN[of 4096 12 pa] by simp
  from range_walk_one[OF assms subset_refl this, of l] show ?thesis by (auto simp: pmm_alloc_range_def page_valid_def)
qed

text \<open>The pages behind a range of addresses that the MMU knows are not free afterwards.\<close>

definition shrunk :: "nat \<Rightarrow> pmm \<Rightarrow> pmm \<Rightarrow> bool" where
  "shrunk l p p' \<longleftrightarrow> (\<exists>ps. took (Some l) ps p p')"

lemma shrunk_trans: "shrunk l p q \<Longrightarrow> shrunk l q r \<Longrightarrow> shrunk l p r"
  unfolding shrunk_def using took_trans by blast

lemma shrunkD:
  assumes "shrunk l p q"
  shows "pmm_inv q" "pmm_same p q" "pg_free q x \<Longrightarrow> pg_free p x" "m \<noteq> l \<Longrightarrow> page_list q m = page_list p m" "page_addr q = page_addr p" "page_valid q x = page_valid p x"
proof -
  from assms obtain ps where k: "took (Some l) ps p q" by (auto simp: shrunk_def)
  note d = tookD[OF k]
  show "pmm_inv q" "pmm_same p q" "pg_free q x \<Longrightarrow> pg_free p x" "m \<noteq> l \<Longrightarrow> page_list q m = page_list p m" using d(1-3) d(4)[of m] by auto
  show "page_addr q = page_addr p" using pmm_sameD(3)[OF d(2)] by (simp add: page_addr_def fun_eq_iff)
  show "page_valid q x = page_valid p x" by (rule pmm_same_valid[OF d(2)])
qed

lemma mark_loop_ok:
  assumes "pmm_inv (vm_pmm s)" "\<And>j. j < n \<Longrightarrow> \<exists>err fl. mmu_query mmu k (va + of_nat j * 4096) (vm_mmu s) = (err, Some (f j, fl)) \<and> 0 \<le> err"
  shows "\<exists>p. mark_loop mmu k l va n s = Some (s\<lparr>vm_pmm := p\<rparr>) \<and> shrunk l (vm_pmm s) p \<and>
    (\<forall>j < n. \<forall>x. page_valid p x \<and> page_addr p x = ROUNDDOWN (f j) 4096 \<longrightarrow> \<not> pg_free p x)"
  using assms
proof (induction n arbitrary: s va f)
  case 0
  have "shrunk l (vm_pmm s) (vm_pmm s)" using took_refl[OF 0(1)] by (auto simp: shrunk_def)
  then show ?case by (intro exI[of _ "vm_pmm s"]) simp
next
  case (Suc n)
  from Suc.prems(2)[of 0] obtain err fl where q: "mmu_query mmu k va (vm_mmu s) = (err, Some (f 0, fl))" "0 \<le> err" by auto
  from pmm_alloc_range_one[OF Suc.prems(1), of "f 0" l] obtain c ps p1 where p1: "pmm_alloc_range (f 0) 1 l (vm_pmm s) = Some (c, p1)" "took (Some l) ps (vm_pmm s) p1"
    "\<forall>x. page_valid (vm_pmm s) x \<and> page_addr (vm_pmm s) x = ROUNDDOWN (f 0) 4096 \<longrightarrow> \<not> pg_free p1 x" by blast
  let ?s1 = "s\<lparr>vm_pmm := p1\<rparr>"
  have "\<exists>err fl. mmu_query mmu k (va + 4096 + of_nat j * 4096) (vm_mmu ?s1) = (err, Some (f (Suc j), fl)) \<and> 0 \<le> err" if "j < n" for j
    using Suc.prems(2)[of "Suc j"] that by (simp add: algebra_simps)
  with Suc.IH[of ?s1 "va + 4096" "\<lambda>j. f (Suc j)"] tookD(1)[OF p1(2)] obtain p where p: "mark_loop mmu k l (va + 4096) n ?s1 = Some (?s1\<lparr>vm_pmm := p\<rparr>)" "shrunk l p1 p"
    "\<forall>j < n. \<forall>x. page_valid p x \<and> page_addr p x = ROUNDDOWN (f (Suc j)) 4096 \<longrightarrow> \<not> pg_free p x" by auto
  have s1: "shrunk l (vm_pmm s) p1" using p1(2) by (auto simp: shrunk_def)
  have sh: "shrunk l (vm_pmm s) p" by (rule shrunk_trans[OF s1 p(2)])
  have "\<not> pg_free p x" if "j < Suc n" "page_valid p x" "page_addr p x = ROUNDDOWN (f j) 4096" for j x
  proof (cases j)
    case 0
    then have "\<not> pg_free p1 x" using p1(3) that unfolding shrunkD(5)[OF sh] shrunkD(6)[OF sh] by blast
    then show ?thesis using shrunkD(3)[OF p(2)] by blast
  next
    case (Suc i)
    then show ?thesis using p(3) that by (cases x) auto
  qed
  moreover have "mark_loop mmu k l va (Suc n) s = Some (s\<lparr>vm_pmm := p\<rparr>)" using q p1(1) p(1) by (simp add: DEBUG_ASSERT_def)
  ultimately show ?case using sh by blast
qed

text \<open>The pages of a range of addresses, counted from the page of its first address.\<close>

lemma ROUNDDOWN_pages: "ROUNDDOWN y 4096 = of_nat (unat y div 4096 * 4096)"
proof -
  have "unat (ROUNDDOWN y 4096) = unat y div 4096 * 4096" using unat_ROUNDDOWN[of 4096 12 y] by simp
  then show ?thesis by (metis of_nat_unat_id)
qed

lemma mark_count:
  fixes va len :: u32
  assumes "unat va + unat len + 4096 \<le> 2 ^ 32"
  shows "unat (ROUNDUP (len + (va AND 4095)) 4096 div 4096) = (unat len + unat va mod 4096 + 4095) div 4096"
proof -
  have "unat (va AND 4095) = unat va mod 4096" using unat_modpow2[of va 12] by (simp add: modpow2_take_bit take_bit_eq_mask mask_eq_exp_minus_1)
  moreover have lt: "unat len + unat va mod 4096 + 4096 \<le> 2 ^ 32" using assms mod_less_eq_dividend[of "unat va" 4096] by linarith
  ultimately have u: "unat (len + (va AND 4095)) = unat len + unat va mod 4096" and b: "unat (len + (va AND 4095)) + unat (4096 :: u32) \<le> 2 ^ 32"
    by (simp_all add: unat_plus_if')
  show ?thesis using unat_ROUNDUP[of 4096 12, OF _ b] u by (simp add: unat_div_distrib)
qed

lemma mark_range:
  fixes va len v :: u32
  assumes "unat va + unat len + 4096 \<le> 2 ^ 32" "unat va \<le> unat v" "unat v < unat va + unat len"
  shows "\<exists>j < unat (ROUNDUP (len + (va AND 4095)) 4096 div 4096). ROUNDDOWN v 4096 = ROUNDDOWN va 4096 + of_nat j * 4096"
proof -
  let ?j = "unat v div 4096 - unat va div 4096"
  have le: "unat va div 4096 \<le> unat v div 4096" using assms(2) by (rule div_le_mono)
  have "unat v div 4096 < unat va div 4096 + (unat len + unat va mod 4096 + 4095) div 4096"
  proof -
    have "unat v + 4096 \<le> unat va div 4096 * 4096 + (unat len + unat va mod 4096 + 4095)" using assms(3) by (simp add: div_mult_mod_eq)
    then have "(unat v + 4096) div 4096 \<le> (unat va div 4096 * 4096 + (unat len + unat va mod 4096 + 4095)) div 4096" by (rule div_le_mono)
    moreover have "(unat va div 4096 * 4096 + X) div 4096 = unat va div 4096 + X div 4096" for X by (rule div_mult_self3) simp
    moreover have "(unat v + 4096) div 4096 = unat v div 4096 + 1" by simp
    ultimately show ?thesis by linarith
  qed
  then have j: "?j < unat (ROUNDUP (len + (va AND 4095)) 4096 div 4096)" unfolding mark_count[OF assms(1)] using le by linarith
  have e: "unat v div 4096 * 4096 = unat va div 4096 * 4096 + ?j * 4096" using le by (simp add: diff_mult_distrib)
  have "ROUNDDOWN v 4096 = ROUNDDOWN va 4096 + of_nat ?j * 4096" unfolding ROUNDDOWN_pages e by (simp only: of_nat_add of_nat_mult of_nat_numeral)
  with j show ?thesis by blast
qed

lemma mark_range_page:
  fixes va len :: u32
  assumes "unat va + unat len + 4096 \<le> 2 ^ 32" "0 < unat len" "j < unat (ROUNDUP (len + (va AND 4095)) 4096 div 4096)"
  shows "\<exists>y. unat va \<le> unat y \<and> unat y < unat va + unat len \<and> ROUNDDOWN y 4096 = ROUNDDOWN va 4096 + of_nat j * 4096"
proof (cases j)
  case 0
  then show ?thesis using assms(2) by (intro exI[of _ va]) simp
next
  case (Suc i)
  let ?y = "unat va div 4096 * 4096 + j * 4096"
  have "j < (unat len + unat va mod 4096 + 4095) div 4096" using assms(3) mark_count[OF assms(1)] by simp
  then have "j * 4096 + 4096 \<le> unat len + unat va mod 4096 + 4095" using less_eq_div_iff_mult_less_eq[of 4096 "Suc j" "unat len + unat va mod 4096 + 4095"] by simp
  moreover have m: "unat va = unat va div 4096 * 4096 + unat va mod 4096" by (rule div_mult_mod_eq[symmetric])
  ultimately have hi: "?y < unat va + unat len" by linarith
  have "unat va mod 4096 < 4096" by simp
  then have lo: "unat va \<le> ?y" using m Suc by linarith
  have u: "unat (of_nat ?y :: u32) = ?y" using hi assms(1) by (simp only: unat_of_nat) simp
  have "ROUNDDOWN (of_nat ?y) 4096 = (of_nat ?y :: u32)"
  proof -
    have "?y = (unat va div 4096 + j) * 4096" by (simp only: add_mult_distrib)
    then have d: "?y div 4096 * 4096 = ?y" by (simp only: nonzero_mult_div_cancel_right)
    show ?thesis using ROUNDDOWN_pages[of "of_nat ?y"] unfolding u d .
  qed
  moreover have "of_nat ?y = ROUNDDOWN va 4096 + of_nat j * 4096" unfolding ROUNDDOWN_pages by (simp only: of_nat_add of_nat_mult of_nat_numeral)
  ultimately show ?thesis using lo hi u by (intro exI[of _ "of_nat ?y"]) simp
qed

lemma mark_pages_in_use_ok:
  fixes va len :: u32
  assumes v: "vmm_inv s" "fresh s l" and b: "unat va + unat len + 4096 \<le> 2 ^ 32" "0 < unat len"
    and q: "\<And>y. unat va \<le> unat y \<Longrightarrow> unat y < unat va + unat len \<Longrightarrow> \<exists>err fl. mmu_query mmu k (ROUNDDOWN y 4096) (vm_mmu s) = (err, Some (f (ROUNDDOWN y 4096), fl)) \<and> 0 \<le> err"
  shows "\<exists>p. mark_pages_in_use mmu k l va len s = Some (s\<lparr>vm_pmm := p\<rparr>) \<and> vmm_inv (s\<lparr>vm_pmm := p\<rparr>) \<and> shrunk l (vm_pmm s) p \<and>
    (\<forall>y x. unat va \<le> unat y \<and> unat y < unat va + unat len \<and> page_valid p x \<and> page_addr p x = ROUNDDOWN (f (ROUNDDOWN y 4096)) 4096 \<longrightarrow> \<not> pg_free p x)"
proof -
  let ?n = "unat (ROUNDUP (len + (va AND 4095)) 4096 div 4096)" let ?va = "ROUNDDOWN va 4096"
  have l: "\<not> ls_in_list l (vm_regions s)" "page_list (vm_pmm s) l = []" using v(2) by (simp_all add: fresh_def)
  have "\<exists>err fl. mmu_query mmu k (?va + of_nat j * 4096) (vm_mmu s) = (err, Some (f (?va + of_nat j * 4096), fl)) \<and> 0 \<le> err" if "j < ?n" for j
    using mark_range_page[OF b that] q by metis
  with mark_loop_ok[OF vmm_invD(1)[OF v(1)], of ?n mmu k ?va "\<lambda>j. f (?va + of_nat j * 4096)" l] obtain p where
    p: "mark_loop mmu k l ?va ?n s = Some (s\<lparr>vm_pmm := p\<rparr>)" "shrunk l (vm_pmm s) p"
    "\<forall>j < ?n. \<forall>x. page_valid p x \<and> page_addr p x = ROUNDDOWN (f (?va + of_nat j * 4096)) 4096 \<longrightarrow> \<not> pg_free p x" by blast
  have "mark_pages_in_use mmu k l va len s = Some (s\<lparr>vm_pmm := p\<rparr>)" using p(1) l(2) by (simp add: mark_pages_in_use_def ls_initialize_def)
  moreover have "vmm_inv (s\<lparr>vm_pmm := p\<rparr>)" using p(2) vmm_inv_took[OF v(1) l(1)] by (auto simp: shrunk_def)
  moreover have "\<not> pg_free p x" if y: "unat va \<le> unat y" "unat y < unat va + unat len" and x: "page_valid p x" "page_addr p x = ROUNDDOWN (f (ROUNDDOWN y 4096)) 4096" for y x
  proof -
    from mark_range[OF b(1) y] obtain j where "j < ?n" "ROUNDDOWN y 4096 = ?va + of_nat j * 4096" by blast
    then show ?thesis using p(3) x by metis
  qed
  ultimately show ?thesis using p(2) by blast
qed

text \<open>The allocator of the start-up hands out memory on 8-byte boundaries, one piece behind the other.\<close>

lemma boot_alloc_mem_ok:
  assumes "unat e + unat len + 16 \<le> 2 ^ 32" "boot_alloc_mem len e = (ptr, e')"
  shows "8 dvd unat ptr" "unat e \<le> unat ptr" "unat ptr + unat len \<le> unat e'" "unat e' < unat e + unat len + 16"
proof -
  have r: "unat (ROUNDUP x 8) = (unat x + 7) div 8 * 8" if "unat x + 8 \<le> 2 ^ 32" for x :: u32 using unat_ROUNDUP[of 8 3 x] that by simp
  have p: "ptr = ROUNDUP e 8" "e' = ptr + ROUNDUP len 8" using assms(2) by (auto simp: boot_alloc_mem_def Let_def)
  have up: "unat ptr = (unat e + 7) div 8 * 8" "unat (ROUNDUP len 8) = (unat len + 7) div 8 * 8" using r[of e] r[of len] assms(1) p(1) by simp_all
  have bd: "unat e \<le> (unat e + 7) div 8 * 8" "(unat e + 7) div 8 * 8 \<le> unat e + 7" "unat len \<le> (unat len + 7) div 8 * 8" "(unat len + 7) div 8 * 8 \<le> unat len + 7" by presburger+
  then have ue: "unat e' = unat ptr + unat (ROUNDUP len 8)" unfolding p(2) using up assms(1) by (simp add: unat_plus_if')
  show "8 dvd unat ptr" using up(1) by simp
  show "unat e \<le> unat ptr" "unat ptr + unat len \<le> unat e'" "unat e' < unat e + unat len + 16" using ue up bd by linarith+
qed

end
