(* ===== verification/Vm_Props.thy ===== *)
theory Vm_Props
  imports Vmm_Ops
begin

text \<open>
  Properties of physical and virtual memory: sequences of calls, the search for pages and address ranges, and what allocation and
  freeing do together.
\<close>

section \<open>Sequences of calls\<close>

text \<open>A call with its arguments; the first argument of a call that allocates is what \<open>calloc\<close> returns.\<close>

datatype vm_op =
    Vm_reserve "nat option" nat "string option" u32 u32
  | Vm_physical "nat option" nat "string option" u32 "u32 option" u8 u32 u32 u32
  | Vm_contiguous "nat option" nat nat "string option" u32 "u32 option" u8 u32 u32
  | Vm_alloc "nat option" nat nat "string option" u32 "u32 option" u8 u32 u32
  | Vm_free nat u32
  | Vm_create "nat option" "string option" u32
  | Vm_destroy nat nat
  | Vm_activate "nat option"

fun vm_exec :: "'m arch_mmu \<Rightarrow> vm_op \<Rightarrow> 'm vmm \<Rightarrow> (int \<times> 'm vmm) option" where
  "vm_exec mmu (Vm_reserve mem a name sz x) s = vmm_reserve_space mmu mem a name sz x s"
| "vm_exec mmu (Vm_physical mem a name sz ptr al pa fl af) s = map_option (\<lambda>(e, _, s). (e, s)) (vmm_alloc_physical mmu mem a name sz ptr al pa fl af s)"
| "vm_exec mmu (Vm_contiguous mem l a name sz ptr al fl af) s = map_option (\<lambda>(e, _, s). (e, s)) (vmm_alloc_contiguous mmu mem l a name sz ptr al fl af s)"
| "vm_exec mmu (Vm_alloc mem l a name sz ptr al fl af) s = map_option (\<lambda>(e, _, s). (e, s)) (vmm_alloc mmu mem l a name sz ptr al fl af s)"
| "vm_exec mmu (Vm_free a x) s = vmm_free_region mmu a x s"
| "vm_exec mmu (Vm_create mem name fl) s = map_option (\<lambda>(e, _, s). (e, s)) (vmm_create_aspace mmu mem name fl s)"
| "vm_exec mmu (Vm_destroy l a) s = vmm_free_aspace mmu l a s"
| "vm_exec mmu (Vm_activate a) s = Some (NO_ERROR, vmm_set_active_aspace mmu a s)"

text \<open>What the caller has to see to: the address space exists, memory from \<open>calloc\<close> and lists on the stack are unused, alignments are below 32
  bits, and addresses and sizes that are not rounded are multiples of a page.\<close>

definition opt_ok :: "('a \<Rightarrow> bool) \<Rightarrow> 'a option \<Rightarrow> bool" where
  "opt_ok P x = (case x of None \<Rightarrow> True | Some y \<Rightarrow> P y)"

fun vm_legal :: "vm_op \<Rightarrow> 'm vmm \<Rightarrow> bool" where
  "vm_legal (Vm_reserve mem a name sz x) s \<longleftrightarrow> a \<in> set (aspaces s) \<and> opt_ok (fresh s) mem \<and> IS_PAGE_ALIGNED sz \<and> IS_PAGE_ALIGNED x"
| "vm_legal (Vm_physical mem a name sz ptr al pa fl af) s \<longleftrightarrow> a \<in> set (aspaces s) \<and> opt_ok (fresh s) mem \<and> unat al < 32 \<and>
     IS_PAGE_ALIGNED sz \<and> IS_PAGE_ALIGNED pa \<and> opt_ok IS_PAGE_ALIGNED ptr"
| "vm_legal (Vm_contiguous mem l a name sz ptr al fl af) s \<longleftrightarrow> a \<in> set (aspaces s) \<and> opt_ok (\<lambda>r. fresh s r \<and> r \<noteq> l) mem \<and> fresh s l \<and> unat al < 32 \<and> opt_ok IS_PAGE_ALIGNED ptr"
| "vm_legal (Vm_alloc mem l a name sz ptr al fl af) s \<longleftrightarrow> a \<in> set (aspaces s) \<and> opt_ok (\<lambda>r. fresh s r \<and> r \<noteq> l) mem \<and> fresh s l \<and> unat al < 32 \<and> opt_ok IS_PAGE_ALIGNED ptr"
| "vm_legal (Vm_free a x) s \<longleftrightarrow> a \<in> set (aspaces s)"
| "vm_legal (Vm_create mem name fl) s \<longleftrightarrow> opt_ok (\<lambda>a. \<not> ls_in_list a (vm_aspaces s)) mem"
| "vm_legal (Vm_destroy l a) s \<longleftrightarrow> a \<in> set (aspaces s) \<and> l \<notin> set (aspaces s)"
| "vm_legal (Vm_activate a) s \<longleftrightarrow> True"

inductive vm_step :: "'m arch_mmu \<Rightarrow> 'm vmm \<Rightarrow> 'm vmm \<Rightarrow> bool" for mmu where
  call: "vm_legal op s \<Longrightarrow> vm_exec mmu op s = Some (err, s') \<Longrightarrow> vm_step mmu s s'"

inductive_cases vm_stepE: "vm_step mmu s s'"

lemma vm_added_keeps:
  assumes "vmm_inv s" "a \<in> set (aspaces s)" "fresh s r" "vm_added a r (new_region name rf af n x) ps s s'" "4096 dvd unat x" "4096 dvd unat n"
  shows "vmm_inv s'"
  using vm_added_inv(1)[OF assms(1-4)] assms(5,6) by simp

lemma spot_ptr_aligned: "spot_ok s a fl (opt_addr fl ptr) al n x \<Longrightarrow> opt_ok IS_PAGE_ALIGNED ptr \<Longrightarrow> (fl AND 1 \<noteq> 0 \<Longrightarrow> ptr \<noteq> None) \<Longrightarrow> 4096 dvd x"
  using spot_ok_aligned[of s a fl "opt_addr fl ptr" al n x] by (cases ptr) (auto simp: opt_ok_def page_aligned_iff)

text \<open>Every legal call returns and keeps the invariant.\<close>

lemma vm_exec_alloc:
  assumes v: "vmm_inv s" and l: "vm_legal (Vm_alloc mem l a name sz ptr al fl af) s"
  shows "\<exists>err s'. vm_exec mmu (Vm_alloc mem l a name sz ptr al fl af) s = Some (err, s') \<and> vmm_inv s'"
proof -
  define n where "n = ROUNDUP sz 4096"
  have h: "a \<in> set (aspaces s)" "\<And>r. mem = Some r \<Longrightarrow> fresh s r \<and> r \<noteq> l" "fresh s l" "unat al < 32" "opt_ok IS_PAGE_ALIGNED ptr" using l by (auto simp: opt_ok_def)
  show ?thesis
  proof (cases "n = 0 \<or> fl AND 1 \<noteq> 0 \<and> ptr = None")
    case True
    then have "vmm_alloc mmu mem l a name sz ptr al fl af s = Some (ERR_INVALID_ARGS, ptr, s)" by (auto simp: vmm_alloc_def n_def Let_def)
    then show ?thesis using v by simp
  next
    case False
    then have n0: "n \<noteq> 0" and p: "fl AND 1 \<noteq> 0 \<Longrightarrow> ptr \<noteq> None" by auto
    have pa: "fl AND 1 \<noteq> 0 \<Longrightarrow> 4096 dvd unat (the ptr)" using p h(5) by (cases ptr) (auto simp: opt_ok_def page_aligned_iff)
    note r = vmm_alloc_ok[where mmu = mmu and mem = mem and name = name and af = af and flags = fl and ptr = ptr, OF v h(1) h(2) h(3,4) pa n_def n0 p]
    show ?thesis
    proof (cases "mem \<noteq> None \<and> (\<exists>x. spot_ok s a fl (opt_addr fl ptr) al (unat n) x) \<and> unat n div 4096 \<le> length (first_free s)")
      case True
      from r[unfolded if_P[OF True]] obtain y x s' where y: "mem = Some y" "vmm_alloc mmu mem l a name sz ptr al fl af s = Some (NO_ERROR, map_option (\<lambda>_. x) ptr, s')"
        "spot_ok s a fl (opt_addr fl ptr) al (unat n) (unat x)" "vm_added a y (new_region (opt_name name) 2 af n x) (take (unat n div 4096) (first_free s)) s s'" by blast
      have "vmm_inv s'" using vm_added_keeps[OF v h(1) _ y(4)] h(2)[OF y(1)] spot_ptr_aligned[OF y(3) h(5) p] roundup_pages[of sz] by (simp add: n_def)
      then show ?thesis using y(2) by simp
    next
      case False
      from r[unfolded if_not_P[OF False]] show ?thesis by (auto simp: vm_unchanged_def)
    qed
  qed
qed

lemma vm_exec_contiguous:
  assumes v: "vmm_inv s" and l: "vm_legal (Vm_contiguous mem l a name sz ptr al fl af) s"
  shows "\<exists>err s'. vm_exec mmu (Vm_contiguous mem l a name sz ptr al fl af) s = Some (err, s') \<and> vmm_inv s'"
proof -
  define n where "n = ROUNDUP sz 4096"
  have h: "a \<in> set (aspaces s)" "\<And>r. mem = Some r \<Longrightarrow> fresh s r \<and> r \<noteq> l" "fresh s l" "unat al < 32" "opt_ok IS_PAGE_ALIGNED ptr" using l by (auto simp: opt_ok_def)
  show ?thesis
  proof (cases "n = 0 \<or> fl AND 1 \<noteq> 0 \<and> ptr = None")
    case True
    then have "vmm_alloc_contiguous mmu mem l a name sz ptr al fl af s = Some (ERR_INVALID_ARGS, ptr, s)" by (auto simp: vmm_alloc_contiguous_def n_def Let_def)
    then show ?thesis using v by simp
  next
    case False
    then have n0: "n \<noteq> 0" and p: "fl AND 1 \<noteq> 0 \<Longrightarrow> ptr \<noteq> None" by auto
    note r = vmm_alloc_contiguous_ok[where mmu = mmu and mem = mem and name = name and af = af and flags = fl and ptr = ptr, OF v h(1) h(2) h(3,4) n_def n0 p]
    show ?thesis
    proof (cases "mem \<noteq> None \<and> (\<exists>x. spot_ok s a fl (opt_addr fl ptr) al (unat n) x) \<and> (\<exists>b i. kmap_run (vm_pmm s) (max (unat al) 12) (unat n div 4096) b i)")
      case True
      from r[unfolded if_P[OF True]] obtain y x b i s' where y: "mem = Some y" "vmm_alloc_contiguous mmu mem l a name sz ptr al fl af s = Some (NO_ERROR, map_option (\<lambda>_. x) ptr, s')"
        "spot_ok s a fl (opt_addr fl ptr) al (unat n) (unat x)" "vm_added a y (new_region (opt_name name) 2 af n x) (map (Pair b) [i..<i + unat n div 4096]) s s'" by blast
      have "vmm_inv s'" using vm_added_keeps[OF v h(1) _ y(4)] h(2)[OF y(1)] spot_ptr_aligned[OF y(3) h(5) p] roundup_pages[of sz] by (simp add: n_def)
      then show ?thesis using y(2) by simp
    next
      case False
      from r[unfolded if_not_P[OF False]] show ?thesis by (auto simp: vm_unchanged_def)
    qed
  qed
qed

lemma vm_exec_physical:
  assumes v: "vmm_inv s" and l: "vm_legal (Vm_physical mem a name n ptr al pa fl af) s"
  shows "\<exists>err s'. vm_exec mmu (Vm_physical mem a name n ptr al pa fl af) s = Some (err, s') \<and> vmm_inv s'"
proof -
  have h: "a \<in> set (aspaces s)" "\<And>r. mem = Some r \<Longrightarrow> fresh s r" "unat al < 32" "4096 dvd unat n" "4096 dvd unat pa" "opt_ok IS_PAGE_ALIGNED ptr"
    using l by (auto simp: opt_ok_def page_aligned_iff)
  show ?thesis
  proof (cases "n = 0 \<or> fl AND 1 \<noteq> 0 \<and> ptr = None")
    case True
    then show ?thesis using v h(4,5) by (auto simp: vmm_alloc_physical_def Let_def DEBUG_ASSERT_def page_aligned_iff)
  next
    case False
    then have n0: "n \<noteq> 0" and p: "fl AND 1 \<noteq> 0 \<Longrightarrow> ptr \<noteq> None" by auto
    note r = vmm_alloc_physical_ok[where mmu = mmu and mem = mem and name = name and af = af and flags = fl and ptr = ptr, OF v h(1) h(2) h(3,4) n0 h(5) p]
    show ?thesis
    proof (cases "mem \<noteq> None \<and> (\<exists>x. spot_ok s a fl (opt_addr fl ptr) al (unat n) x)")
      case True
      from r[unfolded if_P[OF True]] obtain y x s' where y: "mem = Some y" "vmm_alloc_physical mmu mem a name n ptr al pa fl af s = Some (NO_ERROR, map_option (\<lambda>_. x) ptr, s')"
        "spot_ok s a fl (opt_addr fl ptr) al (unat n) (unat x)" "vm_added a y (new_region (opt_name name) 2 af n x) [] s s'" by blast
      have "vmm_inv s'" using vm_added_keeps[OF v h(1) _ y(4)] h(2)[OF y(1)] spot_ptr_aligned[OF y(3) h(6) p] h(4) by simp
      then show ?thesis using y(2) by simp
    next
      case False
      from r[unfolded if_not_P[OF False]] show ?thesis by (auto simp: vm_unchanged_def)
    qed
  qed
qed

lemma vm_exec_reserve:
  assumes v: "vmm_inv s" and l: "vm_legal (Vm_reserve mem a name n x) s"
  shows "\<exists>err s'. vm_exec mmu (Vm_reserve mem a name n x) s = Some (err, s') \<and> vmm_inv s'"
proof -
  have h: "a \<in> set (aspaces s)" "\<And>r. mem = Some r \<Longrightarrow> fresh s r" "4096 dvd unat n" "4096 dvd unat x" using l by (auto simp: opt_ok_def page_aligned_iff)
  let ?lo = "unat (va_base (vm_aspace s a))" let ?hi = "?lo + unat (va_size (vm_aspace s a))" let ?m = "min (unat n) (?hi - unat x)"
  show ?thesis
  proof (cases "n = 0")
    case True
    then show ?thesis using v h(4) by (simp add: vmm_reserve_space_def DEBUG_ASSERT_def page_aligned_iff)
  next
    case False
    note r = vmm_reserve_space_ok[where mmu = mmu and mem = mem and name = name, OF v h(1) h(2) h(3) False h(4)]
    show ?thesis
    proof (cases "?lo \<le> unat x \<and> unat x < ?hi \<and> mem \<noteq> None \<and> room s a (unat x) ?m")
      case True
      with r obtain y s' af where y: "mem = Some y" "vmm_reserve_space mmu mem a name n x s = Some (NO_ERROR, s')" "vm_added a y (new_region (opt_name name) 1 af (of_nat ?m) x) [] s s'" by auto
      have "?m < 2 ^ 32" using unat32_lt[of n] by (simp add: min_less_iff_disj)
      then have um: "unat (of_nat ?m :: u32) = ?m" by (simp add: unat_of_nat)
      have "4096 dvd ?m" using h(3,4) vmm_invD(4)[OF v h(1)] by (auto simp: layout_def aspace_ok_def min_def intro!: dvd_diff_nat)
      then have "vmm_inv s'" using vm_added_keeps[OF v h(1) h(2)[OF y(1)] y(3) h(4)] um by simp
      then show ?thesis using y(2) by simp
    next
      case no: False
      with r v show ?thesis by (cases "?lo \<le> unat x \<and> unat x < ?hi") (auto simp: vm_unchanged_def)
    qed
  qed
qed

lemma vm_exec_ok:
  assumes v: "vmm_inv s" and l: "vm_legal op s"
  shows "\<exists>err s'. vm_exec mmu op s = Some (err, s') \<and> vmm_inv s'"
proof (cases op)
  case (Vm_free a x)
  then have a: "a \<in> set (aspaces s)" using l by simp
  show ?thesis
  proof (cases "vmm_find_region a x s")
    case None
    then show ?thesis using vmm_free_region_ok[OF v a, where x = x and mmu = mmu] v Vm_free by simp
  next
    case (Some r)
    with vmm_free_region_ok[OF v a, where x = x and mmu = mmu] obtain s' where "vmm_free_region mmu a x s = Some (NO_ERROR, s')" "vm_removed a r s s'" by auto
    then show ?thesis using vm_removed_inv(1)[OF v a] Vm_free by auto
  qed
next
  case (Vm_create mem name fl)
  then have m: "\<And>a. mem = Some a \<Longrightarrow> \<not> ls_in_list a (vm_aspaces s)" using l by (auto simp: opt_ok_def)
  show ?thesis using vmm_create_aspace_ok[where mem = mem and mmu = mmu and name = name and fl = fl, OF v m] v Vm_create by (cases mem) auto
next
  case (Vm_destroy k a)
  then have "a \<in> set (aspaces s)" "k \<notin> set (aspaces s)" "k \<noteq> a" using l by auto
  from vmm_free_aspace_ok[OF v this, of mmu] show ?thesis using Vm_destroy by auto
next
  case (Vm_activate a)
  have "vmm_inv (vmm_set_active_aspace mmu a s)" using v by (simp add: vmm_set_active_aspace_def vmm_context_switch_def vmm_inv_def layout_def spans_def)
  then show ?thesis using Vm_activate by simp
next
  case (Vm_reserve mem a name n x)
  then show ?thesis using vm_exec_reserve[OF v] l by blast
next
  case (Vm_physical mem a name n ptr al pa fl af)
  then show ?thesis using vm_exec_physical[OF v] l by blast
next
  case (Vm_contiguous mem k a name sz ptr al fl af)
  then show ?thesis using vm_exec_contiguous[OF v] l by blast
next
  case (Vm_alloc mem k a name sz ptr al fl af)
  then show ?thesis using vm_exec_alloc[OF v] l by blast
qed

lemma vm_reachable_inv:
  assumes "(vm_step mmu)\<^sup>*\<^sup>* s t" "vmm_inv s"
  shows "vmm_inv t"
  using assms
proof (induction rule: rtranclp_induct)
  case (step t u)
  from step.hyps(2) obtain op err where "vm_legal op t" "vm_exec mmu op t = Some (err, u)" by (auto elim: vm_stepE)
  then show ?case using vm_exec_ok[of t op mmu] step by auto
qed

text \<open>Before the first address space is created.\<close>

definition vm_start :: "pmm \<Rightarrow> (nat \<Rightarrow> vmm_aspace) \<Rightarrow> (nat \<Rightarrow> vmm_region) \<Rightarrow> 'm \<Rightarrow> 'm vmm" where
  "vm_start p as rg m = \<lparr>vm_pmm = p, vm_aspaces = ls_empty, vm_aspace = as, vm_regions = ls_empty, vm_region = rg, vm_current = None, vm_mmu = m\<rparr>"

lemma vm_start_inv: "pmm_inv p \<Longrightarrow> vmm_inv (vm_start p as rg m)"
  by (simp add: vmm_inv_def vm_start_def ls_ok_def ls_empty_def)

text \<open>C26: through any sequence of calls from the start of the system, the regions of an address space lie inside it and never overlap, a page of memory
  never backs two regions and is never free while it backs one, and no call that keeps the rules for callers can fail an assertion.\<close>

theorem vm_regions_never_overlap:
  assumes "pmm_inv p" "(vm_step mmu)\<^sup>*\<^sup>* (vm_start p as rg m) s" "a \<in> set (aspaces s)" "r \<in> set (regions s a)" "r' \<in> set (regions s b)" "r \<noteq> r'"
  shows "unat (va_base (vm_aspace s a)) \<le> unat (vr_base (vm_region s r)) \<and>
    unat (vr_base (vm_region s r)) + unat (vr_size (vm_region s r)) \<le> unat (va_base (vm_aspace s a)) + unat (va_size (vm_aspace s a)) \<and>
    (a = b \<longrightarrow> unat (vr_base (vm_region s r)) + unat (vr_size (vm_region s r)) \<le> unat (vr_base (vm_region s r')) \<or>
       unat (vr_base (vm_region s r')) + unat (vr_size (vm_region s r')) \<le> unat (vr_base (vm_region s r))) \<and>
    set (page_list (vm_pmm s) r) \<inter> set (page_list (vm_pmm s) r') = {} \<and> (\<forall>x \<in> set (page_list (vm_pmm s) r). \<not> pg_free (vm_pmm s) x) \<and>
    (\<forall>op. vm_legal op s \<longrightarrow> vm_exec mmu op s \<noteq> None)"
proof -
  have v: "vmm_inv s" using vm_reachable_inv[OF assms(2) vm_start_inv[OF assms(1)]] .
  let ?sp = "span (vm_region s)"
  have ord: "in_order (unat (va_base (vm_aspace s a))) (unat (va_base (vm_aspace s a)) + unat (va_size (vm_aspace s a))) (spans s a)"
    using vmm_invD(4)[OF v assms(3)] by (simp add: layout_def)
  have "?sp r \<in> set (spans s a)" using assms(4) by (simp add: spans_def)
  note i = in_order_mem[OF ord this]
  have d: "fst (?sp r) + snd (?sp r) \<le> fst (?sp r') \<or> fst (?sp r') + snd (?sp r') \<le> fst (?sp r)" if "a = b"
  proof -
    obtain ys zs where yz: "regions s a = ys @ r # zs" using split_list[OF assms(4)] by blast
    then have "r' \<in> set (ys @ zs)" using assms(5,6) that by auto
    moreover have "clear_of (map ?sp (ys @ zs)) (fst (?sp r)) (snd (?sp r))" using in_order_disjoint[of _ _ "map ?sp ys" "?sp r" "map ?sp zs"] ord yz by (simp add: spans_def)
    ultimately show ?thesis unfolding clear_of_def by (metis image_eqI list.set_map)
  qed
  have "ls_ok (pm_lists (vm_pmm s))" using vmm_invD(1)[OF v] by (simp add: pmm_inv_def)
  then have "set (page_list (vm_pmm s) r) \<inter> set (page_list (vm_pmm s) r') = {}" using ls.member_unique[of _ _ "Page_list r" "Page_list r'"] assms(6) by (metis disjoint_iff pg_head.inject(2))
  moreover have "\<forall>x \<in> set (page_list (vm_pmm s) r). \<not> pg_free (vm_pmm s) x" using vmm_invD(6)[OF v assms(4)] by blast
  moreover have "\<forall>op. vm_legal op s \<longrightarrow> vm_exec mmu op s \<noteq> None" using vm_exec_ok[OF v, where mmu = mmu] by fastforce
  ultimately show ?thesis using i d by (simp add: span_def)
qed

text \<open>Two arenas of two and four pages, the first one mapped by the kernel, and an MMU that keeps a list of what it is asked.\<close>

definition demo_arena :: "u32 \<Rightarrow> u32 \<Rightarrow> nat \<Rightarrow> pmm_arena" where
  "demo_arena base fl n = \<lparr>pa_name = ''ram'', pa_flags = fl, pa_priority = 0, pa_base = base, pa_size = of_nat n * 4096, pa_free_count = of_nat n, pa_page_array = replicate n 0\<rparr>"

definition demo_pmm :: pmm where
  "demo_pmm = \<lparr>pm_arenas = \<lparr>lcont = (\<lambda>_. [0, 1]), lon = (\<lambda>a. if a < 2 then Some () else None)\<rparr>,
     pm_arena = (\<lambda>a. if a = 0 then demo_arena 0x100000 1 2 else demo_arena 0x200000 0 4),
     pm_lists = \<lparr>lcont = (\<lambda>h. case h of Free_list a \<Rightarrow> if a = 0 then map (Pair 0) [0..<2] else if a = 1 then map (Pair 1) [0..<4] else [] | Page_list _ \<Rightarrow> []),
       lon = (\<lambda>(a, i). if a = 0 \<and> i < 2 \<or> a = 1 \<and> i < 4 then Some (Free_list a) else None)\<rparr>\<rparr>"

lemma demo_pmm_lists: "ls_ok (pm_lists demo_pmm)"
proof -
  have "(n \<in> set (lcont (pm_lists demo_pmm) h)) = (lon (pm_lists demo_pmm) n = Some h)" for n h
    by (cases n; cases h) (auto simp: demo_pmm_def)
  moreover have "distinct (lcont (pm_lists demo_pmm) h)" for h by (cases h) (simp_all add: demo_pmm_def distinct_map inj_on_def)
  ultimately show ?thesis by (simp add: ls_ok_def)
qed

lemma demo_pmm_sel [simp]:
  "arenas demo_pmm = [0, 1]" "pm_arena demo_pmm 0 = demo_arena 0x100000 1 2" "pm_arena demo_pmm (Suc 0) = demo_arena 0x200000 0 4"
  "lcont (pm_lists demo_pmm) (Free_list a) = (if a = 0 then [(0, 0), (0, 1)] else if a = 1 then [(1, 0), (1, 1), (1, 2), (1, 3)] else [])" "page_list demo_pmm m = []"
  by (simp_all add: demo_pmm_def upt_conv_Cons)

lemma demo_pmm_free: "pg_free demo_pmm (a, i) \<longleftrightarrow> a = 0 \<and> i < 2 \<or> a = 1 \<and> i < 4"
  by (auto simp: pg_free_def demo_arena_def page_is_free_def nth_replicate)

lemma demo_pmm_inv: "pmm_inv demo_pmm"
proof -
  have a: "ls_ok (pm_arenas demo_pmm)" by (auto simp: ls_ok_def demo_pmm_def)
  have "pmm_arena_ok (demo_arena 0x100000 1 2)" "pmm_arena_ok (demo_arena 0x200000 0 4)" by (simp_all add: pmm_arena_ok_def demo_arena_def)
  moreover have "arena_span (demo_arena 0x100000 1 2) \<inter> arena_span (demo_arena 0x200000 0 4) = {}" by (auto simp: arena_span_def demo_arena_def)
  moreover have "set (lcont (pm_lists demo_pmm) (Free_list h)) = {p. pg_free demo_pmm p \<and> fst p = h}" for h by (auto simp: demo_pmm_free)
  moreover have "unat (pa_free_count (demo_arena 0x100000 1 2)) = 2" "unat (pa_free_count (demo_arena 0x200000 0 4)) = 4" by (simp_all add: demo_arena_def)
  ultimately show ?thesis using a demo_pmm_lists by (auto simp: pmm_inv_def)
qed

definition demo_mmu :: "(u32 \<times> u32) list arch_mmu" where
  "demo_mmu = \<lparr>mmu_init_aspace = (\<lambda>a b n f m. (0, m)), mmu_destroy_aspace = (\<lambda>a m. m), mmu_map = (\<lambda>a va pa n f m. m @ [(va, pa)]),
     mmu_unmap = (\<lambda>a va n m. filter (\<lambda>(v, _). \<not> (va \<le> v \<and> v - va < n * 4096)) m), mmu_query = (\<lambda>a va m. (0, map_option (\<lambda>pa. (pa, 0)) (map_of m va))),
     mmu_context_switch = (\<lambda>a m. m)\<rparr>"

definition demo_start :: "(u32 \<times> u32) list vmm" where
  "demo_start = vm_start demo_pmm (\<lambda>_. \<lparr>va_name = [], va_flags = 0, va_base = 0, va_size = 0\<rparr>)
     (\<lambda>_. \<lparr>vr_name = [], vr_flags = 0, vr_arch_mmu_flags = 0, vr_base = 0, vr_size = 0\<rparr>) []"

lemma demo_start_inv: "vmm_inv demo_start"
  unfolding demo_start_def by (rule vm_start_inv[OF demo_pmm_inv])

fun vm_run :: "'m arch_mmu \<Rightarrow> vm_op list \<Rightarrow> 'm vmm \<Rightarrow> 'm vmm option" where
  "vm_run mmu [] s = Some s"
| "vm_run mmu (op # ops) s = (if vm_legal op s then Option.bind (vm_exec mmu op s) (\<lambda>(e, s). vm_run mmu ops s) else None)"

lemma vm_run_steps: "vm_run mmu ops s = Some t \<Longrightarrow> (vm_step mmu)\<^sup>*\<^sup>* s t"
proof (induction ops arbitrary: s)
  case (Cons op ops)
  then obtain e s1 where "vm_legal op s" "vm_exec mmu op s = Some (e, s1)" "vm_run mmu ops s1 = Some t" by (auto split: if_splits Option.bind_splits)
  then show ?case using Cons.IH vm_step.call by (metis converse_rtranclp_into_rtranclp)
qed simp

lemma demo_run:
  "map_option (\<lambda>s. (aspaces s, regions s 50, page_list (vm_pmm s) 60, page_list (vm_pmm s) 61, vm_mmu s))
    (vm_run demo_mmu [Vm_create (Some 50) None 1, Vm_alloc (Some 60) 70 50 None 4096 None 0 0 0, Vm_alloc (Some 61) 70 50 None 1 None 16 0 0] demo_start) =
   Some ([50], [60, 61], [(0, 0)], [(0, 1)], [(0x80000000, 0x100000), (0x80010000, 0x101000)])"
  by code_simp

theorem vm_regions_never_overlap_witness:
  "\<exists>s. (vm_step demo_mmu)\<^sup>*\<^sup>* demo_start s \<and> regions s 50 = [60, 61] \<and>
    (unat (vr_base (vm_region s 60)) + unat (vr_size (vm_region s 60)) \<le> unat (vr_base (vm_region s 61)) \<or>
     unat (vr_base (vm_region s 61)) + unat (vr_size (vm_region s 61)) \<le> unat (vr_base (vm_region s 60))) \<and>
    set (page_list (vm_pmm s) 60) \<inter> set (page_list (vm_pmm s) 61) = {} \<and> vm_exec demo_mmu (Vm_free 50 0x80010123) s \<noteq> None"
proof -
  from demo_run obtain s where run: "vm_run demo_mmu [Vm_create (Some 50) None 1, Vm_alloc (Some 60) 70 50 None 4096 None 0 0 0, Vm_alloc (Some 61) 70 50 None 1 None 16 0 0] demo_start = Some s"
    and s: "aspaces s = [50]" "regions s 50 = [60, 61]" by auto
  have st: "(vm_step demo_mmu)\<^sup>*\<^sup>* demo_start s" by (rule vm_run_steps[OF run])
  from vm_regions_never_overlap[OF demo_pmm_inv st[unfolded demo_start_def], of 50 60 61 50] s have
    "(unat (vr_base (vm_region s 60)) + unat (vr_size (vm_region s 60)) \<le> unat (vr_base (vm_region s 61)) \<or>
     unat (vr_base (vm_region s 61)) + unat (vr_size (vm_region s 61)) \<le> unat (vr_base (vm_region s 60))) \<and>
    set (page_list (vm_pmm s) 60) \<inter> set (page_list (vm_pmm s) 61) = {} \<and> (\<forall>op. vm_legal op s \<longrightarrow> vm_exec demo_mmu op s \<noteq> None)" by simp
  moreover have "vm_legal (Vm_free 50 0x80010123) s" using s(1) by simp
  ultimately show ?thesis using st s(2) by blast
qed

section \<open>Allocating and freeing regions\<close>

text \<open>C27: \<open>vmm_alloc\<close> succeeds exactly when there is an aligned gap that is large enough and the first arena has enough free pages; the region then
  goes to the lowest such gap, it owns the first pages of the free list, and each page is mapped in order. Otherwise the call
  reports \<open>ERR_NO_MEMORY\<close> and leaves everything as it was.\<close>

theorem vmm_alloc_first_fit:
  assumes "vmm_inv s" "a \<in> set (aspaces s)" "fresh s r" "fresh s l" "r \<noteq> l" "unat al < 32" "n = ROUNDUP sz 4096" "n \<noteq> 0"
  shows "if (\<exists>x. room s a x (unat n) \<and> 2 ^ max (unat al) 12 dvd x) \<and> unat n div 4096 \<le> length (first_free s)
    then \<exists>x s'. vmm_alloc mmu (Some r) l a name sz (Some v) al 0 af s = Some (NO_ERROR, Some x, s') \<and> vmm_inv s' \<and>
      room s a (unat x) (unat n) \<and> 2 ^ max (unat al) 12 dvd unat x \<and> (\<forall>w. room s a w (unat n) \<and> 2 ^ max (unat al) 12 dvd w \<longrightarrow> unat x \<le> w) \<and>
      set (regions s' a) = insert r (set (regions s a)) \<and> vr_base (vm_region s' r) = x \<and> vr_size (vm_region s' r) = n \<and>
      page_list (vm_pmm s') r = take (unat n div 4096) (first_free s) \<and>
      vm_mmu s' = map_run mmu a af x (map (page_addr (vm_pmm s)) (take (unat n div 4096) (first_free s))) (vm_mmu s)
    else \<exists>s'. vmm_alloc mmu (Some r) l a name sz (Some v) al 0 af s = Some (ERR_NO_MEMORY, Some v, s') \<and> vm_unchanged s s'"
proof -
  have m: "\<And>y. Some r = Some y \<Longrightarrow> fresh s y \<and> y \<noteq> l" and z: "(0 :: u32) AND 1 \<noteq> 0 \<Longrightarrow> 4096 dvd unat (the (Some v))" "(0 :: u32) AND 1 \<noteq> 0 \<Longrightarrow> Some v \<noteq> None"
    using assms(3,5) by auto
  have sp: "spot_ok s a 0 (opt_addr 0 (Some v)) al (unat n) x \<longleftrightarrow> room s a x (unat n) \<and> 2 ^ max (unat al) 12 dvd x" for x by (simp add: spot_ok_def)
  note r = vmm_alloc_ok[where mem = "Some r" and mmu = mmu and name = name and af = af and flags = 0 and ptr = "Some v", OF assms(1,2) m assms(4,6) z(1) assms(7,8) z(2), unfolded sp]
  show ?thesis
  proof (cases "(\<exists>x. room s a x (unat n) \<and> 2 ^ max (unat al) 12 dvd x) \<and> unat n div 4096 \<le> length (first_free s)")
    case True
    then have c: "Some r \<noteq> None \<and> (\<exists>x. room s a x (unat n) \<and> 2 ^ max (unat al) 12 dvd x) \<and> unat n div 4096 \<le> length (first_free s)" by simp
    from r[unfolded if_P[OF c]] obtain x s' where x: "vmm_alloc mmu (Some r) l a name sz (Some v) al 0 af s = Some (NO_ERROR, Some x, s')"
      "room s a (unat x) (unat n) \<and> 2 ^ max (unat al) 12 dvd unat x" "\<forall>w. room s a w (unat n) \<and> 2 ^ max (unat al) 12 dvd w \<longrightarrow> unat x \<le> w"
      "vm_added a r (new_region (opt_name name) 2 af n x) (take (unat n div 4096) (first_free s)) s s'"
      "vm_mmu s' = map_run mmu a af x (map (page_addr (vm_pmm s)) (take (unat n div 4096) (first_free s))) (vm_mmu s)" by auto
    have al: "4096 dvd unat x" "4096 dvd unat n" using x(2) power_le_dvd[of 2 "max (unat al) 12" "unat x" 12] roundup_pages[of sz] assms(7) by simp_all
    note d = vm_added_inv[OF assms(1-3) x(4), simplified, OF al]
    have "vm_region s' r = new_region (opt_name name) 2 af n x" using x(4) by (auto simp: vm_added_def placed_def dest: arg_cong[of _ _ vm_region])
    then show ?thesis unfolding if_P[OF True] using x d by (intro exI[of _ x] exI[of _ s']) simp
  next
    case False
    then have c: "\<not> (Some r \<noteq> None \<and> (\<exists>x. room s a x (unat n) \<and> 2 ^ max (unat al) 12 dvd x) \<and> unat n div 4096 \<le> length (first_free s))" by blast
    show ?thesis using r[unfolded if_not_P[OF c]] unfolding if_not_P[OF False] .
  qed
qed

text \<open>The kernel address space with a reserved range at its start.\<close>

lemma demo_reserved:
  "\<exists>s. vm_run demo_mmu [Vm_create (Some 50) None 1, Vm_reserve (Some 60) 50 (Some ''io'') 0x3000 0x80000000] demo_start = Some s \<and> vmm_inv s \<and>
    aspaces s = [50] \<and> regions s 50 = [60] \<and> spans s 50 = [(0x80000000, 0x3000)] \<and> va_base (vm_aspace s 50) = 0x80000000 \<and> va_size (vm_aspace s 50) = 0x80000000 \<and>
    first_free s = [(0, 0), (0, 1)] \<and> fresh s 61 \<and> fresh s 70"
proof -
  have "map_option (\<lambda>s. (aspaces s, regions s 50, vr_base (vm_region s 60), vr_size (vm_region s 60), va_base (vm_aspace s 50), va_size (vm_aspace s 50), first_free s, fresh s 61, fresh s 70))
    (vm_run demo_mmu [Vm_create (Some 50) None 1, Vm_reserve (Some 60) 50 (Some ''io'') 0x3000 0x80000000] demo_start) =
    Some ([50], [60], 0x80000000, 0x3000, 0x80000000, 0x80000000, [(0, 0), (0, 1)], True, True)" by code_simp
  then obtain s where run: "vm_run demo_mmu [Vm_create (Some 50) None 1, Vm_reserve (Some 60) 50 (Some ''io'') 0x3000 0x80000000] demo_start = Some s"
    and s: "aspaces s = [50]" "regions s 50 = [60]" "vr_base (vm_region s 60) = 0x80000000" "vr_size (vm_region s 60) = 0x3000" "va_base (vm_aspace s 50) = 0x80000000" "va_size (vm_aspace s 50) = 0x80000000"
      "first_free s = [(0, 0), (0, 1)]" "fresh s 61" "fresh s 70" by auto
  have "vmm_inv s" by (rule vm_reachable_inv[OF vm_run_steps[OF run] demo_start_inv])
  moreover have "spans s 50 = [(0x80000000, 0x3000)]" using s(2-4) by (simp add: spans_def span_def)
  ultimately show ?thesis using run s by blast
qed

theorem vmm_alloc_first_fit_witness:
  "\<exists>s x s'. vmm_inv s \<and> spans s 50 = [(0x80000000, 0x3000)] \<and> vmm_alloc demo_mmu (Some 61) 70 50 None 0x1001 (Some 0) 14 0 0 s = Some (NO_ERROR, Some x, s') \<and>
    room s 50 (unat x) 0x2000 \<and> 2 ^ 14 dvd unat x \<and> unat x \<le> 0x80004000 \<and> page_list (vm_pmm s') 61 = [(0, 0), (0, 1)]"
proof -
  from demo_reserved obtain s :: "(u32 \<times> u32) list vmm" where s: "vmm_inv s" "aspaces s = [50]" "spans s 50 = [(0x80000000, 0x3000)]" "va_base (vm_aspace s 50) = 0x80000000" "va_size (vm_aspace s 50) = 0x80000000"
    "first_free s = [(0, 0), (0, 1)]" "fresh s 61" "fresh s 70" by blast
  have n: "0x2000 = ROUNDUP 0x1001 4096" "(0x2000 :: u32) \<noteq> 0" by (simp_all add: ROUNDUP_def)
  have rm: "room s 50 0x80004000 0x2000" using s(3-5) by (simp add: room_def)
  have al: "max (unat (14 :: u8)) 12 = 14" by simp
  have c: "(\<exists>x. room s 50 x (unat (0x2000 :: u32)) \<and> 2 ^ max (unat (14 :: u8)) 12 dvd x) \<and> unat (0x2000 :: u32) div 4096 \<le> length (first_free s)"
    unfolding al using rm s(6) by (auto intro!: exI[of _ "0x80004000"])
  have "50 \<in> set (aspaces s)" "(61 :: nat) \<noteq> 70" "unat (14 :: u8) < 32" using s(2) by simp_all
  from vmm_alloc_first_fit[OF s(1) this(1) s(7,8) this(2,3) n, where mmu = demo_mmu and name = None and v = 0 and af = 0, unfolded if_P[OF c], unfolded al]
  obtain x s' where x: "vmm_alloc demo_mmu (Some 61) 70 50 None 0x1001 (Some 0) 14 0 0 s = Some (NO_ERROR, Some x, s')" "room s 50 (unat x) 0x2000" "2 ^ 14 dvd unat x"
    "\<forall>w. room s 50 w 0x2000 \<and> 2 ^ 14 dvd w \<longrightarrow> unat x \<le> w" "page_list (vm_pmm s') 61 = take 2 (first_free s)" by auto
  have "unat x \<le> 0x80004000" using x(4) rm by simp
  moreover have "page_list (vm_pmm s') 61 = [(0, 0), (0, 1)]" using x(5) s(6) by simp
  ultimately show ?thesis using s(1,3) x(1-3) by (intro exI[of _ s] exI[of _ x] exI[of _ s']) simp
qed

text \<open>C28: freeing a region that \<open>vmm_alloc\<close> has made, by any address inside it, finds exactly that region, unmaps its range, and gives back all address
  spaces, regions, page lists and free pages as they were before.\<close>

theorem vmm_alloc_free_roundtrip:
  assumes "vmm_inv s" "a \<in> set (aspaces s)" "fresh s r" "fresh s l" "r \<noteq> l" "unat al < 32" "flags AND 1 \<noteq> 0 \<Longrightarrow> 4096 dvd unat (the ptr)"
    and "vmm_alloc mmu (Some r) l a name sz ptr al flags af s = Some (NO_ERROR, ptr', t)"
    and "unat (vr_base (vm_region t r)) \<le> unat x" "unat x < unat (vr_base (vm_region t r)) + unat (vr_size (vm_region t r))"
  shows "\<exists>u. vmm_free_region mmu a x t = Some (NO_ERROR, u) \<and> vmm_inv u \<and> (\<forall>h. regions u h = regions s h \<and> (\<forall>y \<in> set (regions s h). vm_region u y = vm_region s y)) \<and>
    (\<forall>q. pg_free (vm_pmm u) q = pg_free (vm_pmm s) q) \<and> (\<forall>m. page_list (vm_pmm u) m = page_list (vm_pmm s) m) \<and>
    vm_mmu u = mmu_unmap mmu a (vr_base (vm_region t r)) (vr_size (vm_region t r) div 4096) (vm_mmu t)"
proof -
  define n where "n = ROUNDUP sz 4096"
  have n0: "n \<noteq> 0" and p: "flags AND 1 \<noteq> 0 \<Longrightarrow> ptr \<noteq> None" using assms(8) by (auto simp: vmm_alloc_def n_def Let_def split: if_splits)
  have m: "\<And>y. Some r = Some y \<Longrightarrow> fresh s y \<and> y \<noteq> l" using assms(3,5) by auto
  note ok = vmm_alloc_ok[where mem = "Some r" and mmu = mmu and name = name and af = af and flags = flags and ptr = ptr, OF assms(1,2) m assms(4,6,7) n_def n0 p]
  obtain y ps where y: "vm_added a r (new_region (opt_name name) 2 af n y) ps s t" "spot_ok s a flags (opt_addr flags ptr) al (unat n) (unat y)"
    using ok assms(8) by (auto split: if_splits)
  have "4096 dvd unat y" using spot_ok_aligned[OF y(2)] assms(7) by auto
  then have al: "4096 dvd unat (vr_base (new_region (opt_name name) 2 af n y))" "4096 dvd unat (vr_size (new_region (opt_name name) 2 af n y))" using roundup_pages[of sz] by (simp_all add: n_def)
  note d = vm_added_inv[OF assms(1-3) y(1) al]
  have at: "a \<in> set (aspaces t)" using y(1) assms(2) by (auto simp: vm_added_def placed_def dest: arg_cong[of _ _ vm_aspaces])
  have "r \<in> set (regions t a)" using d(2) by simp
  then have f: "vmm_find_region a x t = Some r" using vmm_find_region_ok[OF d(1) at, of x r] assms(9,10) by (simp add: span_def)
  from vmm_free_region_ok[OF d(1) at, where x = x and mmu = mmu] f obtain u where u: "vmm_free_region mmu a x t = Some (NO_ERROR, u)" "vm_removed a r t u"
    "vm_mmu u = mmu_unmap mmu a (vr_base (vm_region t r)) (vr_size (vm_region t r) div 4096) (vm_mmu t)" by auto
  show ?thesis using u(1,3) vm_removed_inv(1)[OF d(1) at u(2)] added_removed[OF assms(1-3) y(1) u(2)] by (intro exI[of _ u]) blast
qed

theorem vmm_alloc_free_roundtrip_witness:
  "\<exists>s t u. vmm_alloc demo_mmu (Some 61) 70 50 None 0x1001 (Some 0) 14 0 0 s = Some (NO_ERROR, Some 0x80004000, t) \<and> regions t 50 = [60, 61] \<and>
    vmm_free_region demo_mmu 50 0x80005123 t = Some (NO_ERROR, u) \<and> vmm_inv u \<and> regions u 50 = [60] \<and> (\<forall>q. pg_free (vm_pmm u) q = pg_free (vm_pmm s) q) \<and>
    vm_mmu u = mmu_unmap demo_mmu 50 0x80004000 2 (vm_mmu t)"
proof -
  let ?run = "vm_run demo_mmu [Vm_create (Some 50) None 1, Vm_reserve (Some 60) 50 (Some ''io'') 0x3000 0x80000000] demo_start"
  let ?alloc = "vmm_alloc demo_mmu (Some 61) 70 50 None 0x1001 (Some 0) 14 0 0"
  from demo_reserved obtain s where s: "?run = Some s" "vmm_inv s" "aspaces s = [50]" "regions s 50 = [60]" "fresh s 61" "fresh s 70" by blast
  have "map_option (\<lambda>(e, p, t). (e, p, regions t 50, vr_base (vm_region t 61), vr_size (vm_region t 61))) (Option.bind ?run ?alloc) =
    Some (0, Some 0x80004000, [60, 61], 0x80004000, 0x2000)" by code_simp
  then obtain t where t: "?alloc s = Some (NO_ERROR, Some 0x80004000, t)" "regions t 50 = [60, 61]" "vr_base (vm_region t 61) = 0x80004000" "vr_size (vm_region t 61) = 0x2000"
    using s(1) by auto
  have "50 \<in> set (aspaces s)" "(61 :: nat) \<noteq> 70" "unat (14 :: u8) < 32" using s(3) by simp_all
  from vmm_alloc_free_roundtrip[OF s(2) this(1) s(5,6) this(2,3) _ t(1), where x = "0x80005123"] t(3,4) obtain u where
    "vmm_free_region demo_mmu 50 0x80005123 t = Some (NO_ERROR, u)" "vmm_inv u" "regions u 50 = regions s 50" "\<forall>q. pg_free (vm_pmm u) q = pg_free (vm_pmm s) q"
    "vm_mmu u = mmu_unmap demo_mmu 50 0x80004000 (0x2000 div 4096) (vm_mmu t)" by (auto simp del: split_paired_All)
  moreover have "(0x2000 :: u32) div 4096 = 2" by simp
  ultimately show ?thesis using t(1,2) s(4) by (intro exI[of _ s] exI[of _ t] exI[of _ u]) simp
qed

section \<open>Physical pages\<close>

text \<open>C29: \<open>pmm_alloc_contiguous\<close> finds a run of free pages on the boundary that was asked for, in an arena that the kernel has mapped, whenever
  there is one; it takes exactly that run, and \<open>pmm_free\<close> of the list gives every page back. When there is no such run nothing changes.\<close>

theorem pmm_alloc_contiguous_exact:
  fixes count :: u32
  assumes "pmm_inv s" "unat al < 32" "0 < unat count" "unat count < 2 ^ 31" "page_list s l = []"
  shows "if \<exists>a i. kmap_run s (max (unat al) 12) (unat count) a i
    then \<exists>a i s' s''. kmap_run s (max (unat al) 12) (unat count) a i \<and>
      pmm_alloc_contiguous count al (Some l) s = Some (count, Some (pa_base (pm_arena s a) + of_nat i * 4096), s') \<and> pmm_inv s' \<and>
      page_list s' l = map (Pair a) [i..<i + unat count] \<and> (\<forall>q. pg_free s' q \<longleftrightarrow> pg_free s q \<and> \<not> (fst q = a \<and> i \<le> snd q \<and> snd q < i + unat count)) \<and>
      pmm_free l s' = Some (count, s'') \<and> pmm_inv s'' \<and> (\<forall>q. pg_free s'' q = pg_free s q) \<and> page_list s'' l = []
    else pmm_alloc_contiguous count al (Some l) s = Some (0, None, s)"
proof (cases "\<exists>a i. kmap_run s (max (unat al) 12) (unat count) a i")
  case True
  from pmm_alloc_contiguous_ok[OF assms(1-4), of "Some l", unfolded if_P[OF True]] obtain a i s' where s': "kmap_run s (max (unat al) 12) (unat count) a i"
    "pmm_alloc_contiguous count al (Some l) s = Some (count, Some (pa_base (pm_arena s a) + of_nat i * 4096), s')" "took (Some l) (map (Pair a) [i..<i + unat count]) s s'" by blast
  have fr: "pg_free s' q \<longleftrightarrow> pg_free s q \<and> \<not> (fst q = a \<and> i \<le> snd q \<and> snd q < i + unat count)" for q using tookD(3)[OF s'(3), of q] by (cases q) auto
  from took_gave[OF assms(1,5) s'(3)] obtain s'' where g: "pmm_free l s' = Some (of_nat (length (map (Pair a) [i..<i + unat count])), s'')" "pmm_inv s''"
    "\<forall>q. pg_free s'' q = pg_free s q" "\<forall>m. page_list s'' m = page_list s m" by blast
  have "pmm_free l s' = Some (count, s'')" using g(1) by simp
  moreover have "page_list s' l = map (Pair a) [i..<i + unat count]" using tookD(4)[OF s'(3), of l] assms(5) by simp
  ultimately show ?thesis unfolding if_P[OF True] using s' fr tookD(1)[OF s'(3)] g(2-4) assms(5)
    by (intro exI[of _ a] exI[of _ i] exI[of _ s'] exI[of _ s'']) (simp del: split_paired_All)
next
  case False
  then show ?thesis using pmm_alloc_contiguous_ok[OF assms(1-4), of "Some l"] by simp
qed

theorem pmm_alloc_contiguous_exact_witness:
  "\<exists>a i s' s''. kmap_run demo_pmm 13 2 a i \<and> pmm_alloc_contiguous 2 13 (Some 7) demo_pmm = Some (2, Some (pa_base (pm_arena demo_pmm a) + of_nat i * 4096), s') \<and>
    page_list s' 7 = map (Pair a) [i..<i + 2] \<and> pmm_free 7 s' = Some (2, s'') \<and> (\<forall>q. pg_free s'' q = pg_free demo_pmm q)"
proof -
  have "kmap_run demo_pmm 13 2 0 0" by (auto simp: kmap_run_def aligned_page_def run_free_def demo_arena_def page_is_free_def)
  then have c: "\<exists>a i. kmap_run demo_pmm (max (unat (13 :: u8)) 12) (unat (2 :: u32)) a i" by auto
  from pmm_alloc_contiguous_exact[OF demo_pmm_inv, of 13 2 7, unfolded if_P[OF c]] show ?thesis by (simp del: split_paired_All) blast
qed

text \<open>C31: \<open>pmm_alloc_pages\<close> means to take as many pages as it can from each arena, but an empty free list ends the whole search: when the first arena
  has too few pages, all pages of the other arenas stay free and the call returns fewer pages than there are.\<close>

theorem pmm_alloc_pages_first_arena_only:
  assumes "pmm_inv s" "arenas s = a # as" "unat (pa_free_count (pm_arena s a)) \<le> unat count"
  shows "\<exists>s'. pmm_alloc_pages count l s = Some (pa_free_count (pm_arena s a), s') \<and> (\<forall>q. pg_free s' q \<longleftrightarrow> pg_free s q \<and> fst q \<noteq> a)"
proof -
  let ?fl = "lcont (pm_lists s) (Free_list a)"
  have fl: "unat (pa_free_count (pm_arena s a)) = length ?fl" "set ?fl = {p. pg_free s p \<and> fst p = a}" using assms(1,2) by (auto simp: pmm_inv_def)
  from pmm_alloc_pages_ok[OF assms(1), of count l] assms(2) obtain s' where s': "pmm_alloc_pages count l s = Some (of_nat (min (unat count) (length ?fl)), s')"
    "took (Some l) (take (unat count) ?fl) s s'" by auto
  have "min (unat count) (length ?fl) = unat (pa_free_count (pm_arena s a))" "take (unat count) ?fl = ?fl" using assms(3) fl(1) by simp_all
  then have "pmm_alloc_pages count l s = Some (pa_free_count (pm_arena s a), s')" "took (Some l) ?fl s s'" using s' by simp_all
  moreover from this(2) have "pg_free s' q \<longleftrightarrow> pg_free s q \<and> fst q \<noteq> a" for q using tookD(3)[of "Some l" ?fl s s' q] fl(2) by auto
  ultimately show ?thesis by blast
qed

theorem pmm_alloc_pages_first_arena_only_witness:
  "\<exists>s'. pmm_alloc_pages 3 7 demo_pmm = Some (2, s') \<and> pg_free s' (1, 0) \<and> pg_free s' (1, 1)"
proof -
  have "unat (pa_free_count (pm_arena demo_pmm 0)) \<le> unat (3 :: u32)" by (simp add: demo_arena_def)
  from pmm_alloc_pages_first_arena_only[OF demo_pmm_inv demo_pmm_sel(1) this, of 7] obtain s' where
    "pmm_alloc_pages 3 7 demo_pmm = Some (pa_free_count (pm_arena demo_pmm 0), s')" "\<forall>q. pg_free s' q \<longleftrightarrow> pg_free demo_pmm q \<and> fst q \<noteq> 0" by blast
  then show ?thesis by (auto simp: demo_pmm_free demo_arena_def)
qed

section \<open>Start of the system\<close>

text \<open>C30: when the MMU can translate every page of the kernel image and of the start-up allocator, \<open>vm_init_preheap\<close> leaves the kernel address space as the
  only one, and no page of physical memory behind either range is free any more.\<close>

theorem vm_init_reserves_kernel:
  fixes mmu :: "'m arch_mmu"
  assumes p0: "pmm_inv p0" "page_list p0 l = []" "page_list p0 l' = []" "l \<noteq> l'"
    and k: "unat k_start < unat k_end" "unat k_end + 4096 \<le> 2 ^ 32" and b: "unat b_start \<le> unat b_end" "unat b_end + 4096 \<le> 2 ^ 32"
    and q: "\<And>y. unat k_start \<le> unat y \<and> unat y < unat k_end \<or> unat b_start \<le> unat y \<and> unat y < unat b_end \<Longrightarrow>
      \<exists>err fl. mmu_query mmu ka (ROUNDDOWN y 4096) (snd (mmu_init_aspace mmu ka 0x80000000 0x80000000 1 m)) = (err, Some (f (ROUNDDOWN y 4096), fl)) \<and> 0 \<le> err"
  shows "\<exists>s. vm_init_preheap mmu ka l l' k_start k_end b_start b_end (vm_start p0 as rg m) = Some s \<and> vmm_inv s \<and> aspaces s = [ka] \<and> regions s ka = [] \<and> pmm_same p0 (vm_pmm s) \<and>
    (\<forall>y x. (unat k_start \<le> unat y \<and> unat y < unat k_end \<or> unat b_start \<le> unat y \<and> unat y < unat b_end) \<and> page_valid (vm_pmm s) x \<and>
       page_addr (vm_pmm s) x = ROUNDDOWN (f (ROUNDDOWN y 4096)) 4096 \<longrightarrow> \<not> pg_free (vm_pmm s) x)"
proof -
  let ?s0 = "vm_start p0 as rg m" let ?m = "snd (mmu_init_aspace mmu ka 0x80000000 0x80000000 1 m)"
  have v0: "vmm_inv ?s0" by (rule vm_start_inv[OF p0(1)])
  have "\<not> ls_in_list ka (vm_aspaces ?s0)" by (simp add: vm_start_def ls_empty_def ls_in_list_def)
  from vmm_init_preheap_ok[OF v0 this, of mmu] obtain s1 where s1: "vmm_init_preheap mmu ka ?s0 = Some s1" "vmm_inv s1" "aspaces s1 = ka # aspaces ?s0" "regions s1 ka = []" "vm_pmm s1 = p0"
    by (auto simp: vm_start_def)
  have s1': "vm_mmu s1 = ?m" "vm_regions s1 = ls_empty" using s1(1) by (auto simp: vmm_init_preheap_def ls_initialize_def vm_start_def split: Option.bind_splits if_splits)
  have fr: "fresh s1 l" "fresh s1 l'" using p0(2,3) s1(5) s1'(2) by (simp_all add: fresh_def ls_in_list_def ls_empty_def)
  have kl: "unat (k_end - k_start) = unat k_end - unat k_start" using k(1) by (simp add: unat_sub word_le_nat_alt)
  have "unat k_start + unat (k_end - k_start) + 4096 \<le> 2 ^ 32" "0 < unat (k_end - k_start)" unfolding kl using k by linarith+
  with mark_pages_in_use_ok[OF s1(2) fr(1), of k_start "k_end - k_start" mmu ka f] q kl k(1) s1'(1) obtain p where
    p: "mark_pages_in_use mmu ka l k_start (k_end - k_start) s1 = Some (s1\<lparr>vm_pmm := p\<rparr>)" "vmm_inv (s1\<lparr>vm_pmm := p\<rparr>)" "shrunk l p0 p"
    "\<forall>y x. unat k_start \<le> unat y \<and> unat y < unat k_end \<and> page_valid p x \<and> page_addr p x = ROUNDDOWN (f (ROUNDDOWN y 4096)) 4096 \<longrightarrow> \<not> pg_free p x" by (auto simp: s1(5) simp del: split_paired_All)
  show ?thesis
  proof (cases "b_end = b_start")
    case True
    have "vm_init_preheap mmu ka l l' k_start k_end b_start b_end ?s0 = Some (s1\<lparr>vm_pmm := p\<rparr>)" using s1(1) p(1) True by (simp add: vm_init_preheap_def)
    then show ?thesis using p(2,4) s1(3,4) True shrunkD(2)[OF p(3)] by (intro exI[of _ "s1\<lparr>vm_pmm := p\<rparr>"]) (auto simp add: vm_start_def ls_empty_def simp del: split_paired_All)
  next
    case False
    let ?s2 = "s1\<lparr>vm_pmm := p\<rparr>"
    have f2: "fresh ?s2 l'" using fr(2) shrunkD(4)[OF p(3), of l'] p0(4) s1(5) by (auto simp: fresh_def)
    have lt: "unat b_start < unat b_end" using False b(1) by (simp add: word_unat_eq_iff)
    then have bl: "unat (b_end - b_start) = unat b_end - unat b_start" by (simp add: unat_sub word_le_nat_alt)
    have "unat b_start + unat (b_end - b_start) + 4096 \<le> 2 ^ 32" "0 < unat (b_end - b_start)" unfolding bl using b lt by linarith+
    with mark_pages_in_use_ok[OF p(2) f2, of b_start "b_end - b_start" mmu ka f] q bl lt s1'(1) obtain r where
      r: "mark_pages_in_use mmu ka l' b_start (b_end - b_start) ?s2 = Some (?s2\<lparr>vm_pmm := r\<rparr>)" "vmm_inv (?s2\<lparr>vm_pmm := r\<rparr>)" "shrunk l' p r"
      "\<forall>y x. unat b_start \<le> unat y \<and> unat y < unat b_end \<and> page_valid r x \<and> page_addr r x = ROUNDDOWN (f (ROUNDDOWN y 4096)) 4096 \<longrightarrow> \<not> pg_free r x" by (auto simp del: split_paired_All)
    note d = shrunkD[OF r(3)]
    have "\<not> pg_free r x" if "unat k_start \<le> unat y" "unat y < unat k_end" "page_valid r x" "page_addr r x = ROUNDDOWN (f (ROUNDDOWN y 4096)) 4096" for y x
      using p(4) that d(3)[of x] unfolding d(5) d(6) by blast
    moreover have "vm_init_preheap mmu ka l l' k_start k_end b_start b_end ?s0 = Some (?s2\<lparr>vm_pmm := r\<rparr>)" using s1(1) p(1) r(1) False by (simp add: vm_init_preheap_def)
    ultimately show ?thesis using r(2,4) s1(3,4) pmm_same_trans[OF shrunkD(2)[OF p(3)] d(2)] by (intro exI[of _ "?s2\<lparr>vm_pmm := r\<rparr>"]) (auto simp add: vm_start_def ls_empty_def simp del: split_paired_All)
  qed
qed

text \<open>An image of two pages that lies in the second arena, and nothing from the start-up allocator.\<close>

theorem vm_init_reserves_kernel_witness:
  "\<exists>s. vm_init_preheap demo_mmu 50 7 8 0x80000010 0x80001400 0x80001400 0x80001400 (vm_start demo_pmm (\<lambda>_. \<lparr>va_name = [], va_flags = 0, va_base = 0, va_size = 0\<rparr>)
      (\<lambda>_. \<lparr>vr_name = [], vr_flags = 0, vr_arch_mmu_flags = 0, vr_base = 0, vr_size = 0\<rparr>) [(0x80000000, 0x200000), (0x80001000, 0x202000)]) = Some s \<and>
    \<not> pg_free (vm_pmm s) (1, 0) \<and> \<not> pg_free (vm_pmm s) (1, 2)"
proof -
  let ?m = "[(0x80000000, 0x200000), (0x80001000, 0x202000)] :: (u32 \<times> u32) list" let ?f = "\<lambda>x. if x = 0x80000000 then 0x200000 else 0x202000 :: u32"
  let ?as = "\<lambda>_. \<lparr>va_name = [], va_flags = 0, va_base = 0, va_size = 0\<rparr>" let ?rg = "\<lambda>_. \<lparr>vr_name = [], vr_flags = 0, vr_arch_mmu_flags = 0, vr_base = 0, vr_size = 0\<rparr>"
  have page: "ROUNDDOWN y 4096 = 0x80000000 \<or> ROUNDDOWN y 4096 = 0x80001000" if "0x80000010 \<le> unat y" "unat y < 0x80001400" for y :: u32
  proof -
    have "0x80000010 div 4096 \<le> unat y div 4096" "unat y div 4096 \<le> 0x80001400 div 4096" using that by (auto intro!: div_le_mono)
    then have "unat y div 4096 = 0x80000 \<or> unat y div 4096 = 0x80001" by simp linarith
    then show ?thesis unfolding ROUNDDOWN_pages by auto
  qed
  have q: "\<exists>err fl. mmu_query demo_mmu 50 (ROUNDDOWN y 4096) (snd (mmu_init_aspace demo_mmu 50 0x80000000 0x80000000 1 ?m)) = (err, Some (?f (ROUNDDOWN y 4096), fl)) \<and> 0 \<le> err"
    if "unat (0x80000010 :: u32) \<le> unat y \<and> unat y < unat (0x80001400 :: u32) \<or> unat (0x80001400 :: u32) \<le> unat y \<and> unat y < unat (0x80001400 :: u32)" for y :: u32
    using page[of y] that by (auto simp: demo_mmu_def)
  from vm_init_reserves_kernel[where l = 7 and l' = 8 and f = ?f and mmu = demo_mmu and k_start = "0x80000010" and k_end = "0x80001400" and b_start = "0x80001400" and b_end = "0x80001400" and ka = 50 and as = ?as and rg = ?rg and m = ?m, OF demo_pmm_inv _ _ _ _ _ _ _ q]
  obtain s where s: "vm_init_preheap demo_mmu 50 7 8 0x80000010 0x80001400 0x80001400 0x80001400 (vm_start demo_pmm ?as ?rg ?m) = Some s"
    "\<forall>y x. (unat (0x80000010 :: u32) \<le> unat (y :: u32) \<and> unat y < unat (0x80001400 :: u32)) \<and> page_valid (vm_pmm s) x \<and> page_addr (vm_pmm s) x = ROUNDDOWN (?f (ROUNDDOWN y 4096)) 4096 \<longrightarrow> \<not> pg_free (vm_pmm s) x"
    "pmm_same demo_pmm (vm_pmm s)" by (auto simp del: split_paired_All)
  have pa: "page_addr (vm_pmm s) x = page_addr demo_pmm x" for x using pmm_sameD(3)[OF s(3)] by (simp add: page_addr_def)
  have "page_addr demo_pmm (1, 0) = 0x200000" "page_addr demo_pmm (1, 2) = 0x202000" by (simp_all add: page_addr_def demo_arena_def)
  moreover have "ROUNDDOWN 0x200000 4096 = 0x200000" "ROUNDDOWN 0x202000 4096 = 0x202000" "ROUNDDOWN 0x80000010 4096 = 0x80000000" "ROUNDDOWN 0x80001000 4096 = 0x80001000" by (simp_all add: ROUNDDOWN_def)
  ultimately have "\<not> pg_free (vm_pmm s) (1, 0)" "\<not> pg_free (vm_pmm s) (1, 2)"
    using s(2)[rule_format, of "0x80000010" "(1, 0)"] s(2)[rule_format, of "0x80001000" "(1, 2)"] pg_free_valid[of "vm_pmm s"] by (auto simp: pa)
  then show ?thesis using s(1) by blast
qed

end
