(* ===== verification/Spec2Isabelle.thy ===== *)
theory Spec2Isabelle
  imports Kernel_Live Kernel_Steps Port_Props Cbuf_Props Libc_Props Mem_Props Block_Props Vm_Props
begin

text \<open>
  \<^bold>\<open>The LK kernel.\<close> LK is a small preemptive kernel with libraries around it. This development models
  the kernel proper (\<^verbatim>\<open>src/kernel\<close>) with its virtual memory, its circular buffers, the portable C
  library, the memory allocators, the block devices and the block cache. Every definition is executable and is named after the C function it translates.

  \<^bold>\<open>How the parts interact.\<close> Threads sit on intrusive lists: the run queues of the scheduler, the
  wait queues of the synchronisation objects, the thread list. Everything that changes these lists
  runs under the thread lock. A blocking call puts the current thread on a wait queue and calls the
  scheduler; a waker, a timer callback or the exit of a thread puts it back on a run queue. Mutexes,
  semaphores, events, condition variables and ports are a few words of state around a wait queue;
  a circular buffer signals its reader through an event. The heap takes pages from the page
  allocator and hands out blocks of them. The virtual memory manager picks addresses in an address
  space, takes pages from the physical memory manager and hands both to the MMU of the architecture.
  The block cache reads and writes whole blocks of a block device through \<open>bio_read\<close> and \<open>bio_write\<close>;
  devices that only know whole blocks get reads and writes of any bytes from the default hooks, and a
  subdevice forwards to a part of its parent.

  \<^bold>\<open>Theories.\<close>
  \<^item> \<open>LK_Prelude\<close>: type names, lemma collections, words, lists and arrays as the components use them;
    error codes of \<^verbatim>\<open>include/err.h\<close>.
  \<^item> \<open>List_Node\<close>: \<^verbatim>\<open>include/list.h\<close> on a heap of \<open>prev\<close>/\<open>next\<close> words, with the lists that a heap
    represents. \<open>List_Store\<close>: the list contents that the kernel theories work on, the locale of what
    they rely on, and its two interpretations: the abstract store and the pointer heap.
  \<^item> \<open>Timer\<close>: \<^verbatim>\<open>kernel/timer.c\<close>. A queue of armed timers per cpu, sorted with wrap-around time.
  \<^item> \<open>Sched\<close>, \<open>Sched_Inv\<close>: the scheduler of \<^verbatim>\<open>kernel/thread.c\<close> and the cpu masks of
    \<^verbatim>\<open>kernel/mp.c\<close>; the kernel invariant and that the operations keep it.
  \<^item> \<open>Wait_Queue\<close>: blocking, waking and timeouts. \<open>Thread_Life\<close>: creation, start, sleep, exit,
    join, detach and the boot path of \<^verbatim>\<open>kernel/thread.c\<close>.
  \<^item> \<open>Sync\<close>: \<^verbatim>\<open>kernel/mutex.c\<close>, \<^verbatim>\<open>kernel/semaphore.c\<close>, \<^verbatim>\<open>kernel/event.c\<close>, \<^verbatim>\<open>kernel/cond.c\<close>.
  \<^item> \<open>Kernel_Steps\<close>: the interleaving of the threads on all cpus with interrupts, as an inductive
    step relation, its reachable states, and mutual exclusion.
  \<^item> \<open>Kernel_Props\<close>: the properties of the operations of the kernel. \<open>Demo\<close>: the states in which they
    are evaluated. \<open>Kernel_Live\<close>: every ready thread of the highest priority gets the cpu.
  \<^item> \<open>Ring\<close>, \<open>Port_Buf\<close>, \<open>Port\<close>, \<open>Port_Inv\<close>, \<open>Port_Props\<close>: \<^verbatim>\<open>kernel/port.c\<close>, from the packet buffers
    up to groups and the ownership of buffers.
  \<^item> \<open>Cbuf\<close>, \<open>Cbuf_Inv\<close>, \<open>Cbuf_Props\<close>: \<^verbatim>\<open>lib/cbuf\<close>.
  \<^item> \<open>Libc_Mem\<close>, \<open>Libc_String\<close>, \<open>Libc_Num\<close>, \<open>Libc_Props\<close>: \<^verbatim>\<open>lib/libc\<close>, the memory, string and number
    routines, each against a reference definition over lists of bytes.
  \<^item> \<open>Novm\<close>, \<open>Novm_Inv\<close>: \<^verbatim>\<open>kernel/novm/novm.c\<close> and \<^verbatim>\<open>lib/heap/page_alloc.c\<close>; the contract
    \<open>page_allocator\<close> and its interpretation on the arenas. \<open>Miniheap\<close>, \<open>Miniheap_Inv\<close>,
    \<open>Miniheap_Pages\<close>: \<^verbatim>\<open>lib/heap/miniheap\<close>, its invariant, and the heap over any page allocator
    (locale \<open>heap_pages\<close>), interpreted on the arenas. \<open>Mem_Props\<close>: the properties of both.
  \<^item> \<open>Bio\<close>, \<open>Bio_Inv\<close>, \<open>Bio_Access\<close>: \<^verbatim>\<open>lib/bio\<close> (\<^verbatim>\<open>bio.c\<close>, \<^verbatim>\<open>subdev.c\<close>, \<^verbatim>\<open>mem.c\<close>): registration and reference
    counts, the default hooks, subdevices and memory devices. \<open>Bcache\<close>, \<open>Bcache_Inv\<close>, \<open>Bcache_Spec\<close>:
    \<^verbatim>\<open>lib/bcache\<close>, its invariant and the blocks it stands for. \<open>Block_Props\<close>: the properties of both.
  \<^item> \<open>Pmm\<close>, \<open>Pmm_Inv\<close>: \<^verbatim>\<open>kernel/vm/pmm.c\<close>, arenas of physical pages. \<open>Vmm\<close>, \<open>Vmm_Inv\<close>, \<open>Vmm_Ops\<close>:
    \<^verbatim>\<open>kernel/vm/vmm.c\<close>, \<^verbatim>\<open>vm.c\<close> and \<^verbatim>\<open>bootalloc.c\<close>, address spaces and the start of the system. \<open>Vm_Props\<close>:
    the properties of both.

  \<^bold>\<open>State and effects.\<close> The kernel state is one record (\<open>kstate\<close>) with maps from ids to threads,
  timers, wait queues and list contents; \<open>Sync\<close> and \<open>Port\<close> extend it. A function that runs under the thread
  lock is one state transformer that takes the number of the cpu it runs on; a function with two
  locked regions runs them in sequence. A call that blocks
  returns \<open>Switched\<close> and pushes what is left of the caller as a frame on the stack of its thread
  (\<open>kstack\<close>); the frame runs when the thread is scheduled again, which is how the step relation
  interleaves threads. \<open>None\<close> is a panic, a failed assertion, undefined behaviour, or a loop that does
  not end (loops that may not end are partial functions; the properties show that they return).
  Results of \<open>malloc\<close> are arguments, freed objects are recorded. The calls of the block and virtual
  memory layers do not overlap (the mutexes of \<^verbatim>\<open>pmm.c\<close> and \<^verbatim>\<open>vmm.c\<close> see to that; \<^verbatim>\<open>lib/bcache\<close> leaves it to its
  callers), so each is one state transformer. The function pointers of a block device are tags of the hooks that
  the sources install, and the hooks of a driver are arguments; a cached block is its index in the
  array of blocks; a physical page is its arena and its index there; regions, address spaces and the
  lists on a caller's stack are named by numbers that the caller passes; the MMU is an argument with
  its own state.

  \<^bold>\<open>Numbers.\<close> Unsigned integers are words of their width and wrap around; signed integers are \<open>int\<close>
  where they cannot overflow, and read with \<open>sint\<close> where they can. Pointers, \<open>size_t\<close> and \<open>long\<close> have 32
  bits in the libraries, plain \<open>char\<close> is unsigned and memory is little endian, as on 32-bit ARM;
  an access to a misaligned word is \<open>None\<close>. Pages have 4096 bytes. \<open>off_t\<close> has 64 bits and is an \<open>int\<close>
  whose bounds the block devices state.

  \<^bold>\<open>Configuration.\<close> SMP, debug assertions on; both settings of the dynamic timer; the miniheap with its
  default switches and the magic word of debug builds; cache lines of 32 bytes; the default address
  spaces of \<^verbatim>\<open>include/kernel/vm.h\<close> (kernel at 0x80000000 with 2 GiB, user from 0x01000000) and the
  default \<open>arch_mmu_pick_spot\<close>.

  \<^bold>\<open>What the lemmas show.\<close> The invariants \<open>sched_inv\<close>, \<open>sync_inv\<close> and \<open>port_inv\<close> hold of every state that the
  operations reach from a good one; scheduling is by priority and round robin; wait queues are first
  in first out and time out; the timer interrupt runs exactly the callbacks that are due, in order; a mutex has one
  owner in every interleaving of the calls on mutexes, semaphores, events and condition variables; packet buffers and circular buffers
  are bounded queues; the C routines meet their references wherever the C standard defines them, up
  to the departures stated as theorems; pages and heap blocks that are in use at the same time never
  overlap, and what is freed can be used again; what is written to a device, through a subdevice or
  through the block cache, is what is read back, and the cache never evicts a block that is held or
  loses one that is dirty; the regions of an address space never overlap, an allocation of virtual
  memory takes the first gap that fits and succeeds exactly when there is one and the pages are
  there, and freeing a region restores the state.

  \<^bold>\<open>Bounds.\<close> There is no fuel. Hypotheses that bound numbers exclude wrap-around: a request to the heap
  must not overflow with its header and alignment, a timer period is below \<open>2 ^ 31\<close>, moved memory
  does not cross the sign boundary of the address space, chunks that are trimmed end below the last page.

  \<^bold>\<open>Not modelled.\<close> Tracing, statistics and debug dumps; address spaces and the context switch itself
  (a switch changes \<open>current\<close>); stack canaries; the other heaps, file systems, flash formats, the network stack, the console, formatted output and floating
  point; drivers, platforms and architecture code, of which the kernel uses the time, the timer
  hardware and the number of the cpu, all of them fields or arguments of the model.
\<close>

end
